(* ===== verification/Xv6_Prelude.thy ===== *)
theory Xv6_Prelude
  imports Main "HOL-Library.Word"
begin

text \<open>
  Shared vocabulary of the xv6 library: the machine integer types of
  \<^verbatim>\<open>kernel/types.h\<close>, the result type of kernel routines, the named collections the
  component theories put their facts into, generic facts on words, and the
  reachability scheme for step relations.
\<close>

unbundle bit_operations_syntax

section \<open>Machine integers\<close>

type_synonym uchar = "8 word"
type_synonym ushort = "16 word"
type_synonym uint32 = "32 word"
type_synonym uint64 = "64 word"

section \<open>Results of kernel routines\<close>

text \<open>
  A kernel routine returns a value, calls \<^verbatim>\<open>panic\<close> with a message, or never gets further on
  its own (it spins on a lock that another hart holds, or recurses without end). A routine
  that may give up the CPU in \<^verbatim>\<open>sleep\<close> returns an \<open>outcome\<close>: its result, or the channel it
  sleeps on, in the state at the switch to the scheduler. A channel is the address of a
  kernel object, written as the object's name and its index.
\<close>

datatype chan = Chan string nat

datatype 'a res = Ok 'a | Panic string | Hang

datatype 'a outcome = Ret 'a | Block chan

fun rbind :: "'a res \<Rightarrow> ('a \<Rightarrow> 'b res) \<Rightarrow> 'b res" where
  "rbind (Ok x) f = f x"
| "rbind (Panic m) f = Panic m"
| "rbind Hang f = Hang"

lemma rbind_cong [fundef_cong]:
  "m = m' \<Longrightarrow> (\<And>x. m' = Ok x \<Longrightarrow> f x = g x) \<Longrightarrow> rbind m f = rbind m' g"
  by (cases m') auto

lemma rbind_eq_Ok [simp]: "rbind m f = Ok y \<longleftrightarrow> (\<exists>x. m = Ok x \<and> f x = Ok y)"
  by (cases m) auto

lemma Ok_eq_rbind [simp]: "Ok y = rbind m f \<longleftrightarrow> (\<exists>x. m = Ok x \<and> f x = Ok y)"
  by (cases m) auto

lemma rbind_assoc: "rbind (rbind m f) g = rbind m (\<lambda>x. rbind (f x) g)"
  by (cases m) auto

lemma rbind_Ok_right [simp]: "rbind m Ok = m"
  by (cases m) auto

text \<open>A condition on the result of a routine that returns; \<open>post_rbind\<close> follows its sequencing.\<close>

definition post :: "'a res \<Rightarrow> ('a \<Rightarrow> bool) \<Rightarrow> bool" where
  "post m Q \<longleftrightarrow> (\<forall>x. m = Ok x \<longrightarrow> Q x)"

lemma post_simps [simp]: "post (Ok x) Q = Q x" "post (Panic e) Q" "post Hang Q"
  by (simp_all add: post_def)

lemma post_rbind: "post (rbind m f) Q \<longleftrightarrow> post m (\<lambda>x. post (f x) Q)"
  by (auto simp: post_def)

lemma postI: "(\<And>x. m = Ok x \<Longrightarrow> Q x) \<Longrightarrow> post m Q"
  by (simp add: post_def)

lemma postD: "post m Q \<Longrightarrow> m = Ok x \<Longrightarrow> Q x"
  by (simp add: post_def)

lemma post_mono: "post m P \<Longrightarrow> (\<And>x. m = Ok x \<Longrightarrow> P x \<Longrightarrow> Q x) \<Longrightarrow> post m Q"
  by (simp add: post_def)

fun is_panic :: "'a res \<Rightarrow> bool" where
  "is_panic (Panic m) = True"
| "is_panic r = False"

section \<open>Fact collections\<close>

named_theorems layout_defs "constants of param.h, memlayout.h and riscv.h"
named_theorems state_defs "definitions of kernel state updates"

section \<open>Lists\<close>

lemma find_SomeD: "find P xs = Some x \<Longrightarrow> x \<in> set xs \<and> P x"
  by (induction xs) (auto split: if_splits)

section \<open>Words\<close>

lemma unat_sub_lt: "(b :: 'a::len word) \<le> a \<Longrightarrow> unat (a - b) = unat a - unat b"
  by (rule unat_sub)

lemma unat_add_small:
  "unat (a :: 'a::len word) + unat b < 2 ^ LENGTH('a) \<Longrightarrow> unat (a + b) = unat a + unat b"
  by (simp add: unat_word_ariths)

lemma unat_of_nat_small [simp]:
  "n < 2 ^ LENGTH('a) \<Longrightarrow> unat (word_of_nat n :: 'a::len word) = n"
  by (simp add: unat_of_nat take_bit_nat_eq_self)

lemma word_of_nat_inj:
  "word_of_nat m = (word_of_nat n :: 'a::len word) \<Longrightarrow> m < 2 ^ LENGTH('a) \<Longrightarrow> n < 2 ^ LENGTH('a) \<Longrightarrow> m = n"
  by (metis unat_of_nat_small)

lemma word_diff_eq_of_nat:
  "(x :: 'a::len word) = a + word_of_nat i \<longleftrightarrow> x - a = word_of_nat i"
  by (auto simp: algebra_simps)

lemma eq_add_of_nat_iff:
  "n < 2 ^ LENGTH('a) \<Longrightarrow> (x :: 'a::len word) = a + word_of_nat n \<longleftrightarrow> unat (x - a) = n"
  by (simp only: word_diff_eq_of_nat word_unat_eq_iff [of "x - a"] unat_of_nat_small)

lemma unat_minus_1: "unat (- 1 :: 'a::len word) = 2 ^ LENGTH('a) - 1"
  by (simp only: unsigned_minus_1_eq_mask mask_eq_exp_minus_1)

lemma unat_ucast_up [simp]:
  assumes "LENGTH('a) \<le> LENGTH('b)"
  shows "unat (ucast (w :: 'a::len word) :: 'b::len word) = unat w"
proof -
  have "unat w < 2 ^ LENGTH('b)"
    by (rule less_le_trans [OF unsigned_less]) (use assms in \<open>simp add: power_increasing\<close>)
  then show ?thesis by (simp add: unsigned_ucast_eq take_bit_nat_eq_self)
qed

lemma and_mask_mod: "unat (w AND mask n :: 'a::len word) = unat w mod 2 ^ n"
  by (simp flip: take_bit_eq_mask take_bit_eq_mod add: unsigned_take_bit_eq)

lemma and_not_mask_shift: "(w AND NOT (mask n) :: 'a::len word) = push_bit n (drop_bit n w)"
  by (rule bit_eqI) (auto simp: bit_simps)

lemma unat_push_drop: "unat (push_bit n (drop_bit n w) :: 'a::len word) = unat w div 2 ^ n * 2 ^ n"
proof -
  have "unat w div 2 ^ n * 2 ^ n < 2 ^ LENGTH('a)"
    by (rule le_less_trans [OF _ unsigned_less]) (rule div_times_less_eq_dividend)
  then show ?thesis
    by (simp add: unsigned_push_bit_eq unsigned_drop_bit_eq push_bit_eq_mult [where 'a = nat]
        drop_bit_eq_div [where 'a = nat] take_bit_nat_eq_self)
qed

lemma and_not_mask_unat: "unat (w AND NOT (mask n) :: 'a::len word) = unat w div 2 ^ n * 2 ^ n"
  by (simp add: and_not_mask_shift unat_push_drop)

lemma unat_drop_bit: "unat (drop_bit n w :: 'a::len word) = unat w div 2 ^ n"
  by (simp add: unsigned_drop_bit_eq drop_bit_eq_div [where 'a = nat] take_bit_nat_eq_self)

lemma sint_uint_small: "uint (w :: uint32) < 2 ^ 31 \<Longrightarrow> sint w = uint w"
proof -
  assume "uint w < 2 ^ 31"
  moreover have "0 \<le> uint w" by simp
  ultimately have "signed_take_bit 31 (uint w) = uint w" by (intro signed_take_bit_int_eq_self) linarith+
  then show ?thesis by (simp add: sint_uint)
qed

lemma sint_of_nat_small: "k < 2 ^ 31 \<Longrightarrow> sint (word_of_nat k :: uint32) = int k"
proof -
  assume k: "k < 2 ^ 31"
  then have "uint (word_of_nat k :: uint32) = int k" by (simp add: unsigned_of_nat take_bit_nat_eq_self)
  then show ?thesis using k by (simp add: sint_uint_small)
qed

lemma scast_of_nat_small: "k < 2 ^ 31 \<Longrightarrow> scast (word_of_nat k :: uint32) = (word_of_nat k :: uint64)"
  by (simp add: scast_eq sint_of_nat_small)

section \<open>Step relations and their reachable states\<close>

text \<open>
  The concurrent parts of the kernel are step relations. A safety property holds in every
  reachable state when some invariant holds at the start and is kept by every step; the
  locale states this once, and each step relation interprets it.
\<close>

inductive reach :: "('s \<Rightarrow> bool) \<Rightarrow> ('s \<Rightarrow> 's \<Rightarrow> bool) \<Rightarrow> 's \<Rightarrow> bool"
  for init :: "'s \<Rightarrow> bool" and step :: "'s \<Rightarrow> 's \<Rightarrow> bool" where
  reach_init: "init s \<Longrightarrow> reach init step s"
| reach_step: "reach init step s \<Longrightarrow> step s t \<Longrightarrow> reach init step t"

locale step_invariant =
  fixes init :: "'s \<Rightarrow> bool" and step :: "'s \<Rightarrow> 's \<Rightarrow> bool" and inv :: "'s \<Rightarrow> bool"
  assumes inv_init: "init s \<Longrightarrow> inv s"
    and inv_step: "inv s \<Longrightarrow> step s t \<Longrightarrow> inv t"
begin

lemma inv_reach: "reach init step s \<Longrightarrow> inv s"
  by (induction rule: reach.induct) (auto intro: inv_init inv_step)

lemma inv_closure: "inv s \<Longrightarrow> step\<^sup>*\<^sup>* s t \<Longrightarrow> inv t"
  by (rotate_tac, induction rule: rtranclp_induct) (auto intro: inv_step)

end

end
