(* ===== verification/Riscv.thy ===== *)
theory Riscv
  imports Xv6_Prelude
begin

text \<open>
  The constants and macros of \<^verbatim>\<open>kernel/param.h\<close>, \<^verbatim>\<open>kernel/memlayout.h\<close> and
  \<^verbatim>\<open>kernel/riscv.h\<close> that the kernel's arithmetic rests on: page rounding, the Sv39
  page-table entry format, the split of a virtual address into table indices, and the
  layout of the user and kernel address spaces. Every macro is a 64-bit word expression,
  written as in the header.
\<close>

section \<open>param.h\<close>

definition NPROC :: nat where [layout_defs]: "NPROC = 64"
definition NCPU :: nat where [layout_defs]: "NCPU = 8"
definition NOFILE :: nat where [layout_defs]: "NOFILE = 16"
definition NFILE :: nat where [layout_defs]: "NFILE = 100"
definition NINODE :: nat where [layout_defs]: "NINODE = 50"
definition NDEV :: int where [layout_defs]: "NDEV = 10"
definition MAXOPBLOCKS :: nat where [layout_defs]: "MAXOPBLOCKS = 10"
definition LOGSIZE :: nat where [layout_defs]: "LOGSIZE = MAXOPBLOCKS * 3"
definition NBUF :: nat where [layout_defs]: "NBUF = MAXOPBLOCKS * 3"
definition FSSIZE :: nat where [layout_defs]: "FSSIZE = 2000"

section \<open>riscv.h\<close>

definition SSTATUS_SPP :: uint64 where [layout_defs]: "SSTATUS_SPP = push_bit 8 1"
definition SSTATUS_SPIE :: uint64 where [layout_defs]: "SSTATUS_SPIE = push_bit 5 1"
definition SSTATUS_SIE :: uint64 where [layout_defs]: "SSTATUS_SIE = push_bit 1 1"

definition PGSIZE :: uint64 where [layout_defs]: "PGSIZE = 4096"
definition PGSHIFT :: nat where [layout_defs]: "PGSHIFT = 12"

definition PGROUNDUP :: "uint64 \<Rightarrow> uint64" where
  "PGROUNDUP sz = (sz + PGSIZE - 1) AND NOT (PGSIZE - 1)"

definition PGROUNDDOWN :: "uint64 \<Rightarrow> uint64" where
  "PGROUNDDOWN a = a AND NOT (PGSIZE - 1)"

definition PTE_V :: uint64 where [layout_defs]: "PTE_V = push_bit 0 1"
definition PTE_R :: uint64 where [layout_defs]: "PTE_R = push_bit 1 1"
definition PTE_W :: uint64 where [layout_defs]: "PTE_W = push_bit 2 1"
definition PTE_X :: uint64 where [layout_defs]: "PTE_X = push_bit 3 1"
definition PTE_U :: uint64 where [layout_defs]: "PTE_U = push_bit 4 1"
definition PTE_A :: uint64 where [layout_defs]: "PTE_A = push_bit 6 1"

definition PA2PTE :: "uint64 \<Rightarrow> uint64" where
  "PA2PTE pa = push_bit 10 (drop_bit 12 pa)"

definition PTE2PA :: "uint64 \<Rightarrow> uint64" where
  "PTE2PA pte = push_bit 12 (drop_bit 10 pte)"

definition PTE_FLAGS :: "uint64 \<Rightarrow> uint64" where
  "PTE_FLAGS pte = pte AND 0x3FF"

definition PXMASK :: uint64 where [layout_defs]: "PXMASK = 0x1FF"
definition PXSHIFT :: "nat \<Rightarrow> nat" where [layout_defs]: "PXSHIFT level = PGSHIFT + 9 * level"

definition PX :: "nat \<Rightarrow> uint64 \<Rightarrow> uint64" where
  "PX level va = drop_bit (PXSHIFT level) va AND PXMASK"

definition MAXVA :: uint64 where [layout_defs]: "MAXVA = push_bit (9 + 9 + 9 + 12 - 1) 1"

definition SATP_SV39 :: uint64 where [layout_defs]: "SATP_SV39 = push_bit 60 8"

definition MAKE_SATP :: "uint64 \<Rightarrow> uint64" where
  "MAKE_SATP pagetable = SATP_SV39 OR drop_bit 12 pagetable"

section \<open>memlayout.h\<close>

definition UART0 :: uint64 where [layout_defs]: "UART0 = 0x10000000"
definition VIRTIO0 :: uint64 where [layout_defs]: "VIRTIO0 = 0x10001000"
definition PLIC :: uint64 where [layout_defs]: "PLIC = 0x0c000000"
definition KERNBASE :: uint64 where [layout_defs]: "KERNBASE = 0x80000000"
definition PHYSTOP :: uint64 where [layout_defs]: "PHYSTOP = KERNBASE + 128 * 1024 * 1024"
definition TRAMPOLINE :: uint64 where [layout_defs]: "TRAMPOLINE = MAXVA - PGSIZE"
definition KSTACK :: "nat \<Rightarrow> uint64" where
  "KSTACK p = TRAMPOLINE - word_of_nat p * 2 * PGSIZE - 3 * PGSIZE"
definition TRAPFRAME :: uint64 where [layout_defs]: "TRAPFRAME = TRAMPOLINE - PGSIZE"
definition USYSCALL :: uint64 where [layout_defs]: "USYSCALL = TRAPFRAME - PGSIZE"

section \<open>Page rounding\<close>

lemma PGSIZE_minus_1: "PGSIZE - 1 = mask 12"
  by (simp add: PGSIZE_def mask_eq_exp_minus_1)

lemma unat_PGSIZE [simp]: "unat PGSIZE = 4096"
  by (simp add: PGSIZE_def)

lemma unat_PGROUNDDOWN: "unat (PGROUNDDOWN a) = unat a div 4096 * 4096"
  by (simp add: PGROUNDDOWN_def PGSIZE_minus_1 and_not_mask_unat)

lemma unat_PGROUNDUP:
  assumes "unat a + 4095 < 2 ^ 64"
  shows "unat (PGROUNDUP a) = (unat a + 4095) div 4096 * 4096"
proof -
  have "unat (a + 4095) = unat a + 4095"
    using assms by (subst unat_add_small) auto
  moreover have "PGROUNDUP a = (a + 4095) AND NOT (mask 12)"
    by (simp add: PGROUNDUP_def PGSIZE_def mask_eq_exp_minus_1 add.commute)
  ultimately show ?thesis
    by (simp only: and_not_mask_unat) simp
qed

text \<open>A page-aligned address, as the kernel tests it (\<^verbatim>\<open>pa % PGSIZE\<close>).\<close>

definition pg_aligned :: "uint64 \<Rightarrow> bool" where
  "pg_aligned a \<longleftrightarrow> a mod PGSIZE = 0"

lemma pg_aligned_unat: "pg_aligned a \<longleftrightarrow> unat a mod 4096 = 0"
  by (simp add: pg_aligned_def PGSIZE_def word_arith_nat_mod unat_eq_zero flip: unat_0_iff)

lemma pg_aligned_PGROUNDDOWN [simp]: "pg_aligned (PGROUNDDOWN a)"
  by (simp add: pg_aligned_unat unat_PGROUNDDOWN)

lemma PGROUNDDOWN_aligned: "pg_aligned a \<Longrightarrow> PGROUNDDOWN a = a"
  by (auto simp: word_unat_eq_iff pg_aligned_unat unat_PGROUNDDOWN)

lemma PGROUNDDOWN_le: "PGROUNDDOWN a \<le> a"
  by (simp add: word_le_nat_alt unat_PGROUNDDOWN)

lemma PGROUNDDOWN_offset: "unat (a - PGROUNDDOWN a) = unat a mod 4096"
  by (simp add: unat_sub [OF PGROUNDDOWN_le] unat_PGROUNDDOWN minus_div_mult_eq_mod)

lemma pg_aligned_add:
  assumes "pg_aligned a" and "pg_aligned b"
  shows "pg_aligned (a + b)"
proof -
  have "unat (a + b) mod 4096 = (unat a + unat b) mod 4096"
    by (simp add: unat_word_ariths mod_mod_cancel)
  also have "\<dots> = 0"
    using assms by (auto simp: pg_aligned_unat)
  finally show ?thesis by (simp add: pg_aligned_unat)
qed

lemma pg_aligned_PGSIZE [simp]: "pg_aligned PGSIZE"
  by (simp add: pg_aligned_unat)

section \<open>Page-table entries and virtual addresses\<close>

lemma unat_PX: "unat (PX l va) = unat va div 2 ^ PXSHIFT l mod 512"
proof -
  have "PX l va = drop_bit (PXSHIFT l) va AND mask 9"
    by (simp add: PX_def PXMASK_def mask_eq_exp_minus_1)
  then show ?thesis by (simp only: and_mask_mod unat_drop_bit) simp
qed

lemma PX_less: "unat (PX l va) < 512"
  by (simp add: unat_PX)

lemma small_bits:
  assumes "unat (w :: uint64) < 2 ^ n"
  shows "take_bit n w = w"
  using assms by (simp add: take_bit_eq_self_iff_drop_bit_eq_0 unat_drop_bit flip: unat_eq_zero)

lemma PTE2PA_PA2PTE:
  assumes "pg_aligned pa" and "unat fl < 1024"
  shows "PTE2PA (PA2PTE pa OR fl) = pa"
proof -
  have "take_bit 10 fl = fl" using assms(2) small_bits [of fl 10] by simp
  then have hi: "\<not> bit fl n" if "10 \<le> n" for n
    using that by (metis bit_take_bit_iff not_le)
  have "PTE2PA (PA2PTE pa OR fl) = push_bit 12 (drop_bit 12 pa)"
    unfolding PTE2PA_def PA2PTE_def
    by (rule bit_eqI) (auto simp: bit_push_bit_iff bit_drop_bit_eq bit_or_iff hi)
  also have "\<dots> = PGROUNDDOWN pa"
    by (simp only: PGROUNDDOWN_def PGSIZE_minus_1 and_not_mask_shift)
  finally show ?thesis by (simp add: PGROUNDDOWN_aligned assms(1))
qed

lemma PTE_FLAGS_PA2PTE:
  assumes "unat fl < 1024"
  shows "PTE_FLAGS (PA2PTE pa OR fl) = fl"
proof -
  have "take_bit 10 fl = fl" using assms small_bits [of fl 10] by simp
  moreover have "PTE_FLAGS x = take_bit 10 x" for x
    by (simp add: PTE_FLAGS_def take_bit_eq_mask mask_eq_exp_minus_1)
  ultimately show ?thesis
    by (simp add: PA2PTE_def take_bit_or take_bit_push_bit)
qed

end
