(* ===== verification/Kstring.thy ===== *)
theory Kstring
  imports Riscv
begin

text \<open>
  Byte-addressed memory and \<^verbatim>\<open>kernel/string.c\<close>. Memory is a function from 64-bit
  addresses to bytes; \<^verbatim>\<open>uint64\<close> and \<^verbatim>\<open>int\<close> objects are read and written in
  little-endian order, as RISC-V does. \<^verbatim>\<open>memset\<close> and \<^verbatim>\<open>memmove\<close> are the loops of
  the source over that memory; the string routines read through C pointers, seen as
  functions from an offset to the byte there, and return the bytes they write.
\<close>

section \<open>Memory\<close>

type_synonym memory = "uint64 \<Rightarrow> uchar"

definition load_bytes :: "memory \<Rightarrow> uint64 \<Rightarrow> nat \<Rightarrow> uchar list" where
  "load_bytes m a n = map (\<lambda>i. m (a + word_of_nat i)) [0..<n]"

definition store_bytes :: "memory \<Rightarrow> uint64 \<Rightarrow> uchar list \<Rightarrow> memory" where
  "store_bytes m a bs = (\<lambda>x. if unat (x - a) < length bs then bs ! unat (x - a) else m x)"

definition le_bytes :: "nat \<Rightarrow> 'a::len word \<Rightarrow> uchar list" where
  "le_bytes n v = map (\<lambda>i. ucast (drop_bit (8 * i) v)) [0..<n]"

definition of_le_bytes :: "uchar list \<Rightarrow> 'a::len word" where
  "of_le_bytes bs = horner_sum ucast 256 bs"

definition load64 :: "memory \<Rightarrow> uint64 \<Rightarrow> uint64" where
  "load64 m a = of_le_bytes (load_bytes m a 8)"

definition store64 :: "memory \<Rightarrow> uint64 \<Rightarrow> uint64 \<Rightarrow> memory" where
  "store64 m a v = store_bytes m a (le_bytes 8 v)"

definition load32 :: "memory \<Rightarrow> uint64 \<Rightarrow> uint32" where
  "load32 m a = of_le_bytes (load_bytes m a 4)"

definition store32 :: "memory \<Rightarrow> uint64 \<Rightarrow> uint32 \<Rightarrow> memory" where
  "store32 m a v = store_bytes m a (le_bytes 4 v)"

section \<open>string.c: block operations\<close>

function memset_loop :: "memory \<Rightarrow> uint64 \<Rightarrow> uchar \<Rightarrow> nat \<Rightarrow> nat \<Rightarrow> memory" where
  "memset_loop m cdst c i n =
     (if i < n then memset_loop (m(cdst + word_of_nat i := c)) cdst c (Suc i) n else m)"
  by pat_completeness auto
termination
  by (relation "measure (\<lambda>(m, cdst, c, i, n). n - i)") auto

declare memset_loop.simps [simp del]

definition memset :: "memory \<Rightarrow> uint64 \<Rightarrow> uint32 \<Rightarrow> uint32 \<Rightarrow> memory" where
  "memset m dst c n = memset_loop m dst (ucast c) 0 (unat n)"

primrec memmove_down :: "memory \<Rightarrow> uint64 \<Rightarrow> uint64 \<Rightarrow> nat \<Rightarrow> memory" where
  "memmove_down m d s 0 = m"
| "memmove_down m d s (Suc n) = memmove_down (m(d - 1 := m (s - 1))) (d - 1) (s - 1) n"

primrec memmove_up :: "memory \<Rightarrow> uint64 \<Rightarrow> uint64 \<Rightarrow> nat \<Rightarrow> memory" where
  "memmove_up m d s 0 = m"
| "memmove_up m d s (Suc n) = memmove_up (m(d := m s)) (d + 1) (s + 1) n"

definition memmove :: "memory \<Rightarrow> uint64 \<Rightarrow> uint64 \<Rightarrow> uint32 \<Rightarrow> memory" where
  "memmove m dst src n =
     (if n = 0 then m
      else if src < dst \<and> src + ucast n > dst
      then memmove_down m (dst + ucast n) (src + ucast n) (unat n)
      else memmove_up m dst src (unat n))"

definition memcpy :: "memory \<Rightarrow> uint64 \<Rightarrow> uint64 \<Rightarrow> uint32 \<Rightarrow> memory" where
  "memcpy m dst src n = memmove m dst src n"

section \<open>string.c: strings\<close>

type_synonym cptr = "nat \<Rightarrow> uchar"

fun memcmp :: "cptr \<Rightarrow> cptr \<Rightarrow> nat \<Rightarrow> int" where
  "memcmp s1 s2 0 = 0"
| "memcmp s1 s2 (Suc n) =
     (if s1 0 \<noteq> s2 0 then uint (s1 0) - uint (s2 0)
      else memcmp (\<lambda>i. s1 (Suc i)) (\<lambda>i. s2 (Suc i)) n)"

fun strncmp :: "cptr \<Rightarrow> cptr \<Rightarrow> nat \<Rightarrow> int" where
  "strncmp p q 0 = 0"
| "strncmp p q (Suc n) =
     (if p 0 \<noteq> 0 \<and> p 0 = q 0 then strncmp (\<lambda>i. p (Suc i)) (\<lambda>i. q (Suc i)) n
      else uint (p 0) - uint (q 0))"

text \<open>The bytes \<^verbatim>\<open>strncpy\<close> and \<^verbatim>\<open>safestrcpy\<close> store from \<^verbatim>\<open>s\<close> on.\<close>

fun strncpy :: "cptr \<Rightarrow> nat \<Rightarrow> uchar list" where
  "strncpy t 0 = []"
| "strncpy t (Suc n) =
     (if t 0 \<noteq> 0 then t 0 # strncpy (\<lambda>i. t (Suc i)) n else t 0 # replicate n 0)"

fun safestrcpy_loop :: "cptr \<Rightarrow> nat \<Rightarrow> uchar list" where
  "safestrcpy_loop t 0 = [0]"
| "safestrcpy_loop t (Suc 0) = [0]"
| "safestrcpy_loop t (Suc (Suc n)) =
     (if t 0 \<noteq> 0 then t 0 # safestrcpy_loop (\<lambda>i. t (Suc i)) (Suc n) else [t 0, 0])"

definition safestrcpy :: "cptr \<Rightarrow> int \<Rightarrow> uchar list" where
  "safestrcpy t n = (if n \<le> 0 then [] else safestrcpy_loop t (nat n))"

partial_function (option) strlen_loop :: "cptr \<Rightarrow> nat \<Rightarrow> nat option" where
  "strlen_loop s n = (if s n \<noteq> 0 then strlen_loop s (Suc n) else Some n)"

definition strlen :: "cptr \<Rightarrow> nat option" where
  "strlen s = strlen_loop s 0"

text \<open>The bytes of a string literal.\<close>

definition chars :: "string \<Rightarrow> uchar list" where
  "chars t = map of_char t"

section \<open>Reading what was written\<close>

lemma length_load_bytes [simp]: "length (load_bytes m a n) = n"
  by (simp add: load_bytes_def)

lemma length_le_bytes [simp]: "length (le_bytes n v) = n"
  by (simp add: le_bytes_def)

lemma load_bytes_nth [simp]: "i < n \<Longrightarrow> load_bytes m a n ! i = m (a + word_of_nat i)"
  by (simp add: load_bytes_def)

lemma load_bytes_cong:
  "(\<And>i. i < n \<Longrightarrow> m (a + word_of_nat i) = m' (a + word_of_nat i)) \<Longrightarrow> load_bytes m a n = load_bytes m' a n"
  by (simp add: load_bytes_def)

lemma load_store_bytes:
  assumes "length bs \<le> 2 ^ 64"
  shows "load_bytes (store_bytes m a bs) a (length bs) = bs"
proof (rule nth_equalityI)
  fix i assume "i < length (load_bytes (store_bytes m a bs) a (length bs))"
  then have "i < length bs" by simp
  moreover from this assms have "unat (word_of_nat i :: uint64) = i" by simp
  ultimately show "load_bytes (store_bytes m a bs) a (length bs) ! i = bs ! i"
    by (simp add: store_bytes_def)
qed simp

lemma of_le_bytes_Cons: "of_le_bytes (b # bs) = ucast b + 256 * of_le_bytes bs"
  by (simp add: of_le_bytes_def)

lemma of_le_bytes_Nil [simp]: "of_le_bytes [] = 0"
  by (simp add: of_le_bytes_def)

lemma of_le_bytes_zero [simp]: "of_le_bytes (replicate n 0) = 0"
  by (induction n) (simp_all add: of_le_bytes_Cons)

lemma le_bytes_Suc: "le_bytes (Suc n) v = ucast v # le_bytes n (drop_bit 8 v)"
proof -
  have "[0..<Suc n] = 0 # map Suc [0..<n]"
    by (simp add: map_Suc_upt upt_conv_Cons del: upt_Suc)
  then show ?thesis
    by (simp add: le_bytes_def add.commute del: upt_Suc)
qed

lemma of_le_bytes_le_bytes:
  assumes "LENGTH('a) \<le> 8 * n"
  shows "of_le_bytes (le_bytes n (v :: 'a::len word)) = v"
proof -
  have "of_le_bytes (le_bytes n v) = take_bit (8 * n) v" for v :: "'a word"
  proof (induction n arbitrary: v)
    case 0
    then show ?case by (simp add: le_bytes_def)
  next
    case (Suc n)
    have "ucast (ucast v :: uchar) = take_bit 8 v"
      by (rule bit_eqI) (auto simp: bit_simps)
    moreover have "256 * take_bit (8 * n) (drop_bit 8 v) = push_bit 8 (take_bit (8 * n) (drop_bit 8 v))"
      by (simp add: push_bit_eq_mult mult.commute)
    moreover have "take_bit 8 v + push_bit 8 (take_bit (8 * n) (drop_bit 8 v)) = take_bit (8 * Suc n) v"
      by (subst disjunctive_add) (auto simp: bit_simps intro!: bit_eqI)
    ultimately show ?case
      by (simp add: le_bytes_Suc of_le_bytes_Cons Suc.IH)
  qed
  with assms show ?thesis
    by (simp add: take_bit_word_beyond_length_eq)
qed

lemma load64_store64_same [simp]: "load64 (store64 m a v) a = v"
  using load_store_bytes [of "le_bytes 8 v" m a]
  by (simp add: load64_def store64_def of_le_bytes_le_bytes)

lemma load32_store32_same [simp]: "load32 (store32 m a v) a = v"
  using load_store_bytes [of "le_bytes 4 v" m a]
  by (simp add: load32_def store32_def of_le_bytes_le_bytes)

lemma load64_cong:
  "(\<And>i. i < 8 \<Longrightarrow> m (a + word_of_nat i) = m' (a + word_of_nat i)) \<Longrightarrow> load64 m a = load64 m' a"
  by (simp add: load64_def cong: load_bytes_cong)

section \<open>Aligned blocks\<close>

text \<open>An aligned block of eight bytes, or of a page, is what the low bits leave out.\<close>

lemma in_block:
  assumes "unat (a :: uint64) mod d = 0" and "0 < d" and "d dvd 2 ^ 64"
  shows "unat (x - a) < d \<longleftrightarrow> unat x div d = unat a div d"
proof -
  from assms(1) obtain k where k: "unat a = d * k" by (metis mod_0_imp_dvd dvdE)
  from assms(3) obtain q where q: "(2 :: nat) ^ 64 = d * q" by (metis dvdE)
  have a: "d * k < d * q" using unsigned_less [of a, where 'a = nat] k q by simp
  then have kq: "d * Suc k \<le> d * q"
    by (metis Suc_leI mult_le_mono2 mult_less_cancel1)
  show ?thesis
  proof (cases "unat a \<le> unat x")
    case True
    then have "unat (x - a) = unat x - d * k" by (simp add: unat_sub_if' k)
    moreover have "unat x div d = k \<longleftrightarrow> unat x < d * Suc k"
      using True k assms(2) dividend_less_times_div [of d "unat x"]
      by (auto intro: div_nat_eqI)
    ultimately show ?thesis using True k assms(2) by auto
  next
    case False
    then have "unat (x - a) = unat x + d * q - d * k" by (simp add: unat_sub_if' k flip: q)
    moreover have "unat x div d < k"
      using False k assms(2) by (simp add: div_less_iff_less_mult mult.commute)
    ultimately show ?thesis using kq k assms(2) by simp
  qed
qed

lemmas in_block8 = in_block [of _ 8, simplified]

lemmas in_block4096 = in_block [of _ 4096, simplified]

definition aligned8 :: "uint64 \<Rightarrow> bool" where
  "aligned8 a \<longleftrightarrow> unat a mod 8 = 0"

lemma in_page: "pg_aligned p \<Longrightarrow> unat (x - p) < 4096 \<longleftrightarrow> PGROUNDDOWN x = p"
  by (auto simp: pg_aligned_unat in_block4096 word_unat_eq_iff [of "PGROUNDDOWN x"] unat_PGROUNDDOWN)

lemma store64_other_block:
  "aligned8 a \<Longrightarrow> unat x div 8 \<noteq> unat a div 8 \<Longrightarrow> store64 m a v x = m x"
  by (simp add: store64_def store_bytes_def in_block8 aligned8_def)

lemma aligned8_offset:
  assumes "aligned8 a" and "i < 8"
  shows "unat (a + word_of_nat i) = unat a + i"
  using assms [unfolded aligned8_def] unsigned_less [of a, where 'a = nat]
  by (subst unat_add_small) auto

lemma load64_store64:
  assumes "aligned8 a" and "aligned8 b"
  shows "load64 (store64 m a v) b = (if a = b then v else load64 m b)"
proof (cases "a = b")
  case False
  then have "unat a div 8 \<noteq> unat b div 8"
    using assms unfolding aligned8_def by (metis dvd_div_eq_iff mod_0_imp_dvd word_unat_eq_iff)
  then have "unat (b + word_of_nat i) div 8 \<noteq> unat a div 8" if "i < 8" for i
    using that assms by (auto simp: aligned8_offset div_add1_eq aligned8_def)
  with False assms show ?thesis
    by (auto intro!: load64_cong simp: store64_other_block)
qed simp

section \<open>memset and memmove against their specifications\<close>

lemma memset_loop_eq:
  assumes "n \<le> 2 ^ 64"
  shows "memset_loop m d c i n = (\<lambda>x. if i \<le> unat (x - d) \<and> unat (x - d) < n then c else m x)"
  using assms
proof (induction m d c i n rule: memset_loop.induct)
  case (1 m d c i n)
  show ?case
  proof (cases "i < n")
    case True
    have "x = d + word_of_nat i \<longleftrightarrow> unat (x - d) = i" for x
      using True "1.prems" by (intro eq_add_of_nat_iff) simp
    then have "(\<lambda>x. if Suc i \<le> unat (x - d) \<and> unat (x - d) < n then c else (m(d + word_of_nat i := c)) x) =
        (\<lambda>x. if i \<le> unat (x - d) \<and> unat (x - d) < n then c else m x)"
      using True by (auto simp: fun_eq_iff fun_upd_def)
    with True show ?thesis
      by (subst memset_loop.simps) (simp only: "1.IH" "1.prems" if_True)
  next
    case False
    then show ?thesis by (subst memset_loop.simps) (auto simp: fun_eq_iff)
  qed
qed

lemma memset_eq:
  "memset m dst c n = (\<lambda>x. if unat (x - dst) < unat n then ucast c else m x)"
proof -
  have "unat n \<le> 2 ^ 64"
    using unsigned_less [of n, where 'a = nat] by (simp add: order.trans less_imp_le)
  then show ?thesis by (simp add: memset_def memset_loop_eq)
qed

lemma store_bytes_Nil [simp]: "store_bytes m a [] = m"
  by (simp add: store_bytes_def)

lemma store_bytes_snoc:
  assumes "length xs < 2 ^ 64"
  shows "store_bytes m a (xs @ [v]) = store_bytes (m(a + word_of_nat (length xs) := v)) a xs"
proof -
  have "x = a + word_of_nat (length xs) \<longleftrightarrow> unat (x - a) = length xs" for x
    using assms by (intro eq_add_of_nat_iff) simp
  then show ?thesis
    by (auto simp: store_bytes_def fun_eq_iff nth_append less_Suc_eq)
qed

lemma store_bytes_Cons:
  assumes "length xs < 2 ^ 64 - 1"
  shows "store_bytes m a (v # xs) = store_bytes (m(a := v)) (a + 1) xs"
proof
  fix x
  have "unat (x - a) = Suc (unat (x - (a + 1)))" if "x \<noteq> a"
  proof -
    have "x - (a + 1) = (x - a) - 1" by simp
    moreover have "x - a \<noteq> 0" using that by simp
    ultimately show ?thesis by (metis unat_minus_one unat_gt_0 Suc_pred' word_gt_0)
  qed
  moreover have "unat (a - (a + 1)) = 2 ^ 64 - 1"
    using unat_minus_1 [where 'a = 64] by simp
  ultimately show "store_bytes m a (v # xs) x = store_bytes (m(a := v)) (a + 1) xs x"
    using assms by (cases "x = a") (auto simp: store_bytes_def)
qed

lemma load_bytes_upd:
  assumes "\<And>i. i < n \<Longrightarrow> d \<noteq> a + word_of_nat i"
  shows "load_bytes (m(d := v)) a n = load_bytes m a n"
  using assms by (intro load_bytes_cong) auto

lemma load_bytes_Suc: "load_bytes m a (Suc n) = m a # load_bytes m (a + 1) n"
proof -
  have "[0..<Suc n] = 0 # map Suc [0..<n]"
    by (simp add: map_Suc_upt upt_conv_Cons del: upt_Suc)
  then show ?thesis by (simp add: load_bytes_def add.assoc del: upt_Suc)
qed

lemma load_bytes_snoc: "load_bytes m a (Suc n) = load_bytes m a n @ [m (a + word_of_nat n)]"
  by (simp add: load_bytes_def)

lemma memmove_up_eq:
  assumes "n < 2 ^ 64" and "d = s \<or> n \<le> unat (d - s)"
  shows "memmove_up m d s n = store_bytes m d (load_bytes m s n)"
  using assms
proof (induction n arbitrary: m d s)
  case (Suc n)
  have "d \<noteq> (s + 1) + word_of_nat i" if "i < n" for i
    using Suc.prems that eq_add_of_nat_iff [of "Suc i" d s] by (auto simp: add.assoc)
  then have "load_bytes (m(d := m s)) (s + 1) n = load_bytes m (s + 1) n"
    by (rule load_bytes_upd)
  moreover have "d + 1 = s + 1 \<or> n \<le> unat ((d + 1) - (s + 1))"
    using Suc.prems by auto
  ultimately show ?case
    using Suc.IH [of "d + 1" "s + 1"] Suc.prems(1)
    by (simp add: load_bytes_Suc store_bytes_Cons)
qed (simp add: load_bytes_def)

lemma memmove_down_eq:
  assumes "n < 2 ^ 64" and "d = s \<or> n \<le> unat (s - d)"
  shows "memmove_down m d s n =
    store_bytes m (d - word_of_nat n) (load_bytes m (s - word_of_nat n) n)"
  using assms
proof (induction n arbitrary: m d s)
  case (Suc n)
  let ?b = "s - 1 - word_of_nat n"
  have "d - 1 \<noteq> ?b + word_of_nat i" if "i < n" for i
  proof
    assume "d - 1 = ?b + word_of_nat i"
    then have "s = d + word_of_nat (n - i)" using that by (simp add: of_nat_diff algebra_simps)
    then have "unat (s - d) = n - i" using Suc.prems(1) by (subst (asm) eq_add_of_nat_iff) auto
    with Suc.prems(2) that show False by auto
  qed
  then have "load_bytes (m(d - 1 := m (s - 1))) ?b n = load_bytes m ?b n"
    by (rule load_bytes_upd)
  moreover have "d - 1 = s - 1 \<or> n \<le> unat ((s - 1) - (d - 1))"
    using Suc.prems by auto
  moreover have "?b + word_of_nat n = s - 1" "d - 1 - word_of_nat n + word_of_nat n = d - 1"
    by simp_all
  ultimately show ?case
    using Suc.IH [of "d - 1" "s - 1"] Suc.prems(1)
    by (simp add: load_bytes_snoc store_bytes_snoc diff_diff_add)
qed (simp add: load_bytes_def)

lemma memmove_eq:
  assumes "unat src + unat n < 2 ^ 64"
  shows "memmove m dst src n = store_bytes m dst (load_bytes m src (unat n))"
proof -
  have n: "unat (ucast n :: uint64) = unat n" by simp
  then have sn: "unat (src + ucast n) = unat src + unat n"
    using assms by (subst unat_add_small) auto
  have wn: "(ucast n :: uint64) = word_of_nat (unat n)"
    by (simp add: word_unat_eq_iff)
  have lim: "unat n < 2 ^ 32" using unsigned_less [of n, where 'a = nat] by simp
  show ?thesis
  proof (cases "src < dst \<and> src + ucast n > dst")
    case True
    then have "unat n \<le> unat ((src + ucast n) - (dst + ucast n))"
      using assms lim by (auto simp: unat_sub_if' word_less_nat_alt sn)
    then have "memmove_down m (dst + ucast n) (src + ucast n) (unat n) =
        store_bytes m dst (load_bytes m src (unat n))"
      using lim by (subst memmove_down_eq) (simp_all flip: wn)
    moreover have "n \<noteq> 0" using True by auto
    ultimately show ?thesis using True by (simp add: memmove_def)
  next
    case False
    then have "dst = src \<or> unat n \<le> unat (dst - src)"
      using assms lim unsigned_less [of dst, where 'a = nat]
      by (auto simp: unat_sub_if' word_less_nat_alt word_le_nat_alt sn not_less word_unat_eq_iff [of dst])
    then have "memmove_up m dst src (unat n) = store_bytes m dst (load_bytes m src (unat n))"
      using lim by (subst memmove_up_eq) simp_all
    with False show ?thesis by (auto simp: memmove_def load_bytes_def)
  qed
qed

section \<open>Whole pages\<close>

lemma memset_page:
  "pg_aligned p \<Longrightarrow> memset m p c 4096 = (\<lambda>x. if PGROUNDDOWN x = p then ucast c else m x)"
  by (simp add: memset_eq in_page)

lemma PGROUNDDOWN_offset8:
  assumes "aligned8 a" and "i < 8"
  shows "PGROUNDDOWN (a + word_of_nat i) = PGROUNDDOWN a"
proof -
  have "(unat a + i) div 4096 = unat a div 4096"
    using assms by (simp add: div_mult2_eq [of _ 8 512, simplified] div_add1_eq [of "unat a" i 8] aligned8_def)
  then show ?thesis
    using assms by (simp add: word_unat_eq_iff [of "PGROUNDDOWN _"] unat_PGROUNDDOWN aligned8_offset)
qed

lemma load64_page:
  assumes "aligned8 a" and "\<And>x. PGROUNDDOWN x = PGROUNDDOWN a \<Longrightarrow> m' x = m x"
  shows "load64 m' a = load64 m a"
  using assms by (intro load64_cong) (simp add: PGROUNDDOWN_offset8)

lemma store64_page:
  assumes "aligned8 a" and "PGROUNDDOWN x \<noteq> PGROUNDDOWN a"
  shows "store64 m a v x = m x"
proof -
  have "unat x div 8 \<noteq> unat a div 8"
  proof
    assume "unat x div 8 = unat a div 8"
    then have "unat x div 8 div 512 = unat a div 8 div 512" by simp
    then have "unat x div 4096 = unat a div 4096" by (simp add: div_mult2_eq [of _ 8 512, simplified])
    with assms(2) show False by (simp add: word_unat_eq_iff [of "PGROUNDDOWN _"] unat_PGROUNDDOWN)
  qed
  with assms(1) show ?thesis by (rule store64_other_block)
qed

lemma pg_aligned_8 [simp]: "pg_aligned p \<Longrightarrow> aligned8 p"
proof -
  assume "pg_aligned p"
  then have "4096 dvd unat p" by (simp add: pg_aligned_unat mod_eq_0_iff_dvd)
  then have "8 dvd unat p" by (rule dvd_trans [rotated]) simp
  then show ?thesis by (simp add: aligned8_def)
qed

lemma page_store64 [simp]:
  "pg_aligned p \<Longrightarrow> PGROUNDDOWN x \<noteq> p \<Longrightarrow> store64 m p v x = m x"
  by (simp add: store64_page PGROUNDDOWN_aligned)

lemma load64_zero:
  assumes "aligned8 a" and "\<And>x. PGROUNDDOWN x = PGROUNDDOWN a \<Longrightarrow> m x = 0"
  shows "load64 m a = 0"
proof -
  have "load64 m a = load64 (\<lambda>_. 0) a"
    using assms by (intro load64_page) auto
  also have "\<dots> = of_le_bytes (replicate 8 0)"
    by (simp add: load64_def load_bytes_def map_replicate_const)
  finally show ?thesis by simp
qed

section \<open>Strings\<close>

text \<open>The bytes of the C string at \<open>p\<close>, at most \<open>n\<close> of them and without the NUL.\<close>

fun cstr :: "cptr \<Rightarrow> nat \<Rightarrow> uchar list" where
  "cstr p 0 = []"
| "cstr p (Suc n) = (if p 0 = 0 then [] else p 0 # cstr (\<lambda>i. p (Suc i)) n)"

lemma length_cstr: "length (cstr p n) \<le> n"
  by (induction p n rule: cstr.induct) auto

lemma cstr_nonzero: "0 \<notin> set (cstr p n)"
  by (induction p n rule: cstr.induct) auto

lemma strncmp_eq_0_iff: "strncmp p q n = 0 \<longleftrightarrow> cstr p n = cstr q n"
  by (induction p q n rule: strncmp.induct) (auto simp: uint_0_iff simp flip: word_uint_eq_iff)

lemma strncpy_eq: "strncpy t n = cstr t n @ replicate (n - length (cstr t n)) 0"
  by (induction t n rule: strncpy.induct) auto

lemma length_strncpy [simp]: "length (strncpy t n) = n"
  by (induction t n rule: strncpy.induct) auto

lemma cstr_nth_append:
  assumes "0 \<notin> set xs"
  shows "cstr (\<lambda>i. (xs @ replicate k 0) ! i) (length xs + k) = xs"
  using assms by (induction xs) (cases k; simp)+

lemma cstr_strncpy: "cstr (\<lambda>i. strncpy t n ! i) n = cstr t n"
  using cstr_nth_append [of "cstr t n" "n - length (cstr t n)"] cstr_nonzero [of t n] length_cstr [of t n]
  by (simp add: strncpy_eq)

lemma safestrcpy_loop_eq:
  "0 < n \<Longrightarrow> \<exists>z \<in> {[0], [0, 0]}. safestrcpy_loop t n = cstr t (n - 1) @ z \<and> length (cstr t (n - 1) @ z) \<le> n"
  by (induction t n rule: safestrcpy_loop.induct) auto

lemma strlen_loop_Some:
  assumes "s k = 0" and "n \<le> k" and "\<And>i. i < k \<Longrightarrow> s i \<noteq> 0"
  shows "strlen_loop s n = Some k"
  using assms(2)
proof (induction "k - n" arbitrary: n)
  case 0
  with assms show ?case by (subst strlen_loop.simps) simp
next
  case (Suc d)
  then have "n < k" "strlen_loop s (Suc n) = Some k" by auto
  with assms(3) show ?case by (subst strlen_loop.simps) simp
qed

section \<open>Properties\<close>

text \<open>
  C18: \<^verbatim>\<open>memmove\<close> is correct on overlapping blocks. Whatever the position of the destination,
  the bytes it writes are the bytes the source block held before the call, and no other
  byte changes; the source block must not wrap around the end of the address space.
\<close>

theorem memmove_correct:
  assumes "unat src + unat n < 2 ^ 64"
  shows "memmove m dst src n = store_bytes m dst (load_bytes m src (unat n))"
  by (rule memmove_eq [OF assms])

text \<open>An overlapping move by one byte to the right, in the middle of a memory of increasing bytes.\<close>

theorem memmove_correct_witness:
  "unat (0x100 :: uint64) + unat (3 :: uint32) < 2 ^ 64 \<and>
   memmove (\<lambda>x. ucast x) 0x101 0x100 3 0x103 = 2"
  using memmove_correct [of "0x100" 3 "\<lambda>x. ucast x" "0x101"] by (simp add: store_bytes_def)

text \<open>
  C19: the string routines that store and compare directory entry names. Copying a name with
  \<^verbatim>\<open>strncpy\<close> into a field of \<open>n\<close> bytes and comparing with \<^verbatim>\<open>strncmp\<close> decides whether the
  first \<open>n\<close> characters of the two names agree.
\<close>

theorem strncpy_strncmp:
  "length (strncpy t n) = n \<and> (strncmp s (\<lambda>i. strncpy t n ! i) n = 0 \<longleftrightarrow> cstr s n = cstr t n)"
  by (simp add: strncmp_eq_0_iff cstr_strncpy)

end
