(* ===== verification/Spinlock.thy ===== *)
theory Spinlock
  imports Riscv
begin

text \<open>
  \<^verbatim>\<open>kernel/spinlock.c\<close>: the per-hart interrupt bookkeeping of \<^verbatim>\<open>push_off\<close> and
  \<^verbatim>\<open>pop_off\<close>, and spinlocks. The first part is the code as one hart runs it; a lock
  that another hart holds makes \<^verbatim>\<open>acquire\<close> spin (\<open>Hang\<close>). The second part is the step
  relation of any number of harts that interleave at the writes of \<^verbatim>\<open>acquire\<close> and
  \<^verbatim>\<open>release\<close> to one lock; the two reads of \<^verbatim>\<open>holding\<close> are one step.
\<close>

section \<open>State\<close>

text \<open>
  \<^verbatim>\<open>struct cpu\<close> with the hart's \<^verbatim>\<open>sstatus\<close> register and its number (the \<^verbatim>\<open>tp\<close>
  register that \<^verbatim>\<open>cpuid\<close> reads). \<open>cpu_proc\<close> is the slot of the running process. The
  saved registers that \<^verbatim>\<open>swtch\<close> exchanges are not part of the model. The C type of \<^verbatim>\<open>noff\<close> is
  \<^verbatim>\<open>int\<close>, whose overflow C leaves undefined: the model counts without a bound and agrees with
  the code while the depth stays below 2^31.
\<close>

record cpu =
  cpu_id :: nat
  cpu_proc :: "nat option"
  noff :: int
  intena :: bool
  sstatus :: uint64

record spinlock =
  locked :: bool
  lk_cpu :: "nat option"

section \<open>riscv.h: interrupt enable bit\<close>

definition intr_on :: "cpu \<Rightarrow> cpu" where
  "intr_on c = c\<lparr>sstatus := sstatus c OR SSTATUS_SIE\<rparr>"

definition intr_off :: "cpu \<Rightarrow> cpu" where
  "intr_off c = c\<lparr>sstatus := sstatus c AND NOT SSTATUS_SIE\<rparr>"

definition intr_get :: "cpu \<Rightarrow> bool" where
  "intr_get c \<longleftrightarrow> sstatus c AND SSTATUS_SIE \<noteq> 0"

section \<open>spinlock.c\<close>

definition initlock :: spinlock where
  "initlock = \<lparr>locked = False, lk_cpu = None\<rparr>"

definition holding :: "spinlock \<Rightarrow> cpu \<Rightarrow> bool" where
  "holding lk c \<longleftrightarrow> locked lk \<and> lk_cpu lk = Some (cpu_id c)"

definition push_off :: "cpu \<Rightarrow> cpu" where
  "push_off c =
     (let old = intr_get c;
          c = intr_off c;
          c = (if noff c = 0 then c\<lparr>intena := old\<rparr> else c)
      in c\<lparr>noff := noff c + 1\<rparr>)"

definition pop_off :: "cpu \<Rightarrow> cpu res" where
  "pop_off c =
     (if intr_get c then Panic ''pop_off - interruptible''
      else if noff c < 1 then Panic ''pop_off''
      else let c = c\<lparr>noff := noff c - 1\<rparr>
           in Ok (if noff c = 0 \<and> intena c then intr_on c else c))"

definition acquire :: "spinlock \<Rightarrow> cpu \<Rightarrow> (spinlock \<times> cpu) res" where
  "acquire lk c =
     (let c = push_off c
      in if holding lk c then Panic ''acquire''
         else if locked lk then Hang
         else Ok (lk\<lparr>locked := True, lk_cpu := Some (cpu_id c)\<rparr>, c))"

definition release :: "spinlock \<Rightarrow> cpu \<Rightarrow> (spinlock \<times> cpu) res" where
  "release lk c =
     (if \<not> holding lk c then Panic ''release''
      else let lk = lk\<lparr>lk_cpu := None, locked := False\<rparr>
           in rbind (pop_off c) (\<lambda>c. Ok (lk, c)))"

section \<open>Matched push_off and pop_off\<close>

text \<open>
  A hart is well-formed when its nesting depth is not negative and interrupts are off
  inside every \<^verbatim>\<open>push_off\<close>. \<open>crit c\<close> is the state a completed critical section leaves:
  only the dead field \<^verbatim>\<open>intena\<close> can differ.
\<close>

definition cpu_ok :: "cpu \<Rightarrow> bool" where
  "cpu_ok c \<longleftrightarrow> 0 \<le> noff c \<and> (0 < noff c \<longrightarrow> \<not> intr_get c)"

definition crit :: "cpu \<Rightarrow> cpu" where
  "crit c = (if noff c = 0 then c\<lparr>intena := intr_get c\<rparr> else c)"

lemma bit_SSTATUS_SIE: "bit SSTATUS_SIE n \<longleftrightarrow> n = 1"
  by (simp only: SSTATUS_SIE_def bit_push_bit_iff bit_1_iff) auto

lemma SSTATUS_SIE_bit: "x AND SSTATUS_SIE = 0 \<longleftrightarrow> \<not> bit x 1"
proof -
  have "bit (x AND SSTATUS_SIE) n \<longleftrightarrow> n = 1 \<and> bit x 1" for n
    by (auto simp: bit_and_iff bit_SSTATUS_SIE)
  then show ?thesis by (metis bit_0_eq bot_apply bot_bool_def bit_eq_iff)
qed

lemma intr_get_bit: "intr_get c \<longleftrightarrow> bit (sstatus c) 1"
  by (simp add: intr_get_def SSTATUS_SIE_bit)

lemma intr_get_simps [simp]:
  "intr_get (intr_on c)" "\<not> intr_get (intr_off c)"
  by (simp_all add: intr_get_bit intr_on_def intr_off_def bit_or_iff bit_and_iff bit_not_iff
      bit_SSTATUS_SIE)

lemma intr_get_upd [simp]:
  "intr_get (c\<lparr>noff := n\<rparr>) = intr_get c" "intr_get (c\<lparr>intena := b\<rparr>) = intr_get c"
  "intr_get (c\<lparr>cpu_proc := p\<rparr>) = intr_get c"
  by (simp_all add: intr_get_def)

lemma sstatus_restore:
  "\<not> bit x 1 \<Longrightarrow> x AND NOT SSTATUS_SIE = x"
  "bit x 1 \<Longrightarrow> (x AND NOT SSTATUS_SIE) OR SSTATUS_SIE = x"
  by (auto intro!: bit_eqI simp: bit_or_iff bit_and_iff bit_not_iff bit_SSTATUS_SIE)

lemma push_off_simps [simp]:
  "cpu_id (push_off c) = cpu_id c" "cpu_proc (push_off c) = cpu_proc c"
  "noff (push_off c) = noff c + 1" "\<not> intr_get (push_off c)"
  by (simp_all add: push_off_def intr_off_def Let_def intr_get_bit bit_and_iff bit_not_iff
      bit_SSTATUS_SIE)

lemma cpu_ok_push_off: "cpu_ok c \<Longrightarrow> cpu_ok (push_off c)"
  by (simp add: cpu_ok_def)

lemma crit_simps [simp]:
  "cpu_id (crit c) = cpu_id c" "cpu_proc (crit c) = cpu_proc c" "noff (crit c) = noff c"
  "sstatus (crit c) = sstatus c" "intr_get (crit c) = intr_get c" "crit (crit c) = crit c"
  by (simp_all add: crit_def intr_get_def)

lemma cpu_ok_crit [simp]: "cpu_ok (crit c) = cpu_ok c"
  by (simp add: cpu_ok_def)

lemma pop_push:
  assumes "cpu_ok c"
  shows "pop_off (push_off c) = Ok (crit c)"
proof (cases "noff c = 0")
  case True
  then show ?thesis
    by (cases c) (auto simp: pop_off_def push_off_def crit_def Let_def intr_off_def intr_on_def
        intr_get_bit bit_and_iff bit_not_iff bit_SSTATUS_SIE sstatus_restore)
next
  case False
  with assms have "0 < noff c" "\<not> bit (sstatus c) 1"
    by (auto simp: cpu_ok_def intr_get_bit)
  then show ?thesis
    by (cases c) (auto simp: pop_off_def push_off_def crit_def Let_def intr_off_def
        intr_get_bit sstatus_restore(1))
qed

primrec push_offs :: "nat \<Rightarrow> cpu \<Rightarrow> cpu" where
  "push_offs 0 c = c"
| "push_offs (Suc n) c = push_offs n (push_off c)"

primrec pop_offs :: "nat \<Rightarrow> cpu \<Rightarrow> cpu res" where
  "pop_offs 0 c = Ok c"
| "pop_offs (Suc n) c = rbind (pop_off c) (pop_offs n)"

lemma push_offs_rev: "push_offs (Suc n) c = push_off (push_offs n c)"
  by (induction n arbitrary: c) simp_all

lemma push_offs_simps:
  "noff (push_offs n c) = noff c + int n" "cpu_ok c \<Longrightarrow> cpu_ok (push_offs n c)"
  by (induction n arbitrary: c) (simp_all add: cpu_ok_push_off)

lemma crit_push_off: "0 \<le> noff c \<Longrightarrow> crit (push_off c) = push_off c"
  by (simp add: crit_def)

lemma pop_push_offs:
  assumes "cpu_ok c"
  shows "pop_offs (Suc n) (push_offs (Suc n) c) = Ok (crit c)"
  using assms
proof (induction n)
  case 0
  then show ?case by (simp add: pop_push)
next
  case (Suc n)
  let ?c = "push_offs (Suc n) c"
  have "cpu_ok ?c" "noff ?c \<noteq> 0"
    using Suc.prems by (simp_all only: push_offs_simps) (simp add: cpu_ok_def)
  then have "pop_off (push_off ?c) = Ok ?c"
    by (simp add: pop_push crit_def)
  then have "pop_offs (Suc (Suc n)) (push_offs (Suc (Suc n)) c) = pop_offs (Suc n) ?c"
    by (simp only: push_offs_rev [of "Suc n" c] pop_offs.simps(2) [of "Suc n"] rbind.simps)
  with Suc show ?case by simp
qed

section \<open>Critical sections of one hart\<close>

definition lock_free :: "spinlock \<Rightarrow> bool" where
  "lock_free lk \<longleftrightarrow> \<not> locked lk \<and> lk_cpu lk = None"

definition held_by :: "nat \<Rightarrow> spinlock" where
  "held_by i = \<lparr>locked = True, lk_cpu = Some i\<rparr>"

lemma lock_free_iff: "lock_free lk \<longleftrightarrow> lk = initlock"
  by (cases lk) (simp add: lock_free_def initlock_def)

lemma lock_free_initlock [simp]: "lock_free initlock"
  by (simp add: lock_free_iff)

lemma acquire_free: "lock_free lk \<Longrightarrow> acquire lk c = Ok (held_by (cpu_id c), push_off c)"
  by (simp add: acquire_def lock_free_def holding_def held_by_def Let_def)

lemma release_held:
  "cpu_id c' = cpu_id c \<Longrightarrow> release (held_by (cpu_id c)) c' = rbind (pop_off c') (\<lambda>c. Ok (initlock, c))"
  by (simp add: release_def holding_def held_by_def initlock_def Let_def)

lemma release_push_off:
  "cpu_ok c \<Longrightarrow> release (held_by (cpu_id c)) (push_off c) = Ok (initlock, crit c)"
  by (simp add: release_held [of "push_off c" c] pop_push)

lemma acquire_reentrant: "locked lk \<Longrightarrow> lk_cpu lk = Some (cpu_id c) \<Longrightarrow> acquire lk c = Panic ''acquire''"
  by (simp add: acquire_def holding_def Let_def)

lemma acquire_contended: "locked lk \<Longrightarrow> lk_cpu lk \<noteq> Some (cpu_id c) \<Longrightarrow> acquire lk c = Hang"
  by (simp add: acquire_def holding_def Let_def)

section \<open>Harts competing for one lock\<close>

text \<open>
  Each hart runs \<^verbatim>\<open>acquire\<close>, a critical section and \<^verbatim>\<open>release\<close> over and over. The
  program counter names the next atomic action: \<open>Outside\<close> before \<^verbatim>\<open>push_off\<close> and the
  \<^verbatim>\<open>holding\<close> check, \<open>Swap\<close> at the \<^verbatim>\<open>amoswap\<close> loop, \<open>SetCpu\<close> before
  \<^verbatim>\<open>lk->cpu = mycpu()\<close>, \<open>Inside\<close> in the critical section (the next action is
  \<^verbatim>\<open>release\<close>'s check and \<^verbatim>\<open>lk->cpu = 0\<close>), \<open>Unlock\<close> before
  \<^verbatim>\<open>__sync_lock_release\<close>, \<open>PopOff\<close> before \<^verbatim>\<open>pop_off\<close>. \<open>Dead\<close> is a panic.
\<close>

datatype lock_pc = Outside | Swap | SetCpu | Inside | Unlock | PopOff | Dead

record lock_sys =
  the_lock :: spinlock
  harts :: "nat \<Rightarrow> cpu"
  lpc :: "nat \<Rightarrow> lock_pc"

definition lock_init :: "lock_sys \<Rightarrow> bool" where
  "lock_init s \<longleftrightarrow> the_lock s = initlock \<and> (\<forall>i. lpc s i = Outside) \<and>
     (\<forall>i. cpu_id (harts s i) = i \<and> noff (harts s i) = 0)"

inductive lock_step :: "lock_sys \<Rightarrow> lock_sys \<Rightarrow> bool" where
  acq_check: "lpc s i = Outside \<Longrightarrow> c = push_off (harts s i) \<Longrightarrow>
     lock_step s (s\<lparr>harts := (harts s)(i := c),
                    lpc := (lpc s)(i := if holding (the_lock s) c then Dead else Swap)\<rparr>)"
| acq_swap: "lpc s i = Swap \<Longrightarrow>
     lock_step s (s\<lparr>the_lock := (the_lock s)\<lparr>locked := True\<rparr>,
                    lpc := (lpc s)(i := if locked (the_lock s) then Swap else SetCpu)\<rparr>)"
| acq_cpu: "lpc s i = SetCpu \<Longrightarrow>
     lock_step s (s\<lparr>the_lock := (the_lock s)\<lparr>lk_cpu := Some (cpu_id (harts s i))\<rparr>,
                    lpc := (lpc s)(i := Inside)\<rparr>)"
| rel_check: "lpc s i = Inside \<Longrightarrow> holding (the_lock s) (harts s i) \<Longrightarrow>
     lock_step s (s\<lparr>the_lock := (the_lock s)\<lparr>lk_cpu := None\<rparr>, lpc := (lpc s)(i := Unlock)\<rparr>)"
| rel_panic: "lpc s i = Inside \<Longrightarrow> \<not> holding (the_lock s) (harts s i) \<Longrightarrow>
     lock_step s (s\<lparr>lpc := (lpc s)(i := Dead)\<rparr>)"
| rel_unlock: "lpc s i = Unlock \<Longrightarrow>
     lock_step s (s\<lparr>the_lock := (the_lock s)\<lparr>locked := False\<rparr>, lpc := (lpc s)(i := PopOff)\<rparr>)"
| rel_pop: "lpc s i = PopOff \<Longrightarrow> pop_off (harts s i) = Ok c \<Longrightarrow>
     lock_step s (s\<lparr>harts := (harts s)(i := c), lpc := (lpc s)(i := Outside)\<rparr>)"
| rel_pop_panic: "lpc s i = PopOff \<Longrightarrow> is_panic (pop_off (harts s i)) \<Longrightarrow>
     lock_step s (s\<lparr>lpc := (lpc s)(i := Dead)\<rparr>)"

inductive_cases lock_stepE: "lock_step s t"

text \<open>A hart owns the lock from the successful swap to the unlocking store.\<close>

definition owns :: "lock_pc \<Rightarrow> bool" where
  "owns p \<longleftrightarrow> p = SetCpu \<or> p = Inside \<or> p = Unlock"

definition some_owner :: "(nat \<Rightarrow> lock_pc) \<Rightarrow> bool" where
  "some_owner f \<longleftrightarrow> (\<exists>i. owns (f i))"

definition lock_inv :: "lock_sys \<Rightarrow> bool" where
  "lock_inv s \<longleftrightarrow>
     (\<forall>i. cpu_id (harts s i) = i \<and> lpc s i \<noteq> Dead \<and>
        (if lpc s i = Outside then noff (harts s i) = 0
         else noff (harts s i) = 1 \<and> \<not> intr_get (harts s i))) \<and>
     (\<forall>i j. owns (lpc s i) \<and> owns (lpc s j) \<longrightarrow> i = j) \<and>
     (locked (the_lock s) \<longleftrightarrow> some_owner (lpc s)) \<and>
     (\<forall>i. lk_cpu (the_lock s) = Some i \<longleftrightarrow> lpc s i = Inside)"

lemma lock_inv_init: "lock_init s \<Longrightarrow> lock_inv s"
  by (simp add: lock_init_def lock_inv_def initlock_def owns_def some_owner_def)

lemma lock_invD:
  assumes "lock_inv s"
  shows "cpu_id (harts s i) = i" "lpc s i \<noteq> Dead"
    "lpc s i = Outside \<Longrightarrow> noff (harts s i) = 0"
    "lpc s i \<noteq> Outside \<Longrightarrow> noff (harts s i) = 1 \<and> \<not> intr_get (harts s i)"
    "owns (lpc s i) \<Longrightarrow> owns (lpc s j) \<Longrightarrow> i = j"
    "locked (the_lock s) \<longleftrightarrow> some_owner (lpc s)"
    "lk_cpu (the_lock s) = Some i \<longleftrightarrow> lpc s i = Inside"
  using assms unfolding lock_inv_def by metis+

lemma owns_simps [simp]:
  "\<not> owns Outside" "\<not> owns Swap" "owns SetCpu" "owns Inside" "owns Unlock" "\<not> owns PopOff" "\<not> owns Dead"
  by (simp_all add: owns_def)

lemma some_owner_upd:
  "\<not> owns (f i) \<Longrightarrow> some_owner (f(i := p)) \<longleftrightarrow> owns p \<or> some_owner f"
  "owns (f i) \<Longrightarrow> owns p \<Longrightarrow> some_owner (f(i := p)) \<longleftrightarrow> some_owner f"
  "(\<And>j. owns (f j) \<Longrightarrow> j = i) \<Longrightarrow> \<not> owns p \<Longrightarrow> \<not> some_owner (f(i := p))"
  by (auto simp: some_owner_def)

lemma some_ownerI: "owns (f i) \<Longrightarrow> some_owner f"
  by (auto simp: some_owner_def)

lemma lock_invI:
  assumes "\<And>i. cpu_id (harts s i) = i" and "\<And>i. lpc s i \<noteq> Dead"
    and "\<And>i. lpc s i = Outside \<Longrightarrow> noff (harts s i) = 0"
    and "\<And>i. lpc s i \<noteq> Outside \<Longrightarrow> noff (harts s i) = 1 \<and> \<not> intr_get (harts s i)"
    and "\<And>i j. owns (lpc s i) \<Longrightarrow> owns (lpc s j) \<Longrightarrow> i = j"
    and "locked (the_lock s) \<longleftrightarrow> some_owner (lpc s)"
    and "\<And>i. lk_cpu (the_lock s) = Some i \<longleftrightarrow> lpc s i = Inside"
  shows "lock_inv s"
  using assms unfolding lock_inv_def by metis

lemma pop_off_depth1:
  "noff c = 1 \<Longrightarrow> \<not> intr_get c \<Longrightarrow> \<exists>c'. pop_off c = Ok c' \<and> noff c' = 0 \<and> cpu_id c' = cpu_id c"
  by (simp add: pop_off_def Let_def intr_on_def)

lemma lock_inv_step:
  assumes "lock_inv s" and "lock_step s t"
  shows "lock_inv t"
  using assms(2)
proof cases
  case (acq_check i c)
  note inv = lock_invD [OF assms(1)]
  have "\<not> holding (the_lock s) c"
    using inv(1,7) [of i] acq_check by (simp add: holding_def)
  then show ?thesis
    using inv acq_check by (intro lock_invI) (auto simp: some_owner_upd split: if_splits)
next
  case (acq_swap i)
  note inv = lock_invD [OF assms(1)]
  show ?thesis
  proof (cases "locked (the_lock s)")
    case True
    then show ?thesis using inv acq_swap by (intro lock_invI) (auto simp: fun_upd_idem)
  next
    case False
    then have "\<not> owns (lpc s j)" for j using inv(6) some_ownerI [of "lpc s" j] by blast
    then show ?thesis using inv acq_swap False by (intro lock_invI) (auto simp: some_owner_upd split: if_splits)
  qed
next
  case (acq_cpu i)
  note inv = lock_invD [OF assms(1)]
  have "j = i" if "owns (lpc s j)" for j using that inv(5) [of j i] acq_cpu by simp
  then show ?thesis using inv acq_cpu by (intro lock_invI) (auto simp: some_owner_upd split: if_splits)
next
  case (rel_check i)
  note inv = lock_invD [OF assms(1)]
  have "j = i" if "owns (lpc s j)" for j using that inv(5) [of j i] rel_check by simp
  then show ?thesis using inv rel_check by (intro lock_invI) (auto simp: some_owner_upd split: if_splits)
next
  case (rel_panic i)
  note inv = lock_invD [OF assms(1)]
  have "holding (the_lock s) (harts s i)"
    using inv(1) [of i] inv(7) [of i] inv(6) some_ownerI [of "lpc s" i] rel_panic
    by (simp add: holding_def)
  with rel_panic show ?thesis by simp
next
  case (rel_unlock i)
  note inv = lock_invD [OF assms(1)]
  have "j = i" if "owns (lpc s j)" for j using that inv(5) [of j i] rel_unlock by simp
  then show ?thesis using inv rel_unlock by (intro lock_invI) (auto simp: some_owner_upd split: if_splits)
next
  case (rel_pop i c)
  note inv = lock_invD [OF assms(1)]
  have "noff c = 0" "cpu_id c = i"
    using pop_off_depth1 [of "harts s i"] inv(1) [of i] inv(4) [of i] rel_pop by auto
  then show ?thesis using inv rel_pop by (intro lock_invI) (auto simp: some_owner_upd split: if_splits)
next
  case (rel_pop_panic i)
  then show ?thesis
    using pop_off_depth1 [of "harts s i"] lock_invD(4) [OF assms(1), of i] by auto
qed

interpretation lock_ts: step_invariant lock_init lock_step lock_inv
  by unfold_locales (auto intro: lock_inv_init lock_inv_step)

section \<open>Properties\<close>

text \<open>
  C8: spinlocks give mutual exclusion. However many harts run \<^verbatim>\<open>acquire\<close>, a critical section
  and \<^verbatim>\<open>release\<close>, interleaved at every write to the lock: at most one of them is
  between its successful swap and its unlocking store, the lock word is set exactly when
  one is, the owner field names exactly the hart in its critical section, none of the
  panics of \<^verbatim>\<open>acquire\<close>, \<^verbatim>\<open>release\<close> and \<^verbatim>\<open>pop_off\<close> is reached, and a hart that is not
  outside has its interrupts off.
\<close>

theorem mutual_exclusion:
  assumes "reach lock_init lock_step s"
  shows "(owns (lpc s i) \<and> owns (lpc s j) \<longrightarrow> i = j) \<and> (locked (the_lock s) \<longleftrightarrow> (\<exists>k. owns (lpc s k))) \<and>
    (lk_cpu (the_lock s) = Some i \<longleftrightarrow> lpc s i = Inside) \<and>
    lpc s i \<noteq> Dead \<and> (lpc s i \<noteq> Outside \<longrightarrow> \<not> intr_get (harts s i))"
  using lock_invD [OF lock_ts.inv_reach [OF assms]] by (auto simp: some_owner_def)

definition two_harts :: lock_sys where
  "two_harts = \<lparr>the_lock = initlock,
     harts = (\<lambda>i. \<lparr>cpu_id = i, cpu_proc = None, noff = 0, intena = False, sstatus = SSTATUS_SIE\<rparr>),
     lpc = (\<lambda>_. Outside)\<rparr>"

lemma two_harts_reach:
  "reach lock_init lock_step (two_harts\<lparr>harts := (harts two_harts)(0 := push_off (harts two_harts 0)),
     lpc := (lpc two_harts)(0 := Swap)\<rparr>)"
proof -
  have "reach lock_init lock_step two_harts"
    by (rule reach_init) (simp add: lock_init_def two_harts_def)
  then show ?thesis
    by (rule reach_step) (use lock_step.acq_check [of two_harts 0] in \<open>simp add: two_harts_def holding_def initlock_def\<close>)
qed

theorem mutual_exclusion_witness:
  "\<exists>s. reach lock_init lock_step s \<and> lpc s 0 = Swap \<and> lpc s 1 = Outside \<and> \<not> intr_get (harts s 0)"
  using mutual_exclusion [OF two_harts_reach, of 0 1] two_harts_reach by (auto simp: two_harts_def)

text \<open>
  C17: \<^verbatim>\<open>push_off\<close> and \<^verbatim>\<open>pop_off\<close> nest. After any number of \<^verbatim>\<open>push_off\<close>s that keeps the depth
  in the range of the C \<^verbatim>\<open>int\<close> that holds it, the depth has gone up by that number and never
  left the range on the way, interrupts are off, and as many \<^verbatim>\<open>pop_off\<close>s do not panic and give
  back the processor state, the interrupt enable bit included (\<open>crit\<close> differs from the
  identity only in the field \<^verbatim>\<open>intena\<close>, which is dead at depth 0).
\<close>

theorem push_off_pop_off_nest:
  assumes "cpu_ok c" and "noff c + int (Suc n) < 2 ^ 31"
  shows "\<not> intr_get (push_offs (Suc n) c) \<and> noff (push_offs (Suc n) c) = noff c + int (Suc n) \<and>
    (\<forall>k \<le> Suc n. 0 \<le> noff (push_offs k c) \<and> noff (push_offs k c) < 2 ^ 31) \<and>
    pop_offs (Suc n) (push_offs (Suc n) c) = Ok (crit c) \<and> intr_get (crit c) = intr_get c \<and> noff (crit c) = noff c"
proof (intro conjI allI impI)
  show "\<not> intr_get (push_offs (Suc n) c)" "pop_offs (Suc n) (push_offs (Suc n) c) = Ok (crit c)"
    "intr_get (crit c) = intr_get c" "noff (crit c) = noff c"
    using pop_push_offs [OF assms(1), of n] by (simp_all only: push_offs_rev crit_simps) simp
  show "noff (push_offs (Suc n) c) = noff c + int (Suc n)" by (rule push_offs_simps)
  show "0 \<le> noff (push_offs k c)" "noff (push_offs k c) < 2 ^ 31" if "k \<le> Suc n" for k
    using assms that by (simp_all add: push_offs_simps cpu_ok_def)
qed

theorem push_off_pop_off_nest_witness:
  "pop_offs 2 (push_offs 2 \<lparr>cpu_id = 0, cpu_proc = None, noff = 0, intena = False, sstatus = SSTATUS_SIE\<rparr>) =
   Ok \<lparr>cpu_id = 0, cpu_proc = None, noff = 0, intena = True, sstatus = SSTATUS_SIE\<rparr>"
  using push_off_pop_off_nest [of "\<lparr>cpu_id = 0, cpu_proc = None, noff = 0, intena = False, sstatus = SSTATUS_SIE\<rparr>" 1]
  by (simp add: cpu_ok_def crit_def intr_get_def numeral_2_eq_2 SSTATUS_SIE_def)

end
