(* ===== verification/Kalloc.thy ===== *)
theory Kalloc
  imports Kstring Spinlock
begin

text \<open>
  \<^verbatim>\<open>kernel/kalloc.c\<close>: the physical page allocator. Free pages are linked through their
  own first eight bytes, so the free list lives in the memory it manages. The theory
  gives the interface other components rely on (\<open>page_allocator\<close>) and shows that
  \<^verbatim>\<open>kalloc\<close> and \<^verbatim>\<open>kfree\<close> implement it.
\<close>

section \<open>State and operations\<close>

text \<open>
  The executing hart, physical memory, the linker symbol \<^verbatim>\<open>end\<close> (first address after the
  kernel image) and the fields of \<^verbatim>\<open>kmem\<close>. Components above extend this record.
\<close>

record machine =
  mycpu :: cpu
  mem :: memory
  kend :: uint64
  kmem_lock :: spinlock
  freelist :: uint64

definition kmem_acquire :: "'a machine_scheme \<Rightarrow> 'a machine_scheme res" where
  "kmem_acquire s = rbind (acquire (kmem_lock s) (mycpu s)) (\<lambda>(lk, c). Ok (s\<lparr>kmem_lock := lk, mycpu := c\<rparr>))"

definition kmem_release :: "'a machine_scheme \<Rightarrow> 'a machine_scheme res" where
  "kmem_release s = rbind (release (kmem_lock s) (mycpu s)) (\<lambda>(lk, c). Ok (s\<lparr>kmem_lock := lk, mycpu := c\<rparr>))"

definition kfree :: "uint64 \<Rightarrow> 'a machine_scheme \<Rightarrow> 'a machine_scheme res" where
  "kfree pa s =
     (if pa mod PGSIZE \<noteq> 0 \<or> pa < kend s \<or> pa \<ge> PHYSTOP then Panic ''kfree''
      else let s = s\<lparr>mem := memset (mem s) pa 1 4096\<rparr>
           in rbind (kmem_acquire s) (\<lambda>s.
              let s = s\<lparr>mem := store64 (mem s) pa (freelist s), freelist := pa\<rparr>
              in kmem_release s))"

definition kalloc :: "'a machine_scheme \<Rightarrow> (uint64 \<times> 'a machine_scheme) res" where
  "kalloc s =
     rbind (kmem_acquire s) (\<lambda>s.
     let r = freelist s;
         s = (if r \<noteq> 0 then s\<lparr>freelist := load64 (mem s) r\<rparr> else s)
     in rbind (kmem_release s) (\<lambda>s.
     Ok (r, if r \<noteq> 0 then s\<lparr>mem := memset (mem s) r 5 4096\<rparr> else s)))"

lemma kfree_Ok_bound: "kfree p s = Ok s' \<Longrightarrow> p < PHYSTOP"
  by (auto simp: kfree_def split: if_splits)

function freerange_loop :: "uint64 \<Rightarrow> uint64 \<Rightarrow> 'a machine_scheme \<Rightarrow> 'a machine_scheme res" where
  "freerange_loop p pa_end s =
     (if p + PGSIZE \<le> pa_end then rbind (kfree p s) (\<lambda>s. freerange_loop (p + PGSIZE) pa_end s)
      else Ok s)"
  by pat_completeness auto
termination
  by (relation "measure (\<lambda>(p, pa_end, s). unat PHYSTOP + 4096 - unat p)")
    (auto dest!: kfree_Ok_bound simp: layout_defs word_less_nat_alt unat_word_ariths)

declare freerange_loop.simps [simp del]

definition freerange :: "uint64 \<Rightarrow> uint64 \<Rightarrow> 'a machine_scheme \<Rightarrow> 'a machine_scheme res" where
  "freerange pa_start pa_end s = freerange_loop (PGROUNDUP pa_start) pa_end s"

definition kinit :: "'a machine_scheme \<Rightarrow> 'a machine_scheme res" where
  "kinit s = freerange (kend s) PHYSTOP (s\<lparr>kmem_lock := initlock\<rparr>)"

section \<open>The interface of a page allocator\<close>

text \<open>
  \<open>avail s fl\<close>: the pages of \<open>fl\<close> are free, the next one to be handed out first;
  \<open>usable s p\<close>: \<open>p\<close> is a page the allocator manages; \<open>contents s\<close>: memory; \<open>rest s\<close>: the
  part of the state that the allocator does not own.
\<close>

locale page_allocator =
  fixes alloc :: "'s \<Rightarrow> (uint64 \<times> 's) res"
    and free :: "uint64 \<Rightarrow> 's \<Rightarrow> 's res"
    and avail :: "'s \<Rightarrow> uint64 list \<Rightarrow> bool"
    and usable :: "'s \<Rightarrow> uint64 \<Rightarrow> bool"
    and contents :: "'s \<Rightarrow> memory"
    and rest :: "'s \<Rightarrow> 'r"
  assumes alloc_none: "avail s [] \<Longrightarrow> \<exists>s'. alloc s = Ok (0, s') \<and> avail s' [] \<and> contents s' = contents s \<and>
      usable s' = usable s \<and> rest s' = rest s"
    and alloc_some: "avail s (p # fl) \<Longrightarrow> \<exists>s'. alloc s = Ok (p, s') \<and> avail s' fl \<and> usable s' = usable s \<and>
      rest s' = rest s \<and> (\<forall>x. PGROUNDDOWN x \<noteq> p \<longrightarrow> contents s' x = contents s x)"
    and free_page: "avail s fl \<Longrightarrow> usable s p \<Longrightarrow> p \<notin> set fl \<Longrightarrow> \<exists>s'. free p s = Ok s' \<and> avail s' (p # fl) \<and>
      usable s' = usable s \<and> rest s' = rest s \<and> (\<forall>x. PGROUNDDOWN x \<noteq> p \<longrightarrow> contents s' x = contents s x)"
    and avail_pages: "avail s fl \<Longrightarrow> distinct fl \<and> (\<forall>p \<in> set fl. usable s p)"
    and avail_nonzero: "avail s fl \<Longrightarrow> usable s p \<Longrightarrow> p \<noteq> 0 \<and> pg_aligned p"
begin

lemma alloc_cases:
  assumes "avail s fl"
  obtains (none) s' where "fl = []" "alloc s = Ok (0, s')" "avail s' []" "contents s' = contents s" "usable s' = usable s"
      "rest s' = rest s"
  | (some) p fl' s' where "fl = p # fl'" "alloc s = Ok (p, s')" "avail s' fl'" "p \<noteq> 0" "pg_aligned p" "usable s p"
      "p \<notin> set fl'" "usable s' = usable s" "rest s' = rest s" "\<And>x. PGROUNDDOWN x \<noteq> p \<Longrightarrow> contents s' x = contents s x"
proof (cases fl)
  case Nil
  with alloc_none [of s] assms that(1) show ?thesis by auto
next
  case (Cons p fl')
  with alloc_some [of s p fl'] assms avail_pages [OF assms] avail_nonzero [OF assms, of p] that(2) show ?thesis
    by auto
qed

lemma alloc_fresh:
  assumes "avail s (p # q # fl)"
  shows "\<exists>s' s''. alloc s = Ok (p, s') \<and> alloc s' = Ok (q, s'') \<and> p \<noteq> q"
proof -
  from alloc_some [OF assms] obtain s' where "alloc s = Ok (p, s')" "avail s' (q # fl)" by auto
  with alloc_some [of s' q fl] avail_pages [OF assms] show ?thesis by auto
qed

lemma alloc_free:
  assumes "avail s (p # fl)" and "alloc s = Ok (p, s')"
  shows "\<exists>s''. free p s' = Ok s'' \<and> avail s'' (p # fl)"
proof -
  from alloc_some [OF assms(1)] assms(2) have "avail s' fl" "usable s' = usable s" by auto
  with free_page [of s' fl p] avail_pages [OF assms(1)] show ?thesis by auto
qed

end

section \<open>The free list in memory\<close>

primrec run_list :: "memory \<Rightarrow> uint64 \<Rightarrow> uint64 list \<Rightarrow> bool" where
  "run_list m r [] \<longleftrightarrow> r = 0"
| "run_list m r (p # ps) \<longleftrightarrow> r = p \<and> r \<noteq> 0 \<and> run_list m (load64 m r) ps"

definition page_ok :: "'a machine_scheme \<Rightarrow> uint64 \<Rightarrow> bool" where
  "page_ok s p \<longleftrightarrow> pg_aligned p \<and> kend s \<le> p \<and> p < PHYSTOP"

definition kmem_inv :: "'a machine_scheme \<Rightarrow> uint64 list \<Rightarrow> bool" where
  "kmem_inv s fl \<longleftrightarrow> kmem_lock s = initlock \<and> cpu_ok (mycpu s) \<and> 0 < kend s \<and>
     run_list (mem s) (freelist s) fl \<and> distinct fl \<and> (\<forall>p \<in> set fl. page_ok s p)"

text \<open>
  What the allocator leaves alone: the components of the state that extend the machine, the
  end of the kernel image, and the processor up to \<open>crit\<close>.
\<close>

definition machine_rest :: "'a machine_scheme \<Rightarrow> cpu \<times> uint64 \<times> 'a" where
  "machine_rest s = (crit (mycpu s), kend s, machine.more s)"

lemma machine_rest_mem [simp]: "machine_rest (s\<lparr>mem := m\<rparr>) = machine_rest s"
  by (simp add: machine_rest_def)

lemma page_ok_mem [simp]: "page_ok (s\<lparr>mem := m\<rparr>) = page_ok s"
  by (simp add: page_ok_def fun_eq_iff)

lemma run_list_frame:
  assumes "\<And>x. PGROUNDDOWN x \<in> set fl \<Longrightarrow> m' x = m x" and "\<forall>p \<in> set fl. pg_aligned p"
  shows "run_list m' r fl \<longleftrightarrow> run_list m r fl"
  using assms
proof (induction fl arbitrary: r)
  case (Cons p fl)
  have "load64 m' p = load64 m p"
    using Cons.prems by (intro load64_page) (auto simp: PGROUNDDOWN_aligned)
  moreover have "run_list m' r fl \<longleftrightarrow> run_list m r fl" for r
    by (rule Cons.IH) (use Cons.prems in simp_all)
  ultimately show ?case by (simp cong: conj_cong)
qed simp

lemma run_list_unique: "run_list m r fl \<Longrightarrow> run_list m r fl' \<Longrightarrow> fl = fl'"
proof (induction fl arbitrary: r fl')
  case Nil
  then show ?case by (cases fl') auto
next
  case (Cons p fl)
  then show ?case by (cases fl') auto
qed

lemma kmem_acquire_free:
  "kmem_lock s = initlock \<Longrightarrow>
   kmem_acquire s = Ok (s\<lparr>kmem_lock := held_by (cpu_id (mycpu s)), mycpu := push_off (mycpu s)\<rparr>)"
  by (simp add: kmem_acquire_def acquire_free)

lemma kmem_release_held:
  "kmem_lock s = held_by (cpu_id c) \<Longrightarrow> mycpu s = push_off c \<Longrightarrow> cpu_ok c \<Longrightarrow>
   kmem_release s = Ok (s\<lparr>kmem_lock := initlock, mycpu := crit c\<rparr>)"
  by (simp add: kmem_release_def release_push_off)

lemma kalloc_empty:
  assumes "kmem_inv s []"
  shows "kalloc s = Ok (0, s\<lparr>kmem_lock := initlock, mycpu := crit (mycpu s)\<rparr>)"
  using assms
  by (simp add: kalloc_def kmem_inv_def kmem_acquire_free kmem_release_held [where c = "mycpu s"])

lemma kalloc_page:
  assumes "kmem_inv s (p # fl)"
  shows "kalloc s = Ok (p, s\<lparr>kmem_lock := initlock, mycpu := crit (mycpu s), freelist := load64 (mem s) p,
    mem := memset (mem s) p 5 4096\<rparr>)"
  using assms
  by (auto simp: kalloc_def kmem_inv_def kmem_acquire_free kmem_release_held [where c = "mycpu s"])

lemma kfree_page:
  assumes "kmem_inv s fl" and "page_ok s p"
  shows "kfree p s = Ok (s\<lparr>kmem_lock := initlock, mycpu := crit (mycpu s), freelist := p,
    mem := store64 (memset (mem s) p 1 4096) p (freelist s)\<rparr>)"
  using assms
  by (auto simp: kfree_def kmem_inv_def page_ok_def pg_aligned_def Let_def kmem_acquire_free not_less not_le
      kmem_release_held [where c = "mycpu s"])

lemma kfree_panics: "\<not> page_ok s p \<Longrightarrow> kfree p s = Panic ''kfree''"
  by (simp add: kfree_def page_ok_def pg_aligned_def not_less not_le)

lemma page_ok_nonzero: "kmem_inv s fl \<Longrightarrow> page_ok s p \<Longrightarrow> p \<noteq> 0"
  by (auto simp: kmem_inv_def page_ok_def)

text \<open>Writes outside the free pages do not disturb the allocator.\<close>

lemma kmem_inv_mem:
  assumes "kmem_inv s fl" and "\<And>x. PGROUNDDOWN x \<in> set fl \<Longrightarrow> m' x = mem s x"
  shows "kmem_inv (s\<lparr>mem := m'\<rparr>) fl"
proof -
  have "run_list m' (freelist s) fl"
    using assms by (subst run_list_frame [where m = "mem s"]) (auto simp: kmem_inv_def page_ok_def)
  then show ?thesis using assms by (simp add: kmem_inv_def page_ok_def)
qed

lemma kmem_inv_alloc:
  assumes "kmem_inv s (p # fl)"
  shows "kmem_inv (s\<lparr>kmem_lock := initlock, mycpu := crit (mycpu s), freelist := load64 (mem s) p,
    mem := memset (mem s) p 5 4096\<rparr>) fl"
proof -
  have "run_list (memset (mem s) p 5 4096) (load64 (mem s) p) fl"
    using assms by (subst run_list_frame [where m = "mem s"]) (auto simp: kmem_inv_def page_ok_def memset_page)
  then show ?thesis using assms by (auto simp: kmem_inv_def page_ok_def)
qed

lemma kmem_inv_free:
  assumes "kmem_inv s fl" and "page_ok s p" and "p \<notin> set fl"
  shows "kmem_inv (s\<lparr>kmem_lock := initlock, mycpu := crit (mycpu s), freelist := p,
    mem := store64 (memset (mem s) p 1 4096) p (freelist s)\<rparr>) (p # fl)"
proof -
  have p: "pg_aligned p" using assms(2) by (simp add: page_ok_def)
  have "PGROUNDDOWN x \<noteq> p" if "PGROUNDDOWN x \<in> set fl" for x
    using that assms(3) by auto
  then have "run_list (store64 (memset (mem s) p 1 4096) p (freelist s)) (freelist s) fl"
    using assms p
    by (subst run_list_frame [where m = "mem s"]) (auto simp: kmem_inv_def page_ok_def memset_page)
  then show ?thesis
    using assms page_ok_nonzero [OF assms(1,2)] by (auto simp: kmem_inv_def page_ok_def)
qed

interpretation kmem: page_allocator kalloc kfree kmem_inv page_ok mem machine_rest
proof
  fix s :: "'a machine_scheme" and p fl
  show "kmem_inv s [] \<Longrightarrow> \<exists>s'. kalloc s = Ok (0, s') \<and> kmem_inv s' [] \<and> mem s' = mem s \<and>
      page_ok s' = page_ok s \<and> machine_rest s' = machine_rest s"
    by (auto simp: kalloc_empty machine_rest_def kmem_inv_def page_ok_def fun_eq_iff)
  show "\<exists>s'. kalloc s = Ok (p, s') \<and> kmem_inv s' fl \<and> page_ok s' = page_ok s \<and>
      machine_rest s' = machine_rest s \<and> (\<forall>x. PGROUNDDOWN x \<noteq> p \<longrightarrow> mem s' x = mem s x)" if "kmem_inv s (p # fl)"
    using that kalloc_page [OF that] kmem_inv_alloc [OF that]
    by (auto simp: page_ok_def machine_rest_def fun_eq_iff kmem_inv_def memset_page)
  show "\<exists>s'. kfree p s = Ok s' \<and> kmem_inv s' (p # fl) \<and> page_ok s' = page_ok s \<and>
      machine_rest s' = machine_rest s \<and> (\<forall>x. PGROUNDDOWN x \<noteq> p \<longrightarrow> mem s' x = mem s x)" if "kmem_inv s fl" "page_ok s p" "p \<notin> set fl"
    using kfree_page [OF that(1,2)] kmem_inv_free [OF that] that(2)
    by (auto simp: page_ok_def machine_rest_def fun_eq_iff memset_page)
  show "distinct fl \<and> (\<forall>p \<in> set fl. page_ok s p)" if "kmem_inv s fl"
    using that by (simp add: kmem_inv_def)
  show "p \<noteq> 0 \<and> pg_aligned p" if "kmem_inv s fl" "page_ok s p"
    using page_ok_nonzero [OF that] that(2) by (simp add: page_ok_def)
qed

section \<open>Initialisation hands over every page of RAM\<close>

lemma page_step:
  assumes "pg_aligned p" and "p < PHYSTOP"
  shows "p + PGSIZE \<le> PHYSTOP" and "p < p + PGSIZE"
    and "pg_aligned q \<Longrightarrow> q < p + PGSIZE \<longleftrightarrow> q < p \<or> q = p"
proof -
  have lt: "unat p < 2281701376" using assms(2) by (simp add: layout_defs word_less_nat_alt)
  from assms(1) obtain k where k: "unat p = 4096 * k" by (auto simp: pg_aligned_unat)
  have sum: "unat (p + PGSIZE) = unat p + 4096" using lt by (subst unat_add_small) auto
  then show "p < p + PGSIZE" by (simp add: word_less_nat_alt)
  show "p + PGSIZE \<le> PHYSTOP" using lt k sum by (simp add: layout_defs word_le_nat_alt)
  show "q < p + PGSIZE \<longleftrightarrow> q < p \<or> q = p" if "pg_aligned q"
  proof -
    from that obtain j where "unat q = 4096 * j" by (auto simp: pg_aligned_unat)
    with k sum show ?thesis by (auto simp: word_less_nat_alt word_unat_eq_iff)
  qed
qed

lemma freerange_loop_all:
  assumes "kmem_inv s fl" and "pg_aligned p" and "kend s \<le> p" and "p \<le> PHYSTOP"
    and "set fl = {q. page_ok s q \<and> q < p}"
  shows "\<exists>s' fl'. freerange_loop p PHYSTOP s = Ok s' \<and> kmem_inv s' fl' \<and> set fl' = {q. page_ok s q}"
  using assms
proof (induction p PHYSTOP s arbitrary: fl rule: freerange_loop.induct)
  case (1 p s)
  show ?case
  proof (cases "p < PHYSTOP")
    case False
    then have "p = PHYSTOP" using "1.prems"(4) by simp
    moreover have "\<not> PHYSTOP + PGSIZE \<le> PHYSTOP" by (simp add: layout_defs)
    ultimately show ?thesis
      using "1.prems" by (subst freerange_loop.simps) (auto simp: page_ok_def)
  next
    case True
    with "1.prems" have ok: "page_ok s p" "p \<notin> set fl" by (auto simp: page_ok_def)
    let ?s = "s\<lparr>kmem_lock := initlock, mycpu := crit (mycpu s), freelist := p,
      mem := store64 (memset (mem s) p 1 4096) p (freelist s)\<rparr>"
    note step = page_step [OF "1.prems"(2) True]
    have free: "kfree p s = Ok ?s" by (rule kfree_page [OF "1.prems"(1) ok(1)])
    have "\<exists>s' fl'. freerange_loop (p + PGSIZE) PHYSTOP ?s = Ok s' \<and> kmem_inv s' fl' \<and> set fl' = {q. page_ok ?s q}"
    proof (rule "1.hyps" [OF step(1) free])
      show "kmem_inv ?s (p # fl)" by (rule kmem_inv_free [OF "1.prems"(1) ok])
      show "pg_aligned (p + PGSIZE)" using "1.prems"(2) by (simp add: pg_aligned_add)
      show "kend ?s \<le> p + PGSIZE" using "1.prems"(3) step(2) by auto
      show "p + PGSIZE \<le> PHYSTOP" by (rule step(1))
      show "set (p # fl) = {q. page_ok ?s q \<and> q < p + PGSIZE}"
        using "1.prems"(5) ok(1) step(3) by (auto simp: page_ok_def)
    qed
    moreover have "page_ok ?s = page_ok s" by (simp add: fun_eq_iff page_ok_def)
    ultimately show ?thesis using free step(1) by (subst freerange_loop.simps) simp
  qed
qed

lemma PGROUNDUP_end:
  assumes "a \<le> PHYSTOP"
  shows "pg_aligned (PGROUNDUP a)" "a \<le> PGROUNDUP a" "PGROUNDUP a \<le> PHYSTOP"
    "pg_aligned q \<Longrightarrow> a \<le> q \<Longrightarrow> PGROUNDUP a \<le> q"
proof -
  have a: "unat a \<le> 2281701376" using assms by (simp add: layout_defs word_le_nat_alt)
  then have up: "unat (PGROUNDUP a) = (unat a + 4095) div 4096 * 4096"
    by (intro unat_PGROUNDUP) simp
  then show "pg_aligned (PGROUNDUP a)" by (simp add: pg_aligned_unat)
  show "a \<le> PGROUNDUP a"
    using div_mult_mod_eq [of "unat a + 4095" 4096] mod_less_divisor [of 4096 "unat a + 4095"]
    by (simp add: word_le_nat_alt up del: mod_less_divisor)
  have "(unat a + 4095) div 4096 \<le> 557056" using a by simp
  then show "PGROUNDUP a \<le> PHYSTOP" by (simp add: word_le_nat_alt up layout_defs)
  show "PGROUNDUP a \<le> q" if q: "pg_aligned q" "a \<le> q"
  proof -
    from q(1) obtain j where j: "unat q = 4096 * j" by (auto simp: pg_aligned_unat)
    with q(2) have "(unat a + 4095) div 4096 \<le> j" by (simp add: word_le_nat_alt)
    with j show ?thesis by (simp add: word_le_nat_alt up)
  qed
qed

lemma kinit_all_pages:
  assumes "freelist s = 0" and "cpu_ok (mycpu s)" and "0 < kend s" and "kend s \<le> PHYSTOP"
  shows "\<exists>s' fl. kinit s = Ok s' \<and> kmem_inv s' fl \<and> set fl = {p. page_ok s p}"
proof -
  let ?s = "s\<lparr>kmem_lock := initlock\<rparr>" and ?p = "PGROUNDUP (kend s)"
  note up = PGROUNDUP_end [OF assms(4)]
  have "\<exists>s' fl. freerange_loop ?p PHYSTOP ?s = Ok s' \<and> kmem_inv s' fl \<and> set fl = {p. page_ok ?s p}"
  proof (rule freerange_loop_all)
    show "kmem_inv ?s []" using assms by (simp add: kmem_inv_def)
    show "set [] = {q. page_ok ?s q \<and> q < ?p}" using up(4) by (auto simp: page_ok_def not_less)
  qed (use up in auto)
  moreover have "page_ok ?s = page_ok s" by (simp add: fun_eq_iff page_ok_def)
  ultimately show ?thesis by (simp add: kinit_def freerange_def)
qed

section \<open>Properties\<close>

text \<open>
  C13: after \<^verbatim>\<open>kinit\<close> the free list holds every page of RAM between the end of the kernel
  image and \<^verbatim>\<open>PHYSTOP\<close>, each of them once, and nothing else; \<^verbatim>\<open>kinit\<close> terminates without a
  panic.
\<close>

theorem kinit_frees_all_ram:
  assumes "freelist s = 0" and "cpu_ok (mycpu s)" and "0 < kend s" and "kend s \<le> PHYSTOP"
  shows "\<exists>s' fl. kinit s = Ok s' \<and> kmem_inv s' fl \<and> distinct fl \<and>
    set fl = {p. pg_aligned p \<and> kend s \<le> p \<and> p < PHYSTOP}"
proof -
  obtain s' fl where *: "kinit s = Ok s'" "kmem_inv s' fl" "set fl = {p. page_ok s p}"
    using kinit_all_pages [OF assms] by blast
  then have "distinct fl" by (simp add: kmem_inv_def)
  with * show ?thesis by (auto simp: page_ok_def)
qed

definition boot_machine :: machine where
  "boot_machine = \<lparr>mycpu = \<lparr>cpu_id = 0, cpu_proc = None, noff = 0, intena = False, sstatus = 0\<rparr>,
     mem = (\<lambda>_. 0), kend = 0x87fff000, kmem_lock = \<lparr>locked = False, lk_cpu = None\<rparr>, freelist = 0\<rparr>"

theorem kinit_frees_all_ram_witness:
  "freelist boot_machine = 0 \<and> cpu_ok (mycpu boot_machine) \<and>
   (\<exists>s' fl. kinit boot_machine = Ok s' \<and> kmem_inv s' fl \<and> 0x87fff000 \<in> set fl)"
proof -
  have "freelist boot_machine = 0" "cpu_ok (mycpu boot_machine)" "0 < kend boot_machine" "kend boot_machine \<le> PHYSTOP"
    by (simp_all add: boot_machine_def cpu_ok_def layout_defs)
  note pre = this
  obtain s' fl where "kinit boot_machine = Ok s'" "kmem_inv s' fl"
      "set fl = {p. pg_aligned p \<and> kend boot_machine \<le> p \<and> p < PHYSTOP}"
    using kinit_frees_all_ram [OF pre] by blast
  moreover have "pg_aligned 0x87fff000 \<and> kend boot_machine \<le> 0x87fff000 \<and> 0x87fff000 < PHYSTOP"
    by (simp add: boot_machine_def pg_aligned_def layout_defs)
  ultimately show ?thesis using pre by blast
qed

text \<open>
  C14: the allocator contract. With free pages \<open>fl\<close>, \<^verbatim>\<open>kalloc\<close> returns 0 when there is none and
  otherwise the first of them, which is an aligned page of RAM, no longer free, and whose
  bytes are all 5; the memory of every other page is unchanged. Freeing it again gives the
  same free list.
\<close>

theorem kalloc_kfree_contract:
  assumes "kmem_inv s fl"
  shows "case fl of
      [] \<Rightarrow> \<exists>s'. kalloc s = Ok (0, s') \<and> kmem_inv s' [] \<and> mem s' = mem s
    | p # ps \<Rightarrow> p \<noteq> 0 \<and> page_ok s p \<and> p \<notin> set ps \<and>
        (\<exists>s'. kalloc s = Ok (p, s') \<and> kmem_inv s' ps \<and>
          (\<forall>x. mem s' x = (if PGROUNDDOWN x = p then 5 else mem s x)) \<and>
          (\<exists>s''. kfree p s' = Ok s'' \<and> kmem_inv s'' (p # ps)))"
proof (cases fl)
  case Nil
  with kmem.alloc_none [of s] assms show ?thesis by auto
next
  case (Cons p ps)
  with assms have inv: "kmem_inv s (p # ps)" by simp
  then have p: "page_ok s p" "p \<notin> set ps" "pg_aligned p" by (auto simp: kmem_inv_def page_ok_def)
  from kmem.alloc_free [OF inv kalloc_page [OF inv]] kalloc_page [OF inv] kmem_inv_alloc [OF inv] p
    page_ok_nonzero [OF inv p(1)] Cons
  show ?thesis by (simp add: memset_page)
qed

definition one_page_machine :: machine where
  "one_page_machine = boot_machine\<lparr>freelist := 0x87fff000\<rparr>"

lemma one_page_machine_inv: "kmem_inv one_page_machine [0x87fff000]"
proof -
  have "load64 (\<lambda>_. 0) 0x87fff000 = 0" by (rule load64_zero) (simp_all add: aligned8_def)
  then show ?thesis
    by (simp add: kmem_inv_def one_page_machine_def boot_machine_def cpu_ok_def initlock_def page_ok_def
        pg_aligned_def layout_defs)
qed

theorem kalloc_kfree_contract_witness:
  "kmem_inv one_page_machine [0x87fff000] \<and>
   (\<exists>s'. kalloc one_page_machine = Ok (0x87fff000, s') \<and> kmem_inv s' [] \<and> mem s' 0x87fff123 = 5)"
  using kalloc_kfree_contract [OF one_page_machine_inv] one_page_machine_inv by (auto simp: PGROUNDDOWN_def layout_defs)

text \<open>
  C15: \<^verbatim>\<open>kfree\<close> panics exactly on addresses that are not pages the allocator manages; on a page
  in use it succeeds, puts the page at the head of the free list and touches the memory of
  no other page.
\<close>

theorem kfree_panics_iff:
  assumes "kmem_inv s fl" and "p \<notin> set fl"
  shows "(is_panic (kfree p s) \<longleftrightarrow> p mod PGSIZE \<noteq> 0 \<or> p < kend s \<or> p \<ge> PHYSTOP) \<and>
    (\<not> is_panic (kfree p s) \<longrightarrow> (\<exists>s'. kfree p s = Ok s' \<and> kmem_inv s' (p # fl) \<and>
       (\<forall>x. PGROUNDDOWN x \<noteq> p \<longrightarrow> mem s' x = mem s x)))"
proof -
  have ok: "(p mod PGSIZE \<noteq> 0 \<or> p < kend s \<or> p \<ge> PHYSTOP) \<longleftrightarrow> \<not> page_ok s p"
    unfolding page_ok_def pg_aligned_def by (simp only: not_less not_le de_Morgan_conj)
  show ?thesis
    using kmem.free_page [OF assms(1) _ assms(2)] kfree_panics [of s p]
    unfolding ok by (cases "page_ok s p") auto
qed

theorem kfree_panics_iff_witness:
  "is_panic (kfree 0x87ffe000 one_page_machine) \<and> kmem_inv one_page_machine [0x87fff000]"
  using kfree_panics_iff [OF one_page_machine_inv, of "0x87ffe000"] one_page_machine_inv
  by (simp add: one_page_machine_def boot_machine_def)

end
