(* ===== verification/Vm.thy ===== *)
theory Vm
  imports Kalloc
begin

text \<open>
  \<^verbatim>\<open>kernel/vm.c\<close>: Sv39 page tables. A page table is a page of 512 entries in physical
  memory, named by its address, as in the source (\<^verbatim>\<open>pagetable_t\<close> is a pointer); all
  reads and writes of entries go through the memory of the machine. The kernel buffers
  that \<^verbatim>\<open>copyout\<close>, \<^verbatim>\<open>copyin\<close> and \<^verbatim>\<open>copyinstr\<close> take are byte lists: the source of the
  copy, or the bytes that arrived.
\<close>

section \<open>Walking and extending a page table\<close>

primrec walk_loop :: "nat \<Rightarrow> uint64 \<Rightarrow> uint64 \<Rightarrow> bool \<Rightarrow> 'a machine_scheme \<Rightarrow> (uint64 \<times> 'a machine_scheme) res" where
  "walk_loop 0 pagetable va alloc s = Ok (pagetable + 8 * PX 0 va, s)"
| "walk_loop (Suc l) pagetable va alloc s =
     (let pte = pagetable + 8 * PX (Suc l) va in
      if load64 (mem s) pte AND PTE_V \<noteq> 0
      then walk_loop l (PTE2PA (load64 (mem s) pte)) va alloc s
      else if \<not> alloc then Ok (0, s)
      else rbind (kalloc s) (\<lambda>(pagetable, s).
           if pagetable = 0 then Ok (0, s)
           else let s = s\<lparr>mem := memset (mem s) pagetable 0 4096\<rparr>;
                    s = s\<lparr>mem := store64 (mem s) pte (PA2PTE pagetable OR PTE_V)\<rparr>
                in walk_loop l pagetable va alloc s))"

definition walk :: "uint64 \<Rightarrow> uint64 \<Rightarrow> bool \<Rightarrow> 'a machine_scheme \<Rightarrow> (uint64 \<times> 'a machine_scheme) res" where
  "walk pagetable va alloc s =
     (if va \<ge> MAXVA then Panic ''walk'' else walk_loop 2 pagetable va alloc s)"

definition walkaddr :: "uint64 \<Rightarrow> uint64 \<Rightarrow> 'a machine_scheme \<Rightarrow> uint64 res" where
  "walkaddr pagetable va s =
     (if va \<ge> MAXVA then Ok 0
      else rbind (walk pagetable va False s) (\<lambda>(pte, s).
           if pte = 0 then Ok 0
           else if load64 (mem s) pte AND PTE_V = 0 then Ok 0
           else if load64 (mem s) pte AND PTE_U = 0 then Ok 0
           else Ok (PTE2PA (load64 (mem s) pte))))"

lemma walk_Ok_bound: "walk pt va alloc s = Ok r \<Longrightarrow> va < MAXVA"
  by (auto simp: walk_def split: if_splits)

lemma MAXVA_step:
  assumes "a < MAXVA"
  shows "unat (a + PGSIZE) = unat a + 4096" and "unat a < 274877906944"
proof -
  show "unat a < 274877906944" using assms by (simp add: MAXVA_def word_less_nat_alt)
  then show "unat (a + PGSIZE) = unat a + 4096" by (subst unat_add_small) auto
qed

lemma MAXVA_measure: "a < MAXVA \<Longrightarrow> 274877911040 - unat (a + PGSIZE) < 274877911040 - unat a"
  using MAXVA_step [of a] by simp

function mappages_loop :: "uint64 \<Rightarrow> uint64 \<Rightarrow> uint64 \<Rightarrow> uint64 \<Rightarrow> uint64 \<Rightarrow> 'a machine_scheme \<Rightarrow> (int \<times> 'a machine_scheme) res" where
  "mappages_loop pagetable a last_a pa perm s =
     rbind (walk pagetable a True s) (\<lambda>(pte, s).
     if pte = 0 then Ok (-1, s)
     else if load64 (mem s) pte AND PTE_V \<noteq> 0 then Panic ''mappages: remap''
     else let s = s\<lparr>mem := store64 (mem s) pte (PA2PTE pa OR perm OR PTE_V)\<rparr>
          in if a = last_a then Ok (0, s)
             else mappages_loop pagetable (a + PGSIZE) last_a (pa + PGSIZE) perm s)"
  by pat_completeness auto
termination
  by (relation "measure (\<lambda>(pt, a, la, pa, perm, s). 274877911040 - unat a)")
    (auto dest!: walk_Ok_bound simp: MAXVA_measure)

declare mappages_loop.simps [simp del]

definition mappages :: "uint64 \<Rightarrow> uint64 \<Rightarrow> uint64 \<Rightarrow> uint64 \<Rightarrow> uint64 \<Rightarrow> 'a machine_scheme \<Rightarrow> (int \<times> 'a machine_scheme) res" where
  "mappages pagetable va sz pa perm s =
     (if sz = 0 then Panic ''mappages: size''
      else mappages_loop pagetable (PGROUNDDOWN va) (PGROUNDDOWN (va + sz - 1)) pa perm s)"

definition kvmmap :: "uint64 \<Rightarrow> uint64 \<Rightarrow> uint64 \<Rightarrow> uint64 \<Rightarrow> uint64 \<Rightarrow> 'a machine_scheme \<Rightarrow> 'a machine_scheme res" where
  "kvmmap kpgtbl va pa sz perm s =
     rbind (mappages kpgtbl va sz pa perm s) (\<lambda>(r, s).
     if r \<noteq> 0 then Panic ''kvmmap'' else Ok s)"

section \<open>Removing mappings\<close>

function uvmunmap_loop :: "uint64 \<Rightarrow> uint64 \<Rightarrow> uint64 \<Rightarrow> bool \<Rightarrow> 'a machine_scheme \<Rightarrow> 'a machine_scheme res" where
  "uvmunmap_loop pagetable a lim do_free s =
     (if a < lim then
        rbind (walk pagetable a False s) (\<lambda>(pte, s).
        if pte = 0 then Panic ''uvmunmap: walk''
        else if load64 (mem s) pte AND PTE_V = 0 then Panic ''uvmunmap: not mapped''
        else if PTE_FLAGS (load64 (mem s) pte) = PTE_V then Panic ''uvmunmap: not a leaf''
        else rbind (if do_free then kfree (PTE2PA (load64 (mem s) pte)) s else Ok s) (\<lambda>s.
             uvmunmap_loop pagetable (a + PGSIZE) lim do_free (s\<lparr>mem := store64 (mem s) pte 0\<rparr>)))
      else Ok s)"
  by pat_completeness auto
termination
  by (relation "measure (\<lambda>(pt, a, lim, do_free, s). 274877911040 - unat a)")
    (auto dest!: walk_Ok_bound simp: MAXVA_measure)

declare uvmunmap_loop.simps [simp del]

definition uvmunmap :: "uint64 \<Rightarrow> uint64 \<Rightarrow> uint64 \<Rightarrow> bool \<Rightarrow> 'a machine_scheme \<Rightarrow> 'a machine_scheme res" where
  "uvmunmap pagetable va npages do_free s =
     (if va mod PGSIZE \<noteq> 0 then Panic ''uvmunmap: not aligned''
      else uvmunmap_loop pagetable va (va + npages * PGSIZE) do_free s)"

definition uvmdealloc :: "uint64 \<Rightarrow> uint64 \<Rightarrow> uint64 \<Rightarrow> 'a machine_scheme \<Rightarrow> (uint64 \<times> 'a machine_scheme) res" where
  "uvmdealloc pagetable oldsz newsz s =
     (if newsz \<ge> oldsz then Ok (oldsz, s)
      else if PGROUNDUP newsz < PGROUNDUP oldsz
      then let npages = ucast ((PGROUNDUP oldsz - PGROUNDUP newsz) div PGSIZE) :: uint32
           in rbind (uvmunmap pagetable (PGROUNDUP newsz) (scast npages) True s) (\<lambda>s. Ok (newsz, s))
      else Ok (newsz, s))"

text \<open>
  \<^verbatim>\<open>freewalk\<close> recurses over whatever tables it finds; the first argument bounds the depth
  of that recursion (an Sv39 table has three levels).
\<close>

function freewalk :: "nat \<Rightarrow> uint64 \<Rightarrow> 'a machine_scheme \<Rightarrow> 'a machine_scheme res"
  and freewalk_loop :: "nat \<Rightarrow> uint64 \<Rightarrow> nat \<Rightarrow> 'a machine_scheme \<Rightarrow> 'a machine_scheme res" where
  "freewalk 0 pagetable s = Hang"
| "freewalk (Suc d) pagetable s = rbind (freewalk_loop d pagetable 0 s) (kfree pagetable)"
| "freewalk_loop d pagetable i s =
     (if i < 512 then
        let pte = load64 (mem s) (pagetable + 8 * word_of_nat i) in
        if pte AND PTE_V \<noteq> 0 \<and> pte AND (PTE_R OR PTE_W OR PTE_X) = 0
        then rbind (freewalk d (PTE2PA pte) s) (\<lambda>s.
             freewalk_loop d pagetable (Suc i) (s\<lparr>mem := store64 (mem s) (pagetable + 8 * word_of_nat i) 0\<rparr>))
        else if pte AND PTE_V \<noteq> 0 then Panic ''freewalk: leaf''
        else freewalk_loop d pagetable (Suc i) s
      else Ok s)"
  by pat_completeness auto
termination
  by (relation "measures [\<lambda>x. case x of Inl (d, _) \<Rightarrow> d | Inr (d, _) \<Rightarrow> d,
      \<lambda>x. case x of Inl _ \<Rightarrow> 0 | Inr (d, p, i, s) \<Rightarrow> 513 - i]") auto

declare freewalk_loop.simps [simp del]

definition uvmfree :: "uint64 \<Rightarrow> uint64 \<Rightarrow> 'a machine_scheme \<Rightarrow> 'a machine_scheme res" where
  "uvmfree pagetable sz s =
     rbind (if sz > 0 then uvmunmap pagetable 0 (PGROUNDUP sz div PGSIZE) True s else Ok s) (\<lambda>s.
     freewalk 3 pagetable s)"

section \<open>Creating and growing user memory\<close>

definition uvmcreate :: "'a machine_scheme \<Rightarrow> (uint64 \<times> 'a machine_scheme) res" where
  "uvmcreate s =
     rbind (kalloc s) (\<lambda>(pagetable, s).
     if pagetable = 0 then Ok (0, s)
     else Ok (pagetable, s\<lparr>mem := memset (mem s) pagetable 0 4096\<rparr>))"

definition uvmfirst :: "uint64 \<Rightarrow> uchar list \<Rightarrow> uint32 \<Rightarrow> 'a machine_scheme \<Rightarrow> 'a machine_scheme res" where
  "uvmfirst pagetable src sz s =
     (if ucast sz \<ge> PGSIZE then Panic ''uvmfirst: more than a page''
      else rbind (kalloc s) (\<lambda>(m, s).
           let s = s\<lparr>mem := memset (mem s) m 0 4096\<rparr>
           in rbind (mappages pagetable 0 PGSIZE m (PTE_W OR PTE_R OR PTE_X OR PTE_U) s) (\<lambda>(_, s).
              Ok (s\<lparr>mem := store_bytes (mem s) m (take (unat sz) src)\<rparr>))))"

lemma mappages_Ok_bound:
  assumes "mappages pt a sz pa perm s = Ok r"
  shows "a < MAXVA"
proof -
  from assms have "PGROUNDDOWN a < MAXVA"
    by (auto simp: mappages_def mappages_loop.simps [of pt "PGROUNDDOWN a"] split: if_splits dest: walk_Ok_bound)
  then have "unat a div 4096 * 4096 < 67108864 * 4096"
    by (simp add: word_less_nat_alt unat_PGROUNDDOWN MAXVA_def)
  then have "unat a div 4096 < 67108864" by (simp only: mult_less_cancel2)
  then have "unat a < 274877906944" by (simp add: div_less_iff_less_mult)
  then show ?thesis by (simp add: MAXVA_def word_less_nat_alt)
qed

function uvmalloc_loop :: "uint64 \<Rightarrow> uint64 \<Rightarrow> uint64 \<Rightarrow> uint64 \<Rightarrow> uint64 \<Rightarrow> 'a machine_scheme \<Rightarrow> (uint64 \<times> 'a machine_scheme) res" where
  "uvmalloc_loop pagetable a oldsz newsz xperm s =
     (if a < newsz then
        rbind (kalloc s) (\<lambda>(m, s).
        if m = 0 then rbind (uvmdealloc pagetable a oldsz s) (\<lambda>(_, s). Ok (0, s))
        else let s = s\<lparr>mem := memset (mem s) m 0 4096\<rparr>
             in rbind (mappages pagetable a PGSIZE m (PTE_R OR PTE_U OR xperm) s) (\<lambda>(r, s).
                if r \<noteq> 0
                then rbind (kfree m s) (\<lambda>s.
                     rbind (uvmdealloc pagetable a oldsz s) (\<lambda>(_, s). Ok (0, s)))
                else uvmalloc_loop pagetable (a + PGSIZE) oldsz newsz xperm s))
      else Ok (newsz, s))"
  by pat_completeness auto
termination
  by (relation "measure (\<lambda>(pt, a, oldsz, newsz, xperm, s). 274877911040 - unat a)")
    (auto dest!: mappages_Ok_bound simp: MAXVA_measure)

declare uvmalloc_loop.simps [simp del]

definition uvmalloc :: "uint64 \<Rightarrow> uint64 \<Rightarrow> uint64 \<Rightarrow> uint64 \<Rightarrow> 'a machine_scheme \<Rightarrow> (uint64 \<times> 'a machine_scheme) res" where
  "uvmalloc pagetable oldsz newsz xperm s =
     (if newsz < oldsz then Ok (oldsz, s)
      else uvmalloc_loop pagetable (PGROUNDUP oldsz) (PGROUNDUP oldsz) newsz xperm s)"

function uvmcopy_loop :: "uint64 \<Rightarrow> uint64 \<Rightarrow> uint64 \<Rightarrow> uint64 \<Rightarrow> 'a machine_scheme \<Rightarrow> (int \<times> 'a machine_scheme) res" where
  "uvmcopy_loop old new i sz s =
     (if i < sz then
        rbind (walk old i False s) (\<lambda>(pte, s).
        if pte = 0 then Panic ''uvmcopy: pte should exist''
        else if load64 (mem s) pte AND PTE_V = 0 then Panic ''uvmcopy: page not present''
        else let pa = PTE2PA (load64 (mem s) pte); flags = PTE_FLAGS (load64 (mem s) pte)
             in rbind (kalloc s) (\<lambda>(m, s).
                if m = 0
                then rbind (uvmunmap new 0 (i div PGSIZE) True s) (\<lambda>s. Ok (-1, s))
                else let s = s\<lparr>mem := memmove (mem s) m pa 4096\<rparr>
                     in rbind (mappages new i PGSIZE m flags s) (\<lambda>(r, s).
                        if r \<noteq> 0
                        then rbind (kfree m s) (\<lambda>s.
                             rbind (uvmunmap new 0 (i div PGSIZE) True s) (\<lambda>s. Ok (-1, s)))
                        else uvmcopy_loop old new (i + PGSIZE) sz s)))
      else Ok (0, s))"
  by pat_completeness auto
termination
  by (relation "measure (\<lambda>(old, new, i, sz, s). 274877911040 - unat i)")
    (auto dest!: walk_Ok_bound simp: MAXVA_measure)

declare uvmcopy_loop.simps [simp del]

definition uvmcopy :: "uint64 \<Rightarrow> uint64 \<Rightarrow> uint64 \<Rightarrow> 'a machine_scheme \<Rightarrow> (int \<times> 'a machine_scheme) res" where
  "uvmcopy old new sz s = uvmcopy_loop old new 0 sz s"

definition uvmclear :: "uint64 \<Rightarrow> uint64 \<Rightarrow> 'a machine_scheme \<Rightarrow> 'a machine_scheme res" where
  "uvmclear pagetable va s =
     rbind (walk pagetable va False s) (\<lambda>(pte, s).
     if pte = 0 then Panic ''uvmclear''
     else Ok (s\<lparr>mem := store64 (mem s) pte (load64 (mem s) pte AND NOT PTE_U)\<rparr>))"

section \<open>Copying between user and kernel memory\<close>

text \<open>The bytes left in the page of \<open>va\<close>, at most \<open>len\<close> of them.\<close>

definition page_chunk :: "uint64 \<Rightarrow> nat \<Rightarrow> nat" where
  "page_chunk va len =
     (let n = PGSIZE - (va - PGROUNDDOWN va) in if unat n > len then len else unat n)"

lemma page_chunk_eq: "page_chunk va len = min len (4096 - unat va mod 4096)"
proof -
  have "unat (PGSIZE - (va - PGROUNDDOWN va)) = 4096 - unat va mod 4096"
    by (simp add: unat_sub PGROUNDDOWN_offset word_le_nat_alt less_imp_le)
  then show ?thesis by (auto simp: page_chunk_def Let_def)
qed

lemma page_chunk_pos: "0 < len \<Longrightarrow> 0 < page_chunk va len"
  by (simp add: page_chunk_eq)

lemma page_chunk_le: "page_chunk va len \<le> len"
  by (simp add: page_chunk_eq)

function copyout :: "uint64 \<Rightarrow> uint64 \<Rightarrow> uchar list \<Rightarrow> 'a machine_scheme \<Rightarrow> (int \<times> 'a machine_scheme) res" where
  "copyout pagetable dstva src s =
     (if 0 < length src then
        let va0 = PGROUNDDOWN dstva
        in rbind (walkaddr pagetable va0 s) (\<lambda>pa0.
           if pa0 = 0 then Ok (-1, s)
           else let n = page_chunk dstva (length src);
                    s = s\<lparr>mem := store_bytes (mem s) (pa0 + (dstva - va0)) (take n src)\<rparr>
                in copyout pagetable (va0 + PGSIZE) (drop n src) s)
      else Ok (0, s))"
  by pat_completeness auto
termination
  by (relation "measure (\<lambda>(pt, dstva, src, s). length src)") (auto simp: page_chunk_pos)

declare copyout.simps [simp del]

function copyin :: "uint64 \<Rightarrow> uint64 \<Rightarrow> nat \<Rightarrow> 'a machine_scheme \<Rightarrow> (int \<times> uchar list) res" where
  "copyin pagetable srcva len s =
     (if 0 < len then
        let va0 = PGROUNDDOWN srcva
        in rbind (walkaddr pagetable va0 s) (\<lambda>pa0.
           if pa0 = 0 then Ok (-1, [])
           else let n = page_chunk srcva len;
                    bs = load_bytes (mem s) (pa0 + (srcva - va0)) n
                in rbind (copyin pagetable (va0 + PGSIZE) (len - n) s) (\<lambda>(r, bs').
                   Ok (r, bs @ bs')))
      else Ok (0, []))"
  by pat_completeness auto
termination
  by (relation "measure (\<lambda>(pt, srcva, len, s). len)") (auto simp: page_chunk_pos)

declare copyin.simps [simp del]

text \<open>The inner loop of \<^verbatim>\<open>copyinstr\<close>: whether a NUL was met, and the bytes stored.\<close>

primrec copy_chars :: "memory \<Rightarrow> uint64 \<Rightarrow> nat \<Rightarrow> bool \<times> uchar list" where
  "copy_chars m p 0 = (False, [])"
| "copy_chars m p (Suc n) =
     (if m p = 0 then (True, [0])
      else let (got_null, bs) = copy_chars m (p + 1) n in (got_null, m p # bs))"

function copyinstr :: "uint64 \<Rightarrow> uint64 \<Rightarrow> nat \<Rightarrow> 'a machine_scheme \<Rightarrow> (int \<times> uchar list) res" where
  "copyinstr pagetable srcva mx s =
     (if 0 < mx then
        let va0 = PGROUNDDOWN srcva
        in rbind (walkaddr pagetable va0 s) (\<lambda>pa0.
           if pa0 = 0 then Ok (-1, [])
           else let n = page_chunk srcva mx;
                    (got_null, bs) = copy_chars (mem s) (pa0 + (srcva - va0)) n
                in if got_null then Ok (0, bs)
                   else rbind (copyinstr pagetable (va0 + PGSIZE) (mx - n) s) (\<lambda>(r, bs').
                        Ok (r, bs @ bs')))
      else Ok (-1, []))"
  by pat_completeness auto
termination
  by (relation "measure (\<lambda>(pt, srcva, mx, s). mx)") (auto simp: page_chunk_pos)

declare copyinstr.simps [simp del]

section \<open>The kernel page table\<close>

text \<open>
  \<^verbatim>\<open>proc_mapstacks\<close> (of \<^verbatim>\<open>proc.c\<close>) and \<^verbatim>\<open>kvmmake\<close>. The linker symbols \<^verbatim>\<open>etext\<close> and
  \<^verbatim>\<open>trampoline\<close> are arguments.
\<close>

function proc_mapstacks :: "uint64 \<Rightarrow> nat \<Rightarrow> 'a machine_scheme \<Rightarrow> 'a machine_scheme res" where
  "proc_mapstacks kpgtbl p s =
     (if p < NPROC then
        rbind (kalloc s) (\<lambda>(pa, s).
        if pa = 0 then Panic ''kalloc''
        else rbind (kvmmap kpgtbl (KSTACK p) pa PGSIZE (PTE_R OR PTE_W) s) (\<lambda>s.
             proc_mapstacks kpgtbl (Suc p) s))
      else Ok s)"
  by pat_completeness auto
termination
  by (relation "measure (\<lambda>(kpgtbl, p, s). NPROC - p)") auto

declare proc_mapstacks.simps [simp del]

definition kvmmake :: "uint64 \<Rightarrow> uint64 \<Rightarrow> 'a machine_scheme \<Rightarrow> (uint64 \<times> 'a machine_scheme) res" where
  "kvmmake etext trampoline s =
     rbind (kalloc s) (\<lambda>(kpgtbl, s).
     let s = s\<lparr>mem := memset (mem s) kpgtbl 0 4096\<rparr> in
     rbind (kvmmap kpgtbl UART0 UART0 PGSIZE (PTE_R OR PTE_W) s) (\<lambda>s.
     rbind (kvmmap kpgtbl VIRTIO0 VIRTIO0 PGSIZE (PTE_R OR PTE_W) s) (\<lambda>s.
     rbind (kvmmap kpgtbl PLIC PLIC 0x400000 (PTE_R OR PTE_W) s) (\<lambda>s.
     rbind (kvmmap kpgtbl KERNBASE KERNBASE (etext - KERNBASE) (PTE_R OR PTE_X) s) (\<lambda>s.
     rbind (kvmmap kpgtbl etext etext (PHYSTOP - etext) (PTE_R OR PTE_W) s) (\<lambda>s.
     rbind (kvmmap kpgtbl TRAMPOLINE trampoline PGSIZE (PTE_R OR PTE_X) s) (\<lambda>s.
     rbind (proc_mapstacks kpgtbl 0 s) (\<lambda>s.
     Ok (kpgtbl, s)))))))))"

end
