(* ===== verification/Pagetable.thy ===== *)
theory Pagetable
  imports Vm
begin

text \<open>
  What a page table in memory means: \<open>table\<close> follows a path of indices from the root,
  \<open>pte_val\<close> is the leaf entry of a virtual address (0 where no table exists). The
  invariant \<open>pt_inv\<close> says that the table pages form a tree of distinct RAM pages, none
  of them on the free list. Under it, \<^verbatim>\<open>walk\<close> and \<^verbatim>\<open>mappages\<close> act on \<open>pte_val\<close> as
  updates of a map from virtual pages to entries.
\<close>

section \<open>Tables, entries and paths\<close>

definition slot :: "uint64 \<Rightarrow> nat \<Rightarrow> uint64" where
  "slot t i = t + 8 * word_of_nat i"

definition pte_valid :: "uint64 \<Rightarrow> bool" where
  "pte_valid v \<longleftrightarrow> v AND PTE_V \<noteq> 0"

definition next_table :: "memory \<Rightarrow> uint64 \<Rightarrow> nat \<Rightarrow> uint64 option" where
  "next_table m t i = (let v = load64 m (slot t i) in if pte_valid v then Some (PTE2PA v) else None)"

fun table :: "memory \<Rightarrow> uint64 \<Rightarrow> nat list \<Rightarrow> uint64 option" where
  "table m r [] = Some r"
| "table m r (i # is) = Option.bind (next_table m r i) (\<lambda>t. table m t is)"

definition idx :: "nat \<Rightarrow> uint64 \<Rightarrow> nat" where
  "idx l va = unat (PX l va)"

definition va_path :: "uint64 \<Rightarrow> nat list" where
  "va_path va = [idx 2 va, idx 1 va]"

definition pte_slot :: "memory \<Rightarrow> uint64 \<Rightarrow> uint64 \<Rightarrow> uint64" where
  "pte_slot m r va = (case table m r (va_path va) of None \<Rightarrow> 0 | Some t \<Rightarrow> slot t (idx 0 va))"

definition pte_val :: "memory \<Rightarrow> uint64 \<Rightarrow> uint64 \<Rightarrow> uint64" where
  "pte_val m r va = (case table m r (va_path va) of None \<Rightarrow> 0 | Some t \<Rightarrow> load64 m (slot t (idx 0 va)))"

definition path_ok :: "nat list \<Rightarrow> bool" where
  "path_ok is \<longleftrightarrow> length is \<le> 2 \<and> (\<forall>i \<in> set is. i < 512)"

definition tables :: "memory \<Rightarrow> uint64 \<Rightarrow> uint64 set" where
  "tables m r = {t. \<exists>is. path_ok is \<and> table m r is = Some t}"

text \<open>The entries above the last level point to tables: they carry no permission.\<close>

definition inner_ok :: "memory \<Rightarrow> uint64 \<Rightarrow> bool" where
  "inner_ok m r \<longleftrightarrow> (\<forall>is i t. path_ok (is @ [i]) \<longrightarrow> table m r is = Some t \<longrightarrow> pte_valid (load64 m (slot t i)) \<longrightarrow>
     load64 m (slot t i) AND (PTE_R OR PTE_W OR PTE_X) = 0)"

text \<open>Half of the root table lies above \<^verbatim>\<open>MAXVA\<close> and is never used.\<close>

definition top_ok :: "memory \<Rightarrow> uint64 \<Rightarrow> bool" where
  "top_ok m r \<longleftrightarrow> (\<forall>i. 256 \<le> i \<longrightarrow> i < 512 \<longrightarrow> \<not> pte_valid (load64 m (slot r i)))"

definition pt_inv :: "'a machine_scheme \<Rightarrow> uint64 list \<Rightarrow> uint64 \<Rightarrow> bool" where
  "pt_inv s fl r \<longleftrightarrow> kmem_inv s fl \<and> (\<forall>t \<in> tables (mem s) r. page_ok s t \<and> t \<notin> set fl) \<and>
     (\<forall>is js t. path_ok is \<longrightarrow> path_ok js \<longrightarrow> table (mem s) r is = Some t \<longrightarrow> table (mem s) r js = Some t \<longrightarrow> is = js) \<and>
     inner_ok (mem s) r \<and> top_ok (mem s) r"

lemma idx_less: "idx l va < 512"
  by (simp add: idx_def PX_less)

lemma path_ok_va_path [simp]: "path_ok (va_path va)"
  by (simp add: path_ok_def va_path_def idx_less)

lemma path_ok_Nil [simp]: "path_ok []"
  by (simp add: path_ok_def)

lemma path_ok_snoc: "path_ok (is @ [i]) \<longleftrightarrow> length is < 2 \<and> i < 512 \<and> path_ok is"
  by (auto simp: path_ok_def)

lemma table_snoc: "table m r (is @ [i]) = Option.bind (table m r is) (\<lambda>t. next_table m t i)"
  by (induction "is" arbitrary: r) (auto simp: bind_assoc)

lemma slot_PX: "t + 8 * PX l va = slot t (idx l va)"
  by (simp add: slot_def idx_def)

lemma unat_slot:
  assumes "pg_aligned t" and "i < 512"
  shows "unat (slot t i) = unat t + 8 * i"
proof -
  from assms(1) obtain k where k: "unat t = 4096 * k" by (auto simp: pg_aligned_unat)
  have "unat t < 4096 * 4503599627370496" using unsigned_less [of t, where 'a = nat] by simp
  then have "k < 4503599627370496" using k by simp
  then have "unat t + 4096 \<le> 2 ^ 64" using k by simp
  moreover have "unat (8 * word_of_nat i :: uint64) = 8 * i"
    using assms(2) by (simp add: unat_word_ariths)
  ultimately show ?thesis
    using assms(2) by (simp add: slot_def unat_add_small)
qed

lemma slot_aligned8: "pg_aligned t \<Longrightarrow> i < 512 \<Longrightarrow> aligned8 (slot t i)"
  using pg_aligned_8 [of t] by (simp add: aligned8_def unat_slot)

lemma slot_page: "pg_aligned t \<Longrightarrow> i < 512 \<Longrightarrow> PGROUNDDOWN (slot t i) = t"
  by (auto simp: word_unat_eq_iff [of "PGROUNDDOWN _"] unat_PGROUNDDOWN unat_slot pg_aligned_unat)

lemma slot_inj:
  assumes "pg_aligned t" "i < 512" "pg_aligned u" "j < 512"
  shows "slot t i = slot u j \<longleftrightarrow> t = u \<and> i = j"
proof
  assume eq: "slot t i = slot u j"
  then have "t = u" using slot_page [OF assms(1,2)] slot_page [OF assms(3,4)] by simp
  moreover have "unat t + 8 * i = unat u + 8 * j"
    using eq unat_slot [OF assms(1,2)] unat_slot [OF assms(3,4)] by simp
  ultimately show "t = u \<and> i = j" by simp
qed simp

lemma slot_nonzero: "pg_aligned t \<Longrightarrow> i < 512 \<Longrightarrow> t \<noteq> 0 \<Longrightarrow> slot t i \<noteq> 0"
  using unat_slot [of t i] by (auto simp: unat_eq_zero simp flip: unat_eq_zero)

lemma load64_store_slot:
  assumes "pg_aligned t" "i < 512" "pg_aligned u" "j < 512"
  shows "load64 (store64 m (slot t i) v) (slot u j) = (if t = u \<and> i = j then v else load64 m (slot u j))"
  using assms by (simp add: load64_store64 slot_aligned8 slot_inj)

lemma store_slot_other:
  assumes "pg_aligned t" "i < 512" "PGROUNDDOWN x \<noteq> t"
  shows "store64 m (slot t i) v x = m x"
  using assms slot_page [of t i] by (intro store64_page) (auto simp: slot_aligned8)

section \<open>walk without allocation reads the table\<close>

lemma walk_loop_noalloc:
  "walk_loop 2 r va False s = Ok (pte_slot (mem s) r va, s)"
  by (simp add: numeral_2_eq_2 slot_PX pte_slot_def va_path_def next_table_def pte_valid_def Let_def
      split: option.splits)

lemma walk_noalloc: "va < MAXVA \<Longrightarrow> walk r va False s = Ok (pte_slot (mem s) r va, s)"
  by (simp add: walk_def walk_loop_noalloc not_le)

section \<open>Changing one entry\<close>

lemma tablesI: "path_ok is \<Longrightarrow> table m r is = Some t \<Longrightarrow> t \<in> tables m r"
  by (auto simp: tables_def)

lemma pt_invD:
  assumes "pt_inv s fl r"
  shows "kmem_inv s fl"
    and "t \<in> tables (mem s) r \<Longrightarrow> page_ok s t" and "t \<in> tables (mem s) r \<Longrightarrow> t \<notin> set fl"
    and "t \<in> tables (mem s) r \<Longrightarrow> pg_aligned t" and "t \<in> tables (mem s) r \<Longrightarrow> t \<noteq> 0"
    and "path_ok is \<Longrightarrow> path_ok js \<Longrightarrow> table (mem s) r is = Some t \<Longrightarrow> table (mem s) r js = Some t \<Longrightarrow> is = js"
    and "inner_ok (mem s) r" and "top_ok (mem s) r"
proof -
  show "inner_ok (mem s) r" "top_ok (mem s) r" using assms by (simp_all add: pt_inv_def)
  show k: "kmem_inv s fl" using assms by (simp add: pt_inv_def)
  show p: "page_ok s t" "t \<notin> set fl" if "t \<in> tables (mem s) r" using assms that by (auto simp: pt_inv_def)
  then show "pg_aligned t" "t \<noteq> 0" if "t \<in> tables (mem s) r"
    using that page_ok_nonzero [OF k, of t] by (auto simp: page_ok_def)
  show "path_ok is \<Longrightarrow> path_ok js \<Longrightarrow> table (mem s) r is = Some t \<Longrightarrow> table (mem s) r js = Some t \<Longrightarrow> is = js"
    using assms unfolding pt_inv_def by blast
qed

text \<open>A path that does not go through the changed entry leads where it led before.\<close>

lemma table_frame:
  assumes inv: "pt_inv s fl r"
    and p: "path_ok is" "table (mem s) r is = Some p"
    and agree: "\<And>t j. t \<in> tables (mem s) r \<Longrightarrow> j < 512 \<Longrightarrow> (t, j) \<noteq> (p, i) \<Longrightarrow>
      load64 m' (slot t j) = load64 (mem s) (slot t j)"
    and js: "path_ok js" "\<forall>ks. js \<noteq> is @ i # ks"
  shows "table m' r js = table (mem s) r js"
  using js
proof (induction js rule: rev_induct)
  case (snoc j js)
  then have j: "j < 512" "path_ok js" "\<forall>ks. js \<noteq> is @ i # ks" by (auto simp: path_ok_snoc)
  have eq: "table m' r js = table (mem s) r js" by (rule snoc.IH [OF j(2,3)])
  show ?case
  proof (cases "table (mem s) r js")
    case None
    with eq show ?thesis by (simp add: table_snoc)
  next
    case (Some t)
    have "(t, j) \<noteq> (p, i)"
    proof
      assume "(t, j) = (p, i)"
      then have "js = is" using pt_invD(6) [OF inv j(2) p(1) Some] p(2) by simp
      with \<open>(t, j) = (p, i)\<close> snoc.prems(2) show False by simp
    qed
    then have "load64 m' (slot t j) = load64 (mem s) (slot t j)"
      using agree tablesI [OF j(2) Some] j(1) by blast
    with eq Some show ?thesis by (simp add: table_snoc next_table_def)
  qed
qed simp

lemma va_path_length [simp]: "length (va_path va) = 2"
  by (simp add: va_path_def)

text \<open>Writing a leaf entry leaves the tables alone and changes that entry only.\<close>

lemma leaf_store:
  fixes v :: uint64
  assumes inv: "pt_inv s fl r" and t: "table (mem s) r (va_path va) = Some t"
  defines "m' \<equiv> store64 (mem s) (slot t (idx 0 va)) v"
  shows "path_ok js \<Longrightarrow> table m' r js = table (mem s) r js"
    and "tables m' r = tables (mem s) r"
    and "pte_val m' r va' = (if va_path va' = va_path va \<and> idx 0 va' = idx 0 va then v else pte_val (mem s) r va')"
    and "pt_inv (s\<lparr>mem := m'\<rparr>) fl r"
proof -
  have tt: "t \<in> tables (mem s) r" by (rule tablesI [OF _ t]) simp
  have agree: "load64 m' (slot u j) = load64 (mem s) (slot u j)"
    if "u \<in> tables (mem s) r" "j < 512" "(u, j) \<noteq> (t, idx 0 va)" for u j
    using that pt_invD(4) [OF inv] tt by (auto simp: m'_def load64_store_slot idx_less)
  have same: "table m' r js = table (mem s) r js" if "path_ok js" for js
  proof (rule table_frame [OF inv _ t agree that])
    show "\<forall>ks. js \<noteq> va_path va @ idx 0 va # ks" using that by (auto simp: path_ok_def)
  qed simp_all
  then show "path_ok js \<Longrightarrow> table m' r js = table (mem s) r js" .
  show tabs: "tables m' r = tables (mem s) r" using same by (auto simp: tables_def)
  show "pte_val m' r va' = (if va_path va' = va_path va \<and> idx 0 va' = idx 0 va then v else pte_val (mem s) r va')"
  proof (cases "table (mem s) r (va_path va')")
    case None
    then show ?thesis using t same [of "va_path va'"] by (auto simp: pte_val_def)
  next
    case (Some u)
    have uu: "u \<in> tables (mem s) r" by (rule tablesI [OF _ Some]) simp
    have "u = t \<longleftrightarrow> va_path va' = va_path va"
      using pt_invD(6) [OF inv _ _ Some, of "va_path va"] t Some by auto
    with Some t uu tt show ?thesis
      using pt_invD(4) [OF inv] same [of "va_path va'"]
      by (auto simp: pte_val_def m'_def load64_store_slot idx_less)
  qed
  have "kmem_inv (s\<lparr>mem := m'\<rparr>) fl"
    by (rule kmem_inv_mem [OF pt_invD(1) [OF inv]], unfold m'_def, rule store_slot_other)
      (use pt_invD(3,4) [OF inv tt] in \<open>auto simp: idx_less\<close>)
  moreover have "inner_ok m' r" unfolding inner_ok_def
  proof (intro allI impI)
    fix "is" i u assume *: "path_ok (is @ [i])" "table m' r is = Some u" "pte_valid (load64 m' (slot u i))"
    then have p: "path_ok is" "length is < 2" "i < 512" by (auto simp: path_ok_snoc)
    have u: "table (mem s) r is = Some u" using same [OF p(1)] *(2) by simp
    have "u \<noteq> t" using pt_invD(6) [OF inv p(1) path_ok_va_path u] t p(2) va_path_length [of va] by auto
    then have "load64 m' (slot u i) = load64 (mem s) (slot u i)" using agree [OF tablesI [OF p(1) u] p(3)] by simp
    with pt_invD(7) [OF inv] * u show "load64 m' (slot u i) AND (PTE_R OR PTE_W OR PTE_X) = 0"
      unfolding inner_ok_def by metis
  qed
  moreover have "r \<noteq> t" using pt_invD(6) [OF inv path_ok_Nil path_ok_va_path table.simps(1)] t by (auto simp: va_path_def)
  then have "top_ok m' r" unfolding top_ok_def
    using pt_invD(8) [OF inv] agree [OF tablesI [OF path_ok_Nil table.simps(1)]] by (simp add: top_ok_def)
  ultimately show "pt_inv (s\<lparr>mem := m'\<rparr>) fl r"
    using inv same tabs by (simp add: pt_inv_def page_ok_def)
qed

text \<open>
  Hanging a zeroed page below a table: the new page becomes the table of one more path,
  and no leaf entry changes.
\<close>

lemma table_append: "table m r (is @ js) = Option.bind (table m r is) (\<lambda>t. table m t js)"
  by (induction "is" arbitrary: r) (auto simp: bind_assoc)

lemma path_ok_append: "path_ok (is @ js) \<longleftrightarrow> path_ok is \<and> path_ok js \<and> length is + length js \<le> 2"
  by (auto simp: path_ok_def)

lemma table_zero_page:
  assumes "pg_aligned q" "\<And>j. j < 512 \<Longrightarrow> load64 m (slot q j) = 0" "path_ok js" "js \<noteq> []"
  shows "table m q js = None"
  using assms by (cases js) (auto simp: next_table_def pte_valid_def path_ok_def)

lemma PTE_V_bits: "pte_valid (v OR PTE_V)" "unat PTE_V < 1024"
proof -
  have "bit ((v OR PTE_V) AND PTE_V) 0" by (simp add: PTE_V_def bit_simps)
  then show "pte_valid (v OR PTE_V)" by (auto simp: pte_valid_def)
qed (simp add: PTE_V_def)

lemma table_entry_flags: "(PA2PTE q OR PTE_V) AND (PTE_R OR PTE_W OR PTE_X) = 0"
  by (rule bit_eqI)
    (auto simp only: PA2PTE_def PTE_V_def PTE_R_def PTE_W_def PTE_X_def bit_and_iff bit_or_iff bit_push_bit_iff bit_1_iff bit_0_eq)

lemma table_extend:
  assumes inv: "pt_inv s fl r" and q: "page_ok s q" "q \<notin> tables (mem s) r"
    and p: "path_ok (is @ [i])" "table (mem s) r is = Some p" "next_table (mem s) p i = None"
    and agree: "\<forall>t j. t \<in> tables (mem s) r \<longrightarrow> j < 512 \<longrightarrow> (t, j) \<noteq> (p, i) \<longrightarrow>
      load64 m' (slot t j) = load64 (mem s) (slot t j)"
    and new: "next_table m' p i = Some q" and zero: "\<forall>j < 512. load64 m' (slot q j) = 0"
  shows "path_ok js \<Longrightarrow> table m' r js = (if js = is @ [i] then Some q else table (mem s) r js)"
    and "tables m' r = insert q (tables (mem s) r)"
    and "pte_val m' r va = pte_val (mem s) r va"
proof -
  have pis: "path_ok is" "length is < 2" "i < 512" using p(1) by (auto simp: path_ok_snoc)
  have frame: "table m' r js = table (mem s) r js" if "path_ok js" "\<forall>ks. js \<noteq> is @ i # ks" for js
    using table_frame [OF inv pis(1) p(2) agree [rule_format] that] by simp
  have tab: "table m' r js = (if js = is @ [i] then Some q else table (mem s) r js)" if js: "path_ok js" for js
  proof (cases "\<exists>ks. js = is @ i # ks")
    case True
    then obtain ks where ks: "js = is @ i # ks" by blast
    have "table m' r is = Some p" using frame [OF pis(1)] p(2) by simp
    moreover have "table m' q ks = (if ks = [] then Some q else None)"
      using table_zero_page [of q m' ks] zero js q(1) by (auto simp: ks path_ok_def page_ok_def)
    ultimately show ?thesis using p new by (simp add: ks table_append)
  qed (use frame [OF js] in auto)
  then show "path_ok js \<Longrightarrow> table m' r js = (if js = is @ [i] then Some q else table (mem s) r js)" .
  have "table (mem s) r (is @ [i]) = None" using p by (simp add: table_append)
  then show "tables m' r = insert q (tables (mem s) r)"
    using tab p(1) by (fastforce simp: tables_def split: if_splits)
  show "pte_val m' r va = pte_val (mem s) r va"
  proof (cases "table (mem s) r (va_path va)")
    case None
    then show ?thesis
      using tab [of "va_path va"] zero by (auto simp: pte_val_def idx_less)
  next
    case (Some t)
    have "t \<noteq> p" using pt_invD(6) [OF inv _ pis(1) Some] p(2) pis(2) va_path_length [of va] by auto
    moreover have "va_path va \<noteq> is @ [i]" using Some \<open>table (mem s) r (is @ [i]) = None\<close> by auto
    ultimately show ?thesis
      using Some tab [of "va_path va"] agree [rule_format, of t "idx 0 va"] tablesI [OF _ Some]
      by (simp add: pte_val_def idx_less)
  qed
qed

section \<open>walk with allocation\<close>

text \<open>
  \<open>pt_grow s fl s' fl' r\<close>: from \<open>s\<close> to \<open>s'\<close> the table of \<open>r\<close> may have taken pages of the free
  list as table pages; no leaf entry, no other page and nothing else of the state changed.
\<close>

definition pt_grow :: "'a machine_scheme \<Rightarrow> uint64 list \<Rightarrow> 'a machine_scheme \<Rightarrow> uint64 list \<Rightarrow> uint64 \<Rightarrow> bool" where
  "pt_grow s fl s' fl' r \<longleftrightarrow> pt_inv s' fl' r \<and>
     (\<forall>va. pte_val (mem s') r va = pte_val (mem s) r va) \<and>
     (\<exists>us. fl = us @ fl' \<and> tables (mem s') r = tables (mem s) r \<union> set us) \<and>
     (\<forall>x. PGROUNDDOWN x \<notin> tables (mem s') r \<longrightarrow> mem s' x = mem s x) \<and>
     page_ok s' = page_ok s \<and> machine_rest s' = machine_rest s"

lemma pt_grow_refl: "pt_inv s fl r \<Longrightarrow> pt_grow s fl s fl r"
  by (simp add: pt_grow_def)

lemma pt_grow_trans:
  assumes "pt_grow s fl s' fl' r" and "pt_grow s' fl' s'' fl'' r"
  shows "pt_grow s fl s'' fl'' r"
proof -
  from assms(1) obtain us where us: "fl = us @ fl'" "tables (mem s') r = tables (mem s) r \<union> set us"
    by (auto simp: pt_grow_def)
  from assms(2) obtain vs where vs: "fl' = vs @ fl''" "tables (mem s'') r = tables (mem s') r \<union> set vs"
    by (auto simp: pt_grow_def)
  have "fl = (us @ vs) @ fl''" "tables (mem s'') r = tables (mem s) r \<union> set (us @ vs)"
    using us vs by auto
  then have "\<exists>us. fl = us @ fl'' \<and> tables (mem s'') r = tables (mem s) r \<union> set us" by blast
  moreover have "\<forall>x. PGROUNDDOWN x \<notin> tables (mem s'') r \<longrightarrow> mem s'' x = mem s x"
    using assms vs(2) by (simp add: pt_grow_def)
  ultimately show ?thesis using assms by (simp add: pt_grow_def)
qed

lemma memset_zero_slot:
  assumes "pg_aligned q" and "j < 512"
  shows "load64 (memset m q 0 4096) (slot q j) = 0"
  using assms by (intro load64_zero) (auto simp: slot_aligned8 slot_page memset_page)

lemma pt_grow_step:
  assumes inv: "pt_inv s fl r" and p: "path_ok (is @ [i])" "table (mem s) r is = Some p"
      "next_table (mem s) p i = None" and low: "is = [] \<longrightarrow> i < 256"
    and k: "fl = q # fl'" "kmem_inv s1 fl'" "page_ok s1 = page_ok s" "machine_rest s1 = machine_rest s"
      "\<And>x. PGROUNDDOWN x \<noteq> q \<Longrightarrow> mem s1 x = mem s x"
  defines "s' \<equiv> s1\<lparr>mem := store64 (memset (mem s1) q 0 4096) (slot p i) (PA2PTE q OR PTE_V)\<rparr>"
  shows "pt_grow s fl s' fl' r" and "table (mem s') r (is @ [i]) = Some q"
proof -
  have i: "i < 512" "path_ok is" using p(1) by (auto simp: path_ok_snoc)
  have pt: "p \<in> tables (mem s) r" by (rule tablesI [OF i(2) p(2)])
  have q: "page_ok s q" "pg_aligned q" "q \<notin> set fl'"
    using pt_invD(1) [OF inv] k(1) by (auto simp: kmem_inv_def page_ok_def)
  have qt: "q \<notin> tables (mem s) r" using pt_invD(3) [OF inv] k(1) by auto
  then have pq: "p \<noteq> q" using pt by auto
  have pal: "pg_aligned p" by (rule pt_invD(4) [OF inv pt])
  have frame: "mem s' x = mem s x" if "PGROUNDDOWN x \<noteq> p" "PGROUNDDOWN x \<noteq> q" for x
    using that k(5) [OF that(2)] by (simp add: s'_def store_slot_other [OF pal i(1)] memset_page q(2))
  have agree: "load64 (mem s') (slot t j) = load64 (mem s) (slot t j)"
    if t: "t \<in> tables (mem s) r" "j < 512" "(t, j) \<noteq> (p, i)" for t j
  proof -
    have tal: "pg_aligned t" "t \<noteq> q" using pt_invD(4) [OF inv t(1)] qt t(1) by auto
    then have "load64 (mem s') (slot t j) = load64 (memset (mem s1) q 0 4096) (slot t j)"
      using t pal i(1) by (auto simp: s'_def load64_store_slot)
    also have "\<dots> = load64 (mem s) (slot t j)"
      using tal t(2) k(5) q(2) by (intro load64_page) (auto simp: slot_aligned8 slot_page memset_page)
    finally show ?thesis .
  qed
  have new: "next_table (mem s') p i = Some q"
    using pal i(1) q(2) by (simp add: s'_def next_table_def load64_store_slot PTE_V_bits PTE2PA_PA2PTE)
  have zero: "load64 (mem s') (slot q j) = 0" if "j < 512" for j
    using that pal i(1) q(2) pq by (simp add: s'_def load64_store_slot memset_zero_slot)
  have agree': "\<forall>t j. t \<in> tables (mem s) r \<longrightarrow> j < 512 \<longrightarrow> (t, j) \<noteq> (p, i) \<longrightarrow>
      load64 (mem s') (slot t j) = load64 (mem s) (slot t j)" using agree by blast
  have zero': "\<forall>j < 512. load64 (mem s') (slot q j) = 0" using zero by blast
  note ext = table_extend [OF inv q(1) qt p agree' new zero']
  show "table (mem s') r (is @ [i]) = Some q" using ext(1) [OF p(1)] by simp
  have kinv: "kmem_inv s' fl'" unfolding s'_def
  proof (rule kmem_inv_mem [OF k(2)])
    fix x assume x: "PGROUNDDOWN x \<in> set fl'"
    then have "PGROUNDDOWN x \<noteq> p" "PGROUNDDOWN x \<noteq> q" using pt_invD(3) [OF inv pt] k(1) q(3) by auto
    then show "store64 (memset (mem s1) q 0 4096) (slot p i) (PA2PTE q OR PTE_V) x = mem s1 x"
      by (simp add: store_slot_other [OF pal i(1)] memset_page q(2))
  qed
  have "is = js" if "path_ok is" "path_ok js" "table (mem s') r is = Some t" "table (mem s') r js = Some t" for "is" js t
    using that ext(1) [OF that(1)] ext(1) [OF that(2)] qt pt_invD(6) [OF inv that(1,2)]
    by (auto split: if_splits dest: tablesI)
  moreover have "inner_ok (mem s') r" unfolding inner_ok_def
  proof (intro allI impI)
    fix js j u assume *: "path_ok (js @ [j])" "table (mem s') r js = Some u" "pte_valid (load64 (mem s') (slot u j))"
    then have j: "path_ok js" "j < 512" by (auto simp: path_ok_snoc)
    have "js \<noteq> is @ [i]" using * zero [OF j(2)] ext(1) [OF j(1)] by (auto simp: pte_valid_def)
    then have u: "table (mem s) r js = Some u" using ext(1) [OF j(1)] *(2) by simp
    show "load64 (mem s') (slot u j) AND (PTE_R OR PTE_W OR PTE_X) = 0"
    proof (cases "(u, j) = (p, i)")
      case True
      then have "load64 (mem s') (slot u j) = PA2PTE q OR PTE_V" using pal i(1) by (simp add: s'_def)
      then show ?thesis by (simp add: table_entry_flags)
    next
      case False
      with agree [OF tablesI [OF j(1) u] j(2)] pt_invD(7) [OF inv] * u show ?thesis unfolding inner_ok_def by metis
    qed
  qed
  moreover have "top_ok (mem s') r" unfolding top_ok_def
  proof (intro allI impI)
    fix j :: nat assume j: "256 \<le> j" "j < 512"
    have "(r, j) \<noteq> (p, i)" using low j pt_invD(6) [OF inv path_ok_Nil i(2) table.simps(1)] p(2) by auto
    then show "\<not> pte_valid (load64 (mem s') (slot r j))"
      using pt_invD(8) [OF inv] j agree [OF tablesI [OF path_ok_Nil table.simps(1)] j(2)] by (simp add: top_ok_def)
  qed
  ultimately have pinv: "pt_inv s' fl' r"
    using kinv ext(2) q pt_invD(2,3) [OF inv] k(1,3) unfolding pt_inv_def
    by (auto simp: s'_def)
  show "pt_grow s fl s' fl' r" unfolding pt_grow_def
  proof (intro conjI allI impI)
    show "\<exists>us. fl = us @ fl' \<and> tables (mem s') r = tables (mem s) r \<union> set us"
      using k(1) ext(2) by (intro exI [of _ "[q]"]) auto
    show "mem s' x = mem s x" if "PGROUNDDOWN x \<notin> tables (mem s') r" for x
      using that ext(2) pt by (intro frame) auto
  qed (use pinv ext(3) k in \<open>simp_all add: s'_def\<close>)
qed

lemma pt_inv_mem_cong:
  assumes "pt_inv s fl r" and "kmem_inv s' fl" and "mem s' = mem s" and "page_ok s' = page_ok s"
  shows "pt_inv s' fl r"
  using assms by (simp add: pt_inv_def)

lemma va_path_take:
  assumes "l < 2"
  shows "take (2 - l) (va_path va) = take (2 - Suc l) (va_path va) @ [idx (Suc l) va]"
  using assms by (cases l) (simp_all add: va_path_def numeral_2_eq_2)

lemma va_path_split:
  assumes "l < 2"
  shows "va_path va = (take (2 - Suc l) (va_path va) @ [idx (Suc l) va]) @ drop (2 - l) (va_path va)"
  unfolding va_path_take [OF assms, symmetric] by simp

lemma walk_loop_next:
  "next_table (mem s) p (idx (Suc l) va) = Some t \<Longrightarrow> walk_loop (Suc l) p va alloc s = walk_loop l t va alloc s"
  by (simp add: next_table_def pte_valid_def slot_PX Let_def split: if_splits)

lemma walk_loop_new:
  "next_table (mem s) p (idx (Suc l) va) = None \<Longrightarrow>
   walk_loop (Suc l) p va True s = rbind (kalloc s) (\<lambda>(q, s).
     if q = 0 then Ok (0, s)
     else walk_loop l q va True (s\<lparr>mem := store64 (memset (mem s) q 0 4096) (slot p (idx (Suc l) va)) (PA2PTE q OR PTE_V)\<rparr>))"
  by (simp add: next_table_def pte_valid_def slot_PX Let_def split: if_splits cong: if_cong)

declare walk_loop.simps(2) [simp del]

lemma pte_slot_eq_0:
  assumes "pt_inv s fl r"
  shows "pte_slot (mem s) r va = 0 \<longleftrightarrow> table (mem s) r (va_path va) = None"
  using slot_nonzero [OF pt_invD(4) [OF assms] idx_less pt_invD(5) [OF assms]] tablesI [OF path_ok_va_path, of "mem s" r va]
  by (auto simp: pte_slot_def split: option.splits)

lemma walk_loop_alloc:
  assumes "pt_inv s fl r" and "table (mem s) r (take (2 - l) (va_path va)) = Some p" and "l \<le> 2" and va: "idx 2 va < 256"
  shows "\<exists>s' fl'. walk_loop l p va True s = Ok (pte_slot (mem s') r va, s') \<and> pt_grow s fl s' fl' r \<and>
    length fl - length fl' \<le> l \<and> (pte_slot (mem s') r va = 0 \<longrightarrow> fl' = [] \<and> length fl < l)"
  using assms(1-3)
proof (induction l arbitrary: s fl p)
  case 0
  then have "table (mem s) r (va_path va) = Some p" by simp
  with pt_grow_refl [OF "0.prems"(1)] pte_slot_eq_0 [OF "0.prems"(1), of va] show ?case
    by (intro exI [of _ s] exI [of _ fl]) (simp add: slot_PX pte_slot_def)
next
  case (Suc l)
  let ?is = "take (2 - Suc l) (va_path va)" and ?i = "idx (Suc l) va"
  have l: "l < 2" using Suc.prems(3) by simp
  note path = va_path_take [OF l, of va]
  have ok: "path_ok (?is @ [?i])"
    using path_ok_va_path [of va] va_path_split [OF l, of va] path_ok_append by metis
  show ?case
  proof (cases "next_table (mem s) p ?i")
    case (Some t)
    have "table (mem s) r (take (2 - l) (va_path va)) = Some t"
      using Suc.prems(2) Some by (simp add: path table_append)
    from Suc.IH [OF Suc.prems(1) this] l show ?thesis by (fastforce simp: walk_loop_next [OF Some])
  next
    case None
    from pt_invD(1) [OF Suc.prems(1)] show ?thesis
    proof (cases rule: kmem.alloc_cases)
      case (none s1)
      have inv: "pt_inv s1 [] r" by (rule pt_inv_mem_cong [OF Suc.prems(1) [unfolded none(1)] none(3-5)])
      have "table (mem s) r (?is @ [?i]) = None" using Suc.prems(2) None by (simp add: table_append)
      then have "table (mem s) r (va_path va) = None"
        by (subst va_path_split [OF l]) (simp only: table_append [of _ _ "_ @ _"] bind.simps)
      then have "pte_slot (mem s) r va = 0" by (simp add: pte_slot_def)
      then show ?thesis using inv none
        by (intro exI [of _ s1] exI [of _ "[]"]) (simp add: walk_loop_new [OF None] pt_grow_def)
    next
      case (some q fl1 s1)
      let ?s = "s1\<lparr>mem := store64 (memset (mem s1) q 0 4096) (slot p ?i) (PA2PTE q OR PTE_V)\<rparr>"
      have low: "?is = [] \<longrightarrow> ?i < 256" using va l by (cases l) (auto simp: va_path_def numeral_2_eq_2)
      note step = pt_grow_step [OF Suc.prems(1) ok Suc.prems(2) None low some(1,3,8,9,10)]
      have "pt_inv ?s fl1 r" using step(1) by (simp add: pt_grow_def)
      moreover have "table (mem ?s) r (take (2 - l) (va_path va)) = Some q" using step(2) by (simp add: path)
      ultimately obtain s' fl' where w: "walk_loop l q va True ?s = Ok (pte_slot (mem s') r va, s')"
          "pt_grow ?s fl1 s' fl' r" "length fl1 - length fl' \<le> l" "pte_slot (mem s') r va = 0 \<longrightarrow> fl' = [] \<and> length fl1 < l"
        using Suc.IH [of ?s fl1 q] l by auto
      from pt_grow_trans [OF step(1) w(2)] w(1,3,4) some(1,2,4) show ?thesis
        by (intro exI [of _ s'] exI [of _ fl']) (simp add: walk_loop_new [OF None])
    qed
  qed
qed

lemma idx2_low: "va < MAXVA \<Longrightarrow> idx 2 va < 256"
proof -
  assume "va < MAXVA"
  then have "unat va < 2 ^ 38" by (simp add: MAXVA_def word_less_nat_alt)
  then have "unat va div 2 ^ 30 < 256" by (simp add: less_mult_imp_div_less)
  then show ?thesis by (simp add: idx_def unat_PX PXSHIFT_def PGSHIFT_def)
qed

lemma walk_alloc:
  assumes "pt_inv s fl r" and "va < MAXVA"
  shows "\<exists>s' fl'. walk r va True s = Ok (pte_slot (mem s') r va, s') \<and> pt_grow s fl s' fl' r \<and>
    length fl - length fl' \<le> 2 \<and> (pte_slot (mem s') r va = 0 \<longrightarrow> fl' = [] \<and> length fl < 2)"
  using walk_loop_alloc [OF assms(1), of 2 va r] assms(2) idx2_low [OF assms(2)] by (simp add: walk_def not_le)

section \<open>mappages\<close>

lemma same_entry_iff:
  assumes "va < MAXVA" and "va' < MAXVA"
  shows "va_path va' = va_path va \<and> idx 0 va' = idx 0 va \<longleftrightarrow> PGROUNDDOWN va' = PGROUNDDOWN va"
proof -
  have digits: "idx 0 v = unat v div 4096 mod 512" "idx 1 v = unat v div 4096 div 512 mod 512"
    "idx 2 v = unat v div 4096 div 512 div 512" if "v < MAXVA" for v
  proof -
    have "unat v < 2 ^ 38" using that by (simp add: MAXVA_def word_less_nat_alt)
    then have "unat v div 4096 div 512 div 512 < 512" by (simp add: div_mult2_eq [symmetric] less_mult_imp_div_less)
    then show "idx 0 v = unat v div 4096 mod 512" "idx 1 v = unat v div 4096 div 512 mod 512"
      "idx 2 v = unat v div 4096 div 512 div 512"
      by (simp_all add: idx_def unat_PX PXSHIFT_def PGSHIFT_def div_mult2_eq [symmetric])
  qed
  have join: "unat v div 4096 = (idx 2 v * 512 + idx 1 v) * 512 + idx 0 v" if "v < MAXVA" for v
    unfolding digits [OF that] by (simp only: div_mult_mod_eq)
  have "va_path va' = va_path va \<and> idx 0 va' = idx 0 va \<longleftrightarrow> unat va' div 4096 = unat va div 4096"
  proof
    assume "va_path va' = va_path va \<and> idx 0 va' = idx 0 va"
    then have "idx 0 va' = idx 0 va" "idx 1 va' = idx 1 va" "idx 2 va' = idx 2 va" by (simp_all add: va_path_def)
    then show "unat va' div 4096 = unat va div 4096" unfolding join [OF assms(1)] join [OF assms(2)] by simp
  next
    assume "unat va' div 4096 = unat va div 4096"
    then show "va_path va' = va_path va \<and> idx 0 va' = idx 0 va"
      unfolding va_path_def digits [OF assms(1)] digits [OF assms(2)] by simp
  qed
  then show ?thesis by (simp add: word_unat_eq_iff [of "PGROUNDDOWN _"] unat_PGROUNDDOWN)
qed

text \<open>
  \<open>pt_change\<close> is \<open>pt_grow\<close> without the clause on leaf entries; \<open>mapped a j pa perm f\<close> is the map
  \<open>f\<close> of entries with \<open>j\<close> pages from \<open>a\<close> on mapped to the pages from \<open>pa\<close> on.
\<close>

definition pt_change :: "'a machine_scheme \<Rightarrow> uint64 list \<Rightarrow> 'a machine_scheme \<Rightarrow> uint64 list \<Rightarrow> uint64 \<Rightarrow> bool" where
  "pt_change s fl s' fl' r \<longleftrightarrow> pt_inv s' fl' r \<and>
     (\<exists>us. fl = us @ fl' \<and> tables (mem s') r = tables (mem s) r \<union> set us) \<and>
     (\<forall>x. PGROUNDDOWN x \<notin> tables (mem s') r \<longrightarrow> mem s' x = mem s x) \<and>
     page_ok s' = page_ok s \<and> machine_rest s' = machine_rest s"

definition mapped :: "uint64 \<Rightarrow> nat \<Rightarrow> uint64 \<Rightarrow> uint64 \<Rightarrow> (uint64 \<Rightarrow> uint64) \<Rightarrow> uint64 \<Rightarrow> uint64" where
  "mapped a j pa perm f va =
     (if unat a \<le> unat va \<and> unat va < unat a + 4096 * j
      then PA2PTE (pa + (PGROUNDDOWN va - a)) OR perm OR PTE_V else f va)"

lemma pt_grow_change: "pt_grow s fl s' fl' r \<Longrightarrow> pt_change s fl s' fl' r"
  by (simp add: pt_grow_def pt_change_def)

lemma pt_change_inv: "pt_change s fl s' fl' r \<Longrightarrow> pt_inv s' fl' r"
  by (simp add: pt_change_def)

lemma pt_change_refl: "pt_inv s fl r \<Longrightarrow> pt_change s fl s fl r"
  by (simp add: pt_change_def)

lemma pt_change_trans:
  assumes "pt_change s fl s' fl' r" and "pt_change s' fl' s'' fl'' r"
  shows "pt_change s fl s'' fl'' r"
proof -
  from assms(1) obtain us where us: "fl = us @ fl'" "tables (mem s') r = tables (mem s) r \<union> set us"
    by (auto simp: pt_change_def)
  from assms(2) obtain vs where vs: "fl' = vs @ fl''" "tables (mem s'') r = tables (mem s') r \<union> set vs"
    by (auto simp: pt_change_def)
  have "fl = (us @ vs) @ fl''" "tables (mem s'') r = tables (mem s) r \<union> set (us @ vs)"
    using us vs by auto
  then have "\<exists>us. fl = us @ fl'' \<and> tables (mem s'') r = tables (mem s) r \<union> set us" by blast
  moreover have "\<forall>x. PGROUNDDOWN x \<notin> tables (mem s'') r \<longrightarrow> mem s'' x = mem s x"
    using assms vs(2) by (simp add: pt_change_def)
  ultimately show ?thesis using assms by (simp add: pt_change_def)
qed

lemma store_pte:
  fixes v :: uint64
  assumes inv: "pt_inv s fl r" and nz: "pte_slot (mem s) r va \<noteq> 0" and va: "va < MAXVA"
  defines "s' \<equiv> s\<lparr>mem := store64 (mem s) (pte_slot (mem s) r va) v\<rparr>"
  shows "pt_change s fl s' fl r" and "tables (mem s') r = tables (mem s) r"
    and "va' < MAXVA \<Longrightarrow> pte_val (mem s') r va' = (if PGROUNDDOWN va' = PGROUNDDOWN va then v else pte_val (mem s) r va')"
proof -
  obtain t where t: "table (mem s) r (va_path va) = Some t" using nz pte_slot_eq_0 [OF inv, of va] by auto
  then have sl: "pte_slot (mem s) r va = slot t (idx 0 va)" by (simp add: pte_slot_def)
  have tt: "t \<in> tables (mem s) r" by (rule tablesI [OF _ t]) simp
  note leaf = leaf_store [OF inv t, where v = v]
  show tab: "tables (mem s') r = tables (mem s) r" using leaf(2) by (simp add: s'_def sl)
  have "mem s' x = mem s x" if "PGROUNDDOWN x \<notin> tables (mem s) r" for x
    unfolding s'_def sl using that tt pt_invD(4) [OF inv tt] by (auto intro!: store_slot_other simp: idx_less)
  then show "pt_change s fl s' fl r"
    using leaf(4) tab by (simp add: pt_change_def s'_def sl)
  show "pte_val (mem s') r va' = (if PGROUNDDOWN va' = PGROUNDDOWN va then v else pte_val (mem s) r va')"
    if "va' < MAXVA"
    using leaf(3) [where va' = va'] same_entry_iff [OF va that] by (simp add: s'_def sl)
qed

lemma load_pte: "pte_slot m r va \<noteq> 0 \<Longrightarrow> load64 m (pte_slot m r va) = pte_val m r va"
  by (simp add: pte_slot_def pte_val_def split: option.splits)

lemma valid_slot:
  assumes "pt_inv s fl r" and "pte_valid (pte_val (mem s) r va)"
  shows "pte_slot (mem s) r va \<noteq> 0"
  using assms(2) by (cases "table (mem s) r (va_path va)") (auto simp: pte_slot_eq_0 [OF assms(1)] pte_val_def pte_valid_def)

lemma pte_val_page: "va < MAXVA \<Longrightarrow> va' < MAXVA \<Longrightarrow> PGROUNDDOWN va' = PGROUNDDOWN va \<Longrightarrow> pte_val m r va' = pte_val m r va"
  using same_entry_iff [of va va'] by (auto simp: pte_val_def cong: option.case_cong)

text \<open>One turn of the loop of \<^verbatim>\<open>mappages\<close>.\<close>

lemma map_one_page:
  assumes inv: "pt_inv s fl r" and a: "a < MAXVA" and free: "\<not> pte_valid (pte_val (mem s) r a)"
  shows "(\<exists>s1. mappages_loop r a last_a pa perm s = Ok (-1, s1) \<and> pt_grow s fl s1 [] r \<and> length fl < 2) \<or>
    (\<exists>s1 fl1. mappages_loop r a last_a pa perm s =
        (if a = last_a then Ok (0, s1) else mappages_loop r (a + PGSIZE) last_a (pa + PGSIZE) perm s1) \<and>
      pt_change s fl s1 fl1 r \<and> length fl - length fl1 \<le> 2 \<and>
      (\<forall>va < MAXVA. pte_val (mem s1) r va =
        (if PGROUNDDOWN va = PGROUNDDOWN a then PA2PTE pa OR perm OR PTE_V else pte_val (mem s) r va)))"
proof -
  obtain s1 fl1 where w: "walk r a True s = Ok (pte_slot (mem s1) r a, s1)" "pt_grow s fl s1 fl1 r"
      "length fl - length fl1 \<le> 2" "pte_slot (mem s1) r a = 0 \<longrightarrow> fl1 = [] \<and> length fl < 2"
    using walk_alloc [OF inv a] by blast
  have same: "pte_val (mem s1) r va = pte_val (mem s) r va" for va using w(2) by (simp add: pt_grow_def)
  show ?thesis
  proof (cases "pte_slot (mem s1) r a = 0")
    case True
    with w show ?thesis by (intro disjI1 exI [of _ s1]) (simp add: mappages_loop.simps [of r a])
  next
    case False
    let ?v = "PA2PTE pa OR perm OR PTE_V"
    let ?s = "s1\<lparr>mem := store64 (mem s1) (pte_slot (mem s1) r a) ?v\<rparr>"
    have inv1: "pt_inv s1 fl1 r" using w(2) by (simp add: pt_grow_def)
    note st = store_pte [OF inv1 False a, where v = ?v]
    have nv: "load64 (mem s1) (pte_slot (mem s1) r a) AND PTE_V = 0"
      using free same [of a] by (simp add: load_pte [OF False] pte_valid_def)
    have "pt_change s fl ?s fl1 r" by (rule pt_change_trans [OF pt_grow_change [OF w(2)] st(1)])
    then show ?thesis using w(1,3) False nv st(3) same
      by (intro disjI2 exI [of _ ?s] exI [of _ fl1]) (simp add: mappages_loop.simps [of r a])
  qed
qed

lemma page_iff:
  assumes "pg_aligned a"
  shows "PGROUNDDOWN va = a \<longleftrightarrow> unat a \<le> unat va \<and> unat va < unat a + 4096"
proof -
  from assms obtain k where k: "unat a = 4096 * k" by (auto simp: pg_aligned_unat)
  have "PGROUNDDOWN va = a \<longleftrightarrow> unat va div 4096 * 4096 = 4096 * k"
    by (simp add: word_unat_eq_iff unat_PGROUNDDOWN k)
  also have "\<dots> \<longleftrightarrow> unat va div 4096 = k" by simp
  also have "\<dots> \<longleftrightarrow> 4096 * k \<le> unat va \<and> unat va < 4096 * k + 4096"
    using div_mult_mod_eq [of "unat va" 4096] mod_less_divisor [of 4096 "unat va"]
    by (auto simp del: mod_less_divisor)
  finally show ?thesis by (simp add: k)
qed

lemma mapped_step:
  assumes "pg_aligned a" and "a < MAXVA"
  shows "mapped (a + PGSIZE) j (pa + PGSIZE) perm
      (\<lambda>va. if PGROUNDDOWN va = a then PA2PTE pa OR perm OR PTE_V else f va) va = mapped a (Suc j) pa perm f va"
  using page_iff [OF assms(1), of va] MAXVA_step [OF assms(2)]
  by (auto simp: mapped_def algebra_simps)

lemma mapped_0 [simp]: "mapped a 0 pa perm f = f"
  by (auto simp: mapped_def fun_eq_iff)

text \<open>
  \<^verbatim>\<open>mappages\<close> on a range of \<open>n\<close> unmapped pages: all of them are mapped, or memory ran out and
  some of the first ones are. Two free pages for every page to map are always enough.
\<close>

definition mappages_post :: "'a machine_scheme \<Rightarrow> uint64 list \<Rightarrow> uint64 \<Rightarrow> uint64 \<Rightarrow> nat \<Rightarrow> uint64 \<Rightarrow> uint64 \<Rightarrow>
    (int \<times> 'a machine_scheme) res \<Rightarrow> bool" where
  "mappages_post s fl r a n pa perm res \<longleftrightarrow> (\<exists>s' fl' j. pt_change s fl s' fl' r \<and>
     (\<forall>va < MAXVA. pte_val (mem s') r va = mapped a j pa perm (pte_val (mem s) r) va) \<and>
     (res = Ok (0, s') \<and> j = n \<or> res = Ok (-1, s') \<and> j < n \<and> fl' = [] \<and> length fl < 2 * n))"

lemma mappages_post_fail:
  "pt_grow s fl s1 [] r \<Longrightarrow> length fl < 2 \<Longrightarrow> mappages_post s fl r a (Suc n) pa perm (Ok (-1, s1))"
  unfolding mappages_post_def
  by (intro exI [of _ s1] exI [of _ "[]"] exI [of _ 0]) (simp add: pt_grow_change pt_grow_def)

lemma mappages_post_0: "pt_inv s fl r \<Longrightarrow> mappages_post s fl r a 0 pa perm (Ok (0, s))"
  unfolding mappages_post_def by (intro exI [of _ s] exI [of _ fl] exI [of _ 0]) (simp add: pt_change_refl)

lemma mappages_post_Suc:
  assumes ch: "pt_change s fl s1 fl1 r" "length fl - length fl1 \<le> 2" and a: "pg_aligned a" "a < MAXVA"
    and val: "\<forall>va < MAXVA. pte_val (mem s1) r va =
      (if PGROUNDDOWN va = PGROUNDDOWN a then PA2PTE pa OR perm OR PTE_V else pte_val (mem s) r va)"
    and rest: "mappages_post s1 fl1 r (a + PGSIZE) n (pa + PGSIZE) perm res"
  shows "mappages_post s fl r a (Suc n) pa perm res"
proof -
  from rest obtain s' fl' j where r: "pt_change s1 fl1 s' fl' r"
      "\<forall>va < MAXVA. pte_val (mem s') r va = mapped (a + PGSIZE) j (pa + PGSIZE) perm (pte_val (mem s1) r) va"
      "res = Ok (0, s') \<and> j = n \<or> res = Ok (-1, s') \<and> j < n \<and> fl' = [] \<and> length fl1 < 2 * n"
    unfolding mappages_post_def by blast
  have "pte_val (mem s') r va = mapped a (Suc j) pa perm (pte_val (mem s) r) va" if "va < MAXVA" for va
  proof -
    have "pte_val (mem s') r va = mapped (a + PGSIZE) j (pa + PGSIZE) perm
        (\<lambda>va. if PGROUNDDOWN va = a then PA2PTE pa OR perm OR PTE_V else pte_val (mem s) r va) va"
      using r(2) that val PGROUNDDOWN_aligned [OF a(1)] by (simp add: mapped_def)
    then show ?thesis by (simp only: mapped_step [OF a])
  qed
  with pt_change_trans [OF ch(1) r(1)] ch(2) r(3) show ?thesis unfolding mappages_post_def
    by (intro exI [of _ s'] exI [of _ fl'] exI [of _ "Suc j"]) auto
qed

lemma mappages_loop_maps:
  assumes "pt_inv s fl r" and "pg_aligned a" and "unat a + 4096 * Suc n \<le> 274877906944"
    and "\<And>va. unat a \<le> unat va \<Longrightarrow> unat va < unat a + 4096 * Suc n \<Longrightarrow> \<not> pte_valid (pte_val (mem s) r va)"
  shows "mappages_post s fl r a (Suc n) pa perm (mappages_loop r a (a + word_of_nat n * PGSIZE) pa perm s)"
  using assms
proof (induction n arbitrary: s fl a pa)
  case 0
  have a: "a < MAXVA" using "0.prems"(3) by (simp add: MAXVA_def word_less_nat_alt)
  have free: "\<not> pte_valid (pte_val (mem s) r a)" using "0.prems"(4) [of a] by simp
  from map_one_page [OF "0.prems"(1) a free, of a pa perm] show ?case
    by (elim disjE exE conjE)
      (simp_all add: mappages_post_fail mappages_post_Suc [OF _ _ "0.prems"(2) a _ mappages_post_0 [OF pt_change_inv]])
next
  case (Suc n)
  let ?l = "a + word_of_nat (Suc n) * PGSIZE"
  have a: "a < MAXVA" using Suc.prems(3) by (simp add: MAXVA_def word_less_nat_alt)
  note step = MAXVA_step [OF a]
  have free: "\<not> pte_valid (pte_val (mem s) r a)" using Suc.prems(4) [of a] by simp
  have ne: "a \<noteq> ?l"
    using Suc.prems(3) by (simp add: word_unat_eq_iff unat_word_ariths unat_of_nat take_bit_eq_mod)
  have l: "?l = (a + PGSIZE) + word_of_nat n * PGSIZE" by (simp add: algebra_simps)
  from map_one_page [OF Suc.prems(1) a free, of ?l pa perm] show ?case
  proof (elim disjE exE conjE)
    fix s1 assume "mappages_loop r a ?l pa perm s = Ok (-1, s1)" "pt_grow s fl s1 [] r" "length fl < 2"
    then show ?thesis using mappages_post_fail by metis
  next
    fix s1 fl1
    assume eq: "mappages_loop r a ?l pa perm s = (if a = ?l then Ok (0, s1) else mappages_loop r (a + PGSIZE) ?l (pa + PGSIZE) perm s1)"
      and ch: "pt_change s fl s1 fl1 r" "length fl - length fl1 \<le> 2"
      and val: "\<forall>va < MAXVA. pte_val (mem s1) r va = (if PGROUNDDOWN va = PGROUNDDOWN a then PA2PTE pa OR perm OR PTE_V else pte_val (mem s) r va)"
    have "mappages_post s1 fl1 r (a + PGSIZE) (Suc n) (pa + PGSIZE) perm
      (mappages_loop r (a + PGSIZE) (a + PGSIZE + word_of_nat n * PGSIZE) (pa + PGSIZE) perm s1)"
    proof (rule Suc.IH)
      show "pt_inv s1 fl1 r" using ch(1) by (simp add: pt_change_def)
      show "pg_aligned (a + PGSIZE)" using Suc.prems(2) by (simp add: pg_aligned_add)
      show "unat (a + PGSIZE) + 4096 * Suc n \<le> 274877906944" using step Suc.prems(3) by simp
      fix va :: uint64 assume va: "unat (a + PGSIZE) \<le> unat va" "unat va < unat (a + PGSIZE) + 4096 * Suc n"
      then have "va < MAXVA" "PGROUNDDOWN va \<noteq> a"
        using step Suc.prems(3) page_iff [OF Suc.prems(2), of va] by (simp_all add: MAXVA_def word_less_nat_alt)
      then show "\<not> pte_valid (pte_val (mem s1) r va)"
        using Suc.prems(4) [of va] va step val PGROUNDDOWN_aligned [OF Suc.prems(2)] by simp
    qed
    from mappages_post_Suc [OF ch Suc.prems(2) a val this] eq ne show ?thesis unfolding l by simp
  qed
qed

text \<open>The number of pages that the bytes \<open>va .. va + sz - 1\<close> touch.\<close>

definition npages :: "uint64 \<Rightarrow> uint64 \<Rightarrow> nat" where
  "npages va sz = Suc ((unat va + unat sz - 1) div 4096 - unat va div 4096)"

lemma mappages_range:
  assumes "sz \<noteq> 0" and "unat va + unat sz \<le> 274877906944"
  shows "PGROUNDDOWN (va + sz - 1) = PGROUNDDOWN va + word_of_nat (npages va sz - 1) * PGSIZE"
    and "unat (PGROUNDDOWN va) + 4096 * npages va sz \<le> 274877906944"
proof -
  let ?e = "unat va + unat sz - 1" and ?k = "unat va div 4096"
  have pos: "0 < unat sz" using assms(1) by (simp add: unat_gt_0)
  have "unat (va + sz) = unat va + unat sz" using assms(2) by (intro unat_add_small) simp
  moreover from this have "va + sz \<noteq> 0" using pos by auto
  ultimately have e: "unat (va + sz - 1) = ?e" by (simp add: unat_minus_one)
  have mono: "?k \<le> ?e div 4096" using pos by (intro div_le_mono) simp
  have lim: "?e div 4096 < 67108864" using assms(2) pos by (simp add: div_less_iff_less_mult)
  then have lim': "?e div 4096 * 4096 < 2 ^ 64" by simp
  have "unat (word_of_nat (?e div 4096 - ?k) * PGSIZE) = (?e div 4096 - ?k) * 4096"
    using lim by (simp add: unat_word_ariths)
  then show "PGROUNDDOWN (va + sz - 1) = PGROUNDDOWN va + word_of_nat (npages va sz - 1) * PGSIZE"
    using mono lim' lim
    by (simp add: word_unat_eq_iff [of "PGROUNDDOWN _"] unat_PGROUNDDOWN e npages_def unat_add_small diff_mult_distrib
        del: of_nat_diff)
  show "unat (PGROUNDDOWN va) + 4096 * npages va sz \<le> 274877906944"
  proof -
    have "?k * 4096 + 4096 * Suc (?e div 4096 - ?k) = 4096 * Suc (?e div 4096)"
      using mono le_add_diff_inverse [OF mono] by (simp only: add_Suc_right flip: distrib_left mult.commute [of 4096])
    also have "\<dots> \<le> 4096 * 67108864" using lim by (intro mult_le_mono2) simp
    finally show ?thesis by (simp add: unat_PGROUNDDOWN npages_def)
  qed
qed

lemma mappages_maps:
  assumes "pt_inv s fl r" and "sz \<noteq> 0" and "unat va + unat sz \<le> 274877906944"
    and "\<And>v. unat (PGROUNDDOWN va) \<le> unat v \<Longrightarrow> unat v < unat (PGROUNDDOWN va) + 4096 * npages va sz \<Longrightarrow>
      \<not> pte_valid (pte_val (mem s) r v)"
  shows "mappages_post s fl r (PGROUNDDOWN va) (npages va sz) pa perm (mappages r va sz pa perm s)"
proof -
  have n: "npages va sz = Suc (npages va sz - 1)" by (simp add: npages_def)
  have "mappages_post s fl r (PGROUNDDOWN va) (Suc (npages va sz - 1)) pa perm
    (mappages_loop r (PGROUNDDOWN va) (PGROUNDDOWN va + word_of_nat (npages va sz - 1) * PGSIZE) pa perm s)"
  proof (rule mappages_loop_maps [OF assms(1)])
    show "unat (PGROUNDDOWN va) + 4096 * Suc (npages va sz - 1) \<le> 274877906944"
      using mappages_range(2) [OF assms(2,3)] n by simp
    show "\<not> pte_valid (pte_val (mem s) r v)"
      if "unat (PGROUNDDOWN va) \<le> unat v" "unat v < unat (PGROUNDDOWN va) + 4096 * Suc (npages va sz - 1)" for v
      using assms(4) [OF that(1)] that(2) n by simp
  qed simp
  then show ?thesis
    unfolding mappages_def mappages_range(1) [OF assms(2,3), symmetric] n [symmetric] using assms(2) by simp
qed

lemma mappages_remap:
  assumes "pt_inv s fl r" and "va < MAXVA" and "sz \<noteq> 0" and "pte_valid (pte_val (mem s) r va)"
  shows "mappages r va sz pa perm s = Panic ''mappages: remap''"
proof -
  let ?a = "PGROUNDDOWN va"
  have "?a \<le> va" by (rule PGROUNDDOWN_le)
  then have a: "?a < MAXVA" using assms(2) by simp
  obtain s1 fl1 where w: "walk r ?a True s = Ok (pte_slot (mem s1) r ?a, s1)" "pt_grow s fl s1 fl1 r"
    using walk_alloc [OF assms(1) a] by blast
  have "pte_val (mem s1) r ?a = pte_val (mem s) r va"
    using w(2) pte_val_page [OF assms(2) a, of "mem s" r] by (simp add: pt_grow_def PGROUNDDOWN_aligned)
  then have v: "pte_valid (pte_val (mem s1) r ?a)" using assms(4) by simp
  moreover have "pt_inv s1 fl1 r" using w(2) by (simp add: pt_grow_def)
  ultimately have nz: "pte_slot (mem s1) r ?a \<noteq> 0"
    by (rule valid_slot [rotated])
  then show ?thesis
    using assms(3) w(1) v by (simp add: mappages_def mappages_loop.simps [of r ?a] load_pte pte_valid_def)
qed

section \<open>walkaddr\<close>

lemma walkaddr_eq:
  assumes "pt_inv s fl r" and "va < MAXVA"
  shows "walkaddr r va s =
    Ok (if pte_valid (pte_val (mem s) r va) \<and> pte_val (mem s) r va AND PTE_U \<noteq> 0 then PTE2PA (pte_val (mem s) r va) else 0)"
proof (cases "pte_slot (mem s) r va = 0")
  case True
  then have "pte_val (mem s) r va = 0" using pte_slot_eq_0 [OF assms(1), of va] by (simp add: pte_val_def)
  with True assms(2) show ?thesis by (simp add: walkaddr_def walk_noalloc not_le pte_valid_def)
next
  case False
  with assms(2) leD [of MAXVA va] show ?thesis by (auto simp: walkaddr_def walk_noalloc load_pte pte_valid_def)
qed

lemma empty_table:
  assumes "kmem_inv s fl" and "page_ok s r" and "r \<notin> set fl" and "\<And>x. PGROUNDDOWN x = r \<Longrightarrow> mem s x = 0"
  shows "pt_inv s fl r" and "tables (mem s) r = {r}" and "pte_val (mem s) r va = 0"
proof -
  have r: "pg_aligned r" using assms(2) by (simp add: page_ok_def)
  have zero: "load64 (mem s) (slot r j) = 0" if "j < 512" for j
    using that r assms(4) by (intro load64_zero) (simp_all add: slot_aligned8 slot_page)
  have tab: "table (mem s) r js = (if js = [] then Some r else None)" if "path_ok js" for js
    using table_zero_page [OF r zero that] by simp
  have "r \<in> tables (mem s) r" by (rule tablesI [of "[]"]) simp_all
  then show t: "tables (mem s) r = {r}" using tab by (auto simp: tables_def split: if_splits)
  have "va_path va \<noteq> []" by (simp add: va_path_def)
  then show "pte_val (mem s) r va = 0" using tab [of "va_path va"] by (simp add: pte_val_def)
  have "inner_ok (mem s) r" unfolding inner_ok_def
    using tab zero by (auto simp: path_ok_snoc pte_valid_def split: if_splits)
  moreover have "top_ok (mem s) r" using zero by (simp add: top_ok_def pte_valid_def)
  ultimately show "pt_inv s fl r" unfolding pt_inv_def t using assms(1-3) tab by (auto split: if_splits)
qed

section \<open>Flags of the entries that mappages writes\<close>

lemma or_flags: "unat a < 1024 \<Longrightarrow> unat b < 1024 \<Longrightarrow> unat ((a :: uint64) OR b) < 1024"
proof -
  assume "unat a < 1024" "unat b < 1024"
  then have "take_bit 10 (a OR b) = a OR b" using small_bits [of a 10] small_bits [of b 10] by simp
  then have "unat (a OR b) = unat (a OR b) mod 2 ^ 10" by (metis take_bit_eq_mod unsigned_take_bit_eq)
  then show ?thesis by simp
qed

lemma PTE_bits:
  "v AND PTE_V \<noteq> 0 \<longleftrightarrow> bit v 0" "v AND PTE_R \<noteq> 0 \<longleftrightarrow> bit v 1" "v AND PTE_W \<noteq> 0 \<longleftrightarrow> bit v 2"
  "v AND PTE_X \<noteq> 0 \<longleftrightarrow> bit v 3" "v AND PTE_U \<noteq> 0 \<longleftrightarrow> bit v 4" "v AND PTE_A \<noteq> 0 \<longleftrightarrow> bit v 6"
  by (simp_all only: PTE_V_def PTE_R_def PTE_W_def PTE_X_def PTE_U_def PTE_A_def push_bit_of_1 and_exp_eq_0_iff_not_bit not_not)

lemma mapped_walk:
  assumes "pg_aligned pa" and "unat perm < 1024" and "perm AND PTE_U \<noteq> 0"
  shows "pte_valid (PA2PTE pa OR perm OR PTE_V)" and "(PA2PTE pa OR perm OR PTE_V) AND PTE_U \<noteq> 0"
    and "PTE2PA (PA2PTE pa OR perm OR PTE_V) = pa"
  using assms PTE2PA_PA2PTE [OF assms(1), of "perm OR PTE_V"] PTE_V_bits(1) [of "PA2PTE pa OR perm"]
  by (simp_all add: PTE_V_bits or_flags PTE_bits bit_or_iff or.assoc)

section \<open>Properties\<close>

text \<open>
  C5: \<^verbatim>\<open>mappages\<close> extends a page table. On a range of unmapped pages it either maps exactly the
  pages of the range, in order, to the given physical pages and returns 0, or runs out of
  memory, returns -1 and has mapped some of the first ones. The entry of every address
  outside the mapped range is unchanged; the tables stay a tree of distinct pages; the
  pages they gained were taken from the front of the free list; no other memory changes.
\<close>

theorem mappages_updates_entries:
  assumes "pt_inv s fl r" and "sz \<noteq> 0" and "unat va + unat sz \<le> 2 ^ 38"
    and "\<forall>v. unat (PGROUNDDOWN va) \<le> unat v \<and> unat v < unat (PGROUNDDOWN va) + 4096 * npages va sz \<longrightarrow>
      \<not> pte_valid (pte_val (mem s) r v)"
  shows "\<exists>s' us fl' j. fl = us @ fl' \<and> pt_inv s' fl' r \<and> tables (mem s') r = tables (mem s) r \<union> set us \<and>
    (\<forall>x. PGROUNDDOWN x \<notin> tables (mem s') r \<longrightarrow> mem s' x = mem s x) \<and>
    (\<forall>v < MAXVA. pte_val (mem s') r v =
       (if unat (PGROUNDDOWN va) \<le> unat v \<and> unat v < unat (PGROUNDDOWN va) + 4096 * j
        then PA2PTE (pa + (PGROUNDDOWN v - PGROUNDDOWN va)) OR perm OR PTE_V else pte_val (mem s) r v)) \<and>
    (mappages r va sz pa perm s = Ok (0, s') \<and> j = npages va sz \<or>
     mappages r va sz pa perm s = Ok (-1, s') \<and> j < npages va sz \<and> fl' = [] \<and> length fl < 2 * npages va sz)"
proof -
  have "mappages_post s fl r (PGROUNDDOWN va) (npages va sz) pa perm (mappages r va sz pa perm s)"
    by (rule mappages_maps [OF assms(1,2)]) (use assms(3,4) in simp_all)
  then show ?thesis unfolding mappages_post_def mapped_def pt_change_def by blast
qed

text \<open>
  A machine with an empty root table at \<open>0x87ffd000\<close> and two free pages, enough for the two
  tables below the root.
\<close>

definition two_page_machine :: machine where
  "two_page_machine = boot_machine\<lparr>kend := 0x87ffd000, freelist := 0x87ffe000,
     mem := store64 (\<lambda>_. 0) 0x87ffe000 0x87fff000\<rparr>"

lemma two_page_machine_inv:
  "pt_inv two_page_machine [0x87ffe000, 0x87fff000] 0x87ffd000"
  "pte_val (mem two_page_machine) 0x87ffd000 va = 0"
proof -
  have al: "pg_aligned 0x87ffe000" "pg_aligned 0x87fff000" by (simp_all add: pg_aligned_def layout_defs)
  have page: "PGROUNDDOWN 0x87ffe000 = 0x87ffe000" "PGROUNDDOWN 0x87fff000 = 0x87fff000"
    by (simp_all add: PGROUNDDOWN_aligned al)
  have "load64 (store64 (\<lambda>_. 0) 0x87ffe000 0x87fff000) 0x87fff000 = 0"
    by (intro load64_zero) (auto simp: al page)
  then have k: "kmem_inv two_page_machine [0x87ffe000, 0x87fff000]"
    by (simp add: kmem_inv_def two_page_machine_def boot_machine_def cpu_ok_def initlock_def page_ok_def
        pg_aligned_def layout_defs)
  have p: "page_ok two_page_machine 0x87ffd000"
    by (simp add: two_page_machine_def boot_machine_def page_ok_def pg_aligned_def layout_defs)
  have z: "mem two_page_machine x = 0" if "PGROUNDDOWN x = 0x87ffd000" for x
    using that by (simp add: two_page_machine_def al)
  show "pt_inv two_page_machine [0x87ffe000, 0x87fff000] 0x87ffd000"
    "pte_val (mem two_page_machine) 0x87ffd000 va = 0"
    by (rule empty_table [OF k p _ z]; simp)+
qed

lemma two_page_map:
  "\<exists>s' fl'. mappages 0x87ffd000 0 PGSIZE 0x87000000 PTE_R two_page_machine = Ok (0, s') \<and>
     pt_inv s' fl' 0x87ffd000 \<and> pte_valid (pte_val (mem s') 0x87ffd000 0)"
proof -
  have one: "npages 0 PGSIZE = Suc 0" by (simp add: npages_def)
  have pg: "PGSIZE \<noteq> 0" by (simp add: PGSIZE_def)
  have z: "PGROUNDDOWN 0 = 0" by (simp add: PGROUNDDOWN_def)
  have "mappages_post two_page_machine [0x87ffe000, 0x87fff000] 0x87ffd000 0 (Suc 0) 0x87000000 PTE_R
      (mappages 0x87ffd000 0 PGSIZE 0x87000000 PTE_R two_page_machine)"
    using mappages_maps [OF two_page_machine_inv(1), of PGSIZE 0 "0x87000000" PTE_R]
    by (simp add: two_page_machine_inv(2) pte_valid_def one z pg)
  then obtain s' fl' where s': "pt_inv s' fl' 0x87ffd000" "mappages 0x87ffd000 0 PGSIZE 0x87000000 PTE_R two_page_machine = Ok (0, s')"
    and v: "\<forall>va < MAXVA. pte_val (mem s') 0x87ffd000 va = mapped 0 (Suc 0) 0x87000000 PTE_R (pte_val (mem two_page_machine) 0x87ffd000) va"
    by (auto simp: mappages_post_def dest: pt_change_inv)
  have "pte_val (mem s') 0x87ffd000 0 = (PA2PTE 0x87000000 OR PTE_R) OR PTE_V"
    using v by (simp add: mapped_def MAXVA_def z or.assoc)
  with s' show ?thesis by (metis PTE_V_bits(1))
qed

theorem mappages_updates_entries_witness:
  "\<exists>s'. mappages 0x87ffd000 0 PGSIZE 0x87000000 PTE_R two_page_machine = Ok (0, s') \<and>
     (\<forall>v < MAXVA. PGSIZE \<le> v \<longrightarrow> pte_val (mem s') 0x87ffd000 v = 0)"
proof -
  have one: "npages 0 PGSIZE = Suc 0" by (simp add: npages_def)
  have nv: "\<forall>v. unat (PGROUNDDOWN 0) \<le> unat v \<and> unat v < unat (PGROUNDDOWN 0) + 4096 * npages 0 PGSIZE \<longrightarrow>
      \<not> pte_valid (pte_val (mem two_page_machine) 0x87ffd000 v)"
    by (simp add: two_page_machine_inv(2) pte_valid_def)
  have "PGSIZE \<noteq> 0" "unat 0 + unat PGSIZE \<le> 2 ^ 38" by (simp_all add: PGSIZE_def)
  from mappages_updates_entries [OF two_page_machine_inv(1) this nv, of "0x87000000" PTE_R]
  obtain s' where "mappages 0x87ffd000 0 PGSIZE 0x87000000 PTE_R two_page_machine = Ok (0, s')"
    and "\<forall>v < MAXVA. pte_val (mem s') 0x87ffd000 v =
       (if unat (PGROUNDDOWN 0) \<le> unat v \<and> unat v < unat (PGROUNDDOWN 0) + 4096
        then PA2PTE (0x87000000 + (PGROUNDDOWN v - PGROUNDDOWN 0)) OR PTE_R OR PTE_V else pte_val (mem two_page_machine) 0x87ffd000 v)"
    by (auto simp: one)
  then show ?thesis by (auto simp: two_page_machine_inv(2) PGROUNDDOWN_def word_le_nat_alt)
qed

text \<open>
  C16: mapping a page that is already mapped is a kernel panic, whatever the permissions.
\<close>

theorem mappages_remap_panics:
  assumes "pt_inv s fl r" and "va < MAXVA" and "sz \<noteq> 0" and "pte_valid (pte_val (mem s) r va)"
  shows "mappages r va sz pa perm s = Panic ''mappages: remap''"
  by (rule mappages_remap [OF assms])

theorem mappages_remap_panics_witness:
  "\<exists>s'. mappages 0x87ffd000 0 PGSIZE 0x87000000 PTE_R two_page_machine = Ok (0, s') \<and>
     mappages 0x87ffd000 0 PGSIZE 0x87000000 PTE_R s' = Panic ''mappages: remap''"
proof -
  from two_page_map obtain s' fl' where "mappages 0x87ffd000 0 PGSIZE 0x87000000 PTE_R two_page_machine = Ok (0, s')"
      and s': "pt_inv s' fl' 0x87ffd000" "pte_valid (pte_val (mem s') 0x87ffd000 0)" by blast
  moreover have "mappages 0x87ffd000 0 PGSIZE 0x87000000 PTE_R s' = Panic ''mappages: remap''"
    by (rule mappages_remap_panics [OF s'(1) _ _ s'(2)]) (simp_all add: MAXVA_def PGSIZE_def)
  ultimately show ?thesis by blast
qed

end
