(* ===== verification/Uvm.thy ===== *)
theory Uvm
  imports Pagetable
begin

text \<open>
  User memory: what the \<^verbatim>\<open>uvm\<close> functions of \<^verbatim>\<open>kernel/vm.c\<close> do with the pages of a process.
  \<open>uvm_inv s fl r K\<close> says that the table \<open>r\<close> maps the virtual pages with numbers in \<open>K\<close> to
  distinct RAM pages that are neither free nor tables, so that the process owns them. Every
  operation conserves pages: what the process owns and what is free afterwards is what it
  owned and what was free before.
\<close>

section \<open>Owned pages\<close>

definition uva :: "nat \<Rightarrow> uint64" where
  "uva k = word_of_nat (4096 * k)"

definition upte :: "memory \<Rightarrow> uint64 \<Rightarrow> nat \<Rightarrow> uint64" where
  "upte m r k = pte_val m r (uva k)"

definition upa :: "memory \<Rightarrow> uint64 \<Rightarrow> nat \<Rightarrow> uint64" where
  "upa m r k = PTE2PA (upte m r k)"

definition owned :: "memory \<Rightarrow> uint64 \<Rightarrow> nat set \<Rightarrow> uint64 set" where
  "owned m r K = tables m r \<union> upa m r ` K"

definition NVPAGES :: nat where
  "NVPAGES = 67108864"

definition uvm_inv :: "'a machine_scheme \<Rightarrow> uint64 list \<Rightarrow> uint64 \<Rightarrow> nat set \<Rightarrow> bool" where
  "uvm_inv s fl r K \<longleftrightarrow> pt_inv s fl r \<and> K \<subseteq> {..<NVPAGES} \<and> inj_on (upa (mem s) r) K \<and>
     (\<forall>k \<in> K. pte_valid (upte (mem s) r k) \<and> PTE_FLAGS (upte (mem s) r k) \<noteq> PTE_V \<and>
        page_ok s (upa (mem s) r k) \<and> upa (mem s) r k \<notin> set fl \<and> upa (mem s) r k \<notin> tables (mem s) r)"

definition uvm_step :: "uint64 \<Rightarrow> 'a machine_scheme \<Rightarrow> uint64 list \<Rightarrow> nat set \<Rightarrow> 'a machine_scheme \<Rightarrow> uint64 list \<Rightarrow> nat set \<Rightarrow> bool" where
  "uvm_step r s fl K s' fl' K' \<longleftrightarrow> uvm_inv s' fl' r K' \<and>
     set fl' \<union> owned (mem s') r K' = set fl \<union> owned (mem s) r K \<and> tables (mem s) r \<subseteq> tables (mem s') r \<and>
     (\<forall>x. PGROUNDDOWN x \<notin> set fl \<union> owned (mem s) r K \<longrightarrow> mem s' x = mem s x) \<and>
     (\<forall>k \<in> K \<inter> K'. upte (mem s') r k = upte (mem s) r k \<and>
        (\<forall>x. PGROUNDDOWN x = upa (mem s) r k \<longrightarrow> mem s' x = mem s x)) \<and>
     page_ok s' = page_ok s \<and> machine_rest s' = machine_rest s"

lemma uva_less:
  assumes "k < NVPAGES"
  shows "uva k < MAXVA" and "unat (uva k) = 4096 * k"
proof -
  show u: "unat (uva k) = 4096 * k" using assms by (simp add: uva_def NVPAGES_def unat_word_ariths)
  show "uva k < MAXVA" using assms by (simp add: word_less_nat_alt u MAXVA_def NVPAGES_def)
qed

lemma uva_aligned [simp]: "pg_aligned (uva k)"
proof -
  have "unat (uva k) mod 4096 = 4096 * k mod 2 ^ 64 mod 4096"
    by (simp only: uva_def unat_of_nat) simp
  also have "\<dots> = 4096 * k mod 4096" by (rule mod_mod_cancel) simp
  finally show ?thesis by (simp add: pg_aligned_unat)
qed

lemma uva_page [simp]: "PGROUNDDOWN (uva k) = uva k"
  by (simp add: PGROUNDDOWN_aligned)

lemma uva_inj: "k < NVPAGES \<Longrightarrow> j < NVPAGES \<Longrightarrow> uva k = uva j \<longleftrightarrow> k = j"
  by (auto simp: word_unat_eq_iff uva_less)

lemma uva_0 [simp]: "uva 0 = 0"
  by (simp add: uva_def)

lemma PGROUNDDOWN_0 [simp]: "PGROUNDDOWN 0 = 0"
  by (simp add: PGROUNDDOWN_def)

lemma uva_Suc: "uva k + PGSIZE = uva (Suc k)"
  by (simp add: uva_def PGSIZE_def algebra_simps)

lemma uvm_inv_pt: "uvm_inv s fl r K \<Longrightarrow> pt_inv s fl r"
  by (simp add: uvm_inv_def)

lemma uvm_invD:
  assumes "uvm_inv s fl r K" and "k \<in> K"
  shows "k < NVPAGES" "pte_valid (upte (mem s) r k)" "PTE_FLAGS (upte (mem s) r k) \<noteq> PTE_V"
    "page_ok s (upa (mem s) r k)" "upa (mem s) r k \<notin> set fl" "upa (mem s) r k \<notin> tables (mem s) r"
    "pg_aligned (upa (mem s) r k)"
    "j \<in> K \<Longrightarrow> upa (mem s) r j = upa (mem s) r k \<longleftrightarrow> j = k"
  using assms unfolding uvm_inv_def page_ok_def by (auto dest: inj_onD)

lemma uvm_invI:
  assumes "pt_inv s fl r" and "\<And>k j. k \<in> K \<Longrightarrow> j \<in> K \<Longrightarrow> upa (mem s) r k = upa (mem s) r j \<Longrightarrow> k = j"
    and "\<And>k. k \<in> K \<Longrightarrow> k < NVPAGES \<and> pte_valid (upte (mem s) r k) \<and> PTE_FLAGS (upte (mem s) r k) \<noteq> PTE_V"
    and "\<And>k. k \<in> K \<Longrightarrow> page_ok s (upa (mem s) r k) \<and> upa (mem s) r k \<notin> set fl \<and> upa (mem s) r k \<notin> tables (mem s) r"
  shows "uvm_inv s fl r K"
  unfolding uvm_inv_def inj_on_def using assms by blast

text \<open>Changes outside the tables of \<open>r\<close> do not change what it maps.\<close>

lemma tables_frame:
  assumes inv: "pt_inv s fl r" and eq: "\<And>x. PGROUNDDOWN x \<in> tables (mem s) r \<Longrightarrow> m' x = mem s x"
  shows "path_ok js \<Longrightarrow> table m' r js = table (mem s) r js"
    and "tables m' r = tables (mem s) r" and "pte_val m' r va = pte_val (mem s) r va"
    and "inner_ok m' r" and "top_ok m' r"
proof -
  have agree: "load64 m' (slot t j) = load64 (mem s) (slot t j)" if "t \<in> tables (mem s) r" "j < 512" for t j
    using that pt_invD(4) [OF inv that(1)] eq by (intro load64_page) (auto simp: slot_aligned8 slot_page)
  have tab: "table m' r js = table (mem s) r js" if "path_ok js" for js
    by (rule table_frame [OF inv path_ok_Nil table.simps(1), where i = 512])
      (use agree that in \<open>auto simp: path_ok_def\<close>)
  then show "path_ok js \<Longrightarrow> table m' r js = table (mem s) r js" .
  show "tables m' r = tables (mem s) r" using tab by (auto simp: tables_def)
  show "pte_val m' r va = pte_val (mem s) r va"
    using tab [of "va_path va"] agree idx_less [of 0 va] tablesI [of "va_path va" "mem s" r]
    by (auto simp: pte_val_def split: option.splits)
  show "top_ok m' r" unfolding top_ok_def
    using pt_invD(8) [OF inv] agree [OF tablesI [OF path_ok_Nil table.simps(1)]] by (simp add: top_ok_def)
  show "inner_ok m' r" unfolding inner_ok_def
  proof (intro allI impI)
    fix js j u assume *: "path_ok (js @ [j])" "table m' r js = Some u" "pte_valid (load64 m' (slot u j))"
    then have j: "path_ok js" "j < 512" by (auto simp: path_ok_snoc)
    have u: "table (mem s) r js = Some u" using tab [OF j(1)] *(2) by simp
    with agree [OF tablesI [OF j(1) u] j(2)] pt_invD(7) [OF inv] * show "load64 m' (slot u j) AND (PTE_R OR PTE_W OR PTE_X) = 0"
      unfolding inner_ok_def by metis
  qed
qed

lemma pt_inv_frame:
  assumes inv: "pt_inv s fl r" and eq: "\<And>x. PGROUNDDOWN x \<in> tables (mem s) r \<Longrightarrow> mem s' x = mem s x"
    and k: "kmem_inv s' fl'" "set fl' \<inter> tables (mem s) r = {}" "page_ok s' = page_ok s"
  shows "pt_inv s' fl' r"
  using inv k tables_frame [OF inv eq] unfolding pt_inv_def by auto

lemma uvm_inv_frame:
  assumes inv: "uvm_inv s fl r K" and eq: "\<And>x. PGROUNDDOWN x \<in> tables (mem s) r \<Longrightarrow> mem s' x = mem s x"
    and k: "kmem_inv s' fl'" "set fl' \<inter> owned (mem s) r K = {}" "page_ok s' = page_ok s"
  shows "uvm_inv s' fl' r K"
proof -
  note pt = uvm_inv_pt [OF inv]
  have "pt_inv s' fl' r" by (rule pt_inv_frame [OF pt eq k(1) _ k(3)]) (use k(2) in \<open>auto simp: owned_def\<close>)
  then show ?thesis
    using inv k(2,3) tables_frame [OF pt eq] unfolding uvm_inv_def owned_def upa_def upte_def by auto
qed

section \<open>Sequences of operations\<close>

lemma uvm_stepI:
  assumes "uvm_inv s' fl' r K'" and "set fl' \<union> owned (mem s') r K' = set fl \<union> owned (mem s) r K"
    and "\<And>x. PGROUNDDOWN x \<notin> set fl \<Longrightarrow> PGROUNDDOWN x \<notin> owned (mem s) r K \<Longrightarrow> mem s' x = mem s x"
    and "\<And>k. k \<in> K \<Longrightarrow> k \<in> K' \<Longrightarrow> upte (mem s') r k = upte (mem s) r k"
    and "\<And>k x. k \<in> K \<Longrightarrow> k \<in> K' \<Longrightarrow> PGROUNDDOWN x = upa (mem s) r k \<Longrightarrow> mem s' x = mem s x"
    and "page_ok s' = page_ok s" and "machine_rest s' = machine_rest s" and "tables (mem s) r \<subseteq> tables (mem s') r"
  shows "uvm_step r s fl K s' fl' K'"
  unfolding uvm_step_def using assms by blast

lemma uvm_stepD:
  assumes "uvm_step r s fl K s' fl' K'"
  shows "uvm_inv s' fl' r K'" and "set fl' \<union> owned (mem s') r K' = set fl \<union> owned (mem s) r K"
    and "PGROUNDDOWN x \<notin> set fl \<Longrightarrow> PGROUNDDOWN x \<notin> owned (mem s) r K \<Longrightarrow> mem s' x = mem s x"
    and "k \<in> K \<Longrightarrow> k \<in> K' \<Longrightarrow> upte (mem s') r k = upte (mem s) r k"
    and "k \<in> K \<Longrightarrow> k \<in> K' \<Longrightarrow> PGROUNDDOWN x = upa (mem s) r k \<Longrightarrow> mem s' x = mem s x"
    and "page_ok s' = page_ok s" and "machine_rest s' = machine_rest s" and "tables (mem s) r \<subseteq> tables (mem s') r"
  using assms unfolding uvm_step_def by auto

lemma uvm_step_refl: "uvm_inv s fl r K \<Longrightarrow> uvm_step r s fl K s fl K"
  by (simp add: uvm_step_def)

lemma uvm_step_trans:
  assumes "uvm_step r s fl K s' fl' K'" and "uvm_step r s' fl' K' s'' fl'' K''" and "K \<inter> K'' \<subseteq> K'"
  shows "uvm_step r s fl K s'' fl'' K''"
proof (rule uvm_stepI)
  note a = uvm_stepD [OF assms(1)] and b = uvm_stepD [OF assms(2)]
  show "set fl'' \<union> owned (mem s'') r K'' = set fl \<union> owned (mem s) r K" using a(2) b(2) by simp
  show "tables (mem s) r \<subseteq> tables (mem s'') r" using uvm_stepD(8) [OF assms(1)] uvm_stepD(8) [OF assms(2)] by simp
  show "mem s'' x = mem s x" if x: "PGROUNDDOWN x \<notin> set fl" "PGROUNDDOWN x \<notin> owned (mem s) r K" for x
  proof -
    have "PGROUNDDOWN x \<notin> set fl' \<union> owned (mem s') r K'" using x a(2) by simp
    then show ?thesis using a(3) [OF x] b(3) [of x] by simp
  qed
  fix k assume k: "k \<in> K" "k \<in> K''"
  then have k': "k \<in> K'" using assms(3) by auto
  show "upte (mem s'') r k = upte (mem s) r k" using a(4) [OF k(1) k'] b(4) [OF k' k(2)] by simp
  show "mem s'' x = mem s x" if "PGROUNDDOWN x = upa (mem s) r k" for x
    using a(4) [OF k(1) k'] a(5) [OF k(1) k' that] b(5) [OF k' k(2), of x] that by (simp add: upa_def)
qed (use uvm_stepD [OF assms(1)] uvm_stepD [OF assms(2)] in simp_all)

text \<open>
  A step after which the same user pages are owned: the only pages that left the free list are new
  pages of the table.
\<close>

lemma uvm_step_same:
  fixes s :: "'a machine_scheme"
  assumes inv: "uvm_inv s fl r K" and step: "uvm_step r s fl K s' fl' K"
  shows "set fl' = set fl - (tables (mem s') r - tables (mem s) r)"
proof -
  have "upa (mem s') r k = upa (mem s) r k" if "k \<in> K" for k using uvm_stepD(4) [OF step that that] by (simp add: upa_def)
  then have im: "upa (mem s') r ` K = upa (mem s) r ` K" by (rule image_cong [OF refl])
  have dis: "set f \<inter> (tables (mem x) r \<union> upa (mem x) r ` K) = {}" "tables (mem x) r \<inter> upa (mem x) r ` K = {}"
    if "uvm_inv x f r K" for x :: "'a machine_scheme" and f using that unfolding uvm_inv_def pt_inv_def by auto
  note d = dis(1) [OF inv] and d' = dis(1) [OF uvm_stepD(1) [OF step], unfolded im] and t' = dis(2) [OF uvm_stepD(1) [OF step], unfolded im]
  have a: "set fl' \<union> (tables (mem s') r \<union> upa (mem s) r ` K) = set fl \<union> (tables (mem s) r \<union> upa (mem s) r ` K)"
    using uvm_stepD(2) [OF step] unfolding owned_def im .
  show ?thesis using a d d' t' uvm_stepD(8) [OF step] by blast
qed

text \<open>Two tables side by side: what happens to one leaves the other alone.\<close>

lemma uvm_step_other:
  assumes "uvm_step r s fl K s' fl' K'" and "uvm_inv s fl r2 K2"
    and "owned (mem s) r K \<inter> owned (mem s) r2 K2 = {}"
  shows "uvm_inv s' fl' r2 K2" and "owned (mem s') r K' \<inter> owned (mem s') r2 K2 = {}"
    and "owned (mem s') r2 K2 = owned (mem s) r2 K2" and "upte (mem s') r2 k = upte (mem s) r2 k"
    and "PGROUNDDOWN x \<in> owned (mem s) r2 K2 \<Longrightarrow> mem s' x = mem s x"
proof -
  have fl2: "set fl \<inter> owned (mem s) r2 K2 = {}"
    using assms(2) unfolding uvm_inv_def pt_inv_def owned_def by auto
  have eq: "mem s' x = mem s x" if "PGROUNDDOWN x \<in> owned (mem s) r2 K2" for x
  proof -
    have "PGROUNDDOWN x \<notin> set fl" "PGROUNDDOWN x \<notin> owned (mem s) r K" using that assms(3) fl2 by auto
    then show ?thesis by (rule uvm_stepD(3) [OF assms(1)])
  qed
  then show "PGROUNDDOWN x \<in> owned (mem s) r2 K2 \<Longrightarrow> mem s' x = mem s x" .
  have all: "set fl' \<union> owned (mem s') r K' = set fl \<union> owned (mem s) r K" by (rule uvm_stepD(2) [OF assms(1)])
  have t: "\<And>x. PGROUNDDOWN x \<in> tables (mem s) r2 \<Longrightarrow> mem s' x = mem s x" using eq by (simp add: owned_def)
  note fr = tables_frame [OF uvm_inv_pt [OF assms(2)] t]
  show own: "owned (mem s') r2 K2 = owned (mem s) r2 K2"
    using fr(2,3) by (simp add: owned_def upa_def upte_def)
  show "upte (mem s') r2 k = upte (mem s) r2 k" using fr(3) by (simp add: upte_def)
  have k: "kmem_inv s' fl'" by (rule pt_invD(1) [OF uvm_inv_pt [OF uvm_stepD(1) [OF assms(1)]]])
  show "uvm_inv s' fl' r2 K2"
    by (rule uvm_inv_frame [OF assms(2) t k]) (use all fl2 assms(3) uvm_stepD(6) [OF assms(1)] in \<open>auto\<close>)
  show "owned (mem s') r K' \<inter> owned (mem s') r2 K2 = {}" unfolding own using all fl2 assms(3) by blast
qed

section \<open>uvmunmap\<close>

lemma unmap_one:
  assumes inv: "uvm_inv s fl r K" and k: "k \<in> K" and lim: "uva k < lim"
  shows "\<exists>s'. uvmunmap_loop r (uva k) lim True s = uvmunmap_loop r (uva (Suc k)) lim True s' \<and>
    uvm_step r s fl K s' (upa (mem s) r k # fl) (K - {k}) \<and>
    (\<forall>va < MAXVA. pte_val (mem s') r va = (if PGROUNDDOWN va = uva k then 0 else pte_val (mem s) r va))"
proof -
  let ?q = "upa (mem s) r k" and ?p = "pte_slot (mem s) r (uva k)"
  note pt = uvm_inv_pt [OF inv] and D = uvm_invD [OF inv k]
  note va = uva_less(1) [OF D(1)]
  have nz: "?p \<noteq> 0" using valid_slot [OF pt] D(2) by (simp add: upte_def)
  have ld: "load64 (mem s) ?p = upte (mem s) r k" by (simp add: load_pte [OF nz] upte_def)
  obtain s1 where s1: "kfree ?q s = Ok s1" "kmem_inv s1 (?q # fl)" "page_ok s1 = page_ok s"
      "machine_rest s1 = machine_rest s" "\<And>x. PGROUNDDOWN x \<noteq> ?q \<Longrightarrow> mem s1 x = mem s x"
    using kmem.free_page [OF pt_invD(1) [OF pt] D(4,5)] by blast
  have eq: "mem s1 x = mem s x" if "PGROUNDDOWN x \<in> tables (mem s) r" for x
    using that D(6) by (intro s1(5)) auto
  note fr = tables_frame [OF pt eq]
  have pt1: "pt_inv s1 (?q # fl) r"
    by (rule pt_inv_frame [OF pt eq s1(2) _ s1(3)]) (use D(6) pt_invD(3) [OF pt] in auto)
  have slot1: "pte_slot (mem s1) r (uva k) = ?p" using fr(1) [of "va_path (uva k)"] by (simp add: pte_slot_def)
  define s' where "s' = s1\<lparr>mem := store64 (mem s1) ?p 0\<rparr>"
  note st = store_pte [OF pt1 _ va, where v = 0, unfolded slot1, OF nz, folded s'_def]
  have val: "pte_val (mem s') r v = (if PGROUNDDOWN v = uva k then 0 else pte_val (mem s) r v)" if "v < MAXVA" for v
    using st(3) [OF that] fr(3) by simp
  have loop: "uvmunmap_loop r (uva k) lim True s = uvmunmap_loop r (uva (Suc k)) lim True s'"
    using lim D(2,3) nz s1(1)
    by (simp add: uvmunmap_loop.simps [of r "uva k"] walk_noalloc [OF va] ld pte_valid_def uva_Suc upa_def s'_def)
  have tab: "tables (mem s') r = tables (mem s) r" using st(2) fr(2) by simp
  have same: "upte (mem s') r j = upte (mem s) r j" if "j \<in> K - {k}" for j
  proof -
    have "j < NVPAGES" using uvm_invD(1) [OF inv] that by simp
    then show ?thesis using that uva_inj [of j k] D(1) val [OF uva_less(1)] by (simp add: upte_def)
  qed
  then have upa': "upa (mem s') r j = upa (mem s) r j" if "j \<in> K - {k}" for j using that by (simp add: upa_def)
  have frame: "mem s' x = mem s x" if "PGROUNDDOWN x \<notin> tables (mem s) r" "PGROUNDDOWN x \<noteq> ?q" for x
  proof -
    have "mem s' x = mem s1 x" using st(1) that(1) tab by (simp add: pt_change_def)
    then show ?thesis using s1(5) [OF that(2)] by simp
  qed
  have ok': "page_ok s' = page_ok s" by (simp add: s'_def s1(3))
  have inv': "uvm_inv s' (?q # fl) r (K - {k})"
  proof (rule uvm_invI)
    show "pt_inv s' (?q # fl) r" by (rule pt_change_inv [OF st(1)])
    fix j assume j: "j \<in> K - {k}"
    then have J: "j \<in> K" "j \<noteq> k" by auto
    note E = uvm_invD [OF inv J(1)]
    show "j < NVPAGES \<and> pte_valid (upte (mem s') r j) \<and> PTE_FLAGS (upte (mem s') r j) \<noteq> PTE_V"
      unfolding same [OF j] using E(1-3) by simp
    show "page_ok s' (upa (mem s') r j) \<and> upa (mem s') r j \<notin> set (?q # fl) \<and> upa (mem s') r j \<notin> tables (mem s') r"
      using E(4-6) D(8) [OF J(1)] J(2) by (simp add: upa' [OF j] tab ok')
    show "j = i" if "i \<in> K - {k}" "upa (mem s') r j = upa (mem s') r i" for i
      using that E(8) [of i] by (simp add: upa' [OF j] upa' [OF that(1)])
  qed
  have "upa (mem s') r ` (K - {k}) = upa (mem s) r ` (K - {k})" by (rule image_cong [OF refl upa'])
  then have own: "owned (mem s') r (K - {k}) = tables (mem s) r \<union> upa (mem s) r ` (K - {k})"
    by (simp add: owned_def tab)
  have "uvm_step r s fl K s' (?q # fl) (K - {k})"
  proof (rule uvm_stepI)
    show "set (?q # fl) \<union> owned (mem s') r (K - {k}) = set fl \<union> owned (mem s) r K"
      unfolding own using k by (auto simp: owned_def)
    show "mem s' x = mem s x" if "PGROUNDDOWN x \<notin> owned (mem s) r K" for x
      using that k by (intro frame) (auto simp: owned_def)
    fix j assume j: "j \<in> K" "j \<in> K - {k}"
    show "upte (mem s') r j = upte (mem s) r j" using j by (intro same) simp
    show "mem s' x = mem s x" if "PGROUNDDOWN x = upa (mem s) r j" for x
      using that j uvm_invD(6) [OF inv, of j] D(8) [of j] by (intro frame) auto
  qed (use inv' s1 tab in \<open>simp_all add: s'_def\<close>)
  with loop val show ?thesis by blast
qed

text \<open>The pages of a range, most recently freed first.\<close>

lemma unmap_loop:
  assumes "uvm_inv s fl r K" and "{a..<a + n} \<subseteq> K" and "a + n \<le> NVPAGES"
  shows "\<exists>s'. uvmunmap_loop r (uva a) (uva (a + n)) True s = Ok s' \<and>
    uvm_step r s fl K s' (rev (map (upa (mem s) r) [a..<a + n]) @ fl) (K - {a..<a + n}) \<and>
    (\<forall>va < MAXVA. pte_val (mem s') r va =
      (if 4096 * a \<le> unat va \<and> unat va < 4096 * (a + n) then 0 else pte_val (mem s) r va))"
  using assms
proof (induction n arbitrary: s fl K a)
  case 0
  then show ?case
    by (intro exI [of _ s]) (auto simp: uvmunmap_loop.simps [of r "uva a"] uvm_step_refl)
next
  case (Suc n)
  have k: "a \<in> K" "a < NVPAGES" using Suc.prems by auto
  have end_le: "unat (uva (a + Suc n)) = 4096 * (a + Suc n)"
    using Suc.prems(3) by (simp add: uva_def NVPAGES_def unat_word_ariths)
  then have lt: "uva a < uva (a + Suc n)" by (simp add: word_less_nat_alt uva_less(2) [OF k(2)])
  obtain s1 where s1: "uvmunmap_loop r (uva a) (uva (a + Suc n)) True s = uvmunmap_loop r (uva (Suc a)) (uva (a + Suc n)) True s1"
      "uvm_step r s fl K s1 (upa (mem s) r a # fl) (K - {a})"
      "\<forall>va < MAXVA. pte_val (mem s1) r va = (if PGROUNDDOWN va = uva a then 0 else pte_val (mem s) r va)"
    using unmap_one [OF Suc.prems(1) k(1) lt] by blast
  have sub: "{Suc a..<Suc a + n} \<subseteq> K - {a}" using Suc.prems(2) by auto
  obtain s' where s': "uvmunmap_loop r (uva (Suc a)) (uva (Suc a + n)) True s1 = Ok s'"
      "uvm_step r s1 (upa (mem s) r a # fl) (K - {a}) s' (rev (map (upa (mem s1) r) [Suc a..<Suc a + n]) @ upa (mem s) r a # fl)
        (K - {a} - {Suc a..<Suc a + n})"
      "\<forall>va < MAXVA. pte_val (mem s') r va =
        (if 4096 * Suc a \<le> unat va \<and> unat va < 4096 * (Suc a + n) then 0 else pte_val (mem s1) r va)"
    using Suc.IH [OF uvm_stepD(1) [OF s1(2)] sub] Suc.prems(3) by auto
  have "upa (mem s1) r j = upa (mem s) r j" if "j \<in> {Suc a..<Suc a + n}" for j
    using uvm_stepD(4) [OF s1(2), of j] that sub by (auto simp: upa_def)
  then have m: "map (upa (mem s1) r) [Suc a..<Suc a + n] = map (upa (mem s) r) [Suc a..<Suc a + n]"
    by (simp del: upt_Suc)
  have upt: "[a..<a + Suc n] = a # [Suc a..<Suc a + n]" by (simp add: upt_conv_Cons del: upt_Suc)
  have diff: "K - {a} - {Suc a..<Suc a + n} = K - {a..<a + Suc n}" by auto
  have "uvm_step r s fl K s' (rev (map (upa (mem s1) r) [Suc a..<Suc a + n]) @ upa (mem s) r a # fl)
      (K - {a} - {Suc a..<Suc a + n})"
    by (rule uvm_step_trans [OF s1(2) s'(2)]) auto
  then have "uvm_step r s fl K s' (rev (map (upa (mem s) r) [a..<a + Suc n]) @ fl) (K - {a..<a + Suc n})"
    unfolding m diff upt by simp
  moreover have "pte_val (mem s') r va = (if 4096 * a \<le> unat va \<and> unat va < 4096 * (a + Suc n) then 0 else pte_val (mem s) r va)"
    if "va < MAXVA" for va
    using s'(3) s1(3) that page_iff [OF uva_aligned, of va a] uva_less(2) [OF k(2)] by auto
  ultimately show ?case using s1(1) s'(1) by auto
qed

lemma uvmunmap_pages:
  assumes "uvm_inv s fl r K" and "{a..<a + n} \<subseteq> K" and "a + n \<le> NVPAGES"
  shows "\<exists>s'. uvmunmap r (uva a) (word_of_nat n) True s = Ok s' \<and>
    uvm_step r s fl K s' (rev (map (upa (mem s) r) [a..<a + n]) @ fl) (K - {a..<a + n}) \<and>
    (\<forall>va < MAXVA. pte_val (mem s') r va =
      (if 4096 * a \<le> unat va \<and> unat va < 4096 * (a + n) then 0 else pte_val (mem s) r va))"
proof -
  have "uva a + word_of_nat n * PGSIZE = uva (a + n)" by (simp add: uva_def PGSIZE_def algebra_simps)
  moreover have "uva a mod PGSIZE = 0" using uva_aligned [of a] by (simp add: pg_aligned_def)
  ultimately show ?thesis using unmap_loop [OF assms] by (simp add: uvmunmap_def)
qed

section \<open>Adding a page\<close>

text \<open>The entries that the code maps user pages with: some permission beside \<^verbatim>\<open>PTE_V\<close>.\<close>

definition user_perm :: "uint64 \<Rightarrow> bool" where
  "user_perm perm \<longleftrightarrow> unat perm < 1024 \<and> perm OR PTE_V \<noteq> PTE_V"

lemma user_entry:
  assumes "pg_aligned q" and "user_perm perm"
  shows "pte_valid (PA2PTE q OR perm OR PTE_V)" "PTE_FLAGS (PA2PTE q OR perm OR PTE_V) \<noteq> PTE_V"
    "PTE2PA (PA2PTE q OR perm OR PTE_V) = q"
  using assms PTE2PA_PA2PTE [OF assms(1), of "perm OR PTE_V"] PTE_FLAGS_PA2PTE [of "perm OR PTE_V" q]
    PTE_V_bits(1) [of "PA2PTE q OR perm"]
  by (simp_all add: user_perm_def or_flags PTE_V_bits(2) or.assoc)

lemma map_one:
  assumes "pt_inv s fl r" and "k < NVPAGES" and "\<not> pte_valid (upte (mem s) r k)"
  shows "\<exists>s' fl'. pt_change s fl s' fl' r \<and>
    (mappages r (uva k) PGSIZE q perm s = Ok (0, s') \<and>
       (\<forall>va < MAXVA. pte_val (mem s') r va = (if PGROUNDDOWN va = uva k then PA2PTE q OR perm OR PTE_V else pte_val (mem s) r va)) \<or>
     mappages r (uva k) PGSIZE q perm s = Ok (-1, s') \<and> fl' = [] \<and> length fl < 2 \<and>
       (\<forall>va < MAXVA. pte_val (mem s') r va = pte_val (mem s) r va))"
proof -
  note va = uva_less [OF assms(2)]
  have "(4096 * k + 4095) div 4096 = k" by simp
  then have one: "npages (uva k) PGSIZE = Suc 0" by (simp add: npages_def va(2) PGSIZE_def)
  have "mappages_post s fl r (PGROUNDDOWN (uva k)) (npages (uva k) PGSIZE) q perm (mappages r (uva k) PGSIZE q perm s)"
  proof (rule mappages_maps [OF assms(1)])
    show "unat (uva k) + unat PGSIZE \<le> 274877906944" using assms(2) by (simp add: va(2) NVPAGES_def PGSIZE_def)
    show "\<not> pte_valid (pte_val (mem s) r v)"
      if v: "unat (PGROUNDDOWN (uva k)) \<le> unat v" "unat v < unat (PGROUNDDOWN (uva k)) + 4096 * npages (uva k) PGSIZE" for v
    proof -
      have "PGROUNDDOWN v = uva k" using v one page_iff [OF uva_aligned, of v k] by simp
      moreover have "v < MAXVA" using v one va(2) assms(2) by (simp add: word_less_nat_alt MAXVA_def NVPAGES_def)
      ultimately show ?thesis using assms(3) pte_val_page [OF va(1), of v] by (simp add: upte_def)
    qed
  qed (simp add: PGSIZE_def)
  moreover have "mapped (uva k) (Suc 0) q perm f v = (if PGROUNDDOWN v = uva k then PA2PTE q OR perm OR PTE_V else f v)" for f v
    using mapped_step [OF uva_aligned va(1), of 0 q perm f v] by simp
  ultimately show ?thesis unfolding one by (auto simp: mappages_post_def)
qed

text \<open>What \<^verbatim>\<open>pt_change\<close> means for the owned pages.\<close>

lemma pt_change_uvm:
  assumes inv: "uvm_inv s fl r K" and ch: "pt_change s fl s' fl' r"
    and val: "\<And>k. k \<in> K \<Longrightarrow> upte (mem s') r k = upte (mem s) r k"
  shows "uvm_inv s' fl' r K" "set fl' \<union> owned (mem s') r K = set fl \<union> owned (mem s) r K"
    and "PGROUNDDOWN x \<notin> set fl \<Longrightarrow> PGROUNDDOWN x \<notin> tables (mem s) r \<Longrightarrow> mem s' x = mem s x"
proof -
  from ch obtain us where us: "fl = us @ fl'" "tables (mem s') r = tables (mem s) r \<union> set us"
    by (auto simp: pt_change_def)
  have upa': "upa (mem s') r k = upa (mem s) r k" if "k \<in> K" for k using val [OF that] by (simp add: upa_def)
  have ok: "page_ok s' = page_ok s" using ch by (simp add: pt_change_def)
  show "uvm_inv s' fl' r K"
  proof (rule uvm_invI [OF pt_change_inv [OF ch]])
    fix k assume k: "k \<in> K"
    note D = uvm_invD [OF inv k]
    show "k = j" if "j \<in> K" "upa (mem s') r k = upa (mem s') r j" for j
      using that D(8) [OF that(1)] by (simp add: upa' k)
    show "k < NVPAGES \<and> pte_valid (upte (mem s') r k) \<and> PTE_FLAGS (upte (mem s') r k) \<noteq> PTE_V"
      using D(1-3) by (simp add: val [OF k])
    show "page_ok s' (upa (mem s') r k) \<and> upa (mem s') r k \<notin> set fl' \<and> upa (mem s') r k \<notin> tables (mem s') r"
      using D(4-6) us by (simp add: upa' [OF k] ok)
  qed
  have "upa (mem s') r ` K = upa (mem s) r ` K" by (rule image_cong [OF refl upa'])
  then show "set fl' \<union> owned (mem s') r K = set fl \<union> owned (mem s) r K"
    using us by (auto simp: owned_def)
  show "mem s' x = mem s x" if "PGROUNDDOWN x \<notin> set fl" "PGROUNDDOWN x \<notin> tables (mem s) r"
    using ch that us by (simp add: pt_change_def)
qed

text \<open>
  A page \<open>q\<close> taken from the free list and filled (\<open>s1\<close>), then mapped. If memory for the tables
  runs out, \<open>q\<close> is freed again.
\<close>

lemma fresh_inv:
  assumes inv: "uvm_inv s (q # fl) r K" and k1: "kmem_inv s1 fl" "page_ok s1 = page_ok s"
      "\<And>x. PGROUNDDOWN x \<noteq> q \<Longrightarrow> mem s1 x = mem s x"
  shows "uvm_inv s1 fl r K" "owned (mem s1) r K = owned (mem s) r K" "tables (mem s1) r = tables (mem s) r"
    "pte_val (mem s1) r va = pte_val (mem s) r va"
    "page_ok s q" "pg_aligned q" "q \<notin> set fl" "q \<notin> owned (mem s) r K"
proof -
  note pt = uvm_inv_pt [OF inv]
  have km: "kmem_inv s (q # fl)" by (rule pt_invD(1) [OF pt])
  then show q: "page_ok s q" "q \<notin> set fl" by (simp_all add: kmem_inv_def)
  then show "pg_aligned q" by (simp add: page_ok_def)
  have qt: "q \<notin> tables (mem s) r" using pt_invD(3) [OF pt] by auto
  have qk: "q \<noteq> upa (mem s) r k" if "k \<in> K" for k using uvm_invD(5) [OF inv that] by auto
  show own: "q \<notin> owned (mem s) r K" using qt qk by (auto simp: owned_def)
  have eq: "mem s1 x = mem s x" if "PGROUNDDOWN x \<in> tables (mem s) r" for x using that qt by (intro k1(3)) auto
  note fr = tables_frame [OF pt eq]
  show "tables (mem s1) r = tables (mem s) r" "pte_val (mem s1) r va = pte_val (mem s) r va" by (rule fr; simp)+
  show "owned (mem s1) r K = owned (mem s) r K" using fr(2,3) by (simp add: owned_def upa_def upte_def)
  have "set (q # fl) \<inter> owned (mem s) r K = {}"
    using pt_invD(3) [OF pt] uvm_invD(5) [OF inv] by (auto simp: owned_def)
  then show "uvm_inv s1 fl r K" by (intro uvm_inv_frame [OF inv eq k1(1) _ k1(2)]) auto
qed

lemma uvm_inv_insert:
  assumes inv: "uvm_inv s fl r K" and k: "k < NVPAGES" "pte_valid (upte (mem s) r k)" "PTE_FLAGS (upte (mem s) r k) \<noteq> PTE_V"
    and q: "upa (mem s) r k = q" "page_ok s q" "q \<notin> set fl" "q \<notin> owned (mem s) r K"
  shows "uvm_inv s fl r (insert k K)"
proof (rule uvm_invI [OF uvm_inv_pt [OF inv]])
  fix j assume j: "j \<in> insert k K"
  have qj: "upa (mem s) r i \<noteq> q" if "i \<in> K" for i using q(4) that by (auto simp: owned_def)
  show "j = i" if "i \<in> insert k K" "upa (mem s) r j = upa (mem s) r i" for i
    using that j q(1) qj [of i] qj [of j] uvm_invD(8) [OF inv, of j i] by (cases "j = k"; cases "i = k") simp_all
  show "j < NVPAGES \<and> pte_valid (upte (mem s) r j) \<and> PTE_FLAGS (upte (mem s) r j) \<noteq> PTE_V"
    using j k uvm_invD(1-3) [OF inv, of j] by (cases "j = k") simp_all
  show "page_ok s (upa (mem s) r j) \<and> upa (mem s) r j \<notin> set fl \<and> upa (mem s) r j \<notin> tables (mem s) r"
    using j q uvm_invD(4-6) [OF inv, of j] by (cases "j = k") (simp_all add: owned_def)
qed

lemma uvm_free_page:
  assumes inv: "uvm_inv s fl r K" and q: "page_ok s q" "q \<notin> set fl" "q \<notin> owned (mem s) r K"
  shows "\<exists>s'. kfree q s = Ok s' \<and> uvm_inv s' (q # fl) r K \<and> owned (mem s') r K = owned (mem s) r K \<and>
    (\<forall>va. pte_val (mem s') r va = pte_val (mem s) r va) \<and> (\<forall>x. PGROUNDDOWN x \<noteq> q \<longrightarrow> mem s' x = mem s x) \<and>
    page_ok s' = page_ok s \<and> machine_rest s' = machine_rest s \<and> tables (mem s') r = tables (mem s) r"
proof -
  note pt = uvm_inv_pt [OF inv]
  obtain s' where s': "kfree q s = Ok s'" "kmem_inv s' (q # fl)" "page_ok s' = page_ok s" "machine_rest s' = machine_rest s"
      "\<And>x. PGROUNDDOWN x \<noteq> q \<Longrightarrow> mem s' x = mem s x"
    using kmem.free_page [OF pt_invD(1) [OF pt] q(1,2)] by blast
  have eq: "mem s' x = mem s x" if "PGROUNDDOWN x \<in> tables (mem s) r" for x
    using that q(3) by (intro s'(5)) (auto simp: owned_def)
  note fr = tables_frame [OF pt eq]
  have "set (q # fl) \<inter> owned (mem s) r K = {}"
    using q(3) pt_invD(3) [OF pt] uvm_invD(5) [OF inv] by (auto simp: owned_def)
  then have "uvm_inv s' (q # fl) r K" by (intro uvm_inv_frame [OF inv eq s'(2) _ s'(3)])
  then show ?thesis using s' fr by (intro exI [of _ s']) (simp add: owned_def upa_def upte_def)
qed

lemma map_fresh:
  assumes inv: "uvm_inv s (q # fl) r K" and k1: "kmem_inv s1 fl" "page_ok s1 = page_ok s"
      "machine_rest s1 = machine_rest s" "\<forall>x. PGROUNDDOWN x \<noteq> q \<longrightarrow> mem s1 x = mem s x"
    and k: "k < NVPAGES" "k \<notin> K" "\<not> pte_valid (upte (mem s) r k)" and perm: "user_perm perm"
  shows "(\<exists>s2 fl2. mappages r (uva k) PGSIZE q perm s1 = Ok (0, s2) \<and> uvm_step r s (q # fl) K s2 fl2 (insert k K) \<and>
      (\<forall>va < MAXVA. pte_val (mem s2) r va = (if PGROUNDDOWN va = uva k then PA2PTE q OR perm OR PTE_V else pte_val (mem s) r va)) \<and>
      (\<forall>x. PGROUNDDOWN x = q \<longrightarrow> mem s2 x = mem s1 x)) \<or>
    (\<exists>s2 s3. mappages r (uva k) PGSIZE q perm s1 = Ok (-1, s2) \<and> kfree q s2 = Ok s3 \<and> length fl < 2 \<and> uvm_step r s (q # fl) K s3 [q] K \<and>
      (\<forall>va < MAXVA. pte_val (mem s3) r va = pte_val (mem s) r va))"
proof -
  note fr = fresh_inv [OF inv k1(1,2) k1(4) [rule_format]]
  have "\<not> pte_valid (upte (mem s1) r k)" using k(3) fr(4) by (simp add: upte_def)
  from map_one [OF uvm_inv_pt [OF fr(1)] k(1) this, of q perm]
  obtain s2 fl2 where ch: "pt_change s1 fl s2 fl2 r" and
    cs: "mappages r (uva k) PGSIZE q perm s1 = Ok (0, s2) \<and>
       (\<forall>va < MAXVA. pte_val (mem s2) r va = (if PGROUNDDOWN va = uva k then PA2PTE q OR perm OR PTE_V else pte_val (mem s1) r va)) \<or>
     mappages r (uva k) PGSIZE q perm s1 = Ok (-1, s2) \<and> fl2 = [] \<and> length fl < 2 \<and> (\<forall>va < MAXVA. pte_val (mem s2) r va = pte_val (mem s1) r va)"
    by blast
  have kN: "j < NVPAGES" if "j \<in> K" for j using uvm_invD(1) [OF inv that] .
  have val: "upte (mem s2) r j = upte (mem s) r j" if "j \<in> K" for j
    using cs that k(1,2) uva_less(1) [OF kN [OF that]] uva_inj [OF kN [OF that] k(1)] fr(4) by (auto simp: upte_def)
  have val1: "upte (mem s2) r j = upte (mem s1) r j" if "j \<in> K" for j using val [OF that] fr(4) by (simp add: upte_def)
  note uc = pt_change_uvm [OF fr(1) ch val1]
  have ok2: "page_ok s2 = page_ok s" "machine_rest s2 = machine_rest s" using ch k1(2,3) by (simp_all add: pt_change_def)
  have tb2: "tables (mem s) r \<subseteq> tables (mem s2) r" using ch fr(3) by (auto simp: pt_change_def)
  have q2: "q \<notin> tables (mem s2) r" "q \<notin> set fl2" using ch fr(3,7,8) by (auto simp: pt_change_def owned_def)
  have q2: "q \<notin> tables (mem s2) r" "q \<notin> set fl2" "q \<notin> owned (mem s2) r K"
    using q2 uvm_invD(5) [OF inv] val by (auto simp: owned_def upa_def)
  have mem2: "mem s2 x = mem s x" if "PGROUNDDOWN x \<notin> set (q # fl)" "PGROUNDDOWN x \<notin> tables (mem s) r" for x
    using uc(3) [of x] k1(4) [rule_format, of x] that fr(3) by simp
  have user2: "mem s2 x = mem s x" if "j \<in> K" "PGROUNDDOWN x = upa (mem s) r j" for j x
    using mem2 [of x] uvm_invD(5,6) [OF inv that(1)] that(2) by simp
  show ?thesis using cs
  proof (elim disjE conjE)
    assume m: "mappages r (uva k) PGSIZE q perm s1 = Ok (0, s2)"
      and v: "\<forall>va < MAXVA. pte_val (mem s2) r va = (if PGROUNDDOWN va = uva k then PA2PTE q OR perm OR PTE_V else pte_val (mem s1) r va)"
    have ke: "upte (mem s2) r k = PA2PTE q OR perm OR PTE_V" using v uva_less(1) [OF k(1)] by (simp add: upte_def)
    note ue = user_entry [OF fr(6) perm]
    have kq: "upa (mem s2) r k = q" by (simp add: upa_def ke ue(3))
    have inv2: "uvm_inv s2 fl2 r (insert k K)"
      by (rule uvm_inv_insert [OF uc(1) k(1) _ _ kq _ q2(2) q2(3)]) (use ue(1,2) fr(5) ok2(1) in \<open>simp_all add: ke\<close>)
    have "uvm_step r s (q # fl) K s2 fl2 (insert k K)"
    proof (rule uvm_stepI [OF inv2])
      show "set fl2 \<union> owned (mem s2) r (insert k K) = set (q # fl) \<union> owned (mem s) r K"
        using uc(2) kq fr(2) by (auto simp: owned_def)
      show "mem s2 x = mem s x" if "PGROUNDDOWN x \<notin> set (q # fl)" "PGROUNDDOWN x \<notin> owned (mem s) r K" for x
        using that by (intro mem2) (auto simp: owned_def)
    qed (use val user2 ok2 tb2 in auto)
    moreover have "mem s2 x = mem s1 x" if "PGROUNDDOWN x = q" for x
      using uc(3) [of x] that fr(3,7,8) by (auto simp: owned_def)
    ultimately show ?thesis using m v fr(4) by (intro disjI1 exI [of _ s2] exI [of _ fl2]) simp
  next
    assume m: "mappages r (uva k) PGSIZE q perm s1 = Ok (-1, s2)" "fl2 = []" "length fl < 2"
      and v: "\<forall>va < MAXVA. pte_val (mem s2) r va = pte_val (mem s1) r va"
    obtain s3 where s3: "kfree q s2 = Ok s3" "uvm_inv s3 [q] r K" "owned (mem s3) r K = owned (mem s2) r K"
        "\<forall>va. pte_val (mem s3) r va = pte_val (mem s2) r va" "\<forall>x. PGROUNDDOWN x \<noteq> q \<longrightarrow> mem s3 x = mem s2 x"
        "page_ok s3 = page_ok s2" "machine_rest s3 = machine_rest s2" "tables (mem s3) r = tables (mem s2) r"
      using uvm_free_page [OF uc(1), of q] q2(2,3) fr(5) ok2(1) m(2) by auto
    have "uvm_step r s (q # fl) K s3 [q] K"
    proof (rule uvm_stepI [OF s3(2)])
      show "set [q] \<union> owned (mem s3) r K = set (q # fl) \<union> owned (mem s) r K"
        using uc(2) m(2) fr(2) s3(3) by auto
      show "mem s3 x = mem s x" if "PGROUNDDOWN x \<notin> set (q # fl)" "PGROUNDDOWN x \<notin> owned (mem s) r K" for x
        using that s3(5) mem2 [of x] by (auto simp: owned_def)
      fix j assume j: "j \<in> K"
      show "upte (mem s3) r j = upte (mem s) r j" using s3(4) val [OF j] by (simp add: upte_def)
      show "mem s3 x = mem s x" if "PGROUNDDOWN x = upa (mem s) r j" for x
        using that s3(5) user2 [OF j that] uvm_invD(5) [OF inv j] by auto
    qed (use s3 ok2 tb2 in auto)
    then show ?thesis using m s3(1,4) v fr(4) by (intro disjI2 exI [of _ s2] exI [of _ s3]) simp
  qed
qed

section \<open>uvmdealloc\<close>

text \<open>The number of pages that a process of \<open>sz\<close> bytes has.\<close>

definition pages :: "uint64 \<Rightarrow> nat" where
  "pages sz = (unat sz + 4095) div 4096"

lemma PGROUNDUP_pages:
  assumes "unat sz \<le> 4096 * NVPAGES"
  shows "PGROUNDUP sz = uva (pages sz)" and "pages sz \<le> NVPAGES" and "unat (uva (pages sz)) = 4096 * pages sz"
proof -
  show le: "pages sz \<le> NVPAGES" using assms by (simp add: pages_def NVPAGES_def)
  show u: "unat (uva (pages sz)) = 4096 * pages sz"
    using le by (simp add: uva_def NVPAGES_def unat_word_ariths)
  have "unat (PGROUNDUP sz) = (unat sz + 4095) div 4096 * 4096"
    using assms by (intro unat_PGROUNDUP) (simp add: NVPAGES_def)
  then show "PGROUNDUP sz = uva (pages sz)" unfolding word_unat_eq_iff u by (simp add: pages_def)
qed

lemma pages_uva: "k \<le> NVPAGES \<Longrightarrow> pages (uva k) = k"
proof -
  assume "k \<le> NVPAGES"
  then have "unat (uva k) = 4096 * k" by (simp add: uva_def NVPAGES_def unat_word_ariths)
  then show ?thesis by (simp add: pages_def)
qed

lemma uva_le: "k \<le> NVPAGES \<Longrightarrow> unat (uva k) = 4096 * k"
  by (simp add: uva_def NVPAGES_def unat_word_ariths)

lemma npages_arg:
  assumes "i \<le> n" and "n \<le> NVPAGES"
  shows "scast (ucast ((uva n - uva i) div PGSIZE) :: uint32) = (word_of_nat (n - i) :: uint64)"
proof -
  have "unat (uva n - uva i) = 4096 * (n - i)"
    using assms by (simp add: unat_sub word_le_nat_alt uva_le diff_mult_distrib2)
  then have "unat ((uva n - uva i) div PGSIZE) = n - i" by (simp add: unat_div PGSIZE_def)
  moreover have lt: "n - i < 2 ^ 31" using assms(2) by (simp add: NVPAGES_def)
  then have w: "unat (word_of_nat (n - i) :: uint64) = n - i" "unat (word_of_nat (n - i) :: uint32) = n - i"
    by (simp_all only: unat_of_nat) simp_all
  ultimately have d: "(uva n - uva i) div PGSIZE = word_of_nat (n - i)" by (simp only: word_unat_eq_iff)
  have u: "(ucast (word_of_nat (n - i) :: uint64) :: uint32) = word_of_nat (n - i)"
    using lt by (simp only: word_unat_eq_iff unsigned_ucast_eq w) (simp add: take_bit_nat_eq_self)
  have "sint (word_of_nat (n - i) :: uint32) = int (n - i)"
    using lt by (simp add: signed_of_nat signed_take_bit_int_eq_self_iff del: of_nat_diff)
  then show ?thesis unfolding d u by (simp add: scast_eq of_int_of_nat_eq del: of_nat_diff)
qed

lemma uvmdealloc_pages:
  assumes inv: "uvm_inv s fl r K" and sz: "unat oldsz \<le> 4096 * NVPAGES" and K: "{pages newsz..<pages oldsz} \<subseteq> K"
  shows "\<exists>s'. uvmdealloc r oldsz newsz s = Ok (if newsz \<ge> oldsz then oldsz else newsz, s') \<and>
    uvm_step r s fl K s' (rev (map (upa (mem s) r) [pages newsz..<pages oldsz]) @ fl) (K - {pages newsz..<pages oldsz}) \<and>
    (\<forall>va < MAXVA. pte_val (mem s') r va =
      (if 4096 * pages newsz \<le> unat va \<and> unat va < 4096 * pages oldsz then 0 else pte_val (mem s) r va))"
proof (cases "newsz \<ge> oldsz")
  case True
  then have "pages oldsz \<le> pages newsz" by (simp add: pages_def word_le_nat_alt div_le_mono)
  then show ?thesis using True uvm_step_refl [OF inv] by (intro exI [of _ s]) (auto simp: uvmdealloc_def)
next
  case False
  then have lt: "unat newsz < unat oldsz" by (simp add: word_le_nat_alt)
  then have le: "pages newsz \<le> pages oldsz" by (simp add: pages_def div_le_mono)
  have sz': "unat newsz \<le> 4096 * NVPAGES" using lt sz by simp
  note up = PGROUNDUP_pages [OF sz] and up' = PGROUNDUP_pages [OF sz']
  show ?thesis
  proof (cases "pages newsz = pages oldsz")
    case True
    then have "PGROUNDUP newsz = PGROUNDUP oldsz" using up(1) up'(1) by simp
    then show ?thesis using False True uvm_step_refl [OF inv] by (intro exI [of _ s]) (auto simp: uvmdealloc_def)
  next
    case ne: False
    have less: "PGROUNDUP newsz < PGROUNDUP oldsz" using ne le up up' by (simp add: word_less_nat_alt)
    have arg: "scast (ucast ((PGROUNDUP oldsz - PGROUNDUP newsz) div PGSIZE) :: uint32) =
        (word_of_nat (pages oldsz - pages newsz) :: uint64)"
      unfolding up(1) up'(1) by (rule npages_arg [OF le up(2)])
    have eq: "uvmdealloc r oldsz newsz s =
        rbind (uvmunmap r (uva (pages newsz)) (word_of_nat (pages oldsz - pages newsz)) True s) (\<lambda>s. Ok (newsz, s))"
      unfolding uvmdealloc_def Let_def arg using False less up'(1) by (simp del: of_nat_diff)
    have "pages newsz + (pages oldsz - pages newsz) = pages oldsz" using le by simp
    then show ?thesis
      using uvmunmap_pages [OF inv, of "pages newsz" "pages oldsz - pages newsz"] K up(2) False
      unfolding eq by (auto simp del: of_nat_diff)
  qed
qed

section \<open>uvmalloc\<close>

text \<open>A page of zeros with the permissions that \<^verbatim>\<open>uvmalloc\<close> gives.\<close>

definition fresh_page :: "memory \<Rightarrow> uint64 \<Rightarrow> uint64 \<Rightarrow> nat \<Rightarrow> bool" where
  "fresh_page m r perm k \<longleftrightarrow> (\<forall>x. PGROUNDDOWN x = upa m r k \<longrightarrow> m x = 0) \<and> upte m r k = PA2PTE (upa m r k) OR perm OR PTE_V"

lemma fresh_page_step:
  assumes "uvm_step r s fl K s' fl' K'" and "k \<in> K" and "k \<in> K'" and "fresh_page (mem s) r perm k"
  shows "fresh_page (mem s') r perm k"
  using assms(4) uvm_stepD(4) [OF assms(1-3)] uvm_stepD(5) [OF assms(1-3)]
  by (simp add: fresh_page_def upa_def)

lemma uvmalloc_perm:
  assumes "unat xperm < 1024"
  shows "user_perm (PTE_R OR PTE_U OR xperm)"
proof -
  have "unat (PTE_R OR PTE_U OR xperm) < 1024"
    using assms by (intro or_flags) (simp_all add: PTE_R_def PTE_U_def)
  moreover have "bit ((PTE_R OR PTE_U OR xperm) OR PTE_V) 1" by (simp add: PTE_R_def bit_or_iff)
  moreover have "\<not> bit PTE_V 1" by (simp add: PTE_V_def)
  ultimately show ?thesis unfolding user_perm_def by metis
qed

lemma alloc_none_step:
  assumes "uvm_inv s [] r K" and "kmem_inv s' []" and "mem s' = mem s" and "page_ok s' = page_ok s"
    and "machine_rest s' = machine_rest s"
  shows "uvm_step r s [] K s' [] K"
  using assms by (simp add: uvm_step_def uvm_inv_def pt_inv_def)

text \<open>One turn of the loop: the page is added, or everything allocated so far is given back.\<close>

lemma uvmalloc_turn:
  assumes inv: "uvm_inv s fl r (K0 \<union> {i0..<i})" and i: "i0 \<le> i" "i < NVPAGES" "i \<notin> K0" "K0 \<inter> {i0..<i} = {}"
    and free: "\<not> pte_valid (upte (mem s) r i)" and x: "unat xperm < 1024" and lt: "uva i < newsz"
  shows "(\<exists>s' fl'. uvmalloc_loop r (uva i) (uva i0) newsz xperm s = uvmalloc_loop r (uva (Suc i)) (uva i0) newsz xperm s' \<and>
      uvm_step r s fl (K0 \<union> {i0..<i}) s' fl' (K0 \<union> {i0..<Suc i}) \<and> fresh_page (mem s') r (PTE_R OR PTE_U OR xperm) i \<and>
      (\<forall>va < MAXVA. PGROUNDDOWN va \<noteq> uva i \<longrightarrow> pte_val (mem s') r va = pte_val (mem s) r va)) \<or>
    (\<exists>s' fl'. uvmalloc_loop r (uva i) (uva i0) newsz xperm s = Ok (0, s') \<and> uvm_step r s fl (K0 \<union> {i0..<i}) s' fl' K0 \<and>
      (\<forall>va < MAXVA. pte_val (mem s') r va = (if 4096 * i0 \<le> unat va \<and> unat va < 4096 * i then 0 else pte_val (mem s) r va)))"
proof -
  let ?K = "K0 \<union> {i0..<i}" and ?perm = "PTE_R OR PTE_U OR xperm"
  have pg: "pages (uva i) = i" "pages (uva i0) = i0" "unat (uva i) \<le> 4096 * NVPAGES"
    using i by (simp_all add: pages_uva uva_le)
  have Kd: "?K - {i0..<i} = K0" using i(4) by auto
  have give_back: "\<exists>s' fl'. rbind (uvmdealloc r (uva i) (uva i0) s1) (\<lambda>(_, s). Ok (0, s)) = Ok (0, s') \<and> uvm_step r s1 fl1 ?K s' fl' K0 \<and>
      (\<forall>va < MAXVA. pte_val (mem s') r va = (if 4096 * i0 \<le> unat va \<and> unat va < 4096 * i then 0 else pte_val (mem s1) r va))"
    if "uvm_inv s1 fl1 r ?K" for s1 :: "'a machine_scheme" and fl1
    using uvmdealloc_pages [OF that pg(3), of "uva i0"] unfolding pg(1,2) Kd by (fastforce simp: pg(1,2))
  from pt_invD(1) [OF uvm_inv_pt [OF inv]] show ?thesis
  proof (cases rule: kmem.alloc_cases)
    case (none s1)
    have step: "uvm_step r s fl ?K s1 [] ?K" using alloc_none_step [OF inv [unfolded none(1)] none(3-6)] none(1) by simp
    obtain s' fl' where s': "rbind (uvmdealloc r (uva i) (uva i0) s1) (\<lambda>(_, s). Ok (0, s)) = Ok (0 :: uint64, s')"
        "uvm_step r s1 [] ?K s' fl' K0"
        "\<forall>va < MAXVA. pte_val (mem s') r va = (if 4096 * i0 \<le> unat va \<and> unat va < 4096 * i then 0 else pte_val (mem s1) r va)"
      using give_back [OF uvm_stepD(1) [OF step]] by blast
    have "uvm_step r s fl ?K s' fl' K0" by (rule uvm_step_trans [OF step s'(2)]) auto
    moreover have "uvmalloc_loop r (uva i) (uva i0) newsz xperm s = Ok (0, s')"
      using lt none(2) s'(1) by (simp add: uvmalloc_loop.simps [of r "uva i"])
    ultimately show ?thesis using s'(3) none(4) by (intro disjI2 exI [of _ s'] exI [of _ fl']) simp
  next
    case (some q fl1 s1)
    define s2 where "s2 = s1\<lparr>mem := memset (mem s1) q 0 4096\<rparr>"
    have m2: "mem s2 x = (if PGROUNDDOWN x = q then 0 else mem s x)" for x
      using some(5,10) by (simp add: s2_def memset_page)
    have k2: "kmem_inv s2 fl1" unfolding s2_def
      by (rule kmem_inv_mem [OF some(3)]) (use some(5,7) in \<open>auto simp: memset_page\<close>)
    have ok2: "page_ok s2 = page_ok s" "machine_rest s2 = machine_rest s" using some(8,9) by (simp_all add: s2_def)
    have iK: "i \<notin> ?K" using i(3) by simp
    have loop: "uvmalloc_loop r (uva i) (uva i0) newsz xperm s = rbind (mappages r (uva i) PGSIZE q ?perm s2) (\<lambda>(e, s).
        if e \<noteq> 0 then rbind (kfree q s) (\<lambda>s. rbind (uvmdealloc r (uva i) (uva i0) s) (\<lambda>(_, s). Ok (0, s)))
        else uvmalloc_loop r (uva (Suc i)) (uva i0) newsz xperm s)"
      using lt some(2,4) by (simp add: uvmalloc_loop.simps [of r "uva i"] s2_def uva_Suc cong: if_cong)
    have "\<forall>x. PGROUNDDOWN x \<noteq> q \<longrightarrow> mem s2 x = mem s x" by (simp add: m2)
    from map_fresh [OF inv [unfolded some(1)] k2 ok2 this i(2) iK free uvmalloc_perm [OF x], folded some(1)] show ?thesis
    proof (elim disjE exE conjE)
      fix s3 fl3
      assume s3: "mappages r (uva i) PGSIZE q ?perm s2 = Ok (0, s3)" "uvm_step r s fl ?K s3 fl3 (insert i ?K)"
        "\<forall>va < MAXVA. pte_val (mem s3) r va = (if PGROUNDDOWN va = uva i then PA2PTE q OR ?perm OR PTE_V else pte_val (mem s) r va)"
        "\<forall>x. PGROUNDDOWN x = q \<longrightarrow> mem s3 x = mem s2 x"
      have "upte (mem s3) r i = PA2PTE q OR ?perm OR PTE_V" using s3(3) uva_less(1) [OF i(2)] by (simp add: upte_def)
      then have "fresh_page (mem s3) r ?perm i"
        using user_entry(3) [OF some(5) uvmalloc_perm [OF x]] s3(4) m2 by (simp add: fresh_page_def upa_def)
      moreover have "insert i ?K = K0 \<union> {i0..<Suc i}" using i(1) by auto
      ultimately show ?thesis using s3 loop by (intro disjI1 exI [of _ s3] exI [of _ fl3]) simp
    next
      fix s3 s4
      assume s3: "mappages r (uva i) PGSIZE q ?perm s2 = Ok (-1, s3)" "kfree q s3 = Ok s4" "uvm_step r s fl ?K s4 [q] ?K"
        "\<forall>va < MAXVA. pte_val (mem s4) r va = pte_val (mem s) r va"
      obtain s' fl' where s': "rbind (uvmdealloc r (uva i) (uva i0) s4) (\<lambda>(_, s). Ok (0, s)) = Ok (0 :: uint64, s')"
          "uvm_step r s4 [q] ?K s' fl' K0"
          "\<forall>va < MAXVA. pte_val (mem s') r va = (if 4096 * i0 \<le> unat va \<and> unat va < 4096 * i then 0 else pte_val (mem s4) r va)"
        using give_back [OF uvm_stepD(1) [OF s3(3)]] by blast
      have "uvm_step r s fl ?K s' fl' K0" by (rule uvm_step_trans [OF s3(3) s'(2)]) auto
      then show ?thesis using s'(1,3) s3(1,2,4) loop by (intro disjI2 exI [of _ s'] exI [of _ fl']) simp
    qed
  qed
qed

text \<open>No entry of the pages from \<open>i\<close> up to \<open>n\<close> is valid.\<close>

definition unmapped :: "memory \<Rightarrow> uint64 \<Rightarrow> nat \<Rightarrow> nat \<Rightarrow> bool" where
  "unmapped m r i n \<longleftrightarrow> (\<forall>va < MAXVA. 4096 * i \<le> unat va \<and> unat va < 4096 * n \<longrightarrow> \<not> pte_valid (pte_val m r va))"

lemma unmappedI:
  assumes "\<And>va. va < MAXVA \<Longrightarrow> 4096 * i0 \<le> unat va \<Longrightarrow> unat va < 4096 * i \<Longrightarrow> pte_val m r va = 0"
    and "\<And>va. va < MAXVA \<Longrightarrow> 4096 * i \<le> unat va \<Longrightarrow> pte_val m r va = pte_val m0 r va"
    and "\<And>j. i \<le> j \<Longrightarrow> j < n \<Longrightarrow> \<not> pte_valid (upte m0 r j)"
  shows "unmapped m r i0 n"
  unfolding unmapped_def
proof (intro allI impI)
  fix va assume va: "va < MAXVA" "4096 * i0 \<le> unat va \<and> unat va < 4096 * n"
  show "\<not> pte_valid (pte_val m r va)"
  proof (cases "unat va < 4096 * i")
    case True
    then show ?thesis using assms(1) [OF va(1) _ True] va(2) by (simp add: pte_valid_def)
  next
    case False
    define j where "j = unat va div 4096"
    have j: "i \<le> j" "j < n" using False va(2) by (simp_all add: j_def less_mult_imp_div_less mult.commute less_eq_div_iff_mult_less_eq)
    have "j < NVPAGES" using va(1) by (simp add: word_less_nat_alt j_def NVPAGES_def layout_defs)
    note u = uva_less [OF this]
    have "PGROUNDDOWN va = uva j" by (subst page_iff [OF uva_aligned]) (use u(2) in \<open>simp add: j_def\<close>)
    then have "pte_val m0 r va = upte m0 r j"
      using pte_val_page [OF u(1) va(1)] uva_aligned [of j] by (simp add: upte_def PGROUNDDOWN_aligned)
    then show ?thesis using assms(2) [OF va(1)] assms(3) [OF j] False by simp
  qed
qed

definition uvmalloc_post :: "uint64 \<Rightarrow> nat \<Rightarrow> nat set \<Rightarrow> nat \<Rightarrow> uint64 \<Rightarrow> uint64 \<Rightarrow> 'a machine_scheme \<Rightarrow> uint64 list \<Rightarrow>
    (uint64 \<times> 'a machine_scheme) res \<Rightarrow> bool" where
  "uvmalloc_post r i0 K0 i newsz perm s fl res \<longleftrightarrow> (\<exists>s' fl'.
     (res = Ok (newsz, s') \<and> uvm_step r s fl (K0 \<union> {i0..<i}) s' fl' (K0 \<union> {i0..<pages newsz}) \<and>
        (\<forall>k \<in> {i..<pages newsz}. fresh_page (mem s') r perm k) \<or>
      res = Ok (0, s') \<and> uvm_step r s fl (K0 \<union> {i0..<i}) s' fl' K0 \<and> unmapped (mem s') r i0 (pages newsz)) \<and>
     (\<forall>va < MAXVA. unat va < 4096 * i0 \<or> 4096 * pages newsz \<le> unat va \<longrightarrow> pte_val (mem s') r va = pte_val (mem s) r va))"

lemma uvmalloc_post_step:
  assumes s1: "uvm_step r s fl (K0 \<union> {i0..<i}) s1 fl1 (K0 \<union> {i0..<Suc i})" "fresh_page (mem s1) r perm i"
      "\<And>va. va < MAXVA \<Longrightarrow> unat va < 4096 * i \<or> 4096 * Suc i \<le> unat va \<Longrightarrow> pte_val (mem s1) r va = pte_val (mem s) r va"
    and i: "i0 \<le> i" "i < pages newsz" and post: "uvmalloc_post r i0 K0 (Suc i) newsz perm s1 fl1 res"
  shows "uvmalloc_post r i0 K0 i newsz perm s fl res"
proof -
  from post obtain s' fl' where
    cs: "res = Ok (newsz, s') \<and> uvm_step r s1 fl1 (K0 \<union> {i0..<Suc i}) s' fl' (K0 \<union> {i0..<pages newsz}) \<and>
        (\<forall>k \<in> {Suc i..<pages newsz}. fresh_page (mem s') r perm k) \<or>
      res = Ok (0, s') \<and> uvm_step r s1 fl1 (K0 \<union> {i0..<Suc i}) s' fl' K0 \<and> unmapped (mem s') r i0 (pages newsz)"
    and v: "\<forall>va < MAXVA. unat va < 4096 * i0 \<or> 4096 * pages newsz \<le> unat va \<longrightarrow> pte_val (mem s') r va = pte_val (mem s1) r va"
    unfolding uvmalloc_post_def by blast
  have v': "\<forall>va < MAXVA. unat va < 4096 * i0 \<or> 4096 * pages newsz \<le> unat va \<longrightarrow> pte_val (mem s') r va = pte_val (mem s) r va"
    using v s1(3) i by simp
  have ivl: "{i..<pages newsz} = insert i {Suc i..<pages newsz}" using i(2) by auto
  from cs show ?thesis
  proof (elim disjE conjE)
    assume s': "res = Ok (newsz, s')" "uvm_step r s1 fl1 (K0 \<union> {i0..<Suc i}) s' fl' (K0 \<union> {i0..<pages newsz})"
      "\<forall>k \<in> {Suc i..<pages newsz}. fresh_page (mem s') r perm k"
    have "uvm_step r s fl (K0 \<union> {i0..<i}) s' fl' (K0 \<union> {i0..<pages newsz})"
      by (rule uvm_step_trans [OF s1(1) s'(2)]) auto
    moreover have "fresh_page (mem s') r perm i" using i by (intro fresh_page_step [OF s'(2) _ _ s1(2)]) auto
    then have "\<forall>k \<in> {i..<pages newsz}. fresh_page (mem s') r perm k"
      using s'(3) i(2) by (simp add: ivl)
    ultimately show ?thesis unfolding uvmalloc_post_def using s'(1) v' by blast
  next
    assume s': "res = Ok (0, s')" "uvm_step r s1 fl1 (K0 \<union> {i0..<Suc i}) s' fl' K0" "unmapped (mem s') r i0 (pages newsz)"
    have "uvm_step r s fl (K0 \<union> {i0..<i}) s' fl' K0" by (rule uvm_step_trans [OF s1(1) s'(2)]) auto
    then show ?thesis unfolding uvmalloc_post_def using s'(1,3) v' by blast
  qed
qed

lemma uvmalloc_loop_spec:
  assumes "uvm_inv s fl r (K0 \<union> {i0..<i})" and "i0 \<le> i" and "i + d = pages newsz" and "K0 \<inter> {i0..<pages newsz} = {}"
    and "unat newsz \<le> 4096 * NVPAGES" and "\<forall>j. i \<le> j \<longrightarrow> j < pages newsz \<longrightarrow> \<not> pte_valid (upte (mem s) r j)"
    and x: "unat xperm < 1024"
  shows "uvmalloc_post r i0 K0 i newsz (PTE_R OR PTE_U OR xperm) s fl (uvmalloc_loop r (uva i) (uva i0) newsz xperm s)"
  using assms(1-6)
proof (induction d arbitrary: i s fl)
  case 0
  then have "i = pages newsz" by simp
  moreover have "\<not> uva (pages newsz) < newsz"
    using PGROUNDUP_pages(3) [OF "0.prems"(5)] by (simp add: word_less_nat_alt pages_def)
  ultimately show ?case using uvm_step_refl [OF "0.prems"(1)] unfolding uvmalloc_post_def
    by (intro exI [of _ s] exI [of _ fl]) (simp add: uvmalloc_loop.simps [of r "uva (pages newsz)"])
next
  case (Suc d)
  have i: "i < pages newsz" "i < NVPAGES" using Suc.prems(3) PGROUNDUP_pages(2) [OF Suc.prems(5)] by simp_all
  have lt: "uva i < newsz"
    using i by (simp add: word_less_nat_alt uva_less pages_def)
  have iK: "i \<notin> K0" "K0 \<inter> {i0..<i} = {}" using Suc.prems(2,4) i by auto
  from uvmalloc_turn [OF Suc.prems(1,2) i(2) iK Suc.prems(6) [rule_format, OF order_refl i(1)] x lt] show ?case
  proof (elim disjE exE conjE)
    fix s1 fl1
    assume s1: "uvmalloc_loop r (uva i) (uva i0) newsz xperm s = uvmalloc_loop r (uva (Suc i)) (uva i0) newsz xperm s1"
      "uvm_step r s fl (K0 \<union> {i0..<i}) s1 fl1 (K0 \<union> {i0..<Suc i})" "fresh_page (mem s1) r (PTE_R OR PTE_U OR xperm) i"
      "\<forall>va < MAXVA. PGROUNDDOWN va \<noteq> uva i \<longrightarrow> pte_val (mem s1) r va = pte_val (mem s) r va"
    have same: "pte_val (mem s1) r va = pte_val (mem s) r va" if "va < MAXVA" "unat va < 4096 * i \<or> 4096 * Suc i \<le> unat va" for va
      using s1(4) that page_iff [OF uva_aligned, of va i] uva_less(2) [OF i(2)] by auto
    have "\<forall>j. Suc i \<le> j \<longrightarrow> j < pages newsz \<longrightarrow> \<not> pte_valid (upte (mem s1) r j)"
      using Suc.prems(6) same uva_less PGROUNDUP_pages(2) [OF Suc.prems(5)] by (simp add: upte_def)
    then have "uvmalloc_post r i0 K0 (Suc i) newsz (PTE_R OR PTE_U OR xperm) s1 fl1 (uvmalloc_loop r (uva (Suc i)) (uva i0) newsz xperm s1)"
      using Suc.prems(2-5) by (intro Suc.IH [OF uvm_stepD(1) [OF s1(2)]]) simp_all
    from uvmalloc_post_step [OF s1(2,3) same Suc.prems(2) i(1) this] show ?thesis unfolding s1(1) by simp
  next
    fix s' fl'
    assume s': "uvmalloc_loop r (uva i) (uva i0) newsz xperm s = Ok (0, s')" "uvm_step r s fl (K0 \<union> {i0..<i}) s' fl' K0"
      "\<forall>va < MAXVA. pte_val (mem s') r va = (if 4096 * i0 \<le> unat va \<and> unat va < 4096 * i then 0 else pte_val (mem s) r va)"
    have "unmapped (mem s') r i0 (pages newsz)"
      by (rule unmappedI [of i0 i _ _ "mem s"]) (use s'(3) Suc.prems(6) in auto)
    with s' show ?thesis using i(1) unfolding uvmalloc_post_def by (intro exI [of _ s'] exI [of _ fl']) auto
  qed
qed

lemma uvmalloc_spec:
  assumes "uvm_inv s fl r K" and "oldsz \<le> newsz" and "unat newsz \<le> 4096 * NVPAGES" and "K \<inter> {pages oldsz..<pages newsz} = {}"
    and "\<forall>j. pages oldsz \<le> j \<longrightarrow> j < pages newsz \<longrightarrow> \<not> pte_valid (upte (mem s) r j)" and "unat xperm < 1024"
  shows "\<exists>s' fl'.
     (uvmalloc r oldsz newsz xperm s = Ok (newsz, s') \<and> uvm_step r s fl K s' fl' (K \<union> {pages oldsz..<pages newsz}) \<and>
        (\<forall>k \<in> {pages oldsz..<pages newsz}. fresh_page (mem s') r (PTE_R OR PTE_U OR xperm) k) \<or>
      uvmalloc r oldsz newsz xperm s = Ok (0, s') \<and> uvm_step r s fl K s' fl' K \<and>
        unmapped (mem s') r (pages oldsz) (pages newsz)) \<and>
     (\<forall>va < MAXVA. unat va < 4096 * pages oldsz \<or> 4096 * pages newsz \<le> unat va \<longrightarrow> pte_val (mem s') r va = pte_val (mem s) r va)"
proof -
  have le: "unat oldsz \<le> unat newsz" using assms(2) by (simp add: word_le_nat_alt)
  then have sz: "unat oldsz \<le> 4096 * NVPAGES" using assms(3) by simp
  have "pages oldsz \<le> pages newsz" using le by (simp add: pages_def div_le_mono)
  then have d: "pages oldsz + (pages newsz - pages oldsz) = pages newsz" by simp
  have "uvm_inv s fl r (K \<union> {pages oldsz..<pages oldsz})" using assms(1) by simp
  moreover have "uvmalloc r oldsz newsz xperm s = uvmalloc_loop r (uva (pages oldsz)) (uva (pages oldsz)) newsz xperm s"
    using leD [OF assms(2)] by (simp add: uvmalloc_def PGROUNDUP_pages(1) [OF sz])
  ultimately show ?thesis
    using uvmalloc_loop_spec [OF _ order_refl d assms(4,3,5,6)] by (simp add: uvmalloc_post_def)
qed

section \<open>uvmcopy\<close>

lemma page_offset:
  assumes "pg_aligned p" and "j < 4096"
  shows "PGROUNDDOWN (p + word_of_nat j) = p" and "unat (p + word_of_nat j - p) = j"
proof -
  show u: "unat (p + word_of_nat j - p) = j" using assms(2) by simp
  then show "PGROUNDDOWN (p + word_of_nat j) = p" using in_page [OF assms(1), of "p + word_of_nat j"] assms(2) by simp
qed

lemma memmove_page:
  assumes "pg_aligned q" and "pg_aligned p" and "p < PHYSTOP"
  shows "memmove m q p 4096 x = (if PGROUNDDOWN x = q then m (p + (x - q)) else m x)"
proof -
  have "unat p + unat (4096 :: uint32) < 2 ^ 64" using assms(3) by (simp add: word_less_nat_alt layout_defs)
  then have "memmove m q p 4096 = store_bytes m q (load_bytes m p 4096)" by (simp add: memmove_eq)
  then show ?thesis
    using in_page [OF assms(1), of x] by (cases "unat (x - q) < 4096") (simp_all add: store_bytes_def)
qed

lemma flags_user_perm:
  assumes "pte_valid v" and "PTE_FLAGS v \<noteq> PTE_V"
  shows "user_perm (PTE_FLAGS v)" and "PTE_FLAGS (PA2PTE q OR PTE_FLAGS v OR PTE_V) = PTE_FLAGS v"
proof -
  have m: "PTE_FLAGS v = take_bit 10 v" by (simp add: PTE_FLAGS_def take_bit_eq_mask mask_eq_exp_minus_1)
  have "unat (PTE_FLAGS v) < 1024" by (simp add: m unsigned_take_bit_eq take_bit_nat_less_exp [of 10, simplified])
  moreover have "bit v 0" using assms(1) by (simp add: pte_valid_def PTE_bits)
  then have "PTE_FLAGS v OR PTE_V = PTE_FLAGS v" by (intro bit_eqI) (auto simp: m bit_simps PTE_V_def)
  ultimately show "user_perm (PTE_FLAGS v)" "PTE_FLAGS (PA2PTE q OR PTE_FLAGS v OR PTE_V) = PTE_FLAGS v"
    using assms(2) PTE_FLAGS_PA2PTE [of "PTE_FLAGS v" q] by (simp_all add: user_perm_def)
qed

text \<open>Page \<open>k\<close> of the table \<open>new\<close> is a copy of page \<open>k\<close> of \<open>old\<close>.\<close>

definition copied :: "memory \<Rightarrow> uint64 \<Rightarrow> memory \<Rightarrow> uint64 \<Rightarrow> nat \<Rightarrow> bool" where
  "copied m old m' new k \<longleftrightarrow> PTE_FLAGS (upte m' new k) = PTE_FLAGS (upte m old k) \<and>
     (\<forall>j < 4096. m' (upa m' new k + word_of_nat j) = m (upa m old k + word_of_nat j))"

lemma copied_step:
  assumes "uvm_step new s1 fl K s2 fl' K'" and "k \<in> K" and "k \<in> K'" and "copied m old (mem s1) new k"
  shows "copied m old (mem s2) new k"
proof -
  have al: "pg_aligned (upa (mem s2) new k)" by (rule uvm_invD(7) [OF uvm_stepD(1) [OF assms(1)] assms(3)])
  have e: "upte (mem s2) new k = upte (mem s1) new k" by (rule uvm_stepD(4) [OF assms(1-3)])
  then have u: "upa (mem s2) new k = upa (mem s1) new k" by (simp add: upa_def)
  have "mem s2 (upa (mem s1) new k + word_of_nat j) = mem s1 (upa (mem s1) new k + word_of_nat j)" if "j < 4096" for j
    using page_offset(1) [OF al that] by (intro uvm_stepD(5) [OF assms(1-3)]) (simp add: u)
  then show ?thesis using assms(4) by (simp add: copied_def e u)
qed

text \<open>One turn of the loop of \<^verbatim>\<open>uvmcopy\<close>: the child gains a copy of the page, or loses all it has.\<close>

lemma uvmcopy_turn:
  assumes old: "uvm_inv s fl old Ko" and new: "uvm_inv s fl new {0..<i}"
    and sep: "owned (mem s) new {0..<i} \<inter> owned (mem s) old Ko = {}"
    and i: "i \<in> Ko" "\<not> pte_valid (upte (mem s) new i)" and lt: "uva i < sz"
  shows "\<exists>s' fl'. uvmcopy_loop old new (uva i) sz s = uvmcopy_loop old new (uva (Suc i)) sz s' \<and>
      uvm_step new s fl {0..<i} s' fl' {0..<Suc i} \<and> copied (mem s) old (mem s') new i \<and>
      (\<forall>va < MAXVA. PGROUNDDOWN va \<noteq> uva i \<longrightarrow> pte_val (mem s') new va = pte_val (mem s) new va) \<or>
    uvmcopy_loop old new (uva i) sz s = Ok (-1, s') \<and> uvm_step new s fl {0..<i} s' fl' {} \<and>
      (\<forall>va < MAXVA. pte_val (mem s') new va = (if unat va < 4096 * i then 0 else pte_val (mem s) new va))"
proof -
  note D = uvm_invD [OF old i(1)] and oldpt = uvm_inv_pt [OF old]
  let ?e = "upte (mem s) old i" and ?p = "pte_slot (mem s) old (uva i)" and ?pa = "upa (mem s) old i"
  note va = uva_less [OF D(1)]
  have nz: "?p \<noteq> 0" using valid_slot [OF oldpt] D(2) by (simp add: upte_def)
  have ld: "load64 (mem s) ?p = ?e" by (simp add: load_pte [OF nz] upte_def)
  have dv: "uva i div PGSIZE = word_of_nat i"
    using D(1) by (simp add: word_unat_eq_iff unat_div va(2) PGSIZE_def NVPAGES_def unat_of_nat)
  have give_back: "\<exists>s' fl'. rbind (uvmunmap new 0 (uva i div PGSIZE) True s1) (\<lambda>s. Ok (-1, s)) = Ok (-1 :: int, s') \<and>
      uvm_step new s1 fl1 {0..<i} s' fl' {} \<and>
      (\<forall>va < MAXVA. pte_val (mem s') new va = (if unat va < 4096 * i then 0 else pte_val (mem s1) new va))"
    if "uvm_inv s1 fl1 new {0..<i}" for s1 :: "'a machine_scheme" and fl1
    using uvmunmap_pages [OF that, of 0 i] D(1) by (auto simp: dv)
  from pt_invD(1) [OF oldpt] show ?thesis
  proof (cases rule: kmem.alloc_cases)
    case (none s1)
    have step: "uvm_step new s fl {0..<i} s1 [] {0..<i}" using alloc_none_step [OF new [unfolded none(1)] none(3-6)] none(1) by simp
    obtain s' fl' where s': "rbind (uvmunmap new 0 (uva i div PGSIZE) True s1) (\<lambda>s. Ok (-1, s)) = Ok (-1 :: int, s')"
        "uvm_step new s1 [] {0..<i} s' fl' {}"
        "\<forall>va < MAXVA. pte_val (mem s') new va = (if unat va < 4096 * i then 0 else pte_val (mem s1) new va)"
      using give_back [OF uvm_stepD(1) [OF step]] by blast
    have "uvm_step new s fl {0..<i} s' fl' {}" by (rule uvm_step_trans [OF step s'(2)]) auto
    moreover have "uvmcopy_loop old new (uva i) sz s = Ok (-1, s')"
      using lt none(2) s'(1) D(2) nz
      by (simp add: uvmcopy_loop.simps [of old new "uva i"] walk_noalloc [OF va(1)] ld pte_valid_def)
    ultimately show ?thesis using s'(3) none(4) by (intro exI [of _ s'] exI [of _ fl'] disjI2) simp
  next
    case (some q fl1 s1)
    define s2 where "s2 = s1\<lparr>mem := memmove (mem s1) q ?pa 4096\<rparr>"
    have qp: "?pa \<noteq> q" using D(5) some(1) by auto
    have "?pa < PHYSTOP" using D(4) by (simp add: page_ok_def)
    then have m2: "mem s2 x = (if PGROUNDDOWN x = q then mem s1 (?pa + (x - q)) else mem s x)" for x
      using some(10) by (simp add: s2_def memmove_page [OF some(5) D(7)])
    have k2: "kmem_inv s2 fl1" unfolding s2_def
      by (rule kmem_inv_mem [OF some(3)]) (use some(5,7) \<open>?pa < PHYSTOP\<close> D(7) in \<open>auto simp: memmove_page\<close>)
    have ok2: "page_ok s2 = page_ok s" "machine_rest s2 = machine_rest s" using some(8,9) by (simp_all add: s2_def)
    have loop: "uvmcopy_loop old new (uva i) sz s = rbind (mappages new (uva i) PGSIZE q (PTE_FLAGS ?e) s2) (\<lambda>(e, s).
        if e \<noteq> 0 then rbind (kfree q s) (\<lambda>s. rbind (uvmunmap new 0 (uva i div PGSIZE) True s) (\<lambda>s. Ok (-1, s)))
        else uvmcopy_loop old new (uva (Suc i)) sz s)"
      using lt some(2,4) D(2) nz
      by (simp add: uvmcopy_loop.simps [of old new "uva i"] walk_noalloc [OF va(1)] ld pte_valid_def s2_def uva_Suc
          upa_def Let_def cong: if_cong)
    note perm = flags_user_perm [OF D(2,3)]
    have fr: "\<forall>x. PGROUNDDOWN x \<noteq> q \<longrightarrow> mem s2 x = mem s x" "i \<notin> {0..<i}" by (simp_all add: m2)
    from map_fresh [OF new [unfolded some(1)] k2 ok2 fr(1) D(1) fr(2) i(2) perm(1), folded some(1)] show ?thesis
    proof (elim disjE exE conjE)
      fix s3 fl3
      assume s3: "mappages new (uva i) PGSIZE q (PTE_FLAGS ?e) s2 = Ok (0, s3)" "uvm_step new s fl {0..<i} s3 fl3 (insert i {0..<i})"
        "\<forall>va < MAXVA. pte_val (mem s3) new va = (if PGROUNDDOWN va = uva i then PA2PTE q OR PTE_FLAGS ?e OR PTE_V else pte_val (mem s) new va)"
        "\<forall>x. PGROUNDDOWN x = q \<longrightarrow> mem s3 x = mem s2 x"
      have e3: "upte (mem s3) new i = PA2PTE q OR PTE_FLAGS ?e OR PTE_V" using s3(3) va(1) by (simp add: upte_def)
      then have q3: "upa (mem s3) new i = q" using user_entry(3) [OF some(5) perm(1)] by (simp add: upa_def)
      have "mem s3 (q + word_of_nat j) = mem s (?pa + word_of_nat j)" if "j < 4096" for j
        using s3(4) m2 page_offset(1) [OF some(5) that] page_offset(1) [OF D(7) that] some(10) qp by simp
      then have "copied (mem s) old (mem s3) new i" using perm(2) by (simp add: copied_def q3 e3)
      moreover have "insert i {0..<i} = {0..<Suc i}" by auto
      ultimately show ?thesis using s3 loop by (intro exI [of _ s3] exI [of _ fl3] disjI1) simp
    next
      fix s3 s4
      assume s3: "mappages new (uva i) PGSIZE q (PTE_FLAGS ?e) s2 = Ok (-1, s3)" "kfree q s3 = Ok s4" "uvm_step new s fl {0..<i} s4 [q] {0..<i}"
        "\<forall>va < MAXVA. pte_val (mem s4) new va = pte_val (mem s) new va"
      obtain s' fl' where s': "rbind (uvmunmap new 0 (uva i div PGSIZE) True s4) (\<lambda>s. Ok (-1, s)) = Ok (-1 :: int, s')"
          "uvm_step new s4 [q] {0..<i} s' fl' {}"
          "\<forall>va < MAXVA. pte_val (mem s') new va = (if unat va < 4096 * i then 0 else pte_val (mem s4) new va)"
        using give_back [OF uvm_stepD(1) [OF s3(3)]] by blast
      have "uvm_step new s fl {0..<i} s' fl' {}" by (rule uvm_step_trans [OF s3(3) s'(2)]) auto
      then show ?thesis using s'(1,3) s3(1,2,4) loop by (intro exI [of _ s'] exI [of _ fl'] disjI2) simp
    qed
  qed
qed

definition uvmcopy_post :: "uint64 \<Rightarrow> uint64 \<Rightarrow> nat \<Rightarrow> nat \<Rightarrow> 'a machine_scheme \<Rightarrow> uint64 list \<Rightarrow> (int \<times> 'a machine_scheme) res \<Rightarrow> bool" where
  "uvmcopy_post old new n i s fl res \<longleftrightarrow> (\<exists>s' fl'.
     (res = Ok (0, s') \<and> uvm_step new s fl {0..<i} s' fl' {0..<n} \<and> (\<forall>k \<in> {i..<n}. copied (mem s) old (mem s') new k) \<or>
      res = Ok (-1, s') \<and> uvm_step new s fl {0..<i} s' fl' {} \<and> unmapped (mem s') new 0 n) \<and>
     (\<forall>va < MAXVA. 4096 * n \<le> unat va \<longrightarrow> pte_val (mem s') new va = pte_val (mem s) new va))"

text \<open>What the parent owns is the same after a step of the child.\<close>

lemma copied_old:
  assumes "uvm_step new s fl K s1 fl1 K1" and "uvm_inv s fl old Ko" and "owned (mem s) new K \<inter> owned (mem s) old Ko = {}"
    and "k \<in> Ko" and "copied (mem s1) old m' new k"
  shows "copied (mem s) old m' new k"
proof -
  note oth = uvm_step_other [OF assms(1-3)]
  have "PGROUNDDOWN (upa (mem s) old k + word_of_nat j) \<in> owned (mem s) old Ko" if "j < 4096" for j
    using page_offset(1) [OF uvm_invD(7) [OF assms(2,4)] that] assms(4) by (simp add: owned_def)
  then show ?thesis using assms(5) oth(4) oth(5) by (simp add: copied_def upa_def)
qed

lemma uvmcopy_post_step:
  assumes s1: "uvm_step new s fl {0..<i} s1 fl1 {0..<Suc i}" "copied (mem s) old (mem s1) new i"
      "\<And>va. va < MAXVA \<Longrightarrow> 4096 * Suc i \<le> unat va \<Longrightarrow> pte_val (mem s1) new va = pte_val (mem s) new va"
    and old: "uvm_inv s fl old Ko" "owned (mem s) new {0..<i} \<inter> owned (mem s) old Ko = {}" "{0..<n} \<subseteq> Ko" and i: "i < n"
    and post: "uvmcopy_post old new n (Suc i) s1 fl1 res"
  shows "uvmcopy_post old new n i s fl res"
proof -
  from post obtain s' fl' where
    cs: "res = Ok (0, s') \<and> uvm_step new s1 fl1 {0..<Suc i} s' fl' {0..<n} \<and> (\<forall>k \<in> {Suc i..<n}. copied (mem s1) old (mem s') new k) \<or>
      res = Ok (-1, s') \<and> uvm_step new s1 fl1 {0..<Suc i} s' fl' {} \<and> unmapped (mem s') new 0 n"
    and v: "\<forall>va < MAXVA. 4096 * n \<le> unat va \<longrightarrow> pte_val (mem s') new va = pte_val (mem s1) new va"
    unfolding uvmcopy_post_def by blast
  have v': "\<forall>va < MAXVA. 4096 * n \<le> unat va \<longrightarrow> pte_val (mem s') new va = pte_val (mem s) new va"
    using v s1(3) i by simp
  have ivl: "{i..<n} = insert i {Suc i..<n}" using i by auto
  from cs show ?thesis
  proof (elim disjE conjE)
    assume s': "res = Ok (0, s')" "uvm_step new s1 fl1 {0..<Suc i} s' fl' {0..<n}" "\<forall>k \<in> {Suc i..<n}. copied (mem s1) old (mem s') new k"
    have "uvm_step new s fl {0..<i} s' fl' {0..<n}" by (rule uvm_step_trans [OF s1(1) s'(2)]) auto
    moreover have "copied (mem s) old (mem s') new i" using i by (intro copied_step [OF s'(2) _ _ s1(2)]) auto
    moreover have "copied (mem s) old (mem s') new k" if "k \<in> {Suc i..<n}" for k
      using that s'(3) old(3) by (intro copied_old [OF s1(1) old(1,2)]) auto
    ultimately show ?thesis unfolding uvmcopy_post_def ivl using s'(1) v' by blast
  next
    assume s': "res = Ok (-1, s')" "uvm_step new s1 fl1 {0..<Suc i} s' fl' {}" "unmapped (mem s') new 0 n"
    have "uvm_step new s fl {0..<i} s' fl' {}" by (rule uvm_step_trans [OF s1(1) s'(2)]) auto
    then show ?thesis unfolding uvmcopy_post_def using s'(1,3) v' by blast
  qed
qed

lemma uvmcopy_loop_spec:
  assumes "uvm_inv s fl old Ko" and "uvm_inv s fl new {0..<i}" and "owned (mem s) new {0..<i} \<inter> owned (mem s) old Ko = {}"
    and "{0..<pages sz} \<subseteq> Ko" and "i + d = pages sz" and "\<forall>j. i \<le> j \<longrightarrow> j < pages sz \<longrightarrow> \<not> pte_valid (upte (mem s) new j)"
  shows "uvmcopy_post old new (pages sz) i s fl (uvmcopy_loop old new (uva i) sz s)"
  using assms
proof (induction d arbitrary: i s fl)
  case 0
  then have i: "i = pages sz" by simp
  have "pages sz \<le> NVPAGES"
    using "0.prems"(4) uvm_invD(1) [OF "0.prems"(1), of "pages sz - 1"] by (cases "pages sz") auto
  then have "\<not> uva (pages sz) < sz" by (simp add: word_less_nat_alt uva_le) (simp add: pages_def)
  then show ?case using uvm_step_refl [OF "0.prems"(2)] unfolding uvmcopy_post_def i
    by (intro exI [of _ s] exI [of _ fl]) (simp add: uvmcopy_loop.simps [of old new "uva (pages sz)"])
next
  case (Suc d)
  have i: "i < pages sz" "i \<in> Ko" using Suc.prems(4,5) by auto
  note iN = uvm_invD(1) [OF Suc.prems(1) i(2)]
  have lt: "uva i < sz" using i iN by (simp add: word_less_nat_alt uva_less pages_def)
  obtain s1 fl1 where "uvmcopy_loop old new (uva i) sz s = uvmcopy_loop old new (uva (Suc i)) sz s1 \<and>
      uvm_step new s fl {0..<i} s1 fl1 {0..<Suc i} \<and> copied (mem s) old (mem s1) new i \<and>
      (\<forall>va < MAXVA. PGROUNDDOWN va \<noteq> uva i \<longrightarrow> pte_val (mem s1) new va = pte_val (mem s) new va) \<or>
    uvmcopy_loop old new (uva i) sz s = Ok (-1, s1) \<and> uvm_step new s fl {0..<i} s1 fl1 {} \<and>
      (\<forall>va < MAXVA. pte_val (mem s1) new va = (if unat va < 4096 * i then 0 else pte_val (mem s) new va))"
    using uvmcopy_turn [OF Suc.prems(1-3) i(2) Suc.prems(6) [rule_format, OF order_refl i(1)] lt] by blast
  then show ?case
  proof (elim disjE conjE)
    assume s1: "uvmcopy_loop old new (uva i) sz s = uvmcopy_loop old new (uva (Suc i)) sz s1"
      "uvm_step new s fl {0..<i} s1 fl1 {0..<Suc i}" "copied (mem s) old (mem s1) new i"
      "\<forall>va < MAXVA. PGROUNDDOWN va \<noteq> uva i \<longrightarrow> pte_val (mem s1) new va = pte_val (mem s) new va"
    have same: "pte_val (mem s1) new va = pte_val (mem s) new va" if "va < MAXVA" "4096 * Suc i \<le> unat va" for va
      using s1(4) that page_iff [OF uva_aligned, of va i] uva_less(2) [OF iN] by auto
    note oth = uvm_step_other [OF s1(2) Suc.prems(1,3)]
    have nv: "\<forall>j. Suc i \<le> j \<longrightarrow> j < pages sz \<longrightarrow> \<not> pte_valid (upte (mem s1) new j)"
    proof (intro allI impI)
      fix j assume j: "Suc i \<le> j" "j < pages sz"
      then have "j < NVPAGES" using Suc.prems(4) by (intro uvm_invD(1) [OF Suc.prems(1)]) auto
      then show "\<not> pte_valid (upte (mem s1) new j)"
        using Suc.prems(6) j same [of "uva j"] uva_less [of j] by (simp add: upte_def)
    qed
    have "uvmcopy_post old new (pages sz) (Suc i) s1 fl1 (uvmcopy_loop old new (uva (Suc i)) sz s1)"
      using Suc.prems(4,5) nv by (intro Suc.IH [OF oth(1) uvm_stepD(1) [OF s1(2)] oth(2)]) simp_all
    from uvmcopy_post_step [OF s1(2,3) same Suc.prems(1,3,4) i(1) this] show ?thesis unfolding s1(1) by simp
  next
    assume s1: "uvmcopy_loop old new (uva i) sz s = Ok (-1, s1)" "uvm_step new s fl {0..<i} s1 fl1 {}"
      "\<forall>va < MAXVA. pte_val (mem s1) new va = (if unat va < 4096 * i then 0 else pte_val (mem s) new va)"
    have "unmapped (mem s1) new 0 (pages sz)"
      by (rule unmappedI [of 0 i _ _ "mem s"]) (use s1(3) Suc.prems(6) in auto)
    with s1 show ?thesis using i(1) unfolding uvmcopy_post_def by (intro exI [of _ s1] exI [of _ fl1]) auto
  qed
qed

section \<open>copyout, copyin and copyinstr\<close>

text \<open>
  The physical address of the byte at user address \<open>a\<close>, and the bytes of user memory; \<open>readable\<close>
  says that a range of user addresses is owned and accessible from user mode.
\<close>

definition upaddr :: "memory \<Rightarrow> uint64 \<Rightarrow> nat \<Rightarrow> uint64" where
  "upaddr m r a = upa m r (a div 4096) + word_of_nat (a mod 4096)"

definition ubytes :: "memory \<Rightarrow> uint64 \<Rightarrow> nat \<Rightarrow> nat \<Rightarrow> uchar list" where
  "ubytes m r a n = map (\<lambda>i. m (upaddr m r (a + i))) [0..<n]"

definition readable :: "memory \<Rightarrow> uint64 \<Rightarrow> nat set \<Rightarrow> nat \<Rightarrow> nat \<Rightarrow> bool" where
  "readable m r K a n \<longleftrightarrow> (\<forall>i < n. (a + i) div 4096 \<in> K \<and> upte m r ((a + i) div 4096) AND PTE_U \<noteq> 0)"

lemma readable_0: "readable m r K a n \<Longrightarrow> 0 < n \<Longrightarrow> a div 4096 \<in> K \<and> upte m r (a div 4096) AND PTE_U \<noteq> 0"
  by (auto simp: readable_def dest: spec [of _ 0])

lemma readable_drop: "readable m r K a n \<Longrightarrow> j \<le> n \<Longrightarrow> readable m r K (a + j) (n - j)"
  by (auto simp: readable_def add.assoc)

lemma PGROUNDDOWN_uva: "PGROUNDDOWN va = uva (unat va div 4096)"
proof -
  have "unat va div 4096 * 4096 \<le> unat va" by (rule div_times_less_eq_dividend)
  then have "unat va div 4096 * 4096 < 2 ^ 64" using unsigned_less [of va, where 'a = nat] by simp
  then have "unat (uva (unat va div 4096)) = unat va div 4096 * 4096"
    unfolding uva_def by (simp only: mult.commute [of 4096] unat_of_nat) simp
  then show ?thesis by (simp only: word_unat_eq_iff unat_PGROUNDDOWN)
qed

lemma walkaddr_user:
  assumes "uvm_inv s fl r K" and "k \<in> K" and "upte (mem s) r k AND PTE_U \<noteq> 0"
  shows "walkaddr r (uva k) s = Ok (upa (mem s) r k)" and "upa (mem s) r k \<noteq> 0"
proof -
  note D = uvm_invD [OF assms(1,2)] and pt = uvm_inv_pt [OF assms(1)]
  show "walkaddr r (uva k) s = Ok (upa (mem s) r k)"
    using walkaddr_eq [OF pt uva_less(1) [OF D(1)]] D(2) assms(3) by (simp add: upa_def upte_def)
  show "upa (mem s) r k \<noteq> 0" using page_ok_nonzero [OF pt_invD(1) [OF pt] D(4)] .
qed

lemma chunk_arith:
  fixes a n :: nat
  assumes "i < min n (4096 - a mod 4096)"
  shows "(a + i) div 4096 = a div 4096" and "(a + i) mod 4096 = a mod 4096 + i"
proof -
  have "i < 4096 - a mod 4096" using assms by simp
  then have lt: "a mod 4096 + i < 4096" "i < 4096" by linarith+
  then show "(a + i) div 4096 = a div 4096" by (simp add: div_add1_eq [of a i])
  show "(a + i) mod 4096 = a mod 4096 + i" using mod_less [OF lt(1)] by (simp only: mod_add_left_eq)
qed

lemma upaddr_chunk:
  assumes "i < min n (4096 - a mod 4096)"
  shows "upaddr m r (a + i) = upa m r (a div 4096) + word_of_nat (a mod 4096) + word_of_nat i"
  using chunk_arith [OF assms] by (simp add: upaddr_def algebra_simps)

lemma ubytes_chunk:
  assumes "j = min n (4096 - a mod 4096)"
  shows "ubytes m r a n = load_bytes m (upa m r (a div 4096) + word_of_nat (a mod 4096)) j @ ubytes m r (a + j) (n - j)"
proof (rule nth_equalityI)
  fix i assume i: "i < length (ubytes m r a n)"
  show "ubytes m r a n ! i = (load_bytes m (upa m r (a div 4096) + word_of_nat (a mod 4096)) j @ ubytes m r (a + j) (n - j)) ! i"
  proof (cases "i < j")
    case True
    with i assms upaddr_chunk [of i n a m r] show ?thesis by (simp add: ubytes_def nth_append)
  next
    case False
    with i have "i - j < n - j" "i < n" by (simp_all add: ubytes_def diff_less_mono)
    with False show ?thesis by (simp add: ubytes_def nth_append)
  qed
qed (use assms in \<open>simp add: ubytes_def\<close>)

lemma next_page:
  assumes "unat va + n \<le> 4096 * NVPAGES" and "4096 - unat va mod 4096 < n"
  shows "unat (PGROUNDDOWN va + PGSIZE) = unat va + (4096 - unat va mod 4096)"
proof -
  have m: "unat va div 4096 * 4096 + unat va mod 4096 = unat va" by (rule div_mult_mod_eq)
  have lt: "unat va mod 4096 < 4096" by simp
  have "unat (PGROUNDDOWN va + PGSIZE) = unat va div 4096 * 4096 + 4096"
    using assms m lt by (subst unat_add_small) (simp_all add: unat_PGROUNDDOWN PGSIZE_def NVPAGES_def)
  also have "\<dots> = unat va + (4096 - unat va mod 4096)" using m lt by linarith
  finally show ?thesis .
qed

lemma len64: "LENGTH(64) = 64"
  by simp

lemma mod4096_less: "x mod 4096 < (2 :: nat) ^ 64"
proof -
  have "x mod 4096 < 4096" by simp
  then show ?thesis by (rule order.strict_trans) simp
qed

lemma page_off: "va - PGROUNDDOWN va = word_of_nat (unat va mod 4096)"
  using PGROUNDDOWN_offset [of va] mod4096_less [of "unat va"]
  by (simp add: word_unat_eq_iff del: mod_less_divisor)

lemma copyin_spec:
  assumes "uvm_inv s fl r K" and "readable (mem s) r K (unat va) len" and "unat va + len \<le> 4096 * NVPAGES"
  shows "copyin r va len s = Ok (0, ubytes (mem s) r (unat va) len)"
  using assms
proof (induction r va len s rule: copyin.induct)
  case (1 r va len s)
  show ?case
  proof (cases "0 < len")
    case False
    then show ?thesis by (simp add: copyin.simps [of r va] ubytes_def)
  next
    case True
    let ?a = "unat va" and ?n = "page_chunk va len"
    note ac = readable_0 [OF "1.prems"(2) True]
    note wa = walkaddr_user [OF "1.prems"(1) ac [THEN conjunct1] ac [THEN conjunct2], folded PGROUNDDOWN_uva]
    have n: "?n = min len (4096 - ?a mod 4096)" by (rule page_chunk_eq)
    have rest: "copyin r (PGROUNDDOWN va + PGSIZE) (len - ?n) s = Ok (0, ubytes (mem s) r (?a + ?n) (len - ?n))"
    proof (cases "len \<le> 4096 - ?a mod 4096")
      case True
      then show ?thesis by (simp add: n copyin.simps [of r _ 0] ubytes_def)
    next
      case False
      then have nx: "unat (PGROUNDDOWN va + PGSIZE) = ?a + ?n" using next_page [OF "1.prems"(3)] by (simp add: n)
      have "copyin r (PGROUNDDOWN va + PGSIZE) (len - ?n) s =
          Ok (0, ubytes (mem s) r (unat (PGROUNDDOWN va + PGSIZE)) (len - ?n))"
        by (rule "1.IH" [OF True refl wa refl refl])
          (use "1.prems" readable_drop [OF "1.prems"(2), of ?n] page_chunk_le [of va len] nx in simp_all)
      then show ?thesis by (simp add: nx)
    qed
    show ?thesis
      using True wa rest ubytes_chunk [OF n] by (simp add: copyin.simps [of r va] page_off Let_def)
  qed
qed

text \<open>\<^verbatim>\<open>copyout\<close> writes its bytes at the user addresses, and nothing else.\<close>

definition written :: "memory \<Rightarrow> uint64 \<Rightarrow> nat \<Rightarrow> uchar list \<Rightarrow> memory \<Rightarrow> bool" where
  "written m r a src m' \<longleftrightarrow> (\<forall>i < length src. m' (upaddr m r (a + i)) = src ! i) \<and>
     (\<forall>x. (\<forall>i < length src. x \<noteq> upaddr m r (a + i)) \<longrightarrow> m' x = m x)"

lemma uvm_inv_cong:
  assumes "uvm_inv s fl r K" and "mem s' = mem s" and "freelist s' = freelist s" and "kend s' = kend s" and "kmem_lock s' = kmem_lock s"
    and "cpu_ok (mycpu s')"
  shows "uvm_inv s' fl r K"
  using assms by (simp add: uvm_inv_def pt_inv_def kmem_inv_def page_ok_def)

lemma upaddr_page:
  assumes "uvm_inv s fl r K" and "a div 4096 \<in> K"
  shows "PGROUNDDOWN (upaddr (mem s) r a) = upa (mem s) r (a div 4096)"
  using page_offset(1) [OF uvm_invD(7) [OF assms], of "a mod 4096"] by (simp add: upaddr_def)

lemma upaddr_inj:
  assumes inv: "uvm_inv s fl r K" and "a div 4096 \<in> K" and "b div 4096 \<in> K" and eq: "upaddr (mem s) r a = upaddr (mem s) r b"
  shows "a = b"
proof -
  have "upa (mem s) r (a div 4096) = upa (mem s) r (b div 4096)"
    using upaddr_page [OF inv assms(2)] upaddr_page [OF inv assms(3)] eq by simp
  then have d: "a div 4096 = b div 4096" using uvm_invD(8) [OF inv assms(3,2)] by simp
  with eq have "word_of_nat (a mod 4096) = (word_of_nat (b mod 4096) :: uint64)" by (simp add: upaddr_def)
  then have "a mod 4096 = b mod 4096" by (rule word_of_nat_inj) (simp_all only: len64 mod4096_less)
  with d show ?thesis by (metis div_mult_mod_eq)
qed

lemma user_write_inv:
  assumes inv: "uvm_inv s fl r K" and "k \<in> K" and eq: "\<And>x. PGROUNDDOWN x \<noteq> upa (mem s) r k \<Longrightarrow> m' x = mem s x"
  shows "uvm_inv (s\<lparr>mem := m'\<rparr>) fl r K" and "pte_val m' r va = pte_val (mem s) r va" and "tables m' r = tables (mem s) r"
proof -
  note D = uvm_invD [OF inv assms(2)] and pt = uvm_inv_pt [OF inv]
  have t: "m' x = mem s x" if "PGROUNDDOWN x \<in> tables (mem s) r" for x using that D(6) by (intro eq) auto
  show "pte_val m' r va = pte_val (mem s) r va" "tables m' r = tables (mem s) r" by (rule tables_frame [OF pt t]; simp)+
  have "kmem_inv (s\<lparr>mem := m'\<rparr>) fl"
    by (rule kmem_inv_mem [OF pt_invD(1) [OF pt]]) (use D(5) in \<open>auto intro!: eq\<close>)
  moreover have "set fl \<inter> owned (mem s) r K = {}"
    using pt_invD(3) [OF pt] uvm_invD(5) [OF inv] by (auto simp: owned_def)
  ultimately show "uvm_inv (s\<lparr>mem := m'\<rparr>) fl r K" by (intro uvm_inv_frame [OF inv]) (use t in simp_all)
qed

lemma chunk_written:
  assumes inv: "uvm_inv s fl r K" and k: "a div 4096 \<in> K" and n: "n = min (length src) (4096 - a mod 4096)"
  defines "m' \<equiv> store_bytes (mem s) (upa (mem s) r (a div 4096) + word_of_nat (a mod 4096)) (take n src)"
  shows "written (mem s) r a (take n src) m'" and "PGROUNDDOWN x \<noteq> upa (mem s) r (a div 4096) \<Longrightarrow> m' x = mem s x"
proof -
  define b where "b = upa (mem s) r (a div 4096) + (word_of_nat (a mod 4096) :: uint64)"
  have m': "m' = store_bytes (mem s) b (take n src)" by (simp add: m'_def b_def)
  have len: "length (take n src) = n" "n < 2 ^ 64" using n by simp_all
  have ua: "upaddr (mem s) r (a + i) = b + word_of_nat i" if "i < n" for i
    using that unfolding b_def by (intro upaddr_chunk [of i "length src"]) (simp add: n)
  have iff: "unat (x - b) < n \<longleftrightarrow> (\<exists>i < n. x = b + word_of_nat i)" for x
    using len(2) by (auto simp: eq_add_of_nat_iff)
  show "written (mem s) r a (take n src) m'" unfolding written_def len(1)
  proof (intro conjI allI impI)
    show "m' (upaddr (mem s) r (a + i)) = take n src ! i" if "i < n" for i
      using that len by (simp add: ua m' store_bytes_def)
    show "m' x = mem s x" if "\<forall>i < n. x \<noteq> upaddr (mem s) r (a + i)" for x
      using that iff [of x] len(1) ua by (auto simp: m' store_bytes_def)
  qed
  show "m' x = mem s x" if "PGROUNDDOWN x \<noteq> upa (mem s) r (a div 4096)"
  proof -
    have "\<not> (\<exists>i < n. x = b + word_of_nat i)"
    proof
      assume "\<exists>i < n. x = b + word_of_nat i"
      then obtain i where i: "i < n" "x = upaddr (mem s) r (a + i)" using ua by auto
      have "(a + i) div 4096 = a div 4096" using i(1) by (intro chunk_arith(1) [of i "length src"]) (simp add: n)
      then show False using upaddr_page [OF inv, of "a + i"] k that i(2) by simp
    qed
    then have "\<not> unat (x - b) < n" using iff [of x] by simp
    then show ?thesis using len(1) by (simp add: m' store_bytes_def)
  qed
qed

lemma written_append:
  assumes w1: "written m r a xs m1" and w2: "written m1 r (a + length xs) ys m2"
    and same: "\<And>b. upaddr m1 r b = upaddr m r b"
    and inj: "\<And>i j. i < length xs \<Longrightarrow> j < length ys \<Longrightarrow> upaddr m r (a + i) \<noteq> upaddr m r (a + length xs + j)"
  shows "written m r a (xs @ ys) m2"
  unfolding written_def
proof (intro conjI allI impI)
  fix i assume i: "i < length (xs @ ys)"
  show "m2 (upaddr m r (a + i)) = (xs @ ys) ! i"
  proof (cases "i < length xs")
    case True
    then have "m2 (upaddr m r (a + i)) = m1 (upaddr m r (a + i))"
      using w2 inj unfolding written_def same by blast
    with True w1 show ?thesis by (simp add: written_def nth_append)
  next
    case False
    then have "i - length xs < length ys" "a + length xs + (i - length xs) = a + i" using i by auto
    with False w2 show ?thesis unfolding written_def same by (metis nth_append)
  qed
next
  fix x assume x: "\<forall>i < length (xs @ ys). x \<noteq> upaddr m r (a + i)"
  have "m2 x = m1 x"
    using w2 x unfolding written_def same by (metis add.assoc add_less_cancel_left length_append)
  moreover have "m1 x = m x" using w1 x unfolding written_def by simp
  ultimately show "m2 x = m x" by simp
qed

lemma copyout_spec:
  assumes "uvm_inv s fl r K" and "readable (mem s) r K (unat va) (length src)" and "unat va + length src \<le> 4096 * NVPAGES"
  shows "\<exists>m'. copyout r va src s = Ok (0, s\<lparr>mem := m'\<rparr>) \<and> written (mem s) r (unat va) src m' \<and>
    uvm_inv (s\<lparr>mem := m'\<rparr>) fl r K \<and> (\<forall>v. pte_val m' r v = pte_val (mem s) r v)"
  using assms
proof (induction r va src s rule: copyout.induct)
  case (1 r va src s)
  show ?case
  proof (cases "0 < length src")
    case False
    then show ?thesis using "1.prems"(1) by (intro exI [of _ "mem s"]) (simp add: copyout.simps [of r va] written_def)
  next
    case True
    let ?a = "unat va" and ?n = "page_chunk va (length src)"
    note ac = readable_0 [OF "1.prems"(2) True]
    note wa = walkaddr_user [OF "1.prems"(1) ac [THEN conjunct1] ac [THEN conjunct2], folded PGROUNDDOWN_uva]
    have n: "?n = min (length src) (4096 - ?a mod 4096)" by (rule page_chunk_eq)
    define m1 where "m1 = store_bytes (mem s) (upa (mem s) r (?a div 4096) + word_of_nat (?a mod 4096)) (take ?n src)"
    let ?s = "s\<lparr>mem := m1\<rparr>"
    note ch = chunk_written [OF "1.prems"(1) ac [THEN conjunct1] n, folded m1_def]
    note wi = user_write_inv [OF "1.prems"(1) ac [THEN conjunct1] ch(2)]
    have step: "copyout r va src s = copyout r (PGROUNDDOWN va + PGSIZE) (drop ?n src) ?s"
      using True wa by (simp add: copyout.simps [of r va] page_off m1_def Let_def)
    have same: "upaddr m1 r b = upaddr (mem s) r b" for b using wi(2) by (simp add: upaddr_def upa_def upte_def)
    have "\<exists>m'. copyout r (PGROUNDDOWN va + PGSIZE) (drop ?n src) ?s = Ok (0, s\<lparr>mem := m'\<rparr>) \<and>
        written m1 r (?a + ?n) (drop ?n src) m' \<and> uvm_inv (s\<lparr>mem := m'\<rparr>) fl r K \<and> (\<forall>v. pte_val m' r v = pte_val (mem s) r v)"
    proof (cases "length src \<le> 4096 - ?a mod 4096")
      case True
      then show ?thesis using wi(1,2)
        by (intro exI [of _ m1]) (simp add: n copyout.simps [of r _ "[]"] written_def)
    next
      case False
      then have nx: "unat (PGROUNDDOWN va + PGSIZE) = ?a + ?n" using next_page [OF "1.prems"(3)] by (simp add: n)
      have "\<exists>m'. copyout r (PGROUNDDOWN va + PGSIZE) (drop ?n src) ?s = Ok (0, ?s\<lparr>mem := m'\<rparr>) \<and>
          written (mem ?s) r (unat (PGROUNDDOWN va + PGSIZE)) (drop ?n src) m' \<and>
          uvm_inv (?s\<lparr>mem := m'\<rparr>) fl r K \<and> (\<forall>v. pte_val m' r v = pte_val (mem ?s) r v)"
        by (rule "1.IH" [OF True refl wa refl])
          (use "1.prems" readable_drop [OF "1.prems"(2), of ?n] page_chunk_le [of va "length src"] nx wi in
            \<open>simp_all add: readable_def upte_def page_off m1_def\<close>)
      then show ?thesis using wi(2) by (simp add: nx)
    qed
    then obtain m' where m': "copyout r (PGROUNDDOWN va + PGSIZE) (drop ?n src) ?s = Ok (0, s\<lparr>mem := m'\<rparr>)"
        "written m1 r (?a + ?n) (drop ?n src) m'" "uvm_inv (s\<lparr>mem := m'\<rparr>) fl r K" "\<forall>v. pte_val m' r v = pte_val (mem s) r v"
      by blast
    have len: "length (take ?n src) = ?n" using page_chunk_le [of va "length src"] by simp
    have K: "(?a + i) div 4096 \<in> K" if "i < length src" for i using "1.prems"(2) that by (simp add: readable_def)
    have "written (mem s) r ?a (take ?n src @ drop ?n src) m'"
    proof (rule written_append [OF ch(1) _ same])
      show "written m1 r (?a + length (take ?n src)) (drop ?n src) m'" using m'(2) len by simp
      show "upaddr (mem s) r (?a + i) \<noteq> upaddr (mem s) r (?a + length (take ?n src) + j)"
        if "i < length (take ?n src)" "j < length (drop ?n src)" for i j
        using that upaddr_inj [OF "1.prems"(1) K [of i] K [of "?n + j"]] by (fastforce simp: len add.assoc)
    qed
    with m' step show ?thesis by (intro exI [of _ m']) simp
  qed
qed

end
