(* ===== verification/Uvmfree.thy ===== *)
theory Uvmfree
  imports Uvm
begin

text \<open>
  \<^verbatim>\<open>freewalk\<close> and \<^verbatim>\<open>uvmfree\<close>: when no leaf is mapped any more, the recursion over the three
  levels of a table returns every page of it to the allocator and does not panic.
\<close>

section \<open>A table as a tree of pages\<close>

fun ftree :: "nat \<Rightarrow> memory \<Rightarrow> uint64 \<Rightarrow> uint64 set \<Rightarrow> bool" where
  "ftree 0 m t S \<longleftrightarrow> False"
| "ftree (Suc d) m t S \<longleftrightarrow> pg_aligned t \<and> (\<exists>F. S = insert t (\<Union>i<512. F i) \<and>
     (\<forall>i < 512. t \<notin> F i \<and> (\<forall>j < 512. i \<noteq> j \<longrightarrow> F i \<inter> F j = {}) \<and>
        (if pte_valid (load64 m (slot t i))
         then load64 m (slot t i) AND (PTE_R OR PTE_W OR PTE_X) = 0 \<and> ftree d m (PTE2PA (load64 m (slot t i))) (F i)
         else F i = {})))"

declare ftree.simps(2) [simp del]

lemma slot_load_frame:
  assumes "pg_aligned t" and "i < 512" and "\<And>x. PGROUNDDOWN x = t \<Longrightarrow> m' x = m x"
  shows "load64 m' (slot t i) = load64 m (slot t i)"
  using assms by (intro load64_page) (auto simp: slot_aligned8 slot_page)

lemma ftree_frame:
  assumes "ftree d m t S" and "\<And>x. PGROUNDDOWN x \<in> S \<Longrightarrow> m' x = m x"
  shows "ftree d m' t S"
  using assms
proof (induction d arbitrary: t S)
  case (Suc d)
  from Suc.prems(1) obtain F where F: "pg_aligned t" "S = insert t (\<Union>i<512. F i)"
    "\<And>i. i < 512 \<Longrightarrow> t \<notin> F i \<and> (\<forall>j < 512. i \<noteq> j \<longrightarrow> F i \<inter> F j = {}) \<and>
        (if pte_valid (load64 m (slot t i))
         then load64 m (slot t i) AND (PTE_R OR PTE_W OR PTE_X) = 0 \<and> ftree d m (PTE2PA (load64 m (slot t i))) (F i)
         else F i = {})"
    unfolding ftree.simps by blast
  have ld: "load64 m' (slot t i) = load64 m (slot t i)" if "i < 512" for i
    using F(1) that by (rule slot_load_frame) (use Suc.prems(2) F(2) in simp)
  have "ftree d m' (PTE2PA (load64 m (slot t i))) (F i)" if "i < 512" "ftree d m (PTE2PA (load64 m (slot t i))) (F i)" for i
    using that(2) by (rule Suc.IH) (use that(1) F(2) Suc.prems(2) in blast)
  then show ?case unfolding ftree.simps using F by (intro conjI exI [of _ F]) (simp_all add: ld)
qed simp

section \<open>freewalk\<close>

definition freed :: "'a machine_scheme \<Rightarrow> uint64 list \<Rightarrow> uint64 set \<Rightarrow> 'a machine_scheme \<Rightarrow> uint64 list \<Rightarrow> uint64 set \<Rightarrow> bool" where
  "freed s fl S s' fl' W \<longleftrightarrow> kmem_inv s' fl' \<and> set fl' = set fl \<union> S \<and>
     (\<forall>x. PGROUNDDOWN x \<notin> S \<union> W \<longrightarrow> mem s' x = mem s x) \<and> page_ok s' = page_ok s \<and> machine_rest s' = machine_rest s"

lemma freed_trans:
  assumes "freed s fl S s' fl' W" and "freed s' fl' S' s'' fl'' W"
  shows "freed s fl (S \<union> S') s'' fl'' W"
  using assms by (auto simp: freed_def)

definition sub_ok :: "nat \<Rightarrow> 'a machine_scheme \<Rightarrow> uint64 list \<Rightarrow> uint64 \<Rightarrow> (nat \<Rightarrow> uint64 set) \<Rightarrow> nat \<Rightarrow> bool" where
  "sub_ok d s fl t F j \<longleftrightarrow> t \<notin> F j \<and> F j \<inter> set fl = {} \<and> (\<forall>p \<in> F j. page_ok s p) \<and>
      (\<forall>l < 512. j \<noteq> l \<longrightarrow> F j \<inter> F l = {}) \<and>
      (if pte_valid (load64 (mem s) (slot t j))
       then load64 (mem s) (slot t j) AND (PTE_R OR PTE_W OR PTE_X) = 0 \<and> ftree d (mem s) (PTE2PA (load64 (mem s) (slot t j))) (F j)
       else F j = {})"

text \<open>
  The loop over the entries of \<open>t\<close> from \<open>i\<close> on, given that \<^verbatim>\<open>freewalk\<close> frees subtrees of depth
  \<open>d\<close>: it writes into \<open>t\<close> and frees the subtrees.
\<close>

lemma freewalk_loop_frees:
  assumes walk: "\<forall>t S s fl. ftree d (mem s) t S \<longrightarrow> kmem_inv s fl \<longrightarrow> S \<inter> set fl = {} \<longrightarrow> (\<forall>p \<in> S. page_ok s p) \<longrightarrow>
      (\<exists>s' fl'. freewalk d t (s :: 'a machine_scheme) = Ok s' \<and> freed s fl S s' fl' {})"
    and t: "pg_aligned t" "t \<notin> set fl" and k: "kmem_inv s fl" and i: "i \<le> 512"
    and F: "\<forall>j. i \<le> j \<longrightarrow> j < 512 \<longrightarrow> sub_ok d s fl t F j"
  shows "\<exists>s' fl'. freewalk_loop d t i (s :: 'a machine_scheme) = Ok s' \<and> freed s fl (\<Union>j \<in> {i..<512}. F j) s' fl' {t}"
  using t(2) k i F
proof (induction "512 - i" arbitrary: i s fl)
  case 0
  then have "i = 512" by simp
  then show ?case using "0.prems"(2)
    by (intro exI [of _ s] exI [of _ fl]) (simp add: freewalk_loop.simps [of d t 512] freed_def)
next
  case (Suc n)
  then have i: "i < 512" by simp
  note Fi = Suc.prems(4) [rule_format, OF order_refl i, unfolded sub_ok_def]
  have ivl: "{i..<512} = insert i {Suc i..<512}" using i by auto
  let ?e = "load64 (mem s) (slot t i)"
  show ?case
  proof (cases "pte_valid ?e")
    case False
    have "\<exists>s' fl'. freewalk_loop d t (Suc i) s = Ok s' \<and> freed s fl (\<Union>j \<in> {Suc i..<512}. F j) s' fl' {t}"
      using Suc.hyps(2) Suc.prems i by (intro Suc.hyps(1)) simp_all
    moreover have "F i = {}" using False Fi by simp
    ultimately show ?thesis using False i
      by (simp add: freewalk_loop.simps [of d t i] pte_valid_def ivl slot_def)
  next
    case True
    then obtain s1 fl1 where s1: "freewalk d (PTE2PA ?e) s = Ok s1" "freed s fl (F i) s1 fl1 {}"
      using walk [rule_format, of s "PTE2PA ?e" "F i" fl] Fi Suc.prems(2) by auto
    define s2 where "s2 = s1\<lparr>mem := store64 (mem s1) (slot t i) 0\<rparr>"
    have tf: "t \<notin> set fl1" using s1(2) Fi Suc.prems(1) by (auto simp: freed_def)
    have k2: "kmem_inv s2 fl1" unfolding s2_def
    proof (rule kmem_inv_mem)
      show "kmem_inv s1 fl1" using s1(2) by (simp add: freed_def)
      show "store64 (mem s1) (slot t i) 0 x = mem s1 x" if "PGROUNDDOWN x \<in> set fl1" for x
        using that tf by (intro store_slot_other [OF t(1) i]) auto
    qed
    have st2: "freed s fl (F i) s2 fl1 {t}"
      using s1(2) k2 by (auto simp: freed_def s2_def store_slot_other [OF t(1) i])
    have rest: "\<exists>s' fl'. freewalk_loop d t (Suc i) s2 = Ok s' \<and> freed s2 fl1 (\<Union>j \<in> {Suc i..<512}. F j) s' fl' {t}"
    proof (rule Suc.hyps(1) [OF _ tf k2])
      show "n = 512 - Suc i" "Suc i \<le> 512" using Suc.hyps(2) i by simp_all
      show "\<forall>j. Suc i \<le> j \<longrightarrow> j < 512 \<longrightarrow> sub_ok d s2 fl1 t F j"
      proof (intro allI impI)
        fix j assume j: "Suc i \<le> j" "j < 512"
        then have "i \<le> j" by simp
        note Fj = Suc.prems(4) [rule_format, OF this j(2), unfolded sub_ok_def]
        have dis: "F j \<inter> F i = {}" using Fj j i by simp
        have "load64 (mem s2) (slot t j) = load64 (mem s1) (slot t j)"
          using j i t(1) by (simp add: s2_def load64_store_slot)
        also have "\<dots> = load64 (mem s) (slot t j)"
          using s1(2) Fi by (intro slot_load_frame [OF t(1) j(2)]) (auto simp: freed_def)
        finally have ld: "load64 (mem s2) (slot t j) = load64 (mem s) (slot t j)" .
        have m: "mem s2 x = mem s x" if "PGROUNDDOWN x \<in> F j" for x
          using that st2 dis Fj by (auto simp: freed_def)
        have ft: "ftree d (mem s2) p (F j)" if "ftree d (mem s) p (F j)" for p by (rule ftree_frame [OF that m])
        have eq: "set fl1 = set fl \<union> F i" "page_ok s2 = page_ok s" using st2 by (simp_all add: freed_def)
        have "F j \<inter> set fl1 = {}" using dis Fj eq(1) by blast
        then show "sub_ok d s2 fl1 t F j" unfolding sub_ok_def ld eq(2) using Fj ft by simp
      qed
    qed
    have loop: "freewalk_loop d t i s = freewalk_loop d t (Suc i) s2"
      using True Fi i s1(1) by (simp add: freewalk_loop.simps [of d t i] pte_valid_def s2_def slot_def Let_def)
    from rest obtain s' fl' where "freewalk_loop d t (Suc i) s2 = Ok s'" "freed s2 fl1 (\<Union>j \<in> {Suc i..<512}. F j) s' fl' {t}" by blast
    with freed_trans [OF st2] loop show ?thesis unfolding ivl by auto
  qed
qed

lemma freewalk_frees:
  assumes "ftree d (mem s) t S" and "kmem_inv s fl" and "S \<inter> set fl = {}" and "\<forall>p \<in> S. page_ok s p"
  shows "\<exists>s' fl'. freewalk d t s = Ok s' \<and> freed s fl S s' fl' {}"
  using assms
proof (induction d arbitrary: t S s fl)
  case (Suc d)
  from Suc.prems(1) obtain F where F: "pg_aligned t" "S = insert t (\<Union>i<512. F i)"
    "\<forall>i < 512. t \<notin> F i \<and> (\<forall>j < 512. i \<noteq> j \<longrightarrow> F i \<inter> F j = {}) \<and>
        (if pte_valid (load64 (mem s) (slot t i))
         then load64 (mem s) (slot t i) AND (PTE_R OR PTE_W OR PTE_X) = 0 \<and> ftree d (mem s) (PTE2PA (load64 (mem s) (slot t i))) (F i)
         else F i = {})"
    unfolding ftree.simps by blast
  have tf: "t \<notin> set fl" "page_ok s t" using Suc.prems(3,4) F(2) by auto
  have "F j \<inter> set fl = {} \<and> (\<forall>p \<in> F j. page_ok s p)" if "j < 512" for j using that Suc.prems(3,4) F(2) by auto
  then have "\<forall>j. 0 \<le> j \<longrightarrow> j < 512 \<longrightarrow> sub_ok d s fl t F j" unfolding sub_ok_def using F(3) by simp
  moreover have "\<forall>t S s fl. ftree d (mem s) t S \<longrightarrow> kmem_inv s fl \<longrightarrow> S \<inter> set fl = {} \<longrightarrow> (\<forall>p \<in> S. page_ok s p) \<longrightarrow>
      (\<exists>s' fl'. freewalk d t (s :: 'a machine_scheme) = Ok s' \<and> freed s fl S s' fl' {})"
    by (intro allI impI Suc.IH)
  ultimately obtain s1 fl1 where s1: "freewalk_loop d t 0 s = Ok s1" "freed s fl (\<Union>j \<in> {0..<512}. F j) s1 fl1 {t}"
    using freewalk_loop_frees [OF _ F(1) tf(1) Suc.prems(2), of d 0 F] by auto
  have "t \<notin> set fl1" "page_ok s1 t" "kmem_inv s1 fl1" using s1(2) tf F(3) by (auto simp: freed_def)
  then obtain s2 where s2: "kfree t s1 = Ok s2" "kmem_inv s2 (t # fl1)" "page_ok s2 = page_ok s1" "machine_rest s2 = machine_rest s1"
      "\<forall>x. PGROUNDDOWN x \<noteq> t \<longrightarrow> mem s2 x = mem s1 x"
    using kmem.free_page [of s1 fl1 t] by blast
  have "{0..<512} = {..<512 :: nat}" by auto
  then have "freed s fl S s2 (t # fl1) {}"
    using s1(2) s2 unfolding F(2) by (auto simp: freed_def)
  with s1(1) s2(1) show ?case by auto
qed simp

section \<open>The pages of a table form such a tree\<close>

definition subtables :: "memory \<Rightarrow> uint64 \<Rightarrow> nat list \<Rightarrow> uint64 set" where
  "subtables m r is = {t. \<exists>js. path_ok (is @ js) \<and> table m r (is @ js) = Some t}"

definition no_leaves :: "memory \<Rightarrow> uint64 \<Rightarrow> bool" where
  "no_leaves m r \<longleftrightarrow> (\<forall>is t. path_ok is \<longrightarrow> length is = 2 \<longrightarrow> table m r is = Some t \<longrightarrow> (\<forall>j < 512. \<not> pte_valid (load64 m (slot t j))))"

lemma subtables_split:
  assumes "path_ok is" and "table m r is = Some t"
  shows "subtables m r is = insert t (\<Union>i<512. subtables m r (is @ [i]))"
proof -
  have "u = t \<or> (\<exists>i < 512. u \<in> subtables m r (is @ [i]))" if u: "u \<in> subtables m r is" for u
  proof -
    from u obtain js where js: "path_ok (is @ js)" "table m r (is @ js) = Some u" by (auto simp: subtables_def)
    show ?thesis
    proof (cases js)
      case Nil
      with js assms show ?thesis by simp
    next
      case (Cons i ks)
      then have "i < 512" using js(1) by (simp add: path_ok_def)
      with Cons js show ?thesis by (auto simp: subtables_def intro!: exI [of _ i] exI [of _ ks])
    qed
  qed
  moreover have "t \<in> subtables m r is" using assms by (auto simp: subtables_def intro!: exI [of _ "[]"])
  moreover have "subtables m r (is @ [i]) \<subseteq> subtables m r is" for i by (auto simp: subtables_def)
  ultimately show ?thesis by auto
qed

lemma ftree_tables:
  assumes inv: "pt_inv s fl r" and nl: "no_leaves (mem s) r"
    and "path_ok is" and "length is + d = 2" and "table (mem s) r is = Some t"
  shows "ftree (Suc d) (mem s) t (subtables (mem s) r is)"
  using assms(3-5)
proof (induction d arbitrary: "is" t)
  case 0
  have al: "pg_aligned t" by (rule pt_invD(4) [OF inv tablesI [OF "0.prems"(1,3)]])
  have e: "subtables (mem s) r (is @ [i]) = {}" for i using "0.prems"(2) by (auto simp: subtables_def path_ok_def)
  have "\<not> pte_valid (load64 (mem s) (slot t i))" if "i < 512" for i
    using nl "0.prems" that unfolding no_leaves_def by simp
  then show ?case unfolding ftree.simps subtables_split [OF "0.prems"(1,3)]
    using al e by (intro conjI exI [of _ "\<lambda>i. subtables (mem s) r (is @ [i])"]) simp_all
next
  case (Suc d)
  let ?F = "\<lambda>i. subtables (mem s) r (is @ [i])"
  have al: "pg_aligned t" by (rule pt_invD(4) [OF inv tablesI [OF Suc.prems(1,3)]])
  have inj: "js = ks" if "path_ok js" "path_ok ks" "table (mem s) r js = Some u" "table (mem s) r ks = Some u" for js ks u
    by (rule pt_invD(6) [OF inv that])
  have "t \<notin> ?F i" for i using inj [OF Suc.prems(1) _ Suc.prems(3)] by (fastforce simp: subtables_def)
  moreover have "?F i \<inter> ?F j = {}" if "i \<noteq> j" for i j using that inj by (fastforce simp: subtables_def)
  moreover have "if pte_valid (load64 (mem s) (slot t i))
      then load64 (mem s) (slot t i) AND (PTE_R OR PTE_W OR PTE_X) = 0 \<and> ftree (Suc d) (mem s) (PTE2PA (load64 (mem s) (slot t i))) (?F i)
      else ?F i = {}" if i: "i < 512" for i
  proof -
    have ok: "path_ok (is @ [i])" using i Suc.prems by (simp add: path_ok_snoc)
    have tb: "table (mem s) r (is @ [i]) = next_table (mem s) t i" using Suc.prems(3) by (simp add: table_snoc)
    show ?thesis
    proof (cases "pte_valid (load64 (mem s) (slot t i))")
      case True
      then have "table (mem s) r (is @ [i]) = Some (PTE2PA (load64 (mem s) (slot t i)))" by (simp add: tb next_table_def)
      moreover have "load64 (mem s) (slot t i) AND (PTE_R OR PTE_W OR PTE_X) = 0"
        using pt_invD(7) [OF inv] ok Suc.prems(3) True unfolding inner_ok_def by blast
      ultimately show ?thesis using True Suc.IH [OF ok] Suc.prems(2) by simp
    next
      case False
      then have "table (mem s) r (is @ [i]) = None" by (simp add: tb next_table_def)
      then have "table (mem s) r ((is @ [i]) @ js) = None" for js by (simp only: table_append [of _ _ "is @ [i]"] bind.simps)
      then have "?F i = {}" by (simp add: subtables_def)
      with False show ?thesis by simp
    qed
  qed
  ultimately show ?case unfolding ftree.simps(2) [of "Suc d"] subtables_split [OF Suc.prems(1,3)]
    using al by (intro conjI exI [of _ ?F]) simp_all
qed

lemma freewalk_tables:
  assumes "pt_inv s fl r" and "no_leaves (mem s) r"
  shows "\<exists>s' fl'. freewalk 3 r s = Ok s' \<and> freed s fl (tables (mem s) r) s' fl' {}"
proof -
  have "subtables (mem s) r [] = tables (mem s) r" by (simp add: subtables_def tables_def)
  then have "ftree (Suc 2) (mem s) r (tables (mem s) r)" using ftree_tables [OF assms, of "[]" 2 r] by simp
  then have t: "ftree 3 (mem s) r (tables (mem s) r)" by (simp only: eval_nat_numeral)
  show ?thesis by (rule freewalk_frees [OF t pt_invD(1) [OF assms(1)]]) (use pt_invD(2,3) [OF assms(1)] in auto)
qed

section \<open>uvmfree\<close>

lemma digit512: "k < 512 \<Longrightarrow> (a * 512 + k) div 512 = a" "k < 512 \<Longrightarrow> (a * 512 + k) mod 512 = (k :: nat)"
  by simp_all

lemma path_va:
  assumes "i < 256" and "j < 512" and "k < 512"
  shows "\<exists>va < MAXVA. va_path va = [i, j] \<and> idx 0 va = k"
proof -
  define n where "n = (i * 512 + j) * 512 + k"
  have n: "n div 512 div 512 = i" "n div 512 mod 512 = j" "n mod 512 = k" "n < 67108864"
    unfolding n_def digit512 [OF assms(3)] digit512 [OF assms(2)] using assms by simp_all
  have u: "unat (uva n) = n * 4096" using uva_less(2) [of n] n(4) by (simp add: NVPAGES_def)
  have "uva n < MAXVA" using uva_less(1) [of n] n(4) by (simp add: NVPAGES_def)
  moreover have "idx 0 (uva n) = k" "idx 1 (uva n) = j" "idx 2 (uva n) = i"
    using n assms(1) by (simp_all add: idx_def unat_PX PXSHIFT_def PGSHIFT_def u div_mult2_eq [of _ 4096 512, simplified]
        div_mult2_eq [of _ "4096 * 512" 512, simplified])
  ultimately show ?thesis by (auto simp: va_path_def)
qed

lemma no_leavesI:
  assumes inv: "pt_inv s fl r" and nv: "\<And>va. va < MAXVA \<Longrightarrow> \<not> pte_valid (pte_val (mem s) r va)"
  shows "no_leaves (mem s) r"
  unfolding no_leaves_def
proof (intro allI impI)
  fix "is" t and k :: nat assume p: "path_ok is" "length is = 2" "table (mem s) r is = Some t" and k: "k < 512"
  then obtain i j where ij: "is = [i, j]" by (auto simp: numeral_2_eq_2 length_Suc_conv)
  have b: "i < 512" "j < 512" using p(1) by (simp_all add: ij path_ok_def)
  have "pte_valid (load64 (mem s) (slot r i))"
    using p(3) by (auto simp: ij next_table_def Let_def split: if_splits)
  then have "i < 256" using pt_invD(8) [OF inv] b(1) unfolding top_ok_def by (meson not_le)
  from path_va [OF this b(2) k] obtain va where "va < MAXVA" "va_path va = is" "idx 0 va = k" unfolding ij by blast
  with nv [of va] p(3) show "\<not> pte_valid (load64 (mem s) (slot t k))" by (simp add: pte_val_def)
qed

lemma uvmfree_spec:
  assumes inv: "uvm_inv s fl r {0..<pages sz}" and sz: "unat sz \<le> 4096 * NVPAGES"
    and leaves: "\<And>va. va < MAXVA \<Longrightarrow> pte_valid (pte_val (mem s) r va) \<Longrightarrow> unat va < 4096 * pages sz"
  shows "\<exists>s' fl'. uvmfree r sz s = Ok s' \<and> freed s fl (owned (mem s) r {0..<pages sz}) s' fl' (set fl)"
proof -
  note up = PGROUNDUP_pages [OF sz]
  have "unat (PGROUNDUP sz div PGSIZE) = pages sz" unfolding up(1) by (simp add: unat_div up(3) PGSIZE_def)
  moreover have "unat (word_of_nat (pages sz) :: uint64) = pages sz" using up(2) by (simp add: NVPAGES_def unat_of_nat_small)
  ultimately have np: "PGROUNDUP sz div PGSIZE = word_of_nat (pages sz)" by (simp only: word_unat_eq_iff)
  obtain s1 fl1 where s1: "(if sz > 0 then uvmunmap r 0 (PGROUNDUP sz div PGSIZE) True s else Ok s) = Ok s1"
      "uvm_step r s fl {0..<pages sz} s1 fl1 {}" "\<forall>va < MAXVA. \<not> pte_valid (pte_val (mem s1) r va)"
  proof (cases "sz = 0")
    case True
    then have "pages sz = 0" by (simp add: pages_def)
    with True leaves uvm_step_refl [OF inv] that [of s fl] show ?thesis by auto
  next
    case False
    then have "sz > 0" by (simp add: word_gt_0)
    with uvmunmap_pages [OF inv, of 0 "pages sz"] up(2) leaves that show ?thesis
      by (fastforce simp: np pte_valid_def)
  qed
  note pt1 = uvm_inv_pt [OF uvm_stepD(1) [OF s1(2)]]
  obtain s' fl' where s': "freewalk 3 r s1 = Ok s'" "freed s1 fl1 (tables (mem s1) r) s' fl' {}"
    using freewalk_tables [OF pt1 no_leavesI [OF pt1]] s1(3) by blast
  have "owned (mem s1) r {} = tables (mem s1) r" by (simp add: owned_def)
  then have all: "set fl1 \<union> tables (mem s1) r = set fl \<union> owned (mem s) r {0..<pages sz}" using uvm_stepD(2) [OF s1(2)] by simp
  have fl: "set fl1 \<subseteq> set fl'" "set fl' = set fl1 \<union> tables (mem s1) r" using s'(2) by (auto simp: freed_def)
  have "mem s' x = mem s x" if x: "PGROUNDDOWN x \<notin> set fl" "PGROUNDDOWN x \<notin> owned (mem s) r {0..<pages sz}" for x
  proof -
    have "mem s1 x = mem s x" by (rule uvm_stepD(3) [OF s1(2) x])
    moreover have "PGROUNDDOWN x \<notin> tables (mem s1) r" using x all by blast
    ultimately show ?thesis using s'(2) by (simp add: freed_def)
  qed
  then show ?thesis using s' s1(1,2) all fl(2)
    by (intro exI [of _ s'] exI [of _ fl']) (auto simp: uvmfree_def freed_def uvm_step_def)
qed

end
