(* ===== verification/Vm_Properties.thy ===== *)
theory Vm_Properties
  imports Uvmfree
begin

text \<open>
  The correctness properties of user memory, each with a concrete machine on which its
  hypotheses hold: two empty root tables and a free list of seven pages.
\<close>

section \<open>A machine with a linked free list\<close>

fun link_mem :: "uint64 list \<Rightarrow> memory" where
  "link_mem (p # q # ps) = store64 (link_mem (q # ps)) p q"
| "link_mem ps = (\<lambda>_. 0)"

lemma link_mem_other: "\<forall>p \<in> set ps. pg_aligned p \<Longrightarrow> PGROUNDDOWN x \<notin> set ps \<Longrightarrow> link_mem ps x = 0"
  by (induction ps rule: link_mem.induct) auto

lemma link_mem_run:
  assumes "\<forall>p \<in> set ps. pg_aligned p \<and> p \<noteq> 0" and "distinct ps"
  shows "run_list (link_mem ps) (case ps of [] \<Rightarrow> 0 | p # _ \<Rightarrow> p) ps"
  using assms
proof (induction ps rule: link_mem.induct)
  case (1 p q ps)
  have "run_list (link_mem (q # ps)) q (q # ps)" using 1 by simp
  moreover have "store64 (link_mem (q # ps)) p q x = link_mem (q # ps) x" if "PGROUNDDOWN x \<in> set (q # ps)" for x
    using that "1.prems" by (intro page_store64) auto
  ultimately have "run_list (link_mem (p # q # ps)) q (q # ps)"
    using "1.prems"(1) by (subst run_list_frame [where m = "link_mem (q # ps)"]) simp_all
  with "1.prems"(1) show ?case by simp
qed (simp_all add: load64_zero)

definition free_pages :: "uint64 list" where
  "free_pages = [0x87ff9000, 0x87ffa000, 0x87ffb000, 0x87ffc000, 0x87ffd000, 0x87ffe000, 0x87fff000]"

definition uvm_machine :: machine where
  "uvm_machine = boot_machine\<lparr>kend := 0x87ff7000, freelist := 0x87ff9000, mem := link_mem free_pages\<rparr>"

lemma uvm_machine_kmem: "kmem_inv uvm_machine free_pages"
proof -
  have al: "\<forall>p \<in> set free_pages. pg_aligned p \<and> p \<noteq> 0" by (simp add: free_pages_def pg_aligned_def layout_defs)
  have "distinct free_pages" by (simp add: free_pages_def)
  moreover have "(case free_pages of [] \<Rightarrow> 0 | p # _ \<Rightarrow> p) = 0x87ff9000" by (simp add: free_pages_def)
  ultimately have "run_list (link_mem free_pages) 0x87ff9000 free_pages" using link_mem_run [OF al] by metis
  moreover have "\<forall>p \<in> set free_pages. page_ok uvm_machine p"
    by (simp add: free_pages_def uvm_machine_def boot_machine_def page_ok_def pg_aligned_def layout_defs)
  ultimately show ?thesis using \<open>distinct free_pages\<close>
    by (simp add: kmem_inv_def uvm_machine_def boot_machine_def cpu_ok_def initlock_def)
qed

lemma uvm_machine_inv:
  assumes "r \<in> {0x87ff7000, 0x87ff8000}"
  shows "uvm_inv uvm_machine free_pages r {}" "pte_val (mem uvm_machine) r va = 0"
    "owned (mem uvm_machine) r {} = {r}"
proof -
  have ok: "page_ok uvm_machine r" using assms
    by (auto simp: uvm_machine_def boot_machine_def page_ok_def pg_aligned_def layout_defs)
  have nf: "r \<notin> set free_pages" using assms by (auto simp: free_pages_def)
  have "\<forall>p \<in> set free_pages. pg_aligned p" using uvm_machine_kmem by (auto simp: kmem_inv_def page_ok_def)
  then have z: "mem uvm_machine x = 0" if "PGROUNDDOWN x = r" for x
    using that nf by (simp add: uvm_machine_def link_mem_other)
  note e = empty_table [OF uvm_machine_kmem ok nf z]
  show "uvm_inv uvm_machine free_pages r {}" using e(1) by (simp add: uvm_inv_def)
  show "pte_val (mem uvm_machine) r va = 0" by (rule e(3))
  show "owned (mem uvm_machine) r {} = {r}" using e(2) by (simp add: owned_def)
qed

text \<open>The same machine with one page of user memory in the first table.\<close>

lemma one_user_page:
  "\<exists>(s :: machine) fl. uvm_inv s fl 0x87ff7000 {0} \<and> uvm_inv s fl 0x87ff8000 {} \<and>
     owned (mem s) 0x87ff8000 {} \<inter> owned (mem s) 0x87ff7000 {0} = {} \<and>
     (\<forall>j. \<not> pte_valid (upte (mem s) 0x87ff8000 j)) \<and>
     (\<forall>va < MAXVA. pte_valid (pte_val (mem s) 0x87ff7000 va) \<longrightarrow> unat va < 4096) \<and>
     upte (mem s) 0x87ff7000 0 AND PTE_U \<noteq> 0"
proof -
  define q fl where "q = (0x87ff9000 :: uint64)" and "fl = tl free_pages"
  have split: "free_pages = q # fl" by (simp add: free_pages_def q_def fl_def)
  let ?r = "0x87ff7000 :: uint64" and ?r2 = "0x87ff8000 :: uint64" and ?perm = "PTE_W OR PTE_R OR PTE_X OR PTE_U"
  have mem: "?r \<in> {0x87ff7000, 0x87ff8000}" "?r2 \<in> {0x87ff7000, 0x87ff8000}" by simp_all
  note inv = uvm_machine_inv [OF mem(1)] and inv2 = uvm_machine_inv [OF mem(2)]
  obtain s1 where s1: "kmem_inv s1 fl" "page_ok s1 = page_ok uvm_machine" "machine_rest s1 = machine_rest uvm_machine"
      "\<forall>x. PGROUNDDOWN x \<noteq> q \<longrightarrow> mem s1 x = mem uvm_machine x"
    using kmem.alloc_some [OF uvm_machine_kmem [unfolded split]] by blast
  have "unat ?perm < 1024 \<and> ?perm OR PTE_V \<noteq> PTE_V" by (simp add: PTE_W_def PTE_R_def PTE_X_def PTE_U_def PTE_V_def)
  then have perm: "user_perm ?perm" by (simp add: user_perm_def)
  have nv: "\<not> pte_valid (upte (mem uvm_machine) ?r 0)" by (simp add: upte_def inv(2) pte_valid_def)
  obtain s fl' where s: "uvm_step ?r uvm_machine (q # fl) {} s fl' (insert 0 {})"
      "\<forall>va < MAXVA. pte_val (mem s) ?r va = (if PGROUNDDOWN va = uva 0 then PA2PTE q OR ?perm OR PTE_V else pte_val (mem uvm_machine) ?r va)"
    using map_fresh [OF inv(1) [unfolded split] s1 _ _ nv perm] by (auto simp: NVPAGES_def fl_def free_pages_def)
  have "owned (mem uvm_machine) ?r {} \<inter> owned (mem uvm_machine) ?r2 {} = {}" by (simp add: inv(3) inv2(3))
  note oth = uvm_step_other [OF s(1) inv2(1) [unfolded split] this]
  have "upte (mem s) ?r 0 = PA2PTE q OR ?perm OR PTE_V" using s(2) uva_less(1) [of 0] by (simp add: upte_def NVPAGES_def)
  moreover have "bit PTE_U 4" by (simp add: PTE_U_def)
  ultimately have "upte (mem s) ?r 0 AND PTE_U \<noteq> 0" by (simp add: PTE_bits bit_or_iff)
  moreover have "unat va < 4096" if "va < MAXVA" "pte_valid (pte_val (mem s) ?r va)" for va
    using that s(2) inv(2) page_iff [OF uva_aligned, of va 0] by (auto simp: pte_valid_def split: if_splits)
  moreover have "\<not> pte_valid (upte (mem s) ?r2 j)" for j using oth(4) inv2(2) by (simp add: upte_def pte_valid_def)
  moreover have "owned (mem s) ?r2 {} \<inter> owned (mem s) ?r {0} = {}" using oth(2) by blast
  ultimately show ?thesis using uvm_stepD(1) [OF s(1)] oth(1)
    by (intro exI [of _ s] exI [of _ fl'] conjI) simp_all
qed

section \<open>Properties\<close>

text \<open>
  C20: \<^verbatim>\<open>uvmalloc\<close> grows user memory or takes no user page. Growing from \<open>oldsz\<close> to \<open>newsz\<close>
  bytes either returns \<open>newsz\<close> with every page in between mapped, zeroed and owned, or returns 0
  with exactly the pages owned before, no valid entry left anywhere in the range
  (\<open>unmapped\<close>), and every page that was free free again, except those that \<^verbatim>\<open>walk\<close> made into
  page-table pages: they stay in the table. In both cases (\<open>uvm_step\<close>) the contents and entries
  of the pages owned before are unchanged, no page is lost or shared (the free and the owned
  pages together are the same), nothing else of memory or state changes, and entries outside
  the range keep their value.
\<close>

theorem uvmalloc_all_or_nothing:
  assumes "uvm_inv s fl r K" and "oldsz \<le> newsz" and "unat newsz \<le> 4096 * NVPAGES" and "K \<inter> {pages oldsz..<pages newsz} = {}"
    and "\<forall>j. pages oldsz \<le> j \<longrightarrow> j < pages newsz \<longrightarrow> \<not> pte_valid (upte (mem s) r j)" and "unat xperm < 1024"
  shows "\<exists>s' fl'.
     (uvmalloc r oldsz newsz xperm s = Ok (newsz, s') \<and> uvm_step r s fl K s' fl' (K \<union> {pages oldsz..<pages newsz}) \<and>
        (\<forall>k \<in> {pages oldsz..<pages newsz}. fresh_page (mem s') r (PTE_R OR PTE_U OR xperm) k) \<or>
      uvmalloc r oldsz newsz xperm s = Ok (0, s') \<and> uvm_step r s fl K s' fl' K \<and> unmapped (mem s') r (pages oldsz) (pages newsz) \<and>
        set fl' = set fl - (tables (mem s') r - tables (mem s) r)) \<and>
     (\<forall>va < MAXVA. unat va < 4096 * pages oldsz \<or> 4096 * pages newsz \<le> unat va \<longrightarrow> pte_val (mem s') r va = pte_val (mem s) r va)"
  using uvmalloc_spec [OF assms] uvm_step_same [OF assms(1)] by blast

theorem uvmalloc_all_or_nothing_witness:
  "\<exists>s' fl' n. uvmalloc 0x87ff7000 0 0x1800 PTE_W uvm_machine = Ok (n, s') \<and> uvm_inv s' fl' 0x87ff7000 (if n = 0 then {} else {0, 1})"
proof -
  have p: "pages 0 = 0" "pages 0x1800 = 2" by (simp_all add: pages_def)
  have "unat (0x1800 :: uint64) \<le> 4096 * NVPAGES" "unat PTE_W < 1024" by (simp_all add: NVPAGES_def PTE_W_def)
  moreover have "\<forall>j. pages 0 \<le> j \<longrightarrow> j < pages 0x1800 \<longrightarrow> \<not> pte_valid (upte (mem uvm_machine) 0x87ff7000 j)"
    by (simp add: upte_def uvm_machine_inv(2) pte_valid_def)
  moreover have "{0..<2 :: nat} = {0, 1}" by auto
  ultimately show ?thesis
    using uvmalloc_all_or_nothing [OF uvm_machine_inv(1), of "0x87ff7000" 0 "0x1800" PTE_W] unfolding p
    by (fastforce dest: uvm_stepD(1))
qed

text \<open>
  C21: \<^verbatim>\<open>uvmcopy\<close> copies a process image or leaves the child none of it. Copying the first \<open>sz\<close>
  bytes of a parent into a child whose table maps none of them returns 0 with every page of
  the child a copy of the parent's, permissions included, or returns -1 with no user page in
  the child, no valid entry of the child's table in the range, and every page that was free
  free again, except those that \<^verbatim>\<open>walk\<close> made into table pages of the child, which the child
  keeps until its table is freed. The entries of the child outside the range, the parent's table and
  the parent's pages are the same as before, parent and child share no page, and no page is
  lost.
\<close>

theorem uvmcopy_all_or_nothing:
  assumes "uvm_inv s fl old Ko" and "uvm_inv s fl new {}" and "owned (mem s) new {} \<inter> owned (mem s) old Ko = {}"
    and "{0..<pages sz} \<subseteq> Ko" and "\<forall>j < pages sz. \<not> pte_valid (upte (mem s) new j)"
  shows "\<exists>s' fl' K. uvm_step new s fl {} s' fl' K \<and>
     (uvmcopy old new sz s = Ok (0, s') \<and> K = {0..<pages sz} \<and> (\<forall>k < pages sz. copied (mem s) old (mem s') new k) \<or>
      uvmcopy old new sz s = Ok (-1, s') \<and> K = {} \<and> unmapped (mem s') new 0 (pages sz) \<and>
        set fl' = set fl - (tables (mem s') new - tables (mem s) new)) \<and>
     (\<forall>va < MAXVA. 4096 * pages sz \<le> unat va \<longrightarrow> pte_val (mem s') new va = pte_val (mem s) new va) \<and>
     uvm_inv s' fl' old Ko \<and> owned (mem s') new K \<inter> owned (mem s') old Ko = {} \<and>
     (\<forall>k. upte (mem s') old k = upte (mem s) old k) \<and> (\<forall>x. PGROUNDDOWN x \<in> owned (mem s) old Ko \<longrightarrow> mem s' x = mem s x)"
proof -
  have "uvmcopy_post old new (pages sz) 0 s fl (uvmcopy_loop old new (uva 0) sz s)"
    by (rule uvmcopy_loop_spec [OF assms(1)]) (use assms in auto)
  then obtain s' fl' K where *: "uvm_step new s fl {} s' fl' K"
     "uvmcopy old new sz s = Ok (0, s') \<and> K = {0..<pages sz} \<and> (\<forall>k < pages sz. copied (mem s) old (mem s') new k) \<or>
      uvmcopy old new sz s = Ok (-1, s') \<and> K = {} \<and> unmapped (mem s') new 0 (pages sz) \<and>
        set fl' = set fl - (tables (mem s') new - tables (mem s) new)"
     "\<forall>va < MAXVA. 4096 * pages sz \<le> unat va \<longrightarrow> pte_val (mem s') new va = pte_val (mem s) new va"
    unfolding uvmcopy_post_def uvmcopy_def using uvm_step_same [OF assms(2)] by auto
  note oth = uvm_step_other [OF *(1) assms(1,3)]
  show ?thesis using * oth by blast
qed

theorem uvmcopy_all_or_nothing_witness:
  "\<exists>(s :: machine) fl s' fl' K e. uvm_inv s fl 0x87ff7000 {0} \<and> uvmcopy 0x87ff7000 0x87ff8000 0x400 s = Ok (e, s') \<and>
     uvm_inv s' fl' 0x87ff8000 K \<and> uvm_inv s' fl' 0x87ff7000 {0}"
proof -
  obtain s :: machine and fl where s: "uvm_inv s fl 0x87ff7000 {0}" "uvm_inv s fl 0x87ff8000 {}"
      "owned (mem s) 0x87ff8000 {} \<inter> owned (mem s) 0x87ff7000 {0} = {}" "\<forall>j. \<not> pte_valid (upte (mem s) 0x87ff8000 j)"
    using one_user_page by blast
  have "{0..<pages 0x400} \<subseteq> {0}" by (simp add: pages_def)
  from uvmcopy_all_or_nothing [OF s(1-3) this] s(4) obtain s' fl' K e where
    "uvmcopy 0x87ff7000 0x87ff8000 0x400 s = Ok (e, s')" "uvm_step 0x87ff8000 s fl {} s' fl' K" "uvm_inv s' fl' 0x87ff7000 {0}"
    by auto
  with s(1) uvm_stepD(1) show ?thesis by blast
qed

text \<open>
  C22: \<^verbatim>\<open>copyout\<close> and \<^verbatim>\<open>copyin\<close> move bytes between the kernel and user memory across page
  boundaries. On a range of owned pages that user mode may access, \<^verbatim>\<open>copyout\<close> succeeds, writes
  exactly the bytes of the range at the physical addresses of the pages, leaves the tables
  alone, and \<^verbatim>\<open>copyin\<close> of the range then returns the same bytes.
\<close>

theorem copyout_copyin:
  assumes "uvm_inv s fl r K" and "readable (mem s) r K (unat va) (length src)" and "unat va + length src \<le> 4096 * NVPAGES"
  shows "\<exists>m'. copyout r va src s = Ok (0, s\<lparr>mem := m'\<rparr>) \<and> written (mem s) r (unat va) src m' \<and>
    (\<forall>v. pte_val m' r v = pte_val (mem s) r v) \<and> uvm_inv (s\<lparr>mem := m'\<rparr>) fl r K \<and>
    copyin r va (length src) (s\<lparr>mem := m'\<rparr>) = Ok (0, src)"
proof -
  obtain m' where m': "copyout r va src s = Ok (0, s\<lparr>mem := m'\<rparr>)" "written (mem s) r (unat va) src m'"
      "uvm_inv (s\<lparr>mem := m'\<rparr>) fl r K" "\<forall>v. pte_val m' r v = pte_val (mem s) r v"
    using copyout_spec [OF assms] by blast
  have "upaddr m' r a = upaddr (mem s) r a" for a using m'(4) by (simp add: upaddr_def upa_def upte_def)
  then have "ubytes m' r (unat va) (length src) = src"
    using m'(2) by (intro nth_equalityI) (simp_all add: ubytes_def written_def)
  moreover have "readable m' r K (unat va) (length src)" using assms(2) m'(4) by (simp add: readable_def upte_def)
  ultimately have "copyin r va (length src) (s\<lparr>mem := m'\<rparr>) = Ok (0, src)"
    using copyin_spec [OF m'(3), of va "length src"] assms(3) by simp
  with m' show ?thesis by blast
qed

theorem copyout_copyin_witness:
  "\<exists>(s :: machine) fl m'. uvm_inv s fl 0x87ff7000 {0} \<and> copyout 0x87ff7000 0x10 [1, 2, 3] s = Ok (0, s\<lparr>mem := m'\<rparr>) \<and>
     copyin 0x87ff7000 0x10 3 (s\<lparr>mem := m'\<rparr>) = Ok (0, [1, 2, 3])"
proof -
  obtain s :: machine and fl where s: "uvm_inv s fl 0x87ff7000 {0}" "upte (mem s) 0x87ff7000 0 AND PTE_U \<noteq> 0"
    using one_user_page by blast
  have "readable (mem s) 0x87ff7000 {0} (unat (0x10 :: uint64)) (length [1 :: uchar, 2, 3])"
    using s(2) by (simp add: readable_def)
  from copyout_copyin [OF s(1) this] have "\<exists>m'. copyout 0x87ff7000 0x10 [1, 2, 3] s = Ok (0, s\<lparr>mem := m'\<rparr>) \<and>
      copyin 0x87ff7000 0x10 3 (s\<lparr>mem := m'\<rparr>) = Ok (0, [1, 2, 3])"
    by (auto simp: NVPAGES_def numeral_3_eq_3)
  with s(1) show ?thesis by blast
qed

text \<open>
  C23: \<^verbatim>\<open>uvmfree\<close> gives everything back. When the first \<open>sz\<close> bytes are all that a table maps, it
  does not panic, and every user page and every page of the three levels of tables is on the
  free list afterwards, in addition to the pages that were free; no other memory changes.
\<close>

theorem uvmfree_returns_all:
  assumes "uvm_inv s fl r {0..<pages sz}" and "unat sz \<le> 4096 * NVPAGES"
    and "\<forall>va < MAXVA. pte_valid (pte_val (mem s) r va) \<longrightarrow> unat va < 4096 * pages sz"
  shows "\<exists>s' fl'. uvmfree r sz s = Ok s' \<and> kmem_inv s' fl' \<and> distinct fl' \<and>
    set fl' = set fl \<union> tables (mem s) r \<union> upa (mem s) r ` {0..<pages sz} \<and>
    (\<forall>x. PGROUNDDOWN x \<notin> set fl' \<longrightarrow> mem s' x = mem s x)"
proof -
  obtain s' fl' where *: "uvmfree r sz s = Ok s'" "freed s fl (owned (mem s) r {0..<pages sz}) s' fl' (set fl)"
    using uvmfree_spec [OF assms(1,2)] assms(3) by blast
  then have "distinct fl'" by (simp add: freed_def kmem_inv_def)
  with * show ?thesis by (auto simp: freed_def owned_def)
qed

theorem uvmfree_returns_all_witness:
  "\<exists>(s :: machine) fl s' fl'. uvm_inv s fl 0x87ff7000 {0} \<and> uvmfree 0x87ff7000 0x400 s = Ok s' \<and> kmem_inv s' fl' \<and> 0x87ff7000 \<in> set fl'"
proof -
  obtain s :: machine and fl where s: "uvm_inv s fl 0x87ff7000 {0}" "\<forall>va < MAXVA. pte_valid (pte_val (mem s) 0x87ff7000 va) \<longrightarrow> unat va < 4096"
    using one_user_page by blast
  have p: "pages 0x400 = 1" "{0..<1 :: nat} = {0}" by (auto simp: pages_def)
  have "0x87ff7000 \<in> tables (mem s) 0x87ff7000" by (rule tablesI [of "[]"]) simp_all
  moreover have "\<exists>s' fl'. uvmfree 0x87ff7000 0x400 s = Ok s' \<and> kmem_inv s' fl' \<and> tables (mem s) 0x87ff7000 \<subseteq> set fl'"
    using uvmfree_returns_all [of s fl "0x87ff7000" "0x400"] s unfolding p by (auto simp: NVPAGES_def)
  ultimately show ?thesis using s(1) by blast
qed

text \<open>
  C24: \<^verbatim>\<open>uvmdealloc\<close> shrinks user memory page by page: the pages between the new and the old size go
  back to the free list, their entries are cleared, the others are untouched; the result is the
  new size, or the old one when the new one is not smaller.
\<close>

theorem uvmdealloc_shrinks:
  assumes "uvm_inv s fl r K" and "unat oldsz \<le> 4096 * NVPAGES" and "{pages newsz..<pages oldsz} \<subseteq> K"
  shows "\<exists>s'. uvmdealloc r oldsz newsz s = Ok (if newsz \<ge> oldsz then oldsz else newsz, s') \<and>
    uvm_step r s fl K s' (rev (map (upa (mem s) r) [pages newsz..<pages oldsz]) @ fl) (K - {pages newsz..<pages oldsz}) \<and>
    (\<forall>va < MAXVA. pte_val (mem s') r va =
      (if 4096 * pages newsz \<le> unat va \<and> unat va < 4096 * pages oldsz then 0 else pte_val (mem s) r va))"
  by (rule uvmdealloc_pages [OF assms])

theorem uvmdealloc_shrinks_witness:
  "\<exists>(s :: machine) fl s'. uvm_inv s fl 0x87ff7000 {0} \<and> uvmdealloc 0x87ff7000 0x1000 0 s = Ok (0, s') \<and>
     uvm_inv s' (upa (mem s) 0x87ff7000 0 # fl) 0x87ff7000 {}"
proof -
  obtain s :: machine and fl where s: "uvm_inv s fl 0x87ff7000 {0}" using one_user_page by blast
  have p: "pages 0 = 0" "pages 0x1000 = 1" "{0..<1 :: nat} = {0}" by (auto simp: pages_def)
  have "\<exists>s'. uvmdealloc 0x87ff7000 0x1000 0 s = Ok (0, s') \<and> uvm_inv s' (upa (mem s) 0x87ff7000 0 # fl) 0x87ff7000 {}"
    using uvmdealloc_shrinks [OF s, of "0x1000" 0] unfolding p by (auto simp: NVPAGES_def dest!: uvm_stepD(1))
  with s show ?thesis by blast
qed

end
