(* ===== verification/Proc.thy ===== *)
theory Proc
  imports Uvmfree
begin

text \<open>
  \<^verbatim>\<open>kernel/proc.c\<close>: the process table. A process is a slot number below \<^verbatim>\<open>NPROC\<close>; pointers to
  processes, open files and inodes are optional numbers. The page of a process's
  \<^verbatim>\<open>struct trapframe\<close> and of its \<^verbatim>\<open>struct usyscall\<close> are in the machine's memory, at the
  offsets of their C declarations.

  \<^verbatim>\<open>swtch\<close> saves and loads registers; a function that calls it is modelled in two parts, what
  runs before the switch and what runs after the process has been switched to again. The
  addresses of kernel symbols are the parameter \<open>ksyms\<close>. The calls into the file system and
  the file table are parameters of the functions that make them.
\<close>

section \<open>State\<close>

datatype procstate = UNUSED | USED | SLEEPING | RUNNABLE | RUNNING | ZOMBIE

record proc =
  plock :: spinlock
  state :: procstate
  chan :: "chan option"
  pkilled :: bool
  xstate :: uint32
  pid :: uint32
  parent :: "nat option"
  kstack :: uint64
  psz :: uint64
  pagetable :: uint64
  trapframe :: uint64
  usyscall :: uint64
  pcontext :: "uint64 list"
  ofile :: "nat \<Rightarrow> nat option"
  cwd :: "nat option"
  pname :: "uchar list"

record ptab = machine +
  ptable :: "nat \<Rightarrow> proc"
  initproc :: "nat option"
  nextpid :: uint32
  pid_lock :: spinlock
  wait_lock :: spinlock

record ksyms =
  sym_trampoline :: uint64
  sym_forkret :: uint64

text \<open>Offsets in \<^verbatim>\<open>struct trapframe\<close>, which has 36 fields of 8 bytes, and in \<^verbatim>\<open>struct usyscall\<close>.\<close>

definition TF_epc :: uint64 where "TF_epc = 24"
definition TF_sp :: uint64 where "TF_sp = 48"
definition TF_a0 :: uint64 where "TF_a0 = 112"
definition TF_a1 :: uint64 where "TF_a1 = 120"
definition TF_a7 :: uint64 where "TF_a7 = 168"
definition TF_size :: uint32 where "TF_size = 288"

definition upd_proc :: "nat \<Rightarrow> (proc \<Rightarrow> proc) \<Rightarrow> 'a ptab_scheme \<Rightarrow> 'a ptab_scheme" where
  "upd_proc p f s = s\<lparr>ptable := (ptable s)(p := f (ptable s p))\<rparr>"

section \<open>Locks of the process table\<close>

definition plock_acquire :: "nat \<Rightarrow> 'a ptab_scheme \<Rightarrow> 'a ptab_scheme res" where
  "plock_acquire p s = rbind (acquire (plock (ptable s p)) (mycpu s)) (\<lambda>(lk, c).
     Ok ((upd_proc p (plock_update (\<lambda>_. lk)) s)\<lparr>mycpu := c\<rparr>))"

definition plock_release :: "nat \<Rightarrow> 'a ptab_scheme \<Rightarrow> 'a ptab_scheme res" where
  "plock_release p s = rbind (release (plock (ptable s p)) (mycpu s)) (\<lambda>(lk, c).
     Ok ((upd_proc p (plock_update (\<lambda>_. lk)) s)\<lparr>mycpu := c\<rparr>))"

definition wait_acquire :: "'a ptab_scheme \<Rightarrow> 'a ptab_scheme res" where
  "wait_acquire s = rbind (acquire (wait_lock s) (mycpu s)) (\<lambda>(lk, c). Ok (s\<lparr>wait_lock := lk, mycpu := c\<rparr>))"

definition wait_release :: "'a ptab_scheme \<Rightarrow> 'a ptab_scheme res" where
  "wait_release s = rbind (release (wait_lock s) (mycpu s)) (\<lambda>(lk, c). Ok (s\<lparr>wait_lock := lk, mycpu := c\<rparr>))"

section \<open>Initialisation, the current process, process numbers\<close>

definition procinit :: "'a ptab_scheme \<Rightarrow> 'a ptab_scheme" where
  "procinit s = s\<lparr>pid_lock := initlock, wait_lock := initlock,
     ptable := (\<lambda>p. if p < NPROC then (ptable s p)\<lparr>plock := initlock, state := UNUSED, kstack := KSTACK p\<rparr> else ptable s p)\<rparr>"

definition cpuid :: "'a machine_scheme \<Rightarrow> nat" where
  "cpuid s = cpu_id (mycpu s)"

definition myproc :: "'a machine_scheme \<Rightarrow> (nat option \<times> 'a machine_scheme) res" where
  "myproc s =
     (let c = push_off (mycpu s); p = cpu_proc c
      in rbind (pop_off c) (\<lambda>c. Ok (p, s\<lparr>mycpu := c\<rparr>)))"

text \<open>
  Where the code uses the result of \<^verbatim>\<open>myproc\<close> as a pointer; without a current process that is
  an access at address 0, which the kernel page table does not map, so that the hart traps
  into \<^verbatim>\<open>kerneltrap\<close> and panics there.
\<close>

definition current :: "'a machine_scheme \<Rightarrow> (nat \<Rightarrow> 'a machine_scheme \<Rightarrow> 'b res) \<Rightarrow> 'b res" where
  "current s f = rbind (myproc s) (\<lambda>(p, s). case p of None \<Rightarrow> Panic ''kerneltrap'' | Some p \<Rightarrow> f p s)"

definition allocpid :: "'a ptab_scheme \<Rightarrow> (uint32 \<times> 'a ptab_scheme) res" where
  "allocpid s =
     rbind (acquire (pid_lock s) (mycpu s)) (\<lambda>(lk, c).
     let s = s\<lparr>pid_lock := lk, mycpu := c\<rparr>;
         n = nextpid s;
         s = s\<lparr>nextpid := nextpid s + 1\<rparr>
     in rbind (release (pid_lock s) (mycpu s)) (\<lambda>(lk, c).
        Ok (n, s\<lparr>pid_lock := lk, mycpu := c\<rparr>)))"

section \<open>Page tables of processes\<close>

definition proc_pagetable :: "ksyms \<Rightarrow> proc \<Rightarrow> 'a machine_scheme \<Rightarrow> (uint64 \<times> 'a machine_scheme) res" where
  "proc_pagetable K p s =
     rbind (uvmcreate s) (\<lambda>(pt, s).
     if pt = 0 then Ok (0, s) else
     rbind (mappages pt TRAMPOLINE PGSIZE (sym_trampoline K) (PTE_R OR PTE_X) s) (\<lambda>(r, s).
     if r < 0 then rbind (uvmfree pt 0 s) (\<lambda>s. Ok (0, s)) else
     rbind (mappages pt TRAPFRAME PGSIZE (trapframe p) (PTE_R OR PTE_W) s) (\<lambda>(r, s).
     if r < 0 then
       rbind (uvmunmap pt TRAMPOLINE 1 False s) (\<lambda>s.
       rbind (uvmfree pt 0 s) (\<lambda>s. Ok (0, s))) else
     rbind (mappages pt USYSCALL PGSIZE (usyscall p) (PTE_R OR PTE_U) s) (\<lambda>(r, s).
     if r < 0 then
       rbind (uvmunmap pt TRAMPOLINE 1 False s) (\<lambda>s.
       rbind (uvmunmap pt TRAPFRAME 1 False s) (\<lambda>s.
       rbind (uvmfree pt 0 s) (\<lambda>s. Ok (0, s))))
     else Ok (pt, s)))))"

definition proc_freepagetable :: "uint64 \<Rightarrow> uint64 \<Rightarrow> 'a machine_scheme \<Rightarrow> 'a machine_scheme res" where
  "proc_freepagetable pt sz s =
     rbind (uvmunmap pt TRAMPOLINE 1 False s) (\<lambda>s.
     rbind (uvmunmap pt TRAPFRAME 1 False s) (\<lambda>s.
     rbind (uvmunmap pt USYSCALL 1 False s) (\<lambda>s.
     uvmfree pt sz s)))"

section \<open>Allocating and freeing slots\<close>

definition freeproc :: "nat \<Rightarrow> 'a ptab_scheme \<Rightarrow> 'a ptab_scheme res" where
  "freeproc p s =
     rbind (if trapframe (ptable s p) \<noteq> 0 then kfree (trapframe (ptable s p)) s else Ok s) (\<lambda>s.
     let s = upd_proc p (trapframe_update (\<lambda>_. 0)) s in
     rbind (if usyscall (ptable s p) \<noteq> 0 then kfree (usyscall (ptable s p)) s else Ok s) (\<lambda>s.
     let s = upd_proc p (usyscall_update (\<lambda>_. 0)) s in
     rbind (if pagetable (ptable s p) \<noteq> 0 then proc_freepagetable (pagetable (ptable s p)) (psz (ptable s p)) s else Ok s) (\<lambda>s.
     Ok (upd_proc p (\<lambda>q. q\<lparr>pagetable := 0, psz := 0, pid := 0, parent := None, pname := (pname q)[0 := 0],
       chan := None, pkilled := False, xstate := 0, state := UNUSED\<rparr>) s))))"

definition allocproc_fail :: "nat \<Rightarrow> 'a ptab_scheme \<Rightarrow> (nat option \<times> 'a ptab_scheme) res" where
  "allocproc_fail p s = rbind (freeproc p s) (\<lambda>s. rbind (plock_release p s) (\<lambda>s. Ok (None, s)))"

definition allocproc_found :: "ksyms \<Rightarrow> nat \<Rightarrow> 'a ptab_scheme \<Rightarrow> (nat option \<times> 'a ptab_scheme) res" where
  "allocproc_found K p s =
     rbind (allocpid s) (\<lambda>(n, s).
     let s = upd_proc p (\<lambda>q. q\<lparr>pid := n, state := USED\<rparr>) s in
     rbind (kalloc s) (\<lambda>(tf, s).
     let s = upd_proc p (trapframe_update (\<lambda>_. tf)) s in
     if tf = 0 then allocproc_fail p s else
     rbind (kalloc s) (\<lambda>(us, s).
     let s = upd_proc p (usyscall_update (\<lambda>_. us)) s in
     if us = 0 then allocproc_fail p s else
     let s = s\<lparr>mem := store32 (mem s) us (pid (ptable s p))\<rparr> in
     rbind (proc_pagetable K (ptable s p) s) (\<lambda>(pt, s).
     let s = upd_proc p (pagetable_update (\<lambda>_. pt)) s in
     if pt = 0 then allocproc_fail p s else
     Ok (Some p, upd_proc p (\<lambda>q. q\<lparr>pcontext := (replicate 14 0)[0 := sym_forkret K, 1 := kstack q + PGSIZE]\<rparr>) s)))))"

function allocproc_loop :: "ksyms \<Rightarrow> nat \<Rightarrow> 'a ptab_scheme \<Rightarrow> (nat option \<times> 'a ptab_scheme) res" where
  "allocproc_loop K p s =
     (if p < NPROC then
        rbind (plock_acquire p s) (\<lambda>s.
        if state (ptable s p) = UNUSED then allocproc_found K p s
        else rbind (plock_release p s) (\<lambda>s. allocproc_loop K (Suc p) s))
      else Ok (None, s))"
  by pat_completeness auto
termination
  by (relation "measure (\<lambda>(K, p, s). NPROC - p)") auto

declare allocproc_loop.simps [simp del]

definition allocproc :: "ksyms \<Rightarrow> 'a ptab_scheme \<Rightarrow> (nat option \<times> 'a ptab_scheme) res" where
  "allocproc K s = allocproc_loop K 0 s"

section \<open>The first process, sbrk, fork\<close>

definition initcode :: "uchar list" where
  "initcode =
    [0x17, 0x05, 0x00, 0x00, 0x13, 0x05, 0x45, 0x02,
     0x97, 0x05, 0x00, 0x00, 0x93, 0x85, 0x35, 0x02,
     0x93, 0x08, 0x70, 0x00, 0x73, 0x00, 0x00, 0x00,
     0x93, 0x08, 0x20, 0x00, 0x73, 0x00, 0x00, 0x00,
     0xef, 0xf0, 0x9f, 0xff, 0x2f, 0x69, 0x6e, 0x69,
     0x74, 0x00, 0x00, 0x24, 0x00, 0x00, 0x00, 0x00,
     0x00, 0x00, 0x00, 0x00]"

text \<open>A C string constant as a character pointer, and storing a copied string into a buffer.\<close>

definition lit :: "string \<Rightarrow> cptr" where
  "lit t i = (if i < length t then of_char (t ! i) else 0)"

definition bufptr :: "uchar list \<Rightarrow> cptr" where
  "bufptr bs i = (if i < length bs then bs ! i else 0)"

definition overwrite :: "uchar list \<Rightarrow> uchar list \<Rightarrow> uchar list" where
  "overwrite new old = new @ drop (length new) old"

definition userinit :: "ksyms \<Rightarrow> (string \<Rightarrow> 'a ptab_scheme \<Rightarrow> (nat option \<times> 'a ptab_scheme) res)
    \<Rightarrow> 'a ptab_scheme \<Rightarrow> 'a ptab_scheme res" where
  "userinit K namei s =
     rbind (allocproc K s) (\<lambda>(p, s).
     let s = s\<lparr>initproc := p\<rparr> in
     case p of None \<Rightarrow> Panic ''kerneltrap'' | Some p \<Rightarrow>
     rbind (uvmfirst (pagetable (ptable s p)) initcode (word_of_nat (length initcode)) s) (\<lambda>s.
     let s = upd_proc p (psz_update (\<lambda>_. PGSIZE)) s;
         s = s\<lparr>mem := store64 (mem s) (trapframe (ptable s p) + TF_epc) 0\<rparr>;
         s = s\<lparr>mem := store64 (mem s) (trapframe (ptable s p) + TF_sp) PGSIZE\<rparr>;
         s = upd_proc p (\<lambda>q. q\<lparr>pname := overwrite (safestrcpy (lit ''initcode'') 16) (pname q)\<rparr>) s
     in rbind (namei ''/'' s) (\<lambda>(ip, s).
     let s = upd_proc p (cwd_update (\<lambda>_. ip)) s;
         s = upd_proc p (state_update (\<lambda>_. RUNNABLE)) s
     in plock_release p s)))"

definition growproc :: "uint32 \<Rightarrow> 'a ptab_scheme \<Rightarrow> (int \<times> 'a ptab_scheme) res" where
  "growproc n s =
     current s (\<lambda>p s.
     let sz = psz (ptable s p) in
     if sint n > 0 then
       rbind (uvmalloc (pagetable (ptable s p)) sz (sz + scast n) PTE_W s) (\<lambda>(sz, s).
       if sz = 0 then Ok (-1, s) else Ok (0, upd_proc p (psz_update (\<lambda>_. sz)) s))
     else if sint n < 0 then
       rbind (uvmdealloc (pagetable (ptable s p)) sz (sz + scast n) s) (\<lambda>(sz, s).
       Ok (0, upd_proc p (psz_update (\<lambda>_. sz)) s))
     else Ok (0, upd_proc p (psz_update (\<lambda>_. sz)) s))"

function fork_files :: "(nat \<Rightarrow> 'a ptab_scheme \<Rightarrow> (nat \<times> 'a ptab_scheme) res) \<Rightarrow> nat \<Rightarrow> nat \<Rightarrow> nat
    \<Rightarrow> 'a ptab_scheme \<Rightarrow> 'a ptab_scheme res" where
  "fork_files filedup p np i s =
     (if i < NOFILE then
        rbind (case ofile (ptable s p) i of
                 None \<Rightarrow> Ok s
               | Some f \<Rightarrow> rbind (filedup f s) (\<lambda>(f, s). Ok (upd_proc np (\<lambda>q. q\<lparr>ofile := (ofile q)(i := Some f)\<rparr>) s)))
          (\<lambda>s. fork_files filedup p np (Suc i) s)
      else Ok s)"
  by pat_completeness auto
termination
  by (relation "measure (\<lambda>(_, _, _, i, _). NOFILE - i)") auto

declare fork_files.simps [simp del]

definition fork :: "ksyms \<Rightarrow> (nat \<Rightarrow> 'a ptab_scheme \<Rightarrow> (nat \<times> 'a ptab_scheme) res)
    \<Rightarrow> (nat option \<Rightarrow> 'a ptab_scheme \<Rightarrow> (nat option \<times> 'a ptab_scheme) res)
    \<Rightarrow> 'a ptab_scheme \<Rightarrow> (uint32 \<times> 'a ptab_scheme) res" where
  "fork K filedup idup s =
     current s (\<lambda>p s.
     rbind (allocproc K s) (\<lambda>(np, s).
     case np of None \<Rightarrow> Ok (-1, s) | Some np \<Rightarrow>
     rbind (uvmcopy (pagetable (ptable s p)) (pagetable (ptable s np)) (psz (ptable s p)) s) (\<lambda>(r, s).
     if r < 0 then
       rbind (freeproc np s) (\<lambda>s. rbind (plock_release np s) (\<lambda>s. Ok (-1, s)))
     else
     let s = upd_proc np (psz_update (\<lambda>_. psz (ptable s p))) s;
         s = s\<lparr>mem := memmove (mem s) (trapframe (ptable s np)) (trapframe (ptable s p)) TF_size\<rparr>;
         s = s\<lparr>mem := store64 (mem s) (trapframe (ptable s np) + TF_a0) 0\<rparr>
     in rbind (fork_files filedup p np 0 s) (\<lambda>s.
     rbind (idup (cwd (ptable s p)) s) (\<lambda>(ip, s).
     let s = upd_proc np (cwd_update (\<lambda>_. ip)) s;
         s = upd_proc np (\<lambda>q. q\<lparr>pname := overwrite (safestrcpy (bufptr (pname (ptable s p))) 16) (pname q)\<rparr>) s;
         n = pid (ptable s np)
     in rbind (plock_release np s) (\<lambda>s.
     rbind (wait_acquire s) (\<lambda>s.
     let s = upd_proc np (parent_update (\<lambda>_. Some p)) s in
     rbind (wait_release s) (\<lambda>s.
     rbind (plock_acquire np s) (\<lambda>s.
     let s = upd_proc np (state_update (\<lambda>_. RUNNABLE)) s in
     rbind (plock_release np s) (\<lambda>s. Ok (n, s)))))))))))"

section \<open>Switching to and from the scheduler\<close>

text \<open>
  \<^verbatim>\<open>sched\<close> up to its call of \<^verbatim>\<open>swtch\<close>, with the value of its local variable \<^verbatim>\<open>intena\<close>, and after
  it. The body of the scheduler's loop is split at its \<^verbatim>\<open>swtch\<close> too: \<open>scheduler_pick\<close> says
  whether it switches to the process.
\<close>

definition sched_enter :: "nat \<Rightarrow> 'a ptab_scheme \<Rightarrow> bool res" where
  "sched_enter p s =
     (if \<not> holding (plock (ptable s p)) (mycpu s) then Panic ''sched p->lock''
      else if noff (mycpu s) \<noteq> 1 then Panic ''sched locks''
      else if state (ptable s p) = RUNNING then Panic ''sched running''
      else if intr_get (mycpu s) then Panic ''sched interruptible''
      else Ok (intena (mycpu s)))"

definition sched_leave :: "bool \<Rightarrow> 'a ptab_scheme \<Rightarrow> 'a ptab_scheme" where
  "sched_leave b s = s\<lparr>mycpu := (mycpu s)\<lparr>intena := b\<rparr>\<rparr>"

definition sched :: "'a ptab_scheme \<Rightarrow> (bool \<times> 'a ptab_scheme) res" where
  "sched s = current s (\<lambda>p s. rbind (sched_enter p s) (\<lambda>b. Ok (b, s)))"

definition scheduler_pick :: "nat \<Rightarrow> 'a ptab_scheme \<Rightarrow> (bool \<times> 'a ptab_scheme) res" where
  "scheduler_pick p s =
     rbind (plock_acquire p s) (\<lambda>s.
     if state (ptable s p) = RUNNABLE then
       let s = upd_proc p (state_update (\<lambda>_. RUNNING)) s
       in Ok (True, s\<lparr>mycpu := (mycpu s)\<lparr>cpu_proc := Some p\<rparr>\<rparr>)
     else rbind (plock_release p s) (\<lambda>s. Ok (False, s)))"

definition scheduler_back :: "nat \<Rightarrow> 'a ptab_scheme \<Rightarrow> 'a ptab_scheme res" where
  "scheduler_back p s = plock_release p (s\<lparr>mycpu := (mycpu s)\<lparr>cpu_proc := None\<rparr>\<rparr>)"

definition yield_enter :: "'a ptab_scheme \<Rightarrow> (bool \<times> 'a ptab_scheme) res" where
  "yield_enter s =
     current s (\<lambda>p s.
     rbind (plock_acquire p s) (\<lambda>s.
     sched (upd_proc p (state_update (\<lambda>_. RUNNABLE)) s)))"

definition yield_leave :: "nat \<Rightarrow> bool \<Rightarrow> 'a ptab_scheme \<Rightarrow> 'a ptab_scheme res" where
  "yield_leave p b s = plock_release p (sched_leave b s)"

text \<open>\<^verbatim>\<open>first\<close> is the static variable of \<^verbatim>\<open>forkret\<close>.\<close>

definition forkret :: "bool \<Rightarrow> (nat \<Rightarrow> 'a ptab_scheme \<Rightarrow> 'a ptab_scheme res) \<Rightarrow> ('a ptab_scheme \<Rightarrow> 'a ptab_scheme res)
    \<Rightarrow> 'a ptab_scheme \<Rightarrow> (bool \<times> 'a ptab_scheme) res" where
  "forkret first fsinit usertrapret s =
     current s (\<lambda>p s.
     rbind (plock_release p s) (\<lambda>s.
     rbind (if first then fsinit 1 s else Ok s) (\<lambda>s.
     rbind (usertrapret s) (\<lambda>s. Ok (False, s)))))"

section \<open>Sleep and wakeup\<close>

text \<open>
  The lock argument of \<^verbatim>\<open>sleep\<close> is a field of the state: its release and its acquisition are
  the arguments. \<open>sleep_enter\<close> ends at the switch to the scheduler, \<open>sleep_leave\<close> runs when
  the process is chosen again.
\<close>

definition sleep_enter :: "chan option \<Rightarrow> ('a ptab_scheme \<Rightarrow> 'a ptab_scheme res) \<Rightarrow> 'a ptab_scheme \<Rightarrow> (bool \<times> 'a ptab_scheme) res" where
  "sleep_enter ch release_lk s =
     current s (\<lambda>p s.
     rbind (plock_acquire p s) (\<lambda>s.
     rbind (release_lk s) (\<lambda>s.
     let s = upd_proc p (chan_update (\<lambda>_. ch)) s;
         s = upd_proc p (state_update (\<lambda>_. SLEEPING)) s
     in sched s)))"

definition sleep_leave :: "nat \<Rightarrow> bool \<Rightarrow> ('a ptab_scheme \<Rightarrow> 'a ptab_scheme res) \<Rightarrow> 'a ptab_scheme \<Rightarrow> 'a ptab_scheme res" where
  "sleep_leave p b acquire_lk s =
     (let s = sched_leave b s;
          s = upd_proc p (chan_update (\<lambda>_. None)) s
      in rbind (plock_release p s) acquire_lk)"

function wakeup_loop :: "chan option \<Rightarrow> nat \<Rightarrow> 'a ptab_scheme \<Rightarrow> 'a ptab_scheme res" where
  "wakeup_loop ch p s =
     (if p < NPROC then
        rbind (myproc s) (\<lambda>(me, s).
        if me \<noteq> Some p then
          rbind (plock_acquire p s) (\<lambda>s.
          let s = (if state (ptable s p) = SLEEPING \<and> chan (ptable s p) = ch
                   then upd_proc p (state_update (\<lambda>_. RUNNABLE)) s else s)
          in rbind (plock_release p s) (\<lambda>s. wakeup_loop ch (Suc p) s))
        else wakeup_loop ch (Suc p) s)
      else Ok s)"
  by pat_completeness auto
termination
  by (relation "measure (\<lambda>(ch, p, s). NPROC - p)") auto

declare wakeup_loop.simps [simp del]

definition wakeup :: "chan option \<Rightarrow> 'a ptab_scheme \<Rightarrow> 'a ptab_scheme res" where
  "wakeup ch s = wakeup_loop ch 0 s"

definition proc_chan :: "nat \<Rightarrow> chan" where
  "proc_chan p = Chan ''proc'' p"

section \<open>Kill\<close>

function kill_loop :: "uint32 \<Rightarrow> nat \<Rightarrow> 'a ptab_scheme \<Rightarrow> (int \<times> 'a ptab_scheme) res" where
  "kill_loop n p s =
     (if p < NPROC then
        rbind (plock_acquire p s) (\<lambda>s.
        if pid (ptable s p) = n then
          let s = upd_proc p (pkilled_update (\<lambda>_. True)) s;
              s = (if state (ptable s p) = SLEEPING then upd_proc p (state_update (\<lambda>_. RUNNABLE)) s else s)
          in rbind (plock_release p s) (\<lambda>s. Ok (0, s))
        else rbind (plock_release p s) (\<lambda>s. kill_loop n (Suc p) s))
      else Ok (-1, s))"
  by pat_completeness auto
termination
  by (relation "measure (\<lambda>(n, p, s). NPROC - p)") auto

declare kill_loop.simps [simp del]

definition kill :: "uint32 \<Rightarrow> 'a ptab_scheme \<Rightarrow> (int \<times> 'a ptab_scheme) res" where
  "kill n s = kill_loop n 0 s"

definition setkilled :: "nat \<Rightarrow> 'a ptab_scheme \<Rightarrow> 'a ptab_scheme res" where
  "setkilled p s =
     rbind (plock_acquire p s) (\<lambda>s. plock_release p (upd_proc p (pkilled_update (\<lambda>_. True)) s))"

definition killed :: "nat \<Rightarrow> 'a ptab_scheme \<Rightarrow> (bool \<times> 'a ptab_scheme) res" where
  "killed p s =
     rbind (plock_acquire p s) (\<lambda>s.
     let k = pkilled (ptable s p)
     in rbind (plock_release p s) (\<lambda>s. Ok (k, s)))"

section \<open>Exit and wait\<close>

function reparent_loop :: "nat \<Rightarrow> nat \<Rightarrow> 'a ptab_scheme \<Rightarrow> 'a ptab_scheme res" where
  "reparent_loop p pp s =
     (if pp < NPROC then
        if parent (ptable s pp) = Some p then
          let s = upd_proc pp (parent_update (\<lambda>_. initproc s)) s
          in rbind (wakeup (map_option proc_chan (initproc s)) s) (\<lambda>s. reparent_loop p (Suc pp) s)
        else reparent_loop p (Suc pp) s
      else Ok s)"
  by pat_completeness auto
termination
  by (relation "measure (\<lambda>(p, pp, s). NPROC - pp)") auto

declare reparent_loop.simps [simp del]

definition reparent :: "nat \<Rightarrow> 'a ptab_scheme \<Rightarrow> 'a ptab_scheme res" where
  "reparent p s = reparent_loop p 0 s"

function exit_files :: "(nat \<Rightarrow> 'a ptab_scheme \<Rightarrow> 'a ptab_scheme res) \<Rightarrow> nat \<Rightarrow> nat \<Rightarrow> 'a ptab_scheme \<Rightarrow> 'a ptab_scheme res" where
  "exit_files fileclose p fd s =
     (if fd < NOFILE then
        rbind (case ofile (ptable s p) fd of
                 None \<Rightarrow> Ok s
               | Some f \<Rightarrow> rbind (fileclose f s) (\<lambda>s. Ok (upd_proc p (\<lambda>q. q\<lparr>ofile := (ofile q)(fd := None)\<rparr>) s)))
          (\<lambda>s. exit_files fileclose p (Suc fd) s)
      else Ok s)"
  by pat_completeness auto
termination
  by (relation "measure (\<lambda>(_, _, fd, _). NOFILE - fd)") auto

declare exit_files.simps [simp del]

text \<open>\<^verbatim>\<open>exit\<close> up to the \<^verbatim>\<open>swtch\<close> of its call of \<^verbatim>\<open>sched\<close>, which never comes back.\<close>

definition exit :: "(nat \<Rightarrow> 'a ptab_scheme \<Rightarrow> 'a ptab_scheme res) \<Rightarrow> ('a ptab_scheme \<Rightarrow> 'a ptab_scheme res)
    \<Rightarrow> (nat option \<Rightarrow> 'a ptab_scheme \<Rightarrow> 'a ptab_scheme res) \<Rightarrow> ('a ptab_scheme \<Rightarrow> 'a ptab_scheme res)
    \<Rightarrow> uint32 \<Rightarrow> 'a ptab_scheme \<Rightarrow> (bool \<times> 'a ptab_scheme) res" where
  "exit fileclose begin_op iput end_op status s =
     current s (\<lambda>p s.
     if Some p = initproc s then Panic ''init exiting'' else
     rbind (exit_files fileclose p 0 s) (\<lambda>s.
     rbind (begin_op s) (\<lambda>s.
     rbind (iput (cwd (ptable s p)) s) (\<lambda>s.
     rbind (end_op s) (\<lambda>s.
     let s = upd_proc p (cwd_update (\<lambda>_. None)) s in
     rbind (wait_acquire s) (\<lambda>s.
     rbind (reparent p s) (\<lambda>s.
     rbind (wakeup (map_option proc_chan (parent (ptable s p))) s) (\<lambda>s.
     rbind (plock_acquire p s) (\<lambda>s.
     let s = upd_proc p (xstate_update (\<lambda>_. status)) s;
         s = upd_proc p (state_update (\<lambda>_. ZOMBIE)) s
     in rbind (wait_release s) sched)))))))))"

text \<open>
  \<open>wait_scan\<close> is one pass over the table: the value \<^verbatim>\<open>wait\<close> returns when it finds an exited
  child, otherwise whether there is a child at all. \<open>wait_turn\<close> is one iteration of the outer
  loop: it returns, or it sleeps and \<^verbatim>\<open>wait\<close> goes on with \<open>wait_resume\<close>.
\<close>

function wait_scan :: "nat \<Rightarrow> uint64 \<Rightarrow> nat \<Rightarrow> bool \<Rightarrow> 'a ptab_scheme \<Rightarrow> (uint32 option \<times> bool \<times> 'a ptab_scheme) res" where
  "wait_scan p addr pp havekids s =
     (if pp < NPROC then
        if parent (ptable s pp) = Some p then
          rbind (plock_acquire pp s) (\<lambda>s.
          if state (ptable s pp) = ZOMBIE then
            let n = pid (ptable s pp) in
            rbind (if addr \<noteq> 0 then copyout (pagetable (ptable s p)) addr (le_bytes 4 (xstate (ptable s pp))) s else Ok (0, s)) (\<lambda>(r, s).
            if r < 0 then
              rbind (plock_release pp s) (\<lambda>s. rbind (wait_release s) (\<lambda>s. Ok (Some (-1), True, s)))
            else
              rbind (freeproc pp s) (\<lambda>s.
              rbind (plock_release pp s) (\<lambda>s. rbind (wait_release s) (\<lambda>s. Ok (Some n, True, s)))))
          else rbind (plock_release pp s) (\<lambda>s. wait_scan p addr (Suc pp) True s))
        else wait_scan p addr (Suc pp) havekids s
      else Ok (None, havekids, s))"
  by pat_completeness auto
termination
  by (relation "measure (\<lambda>(p, addr, pp, _, _). NPROC - pp)") auto

declare wait_scan.simps [simp del]

definition wait_turn :: "nat \<Rightarrow> uint64 \<Rightarrow> 'a ptab_scheme \<Rightarrow> (uint32 outcome \<times> bool \<times> 'a ptab_scheme) res" where
  "wait_turn p addr s =
     rbind (wait_scan p addr 0 False s) (\<lambda>(r, havekids, s).
     case r of Some n \<Rightarrow> Ok (Ret n, False, s) | None \<Rightarrow>
     rbind (if \<not> havekids then Ok (True, s) else killed p s) (\<lambda>(stop, s).
     if stop then rbind (wait_release s) (\<lambda>s. Ok (Ret (-1), False, s))
     else rbind (sleep_enter (Some (proc_chan p)) wait_release s) (\<lambda>(b, s). Ok (Block (proc_chan p), b, s))))"

definition wait :: "uint64 \<Rightarrow> 'a ptab_scheme \<Rightarrow> (uint32 outcome \<times> bool \<times> 'a ptab_scheme) res" where
  "wait addr s = current s (\<lambda>p s. rbind (wait_acquire s) (\<lambda>s. wait_turn p addr s))"

definition wait_resume :: "nat \<Rightarrow> bool \<Rightarrow> uint64 \<Rightarrow> 'a ptab_scheme \<Rightarrow> (uint32 outcome \<times> bool \<times> 'a ptab_scheme) res" where
  "wait_resume p b addr s = rbind (sleep_leave p b wait_acquire s) (\<lambda>s. wait_turn p addr s)"

section \<open>Copying to and from either address space\<close>

text \<open>
  A buffer of the kernel is memory at a physical address, or a C variable, whose bytes the
  caller takes from the result or gives with the call.
\<close>

datatype iobuf = UserBuf uint64 | KernBuf uint64 | KernVar "uchar list"

definition either_copyout :: "iobuf \<Rightarrow> uchar list \<Rightarrow> 'a ptab_scheme \<Rightarrow> (int \<times> 'a ptab_scheme) res" where
  "either_copyout dst src s =
     rbind (myproc s) (\<lambda>(p, s).
     case dst of
       UserBuf va \<Rightarrow> (case p of None \<Rightarrow> Panic ''kerneltrap'' | Some p \<Rightarrow> copyout (pagetable (ptable s p)) va src s)
     | KernBuf pa \<Rightarrow> Ok (0, s\<lparr>mem := store_bytes (mem s) pa src\<rparr>)
     | KernVar _ \<Rightarrow> Ok (0, s))"

definition either_copyin :: "iobuf \<Rightarrow> nat \<Rightarrow> 'a ptab_scheme \<Rightarrow> ((int \<times> uchar list) \<times> 'a ptab_scheme) res" where
  "either_copyin src len s =
     rbind (myproc s) (\<lambda>(p, s).
     case src of
       UserBuf va \<Rightarrow> (case p of None \<Rightarrow> Panic ''kerneltrap''
         | Some p \<Rightarrow> rbind (copyin (pagetable (ptable s p)) va len s) (\<lambda>r. Ok (r, s)))
     | KernBuf pa \<Rightarrow> Ok ((0, load_bytes (mem s) pa len), s)
     | KernVar bs \<Rightarrow> Ok ((0, take len bs), s))"

section \<open>pgaccess\<close>

text \<open>
  The local variables are the loop index and the mask. \<^verbatim>\<open>1 << i\<close> on a 32-bit operand is the
  \<^verbatim>\<open>sllw\<close> instruction, which uses the low five bits of \<^verbatim>\<open>i\<close>.
\<close>

function pgaccess_loop :: "uint64 \<Rightarrow> uint64 \<Rightarrow> nat \<Rightarrow> nat \<Rightarrow> uint32 \<Rightarrow> 'a machine_scheme \<Rightarrow> (uint32 \<times> 'a machine_scheme) res" where
  "pgaccess_loop pt va i n bitmasks s =
     (if i < n then
        rbind (walk pt (va + word_of_nat i * PGSIZE) False s) (\<lambda>(pte, s).
        if pte \<noteq> 0 \<and> load64 (mem s) pte \<noteq> 0 \<and> load64 (mem s) pte AND PTE_A \<noteq> 0 then
          let s = s\<lparr>mem := store64 (mem s) pte (load64 (mem s) pte AND NOT PTE_A)\<rparr>
          in pgaccess_loop pt va (Suc i) n (bitmasks OR push_bit (i mod 32) 1) s
        else pgaccess_loop pt va (Suc i) n bitmasks s)
      else Ok (bitmasks, s))"
  by pat_completeness auto
termination
  by (relation "measure (\<lambda>(pt, va, i, n, _, _). n - i)") auto

declare pgaccess_loop.simps [simp del]

definition pgaccess :: "uint64 \<Rightarrow> int \<Rightarrow> uint64 \<Rightarrow> 'a ptab_scheme \<Rightarrow> (int \<times> 'a ptab_scheme) res" where
  "pgaccess va n access_abits s =
     current s (\<lambda>p s.
     rbind (pgaccess_loop (pagetable (ptable s p)) va 0 (nat n) 0 s) (\<lambda>(bitmasks, s).
     rbind (copyout (pagetable (ptable s p)) access_abits (le_bytes 4 bitmasks) s) (\<lambda>(_, s).
     Ok (0, s))))"

end
