(* ===== verification/Vm_Frame.thy ===== *)
theory Vm_Frame
  imports Vm
begin

text \<open>
  What no operation of the allocator and of \<^verbatim>\<open>vm.c\<close> touches, whatever the state: the
  components that extend the machine, the end of the kernel image, and the process that the
  hart runs. Each operation has a rule that gives this for the states it returns in.
\<close>

definition machine_env :: "'a machine_scheme \<Rightarrow> uint64 \<times> nat \<times> nat option \<times> 'a" where
  "machine_env s = (kend s, cpu_id (mycpu s), cpu_proc (mycpu s), machine.more s)"

definition env_at :: "(uint64 \<times> nat \<times> nat option \<times> 'a) \<Rightarrow> 'b \<times> 'a machine_scheme \<Rightarrow> bool" where
  "env_at e = (\<lambda>(_, s). machine_env s = e)"

named_theorems env_rules "operations that keep the machine environment"

lemma machine_env_simps [simp]:
  "machine_env (s\<lparr>mem := m\<rparr>) = machine_env s" "machine_env (s\<lparr>freelist := f\<rparr>) = machine_env s"
  "machine_env (s\<lparr>kmem_lock := l\<rparr>) = machine_env s" "env_at e (r, s) \<longleftrightarrow> machine_env s = e"
  by (simp_all add: machine_env_def env_at_def)

lemma env_post:
  assumes "post m (env_at (machine_env s))" and "\<And>r s'. m = Ok (r, s') \<Longrightarrow> machine_env s' = machine_env s \<Longrightarrow> Q (r, s')"
  shows "post m Q"
  by (rule post_mono [OF assms(1)]) (auto simp: env_at_def intro: assms(2))

lemma env_post1:
  assumes "post m (\<lambda>s'. machine_env s' = machine_env s)" and "\<And>s'. m = Ok s' \<Longrightarrow> machine_env s' = machine_env s \<Longrightarrow> Q s'"
  shows "post m Q"
  by (rule post_mono [OF assms(1)]) (auto intro: assms(2))

section \<open>Locks and the allocator\<close>

lemma pop_off_keeps: "pop_off c = Ok c' \<Longrightarrow> cpu_id c' = cpu_id c \<and> cpu_proc c' = cpu_proc c"
  by (auto simp: pop_off_def Let_def intr_on_def split: if_splits)

lemma acquire_keeps: "acquire lk c = Ok (lk', c') \<Longrightarrow> cpu_id c' = cpu_id c \<and> cpu_proc c' = cpu_proc c"
  by (auto simp: acquire_def Let_def split: if_splits)

lemma release_keeps: "release lk c = Ok (lk', c') \<Longrightarrow> cpu_id c' = cpu_id c \<and> cpu_proc c' = cpu_proc c"
  by (auto simp: release_def Let_def dest: pop_off_keeps split: if_splits)

lemma kmem_lock_env:
  "machine_env s = e \<Longrightarrow> post (kmem_acquire s) (\<lambda>s. machine_env s = e)"
  "machine_env s = e \<Longrightarrow> post (kmem_release s) (\<lambda>s. machine_env s = e)"
  by (auto simp: kmem_acquire_def kmem_release_def machine_env_def dest!: acquire_keeps release_keeps intro!: postI)

lemmas [env_rules] = kmem_lock_env [OF refl, THEN env_post1]

lemma kalloc_env: "machine_env s = e \<Longrightarrow> post (kalloc s) (env_at e)"
  by (auto simp: kalloc_def Let_def post_rbind intro!: env_rules)

lemma kfree_env: "machine_env s = e \<Longrightarrow> post (kfree p s) (\<lambda>s. machine_env s = e)"
  by (auto simp: kfree_def Let_def post_rbind intro!: env_rules)

lemmas [env_rules] = kalloc_env [OF refl, THEN env_post] kfree_env [OF refl, THEN env_post1]

section \<open>Page tables\<close>

lemma walk_loop_env: "machine_env s = e \<Longrightarrow> post (walk_loop l pt va alloc s) (env_at e)"
  by (induction l arbitrary: pt s) (auto simp: Let_def post_rbind intro!: env_rules)

lemma walk_env: "machine_env s = e \<Longrightarrow> post (walk pt va alloc s) (env_at e)"
  by (auto simp: walk_def walk_loop_env)

lemmas [env_rules] = walk_env [OF refl, THEN env_post]

lemma mappages_loop_env: "machine_env s = e \<Longrightarrow> post (mappages_loop pt a la pa perm s) (env_at e)"
proof (induction pt a la pa perm s arbitrary: e rule: mappages_loop.induct)
  case (1 pt a la pa perm s)
  show ?case
    by (subst mappages_loop.simps) (auto simp: Let_def post_rbind 1(2) intro!: env_rules 1(1))
qed

lemma mappages_env: "machine_env s = e \<Longrightarrow> post (mappages pt va sz pa perm s) (env_at e)"
  by (auto simp: mappages_def mappages_loop_env)

lemmas [env_rules] = mappages_env [OF refl, THEN env_post]

lemma uvmunmap_loop_env: "machine_env s = e \<Longrightarrow> post (uvmunmap_loop pt a lim f s) (\<lambda>s. machine_env s = e)"
proof (induction pt a lim f s arbitrary: e rule: uvmunmap_loop.induct)
  case (1 pt a lim f s)
  show ?case
  proof (cases f)
    case True
    then show ?thesis
      by (subst uvmunmap_loop.simps) (auto simp: Let_def post_rbind 1(2) intro!: env_rules 1(1) [simplified True])
  next
    case False
    then show ?thesis
      by (subst uvmunmap_loop.simps) (auto simp: Let_def post_rbind 1(2) intro!: env_rules 1(1) [simplified False])
  qed
qed

lemma uvmunmap_env: "machine_env s = e \<Longrightarrow> post (uvmunmap pt va n f s) (\<lambda>s. machine_env s = e)"
  by (auto simp: uvmunmap_def uvmunmap_loop_env)

lemmas [env_rules] = uvmunmap_env [OF refl, THEN env_post1]

lemma uvmdealloc_env: "machine_env s = e \<Longrightarrow> post (uvmdealloc pt a b s) (env_at e)"
  by (auto simp: uvmdealloc_def Let_def post_rbind intro!: env_rules)

lemmas [env_rules] = uvmdealloc_env [OF refl, THEN env_post]

lemma freewalk_envs:
  "machine_env s = e \<Longrightarrow> post (freewalk d pt s) (\<lambda>s. machine_env s = e)"
  "machine_env s = e \<Longrightarrow> post (freewalk_loop d pt i s) (\<lambda>s. machine_env s = e)"
proof (induction d pt s and d pt i s arbitrary: e and e rule: freewalk_freewalk_loop.induct)
  case (2 d pt s)
  show ?case
    by (auto simp: post_rbind 2(2) intro!: post_mono [OF 2(1) [OF refl]] kfree_env)
next
  case (3 d pt i s)
  show ?case
    by (subst freewalk_loop.simps)
      (auto simp: Let_def post_rbind 3(4) intro!: 3(2,3) post_mono [OF 3(1) [OF _ refl _ refl]])
qed simp

lemmas [env_rules] = freewalk_envs(1) [OF refl, THEN env_post1]

lemma uvmfree_env: "machine_env s = e \<Longrightarrow> post (uvmfree pt sz s) (\<lambda>s. machine_env s = e)"
  by (auto simp: uvmfree_def post_rbind intro!: env_rules)

lemma uvmcreate_env: "machine_env s = e \<Longrightarrow> post (uvmcreate s) (env_at e)"
  by (auto simp: uvmcreate_def Let_def post_rbind intro!: env_rules)

lemmas [env_rules] = uvmfree_env [OF refl, THEN env_post1] uvmcreate_env [OF refl, THEN env_post]

lemma uvmfirst_env: "machine_env s = e \<Longrightarrow> post (uvmfirst pt src sz s) (\<lambda>s. machine_env s = e)"
  by (auto simp: uvmfirst_def Let_def post_rbind intro!: env_rules)

lemma uvmalloc_loop_env: "machine_env s = e \<Longrightarrow> post (uvmalloc_loop pt a lo hi x s) (env_at e)"
proof (induction pt a lo hi x s arbitrary: e rule: uvmalloc_loop.induct)
  case (1 pt a lo hi x s)
  show ?case
    by (subst uvmalloc_loop.simps)
      (auto simp: Let_def post_rbind 1(2) intro!: env_rules,
        rule 1(1) [OF _ _ refl _ refl _ refl]; (assumption | simp))
qed

lemma uvmalloc_env: "machine_env s = e \<Longrightarrow> post (uvmalloc pt lo hi x s) (env_at e)"
  by (auto simp: uvmalloc_def uvmalloc_loop_env)

lemma uvmcopy_loop_env: "machine_env s = e \<Longrightarrow> post (uvmcopy_loop old new i sz s) (env_at e)"
proof (induction old new i sz s arbitrary: e rule: uvmcopy_loop.induct)
  case (1 old new i sz s)
  show ?case
    by (subst uvmcopy_loop.simps)
      (auto simp: Let_def post_rbind 1(2) intro!: env_rules,
        rule 1(1) [OF _ _ refl _ _ refl refl _ refl _ refl _ refl]; (assumption | simp))
qed

lemma uvmcopy_env: "machine_env s = e \<Longrightarrow> post (uvmcopy old new sz s) (env_at e)"
  by (auto simp: uvmcopy_def uvmcopy_loop_env)

lemma uvmclear_env: "machine_env s = e \<Longrightarrow> post (uvmclear pt va s) (\<lambda>s. machine_env s = e)"
  by (auto simp: uvmclear_def Let_def post_rbind intro!: env_rules)

lemma copyout_env: "machine_env s = e \<Longrightarrow> post (copyout pt va src s) (env_at e)"
proof (induction pt va src s arbitrary: e rule: copyout.induct)
  case (1 pt va src s)
  show ?case
    by (subst copyout.simps) (auto simp: Let_def post_rbind 1(2) intro!: postI 1(1) [THEN postD])
qed

lemmas [env_rules] = uvmfirst_env [OF refl, THEN env_post1] uvmalloc_env [OF refl, THEN env_post] uvmcopy_env [OF refl, THEN env_post]
  uvmclear_env [OF refl, THEN env_post1] copyout_env [OF refl, THEN env_post]

end
