(* ===== verification/Proc_Sync.thy ===== *)
theory Proc_Sync
  imports Proc Vm_Frame
begin

text \<open>
  What the operations on the process table that only take locks and change fields do, for a
  hart that finds the locks free: \<^verbatim>\<open>wakeup\<close>, \<^verbatim>\<open>kill\<close>, \<^verbatim>\<open>killed\<close>, \<^verbatim>\<open>reparent\<close> and \<^verbatim>\<open>allocpid\<close>.
\<close>

section \<open>Critical sections on process locks\<close>

lemma upd_proc_simps [simp]:
  "ptable (upd_proc p f s) = (ptable s)(p := f (ptable s p))" "mycpu (upd_proc p f s) = mycpu s"
  "mem (upd_proc p f s) = mem s" "initproc (upd_proc p f s) = initproc s" "nextpid (upd_proc p f s) = nextpid s"
  "wait_lock (upd_proc p f s) = wait_lock s" "pid_lock (upd_proc p f s) = pid_lock s"
  by (simp_all add: upd_proc_def)

definition plocks_free :: "'a ptab_scheme \<Rightarrow> nat set \<Rightarrow> bool" where
  "plocks_free s A \<longleftrightarrow> cpu_ok (mycpu s) \<and> (\<forall>q \<in> A. plock (ptable s q) = initlock)"

lemma plock_acquire_free:
  "plock (ptable s p) = initlock \<Longrightarrow>
   plock_acquire p s = Ok (s\<lparr>mycpu := push_off (mycpu s), ptable := (ptable s)(p := (ptable s p)\<lparr>plock := held_by (cpu_id (mycpu s))\<rparr>)\<rparr>)"
  by (simp add: plock_acquire_def acquire_free upd_proc_def)

lemma plock_release_held:
  "plock (ptable s p) = held_by (cpu_id c) \<Longrightarrow> mycpu s = push_off c \<Longrightarrow> cpu_ok c \<Longrightarrow>
   plock_release p s = Ok (s\<lparr>mycpu := crit c, ptable := (ptable s)(p := (ptable s p)\<lparr>plock := initlock\<rparr>)\<rparr>)"
  by (simp add: plock_release_def release_push_off upd_proc_def)

lemma myproc_eq: "cpu_ok (mycpu s) \<Longrightarrow> myproc s = Ok (cpu_proc (mycpu s), s\<lparr>mycpu := crit (mycpu s)\<rparr>)"
  by (simp add: myproc_def pop_push Let_def)

lemma current_eq:
  "cpu_ok (mycpu s) \<Longrightarrow> cpu_proc (mycpu s) = Some p \<Longrightarrow> current s f = f p (s\<lparr>mycpu := crit (mycpu s)\<rparr>)"
  by (simp add: current_def myproc_eq)

lemma plock_restore: "plock q = l \<Longrightarrow> q\<lparr>plock := l\<rparr> = q"
  by (cases q) simp

section \<open>wakeup\<close>

definition woken :: "chan option \<Rightarrow> proc \<Rightarrow> proc" where
  "woken ch q = (if state q = SLEEPING \<and> chan q = ch then q\<lparr>state := RUNNABLE\<rparr> else q)"

lemma woken_simps [simp]:
  "plock (woken ch q) = plock q" "parent (woken ch q) = parent q" "pid (woken ch q) = pid q"
  "woken ch (woken ch q) = woken ch q"
  by (auto simp: woken_def)

lemma wakeup_turn:
  assumes "cpu_ok (mycpu s)" and "plock (ptable s p) = initlock" and "cpu_proc (mycpu s) \<noteq> Some p" and "p < NPROC"
  shows "wakeup_loop ch p s =
    wakeup_loop ch (Suc p) (s\<lparr>mycpu := crit (mycpu s), ptable := (ptable s)(p := woken ch (ptable s p))\<rparr>)"
  using assms
  by (simp add: wakeup_loop.simps [of ch p] myproc_eq plock_acquire_free plock_release_held [where c = "crit (mycpu s)"]
      plock_restore woken_def Let_def upd_proc_def)

definition wake_from :: "chan option \<Rightarrow> nat option \<Rightarrow> nat \<Rightarrow> (nat \<Rightarrow> proc) \<Rightarrow> nat \<Rightarrow> proc" where
  "wake_from ch me p t q = (if p \<le> q \<and> q < NPROC \<and> me \<noteq> Some q then woken ch (t q) else t q)"

lemma wake_from_Suc:
  "wake_from ch me p t = wake_from ch me (Suc p) (if p < NPROC \<and> me \<noteq> Some p then t(p := woken ch (t p)) else t)"
  by (rule ext) (auto simp: wake_from_def le_Suc_eq Suc_le_eq)

lemma wake_from_NPROC: "NPROC \<le> p \<Longrightarrow> wake_from ch me p t = t"
  by (rule ext) (auto simp: wake_from_def)

lemma wakeup_loop_eq:
  assumes "cpu_ok (mycpu s)" and "\<forall>q < NPROC. cpu_proc (mycpu s) \<noteq> Some q \<longrightarrow> plock (ptable s q) = initlock"
  shows "wakeup_loop ch p s = Ok (s\<lparr>mycpu := if p < NPROC then crit (mycpu s) else mycpu s,
    ptable := wake_from ch (cpu_proc (mycpu s)) p (ptable s)\<rparr>)"
  using assms
proof (induction "NPROC - p" arbitrary: p s)
  case 0
  then show ?case by (simp add: wakeup_loop.simps [of ch p] wake_from_NPROC)
next
  case (Suc n)
  define t where "t = (if p < NPROC \<and> cpu_proc (mycpu s) \<noteq> Some p then (ptable s)(p := woken ch (ptable s p)) else ptable s)"
  define s' where "s' = s\<lparr>mycpu := crit (mycpu s), ptable := t\<rparr>"
  have p: "p < NPROC" using Suc.hyps(2) by simp
  have "wakeup_loop ch p s = wakeup_loop ch (Suc p) s'"
    using Suc.prems p wakeup_turn [of s p ch]
    by (cases "cpu_proc (mycpu s) = Some p") (simp_all add: wakeup_loop.simps [of ch p] myproc_eq s'_def t_def)
  also have "\<dots> = Ok (s'\<lparr>mycpu := if Suc p < NPROC then crit (mycpu s') else mycpu s',
    ptable := wake_from ch (cpu_proc (mycpu s')) (Suc p) (ptable s')\<rparr>)"
    by (rule Suc.hyps(1)) (use Suc.hyps(2) Suc.prems in \<open>simp_all add: s'_def t_def\<close>)
  also have "\<dots> = Ok (s\<lparr>mycpu := crit (mycpu s), ptable := wake_from ch (cpu_proc (mycpu s)) (Suc p) t\<rparr>)"
    by (simp add: s'_def)
  also have "wake_from ch (cpu_proc (mycpu s)) (Suc p) t = wake_from ch (cpu_proc (mycpu s)) p (ptable s)"
    by (simp only: t_def wake_from_Suc [of ch _ p])
  finally show ?case using p by simp
qed

lemma wakeup_eq:
  assumes "cpu_ok (mycpu s)" and "\<forall>q < NPROC. cpu_proc (mycpu s) \<noteq> Some q \<longrightarrow> plock (ptable s q) = initlock"
  shows "wakeup ch s = Ok (s\<lparr>mycpu := crit (mycpu s), ptable := wake_from ch (cpu_proc (mycpu s)) 0 (ptable s)\<rparr>)"
  using wakeup_loop_eq [OF assms, of ch 0] by (simp add: wakeup_def NPROC_def)

section \<open>What wakeup leaves alone\<close>

text \<open>
  Everything outside the processor and the process table, in any state that \<^verbatim>\<open>wakeup\<close> returns
  from.
\<close>

definition ptab_env :: "'a ptab_scheme \<Rightarrow> memory \<times> uint64 \<times> nat option \<times> uint32 \<times> spinlock \<times> 'a" where
  "ptab_env s = (mem s, freelist s, initproc s, nextpid s, wait_lock s, ptab.more s)"

lemma ptab_env_simps [simp]:
  "ptab_env (s\<lparr>mycpu := c\<rparr>) = ptab_env s" "ptab_env (s\<lparr>ptable := t\<rparr>) = ptab_env s" "ptab_env (upd_proc p f s) = ptab_env s"
  by (simp_all add: ptab_env_def upd_proc_def)

lemma plock_keeps:
  "plock_acquire p s = Ok s' \<Longrightarrow> ptab_env s' = ptab_env s" "plock_release p s = Ok s' \<Longrightarrow> ptab_env s' = ptab_env s"
  by (auto simp: plock_acquire_def plock_release_def)

lemma myproc_keeps: "myproc s = Ok (r, s') \<Longrightarrow> ptab_env s' = ptab_env s"
  by (auto simp: myproc_def Let_def)

lemma wakeup_loop_env: "wakeup_loop ch p s = Ok s' \<Longrightarrow> ptab_env s' = ptab_env s"
proof (induction "NPROC - p" arbitrary: p s ch)
  case 0
  then show ?case by (simp add: wakeup_loop.simps [of ch p])
next
  case (Suc n)
  have n: "n = NPROC - Suc p" "p < NPROC" using Suc.hyps(2) by simp_all
  show ?case
    using Suc.prems n(2) by (auto simp: wakeup_loop.simps [of ch p] Let_def split: if_splits
        dest!: Suc.hyps(1) [OF n(1)] plock_keeps myproc_keeps)
qed

lemma wakeup_env: "wakeup ch s = Ok s' \<Longrightarrow> ptab_env s' = ptab_env s"
  by (simp add: wakeup_def wakeup_loop_env)

section \<open>kill\<close>


definition kill_proc :: "proc \<Rightarrow> proc" where
  "kill_proc q = q\<lparr>pkilled := True, state := if state q = SLEEPING then RUNNABLE else state q\<rparr>"




lemma kill_proc_state: "q\<lparr>pkilled := True\<rparr> = kill_proc q \<longleftrightarrow> state q \<noteq> SLEEPING"
  by (cases q) (auto simp: kill_proc_def)



lemma killed_eq:
  "cpu_ok (mycpu s) \<Longrightarrow> plock (ptable s p) = initlock \<Longrightarrow>
   killed p s = Ok (pkilled (ptable s p), s\<lparr>mycpu := crit (mycpu s)\<rparr>)"
  by (simp add: killed_def plock_acquire_free plock_release_held [where c = "mycpu s"] plock_restore)

lemma setkilled_eq:
  "cpu_ok (mycpu s) \<Longrightarrow> plock (ptable s p) = initlock \<Longrightarrow>
   setkilled p s = Ok (s\<lparr>mycpu := crit (mycpu s), ptable := (ptable s)(p := (ptable s p)\<lparr>pkilled := True\<rparr>)\<rparr>)"
  by (simp add: setkilled_def plock_acquire_free plock_release_held [where c = "mycpu s"] plock_restore upd_proc_def)

section \<open>What allocation of a process keeps of its slot\<close>

lemma env_ptab:
  assumes "machine_env s' = machine_env s"
  shows "ptable s' = ptable s" "initproc s' = initproc s" "nextpid s' = nextpid s" "pid_lock s' = pid_lock s"
    "wait_lock s' = wait_lock s"
  using assms by (cases s; cases s'; simp add: machine_env_def)+

lemma proc_pagetable_env: "machine_env s = e \<Longrightarrow> post (proc_pagetable K p s) (env_at e)"
  by (auto simp: proc_pagetable_def post_rbind intro!: env_rules)

lemma proc_freepagetable_env: "machine_env s = e \<Longrightarrow> post (proc_freepagetable pt sz s) (\<lambda>s. machine_env s = e)"
  by (auto simp: proc_freepagetable_def post_rbind intro!: env_rules)

lemmas [env_rules] = proc_pagetable_env [OF refl, THEN env_post] proc_freepagetable_env [OF refl, THEN env_post1]

lemma env_post_table:
  assumes "post m (env_at (machine_env s))" and "\<And>r s'. ptable s' = ptable s \<Longrightarrow> Q (r, s')"
  shows "post m Q"
  by (rule post_mono [OF assms(1)]) (auto simp: env_at_def intro!: assms(2) env_ptab(1))

lemmas table_rules = kalloc_env [OF refl, THEN env_post_table] proc_pagetable_env [OF refl, THEN env_post_table]

lemma allocproc_found_keeps:
  "post (allocproc_found K p s) (\<lambda>(r, s'). r = None \<or> r = Some p \<and> pkilled (ptable s' p) = pkilled (ptable s p))"
proof -
  have fail: "post (allocproc_fail p s) (\<lambda>(r, s'). r = None \<or> Q r s')" for s :: "'a ptab_scheme" and Q
    by (auto simp: allocproc_fail_def post_rbind intro!: postI)
  have pid: "post (allocpid s) (\<lambda>(n, s'). ptable s' = ptable s)"
    by (auto simp: allocpid_def Let_def intro!: postI)
  show ?thesis
    unfolding allocproc_found_def post_rbind Let_def
    by (rule post_mono [OF pid]) (auto simp: post_rbind fail intro!: table_rules)
qed

text \<open>The first free slot from \<open>p\<close> on.\<close>

definition unused_slot :: "nat \<Rightarrow> (nat \<Rightarrow> proc) \<Rightarrow> nat option" where
  "unused_slot p t = find (\<lambda>q. state (t q) = UNUSED) [p..<NPROC]"

lemma unused_slot_step:
  "unused_slot p t = (if p < NPROC then if state (t p) = UNUSED then Some p else unused_slot (Suc p) t else None)"
  by (simp add: unused_slot_def upt_conv_Cons)

lemma unused_slot_Some: "unused_slot 0 t = Some p \<Longrightarrow> p < NPROC \<and> state (t p) = UNUSED \<and> (\<forall>q < p. state (t q) \<noteq> UNUSED)"
  by (auto simp: unused_slot_def find_Some_iff)

lemma push_off_crit [simp]: "push_off (crit c) = push_off c"
  by (cases c) (simp add: push_off_def crit_def intr_off_def intr_get_def Let_def)

lemma allocproc_loop_eq:
  assumes "plocks_free s {..<NPROC}"
  shows "allocproc_loop K p s = (case unused_slot p (ptable s) of
      None \<Rightarrow> Ok (None, s\<lparr>mycpu := if p < NPROC then crit (mycpu s) else mycpu s\<rparr>)
    | Some q \<Rightarrow> allocproc_found K q (s\<lparr>mycpu := push_off (mycpu s),
        ptable := (ptable s)(q := (ptable s q)\<lparr>plock := held_by (cpu_id (mycpu s))\<rparr>)\<rparr>))"
  using assms
proof (induction "NPROC - p" arbitrary: p s)
  case 0
  then show ?case by (simp add: allocproc_loop.simps [of K p] unused_slot_step [of p])
next
  case (Suc k)
  have p: "p < NPROC" using Suc.hyps(2) by simp
  then have free: "cpu_ok (mycpu s)" "plock (ptable s p) = initlock"
    using Suc.prems by (simp_all add: plocks_free_def)
  define s' where "s' = s\<lparr>mycpu := crit (mycpu s)\<rparr>"
  show ?case
  proof (cases "state (ptable s p) = UNUSED")
    case True
    then show ?thesis using p free
      by (simp add: allocproc_loop.simps [of K p] unused_slot_step [of p] plock_acquire_free)
  next
    case False
    then have "allocproc_loop K p s = allocproc_loop K (Suc p) s'" using p free
      by (simp add: allocproc_loop.simps [of K p] plock_acquire_free plock_release_held [where c = "mycpu s"] plock_restore s'_def)
    also have "\<dots> = (case unused_slot (Suc p) (ptable s') of
        None \<Rightarrow> Ok (None, s'\<lparr>mycpu := if Suc p < NPROC then crit (mycpu s') else mycpu s'\<rparr>)
      | Some q \<Rightarrow> allocproc_found K q (s'\<lparr>mycpu := push_off (mycpu s'),
          ptable := (ptable s')(q := (ptable s' q)\<lparr>plock := held_by (cpu_id (mycpu s'))\<rparr>)\<rparr>))"
      by (rule Suc.hyps(1)) (use Suc.hyps(2) Suc.prems in \<open>simp_all add: s'_def plocks_free_def\<close>)
    finally show ?thesis using p False by (simp add: s'_def unused_slot_step [of p] split: option.splits)
  qed
qed

section \<open>Properties\<close>

text \<open>A process table with one process sleeping on the clock and one running, for witnesses.\<close>

definition demo_proc :: proc where
  "demo_proc = \<lparr>plock = initlock, state = UNUSED, chan = None, pkilled = False, xstate = 0, pid = 0, parent = None,
    kstack = 0, psz = 0, pagetable = 0, trapframe = 0, usyscall = 0, pcontext = [], ofile = (\<lambda>_. None), cwd = None,
    pname = replicate 16 0\<rparr>"

definition demo_cpu :: cpu where
  "demo_cpu = \<lparr>cpu_id = 0, cpu_proc = Some 0, noff = 0, intena = True, sstatus = SSTATUS_SIE\<rparr>"

definition demo_ptab :: ptab where
  "demo_ptab = \<lparr>mycpu = demo_cpu, mem = (\<lambda>_. 0), kend = 0x80022000, kmem_lock = initlock, freelist = 0,
    ptable = (\<lambda>_. demo_proc)(0 := demo_proc\<lparr>state := RUNNING, pid := 1\<rparr>,
      1 := demo_proc\<lparr>state := SLEEPING, chan := Some (Chan ''ticks'' 0), pid := 2, parent := Some 0\<rparr>),
    initproc = Some 0, nextpid = 3, pid_lock = initlock, wait_lock = initlock\<rparr>"

lemma demo_ptab_free: "plocks_free demo_ptab A"
  by (simp add: plocks_free_def demo_ptab_def demo_proc_def demo_cpu_def cpu_ok_def)

text \<open>
  C25: \<^verbatim>\<open>wakeup\<close> makes exactly the processes runnable that sleep on the channel, except the
  caller, and changes nothing else: not the fields of any process but \<^verbatim>\<open>state\<close>, not memory, and
  the interrupt state of the hart is as before.
\<close>

theorem wakeup_wakes_sleepers:
  assumes "cpu_ok (mycpu s)" and "\<forall>q < NPROC. cpu_proc (mycpu s) \<noteq> Some q \<longrightarrow> plock (ptable s q) = initlock"
  shows "wakeup ch s = Ok (s\<lparr>mycpu := crit (mycpu s), ptable := (\<lambda>q.
    if q < NPROC \<and> cpu_proc (mycpu s) \<noteq> Some q \<and> state (ptable s q) = SLEEPING \<and> chan (ptable s q) = ch
    then (ptable s q)\<lparr>state := RUNNABLE\<rparr> else ptable s q)\<rparr>)"
proof -
  have "wake_from ch (cpu_proc (mycpu s)) 0 (ptable s) = (\<lambda>q.
    if q < NPROC \<and> cpu_proc (mycpu s) \<noteq> Some q \<and> state (ptable s q) = SLEEPING \<and> chan (ptable s q) = ch
    then (ptable s q)\<lparr>state := RUNNABLE\<rparr> else ptable s q)"
    by (rule ext) (simp add: wake_from_def woken_def)
  then show ?thesis by (simp add: wakeup_eq [OF assms])
qed

theorem wakeup_wakes_sleepers_witness:
  "\<exists>s'. wakeup (Some (Chan ''ticks'' 0)) demo_ptab = Ok s' \<and> state (ptable s' 1) = RUNNABLE \<and> state (ptable s' 0) = RUNNING"
proof -
  have "\<forall>q < NPROC. cpu_proc (mycpu demo_ptab) \<noteq> Some q \<longrightarrow> plock (ptable demo_ptab q) = initlock"
    using demo_ptab_free [of "{..<NPROC}"] by (simp add: plocks_free_def)
  moreover have "cpu_ok (mycpu demo_ptab)" using demo_ptab_free [of "{}"] by (simp add: plocks_free_def)
  ultimately show ?thesis
    by (simp add: wakeup_wakes_sleepers) (simp add: demo_ptab_def demo_proc_def demo_cpu_def NPROC_def)
qed



end
