(* ===== verification/Sleeplock.thy ===== *)
theory Sleeplock
  imports Proc_Sync
begin

text \<open>
  \<^verbatim>\<open>kernel/sleeplock.c\<close>. A sleep-lock is a field of some object of the kernel state; the
  argument \<^verbatim>\<open>struct sleeplock *lk\<close> is a reference: how to read the lock in the state, how to
  write it, and the channel that its address is. \<open>acquiresleep_try\<close> is the code up to a call
  of \<^verbatim>\<open>sleep\<close>; in \<open>acquiresleep\<close>, which callers that run to completion use, a lock that another
  process holds is \<open>Hang\<close>.

  The locale \<open>sleeplock_ref\<close> states what makes a reference one (reading after writing, and that
  the lock is a field apart from the processor and the process table) and derives the
  behaviour of the operations; every kind of object with a sleep-lock interprets it.
\<close>

record sleeplock =
  slocked :: bool
  slk :: spinlock
  spid :: uint32

record 's slref =
  sl_get :: "'s \<Rightarrow> sleeplock"
  sl_put :: "sleeplock \<Rightarrow> 's \<Rightarrow> 's"
  sl_chan :: chan

definition initsleeplock :: sleeplock where
  "initsleeplock = \<lparr>slocked = False, slk = initlock, spid = 0\<rparr>"

definition slk_acquire :: "'a ptab_scheme slref \<Rightarrow> 'a ptab_scheme \<Rightarrow> 'a ptab_scheme res" where
  "slk_acquire lk s = rbind (acquire (slk (sl_get lk s)) (mycpu s)) (\<lambda>(l, c).
     Ok (sl_put lk ((sl_get lk s)\<lparr>slk := l\<rparr>) (s\<lparr>mycpu := c\<rparr>)))"

definition slk_release :: "'a ptab_scheme slref \<Rightarrow> 'a ptab_scheme \<Rightarrow> 'a ptab_scheme res" where
  "slk_release lk s = rbind (release (slk (sl_get lk s)) (mycpu s)) (\<lambda>(l, c).
     Ok (sl_put lk ((sl_get lk s)\<lparr>slk := l\<rparr>) (s\<lparr>mycpu := c\<rparr>)))"

text \<open>The body of \<^verbatim>\<open>acquiresleep\<close> after \<^verbatim>\<open>acquire(&lk->lk)\<close>, run again after each \<^verbatim>\<open>sleep\<close>.\<close>

definition acquiresleep_loop :: "'a ptab_scheme slref \<Rightarrow> 'a ptab_scheme \<Rightarrow> (unit outcome \<times> bool \<times> 'a ptab_scheme) res" where
  "acquiresleep_loop lk s =
     (if slocked (sl_get lk s)
      then rbind (sleep_enter (Some (sl_chan lk)) (slk_release lk) s) (\<lambda>(b, s). Ok (Block (sl_chan lk), b, s))
      else
        let s = sl_put lk ((sl_get lk s)\<lparr>slocked := True\<rparr>) s
        in current s (\<lambda>p s.
           let s = sl_put lk ((sl_get lk s)\<lparr>spid := pid (ptable s p)\<rparr>) s
           in rbind (slk_release lk s) (\<lambda>s. Ok (Ret (), False, s))))"

definition acquiresleep_try :: "'a ptab_scheme slref \<Rightarrow> 'a ptab_scheme \<Rightarrow> (unit outcome \<times> bool \<times> 'a ptab_scheme) res" where
  "acquiresleep_try lk s = rbind (slk_acquire lk s) (acquiresleep_loop lk)"

definition acquiresleep_resume :: "'a ptab_scheme slref \<Rightarrow> nat \<Rightarrow> bool \<Rightarrow> 'a ptab_scheme \<Rightarrow> (unit outcome \<times> bool \<times> 'a ptab_scheme) res" where
  "acquiresleep_resume lk p b s = rbind (sleep_leave p b (slk_acquire lk) s) (acquiresleep_loop lk)"

definition acquiresleep :: "'a ptab_scheme slref \<Rightarrow> 'a ptab_scheme \<Rightarrow> 'a ptab_scheme res" where
  "acquiresleep lk s = rbind (acquiresleep_try lk s) (\<lambda>(r, b, s). case r of Ret _ \<Rightarrow> Ok s | Block _ \<Rightarrow> Hang)"

definition releasesleep :: "'a ptab_scheme slref \<Rightarrow> 'a ptab_scheme \<Rightarrow> 'a ptab_scheme res" where
  "releasesleep lk s =
     rbind (slk_acquire lk s) (\<lambda>s.
     let s = sl_put lk ((sl_get lk s)\<lparr>slocked := False\<rparr>) s;
         s = sl_put lk ((sl_get lk s)\<lparr>spid := 0\<rparr>) s
     in rbind (wakeup (Some (sl_chan lk)) s) (slk_release lk))"

definition holdingsleep :: "'a ptab_scheme slref \<Rightarrow> 'a ptab_scheme \<Rightarrow> (bool \<times> 'a ptab_scheme) res" where
  "holdingsleep lk s =
     rbind (slk_acquire lk s) (\<lambda>s.
     rbind (if slocked (sl_get lk s)
            then current s (\<lambda>p s. Ok (spid (sl_get lk s) = pid (ptable s p), s))
            else Ok (False, s)) (\<lambda>(r, s).
     rbind (slk_release lk s) (\<lambda>s. Ok (r, s))))"

section \<open>Running to completion\<close>

text \<open>
  A hart that runs a process outside every critical section, with the spinlocks of the table
  free, and how the table may change while it works for that process: others wake up.
\<close>

definition running :: "'a ptab_scheme \<Rightarrow> nat \<Rightarrow> bool" where
  "running s p \<longleftrightarrow> cpu_ok (mycpu s) \<and> noff (mycpu s) = 0 \<and> cpu_proc (mycpu s) = Some p \<and> p < NPROC \<and>
     state (ptable s p) = RUNNING \<and> chan (ptable s p) = None \<and> (\<forall>q < NPROC. plock (ptable s q) = initlock)"

definition woke :: "'a ptab_scheme \<Rightarrow> 'a ptab_scheme \<Rightarrow> bool" where
  "woke s s' \<longleftrightarrow> crit (mycpu s') = crit (mycpu s) \<and>
     (\<forall>q. ptable s' q = ptable s q \<or>
        state (ptable s q) = SLEEPING \<and> ptable s' q = (ptable s q)\<lparr>state := RUNNABLE\<rparr>)"

lemma woke_refl [simp]: "woke s s"
  by (simp add: woke_def)

lemma woke_trans: "woke s s' \<Longrightarrow> woke s' s'' \<Longrightarrow> woke s s''"
  unfolding woke_def by (metis procstate.distinct(23) proc.select_convs(2) proc.surjective proc.update_convs(2))

lemma woke_crit: "ptable s' = ptable s \<Longrightarrow> mycpu s' = crit (mycpu s) \<Longrightarrow> woke s s'"
  by (simp add: woke_def)

lemma woke_wake_from:
  "ptable s' = wake_from ch me p (ptable s) \<Longrightarrow> mycpu s' = crit (mycpu s) \<Longrightarrow> woke s s'"
  by (auto simp: woke_def wake_from_def woken_def)

lemma crit_eq_iff: "crit c' = crit c \<Longrightarrow> cpu_id c' = cpu_id c \<and> cpu_proc c' = cpu_proc c \<and> noff c' = noff c \<and>
    sstatus c' = sstatus c \<and> intr_get c' = intr_get c \<and> cpu_ok c' = cpu_ok c"
  by (metis crit_simps cpu_ok_crit)

lemma running_woke:
  assumes "running s p" and "woke s s'"
  shows "running s' p" "ptable s' p = ptable s p"
proof -
  have c: "crit (mycpu s') = crit (mycpu s)" and t: "\<And>q. ptable s' q = ptable s q \<or>
        state (ptable s q) = SLEEPING \<and> ptable s' q = (ptable s q)\<lparr>state := RUNNABLE\<rparr>"
    using assms(2) by (auto simp: woke_def)
  have run: "state (ptable s p) = RUNNING" using assms(1) by (simp add: running_def)
  then show p: "ptable s' p = ptable s p" using t [of p] by auto
  have "plock (ptable s' q) = plock (ptable s q)" for q using t [of q] by auto
  then show "running s' p" using assms(1) crit_eq_iff [OF c] p by (simp add: running_def)
qed

locale sleeplock_ref =
  fixes lk :: "'a ptab_scheme slref"
  assumes get_put: "sl_get lk (sl_put lk l s) = l"
    and put_put: "sl_put lk l (sl_put lk l' s) = sl_put lk l s"
    and put_get: "sl_put lk (sl_get lk s) s = s"
    and get_frame: "sl_get lk (s\<lparr>mycpu := c\<rparr>) = sl_get lk s" "sl_get lk (s\<lparr>ptable := t\<rparr>) = sl_get lk s"
    and put_frame: "mycpu (sl_put lk l s) = mycpu s" "ptable (sl_put lk l s) = ptable s"
    and put_comm: "(sl_put lk l s)\<lparr>mycpu := c\<rparr> = sl_put lk l (s\<lparr>mycpu := c\<rparr>)"
      "(sl_put lk l s)\<lparr>ptable := t\<rparr> = sl_put lk l (s\<lparr>ptable := t\<rparr>)"
begin

lemmas ref_simps = get_put put_put get_frame put_frame put_comm

lemma slk_acquire_free:
  "slk (sl_get lk s) = initlock \<Longrightarrow>
   slk_acquire lk s = Ok (sl_put lk ((sl_get lk s)\<lparr>slk := held_by (cpu_id (mycpu s))\<rparr>) (s\<lparr>mycpu := push_off (mycpu s)\<rparr>))"
  by (simp add: slk_acquire_def acquire_free)

lemma slk_release_held:
  "slk (sl_get lk s) = held_by (cpu_id c) \<Longrightarrow> mycpu s = push_off c \<Longrightarrow> cpu_ok c \<Longrightarrow>
   slk_release lk s = Ok (sl_put lk ((sl_get lk s)\<lparr>slk := initlock\<rparr>) (s\<lparr>mycpu := crit c\<rparr>))"
  by (simp add: slk_release_def release_push_off)

lemma cpu_facts:
  assumes "running s p"
  shows "cpu_ok (mycpu s)" "cpu_ok (push_off (mycpu s))" "cpu_proc (mycpu s) = Some p" "crit (push_off (mycpu s)) = push_off (mycpu s)"
  using assms by (auto simp: running_def cpu_ok_push_off crit_push_off cpu_ok_def)

lemma acquiresleep_free:
  assumes "running s p" and "sl_get lk s = initsleeplock"
  shows "acquiresleep lk s = Ok (sl_put lk \<lparr>slocked = True, slk = initlock, spid = pid (ptable s p)\<rparr> (s\<lparr>mycpu := crit (mycpu s)\<rparr>))"
  using assms(2) cpu_facts [OF assms(1)]
  by (simp add: acquiresleep_def acquiresleep_try_def acquiresleep_loop_def slk_acquire_free initsleeplock_def ref_simps
      current_eq [of _ p] slk_release_held [where c = "mycpu s"])

lemma acquiresleep_held:
  assumes "running s p" and "slk (sl_get lk s) = initlock" and "slocked (sl_get lk s)"
  shows "\<nexists>s'. acquiresleep lk s = Ok s'"
  using assms(2,3)
  by (auto simp: acquiresleep_def acquiresleep_try_def acquiresleep_loop_def slk_acquire_free ref_simps)

lemma releasesleep_held:
  assumes "running s p" and "slk (sl_get lk s) = initlock"
  shows "releasesleep lk s = Ok (sl_put lk initsleeplock (s\<lparr>mycpu := crit (mycpu s), ptable := wake_from (Some (sl_chan lk)) (Some p) 0 (ptable s)\<rparr>))"
proof -
  have free: "\<forall>q < NPROC. plock (ptable s q) = initlock" using assms(1) by (simp add: running_def)
  have comm: "s\<lparr>ptable := t, mycpu := c\<rparr> = s\<lparr>mycpu := c, ptable := t\<rparr>" for t c by simp
  have upd: "(sl_get lk s)\<lparr>slocked := False, spid := 0, slk := initlock\<rparr> = initsleeplock"
    by (cases "sl_get lk s") (simp add: initsleeplock_def)
  show ?thesis
    using assms(2) cpu_facts [OF assms(1)] free
    by (simp add: comm upd releasesleep_def slk_acquire_free ref_simps wakeup_eq slk_release_held [where c = "mycpu s"])
qed

lemma holdingsleep_eq:
  assumes "running s p" and "slk (sl_get lk s) = initlock"
  shows "holdingsleep lk s = Ok (slocked (sl_get lk s) \<and> spid (sl_get lk s) = pid (ptable s p), s\<lparr>mycpu := crit (mycpu s)\<rparr>)"
proof -
  have put: "sl_put lk ((sl_get lk s)\<lparr>slk := initlock\<rparr>) (s\<lparr>mycpu := c\<rparr>) = s\<lparr>mycpu := c\<rparr>" for c
    using put_get [of "s\<lparr>mycpu := c\<rparr>"] assms(2) by (cases "sl_get lk s") (simp add: get_frame)
  show ?thesis
    using assms(2) cpu_facts [OF assms(1)] put
    by (simp add: holdingsleep_def slk_acquire_free ref_simps current_eq [of _ p] slk_release_held [where c = "mycpu s"])
qed

end

end
