(* ===== verification/Virtio.thy ===== *)
theory Virtio
  imports Sleeplock
begin

text \<open>
  \<^verbatim>\<open>kernel/virtio_disk.c\<close>: the driver of the disk, and \<^verbatim>\<open>struct buf\<close>. The descriptor table and
  the two rings are fields of \<open>vdisk\<close>; the addresses in descriptors name the objects they point
  to. The device is not part of the source: it is an argument \<open>D\<close> of the driver, the function
  on the state that the device performs between a notification and its interrupt;
  \<open>virtio_device\<close> is what the virtio specification says of it.

  \<^verbatim>\<open>virtio_disk_rw\<close> waits for the interrupt in \<^verbatim>\<open>sleep\<close>. The model runs it to completion on the
  schedule in which the hart goes back to the scheduler, the device finishes, the interrupt is
  taken, and the process is chosen again. Two statements only reach the device's registers and
  leave nothing in the driver's state: the write of \<^verbatim>\<open>VIRTIO_MMIO_QUEUE_NOTIFY\<close>, after which
  \<open>D\<close> is applied, and the write of \<^verbatim>\<open>VIRTIO_MMIO_INTERRUPT_ACK\<close> at the start of
  \<^verbatim>\<open>virtio_disk_intr\<close>, which lets the device raise its next interrupt; it is left out, and the
  model takes the interrupt once for each request.
\<close>

definition BSIZE :: nat where [layout_defs]: "BSIZE = 1024"
definition NUM :: nat where [layout_defs]: "NUM = 8"
definition VRING_DESC_F_NEXT :: ushort where [layout_defs]: "VRING_DESC_F_NEXT = 1"
definition VRING_DESC_F_WRITE :: ushort where [layout_defs]: "VRING_DESC_F_WRITE = 2"
definition VIRTIO_BLK_T_IN :: uint32 where [layout_defs]: "VIRTIO_BLK_T_IN = 0"
definition VIRTIO_BLK_T_OUT :: uint32 where [layout_defs]: "VIRTIO_BLK_T_OUT = 1"

section \<open>State\<close>

record buf =
  bvalid :: bool
  bdisk :: bool
  bdev :: uint32
  bblockno :: uint32
  block :: sleeplock
  brefcnt :: uint32
  bprev :: nat
  bnext :: nat
  bdata :: "uchar list"

datatype daddr = NoAddr | OpsAddr nat | DataAddr nat | StatusAddr nat

record virtq_desc =
  d_addr :: daddr
  d_len :: uint32
  d_flags :: ushort
  d_next :: ushort

record virtio_blk_req =
  rq_type :: uint32
  rq_reserved :: uint32
  rq_sector :: uint64

record vdisk =
  desc :: "nat \<Rightarrow> virtq_desc"
  avail_idx :: ushort
  avail_ring :: "nat \<Rightarrow> ushort"
  used_idx_dev :: ushort
  used_ring :: "nat \<Rightarrow> uint32"
  dfree :: "nat \<Rightarrow> bool"
  used_idx :: ushort
  info_b :: "nat \<Rightarrow> nat option"
  info_status :: "nat \<Rightarrow> uchar"
  ops :: "nat \<Rightarrow> virtio_blk_req"
  vdisk_lock :: spinlock

text \<open>
  The device's side: what is stored in the disk's blocks of \<^verbatim>\<open>BSIZE\<close> bytes (two sectors each),
  as the initial image and the writes performed since, oldest first.
\<close>

record vdev =
  image :: "uint64 \<Rightarrow> uchar list"
  writes :: "(uint64 \<times> uchar list) list"

record bio = ptab +
  bcache_lock :: spinlock
  bufs :: "nat \<Rightarrow> buf"
  disk :: vdisk
  vdev :: vdev

definition content :: "vdev \<Rightarrow> uint64 \<Rightarrow> uchar list" where
  "content d = foldl (\<lambda>m (n, v). m(n := v)) (image d) (writes d)"

definition upd_buf :: "nat \<Rightarrow> (buf \<Rightarrow> buf) \<Rightarrow> 'a bio_scheme \<Rightarrow> 'a bio_scheme" where
  "upd_buf b f s = s\<lparr>bufs := (bufs s)(b := f (bufs s b))\<rparr>"

definition buf_chan :: "nat \<Rightarrow> chan" where
  "buf_chan b = Chan ''buf'' b"

definition free_chan :: chan where
  "free_chan = Chan ''disk.free'' 0"

definition vdisk_acquire :: "'a bio_scheme \<Rightarrow> 'a bio_scheme res" where
  "vdisk_acquire s = rbind (acquire (vdisk_lock (disk s)) (mycpu s)) (\<lambda>(lk, c).
     Ok (s\<lparr>disk := (disk s)\<lparr>vdisk_lock := lk\<rparr>, mycpu := c\<rparr>))"

definition vdisk_release :: "'a bio_scheme \<Rightarrow> 'a bio_scheme res" where
  "vdisk_release s = rbind (release (vdisk_lock (disk s)) (mycpu s)) (\<lambda>(lk, c).
     Ok (s\<lparr>disk := (disk s)\<lparr>vdisk_lock := lk\<rparr>, mycpu := c\<rparr>))"

section \<open>Descriptors\<close>

function alloc_desc_loop :: "nat \<Rightarrow> vdisk \<Rightarrow> nat option \<times> vdisk" where
  "alloc_desc_loop i d =
     (if i < NUM then
        if dfree d i then (Some i, d\<lparr>dfree := (dfree d)(i := False)\<rparr>) else alloc_desc_loop (Suc i) d
      else (None, d))"
  by pat_completeness auto
termination
  by (relation "measure (\<lambda>(i, d). NUM - i)") auto

declare alloc_desc_loop.simps [simp del]

definition alloc_desc :: "'a bio_scheme \<Rightarrow> nat option \<times> 'a bio_scheme" where
  "alloc_desc s = (let (r, d) = alloc_desc_loop 0 (disk s) in (r, s\<lparr>disk := d\<rparr>))"

definition free_desc :: "nat \<Rightarrow> 'a bio_scheme \<Rightarrow> 'a bio_scheme res" where
  "free_desc i s =
     (if i \<ge> NUM then Panic ''free_desc 1''
      else if dfree (disk s) i then Panic ''free_desc 2''
      else
        let d = disk s;
            d = d\<lparr>desc := (desc d)(i := \<lparr>d_addr = NoAddr, d_len = 0, d_flags = 0, d_next = 0\<rparr>)\<rparr>;
            d = d\<lparr>dfree := (dfree d)(i := True)\<rparr>
        in wakeup (Some free_chan) (s\<lparr>disk := d\<rparr>))"

lemma bio_more_eq:
  "ptab.more s' = ptab.more s \<Longrightarrow> disk s' = disk s \<and> bufs s' = bufs s \<and> vdev s' = vdev s \<and> bcache_lock s' = bcache_lock s \<and>
   bio.more s' = bio.more s"
  by (cases s; cases s') simp

lemma free_desc_Ok:
  "free_desc i s = Ok s' \<Longrightarrow> i < NUM \<and> \<not> dfree (disk s) i \<and> dfree (disk s') = (dfree (disk s))(i := True)"
  by (auto simp: free_desc_def Let_def ptab_env_def split: if_splits dest!: wakeup_env bio_more_eq)

definition num_busy :: "vdisk \<Rightarrow> nat" where
  "num_busy d = card {i. i < NUM \<and> \<not> dfree d i}"

lemma num_busy_free:
  assumes "i < NUM" and "\<not> dfree d i" and "dfree d' = (dfree d)(i := True)"
  shows "num_busy d' < num_busy d"
  unfolding num_busy_def by (rule psubset_card_mono) (use assms in auto)

function free_chain :: "nat \<Rightarrow> 'a bio_scheme \<Rightarrow> 'a bio_scheme res" where
  "free_chain i s =
     (let flag = d_flags (desc (disk s) i); nxt = d_next (desc (disk s) i)
      in rbind (free_desc i s) (\<lambda>s.
         if flag AND VRING_DESC_F_NEXT \<noteq> 0 then free_chain (unat nxt) s else Ok s))"
  by pat_completeness auto
termination
  by (relation "measure (\<lambda>(i, s). num_busy (disk s))") (auto dest!: free_desc_Ok intro: num_busy_free)

declare free_chain.simps [simp del]

text \<open>\<^verbatim>\<open>idx\<close> is the list of the descriptors allocated so far.\<close>

primrec free_descs :: "nat list \<Rightarrow> 'a bio_scheme \<Rightarrow> 'a bio_scheme res" where
  "free_descs [] s = Ok s"
| "free_descs (i # ix) s = rbind (free_desc i s) (free_descs ix)"

primrec alloc3_desc_loop :: "nat \<Rightarrow> nat list \<Rightarrow> 'a bio_scheme \<Rightarrow> (nat list option \<times> 'a bio_scheme) res" where
  "alloc3_desc_loop 0 ix s = Ok (Some ix, s)"
| "alloc3_desc_loop (Suc n) ix s =
     (let (r, s) = alloc_desc s in
      case r of
        None \<Rightarrow> rbind (free_descs ix s) (\<lambda>s. Ok (None, s))
      | Some i \<Rightarrow> alloc3_desc_loop n (ix @ [i]) s)"

definition alloc3_desc :: "'a bio_scheme \<Rightarrow> (nat list option \<times> 'a bio_scheme) res" where
  "alloc3_desc s = alloc3_desc_loop 3 [] s"

section \<open>Requests\<close>

definition upd_disk :: "(vdisk \<Rightarrow> vdisk) \<Rightarrow> 'a bio_scheme \<Rightarrow> 'a bio_scheme" where
  "upd_disk f s = s\<lparr>disk := f (disk s)\<rparr>"

definition set_desc :: "nat \<Rightarrow> daddr \<Rightarrow> nat \<Rightarrow> ushort \<Rightarrow> nat \<Rightarrow> vdisk \<Rightarrow> vdisk" where
  "set_desc i a len flags nxt d =
     d\<lparr>desc := (desc d)(i := \<lparr>d_addr = a, d_len = word_of_nat len, d_flags = flags, d_next = word_of_nat nxt\<rparr>)\<rparr>"

text \<open>Formatting the descriptors, up to the write of the notification register.\<close>

definition virtio_submit :: "nat \<Rightarrow> nat \<Rightarrow> nat \<Rightarrow> nat \<Rightarrow> bool \<Rightarrow> 'a bio_scheme \<Rightarrow> 'a bio_scheme" where
  "virtio_submit i0 i1 i2 b write s =
     (let sector = ucast (bblockno (bufs s b) * word_of_nat (BSIZE div 512)) :: uint64;
          s = upd_disk (\<lambda>d. d\<lparr>ops := (ops d)(i0 :=
                \<lparr>rq_type = if write then VIRTIO_BLK_T_OUT else VIRTIO_BLK_T_IN, rq_reserved = 0, rq_sector = sector\<rparr>)\<rparr>) s;
          s = upd_disk (set_desc i0 (OpsAddr i0) 16 VRING_DESC_F_NEXT i1) s;
          s = upd_disk (set_desc i1 (DataAddr b) BSIZE ((if write then 0 else VRING_DESC_F_WRITE) OR VRING_DESC_F_NEXT) i2) s;
          s = upd_disk (\<lambda>d. d\<lparr>info_status := (info_status d)(i0 := 0xff)\<rparr>) s;
          s = upd_disk (set_desc i2 (StatusAddr i0) 1 VRING_DESC_F_WRITE 0) s;
          s = upd_buf b (bdisk_update (\<lambda>_. True)) s;
          s = upd_disk (\<lambda>d. d\<lparr>info_b := (info_b d)(i0 := Some b)\<rparr>) s;
          s = upd_disk (\<lambda>d. d\<lparr>avail_ring := (avail_ring d)(unat (avail_idx d) mod NUM := word_of_nat i0)\<rparr>) s
      in upd_disk (\<lambda>d. d\<lparr>avail_idx := avail_idx d + 1\<rparr>) s)"

text \<open>
  The handler's loop ends when it has seen as many entries as the device has added, at most
  \<open>2 ^ 16\<close> because both counters have 16 bits.
\<close>

function virtio_intr_loop :: "'a bio_scheme \<Rightarrow> 'a bio_scheme res" where
  "virtio_intr_loop s =
     (if used_idx (disk s) \<noteq> used_idx_dev (disk s) then
        let i = unat (used_ring (disk s) (unat (used_idx (disk s)) mod NUM)) in
        if info_status (disk s) i \<noteq> 0 then Panic ''virtio_disk_intr status''
        else
          case info_b (disk s) i of
            None \<Rightarrow> Panic ''kerneltrap''
          | Some b \<Rightarrow>
              rbind (wakeup (Some (buf_chan b)) (upd_buf b (bdisk_update (\<lambda>_. False)) s)) (\<lambda>s.
              virtio_intr_loop (upd_disk (\<lambda>d. d\<lparr>used_idx := used_idx d + 1\<rparr>) s))
      else Ok s)"
  by pat_completeness auto
termination
proof (relation "measure (\<lambda>s. unat (used_idx_dev (disk s) - used_idx (disk s)))", goal_cases)
  case 1
  then show ?case by simp
next
  case (2 s i b s')
  have "disk s' = disk s"
    using 2(5) by (auto simp: ptab_env_def upd_buf_def dest!: wakeup_env bio_more_eq)
  moreover have "used_idx_dev (disk s) - used_idx (disk s) \<noteq> 0" using 2(1) by simp
  then have "unat (used_idx_dev (disk s) - used_idx (disk s) - 1) < unat (used_idx_dev (disk s) - used_idx (disk s))"
    by (simp add: unat_minus_one unat_gt_0)
  ultimately show ?case by (simp add: upd_disk_def algebra_simps)
qed

declare virtio_intr_loop.simps [simp del]

definition virtio_disk_intr :: "'a bio_scheme \<Rightarrow> 'a bio_scheme res" where
  "virtio_disk_intr s = rbind (vdisk_acquire s) (\<lambda>s. rbind (virtio_intr_loop s) vdisk_release)"

text \<open>
  \<^verbatim>\<open>sleep(b, &disk.vdisk_lock)\<close>, with what happens until it returns, and the loop around it: it
  runs again as long as the buffer still belongs to the disk, at most \<open>n\<close> times.
\<close>

definition disk_sleep :: "('a bio_scheme \<Rightarrow> 'a bio_scheme) \<Rightarrow> nat \<Rightarrow> 'a bio_scheme \<Rightarrow> 'a bio_scheme res" where
  "disk_sleep D b s =
     current s (\<lambda>p s.
     rbind (sleep_enter (Some (buf_chan b)) vdisk_release s) (\<lambda>(ie, s).
     rbind (scheduler_back p s) (\<lambda>s.
     rbind (virtio_disk_intr (D s)) (\<lambda>s.
     rbind (scheduler_pick p s) (\<lambda>(chosen, s).
     if chosen then sleep_leave p ie vdisk_acquire s else Hang)))))"

primrec disk_wait :: "('a bio_scheme \<Rightarrow> 'a bio_scheme) \<Rightarrow> nat \<Rightarrow> nat \<Rightarrow> 'a bio_scheme \<Rightarrow> 'a bio_scheme res" where
  "disk_wait D 0 b s = (if bdisk (bufs s b) then Hang else Ok s)"
| "disk_wait D (Suc n) b s = (if bdisk (bufs s b) then rbind (disk_sleep D b s) (disk_wait D n b) else Ok s)"

definition virtio_disk_rw :: "('a bio_scheme \<Rightarrow> 'a bio_scheme) \<Rightarrow> nat \<Rightarrow> bool \<Rightarrow> 'a bio_scheme \<Rightarrow> 'a bio_scheme res" where
  "virtio_disk_rw D b write s =
     rbind (vdisk_acquire s) (\<lambda>s.
     rbind (alloc3_desc s) (\<lambda>(r, s).
     case r of
       None \<Rightarrow> Hang
     | Some ix \<Rightarrow>
         let s = virtio_submit (ix ! 0) (ix ! 1) (ix ! 2) b write s in
         rbind (disk_wait D 1 b s) (\<lambda>s.
         let s = upd_disk (\<lambda>d. d\<lparr>info_b := (info_b d)(ix ! 0 := None)\<rparr>) s in
         rbind (free_chain (ix ! 0) s) vdisk_release)))"

end
