(* ===== verification/Virtio_Spec.thy ===== *)
theory Virtio_Spec
  imports Virtio
begin

text \<open>
  The driver on a device that does what the virtio specification says: a transfer reads the
  block into the buffer or writes it, leaves the rings and descriptors as they were found, and
  wakes the process that waits.
\<close>

section \<open>The device\<close>

text \<open>What a virtio block device does with the chain of three descriptors that starts at \<open>h\<close>.\<close>

definition serve :: "nat \<Rightarrow> 'a bio_scheme \<Rightarrow> 'a bio_scheme" where
  "serve h s =
     (let d = disk s;
          i1 = unat (d_next (desc d h));
          i2 = unat (d_next (desc d i1));
          d' = d\<lparr>used_ring := (used_ring d)(unat (used_idx_dev d) mod NUM := word_of_nat h), used_idx_dev := used_idx_dev d + 1\<rparr>
      in case (d_addr (desc d h), d_addr (desc d i1), d_addr (desc d i2)) of
           (OpsAddr r, DataAddr b, StatusAddr t) \<Rightarrow>
             let n = rq_sector (ops d r) div 2;
                 s = s\<lparr>disk := d'\<lparr>info_status := (info_status d)(t := 0)\<rparr>\<rparr>
             in if rq_type (ops d r) = VIRTIO_BLK_T_OUT
                then s\<lparr>vdev := (vdev s)\<lparr>writes := writes (vdev s) @ [(n, bdata (bufs s b))]\<rparr>\<rparr>
                else upd_buf b (bdata_update (\<lambda>_. content (vdev s) n)) s
         | _ \<Rightarrow> s)"

text \<open>The driver has added one chain to the available ring that the device has not used yet.\<close>

definition pending :: "'a bio_scheme \<Rightarrow> nat \<Rightarrow> bool" where
  "pending s h \<longleftrightarrow> avail_idx (disk s) = used_idx_dev (disk s) + 1 \<and>
     unat (avail_ring (disk s) (unat (used_idx_dev (disk s)) mod NUM)) = h"

definition virtio_device :: "('a bio_scheme \<Rightarrow> 'a bio_scheme) \<Rightarrow> bool" where
  "virtio_device D \<longleftrightarrow> (\<forall>s h. pending s h \<longrightarrow> D s = serve h s)"

section \<open>States of the driver\<close>

definition vst :: "'a bio_scheme \<Rightarrow> cpu \<Rightarrow> (nat \<Rightarrow> proc) \<Rightarrow> vdisk \<Rightarrow> (nat \<Rightarrow> buf) \<Rightarrow> vdev \<Rightarrow> 'a bio_scheme" where
  "vst s c t d bs v = s\<lparr>mycpu := c, ptable := t, disk := d, bufs := bs, vdev := v\<rparr>"

lemma vst_simps [simp]:
  "mycpu (vst s c t d bs v) = c" "ptable (vst s c t d bs v) = t" "disk (vst s c t d bs v) = d"
  "bufs (vst s c t d bs v) = bs" "vdev (vst s c t d bs v) = v"
  "(vst s c t d bs v)\<lparr>mycpu := c'\<rparr> = vst s c' t d bs v" "(vst s c t d bs v)\<lparr>ptable := t'\<rparr> = vst s c t' d bs v"
  "(vst s c t d bs v)\<lparr>disk := d'\<rparr> = vst s c t d' bs v" "(vst s c t d bs v)\<lparr>bufs := bs'\<rparr> = vst s c t d bs' v"
  "(vst s c t d bs v)\<lparr>vdev := v'\<rparr> = vst s c t d bs v'" "vst (vst s c t d bs v) c' t' d' bs' v' = vst s c' t' d' bs' v'"
  by (simp_all add: vst_def)

lemma vst_id: "s = vst s (mycpu s) (ptable s) (disk s) (bufs s) (vdev s)"
  by (simp add: vst_def)

lemma vst_upd [simp]:
  "upd_proc p f (vst s c t d bs v) = vst s c (t(p := f (t p))) d bs v"
  "upd_disk g (vst s c t d bs v) = vst s c t (g d) bs v"
  "upd_buf b h (vst s c t d bs v) = vst s c t d (bs(b := h (bs b))) v"
  by (simp_all add: upd_proc_def upd_disk_def upd_buf_def)

definition table_free :: "(nat \<Rightarrow> proc) \<Rightarrow> bool" where
  "table_free t \<longleftrightarrow> (\<forall>q < NPROC. plock (t q) = initlock)"

lemma table_free_wake [simp]: "table_free t \<Longrightarrow> table_free (wake_from ch me p t)"
  by (simp add: table_free_def wake_from_def)

lemma table_free_upd: "table_free t \<Longrightarrow> plock q = initlock \<Longrightarrow> table_free (t(p := q))"
  by (simp add: table_free_def)

lemma vdisk_acquire_vst:
  "vdisk_lock d = initlock \<Longrightarrow>
   vdisk_acquire (vst s c t d bs v) = Ok (vst s (push_off c) t (d\<lparr>vdisk_lock := held_by (cpu_id c)\<rparr>) bs v)"
  by (simp add: vdisk_acquire_def acquire_free)

lemma vdisk_release_vst:
  "vdisk_lock d = held_by (cpu_id c) \<Longrightarrow> cpu_ok c \<Longrightarrow> vdisk_release (vst s (push_off c) t d bs v) =
   Ok (vst s (crit c) t (d\<lparr>vdisk_lock := initlock\<rparr>) bs v)"
  by (simp add: vdisk_release_def release_push_off)

lemma wakeup_vst:
  "cpu_ok c \<Longrightarrow> \<forall>q < NPROC. cpu_proc c \<noteq> Some q \<longrightarrow> plock (t q) = initlock \<Longrightarrow>
   wakeup ch (vst s c t d bs v) = Ok (vst s (crit c) (wake_from ch (cpu_proc c) 0 t) d bs v)"
  by (simp add: wakeup_eq)

lemma plock_vst:
  "plock (t p) = initlock \<Longrightarrow>
   plock_acquire p (vst s c t d bs v) = Ok (vst s (push_off c) (t(p := (t p)\<lparr>plock := held_by (cpu_id c)\<rparr>)) d bs v)"
  "plock (t p) = held_by (cpu_id c) \<Longrightarrow> cpu_ok c \<Longrightarrow>
   plock_release p (vst s (push_off c) t d bs v) = Ok (vst s (crit c) (t(p := (t p)\<lparr>plock := initlock\<rparr>)) d bs v)"
  by (simp_all add: plock_acquire_free plock_release_held [where c = c])

section \<open>Descriptors\<close>

lemma alloc3_desc_free:
  assumes "\<forall>i < NUM. dfree d i"
  shows "alloc3_desc (vst s c t d bs v) = Ok (Some [0, 1, 2], vst s c t (d\<lparr>dfree := (dfree d)(0 := False, 1 := False, 2 := False)\<rparr>) bs v)"
  using assms
  by (simp add: alloc3_desc_def alloc_desc_def numeral_3_eq_3 alloc_desc_loop.simps NUM_def One_nat_def numeral_2_eq_2)

definition no_desc :: virtq_desc where
  "no_desc = \<lparr>d_addr = NoAddr, d_len = 0, d_flags = 0, d_next = 0\<rparr>"

lemma free_desc_vst:
  assumes "i < NUM" and "\<not> dfree d i" and "cpu_ok c" and "table_free t"
  shows "free_desc i (vst s (push_off c) t d bs v) = Ok (vst s (push_off c) (wake_from (Some free_chan) (cpu_proc c) 0 t)
    (d\<lparr>desc := (desc d)(i := no_desc), dfree := (dfree d)(i := True)\<rparr>) bs v)"
proof -
  have "crit (push_off c) = push_off c" using assms(3) by (intro crit_push_off) (simp add: cpu_ok_def)
  then show ?thesis
    using assms by (simp add: free_desc_def wakeup_vst cpu_ok_push_off table_free_def no_desc_def)
qed

lemma wake_from_twice [simp]: "wake_from ch me p (wake_from ch me p t) = wake_from ch me p t"
  by (rule ext) (simp add: wake_from_def)

lemma free_chain_vst:
  assumes "cpu_ok c" and "table_free t" and "\<not> dfree d 0" and "\<not> dfree d 1" and "\<not> dfree d 2"
    and "desc d 0 = \<lparr>d_addr = a0, d_len = l0, d_flags = VRING_DESC_F_NEXT, d_next = 1\<rparr>"
    and "desc d 1 = \<lparr>d_addr = a1, d_len = l1, d_flags = w OR VRING_DESC_F_NEXT, d_next = 2\<rparr>" and "w = 0 \<or> w = VRING_DESC_F_WRITE"
    and "desc d 2 = \<lparr>d_addr = a2, d_len = l2, d_flags = VRING_DESC_F_WRITE, d_next = 0\<rparr>"
  shows "free_chain 0 (vst s (push_off c) t d bs v) = Ok (vst s (push_off c) (wake_from (Some free_chan) (cpu_proc c) 0 t)
    (d\<lparr>desc := (desc d)(0 := no_desc, 1 := no_desc, 2 := no_desc), dfree := (dfree d)(0 := True, 1 := True, 2 := True)\<rparr>) bs v)"
proof -
  have flags: "VRING_DESC_F_NEXT AND VRING_DESC_F_NEXT \<noteq> 0" "(w OR VRING_DESC_F_NEXT) AND VRING_DESC_F_NEXT \<noteq> 0"
      "VRING_DESC_F_WRITE AND VRING_DESC_F_NEXT = 0"
    using assms(8) by (auto simp: VRING_DESC_F_NEXT_def VRING_DESC_F_WRITE_def)
  show ?thesis
    using assms flags
    by (simp add: free_chain.simps [of 0] free_chain.simps [of "Suc 0"] free_chain.simps [of 2] free_desc_vst NUM_def)
qed

section \<open>Waiting for the device\<close>

lemma push_off_proc: "(push_off c)\<lparr>cpu_proc := q\<rparr> = push_off (c\<lparr>cpu_proc := q\<rparr>)"
  by (cases c) (simp add: push_off_def intr_off_def intr_get_def Let_def)

lemma crit_proc: "(crit c)\<lparr>cpu_proc := q\<rparr> = crit (c\<lparr>cpu_proc := q\<rparr>)"
  by (simp add: crit_def)

lemma intena_push_off: "noff c = 0 \<Longrightarrow> intena (push_off c) = intr_get c"
  by (simp add: push_off_def Let_def intr_off_def)

lemma push_off_intena: "noff c = 0 \<Longrightarrow> (push_off c)\<lparr>intena := intr_get c\<rparr> = push_off c"
  by (cases c) (simp add: push_off_def Let_def intr_off_def intr_get_def)

lemma cpu_id_proc: "cpu_id (c\<lparr>cpu_proc := q\<rparr>) = cpu_id c" "noff (c\<lparr>cpu_proc := q\<rparr>) = noff c" "cpu_ok (c\<lparr>cpu_proc := q\<rparr>) = cpu_ok c"
  by (simp_all add: cpu_ok_def)

lemma sched_vst:
  assumes "cpu_ok c" and "noff c = 0" and "cpu_proc c = Some p" and "plock (t p) = held_by (cpu_id c)" and "state (t p) \<noteq> RUNNING"
  shows "sched (vst s (push_off c) t d bs v) = Ok (intr_get c, vst s (push_off c) t d bs v)"
proof -
  have c: "crit (push_off c) = push_off c" "cpu_ok (push_off c)"
    using assms(1) by (auto intro!: crit_push_off cpu_ok_push_off simp: cpu_ok_def)
  show ?thesis
    using assms c
    by (simp add: sched_def current_eq [of _ p] sched_enter_def holding_def held_by_def intena_push_off)
qed

text \<open>Going to sleep on the buffer, holding the lock of the driver.\<close>

lemma sleep_enter_vst:
  assumes "cpu_ok c" and "noff c = 0" and "cpu_proc c = Some p" and "plock (t p) = initlock" and "vdisk_lock d = held_by (cpu_id c)"
  shows "sleep_enter ch vdisk_release (vst s (push_off c) t d bs v) =
    Ok (intr_get c, vst s (push_off c) (t(p := (t p)\<lparr>plock := held_by (cpu_id c), chan := ch, state := SLEEPING\<rparr>))
      (d\<lparr>vdisk_lock := initlock\<rparr>) bs v)"
proof -
  have c: "crit (push_off c) = push_off c" "cpu_ok (push_off c)"
    using assms(1) by (auto intro!: crit_push_off cpu_ok_push_off simp: cpu_ok_def)
  show ?thesis
    using assms c
    by (simp add: sleep_enter_def current_eq [of _ p] plock_vst vdisk_release_vst [where c = "push_off c"] sched_vst)
qed

lemma scheduler_back_vst:
  assumes "cpu_ok c" and "plock (t p) = held_by (cpu_id c)"
  shows "scheduler_back p (vst s (push_off c) t d bs v) =
    Ok (vst s (crit (c\<lparr>cpu_proc := None\<rparr>)) (t(p := (t p)\<lparr>plock := initlock\<rparr>)) d bs v)"
  using assms plock_vst(2) [of t p "c\<lparr>cpu_proc := None\<rparr>" s d bs v]
  by (simp add: scheduler_back_def push_off_proc cpu_id_proc)

lemma scheduler_pick_vst:
  assumes "plock (t p) = initlock" and "state (t p) = RUNNABLE"
  shows "scheduler_pick p (vst s (crit c) t d bs v) =
    Ok (True, vst s (push_off (c\<lparr>cpu_proc := Some p\<rparr>)) (t(p := (t p)\<lparr>plock := held_by (cpu_id c), state := RUNNING\<rparr>)) d bs v)"
  using assms by (simp add: scheduler_pick_def plock_vst push_off_proc cpu_id_proc)

lemma sleep_leave_vst:
  assumes "cpu_ok c" and "noff c = 0" and "plock (t p) = held_by (cpu_id c)" and "vdisk_lock d = initlock"
  shows "sleep_leave p (intr_get c) vdisk_acquire (vst s (push_off c) t d bs v) =
    Ok (vst s (push_off c) (t(p := (t p)\<lparr>chan := None, plock := initlock\<rparr>)) (d\<lparr>vdisk_lock := held_by (cpu_id c)\<rparr>) bs v)"
  using assms by (simp add: sleep_leave_def sched_leave_def push_off_intena plock_vst vdisk_acquire_vst)

lemma virtio_disk_intr_vst:
  assumes "cpu_ok c" and "table_free t" and "vdisk_lock d = initlock" and "used_idx_dev d = used_idx d + 1"
    and "unat (used_ring d (unat (used_idx d) mod NUM)) = h" and "info_status d h = 0" and "info_b d h = Some b"
  shows "virtio_disk_intr (vst s (crit c) t d bs v) = Ok (vst s (crit c) (wake_from (Some (buf_chan b)) (cpu_proc c) 0 t)
    (d\<lparr>used_idx := used_idx d + 1\<rparr>) (bs(b := (bs b)\<lparr>bdisk := False\<rparr>)) v)"
proof -
  have c: "crit (push_off c) = push_off c" "cpu_ok (push_off c)"
    using assms(1) by (auto intro!: crit_push_off cpu_ok_push_off simp: cpu_ok_def)
  define d' where "d' = d\<lparr>vdisk_lock := held_by (cpu_id c)\<rparr>"
  have "virtio_intr_loop (vst s (push_off c) t d' bs v) =
    virtio_intr_loop (vst s (push_off c) (wake_from (Some (buf_chan b)) (cpu_proc c) 0 t) (d'\<lparr>used_idx := used_idx d + 1\<rparr>) (bs(b := (bs b)\<lparr>bdisk := False\<rparr>)) v)"
    using assms c
    by (subst virtio_intr_loop.simps) (simp add: d'_def wakeup_vst table_free_def)
  also have "\<dots> = Ok (vst s (push_off c) (wake_from (Some (buf_chan b)) (cpu_proc c) 0 t) (d'\<lparr>used_idx := used_idx d + 1\<rparr>) (bs(b := (bs b)\<lparr>bdisk := False\<rparr>)) v)"
    using assms by (subst virtio_intr_loop.simps) (simp add: d'_def)
  finally have loop: "virtio_intr_loop (vst s (push_off c) t d' bs v) = \<dots>" .
  have restore: "d\<lparr>vdisk_lock := held_by (cpu_id c), used_idx := used_idx d + 1, vdisk_lock := initlock\<rparr> = d\<lparr>used_idx := used_idx d + 1\<rparr>"
    using assms(3) by (cases d) simp
  show ?thesis
    unfolding virtio_disk_intr_def using assms loop
    by (simp add: vdisk_acquire_vst d'_def [symmetric]) (simp add: d'_def vdisk_release_vst restore)
qed

lemma disk_sleep_vst:
  assumes c: "cpu_ok c" "noff c = 0" "cpu_proc c = Some p" and p: "p < NPROC" and t: "table_free t" "state (t p) = RUNNING" "chan (t p) = None"
    and d: "vdisk_lock d = held_by (cpu_id c)"
    and D: "\<And>c t. D (vst s c t (d\<lparr>vdisk_lock := initlock\<rparr>) bs v) = vst s c t (d2\<lparr>vdisk_lock := initlock\<rparr>) bs2 v2"
    and d2: "used_idx_dev d2 = used_idx d2 + 1" "unat (used_ring d2 (unat (used_idx d2) mod NUM)) = h"
      "info_status d2 h = 0" "info_b d2 h = Some b"
  shows "disk_sleep D b (vst s (push_off c) t d bs v) = Ok (vst s (push_off c) (wake_from (Some (buf_chan b)) (Some p) 0 t)
    (d2\<lparr>vdisk_lock := held_by (cpu_id c), used_idx := used_idx d2 + 1\<rparr>) (bs2(b := (bs2 b)\<lparr>bdisk := False\<rparr>)) v2)"
proof -
  have c': "crit (push_off c) = push_off c" "cpu_ok (push_off c)" "c\<lparr>cpu_proc := Some p\<rparr> = c"
    using c by (auto intro!: crit_push_off cpu_ok_push_off simp: cpu_ok_def)
  have lock: "plock (t p) = initlock" using t(1) p by (simp add: table_free_def)
  define c0 where "c0 = c\<lparr>cpu_proc := None\<rparr>"
  define t1 where "t1 = t(p := (t p)\<lparr>chan := Some (buf_chan b), state := SLEEPING\<rparr>)"
  define t2 where "t2 = wake_from (Some (buf_chan b)) None 0 t1"
  have c0: "cpu_ok c0" "cpu_proc c0 = None" "cpu_id c0 = cpu_id c" "c0\<lparr>cpu_proc := Some p\<rparr> = c"
    using c(1) c'(3) by (simp_all add: c0_def cpu_id_proc)
  have t2: "table_free t1" "plock (t2 p) = initlock" "state (t2 p) = RUNNABLE"
    using p lock t(1) by (simp_all add: t2_def t1_def wake_from_def woken_def table_free_def)
  have fin: "t2(p := (t2 p)\<lparr>plock := held_by (cpu_id c), state := RUNNING, chan := None, plock := initlock\<rparr>) = wake_from (Some (buf_chan b)) (Some p) 0 t"
  proof (rule ext)
    fix q
    have "(t p)\<lparr>chan := None, state := RUNNING, plock := initlock\<rparr> = t p" using t(2,3) lock by (cases "t p") simp
    then show "(t2(p := (t2 p)\<lparr>plock := held_by (cpu_id c), state := RUNNING, chan := None, plock := initlock\<rparr>)) q = wake_from (Some (buf_chan b)) (Some p) 0 t q"
      using p t(2,3) lock by (cases "q = p"; cases "t p") (auto simp: t2_def t1_def wake_from_def woken_def)
  qed
  have intr: "virtio_disk_intr (vst s (crit c0) t1 (d2\<lparr>vdisk_lock := initlock\<rparr>) bs2 v2) =
      Ok (vst s (crit c0) t2 (d2\<lparr>vdisk_lock := initlock, used_idx := used_idx d2 + 1\<rparr>) (bs2(b := (bs2 b)\<lparr>bdisk := False\<rparr>)) v2)"
    using virtio_disk_intr_vst [OF c0(1) t2(1), of "d2\<lparr>vdisk_lock := initlock\<rparr>" h b] d2 by (simp add: c0(2) t2_def)
  have t1': "t(p := (t p)\<lparr>chan := Some (buf_chan b), state := SLEEPING, plock := initlock\<rparr>) = t1"
    using lock by (simp add: t1_def plock_restore)
  have comm: "d2\<lparr>vdisk_lock := held_by (cpu_id c), used_idx := u\<rparr> = d2\<lparr>used_idx := u, vdisk_lock := held_by (cpu_id c)\<rparr>" for u by simp
  show ?thesis
    unfolding disk_sleep_def
    using c c' lock d c0 t2 intr fin t1'
    by (simp add: current_eq [of _ p] sleep_enter_vst scheduler_back_vst c0_def [symmetric] D scheduler_pick_vst sleep_leave_vst comm)
qed

section \<open>A transfer\<close>

text \<open>The driver between transfers: every descriptor free, both rings processed.\<close>

definition disk_idle :: "vdisk \<Rightarrow> bool" where
  "disk_idle d \<longleftrightarrow> vdisk_lock d = initlock \<and> (\<forall>i < NUM. dfree d i) \<and>
     avail_idx d = used_idx_dev d \<and> used_idx d = used_idx_dev d"

definition transfer :: "nat \<Rightarrow> bool \<Rightarrow> (nat \<Rightarrow> buf) \<times> vdev \<Rightarrow> (nat \<Rightarrow> buf) \<times> vdev" where
  "transfer b write = (\<lambda>(bs, v).
     if write then (bs(b := (bs b)\<lparr>bdisk := False\<rparr>), v\<lparr>writes := writes v @ [(ucast (bblockno (bs b)), bdata (bs b))]\<rparr>)
     else (bs(b := (bs b)\<lparr>bdata := content v (ucast (bblockno (bs b))), bdisk := False\<rparr>), v))"

text \<open>The driver's fields at the notification, for the block of a buffer.\<close>

definition submitted :: "nat \<Rightarrow> bool \<Rightarrow> uint64 \<Rightarrow> vdisk \<Rightarrow> vdisk" where
  "submitted b write sector d = d\<lparr>
     dfree := (dfree d)(0 := False, 1 := False, 2 := False),
     ops := (ops d)(0 := \<lparr>rq_type = if write then VIRTIO_BLK_T_OUT else VIRTIO_BLK_T_IN, rq_reserved = 0, rq_sector = sector\<rparr>),
     info_status := (info_status d)(0 := 0xff),
     desc := (desc d)(0 := \<lparr>d_addr = OpsAddr 0, d_len = 16, d_flags = VRING_DESC_F_NEXT, d_next = 1\<rparr>,
       1 := \<lparr>d_addr = DataAddr b, d_len = word_of_nat BSIZE, d_flags = (if write then 0 else VRING_DESC_F_WRITE) OR VRING_DESC_F_NEXT, d_next = 2\<rparr>,
       2 := \<lparr>d_addr = StatusAddr 0, d_len = 1, d_flags = VRING_DESC_F_WRITE, d_next = 0\<rparr>),
     info_b := (info_b d)(0 := Some b),
     avail_ring := (avail_ring d)(unat (avail_idx d) mod NUM := 0), avail_idx := avail_idx d + 1\<rparr>"

lemma virtio_submit_vst:
  "virtio_submit 0 1 2 b write (vst s c t (d\<lparr>dfree := (dfree d)(0 := False, 1 := False, 2 := False)\<rparr>) bs v) =
   vst s c t (submitted b write (ucast (bblockno (bs b) * 2)) d) (bs(b := (bs b)\<lparr>bdisk := True\<rparr>)) v"
  by (simp add: virtio_submit_def submitted_def set_desc_def Let_def BSIZE_def)

text \<open>The transfer that the device performs for it, and the fields of the rings it updates.\<close>

definition served :: "vdisk \<Rightarrow> vdisk" where
  "served d = d\<lparr>used_ring := (used_ring d)(unat (used_idx_dev d) mod NUM := 0), used_idx_dev := used_idx_dev d + 1,
     info_status := (info_status d)(0 := 0)\<rparr>"

lemma sector_block:
  assumes "unat (n :: uint32) < 2 ^ 31"
  shows "(ucast (n * 2) :: uint64) div 2 = ucast n"
proof -
  have "unat (n * 2) = unat n * 2" using assms by (simp add: unat_word_ariths)
  then have "unat ((ucast (n * 2) :: uint64) div 2) = unat (ucast n :: uint64)" by (simp add: unat_div)
  then show ?thesis by (simp only: word_unat_eq_iff)
qed

lemma serve_vst:
  assumes "unat (bblockno (bs b)) < 2 ^ 31"
  shows "serve 0 (vst s c t (submitted b write (ucast (bblockno (bs b) * 2)) d) (bs(b := (bs b)\<lparr>bdisk := True\<rparr>)) v) =
    (let d' = served (submitted b write (ucast (bblockno (bs b) * 2)) d) in
     if write then vst s c t d' (bs(b := (bs b)\<lparr>bdisk := True\<rparr>)) (v\<lparr>writes := writes v @ [(ucast (bblockno (bs b)), bdata (bs b))]\<rparr>)
     else vst s c t d' (bs(b := (bs b)\<lparr>bdisk := True, bdata := content v (ucast (bblockno (bs b)))\<rparr>)) v)"
  using sector_block [OF assms]
  by (simp add: serve_def submitted_def served_def Let_def VIRTIO_BLK_T_OUT_def VIRTIO_BLK_T_IN_def)

lemma virtio_disk_rw_eq:
  assumes c: "cpu_ok c" "noff c = 0" "cpu_proc c = Some p" and p: "p < NPROC" and t: "table_free t" "state (t p) = RUNNING" "chan (t p) = None"
    and idle: "disk_idle d" and dev: "virtio_device D" and b: "unat (bblockno (bs b)) < 2 ^ 31"
  shows "\<exists>d'. disk_idle d' \<and> virtio_disk_rw D b write (vst s c t d bs v) =
    Ok (vst s (crit c) (wake_from (Some free_chan) (Some p) 0 (wake_from (Some (buf_chan b)) (Some p) 0 t)) d'
      (fst (transfer b write (bs, v))) (snd (transfer b write (bs, v))))"
proof -
  define dl where "dl = d\<lparr>vdisk_lock := held_by (cpu_id c)\<rparr>"
  define d1 where "d1 = submitted b write (ucast (bblockno (bs b) * 2)) dl"
  define d2 where "d2 = served d1"
  define bs1 where "bs1 = bs(b := (bs b)\<lparr>bdisk := True\<rparr>)"
  define bs2 where "bs2 = (if write then bs1 else bs(b := (bs b)\<lparr>bdisk := True, bdata := content v (ucast (bblockno (bs b)))\<rparr>))"
  define v2 where "v2 = (if write then v\<lparr>writes := writes v @ [(ucast (bblockno (bs b)), bdata (bs b))]\<rparr> else v)"
  define t3 where "t3 = wake_from (Some (buf_chan b)) (Some p) 0 t"
  define d3 where "d3 = d2\<lparr>vdisk_lock := held_by (cpu_id c), used_idx := used_idx d2 + 1\<rparr>"
  define bs3 where "bs3 = bs2(b := (bs2 b)\<lparr>bdisk := False\<rparr>)"
  define d4 where "d4 = d3\<lparr>info_b := (info_b d3)(0 := None)\<rparr>"
  note I = idle [unfolded disk_idle_def]
  have sub: "submitted b write k (dl\<lparr>vdisk_lock := l\<rparr>) = (submitted b write k dl)\<lparr>vdisk_lock := l\<rparr>" "served (x\<lparr>vdisk_lock := l\<rparr>) = (served x)\<lparr>vdisk_lock := l\<rparr>" for k l x
    by (simp_all add: submitted_def served_def)
  have D: "D (vst s c t (d1\<lparr>vdisk_lock := initlock\<rparr>) bs1 v) = vst s c t (d2\<lparr>vdisk_lock := initlock\<rparr>) bs2 v2" for c t
  proof -
    have "pending (vst s c t (d1\<lparr>vdisk_lock := initlock\<rparr>) bs1 v) 0"
      using I by (simp add: pending_def d1_def submitted_def dl_def)
    then have "D (vst s c t (d1\<lparr>vdisk_lock := initlock\<rparr>) bs1 v) = serve 0 (vst s c t (d1\<lparr>vdisk_lock := initlock\<rparr>) bs1 v)"
      using dev by (simp add: virtio_device_def)
    then show ?thesis
      using serve_vst [where bs = bs and b = b, OF b, of s c t "write" "dl\<lparr>vdisk_lock := initlock\<rparr>" v]
      by (simp add: sub d1_def [symmetric] d2_def [symmetric] bs1_def [symmetric] bs2_def v2_def Let_def)
  qed
  have lock1: "vdisk_lock d1 = held_by (cpu_id c)" by (simp add: d1_def submitted_def dl_def)
  have used: "used_idx_dev d2 = used_idx d2 + 1" "unat (used_ring d2 (unat (used_idx d2) mod NUM)) = 0"
      "info_status d2 0 = 0" "info_b d2 0 = Some b"
    using I by (simp_all add: d2_def served_def d1_def submitted_def dl_def)
  have sleep: "disk_sleep D b (vst s (push_off c) t d1 bs1 v) = Ok (vst s (push_off c) t3 d3 bs3 v2)"
    using disk_sleep_vst [where D = D and s = s and bs = bs1, OF c p t lock1 D used] by (simp add: t3_def d3_def bs3_def)
  have wait: "disk_wait D 1 b (vst s (push_off c) t d1 bs1 v) = Ok (vst s (push_off c) t3 d3 bs3 v2)"
    using sleep by (simp add: bs1_def bs3_def)
  have alloc: "alloc3_desc (vst s (push_off c) t dl bs v) =
      Ok (Some [0, 1, 2], vst s (push_off c) t (dl\<lparr>dfree := (dfree dl)(0 := False, 1 := False, 2 := False)\<rparr>) bs v)"
    using I by (intro alloc3_desc_free) (simp add: dl_def)
  have chain: "free_chain 0 (vst s (push_off c) t3 d4 bs3 v2) = Ok (vst s (push_off c) (wake_from (Some free_chan) (cpu_proc c) 0 t3)
    (d4\<lparr>desc := (desc d4)(0 := no_desc, 1 := no_desc, 2 := no_desc), dfree := (dfree d4)(0 := True, 1 := True, 2 := True)\<rparr>) bs3 v2)"
    by (rule free_chain_vst [where w = "if write then 0 else VRING_DESC_F_WRITE"])
      (use c t in \<open>auto simp: t3_def d4_def d3_def d2_def served_def d1_def submitted_def\<close>)
  define d5 where "d5 = d4\<lparr>desc := (desc d4)(0 := no_desc, 1 := no_desc, 2 := no_desc), dfree := (dfree d4)(0 := True, 1 := True, 2 := True), vdisk_lock := initlock\<rparr>"
  have "virtio_disk_rw D b write (vst s c t d bs v) = Ok (vst s (crit c) (wake_from (Some free_chan) (cpu_proc c) 0 t3) d5 bs3 v2)"
    using I c chain wait alloc virtio_submit_vst [of b "write" s "push_off c" t dl bs v]
    by (simp add: virtio_disk_rw_def vdisk_acquire_vst dl_def [symmetric] d1_def [symmetric] bs1_def [symmetric] d4_def [symmetric])
      (simp add: d5_def d4_def d3_def vdisk_release_vst)
  moreover have "disk_idle d5"
    using I by (simp add: disk_idle_def d5_def d4_def d3_def d2_def served_def d1_def submitted_def dl_def)
  moreover have "bs3 = fst (transfer b write (bs, v))" "v2 = snd (transfer b write (bs, v))"
    by (simp_all add: bs3_def bs2_def bs1_def v2_def transfer_def)
  ultimately show ?thesis using c(3) unfolding t3_def by (intro exI [of _ d5]) simp
qed

end
