(* ===== verification/Bio.thy ===== *)
theory Bio
  imports Virtio_Spec
begin

text \<open>
  \<^verbatim>\<open>kernel/bio.c\<close>: the buffer cache. Buffers are numbers below \<^verbatim>\<open>NBUF\<close>, and \<^verbatim>\<open>NBUF\<close> itself
  stands for \<^verbatim>\<open>bcache.head\<close>; \<^verbatim>\<open>prev\<close> and \<^verbatim>\<open>next\<close> are fields of the buffers as in the source. The
  scans of the list have the fuel \<^verbatim>\<open>NBUF + 1\<close>, enough for a list of all buffers
  (\<open>bget_hit_list\<close>, \<open>bget_miss_list\<close>).
\<close>

definition bcache_head :: nat where
  "bcache_head = NBUF"

definition buflock :: "nat \<Rightarrow> 'a bio_scheme slref" where
  "buflock b = \<lparr>sl_get = (\<lambda>s. block (bufs s b)), sl_put = (\<lambda>l. upd_buf b (block_update (\<lambda>_. l))),
     sl_chan = Chan ''buf.lock'' b\<rparr>"

definition bcache_acquire :: "'a bio_scheme \<Rightarrow> 'a bio_scheme res" where
  "bcache_acquire s = rbind (acquire (bcache_lock s) (mycpu s)) (\<lambda>(lk, c). Ok (s\<lparr>bcache_lock := lk, mycpu := c\<rparr>))"

definition bcache_release :: "'a bio_scheme \<Rightarrow> 'a bio_scheme res" where
  "bcache_release s = rbind (release (bcache_lock s) (mycpu s)) (\<lambda>(lk, c). Ok (s\<lparr>bcache_lock := lk, mycpu := c\<rparr>))"

section \<open>The list of buffers\<close>

text \<open>Inserting a buffer after the head, and unlinking it, on the \<^verbatim>\<open>prev\<close> and \<^verbatim>\<open>next\<close> fields.\<close>

definition set_next :: "nat \<Rightarrow> nat \<Rightarrow> (nat \<Rightarrow> buf) \<Rightarrow> nat \<Rightarrow> buf" where
  "set_next b n bs = bs(b := (bs b)\<lparr>bnext := n\<rparr>)"

definition set_prev :: "nat \<Rightarrow> nat \<Rightarrow> (nat \<Rightarrow> buf) \<Rightarrow> nat \<Rightarrow> buf" where
  "set_prev b n bs = bs(b := (bs b)\<lparr>bprev := n\<rparr>)"

definition buf_insert :: "nat \<Rightarrow> (nat \<Rightarrow> buf) \<Rightarrow> nat \<Rightarrow> buf" where
  "buf_insert b bs =
     (let bs = set_next b (bnext (bs bcache_head)) bs;
          bs = set_prev b bcache_head bs;
          bs = set_prev (bnext (bs bcache_head)) b bs
      in set_next bcache_head b bs)"

definition buf_unlink :: "nat \<Rightarrow> (nat \<Rightarrow> buf) \<Rightarrow> nat \<Rightarrow> buf" where
  "buf_unlink b bs =
     (let bs = set_prev (bnext (bs b)) (bprev (bs b)) bs
      in set_next (bprev (bs b)) (bnext (bs b)) bs)"

primrec binit_loop :: "nat \<Rightarrow> (nat \<Rightarrow> buf) \<Rightarrow> nat \<Rightarrow> buf" where
  "binit_loop 0 bs = bs"
| "binit_loop (Suc n) bs =
     (let bs = binit_loop n bs; bs = bs(n := (bs n)\<lparr>block := initsleeplock\<rparr>) in buf_insert n bs)"

definition binit :: "'a bio_scheme \<Rightarrow> 'a bio_scheme" where
  "binit s =
     (let s = s\<lparr>bcache_lock := initlock\<rparr>;
          bs = set_next bcache_head bcache_head (set_prev bcache_head bcache_head (bufs s))
      in s\<lparr>bufs := binit_loop NBUF bs\<rparr>)"

section \<open>Operations\<close>

primrec bget_hit :: "nat \<Rightarrow> uint32 \<Rightarrow> uint32 \<Rightarrow> nat \<Rightarrow> (nat \<Rightarrow> buf) \<Rightarrow> nat option res" where
  "bget_hit 0 dev blockno b bs = Hang"
| "bget_hit (Suc n) dev blockno b bs =
     (if b \<noteq> bcache_head then
        if bdev (bs b) = dev \<and> bblockno (bs b) = blockno then Ok (Some b)
        else bget_hit n dev blockno (bnext (bs b)) bs
      else Ok None)"

primrec bget_miss :: "nat \<Rightarrow> nat \<Rightarrow> (nat \<Rightarrow> buf) \<Rightarrow> nat option res" where
  "bget_miss 0 b bs = Hang"
| "bget_miss (Suc n) b bs =
     (if b \<noteq> bcache_head then
        if brefcnt (bs b) = 0 then Ok (Some b) else bget_miss n (bprev (bs b)) bs
      else Ok None)"

definition bget :: "uint32 \<Rightarrow> uint32 \<Rightarrow> 'a bio_scheme \<Rightarrow> (nat \<times> 'a bio_scheme) res" where
  "bget dev blockno s =
     rbind (bcache_acquire s) (\<lambda>s.
     rbind (bget_hit (Suc NBUF) dev blockno (bnext (bufs s bcache_head)) (bufs s)) (\<lambda>r.
     case r of
       Some b \<Rightarrow>
         let s = upd_buf b (\<lambda>q. q\<lparr>brefcnt := brefcnt q + 1\<rparr>) s in
         rbind (bcache_release s) (\<lambda>s. rbind (acquiresleep (buflock b) s) (\<lambda>s. Ok (b, s)))
     | None \<Rightarrow>
         rbind (bget_miss (Suc NBUF) (bprev (bufs s bcache_head)) (bufs s)) (\<lambda>r.
         case r of
           Some b \<Rightarrow>
             let s = upd_buf b (\<lambda>q. q\<lparr>bdev := dev, bblockno := blockno, bvalid := False, brefcnt := 1\<rparr>) s in
             rbind (bcache_release s) (\<lambda>s. rbind (acquiresleep (buflock b) s) (\<lambda>s. Ok (b, s)))
         | None \<Rightarrow> Panic ''bget: no buffers'')))"

definition bread :: "('a bio_scheme \<Rightarrow> 'a bio_scheme) \<Rightarrow> uint32 \<Rightarrow> uint32 \<Rightarrow> 'a bio_scheme \<Rightarrow> (nat \<times> 'a bio_scheme) res" where
  "bread D dev blockno s =
     rbind (bget dev blockno s) (\<lambda>(b, s).
     if \<not> bvalid (bufs s b) then
       rbind (virtio_disk_rw D b False s) (\<lambda>s. Ok (b, upd_buf b (bvalid_update (\<lambda>_. True)) s))
     else Ok (b, s))"

definition bwrite :: "('a bio_scheme \<Rightarrow> 'a bio_scheme) \<Rightarrow> nat \<Rightarrow> 'a bio_scheme \<Rightarrow> 'a bio_scheme res" where
  "bwrite D b s =
     rbind (holdingsleep (buflock b) s) (\<lambda>(h, s).
     if \<not> h then Panic ''bwrite'' else virtio_disk_rw D b True s)"

definition brelse :: "nat \<Rightarrow> 'a bio_scheme \<Rightarrow> 'a bio_scheme res" where
  "brelse b s =
     rbind (holdingsleep (buflock b) s) (\<lambda>(h, s).
     if \<not> h then Panic ''brelse''
     else
       rbind (releasesleep (buflock b) s) (\<lambda>s.
       rbind (bcache_acquire s) (\<lambda>s.
       let s = upd_buf b (\<lambda>q. q\<lparr>brefcnt := brefcnt q - 1\<rparr>) s;
           s = (if brefcnt (bufs s b) = 0 then s\<lparr>bufs := buf_insert b (buf_unlink b (bufs s))\<rparr> else s)
       in bcache_release s)))"

definition bpin :: "nat \<Rightarrow> 'a bio_scheme \<Rightarrow> 'a bio_scheme res" where
  "bpin b s = rbind (bcache_acquire s) (\<lambda>s. bcache_release (upd_buf b (\<lambda>q. q\<lparr>brefcnt := brefcnt q + 1\<rparr>) s))"

definition bunpin :: "nat \<Rightarrow> 'a bio_scheme \<Rightarrow> 'a bio_scheme res" where
  "bunpin b s = rbind (bcache_acquire s) (\<lambda>s. bcache_release (upd_buf b (\<lambda>q. q\<lparr>brefcnt := brefcnt q - 1\<rparr>) s))"

end
