(* ===== verification/Bio_List.thy ===== *)
theory Bio_List
  imports Bio
begin

text \<open>
  The doubly linked list of buffers refines a list of buffer numbers, most recently used first:
  inserting after the head is \<open>Cons\<close>, unlinking removes an element, and the two scans of
  \<^verbatim>\<open>bget\<close> are searches from the front and from the back.
\<close>

section \<open>Doubly linked rings\<close>

definition ring :: "('n \<Rightarrow> 'n) \<Rightarrow> ('n \<Rightarrow> 'n) \<Rightarrow> 'n \<Rightarrow> 'n list \<Rightarrow> bool" where
  "ring nx pv h xs \<longleftrightarrow> distinct (h # xs) \<and> map nx (h # xs) = xs @ [h] \<and> map pv (xs @ [h]) = h # xs"

lemma map_upd_last: "distinct (us @ [p]) \<Longrightarrow> map (f(p := v)) (us @ [p]) = map f us @ [v]"
  by simp

lemma map_upd_hd: "distinct (p # us) \<Longrightarrow> map (f(p := v)) (p # us) = v # map f us"
  by simp

lemma ring_insert:
  assumes "ring nx pv h xs" and "b \<notin> set xs" and "b \<noteq> h"
  shows "ring (nx(b := nx h, h := b)) (pv(b := h, nx h := b)) h (b # xs)"
proof (cases xs)
  case Nil
  then show ?thesis using assms by (simp add: ring_def)
next
  case (Cons y ys)
  then have y: "nx h = y" "y \<notin> set ys" "y \<noteq> h" "h \<notin> set ys" using assms(1) by (auto simp: ring_def)
  then show ?thesis using assms Cons by (auto simp: ring_def)
qed

lemma ring_split:
  assumes "ring nx pv h (xs @ b # ys)"
  shows "map nx (h # xs) = xs @ [b]" "map nx (b # ys) = ys @ [h]" "map pv (xs @ [b]) = h # xs" "map pv (ys @ [h]) = b # ys"
proof -
  have "map nx (h # xs) @ map nx (b # ys) = (xs @ [b]) @ (ys @ [h])" using assms by (simp add: ring_def)
  then show "map nx (h # xs) = xs @ [b]" "map nx (b # ys) = ys @ [h]" by (subst (asm) append_eq_append_conv; simp)+
  have "map pv (xs @ [b]) @ map pv (ys @ [h]) = (h # xs) @ (b # ys)" using assms by (simp add: ring_def)
  then show "map pv (xs @ [b]) = h # xs" "map pv (ys @ [h]) = b # ys" by (subst (asm) append_eq_append_conv; simp)+
qed

lemma ring_unlink:
  assumes "ring nx pv h (xs @ b # ys)"
  shows "ring (nx(pv b := nx b)) (pv(nx b := pv b)) h (xs @ ys)"
proof -
  note S = ring_split [OF assms]
  have dist: "distinct (h # xs @ b # ys)" using assms by (simp add: ring_def)
  obtain us p where us: "h # xs = us @ [p]" by (cases "h # xs" rule: rev_cases) auto
  obtain q vs where vs: "ys @ [h] = q # vs" by (cases "ys @ [h]") auto
  have "map pv xs @ [pv b] = us @ [p]" using S(3) us by simp
  then have p: "pv b = p" "map pv xs = us" by simp_all
  have "map nx (us @ [p]) = xs @ [b]" using S(1) us by simp
  then have us': "map nx us = xs" by simp
  have q: "nx b = q" "q # map nx ys = ys @ [h]" using S(2) vs by simp_all
  have vs': "map pv vs = ys" using S(4) vs by simp
  have "distinct (h # xs)" "distinct (ys @ [h])" using dist by auto
  then have d: "distinct (us @ [p])" "distinct (q # vs)" by (simp_all only: us vs)
  have "p \<in> set (h # xs)" "q \<in> set (ys @ [h])" by (simp_all only: us vs) simp_all
  then have n: "p \<notin> set ys" "q \<notin> set xs" using dist by auto
  note dp = d(1) n(1) d(2) n(2)
  have app: "h # xs @ ys = (us @ [p]) @ ys" using us by simp
  have "map (nx(p := q)) (h # xs @ ys) = map (nx(p := q)) (us @ [p]) @ map (nx(p := q)) ys" by (simp only: app map_append)
  also have "\<dots> = xs @ ys @ [h]" using dp q(2) us' by (simp add: map_upd_last)
  finally have nx: "map (nx(p := q)) (h # xs @ ys) = xs @ ys @ [h]" .
  have "map (pv(q := p)) (xs @ ys @ [h]) = map (pv(q := p)) xs @ map (pv(q := p)) (q # vs)" by (simp only: vs map_append)
  also have "\<dots> = us @ p # ys" using dp p(2) vs' by (simp add: map_upd_hd)
  also have "\<dots> = h # xs @ ys" by (simp add: app)
  finally have pv: "map (pv(q := p)) (xs @ ys @ [h]) = h # xs @ ys" .
  show ?thesis using dist nx pv unfolding p(1) q(1) ring_def by simp
qed

section \<open>The buffer list\<close>

definition links :: "(nat \<Rightarrow> buf) \<Rightarrow> nat list \<Rightarrow> bool" where
  "links bs xs \<longleftrightarrow> ring (\<lambda>b. bnext (bs b)) (\<lambda>b. bprev (bs b)) bcache_head xs"

lemma links_cong:
  "(\<And>b. bnext (bs' b) = bnext (bs b) \<and> bprev (bs' b) = bprev (bs b)) \<Longrightarrow> links bs' xs = links bs xs"
  by (simp add: links_def)

lemma links_upd [simp]:
  "bnext q = bnext (bs b) \<Longrightarrow> bprev q = bprev (bs b) \<Longrightarrow> links (bs(b := q)) xs = links bs xs"
  by (rule links_cong) simp

lemma links_empty: "links (set_next bcache_head bcache_head (set_prev bcache_head bcache_head bs)) []"
  by (simp add: links_def ring_def set_next_def set_prev_def)

lemma buf_insert_links:
  assumes "b \<noteq> bcache_head"
  shows "(\<lambda>x. bnext (buf_insert b bs x)) = (\<lambda>x. bnext (bs x))(b := bnext (bs bcache_head), bcache_head := b)"
    "(\<lambda>x. bprev (buf_insert b bs x)) = (\<lambda>x. bprev (bs x))(b := bcache_head, bnext (bs bcache_head) := b)"
  using assms by (auto simp: fun_eq_iff buf_insert_def set_next_def set_prev_def Let_def)

lemma buf_unlink_links:
  assumes "bnext (bs b) \<noteq> b" and "bprev (bs b) \<noteq> b"
  shows "(\<lambda>x. bnext (buf_unlink b bs x)) = (\<lambda>x. bnext (bs x))(bprev (bs b) := bnext (bs b))"
    "(\<lambda>x. bprev (buf_unlink b bs x)) = (\<lambda>x. bprev (bs x))(bnext (bs b) := bprev (bs b))"
  using assms by (auto simp: fun_eq_iff buf_unlink_def set_next_def set_prev_def Let_def)

lemma links_insert: "links bs xs \<Longrightarrow> b \<notin> set xs \<Longrightarrow> b \<noteq> bcache_head \<Longrightarrow> links (buf_insert b bs) (b # xs)"
  using ring_insert [of "\<lambda>b. bnext (bs b)" "\<lambda>b. bprev (bs b)" bcache_head xs b]
  by (simp add: links_def buf_insert_links)

lemma ring_no_self:
  assumes "ring nx pv h (xs @ b # ys)"
  shows "nx b \<noteq> b" "pv b \<noteq> b"
proof -
  have dist: "distinct (h # xs @ b # ys)" using assms by (simp add: ring_def)
  show "nx b \<noteq> b" using ring_split(2) [OF assms] dist by (cases ys) auto
  show "pv b \<noteq> b" using ring_split(3) [OF assms] dist by (cases xs rule: rev_cases) auto
qed

lemma links_unlink: "links bs (xs @ b # ys) \<Longrightarrow> links (buf_unlink b bs) (xs @ ys)"
  using ring_unlink [of "\<lambda>b. bnext (bs b)" "\<lambda>b. bprev (bs b)" bcache_head xs b ys]
    ring_no_self [of "\<lambda>b. bnext (bs b)" "\<lambda>b. bprev (bs b)" bcache_head xs b ys]
  by (simp add: links_def buf_unlink_links)

text \<open>Moving a released buffer to the front.\<close>

lemma links_move_front:
  assumes "links bs xs" and "b \<in> set xs"
  shows "links (buf_insert b (buf_unlink b bs)) (b # remove1 b xs)"
proof -
  obtain us vs where xs: "xs = us @ b # vs" "b \<notin> set us" using split_list_first [OF assms(2)] by blast
  have dist: "b \<notin> set (us @ vs)" "b \<noteq> bcache_head" using assms(1) by (auto simp: links_def ring_def xs(1))
  have "remove1 b xs = us @ vs" using xs by (simp add: remove1_append)
  then show ?thesis using links_insert [OF links_unlink dist] assms(1) xs(1) by simp
qed

section \<open>The scans of bget\<close>

lemma bget_hit_scan:
  assumes "map (\<lambda>b. bnext (bs b)) (a # ys) = ys @ [bcache_head]" and "bcache_head \<notin> set ys" and "length ys < n"
  shows "bget_hit n dev blockno (bnext (bs a)) bs = Ok (find (\<lambda>b. bdev (bs b) = dev \<and> bblockno (bs b) = blockno) ys)"
  using assms
proof (induction ys arbitrary: a n)
  case Nil
  then show ?case by (cases n) auto
next
  case (Cons y ys)
  then obtain n' where n: "n = Suc n'" by (cases n) auto
  have y: "bnext (bs a) = y" "y \<noteq> bcache_head" using Cons.prems by auto
  have "bget_hit n' dev blockno (bnext (bs y)) bs = Ok (find (\<lambda>b. bdev (bs b) = dev \<and> bblockno (bs b) = blockno) ys)"
    by (rule Cons.IH) (use Cons.prems n in auto)
  then show ?case using y n by simp
qed

lemma bget_miss_scan:
  assumes "map (\<lambda>b. bprev (bs b)) (ys @ [a]) = bcache_head # ys" and "bcache_head \<notin> set ys" and "length ys < n"
  shows "bget_miss n (bprev (bs a)) bs = Ok (find (\<lambda>b. brefcnt (bs b) = 0) (rev ys))"
  using assms
proof (induction ys arbitrary: a n rule: rev_induct)
  case Nil
  then show ?case by (cases n) auto
next
  case (snoc y ys)
  then obtain n' where n: "n = Suc n'" by (cases n) auto
  have "map (\<lambda>b. bprev (bs b)) (ys @ [y]) @ [bprev (bs a)] = (bcache_head # ys) @ [y]" using snoc.prems(1) by simp
  then have y: "bprev (bs a) = y" "map (\<lambda>b. bprev (bs b)) (ys @ [y]) = bcache_head # ys" "y \<noteq> bcache_head"
    using snoc.prems(2) by auto
  have "bget_miss n' (bprev (bs y)) bs = Ok (find (\<lambda>b. brefcnt (bs b) = 0) (rev ys))"
    by (rule snoc.IH) (use snoc.prems n y in auto)
  then show ?case using y n by simp
qed

lemma bget_hit_list:
  assumes "links bs xs" and "length xs \<le> NBUF"
  shows "bget_hit (Suc NBUF) dev blockno (bnext (bs bcache_head)) bs =
    Ok (find (\<lambda>b. bdev (bs b) = dev \<and> bblockno (bs b) = blockno) xs)"
  using assms by (intro bget_hit_scan) (auto simp: links_def ring_def)

lemma bget_miss_list:
  assumes "links bs xs" and "length xs \<le> NBUF"
  shows "bget_miss (Suc NBUF) (bprev (bs bcache_head)) bs = Ok (find (\<lambda>b. brefcnt (bs b) = 0) (rev xs))"
  using assms by (intro bget_miss_scan) (auto simp: links_def ring_def)

declare bget_hit.simps(2) [simp del] bget_miss.simps(2) [simp del]

end
