(* ===== verification/Bio_Spec.thy ===== *)
theory Bio_Spec
  imports Bio_List
begin

text \<open>
  The contract of the buffer cache: \<^verbatim>\<open>bread\<close> returns a locked buffer with the current content of
  the block, and no operation but \<^verbatim>\<open>bwrite\<close> and the caller's own stores changes the content of
  any block. The content of a block is what its valid buffer holds, or what the disk holds.
\<close>

definition ROOTDEV :: uint32 where [layout_defs]: "ROOTDEV = 1"

interpretation buflk: sleeplock_ref "buflock b" for b
  by unfold_locales (simp_all add: buflock_def upd_buf_def)

section \<open>Running a process\<close>

definition trun :: "cpu \<Rightarrow> (nat \<Rightarrow> proc) \<Rightarrow> nat \<Rightarrow> bool" where
  "trun c t p \<longleftrightarrow> cpu_ok c \<and> noff c = 0 \<and> cpu_proc c = Some p \<and> p < NPROC \<and> state (t p) = RUNNING \<and>
     chan (t p) = None \<and> table_free t"

lemma running_trun: "running s p \<longleftrightarrow> trun (mycpu s) (ptable s) p"
  by (auto simp: running_def trun_def table_free_def)

lemma running_vst [simp]: "running (vst s c t d bs v) p \<longleftrightarrow> trun c t p"
  by (simp add: running_trun)

lemma trun_crit [simp]: "trun (crit c) t p \<longleftrightarrow> trun c t p"
  by (simp add: trun_def)

lemma trun_wake [simp]: "trun c t p \<Longrightarrow> trun c (wake_from ch (Some p) 0 t) p"
  by (simp add: trun_def wake_from_def table_free_def)

lemma wake_self [simp]: "wake_from ch (Some p) 0 t p = t p"
  by (simp add: wake_from_def)

text \<open>States that differ in what the cache and the driver may change.\<close>

definition bstep :: "'a bio_scheme \<Rightarrow> 'a bio_scheme \<Rightarrow> bool" where
  "bstep s s' \<longleftrightarrow> woke s s' \<and> (\<exists>c t d bs v. s' = vst s c t d bs v)"

lemma bstepI: "woke s (vst s c t d bs v) \<Longrightarrow> bstep s (vst s c t d bs v)"
  unfolding bstep_def by blast

lemma bstep_refl [simp]: "bstep s s"
  unfolding bstep_def using vst_id [of s] by (metis woke_refl)

lemma bstep_trans:
  assumes "bstep s s'" and "bstep s' s''"
  shows "bstep s s''"
proof -
  obtain c t d bs v c' t' d' bs' v' where "s' = vst s c t d bs v" "s'' = vst s' c' t' d' bs' v'"
    using assms by (auto simp: bstep_def)
  then have "s'' = vst s c' t' d' bs' v'" by simp
  then show ?thesis using assms woke_trans [of s s' s''] unfolding bstep_def by blast
qed

lemma bstep_running: "bstep s s' \<Longrightarrow> running s p \<Longrightarrow> running s' p \<and> ptable s' p = ptable s p"
  using running_woke [of s p s'] by (auto simp: bstep_def)

lemma bstep_rest: "bstep s s' \<Longrightarrow> mem s' = mem s \<and> bcache_lock s' = bcache_lock s \<and> bio.more s' = bio.more s"
  by (auto simp: bstep_def vst_def)

lemma woke_vst:
  assumes "crit c = crit (mycpu s)" and "\<And>q. t q = ptable s q \<or> state (ptable s q) = SLEEPING \<and> t q = (ptable s q)\<lparr>state := RUNNABLE\<rparr>"
  shows "woke s (vst s c t d bs v)"
  using assms by (simp add: woke_def)

section \<open>Locks in vst form\<close>

lemma vst_bcache [simp]:
  "bcache_lock (vst s c t d bs v) = bcache_lock s"
  "(vst s c t d bs v)\<lparr>bcache_lock := l\<rparr> = vst (s\<lparr>bcache_lock := l\<rparr>) c t d bs v"
  by (simp_all add: vst_def)

lemma bcache_restore: "bcache_lock s = l \<Longrightarrow> s\<lparr>bcache_lock := l\<rparr> = s"
  by (cases s) simp

lemma bcache_acquire_vst:
  "bcache_lock s = initlock \<Longrightarrow>
   bcache_acquire (vst s c t d bs v) = Ok (vst (s\<lparr>bcache_lock := held_by (cpu_id c)\<rparr>) (push_off c) t d bs v)"
  by (simp add: bcache_acquire_def acquire_free)

lemma bcache_release_vst:
  "bcache_lock s = initlock \<Longrightarrow> cpu_ok c \<Longrightarrow>
   bcache_release (vst (s\<lparr>bcache_lock := held_by (cpu_id c)\<rparr>) (push_off c) t d bs v) = Ok (vst s (crit c) t d bs v)"
  by (simp add: bcache_release_def release_push_off bcache_restore)

definition locked_by :: "uint32 \<Rightarrow> sleeplock" where
  "locked_by n = \<lparr>slocked = True, slk = initlock, spid = n\<rparr>"

lemma buflock_sel: "sl_get (buflock b) (vst s c t d bs v) = block (bs b)" "sl_chan (buflock b) = Chan ''buf.lock'' b"
    "sl_put (buflock b) l (vst s c t d bs v) = vst s c t d (bs(b := (bs b)\<lparr>block := l\<rparr>)) v"
  by (simp_all add: buflock_def)

lemma acquiresleep_vst:
  assumes "trun c t p" and "block (bs b) = initsleeplock"
  shows "acquiresleep (buflock b) (vst s c t d bs v) = Ok (vst s (crit c) t d (bs(b := (bs b)\<lparr>block := locked_by (pid (t p))\<rparr>)) v)"
  using buflk.acquiresleep_free [of "vst s c t d bs v" p b] assms by (simp add: buflock_sel locked_by_def)

lemma holdingsleep_vst:
  assumes "trun c t p" and "block (bs b) = locked_by (pid (t p))"
  shows "holdingsleep (buflock b) (vst s c t d bs v) = Ok (True, vst s (crit c) t d bs v)"
  using buflk.holdingsleep_eq [of "vst s c t d bs v" p b] assms by (simp add: buflock_sel locked_by_def)

lemma releasesleep_vst:
  assumes "trun c t p" and "block (bs b) = locked_by n"
  shows "releasesleep (buflock b) (vst s c t d bs v) =
    Ok (vst s (crit c) (wake_from (Some (Chan ''buf.lock'' b)) (Some p) 0 t) d (bs(b := (bs b)\<lparr>block := initsleeplock\<rparr>)) v)"
  using buflk.releasesleep_held [of "vst s c t d bs v" p b] assms by (simp add: buflock_sel locked_by_def)

section \<open>The invariant of the cache\<close>

definition buf_ok :: "vdev \<Rightarrow> buf \<Rightarrow> bool" where
  "buf_ok v q \<longleftrightarrow> slk (block q) = initlock \<and> \<not> bdisk q \<and> unat (bblockno q) < 2 ^ 31 \<and>
     (bdev q = 0 \<or> bdev q = ROOTDEV) \<and> (bvalid q \<longrightarrow> bdev q = ROOTDEV) \<and>
     (brefcnt q = 0 \<longrightarrow> block q = initsleeplock \<and> (bvalid q \<longrightarrow> bdata q = content v (ucast (bblockno q))))"

definition cache_ok :: "(nat \<Rightarrow> buf) \<Rightarrow> vdev \<Rightarrow> nat list \<Rightarrow> bool" where
  "cache_ok bs v xs \<longleftrightarrow> links bs xs \<and> set xs = {..<NBUF} \<and> (\<forall>b < NBUF. buf_ok v (bs b)) \<and>
     (\<forall>b < NBUF. \<forall>b' < NBUF. bdev (bs b) = ROOTDEV \<and> bdev (bs b') = ROOTDEV \<and> bblockno (bs b) = bblockno (bs b') \<longrightarrow> b = b')"

definition bio_ok :: "'a bio_scheme \<Rightarrow> nat list \<Rightarrow> bool" where
  "bio_ok s xs \<longleftrightarrow> bcache_lock s = initlock \<and> disk_idle (disk s) \<and> cache_ok (bufs s) (vdev s) xs"

text \<open>The buffer of a block, and the content of a block as the kernel sees it.\<close>

definition buf_of :: "(nat \<Rightarrow> buf) \<Rightarrow> uint32 \<Rightarrow> nat option" where
  "buf_of bs n = find (\<lambda>b. bdev (bs b) = ROOTDEV \<and> bblockno (bs b) = n) [0..<NBUF]"

definition blk :: "(nat \<Rightarrow> buf) \<Rightarrow> vdev \<Rightarrow> uint32 \<Rightarrow> uchar list" where
  "blk bs v n = (case buf_of bs n of Some b \<Rightarrow> if bvalid (bs b) then bdata (bs b) else content v (ucast n)
     | None \<Rightarrow> content v (ucast n))"

lemma cache_okD:
  assumes "cache_ok bs v xs"
  shows "links bs xs" "set xs = {..<NBUF}" "b < NBUF \<Longrightarrow> buf_ok v (bs b)"
    "b < NBUF \<Longrightarrow> b' < NBUF \<Longrightarrow> bdev (bs b) = ROOTDEV \<Longrightarrow> bdev (bs b') = ROOTDEV \<Longrightarrow> bblockno (bs b) = bblockno (bs b') \<Longrightarrow> b = b'"
    "length xs = NBUF" "distinct xs" "bcache_head \<notin> set xs"
proof -
  show l: "links bs xs" and x: "set xs = {..<NBUF}" using assms by (simp_all add: cache_ok_def)
  show d: "distinct xs" "bcache_head \<notin> set xs" using l by (simp_all add: links_def ring_def)
  show "length xs = NBUF" using x distinct_card [OF d(1)] by simp
qed (use assms in \<open>auto simp: cache_ok_def\<close>)

lemma cache_okI:
  assumes "links bs xs" and "set xs = {..<NBUF}" and "\<And>b. b < NBUF \<Longrightarrow> buf_ok v (bs b)"
    and "\<And>b b'. b < NBUF \<Longrightarrow> b' < NBUF \<Longrightarrow> bdev (bs b) = ROOTDEV \<Longrightarrow> bdev (bs b') = ROOTDEV \<Longrightarrow>
      bblockno (bs b) = bblockno (bs b') \<Longrightarrow> b = b'"
  shows "cache_ok bs v xs"
  using assms by (auto simp: cache_ok_def)

lemma buf_of_Some: "buf_of bs n = Some b \<Longrightarrow> b < NBUF \<and> bdev (bs b) = ROOTDEV \<and> bblockno (bs b) = n"
  by (auto simp: buf_of_def find_Some_iff)

lemma buf_of_None: "buf_of bs n = None \<longleftrightarrow> (\<forall>b < NBUF. \<not> (bdev (bs b) = ROOTDEV \<and> bblockno (bs b) = n))"
  by (auto simp: buf_of_def find_None_iff)

lemma buf_of_eq:
  assumes "cache_ok bs v xs" and "b < NBUF" and "bdev (bs b) = ROOTDEV"
  shows "buf_of bs (bblockno (bs b)) = Some b"
proof (cases "buf_of bs (bblockno (bs b))")
  case None
  then show ?thesis using assms by (auto simp: buf_of_None)
next
  case (Some b')
  then show ?thesis using buf_of_Some [OF Some] cache_okD(4) [OF assms(1)] assms(2,3) by auto
qed

lemma find_buf:
  assumes "cache_ok bs v xs"
  shows "find (\<lambda>b. bdev (bs b) = ROOTDEV \<and> bblockno (bs b) = n) xs = buf_of bs n"
proof (cases "find (\<lambda>b. bdev (bs b) = ROOTDEV \<and> bblockno (bs b) = n) xs")
  case None
  then have "\<forall>b < NBUF. \<not> (bdev (bs b) = ROOTDEV \<and> bblockno (bs b) = n)"
    using cache_okD(2) [OF assms] by (auto simp: find_None_iff)
  then have "buf_of bs n = None" by (simp only: buf_of_None)
  then show ?thesis using None by simp
next
  case (Some b)
  then have "b \<in> set xs" "bdev (bs b) = ROOTDEV" "bblockno (bs b) = n" by (auto simp: find_Some_iff)
  then show ?thesis using Some buf_of_eq [OF assms, of b] cache_okD(2) [OF assms] by auto
qed

lemma blk_upd:
  assumes "cache_ok bs v xs" and "cache_ok (bs(b := q)) v' xs'" and "b < NBUF" and "bdev q = ROOTDEV" and "bblockno q = n"
    and "bdev (bs b) = ROOTDEV \<longrightarrow> bblockno (bs b) = n"
  shows "blk (bs(b := q)) v' m = (if m = n then if bvalid q then bdata q else content v' (ucast n) else
    case buf_of bs m of Some b' \<Rightarrow> if bvalid (bs b') then bdata (bs b') else content v' (ucast m) | None \<Rightarrow> content v' (ucast m))"
proof (cases "m = n")
  case True
  have "buf_of (bs(b := q)) n = Some b" using buf_of_eq [OF assms(2,3)] assms(4,5) by simp
  then show ?thesis using True by (simp add: blk_def)
next
  case False
  have "buf_of (bs(b := q)) m = buf_of bs m"
    unfolding buf_of_def by (rule find_cong) (use False assms(4-6) in auto)
  moreover have "buf_of bs m \<noteq> Some b" using buf_of_Some [of bs m b] assms(6) False by auto
  ultimately show ?thesis using False by (auto simp: blk_def split: option.splits)
qed

lemma buf_of_upd_new:
  assumes "buf_of bs n = None" and "b < NBUF" and "bdev q = ROOTDEV" and "bblockno q = n"
  shows "buf_of (bs(b := q)) n = Some b"
proof (cases "buf_of (bs(b := q)) n")
  case None
  then show ?thesis using assms by (auto simp: buf_of_None)
next
  case (Some b')
  have "b' = b"
  proof (rule ccontr)
    assume "b' \<noteq> b"
    then show False using buf_of_Some [OF Some] assms(1) by (auto simp: buf_of_None)
  qed
  then show ?thesis using Some by simp
qed

lemma blk_recycle:
  assumes "cache_ok bs v xs" and "b < NBUF" and "brefcnt (bs b) = 0" and "buf_of bs n = None"
    and "bdev q = ROOTDEV" and "bblockno q = n" and "bvalid q \<longrightarrow> bdata q = content v (ucast n)"
  shows "blk (bs(b := q)) v m = blk bs v m"
proof (cases "m = n")
  case True
  then show ?thesis using buf_of_upd_new [OF assms(4,2,5,6)] assms(4,7) by (simp add: blk_def)
next
  case False
  show ?thesis
  proof (cases "buf_of bs m = Some b")
    case True
    note B = buf_of_Some [OF True]
    have "\<not> (bdev ((bs(b := q)) i) = ROOTDEV \<and> bblockno ((bs(b := q)) i) = m)" if "i < NBUF" for i
      using B False assms(5,6) cache_okD(4) [OF assms(1), of b i] that by (cases "i = b") auto
    then have "buf_of (bs(b := q)) m = None" by (simp only: buf_of_None) blast
    moreover have "bvalid (bs b) \<longrightarrow> bdata (bs b) = content v (ucast m)"
      using cache_okD(3) [OF assms(1,2)] assms(3) B by (auto simp: buf_ok_def)
    ultimately show ?thesis using True by (simp add: blk_def)
  next
    case other: False
    have "buf_of (bs(b := q)) m = buf_of bs m"
    proof (cases "bdev (bs b) = ROOTDEV \<and> bblockno (bs b) = m")
      case True
      then have "buf_of bs m = Some b" using buf_of_eq [OF assms(1,2)] by auto
      then show ?thesis using other by simp
    next
      case False
      then show ?thesis
        unfolding buf_of_def by (intro find_cong) (use \<open>m \<noteq> n\<close> assms(5,6) in auto)
    qed
    then show ?thesis using other by (auto simp: blk_def split: option.splits)
  qed
qed

section \<open>bget\<close>

lemma bget_hit_vst:
  assumes "trun c t p" and "bcache_lock s = initlock" and "cache_ok bs v xs"
    and "buf_of bs n = Some b" and "block (bs b) = initsleeplock"
  shows "bget ROOTDEV n (vst s c t d bs v) =
    Ok (b, vst s (crit c) t d (bs(b := (bs b)\<lparr>brefcnt := brefcnt (bs b) + 1, block := locked_by (pid (t p))\<rparr>)) v)"
proof -
  have "bget_hit (Suc NBUF) ROOTDEV n (bnext (bs bcache_head)) bs = Ok (Some b)"
    using bget_hit_list [OF cache_okD(1) [OF assms(3)]] find_buf [OF assms(3)] cache_okD(5) [OF assms(3)] assms(4) by simp
  moreover have "cpu_ok c" using assms(1) by (simp add: trun_def)
  ultimately show ?thesis
    unfolding bget_def using assms acquiresleep_vst [where bs = "bs(b := (bs b)\<lparr>brefcnt := brefcnt (bs b) + 1\<rparr>)" and b = b and c = "crit c"]
    by (simp add: bcache_acquire_vst bcache_release_vst)
qed

lemma bget_miss_vst:
  assumes "trun c t p" and "bcache_lock s = initlock" and "cache_ok bs v xs"
    and "buf_of bs n = None" and "\<exists>b < NBUF. brefcnt (bs b) = 0"
  shows "\<exists>b < NBUF. brefcnt (bs b) = 0 \<and> bget ROOTDEV n (vst s c t d bs v) =
    Ok (b, vst s (crit c) t d (bs(b := (bs b)\<lparr>bdev := ROOTDEV, bblockno := n, bvalid := False, brefcnt := 1,
      block := locked_by (pid (t p))\<rparr>)) v)"
proof -
  have hit: "bget_hit (Suc NBUF) ROOTDEV n (bnext (bs bcache_head)) bs = Ok None"
    using bget_hit_list [OF cache_okD(1) [OF assms(3)]] find_buf [OF assms(3)] cache_okD(5) [OF assms(3)] assms(4) by simp
  have "find (\<lambda>b. brefcnt (bs b) = 0) (rev xs) \<noteq> None"
    using assms(5) cache_okD(2) [OF assms(3)] by (auto simp: find_None_iff)
  then obtain b where b: "find (\<lambda>b. brefcnt (bs b) = 0) (rev xs) = Some b" by blast
  then have B: "b < NBUF" "brefcnt (bs b) = 0" using find_SomeD [OF b] cache_okD(2) [OF assms(3)] by auto
  have miss: "bget_miss (Suc NBUF) (bprev (bs bcache_head)) bs = Ok (Some b)"
    using bget_miss_list [OF cache_okD(1) [OF assms(3)]] cache_okD(5) [OF assms(3)] b by simp
  have free: "block (bs b) = initsleeplock" using cache_okD(3) [OF assms(3) B(1)] B(2) by (simp add: buf_ok_def)
  have "cpu_ok c" using assms(1) by (simp add: trun_def)
  then have "bget ROOTDEV n (vst s c t d bs v) =
    Ok (b, vst s (crit c) t d (bs(b := (bs b)\<lparr>bdev := ROOTDEV, bblockno := n, bvalid := False, brefcnt := 1,
      block := locked_by (pid (t p))\<rparr>)) v)"
    unfolding bget_def using assms(1,2) hit miss free
      acquiresleep_vst [where bs = "bs(b := (bs b)\<lparr>bdev := ROOTDEV, bblockno := n, bvalid := False, brefcnt := 1\<rparr>)" and b = b and c = "crit c"]
    by (simp add: bcache_acquire_vst bcache_release_vst)
  then show ?thesis using B by blast
qed

section \<open>The operations\<close>

text \<open>
  Buffers without their links. \<open>bio_run s p xs\<close> is what every operation needs: a process runs
  without spinlocks and the cache is in order.
\<close>

definition bcore :: "(nat \<Rightarrow> buf) \<Rightarrow> nat \<Rightarrow> buf" where
  "bcore bs b = (bs b)\<lparr>bprev := 0, bnext := 0\<rparr>"

definition bio_run :: "'a bio_scheme \<Rightarrow> nat \<Rightarrow> nat list \<Rightarrow> bool" where
  "bio_run s p xs \<longleftrightarrow> running s p \<and> bio_ok s xs"

text \<open>The block can be had: its buffer is unlocked, or there is none and some buffer is unused.\<close>

definition can_get :: "(nat \<Rightarrow> buf) \<Rightarrow> uint32 \<Rightarrow> bool" where
  "can_get bs n \<longleftrightarrow> (case buf_of bs n of
     Some b \<Rightarrow> block (bs b) = initsleeplock \<and> brefcnt (bs b) + 1 \<noteq> 0
   | None \<Rightarrow> \<exists>b < NBUF. brefcnt (bs b) = 0)"

lemma bio_run_vst: "bio_run (vst s c t d bs v) p xs \<longleftrightarrow> trun c t p \<and> bcache_lock s = initlock \<and> disk_idle d \<and> cache_ok bs v xs"
  by (auto simp: bio_run_def bio_ok_def)

lemma bcore_simps [simp]:
  "bvalid (bcore bs b) = bvalid (bs b)" "bdisk (bcore bs b) = bdisk (bs b)" "bdev (bcore bs b) = bdev (bs b)"
  "bblockno (bcore bs b) = bblockno (bs b)" "block (bcore bs b) = block (bs b)" "brefcnt (bcore bs b) = brefcnt (bs b)"
  "bdata (bcore bs b) = bdata (bs b)"
  by (simp_all add: bcore_def)

lemma bcore_upd:
  "bcore (bs(b := q)) = (bcore bs)(b := q\<lparr>bprev := 0, bnext := 0\<rparr>)"
  by (auto simp: bcore_def)

lemma bcore_eqD:
  assumes "bcore bs' = bcore bs"
  shows "bvalid (bs' b) = bvalid (bs b)" "bdev (bs' b) = bdev (bs b)" "bblockno (bs' b) = bblockno (bs b)"
    "block (bs' b) = block (bs b)" "brefcnt (bs' b) = brefcnt (bs b)" "bdata (bs' b) = bdata (bs b)" "bdisk (bs' b) = bdisk (bs b)"
proof -
  have eq: "bcore bs' b = bcore bs b" using assms by simp
  show "bvalid (bs' b) = bvalid (bs b)" using arg_cong [OF eq, of bvalid] by simp
  show "bdev (bs' b) = bdev (bs b)" using arg_cong [OF eq, of bdev] by simp
  show "bblockno (bs' b) = bblockno (bs b)" using arg_cong [OF eq, of bblockno] by simp
  show "block (bs' b) = block (bs b)" using arg_cong [OF eq, of block] by simp
  show "brefcnt (bs' b) = brefcnt (bs b)" using arg_cong [OF eq, of brefcnt] by simp
  show "bdata (bs' b) = bdata (bs b)" using arg_cong [OF eq, of bdata] by simp
  show "bdisk (bs' b) = bdisk (bs b)" using arg_cong [OF eq, of bdisk] by simp
qed

lemma buf_of_bcore: "bcore bs' = bcore bs \<Longrightarrow> buf_of bs' n = buf_of bs n"
  using bcore_eqD [of bs' bs] by (simp add: buf_of_def)

lemma blk_bcore: "bcore bs' = bcore bs \<Longrightarrow> blk bs' v n = blk bs v n"
  using bcore_eqD [of bs' bs] by (simp add: blk_def buf_of_bcore [of bs' bs] split: option.splits)

lemma cache_ok_upd:
  assumes "cache_ok bs v xs" and "b < NBUF" and "bnext q = bnext (bs b)" and "bprev q = bprev (bs b)" and "buf_ok v q"
    and "bdev q = ROOTDEV \<Longrightarrow> buf_of bs (bblockno q) = Some b \<or> buf_of bs (bblockno q) = None"
  shows "cache_ok (bs(b := q)) v xs"
proof (rule cache_okI)
  show "links (bs(b := q)) xs" using cache_okD(1) [OF assms(1)] assms(3,4) by simp
  show "set xs = {..<NBUF}" by (rule cache_okD(2) [OF assms(1)])
  show "buf_ok v ((bs(b := q)) i)" if "i < NBUF" for i using cache_okD(3) [OF assms(1) that] assms(5) by simp
  have key: "i = b" if "i < NBUF" "bdev q = ROOTDEV" "bdev (bs i) = ROOTDEV" "bblockno (bs i) = bblockno q" for i
    using assms(6) [OF that(2)] buf_of_eq [OF assms(1) that(1,3)] by (simp add: that(4))
  show "i = j" if "i < NBUF" "j < NBUF" "bdev ((bs(b := q)) i) = ROOTDEV" "bdev ((bs(b := q)) j) = ROOTDEV"
    "bblockno ((bs(b := q)) i) = bblockno ((bs(b := q)) j)" for i j
  proof (rule ccontr)
    assume ne: "i \<noteq> j"
    consider "i = b" | "j = b" | "i \<noteq> b" "j \<noteq> b" by blast
    then show False
    proof cases
      case 1
      then have "j = b" by (intro key) (use ne that in simp_all)
      then show False using 1 ne by simp
    next
      case 2
      then have "i = b" by (intro key) (use ne that in simp_all)
      then show False using 2 ne by simp
    next
      case 3
      then have "i = j" by (intro cache_okD(4) [OF assms(1)]) (use that in simp_all)
      then show False using ne by simp
    qed
  qed
qed

lemma blk_same:
  assumes "cache_ok bs v xs" and "b < NBUF" and "bdev (bs b) = ROOTDEV" and "bdev q = ROOTDEV" and "bblockno q = bblockno (bs b)"
    and "(if bvalid q then bdata q else content v (ucast (bblockno q))) = blk bs v (bblockno q)"
  shows "blk (bs(b := q)) v m = blk bs v m"
proof -
  have "buf_of (bs(b := q)) m = buf_of bs m"
    unfolding buf_of_def by (rule find_cong) (use assms(3-5) in auto)
  moreover have "buf_of bs (bblockno (bs b)) = Some b" by (rule buf_of_eq [OF assms(1-3)])
  ultimately show ?thesis
    using assms(5,6) buf_of_Some [of bs m] by (auto simp: blk_def split: option.splits)
qed

lemma blk_buf:
  assumes "cache_ok bs v xs" and "b < NBUF" and "bdev (bs b) = ROOTDEV" and "bvalid (bs b)"
  shows "blk bs v (bblockno (bs b)) = bdata (bs b)"
  using buf_of_eq [OF assms(1-3)] assms(4) by (simp add: blk_def)

lemma slk_locked_by [simp]: "slk (locked_by n) = initlock" "slk initsleeplock = initlock" "locked_by n \<noteq> initsleeplock"
  by (simp_all add: locked_by_def initsleeplock_def)

text \<open>What a process has after it got a buffer with the block's content.\<close>

definition got :: "'a bio_scheme \<Rightarrow> nat \<Rightarrow> nat list \<Rightarrow> uint32 \<Rightarrow> nat \<Rightarrow> 'a bio_scheme \<Rightarrow> bool" where
  "got s p xs n b s' \<longleftrightarrow> bstep s s' \<and> bio_run s' p xs \<and> b < NBUF \<and> vdev s' = vdev s \<and>
     (\<forall>m. blk (bufs s') (vdev s') m = blk (bufs s) (vdev s) m) \<and> (\<forall>i. i \<noteq> b \<longrightarrow> bufs s' i = bufs s i) \<and>
     bvalid (bufs s' b) \<and> bdev (bufs s' b) = ROOTDEV \<and> bblockno (bufs s' b) = n \<and>
     block (bufs s' b) = locked_by (pid (ptable s p)) \<and> brefcnt (bufs s' b) = brefcnt (bufs s b) + 1 \<and>
     brefcnt (bufs s' b) \<noteq> 0 \<and> bdata (bufs s' b) = blk (bufs s) (vdev s) n \<and> block (bufs s b) = initsleeplock \<and>
     (bdev (bufs s b) = ROOTDEV \<and> bblockno (bufs s b) = n \<or> brefcnt (bufs s b) = 0 \<and> buf_of (bufs s) n = None)"

lemma gotD:
  assumes "got s p xs n b s'"
  shows "bstep s s'" "bio_run s' p xs" "b < NBUF" "vdev s' = vdev s" "blk (bufs s') (vdev s') m = blk (bufs s) (vdev s) m"
    "i \<noteq> b \<Longrightarrow> bufs s' i = bufs s i" "bvalid (bufs s' b)" "bdev (bufs s' b) = ROOTDEV" "bblockno (bufs s' b) = n"
    "block (bufs s' b) = locked_by (pid (ptable s p))" "brefcnt (bufs s' b) = brefcnt (bufs s b) + 1"
    "brefcnt (bufs s' b) \<noteq> 0" "bdata (bufs s' b) = blk (bufs s) (vdev s) n" "block (bufs s b) = initsleeplock"
    "bdev (bufs s b) = ROOTDEV \<and> bblockno (bufs s b) = n \<or> brefcnt (bufs s b) = 0 \<and> buf_of (bufs s) n = None"
  using assms unfolding got_def by blast+

text \<open>
  From the buffer \<open>q\<close> that \<^verbatim>\<open>bget\<close> leaves to the end of \<^verbatim>\<open>bread\<close>: when it is not valid, the
  driver fills it.
\<close>

lemma bread_fill:
  assumes D: "virtio_device D" and run: "trun c t p" and lock: "bcache_lock s = initlock" and idle: "disk_idle d"
    and ok: "cache_ok bs v xs" and b: "b < NBUF" and q: "bdev q = ROOTDEV" "bblockno q = n" "block q = locked_by m" "brefcnt q \<noteq> 0"
    and ok1: "cache_ok (bs(b := q)) v xs" and blk1: "\<forall>m. blk (bs(b := q)) v m = blk bs v m"
    and get: "bget ROOTDEV n (vst s c t d bs v) = Ok (b, vst s (crit c) t d (bs(b := q)) v)"
  shows "\<exists>t' d' q'. bread D ROOTDEV n (vst s c t d bs v) = Ok (b, vst s (crit c) t' d' (bs(b := q')) v) \<and>
    woke (vst s c t d bs v) (vst s (crit c) t' d' (bs(b := q')) v) \<and> trun c t' p \<and> disk_idle d' \<and>
    cache_ok (bs(b := q')) v xs \<and> (\<forall>m. blk (bs(b := q')) v m = blk bs v m) \<and> bvalid q' \<and> bdata q' = blk bs v n \<and>
    bdev q' = ROOTDEV \<and> bblockno q' = n \<and> block q' = block q \<and> brefcnt q' = brefcnt q"
proof (cases "bvalid q")
  case True
  have "bdata q = blk bs v n" using blk_buf [OF ok1 b] q(1,2) True blk1 by simp
  moreover have "woke (vst s c t d bs v) (vst s (crit c) t d (bs(b := q)) v)" by (rule woke_crit) simp_all
  ultimately show ?thesis using get run idle ok1 blk1 q True
    by (intro exI [of _ t] exI [of _ d] exI [of _ q]) (simp add: bread_def)
next
  case False
  define q' where "q' = q\<lparr>bdata := content v (ucast n), bdisk := False, bvalid := True\<rparr>"
  have nb: "unat (bblockno ((bs(b := q)) b)) < 2 ^ 31" using cache_okD(3) [OF ok1 b] by (simp add: buf_ok_def)
  define t1 where "t1 = wake_from (Some free_chan) (Some p) 0 (wake_from (Some (buf_chan b)) (Some p) 0 t)"
  note T = run [unfolded trun_def]
  have "trun (crit c) t p" using run by simp
  then obtain d' where d': "disk_idle d'" "virtio_disk_rw D b False (vst s (crit c) t d (bs(b := q)) v) =
      Ok (vst s (crit c) t1 d' (bs(b := q\<lparr>bdata := content v (ucast n), bdisk := False\<rparr>)) v)"
    using virtio_disk_rw_eq [of "crit c" p t d D "bs(b := q)" b False s v] idle D nb q(2)
    by (auto simp: trun_def transfer_def t1_def)
  have buf: "buf_of (bs(b := q)) n = Some b" using buf_of_eq [OF ok1 b] q by simp
  have cont: "content v (ucast n) = blk bs v n" using blk1 [rule_format, of n] buf False by (simp add: blk_def [of "bs(b := q)"])
  have ok': "cache_ok ((bs(b := q))(b := q')) v xs"
    by (rule cache_ok_upd [OF ok1 b]) (use q buf cache_okD(3) [OF ok1 b] in \<open>auto simp: q'_def buf_ok_def\<close>)
  have blk': "blk ((bs(b := q))(b := q')) v m = blk bs v m" for m
    using blk_same [OF ok1 b, of q' m] q blk1 cont by (simp add: q'_def)
  have run1: "trun c t1 p" using run by (simp add: t1_def)
  have wk: "woke (vst s c t d bs v) (vst s (crit c) t1 d' (bs(b := q')) v)"
    by (auto simp: woke_def t1_def wake_from_def woken_def)
  show ?thesis
    using get d'(2) False run1 d'(1) ok' blk' wk cont q
    by (intro exI [of _ t1] exI [of _ d'] exI [of _ q']) (simp add: bread_def q'_def)
qed

lemma bget_vst:
  assumes R: "trun c t p" "bcache_lock s = initlock" and ok: "cache_ok bs v xs" and n: "unat n < 2 ^ 31" and get: "can_get bs n"
  shows "\<exists>b q. b < NBUF \<and> bget ROOTDEV n (vst s c t d bs v) = Ok (b, vst s (crit c) t d (bs(b := q)) v) \<and>
    bdev q = ROOTDEV \<and> bblockno q = n \<and> block q = locked_by (pid (t p)) \<and> brefcnt q \<noteq> 0 \<and> brefcnt q = brefcnt (bs b) + 1 \<and>
    cache_ok (bs(b := q)) v xs \<and> (\<forall>m. blk (bs(b := q)) v m = blk bs v m) \<and>
    block (bs b) = initsleeplock \<and> (bdev (bs b) = ROOTDEV \<and> bblockno (bs b) = n \<or> brefcnt (bs b) = 0 \<and> buf_of bs n = None)"
proof (cases "buf_of bs n")
  case (Some b)
  define q where "q = (bs b)\<lparr>brefcnt := brefcnt (bs b) + 1, block := locked_by (pid (t p))\<rparr>"
  have B: "b < NBUF" "bdev (bs b) = ROOTDEV" "bblockno (bs b) = n" using buf_of_Some [OF Some] by auto
  have G: "block (bs b) = initsleeplock" "brefcnt (bs b) + 1 \<noteq> 0" using get Some by (auto simp: can_get_def)
  have "cache_ok (bs(b := q)) v xs"
    by (rule cache_ok_upd [OF ok B(1)]) (use cache_okD(3) [OF ok B(1)] Some B G in \<open>auto simp: q_def buf_ok_def\<close>)
  moreover have "blk (bs(b := q)) v m = blk bs v m" for m
    by (rule blk_same [OF ok B(1,2)]) (use B Some in \<open>auto simp: q_def blk_def\<close>)
  ultimately show ?thesis using bget_hit_vst [OF R(1,2) ok Some G(1), of d] B G
    by (intro exI [of _ b] exI [of _ q]) (simp add: q_def)
next
  case None
  then have "\<exists>b < NBUF. brefcnt (bs b) = 0" using get by (simp add: can_get_def)
  then obtain b where B: "b < NBUF" "brefcnt (bs b) = 0" and bg: "bget ROOTDEV n (vst s c t d bs v) =
    Ok (b, vst s (crit c) t d (bs(b := (bs b)\<lparr>bdev := ROOTDEV, bblockno := n, bvalid := False, brefcnt := 1,
      block := locked_by (pid (t p))\<rparr>)) v)"
    using bget_miss_vst [OF R(1,2) ok None, of d] by blast
  define q where "q = (bs b)\<lparr>bdev := ROOTDEV, bblockno := n, bvalid := False, brefcnt := 1, block := locked_by (pid (t p))\<rparr>"
  have "cache_ok (bs(b := q)) v xs"
    by (rule cache_ok_upd [OF ok B(1)]) (use cache_okD(3) [OF ok B(1)] None B n in \<open>auto simp: q_def buf_ok_def\<close>)
  moreover have "blk (bs(b := q)) v m = blk bs v m" for m
    by (rule blk_recycle [OF ok B None]) (simp_all add: q_def)
  ultimately show ?thesis using bg B None cache_okD(3) [OF ok B(1)] by (intro exI [of _ b] exI [of _ q]) (simp add: q_def buf_ok_def)
qed

lemma bread_spec:
  assumes D: "virtio_device D" and run: "bio_run s p xs" and n: "unat n < 2 ^ 31" and get: "can_get (bufs s) n"
  shows "\<exists>b s'. bread D ROOTDEV n s = Ok (b, s') \<and> got s p xs n b s'"
proof -
  define c t d bs v where "c = mycpu s" "t = ptable s" "d = disk s" "bs = bufs s" "v = vdev s"
  have s: "s = vst s c t d bs v" unfolding c_t_d_bs_v_def by (rule vst_id)
  have R: "trun c t p" "bcache_lock s = initlock" "disk_idle d" and ok: "cache_ok bs v xs"
    using run by (auto simp: bio_run_def bio_ok_def running_trun c_t_d_bs_v_def)
  obtain b q where B: "b < NBUF" and q: "bget ROOTDEV n (vst s c t d bs v) = Ok (b, vst s (crit c) t d (bs(b := q)) v)"
    "bdev q = ROOTDEV" "bblockno q = n" "block q = locked_by (pid (t p))" "brefcnt q \<noteq> 0" "brefcnt q = brefcnt (bs b) + 1"
    "cache_ok (bs(b := q)) v xs" "\<forall>m. blk (bs(b := q)) v m = blk bs v m" "block (bs b) = initsleeplock"
    "bdev (bs b) = ROOTDEV \<and> bblockno (bs b) = n \<or> brefcnt (bs b) = 0 \<and> buf_of bs n = None"
    using bget_vst [OF R(1,2) ok n, of d] get unfolding c_t_d_bs_v_def by blast
  obtain t' d' q' where F: "bread D ROOTDEV n (vst s c t d bs v) = Ok (b, vst s (crit c) t' d' (bs(b := q')) v)"
    "woke (vst s c t d bs v) (vst s (crit c) t' d' (bs(b := q')) v)" "trun c t' p" "disk_idle d'"
    "cache_ok (bs(b := q')) v xs" "\<forall>m. blk (bs(b := q')) v m = blk bs v m" "bvalid q'" "bdata q' = blk bs v n"
    "bdev q' = ROOTDEV" "bblockno q' = n" "block q' = block q" "brefcnt q' = brefcnt q"
    using bread_fill [OF D R ok B q(2-5,7,8,1)] by blast
  have "got s p xs n b (vst s (crit c) t' d' (bs(b := q')) v)"
    using F(3-12) q(4-6,9,10) R(2) B bstepI [OF F(2) [folded s]]
    unfolding got_def by (simp add: bio_run_vst c_t_d_bs_v_def)
  then show ?thesis using F(1) s by (metis (no_types))
qed

text \<open>
  The other operations. \<open>bowns\<close> is what a caller of them has: the valid buffer of a block, with its
  lock and a reference.
\<close>

definition bowns :: "'a bio_scheme \<Rightarrow> nat \<Rightarrow> nat \<Rightarrow> bool" where
  "bowns s p b \<longleftrightarrow> b < NBUF \<and> block (bufs s b) = locked_by (pid (ptable s p)) \<and> brefcnt (bufs s b) \<noteq> 0 \<and>
     bvalid (bufs s b) \<and> bdev (bufs s b) = ROOTDEV"

lemma got_bowns:
  assumes "got s p xs n b s'"
  shows "bowns s' p b"
proof -
  have "woke s s'" using gotD(1) [OF assms] by (simp add: bstep_def)
  moreover have "state (ptable s' p) = RUNNING" using gotD(2) [OF assms] by (simp add: bio_run_def running_def)
  ultimately have "ptable s' p = ptable s p" unfolding woke_def by (metis (no_types) procstate.distinct(25) proc.select_convs(2) proc.surjective proc.update_convs(2))
  then show ?thesis using gotD [OF assms] by (simp add: bowns_def)
qed

lemma content_write: "content (v\<lparr>writes := writes v @ [(n, x)]\<rparr>) = (content v)(n := x)"
  by (simp add: content_def)

lemma ucast_block_inj: "(ucast (m :: uint32) :: uint64) = ucast n \<longleftrightarrow> m = n"
proof
  assume "(ucast m :: uint64) = ucast n"
  then have "unat (ucast m :: uint64) = unat (ucast n :: uint64)" by (rule arg_cong)
  then show "m = n" by (simp add: word_unat_eq_iff)
qed simp

text \<open>A store into the data of an owned buffer changes the content of its block alone.\<close>

definition store :: "nat \<Rightarrow> uchar list \<Rightarrow> 'a bio_scheme \<Rightarrow> 'a bio_scheme" where
  "store b x = upd_buf b (bdata_update (\<lambda>_. x))"

lemma store_spec:
  assumes run: "bio_run s p xs" and own: "bowns s p b"
  shows "bstep s (store b x s)" "bio_run (store b x s) p xs" "bowns (store b x s) p b"
    "blk (bufs (store b x s)) (vdev (store b x s)) = (blk (bufs s) (vdev s))(bblockno (bufs s b) := x)"
proof -
  have ok: "cache_ok (bufs s) (vdev s) xs" using run by (simp add: bio_run_def bio_ok_def)
  have B: "b < NBUF" "bdev (bufs s b) = ROOTDEV" "bvalid (bufs s b)" "brefcnt (bufs s b) \<noteq> 0" using own by (simp_all add: bowns_def)
  define q where "q = (bufs s b)\<lparr>bdata := x\<rparr>"
  have st: "store b x s = vst s (mycpu s) (ptable s) (disk s) ((bufs s)(b := q)) (vdev s)"
    by (simp add: store_def upd_buf_def vst_def q_def)
  show "bstep s (store b x s)" unfolding st by (rule bstepI) (simp add: woke_def)
  have bo: "buf_of (bufs s) (bblockno (bufs s b)) = Some b" by (rule buf_of_eq [OF ok B(1,2)])
  have "cache_ok ((bufs s)(b := q)) (vdev s) xs"
    by (rule cache_ok_upd [OF ok B(1)]) (use cache_okD(3) [OF ok B(1)] B bo in \<open>auto simp: q_def buf_ok_def\<close>)
  then show "bio_run (store b x s) p xs" using run unfolding st bio_run_vst by (auto simp: bio_run_def bio_ok_def running_trun)
  show "bowns (store b x s) p b" using own by (simp add: bowns_def st q_def)
  have eq: "buf_of ((bufs s)(b := q)) m = buf_of (bufs s) m" for m
    unfolding buf_of_def by (rule find_cong) (auto simp: q_def)
  show "blk (bufs (store b x s)) (vdev (store b x s)) = (blk (bufs s) (vdev s))(bblockno (bufs s b) := x)"
  proof
    fix m
    show "blk (bufs (store b x s)) (vdev (store b x s)) m = ((blk (bufs s) (vdev s))(bblockno (bufs s b) := x)) m"
    proof (cases "m = bblockno (bufs s b)")
      case True
      then show ?thesis using bo B(3) by (simp add: st blk_def eq) (simp add: q_def)
    next
      case False
      then have "buf_of (bufs s) m \<noteq> Some b" using buf_of_Some [of "bufs s" m b] by blast
      then show ?thesis using False by (simp add: st blk_def eq split: option.splits)
    qed
  qed
qed

lemma cache_ok_write:
  assumes ok: "cache_ok bs v xs" and b: "b < NBUF" "brefcnt (bs b) \<noteq> 0" "bdev (bs b) = ROOTDEV" "bvalid (bs b)"
  defines "v' \<equiv> v\<lparr>writes := writes v @ [(ucast (bblockno (bs b)), bdata (bs b))]\<rparr>"
  shows "cache_ok bs v' xs" "blk bs v' m = blk bs v m"
proof -
  have other: "content v' (ucast m) = content v (ucast m)" if "m \<noteq> bblockno (bs b)" for m :: uint32
    using that by (simp add: v'_def content_write ucast_block_inj)
  show "cache_ok bs v' xs"
  proof (rule cache_okI)
    fix i assume i: "i < NBUF"
    have "bblockno (bs i) \<noteq> bblockno (bs b)" if "bdev (bs i) = ROOTDEV" "brefcnt (bs i) = 0"
      using cache_okD(4) [OF ok i b(1) that(1) b(3)] that(2) b(2) by blast
    then show "buf_ok v' (bs i)" using cache_okD(3) [OF ok i] other unfolding buf_ok_def by metis
  qed (use cache_okD [OF ok] in blast)+
  show "blk bs v' m = blk bs v m"
    using other [of m] buf_of_eq [OF ok b(1,3)] b(4) by (cases "m = bblockno (bs b)") (auto simp: blk_def split: option.splits)
qed

lemma bwrite_spec:
  assumes D: "virtio_device D" and run: "bio_run s p xs" and own: "bowns s p b"
  shows "\<exists>s'. bwrite D b s = Ok s' \<and> bstep s s' \<and> bio_run s' p xs \<and> bufs s' = bufs s \<and>
    vdev s' = (vdev s)\<lparr>writes := writes (vdev s) @ [(ucast (bblockno (bufs s b)), bdata (bufs s b))]\<rparr>"
proof -
  define c t d bs v where "c = mycpu s" "t = ptable s" "d = disk s" "bs = bufs s" "v = vdev s"
  have s: "s = vst s c t d bs v" unfolding c_t_d_bs_v_def by (rule vst_id)
  have R: "trun c t p" "bcache_lock s = initlock" "disk_idle d" and ok: "cache_ok bs v xs"
    using run by (auto simp: bio_run_def bio_ok_def running_trun c_t_d_bs_v_def)
  have B: "b < NBUF" "block (bs b) = locked_by (pid (t p))" "brefcnt (bs b) \<noteq> 0" "bvalid (bs b)" "bdev (bs b) = ROOTDEV"
    using own by (simp_all add: bowns_def c_t_d_bs_v_def)
  define t1 where "t1 = wake_from (Some free_chan) (Some p) 0 (wake_from (Some (buf_chan b)) (Some p) 0 t)"
  define v' where "v' = v\<lparr>writes := writes v @ [(ucast (bblockno (bs b)), bdata (bs b))]\<rparr>"
  have nb: "unat (bblockno (bs b)) < 2 ^ 31" "\<not> bdisk (bs b)"
    using cache_okD(3) [OF ok B(1)] by (simp_all add: buf_ok_def)
  then have "(bs b)\<lparr>bdisk := False\<rparr> = bs b" by simp
  note nb = nb(1) this
  have "trun (crit c) t p" using R(1) by simp
  then obtain d' where d': "disk_idle d'" "virtio_disk_rw D b True (vst s (crit c) t d bs v) = Ok (vst s (crit c) t1 d' bs v')"
    using virtio_disk_rw_eq [of "crit c" p t d D bs b True s v] R(3) D nb
    by (auto simp: trun_def transfer_def t1_def v'_def)
  then have "bwrite D b (vst s c t d bs v) = Ok (vst s (crit c) t1 d' bs v')"
    by (simp add: bwrite_def holdingsleep_vst [where bs = bs, OF R(1) B(2)])
  moreover have "woke s (vst s (crit c) t1 d' bs v')"
    by (auto simp: woke_def t1_def wake_from_def woken_def c_t_d_bs_v_def)
  moreover have "bio_run (vst s (crit c) t1 d' bs v') p xs"
    using R d'(1) cache_ok_write(1) [OF ok B(1,3,5,4)] by (simp add: bio_run_vst t1_def v'_def)
  ultimately show ?thesis using s bstepI [of s "crit c" t1 d' bs v']
    by (intro exI [of _ "vst s (crit c) t1 d' bs v'"]) (simp add: v'_def c_t_d_bs_v_def)
qed

lemma bpin_vst:
  assumes "cpu_ok c" and "bcache_lock s = initlock"
  shows "bpin b (vst s c t d bs v) = Ok (vst s (crit c) t d (bs(b := (bs b)\<lparr>brefcnt := brefcnt (bs b) + 1\<rparr>)) v)"
    "bunpin b (vst s c t d bs v) = Ok (vst s (crit c) t d (bs(b := (bs b)\<lparr>brefcnt := brefcnt (bs b) - 1\<rparr>)) v)"
  using assms by (simp_all add: bpin_def bunpin_def bcache_acquire_vst bcache_release_vst)

lemma refcnt_upd:
  assumes ok: "cache_ok bs v xs" and b: "b < NBUF" "brefcnt (bs b) \<noteq> 0" "n \<noteq> 0"
  shows "cache_ok (bs(b := (bs b)\<lparr>brefcnt := n\<rparr>)) v xs" "blk (bs(b := (bs b)\<lparr>brefcnt := n\<rparr>)) v m = blk bs v m"
proof -
  show "cache_ok (bs(b := (bs b)\<lparr>brefcnt := n\<rparr>)) v xs"
    by (rule cache_ok_upd [OF ok b(1)])
      (use cache_okD(3) [OF ok b(1)] buf_of_eq [OF ok b(1)] b in \<open>auto simp: buf_ok_def\<close>)
  have "buf_of (bs(b := (bs b)\<lparr>brefcnt := n\<rparr>)) m = buf_of bs m"
    unfolding buf_of_def by (rule find_cong) auto
  then show "blk (bs(b := (bs b)\<lparr>brefcnt := n\<rparr>)) v m = blk bs v m"
    by (simp add: blk_def split: option.splits)
qed

lemma pin_spec:
  assumes run: "bio_run s p xs" and b: "b < NBUF" "brefcnt (bufs s b) \<noteq> 0"
  shows "brefcnt (bufs s b) + 1 \<noteq> 0 \<Longrightarrow> \<exists>s'. bpin b s = Ok s' \<and> bstep s s' \<and> bio_run s' p xs \<and> vdev s' = vdev s \<and>
      bufs s' = (bufs s)(b := (bufs s b)\<lparr>brefcnt := brefcnt (bufs s b) + 1\<rparr>)"
    "brefcnt (bufs s b) \<noteq> 1 \<Longrightarrow> \<exists>s'. bunpin b s = Ok s' \<and> bstep s s' \<and> bio_run s' p xs \<and> vdev s' = vdev s \<and>
      bufs s' = (bufs s)(b := (bufs s b)\<lparr>brefcnt := brefcnt (bufs s b) - 1\<rparr>)"
proof -
  define c t d bs v where "c = mycpu s" "t = ptable s" "d = disk s" "bs = bufs s" "v = vdev s"
  have s: "s = vst s c t d bs v" unfolding c_t_d_bs_v_def by (rule vst_id)
  have R: "trun c t p" "bcache_lock s = initlock" "disk_idle d" and ok: "cache_ok bs v xs"
    using run by (auto simp: bio_run_def bio_ok_def running_trun c_t_d_bs_v_def)
  have cpu: "cpu_ok c" using R(1) by (simp add: trun_def)
  have upd: "bstep s (vst s (crit c) t d (bs(b := (bs b)\<lparr>brefcnt := n\<rparr>)) v)"
      "bio_run (vst s (crit c) t d (bs(b := (bs b)\<lparr>brefcnt := n\<rparr>)) v) p xs" if "n \<noteq> 0" for n
    using R refcnt_upd(1) [OF ok b(1) _ that] b(2) by (auto intro!: bstepI woke_crit simp: bio_run_vst c_t_d_bs_v_def)
  show "\<exists>s'. bpin b s = Ok s' \<and> bstep s s' \<and> bio_run s' p xs \<and> vdev s' = vdev s \<and>
      bufs s' = (bufs s)(b := (bufs s b)\<lparr>brefcnt := brefcnt (bufs s b) + 1\<rparr>)" if "brefcnt (bufs s b) + 1 \<noteq> 0"
    using bpin_vst(1) [OF cpu R(2), of b t d bs v] upd [OF that] s
    by (intro exI [of _ "vst s (crit c) t d (bs(b := (bs b)\<lparr>brefcnt := brefcnt (bs b) + 1\<rparr>)) v"]) (simp add: c_t_d_bs_v_def)
  have ne: "brefcnt (bufs s b) - 1 \<noteq> 0" if "brefcnt (bufs s b) \<noteq> 1" using that by simp
  show "\<exists>s'. bunpin b s = Ok s' \<and> bstep s s' \<and> bio_run s' p xs \<and> vdev s' = vdev s \<and>
      bufs s' = (bufs s)(b := (bufs s b)\<lparr>brefcnt := brefcnt (bufs s b) - 1\<rparr>)" if "brefcnt (bufs s b) \<noteq> 1"
    using bpin_vst(2) [OF cpu R(2), of b t d bs v] upd [OF ne [OF that]] s
    by (intro exI [of _ "vst s (crit c) t d (bs(b := (bs b)\<lparr>brefcnt := brefcnt (bs b) - 1\<rparr>)) v"]) (simp add: c_t_d_bs_v_def)
qed

text \<open>Unlinking and inserting change links alone, so a released buffer only moves in the list.\<close>

lemma bcore_link: "bcore (set_next b n bs) = bcore bs" "bcore (set_prev b n bs) = bcore bs"
  by (auto simp: bcore_def set_next_def set_prev_def)

lemma bcore_move [simp]: "bcore (buf_insert b (buf_unlink b bs)) = bcore bs"
  by (simp only: buf_insert_def buf_unlink_def Let_def bcore_link)

lemma cache_ok_links:
  assumes "cache_ok bs v xs" and "bcore bs' = bcore bs" and "links bs' ys" and "set ys = set xs"
  shows "cache_ok bs' v ys"
proof (rule cache_okI)
  note E = bcore_eqD [OF assms(2)]
  show "links bs' ys" by fact
  show "set ys = {..<NBUF}" using cache_okD(2) [OF assms(1)] assms(4) by simp
  show "buf_ok v (bs' b)" if "b < NBUF" for b using cache_okD(3) [OF assms(1) that] E [of b] unfolding buf_ok_def by simp
  show "b = b'" if "b < NBUF" "b' < NBUF" "bdev (bs' b) = ROOTDEV" "bdev (bs' b') = ROOTDEV" "bblockno (bs' b) = bblockno (bs' b')" for b b'
    by (rule cache_okD(4) [OF assms(1) that(1,2)]) (use that(3-5) E in simp_all)
qed

lemma brelse_vst:
  assumes run: "trun c t p" and lock: "bcache_lock s = initlock" and b: "block (bs b) = locked_by (pid (t p))"
  defines "bs1 \<equiv> bs(b := (bs b)\<lparr>block := initsleeplock, brefcnt := brefcnt (bs b) - 1\<rparr>)"
  shows "brelse b (vst s c t d bs v) = Ok (vst s (crit c) (wake_from (Some (Chan ''buf.lock'' b)) (Some p) 0 t) d
    (if brefcnt (bs b) = 1 then buf_insert b (buf_unlink b bs1) else bs1) v)"
proof -
  have "trun (crit c) t p" "cpu_ok (crit c)" using run by (simp_all add: trun_def)
  then show ?thesis
    unfolding brelse_def
    by (simp add: holdingsleep_vst [where bs = bs, OF run b] releasesleep_vst [where bs = bs, OF _ b]
        bcache_acquire_vst lock bcache_release_vst bs1_def Let_def)
qed

text \<open>A buffer that loses its last reference must be clean: what it holds is on the disk.\<close>

lemma brelse_spec:
  assumes run: "bio_run s p xs" and own: "bowns s p b"
    and clean: "brefcnt (bufs s b) = 1 \<longrightarrow> bdata (bufs s b) = content (vdev s) (ucast (bblockno (bufs s b)))"
  shows "\<exists>s' xs'. brelse b s = Ok s' \<and> bstep s s' \<and> bio_run s' p xs' \<and> vdev s' = vdev s \<and>
    bcore (bufs s') = bcore ((bufs s)(b := (bufs s b)\<lparr>block := initsleeplock, brefcnt := brefcnt (bufs s b) - 1\<rparr>)) \<and>
    (\<forall>m. blk (bufs s') (vdev s') m = blk (bufs s) (vdev s) m) \<and>
    xs' = (if brefcnt (bufs s b) = 1 then b # remove1 b xs else xs)"
proof -
  define c t d bs v where "c = mycpu s" "t = ptable s" "d = disk s" "bs = bufs s" "v = vdev s"
  have s: "s = vst s c t d bs v" unfolding c_t_d_bs_v_def by (rule vst_id)
  have R: "trun c t p" "bcache_lock s = initlock" "disk_idle d" and ok: "cache_ok bs v xs"
    using run by (auto simp: bio_run_def bio_ok_def running_trun c_t_d_bs_v_def)
  have B: "b < NBUF" "block (bs b) = locked_by (pid (t p))" "brefcnt (bs b) \<noteq> 0" "bvalid (bs b)" "bdev (bs b) = ROOTDEV"
    using own by (simp_all add: bowns_def c_t_d_bs_v_def)
  define q where "q = (bs b)\<lparr>block := initsleeplock, brefcnt := brefcnt (bs b) - 1\<rparr>"
  define bs' where "bs' = (if brefcnt (bs b) = 1 then buf_insert b (buf_unlink b (bs(b := q))) else bs(b := q))"
  define xs' where "xs' = (if brefcnt (bs b) = 1 then b # remove1 b xs else xs)"
  define t' where "t' = wake_from (Some (Chan ''buf.lock'' b)) (Some p) 0 t"
  define s' where "s' = vst s (crit c) t' d bs' v"
  have rel: "brelse b s = Ok s'"
    unfolding s'_def bs'_def q_def t'_def
    by (subst s) (rule brelse_vst [where bs = bs and b = b, OF R(1,2) B(2)])
  have core: "bcore bs' = bcore (bs(b := q))" by (simp add: bs'_def)
  have bo: "buf_of bs (bblockno (bs b)) = Some b" by (rule buf_of_eq [OF ok B(1,5)])
  have ok1: "cache_ok (bs(b := q)) v xs"
    by (rule cache_ok_upd [OF ok B(1)])
      (use cache_okD(3) [OF ok B(1)] bo B(3) clean in \<open>auto simp: q_def buf_ok_def c_t_d_bs_v_def\<close>)
  have mem: "b \<in> set xs" using cache_okD(2) [OF ok] B(1) by simp
  have "links bs' xs'"
    using links_move_front [OF cache_okD(1) [OF ok1] mem] cache_okD(1) [OF ok1] by (simp add: bs'_def xs'_def)
  moreover have "set xs' = set xs" using mem cache_okD(6) [OF ok] by (auto simp: xs'_def)
  ultimately have ok': "cache_ok bs' v xs'" by (rule cache_ok_links [OF ok1 core])
  have "blk bs' v m = blk bs v m" for m
    unfolding blk_bcore [OF core]
    by (rule blk_same [OF ok B(1,5)]) (use bo B(4,5) in \<open>simp_all add: q_def blk_def\<close>)
  moreover have "bstep s s'"
    unfolding s'_def by (rule bstepI) (auto simp: woke_def t'_def wake_from_def woken_def c_t_d_bs_v_def)
  moreover have "bio_run s' p xs'" using R ok' by (simp add: s'_def bio_run_vst t'_def)
  ultimately show ?thesis using rel core
    by (intro exI [of _ s'] exI [of _ xs']) (simp add: s'_def xs'_def c_t_d_bs_v_def q_def)
qed

end
