(* ===== verification/Diskfmt.thy ===== *)
theory Diskfmt
  imports Bio_Spec
begin

text \<open>
  \<^verbatim>\<open>kernel/fs.h\<close>: the structures on the disk. A block is a list of bytes; the fields of a
  structure are little-endian integers at the offsets of the C declaration, read and written
  in place. Reading back what was written gives it again, and writing one field or one
  structure leaves the bytes of the others.
\<close>

definition ROOTINO :: uint32 where [layout_defs]: "ROOTINO = 1"
definition FSMAGIC :: uint32 where [layout_defs]: "FSMAGIC = 0x10203040"
definition NDIRECT :: nat where [layout_defs]: "NDIRECT = 12"
definition NINDIRECT :: nat where [layout_defs]: "NINDIRECT = BSIZE div 4"
definition MAXFILE :: nat where [layout_defs]: "MAXFILE = NDIRECT + NINDIRECT"
definition IPB :: nat where [layout_defs]: "IPB = BSIZE div 64"
definition BPB :: nat where [layout_defs]: "BPB = BSIZE * 8"
definition DIRSIZ :: nat where [layout_defs]: "DIRSIZ = 14"

definition T_DIR :: ushort where [layout_defs]: "T_DIR = 1"
definition T_FILE :: ushort where [layout_defs]: "T_FILE = 2"
definition T_DEVICE :: ushort where [layout_defs]: "T_DEVICE = 3"

section \<open>Fields of blocks\<close>

definition get_bytes :: "uchar list \<Rightarrow> nat \<Rightarrow> nat \<Rightarrow> uchar list" where
  "get_bytes d i n = take n (drop i d)"

definition put_bytes :: "uchar list \<Rightarrow> nat \<Rightarrow> uchar list \<Rightarrow> uchar list" where
  "put_bytes d i bs = take i d @ bs @ drop (i + length bs) d"

definition get16 :: "uchar list \<Rightarrow> nat \<Rightarrow> ushort" where
  "get16 d i = of_le_bytes (get_bytes d i 2)"

definition put16 :: "uchar list \<Rightarrow> nat \<Rightarrow> ushort \<Rightarrow> uchar list" where
  "put16 d i v = put_bytes d i (le_bytes 2 v)"

definition get32 :: "uchar list \<Rightarrow> nat \<Rightarrow> uint32" where
  "get32 d i = of_le_bytes (get_bytes d i 4)"

definition put32 :: "uchar list \<Rightarrow> nat \<Rightarrow> uint32 \<Rightarrow> uchar list" where
  "put32 d i v = put_bytes d i (le_bytes 4 v)"

lemma length_put_bytes [simp]: "i + length bs \<le> length d \<Longrightarrow> length (put_bytes d i bs) = length d"
  by (simp add: put_bytes_def)

lemma get_put_bytes [simp]: "i + length bs \<le> length d \<Longrightarrow> get_bytes (put_bytes d i bs) i (length bs) = bs"
  by (simp add: get_bytes_def put_bytes_def)

lemma get_put_other:
  assumes "i + length bs \<le> length d" and "j + n \<le> i \<or> i + length bs \<le> j"
  shows "get_bytes (put_bytes d i bs) j n = get_bytes d j n"
proof (rule nth_equalityI)
  show "length (get_bytes (put_bytes d i bs) j n) = length (get_bytes d j n)" using assms(1) by (simp add: get_bytes_def)
  fix k assume "k < length (get_bytes (put_bytes d i bs) j n)"
  then show "get_bytes (put_bytes d i bs) j n ! k = get_bytes d j n ! k"
    using assms by (auto simp: get_bytes_def put_bytes_def nth_append)
qed

lemma length_put [simp]:
  "i + 2 \<le> length d \<Longrightarrow> length (put16 d i v) = length d" "i + 4 \<le> length d \<Longrightarrow> length (put32 d i w) = length d"
  by (simp_all add: put16_def put32_def)

lemma get_put [simp]:
  "i + 2 \<le> length d \<Longrightarrow> get16 (put16 d i v) i = v" "i + 4 \<le> length d \<Longrightarrow> get32 (put32 d i w) i = w"
  using get_put_bytes [of i "le_bytes 2 v" d] get_put_bytes [of i "le_bytes 4 w" d]
  by (simp_all add: get16_def put16_def get32_def put32_def of_le_bytes_le_bytes)

lemma get_put_frame:
  "i + 2 \<le> length d \<Longrightarrow> j + n \<le> i \<or> i + 2 \<le> j \<Longrightarrow> get_bytes (put16 d i v) j n = get_bytes d j n"
  "i + 4 \<le> length d \<Longrightarrow> j + n \<le> i \<or> i + 4 \<le> j \<Longrightarrow> get_bytes (put32 d i w) j n = get_bytes d j n"
  using get_put_other [of i "le_bytes 2 v" d j n] get_put_other [of i "le_bytes 4 w" d j n]
  by (simp_all add: put16_def put32_def)

lemma get_frame [simp]:
  "i + 2 \<le> length d \<Longrightarrow> j + 2 \<le> i \<or> i + 2 \<le> j \<Longrightarrow> get16 (put16 d i v) j = get16 d j"
  "i + 4 \<le> length d \<Longrightarrow> j + 2 \<le> i \<or> i + 4 \<le> j \<Longrightarrow> get16 (put32 d i w) j = get16 d j"
  "i + 2 \<le> length d \<Longrightarrow> j + 4 \<le> i \<or> i + 2 \<le> j \<Longrightarrow> get32 (put16 d i v) j = get32 d j"
  "i + 4 \<le> length d \<Longrightarrow> j + 4 \<le> i \<or> i + 4 \<le> j \<Longrightarrow> get32 (put32 d i w) j = get32 d j"
  by (simp_all add: get16_def get32_def get_put_frame)

section \<open>The structures\<close>

record superblock =
  sb_magic :: uint32
  sb_size :: uint32
  sb_nblocks :: uint32
  sb_ninodes :: uint32
  sb_nlog :: uint32
  sb_logstart :: uint32
  sb_inodestart :: uint32
  sb_bmapstart :: uint32

definition superblock_of :: "uchar list \<Rightarrow> superblock" where
  "superblock_of d = \<lparr>sb_magic = get32 d 0, sb_size = get32 d 4, sb_nblocks = get32 d 8, sb_ninodes = get32 d 12,
     sb_nlog = get32 d 16, sb_logstart = get32 d 20, sb_inodestart = get32 d 24, sb_bmapstart = get32 d 28\<rparr>"

definition IBLOCK :: "uint32 \<Rightarrow> superblock \<Rightarrow> uint32" where
  "IBLOCK i sb = i div word_of_nat IPB + sb_inodestart sb"

definition BBLOCK :: "uint32 \<Rightarrow> superblock \<Rightarrow> uint32" where
  "BBLOCK b sb = b div word_of_nat BPB + sb_bmapstart sb"

record dinode =
  di_type :: ushort
  di_major :: ushort
  di_minor :: ushort
  di_nlink :: ushort
  di_size :: uint32
  di_addrs :: "uint32 list"

definition dinode_at :: "uchar list \<Rightarrow> nat \<Rightarrow> dinode" where
  "dinode_at d k = (let off = 64 * k in
     \<lparr>di_type = get16 d off, di_major = get16 d (off + 2), di_minor = get16 d (off + 4), di_nlink = get16 d (off + 6),
      di_size = get32 d (off + 8), di_addrs = map (\<lambda>i. get32 d (off + 12 + 4 * i)) [0..<NDIRECT + 1]\<rparr>)"

primrec put_words :: "uchar list \<Rightarrow> nat \<Rightarrow> uint32 list \<Rightarrow> uchar list" where
  "put_words d i [] = d"
| "put_words d i (w # ws) = put_words (put32 d i w) (i + 4) ws"

definition put_dinode :: "uchar list \<Rightarrow> nat \<Rightarrow> dinode \<Rightarrow> uchar list" where
  "put_dinode d k di =
     (let off = 64 * k;
          d = put16 d off (di_type di); d = put16 d (off + 2) (di_major di); d = put16 d (off + 4) (di_minor di);
          d = put16 d (off + 6) (di_nlink di); d = put32 d (off + 8) (di_size di)
      in put_words d (off + 12) (di_addrs di))"

record dirent =
  de_inum :: ushort
  de_name :: "uchar list"

definition dirent_of :: "uchar list \<Rightarrow> dirent" where
  "dirent_of d = \<lparr>de_inum = get16 d 0, de_name = get_bytes d 2 DIRSIZ\<rparr>"

definition dirent_bytes :: "dirent \<Rightarrow> uchar list" where
  "dirent_bytes de = le_bytes 2 (de_inum de) @ de_name de"

definition DIRENT_size :: nat where [layout_defs]: "DIRENT_size = 2 + DIRSIZ"

lemma length_put_words: "i + 4 * length ws \<le> length d \<Longrightarrow> length (put_words d i ws) = length d"
  by (induction ws arbitrary: d i) simp_all

lemma put_words_frame:
  "i + 4 * length ws \<le> length d \<Longrightarrow> j + n \<le> i \<or> i + 4 * length ws \<le> j \<Longrightarrow>
   get_bytes (put_words d i ws) j n = get_bytes d j n"
  by (induction ws arbitrary: d i) (auto simp: get_put_frame)

lemma put_words_nth:
  "i + 4 * length ws \<le> length d \<Longrightarrow> k < length ws \<Longrightarrow> get32 (put_words d i ws) (i + 4 * k) = ws ! k"
proof (induction ws arbitrary: d i k)
  case (Cons w ws)
  show ?case
  proof (cases k)
    case 0
    have "get_bytes (put_words (put32 d i w) (i + 4) ws) i 4 = get_bytes (put32 d i w) i 4"
      using Cons.prems by (intro put_words_frame) simp_all
    then show ?thesis using 0 Cons.prems get_put(2) [of i d w] by (simp add: get32_def)
  next
    case (Suc k')
    then show ?thesis using Cons.IH [of "i + 4" "put32 d i w" k'] Cons.prems by (simp add: algebra_simps)
  qed
qed simp

lemmas put_words_props = length_put_words put_words_frame put_words_nth

lemma dinode_put_get:
  assumes "64 * k + 64 \<le> length d" and "length (di_addrs di) = NDIRECT + 1"
  shows "dinode_at (put_dinode d k di) k = di"
proof -
  define off where "off = 64 * k"
  define d1 where "d1 = put32 (put16 (put16 (put16 (put16 d off (di_type di)) (off + 2) (di_major di)) (off + 4) (di_minor di))
    (off + 6) (di_nlink di)) (off + 8) (di_size di)"
  have len: "off + 64 \<le> length d" "length d1 = length d" using assms(1) by (simp_all add: off_def d1_def)
  have W: "off + 12 + 4 * length (di_addrs di) \<le> length d1" using len assms(2) by (simp add: NDIRECT_def)
  have put: "put_dinode d k di = put_words d1 (off + 12) (di_addrs di)" by (simp add: put_dinode_def Let_def off_def d1_def)
  have low: "get16 (put_words d1 (off + 12) (di_addrs di)) j = get16 d1 j" if "j + 2 \<le> off + 12" for j
    using put_words_props(2) [OF W, of j 2] that by (simp add: get16_def)
  have size: "get32 (put_words d1 (off + 12) (di_addrs di)) (off + 8) = get32 d1 (off + 8)"
    using put_words_props(2) [OF W, of "off + 8" 4] by (simp add: get32_def)
  have "map (\<lambda>i. get32 (put_words d1 (off + 12) (di_addrs di)) (off + 12 + 4 * i)) [0..<NDIRECT + 1] = di_addrs di"
    by (rule nth_equalityI) (use put_words_props(3) [OF W] assms(2) in \<open>simp_all del: upt_Suc\<close>)
  then show ?thesis
    using len unfolding dinode_at_def put Let_def off_def [symmetric]
    by (simp add: low size) (simp add: d1_def)
qed

lemma put_dinode_frame:
  assumes "64 * k + 64 \<le> length d" and "length (di_addrs di) = NDIRECT + 1"
  shows "length (put_dinode d k di) = length d"
    "j + n \<le> 64 * k \<or> 64 * k + 64 \<le> j \<Longrightarrow> get_bytes (put_dinode d k di) j n = get_bytes d j n"
  using assms put_words_props(1,2) by (auto simp: put_dinode_def Let_def get_put_frame NDIRECT_def)

lemma dirent_roundtrip:
  assumes "length (de_name de) = DIRSIZ"
  shows "dirent_of (dirent_bytes de) = de" "length (dirent_bytes de) = DIRENT_size"
  using assms
  by (simp_all add: dirent_of_def dirent_bytes_def get16_def get_bytes_def of_le_bytes_le_bytes DIRENT_size_def)

end
