(* ===== verification/Log.thy ===== *)
theory Log
  imports Diskfmt
begin

text \<open>
  \<^verbatim>\<open>kernel/log.c\<close>: the redo log. \<^verbatim>\<open>struct log\<close> is a field of the state, which extends the
  state of the buffer cache; the in-memory header is the number of blocks and the array of
  block numbers. Loops over the header read its length at their start: nothing in their bodies
  writes it. An index outside \<^verbatim>\<open>block[LOGSIZE]\<close> has no defined effect in C; \<open>out_of_bounds\<close>
  marks it.

  \<^verbatim>\<open>begin_op\<close> waits while a commit runs or the log is short of space. \<open>begin_op_turn\<close> is one
  iteration of its loop; \<open>begin_op\<close> is the call that needs no waiting.
\<close>

record log =
  log_lock :: spinlock
  log_start :: uint32
  log_size :: uint32
  outstanding :: int
  committing :: bool
  log_dev :: uint32
  lh_n :: int
  lh_block :: "uint32 list"

record lsys = bio +
  klog :: log

definition out_of_bounds :: "'a res" where
  "out_of_bounds = Panic ''undefined: index out of bounds''"

definition upd_log :: "(log \<Rightarrow> log) \<Rightarrow> 'a lsys_scheme \<Rightarrow> 'a lsys_scheme" where
  "upd_log f s = s\<lparr>klog := f (klog s)\<rparr>"

definition log_chan :: chan where
  "log_chan = Chan ''log'' 0"

definition log_acquire :: "'a lsys_scheme \<Rightarrow> 'a lsys_scheme res" where
  "log_acquire s = rbind (acquire (log_lock (klog s)) (mycpu s)) (\<lambda>(lk, c).
     Ok (upd_log (log_lock_update (\<lambda>_. lk)) (s\<lparr>mycpu := c\<rparr>)))"

definition log_release :: "'a lsys_scheme \<Rightarrow> 'a lsys_scheme res" where
  "log_release s = rbind (release (log_lock (klog s)) (mycpu s)) (\<lambda>(lk, c).
     Ok (upd_log (log_lock_update (\<lambda>_. lk)) (s\<lparr>mycpu := c\<rparr>)))"

section \<open>The header\<close>

definition read_head :: "('a lsys_scheme \<Rightarrow> 'a lsys_scheme) \<Rightarrow> 'a lsys_scheme \<Rightarrow> 'a lsys_scheme res" where
  "read_head D s =
     rbind (bread D (log_dev (klog s)) (log_start (klog s)) s) (\<lambda>(b, s).
     let d = bdata (bufs s b);
         n = sint (get32 d 0);
         s = upd_log (lh_n_update (\<lambda>_. n)) s
     in if n > int LOGSIZE then out_of_bounds else
     let s = upd_log (\<lambda>l. l\<lparr>lh_block := map (\<lambda>i. if int i < n then get32 d (4 + 4 * i) else lh_block l ! i) [0..<LOGSIZE]\<rparr>) s
     in brelse b s)"

definition write_head :: "('a lsys_scheme \<Rightarrow> 'a lsys_scheme) \<Rightarrow> 'a lsys_scheme \<Rightarrow> 'a lsys_scheme res" where
  "write_head D s =
     rbind (bread D (log_dev (klog s)) (log_start (klog s)) s) (\<lambda>(b, s).
     let d = put32 (bdata (bufs s b)) 0 (word_of_int (lh_n (klog s)));
         d = put_words d 4 (take (nat (lh_n (klog s))) (lh_block (klog s)));
         s = upd_buf b (bdata_update (\<lambda>_. d)) s
     in rbind (bwrite D b s) (brelse b))"

section \<open>Installing and recovery\<close>

function install_loop :: "('a lsys_scheme \<Rightarrow> 'a lsys_scheme) \<Rightarrow> bool \<Rightarrow> nat \<Rightarrow> nat \<Rightarrow> 'a lsys_scheme \<Rightarrow> 'a lsys_scheme res" where
  "install_loop D recovering tail n s =
     (if tail < n then
        rbind (bread D (log_dev (klog s)) (log_start (klog s) + word_of_nat tail + 1) s) (\<lambda>(lbuf, s).
        rbind (bread D (log_dev (klog s)) (lh_block (klog s) ! tail) s) (\<lambda>(dbuf, s).
        let s = upd_buf dbuf (bdata_update (\<lambda>_. bdata (bufs s lbuf))) s in
        rbind (bwrite D dbuf s) (\<lambda>s.
        rbind (if \<not> recovering then bunpin dbuf s else Ok s) (\<lambda>s.
        rbind (brelse lbuf s) (\<lambda>s.
        rbind (brelse dbuf s) (\<lambda>s. install_loop D recovering (Suc tail) n s))))))
      else Ok s)"
  by pat_completeness auto
termination
  by (relation "measure (\<lambda>(_, _, tail, n, _). n - tail)") auto

declare install_loop.simps [simp del]

definition install_trans :: "('a lsys_scheme \<Rightarrow> 'a lsys_scheme) \<Rightarrow> bool \<Rightarrow> 'a lsys_scheme \<Rightarrow> 'a lsys_scheme res" where
  "install_trans D recovering s = install_loop D recovering 0 (nat (lh_n (klog s))) s"

definition recover_from_log :: "('a lsys_scheme \<Rightarrow> 'a lsys_scheme) \<Rightarrow> 'a lsys_scheme \<Rightarrow> 'a lsys_scheme res" where
  "recover_from_log D s =
     rbind (read_head D s) (\<lambda>s.
     rbind (install_trans D True s) (\<lambda>s.
     write_head D (upd_log (lh_n_update (\<lambda>_. 0)) s)))"

text \<open>The size check of \<^verbatim>\<open>initlog\<close> is on constants: \<^verbatim>\<open>sizeof(struct logheader)\<close> is \<^verbatim>\<open>4 + 4 * LOGSIZE\<close>.\<close>

definition initlog :: "('a lsys_scheme \<Rightarrow> 'a lsys_scheme) \<Rightarrow> uint32 \<Rightarrow> superblock \<Rightarrow> 'a lsys_scheme \<Rightarrow> 'a lsys_scheme res" where
  "initlog D dev sb s =
     (if 4 + 4 * LOGSIZE \<ge> BSIZE then Panic ''initlog: too big logheader''
      else recover_from_log D (upd_log (\<lambda>l. l\<lparr>log_lock := initlock, log_start := sb_logstart sb,
             log_size := sb_nlog sb, log_dev := dev\<rparr>) s))"

section \<open>Transactions\<close>

definition begin_op_turn :: "'a lsys_scheme \<Rightarrow> (unit outcome \<times> bool \<times> 'a lsys_scheme) res" where
  "begin_op_turn s =
     (if committing (klog s) \<or> lh_n (klog s) + (outstanding (klog s) + 1) * int MAXOPBLOCKS > int LOGSIZE
      then rbind (sleep_enter (Some log_chan) log_release s) (\<lambda>(b, s). Ok (Block log_chan, b, s))
      else
        let s = upd_log (\<lambda>l. l\<lparr>outstanding := outstanding l + 1\<rparr>) s
        in rbind (log_release s) (\<lambda>s. Ok (Ret (), False, s)))"

definition begin_op_try :: "'a lsys_scheme \<Rightarrow> (unit outcome \<times> bool \<times> 'a lsys_scheme) res" where
  "begin_op_try s = rbind (log_acquire s) begin_op_turn"

definition begin_op_resume :: "nat \<Rightarrow> bool \<Rightarrow> 'a lsys_scheme \<Rightarrow> (unit outcome \<times> bool \<times> 'a lsys_scheme) res" where
  "begin_op_resume p b s = rbind (sleep_leave p b log_acquire s) begin_op_turn"

definition begin_op :: "'a lsys_scheme \<Rightarrow> 'a lsys_scheme res" where
  "begin_op s = rbind (begin_op_try s) (\<lambda>(r, b, s). case r of Ret _ \<Rightarrow> Ok s | Block _ \<Rightarrow> Hang)"

function write_log_loop :: "('a lsys_scheme \<Rightarrow> 'a lsys_scheme) \<Rightarrow> nat \<Rightarrow> nat \<Rightarrow> 'a lsys_scheme \<Rightarrow> 'a lsys_scheme res" where
  "write_log_loop D tail n s =
     (if tail < n then
        rbind (bread D (log_dev (klog s)) (log_start (klog s) + word_of_nat tail + 1) s) (\<lambda>(to, s).
        rbind (bread D (log_dev (klog s)) (lh_block (klog s) ! tail) s) (\<lambda>(from, s).
        let s = upd_buf to (bdata_update (\<lambda>_. bdata (bufs s from))) s in
        rbind (bwrite D to s) (\<lambda>s.
        rbind (brelse from s) (\<lambda>s.
        rbind (brelse to s) (\<lambda>s. write_log_loop D (Suc tail) n s)))))
      else Ok s)"
  by pat_completeness auto
termination
  by (relation "measure (\<lambda>(_, tail, n, _). n - tail)") auto

declare write_log_loop.simps [simp del]

definition write_log :: "('a lsys_scheme \<Rightarrow> 'a lsys_scheme) \<Rightarrow> 'a lsys_scheme \<Rightarrow> 'a lsys_scheme res" where
  "write_log D s = write_log_loop D 0 (nat (lh_n (klog s))) s"

definition commit :: "('a lsys_scheme \<Rightarrow> 'a lsys_scheme) \<Rightarrow> 'a lsys_scheme \<Rightarrow> 'a lsys_scheme res" where
  "commit D s =
     (if lh_n (klog s) > 0 then
        rbind (write_log D s) (\<lambda>s.
        rbind (write_head D s) (\<lambda>s.
        rbind (install_trans D False s) (\<lambda>s.
        write_head D (upd_log (lh_n_update (\<lambda>_. 0)) s))))
      else Ok s)"

definition end_op :: "('a lsys_scheme \<Rightarrow> 'a lsys_scheme) \<Rightarrow> 'a lsys_scheme \<Rightarrow> 'a lsys_scheme res" where
  "end_op D s =
     rbind (log_acquire s) (\<lambda>s.
     let s = upd_log (\<lambda>l. l\<lparr>outstanding := outstanding l - 1\<rparr>) s in
     if committing (klog s) then Panic ''log.committing'' else
     let do_commit = (outstanding (klog s) = 0) in
     rbind (if do_commit then Ok (upd_log (committing_update (\<lambda>_. True)) s) else wakeup (Some log_chan) s) (\<lambda>s.
     rbind (log_release s) (\<lambda>s.
     if do_commit then
       rbind (commit D s) (\<lambda>s.
       rbind (log_acquire s) (\<lambda>s.
       let s = upd_log (committing_update (\<lambda>_. False)) s in
       rbind (wakeup (Some log_chan) s) log_release))
     else Ok s)))"

function log_find :: "uint32 \<Rightarrow> nat \<Rightarrow> nat \<Rightarrow> uint32 list \<Rightarrow> nat" where
  "log_find b i n bs = (if i < n then if bs ! i = b then i else log_find b (Suc i) n bs else i)"
  by pat_completeness auto
termination
  by (relation "measure (\<lambda>(_, i, n, _). n - i)") auto

declare log_find.simps [simp del]

definition log_write :: "nat \<Rightarrow> 'a lsys_scheme \<Rightarrow> 'a lsys_scheme res" where
  "log_write b s =
     rbind (log_acquire s) (\<lambda>s.
     if lh_n (klog s) \<ge> int LOGSIZE \<or> lh_n (klog s) \<ge> sint (log_size (klog s)) - 1 then Panic ''too big a transaction''
     else if outstanding (klog s) < 1 then Panic ''log_write outside of trans''
     else
     let i = log_find (bblockno (bufs s b)) 0 (nat (lh_n (klog s))) (lh_block (klog s));
         s = upd_log (\<lambda>l. l\<lparr>lh_block := (lh_block l)[i := bblockno (bufs s b)]\<rparr>) s
     in rbind (if int i = lh_n (klog s)
               then rbind (bpin b s) (\<lambda>s. Ok (upd_log (\<lambda>l. l\<lparr>lh_n := lh_n l + 1\<rparr>) s))
               else Ok s) log_release)"

end
