(* ===== verification/Bio_Res.thy ===== *)
theory Bio_Res
  imports Log
begin

text \<open>
  The buffer cache as the layers above see it: a process holds some buffers (locked, with a
  reference each), some blocks are pinned in the cache, and every block has a content. \<open>bres s p P H\<close>
  says that the references and locks of the cache are exactly those of the pinned blocks \<open>P\<close> and of
  the buffers \<open>H\<close> that process \<open>p\<close> holds; each operation is a change of \<open>P\<close>, \<open>H\<close>, the contents
  and the history of the disk.
\<close>

definition view :: "'a bio_scheme \<Rightarrow> uint32 \<Rightarrow> uchar list" where
  "view s = blk (bufs s) (vdev s)"

definition pinb :: "uint32 set \<Rightarrow> buf \<Rightarrow> bool" where
  "pinb P q \<longleftrightarrow> bdev q = ROOTDEV \<and> bblockno q \<in> P"

definition bres :: "'a bio_scheme \<Rightarrow> nat \<Rightarrow> uint32 set \<Rightarrow> (nat \<rightharpoonup> uint32) \<Rightarrow> bool" where
  "bres s p P H \<longleftrightarrow> (\<exists>xs. bio_run s p xs) \<and> finite P \<and> dom H \<subseteq> {..<NBUF} \<and>
     (\<forall>i < NBUF. brefcnt (bufs s i) = (if pinb P (bufs s i) then 1 else 0) + (if i \<in> dom H then 1 else 0)) \<and>
     (\<forall>i n. H i = Some n \<longrightarrow> bvalid (bufs s i) \<and> bdev (bufs s i) = ROOTDEV \<and> bblockno (bufs s i) = n \<and>
        block (bufs s i) = locked_by (pid (ptable s p))) \<and>
     (\<forall>i < NBUF. H i = None \<longrightarrow> block (bufs s i) = initsleeplock) \<and>
     (\<forall>n \<in> P. \<exists>i. buf_of (bufs s) n = Some i \<and> bvalid (bufs s i))"

lemma init_not_locked [simp]: "initsleeplock \<noteq> locked_by n"
  using slk_locked_by(3) [of n] by (rule not_sym)

lemma bresD:
  assumes "bres s p P H"
  shows "\<exists>xs. bio_run s p xs" "finite P" "dom H \<subseteq> {..<NBUF}"
    "i < NBUF \<Longrightarrow> brefcnt (bufs s i) = (if pinb P (bufs s i) then 1 else 0) + (if i \<in> dom H then 1 else 0)"
    "H i = Some n \<Longrightarrow> bvalid (bufs s i)" "H i = Some n \<Longrightarrow> bdev (bufs s i) = ROOTDEV"
    "H i = Some n \<Longrightarrow> bblockno (bufs s i) = n" "H i = Some n \<Longrightarrow> block (bufs s i) = locked_by (pid (ptable s p))"
    "i < NBUF \<Longrightarrow> H i = None \<Longrightarrow> block (bufs s i) = initsleeplock"
    "n \<in> P \<Longrightarrow> \<exists>i. buf_of (bufs s) n = Some i \<and> bvalid (bufs s i)"
  using assms unfolding bres_def by blast+

lemma bres_bowns:
  assumes "bres s p P H" and "H b = Some n"
  shows "bowns s p b" "b < NBUF"
proof -
  show b: "b < NBUF" using bresD(3) [OF assms(1)] assms(2) by auto
  have "brefcnt (bufs s b) \<noteq> 0" using bresD(4) [OF assms(1) b] assms(2) by (auto split: if_splits)
  then show "bowns s p b" using b bresD(5,6,8) [OF assms] by (simp add: bowns_def)
qed

lemma bres_data:
  assumes "bres s p P H" and "H b = Some n"
  shows "bdata (bufs s b) = view s n"
proof -
  obtain xs where "bio_run s p xs" using bresD(1) [OF assms(1)] by blast
  then have ok: "cache_ok (bufs s) (vdev s) xs" by (simp add: bio_run_def bio_ok_def)
  show ?thesis using blk_buf [OF ok bres_bowns(2) [OF assms]] bresD(5-7) [OF assms] by (simp add: view_def)
qed

text \<open>A buffer is free while fewer than \<^verbatim>\<open>NBUF\<close> references are held.\<close>

lemma bres_free:
  assumes R: "bres s p P H" and "card P + card (dom H) < NBUF"
  shows "\<exists>i < NBUF. brefcnt (bufs s i) = 0"
proof (rule ccontr)
  assume no: "\<not> (\<exists>i < NBUF. brefcnt (bufs s i) = 0)"
  obtain xs where "bio_run s p xs" using bresD(1) [OF R] by blast
  then have ok: "cache_ok (bufs s) (vdev s) xs" by (simp add: bio_run_def bio_ok_def)
  define A where "A = {i. i < NBUF \<and> pinb P (bufs s i)}"
  have "inj_on (\<lambda>i. bblockno (bufs s i)) A"
    using cache_okD(4) [OF ok] by (auto simp: inj_on_def A_def pinb_def)
  moreover have "(\<lambda>i. bblockno (bufs s i)) ` A \<subseteq> P" by (auto simp: A_def pinb_def)
  ultimately have "card A \<le> card P" using bresD(2) [OF R] by (meson card_inj_on_le)
  moreover have "{..<NBUF} \<subseteq> A \<union> dom H"
    using no bresD(4) [OF R] by (fastforce simp: A_def split: if_splits)
  moreover have "finite (A \<union> dom H)" using finite_subset [OF bresD(3) [OF R]] by (simp add: A_def)
  ultimately have "NBUF \<le> card P + card (dom H)"
    using card_mono [of "A \<union> dom H" "{..<NBUF}"] card_Un_le [of A "dom H"] by simp
  then show False using assms(2) by simp
qed

lemma bres_can_get:
  assumes R: "bres s p P H" and "n \<in> P \<or> card P + card (dom H) < NBUF" and "n \<notin> ran H"
  shows "can_get (bufs s) n"
proof (cases "buf_of (bufs s) n")
  case None
  then have "n \<notin> P" using bresD(10) [OF R, of n] by auto
  then show ?thesis using None bres_free [OF R] assms(2) by (simp add: can_get_def)
next
  case (Some b)
  note B = buf_of_Some [OF Some]
  have H: "b \<notin> dom H" using bresD(7) [OF R, of b] B assms(3) by (auto simp: ran_def)
  then have "brefcnt (bufs s b) + 1 \<noteq> 0" using bresD(4) [OF R, of b] B by auto
  then show ?thesis using bresD(9) [OF R, of b] H B Some by (auto simp: can_get_def)
qed

lemma bstep_proc: "bstep s s' \<Longrightarrow> running s p \<Longrightarrow> ptable s' p = ptable s p"
  using bstep_running by blast

section \<open>The operations on resources\<close>

lemma bres_bread:
  assumes D: "virtio_device D" and R: "bres s p P H" and "n \<in> P \<or> card P + card (dom H) < NBUF" and "n \<notin> ran H" and n: "unat n < 2 ^ 31"
  shows "\<exists>b s'. bread D ROOTDEV n s = Ok (b, s') \<and> bstep s s' \<and> b \<notin> dom H \<and> bres s' p P (H(b \<mapsto> n)) \<and>
    view s' = view s \<and> vdev s' = vdev s"
proof -
  obtain xs where run: "bio_run s p xs" using bresD(1) [OF R] by blast
  obtain b s' where br: "bread D ROOTDEV n s = Ok (b, s')" and g: "got s p xs n b s'"
    using bread_spec [OF D run n bres_can_get [OF R assms(3,4)]] by blast
  note G = gotD [OF g]
  have bH: "b \<notin> dom H"
  proof
    assume "b \<in> dom H"
    then obtain m where "H b = Some m" by blast
    then show False using bresD(8) [OF R, of b m] G(14) by simp
  qed
  have proc: "ptable s' p = ptable s p" using bstep_proc [OF G(1)] run by (simp add: bio_run_def)
  have refs: "brefcnt (bufs s' i) = (if pinb P (bufs s' i) then 1 else 0) + (if i \<in> dom (H(b \<mapsto> n)) then 1 else 0)" if "i < NBUF" for i
  proof (cases "i = b")
    case True
    have "pinb P (bufs s' b) = pinb P (bufs s b)"
      using G(15) G(8,9) bresD(4) [OF R G(3)] bH bresD(10) [OF R, of n] by (auto simp: pinb_def split: if_splits)
    then show ?thesis using True bresD(4) [OF R that] G(11) bH by simp
  next
    case False
    then show ?thesis using bresD(4) [OF R that] G(6) [OF False] by simp
  qed
  have pins: "\<exists>i. buf_of (bufs s') m = Some i \<and> bvalid (bufs s' i)" if m: "m \<in> P" for m
  proof -
    obtain i where i: "buf_of (bufs s) m = Some i" "bvalid (bufs s i)" using bresD(10) [OF R m] by blast
    note I = buf_of_Some [OF i(1)]
    have "brefcnt (bufs s i) \<noteq> 0" using bresD(4) [OF R] I m by (auto simp: pinb_def split: if_splits)
    then have same: "bvalid (bufs s' i) \<and> bdev (bufs s' i) = ROOTDEV \<and> bblockno (bufs s' i) = m"
      using G(15) G(7-9) G(6) [of i] I i(2) by (cases "i = b") auto
    obtain xs' where "cache_ok (bufs s') (vdev s') xs'" using G(2) by (auto simp: bio_run_def bio_ok_def)
    then show ?thesis using buf_of_eq [of "bufs s'" "vdev s'" xs' i] I same by auto
  qed
  have "bres s' p P (H(b \<mapsto> n))"
    unfolding bres_def
  proof (intro conjI allI impI ballI)
    show "\<exists>xs. bio_run s' p xs" using G(2) by blast
    show "finite P" by (rule bresD(2) [OF R])
    show "dom (H(b \<mapsto> n)) \<subseteq> {..<NBUF}" using bresD(3) [OF R] G(3) by simp
  qed (use refs pins proc G bresD(5-9) [OF R] in \<open>auto split: if_splits\<close>)
  then show ?thesis using br G(1,4,5) bH by (intro exI [of _ b] exI [of _ s']) (simp add: view_def fun_eq_iff)
qed

text \<open>Operations that leave every buffer on its block change the references or the locks alone.\<close>

lemma bres_change:
  assumes R: "bres s p P H" and step: "bstep s s'" and run: "bio_run s' p xs" and fin: "finite P'"
    and keep: "\<And>i. i < NBUF \<Longrightarrow> bvalid (bufs s' i) = bvalid (bufs s i) \<and> bdev (bufs s' i) = bdev (bufs s i) \<and>
      bblockno (bufs s' i) = bblockno (bufs s i)"
    and dom: "dom H' \<subseteq> {..<NBUF}" and held: "\<And>i n. H' i = Some n \<Longrightarrow> bvalid (bufs s i) \<and> bdev (bufs s i) = ROOTDEV \<and>
      bblockno (bufs s i) = n \<and> block (bufs s' i) = locked_by (pid (ptable s p))"
    and free: "\<And>i. i < NBUF \<Longrightarrow> H' i = None \<Longrightarrow> block (bufs s' i) = initsleeplock"
    and refs: "\<And>i. i < NBUF \<Longrightarrow> brefcnt (bufs s' i) = (if pinb P' (bufs s i) then 1 else 0) + (if i \<in> dom H' then 1 else 0)"
    and pins: "\<And>n. n \<in> P' \<Longrightarrow> \<exists>i. buf_of (bufs s) n = Some i \<and> bvalid (bufs s i)"
  shows "bres s' p P' H'"
proof -
  obtain ys where "bio_run s p ys" using bresD(1) [OF R] by blast
  then have proc: "ptable s' p = ptable s p" using bstep_proc [OF step] by (simp add: bio_run_def)
  have pinb: "pinb P' (bufs s' i) = pinb P' (bufs s i)" if "i < NBUF" for i using keep [OF that] by (simp add: pinb_def)
  have buf: "buf_of (bufs s') n = buf_of (bufs s) n" for n
    unfolding buf_of_def by (rule find_cong) (use keep in auto)
  have pins': "\<exists>i. buf_of (bufs s') n = Some i \<and> bvalid (bufs s' i)" if "n \<in> P'" for n
    using pins [OF that] buf keep buf_of_Some [of "bufs s" n] by auto
  have held': "bvalid (bufs s' i) \<and> bdev (bufs s' i) = ROOTDEV \<and> bblockno (bufs s' i) = n \<and>
      block (bufs s' i) = locked_by (pid (ptable s' p))" if "H' i = Some n" for i n
  proof -
    have "i < NBUF" using dom that by auto
    then show ?thesis using held [OF that] keep proc by simp
  qed
  show ?thesis unfolding bres_def using run fin dom refs pinb held' free pins' by auto
qed

lemma bres_store:
  fixes x :: "uchar list"
  assumes R: "bres s p P H" and b: "H b = Some n"
  defines "s' \<equiv> upd_buf b (bdata_update (\<lambda>_. x)) s"
  shows "bstep s s'" "bres s' p P H" "view s' = (view s)(n := x)" "vdev s' = vdev s"
proof -
  obtain xs where run: "bio_run s p xs" using bresD(1) [OF R] by blast
  have s': "s' = store b x s" by (simp add: s'_def store_def)
  note S = store_spec [OF run bres_bowns(1) [OF R b], of x]
  show "bstep s s'" "vdev s' = vdev s" using S(1) by (simp_all add: s') (simp add: store_def upd_buf_def)
  show "bres s' p P H"
    unfolding s' by (rule bres_change [OF R S(1,2)]) (use bresD [OF R] in \<open>auto simp: store_def upd_buf_def\<close>)
  show "view s' = (view s)(n := x)" using S(4) bresD(7) [OF R b] by (simp add: s' view_def)
qed

lemma bres_bwrite:
  assumes D: "virtio_device D" and R: "bres s p P H" and b: "H b = Some n"
  shows "\<exists>s'. bwrite D b s = Ok s' \<and> bstep s s' \<and> bres s' p P H \<and> view s' = view s \<and>
    vdev s' = (vdev s)\<lparr>writes := writes (vdev s) @ [(ucast n, view s n)]\<rparr>"
proof -
  obtain xs where run: "bio_run s p xs" using bresD(1) [OF R] by blast
  obtain s' where W: "bwrite D b s = Ok s'" "bstep s s'" "bio_run s' p xs" "bufs s' = bufs s"
    "vdev s' = (vdev s)\<lparr>writes := writes (vdev s) @ [(ucast (bblockno (bufs s b)), bdata (bufs s b))]\<rparr>"
    using bwrite_spec [OF D run bres_bowns(1) [OF R b]] by blast
  have "bres s' p P H"
    by (rule bres_change [OF R W(2,3)]) (use bresD [OF R] W(4) in auto)
  moreover have "view s' = view s"
  proof
    fix m
    have ok: "cache_ok (bufs s) (vdev s) xs" using run by (simp add: bio_run_def bio_ok_def)
    show "view s' m = view s m"
      using cache_ok_write(2) [OF ok bres_bowns(2) [OF R b] _ bresD(6) [OF R b] bresD(5) [OF R b], of m] bres_bowns(1) [OF R b]
      by (simp add: view_def W(4,5) bowns_def)
  qed
  ultimately show ?thesis using W(1,2,5) bres_data [OF R b] bresD(7) [OF R b] by auto
qed

lemma bres_brelse:
  assumes R: "bres s p P H" and b: "H b = Some n" and clean: "n \<in> P \<or> view s n = content (vdev s) (ucast n)"
  shows "\<exists>s'. brelse b s = Ok s' \<and> bstep s s' \<and> bres s' p P (H(b := None)) \<and> view s' = view s \<and> vdev s' = vdev s"
proof -
  obtain xs where run: "bio_run s p xs" using bresD(1) [OF R] by blast
  note B = bres_bowns(2) [OF R b] bresD(6,7) [OF R b]
  have cl: "brefcnt (bufs s b) = 1 \<longrightarrow> bdata (bufs s b) = content (vdev s) (ucast (bblockno (bufs s b)))"
    using clean bresD(4) [OF R B(1)] b B(2,3) bres_data [OF R b] by (auto simp: pinb_def)
  obtain s' xs' where S: "brelse b s = Ok s'" "bstep s s'" "bio_run s' p xs'" "vdev s' = vdev s"
    "bcore (bufs s') = bcore ((bufs s)(b := (bufs s b)\<lparr>block := initsleeplock, brefcnt := brefcnt (bufs s b) - 1\<rparr>))"
    "\<forall>m. blk (bufs s') (vdev s') m = blk (bufs s) (vdev s) m"
    using brelse_spec [OF run bres_bowns(1) [OF R b] cl] by blast
  note E = bcore_eqD [OF S(5)]
  have keep: "bvalid (bufs s' i) = bvalid (bufs s i)" "bdev (bufs s' i) = bdev (bufs s i)"
      "bblockno (bufs s' i) = bblockno (bufs s i)" "block (bufs s' i) = (if i = b then initsleeplock else block (bufs s i))" for i
    using E(1-4) [of i] by simp_all
  have "bres s' p P (H(b := None))"
  proof (rule bres_change [OF R S(2,3) bresD(2) [OF R]])
    show "brefcnt (bufs s' i) = (if pinb P (bufs s i) then 1 else 0) + (if i \<in> dom (H(b := None)) then 1 else 0)" if "i < NBUF" for i
      using bresD(4) [OF R that] b E(5) [of i] by (auto simp: pinb_def)
  qed (use bresD(3,5-10) [OF R] keep in \<open>auto split: if_splits\<close>)
  then show ?thesis using S(1,2,4,6) by (intro exI [of _ s']) (simp add: view_def fun_eq_iff)
qed

lemma bres_bpin:
  assumes R: "bres s p P H" and b: "H b = Some n" and n: "n \<notin> P"
  shows "\<exists>s'. bpin b s = Ok s' \<and> bstep s s' \<and> bres s' p (insert n P) H \<and> view s' = view s \<and> vdev s' = vdev s"
proof -
  obtain xs where run: "bio_run s p xs" using bresD(1) [OF R] by blast
  have ok: "cache_ok (bufs s) (vdev s) xs" using run by (simp add: bio_run_def bio_ok_def)
  note B = bres_bowns(2) [OF R b] bresD(6,7) [OF R b]
  have one: "brefcnt (bufs s b) = 1" using bresD(4) [OF R B(1)] b n B(3) by (auto simp: pinb_def)
  obtain s' where S: "bpin b s = Ok s'" "bstep s s'" "bio_run s' p xs" "vdev s' = vdev s"
    "bufs s' = (bufs s)(b := (bufs s b)\<lparr>brefcnt := 2\<rparr>)"
    using pin_spec(1) [OF run B(1)] one by auto
  have bo: "buf_of (bufs s) n = Some b" using buf_of_eq [OF ok B(1,2)] B(3) by simp
  have other: "pinb (insert n P) (bufs s i) = pinb P (bufs s i)" if "i < NBUF" "i \<noteq> b" for i
    using cache_okD(4) [OF ok that(1) B(1)] B that(2) by (auto simp: pinb_def)
  have "bres s' p (insert n P) H"
  proof (rule bres_change [OF R S(2,3)])
    show "brefcnt (bufs s' i) = (if pinb (insert n P) (bufs s i) then 1 else 0) + (if i \<in> dom H then 1 else 0)" if "i < NBUF" for i
      using bresD(4) [OF R that] b B(2,3) other [OF that] S(5) by (cases "i = b") (auto simp: pinb_def)
  qed (use bresD(2,3,5-10) [OF R] S(5) bo bresD(5) [OF R b] in auto)
  moreover have "view s' = view s"
    unfolding view_def S(4,5) by (rule ext) (rule refcnt_upd(2) [OF ok B(1)], simp_all add: one)
  ultimately show ?thesis using S(1,2,4) by blast
qed

lemma bres_bunpin:
  assumes R: "bres s p P H" and b: "H b = Some n" and n: "n \<in> P"
  shows "\<exists>s'. bunpin b s = Ok s' \<and> bstep s s' \<and> bres s' p (P - {n}) H \<and> view s' = view s \<and> vdev s' = vdev s"
proof -
  obtain xs where run: "bio_run s p xs" using bresD(1) [OF R] by blast
  have ok: "cache_ok (bufs s) (vdev s) xs" using run by (simp add: bio_run_def bio_ok_def)
  note B = bres_bowns(2) [OF R b] bresD(6,7) [OF R b]
  have two: "brefcnt (bufs s b) = 2" using bresD(4) [OF R B(1)] b n B(2,3) by (auto simp: pinb_def)
  obtain s' where S: "bunpin b s = Ok s'" "bstep s s'" "bio_run s' p xs" "vdev s' = vdev s"
    "bufs s' = (bufs s)(b := (bufs s b)\<lparr>brefcnt := 1\<rparr>)"
    using pin_spec(2) [OF run B(1)] two by auto
  have other: "pinb (P - {n}) (bufs s i) = pinb P (bufs s i)" if "i < NBUF" "i \<noteq> b" for i
    using cache_okD(4) [OF ok that(1) B(1)] B that(2) by (auto simp: pinb_def)
  have "bres s' p (P - {n}) H"
  proof (rule bres_change [OF R S(2,3)])
    show "brefcnt (bufs s' i) = (if pinb (P - {n}) (bufs s i) then 1 else 0) + (if i \<in> dom H then 1 else 0)" if "i < NBUF" for i
      using bresD(4) [OF R that] b B(2,3) other [OF that] S(5) by (cases "i = b") (auto simp: pinb_def)
  qed (use bresD(2,3,5-10) [OF R] S(5) in auto)
  moreover have "view s' = view s"
    unfolding view_def S(4,5) by (rule ext) (rule refcnt_upd(2) [OF ok B(1)], simp_all add: two)
  ultimately show ?thesis using S(1,2,4) by blast
qed

text \<open>A block that is neither pinned nor held has on the disk what the cache shows.\<close>

lemma bres_clean:
  assumes R: "bres s p P H" and "n \<notin> P" and "n \<notin> ran H"
  shows "view s n = content (vdev s) (ucast n)"
proof (cases "buf_of (bufs s) n")
  case (Some b)
  obtain xs where run: "bio_run s p xs" using bresD(1) [OF R] by blast
  have ok: "cache_ok (bufs s) (vdev s) xs" using run by (simp add: bio_run_def bio_ok_def)
  note B = buf_of_Some [OF Some]
  have "b \<notin> dom H" using bresD(7) [OF R, of b] B assms(3) by (auto simp: ran_def)
  then have "brefcnt (bufs s b) = 0" using bresD(4) [OF R] B assms(2) by (simp add: pinb_def)
  then show ?thesis using cache_okD(3) [OF ok, of b] B Some by (auto simp: buf_ok_def view_def blk_def)
qed (simp add: view_def blk_def)

lemma bres_frame:
  assumes R: "bres s p P H" and "mycpu s' = mycpu s" and "ptable s' = ptable s" and "bcache_lock s' = bcache_lock s"
    and "bufs s' = bufs s" and "disk s' = disk s" and "vdev s' = vdev s"
  shows "bres s' p P H"
  using assms by (simp add: bres_def bio_run_def bio_ok_def running_def)

end
