(* ===== verification/Log_Spec.thy ===== *)
theory Log_Spec
  imports Bio_Res
begin

text \<open>
  What the loops of the log do to the cache and to the disk: which blocks they write, in which
  order, and that they return.
\<close>

definition logged :: "log \<Rightarrow> uint32 list" where
  "logged l = take (nat (lh_n l)) (lh_block l)"

definition lblk :: "log \<Rightarrow> nat \<Rightarrow> uint32" where
  "lblk l t = log_start l + word_of_nat t + 1"

text \<open>The log has a header block and \<open>log_cap\<close> blocks for data: \<^verbatim>\<open>mkfs\<close> counts the header in \<^verbatim>\<open>nlog\<close>.\<close>

definition log_cap :: "log \<Rightarrow> nat" where
  "log_cap l = min LOGSIZE (nat (sint (log_size l)) - 1)"

definition log_area :: "log \<Rightarrow> uint32 set" where
  "log_area l = insert (log_start l) (lblk l ` {..<log_cap l})"

definition log_wf :: "log \<Rightarrow> bool" where
  "log_wf l \<longleftrightarrow> log_dev l = ROOTDEV \<and> 0 \<le> lh_n l \<and> lh_n l \<le> int (log_cap l) \<and> length (lh_block l) = LOGSIZE \<and>
     unat (log_start l) + LOGSIZE + 1 < 2 ^ 31 \<and> distinct (logged l) \<and>
     (\<forall>b \<in> set (logged l). unat b < 2 ^ 31 \<and> b \<notin> log_area l)"

definition append_writes :: "(uint64 \<times> uchar list) list \<Rightarrow> vdev \<Rightarrow> vdev" where
  "append_writes ws v = v\<lparr>writes := writes v @ ws\<rparr>"

lemma append_writes_simps [simp]:
  "append_writes [] v = v" "append_writes ws' (append_writes ws v) = append_writes (ws @ ws') v"
  "image (append_writes ws v) = image v" "writes (append_writes ws v) = writes v @ ws"
  by (simp_all add: append_writes_def)

lemma log_cap_le: "log_cap l \<le> LOGSIZE"
  by (simp add: log_cap_def)

lemma log_cap_fields [simp]:
  "log_cap (l\<lparr>outstanding := x\<rparr>) = log_cap l" "log_cap (l\<lparr>committing := c\<rparr>) = log_cap l" "log_cap (l\<lparr>log_lock := k\<rparr>) = log_cap l"
  "log_cap (l\<lparr>lh_n := n\<rparr>) = log_cap l" "log_cap (l\<lparr>lh_block := bs\<rparr>) = log_cap l"
  by (simp_all add: log_cap_def)

lemma log_wfD:
  assumes "log_wf l"
  shows "log_dev l = ROOTDEV" "nat (lh_n l) \<le> log_cap l" "length (logged l) = nat (lh_n l)" "distinct (logged l)"
    "b \<in> set (logged l) \<Longrightarrow> unat b < 2 ^ 31" "b \<in> set (logged l) \<Longrightarrow> b \<notin> log_area l" "unat (log_start l) < 2 ^ 31"
    "t < nat (lh_n l) \<Longrightarrow> lh_block l ! t = logged l ! t" "length (lh_block l) = LOGSIZE" "0 \<le> lh_n l" "lh_n l \<le> int LOGSIZE" "nat (lh_n l) \<le> LOGSIZE"
  using assms log_cap_le [of l] by (auto simp: log_wf_def logged_def)

lemma lblk_unat:
  assumes "unat (log_start l) + LOGSIZE + 1 < 2 ^ 31" and "t < LOGSIZE"
  shows "unat (lblk l t) = unat (log_start l) + t + 1"
proof -
  have "t < 30" using assms(2) by (simp add: layout_defs)
  then show ?thesis using assms(1) unfolding lblk_def
    by (simp add: unat_word_ariths unat_of_nat)
qed

lemma lblk_facts:
  assumes "log_wf l" and "t < log_cap l"
  shows "unat (lblk l t) < 2 ^ 31" "lblk l t \<in> log_area l" "lblk l t \<noteq> log_start l" "t' < log_cap l \<Longrightarrow> lblk l t = lblk l t' \<longleftrightarrow> t = t'"
proof -
  have st: "unat (log_start l) + LOGSIZE + 1 < 2 ^ 31" using assms(1) by (simp add: log_wf_def)
  have t: "t < LOGSIZE" using assms(2) log_cap_le [of l] by simp
  note u = lblk_unat [OF st t]
  show "unat (lblk l t) < 2 ^ 31" using u st t by simp
  show "lblk l t \<in> log_area l" using assms(2) by (simp add: log_area_def)
  show "lblk l t \<noteq> log_start l" using u by auto
  show "lblk l t = lblk l t' \<longleftrightarrow> t = t'" if "t' < log_cap l"
    using u lblk_unat [OF st less_le_trans [OF that log_cap_le]] by (metis add_right_cancel add_left_cancel)
qed

lemma bstep_klog: "bstep s s' \<Longrightarrow> klog s' = klog s"
  by (auto simp: bstep_def vst_def)

section \<open>Writing the log\<close>

lemma write_log_iter:
  assumes D: "virtio_device D" and R: "bres s p P Map.empty" and a: "a \<notin> P" "unat a < 2 ^ 31" and b: "b \<in> P" "unat b < 2 ^ 31"
    and P: "card P < NBUF"
  shows "\<exists>to s1 from s2 s3 s4 s5. bread D ROOTDEV a s = Ok (to, s1) \<and> bread D ROOTDEV b s1 = Ok (from, s2) \<and> klog s1 = klog s \<and>
    bwrite D to (upd_buf to (bdata_update (\<lambda>_. bdata (bufs s2 from))) s2) = Ok s3 \<and> brelse from s3 = Ok s4 \<and> brelse to s4 = Ok s5 \<and>
    bstep s s5 \<and> bres s5 p P Map.empty \<and> view s5 = (view s)(a := view s b) \<and> vdev s5 = append_writes [(ucast a, view s b)] (vdev s)"
proof -
  obtain to s1 where 1: "bread D ROOTDEV a s = Ok (to, s1)" "bstep s s1" "bres s1 p P [to \<mapsto> a]" "view s1 = view s" "vdev s1 = vdev s"
    using bres_bread [OF D R, of a] a P by auto
  obtain "from" s2 where 2: "bread D ROOTDEV b s1 = Ok (from, s2)" "bstep s1 s2" "from \<noteq> to" "bres s2 p P [to \<mapsto> a, from \<mapsto> b]"
      "view s2 = view s1" "vdev s2 = vdev s1"
    using bres_bread [OF D 1(3), of b] a b by (auto split: if_splits)
  define s2' where "s2' = upd_buf to (bdata_update (\<lambda>_. bdata (bufs s2 from))) s2"
  have data: "bdata (bufs s2 from) = view s b" using bres_data [OF 2(4), of "from" b] 2(5) 1(4) by simp
  have 3: "bstep s2 s2'" "bres s2' p P [to \<mapsto> a, from \<mapsto> b]" "view s2' = (view s)(a := view s b)" "vdev s2' = vdev s"
    using bres_store [OF 2(4), of to a "bdata (bufs s2 from)"] 2(3,5,6) 1(4,5) data by (simp_all add: s2'_def)
  obtain s3 where 4: "bwrite D to s2' = Ok s3" "bstep s2' s3" "bres s3 p P [to \<mapsto> a, from \<mapsto> b]" "view s3 = view s2'"
      "vdev s3 = append_writes [(ucast a, view s b)] (vdev s)"
    using bres_bwrite [OF D 3(2), of to a] 2(3) 3(3,4) by (auto simp: append_writes_def)
  obtain s4 where 5: "brelse from s3 = Ok s4" "bstep s3 s4" "bres s4 p P ([to \<mapsto> a, from \<mapsto> b](from := None))" "view s4 = view s3" "vdev s4 = vdev s3"
    using bres_brelse [OF 4(3), of "from" b] b by auto
  have H: "[to \<mapsto> a, from \<mapsto> b](from := None) = [to \<mapsto> a]" using 2(3) by (auto simp: fun_eq_iff)
  have "content (vdev s4) (ucast a) = view s4 a" by (simp add: 5(4,5) 4(4,5) 3(3) append_writes_def content_write)
  then obtain s5 where 6: "brelse to s4 = Ok s5" "bstep s4 s5" "bres s5 p P ([to \<mapsto> a](to := None))" "view s5 = view s4" "vdev s5 = vdev s4"
    using bres_brelse [OF 5(3) [unfolded H], of to a] by auto
  have "bstep s s5" by (rule bstep_trans [OF 1(2) bstep_trans [OF 2(2) bstep_trans [OF 3(1) bstep_trans [OF 4(2) bstep_trans [OF 5(2) 6(2)]]]]])
  then show ?thesis
    using 1(1) 2(1) 4(1) 5(1) 6 4(4,5) 5(4,5) 3(3) bstep_klog [OF 1(2)] unfolding s2'_def by auto
qed

definition sized :: "'a bio_scheme \<Rightarrow> bool" where
  "sized s \<longleftrightarrow> (\<forall>n. length (view s n) = BSIZE)"

lemma sized_upd: "sized s \<Longrightarrow> view s' = (view s)(a := x) \<Longrightarrow> length x = BSIZE \<Longrightarrow> sized s'"
  by (simp add: sized_def)

lemma write_log_loop_spec:
  assumes D: "virtio_device D" and wf: "log_wf l" and P: "nat (lh_n l) < NBUF"
  defines "n \<equiv> nat (lh_n l)"
  shows "tail \<le> n \<Longrightarrow> klog s = l \<Longrightarrow> bres s p (set (logged l)) Map.empty \<Longrightarrow> sized s \<Longrightarrow>
    \<exists>s'. write_log_loop D tail n s = Ok s' \<and> bstep s s' \<and> bres s' p (set (logged l)) Map.empty \<and> sized s' \<and>
      (\<forall>m. m \<notin> lblk l ` {tail..<n} \<longrightarrow> view s' m = view s m) \<and>
      (\<forall>t. tail \<le> t \<and> t < n \<longrightarrow> view s' (lblk l t) = view s (logged l ! t)) \<and>
      vdev s' = append_writes (map (\<lambda>t. (ucast (lblk l t), view s (logged l ! t))) [tail..<n]) (vdev s)"
proof (induction "n - tail" arbitrary: tail s)
  case 0
  then show ?case by (auto simp: write_log_loop.simps)
next
  case (Suc k)
  then have t: "tail < n" by simp
  have tl: "tail < log_cap l" using t log_wfD(2) [OF wf] by (simp add: n_def)
  define a b where "a = lblk l tail" and "b = logged l ! tail"
  have b: "b \<in> set (logged l)" using t log_wfD(3) [OF wf] by (simp add: b_def n_def)
  have blk: "lh_block l ! tail = b" using log_wfD(8) [OF wf] t by (simp add: b_def n_def)
  have aP: "a \<notin> set (logged l)" "unat a < 2 ^ 31" "a \<in> log_area l" "unat b < 2 ^ 31"
    using lblk_facts(1,2) [OF wf tl] log_wfD(5,6) [OF wf] b by (auto simp: a_def)
  have card: "card (set (logged l)) < NBUF" using card_length [of "logged l"] log_wfD(3) [OF wf] P by simp
  obtain to s1 "from" s2 s3 s4 s5 where S: "bread D ROOTDEV a s = Ok (to, s1)" "bread D ROOTDEV b s1 = Ok (from, s2)" "klog s1 = klog s"
      "bwrite D to (upd_buf to (bdata_update (\<lambda>_. bdata (bufs s2 from))) s2) = Ok s3" "brelse from s3 = Ok s4" "brelse to s4 = Ok s5"
      "bstep s s5" "bres s5 p (set (logged l)) Map.empty" "view s5 = (view s)(a := view s b)" "vdev s5 = append_writes [(ucast a, view s b)] (vdev s)"
    using write_log_iter [OF D Suc.prems(3) aP(1,2) b aP(4) card] by blast
  have k5: "klog s5 = l" using bstep_klog [OF S(7)] Suc.prems(2) by simp
  have hyp: "k = n - Suc tail" using Suc.hyps(2) by simp
  have "sized s5" using sized_upd [OF Suc.prems(4) S(9)] Suc.prems(4) by (simp add: sized_def)
  then obtain s' where S': "write_log_loop D (Suc tail) n s5 = Ok s'" "bstep s5 s'" "bres s' p (set (logged l)) Map.empty" "sized s'"
      "\<forall>m. m \<notin> lblk l ` {Suc tail..<n} \<longrightarrow> view s' m = view s5 m"
      "\<forall>t. Suc tail \<le> t \<and> t < n \<longrightarrow> view s' (lblk l t) = view s5 (logged l ! t)"
      "vdev s' = append_writes (map (\<lambda>t. (ucast (lblk l t), view s5 (logged l ! t))) [Suc tail..<n]) (vdev s5)"
    using Suc.hyps(1) [OF hyp _ k5 S(8)] t by fastforce
  have same: "view s5 (logged l ! t') = view s (logged l ! t')" if "t' < n" for t'
  proof -
    have "logged l ! t' \<in> set (logged l)" using that log_wfD(3) [OF wf] by (simp add: n_def)
    then show ?thesis using S(9) aP(1) by auto
  qed
  have ws: "map (\<lambda>t. (ucast (lblk l t), view s (logged l ! t))) [tail..<n] =
      (ucast a, view s b) # map (\<lambda>t. (ucast (lblk l t), view s5 (logged l ! t))) [Suc tail..<n]"
    using t same by (simp add: upt_conv_Cons a_def b_def)
  have "write_log_loop D tail n s = write_log_loop D (Suc tail) n s5"
    using S(1-6) t Suc.prems(2) log_wfD(1) [OF wf] blk
    by (subst write_log_loop.simps) (simp add: a_def lblk_def Let_def)
  moreover have "view s' m = view s m" if "m \<notin> lblk l ` {tail..<n}" for m
  proof -
    have "m \<noteq> a" "m \<notin> lblk l ` {Suc tail..<n}" using that t by (auto simp: a_def)
    then show ?thesis using S'(5) S(9) by simp
  qed
  moreover have "view s' (lblk l t') = view s (logged l ! t')" if "tail \<le> t'" "t' < n" for t'
  proof (cases "t' = tail")
    case True
    have "a \<noteq> lblk l x" if "x \<in> {Suc tail..<n}" for x
      using lblk_facts(4) [OF wf tl, of x] log_wfD(2) [OF wf] that by (simp add: a_def n_def)
    then have "a \<notin> lblk l ` {Suc tail..<n}" by blast
    then show ?thesis using True S'(5) S(9) by (simp add: a_def b_def)
  next
    case False
    then show ?thesis using S'(6) same [OF that(2)] that by simp
  qed
  moreover have "vdev s' = append_writes (map (\<lambda>t. (ucast (lblk l t), view s (logged l ! t))) [tail..<n]) (vdev s)"
    by (simp only: S'(7) S(10) append_writes_simps ws append.simps)
  ultimately show ?case using S'(1,3,4) bstep_trans [OF S(7) S'(2)] by (intro exI [of _ s']) simp
qed

section \<open>The header\<close>

definition head_bytes :: "log \<Rightarrow> uchar list \<Rightarrow> uchar list" where
  "head_bytes l d = put_words (put32 d 0 (word_of_int (lh_n l))) 4 (logged l)"

lemma head_bytes_facts:
  assumes "length d = BSIZE" and "log_wf l"
  shows "length (head_bytes l d) = BSIZE" "get32 (head_bytes l d) 0 = word_of_int (lh_n l)"
    "t < nat (lh_n l) \<Longrightarrow> get32 (head_bytes l d) (4 + 4 * t) = logged l ! t"
proof -
  have len: "4 + 4 * length (logged l) \<le> length (put32 d 0 (word_of_int (lh_n l)))"
    using assms(1) log_wfD(12,3) [OF assms(2)] by (simp add: layout_defs)
  show "length (head_bytes l d) = BSIZE" using length_put_words [OF len] assms(1) by (simp add: head_bytes_def BSIZE_def)
  have "get_bytes (head_bytes l d) 0 4 = get_bytes (put32 d 0 (word_of_int (lh_n l))) 0 4"
    unfolding head_bytes_def by (rule put_words_frame [OF len]) simp
  then show "get32 (head_bytes l d) 0 = word_of_int (lh_n l)"
    using get_put(2) [of 0 d "word_of_int (lh_n l)"] assms(1) by (simp add: get32_def BSIZE_def)
  show "get32 (head_bytes l d) (4 + 4 * t) = logged l ! t" if "t < nat (lh_n l)"
    using put_words_nth [OF len, of t] that log_wfD(3) [OF assms(2)] by (simp add: head_bytes_def)
qed

lemma write_head_spec:
  assumes D: "virtio_device D" and wf: "log_wf l" and k: "klog s = l" and R: "bres s p P Map.empty" and P: "card P < NBUF" "log_start l \<notin> P"
    and sz: "sized s"
  defines "d \<equiv> head_bytes l (view s (log_start l))"
  shows "\<exists>s'. write_head D s = Ok s' \<and> bstep s s' \<and> bres s' p P Map.empty \<and> sized s' \<and> view s' = (view s)(log_start l := d) \<and>
    vdev s' = append_writes [(ucast (log_start l), d)] (vdev s)"
proof -
  obtain b s1 where 1: "bread D ROOTDEV (log_start l) s = Ok (b, s1)" "bstep s s1" "bres s1 p P [b \<mapsto> log_start l]" "view s1 = view s" "vdev s1 = vdev s"
    using bres_bread [OF D R, of "log_start l"] P log_wfD(7) [OF wf] by auto
  have k1: "klog s1 = l" using bstep_klog [OF 1(2)] k by simp
  have data: "bdata (bufs s1 b) = view s (log_start l)" using bres_data [OF 1(3), of b] 1(4) by simp
  define s2 where "s2 = upd_buf b (bdata_update (\<lambda>_. d)) s1"
  have 2: "bstep s1 s2" "bres s2 p P [b \<mapsto> log_start l]" "view s2 = (view s)(log_start l := d)" "vdev s2 = vdev s"
    using bres_store [OF 1(3), of b "log_start l" d] 1(4,5) by (simp_all add: s2_def)
  obtain s3 where 3: "bwrite D b s2 = Ok s3" "bstep s2 s3" "bres s3 p P [b \<mapsto> log_start l]" "view s3 = view s2"
      "vdev s3 = append_writes [(ucast (log_start l), d)] (vdev s)"
    using bres_bwrite [OF D 2(2), of b "log_start l"] 2(3,4) by (auto simp: append_writes_def)
  have "content (vdev s3) (ucast (log_start l)) = view s3 (log_start l)"
    by (simp add: 3(4,5) 2(3) append_writes_def content_write)
  then obtain s4 where 4: "brelse b s3 = Ok s4" "bstep s3 s4" "bres s4 p P ([b \<mapsto> log_start l](b := None))" "view s4 = view s3" "vdev s4 = vdev s3"
    using bres_brelse [OF 3(3), of b "log_start l"] by auto
  have "write_head D s = Ok s4"
    using 1(1) 3(1) 4(1) k k1 data log_wfD(1) [OF wf]
    by (simp add: write_head_def Let_def s2_def d_def head_bytes_def logged_def)
  moreover have "bstep s s4" by (rule bstep_trans [OF 1(2) bstep_trans [OF 2(1) bstep_trans [OF 3(2) 4(2)]]])
  moreover have "view s4 = (view s)(log_start l := d)" by (simp add: 4(4) 3(4) 2(3))
  moreover have "sized s4"
    by (rule sized_upd [OF sz \<open>view s4 = (view s)(log_start l := d)\<close>]) (use head_bytes_facts(1) [OF _ wf] sz in \<open>simp add: d_def sized_def\<close>)
  ultimately show ?thesis using 4(3,5) 3(5) by (intro exI [of _ s4]) simp
qed

section \<open>Installing\<close>

lemma install_iter:
  assumes D: "virtio_device D" and R: "bres s p P Map.empty" and a: "a \<notin> P" "unat a < 2 ^ 31" "a \<noteq> b" and b: "unat b < 2 ^ 31"
    and rec: "if r then b \<notin> P \<and> card P + 1 < NBUF else b \<in> P \<and> card P < NBUF"
  shows "\<exists>lbuf s1 dbuf s2 s3 s4 s5 s6. bread D ROOTDEV a s = Ok (lbuf, s1) \<and> bread D ROOTDEV b s1 = Ok (dbuf, s2) \<and> klog s1 = klog s \<and>
    bwrite D dbuf (upd_buf dbuf (bdata_update (\<lambda>_. bdata (bufs s2 lbuf))) s2) = Ok s3 \<and>
    (if \<not> r then bunpin dbuf s3 else Ok s3) = Ok s4 \<and> brelse lbuf s4 = Ok s5 \<and> brelse dbuf s5 = Ok s6 \<and>
    bstep s s6 \<and> bres s6 p (P - {b}) Map.empty \<and> view s6 = (view s)(b := view s a) \<and> vdev s6 = append_writes [(ucast b, view s a)] (vdev s)"
proof -
  have P: "card P < NBUF" "b \<in> P \<or> card P + 1 < NBUF" using rec by (auto split: if_splits)
  obtain lb s1 where 1: "bread D ROOTDEV a s = Ok (lb, s1)" "bstep s s1" "bres s1 p P [lb \<mapsto> a]" "view s1 = view s" "vdev s1 = vdev s"
    using bres_bread [OF D R, of a] a P(1) by auto
  obtain db s2 where 2: "bread D ROOTDEV b s1 = Ok (db, s2)" "bstep s1 s2" "db \<noteq> lb" "bres s2 p P [lb \<mapsto> a, db \<mapsto> b]"
      "view s2 = view s1" "vdev s2 = vdev s1"
    using bres_bread [OF D 1(3), of b] a b P(2) by (auto split: if_splits)
  define s2' where "s2' = upd_buf db (bdata_update (\<lambda>_. bdata (bufs s2 lb))) s2"
  have data: "bdata (bufs s2 lb) = view s a" using bres_data [OF 2(4), of lb a] 2(3,5) 1(4) by simp
  have 3: "bstep s2 s2'" "bres s2' p P [lb \<mapsto> a, db \<mapsto> b]" "view s2' = (view s)(b := view s a)" "vdev s2' = vdev s"
    using bres_store [OF 2(4), of db b "bdata (bufs s2 lb)"] 2(3,5,6) 1(4,5) data by (simp_all add: s2'_def)
  obtain s3 where 4: "bwrite D db s2' = Ok s3" "bstep s2' s3" "bres s3 p P [lb \<mapsto> a, db \<mapsto> b]" "view s3 = view s2'"
      "vdev s3 = append_writes [(ucast b, view s a)] (vdev s)"
    using bres_bwrite [OF D 3(2), of db b] 2(3) 3(3,4) by (auto simp: append_writes_def)
  obtain s4 where 5: "(if \<not> r then bunpin db s3 else Ok s3) = Ok s4" "bstep s3 s4" "bres s4 p (P - {b}) [lb \<mapsto> a, db \<mapsto> b]"
      "view s4 = view s3" "vdev s4 = vdev s3"
    using bres_bunpin [OF 4(3), of db b] rec 4(3) by (cases r) auto
  have "view s4 a = content (vdev s4) (ucast a)"
    using bres_clean [OF R, of a] a by (simp add: 5(4,5) 4(4,5) 3(3) append_writes_def content_write ucast_block_inj)
  then obtain s5 where 6: "brelse lb s4 = Ok s5" "bstep s4 s5" "bres s5 p (P - {b}) ([lb \<mapsto> a, db \<mapsto> b](lb := None))" "view s5 = view s4" "vdev s5 = vdev s4"
    using bres_brelse [OF 5(3), of lb a] 2(3) by auto
  have H: "[lb \<mapsto> a, db \<mapsto> b](lb := None) = [db \<mapsto> b]" using 2(3) by (auto simp: fun_eq_iff)
  have "view s5 b = content (vdev s5) (ucast b)" by (simp add: 6(4,5) 5(4,5) 4(4,5) 3(3) append_writes_def content_write)
  then obtain s6 where 7: "brelse db s5 = Ok s6" "bstep s5 s6" "bres s6 p (P - {b}) ([db \<mapsto> b](db := None))" "view s6 = view s5" "vdev s6 = vdev s5"
    using bres_brelse [OF 6(3) [unfolded H], of db b] by auto
  have "bstep s s6"
    by (rule bstep_trans [OF 1(2) bstep_trans [OF 2(2) bstep_trans [OF 3(1) bstep_trans [OF 4(2) bstep_trans [OF 5(2) bstep_trans [OF 6(2) 7(2)]]]]]])
  then show ?thesis
    using 1(1) 2(1) 4(1,4,5) 5(1,4,5) 6(1,4,5) 7 3(3) bstep_klog [OF 1(2)] unfolding s2'_def by auto
qed

definition pins_left :: "bool \<Rightarrow> log \<Rightarrow> nat \<Rightarrow> uint32 set" where
  "pins_left r l t = (if r then {} else set (drop t (logged l)))"

lemma pins_left_step:
  assumes "log_wf l" and "t < nat (lh_n l)"
  shows "pins_left r l t - {logged l ! t} = pins_left r l (Suc t)" "\<not> r \<Longrightarrow> logged l ! t \<in> pins_left r l t"
    "card (pins_left r l t) \<le> nat (lh_n l)" "lblk l t \<notin> pins_left r l t"
proof -
  have t: "t < length (logged l)" using assms(2) log_wfD(3) [OF assms(1)] by simp
  then have split: "drop t (logged l) = logged l ! t # drop (Suc t) (logged l)" by (simp add: Cons_nth_drop_Suc)
  have "distinct (drop t (logged l))" using log_wfD(4) [OF assms(1)] by simp
  then show "pins_left r l t - {logged l ! t} = pins_left r l (Suc t)" by (auto simp: pins_left_def split)
  show "\<not> r \<Longrightarrow> logged l ! t \<in> pins_left r l t" by (simp add: pins_left_def split)
  show "card (pins_left r l t) \<le> nat (lh_n l)"
    using card_length [of "drop t (logged l)"] log_wfD(3) [OF assms(1)] by (auto simp: pins_left_def)
  have "t < log_cap l" using assms(2) log_wfD(2) [OF assms(1)] by simp
  then have "lblk l t \<in> log_area l" by (rule lblk_facts(2) [OF assms(1)])
  then show "lblk l t \<notin> pins_left r l t"
    using log_wfD(6) [OF assms(1)] set_drop_subset [of t "logged l"] by (auto simp: pins_left_def)
qed

lemma install_loop_spec:
  assumes D: "virtio_device D" and wf: "log_wf l" and P: "nat (lh_n l) < NBUF"
  defines "n \<equiv> nat (lh_n l)"
  shows "tail \<le> n \<Longrightarrow> klog s = l \<Longrightarrow> bres s p (pins_left r l tail) Map.empty \<Longrightarrow> sized s \<Longrightarrow>
    \<exists>s'. install_loop D r tail n s = Ok s' \<and> bstep s s' \<and> bres s' p {} Map.empty \<and> sized s' \<and>
      (\<forall>m. m \<notin> set (drop tail (logged l)) \<longrightarrow> view s' m = view s m) \<and>
      (\<forall>t. tail \<le> t \<and> t < n \<longrightarrow> view s' (logged l ! t) = view s (lblk l t)) \<and>
      vdev s' = append_writes (map (\<lambda>t. (ucast (logged l ! t), view s (lblk l t))) [tail..<n]) (vdev s)"
proof (induction "n - tail" arbitrary: tail s)
  case 0
  then have "tail = n" by simp
  moreover have "pins_left r l n = {}" using log_wfD(3) [OF wf] by (simp add: pins_left_def n_def)
  ultimately show ?case using 0 by (auto simp: install_loop.simps)
next
  case (Suc k)
  then have t: "tail < n" by simp
  have tl: "tail < log_cap l" using t log_wfD(2) [OF wf] by (simp add: n_def)
  define a b where "a = lblk l tail" and "b = logged l ! tail"
  have split: "drop tail (logged l) = b # drop (Suc tail) (logged l)" "b \<in> set (logged l)"
    using t log_wfD(3) [OF wf] by (simp_all add: Cons_nth_drop_Suc b_def n_def)
  have dist: "b \<notin> set (drop (Suc tail) (logged l))" using distinct_drop [OF log_wfD(4) [OF wf], of tail] split(1) by simp
  have blk: "lh_block l ! tail = b" using log_wfD(8) [OF wf] t by (simp add: b_def n_def)
  have b: "unat b < 2 ^ 31" "b \<notin> log_area l" using log_wfD(5,6) [OF wf] split(2) by auto
  have a: "unat a < 2 ^ 31" "a \<in> log_area l" "a \<noteq> b" using lblk_facts(1,2) [OF wf tl] b(2) by (auto simp: a_def)
  note Q = pins_left_step [OF wf t [unfolded n_def], of r]
  have rec: "if r then b \<notin> pins_left r l tail \<and> card (pins_left r l tail) + 1 < NBUF else b \<in> pins_left r l tail \<and> card (pins_left r l tail) < NBUF"
    using Q(2,3) P by (auto simp: pins_left_def b_def layout_defs)
  obtain lbuf s1 dbuf s2 s3 s4 s5 s6 where S: "bread D ROOTDEV a s = Ok (lbuf, s1)" "bread D ROOTDEV b s1 = Ok (dbuf, s2)" "klog s1 = klog s"
      "bwrite D dbuf (upd_buf dbuf (bdata_update (\<lambda>_. bdata (bufs s2 lbuf))) s2) = Ok s3"
      "(if \<not> r then bunpin dbuf s3 else Ok s3) = Ok s4" "brelse lbuf s4 = Ok s5" "brelse dbuf s5 = Ok s6"
      "bstep s s6" "bres s6 p (pins_left r l tail - {b}) Map.empty" "view s6 = (view s)(b := view s a)" "vdev s6 = append_writes [(ucast b, view s a)] (vdev s)"
    using install_iter [OF D Suc.prems(3) Q(4) [folded a_def] a(1,3) b(1) rec] by (elim exE conjE) (rule that)
  have k6: "klog s6 = l" using bstep_klog [OF S(8)] Suc.prems(2) by simp
  have hyp: "k = n - Suc tail" using Suc.hyps(2) by simp
  have R6: "bres s6 p (pins_left r l (Suc tail)) Map.empty" using S(9) Q(1) by (simp add: b_def)
  have "sized s6" using sized_upd [OF Suc.prems(4) S(10)] Suc.prems(4) by (simp add: sized_def)
  then obtain s' where S': "install_loop D r (Suc tail) n s6 = Ok s'" "bstep s6 s'" "bres s' p {} Map.empty" "sized s'"
      "\<forall>m. m \<notin> set (drop (Suc tail) (logged l)) \<longrightarrow> view s' m = view s6 m"
      "\<forall>t. Suc tail \<le> t \<and> t < n \<longrightarrow> view s' (logged l ! t) = view s6 (lblk l t)"
      "vdev s' = append_writes (map (\<lambda>t. (ucast (logged l ! t), view s6 (lblk l t))) [Suc tail..<n]) (vdev s6)"
    using Suc.hyps(1) [OF hyp _ k6 R6] t by fastforce
  have same: "view s6 (lblk l t') = view s (lblk l t')" if "t' < n" for t'
  proof -
    have "lblk l t' \<in> log_area l" using that log_wfD(2) [OF wf] by (intro lblk_facts(2) [OF wf]) (simp add: n_def)
    then show ?thesis using S(10) b(2) by auto
  qed
  have ws: "map (\<lambda>t. (ucast (logged l ! t), view s (lblk l t))) [tail..<n] =
      (ucast b, view s a) # map (\<lambda>t. (ucast (logged l ! t), view s6 (lblk l t))) [Suc tail..<n]"
    using t same by (simp add: upt_conv_Cons a_def b_def)
  have "install_loop D r tail n s = install_loop D r (Suc tail) n s6"
    using S(1-7) t Suc.prems(2) log_wfD(1) [OF wf] blk
    by (subst install_loop.simps) (simp add: a_def lblk_def Let_def)
  moreover have "view s' m = view s m" if "m \<notin> set (drop tail (logged l))" for m using S'(5) S(10) that split(1) by auto
  moreover have "view s' (logged l ! t') = view s (lblk l t')" if "tail \<le> t'" "t' < n" for t'
    using S'(5,6) S(10) dist same [OF that(2)] that by (cases "t' = tail") (auto simp: a_def b_def)
  moreover have "vdev s' = append_writes (map (\<lambda>t. (ucast (logged l ! t), view s (lblk l t))) [tail..<n]) (vdev s)"
    by (simp only: S'(7) S(11) append_writes_simps ws append.simps)
  ultimately show ?case using S'(1,3,4) bstep_trans [OF S(8) S'(2)] by (intro exI [of _ s']) simp
qed

section \<open>Commit and recovery\<close>

definition commit_writes :: "log \<Rightarrow> (uint32 \<Rightarrow> uchar list) \<Rightarrow> (uint64 \<times> uchar list) list" where
  "commit_writes l V =
     map (\<lambda>t. (ucast (lblk l t), V (logged l ! t))) [0..<nat (lh_n l)] @
     [(ucast (log_start l), head_bytes l (V (log_start l)))] @
     map (\<lambda>t. (ucast (logged l ! t), V (logged l ! t))) [0..<nat (lh_n l)] @
     [(ucast (log_start l), head_bytes (l\<lparr>lh_n := 0\<rparr>) (head_bytes l (V (log_start l))))]"

lemma log_wf_clear: "log_wf l \<Longrightarrow> log_wf (l\<lparr>lh_n := 0\<rparr>)"
  by (simp add: log_wf_def logged_def)

lemma upd_log_frame [simp]:
  "view (upd_log f s) = view s" "vdev (upd_log f s) = vdev s" "sized (upd_log f s) = sized s" "klog (upd_log f s) = f (klog s)"
  by (simp_all add: upd_log_def view_def sized_def)

lemma bres_upd_log [simp]: "bres (upd_log f s) p P H \<longleftrightarrow> bres s p P H"
proof
  show "bres s p P H \<Longrightarrow> bres (upd_log f s) p P H" by (erule bres_frame) (simp_all add: upd_log_def)
  show "bres (upd_log f s) p P H \<Longrightarrow> bres s p P H" by (erule bres_frame) (simp_all add: upd_log_def)
qed

lemma commit_spec:
  assumes D: "virtio_device D" and wf: "log_wf l" and k: "klog s = l" and n: "0 < lh_n l" "nat (lh_n l) < NBUF"
    and R: "bres s p (set (logged l)) Map.empty" and sz: "sized s"
  shows "\<exists>s'. commit D s = Ok s' \<and> klog s' = l\<lparr>lh_n := 0\<rparr> \<and> bres s' p {} Map.empty \<and> sized s' \<and>
    (\<forall>m. m \<notin> log_area l \<longrightarrow> view s' m = view s m) \<and> vdev s' = append_writes (commit_writes l (view s)) (vdev s)"
proof -
  define N where "N = nat (lh_n l)"
  have NL: "N \<le> log_cap l" "length (logged l) = N" using log_wfD(2,3) [OF wf] by (simp_all add: N_def)
  have card: "card (set (logged l)) < NBUF" using card_length [of "logged l"] NL(2) n(2) by (simp add: N_def)
  have area: "lblk l ` {0..<N} \<subseteq> log_area l" using lblk_facts(2) [OF wf] NL(1) by auto
  have ne: "log_start l \<noteq> lblk l t" if "t < N" for t
    by (rule not_sym [OF lblk_facts(3) [OF wf]]) (use that NL(1) in simp)
  have sa: "log_start l \<in> log_area l" by (simp add: log_area_def)
  have start: "log_start l \<notin> set (logged l)" "log_start l \<in> log_area l" "log_start l \<notin> lblk l ` {0..<N}"
    by (blast dest: log_wfD(6) [OF wf] intro: sa) (rule sa, metis ne atLeastLessThan_iff imageE)
  have home: "logged l ! t \<in> set (logged l)" "logged l ! t \<notin> log_area l" if "t < N" for t
    using that NL(2) log_wfD(6) [OF wf] by auto
  obtain s1 where 1: "write_log D s = Ok s1" "bstep s s1" "bres s1 p (set (logged l)) Map.empty" "sized s1"
      "\<forall>m. m \<notin> lblk l ` {0..<N} \<longrightarrow> view s1 m = view s m" "\<forall>t. 0 \<le> t \<and> t < N \<longrightarrow> view s1 (lblk l t) = view s (logged l ! t)"
      "vdev s1 = append_writes (map (\<lambda>t. (ucast (lblk l t), view s (logged l ! t))) [0..<N]) (vdev s)"
    using write_log_loop_spec [OF D wf n(2) _ k R sz, of 0] by (auto simp: write_log_def k N_def)
  have k1: "klog s1 = l" using bstep_klog [OF 1(2)] k by simp
  define d where "d = head_bytes l (view s (log_start l))"
  have d1: "head_bytes l (view s1 (log_start l)) = d" using 1(5) start(3) by (simp add: d_def)
  obtain s2 where 2: "write_head D s1 = Ok s2" "bstep s1 s2" "bres s2 p (set (logged l)) Map.empty" "sized s2"
      "view s2 = (view s1)(log_start l := d)" "vdev s2 = append_writes [(ucast (log_start l), d)] (vdev s1)"
    using write_head_spec [OF D wf k1 1(3) card start(1) 1(4)] by (auto simp: d1)
  have k2: "klog s2 = l" using bstep_klog [OF 2(2)] k1 by simp
  have pl: "pins_left False l 0 = set (logged l)" by (simp add: pins_left_def)
  have v2: "view s2 (lblk l t) = view s (logged l ! t)" if "t < N" for t
    using 1(6) 2(5) that lblk_facts(3) [OF wf, of t] NL(1) by simp
  obtain s3 where 3: "install_trans D False s2 = Ok s3" "bstep s2 s3" "bres s3 p {} Map.empty" "sized s3"
      "\<forall>m. m \<notin> set (logged l) \<longrightarrow> view s3 m = view s2 m" "\<forall>t. t < N \<longrightarrow> view s3 (logged l ! t) = view s2 (lblk l t)"
      "vdev s3 = append_writes (map (\<lambda>t. (ucast (logged l ! t), view s2 (lblk l t))) [0..<N]) (vdev s2)"
    using install_loop_spec [OF D wf n(2) _ k2, of 0 p False] 2(3,4) by (auto simp: install_trans_def k2 pl N_def)
  have k3: "klog s3 = l" using bstep_klog [OF 3(2)] k2 by simp
  define s3' where "s3' = upd_log (lh_n_update (\<lambda>_. 0)) s3"
  define d0 where "d0 = head_bytes (l\<lparr>lh_n := 0\<rparr>) d"
  have hd: "view s3' (log_start l) = d" using 3(5) 2(5) start(1) by (simp add: s3'_def)
  obtain s4 where 4: "write_head D s3' = Ok s4" "bstep s3' s4" "bres s4 p {} Map.empty" "sized s4"
      "view s4 = (view s3')(log_start l := d0)" "vdev s4 = append_writes [(ucast (log_start l), d0)] (vdev s3)"
    using write_head_spec [OF D log_wf_clear [OF wf], of s3' p "{}"] 3(3,4) k3 hd
    by (auto simp: s3'_def d0_def layout_defs)
  have "commit D s = Ok s4" using 1(1) 2(1) 3(1) 4(1) n(1) k by (simp add: commit_def s3'_def)
  moreover have "klog s4 = l\<lparr>lh_n := 0\<rparr>" using bstep_klog [OF 4(2)] k3 by (simp add: s3'_def)
  moreover have "view s4 m = view s m" if "m \<notin> log_area l" for m
  proof -
    have m: "m \<noteq> log_start l" "m \<notin> lblk l ` {0..<N}" using that start(2) area by auto
    show ?thesis
    proof (cases "m \<in> set (logged l)")
      case True
      then obtain t where "t < N" "m = logged l ! t" using NL(2) by (auto simp: in_set_conv_nth)
      then show ?thesis using 4(5) 3(6) v2 m(1) by (simp add: s3'_def)
    next
      case False
      then show ?thesis using 4(5) 3(5) 2(5) 1(5) m by (simp add: s3'_def)
    qed
  qed
  moreover have "vdev s4 = append_writes (commit_writes l (view s)) (vdev s)"
  proof -
    have "map (\<lambda>t. (ucast (logged l ! t) :: uint64, view s2 (lblk l t))) [0..<N] = map (\<lambda>t. (ucast (logged l ! t), view s (logged l ! t))) [0..<N]"
      using v2 by simp
    then show ?thesis by (simp add: 4(6) 3(7) 2(6) 1(7) commit_writes_def N_def d_def d0_def)
  qed
  ultimately show ?thesis using 4(3,4) by blast
qed

end
