(* ===== verification/Log_Crash.thy ===== *)
theory Log_Crash
  imports Log_Spec
begin

text \<open>
  Crash safety of the log. A crash leaves the disk with a prefix of the writes that the kernel
  issued. \<open>replay\<close> is the content of the disk after recovery, as a function of the content
  found; a transaction is atomic when \<open>replay\<close> of every prefix is the old or the new content of
  the blocks outside the log.
\<close>

definition apply_writes :: "(uint64 \<Rightarrow> uchar list) \<Rightarrow> (uint64 \<times> uchar list) list \<Rightarrow> uint64 \<Rightarrow> uchar list" where
  "apply_writes m ws = foldl (\<lambda>m (n, v). m(n := v)) m ws"

definition replay :: "uint32 \<Rightarrow> (uint64 \<Rightarrow> uchar list) \<Rightarrow> uint64 \<Rightarrow> uchar list" where
  "replay start m =
     (let h = m (ucast start); n = nat (sint (get32 h 0)) in
      apply_writes m (map (\<lambda>t. (ucast (get32 h (4 + 4 * t)), m (ucast (start + word_of_nat t + 1)))) [0..<n]))"

lemma content_append: "content (append_writes ws v) = apply_writes (content v) ws"
  by (simp add: content_def append_writes_def apply_writes_def)

lemma apply_writes_simps [simp]:
  "apply_writes m [] = m" "apply_writes m (ws @ ws') = apply_writes (apply_writes m ws) ws'"
  "apply_writes m ((n, v) # ws) = apply_writes (m(n := v)) ws"
  by (simp_all add: apply_writes_def)

lemma apply_writes_other: "x \<notin> fst ` set ws \<Longrightarrow> apply_writes m ws x = m x"
  by (induction ws arbitrary: m) auto

lemma apply_writes_hit:
  assumes "(x, v) \<in> set ws" and "\<And>v'. (x, v') \<in> set ws \<Longrightarrow> v' = v"
  shows "apply_writes m ws x = v"
  using assms
proof (induction ws arbitrary: m rule: rev_induct)
  case (snoc w ws)
  obtain y u where w: "w = (y, u)" by fastforce
  show ?case
  proof (cases "y = x")
    case True
    then have "u = v" using snoc.prems(2) [of u] by (simp add: w)
    then show ?thesis using True by (simp add: w)
  next
    case False
    then have "(x, v) \<in> set ws" using snoc.prems(1) by (simp add: w)
    then have "apply_writes m ws x = v" by (rule snoc.IH) (rule snoc.prems(2), simp)
    then show ?thesis using False by (simp add: w)
  qed
qed simp

lemma sint_small: "0 \<le> n \<Longrightarrow> n \<le> int LOGSIZE \<Longrightarrow> sint (word_of_int n :: uint32) = n"
  by (simp add: sint_sbintrunc' signed_take_bit_int_eq_self layout_defs)

lemma replay_empty: "get32 (m (ucast start)) 0 = 0 \<Longrightarrow> replay start m = m"
  by (simp add: replay_def)

text \<open>A disk whose header is that of \<open>l\<close> and whose log blocks hold \<open>V\<close>.\<close>

lemma replay_logged:
  assumes wf: "log_wf l" and n: "get32 (m (ucast (log_start l))) 0 = word_of_int (lh_n l)"
    and blocks: "\<And>t. t < nat (lh_n l) \<Longrightarrow> get32 (m (ucast (log_start l))) (4 + 4 * t) = logged l ! t"
    and logv: "\<And>t. t < nat (lh_n l) \<Longrightarrow> m (ucast (lblk l t)) = V (logged l ! t)"
  shows "replay (log_start l) m (ucast b) = (if b \<in> set (logged l) then V b else m (ucast b))"
proof -
  define N where "N = nat (lh_n l)"
  have sn: "nat (sint (get32 (m (ucast (log_start l))) 0)) = N"
    unfolding n N_def using sint_small [OF log_wfD(10,11) [OF wf]] by simp
  define ws :: "(uint64 \<times> uchar list) list" where "ws = map (\<lambda>t. (ucast (logged l ! t), V (logged l ! t))) [0..<N]"
  have ws: "replay (log_start l) m = apply_writes m ws"
    unfolding replay_def Let_def sn ws_def
    by (rule arg_cong [where f = "apply_writes m"], rule map_cong) (use blocks logv in \<open>auto simp: N_def lblk_def\<close>)
  have len: "length (logged l) = N" using log_wfD(3) [OF wf] by (simp add: N_def)
  show ?thesis
  proof (cases "b \<in> set (logged l)")
    case True
    then obtain t where t: "t < N" "logged l ! t = b" using len by (auto simp: in_set_conv_nth)
    have "apply_writes m ws (ucast b) = V b"
    proof (rule apply_writes_hit)
      show "(ucast b, V b) \<in> set ws" unfolding ws_def using t by (auto intro!: image_eqI [of _ _ t])
    qed (auto simp: ws_def ucast_block_inj)
    then show ?thesis using True ws by simp
  next
    case False
    moreover have "fst ` set ws \<subseteq> ucast ` set (logged l)" using len by (auto simp: ws_def)
    ultimately have "ucast b \<notin> fst ` set ws" by (auto simp: ucast_block_inj)
    then show ?thesis using False ws apply_writes_other by simp
  qed
qed

section \<open>Commit\<close>

text \<open>The four phases of the writes of a commit, and what recovery makes of a crash in each.\<close>

definition log_part :: "log \<Rightarrow> (uint32 \<Rightarrow> uchar list) \<Rightarrow> (uint64 \<times> uchar list) list" where
  "log_part l V = map (\<lambda>t. (ucast (lblk l t), V (logged l ! t))) [0..<nat (lh_n l)]"

definition home_part :: "log \<Rightarrow> (uint32 \<Rightarrow> uchar list) \<Rightarrow> (uint64 \<times> uchar list) list" where
  "home_part l V = map (\<lambda>t. (ucast (logged l ! t), V (logged l ! t))) [0..<nat (lh_n l)]"

lemma commit_writes_parts:
  "commit_writes l V = log_part l V @ [(ucast (log_start l), head_bytes l (V (log_start l)))] @ home_part l V @
     [(ucast (log_start l), head_bytes (l\<lparr>lh_n := 0\<rparr>) (head_bytes l (V (log_start l))))]"
  by (simp add: commit_writes_def log_part_def home_part_def)

lemma log_part_keys:
  assumes "log_wf l"
  shows "fst ` set (log_part l V) \<subseteq> ucast ` (lblk l ` {..<log_cap l})"
  using log_wfD(2) [OF assms] by (auto simp: log_part_def)

lemma home_part_keys:
  assumes "log_wf l"
  shows "fst ` set (home_part l V) \<subseteq> ucast ` set (logged l)"
  using log_wfD(3) [OF assms] by (auto simp: home_part_def)

lemma key_cases:
  assumes "log_wf l"
  shows "b \<notin> log_area l \<Longrightarrow> ucast b \<notin> fst ` set (log_part l V)" "b \<notin> log_area l \<Longrightarrow> (ucast b :: uint64) \<noteq> ucast (log_start l)"
    "ucast (log_start l) \<notin> fst ` set (log_part l V)" "t < log_cap l \<Longrightarrow> ucast (lblk l t) \<notin> fst ` set (home_part l V)"
    "t < log_cap l \<Longrightarrow> (ucast (lblk l t) :: uint64) \<noteq> ucast (log_start l)" "ucast (log_start l) \<notin> fst ` set (home_part l V)"
    "b \<notin> set (logged l) \<Longrightarrow> ucast b \<notin> fst ` set (home_part l V)"
proof -
  have area: "lblk l ` {..<log_cap l} \<subseteq> log_area l" "log_start l \<in> log_area l" by (auto simp: log_area_def)
  have st: "log_start l \<notin> lblk l ` {..<log_cap l}" using lblk_facts(3) [OF assms] by (metis imageE lessThan_iff)
  have dis: "x \<notin> set (logged l)" if "x \<in> log_area l" for x using log_wfD(6) [OF assms, of x] that by blast
  have key: "ucast x \<notin> fst ` set (log_part l V)" if "x \<notin> lblk l ` {..<log_cap l}" for x
    using log_part_keys [OF assms, of V] that by (auto simp: ucast_block_inj)
  have key': "ucast x \<notin> fst ` set (home_part l V)" if "x \<notin> set (logged l)" for x
    using home_part_keys [OF assms, of V] that by (auto simp: ucast_block_inj)
  show "b \<notin> log_area l \<Longrightarrow> ucast b \<notin> fst ` set (log_part l V)" using key area(1) by blast
  show "b \<notin> log_area l \<Longrightarrow> (ucast b :: uint64) \<noteq> ucast (log_start l)" using area(2) by (auto simp: ucast_block_inj)
  show "ucast (log_start l) \<notin> fst ` set (log_part l V)" by (rule key [OF st])
  show "t < log_cap l \<Longrightarrow> ucast (lblk l t) \<notin> fst ` set (home_part l V)" using key' dis area(1) by blast
  show "t < log_cap l \<Longrightarrow> (ucast (lblk l t) :: uint64) \<noteq> ucast (log_start l)" using lblk_facts(3) [OF assms] by (simp add: ucast_block_inj)
  show "ucast (log_start l) \<notin> fst ` set (home_part l V)" using key' dis area(2) by blast
  show "b \<notin> set (logged l) \<Longrightarrow> ucast b \<notin> fst ` set (home_part l V)" by (rule key')
qed

lemma apply_writes_take: "x \<notin> fst ` set ws \<Longrightarrow> apply_writes m (take k ws) x = m x"
  by (rule apply_writes_other) (meson image_mono in_mono set_take_subset)

lemma log_part_applied:
  assumes "log_wf l" and "t < nat (lh_n l)"
  shows "apply_writes m (log_part l V) (ucast (lblk l t)) = V (logged l ! t)"
proof (rule apply_writes_hit)
  show "(ucast (lblk l t), V (logged l ! t)) \<in> set (log_part l V)" using assms(2) by (auto simp: log_part_def)
  fix v assume "(ucast (lblk l t), v) \<in> set (log_part l V)"
  then obtain t' where t': "t' < nat (lh_n l)" "lblk l t = lblk l t'" "v = V (logged l ! t')"
    by (auto simp: log_part_def ucast_block_inj)
  then have "t = t'" using lblk_facts(4) [OF assms(1), of t t'] assms(2) log_wfD(2) [OF assms(1)] by simp
  then show "v = V (logged l ! t)" using t'(3) by simp
qed

lemma home_part_applied:
  assumes "log_wf l" and "b \<in> set (logged l)"
  shows "apply_writes m (home_part l V) (ucast b) = V b"
proof (rule apply_writes_hit)
  obtain t where "t < nat (lh_n l)" "logged l ! t = b" using assms(2) log_wfD(3) [OF assms(1)] by (auto simp: in_set_conv_nth)
  then show "(ucast b, V b) \<in> set (home_part l V)" by (auto simp: home_part_def intro!: image_eqI [of _ _ t])
qed (auto simp: home_part_def ucast_block_inj)

text \<open>Before the header is written, recovery finds an empty log.\<close>

lemma crash_before:
  assumes wf: "log_wf l" and h: "get32 (m (ucast (log_start l))) 0 = 0" and b: "b \<notin> log_area l"
  shows "replay (log_start l) (apply_writes m (take k (log_part l V))) (ucast b) = m (ucast b)"
proof -
  have "replay (log_start l) (apply_writes m (take k (log_part l V))) = apply_writes m (take k (log_part l V))"
    by (rule replay_empty) (simp add: apply_writes_take [OF key_cases(3) [OF wf]] h)
  then show ?thesis using apply_writes_take [OF key_cases(1) [OF wf b]] by simp
qed

text \<open>From the header on, recovery completes the transaction.\<close>

lemma crash_after:
  assumes wf: "log_wf l" and d: "length (V (log_start l)) = BSIZE" and b: "b \<notin> log_area l"
    and clean: "\<And>b. b \<notin> log_area l \<Longrightarrow> b \<notin> set (logged l) \<Longrightarrow> m (ucast b) = V b"
  defines "m1 \<equiv> (apply_writes m (log_part l V))(ucast (log_start l) := head_bytes l (V (log_start l)))"
  shows "replay (log_start l) (apply_writes m1 (take k (home_part l V))) (ucast b) = V b"
proof -
  define m2 where "m2 = apply_writes m1 (take k (home_part l V))"
  have head: "m2 (ucast (log_start l)) = head_bytes l (V (log_start l))"
    unfolding m2_def by (subst apply_writes_take [OF key_cases(6) [OF wf]]) (simp add: m1_def)
  note H = head_bytes_facts [OF d wf]
  have logv: "m2 (ucast (lblk l t)) = V (logged l ! t)" if t: "t < nat (lh_n l)" for t
  proof -
    have tl: "t < log_cap l" using t log_wfD(2) [OF wf] by simp
    have "m2 (ucast (lblk l t)) = m1 (ucast (lblk l t))" unfolding m2_def by (rule apply_writes_take [OF key_cases(4) [OF wf tl]])
    also have "\<dots> = V (logged l ! t)" using log_part_applied [OF wf t] key_cases(5) [OF wf tl] by (simp add: m1_def)
    finally show ?thesis .
  qed
  have "replay (log_start l) m2 (ucast b) = (if b \<in> set (logged l) then V b else m2 (ucast b))"
    by (rule replay_logged [OF wf]) (use head H(2,3) logv in simp_all)
  moreover have "m2 (ucast b) = V b" if "b \<notin> set (logged l)"
  proof -
    have "m2 (ucast b) = m1 (ucast b)" unfolding m2_def by (rule apply_writes_take [OF key_cases(7) [OF wf that]])
    also have "\<dots> = m (ucast b)" using apply_writes_other [OF key_cases(1) [OF wf b]] key_cases(2) [OF wf b] by (simp add: m1_def)
    finally show ?thesis using clean [OF b that] by simp
  qed
  ultimately show ?thesis by (simp add: m2_def)
qed

lemma crash_done:
  assumes wf: "log_wf l" and d: "length (V (log_start l)) = BSIZE" and b: "b \<notin> log_area l"
    and clean: "\<And>b. b \<notin> log_area l \<Longrightarrow> b \<notin> set (logged l) \<Longrightarrow> m (ucast b) = V b"
  shows "apply_writes m (commit_writes l V) (ucast b) = V b" "get32 (apply_writes m (commit_writes l V) (ucast (log_start l))) 0 = 0"
proof -
  note H = head_bytes_facts [OF d wf]
  show "get32 (apply_writes m (commit_writes l V) (ucast (log_start l))) 0 = 0"
    using head_bytes_facts(2) [OF H(1) log_wf_clear [OF wf]] by (simp add: commit_writes_parts)
  show "apply_writes m (commit_writes l V) (ucast b) = V b"
  proof (cases "b \<in> set (logged l)")
    case True
    then show ?thesis using home_part_applied [OF wf True] key_cases(2) [OF wf b] by (simp add: commit_writes_parts)
  next
    case False
    then show ?thesis
      using clean [OF b False] key_cases(1,2) [OF wf b] key_cases(7) [OF wf False]
      by (simp add: commit_writes_parts apply_writes_other)
  qed
qed

lemma take_parts:
  "k \<le> length A \<Longrightarrow> take k (A @ [h] @ B @ [c]) = take k A"
  "length A < k \<Longrightarrow> k \<le> length A + 1 + length B \<Longrightarrow> take k (A @ [h] @ B @ [c]) = A @ [h] @ take (k - length A - 1) B"
  "length A + 1 + length B < k \<Longrightarrow> take k (A @ [h] @ B @ [c]) = A @ [h] @ B @ [c]"
  by (auto simp: take_Cons diff_Suc split: nat.splits)

lemma commit_prefix:
  assumes wf: "log_wf l" and d: "length (V (log_start l)) = BSIZE" and b: "b \<notin> log_area l" and h: "get32 (m (ucast (log_start l))) 0 = 0"
    and clean: "\<And>b. b \<notin> log_area l \<Longrightarrow> b \<notin> set (logged l) \<Longrightarrow> m (ucast b) = V b"
  shows "replay (log_start l) (apply_writes m (take k (commit_writes l V))) (ucast b) = (if k \<le> nat (lh_n l) then m (ucast b) else V b)"
proof -
  have len: "length (log_part l V) = nat (lh_n l)" by (simp add: log_part_def)
  consider "k \<le> nat (lh_n l)" | "nat (lh_n l) < k" "k \<le> nat (lh_n l) + 1 + length (home_part l V)" | "nat (lh_n l) + 1 + length (home_part l V) < k"
    by linarith
  then show ?thesis
  proof cases
    case 1
    then show ?thesis using crash_before [where m = m and V = V, OF wf h b, of k] by (simp only: commit_writes_parts take_parts(1) len) simp
  next
    case 2
    then show ?thesis
      using crash_after [where m = m and V = V, OF wf d b clean, of "k - nat (lh_n l) - 1"]
      by (simp only: commit_writes_parts take_parts(2) len) simp
  next
    case 3
    then have "take k (commit_writes l V) = commit_writes l V" by (simp only: commit_writes_parts take_parts(3) len)
    then show ?thesis using crash_done [where m = m and V = V, OF wf d b clean] replay_empty 3 by simp
  qed
qed

section \<open>Recovery\<close>

text \<open>The in-memory log that \<^verbatim>\<open>read_head\<close> makes from the bytes of the header block.\<close>

definition disk_log :: "log \<Rightarrow> uchar list \<Rightarrow> log" where
  "disk_log l h = (let n = sint (get32 h 0) in
     l\<lparr>lh_n := n, lh_block := map (\<lambda>i. if int i < n then get32 h (4 + 4 * i) else lh_block l ! i) [0..<LOGSIZE]\<rparr>)"

lemma disk_log_simps [simp]: "log_start (disk_log l h) = log_start l" "log_dev (disk_log l h) = log_dev l" "lh_n (disk_log l h) = sint (get32 h 0)"
  "log_size (disk_log l h) = log_size l"
  by (simp_all add: disk_log_def Let_def)

lemma disk_log_logged:
  assumes "log_wf (disk_log l h)" and "t < nat (sint (get32 h 0))"
  shows "logged (disk_log l h) ! t = get32 h (4 + 4 * t)"
proof -
  have "t < LOGSIZE" using assms log_wfD(12) [OF assms(1)] by simp
  moreover have "int t < sint (get32 h 0)" using assms(2) by linarith
  ultimately show ?thesis by (simp add: logged_def disk_log_def Let_def)
qed

lemma read_head_spec:
  assumes D: "virtio_device D" and R: "bres s p {} Map.empty" and wf: "log_wf (disk_log (klog s) (view s (log_start (klog s))))"
  shows "\<exists>s'. read_head D s = Ok s' \<and> klog s' = disk_log (klog s) (view s (log_start (klog s))) \<and> bres s' p {} Map.empty \<and>
    view s' = view s \<and> vdev s' = vdev s"
proof -
  define l h where "l = klog s" and "h = view s (log_start l)"
  note W = log_wfD [OF wf [folded l_def h_def]]
  obtain b s1 where 1: "bread D ROOTDEV (log_start l) s = Ok (b, s1)" "bstep s s1" "bres s1 p {} [b \<mapsto> log_start l]" "view s1 = view s" "vdev s1 = vdev s"
    using bres_bread [OF D R, of "log_start l"] W(7) by (auto simp: layout_defs)
  have k1: "klog s1 = l" using bstep_klog [OF 1(2)] by (simp add: l_def)
  have data: "bdata (bufs s1 b) = h" using bres_data [OF 1(3), of b] 1(4) by (simp add: h_def)
  have le: "sint (get32 h 0) \<le> int LOGSIZE" using W(11) by (simp add: h_def)
  define s2 where "s2 = upd_log (\<lambda>_. disk_log l h) s1"
  have R2: "bres s2 p {} [b \<mapsto> log_start l]" using 1(3) by (simp add: s2_def)
  have clean: "view s2 (log_start l) = content (vdev s2) (ucast (log_start l))"
    using bres_clean [OF R, of "log_start l"] 1(4,5) by (simp add: s2_def)
  obtain s3 where 3: "brelse b s2 = Ok s3" "bstep s2 s3" "bres s3 p {} ([b \<mapsto> log_start l](b := None))" "view s3 = view s2" "vdev s3 = vdev s2"
    using bres_brelse [OF R2, of b "log_start l"] clean by auto
  have "read_head D s = brelse b s2"
    using 1(1) W(1) le k1 data
    by (simp add: read_head_def l_def [symmetric] Let_def s2_def disk_log_def upd_log_def cong: if_cong)
  moreover have "klog s3 = disk_log l h" using bstep_klog [OF 3(2)] by (simp add: s2_def)
  ultimately show ?thesis using 3 1(4,5) by (auto simp: s2_def l_def h_def)
qed

text \<open>What recovery leaves in the blocks outside the log.\<close>

definition home_view :: "log \<Rightarrow> (uint64 \<Rightarrow> uchar list) \<Rightarrow> uint32 \<Rightarrow> uchar list" where
  "home_view l m b = (case find (\<lambda>t. logged l ! t = b) [0..<nat (lh_n l)] of
     Some t \<Rightarrow> m (ucast (lblk l t)) | None \<Rightarrow> m (ucast b))"

lemma home_view_logged:
  assumes "log_wf l" and "t < nat (lh_n l)"
  shows "home_view l m (logged l ! t) = m (ucast (lblk l t))"
proof -
  have "find (\<lambda>t'. logged l ! t' = logged l ! t) [0..<nat (lh_n l)] = Some t"
    using assms(2) log_wfD(3,4) [OF assms(1)] unfolding find_Some_iff
    by (intro exI [of _ t]) (auto simp: nth_eq_iff_index_eq)
  then show ?thesis by (simp add: home_view_def)
qed

lemma home_view_other:
  assumes "log_wf l" and "b \<notin> set (logged l)"
  shows "home_view l m b = m (ucast b)"
proof -
  have "find (\<lambda>t'. logged l ! t' = b) [0..<nat (lh_n l)] = None"
    using assms(2) log_wfD(3) [OF assms(1)] by (auto simp: find_None_iff)
  then show ?thesis by (simp add: home_view_def)
qed

lemma recover_prefix:
  fixes m :: "uint64 \<Rightarrow> uchar list"
  assumes wf: "log_wf l" and n: "get32 (m (ucast (log_start l))) 0 = word_of_int (lh_n l)"
    and blocks: "\<And>t. t < nat (lh_n l) \<Longrightarrow> get32 (m (ucast (log_start l))) (4 + 4 * t) = logged l ! t"
  shows "replay (log_start l) (apply_writes m (take k (home_part l (home_view l m)))) (ucast b) = home_view l m b"
proof -
  define m2 where "m2 = apply_writes m (take k (home_part l (home_view l m)))"
  have head: "m2 (ucast (log_start l)) = m (ucast (log_start l))"
    unfolding m2_def by (rule apply_writes_take [OF key_cases(6) [OF wf]])
  have logv: "m2 (ucast (lblk l t)) = home_view l m (logged l ! t)" if t: "t < nat (lh_n l)" for t
  proof -
    have "t < log_cap l" using t log_wfD(2) [OF wf] by simp
    then show ?thesis unfolding m2_def using apply_writes_take [OF key_cases(4) [OF wf]] home_view_logged [OF wf t] by simp
  qed
  have "replay (log_start l) m2 (ucast b) = (if b \<in> set (logged l) then home_view l m b else m2 (ucast b))"
    by (rule replay_logged [OF wf]) (use head n blocks logv in simp_all)
  moreover have "m2 (ucast b) = home_view l m b" if "b \<notin> set (logged l)"
    unfolding m2_def using apply_writes_take [OF key_cases(7) [OF wf that]] home_view_other [OF wf that] by simp
  ultimately show ?thesis by (simp add: m2_def)
qed

definition recovery_writes :: "log \<Rightarrow> (uint64 \<Rightarrow> uchar list) \<Rightarrow> (uint64 \<times> uchar list) list" where
  "recovery_writes l m = home_part l (home_view l m) @ [(ucast (log_start l), head_bytes (l\<lparr>lh_n := 0\<rparr>) (m (ucast (log_start l))))]"

lemma recover_spec:
  assumes D: "virtio_device D" and R: "bres s p {} Map.empty" and sz: "sized s"
  defines "l \<equiv> disk_log (klog s) (content (vdev s) (ucast (log_start (klog s))))"
  assumes wf: "log_wf l" and n: "nat (lh_n l) < NBUF"
  shows "\<exists>s'. recover_from_log D s = Ok s' \<and> klog s' = l\<lparr>lh_n := 0\<rparr> \<and> bres s' p {} Map.empty \<and> sized s' \<and>
    vdev s' = append_writes (recovery_writes l (content (vdev s))) (vdev s)"
proof -
  define m where "m = content (vdev s)"
  have vm: "view s b = m (ucast b)" for b unfolding m_def by (rule bres_clean [OF R]) simp_all
  have l: "l = disk_log (klog s) (view s (log_start (klog s)))" by (simp add: l_def vm m_def)
  obtain s1 where 1: "read_head D s = Ok s1" "klog s1 = l" "bres s1 p {} Map.empty" "view s1 = view s" "vdev s1 = vdev s"
    using read_head_spec [OF D R wf [unfolded l]] l by auto
  have sz1: "sized s1" using sz 1(4) by (simp add: sized_def)
  have pl: "pins_left True l 0 = {}" by (simp add: pins_left_def)
  obtain s2 where 2: "install_trans D True s1 = Ok s2" "bstep s1 s2" "bres s2 p {} Map.empty" "sized s2"
      "\<forall>b. b \<notin> set (logged l) \<longrightarrow> view s2 b = view s1 b"
      "vdev s2 = append_writes (map (\<lambda>t. (ucast (logged l ! t), view s1 (lblk l t))) [0..<nat (lh_n l)]) (vdev s1)"
    using install_loop_spec [OF D wf n _ 1(2), of 0 p True] 1(3) sz1 by (auto simp: install_trans_def 1(2) pl)
  define s2' where "s2' = upd_log (lh_n_update (\<lambda>_. 0)) s2"
  have k2: "klog s2' = l\<lparr>lh_n := 0\<rparr>" using bstep_klog [OF 2(2)] 1(2) by (simp add: s2'_def)
  have st: "log_start l \<notin> set (logged l)" using log_wfD(6) [OF wf] by (auto simp: log_area_def)
  have hd: "view s2' (log_start l) = m (ucast (log_start l))" using 2(5) st 1(4) vm by (simp add: s2'_def)
  obtain s3 where 3: "write_head D s2' = Ok s3" "bstep s2' s3" "bres s3 p {} Map.empty" "sized s3"
      "vdev s3 = append_writes [(ucast (log_start l), head_bytes (l\<lparr>lh_n := 0\<rparr>) (m (ucast (log_start l))))] (vdev s2)"
    using write_head_spec [OF D log_wf_clear [OF wf] k2, of p "{}"] 2(3,4) hd by (auto simp: s2'_def layout_defs)
  have "map (\<lambda>t. (ucast (logged l ! t) :: uint64, view s1 (lblk l t))) [0..<nat (lh_n l)] = home_part l (home_view l m)"
    using home_view_logged [OF wf] by (simp add: home_part_def 1(4) vm)
  then have "vdev s3 = append_writes (recovery_writes l m) (vdev s)"
    by (simp only: 3(5) 2(6) 1(5) append_writes_simps recovery_writes_def)
  moreover have "recover_from_log D s = Ok s3" using 1(1) 2(1) 3(1) by (simp add: recover_from_log_def s2'_def)
  moreover have "klog s3 = l\<lparr>lh_n := 0\<rparr>" using bstep_klog [OF 3(2)] k2 by simp
  ultimately show ?thesis using 3(3,4) by (intro exI [of _ s3]) (simp add: m_def)
qed

lemma recovery_prefix:
  assumes wf: "log_wf l" and n: "get32 (m (ucast (log_start l))) 0 = word_of_int (lh_n l)"
    and blocks: "\<And>t. t < nat (lh_n l) \<Longrightarrow> get32 (m (ucast (log_start l))) (4 + 4 * t) = logged l ! t"
    and d: "length (m (ucast (log_start l))) = BSIZE"
  shows "get32 (apply_writes m (recovery_writes l m) (ucast (log_start l))) 0 = 0"
    "b \<notin> log_area l \<Longrightarrow> apply_writes m (recovery_writes l m) (ucast b) = replay (log_start l) m (ucast b)"
    "b \<notin> log_area l \<Longrightarrow> replay (log_start l) (apply_writes m (take k (recovery_writes l m))) (ucast b) = replay (log_start l) m (ucast b)"
proof -
  note P = recover_prefix [where m = m, OF wf n blocks]
  show H: "get32 (apply_writes m (recovery_writes l m) (ucast (log_start l))) 0 = 0"
    using head_bytes_facts(2) [OF d log_wf_clear [OF wf]] by (simp add: recovery_writes_def)
  have R: "replay (log_start l) m (ucast b) = home_view l m b" for b using P [of 0 b] by simp
  show E: "apply_writes m (recovery_writes l m) (ucast b) = replay (log_start l) m (ucast b)" if "b \<notin> log_area l"
  proof (cases "b \<in> set (logged l)")
    case True
    then show ?thesis using home_part_applied [OF wf True] key_cases(2) [OF wf that] by (simp add: recovery_writes_def R)
  next
    case False
    then show ?thesis
      using home_view_other [OF wf False] key_cases(2) [OF wf that] key_cases(7) [OF wf False]
      by (simp add: recovery_writes_def R apply_writes_other)
  qed
  show "replay (log_start l) (apply_writes m (take k (recovery_writes l m))) (ucast b) = replay (log_start l) m (ucast b)"
    if b: "b \<notin> log_area l"
  proof (cases "k \<le> length (home_part l (home_view l m))")
    case True
    then show ?thesis using P [of k b] R by (simp add: recovery_writes_def)
  next
    case False
    then have "take k (recovery_writes l m) = recovery_writes l m" by (simp add: recovery_writes_def)
    then show ?thesis using replay_empty [where m = "apply_writes m (recovery_writes l m)"] H E [OF b] by simp
  qed
qed

end
