(* ===== verification/Bio_Boot.thy ===== *)
theory Bio_Boot
  imports Bio_Res
begin

text \<open>
  The first state of the buffer cache: \<^verbatim>\<open>binit\<close>, on buffers with the zeros of C's static storage,
  establishes the invariant that the operations keep. The theory also holds a device that meets
  \<open>virtio_device\<close> and a machine on which the properties of the file system are evaluated.
\<close>

section \<open>Initialization\<close>

definition zero_buf :: "buf \<Rightarrow> bool" where
  "zero_buf q \<longleftrightarrow> \<not> bvalid q \<and> \<not> bdisk q \<and> bdev q = 0 \<and> bblockno q = 0 \<and> brefcnt q = 0"

lemma binit_loop_links:
  assumes "links bs []" and "n \<le> NBUF"
  shows "links (binit_loop n bs) (rev [0..<n])"
  using assms(2)
proof (induction n)
  case 0
  then show ?case using assms(1) by simp
next
  case (Suc n)
  then show ?case by (auto simp: Let_def bcache_head_def intro!: links_insert)
qed

lemma bcore_insert: "bcore (buf_insert b bs) = bcore bs"
  by (simp add: buf_insert_def Let_def bcore_link)

lemma binit_loop_core: "bcore (binit_loop n bs) i = (if i < n then (bcore bs i)\<lparr>block := initsleeplock\<rparr> else bcore bs i)"
proof (induction n)
  case (Suc n)
  have "bcore (binit_loop (Suc n) bs) i = bcore ((binit_loop n bs)(n := (binit_loop n bs n)\<lparr>block := initsleeplock\<rparr>)) i"
    by (simp add: Let_def bcore_insert)
  also have "\<dots> = (if i = n then (bcore (binit_loop n bs) n)\<lparr>block := initsleeplock\<rparr> else bcore (binit_loop n bs) i)"
    by (simp add: bcore_def)
  finally show ?case using Suc by (auto simp: less_Suc_eq)
qed simp

lemma binit_bufs:
  assumes "\<And>i. i < NBUF \<Longrightarrow> zero_buf (bufs s i)" and "i < NBUF"
  shows "zero_buf (bufs (binit s) i)" "block (bufs (binit s) i) = initsleeplock"
proof -
  have "bcore (bufs (binit s)) i = (bcore (bufs s) i)\<lparr>block := initsleeplock\<rparr>"
    using assms(2) binit_loop_core [of NBUF _ i] by (simp add: binit_def Let_def bcore_link)
  then show "zero_buf (bufs (binit s) i)" "block (bufs (binit s) i) = initsleeplock"
    using assms(1) [OF assms(2)] by (auto simp: zero_buf_def bcore_def buf.defs dest: arg_cong [where f = bvalid] arg_cong [where f = bdisk]
      arg_cong [where f = bdev] arg_cong [where f = bblockno] arg_cong [where f = brefcnt] arg_cong [where f = block])
qed

lemma binit_bres:
  assumes run: "running s p" and idle: "disk_idle (disk s)" and zero: "\<And>i. i < NBUF \<Longrightarrow> zero_buf (bufs s i)"
  shows "bres (binit s) p {} Map.empty"
proof -
  note Z = binit_bufs [OF zero]
  have "links (bufs (binit s)) (rev [0..<NBUF])"
    by (simp add: binit_def Let_def) (rule binit_loop_links [OF links_empty order_refl])
  moreover have "buf_ok v (bufs (binit s) b)" if "b < NBUF" for b v
    using Z [OF _ that] by (auto simp: zero_buf_def buf_ok_def initsleeplock_def)
  ultimately have "cache_ok (bufs (binit s)) (vdev (binit s)) (rev [0..<NBUF])"
    using Z by (auto simp: cache_ok_def zero_buf_def ROOTDEV_def)
  moreover have "running (binit s) p" "disk (binit s) = disk s" "bcache_lock (binit s) = initlock"
    using run by (simp_all add: binit_def Let_def running_def)
  ultimately have "bio_run (binit s) p (rev [0..<NBUF])" using idle by (simp add: bio_run_def bio_ok_def)
  then show ?thesis using Z by (auto simp: bres_def pinb_def zero_buf_def)
qed

lemma binit_view:
  assumes "running s p" and "disk_idle (disk s)" and "\<And>i. i < NBUF \<Longrightarrow> zero_buf (bufs s i)"
  shows "view (binit s) n = content (vdev s) (ucast n)"
  using bres_clean [OF binit_bres [OF assms], of n] by (simp add: binit_def Let_def)

section \<open>A device and a machine\<close>

definition ideal_disk :: "'a bio_scheme \<Rightarrow> 'a bio_scheme" where
  "ideal_disk s = serve (unat (avail_ring (disk s) (unat (used_idx_dev (disk s)) mod NUM))) s"

lemma ideal_disk: "virtio_device ideal_disk"
  by (simp add: virtio_device_def pending_def ideal_disk_def)

definition demo_buf :: buf where
  "demo_buf = \<lparr>bvalid = False, bdisk = False, bdev = 0, bblockno = 0, block = initsleeplock, brefcnt = 0, bprev = 0, bnext = 0,
     bdata = replicate BSIZE 0\<rparr>"

definition demo_vdisk :: vdisk where
  "demo_vdisk = \<lparr>desc = (\<lambda>_. no_desc), avail_idx = 0, avail_ring = (\<lambda>_. 0), used_idx_dev = 0, used_ring = (\<lambda>_. 0), dfree = (\<lambda>_. True),
     used_idx = 0, info_b = (\<lambda>_. None), info_status = (\<lambda>_. 0),
     ops = (\<lambda>_. \<lparr>rq_type = 0, rq_reserved = 0, rq_sector = 0\<rparr>), vdisk_lock = initlock\<rparr>"

definition demo_bio :: bio where
  "demo_bio = ptab.extend demo_ptab (bio.fields initlock (\<lambda>_. demo_buf) demo_vdisk \<lparr>image = (\<lambda>_. replicate BSIZE 0), writes = []\<rparr>)"

lemma demo_bio_bres: "bres (binit demo_bio) 0 {} Map.empty"
proof (rule binit_bres)
  show "running demo_bio 0"
    by (simp add: running_def demo_bio_def demo_ptab_def demo_proc_def demo_cpu_def ptab.defs bio.defs cpu_ok_def NPROC_def)
  show "disk_idle (disk demo_bio)" by (simp add: disk_idle_def demo_bio_def demo_vdisk_def ptab.defs bio.defs)
  show "zero_buf (bufs demo_bio i)" for i by (simp add: zero_buf_def demo_bio_def demo_buf_def ptab.defs bio.defs)
qed

end
