(* ===== verification/Log_Trans.thy ===== *)
theory Log_Trans
  imports Log_Crash Bio_Boot
begin

text \<open>
  Transactions: \<^verbatim>\<open>log_write\<close> puts a block into the running transaction, once, and pins it; the
  \<^verbatim>\<open>end_op\<close> that closes the last operation commits, and the commit is atomic.
\<close>

definition log_inv :: "'a lsys_scheme \<Rightarrow> nat \<Rightarrow> (nat \<rightharpoonup> uint32) \<Rightarrow> bool" where
  "log_inv s p H \<longleftrightarrow> log_wf (klog s) \<and> log_lock (klog s) = initlock \<and> bres s p (set (logged (klog s))) H \<and> sized s \<and>
     get32 (content (vdev s) (ucast (log_start (klog s)))) 0 = 0"

lemma log_invD:
  assumes "log_inv s p H"
  shows "log_wf (klog s)" "log_lock (klog s) = initlock" "bres s p (set (logged (klog s))) H" "sized s"
    "get32 (content (vdev s) (ucast (log_start (klog s)))) 0 = 0" "running s p" "bcache_lock s = initlock" "cpu_ok (mycpu s)"
proof -
  show "log_wf (klog s)" "log_lock (klog s) = initlock" "bres s p (set (logged (klog s))) H" "sized s"
    "get32 (content (vdev s) (ucast (log_start (klog s)))) 0 = 0"
    using assms by (simp_all add: log_inv_def)
  then show "running s p" "bcache_lock s = initlock" "cpu_ok (mycpu s)"
    using bresD(1) [of s p "set (logged (klog s))" H] by (auto simp: bio_run_def bio_ok_def running_def)
qed

lemma bres_woke:
  assumes R: "bres s p P H" and "woke s s'" and "bcache_lock s' = bcache_lock s" and "bufs s' = bufs s" and "disk s' = disk s" and "vdev s' = vdev s"
  shows "bres s' p P H"
proof -
  obtain xs where "bio_run s p xs" using bresD(1) [OF R] by blast
  then have "running s' p" "ptable s' p = ptable s p" using running_woke [OF _ assms(2)] by (auto simp: bio_run_def)
  then show ?thesis using R assms(3-6) by (auto simp: bres_def bio_run_def bio_ok_def)
qed

lemma log_acquire_free:
  "log_lock (klog s) = initlock \<Longrightarrow>
   log_acquire s = Ok (upd_log (log_lock_update (\<lambda>_. held_by (cpu_id (mycpu s)))) (s\<lparr>mycpu := push_off (mycpu s)\<rparr>))"
  by (simp add: log_acquire_def acquire_free)

lemma log_release_held:
  "log_lock (klog s) = held_by (cpu_id c) \<Longrightarrow> mycpu s = push_off c \<Longrightarrow> cpu_ok c \<Longrightarrow>
   log_release s = Ok (upd_log (log_lock_update (\<lambda>_. initlock)) (s\<lparr>mycpu := crit c\<rparr>))"
  by (simp add: log_release_def release_push_off)

section \<open>Log write\<close>

lemma log_find_eq:
  "i \<le> n \<Longrightarrow> n \<le> length bs \<Longrightarrow> log_find b i n bs = i + length (takeWhile (\<lambda>x. x \<noteq> b) (drop i (take n bs)))"
proof (induction b i n bs rule: log_find.induct)
  case (1 b i n bs)
  show ?case
  proof (cases "i < n")
    case True
    then have "drop i (take n bs) = bs ! i # drop (Suc i) (take n bs)"
      using 1(3) by (simp add: Cons_nth_drop_Suc [symmetric])
    then show ?thesis using 1 True by (simp add: log_find.simps [of b i])
  next
    case False
    then show ?thesis using 1(2) by (subst log_find.simps) simp
  qed
qed

lemma log_find_logged:
  fixes b :: uint32
  assumes "log_wf l"
  defines "i \<equiv> log_find b 0 (nat (lh_n l)) (lh_block l)"
  shows "b \<in> set (logged l) \<Longrightarrow> i < nat (lh_n l) \<and> lh_block l ! i = b" "b \<notin> set (logged l) \<Longrightarrow> i = nat (lh_n l)"
proof -
  have len: "nat (lh_n l) \<le> length (lh_block l)" using log_wfD(12,9) [OF assms(1)] by simp
  have i: "i = length (takeWhile (\<lambda>x. x \<noteq> b) (logged l))"
    using log_find_eq [OF _ len, of 0 b] by (simp add: i_def logged_def)
  show "i = nat (lh_n l)" if "b \<notin> set (logged l)"
  proof -
    have "takeWhile (\<lambda>x. x \<noteq> b) (logged l) = logged l" using that by (intro takeWhile_eq_all_conv [THEN iffD2]) auto
    then have "length (takeWhile (\<lambda>x. x \<noteq> b) (logged l)) = length (logged l)" by (rule arg_cong)
    then show ?thesis unfolding i using log_wfD(3) [OF assms(1)] by (rule trans)
  qed
  show "i < nat (lh_n l) \<and> lh_block l ! i = b" if "b \<in> set (logged l)"
  proof -
    have "takeWhile (\<lambda>x. x \<noteq> b) (logged l) \<noteq> logged l" using that by (auto simp: takeWhile_eq_all_conv simp del: takeWhile_eq_take)
    then have lt: "i < length (logged l)"
      unfolding i using length_takeWhile_le [of "\<lambda>x. x \<noteq> b" "logged l"] by (metis le_neq_implies_less takeWhile_eq_take take_all_iff order_refl)
    moreover have "logged l ! i = b" using nth_length_takeWhile [of "\<lambda>x. x \<noteq> b" "logged l"] lt i by simp
    ultimately show ?thesis using log_wfD(3,8) [OF assms(1)] by simp
  qed
qed

text \<open>The critical section of \<^verbatim>\<open>log_write\<close>, on a block already in the transaction and on a new one.\<close>

definition room :: "log \<Rightarrow> bool" where
  "room l \<longleftrightarrow> lh_n l < int LOGSIZE \<and> lh_n l < sint (log_size l) - 1"

lemma upd_log_vst [simp]:
  "upd_log f (vst s c t d bs v) = vst (upd_log f s) c t d bs v" "klog (vst s c t d bs v) = klog s" "bcache_lock (upd_log f s) = bcache_lock s"
  "upd_log g (upd_log f s) = upd_log (g \<circ> f) s"
  by (simp_all add: upd_log_def vst_def)

lemma log_write_eq:
  fixes b :: nat
  assumes inv: "log_inv s p H" and rm: "room (klog s)" and out: "1 \<le> outstanding (klog s)"
  defines "n \<equiv> bblockno (bufs s b)"
  shows "n \<in> set (logged (klog s)) \<Longrightarrow> log_write b s = Ok (s\<lparr>mycpu := crit (mycpu s)\<rparr>)"
    "n \<notin> set (logged (klog s)) \<Longrightarrow> log_write b s = rbind (bpin b s) (\<lambda>s. Ok (upd_log (\<lambda>l. l\<lparr>lh_block := (lh_block l)[nat (lh_n l) := n], lh_n := lh_n l + 1\<rparr>) s))"
proof -
  note I = log_invD [OF inv]
  define c l where "c = mycpu s" and "l = klog s"
  define i where "i = log_find n 0 (nat (lh_n l)) (lh_block l)"
  have guards: "\<not> (lh_n l \<ge> int LOGSIZE \<or> lh_n l \<ge> sint (log_size l) - 1)" "\<not> outstanding l < 1" using rm out by (auto simp: room_def l_def)
  have n0: "0 \<le> lh_n l" using log_wfD(10) [OF I(1)] by (simp add: l_def)
  note F = log_find_logged [OF I(1), of n, folded l_def, folded i_def]
  have c: "crit (push_off c) = push_off c" "cpu_ok (push_off c)" "cpu_ok c" using I(6,8) by (auto simp: c_def running_def crit_push_off cpu_ok_push_off cpu_ok_def)
  show "log_write b s = Ok (s\<lparr>mycpu := crit (mycpu s)\<rparr>)" if "n \<in> set (logged (klog s))"
  proof -
    have i: "i < nat (lh_n l)" "(lh_block l)[i := n] = lh_block l" using F(1) that list_update_id [of "lh_block l" i] by (auto simp: l_def)
    have "int i \<noteq> lh_n l" using i(1) by linarith
    then show ?thesis
      using I(2) guards c i(2) i_def n_def
      by (simp add: log_write_def log_acquire_free Let_def upd_log_def log_release_held [where c = c] flip: c_def l_def)
  qed
  show "log_write b s = rbind (bpin b s) (\<lambda>s. Ok (upd_log (\<lambda>l. l\<lparr>lh_block := (lh_block l)[nat (lh_n l) := n], lh_n := lh_n l + 1\<rparr>) s))"
    if "n \<notin> set (logged (klog s))"
  proof -
    have i: "i = nat (lh_n l)" using F(2) that by (simp add: l_def)
    obtain t d bs v where s: "s = vst s c t d bs v" unfolding c_def using vst_id by blast
    have bs: "bufs s = bs" by (subst s) simp
    have pin: "bpin b s = Ok (vst s (crit c) t d (bs(b := (bs b)\<lparr>brefcnt := brefcnt (bs b) + 1\<rparr>)) v)"
      using bpin_vst(1) [OF c(3) I(7), of b t d bs v] s by simp
    have "log_write b (vst s c t d bs v) = Ok (vst (upd_log (\<lambda>l. l\<lparr>lh_block := (lh_block l)[nat (lh_n l) := n], lh_n := lh_n l + 1\<rparr>) s) (crit c) t d (bs(b := (bs b)\<lparr>brefcnt := brefcnt (bs b) + 1\<rparr>)) v)"
      using I(2,7) guards c i n0 i_def n_def bs
      by (simp add: log_write_def log_acquire_free Let_def log_release_held [where c = c] bpin_vst(1) flip: l_def)
        (cases l, simp add: upd_log_def flip: l_def)
    then show ?thesis using s pin by simp
  qed
qed

lemma log_wf_add:
  assumes wf: "log_wf l" and n: "n \<notin> set (logged l)" "n \<notin> log_area l" "unat n < 2 ^ 31" and rm: "lh_n l < int (log_cap l)"
  defines "l' \<equiv> l\<lparr>lh_block := (lh_block l)[nat (lh_n l) := n], lh_n := lh_n l + 1\<rparr>"
  shows "log_wf l'" "logged l' = logged l @ [n]" "log_area l' = log_area l"
proof -
  have lt: "nat (lh_n l) < length (lh_block l)" using rm log_cap_le [of l] log_wfD(9,10) [OF wf] by simp
  have S: "nat (lh_n l + 1) = Suc (nat (lh_n l))" using log_wfD(10) [OF wf] by simp
  show L: "logged l' = logged l @ [n]" using lt by (simp add: logged_def l'_def S take_Suc_conv_app_nth)
  show A: "log_area l' = log_area l" by (simp add: log_area_def log_cap_def lblk_def l'_def)
  show "log_wf l'"
    unfolding log_wf_def L A using wf n rm log_wfD(4,10) [OF wf] by (auto simp: log_wf_def l'_def)
qed

text \<open>States that differ in what the cache, the driver and the log may change.\<close>

definition lstep :: "'a lsys_scheme \<Rightarrow> 'a lsys_scheme \<Rightarrow> bool" where
  "lstep s s' \<longleftrightarrow> woke s s' \<and> (\<exists>c t d bs v l. s' = (vst s c t d bs v)\<lparr>klog := l\<rparr>)"

definition log_frame :: "log \<Rightarrow> log \<Rightarrow> bool" where
  "log_frame l l' \<longleftrightarrow> l'\<lparr>lh_n := 0, lh_block := []\<rparr> = l\<lparr>lh_n := 0, lh_block := []\<rparr>"

lemma log_frame_refl [simp]: "log_frame l l"
  by (simp add: log_frame_def)

lemma log_frame_trans: "log_frame l l' \<Longrightarrow> log_frame l' l'' \<Longrightarrow> log_frame l l''"
  by (simp add: log_frame_def)

lemma log_frameD:
  assumes "log_frame l l'"
  shows "log_lock l' = log_lock l" "log_start l' = log_start l" "log_size l' = log_size l" "outstanding l' = outstanding l"
    "committing l' = committing l" "log_dev l' = log_dev l" "log_area l' = log_area l"
proof -
  show E: "log_lock l' = log_lock l" "log_start l' = log_start l" "log_size l' = log_size l" "outstanding l' = outstanding l"
    "committing l' = committing l" "log_dev l' = log_dev l"
    using assms by (cases l; cases l'; simp add: log_frame_def)+
  show "log_area l' = log_area l" by (simp add: log_area_def log_cap_def lblk_def E)
qed

lemma bstep_lstep: "bstep s s' \<Longrightarrow> lstep s s'"
proof -
  assume b: "bstep s s'"
  then obtain c t d bs v where "s' = vst s c t d bs v" by (auto simp: bstep_def)
  then have "s' = (vst s c t d bs v)\<lparr>klog := klog s\<rparr>" by (simp add: vst_def)
  then show "lstep s s'" using b unfolding lstep_def bstep_def by blast
qed

lemma lstep_trans:
  assumes "lstep s s'" and "lstep s' s''"
  shows "lstep s s''"
proof -
  obtain c t d bs v l c' t' d' bs' v' l' where "s' = (vst s c t d bs v)\<lparr>klog := l\<rparr>" "s'' = (vst s' c' t' d' bs' v')\<lparr>klog := l'\<rparr>"
    using assms unfolding lstep_def by blast
  then have "s'' = (vst s c' t' d' bs' v')\<lparr>klog := l'\<rparr>" by (simp add: vst_def)
  then show ?thesis using assms woke_trans [of s s' s''] unfolding lstep_def by blast
qed

lemma lstepI: "woke s s' \<Longrightarrow> s' = (vst s c t d bs v)\<lparr>klog := l\<rparr> \<Longrightarrow> lstep s s'"
  unfolding lstep_def by blast

lemma lstep_upd_log:
  assumes "lstep s s'"
  shows "lstep s (upd_log f s')"
proof -
  obtain c t d bs v l where s': "s' = (vst s c t d bs v)\<lparr>klog := l\<rparr>" using assms unfolding lstep_def by blast
  have "woke s s'" using assms by (simp add: lstep_def)
  then have "woke s (upd_log f s')" by (simp add: woke_def upd_log_def)
  then show ?thesis by (rule lstepI) (simp add: s' upd_log_def)
qed

lemma lstep_crit: "lstep s (s\<lparr>mycpu := crit (mycpu s)\<rparr>)"
  by (rule lstepI [of _ _ "klog s" "crit (mycpu s)" "ptable s" "disk s" "bufs s" "vdev s"]) (simp_all add: vst_def woke_def)

lemma log_write_spec:
  assumes inv: "log_inv s p H" and b: "H b = Some n" and n: "n \<notin> log_area (klog s)" and rm: "room (klog s)" and out: "1 \<le> outstanding (klog s)"
  shows "\<exists>s'. log_write b s = Ok s' \<and> log_inv s' p H \<and> set (logged (klog s')) = insert n (set (logged (klog s))) \<and>
    lh_n (klog s') = lh_n (klog s) + (if n \<in> set (logged (klog s)) then 0 else 1) \<and>
    log_frame (klog s) (klog s') \<and> lstep s s' \<and> view s' = view s \<and> vdev s' = vdev s"
proof -
  note I = log_invD [OF inv]
  have bn: "bblockno (bufs s b) = n" using bresD(7) [OF I(3) b] by simp
  note W = log_write_eq [OF inv rm out, of b, unfolded bn]
  show ?thesis
  proof (cases "n \<in> set (logged (klog s))")
    case True
    define s' where "s' = s\<lparr>mycpu := crit (mycpu s)\<rparr>"
    have "bres s' p (set (logged (klog s))) H" by (rule bres_woke [OF I(3)]) (simp_all add: s'_def woke_crit)
    then have "log_inv s' p H" using I(1-5) by (simp add: log_inv_def s'_def sized_def view_def)
    then show ?thesis using W(1) True lstep_crit [of s] by (intro exI [of _ s']) (auto simp: s'_def view_def insert_absorb)
  next
    case False
    obtain s1 where 1: "bpin b s = Ok s1" "bstep s s1" "bres s1 p (insert n (set (logged (klog s)))) H" "view s1 = view s" "vdev s1 = vdev s"
      using bres_bpin [OF I(3) b False] by blast
    define f :: "log \<Rightarrow> log" where "f = (\<lambda>l. l\<lparr>lh_block := (lh_block l)[nat (lh_n l) := n], lh_n := lh_n l + 1\<rparr>)"
    define s' where "s' = upd_log f s1"
    have k: "klog s' = f (klog s)" using bstep_klog [OF 1(2)] by (simp add: s'_def)
    have n31: "unat n < 2 ^ 31"
      using bresD(1) [OF I(3)] bres_bowns(2) [OF I(3) b] cache_okD(3) bn by (auto simp: bio_run_def bio_ok_def buf_ok_def)
    have lt: "lh_n (klog s) < int (log_cap (klog s))" using rm by (auto simp: room_def log_cap_def)
    note A = log_wf_add [OF I(1) False n n31 lt, folded f_def]
    have "log_write b s = Ok s'" using W(2) [OF False] 1(1) by (simp add: s'_def f_def)
    moreover have "log_inv s' p H"
      using A(1,2) 1(3-5) I(2,4,5) unfolding log_inv_def k by (simp add: s'_def sized_def) (simp add: f_def)
    moreover have "lstep s s'" using bstep_lstep [OF 1(2)] lstep_upd_log by (simp add: s'_def)
    moreover have "log_frame (klog s) (klog s')" by (simp add: log_frame_def k f_def)
    moreover have "set (logged (klog s')) = insert n (set (logged (klog s)))" "lh_n (klog s') = lh_n (klog s) + 1" using A(2) by (simp_all add: k f_def)
    moreover have "view s' = view s" "vdev s' = vdev s" using 1(4,5) by (simp_all add: s'_def)
    ultimately show ?thesis using False by (intro exI [of _ s']) simp
  qed
qed

lemma log_write_full: "log_lock (klog s) = initlock \<Longrightarrow> \<not> room (klog s) \<Longrightarrow> log_write b s = Panic ''too big a transaction''"
  by (auto simp: log_write_def log_acquire_free room_def)

text \<open>The way every operation of the file system changes a block.\<close>

definition can_read :: "'a lsys_scheme \<Rightarrow> (nat \<rightharpoonup> uint32) \<Rightarrow> uint32 \<Rightarrow> bool" where
  "can_read s H n \<longleftrightarrow> n \<notin> ran H \<and> unat n < 2 ^ 31 \<and> (n \<in> set (logged (klog s)) \<or> nat (lh_n (klog s)) + card (dom H) < NBUF)"

lemma log_inv_bread:
  assumes D: "virtio_device D" and inv: "log_inv s p H" and n: "can_read s H n"
  shows "\<exists>b s'. bread D ROOTDEV n s = Ok (b, s') \<and> bstep s s' \<and> b \<notin> dom H \<and> log_inv s' p (H(b \<mapsto> n)) \<and> bdata (bufs s' b) = view s n \<and>
    bblockno (bufs s' b) = n \<and> klog s' = klog s \<and> view s' = view s \<and> vdev s' = vdev s"
proof -
  note I = log_invD [OF inv]
  have "card (set (logged (klog s))) \<le> nat (lh_n (klog s))" using card_length [of "logged (klog s)"] log_wfD(3) [OF I(1)] by simp
  then have "n \<in> set (logged (klog s)) \<or> card (set (logged (klog s))) + card (dom H) < NBUF" using n by (auto simp: can_read_def)
  then obtain b s' where S: "bread D ROOTDEV n s = Ok (b, s')" "bstep s s'" "b \<notin> dom H" "bres s' p (set (logged (klog s))) (H(b \<mapsto> n))"
      "view s' = view s" "vdev s' = vdev s"
    using bres_bread [OF D I(3)] n unfolding can_read_def by blast
  have k: "klog s' = klog s" using bstep_klog [OF S(2)] .
  have "log_inv s' p (H(b \<mapsto> n))" using S(4-6) I by (simp add: log_inv_def k sized_def)
  moreover have "bdata (bufs s' b) = view s n" "bblockno (bufs s' b) = n" using bres_data [OF S(4), of b n] bresD(7) [OF S(4), of b n] S(5) by simp_all
  ultimately show ?thesis using S k by blast
qed

lemma log_inv_brelse:
  assumes inv: "log_inv s p H" and b: "H b = Some n" and clean: "n \<in> set (logged (klog s)) \<or> view s n = content (vdev s) (ucast n)"
  shows "\<exists>s'. brelse b s = Ok s' \<and> bstep s s' \<and> log_inv s' p (H(b := None)) \<and> klog s' = klog s \<and> view s' = view s \<and> vdev s' = vdev s"
proof -
  note I = log_invD [OF inv]
  obtain s' where S: "brelse b s = Ok s'" "bstep s s'" "bres s' p (set (logged (klog s))) (H(b := None))" "view s' = view s" "vdev s' = vdev s"
    using bres_brelse [OF I(3) b clean] by blast
  have k: "klog s' = klog s" using bstep_klog [OF S(2)] .
  have "log_inv s' p (H(b := None))" using S(3-5) I by (simp add: log_inv_def k sized_def)
  then show ?thesis using S k by blast
qed

lemma log_inv_store:
  fixes x :: "uchar list"
  assumes inv: "log_inv s p H" and b: "H b = Some n" and x: "length x = BSIZE"
  defines "s' \<equiv> upd_buf b (bdata_update (\<lambda>_. x)) s"
  shows "bstep s s'" "log_inv s' p H" "klog s' = klog s" "view s' = (view s)(n := x)" "vdev s' = vdev s"
proof -
  note I = log_invD [OF inv]
  note S = bres_store [OF I(3) b, of x, folded s'_def]
  show k: "bstep s s'" "klog s' = klog s" "view s' = (view s)(n := x)" "vdev s' = vdev s" using S bstep_klog [OF S(1)] by simp_all
  show "log_inv s' p H" using S I x by (simp add: log_inv_def k sized_def)
qed

lemma log_inv_update:
  assumes D: "virtio_device D" and inv: "log_inv s p H" and n: "can_read s H n" "n \<notin> log_area (klog s)" and rm: "room (klog s)"
    and out: "1 \<le> outstanding (klog s)" and x: "length x = BSIZE"
  shows "\<exists>b s1 s2 s3. bread D ROOTDEV n s = Ok (b, s1) \<and> bdata (bufs s1 b) = view s n \<and>
    log_write b (upd_buf b (bdata_update (\<lambda>_. x)) s1) = Ok s2 \<and> brelse b s2 = Ok s3 \<and> bstep s s1 \<and> lstep s s3 \<and> log_inv s3 p H \<and>
    view s3 = (view s)(n := x) \<and> vdev s3 = vdev s \<and> set (logged (klog s3)) = insert n (set (logged (klog s))) \<and>
    lh_n (klog s3) = lh_n (klog s) + (if n \<in> set (logged (klog s)) then 0 else 1) \<and>
    log_frame (klog s) (klog s3)"
proof -
  obtain b s1 where 1: "bread D ROOTDEV n s = Ok (b, s1)" "bstep s s1" "b \<notin> dom H" "log_inv s1 p (H(b \<mapsto> n))" "bdata (bufs s1 b) = view s n"
      "klog s1 = klog s" "view s1 = view s" "vdev s1 = vdev s"
    using log_inv_bread [OF D inv n(1)] by blast
  define s1' where "s1' = upd_buf b (bdata_update (\<lambda>_. x)) s1"
  note S = log_inv_store [OF 1(4) _ x, of b n, folded s1'_def]
  obtain s2 where 2: "log_write b s1' = Ok s2" "log_inv s2 p (H(b \<mapsto> n))" "set (logged (klog s2)) = insert n (set (logged (klog s)))"
      "lh_n (klog s2) = lh_n (klog s) + (if n \<in> set (logged (klog s)) then 0 else 1)"
      "log_frame (klog s) (klog s2)" "lstep s1' s2" "view s2 = view s1'" "vdev s2 = vdev s1'"
    using log_write_spec [OF S(2), of b n] n rm out S(3) 1(6) by auto
  obtain s3 where 3: "brelse b s2 = Ok s3" "bstep s2 s3" "log_inv s3 p (H(b \<mapsto> n, b := None))" "klog s3 = klog s2" "view s3 = view s2" "vdev s3 = vdev s2"
    using log_inv_brelse [OF 2(2), of b n] 2(3) by auto
  have H: "H(b \<mapsto> n, b := None) = H" using 1(3) by (auto simp: fun_eq_iff domIff)
  have "lstep s s3"
    by (rule lstep_trans [OF bstep_lstep [OF bstep_trans [OF 1(2) S(1)]] lstep_trans [OF 2(6) bstep_lstep [OF 3(2)]]]) simp
  moreover have "view s3 = (view s)(n := x)" "vdev s3 = vdev s" using 3(5,6) 2(7,8) S(4,5) 1(7,8) by simp_all
  ultimately show ?thesis using 1(1,2,5) 2(1,3-5) 3(1,3,4) H unfolding s1'_def by (intro exI [of _ b] exI [of _ s1] exI [of _ s2] exI [of _ s3]) simp
qed

section \<open>Closing the transaction\<close>

lemma log_sync_fields [simp]:
  "logged (l\<lparr>outstanding := x\<rparr>) = logged l" "logged (l\<lparr>committing := c\<rparr>) = logged l" "logged (l\<lparr>log_lock := k\<rparr>) = logged l"
  "lblk (l\<lparr>outstanding := x\<rparr>) = lblk l" "lblk (l\<lparr>committing := c\<rparr>) = lblk l" "lblk (l\<lparr>log_lock := k\<rparr>) = lblk l" "lblk (l\<lparr>lh_n := n\<rparr>) = lblk l"
  "log_area (l\<lparr>outstanding := x\<rparr>) = log_area l" "log_area (l\<lparr>committing := c\<rparr>) = log_area l" "log_area (l\<lparr>log_lock := k\<rparr>) = log_area l"
  "log_area (l\<lparr>lh_n := n\<rparr>) = log_area l"
  by (simp_all add: logged_def lblk_def log_area_def log_cap_def fun_eq_iff)

lemma log_sync_wf [simp]:
  "log_wf (l\<lparr>outstanding := x\<rparr>) = log_wf l" "log_wf (l\<lparr>committing := c\<rparr>) = log_wf l" "log_wf (l\<lparr>log_lock := k\<rparr>) = log_wf l"
  by (simp_all add: log_wf_def)

lemma head_bytes_sync [simp]:
  "head_bytes (l\<lparr>outstanding := x\<rparr>) = head_bytes l" "head_bytes (l\<lparr>committing := c\<rparr>) = head_bytes l" "head_bytes (l\<lparr>log_lock := k\<rparr>) = head_bytes l"
  "head_bytes (l\<lparr>outstanding := x, lh_n := n\<rparr>) = head_bytes (l\<lparr>lh_n := n\<rparr>)" "head_bytes (l\<lparr>committing := c, lh_n := n\<rparr>) = head_bytes (l\<lparr>lh_n := n\<rparr>)"
  by (simp_all add: head_bytes_def logged_def fun_eq_iff)

lemma commit_writes_sync [simp]: "commit_writes (l\<lparr>outstanding := x, committing := c\<rparr>) = commit_writes l"
  by (auto simp: commit_writes_def fun_eq_iff head_bytes_def logged_def)

lemma log_inv_frame:
  assumes inv: "log_inv s p H" and "woke s s'" and "bcache_lock s' = bcache_lock s" and "bufs s' = bufs s" and "disk s' = disk s" and "vdev s' = vdev s"
    and "log_wf (klog s')" and "logged (klog s') = logged (klog s)" and "log_lock (klog s') = initlock" and "log_start (klog s') = log_start (klog s)"
  shows "log_inv s' p H"
proof -
  have "bres s' p (set (logged (klog s'))) H" unfolding assms(8) by (rule bres_woke [OF log_invD(3) [OF inv] assms(2-6)])
  then show ?thesis using log_invD(4,5) [OF inv] assms(4,6-10) by (simp add: log_inv_def sized_def view_def)
qed

text \<open>\<^verbatim>\<open>commit\<close> in terms of the invariant, for an empty transaction too.\<close>

lemma commit_inv:
  assumes D: "virtio_device D" and inv: "log_inv s p Map.empty" and n: "nat (lh_n (klog s)) < NBUF"
  shows "\<exists>s'. commit D s = Ok s' \<and> klog s' = (klog s)\<lparr>lh_n := 0\<rparr> \<and> log_inv s' p Map.empty \<and>
    (\<forall>m. m \<notin> log_area (klog s) \<longrightarrow> view s' m = view s m) \<and>
    vdev s' = append_writes (if lh_n (klog s) = 0 then [] else commit_writes (klog s) (view s)) (vdev s)"
proof (cases "lh_n (klog s) = 0")
  case True
  then have "commit D s = Ok s" by (simp add: commit_def)
  then show ?thesis using inv True by (intro exI [of _ s]) simp
next
  case False
  note I = log_invD [OF inv]
  define l where "l = klog s"
  have pos: "0 < lh_n (klog s)" using False log_wfD(10) [OF I(1)] by simp
  obtain s' where S: "commit D s = Ok s'" "klog s' = l\<lparr>lh_n := 0\<rparr>" "bres s' p {} Map.empty" "sized s'"
    "\<forall>m. m \<notin> log_area l \<longrightarrow> view s' m = view s m" "vdev s' = append_writes (commit_writes l (view s)) (vdev s)"
    using commit_spec [OF D I(1) refl pos n I(3,4)] unfolding l_def by blast
  have d: "length (view s (log_start l)) = BSIZE" using I(4) by (simp add: sized_def)
  have wf: "log_wf l" using I(1) by (simp add: l_def)
  have "get32 (content (vdev s') (ucast (log_start l))) 0 = 0"
    using head_bytes_facts(2) [OF head_bytes_facts(1) [OF d wf] log_wf_clear [OF wf]]
    unfolding S(6) content_append commit_writes_parts by simp
  then have "log_inv s' p Map.empty"
    using S(2-4) log_wf_clear [OF wf] I(2) by (simp add: log_inv_def logged_def l_def)
  then show ?thesis using S False by (intro exI [of _ s']) (simp add: l_def)
qed

lemma end_op_spec:
  assumes D: "virtio_device D" and inv: "log_inv s p Map.empty" and n: "nat (lh_n (klog s)) < NBUF"
    and out: "outstanding (klog s) = 1" "\<not> committing (klog s)"
  shows "\<exists>s'. end_op D s = Ok s' \<and> klog s' = (klog s)\<lparr>lh_n := 0, outstanding := 0\<rparr> \<and> log_inv s' p Map.empty \<and>
    (\<forall>m. m \<notin> log_area (klog s) \<longrightarrow> view s' m = view s m) \<and>
    vdev s' = append_writes (if lh_n (klog s) = 0 then [] else commit_writes (klog s) (view s)) (vdev s)"
proof -
  note I = log_invD [OF inv]
  define s1 where "s1 = upd_log (\<lambda>l. l\<lparr>outstanding := 0, committing := True\<rparr>) (s\<lparr>mycpu := crit (mycpu s)\<rparr>)"
  have k1: "klog s1 = (klog s)\<lparr>outstanding := 0, committing := True\<rparr>" "view s1 = view s" "vdev s1 = vdev s"
    by (simp_all add: s1_def) (simp add: view_def)
  have "log_inv s1 p Map.empty"
    by (rule log_inv_frame [OF inv]) (use I in \<open>simp_all add: s1_def woke_def, simp_all add: upd_log_def\<close>)
  moreover have "nat (lh_n (klog s1)) < NBUF" using n by (simp add: k1)
  ultimately obtain s2 where 2: "commit D s1 = Ok s2" "klog s2 = (klog s)\<lparr>outstanding := 0, committing := True, lh_n := 0\<rparr>" "log_inv s2 p Map.empty"
      "\<forall>m. m \<notin> log_area (klog s) \<longrightarrow> view s2 m = view s m"
      "vdev s2 = append_writes (if lh_n (klog s) = 0 then [] else commit_writes (klog s) (view s)) (vdev s)"
    using commit_inv [OF D, of s1 p] by (auto simp: k1)
  note J = log_invD [OF 2(3)]
  have "\<forall>q < NPROC. plock (ptable s2 q) = initlock" "cpu_proc (mycpu s2) = Some p" "noff (mycpu s2) = 0" using J(6) by (auto simp: running_def)
  note run2 = this
  define s3 where "s3 = upd_log (committing_update (\<lambda>_. False)) (s2\<lparr>mycpu := crit (mycpu s2), ptable := wake_from (Some log_chan) (Some p) 0 (ptable s2)\<rparr>)"
  have c: "cpu_ok (push_off (mycpu s2))" "crit (push_off (mycpu s2)) = push_off (mycpu s2)"
    using J(8) run2(3) by (auto simp: crit_push_off cpu_ok_push_off cpu_ok_def)
  have k3: "klog s3 = (klog s)\<lparr>lh_n := 0, outstanding := 0\<rparr>" using out(2) by (cases "klog s") (simp add: s3_def 2(2))
  have fin: "rbind (log_acquire s2) (\<lambda>s. let s = upd_log (committing_update (\<lambda>_. False)) s in rbind (wakeup (Some log_chan) s) log_release) = Ok s3"
    using J(2,8) run2 c
    by (simp add: log_acquire_free Let_def wakeup_eq upd_log_def log_release_held [where c = "mycpu s2"] s3_def)
  have rel: "log_release (s\<lparr>mycpu := push_off (mycpu s), klog := (klog s)\<lparr>log_lock := held_by (cpu_id (mycpu s)), outstanding := 0, committing := True\<rparr>\<rparr>) = Ok s1"
    using I(2,8) by (cases "klog s") (simp add: log_release_held [where c = "mycpu s"] s1_def upd_log_def)
  have "end_op D s = Ok s3"
    using I(2) out 2(1) fin rel by (simp add: end_op_def log_acquire_free Let_def upd_log_def)
  moreover have "log_inv s3 p Map.empty"
    by (rule log_inv_frame [OF 2(3)]) (use J in \<open>auto simp: s3_def upd_log_def woke_def wake_from_def woken_def\<close>)
  moreover have "view s3 = view s2" "vdev s3 = vdev s2" by (simp_all add: s3_def) (simp add: view_def)
  ultimately show ?thesis using 2(4,5) k3 by (intro exI [of _ s3]) simp
qed

section \<open>A crash and the next boot\<close>

lemma crash_header:
  fixes m :: "uint64 \<Rightarrow> uchar list"
  assumes wf: "log_wf l" and d: "length (V (log_start l)) = BSIZE" and h: "get32 (m (ucast (log_start l))) 0 = 0"
  defines "m' k \<equiv> apply_writes m (take k (commit_writes l V)) (ucast (log_start l))"
  shows "get32 (m' k) 0 = 0 \<or> (get32 (m' k) 0 = word_of_int (lh_n l) \<and> (\<forall>t < nat (lh_n l). get32 (m' k) (4 + 4 * t) = logged l ! t))"
proof -
  have len: "length (log_part l V) = nat (lh_n l)" by (simp add: log_part_def)
  note H = head_bytes_facts [OF d wf]
  consider "k \<le> nat (lh_n l)" | "nat (lh_n l) < k" "k \<le> nat (lh_n l) + 1 + length (home_part l V)" | "nat (lh_n l) + 1 + length (home_part l V) < k"
    by linarith
  then show ?thesis
  proof cases
    case 1
    then have "m' k = m (ucast (log_start l))"
      unfolding m'_def commit_writes_parts using apply_writes_take [OF key_cases(3) [OF wf]] by (simp only: take_parts(1) len)
    then show ?thesis using h by simp
  next
    case 2
    have "m' k = head_bytes l (V (log_start l))"
      unfolding m'_def commit_writes_parts using 2 apply_writes_take [OF key_cases(6) [OF wf]]
      by (simp only: take_parts(2) len) simp
    then show ?thesis using H(2,3) by simp
  next
    case 3
    then have "take k (commit_writes l V) = commit_writes l V" by (simp only: commit_writes_parts take_parts(3) len)
    then show ?thesis using head_bytes_facts(2) [OF H(1) log_wf_clear [OF wf]] by (simp add: m'_def commit_writes_parts)
  qed
qed

lemma disk_log_wf:
  assumes wf: "log_wf l" and "log_start l' = log_start l" and "log_dev l' = ROOTDEV" and size: "log_size l' = log_size l"
    and h: "get32 h 0 = 0 \<or> (get32 h 0 = word_of_int (lh_n l) \<and> (\<forall>t < nat (lh_n l). get32 h (4 + 4 * t) = logged l ! t))"
  shows "log_wf (disk_log l' h)" "sint (get32 h 0) \<le> lh_n l"
proof -
  have st: "unat (log_start l) + LOGSIZE + 1 < 2 ^ 31" using wf by (simp add: log_wf_def)
  have n: "0 \<le> lh_n l" "lh_n l \<le> int LOGSIZE" using log_wfD(10,11) [OF wf] .
  have area: "log_area (disk_log l' h) = log_area l" by (simp add: log_area_def log_cap_def lblk_def assms(2) size)
  have cap: "log_cap (disk_log l' h) = log_cap l" by (simp add: log_cap_def size)
  have nc: "lh_n l \<le> int (log_cap l)" using wf by (simp add: log_wf_def)
  have len: "length (lh_block (disk_log l' h)) = LOGSIZE" by (simp add: disk_log_def Let_def)
  consider "sint (get32 h 0) = 0" | "sint (get32 h 0) = lh_n l" "\<forall>t < nat (lh_n l). get32 h (4 + 4 * t) = logged l ! t"
    using h sint_small [OF n] by auto
  then show "log_wf (disk_log l' h)"
  proof cases
    case 1
    then have "logged (disk_log l' h) = []" by (simp add: logged_def)
    then show ?thesis using st 1 len by (simp add: log_wf_def assms(2,3))
  next
    case 2
    have "logged (disk_log l' h) = logged l"
    proof (rule nth_equalityI)
      show "length (logged (disk_log l' h)) = length (logged l)" using len log_wfD(12,3) [OF wf] 2(1) by (simp add: logged_def)
      fix t assume "t < length (logged (disk_log l' h))"
      then have t: "t < nat (lh_n l)" using 2(1) by (simp add: logged_def)
      then have "t < LOGSIZE" "int t < lh_n l" using log_wfD(12) [OF wf] by simp_all
      then have "lh_block (disk_log l' h) ! t = logged l ! t" using 2 t by (simp add: disk_log_def Let_def)
      then show "logged (disk_log l' h) ! t = logged l ! t" using 2(1) t by (simp add: logged_def [of "disk_log l' h"])
    qed
    then show ?thesis unfolding log_wf_def area cap using st 2(1) len n(1) nc log_wfD(4,5,6) [OF wf] by (simp add: assms(2,3))
  qed
  show "sint (get32 h 0) \<le> lh_n l" using h sint_small [OF n] n by auto
qed

text \<open>A machine that has just started: no buffer is in use.\<close>

definition booted :: "'a lsys_scheme \<Rightarrow> nat \<Rightarrow> bool" where
  "booted r q \<longleftrightarrow> bres r q {} Map.empty \<and> sized r"

lemma initlog_recovers:
  assumes D: "virtio_device D" and r: "booted r q" and m: "m = content (vdev r)" and st: "start = sb_logstart sb"
    and wf: "log_wf (disk_log ((klog r)\<lparr>log_lock := initlock, log_start := start, log_size := sb_nlog sb, log_dev := ROOTDEV\<rparr>) (m (ucast start)))"
    and n: "sint (get32 (m (ucast start)) 0) < int NBUF"
  shows "\<exists>r'. initlog D ROOTDEV sb r = Ok r' \<and> log_inv r' q Map.empty \<and> lh_n (klog r') = 0 \<and> log_start (klog r') = start \<and> log_size (klog r') = sb_nlog sb \<and>
    (\<forall>b. b \<notin> log_area (klog r') \<longrightarrow> content (vdev r') (ucast b) = replay start m (ucast b))"
proof -
  define r0 where "r0 = upd_log (\<lambda>l. l\<lparr>log_lock := initlock, log_start := start, log_size := sb_nlog sb, log_dev := ROOTDEV\<rparr>) r"
  define l where "l = disk_log (klog r0) (m (ucast start))"
  have r0: "bres r0 q {} Map.empty" "sized r0" "vdev r0 = vdev r" "log_start (klog r0) = start"
    using r by (simp_all add: r0_def booted_def)
  have wf': "log_wf (disk_log (klog r0) (content (vdev r0) (ucast (log_start (klog r0)))))"
    using wf by (simp add: r0(3,4) m [symmetric]) (simp add: r0_def)
  have n': "nat (sint (get32 (m (ucast start)) 0)) < NBUF" using n by (simp add: layout_defs nat_less_iff)
  obtain r' where S: "recover_from_log D r0 = Ok r'" "klog r' = l\<lparr>lh_n := 0\<rparr>" "bres r' q {} Map.empty" "sized r'"
      "vdev r' = append_writes (recovery_writes l m) (vdev r)"
    using recover_spec [OF D r0(1,2) wf'] n' by (auto simp: r0(3,4) m [symmetric] l_def)
  have l: "log_wf l" "log_start l = start" using wf' by (simp_all add: l_def r0 m)
  have d: "length (m (ucast start)) = BSIZE"
    using r0(2) bres_clean [OF r0(1), of start] by (metis m r0(3) sized_def empty_iff ran_empty)
  have bl: "get32 (m (ucast (log_start l))) (4 + 4 * t) = logged l ! t" if "t < nat (lh_n l)" for t
    using disk_log_logged [OF l(1) [unfolded l_def]] that by (simp add: l_def r0(4))
  note P = recovery_prefix [where m = m and l = l, OF l(1) _ bl]
  have P1: "get32 (content (vdev r') (ucast start)) 0 = 0"
    unfolding S(5) content_append m [symmetric] using P(1) d by (simp add: l(2)) (simp add: l_def)
  have P2: "content (vdev r') (ucast b) = replay start m (ucast b)" if "b \<notin> log_area l" for b
    unfolding S(5) content_append m [symmetric] using P(2) d that by (simp add: l(2)) (simp add: l_def)
  have lock: "log_lock l = initlock" by (simp add: l_def disk_log_def Let_def r0_def)
  have "log_inv r' q Map.empty"
    using S(2-4) log_wf_clear [OF l(1)] P1 l(2) lock by (simp add: log_inv_def logged_def)
  moreover have "initlog D ROOTDEV sb r = Ok r'" using S(1) by (simp add: initlog_def r0_def st layout_defs)
  moreover have "log_size l = sb_nlog sb" by (simp add: l_def r0_def)
  ultimately show ?thesis using S(2) l(2) P2 by (intro exI [of _ r']) simp
qed

text \<open>
  C1: A transaction is atomic across a crash. \<^verbatim>\<open>end_op\<close>, called by the last operation of a
  transaction, returns with every block outside the log on disk as the cache had it. If the
  machine stops after any number \<open>k\<close> of the writes that \<^verbatim>\<open>end_op\<close> issues, the next boot's
  \<^verbatim>\<open>initlog\<close> returns and leaves every block outside the log with the content before the
  transaction or every such block with the content after it, according to whether the header
  write is among the \<open>k\<close>.
\<close>

theorem end_op_crash_atomic:
  assumes D: "virtio_device D" and inv: "log_inv s p Map.empty" and n: "lh_n (klog s) < int NBUF"
    and out: "outstanding (klog s) = 1" "\<not> committing (klog s)"
  shows "\<exists>s' ws. end_op D s = Ok s' \<and> vdev s' = append_writes ws (vdev s) \<and> log_inv s' p Map.empty \<and> lh_n (klog s') = 0 \<and>
    (\<forall>b. b \<notin> log_area (klog s) \<longrightarrow> content (vdev s') (ucast b) = view s b) \<and>
    (\<forall>k r q sb. booted r q \<and> vdev r = append_writes (take k ws) (vdev s) \<and> sb_logstart sb = log_start (klog s) \<and> sb_nlog sb = log_size (klog s) \<longrightarrow>
      (\<exists>r'. initlog D ROOTDEV sb r = Ok r' \<and> log_inv r' q Map.empty \<and> lh_n (klog r') = 0 \<and>
        (\<forall>b. b \<notin> log_area (klog s) \<longrightarrow>
          content (vdev r') (ucast b) = (if nat (lh_n (klog s)) < k then view s b else content (vdev s) (ucast b)))))"
proof -
  note I = log_invD [OF inv]
  define l V m where "l = klog s" and "V = view s" and "m = content (vdev s)"
  define ws where "ws = (if lh_n l = 0 then [] else commit_writes l V)"
  have n': "nat (lh_n (klog s)) < NBUF" using n by (simp add: layout_defs nat_less_iff)
  have wf: "log_wf l" and d: "length (V (log_start l)) = BSIZE" and h: "get32 (m (ucast (log_start l))) 0 = 0"
    using I(1,4,5) by (simp_all add: l_def V_def m_def sized_def)
  have clean: "m (ucast b) = V b" if "b \<notin> log_area l" "b \<notin> set (logged l)" for b
    using bres_clean [OF I(3)] that by (simp add: l_def V_def m_def)
  obtain s' where S: "end_op D s = Ok s'" "klog s' = l\<lparr>lh_n := 0, outstanding := 0\<rparr>" "log_inv s' p Map.empty" "vdev s' = append_writes ws (vdev s)"
    using end_op_spec [OF D inv n' out] unfolding ws_def l_def V_def by blast
  have all: "content (vdev s') (ucast b) = V b" if "b \<notin> log_area l" for b
    unfolding S(4) content_append ws_def m_def [symmetric]
    using crash_done(1) [where m = m and V = V, OF wf d that clean] clean [OF that] by (auto simp: logged_def)
  have crash: "replay (log_start l) (apply_writes m (take k ws)) (ucast b) = (if nat (lh_n l) < k then V b else m (ucast b))" if "b \<notin> log_area l" for b k
  proof (cases "lh_n l = 0")
    case True
    then show ?thesis using replay_empty [where m = m, OF h] clean [OF that] by (simp add: ws_def logged_def)
  next
    case False
    then show ?thesis using commit_prefix [where m = m and V = V, OF wf d that h clean, of k] by (simp add: ws_def)
  qed
  have head: "log_wf (disk_log l' h') \<and> sint (get32 h' 0) < int NBUF"
    if "h' = apply_writes m (take k ws) (ucast (log_start l))" "log_start l' = log_start l" "log_dev l' = ROOTDEV" "log_size l' = log_size l" for l' h' k
  proof -
    have "get32 h' 0 = 0 \<or> (get32 h' 0 = word_of_int (lh_n l) \<and> (\<forall>t < nat (lh_n l). get32 h' (4 + 4 * t) = logged l ! t))"
      unfolding that(1) ws_def using crash_header [where m = m and V = V, OF wf d h, of k] h by auto
    then show ?thesis using disk_log_wf [OF wf that(2-4), of h'] le_less_trans [OF _ n [folded l_def]] by blast
  qed
  have "\<exists>r'. initlog D ROOTDEV sb r = Ok r' \<and> log_inv r' q Map.empty \<and> lh_n (klog r') = 0 \<and>
        (\<forall>b. b \<notin> log_area l \<longrightarrow> content (vdev r') (ucast b) = (if nat (lh_n l) < k then V b else m (ucast b)))"
    if r: "booted r q" and v: "vdev r = append_writes (take k ws) (vdev s)" and sb: "sb_logstart sb = log_start l" "sb_nlog sb = log_size l" for k r q sb
  proof -
    have c: "apply_writes m (take k ws) = content (vdev r)" by (simp add: v content_append m_def)
    obtain r' where R: "initlog D ROOTDEV sb r = Ok r'" "log_inv r' q Map.empty" "lh_n (klog r') = 0" "log_start (klog r') = log_start l" "log_size (klog r') = log_size l"
        "\<forall>b. b \<notin> log_area (klog r') \<longrightarrow> content (vdev r') (ucast b) = replay (log_start l) (apply_writes m (take k ws)) (ucast b)"
      using initlog_recovers [OF D r c sb(1) [symmetric]]
        head [OF refl, of "(klog r)\<lparr>log_lock := initlock, log_start := log_start l, log_size := sb_nlog sb, log_dev := ROOTDEV\<rparr>" k] sb(2) by auto
    have "log_area (klog r') = log_area l" by (simp add: log_area_def log_cap_def lblk_def R(4,5))
    then show ?thesis using R(1-3,6) crash by auto
  qed
  note boot = this
  have "lh_n (klog s') = 0" by (simp add: S(2))
  then show ?thesis unfolding l_def [symmetric] V_def [symmetric] m_def [symmetric] using S(1,3,4) all boot by blast
qed

text \<open>A transaction of one block on the machine of \<open>demo_bio\<close>, and the reboot of that machine.\<close>

definition demo_log :: log where
  "demo_log = \<lparr>log_lock = initlock, log_start = 2, log_size = 30, outstanding = 1, committing = False, log_dev = ROOTDEV, lh_n = 0,
     lh_block = replicate LOGSIZE 0\<rparr>"

definition demo_boot :: "vdev \<Rightarrow> lsys" where
  "demo_boot v = binit (bio.extend (demo_bio\<lparr>vdev := v\<rparr>) (lsys.fields demo_log))"

definition demo_sb :: superblock where
  "demo_sb = \<lparr>sb_magic = FSMAGIC, sb_size = 1000, sb_nblocks = 954, sb_ninodes = 200, sb_nlog = 30, sb_logstart = 2, sb_inodestart = 32, sb_bmapstart = 45\<rparr>"

definition demo_tx :: "lsys res" where
  "demo_tx = rbind (bread ideal_disk ROOTDEV 100 (demo_boot (vdev demo_bio))) (\<lambda>(b, s).
     rbind (log_write b (upd_buf b (bdata_update (\<lambda>_. replicate BSIZE 7)) s)) (brelse b))"

lemma demo_boot_bres: "bres (demo_boot v) 0 {} Map.empty" "vdev (demo_boot v) = v" "klog (demo_boot v) = demo_log"
proof -
  show "bres (demo_boot v) 0 {} Map.empty"
    unfolding demo_boot_def
  proof (rule binit_bres)
    show "running (bio.extend (demo_bio\<lparr>vdev := v\<rparr>) (lsys.fields demo_log)) 0"
      by (simp add: running_def demo_bio_def demo_ptab_def demo_proc_def demo_cpu_def ptab.defs bio.defs cpu_ok_def NPROC_def)
    show "disk_idle (disk (bio.extend (demo_bio\<lparr>vdev := v\<rparr>) (lsys.fields demo_log)))"
      by (simp add: disk_idle_def demo_bio_def demo_vdisk_def ptab.defs bio.defs)
    show "zero_buf (bufs (bio.extend (demo_bio\<lparr>vdev := v\<rparr>) (lsys.fields demo_log)) i)" for i
      by (simp add: zero_buf_def demo_bio_def demo_buf_def ptab.defs bio.defs)
  qed
  show "vdev (demo_boot v) = v" "klog (demo_boot v) = demo_log"
    by (simp_all add: demo_boot_def binit_def Let_def bio.defs lsys.defs)
qed

lemma demo_boot_view: "view (demo_boot v) n = content v (ucast n)"
  using bres_clean [OF demo_boot_bres(1), of n] demo_boot_bres(2) by simp

lemma demo_zero: "content (vdev demo_bio) n = replicate BSIZE 0"
  by (simp add: demo_bio_def ptab.defs bio.defs content_def)

lemma demo_log_bound: "b \<in> log_area demo_log \<Longrightarrow> unat b < 32"
  using lblk_unat [of demo_log] by (auto simp: log_area_def log_cap_def demo_log_def layout_defs)

lemma demo_log_area: "(100 :: uint32) \<notin> log_area demo_log"
  using demo_log_bound [of 100] by auto

lemma demo_log_inv: "log_inv (demo_boot (vdev demo_bio)) 0 Map.empty"
proof -
  have "log_wf demo_log" by (simp add: log_wf_def demo_log_def layout_defs logged_def)
  moreover have "sized (demo_boot (vdev demo_bio))" by (simp add: sized_def demo_boot_view demo_zero)
  moreover have "get32 (replicate BSIZE 0) 0 = 0" by (simp add: get32_def get_bytes_def BSIZE_def numeral_eq_Suc of_le_bytes_def)
  ultimately show ?thesis
    using demo_boot_bres by (simp add: log_inv_def demo_zero) (simp add: demo_log_def logged_def)
qed

lemma demo_tx_state:
  "\<exists>s. demo_tx = Ok s \<and> log_inv s 0 Map.empty \<and> lh_n (klog s) = 1 \<and> outstanding (klog s) = 1 \<and> \<not> committing (klog s) \<and>
     log_start (klog s) = 2 \<and> log_size (klog s) = 30 \<and> log_area (klog s) = log_area demo_log \<and> view s 100 = replicate BSIZE 7 \<and> vdev s = vdev demo_bio"
proof -
  define s0 where "s0 = demo_boot (vdev demo_bio)"
  have k: "klog s0 = demo_log" "vdev s0 = vdev demo_bio" by (simp_all add: s0_def demo_boot_bres)
  have c: "can_read s0 Map.empty 100" by (simp add: can_read_def k demo_log_def layout_defs logged_def)
  have r: "room (klog s0)" "1 \<le> outstanding (klog s0)" by (simp_all add: room_def k demo_log_def layout_defs)
  have a: "(100 :: uint32) \<notin> log_area (klog s0)" "(100 :: uint32) \<notin> set (logged (klog s0))"
    by (simp_all add: k demo_log_area) (simp add: demo_log_def logged_def)
  obtain b s1 s2 s3 where S: "bread ideal_disk ROOTDEV 100 s0 = Ok (b, s1)"
      "log_write b (upd_buf b (bdata_update (\<lambda>_. replicate BSIZE 7)) s1) = Ok s2" "brelse b s2 = Ok s3" "log_inv s3 0 Map.empty"
      "view s3 = (view s0)(100 := replicate BSIZE 7)" "vdev s3 = vdev s0" "lh_n (klog s3) = 1" "log_frame (klog s0) (klog s3)"
    using log_inv_update [OF ideal_disk demo_log_inv [folded s0_def] c a(1) r, of "replicate BSIZE 7"] a(2) by (auto simp: k demo_log_def)
  note F = log_frameD [OF S(8)]
  have "demo_tx = Ok s3" using S(1-3) by (simp add: demo_tx_def s0_def)
  then show ?thesis using S(4-7) F k by (intro exI [of _ s3]) (simp add: demo_log_def)
qed

lemma apply_writes_sized:
  "(\<And>n. length (m n) = BSIZE) \<Longrightarrow> (\<And>n x. (n, x) \<in> set ws \<Longrightarrow> length x = BSIZE) \<Longrightarrow> length (apply_writes m ws b) = BSIZE"
proof (induction ws arbitrary: m)
  case (Cons w ws)
  obtain n x where w: "w = (n, x)" by fastforce
  have "length (apply_writes (m(n := x)) ws b) = BSIZE" by (rule Cons.IH) (use Cons.prems w in auto)
  then show ?case by (simp add: w)
qed simp

lemma commit_writes_sized:
  assumes "log_wf l" and "\<And>b. length (V b) = BSIZE" and "(n, x) \<in> set (commit_writes l V)"
  shows "length x = BSIZE"
  using assms(2,3) head_bytes_facts(1) [OF _ assms(1)] head_bytes_facts(1) [OF _ log_wf_clear [OF assms(1)]]
  by (auto simp: commit_writes_def)

lemma demo_reboot:
  assumes "log_inv s 0 Map.empty" and "vdev s = vdev demo_bio"
  shows "booted (demo_boot (append_writes (take k (commit_writes (klog s) (view s))) (vdev s))) 0"
proof -
  have "length (apply_writes (content (vdev s)) (take k (commit_writes (klog s) (view s))) b) = BSIZE" for b
    by (rule apply_writes_sized)
      (use commit_writes_sized [OF log_invD(1) [OF assms(1)]] log_invD(4) [OF assms(1)] assms(2) in \<open>auto simp: demo_zero sized_def dest: in_set_takeD\<close>)
  then show ?thesis by (simp add: booted_def demo_boot_bres sized_def demo_boot_view content_append)
qed

theorem end_op_crash_atomic_witness:
  "\<exists>s s' ws. demo_tx = Ok s \<and> end_op ideal_disk s = Ok s' \<and> vdev s' = append_writes ws (vdev s) \<and> content (vdev s') 100 = replicate BSIZE 7 \<and>
    (\<exists>r'. initlog ideal_disk ROOTDEV demo_sb (demo_boot (append_writes (take 1 ws) (vdev s))) = Ok r' \<and> content (vdev r') 100 = replicate BSIZE 0) \<and>
    (\<exists>r'. initlog ideal_disk ROOTDEV demo_sb (demo_boot (append_writes (take 2 ws) (vdev s))) = Ok r' \<and> content (vdev r') 100 = replicate BSIZE 7)"
proof -
  obtain s where S: "demo_tx = Ok s" "log_inv s 0 Map.empty" "lh_n (klog s) = 1" "outstanding (klog s) = 1" "\<not> committing (klog s)"
      "log_start (klog s) = 2" "log_area (klog s) = log_area demo_log" "view s 100 = replicate BSIZE 7" "vdev s = vdev demo_bio"
      "log_size (klog s) = 30"
    using demo_tx_state by blast
  have n: "lh_n (klog s) < int NBUF" by (simp add: S(3) layout_defs)
  obtain s' ws where E: "end_op ideal_disk s = Ok s'" "vdev s' = append_writes ws (vdev s)"
      "\<forall>b. b \<notin> log_area (klog s) \<longrightarrow> content (vdev s') (ucast b) = view s b"
      "\<forall>k (r :: lsys) q sb. booted r q \<and> vdev r = append_writes (take k ws) (vdev s) \<and> sb_logstart sb = log_start (klog s) \<and> sb_nlog sb = log_size (klog s) \<longrightarrow>
        (\<exists>r'. initlog ideal_disk ROOTDEV sb r = Ok r' \<and> log_inv r' q Map.empty \<and> lh_n (klog r') = 0 \<and>
          (\<forall>b. b \<notin> log_area (klog s) \<longrightarrow>
            content (vdev r') (ucast b) = (if nat (lh_n (klog s)) < k then view s b else content (vdev s) (ucast b))))"
    using end_op_crash_atomic [OF ideal_disk S(2) n S(4,5)] by (elim exE conjE) (rule that)
  have "vdev s' = append_writes (commit_writes (klog s) (view s)) (vdev s)"
    using end_op_spec [OF ideal_disk S(2) _ S(4,5)] E(1) S(3) by (auto simp: layout_defs)
  then have "writes (append_writes ws (vdev s)) = writes (append_writes (commit_writes (klog s) (view s)) (vdev s))" using E(2) by simp
  then have ws: "ws = commit_writes (klog s) (view s)" by simp
  have boot: "\<exists>r'. initlog ideal_disk ROOTDEV demo_sb (demo_boot (append_writes (take k ws) (vdev s))) = Ok r' \<and>
      content (vdev r') 100 = (if 1 < k then replicate BSIZE 7 else replicate BSIZE 0)" for k
    using E(4) [rule_format, of "demo_boot (append_writes (take k ws) (vdev s))" 0 k demo_sb] demo_reboot [OF S(2,9), of k] demo_log_area
    by (auto simp: demo_boot_bres ws S demo_sb_def demo_zero dest!: spec [of _ 100])
  show ?thesis
    using S(1) E(1,2) E(3) [rule_format, of 100] boot [of 1] boot [of 2] demo_log_area by (auto simp: S)
qed


text \<open>
  C2: Recovery is idempotent. On a machine that has just started, with a log on disk whose header
  is well formed, \<^verbatim>\<open>recover_from_log\<close> returns, clears the header, and leaves every block outside
  the log with the content that the log prescribes (\<open>replay\<close>). If the machine stops again after
  any number of recovery's own writes, the log still prescribes the same content, so a later
  recovery ends in the same state.
\<close>

theorem recovery_idempotent:
  assumes D: "virtio_device D" and R: "bres s p {} Map.empty" and sz: "sized s"
    and wf: "log_wf (disk_log (klog s) (content (vdev s) (ucast (log_start (klog s)))))"
    and n: "sint (get32 (content (vdev s) (ucast (log_start (klog s)))) 0) < int NBUF"
  shows "\<exists>s' ws. recover_from_log D s = Ok s' \<and> vdev s' = append_writes ws (vdev s) \<and> lh_n (klog s') = 0 \<and> bres s' p {} Map.empty \<and>
    get32 (content (vdev s') (ucast (log_start (klog s)))) 0 = 0 \<and>
    (\<forall>b. b \<notin> log_area (klog s) \<longrightarrow>
      content (vdev s') (ucast b) = replay (log_start (klog s)) (content (vdev s)) (ucast b) \<and>
      (\<forall>k. replay (log_start (klog s)) (content (append_writes (take k ws) (vdev s))) (ucast b) =
         replay (log_start (klog s)) (content (vdev s)) (ucast b)))"
proof -
  define m l where "m = content (vdev s)" and "l = disk_log (klog s) (m (ucast (log_start (klog s))))"
  have wf': "log_wf l" using wf by (simp add: l_def m_def)
  have n': "nat (lh_n l) < NBUF" using n by (simp add: l_def m_def nat_less_iff layout_defs)
  have st: "log_start l = log_start (klog s)" "log_area l = log_area (klog s)" by (simp_all add: l_def log_area_def log_cap_def lblk_def)
  obtain s' where S: "recover_from_log D s = Ok s'" "klog s' = l\<lparr>lh_n := 0\<rparr>" "bres s' p {} Map.empty" "vdev s' = append_writes (recovery_writes l m) (vdev s)"
    using recover_spec [OF D R sz] wf' n' unfolding l_def m_def by blast
  have d: "length (m (ucast (log_start l))) = BSIZE"
    using sz bres_clean [OF R, of "log_start l"] by (metis m_def sized_def empty_iff ran_empty)
  have h: "get32 (m (ucast (log_start l))) 0 = word_of_int (lh_n l)" by (simp add: l_def)
  have bl: "get32 (m (ucast (log_start l))) (4 + 4 * t) = logged l ! t" if "t < nat (lh_n l)" for t
    using disk_log_logged [OF wf' [unfolded l_def]] that by (simp add: l_def)
  note P = recovery_prefix [where m = m, OF wf' h bl d]
  show ?thesis
    by (rule exI [of _ s'], rule exI [of _ "recovery_writes l m"])
      (use S P in \<open>simp add: content_append st m_def\<close>)
qed

text \<open>A disk with a committed transaction in its log: block 100, not installed yet.\<close>

definition demo_crashed :: vdev where
  "demo_crashed = \<lparr>image = (\<lambda>_. replicate BSIZE 0)(2 := put32 (put32 (replicate BSIZE 0) 0 1) 4 100, 3 := replicate BSIZE 7), writes = []\<rparr>"

lemma demo_crashed_header:
  "get32 (put32 (put32 (replicate BSIZE 0) 0 1) 4 100) 0 = 1" "get32 (put32 (put32 (replicate BSIZE 0) 0 1) 4 100) 4 = 100"
proof -
  have "get_bytes (put32 (put32 (replicate BSIZE 0) 0 1) 4 100) 0 4 = get_bytes (put32 (replicate BSIZE 0) 0 1) 0 4"
    by (simp add: get_bytes_def put32_def put_bytes_def BSIZE_def)
  then show "get32 (put32 (put32 (replicate BSIZE 0) 0 1) 4 100) 0 = 1"
    using get_put(2) [of 0 "replicate BSIZE 0" 1] by (simp add: get32_def BSIZE_def)
  show "get32 (put32 (put32 (replicate BSIZE 0) 0 1) 4 100) 4 = 100"
    using get_put(2) [of 4 "put32 (replicate BSIZE 0) 0 1" 100] by (simp add: BSIZE_def)
qed

theorem recovery_idempotent_witness:
  "\<exists>s'. recover_from_log ideal_disk (demo_boot demo_crashed) = Ok s' \<and> content (vdev s') 100 = replicate BSIZE 7 \<and>
     get32 (content (vdev s') 2) 0 = 0"
proof -
  define h where "h = put32 (put32 (replicate BSIZE 0) 0 1) 4 (100 :: uint32)"
  define m where "m = content demo_crashed"
  have m: "m 2 = h" "m 3 = replicate BSIZE 7" by (simp_all add: m_def demo_crashed_def content_def h_def)
  note K = demo_boot_bres(2,3) [of demo_crashed]
  have st: "log_start demo_log = 2" "(ucast (2 :: uint32) :: uint64) = 2" by (simp_all add: demo_log_def)
  have g: "get32 h 0 = 1" "get32 h 4 = 100" using demo_crashed_header by (simp_all add: h_def)
  have l: "logged (disk_log demo_log h) = [100]"
    using g by (simp add: logged_def disk_log_def Let_def layout_defs upt_rec)
  have area: "log_area (disk_log demo_log h) = log_area demo_log" by (simp add: log_area_def log_cap_def lblk_def)
  have wf: "log_wf (disk_log demo_log h)"
    unfolding log_wf_def l area using demo_log_area g by (simp add: disk_log_def Let_def demo_log_def layout_defs log_cap_def)
  have sz: "sized (demo_boot demo_crashed)"
    by (auto simp: sized_def demo_boot_view demo_crashed_def content_def put32_def put_bytes_def BSIZE_def)
  obtain s' where S: "recover_from_log ideal_disk (demo_boot demo_crashed) = Ok s'" "get32 (content (vdev s') 2) 0 = 0"
      "\<forall>b. b \<notin> log_area demo_log \<longrightarrow> content (vdev s') (ucast b) = replay 2 m (ucast b)"
    using recovery_idempotent [OF ideal_disk demo_boot_bres(1) sz] wf g by (auto simp: K st m_def [symmetric] m layout_defs)
  have "replay 2 m 100 = replicate BSIZE 7" by (simp add: replay_def m g numeral_eq_Suc [of num.One] Let_def)
  then show ?thesis using S(1,2) S(3) [rule_format, of 100] demo_log_area by auto
qed

text \<open>
  C31: \<^verbatim>\<open>log_write\<close> inside a transaction returns, pins the buffer's block and puts it into the
  transaction exactly once: a block that is already there is absorbed and takes no space. The
  invariant of the log, the cache's contents and the disk are kept.
\<close>

theorem log_write_absorbs:
  assumes "log_inv s p H" and "H b = Some n" and "n \<notin> log_area (klog s)" and "room (klog s)" and "1 \<le> outstanding (klog s)"
  shows "\<exists>s'. log_write b s = Ok s' \<and> log_inv s' p H \<and> set (logged (klog s')) = insert n (set (logged (klog s))) \<and>
    lh_n (klog s') = lh_n (klog s) + (if n \<in> set (logged (klog s)) then 0 else 1) \<and> outstanding (klog s') = outstanding (klog s) \<and>
    view s' = view s \<and> vdev s' = vdev s"
proof -
  obtain s' where S: "log_write b s = Ok s'" "log_inv s' p H" "set (logged (klog s')) = insert n (set (logged (klog s)))"
      "lh_n (klog s') = lh_n (klog s) + (if n \<in> set (logged (klog s)) then 0 else 1)" "log_frame (klog s) (klog s')" "view s' = view s" "vdev s' = vdev s"
    using log_write_spec [OF assms] by blast
  then show ?thesis using log_frameD(4) [OF S(5)] by blast
qed

theorem log_write_absorbs_witness:
  "\<exists>b s1 s2. bread ideal_disk ROOTDEV 100 (demo_boot (vdev demo_bio)) = Ok (b, s1) \<and> log_write b s1 = Ok s2 \<and> lh_n (klog s2) = 1 \<and>
     set (logged (klog s2)) = {100}"
proof -
  define s0 where "s0 = demo_boot (vdev demo_bio)"
  have k: "klog s0 = demo_log" by (simp add: s0_def demo_boot_bres)
  have c: "can_read s0 Map.empty 100" by (simp add: can_read_def k demo_log_def layout_defs logged_def)
  obtain b s1 where B: "bread ideal_disk ROOTDEV 100 s0 = Ok (b, s1)" "log_inv s1 0 [b \<mapsto> 100]" "klog s1 = demo_log"
    using log_inv_bread [OF ideal_disk demo_log_inv [folded s0_def] c] k by auto
  have L: "logged demo_log = []" "lh_n demo_log = 0" by (simp_all add: demo_log_def logged_def)
  have r: "room demo_log" "1 \<le> outstanding demo_log" by (simp_all add: room_def demo_log_def layout_defs)
  show ?thesis
    using log_write_absorbs [OF B(2), of b 100] B(1,3) demo_log_area L r by (auto simp: s0_def)
qed

section \<open>Log space\<close>

lemma begin_op_eq:
  assumes inv: "log_inv s p H"
  shows "if committing (klog s) \<or> lh_n (klog s) + (outstanding (klog s) + 1) * int MAXOPBLOCKS > int LOGSIZE then (\<nexists>s'. begin_op s = Ok s')
    else begin_op s = Ok (upd_log (\<lambda>l. l\<lparr>outstanding := outstanding l + 1\<rparr>) (s\<lparr>mycpu := crit (mycpu s)\<rparr>))"
proof -
  note I = log_invD [OF inv]
  define s1 where "s1 = s\<lparr>mycpu := push_off (mycpu s), klog := (klog s)\<lparr>log_lock := held_by (cpu_id (mycpu s))\<rparr>\<rparr>"
  have acq: "log_acquire s = Ok s1" using I(2) by (simp add: log_acquire_free s1_def upd_log_def)
  have rel: "log_release (s1\<lparr>klog := (klog s1)\<lparr>outstanding := x\<rparr>\<rparr>) = Ok (s\<lparr>mycpu := crit (mycpu s), klog := (klog s)\<lparr>outstanding := x\<rparr>\<rparr>)" for x
    using I(2,8) by (cases "klog s") (simp add: log_release_held [where c = "mycpu s"] s1_def upd_log_def)
  have f: "committing (klog s1) = committing (klog s)" "lh_n (klog s1) = lh_n (klog s)" "outstanding (klog s1) = outstanding (klog s)"
    by (simp_all add: s1_def)
  show ?thesis
    using rel by (auto simp: begin_op_def begin_op_try_def acq begin_op_turn_def Let_def f upd_log_def split: res.splits prod.splits)
qed

text \<open>
  C33: The reservation and the limit of \<^verbatim>\<open>log_write\<close> disagree. On a disk with the log size that
  \<^verbatim>\<open>mkfs\<close> writes (\<^verbatim>\<open>LOGSIZE\<close> blocks), \<^verbatim>\<open>begin_op\<close> admits three operations, whose reservations
  fill the log exactly; but in any state of that log with \<^verbatim>\<open>LOGSIZE - 1\<close> blocks, which the three
  may reach, \<^verbatim>\<open>log_write\<close> panics, because it compares with \<^verbatim>\<open>log.size - 1\<close>.
\<close>

theorem log_reservation_exceeds_limit:
  assumes "log_inv s p H" and "log_size (klog s) = word_of_nat LOGSIZE" and "lh_n (klog s) = 0" and "outstanding (klog s) = 2" and "\<not> committing (klog s)"
  shows "\<exists>s'. begin_op s = Ok s' \<and> outstanding (klog s') * int MAXOPBLOCKS = int LOGSIZE \<and>
    (\<forall>t :: 'a lsys_scheme. \<forall>b. log_size (klog t) = log_size (klog s') \<longrightarrow> log_lock (klog t) = initlock \<longrightarrow> lh_n (klog t) = int LOGSIZE - 1 \<longrightarrow>
      log_write b t = Panic ''too big a transaction'')"
proof -
  have "begin_op s = Ok (upd_log (\<lambda>l. l\<lparr>outstanding := outstanding l + 1\<rparr>) (s\<lparr>mycpu := crit (mycpu s)\<rparr>))"
    using begin_op_eq [OF assms(1)] assms(3-5) by (simp add: layout_defs split: if_splits)
  moreover have "log_write b t = Panic ''too big a transaction''"
    if "log_size (klog t) = word_of_nat LOGSIZE" "log_lock (klog t) = initlock" "lh_n (klog t) = int LOGSIZE - 1" for t :: "'a lsys_scheme" and b
    by (rule log_write_full [OF that(2)]) (simp add: room_def that layout_defs)
  ultimately show ?thesis using assms(2,4) by (simp add: layout_defs)
qed

lemma demo_log_inv2: "log_inv (upd_log (outstanding_update (\<lambda>_. 2)) (demo_boot (vdev demo_bio))) 0 Map.empty"
  by (rule log_inv_frame [OF demo_log_inv]) (use log_invD [OF demo_log_inv] in \<open>simp_all add: woke_def, simp_all add: upd_log_def\<close>)

theorem log_reservation_exceeds_limit_witness:
  "\<exists>s'. begin_op (upd_log (outstanding_update (\<lambda>_. 2)) (demo_boot (vdev demo_bio))) = Ok s' \<and> outstanding (klog s') = 3"
proof -
  have "log_size demo_log = word_of_nat LOGSIZE" "lh_n demo_log = 0" "\<not> committing demo_log" by (simp_all add: demo_log_def layout_defs)
  then show ?thesis using log_reservation_exceeds_limit [OF demo_log_inv2] by (auto simp: demo_boot_bres layout_defs)
qed

end
