(* ===== verification/Sleep_Spec.thy ===== *)
theory Sleep_Spec
  imports Virtio_Spec
begin

text \<open>
  Going to sleep with a spinlock held, for any lock of the state: the process ends at the switch
  with its own lock held, asleep on the channel, and the spinlock is free. A hart that holds
  exactly one spinlock is in the state \<open>push_off c\<close>, where \<open>c\<close> is its state outside.
\<close>

lemma push_off_facts:
  assumes "cpu_ok c"
  shows "crit (push_off c) = push_off c" "cpu_ok (push_off c)"
  using assms by (auto simp: crit_push_off cpu_ok_push_off cpu_ok_def)

lemma sleep_enter_eq:
  assumes c: "cpu_ok c" "noff c = 0" "cpu_proc c = Some p" and s: "mycpu s = push_off c" "plock (ptable s p) = initlock"
    and rel: "release_lk (s\<lparr>mycpu := push_off (push_off c), ptable := (ptable s)(p := (ptable s p)\<lparr>plock := held_by (cpu_id c)\<rparr>)\<rparr>) = Ok s1"
    and s1: "mycpu s1 = push_off c" "ptable s1 = (ptable s)(p := (ptable s p)\<lparr>plock := held_by (cpu_id c)\<rparr>)"
  shows "sleep_enter ch release_lk s = Ok (intr_get c, s1\<lparr>ptable := (ptable s)(p := (ptable s p)\<lparr>plock := held_by (cpu_id c), chan := ch, state := SLEEPING\<rparr>)\<rparr>)"
proof -
  note C = push_off_facts [OF c(1)]
  have "plock_acquire p (s\<lparr>mycpu := crit (mycpu s)\<rparr>) =
      Ok (s\<lparr>mycpu := push_off (push_off c), ptable := (ptable s)(p := (ptable s p)\<lparr>plock := held_by (cpu_id c)\<rparr>)\<rparr>)"
    using s C by (simp add: plock_acquire_free)
  then show ?thesis
    using c C s(1) rel s1
    by (simp add: sleep_enter_def current_eq [of _ p] sched_def sched_enter_def holding_def held_by_def intena_push_off upd_proc_def)
qed

end
