(* ===== verification/Log_Space.thy ===== *)
theory Log_Space
  imports Log_Trans Sleep_Spec
begin

text \<open>
  The space of the log. \<^verbatim>\<open>begin_op\<close> admits an operation only if \<^verbatim>\<open>MAXOPBLOCKS\<close> blocks are left
  for it and for every other running operation. The step relation \<open>op_step\<close> is any interleaving
  of operations that begin (\<^verbatim>\<open>begin_op\<close>, at once or after a sleep), add blocks to the transaction
  (\<^verbatim>\<open>log_write\<close>) and end (\<^verbatim>\<open>end_op\<close>), with anything in between that leaves the log's counters
  alone; \<open>op_inv\<close> is the invariant of the reservations.
\<close>

section \<open>What the operations do to the counters of the log\<close>

definition counts :: "log \<Rightarrow> int \<times> int \<times> bool" where
  "counts l = (lh_n l, outstanding l, committing l)"

lemma counts_lock [simp]: "counts (l\<lparr>log_lock := k\<rparr>) = counts l"
  by (simp add: counts_def)

lemma log_acquire_counts: "log_acquire s = Ok s' \<Longrightarrow> counts (klog s') = counts (klog s)"
  by (auto simp: log_acquire_def upd_log_def)

lemma log_release_counts: "log_release s = Ok s' \<Longrightarrow> counts (klog s') = counts (klog s)"
  by (auto simp: log_release_def upd_log_def)

lemma plock_klog:
  fixes s :: "'a lsys_scheme"
  shows "plock_acquire p s = Ok s' \<Longrightarrow> klog s' = klog s" "plock_release p s = Ok s' \<Longrightarrow> klog s' = klog s"
  by (auto simp: plock_acquire_def plock_release_def upd_proc_def)

lemma wakeup_klog:
  fixes s :: "'a lsys_scheme"
  assumes "wakeup_loop ch p s = Ok s'"
  shows "klog s' = klog s"
  using assms
proof (induction "NPROC - p" arbitrary: p s)
  case 0
  then show ?case by (simp add: wakeup_loop.simps [of ch p])
next
  case (Suc n)
  then have p: "p < NPROC" "n = NPROC - Suc p" by simp_all
  then show ?case
    using Suc.prems Suc.hyps(1) [OF p(2)] plock_klog
    by (subst (asm) wakeup_loop.simps) (fastforce simp: myproc_def Let_def upd_proc_def split: if_splits)
qed

lemma begin_op_turn_admits:
  assumes "begin_op_turn s = Ok (Ret u, b, s')"
  shows "\<not> committing (klog s)" "lh_n (klog s) + (outstanding (klog s) + 1) * int MAXOPBLOCKS \<le> int LOGSIZE"
    "counts (klog s') = (lh_n (klog s), outstanding (klog s) + 1, committing (klog s))"
proof -
  show g: "\<not> committing (klog s)" "lh_n (klog s) + (outstanding (klog s) + 1) * int MAXOPBLOCKS \<le> int LOGSIZE"
    using assms by (auto simp: begin_op_turn_def split: if_splits)
  then have "log_release (upd_log (\<lambda>l. l\<lparr>outstanding := outstanding l + 1\<rparr>) s) = Ok s'"
    using assms by (auto simp: begin_op_turn_def Let_def split: if_splits)
  from log_release_counts [OF this] show "counts (klog s') = (lh_n (klog s), outstanding (klog s) + 1, committing (klog s))"
    by (simp add: counts_def upd_log_def)
qed

text \<open>An operation is admitted at its first check, or at the one after a sleep.\<close>

definition admits :: "'a lsys_scheme \<Rightarrow> 'a lsys_scheme \<Rightarrow> bool" where
  "admits s s' \<longleftrightarrow> (\<exists>u b. begin_op_try s = Ok (Ret u, b, s')) \<or> (\<exists>p i u b. begin_op_resume p i s = Ok (Ret u, b, s'))"

lemma begin_op_admitted:
  assumes "begin_op s = Ok s'"
  shows "admits s s'"
proof -
  obtain r b s1 where t: "begin_op_try s = Ok (r, b, s1)" "(case r of Ret _ \<Rightarrow> Ok s1 | Block _ \<Rightarrow> Hang) = Ok s'"
    using assms by (auto simp: begin_op_def)
  then show ?thesis by (cases r) (auto simp: admits_def)
qed

lemma admits_counts:
  assumes "admits s s'"
  shows "lh_n (klog s) + (outstanding (klog s) + 1) * int MAXOPBLOCKS \<le> int LOGSIZE"
    "counts (klog s') = (lh_n (klog s), outstanding (klog s) + 1, committing (klog s))"
proof -
  obtain s1 u b where t: "begin_op_turn s1 = Ok (Ret u, b, s')" "counts (klog s1) = counts (klog s)"
    using assms unfolding admits_def
  proof (elim disjE exE)
    fix u b assume "begin_op_try s = Ok (Ret u, b, s')"
    then show thesis using that log_acquire_counts by (auto simp: begin_op_try_def)
  next
    fix p i u b assume "begin_op_resume p i s = Ok (Ret u, b, s')"
    then obtain s2 s1 where "plock_release p (upd_proc p (chan_update (\<lambda>_. None)) (sched_leave i s)) = Ok s2" "log_acquire s2 = Ok s1"
        "begin_op_turn s1 = Ok (Ret u, b, s')"
      by (auto simp: begin_op_resume_def sleep_leave_def)
    then show thesis using that [of s1 u b] log_acquire_counts [of s2 s1] plock_klog(2) [of p _ s2]
      by (simp add: upd_proc_def sched_leave_def)
  qed
  show "lh_n (klog s) + (outstanding (klog s) + 1) * int MAXOPBLOCKS \<le> int LOGSIZE"
    "counts (klog s') = (lh_n (klog s), outstanding (klog s) + 1, committing (klog s))"
    using begin_op_turn_admits [OF t(1)] t(2) by (simp_all add: counts_def)
qed

lemma log_write_counts:
  assumes "log_write b s = Ok s'"
  shows "counts (klog s') = (lh_n (klog s), outstanding (klog s), committing (klog s)) \<or>
    counts (klog s') = (lh_n (klog s) + 1, outstanding (klog s), committing (klog s))"
proof -
  obtain s1 s2 s3 where a: "log_acquire s = Ok s1" and b: "s2 = s1 \<or> (\<exists>i n. s2 = upd_log (\<lambda>l. l\<lparr>lh_block := (lh_block l)[i := n]\<rparr>) s1)"
    and c: "s3 = s2 \<or> (\<exists>s4. bpin b s2 = Ok s4 \<and> s3 = upd_log (\<lambda>l. l\<lparr>lh_n := lh_n l + 1\<rparr>) s4)" and d: "log_release s3 = Ok s'"
    using assms by (auto simp: log_write_def Let_def split: if_splits) blast+
  have "counts (klog s2) = counts (klog s1)" using b by (auto simp: counts_def upd_log_def)
  moreover have "klog s4 = klog s2" if "bpin b s2 = Ok s4" for s4
    using that by (auto simp: bpin_def bcache_acquire_def bcache_release_def upd_buf_def)
  ultimately show ?thesis using c log_acquire_counts [OF a] log_release_counts [OF d]
    by (auto simp: counts_def upd_log_def)
qed

lemma end_op_counts:
  assumes "end_op D s = Ok s'" and "outstanding (klog s) \<noteq> 1"
  shows "counts (klog s') = (lh_n (klog s), outstanding (klog s) - 1, committing (klog s))"
proof -
  obtain s1 s2 where a: "log_acquire s = Ok s1" and w: "wakeup (Some log_chan) (upd_log (\<lambda>l. l\<lparr>outstanding := outstanding l - 1\<rparr>) s1) = Ok s2"
    and r: "log_release s2 = Ok s'"
    using assms log_acquire_counts [of s] by (auto simp: end_op_def Let_def counts_def upd_log_def split: if_splits)
  have "klog s2 = (klog s1)\<lparr>outstanding := outstanding (klog s1) - 1\<rparr>"
    using wakeup_klog [OF w [unfolded wakeup_def]] by (simp add: upd_log_def)
  then show ?thesis using log_acquire_counts [OF a] log_release_counts [OF r] by (simp add: counts_def)
qed

section \<open>Operations in any order\<close>

text \<open>
  \<open>B q\<close> is the number of blocks that the running operation \<open>q\<close> may still add to the transaction:
  each starts with \<^verbatim>\<open>MAXOPBLOCKS\<close> and keeps to it. The last operation to end commits
  (\<open>op_commit\<close>), in a state in which the cache and the log satisfy their invariant and a buffer is
  left to commit with.
\<close>

inductive op_step :: "(nat \<rightharpoonup> nat) \<times> 'a lsys_scheme \<Rightarrow> (nat \<rightharpoonup> nat) \<times> 'a lsys_scheme \<Rightarrow> bool" where
  op_begin: "q \<notin> dom B \<Longrightarrow> admits s s' \<Longrightarrow> op_step (B, s) (B(q \<mapsto> MAXOPBLOCKS), s')"
| op_write: "B q = Some k \<Longrightarrow> log_write b s = Ok s' \<Longrightarrow> lh_n (klog s') \<le> lh_n (klog s) + int k \<Longrightarrow>
    op_step (B, s) (B(q \<mapsto> k - nat (lh_n (klog s') - lh_n (klog s))), s')"
| op_end: "B q = Some k \<Longrightarrow> outstanding (klog s) \<noteq> 1 \<Longrightarrow> end_op D s = Ok s' \<Longrightarrow> op_step (B, s) (B(q := None), s')"
| op_commit: "B q = Some k \<Longrightarrow> outstanding (klog s) = 1 \<Longrightarrow> virtio_device D \<Longrightarrow> log_inv s p Map.empty \<Longrightarrow> nat (lh_n (klog s)) < NBUF \<Longrightarrow>
    end_op D s = Ok s' \<Longrightarrow> op_step (B, s) (B(q := None), s')"
| op_other: "counts (klog s') = counts (klog s) \<Longrightarrow> op_step (B, s) (B, s')"

definition op_init :: "(nat \<rightharpoonup> nat) \<times> 'a lsys_scheme \<Rightarrow> bool" where
  "op_init = (\<lambda>(B, s). B = Map.empty \<and> counts (klog s) = (0, 0, False))"

definition reserved :: "(nat \<rightharpoonup> nat) \<Rightarrow> nat" where
  "reserved B = (\<Sum>q \<in> dom B. the (B q))"

definition op_inv :: "(nat \<rightharpoonup> nat) \<times> 'a lsys_scheme \<Rightarrow> bool" where
  "op_inv = (\<lambda>(B, s). finite (dom B) \<and> (\<forall>k \<in> ran B. k \<le> MAXOPBLOCKS) \<and> outstanding (klog s) = int (card (dom B)) \<and> \<not> committing (klog s) \<and>
     0 \<le> lh_n (klog s) \<and> lh_n (klog s) + int (reserved B) \<le> int LOGSIZE \<and> int (card (dom B)) * int MAXOPBLOCKS \<le> int LOGSIZE)"

lemma op_invD:
  assumes "op_inv (B, s)"
  shows "finite (dom B)" "\<forall>k \<in> ran B. k \<le> MAXOPBLOCKS" "outstanding (klog s) = int (card (dom B))" "\<not> committing (klog s)"
    "0 \<le> lh_n (klog s)" "lh_n (klog s) + int (reserved B) \<le> int LOGSIZE" "int (card (dom B)) * int MAXOPBLOCKS \<le> int LOGSIZE"
  using assms by (simp_all add: op_inv_def)

lemma reserved_new: "finite (dom B) \<Longrightarrow> q \<notin> dom B \<Longrightarrow> reserved (B(q \<mapsto> k)) = k + reserved B"
  by (auto simp: reserved_def intro!: sum.cong)

lemma reserved_split: "finite (dom B) \<Longrightarrow> B q = Some k \<Longrightarrow> reserved B = k + reserved (B(q := None))"
  using reserved_new [of "B(q := None)" q k] by (simp add: fun_upd_idem)

lemma reserved_upd: "finite (dom B) \<Longrightarrow> B q = Some k \<Longrightarrow> reserved (B(q \<mapsto> k')) + k = reserved B + k'"
  using reserved_new [of "B(q := None)" q k'] reserved_split [of B q k] by simp

lemma reserved_le: "finite (dom B) \<Longrightarrow> \<forall>k \<in> ran B. k \<le> MAXOPBLOCKS \<Longrightarrow> reserved B \<le> card (dom B) * MAXOPBLOCKS"
  unfolding reserved_def using sum_bounded_above [of "dom B" "\<lambda>q. the (B q)" MAXOPBLOCKS] by (force simp: ran_def)

lemma ran_upd: "\<forall>k \<in> ran B. k \<le> n \<Longrightarrow> j \<le> n \<Longrightarrow> \<forall>k \<in> ran (B(q \<mapsto> j)). k \<le> n" "\<forall>k \<in> ran B. k \<le> n \<Longrightarrow> \<forall>k \<in> ran (B(q := None)). k \<le> n"
  by (auto simp: ran_def)

lemma op_step_inv:
  assumes "op_inv x" and "op_step x y"
  shows "op_inv y"
  using assms(2,1)
proof (cases rule: op_step.cases)
  case (op_begin q B s s')
  note I = op_invD [OF assms(1) [unfolded op_begin(1)]]
  note A = admits_counts [OF op_begin(4)]
  have "reserved B \<le> card (dom B) * MAXOPBLOCKS" by (rule reserved_le [OF I(1,2)])
  then have "int (reserved B) \<le> outstanding (klog s) * int MAXOPBLOCKS" by (metis I(3) of_nat_le_iff of_nat_mult)
  then have "lh_n (klog s) + int (MAXOPBLOCKS + reserved B) \<le> int LOGSIZE" "(1 + int (card (dom B))) * int MAXOPBLOCKS \<le> int LOGSIZE"
    using A(1) I(3,5) by (simp_all add: distrib_right)
  then show ?thesis using A(2) I op_begin(3) ran_upd(1) [OF I(2) order_refl]
    by (simp add: op_inv_def op_begin counts_def reserved_new [OF I(1)])
next
  case (op_write B q k b s s')
  note I = op_invD [OF assms(1) [unfolded op_write(1)]]
  define k' where "k' = k - nat (lh_n (klog s') - lh_n (klog s))"
  have k: "k \<le> MAXOPBLOCKS" using I(2) op_write(3) by (auto simp: ran_def)
  have d: "insert q (dom B) = dom B" using op_write(3) by auto
  have "counts (klog s') = (lh_n (klog s'), outstanding (klog s), committing (klog s))" "lh_n (klog s) \<le> lh_n (klog s')"
    using log_write_counts [OF op_write(4)] by (auto simp: counts_def)
  moreover from this(2) have "int k' = int k - (lh_n (klog s') - lh_n (klog s))" "k' \<le> k" using op_write(5) by (simp_all add: k'_def)
  ultimately show ?thesis
    using I k ran_upd(1) [OF I(2), of k' q] reserved_upd [OF I(1) op_write(3), of k'] op_write(1,2)
    by (simp add: op_inv_def counts_def d flip: k'_def)
next
  case (op_end B q k s D s')
  note I = op_invD [OF assms(1) [unfolded op_end(1)]]
  have "q \<in> dom B" using op_end(3) by auto
  then have "int (card (dom B - {q})) = int (card (dom B)) - 1" using I(1) card_gt_0_iff [of "dom B"] by (auto simp: card_Diff_singleton of_nat_diff Suc_le_eq)
  then show ?thesis
    using I ran_upd(2) [OF I(2), of q] reserved_split [OF I(1) op_end(3)] end_op_counts [OF op_end(5,4)]
    by (simp add: op_inv_def op_end counts_def left_diff_distrib)
next
  case (op_commit B q k s D p s')
  note I = op_invD [OF assms(1) [unfolded op_commit(1)]]
  have q: "q \<in> dom B" using op_commit(3) by auto
  have "card (dom B) = 1" using I(3) op_commit(4) by simp
  then have "dom B = {q}" using q card_1_singletonE [of "dom B"] by (metis singletonD)
  then have d: "B(q := None) = Map.empty" by (auto simp: fun_eq_iff)
  have "counts (klog s') = (0, 0, False)"
    using end_op_spec [OF op_commit(5-7,4) I(4)] op_commit(8) I(4) by (auto simp: counts_def)
  then show ?thesis unfolding op_inv_def op_commit(2) d by (simp add: reserved_def counts_def)
next
  case (op_other s' s B)
  then show ?thesis using assms(1) by (simp add: op_inv_def counts_def)
qed

interpretation log_ops: step_invariant op_init op_step op_inv
proof
  show "op_inv x" if "op_init x" for x :: "(nat \<rightharpoonup> nat) \<times> 'a lsys_scheme"
    using that by (auto simp: op_init_def op_inv_def counts_def reserved_def)
  show "op_inv y" if "op_inv x" "op_step x y" for x y :: "(nat \<rightharpoonup> nat) \<times> 'a lsys_scheme"
    using that by (rule op_step_inv)
qed

section \<open>Admission\<close>

lemma begin_op_waits:
  assumes inv: "log_inv s p H" and g: "committing (klog s) \<or> lh_n (klog s) + (outstanding (klog s) + 1) * int MAXOPBLOCKS > int LOGSIZE"
  shows "begin_op_try s = Ok (Block log_chan, intr_get (mycpu s), s\<lparr>mycpu := push_off (mycpu s),
    ptable := (ptable s)(p := (ptable s p)\<lparr>plock := held_by (cpu_id (mycpu s)), chan := Some log_chan, state := SLEEPING\<rparr>)\<rparr>)"
proof -
  note I = log_invD [OF inv]
  define c where "c = mycpu s"
  have R: "cpu_ok c" "noff c = 0" "cpu_proc c = Some p" "plock (ptable s p) = initlock" using I(6) by (auto simp: running_def c_def)
  define s1 where "s1 = s\<lparr>mycpu := push_off c, klog := (klog s)\<lparr>log_lock := held_by (cpu_id c)\<rparr>\<rparr>"
  have acq: "log_acquire s = Ok s1" using I(2) by (simp add: log_acquire_free s1_def c_def upd_log_def)
  have rel: "release (held_by (cpu_id c)) (push_off (push_off c)) = Ok (initlock, push_off c)"
    using release_push_off [of "push_off c"] push_off_facts [OF R(1)] by simp
  have "log_release (s1\<lparr>mycpu := push_off (push_off c), ptable := (ptable s1)(p := (ptable s1 p)\<lparr>plock := held_by (cpu_id c)\<rparr>)\<rparr>) =
      Ok (s\<lparr>mycpu := push_off c, ptable := (ptable s)(p := (ptable s p)\<lparr>plock := held_by (cpu_id c)\<rparr>)\<rparr>)"
    using rel I(2) by (cases "klog s") (simp add: log_release_def s1_def upd_log_def)
  from sleep_enter_eq [where release_lk = log_release and ch = "Some log_chan", OF R(1-3) _ _ this]
  have "sleep_enter (Some log_chan) log_release s1 = Ok (intr_get c, s\<lparr>mycpu := push_off c,
      ptable := (ptable s)(p := (ptable s p)\<lparr>plock := held_by (cpu_id c), chan := Some log_chan, state := SLEEPING\<rparr>)\<rparr>)"
    using R(4) by (simp add: s1_def)
  then show ?thesis using g by (auto simp: begin_op_try_def acq begin_op_turn_def s1_def c_def)
qed

lemma begin_op_admits:
  assumes inv: "log_inv s p H" and g: "\<not> committing (klog s)" "lh_n (klog s) + (outstanding (klog s) + 1) * int MAXOPBLOCKS \<le> int LOGSIZE"
  shows "\<exists>s'. begin_op s = Ok s' \<and> admits s s' \<and> log_inv s' p H \<and> klog s' = (klog s)\<lparr>outstanding := outstanding (klog s) + 1\<rparr>"
proof -
  note I = log_invD [OF inv]
  define s' where "s' = upd_log (\<lambda>l. l\<lparr>outstanding := outstanding l + 1\<rparr>) (s\<lparr>mycpu := crit (mycpu s)\<rparr>)"
  have b: "begin_op s = Ok s'" using begin_op_eq [OF inv] g by (simp add: s'_def)
  then have "admits s s'" by (rule begin_op_admitted)
  moreover have "log_inv s' p H" by (rule log_inv_frame [OF inv]) (use I in \<open>simp_all add: s'_def woke_def, simp_all add: upd_log_def\<close>)
  ultimately show ?thesis using b by (intro exI [of _ s']) (simp add: s'_def)
qed

text \<open>
  C32: \<^verbatim>\<open>begin_op\<close> reserves log space. When no commit is running and the blocks logged so far plus
  \<^verbatim>\<open>MAXOPBLOCKS\<close> for every running operation and the new one are at most \<^verbatim>\<open>LOGSIZE\<close>, it returns
  with the operation counted and the log's invariant kept; otherwise the caller ends up asleep
  on the log with the log unchanged. So in every state that any interleaving of operations
  reaches, where none adds more than \<^verbatim>\<open>MAXOPBLOCKS\<close> blocks of its own, the counter is the number
  of running operations, at most three, the blocks logged and those still reserved fit into
  \<^verbatim>\<open>LOGSIZE\<close>, and a \<^verbatim>\<open>log_write\<close> within its operation's reservation succeeds while fewer
  than \<^verbatim>\<open>log.size\<close> - 1 blocks are logged: the limit \<^verbatim>\<open>LOGSIZE\<close> is never what it fails on.
\<close>

theorem begin_op_reserves:
  assumes "log_inv s p H"
  shows "(if \<not> committing (klog s) \<and> lh_n (klog s) + (outstanding (klog s) + 1) * int MAXOPBLOCKS \<le> int LOGSIZE
      then \<exists>s'. begin_op s = Ok s' \<and> log_inv s' p H \<and> klog s' = (klog s)\<lparr>outstanding := outstanding (klog s) + 1\<rparr>
      else \<exists>b s'. begin_op_try s = Ok (Block log_chan, b, s') \<and> klog s' = klog s \<and>
        state (ptable s' p) = SLEEPING \<and> chan (ptable s' p) = Some log_chan) \<and>
    (\<forall>B. reach op_init op_step (B, s) \<longrightarrow>
      outstanding (klog s) = int (card (dom B)) \<and> card (dom B) \<le> 3 \<and> lh_n (klog s) + int (reserved B) \<le> int LOGSIZE \<and>
      (\<forall>q k b n. B q = Some (Suc k) \<and> H b = Some n \<and> n \<notin> log_area (klog s) \<and> lh_n (klog s) < sint (log_size (klog s)) - 1 \<longrightarrow>
        (\<exists>s'. log_write b s = Ok s' \<and> log_inv s' p H)))"
proof (intro conjI allI impI)
  show "if \<not> committing (klog s) \<and> lh_n (klog s) + (outstanding (klog s) + 1) * int MAXOPBLOCKS \<le> int LOGSIZE
      then \<exists>s'. begin_op s = Ok s' \<and> log_inv s' p H \<and> klog s' = (klog s)\<lparr>outstanding := outstanding (klog s) + 1\<rparr>
      else \<exists>b s'. begin_op_try s = Ok (Block log_chan, b, s') \<and> klog s' = klog s \<and>
        state (ptable s' p) = SLEEPING \<and> chan (ptable s' p) = Some log_chan"
    using begin_op_admits [OF assms] begin_op_waits [OF assms] by auto
next
  fix B assume "reach op_init op_step (B, s)"
  note I = op_invD [OF log_ops.inv_reach [OF this]]
  show "outstanding (klog s) = int (card (dom B))" "lh_n (klog s) + int (reserved B) \<le> int LOGSIZE" by (rule I(3), rule I(6))
  show "card (dom B) \<le> 3" using I(7) by (simp add: layout_defs)
  fix q k b n assume a: "B q = Some (Suc k) \<and> H b = Some n \<and> n \<notin> log_area (klog s) \<and> lh_n (klog s) < sint (log_size (klog s)) - 1"
  then have B: "B q = Some (Suc k)" by simp
  have "0 < card (dom B)" using I(1) B card_gt_0_iff by blast
  moreover have "room (klog s)" using a I(6) reserved_split [OF I(1) B] by (simp add: room_def)
  ultimately show "\<exists>s'. log_write b s = Ok s' \<and> log_inv s' p H"
    using log_write_spec [OF assms, of b n] a I(3) by auto
qed

theorem begin_op_reserves_witness:
  "\<exists>(s :: lsys) s1. op_init (Map.empty, s) \<and> begin_op s = Ok s1 \<and> reach op_init op_step ([0 \<mapsto> MAXOPBLOCKS], s1) \<and> outstanding (klog s1) = 1 \<and>
    (\<exists>s2. begin_op s1 = Ok s2) \<and> lh_n (klog s1) + int (reserved [0 \<mapsto> MAXOPBLOCKS]) \<le> int LOGSIZE"
proof -
  define s where "s = upd_log (outstanding_update (\<lambda>_. 0)) (demo_boot (vdev demo_bio))"
  have k: "klog s = demo_log\<lparr>outstanding := 0\<rparr>" by (simp add: s_def demo_boot_bres)
  have i: "log_inv s 0 Map.empty" unfolding s_def
    by (rule log_inv_frame [OF demo_log_inv]) (use log_invD [OF demo_log_inv] in \<open>simp_all add: woke_def, simp_all add: upd_log_def\<close>)
  have init: "op_init (Map.empty, s)" by (simp add: op_init_def counts_def k demo_log_def)
  have "\<not> committing (klog s) \<and> lh_n (klog s) + (outstanding (klog s) + 1) * int MAXOPBLOCKS \<le> int LOGSIZE"
    by (simp add: k demo_log_def layout_defs)
  then obtain s1 where s1: "begin_op s = Ok s1" "log_inv s1 0 Map.empty" "klog s1 = demo_log"
    using begin_op_reserves [OF i] by (auto simp: k demo_log_def)
  have "admits s s1" by (rule begin_op_admitted [OF s1(1)])
  then have "op_step (Map.empty, s) ([0 \<mapsto> MAXOPBLOCKS], s1)" by (intro op_begin) simp_all
  with reach_init [of op_init, OF init] have r: "reach op_init op_step ([0 \<mapsto> MAXOPBLOCKS], s1)" by (rule reach_step)
  have "\<not> committing (klog s1) \<and> lh_n (klog s1) + (outstanding (klog s1) + 1) * int MAXOPBLOCKS \<le> int LOGSIZE"
    by (simp add: s1(3) demo_log_def layout_defs)
  then have "\<exists>s2. begin_op s1 = Ok s2" using begin_op_reserves [OF s1(2)] by auto
  moreover have "outstanding (klog s1) = 1" by (simp add: s1(3) demo_log_def)
  moreover have "lh_n (klog s1) + int (reserved [0 \<mapsto> MAXOPBLOCKS]) \<le> int LOGSIZE" using begin_op_reserves [OF s1(2)] r by blast
  ultimately show ?thesis using init s1(1) r by blast
qed

end
