(* ===== verification/Fs.thy ===== *)
theory Fs
  imports Log
begin

text \<open>
  \<^verbatim>\<open>kernel/fs.c\<close>: blocks, inodes, directories and path names. The state adds the superblock and
  the inode table to the state of the log. A pointer to an inode is its index in the table, an
  optional one where the code tests for 0. A path is the list of the characters of a C string;
  a \<^verbatim>\<open>char name[DIRSIZ]\<close> buffer is a list of \<^verbatim>\<open>DIRSIZ\<close> bytes. The messages of \<^verbatim>\<open>printf\<close> are not
  part of the state.

  The destination and source of \<^verbatim>\<open>readi\<close> and \<^verbatim>\<open>writei\<close> are the buffers of \<^verbatim>\<open>either_copyout\<close> and
  \<^verbatim>\<open>either_copyin\<close>; \<open>readi\<close> also returns the bytes it copied, which are what a C variable of the
  caller holds afterwards.
\<close>

lemma unat_uint32_less: "unat (x :: uint32) < 4294967296"
  by (rule order_less_le_trans [OF unsigned_less]) simp

record inode =
  idev :: uint32
  inum :: uint32
  iref :: int
  ilk :: sleeplock
  ivalid :: bool
  itype :: ushort
  imajor :: ushort
  iminor :: ushort
  inlink :: ushort
  isize :: uint32
  iaddrs :: "uint32 list"

record fsys = lsys +
  sb :: superblock
  itable_lock :: spinlock
  itable :: "nat \<Rightarrow> inode"

record stat =
  st_dev :: uint32
  st_ino :: uint32
  st_type :: ushort
  st_nlink :: ushort
  st_size :: uint64

definition upd_inode :: "nat \<Rightarrow> (inode \<Rightarrow> inode) \<Rightarrow> 'a fsys_scheme \<Rightarrow> 'a fsys_scheme" where
  "upd_inode ip f s = s\<lparr>itable := (itable s)(ip := f (itable s ip))\<rparr>"

definition inodelock :: "nat \<Rightarrow> 'a fsys_scheme slref" where
  "inodelock ip = \<lparr>sl_get = (\<lambda>s. ilk (itable s ip)), sl_put = (\<lambda>l. upd_inode ip (ilk_update (\<lambda>_. l))),
     sl_chan = Chan ''inode.lock'' ip\<rparr>"

definition itable_acquire :: "'a fsys_scheme \<Rightarrow> 'a fsys_scheme res" where
  "itable_acquire s = rbind (acquire (itable_lock s) (mycpu s)) (\<lambda>(lk, c). Ok (s\<lparr>itable_lock := lk, mycpu := c\<rparr>))"

definition itable_release :: "'a fsys_scheme \<Rightarrow> 'a fsys_scheme res" where
  "itable_release s = rbind (release (itable_lock s) (mycpu s)) (\<lambda>(lk, c). Ok (s\<lparr>itable_lock := lk, mycpu := c\<rparr>))"

section \<open>Super block and blocks\<close>

definition readsb :: "('a fsys_scheme \<Rightarrow> 'a fsys_scheme) \<Rightarrow> uint32 \<Rightarrow> 'a fsys_scheme \<Rightarrow> (superblock \<times> 'a fsys_scheme) res" where
  "readsb D dev s =
     rbind (bread D dev 1 s) (\<lambda>(bp, s).
     let x = superblock_of (bdata (bufs s bp)) in
     rbind (brelse bp s) (\<lambda>s. Ok (x, s)))"

definition fsinit :: "('a fsys_scheme \<Rightarrow> 'a fsys_scheme) \<Rightarrow> uint32 \<Rightarrow> 'a fsys_scheme \<Rightarrow> 'a fsys_scheme res" where
  "fsinit D dev s =
     rbind (readsb D dev s) (\<lambda>(x, s).
     let s = s\<lparr>sb := x\<rparr> in
     if sb_magic (sb s) \<noteq> FSMAGIC then Panic ''invalid file system''
     else initlog D dev (sb s) s)"

definition bzero :: "('a fsys_scheme \<Rightarrow> 'a fsys_scheme) \<Rightarrow> uint32 \<Rightarrow> uint32 \<Rightarrow> 'a fsys_scheme \<Rightarrow> 'a fsys_scheme res" where
  "bzero D dev bno s =
     rbind (bread D dev bno s) (\<lambda>(bp, s).
     let s = upd_buf bp (bdata_update (\<lambda>_. replicate BSIZE 0)) s in
     rbind (log_write bp s) (brelse bp))"

definition bit_mask :: "nat \<Rightarrow> uchar" where
  "bit_mask bi = push_bit (bi mod 8) 1"

text \<open>The inner loop of \<^verbatim>\<open>balloc\<close> up to the first free bit.\<close>

function balloc_scan :: "uchar list \<Rightarrow> nat \<Rightarrow> nat \<Rightarrow> nat \<Rightarrow> nat option" where
  "balloc_scan d b sz bi =
     (if bi < BPB \<and> b + bi < sz then
        if d ! (bi div 8) AND bit_mask bi = 0 then Some bi else balloc_scan d b sz (Suc bi)
      else None)"
  by pat_completeness auto
termination
  by (relation "measure (\<lambda>(_, _, _, bi). BPB - bi)") auto

declare balloc_scan.simps [simp del]

text \<open>
  The outer loop. Its \<^verbatim>\<open>int\<close> variable is compared with \<^verbatim>\<open>sb.size\<close> as a \<^verbatim>\<open>uint\<close>; on a size so close
  to \<open>2 ^ 32\<close> that it wraps around, the scan starts again for ever.
\<close>

function balloc_loop :: "('a fsys_scheme \<Rightarrow> 'a fsys_scheme) \<Rightarrow> uint32 \<Rightarrow> nat \<Rightarrow> 'a fsys_scheme \<Rightarrow> (uint32 \<times> 'a fsys_scheme) res" where
  "balloc_loop D dev b s =
     (if b < unat (sb_size (sb s)) then
        rbind (bread D dev (BBLOCK (word_of_nat b) (sb s)) s) (\<lambda>(bp, s).
        case balloc_scan (bdata (bufs s bp)) b (unat (sb_size (sb s))) 0 of
          Some bi \<Rightarrow>
            let s = upd_buf bp (bdata_update (\<lambda>d. d[bi div 8 := d ! (bi div 8) OR bit_mask bi])) s in
            rbind (log_write bp s) (\<lambda>s.
            rbind (brelse bp s) (\<lambda>s.
            rbind (bzero D dev (word_of_nat (b + bi)) s) (\<lambda>s. Ok (word_of_nat (b + bi), s))))
        | None \<Rightarrow>
            rbind (brelse bp s) (\<lambda>s. if b + BPB < 2 ^ 32 then balloc_loop D dev (b + BPB) s else Hang))
      else Ok (0, s))"
  by pat_completeness auto
termination
  by (relation "measure (\<lambda>(_, _, b, _). 2 ^ 32 - b)") (auto simp: BPB_def BSIZE_def)

declare balloc_loop.simps [simp del]

definition balloc :: "('a fsys_scheme \<Rightarrow> 'a fsys_scheme) \<Rightarrow> uint32 \<Rightarrow> 'a fsys_scheme \<Rightarrow> (uint32 \<times> 'a fsys_scheme) res" where
  "balloc D dev s = balloc_loop D dev 0 s"

definition bfree :: "('a fsys_scheme \<Rightarrow> 'a fsys_scheme) \<Rightarrow> uint32 \<Rightarrow> uint32 \<Rightarrow> 'a fsys_scheme \<Rightarrow> 'a fsys_scheme res" where
  "bfree D dev b s =
     rbind (bread D dev (BBLOCK b (sb s)) s) (\<lambda>(bp, s).
     let bi = unat b mod BPB in
     if bdata (bufs s bp) ! (bi div 8) AND bit_mask bi = 0 then Panic ''freeing free block'' else
     let s = upd_buf bp (bdata_update (\<lambda>d. d[bi div 8 := d ! (bi div 8) AND NOT (bit_mask bi)])) s in
     rbind (log_write bp s) (brelse bp))"

section \<open>The inode table\<close>

definition iinit :: "'a fsys_scheme \<Rightarrow> 'a fsys_scheme" where
  "iinit s = s\<lparr>itable_lock := initlock,
     itable := (\<lambda>i. if i < NINODE then (itable s i)\<lparr>ilk := initsleeplock\<rparr> else itable s i)\<rparr>"

function iget_scan :: "uint32 \<Rightarrow> uint32 \<Rightarrow> nat \<Rightarrow> nat option \<Rightarrow> (nat \<Rightarrow> inode) \<Rightarrow> nat option \<times> nat option" where
  "iget_scan dev n ip e t =
     (if ip < NINODE then
        if iref (t ip) > 0 \<and> idev (t ip) = dev \<and> inum (t ip) = n then (Some ip, e)
        else iget_scan dev n (Suc ip) (if e = None \<and> iref (t ip) = 0 then Some ip else e) t
      else (None, e))"
  by pat_completeness auto
termination
  by (relation "measure (\<lambda>(_, _, ip, _, _). NINODE - ip)") auto

declare iget_scan.simps [simp del]

definition iget :: "uint32 \<Rightarrow> uint32 \<Rightarrow> 'a fsys_scheme \<Rightarrow> (nat \<times> 'a fsys_scheme) res" where
  "iget dev n s =
     rbind (itable_acquire s) (\<lambda>s.
     case iget_scan dev n 0 None (itable s) of
       (Some ip, _) \<Rightarrow>
         rbind (itable_release (upd_inode ip (\<lambda>i. i\<lparr>iref := iref i + 1\<rparr>) s)) (\<lambda>s. Ok (ip, s))
     | (None, None) \<Rightarrow> Panic ''iget: no inodes''
     | (None, Some ip) \<Rightarrow>
         rbind (itable_release (upd_inode ip (\<lambda>i. i\<lparr>idev := dev, inum := n, iref := 1, ivalid := False\<rparr>) s)) (\<lambda>s. Ok (ip, s)))"

definition idup :: "nat \<Rightarrow> 'a fsys_scheme \<Rightarrow> (nat \<times> 'a fsys_scheme) res" where
  "idup ip s =
     rbind (itable_acquire s) (\<lambda>s.
     rbind (itable_release (upd_inode ip (\<lambda>i. i\<lparr>iref := iref i + 1\<rparr>) s)) (\<lambda>s. Ok (ip, s)))"

function ialloc_loop :: "('a fsys_scheme \<Rightarrow> 'a fsys_scheme) \<Rightarrow> uint32 \<Rightarrow> ushort \<Rightarrow> nat \<Rightarrow> 'a fsys_scheme \<Rightarrow> (nat option \<times> 'a fsys_scheme) res" where
  "ialloc_loop D dev type n s =
     (if n < unat (sb_ninodes (sb s)) then
        rbind (bread D dev (IBLOCK (word_of_nat n) (sb s)) s) (\<lambda>(bp, s).
        if di_type (dinode_at (bdata (bufs s bp)) (n mod IPB)) = 0 then
          let s = upd_buf bp (bdata_update (\<lambda>d. put_bytes d (64 * (n mod IPB)) (replicate 64 0))) s;
              s = upd_buf bp (bdata_update (\<lambda>d. put16 d (64 * (n mod IPB)) type)) s
          in rbind (log_write bp s) (\<lambda>s.
             rbind (brelse bp s) (\<lambda>s.
             rbind (iget dev (word_of_nat n) s) (\<lambda>(ip, s). Ok (Some ip, s))))
        else rbind (brelse bp s) (\<lambda>s. ialloc_loop D dev type (Suc n) s))
      else Ok (None, s))"
  by pat_completeness auto
termination
proof (relation "measure (\<lambda>(_, _, _, n, _). 2 ^ 32 - n)", goal_cases)
  case (2 D dev type n s)
  then show ?case using unat_uint32_less [of "sb_ninodes (sb s)"] by simp
qed simp

declare ialloc_loop.simps [simp del]

definition ialloc :: "('a fsys_scheme \<Rightarrow> 'a fsys_scheme) \<Rightarrow> uint32 \<Rightarrow> ushort \<Rightarrow> 'a fsys_scheme \<Rightarrow> (nat option \<times> 'a fsys_scheme) res" where
  "ialloc D dev type s = ialloc_loop D dev type 1 s"

definition iupdate :: "('a fsys_scheme \<Rightarrow> 'a fsys_scheme) \<Rightarrow> nat \<Rightarrow> 'a fsys_scheme \<Rightarrow> 'a fsys_scheme res" where
  "iupdate D ip s =
     rbind (bread D (idev (itable s ip)) (IBLOCK (inum (itable s ip)) (sb s)) s) (\<lambda>(bp, s).
     let i = itable s ip;
         di = \<lparr>di_type = itype i, di_major = imajor i, di_minor = iminor i, di_nlink = inlink i, di_size = isize i, di_addrs = iaddrs i\<rparr>;
         s = upd_buf bp (bdata_update (\<lambda>d. put_dinode d (unat (inum i) mod IPB) di)) s
     in rbind (log_write bp s) (brelse bp))"

definition ilock :: "('a fsys_scheme \<Rightarrow> 'a fsys_scheme) \<Rightarrow> nat option \<Rightarrow> 'a fsys_scheme \<Rightarrow> 'a fsys_scheme res" where
  "ilock D p s =
     (case p of None \<Rightarrow> Panic ''ilock'' | Some ip \<Rightarrow>
      if iref (itable s ip) < 1 then Panic ''ilock'' else
      rbind (acquiresleep (inodelock ip) s) (\<lambda>s.
      if \<not> ivalid (itable s ip) then
        rbind (bread D (idev (itable s ip)) (IBLOCK (inum (itable s ip)) (sb s)) s) (\<lambda>(bp, s).
        let di = dinode_at (bdata (bufs s bp)) (unat (inum (itable s ip)) mod IPB);
            s = upd_inode ip (\<lambda>i. i\<lparr>itype := di_type di, imajor := di_major di, iminor := di_minor di,
                  inlink := di_nlink di, isize := di_size di, iaddrs := di_addrs di\<rparr>) s
        in rbind (brelse bp s) (\<lambda>s.
           let s = upd_inode ip (ivalid_update (\<lambda>_. True)) s
           in if itype (itable s ip) = 0 then Panic ''ilock: no type'' else Ok s))
      else Ok s))"

definition iunlock :: "nat option \<Rightarrow> 'a fsys_scheme \<Rightarrow> 'a fsys_scheme res" where
  "iunlock p s =
     (case p of None \<Rightarrow> Panic ''iunlock'' | Some ip \<Rightarrow>
     rbind (holdingsleep (inodelock ip) s) (\<lambda>(h, s).
     if \<not> h \<or> iref (itable s ip) < 1 then Panic ''iunlock'' else releasesleep (inodelock ip) s))"

section \<open>Inode content\<close>

definition bmap :: "('a fsys_scheme \<Rightarrow> 'a fsys_scheme) \<Rightarrow> nat \<Rightarrow> uint32 \<Rightarrow> 'a fsys_scheme \<Rightarrow> (uint32 \<times> 'a fsys_scheme) res" where
  "bmap D ip bn s =
     (if unat bn < NDIRECT then
        let addr = iaddrs (itable s ip) ! unat bn in
        if addr = 0 then
          rbind (balloc D (idev (itable s ip)) s) (\<lambda>(addr, s).
          if addr = 0 then Ok (0, s)
          else Ok (addr, upd_inode ip (\<lambda>i. i\<lparr>iaddrs := (iaddrs i)[unat bn := addr]\<rparr>) s))
        else Ok (addr, s)
      else
      let k = unat bn - NDIRECT in
      if k < NINDIRECT then
        let addr = iaddrs (itable s ip) ! NDIRECT in
        rbind (if addr = 0 then
                 rbind (balloc D (idev (itable s ip)) s) (\<lambda>(addr, s).
                 if addr = 0 then Ok (0, s)
                 else Ok (addr, upd_inode ip (\<lambda>i. i\<lparr>iaddrs := (iaddrs i)[NDIRECT := addr]\<rparr>) s))
               else Ok (addr, s)) (\<lambda>(addr, s).
        if addr = 0 then Ok (0, s) else
        rbind (bread D (idev (itable s ip)) addr s) (\<lambda>(bp, s).
        let addr = get32 (bdata (bufs s bp)) (4 * k) in
        rbind (if addr = 0 then
                 rbind (balloc D (idev (itable s ip)) s) (\<lambda>(addr, s).
                 if addr \<noteq> 0 then
                   let s = upd_buf bp (bdata_update (\<lambda>d. put32 d (4 * k) addr)) s
                   in rbind (log_write bp s) (\<lambda>s. Ok (addr, s))
                 else Ok (addr, s))
               else Ok (addr, s)) (\<lambda>(addr, s).
        rbind (brelse bp s) (\<lambda>s. Ok (addr, s)))))
      else Panic ''bmap: out of range'')"

function itrunc_direct :: "('a fsys_scheme \<Rightarrow> 'a fsys_scheme) \<Rightarrow> nat \<Rightarrow> nat \<Rightarrow> 'a fsys_scheme \<Rightarrow> 'a fsys_scheme res" where
  "itrunc_direct D ip i s =
     (if i < NDIRECT then
        rbind (if iaddrs (itable s ip) ! i \<noteq> 0 then
                 rbind (bfree D (idev (itable s ip)) (iaddrs (itable s ip) ! i) s) (\<lambda>s.
                 Ok (upd_inode ip (\<lambda>x. x\<lparr>iaddrs := (iaddrs x)[i := 0]\<rparr>) s))
               else Ok s) (\<lambda>s. itrunc_direct D ip (Suc i) s)
      else Ok s)"
  by pat_completeness auto
termination
  by (relation "measure (\<lambda>(_, _, i, _). NDIRECT - i)") auto

declare itrunc_direct.simps [simp del]

function itrunc_indirect :: "('a fsys_scheme \<Rightarrow> 'a fsys_scheme) \<Rightarrow> nat \<Rightarrow> nat \<Rightarrow> nat \<Rightarrow> 'a fsys_scheme \<Rightarrow> 'a fsys_scheme res" where
  "itrunc_indirect D ip bp j s =
     (if j < NINDIRECT then
        let a = get32 (bdata (bufs s bp)) (4 * j) in
        rbind (if a \<noteq> 0 then bfree D (idev (itable s ip)) a s else Ok s) (\<lambda>s. itrunc_indirect D ip bp (Suc j) s)
      else Ok s)"
  by pat_completeness auto
termination
  by (relation "measure (\<lambda>(_, _, _, j, _). NINDIRECT - j)") auto

declare itrunc_indirect.simps [simp del]

definition itrunc :: "('a fsys_scheme \<Rightarrow> 'a fsys_scheme) \<Rightarrow> nat \<Rightarrow> 'a fsys_scheme \<Rightarrow> 'a fsys_scheme res" where
  "itrunc D ip s =
     rbind (itrunc_direct D ip 0 s) (\<lambda>s.
     rbind (if iaddrs (itable s ip) ! NDIRECT \<noteq> 0 then
              rbind (bread D (idev (itable s ip)) (iaddrs (itable s ip) ! NDIRECT) s) (\<lambda>(bp, s).
              rbind (itrunc_indirect D ip bp 0 s) (\<lambda>s.
              rbind (brelse bp s) (\<lambda>s.
              rbind (bfree D (idev (itable s ip)) (iaddrs (itable s ip) ! NDIRECT) s) (\<lambda>s.
              Ok (upd_inode ip (\<lambda>x. x\<lparr>iaddrs := (iaddrs x)[NDIRECT := 0]\<rparr>) s)))))
            else Ok s) (\<lambda>s.
     iupdate D ip (upd_inode ip (isize_update (\<lambda>_. 0)) s)))"

definition iput :: "('a fsys_scheme \<Rightarrow> 'a fsys_scheme) \<Rightarrow> nat \<Rightarrow> 'a fsys_scheme \<Rightarrow> 'a fsys_scheme res" where
  "iput D ip s =
     rbind (itable_acquire s) (\<lambda>s.
     rbind (if iref (itable s ip) = 1 \<and> ivalid (itable s ip) \<and> inlink (itable s ip) = 0 then
              rbind (acquiresleep (inodelock ip) s) (\<lambda>s.
              rbind (itable_release s) (\<lambda>s.
              rbind (itrunc D ip s) (\<lambda>s.
              let s = upd_inode ip (itype_update (\<lambda>_. 0)) s in
              rbind (iupdate D ip s) (\<lambda>s.
              let s = upd_inode ip (ivalid_update (\<lambda>_. False)) s in
              rbind (releasesleep (inodelock ip) s) itable_acquire))))
            else Ok s) (\<lambda>s.
     itable_release (upd_inode ip (\<lambda>i. i\<lparr>iref := iref i - 1\<rparr>) s)))"

definition iunlockput :: "('a fsys_scheme \<Rightarrow> 'a fsys_scheme) \<Rightarrow> nat \<Rightarrow> 'a fsys_scheme \<Rightarrow> 'a fsys_scheme res" where
  "iunlockput D ip s = rbind (iunlock (Some ip) s) (iput D ip)"

definition stati :: "nat \<Rightarrow> 'a fsys_scheme \<Rightarrow> stat" where
  "stati ip s = (let i = itable s ip in
     \<lparr>st_dev = idev i, st_ino = inum i, st_type = itype i, st_nlink = inlink i, st_size = ucast (isize i)\<rparr>)"

fun buf_plus :: "iobuf \<Rightarrow> nat \<Rightarrow> iobuf" where
  "buf_plus (UserBuf a) m = UserBuf (a + word_of_nat m)"
| "buf_plus (KernBuf a) m = KernBuf (a + word_of_nat m)"
| "buf_plus (KernVar bs) m = KernVar (drop m bs)"

text \<open>The bytes of this round: to the end of the request or of the block.\<close>

definition io_chunk :: "uint32 \<Rightarrow> uint32 \<Rightarrow> uint32 \<Rightarrow> uint32" where
  "io_chunk n tot off = min (n - tot) (word_of_nat BSIZE - off mod word_of_nat BSIZE)"

lemma io_chunk_progress:
  assumes "tot < n"
  shows "0 < unat (io_chunk n tot off)" "unat (tot + io_chunk n tot off) = unat tot + unat (io_chunk n tot off)"
    "unat tot + unat (io_chunk n tot off) \<le> unat n" "unat (io_chunk n tot off) \<le> BSIZE - unat off mod BSIZE"
proof -
  have off: "unat (off mod word_of_nat BSIZE) = unat off mod 1024" by (simp add: unat_mod BSIZE_def)
  have sub: "unat (n - tot) = unat n - unat tot" using assms by (simp add: unat_sub less_imp_le)
  have le: "off mod word_of_nat BSIZE \<le> word_of_nat BSIZE" unfolding word_le_nat_alt off by (simp add: BSIZE_def)
  have rest: "unat (word_of_nat BSIZE - off mod word_of_nat BSIZE :: uint32) = 1024 - unat off mod 1024"
    unfolding unat_sub [OF le] off by (simp add: BSIZE_def)
  have c: "unat (io_chunk n tot off) = min (unat n - unat tot) (1024 - unat off mod 1024)"
    unfolding io_chunk_def by (simp add: min_def word_le_nat_alt sub rest)
  have lt: "unat tot < unat n" using assms by (simp add: word_less_nat_alt)
  show "0 < unat (io_chunk n tot off)" "unat tot + unat (io_chunk n tot off) \<le> unat n"
    "unat (io_chunk n tot off) \<le> BSIZE - unat off mod BSIZE" using lt by (simp_all add: c BSIZE_def)
  then show "unat (tot + io_chunk n tot off) = unat tot + unat (io_chunk n tot off)"
    using unat_uint32_less [of n] by (simp add: unat_word_ariths)
qed

function readi_loop :: "('a fsys_scheme \<Rightarrow> 'a fsys_scheme) \<Rightarrow> nat \<Rightarrow> iobuf \<Rightarrow> uint32 \<Rightarrow> uint32 \<Rightarrow> uint32 \<Rightarrow> uchar list
    \<Rightarrow> 'a fsys_scheme \<Rightarrow> (uint32 \<times> uchar list \<times> 'a fsys_scheme) res" where
  "readi_loop D ip dst off n tot out s =
     (if tot < n then
        rbind (bmap D ip (off div word_of_nat BSIZE) s) (\<lambda>(addr, s).
        if addr = 0 then Ok (tot, out, s) else
        rbind (bread D (idev (itable s ip)) addr s) (\<lambda>(bp, s).
        let m = io_chunk n tot off;
            bs = get_bytes (bdata (bufs s bp)) (unat (off mod word_of_nat BSIZE)) (unat m)
        in rbind (either_copyout dst bs s) (\<lambda>(r, s).
        if r = -1 then rbind (brelse bp s) (\<lambda>s. Ok (-1, out, s))
        else rbind (brelse bp s) (\<lambda>s. readi_loop D ip (buf_plus dst (unat m)) (off + m) n (tot + m) (out @ bs) s))))
      else Ok (tot, out, s))"
  by pat_completeness auto
termination
proof (relation "measure (\<lambda>(D, ip, dst, off, n, tot, out, s). unat n - unat tot)", goal_cases)
  case (2 D ip dst off n tot)
  then show ?case using io_chunk_progress [of tot n off] by (simp add: word_less_nat_alt)
qed simp

declare readi_loop.simps [simp del]

definition readi :: "('a fsys_scheme \<Rightarrow> 'a fsys_scheme) \<Rightarrow> nat \<Rightarrow> iobuf \<Rightarrow> uint32 \<Rightarrow> uint32
    \<Rightarrow> 'a fsys_scheme \<Rightarrow> (uint32 \<times> uchar list \<times> 'a fsys_scheme) res" where
  "readi D ip dst off n s =
     (if off > isize (itable s ip) \<or> off + n < off then Ok (0, [], s)
      else
        let n = (if off + n > isize (itable s ip) then isize (itable s ip) - off else n)
        in readi_loop D ip dst off n 0 [] s)"

text \<open>
  When \<^verbatim>\<open>either_copyin\<close> fails it may have stored the bytes of the pages before the failing one
  into the buffer: they are the list that comes with the failure.
\<close>

function writei_loop :: "('a fsys_scheme \<Rightarrow> 'a fsys_scheme) \<Rightarrow> nat \<Rightarrow> iobuf \<Rightarrow> uint32 \<Rightarrow> uint32 \<Rightarrow> uint32
    \<Rightarrow> 'a fsys_scheme \<Rightarrow> (uint32 \<times> uint32 \<times> 'a fsys_scheme) res" where
  "writei_loop D ip src off n tot s =
     (if tot < n then
        rbind (bmap D ip (off div word_of_nat BSIZE) s) (\<lambda>(addr, s).
        if addr = 0 then Ok (tot, off, s) else
        rbind (bread D (idev (itable s ip)) addr s) (\<lambda>(bp, s).
        let m = io_chunk n tot off in
        rbind (either_copyin src (unat m) s) (\<lambda>((r, bs), s).
        let s = upd_buf bp (bdata_update (\<lambda>d. put_bytes d (unat (off mod word_of_nat BSIZE)) bs)) s in
        if r = -1 then rbind (brelse bp s) (\<lambda>s. Ok (tot, off, s))
        else
          rbind (log_write bp s) (\<lambda>s.
          rbind (brelse bp s) (\<lambda>s.
          writei_loop D ip (buf_plus src (unat m)) (off + m) n (tot + m) s)))))
      else Ok (tot, off, s))"
  by pat_completeness auto
termination
proof (relation "measure (\<lambda>(D, ip, src, off, n, tot, s). unat n - unat tot)", goal_cases)
  case (2 D ip src off n tot)
  then show ?case using io_chunk_progress [of tot n off] by (simp add: word_less_nat_alt)
qed simp

declare writei_loop.simps [simp del]

definition writei :: "('a fsys_scheme \<Rightarrow> 'a fsys_scheme) \<Rightarrow> nat \<Rightarrow> iobuf \<Rightarrow> uint32 \<Rightarrow> uint32
    \<Rightarrow> 'a fsys_scheme \<Rightarrow> (uint32 \<times> 'a fsys_scheme) res" where
  "writei D ip src off n s =
     (if off > isize (itable s ip) \<or> off + n < off then Ok (-1, s)
      else if unat (off + n) > MAXFILE * BSIZE then Ok (-1, s)
      else
        rbind (writei_loop D ip src off n 0 s) (\<lambda>(tot, off, s).
        let s = (if off > isize (itable s ip) then upd_inode ip (isize_update (\<lambda>_. off)) s else s)
        in rbind (iupdate D ip s) (\<lambda>s. Ok (tot, s))))"

section \<open>Directories\<close>

definition namecmp :: "uchar list \<Rightarrow> uchar list \<Rightarrow> int" where
  "namecmp s t = strncmp (bufptr s) (bufptr t) DIRSIZ"

text \<open>The result has the inode, if found, with the offset that is stored through \<^verbatim>\<open>poff\<close>.\<close>

function dirlookup_loop :: "('a fsys_scheme \<Rightarrow> 'a fsys_scheme) \<Rightarrow> nat \<Rightarrow> uchar list \<Rightarrow> nat
    \<Rightarrow> 'a fsys_scheme \<Rightarrow> ((nat \<times> uint32) option \<times> 'a fsys_scheme) res" where
  "dirlookup_loop D dp name off s =
     (if off < unat (isize (itable s dp)) then
        rbind (readi D dp (KernVar []) (word_of_nat off) (word_of_nat DIRENT_size) s) (\<lambda>(r, bs, s).
        if r \<noteq> word_of_nat DIRENT_size then Panic ''dirlookup read'' else
        let de = dirent_of bs in
        if de_inum de = 0 then dirlookup_loop D dp name (off + DIRENT_size) s
        else if namecmp name (de_name de) = 0 then
          rbind (iget (idev (itable s dp)) (ucast (de_inum de)) s) (\<lambda>(ip, s). Ok (Some (ip, word_of_nat off), s))
        else dirlookup_loop D dp name (off + DIRENT_size) s)
      else Ok (None, s))"
  by pat_completeness auto
termination
proof (relation "measure (\<lambda>(_, _, _, off, _). 2 ^ 32 - off)", goal_cases)
  case (2 D dp name off s)
  then show ?case using unat_uint32_less [of "isize (itable s dp)"] by (simp add: DIRENT_size_def DIRSIZ_def)
next
  case (3 D dp name off s)
  then show ?case using unat_uint32_less [of "isize (itable s dp)"] by (simp add: DIRENT_size_def DIRSIZ_def)
qed simp

declare dirlookup_loop.simps [simp del]

definition dirlookup :: "('a fsys_scheme \<Rightarrow> 'a fsys_scheme) \<Rightarrow> nat \<Rightarrow> uchar list
    \<Rightarrow> 'a fsys_scheme \<Rightarrow> ((nat \<times> uint32) option \<times> 'a fsys_scheme) res" where
  "dirlookup D dp name s =
     (if itype (itable s dp) \<noteq> T_DIR then Panic ''dirlookup not DIR'' else dirlookup_loop D dp name 0 s)"

function dirlink_scan :: "('a fsys_scheme \<Rightarrow> 'a fsys_scheme) \<Rightarrow> nat \<Rightarrow> nat \<Rightarrow> 'a fsys_scheme \<Rightarrow> (nat \<times> 'a fsys_scheme) res" where
  "dirlink_scan D dp off s =
     (if off < unat (isize (itable s dp)) then
        rbind (readi D dp (KernVar []) (word_of_nat off) (word_of_nat DIRENT_size) s) (\<lambda>(r, bs, s).
        if r \<noteq> word_of_nat DIRENT_size then Panic ''dirlink read''
        else if de_inum (dirent_of bs) = 0 then Ok (off, s)
        else dirlink_scan D dp (off + DIRENT_size) s)
      else Ok (off, s))"
  by pat_completeness auto
termination
proof (relation "measure (\<lambda>(_, _, off, _). 2 ^ 32 - off)", goal_cases)
  case (2 D dp off s)
  then show ?case using unat_uint32_less [of "isize (itable s dp)"] by (simp add: DIRENT_size_def DIRSIZ_def)
qed simp

declare dirlink_scan.simps [simp del]

definition dirlink :: "('a fsys_scheme \<Rightarrow> 'a fsys_scheme) \<Rightarrow> nat \<Rightarrow> uchar list \<Rightarrow> uint32 \<Rightarrow> 'a fsys_scheme \<Rightarrow> (int \<times> 'a fsys_scheme) res" where
  "dirlink D dp name n s =
     rbind (dirlookup D dp name s) (\<lambda>(r, s).
     case r of Some (ip, _) \<Rightarrow> rbind (iput D ip s) (\<lambda>s. Ok (-1, s)) | None \<Rightarrow>
     rbind (dirlink_scan D dp 0 s) (\<lambda>(off, s).
     let de = \<lparr>de_inum = ucast n, de_name = strncpy (bufptr name) DIRSIZ\<rparr> in
     rbind (writei D dp (KernVar (dirent_bytes de)) (word_of_nat off) (word_of_nat DIRENT_size) s) (\<lambda>(r, s).
     if r \<noteq> word_of_nat DIRENT_size then Ok (-1, s) else Ok (0, s))))"

section \<open>Paths\<close>

definition slash :: uchar where
  "slash = 0x2F"

definition skipelem :: "uchar list \<Rightarrow> uchar list \<Rightarrow> (uchar list \<times> uchar list) option" where
  "skipelem path name =
     (let path = dropWhile (\<lambda>c. c = slash) path in
      if path = [] then None else
      let elem = takeWhile (\<lambda>c. c \<noteq> slash) path;
          path = dropWhile (\<lambda>c. c \<noteq> slash) path;
          name = (if length elem \<ge> DIRSIZ then take DIRSIZ elem else elem @ [0] @ drop (length elem + 1) name)
      in Some (dropWhile (\<lambda>c. c = slash) path, name))"

lemma skipelem_shorter: "skipelem path name = Some (path', name') \<Longrightarrow> length path' < length path"
proof -
  assume sk: "skipelem path name = Some (path', name')"
  define q where "q = dropWhile (\<lambda>c. c = slash) path"
  have q: "q \<noteq> []" "path' = dropWhile (\<lambda>c. c = slash) (dropWhile (\<lambda>c. c \<noteq> slash) q)"
    using sk by (auto simp: skipelem_def q_def Let_def split: if_splits)
  then obtain c q' where c: "q = c # q'" "c \<noteq> slash" using hd_dropWhile [of "\<lambda>c. c = slash" path] by (cases q) (auto simp: q_def)
  have "length path' \<le> length q'"
    using c q(2) by (auto intro: le_trans [OF length_dropWhile_le length_dropWhile_le])
  moreover have "length q \<le> length path" by (simp add: q_def length_dropWhile_le)
  ultimately show "length path' < length path" using c by simp
qed

function namex_loop :: "('a fsys_scheme \<Rightarrow> 'a fsys_scheme) \<Rightarrow> uchar list \<Rightarrow> bool \<Rightarrow> uchar list \<Rightarrow> nat
    \<Rightarrow> 'a fsys_scheme \<Rightarrow> (nat option \<times> uchar list \<times> 'a fsys_scheme) res" where
  "namex_loop D path nameiparent name ip s =
     (case skipelem path name of
        Some (path, name) \<Rightarrow>
          rbind (ilock D (Some ip) s) (\<lambda>s.
          if itype (itable s ip) \<noteq> T_DIR then rbind (iunlockput D ip s) (\<lambda>s. Ok (None, name, s))
          else if nameiparent \<and> path = [] then rbind (iunlock (Some ip) s) (\<lambda>s. Ok (Some ip, name, s))
          else
            rbind (dirlookup D ip name s) (\<lambda>(r, s).
            case r of
              None \<Rightarrow> rbind (iunlockput D ip s) (\<lambda>s. Ok (None, name, s))
            | Some (nxt, _) \<Rightarrow> rbind (iunlockput D ip s) (\<lambda>s. namex_loop D path nameiparent name nxt s)))
      | None \<Rightarrow>
          if nameiparent then rbind (iput D ip s) (\<lambda>s. Ok (None, name, s))
          else Ok (Some ip, name, s))"
  by pat_completeness auto
termination
  by (relation "measure (\<lambda>(_, path, _). length path)") (auto dest: skipelem_shorter)

declare namex_loop.simps [simp del]

definition namex :: "('a fsys_scheme \<Rightarrow> 'a fsys_scheme) \<Rightarrow> uchar list \<Rightarrow> bool \<Rightarrow> uchar list
    \<Rightarrow> 'a fsys_scheme \<Rightarrow> (nat option \<times> uchar list \<times> 'a fsys_scheme) res" where
  "namex D path nameiparent name s =
     rbind (if path \<noteq> [] \<and> hd path = slash then iget ROOTDEV ROOTINO s
            else current s (\<lambda>p s. case cwd (ptable s p) of None \<Rightarrow> Panic ''kerneltrap'' | Some ip \<Rightarrow> idup ip s))
       (\<lambda>(ip, s). namex_loop D path nameiparent name ip s)"

definition namei :: "('a fsys_scheme \<Rightarrow> 'a fsys_scheme) \<Rightarrow> uchar list \<Rightarrow> 'a fsys_scheme \<Rightarrow> (nat option \<times> 'a fsys_scheme) res" where
  "namei D path s = rbind (namex D path False (replicate DIRSIZ 0) s) (\<lambda>(ip, _, s). Ok (ip, s))"

definition nameiparent :: "('a fsys_scheme \<Rightarrow> 'a fsys_scheme) \<Rightarrow> uchar list \<Rightarrow> uchar list
    \<Rightarrow> 'a fsys_scheme \<Rightarrow> (nat option \<times> uchar list \<times> 'a fsys_scheme) res" where
  "nameiparent D path name s = namex D path True name s"

end
