(* ===== verification/Mkfs.thy ===== *)
theory Mkfs
  imports Fs
begin

text \<open>
  \<^verbatim>\<open>mkfs/mkfs.c\<close>, the program that builds the image of the file system. The image file is a sequence
  of sectors; a sector that was never written, inside the file, reads as zeros. The host is a
  parameter: whether the image can be created, and for a file that can be opened the pieces that the
  calls of \<^verbatim>\<open>read\<close> return. The host is little-endian, as RISC-V is. \<open>Panic\<close> stands for the ends of the
  program with an error: the usage message, \<^verbatim>\<open>die\<close> and a failed assertion. The lines that the program
  prints on the way are left out.
\<close>

section \<open>The layout\<close>

definition NINODES :: nat where "NINODES = 200"
definition nbitmap :: nat where "nbitmap = FSSIZE div (BSIZE * 8) + 1"
definition ninodeblocks :: nat where "ninodeblocks = NINODES div IPB + 1"
definition nlog :: nat where "nlog = LOGSIZE"
definition nmeta :: nat where "nmeta = 2 + nlog + ninodeblocks + nbitmap"
definition nblocks :: nat where "nblocks = FSSIZE - nmeta"

lemmas mkfs_layout = NINODES_def nbitmap_def ninodeblocks_def nlog_def nmeta_def nblocks_def

record mkfs =
  sects :: "nat \<Rightarrow> uchar list"
  nsects :: nat
  msb :: superblock
  freeinode :: uint32
  freeblock :: uint32

record host =
  h_create :: "uchar list \<Rightarrow> bool"
  h_open :: "uchar list \<Rightarrow> uchar list list option"

definition xshort :: "ushort \<Rightarrow> ushort" where
  "xshort x = of_le_bytes [ucast x, ucast (drop_bit 8 x)]"

definition xint :: "uint32 \<Rightarrow> uint32" where
  "xint x = of_le_bytes [ucast x, ucast (drop_bit 8 x), ucast (drop_bit 16 x), ucast (drop_bit 24 x)]"

section \<open>Sectors and inodes\<close>

definition sect_no :: "uint32 \<Rightarrow> nat" where
  "sect_no sec = unat (sec * word_of_nat BSIZE) div BSIZE"

definition wsect :: "uint32 \<Rightarrow> uchar list \<Rightarrow> mkfs \<Rightarrow> mkfs" where
  "wsect sec buf s = s\<lparr>sects := (sects s)(sect_no sec := buf), nsects := max (nsects s) (sect_no sec + 1)\<rparr>"

definition rsect :: "uint32 \<Rightarrow> mkfs \<Rightarrow> uchar list res" where
  "rsect sec s = (if sect_no sec < nsects s then Ok (sects s (sect_no sec)) else Panic ''read'')"

definition winode :: "uint32 \<Rightarrow> dinode \<Rightarrow> mkfs \<Rightarrow> mkfs res" where
  "winode ino ip s =
     (let bn = IBLOCK ino (msb s) in
      rbind (rsect bn s) (\<lambda>buf. Ok (wsect bn (put_dinode buf (unat ino mod IPB) ip) s)))"

definition rinode :: "uint32 \<Rightarrow> mkfs \<Rightarrow> dinode res" where
  "rinode ino s = rbind (rsect (IBLOCK ino (msb s)) s) (\<lambda>buf. Ok (dinode_at buf (unat ino mod IPB)))"

definition zero_dinode :: dinode where
  "zero_dinode = \<lparr>di_type = 0, di_major = 0, di_minor = 0, di_nlink = 0, di_size = 0, di_addrs = replicate (NDIRECT + 1) 0\<rparr>"

definition mkfs_ialloc :: "ushort \<Rightarrow> mkfs \<Rightarrow> (uint32 \<times> mkfs) res" where
  "mkfs_ialloc type s =
     (let ino = freeinode s;
          s = s\<lparr>freeinode := freeinode s + 1\<rparr>;
          din = zero_dinode\<lparr>di_type := xshort type, di_nlink := xshort 1, di_size := xint 0\<rparr>
      in rbind (winode ino din s) (\<lambda>s. Ok (ino, s)))"

definition mkfs_balloc :: "int \<Rightarrow> mkfs \<Rightarrow> mkfs res" where
  "mkfs_balloc used s =
     (if \<not> used < int (BSIZE * 8) then Panic ''used < BSIZE*8''
      else
        let buf = fold (\<lambda>i buf. buf[i div 8 := buf ! (i div 8) OR bit_mask i]) [0..<nat used] (replicate BSIZE 0)
        in Ok (wsect (sb_bmapstart (msb s)) buf s))"

section \<open>Appending to a file\<close>

text \<open>The block of the file that holds block number \<open>fbn\<close>, allocated if necessary.\<close>

definition iappend_block :: "nat \<Rightarrow> dinode \<Rightarrow> mkfs \<Rightarrow> (uint32 \<times> dinode \<times> mkfs) res" where
  "iappend_block fbn din s =
     (if fbn < NDIRECT then
        let (din, s) = (if xint (di_addrs din ! fbn) = 0
                        then (din\<lparr>di_addrs := (di_addrs din)[fbn := xint (freeblock s)]\<rparr>, s\<lparr>freeblock := freeblock s + 1\<rparr>)
                        else (din, s))
        in Ok (xint (di_addrs din ! fbn), din, s)
      else
        let (din, s) = (if xint (di_addrs din ! NDIRECT) = 0
                        then (din\<lparr>di_addrs := (di_addrs din)[NDIRECT := xint (freeblock s)]\<rparr>, s\<lparr>freeblock := freeblock s + 1\<rparr>)
                        else (din, s)) in
        rbind (rsect (xint (di_addrs din ! NDIRECT)) s) (\<lambda>indirect.
        let (indirect, s) = (if get32 indirect (4 * (fbn - NDIRECT)) = 0
                             then let indirect = put32 indirect (4 * (fbn - NDIRECT)) (xint (freeblock s));
                                      s = s\<lparr>freeblock := freeblock s + 1\<rparr>
                                  in (indirect, wsect (xint (di_addrs din ! NDIRECT)) indirect s)
                             else (indirect, s))
        in Ok (xint (get32 indirect (4 * (fbn - NDIRECT))), din, s)))"

function iappend_loop :: "dinode \<Rightarrow> uint32 \<Rightarrow> uchar list \<Rightarrow> mkfs \<Rightarrow> (dinode \<times> uint32 \<times> mkfs) res" where
  "iappend_loop din off p s =
     (if p = [] then Ok (din, off, s)
      else
        let fbn = unat off div BSIZE in
        if \<not> fbn < MAXFILE then Panic ''fbn < MAXFILE''
        else
          rbind (iappend_block fbn din s) (\<lambda>(x, din, s).
          let n1 = min (length p) ((fbn + 1) * BSIZE - unat off) in
          rbind (rsect x s) (\<lambda>buf.
          let buf = put_bytes buf (unat off - fbn * BSIZE) (take n1 p);
              s = wsect x buf s
          in iappend_loop din (off + word_of_nat n1) (drop n1 p) s)))"
  by pat_completeness auto
termination
proof (relation "measure (\<lambda>(din, off, p, s). length p)", goal_cases)
  case (2 din off p s)
  have "unat off < (unat off div BSIZE + 1) * BSIZE" using dividend_less_div_times [of BSIZE "unat off"] by (simp add: BSIZE_def)
  then show ?case using 2 by simp
qed simp

declare iappend_loop.simps [simp del]

definition iappend :: "uint32 \<Rightarrow> uchar list \<Rightarrow> mkfs \<Rightarrow> mkfs res" where
  "iappend ino p s =
     rbind (rinode ino s) (\<lambda>din.
     rbind (iappend_loop din (xint (di_size din)) p s) (\<lambda>(din, off, s).
     winode ino (din\<lparr>di_size := xint off\<rparr>) s))"

section \<open>main\<close>

definition mkfs_name :: "uchar list \<Rightarrow> uchar list" where
  "mkfs_name name = take DIRSIZ name @ replicate (DIRSIZ - length name) 0"

definition mkfs_link :: "uint32 \<Rightarrow> uint32 \<Rightarrow> uchar list \<Rightarrow> mkfs \<Rightarrow> mkfs res" where
  "mkfs_link rootino ino name s = iappend rootino (dirent_bytes \<lparr>de_inum = xshort (ucast ino), de_name = mkfs_name name\<rparr>) s"

primrec mkfs_copy :: "uint32 \<Rightarrow> uchar list list \<Rightarrow> mkfs \<Rightarrow> mkfs res" where
  "mkfs_copy ino [] s = Ok s"
| "mkfs_copy ino (buf # pieces) s = rbind (iappend ino buf s) (mkfs_copy ino pieces)"

definition shortname :: "uchar list \<Rightarrow> uchar list" where
  "shortname arg = (if take 5 arg = chars ''user/'' then drop 5 arg else arg)"

definition skip_underscore :: "uchar list \<Rightarrow> uchar list" where
  "skip_underscore name = (if name \<noteq> [] \<and> hd name = 0x5F then tl name else name)"

primrec mkfs_files :: "host \<Rightarrow> uint32 \<Rightarrow> uchar list list \<Rightarrow> mkfs \<Rightarrow> mkfs res" where
  "mkfs_files H rootino [] s = Ok s"
| "mkfs_files H rootino (arg # args) s =
     (let name = shortname arg in
      if 0x2F \<in> set name then Panic ''index(shortname, '/') == 0''
      else case h_open H arg of
        None \<Rightarrow> Panic ''open''
      | Some pieces \<Rightarrow>
          let name = skip_underscore name in
          rbind (mkfs_ialloc T_FILE s) (\<lambda>(ino, s).
          rbind (mkfs_link rootino ino name s) (\<lambda>s.
          rbind (mkfs_copy ino pieces s) (\<lambda>s.
          mkfs_files H rootino args s))))"

definition mkfs_sb :: superblock where
  "mkfs_sb = \<lparr>sb_magic = FSMAGIC, sb_size = xint (word_of_nat FSSIZE), sb_nblocks = xint (word_of_nat nblocks),
     sb_ninodes = xint (word_of_nat NINODES), sb_nlog = xint (word_of_nat nlog), sb_logstart = xint 2,
     sb_inodestart = xint (word_of_nat (2 + nlog)), sb_bmapstart = xint (word_of_nat (2 + nlog + ninodeblocks))\<rparr>"

definition superblock_bytes :: "superblock \<Rightarrow> uchar list" where
  "superblock_bytes b = concat (map (le_bytes 4) [sb_magic b, sb_size b, sb_nblocks b, sb_ninodes b, sb_nlog b, sb_logstart b, sb_inodestart b, sb_bmapstart b])"

definition mkfs_empty :: mkfs where
  "mkfs_empty =
     (let zeroes = replicate BSIZE 0;
          s = \<lparr>sects = (\<lambda>_. zeroes), nsects = 0, msb = mkfs_sb, freeinode = 1, freeblock = word_of_nat nmeta\<rparr>;
          s = fold (\<lambda>i. wsect (word_of_nat i) zeroes) [0..<FSSIZE] s
      in wsect 1 (put_bytes zeroes 0 (superblock_bytes (msb s))) s)"

definition mkfs_root_size :: "uint32 \<Rightarrow> mkfs \<Rightarrow> mkfs res" where
  "mkfs_root_size rootino s =
     rbind (rinode rootino s) (\<lambda>din.
     let off = xint (di_size din);
         off = (off div word_of_nat BSIZE + 1) * word_of_nat BSIZE
     in winode rootino (din\<lparr>di_size := xint off\<rparr>) s)"

definition mkfs_main :: "host \<Rightarrow> uchar list list \<Rightarrow> mkfs res" where
  "mkfs_main H argv =
     (if length argv < 2 then Panic ''Usage: mkfs fs.img files...''
      else if \<not> h_create H (argv ! 1) then Panic ''open''
      else
        rbind (mkfs_ialloc T_DIR mkfs_empty) (\<lambda>(rootino, s).
        if rootino \<noteq> ROOTINO then Panic ''rootino == ROOTINO''
        else
          rbind (mkfs_link rootino rootino (chars ''.'') s) (\<lambda>s.
          rbind (mkfs_link rootino rootino (chars ''..'') s) (\<lambda>s.
          rbind (mkfs_files H rootino (drop 2 argv) s) (\<lambda>s.
          rbind (mkfs_root_size rootino s) (\<lambda>s.
          mkfs_balloc (sint (freeblock s)) s))))))"

end
