(* ===== verification/Fs_Block.thy ===== *)
theory Fs_Block
  imports Log_Trans Fs
begin

text \<open>
  Block allocation over transactions: \<^verbatim>\<open>balloc\<close> takes the first block that the bitmap shows free,
  marks it and zeroes it; \<^verbatim>\<open>bfree\<close> clears the mark. The contents of blocks are those that the
  buffer cache shows (\<open>view\<close>); \<open>txn s p H k\<close> says that process \<open>p\<close>, holding the buffers \<open>H\<close>, is in a
  transaction that can log \<open>k\<close> more blocks.
\<close>

definition clean :: "'a lsys_scheme \<Rightarrow> bool" where
  "clean s \<longleftrightarrow> (\<forall>n. n \<in> set (logged (klog s)) \<or> view s n = content (vdev s) (ucast n))"

definition reading :: "'a lsys_scheme \<Rightarrow> nat \<Rightarrow> (nat \<rightharpoonup> uint32) \<Rightarrow> nat \<Rightarrow> bool" where
  "reading s p H k \<longleftrightarrow> log_inv s p H \<and> clean s \<and> lh_n (klog s) + int k + int (card (dom H)) \<le> int NBUF"

definition txn :: "'a lsys_scheme \<Rightarrow> nat \<Rightarrow> (nat \<rightharpoonup> uint32) \<Rightarrow> nat \<Rightarrow> bool" where
  "txn s p H k \<longleftrightarrow> reading s p H k \<and> 1 \<le> outstanding (klog s) \<and> lh_n (klog s) + int k < sint (log_size (klog s))"

lemma readingD:
  assumes "reading s p H k"
  shows "log_inv s p H" "clean s" "0 < k \<Longrightarrow> n \<notin> ran H \<Longrightarrow> unat n < 2 ^ 31 \<Longrightarrow> can_read s H n" "running s p" "sized s"
proof -
  show inv: "log_inv s p H" "clean s" using assms by (simp_all add: reading_def)
  have n: "0 \<le> lh_n (klog s)" using log_wfD(10) [OF log_invD(1) [OF inv(1)]] .
  show "0 < k \<Longrightarrow> n \<notin> ran H \<Longrightarrow> unat n < 2 ^ 31 \<Longrightarrow> can_read s H n"
    using assms n by (auto simp: reading_def can_read_def)
  show "running s p" "sized s" by (rule log_invD [OF inv(1)])+
qed

lemma txnD:
  assumes "txn s p H k"
  shows "reading s p H k" "log_inv s p H" "1 \<le> outstanding (klog s)" "0 < k \<Longrightarrow> room (klog s)"
    "0 < k \<Longrightarrow> n \<notin> ran H \<Longrightarrow> unat n < 2 ^ 31 \<Longrightarrow> can_read s H n" "running s p" "sized s"
proof -
  show R: "reading s p H k" "1 \<le> outstanding (klog s)" using assms by (simp_all add: txn_def)
  show "log_inv s p H" "running s p" "sized s" by (rule readingD [OF R(1)])+
  show "0 < k \<Longrightarrow> n \<notin> ran H \<Longrightarrow> unat n < 2 ^ 31 \<Longrightarrow> can_read s H n" by (rule readingD(3) [OF R(1)])
  show "0 < k \<Longrightarrow> room (klog s)" using assms by (simp add: txn_def reading_def room_def layout_defs)
qed

lemma txn_mono: "txn s p H k \<Longrightarrow> j \<le> k \<Longrightarrow> txn s p H j"
  by (auto simp: txn_def reading_def)

lemma reading_mono: "reading s p H k \<Longrightarrow> j \<le> k \<Longrightarrow> reading s p H j"
  by (auto simp: reading_def)

lemma txn_reading: "txn s p H k \<Longrightarrow> reading s' p H' k \<Longrightarrow> klog s' = klog s \<Longrightarrow> txn s' p H' k"
  by (simp add: txn_def)

lemma lstep_fs:
  assumes "lstep s s'"
  shows "sb s' = sb s" "itable s' = itable s" "itable_lock s' = itable_lock s" "mem s' = mem s"
  using assms by (auto simp: lstep_def vst_def)

lemma lstep_refl [simp]: "lstep s s"
  by (rule bstep_lstep) simp

lemma upd_buf_data: "upd_buf b (bdata_update f) s = upd_buf b (bdata_update (\<lambda>_. f (bdata (bufs s b)))) s"
  by (cases "bufs s b") (simp add: upd_buf_def)

text \<open>Read, change, log and release a block; read and release one.\<close>

lemma txn_update:
  assumes D: "virtio_device D" and T: "txn s p H (Suc k)" and n: "n \<notin> ran H" "unat n < 2 ^ 31" "n \<notin> log_area (klog s)"
    and x: "length (f (view s n)) = BSIZE"
  shows "\<exists>b s1 s2 s3. bread D ROOTDEV n s = Ok (b, s1) \<and> bdata (bufs s1 b) = view s n \<and>
    log_write b (upd_buf b (bdata_update f) s1) = Ok s2 \<and> brelse b s2 = Ok s3 \<and> lstep s s1 \<and> lstep s s3 \<and> txn s3 p H k \<and>
    view s3 = (view s)(n := f (view s n)) \<and> log_area (klog s3) = log_area (klog s)"
proof -
  note I = txnD [OF T]
  obtain b s1 s2 s3 where S: "bread D ROOTDEV n s = Ok (b, s1)" "bdata (bufs s1 b) = view s n"
      "log_write b (upd_buf b (bdata_update (\<lambda>_. f (view s n))) s1) = Ok s2" "brelse b s2 = Ok s3" "bstep s s1" "lstep s s3" "log_inv s3 p H"
      "view s3 = (view s)(n := f (view s n))" "vdev s3 = vdev s" "set (logged (klog s3)) = insert n (set (logged (klog s)))"
      "lh_n (klog s3) = lh_n (klog s) + (if n \<in> set (logged (klog s)) then 0 else 1)" "log_frame (klog s) (klog s3)"
    using log_inv_update [OF D I(2) I(5) [OF _ n(1,2)] n(3) I(4) I(3) x] by auto
  note F = log_frameD [OF S(12)]
  have "clean s3" using readingD(2) [OF I(1)] by (auto simp: clean_def S(8-10))
  then have "txn s3 p H k" using S(7,11) T F by (auto simp: txn_def reading_def)
  then show ?thesis using S F(7) bstep_lstep [OF S(5)] upd_buf_data [of b f s1]
    by (intro exI [of _ b] exI [of _ s1] exI [of _ s2] exI [of _ s3]) simp
qed

lemma reading_bread:
  assumes D: "virtio_device D" and T: "reading s p H (Suc k)" and n: "n \<notin> ran H" "unat n < 2 ^ 31"
  shows "\<exists>b s'. bread D ROOTDEV n s = Ok (b, s') \<and> bdata (bufs s' b) = view s n \<and> b \<notin> dom H \<and> lstep s s' \<and>
    reading s' p (H(b \<mapsto> n)) k \<and> view s' = view s \<and> klog s' = klog s"
proof -
  note I = readingD [OF T]
  obtain b s' where S: "bread D ROOTDEV n s = Ok (b, s')" "bstep s s'" "b \<notin> dom H" "log_inv s' p (H(b \<mapsto> n))" "bdata (bufs s' b) = view s n"
      "klog s' = klog s" "view s' = view s" "vdev s' = vdev s"
    using log_inv_bread [OF D I(1) I(3) [OF _ n]] by auto
  have "finite (dom H)" using bresD(3) [OF log_invD(3) [OF I(1)]] finite_subset by blast
  then have "reading s' p (H(b \<mapsto> n)) k" using S(3,4,6-8) T by (simp add: reading_def clean_def)
  then show ?thesis using S bstep_lstep [OF S(2)] by (intro exI [of _ b] exI [of _ s']) simp
qed

lemma reading_brelse:
  assumes T: "reading s p H' k" and b: "H' b = Some n" "H = H'(b := None)"
  shows "\<exists>s'. brelse b s = Ok s' \<and> lstep s s' \<and> reading s' p H (Suc k) \<and> view s' = view s \<and> klog s' = klog s"
proof -
  note I = readingD [OF T]
  have fin: "finite (dom H')" using bresD(3) [OF log_invD(3) [OF I(1)]] finite_subset by blast
  have "n \<in> set (logged (klog s)) \<or> view s n = content (vdev s) (ucast n)" using I(2) by (simp add: clean_def)
  then obtain s' where S: "brelse b s = Ok s'" "bstep s s'" "log_inv s' p H" "klog s' = klog s" "view s' = view s" "vdev s' = vdev s"
    using log_inv_brelse [OF I(1) b(1)] b(2) by blast
  have "b \<in> dom H'" using b(1) by blast
  then have "Suc (card (dom H' - {b})) = card (dom H')" by (rule card_Suc_Diff1 [OF fin])
  then have "Suc (card (dom H)) = card (dom H')" by (simp add: b(2))
  then have "reading s' p H (Suc k)" using S(3-6) T by (simp add: reading_def clean_def)
  then show ?thesis using S bstep_lstep [OF S(2)] by blast
qed

lemma reading_block:
  assumes D: "virtio_device D" and T: "reading s p H (Suc k)" and n: "n \<notin> ran H" "unat n < 2 ^ 31"
  shows "\<exists>b s1 s2. bread D ROOTDEV n s = Ok (b, s1) \<and> bdata (bufs s1 b) = view s n \<and> brelse b s1 = Ok s2 \<and> lstep s s1 \<and> lstep s s2 \<and>
    reading s2 p H (Suc k) \<and> view s2 = view s \<and> klog s2 = klog s"
proof -
  obtain b s1 where 1: "bread D ROOTDEV n s = Ok (b, s1)" "bdata (bufs s1 b) = view s n" "b \<notin> dom H" "lstep s s1" "reading s1 p (H(b \<mapsto> n)) k"
      "view s1 = view s" "klog s1 = klog s"
    using reading_bread [OF D T n] by blast
  have H: "H = H(b \<mapsto> n, b := None)" using 1(3) by (auto simp: fun_eq_iff domIff)
  obtain s2 where 2: "brelse b s1 = Ok s2" "lstep s1 s2" "reading s2 p H (Suc k)" "view s2 = view s1" "klog s2 = klog s1"
    using reading_brelse [OF 1(5) _ H] by auto
  then show ?thesis using 1 lstep_trans [OF 1(4) 2(2)] by (intro exI [of _ b] exI [of _ s1] exI [of _ s2]) simp
qed

lemma txn_bread:
  assumes D: "virtio_device D" and T: "txn s p H (Suc k)" and n: "n \<notin> ran H" "unat n < 2 ^ 31"
  shows "\<exists>b s'. bread D ROOTDEV n s = Ok (b, s') \<and> bdata (bufs s' b) = view s n \<and> b \<notin> dom H \<and> lstep s s' \<and>
    txn s' p (H(b \<mapsto> n)) k \<and> view s' = view s \<and> klog s' = klog s"
  using reading_bread [OF D txnD(1) [OF T] n] T by (fastforce simp: txn_def)

lemma txn_brelse:
  assumes T: "txn s p H' k" and b: "H' b = Some n" "H = H'(b := None)"
  shows "\<exists>s'. brelse b s = Ok s' \<and> lstep s s' \<and> txn s' p H k \<and> view s' = view s \<and> klog s' = klog s"
  using reading_brelse [OF txnD(1) [OF T] b] T reading_mono [of _ p H "Suc k" k] by (fastforce simp: txn_def)

lemma txn_log:
  assumes T: "txn s p H (Suc k)" and b: "H b = Some n" and n: "n \<notin> log_area (klog s)" and x: "length (f (view s n)) = BSIZE"
  shows "\<exists>s'. log_write b (upd_buf b (bdata_update f) s) = Ok s' \<and> lstep s s' \<and> txn s' p H k \<and>
    view s' = (view s)(n := f (view s n)) \<and> log_area (klog s') = log_area (klog s)"
proof -
  note I = txnD [OF T]
  have d: "bdata (bufs s b) = view s n" by (rule bres_data [OF log_invD(3) [OF I(2)] b])
  define s1 where "s1 = upd_buf b (bdata_update f) s"
  have s1: "s1 = upd_buf b (bdata_update (\<lambda>_. f (view s n))) s" using upd_buf_data [of b f s] by (simp add: s1_def d)
  note S = log_inv_store [OF I(2) b x, folded s1]
  obtain s2 where L: "log_write b s1 = Ok s2" "log_inv s2 p H" "set (logged (klog s2)) = insert n (set (logged (klog s)))"
      "lh_n (klog s2) = lh_n (klog s) + (if n \<in> set (logged (klog s)) then 0 else 1)"
      "log_frame (klog s) (klog s2)" "lstep s1 s2" "view s2 = view s1" "vdev s2 = vdev s1"
    using log_write_spec [OF S(2) b] n I(3,4) S(3) by auto
  note F = log_frameD [OF L(5)]
  have "clean s2" using readingD(2) [OF I(1)] by (auto simp: clean_def L(3,7,8) S(4,5))
  then have "txn s2 p H k" using L(2,4) T F by (auto simp: txn_def reading_def)
  then show ?thesis using L(1,7) S(4) F(7) lstep_trans [OF bstep_lstep [OF S(1)] L(6)] unfolding s1_def by auto
qed

lemma bzero_spec:
  assumes D: "virtio_device D" and T: "txn s p H (Suc k)" and n: "n \<notin> ran H" "unat n < 2 ^ 31" "n \<notin> log_area (klog s)"
  shows "\<exists>s'. bzero D ROOTDEV n s = Ok s' \<and> lstep s s' \<and> txn s' p H k \<and> view s' = (view s)(n := replicate BSIZE 0) \<and>
    log_area (klog s') = log_area (klog s)"
  using txn_update [OF D T n, of "\<lambda>_. replicate BSIZE 0"] by (auto simp: bzero_def Let_def)

section \<open>The bits of a bitmap block\<close>

definition bit_at :: "uchar list \<Rightarrow> nat \<Rightarrow> bool" where
  "bit_at d i \<longleftrightarrow> bit (d ! (i div 8)) (i mod 8)"

lemma and_bit_mask: "d ! (i div 8) AND bit_mask i = 0 \<longleftrightarrow> \<not> bit_at d i"
  by (auto simp: bit_at_def bit_mask_def bit_eq_iff [where a = "_ :: uchar"] bit_simps dest: spec [of _ "i mod 8"])

lemma bit_at_update:
  assumes "i div 8 < length d"
  shows "bit_at (d[i div 8 := d ! (i div 8) OR bit_mask i]) j \<longleftrightarrow> bit_at d j \<or> j = i"
    "bit_at (d[i div 8 := d ! (i div 8) AND NOT (bit_mask i)]) j \<longleftrightarrow> bit_at d j \<and> j \<noteq> i"
proof -
  have eq: "j div 8 = i div 8 \<Longrightarrow> j mod 8 = i mod 8 \<longleftrightarrow> j = i" by (metis div_mult_mod_eq)
  show "bit_at (d[i div 8 := d ! (i div 8) OR bit_mask i]) j \<longleftrightarrow> bit_at d j \<or> j = i"
    using assms eq by (cases "j div 8 = i div 8") (auto simp: bit_at_def bit_mask_def bit_simps)
  show "bit_at (d[i div 8 := d ! (i div 8) AND NOT (bit_mask i)]) j \<longleftrightarrow> bit_at d j \<and> j \<noteq> i"
    using assms eq by (cases "j div 8 = i div 8") (auto simp: bit_at_def bit_mask_def bit_simps)
qed

lemma balloc_scan_spec:
  "balloc_scan d b sz bi = Some j \<Longrightarrow> bi \<le> j \<and> j < BPB \<and> b + j < sz \<and> \<not> bit_at d j \<and> (\<forall>i. bi \<le> i \<and> i < j \<longrightarrow> bit_at d i)"
  "balloc_scan d b sz bi = None \<Longrightarrow> bi \<le> i \<Longrightarrow> i < BPB \<Longrightarrow> b + i < sz \<Longrightarrow> bit_at d i"
proof (induction d b sz bi rule: balloc_scan.induct)
  case (1 d b sz bi)
  {
    case 1
    show ?case
    proof (cases "bit_at d bi")
      case True
      then have "balloc_scan d b sz (Suc bi) = Some j" "bi < BPB" "b + bi < sz" using 1 by (auto simp: and_bit_mask balloc_scan.simps [of d b sz bi] split: if_splits)
      then show ?thesis using "1.IH"(1) True by (auto simp: and_bit_mask Suc_le_eq) (metis le_neq_implies_less)
    next
      case False
      then show ?thesis using 1 by (auto simp: and_bit_mask balloc_scan.simps [of d b sz bi] split: if_splits)
    qed
  next
    case 2
    then have "bi < BPB" "b + bi < sz" by simp_all
    then have "bit_at d bi" "balloc_scan d b sz (Suc bi) = None" using 2(1) by (auto simp: and_bit_mask balloc_scan.simps [of d b sz bi] split: if_splits)
    then show ?case using "1.IH"(2) 2 \<open>bi < BPB\<close> \<open>b + bi < sz\<close> by (cases "i = bi") (auto simp: and_bit_mask)
  }
qed

section \<open>The free block bitmap\<close>

definition used :: "'a fsys_scheme \<Rightarrow> uint32 \<Rightarrow> bool" where
  "used s b \<longleftrightarrow> bit_at (view s (BBLOCK b (sb s))) (unat b mod BPB)"

text \<open>
  The blocks of the bitmap, of the log and block 0 are marked, and the bitmap is not in the log:
  what \<^verbatim>\<open>mkfs\<close> sets up.
\<close>

definition bitmap_ok :: "'a fsys_scheme \<Rightarrow> bool" where
  "bitmap_ok s \<longleftrightarrow> unat (sb_size (sb s)) \<le> 2 ^ 31 \<and> unat (sb_bmapstart (sb s)) + unat (sb_size (sb s)) div BPB < 2 ^ 31 \<and> 0 < sb_size (sb s) \<and> used s 0 \<and>
     (\<forall>c < sb_size (sb s). BBLOCK c (sb s) \<notin> log_area (klog s) \<and> (c \<in> log_area (klog s) \<longrightarrow> used s c)) \<and>
     (\<forall>c < sb_size (sb s). BBLOCK c (sb s) < sb_size (sb s) \<longrightarrow> used s (BBLOCK c (sb s)))"

definition first_free :: "'a fsys_scheme \<Rightarrow> uint32 \<Rightarrow> bool" where
  "first_free s r \<longleftrightarrow> r < sb_size (sb s) \<and> \<not> used s r \<and> (\<forall>c < r. used s c)"

lemma unat_BBLOCK:
  assumes "bitmap_ok s" and "b < sb_size (sb s)"
  shows "unat (BBLOCK b (sb s)) = unat b div BPB + unat (sb_bmapstart (sb s))" "unat (BBLOCK b (sb s)) < 2 ^ 31"
proof -
  have "unat b div BPB \<le> unat (sb_size (sb s)) div BPB" using assms(2) by (intro div_le_mono) (simp add: word_less_nat_alt)
  then have lt: "unat b div BPB + unat (sb_bmapstart (sb s)) < 2 ^ 31" using assms(1) by (simp add: bitmap_ok_def)
  have "unat (b div word_of_nat BPB :: uint32) = unat b div BPB" by (simp add: unat_div BPB_def BSIZE_def)
  then show "unat (BBLOCK b (sb s)) = unat b div BPB + unat (sb_bmapstart (sb s))" using lt by (simp add: BBLOCK_def unat_word_ariths)
  then show "unat (BBLOCK b (sb s)) < 2 ^ 31" using lt by simp
qed

lemma BBLOCK_eq_iff:
  assumes "bitmap_ok s" and "b < sb_size (sb s)" and "c < sb_size (sb s)"
  shows "BBLOCK b (sb s) = BBLOCK c (sb s) \<longleftrightarrow> unat b div BPB = unat c div BPB"
  using unat_BBLOCK(1) [OF assms(1,2)] unat_BBLOCK(1) [OF assms(1,3)] by (metis add_right_cancel word_unat_eq_iff)

text \<open>Marking and clearing a bit changes the state of one block.\<close>

definition bit_set :: "nat \<Rightarrow> uchar list \<Rightarrow> uchar list" where
  "bit_set i d = d[i div 8 := d ! (i div 8) OR bit_mask i]"

definition bit_clear :: "nat \<Rightarrow> uchar list \<Rightarrow> uchar list" where
  "bit_clear i d = d[i div 8 := d ! (i div 8) AND NOT (bit_mask i)]"

lemma bit_set_simps [simp]:
  "length (bit_set i d) = length d" "length (bit_clear i d) = length d"
  by (simp_all add: bit_set_def bit_clear_def)

lemma used_update:
  assumes ok: "bitmap_ok s" and b: "b < sb_size (sb s)" and c: "c < sb_size (sb s)" and sb: "sb s' = sb s" and len: "sized s"
    and v: "view s' (BBLOCK c (sb s)) = (if BBLOCK c (sb s) = BBLOCK b (sb s) then f (unat b mod BPB) (view s (BBLOCK b (sb s))) else view s (BBLOCK c (sb s)))"
  shows "f = bit_set \<Longrightarrow> used s' c \<longleftrightarrow> used s c \<or> c = b" "f = bit_clear \<Longrightarrow> used s' c \<longleftrightarrow> used s c \<and> c \<noteq> b"
proof -
  have lt: "unat b mod BPB div 8 < length (view s (BBLOCK b (sb s)))"
    using len by (simp add: sized_def less_mult_imp_div_less BPB_def BSIZE_def mod_less_divisor)
  have eq: "BBLOCK c (sb s) = BBLOCK b (sb s) \<Longrightarrow> unat c mod BPB = unat b mod BPB \<longleftrightarrow> c = b"
    using BBLOCK_eq_iff [OF ok c b] by (metis div_mult_mod_eq word_unat_eq_iff)
  show "f = bit_set \<Longrightarrow> used s' c \<longleftrightarrow> used s c \<or> c = b"
    using v sb eq bit_at_update(1) [OF lt] by (auto simp: used_def bit_set_def)
  show "f = bit_clear \<Longrightarrow> used s' c \<longleftrightarrow> used s c \<and> c \<noteq> b"
    using v sb eq bit_at_update(2) [OF lt] by (auto simp: used_def bit_clear_def)
qed

lemma bitmap_ok_grow:
  assumes ok: "bitmap_ok s" and "sb s' = sb s" and "log_area (klog s') = log_area (klog s)" and "\<And>c. c = 0 \<or> c < sb_size (sb s) \<Longrightarrow> used s c \<Longrightarrow> used s' c"
  shows "bitmap_ok s'"
  using assms unfolding bitmap_ok_def by auto

lemma used_view: "view s' = view s \<Longrightarrow> sb s' = sb s \<Longrightarrow> used s' = used s"
  by (simp add: used_def fun_eq_iff)

text \<open>A buffer set that does not touch the allocator.\<close>

definition off_bitmap :: "'a fsys_scheme \<Rightarrow> (nat \<rightharpoonup> uint32) \<Rightarrow> bool" where
  "off_bitmap s H \<longleftrightarrow> (\<forall>c < sb_size (sb s). BBLOCK c (sb s) \<notin> ran H \<and> (c \<in> ran H \<longrightarrow> used s c))"

lemma bfree_spec:
  assumes D: "virtio_device D" and T: "txn s p H (Suc k)" and ok: "bitmap_ok s" and b: "b < sb_size (sb s)" and H: "off_bitmap s H"
  shows "\<not> used s b \<Longrightarrow> bfree D ROOTDEV b s = Panic ''freeing free block''"
    "used s b \<Longrightarrow> \<exists>s'. bfree D ROOTDEV b s = Ok s' \<and> lstep s s' \<and> txn s' p H k \<and> log_area (klog s') = log_area (klog s) \<and>
       view s' = (view s)(BBLOCK b (sb s) := bit_clear (unat b mod BPB) (view s (BBLOCK b (sb s))))"
proof -
  define n where "n = BBLOCK b (sb s)"
  have n: "n \<notin> ran H" "unat n < 2 ^ 31" "n \<notin> log_area (klog s)"
    using H ok b unat_BBLOCK(2) [OF ok b] by (auto simp: off_bitmap_def bitmap_ok_def n_def)
  have len: "length (bit_clear (unat b mod BPB) (view s n)) = BSIZE" using txnD(7) [OF T] by (simp add: sized_def)
  obtain bp s1 s2 s3 where S: "bread D ROOTDEV n s = Ok (bp, s1)" "bdata (bufs s1 bp) = view s n"
      "log_write bp (upd_buf bp (bdata_update (bit_clear (unat b mod BPB))) s1) = Ok s2" "brelse bp s2 = Ok s3" "lstep s s3" "txn s3 p H k"
      "view s3 = (view s)(n := bit_clear (unat b mod BPB) (view s n))" "log_area (klog s3) = log_area (klog s)"
    using txn_update [OF D T n, of "bit_clear (unat b mod BPB)"] len by blast
  show "\<not> used s b \<Longrightarrow> bfree D ROOTDEV b s = Panic ''freeing free block''"
    using S(1,2) by (simp add: bfree_def n_def [symmetric] Let_def and_bit_mask used_def)
  assume "used s b"
  then have "bfree D ROOTDEV b s = Ok s3"
    using S(1-4) by (simp add: bfree_def n_def [symmetric] Let_def and_bit_mask used_def bit_clear_def [abs_def])
  then show "\<exists>s'. bfree D ROOTDEV b s = Ok s' \<and> lstep s s' \<and> txn s' p H k \<and> log_area (klog s') = log_area (klog s) \<and>
      view s' = (view s)(BBLOCK b (sb s) := bit_clear (unat b mod BPB) (view s (BBLOCK b (sb s))))"
    using S(5-8) by (simp add: n_def)
qed

text \<open>What \<^verbatim>\<open>balloc\<close> does, at one block of the bitmap that has a free block.\<close>

definition allocated :: "'a fsys_scheme \<Rightarrow> uint32 \<Rightarrow> 'a fsys_scheme \<Rightarrow> bool" where
  "allocated s r s' \<longleftrightarrow> first_free s r \<and>
     view s' = (view s)(BBLOCK r (sb s) := bit_set (unat r mod BPB) (view s (BBLOCK r (sb s))), r := replicate BSIZE 0)"

lemma balloc_here:
  assumes D: "virtio_device D" and T: "txn s p H (Suc (Suc k))" and ok: "bitmap_ok s" and H: "off_bitmap s H" and r: "first_free s r"
    and n: "n = BBLOCK r (sb s)"
  shows "\<exists>bp s1 s2 s3 s4. bread D ROOTDEV n s = Ok (bp, s1) \<and> bdata (bufs s1 bp) = view s n \<and> sb s1 = sb s \<and>
    log_write bp (upd_buf bp (bdata_update (bit_set (unat r mod BPB))) s1) = Ok s2 \<and> brelse bp s2 = Ok s3 \<and>
    bzero D ROOTDEV r s3 = Ok s4 \<and> lstep s s4 \<and> txn s4 p H k \<and> log_area (klog s4) = log_area (klog s) \<and> allocated s r s4"
proof -
  have rs: "r < sb_size (sb s)" "\<not> used s r" using r by (simp_all add: first_free_def)
  have n': "n \<notin> ran H" "unat n < 2 ^ 31" "n \<notin> log_area (klog s)"
    using H ok rs(1) unat_BBLOCK(2) [OF ok rs(1)] by (auto simp: off_bitmap_def bitmap_ok_def n)
  have len: "length (bit_set (unat r mod BPB) (view s n)) = BSIZE" using txnD(7) [OF T] by (simp add: sized_def)
  obtain bp s1 s2 s3 where S: "bread D ROOTDEV n s = Ok (bp, s1)" "bdata (bufs s1 bp) = view s n" "lstep s s1"
      "log_write bp (upd_buf bp (bdata_update (bit_set (unat r mod BPB))) s1) = Ok s2" "brelse bp s2 = Ok s3" "lstep s s3" "txn s3 p H (Suc k)"
      "view s3 = (view s)(n := bit_set (unat r mod BPB) (view s n))" "log_area (klog s3) = log_area (klog s)"
    using txn_update [OF D T n', of "bit_set (unat r mod BPB)"] len by blast
  have r': "r \<notin> ran H" "unat r < 2 ^ 31" "r \<notin> log_area (klog s3)"
    using H ok rs by (auto simp: off_bitmap_def bitmap_ok_def S(9) word_less_nat_alt)
  obtain s4 where Z: "bzero D ROOTDEV r s3 = Ok s4" "lstep s3 s4" "txn s4 p H k" "view s4 = (view s3)(r := replicate BSIZE 0)"
      "log_area (klog s4) = log_area (klog s3)"
    using bzero_spec [OF D S(7) r'] by blast
  have "allocated s r s4" using r Z(4) S(8) by (simp add: allocated_def n)
  then show ?thesis
    using S Z lstep_trans [OF S(6) Z(2)] lstep_fs(1) [OF S(3)]
    by (intro exI [of _ bp] exI [of _ s1] exI [of _ s2] exI [of _ s3] exI [of _ s4]) simp
qed

lemma allocated_used:
  assumes ok: "bitmap_ok s" and len: "sized s" and al: "allocated s r s'" and sb: "sb s' = sb s" and c: "c < sb_size (sb s)"
  shows "used s' c \<longleftrightarrow> used s c \<or> c = r"
proof -
  have r: "r < sb_size (sb s)" "\<not> used s r" using al by (simp_all add: allocated_def first_free_def)
  have "BBLOCK c (sb s) \<noteq> r" using ok c r by (auto simp: bitmap_ok_def)
  then have "view s' (BBLOCK c (sb s)) = (if BBLOCK c (sb s) = BBLOCK r (sb s) then bit_set (unat r mod BPB) (view s (BBLOCK r (sb s))) else view s (BBLOCK c (sb s)))"
    using al by (simp add: allocated_def)
  then show ?thesis using used_update(1) [OF ok r(1) c sb len, of bit_set] by simp
qed

lemma first_free_scan:
  assumes ok: "bitmap_ok s" and b: "b mod BPB = 0" "b < unat (sb_size (sb s))" and low: "\<forall>c. unat c < b \<longrightarrow> used s c"
    and d: "d = view s (BBLOCK (word_of_nat b) (sb s))"
  shows "balloc_scan d b (unat (sb_size (sb s))) 0 = Some bi \<Longrightarrow> first_free s (word_of_nat (b + bi)) \<and> unat (word_of_nat (b + bi) :: uint32) = b + bi \<and>
      bi < BPB \<and> BBLOCK (word_of_nat b) (sb s) = BBLOCK (word_of_nat (b + bi)) (sb s)"
    "balloc_scan d b (unat (sb_size (sb s))) 0 = None \<Longrightarrow> unat c < b + BPB \<Longrightarrow> c < sb_size (sb s) \<Longrightarrow> used s c"
proof -
  have sz: "unat (sb_size (sb s)) < 2 ^ 32" using unat_uint32_less by simp
  have ub: "unat (word_of_nat b :: uint32) = b" using b(2) sz by (simp add: unat_of_nat)
  have in_block: "BBLOCK c (sb s) = BBLOCK (word_of_nat b) (sb s)" "unat c mod BPB = unat c - b"
    if "b \<le> unat c" "unat c < b + BPB" "c < sb_size (sb s)" for c
  proof -
    obtain q where q: "b = q * BPB" using b(1) by (metis div_mult_mod_eq add_0_right)
    define j where "j = unat c - b"
    have j: "unat c = j + q * BPB" "j < BPB" using that q by (auto simp: j_def)
    have "unat c div BPB = q" "unat c mod BPB = j" unfolding j(1) using j(2) by simp_all
    then have "unat c div BPB = b div BPB" "unat c mod BPB = unat c - b" using q j(2) by (simp_all add: j_def)
    then show "BBLOCK c (sb s) = BBLOCK (word_of_nat b) (sb s)" "unat c mod BPB = unat c - b"
      using BBLOCK_eq_iff [OF ok that(3), of "word_of_nat b"] ub b(2) that by (auto simp: word_less_nat_alt)
  qed
  show "used s c" if "balloc_scan d b (unat (sb_size (sb s))) 0 = None" "unat c < b + BPB" "c < sb_size (sb s)"
  proof (cases "unat c < b")
    case False
    then show ?thesis
      using balloc_scan_spec(2) [OF that(1), of "unat c - b"] in_block [of c] that by (auto simp: used_def d word_less_nat_alt)
  qed (use low in simp)
  show "first_free s (word_of_nat (b + bi)) \<and> unat (word_of_nat (b + bi) :: uint32) = b + bi \<and>
      bi < BPB \<and> BBLOCK (word_of_nat b) (sb s) = BBLOCK (word_of_nat (b + bi)) (sb s)" if "balloc_scan d b (unat (sb_size (sb s))) 0 = Some bi"
  proof -
    note S = balloc_scan_spec(1) [OF that]
    define r :: uint32 where "r = word_of_nat (b + bi)"
    have ur: "unat r = b + bi" unfolding r_def using S sz by (simp add: unat_of_nat del: of_nat_add)
    have r: "r < sb_size (sb s)" using ur S by (simp add: word_less_nat_alt)
    note B = in_block [of r, unfolded ur, OF _ _ r]
    have "\<not> used s r" using S B by (simp add: used_def d ur)
    moreover have "used s c" if c: "c < r" for c
    proof (cases "unat c < b")
      case False
      have "c < sb_size (sb s)" "unat c < b + bi" using c r ur by (auto simp: word_less_nat_alt)
      then show ?thesis using False S in_block [of c] by (simp add: used_def d)
    qed (use low in simp)
    ultimately show ?thesis using r ur S B(1) unfolding r_def [symmetric] by (simp add: first_free_def)
  qed
qed

lemma balloc_loop_spec:
  assumes D: "virtio_device D"
  shows "txn s p H (Suc (Suc k)) \<Longrightarrow> bitmap_ok s \<Longrightarrow> off_bitmap s H \<Longrightarrow> b mod BPB = 0 \<Longrightarrow>
    (\<And>c. unat c < b \<Longrightarrow> c < sb_size (sb s) \<Longrightarrow> used s c) \<Longrightarrow>
    \<exists>r s'. balloc_loop D ROOTDEV b s = Ok (r, s') \<and> lstep s s' \<and> txn s' p H k \<and> log_area (klog s') = log_area (klog s) \<and>
      (r = 0 \<and> (\<forall>c < sb_size (sb s). used s c) \<and> view s' = view s \<or> allocated s r s')"
proof (induction "2 ^ 32 - b" arbitrary: s b rule: less_induct)
  case less
  note T = less.prems(1) and ok = less.prems(2)
  show ?case
  proof (cases "b < unat (sb_size (sb s))")
    case False
    have "used s c" if "c < sb_size (sb s)" for c using less.prems(5) [of c] that False by (simp add: word_less_nat_alt)
    then show ?thesis using False txn_mono [OF T, of k] by (intro exI [of _ 0] exI [of _ s]) (simp add: balloc_loop.simps [of D ROOTDEV b s])
  next
    case True
    define n d where "n = BBLOCK (word_of_nat b) (sb s)" and "d = view s n"
    have low: "\<forall>c. unat c < b \<longrightarrow> used s c" using less.prems(5) True by (simp add: word_less_nat_alt)
    note F = first_free_scan [OF ok less.prems(4) True low d_def [unfolded n_def], folded n_def]
    show ?thesis
    proof (cases "balloc_scan d b (unat (sb_size (sb s))) 0")
      case (Some bi)
      define r :: uint32 where "r = word_of_nat (b + bi)"
      have R: "first_free s r" "unat r = b + bi" "bi < BPB" "n = BBLOCK r (sb s)" using F(1) [OF Some] by (simp_all add: r_def del: of_nat_add)
      have m: "unat r mod BPB = bi" using R(2,3) less.prems(4) by (auto simp: mod_add_left_eq [symmetric])
      obtain bp s1 s2 s3 s4 where S: "bread D ROOTDEV n s = Ok (bp, s1)" "bdata (bufs s1 bp) = d" "sb s1 = sb s"
          "log_write bp (upd_buf bp (bdata_update (bit_set bi)) s1) = Ok s2" "brelse bp s2 = Ok s3" "bzero D ROOTDEV r s3 = Ok s4"
          "lstep s s4" "txn s4 p H k" "log_area (klog s4) = log_area (klog s)" "allocated s r s4"
        using balloc_here [OF D T ok less.prems(3) R(1,4)] unfolding m d_def by blast
      have "balloc_loop D ROOTDEV b s = Ok (r, s4)"
        using True Some S(1-6) by (simp add: balloc_loop.simps [of D ROOTDEV b s] n_def [symmetric] r_def [symmetric] Let_def bit_set_def [abs_def] del: of_nat_add)
      then show ?thesis using S(7-10) by blast
    next
      case None
      have n: "n \<notin> ran H" "unat n < 2 ^ 31"
        using less.prems(3) True unat_BBLOCK(2) [OF ok, of "word_of_nat b"] unat_uint32_less [of "sb_size (sb s)"]
        by (auto simp: off_bitmap_def n_def word_less_nat_alt unat_of_nat)
      obtain bp s1 s2 where S: "bread D ROOTDEV n s = Ok (bp, s1)" "bdata (bufs s1 bp) = d" "brelse bp s1 = Ok s2" "lstep s s1" "lstep s s2"
          "reading s2 p H (Suc (Suc k))" "view s2 = view s" "klog s2 = klog s"
        using reading_block [OF D txnD(1) [OF T] n] unfolding d_def by blast
      have T2: "txn s2 p H (Suc (Suc k))" by (rule txn_reading [OF T S(6,8)])
      note sb = lstep_fs(1) [OF S(4)] lstep_fs(1) [OF S(5)]
      have u: "used s2 = used s" by (rule used_view [OF S(7) sb(2)])
      have small: "b + BPB < 2 ^ 32" using True ok by (simp add: bitmap_ok_def BPB_def BSIZE_def)
      have "bitmap_ok s2" using ok by (rule bitmap_ok_grow) (simp_all add: sb S(8) u)
      moreover have "off_bitmap s2 H" using less.prems(3) by (simp add: off_bitmap_def sb u)
      moreover have "(b + BPB) mod BPB = 0" using less.prems(4) by simp
      moreover have "2 ^ 32 - (b + BPB) < 2 ^ 32 - b" using small by (simp add: BPB_def BSIZE_def)
      ultimately obtain r s' where L: "balloc_loop D ROOTDEV (b + BPB) s2 = Ok (r, s')" "lstep s2 s'" "txn s' p H k" "log_area (klog s') = log_area (klog s2)"
          "r = 0 \<and> (\<forall>c < sb_size (sb s2). used s2 c) \<and> view s' = view s2 \<or> allocated s2 r s'"
        using less.hyps [of "b + BPB" s2] T2 F(2) [OF None] unfolding u sb by metis
      have "balloc_loop D ROOTDEV b s = Ok (r, s')"
        using True None S(1-3) L(1) small sb by (simp add: balloc_loop.simps [of D ROOTDEV b s] n_def [symmetric])
      moreover have "allocated s2 r s' = allocated s r s'" by (simp add: allocated_def first_free_def u sb S(7))
      ultimately show ?thesis using L lstep_trans [OF S(5) L(2)] S(7,8) u sb by (intro exI [of _ r] exI [of _ s']) simp
    qed
  qed
qed

end
