(* ===== verification/Fs_Inode.thy ===== *)
theory Fs_Inode
  imports Fs_Block
begin

text \<open>
  Inodes over transactions. \<open>faddr s ip\<close> maps the block numbers of a file to disk blocks, through
  the direct addresses and the indirect block; \<open>fblk s ip\<close> are the contents of the blocks of the
  file, where a block that is not allocated reads as zeros, and \<open>fdata s ip\<close> is the content of the
  file. \<^verbatim>\<open>bmap\<close> may allocate but never changes \<open>fblk\<close>; \<^verbatim>\<open>readi\<close> returns a slice of \<open>fdata\<close> and
  \<^verbatim>\<open>writei\<close> replaces one.
\<close>

section \<open>The sleep-lock of an inode\<close>

interpretation inolk: sleeplock_ref "inodelock ip" for ip
  by unfold_locales (simp_all add: inodelock_def upd_inode_def)

lemma inodelock_sel [simp]:
  "sl_get (inodelock ip) s = ilk (itable s ip)" "sl_put (inodelock ip) l s = upd_inode ip (ilk_update (\<lambda>_. l)) s"
  "sl_chan (inodelock ip) = Chan ''inode.lock'' ip"
  by (simp_all add: inodelock_def)

section \<open>Frames\<close>

lemma upd_inode_simps [simp]:
  "itable (upd_inode ip f s) = (itable s)(ip := f (itable s ip))" "sb (upd_inode ip f s) = sb s" "klog (upd_inode ip f s) = klog s"
  "view (upd_inode ip f s) = view s" "vdev (upd_inode ip f s) = vdev s" "bufs (upd_inode ip f s) = bufs s" "mem (upd_inode ip f s) = mem s"
  "ptable (upd_inode ip f s) = ptable s" "mycpu (upd_inode ip f s) = mycpu s" "itable_lock (upd_inode ip f s) = itable_lock s"
  by (simp_all add: upd_inode_def) (simp add: view_def)

lemma bres_upd_inode [simp]: "bres (upd_inode ip f s) p P H \<longleftrightarrow> bres s p P H"
  by (simp add: bres_def bio_run_def bio_ok_def running_def upd_inode_def)

lemma log_inv_upd_inode [simp]: "log_inv (upd_inode ip f s) p H \<longleftrightarrow> log_inv s p H"
  by (simp add: log_inv_def sized_def)

lemma reading_upd_inode [simp]: "reading (upd_inode ip f s) p H k \<longleftrightarrow> reading s p H k"
  by (simp add: reading_def clean_def)

lemma txn_upd_inode [simp]: "txn (upd_inode ip f s) p H k \<longleftrightarrow> txn s p H k"
  by (simp add: txn_def)

lemma used_upd_inode [simp]: "used (upd_inode ip f s) = used s"
  by (rule used_view) simp_all

lemma log_inv_crit:
  assumes "log_inv s p H"
  shows "log_inv (s\<lparr>mycpu := crit (mycpu s)\<rparr>) p H"
  by (rule log_inv_frame [OF assms woke_crit]) (use log_invD(1,2) [OF assms] in simp_all)

lemma view_crit [simp]: "view (s\<lparr>mycpu := c\<rparr>) = view s" "view (s\<lparr>mem := m\<rparr>) = view s" "view (s\<lparr>ptable := t\<rparr>) = view s"
  by (simp_all add: view_def)

lemma reading_crit: "reading s p H k \<Longrightarrow> reading (s\<lparr>mycpu := crit (mycpu s)\<rparr>) p H k"
  using log_inv_crit [of s p H] by (simp add: reading_def clean_def)

section \<open>Where the blocks of a file are\<close>

definition iind :: "'a fsys_scheme \<Rightarrow> nat \<Rightarrow> uint32" where
  "iind s ip = iaddrs (itable s ip) ! NDIRECT"

definition faddr :: "'a fsys_scheme \<Rightarrow> nat \<Rightarrow> nat \<Rightarrow> uint32" where
  "faddr s ip bn = (if bn < NDIRECT then iaddrs (itable s ip) ! bn
     else if iind s ip = 0 then 0 else get32 (view s (iind s ip)) (4 * (bn - NDIRECT)))"

definition fblk :: "'a fsys_scheme \<Rightarrow> nat \<Rightarrow> nat \<Rightarrow> uchar list" where
  "fblk s ip bn = (if faddr s ip bn = 0 then replicate BSIZE 0 else view s (faddr s ip bn))"

definition fbytes :: "'a fsys_scheme \<Rightarrow> nat \<Rightarrow> nat \<Rightarrow> nat \<Rightarrow> uchar list" where
  "fbytes s ip off n = map (\<lambda>j. fblk s ip (j div BSIZE) ! (j mod BSIZE)) [off..<off + n]"

definition fdata :: "'a fsys_scheme \<Rightarrow> nat \<Rightarrow> uchar list" where
  "fdata s ip = fbytes s ip 0 (unat (isize (itable s ip)))"

lemma length_fbytes [simp]: "length (fbytes s ip off n) = n"
  by (simp add: fbytes_def)

lemma fdata_slice: "off + n \<le> unat (isize (itable s ip)) \<Longrightarrow> take n (drop off (fdata s ip)) = fbytes s ip off n"
  by (simp add: fdata_def fbytes_def drop_map take_map drop_upt take_upt)

lemma fbytes_append: "fbytes s ip off m @ fbytes s ip (off + m) n = fbytes s ip off (m + n)"
  using upt_add_eq_append [of off "off + m" n] by (simp add: fbytes_def add.assoc flip: map_append)

lemma div_mod_within:
  fixes a i B :: nat
  assumes "a mod B + i < B"
  shows "(a + i) div B = a div B" "(a + i) mod B = a mod B + i"
proof -
  define q r where "q = a div B" and "r = a mod B"
  have a: "a + i = (r + i) + q * B" using div_mult_mod_eq [of a B] by (simp add: q_def r_def)
  have "(r + i + q * B) div B = q" "(r + i + q * B) mod B = r + i" using assms by (simp_all add: r_def [symmetric])
  then show "(a + i) div B = a div B" "(a + i) mod B = a mod B + i" unfolding a by (simp_all add: q_def r_def)
qed

lemma fbytes_chunk:
  assumes "length (fblk s ip (off div BSIZE)) = BSIZE" and "off mod BSIZE + m \<le> BSIZE"
  shows "get_bytes (fblk s ip (off div BSIZE)) (off mod BSIZE) m = fbytes s ip off m"
proof (rule nth_equalityI)
  show "length (get_bytes (fblk s ip (off div BSIZE)) (off mod BSIZE) m) = length (fbytes s ip off m)"
    using assms by (simp add: get_bytes_def)
  fix i assume "i < length (get_bytes (fblk s ip (off div BSIZE)) (off mod BSIZE) m)"
  then have i: "i < m" by (simp add: get_bytes_def)
  have "(off + i) div BSIZE = off div BSIZE" "(off + i) mod BSIZE = off mod BSIZE + i"
    using div_mod_within [of off BSIZE i] i assms(2) by simp_all
  then show "get_bytes (fblk s ip (off div BSIZE)) (off mod BSIZE) m ! i = fbytes s ip off m ! i"
    using i assms by (simp add: get_bytes_def fbytes_def)
qed

lemma f_view_cong:
  assumes "view s' = view s" and "itable s' = itable s"
  shows "iind s' ip = iind s ip" "faddr s' ip = faddr s ip" "fblk s' ip = fblk s ip" "fbytes s' ip = fbytes s ip" "fdata s' ip = fdata s ip"
proof -
  show 1: "iind s' ip = iind s ip" using assms by (simp add: iind_def)
  show 2: "faddr s' ip = faddr s ip" using assms 1 by (simp add: faddr_def fun_eq_iff)
  show 3: "fblk s' ip = fblk s ip" using assms 2 by (simp add: fblk_def fun_eq_iff)
  show 4: "fbytes s' ip = fbytes s ip" using 3 by (simp add: fbytes_def fun_eq_iff)
  show "fdata s' ip = fdata s ip" using 4 assms by (simp add: fdata_def)
qed

section \<open>The layout of the disk\<close>

text \<open>
  The blocks of inodes are marked in the bitmap, apart from the bitmap and from the log. The
  blocks of a file are marked, apart from all of these, and each is used once.
\<close>

definition fs_ok :: "'a fsys_scheme \<Rightarrow> bool" where
  "fs_ok s \<longleftrightarrow> bitmap_ok s \<and> (\<forall>i < sb_ninodes (sb s). unat (IBLOCK i (sb s)) < 2 ^ 31 \<and> IBLOCK i (sb s) \<notin> log_area (klog s) \<and>
     (IBLOCK i (sb s) < sb_size (sb s) \<longrightarrow> used s (IBLOCK i (sb s))) \<and> (\<forall>c < sb_size (sb s). IBLOCK i (sb s) \<noteq> BBLOCK c (sb s)))"

definition data_block :: "'a fsys_scheme \<Rightarrow> uint32 \<Rightarrow> bool" where
  "data_block s b \<longleftrightarrow> b \<noteq> 0 \<and> b < sb_size (sb s) \<and> used s b \<and> b \<notin> log_area (klog s) \<and>
     (\<forall>c < sb_size (sb s). b \<noteq> BBLOCK c (sb s)) \<and> (\<forall>i < sb_ninodes (sb s). b \<noteq> IBLOCK i (sb s))"

definition fblocks :: "'a fsys_scheme \<Rightarrow> nat \<Rightarrow> uint32 set" where
  "fblocks s ip = insert (iind s ip) (faddr s ip ` {..<MAXFILE}) - {0}"

definition inode_ok :: "'a fsys_scheme \<Rightarrow> nat \<Rightarrow> bool" where
  "inode_ok s ip \<longleftrightarrow> idev (itable s ip) = ROOTDEV \<and> inum (itable s ip) < sb_ninodes (sb s) \<and> length (iaddrs (itable s ip)) = NDIRECT + 1 \<and>
     (\<forall>b \<in> fblocks s ip. data_block s b) \<and> (\<forall>i < MAXFILE. \<forall>j < MAXFILE. faddr s ip i = faddr s ip j \<longrightarrow> faddr s ip i \<noteq> 0 \<longrightarrow> i = j) \<and>
     (\<forall>i < MAXFILE. faddr s ip i = iind s ip \<longrightarrow> iind s ip = 0)"

lemma data_block31: "fs_ok s \<Longrightarrow> data_block s b \<Longrightarrow> unat b < 2 ^ 31"
  by (auto simp: fs_ok_def bitmap_ok_def data_block_def word_less_nat_alt)

text \<open>Allocation adds a zeroed data block that was no one's and keeps the content of all others.\<close>

lemma allocated_frame:
  assumes ok: "fs_ok s" and len: "sized s" and al: "allocated s r s'" and st: "lstep s s'" and la: "log_area (klog s') = log_area (klog s)"
  shows "fs_ok s'" "data_block s' r" "view s' r = replicate BSIZE 0" "\<not> used s r"
    "data_block s b \<Longrightarrow> data_block s' b \<and> b \<noteq> r \<and> view s' b = view s b"
    "i < sb_ninodes (sb s) \<Longrightarrow> view s' (IBLOCK i (sb s)) = view s (IBLOCK i (sb s))"
    "c < sb_size (sb s) \<Longrightarrow> used s' c \<longleftrightarrow> used s c \<or> c = r"
proof -
  have bm: "bitmap_ok s" using ok by (simp add: fs_ok_def)
  note sb = lstep_fs(1) [OF st]
  have r: "r < sb_size (sb s)" "\<not> used s r" using al by (simp_all add: allocated_def first_free_def)
  have v: "view s' = (view s)(BBLOCK r (sb s) := bit_set (unat r mod BPB) (view s (BBLOCK r (sb s))), r := replicate BSIZE 0)"
    using al by (simp add: allocated_def)
  note u = allocated_used [OF bm len al sb]
  then show u': "c < sb_size (sb s) \<Longrightarrow> used s' c \<longleftrightarrow> used s c \<or> c = r" for c .
  show "\<not> used s r" by (rule r(2))
  show "view s' r = replicate BSIZE 0" by (simp add: v)
  have r0: "r \<noteq> 0" "r \<notin> log_area (klog s)" using r bm by (auto simp: bitmap_ok_def)
  have rb: "r \<noteq> BBLOCK c (sb s)" if "c < sb_size (sb s)" for c using r bm that by (auto simp: bitmap_ok_def)
  have ri: "r \<noteq> IBLOCK i (sb s)" if "i < sb_ninodes (sb s)" for i using r ok that by (auto simp: fs_ok_def)
  show "data_block s' r" using r r0 rb ri u [OF r(1)] by (simp add: data_block_def sb la)
  show "data_block s b \<Longrightarrow> data_block s' b \<and> b \<noteq> r \<and> view s' b = view s b"
    using r u [of b] by (auto simp: data_block_def sb la v)
  show "i < sb_ninodes (sb s) \<Longrightarrow> view s' (IBLOCK i (sb s)) = view s (IBLOCK i (sb s))"
    using ri [of i] ok r(1) by (auto simp: v fs_ok_def)
  have "0 < sb_size (sb s)" using r(1) by (metis word_gt_0 word_not_simps(1))
  then have mono: "c = 0 \<or> c < sb_size (sb s) \<Longrightarrow> used s c \<Longrightarrow> used s' c" for c using u by blast
  have "bitmap_ok s'" by (rule bitmap_ok_grow [OF bm sb la mono])
  then show "fs_ok s'" using ok mono by (auto simp: fs_ok_def sb la)
qed

text \<open>The file is the same when its blocks are.\<close>

lemma file_cong:
  assumes "iaddrs (itable s' ip) = iaddrs (itable s ip)" and "\<And>b. b \<in> fblocks s ip \<Longrightarrow> view s' b = view s b"
  shows "iind s' ip = iind s ip" "bn < MAXFILE \<Longrightarrow> faddr s' ip bn = faddr s ip bn" "bn < MAXFILE \<Longrightarrow> fblk s' ip bn = fblk s ip bn" "fblocks s' ip = fblocks s ip"
proof -
  show 1: "iind s' ip = iind s ip" using assms(1) by (simp add: iind_def)
  have v: "iind s ip \<noteq> 0 \<Longrightarrow> view s' (iind s ip) = view s (iind s ip)" using assms(2) by (simp add: fblocks_def)
  show 2: "bn < MAXFILE \<Longrightarrow> faddr s' ip bn = faddr s ip bn" for bn using assms(1) 1 v by (simp add: faddr_def)
  then show "fblocks s' ip = fblocks s ip" by (simp add: fblocks_def 1)
  show "bn < MAXFILE \<Longrightarrow> fblk s' ip bn = fblk s ip bn" using 2 assms(2) by (simp add: fblk_def fblocks_def)
qed

section \<open>Steps on one file\<close>

definition mach_same :: "'a fsys_scheme \<Rightarrow> 'a fsys_scheme \<Rightarrow> bool" where
  "mach_same s s' \<longleftrightarrow> woke s s' \<and> mem s' = mem s \<and> kend s' = kend s \<and> kmem_lock s' = kmem_lock s \<and> freelist s' = freelist s \<and>
     sb s' = sb s \<and> itable_lock s' = itable_lock s"

lemma lstep_mach: "lstep s s' \<Longrightarrow> mach_same s s'"
  by (auto simp: lstep_def vst_def mach_same_def)

lemma mach_same_trans: "mach_same s s' \<Longrightarrow> mach_same s' s'' \<Longrightarrow> mach_same s s''"
  using woke_trans [of s s' s''] by (simp add: mach_same_def)

lemma mach_same_refl [simp]: "mach_same s s"
  by (simp add: mach_same_def)

lemma mach_same_upd_inode [simp]: "mach_same s (upd_inode ip f s') = mach_same s s'"
  by (simp add: mach_same_def upd_inode_def woke_def)

definition fs_step :: "'a fsys_scheme \<Rightarrow> nat \<Rightarrow> 'a fsys_scheme \<Rightarrow> bool" where
  "fs_step s ip s' \<longleftrightarrow> mach_same s s' \<and> log_area (klog s') = log_area (klog s) \<and> (\<forall>j. j \<noteq> ip \<longrightarrow> itable s' j = itable s j) \<and>
     (itable s' ip)\<lparr>iaddrs := []\<rparr> = (itable s ip)\<lparr>iaddrs := []\<rparr> \<and>
     (\<forall>b. data_block s b \<longrightarrow> data_block s' b) \<and> (\<forall>b. data_block s b \<longrightarrow> b \<notin> fblocks s ip \<longrightarrow> b \<notin> fblocks s' ip \<and> view s' b = view s b) \<and>
     (\<forall>i < sb_ninodes (sb s). view s' (IBLOCK i (sb s)) = view s (IBLOCK i (sb s))) \<and>
     (\<forall>bn < MAXFILE. faddr s ip bn \<noteq> 0 \<longrightarrow> faddr s' ip bn = faddr s ip bn)"

lemma fs_stepD:
  assumes "fs_step s ip s'"
  shows "mach_same s s'" "sb s' = sb s" "log_area (klog s') = log_area (klog s)" "j \<noteq> ip \<Longrightarrow> itable s' j = itable s j"
    "idev (itable s' ip) = idev (itable s ip)" "inum (itable s' ip) = inum (itable s ip)" "isize (itable s' ip) = isize (itable s ip)"
    "data_block s b \<Longrightarrow> data_block s' b" "data_block s b \<Longrightarrow> b \<notin> fblocks s ip \<Longrightarrow> b \<notin> fblocks s' ip \<and> view s' b = view s b"
    "i < sb_ninodes (sb s) \<Longrightarrow> view s' (IBLOCK i (sb s)) = view s (IBLOCK i (sb s))"
    "bn < MAXFILE \<Longrightarrow> faddr s ip bn \<noteq> 0 \<Longrightarrow> faddr s' ip bn = faddr s ip bn"
proof -
  have i: "(itable s' ip)\<lparr>iaddrs := []\<rparr> = (itable s ip)\<lparr>iaddrs := []\<rparr>" using assms by (simp add: fs_step_def)
  show "idev (itable s' ip) = idev (itable s ip)" "inum (itable s' ip) = inum (itable s ip)" "isize (itable s' ip) = isize (itable s ip)"
    using arg_cong [OF i, of idev] arg_cong [OF i, of inum] arg_cong [OF i, of isize] by simp_all
qed (use assms in \<open>auto simp: fs_step_def mach_same_def\<close>)

lemma fs_step_refl [simp]: "fs_step s ip s"
  by (simp add: fs_step_def)

lemma fs_step_trans:
  assumes "fs_step s ip s'" and "fs_step s' ip s''"
  shows "fs_step s ip s''"
  using assms mach_same_trans [of s s' s''] fs_stepD(2) [OF assms(1)] unfolding fs_step_def by auto

lemma inode_keep:
  assumes ok: "inode_ok s ip" and "itable s' = itable s" and "sb s' = sb s" and v: "\<And>b. data_block s b \<Longrightarrow> data_block s' b \<and> view s' b = view s b"
  shows "inode_ok s' ip" "iind s' ip = iind s ip" "bn < MAXFILE \<Longrightarrow> faddr s' ip bn = faddr s ip bn" "bn < MAXFILE \<Longrightarrow> fblk s' ip bn = fblk s ip bn"
    "fblocks s' ip = fblocks s ip"
proof -
  have "view s' b = view s b" if "b \<in> fblocks s ip" for b using ok v [of b] that by (simp add: inode_ok_def)
  note C = file_cong [OF _ this, of ip, unfolded assms(2), OF refl]
  show C': "iind s' ip = iind s ip" "bn < MAXFILE \<Longrightarrow> faddr s' ip bn = faddr s ip bn" "bn < MAXFILE \<Longrightarrow> fblk s' ip bn = fblk s ip bn"
    "fblocks s' ip = fblocks s ip" for bn by (use C in auto)
  show "inode_ok s' ip" using ok v C' assms(2,3) by (auto simp: inode_ok_def)
qed

text \<open>Putting a fresh block into the map of a file.\<close>

definition fresh :: "'a fsys_scheme \<Rightarrow> nat \<Rightarrow> uint32 \<Rightarrow> bool" where
  "fresh s ip r \<longleftrightarrow> data_block s r \<and> r \<notin> fblocks s ip \<and> view s r = replicate BSIZE 0"

lemma inode_install:
  assumes ok: "inode_ok s ip" and r: "fresh s ip r" and bn: "bn < MAXFILE" "faddr s ip bn = 0"
    and i: "idev (itable s' ip) = idev (itable s ip)" "inum (itable s' ip) = inum (itable s ip)" "length (iaddrs (itable s' ip)) = NDIRECT + 1"
    and sb: "sb s' = sb s" and ind: "iind s' ip = iind s ip" and db: "\<And>b. data_block s b \<Longrightarrow> data_block s' b"
    and fa: "\<And>j. j < MAXFILE \<Longrightarrow> faddr s' ip j = (if j = bn then r else faddr s ip j)"
    and v: "\<And>b. data_block s b \<Longrightarrow> b \<noteq> iind s ip \<Longrightarrow> view s' b = view s b"
  shows "inode_ok s' ip" "fblocks s' ip = insert r (fblocks s ip)" "j < MAXFILE \<Longrightarrow> fblk s' ip j = fblk s ip j"
proof -
  have R: "data_block s r" "r \<notin> fblocks s ip" "view s r = replicate BSIZE 0" "r \<noteq> 0" using r by (auto simp: fresh_def data_block_def)
  have img: "faddr s' ip ` {..<MAXFILE} - {0} = insert r (faddr s ip ` {..<MAXFILE} - {0})"
  proof -
    have "faddr s' ip ` {..<MAXFILE} = (\<lambda>j. if j = bn then r else faddr s ip j) ` {..<MAXFILE}" using fa by (intro image_cong) auto
    also have "\<dots> - {0} = insert r (faddr s ip ` {..<MAXFILE} - {0})" using bn R(4) by (auto simp: image_iff)
    finally show ?thesis .
  qed
  show fb: "fblocks s' ip = insert r (fblocks s ip)"
    using img R(4) unfolding fblocks_def ind by (auto simp: insert_Diff_if)
  have rn: "r \<noteq> iind s ip" "j < MAXFILE \<Longrightarrow> r \<noteq> faddr s ip j" for j using R(2,4) by (auto simp: fblocks_def)
  show "inode_ok s' ip"
    unfolding inode_ok_def fb i sb ind
  proof (intro conjI allI impI ballI)
    show "i = j" if "i < MAXFILE" "j < MAXFILE" "faddr s' ip i = faddr s' ip j" "faddr s' ip i \<noteq> 0" for i j
      using that ok rn(2) [of i] rn(2) [of j] by (auto simp: fa inode_ok_def split: if_splits)
    show "iind s ip = 0" if "i < MAXFILE" "faddr s' ip i = iind s ip" for i
      using that ok rn(1) by (auto simp: fa inode_ok_def split: if_splits)
  qed (use ok db R(1) in \<open>auto simp: inode_ok_def\<close>)
  show "fblk s' ip j = fblk s ip j" if j: "j < MAXFILE" for j
  proof (cases "j = bn")
    case True
    then show ?thesis using fa [OF j] bn R rn(1) v [OF R(1)] by (simp add: fblk_def)
  next
    case False
    have "faddr s ip j \<noteq> 0 \<Longrightarrow> data_block s (faddr s ip j) \<and> faddr s ip j \<noteq> iind s ip"
      using ok j by (auto simp: inode_ok_def fblocks_def)
    then show ?thesis using fa [OF j] False v by (auto simp: fblk_def)
  qed
qed

section \<open>Mapping blocks\<close>

definition file_same :: "'a fsys_scheme \<Rightarrow> nat \<Rightarrow> 'a fsys_scheme \<Rightarrow> bool" where
  "file_same s ip s' \<longleftrightarrow> fs_ok s' \<and> inode_ok s' ip \<and> fs_step s ip s' \<and> (\<forall>j < MAXFILE. fblk s' ip j = fblk s ip j)"

lemma file_same_trans: "file_same s ip s' \<Longrightarrow> file_same s' ip s'' \<Longrightarrow> file_same s ip s''"
  using fs_step_trans [of s ip s' s''] by (simp add: file_same_def)

lemma file_same_view:
  assumes ok: "fs_ok s" "inode_ok s ip" and st: "lstep s s'" and v: "view s' = view s" and k: "klog s' = klog s \<or> log_area (klog s') = log_area (klog s)"
  shows "file_same s ip s'" "faddr s' ip = faddr s ip" "iind s' ip = iind s ip" "fblocks s' ip = fblocks s ip" "data_block s' = data_block s"
proof -
  note F = lstep_fs [OF st] used_view [OF v lstep_fs(1) [OF st]]
  note C = f_view_cong [OF v F(2)]
  have la: "log_area (klog s') = log_area (klog s)" using k by auto
  show fa: "faddr s' ip = faddr s ip" "iind s' ip = iind s ip" "fblocks s' ip = fblocks s ip" using C by (simp_all add: fblocks_def)
  show db: "data_block s' = data_block s" by (simp add: data_block_def fun_eq_iff F la)
  have "fs_ok s'" using ok(1) by (simp add: fs_ok_def bitmap_ok_def F la)
  moreover have "inode_ok s' ip" using ok(2) by (simp add: inode_ok_def fa db F)
  ultimately show "file_same s ip s'" using lstep_mach [OF st] C v la by (simp add: file_same_def fs_step_def fa db F)
qed

lemma balloc_fresh:
  assumes D: "virtio_device D" and T: "txn s p H (Suc (Suc k))" and ok: "fs_ok s" "inode_ok s ip" and H: "off_bitmap s H"
  shows "\<exists>r s'. balloc D ROOTDEV s = Ok (r, s') \<and> txn s' p H k \<and> file_same s ip s' \<and> itable s' = itable s \<and>
    (\<forall>j < MAXFILE. faddr s' ip j = faddr s ip j) \<and> iind s' ip = iind s ip \<and> (\<forall>b. data_block s b \<longrightarrow> view s' b = view s b) \<and>
    (if r = 0 then \<forall>c < sb_size (sb s). used s' c else fresh s' ip r \<and> \<not> used s r)"
proof -
  have bm: "bitmap_ok s" using ok(1) by (simp add: fs_ok_def)
  obtain r s' where S: "balloc D ROOTDEV s = Ok (r, s')" "lstep s s'" "txn s' p H k" "log_area (klog s') = log_area (klog s)"
      "r = 0 \<and> (\<forall>c < sb_size (sb s). used s c) \<and> view s' = view s \<or> allocated s r s'"
    using balloc_loop_spec [OF D T bm H, of 0] by (auto simp: balloc_def)
  note F = lstep_fs [OF S(2)]
  show ?thesis
    using S(5)
  proof
    assume f: "r = 0 \<and> (\<forall>c < sb_size (sb s). used s c) \<and> view s' = view s"
    note V = file_same_view [OF ok S(2) _ disjI2 [OF S(4)]]
    have "used s' = used s" by (rule used_view) (use f F in simp_all)
    then show ?thesis using S(1,3) V f F by (intro exI [of _ r] exI [of _ s']) simp
  next
    assume al: "allocated s r s'"
    note A = allocated_frame [OF ok(1) txnD(7) [OF T] al S(2,4)]
    have db: "data_block s b \<Longrightarrow> data_block s' b \<and> view s' b = view s b" for b using A(5) by blast
    note K = inode_keep [OF ok(2) F(2,1) db]
    have nf: "r \<notin> fblocks s ip" using A(5) ok(2) by (auto simp: inode_ok_def)
    have "fs_step s ip s'" using lstep_mach [OF S(2)] S(4) F db A(6) K(3,5) by (simp add: fs_step_def)
    then have "file_same s ip s'" using A(1) K(1,4) by (simp add: file_same_def)
    moreover have "fresh s' ip r" using A(2,3) nf K(5) by (simp add: fresh_def)
    ultimately show ?thesis using S(1,3) F(2) K(2,3) db A(2,4) by (intro exI [of _ r] exI [of _ s']) (auto simp: data_block_def)
  qed
qed

lemma set_direct:
  assumes ok: "fs_ok s" "inode_ok s ip" and r: "fresh s ip r" and bn: "bn < NDIRECT" "faddr s ip bn = 0"
  defines "s' \<equiv> upd_inode ip (\<lambda>i. i\<lparr>iaddrs := (iaddrs i)[bn := r]\<rparr>) s"
  shows "fs_ok s'" "inode_ok s' ip" "\<forall>j < MAXFILE. fblk s' ip j = fblk s ip j" "faddr s' ip bn = r" "fblocks s' ip = insert r (fblocks s ip)"
    "j < MAXFILE \<Longrightarrow> j \<noteq> bn \<Longrightarrow> faddr s' ip j = faddr s ip j" "data_block s' = data_block s"
proof -
  have len: "length (iaddrs (itable s ip)) = NDIRECT + 1" using ok(2) by (simp add: inode_ok_def)
  have bm: "bn < MAXFILE" using bn(1) by (simp add: MAXFILE_def)
  have ind: "iind s' ip = iind s ip" using bn(1) by (simp add: iind_def s'_def)
  show db: "data_block s' = data_block s" by (simp add: data_block_def fun_eq_iff s'_def)
  have fa: "faddr s' ip j = (if j = bn then r else faddr s ip j)" if "j < MAXFILE" for j
    using bn(1) len ind by (simp add: faddr_def s'_def)
  have I: "inode_ok s' ip" "fblocks s' ip = insert r (fblocks s ip)" "j < MAXFILE \<Longrightarrow> fblk s' ip j = fblk s ip j" for j
    by (rule inode_install [OF ok(2) r bm bn(2) _ _ _ _ ind _ fa]; use len db in \<open>simp add: s'_def\<close>)+
  then show "inode_ok s' ip" "fblocks s' ip = insert r (fblocks s ip)" "\<forall>j < MAXFILE. fblk s' ip j = fblk s ip j" by simp_all
  show "faddr s' ip bn = r" "j < MAXFILE \<Longrightarrow> j \<noteq> bn \<Longrightarrow> faddr s' ip j = faddr s ip j" using fa bm by simp_all
  show "fs_ok s'" using ok(1) by (simp add: fs_ok_def bitmap_ok_def s'_def)
qed

lemma get32_zeros: "i + 4 \<le> n \<Longrightarrow> get32 (replicate n 0) i = 0"
  by (simp add: get32_def get_bytes_def min_def numeral_eq_Suc of_le_bytes_def)

lemma set_indirect:
  assumes ok: "fs_ok s" "inode_ok s ip" and r: "fresh s ip r" and ind: "iind s ip = 0"
  defines "s' \<equiv> upd_inode ip (\<lambda>i. i\<lparr>iaddrs := (iaddrs i)[NDIRECT := r]\<rparr>) s"
  shows "fs_ok s'" "inode_ok s' ip" "\<forall>j < MAXFILE. fblk s' ip j = fblk s ip j" "iind s' ip = r" "fblocks s' ip = insert r (fblocks s ip)"
    "j < MAXFILE \<Longrightarrow> faddr s' ip j = faddr s ip j" "data_block s' = data_block s"
proof -
  have len: "length (iaddrs (itable s ip)) = NDIRECT + 1" using ok(2) by (simp add: inode_ok_def)
  have R: "data_block s r" "r \<notin> fblocks s ip" "view s r = replicate BSIZE 0" "r \<noteq> 0" using r by (auto simp: fresh_def data_block_def)
  show ind': "iind s' ip = r" using len by (simp add: iind_def s'_def)
  show db: "data_block s' = data_block s" by (simp add: data_block_def fun_eq_iff s'_def)
  show fa: "faddr s' ip j = faddr s ip j" if "j < MAXFILE" for j
    using that ind ind' R(3,4) get32_zeros [of "4 * (j - NDIRECT)" BSIZE]
    by (auto simp: faddr_def s'_def MAXFILE_def NINDIRECT_def BSIZE_def NDIRECT_def)
  then have img: "faddr s' ip ` {..<MAXFILE} = faddr s ip ` {..<MAXFILE}" by (intro image_cong) auto
  show fb: "fblocks s' ip = insert r (fblocks s ip)" using R(4) ind by (auto simp: fblocks_def ind' img)
  show "\<forall>j < MAXFILE. fblk s' ip j = fblk s ip j" using fa by (simp add: fblk_def) (simp add: s'_def)
  show "fs_ok s'" using ok(1) by (simp add: fs_ok_def bitmap_ok_def s'_def)
  have "r \<noteq> faddr s ip i" if "i < MAXFILE" for i using R(2,4) that by (auto simp: fblocks_def)
  then show "inode_ok s' ip" using ok(2) R(1) len unfolding inode_ok_def fb db ind' by (auto simp: fa) (auto simp: s'_def)
qed

text \<open>Writing a data block.\<close>

lemma data_write:
  assumes ok: "fs_ok s" and b: "data_block s b" and v: "view s' = (view s)(b := x)" and sb: "sb s' = sb s" and la: "log_area (klog s') = log_area (klog s)"
  shows "fs_ok s'" "data_block s' = data_block s" "i < sb_ninodes (sb s) \<Longrightarrow> view s' (IBLOCK i (sb s)) = view s (IBLOCK i (sb s))"
    "c < sb_size (sb s) \<Longrightarrow> used s' c = used s c"
proof -
  have u: "used s' c = used s c" if "c < sb_size (sb s)" for c using b that by (auto simp: used_def v sb data_block_def)
  then show "c < sb_size (sb s) \<Longrightarrow> used s' c = used s c" .
  show "data_block s' = data_block s" using u by (auto simp: data_block_def fun_eq_iff sb la)
  have "0 < sb_size (sb s)" using b by (auto simp: data_block_def) (metis word_gt_0 word_not_simps(1))
  then have "bitmap_ok s'" using ok u by (auto simp: fs_ok_def bitmap_ok_def sb la)
  then show "fs_ok s'" using ok u by (auto simp: fs_ok_def sb la)
  show "i < sb_ninodes (sb s) \<Longrightarrow> view s' (IBLOCK i (sb s)) = view s (IBLOCK i (sb s))" using b by (auto simp: data_block_def v)
qed

lemma set_entry:
  assumes ok: "fs_ok s" "inode_ok s ip" and len: "sized s" and r: "fresh s ip r" and bn: "NDIRECT \<le> bn" "bn < MAXFILE" "faddr s ip bn = 0" and ind: "iind s ip \<noteq> 0"
    and v: "view s' = (view s)(iind s ip := put32 (view s (iind s ip)) (4 * (bn - NDIRECT)) r)"
    and sb: "sb s' = sb s" and la: "log_area (klog s') = log_area (klog s)" and it: "itable s' = itable s"
  shows "fs_ok s'" "inode_ok s' ip" "\<forall>j < MAXFILE. fblk s' ip j = fblk s ip j" "faddr s' ip bn = r" "fblocks s' ip = insert r (fblocks s ip)"
    "j < MAXFILE \<Longrightarrow> j \<noteq> bn \<Longrightarrow> faddr s' ip j = faddr s ip j" "data_block s' = data_block s"
    "i < sb_ninodes (sb s) \<Longrightarrow> view s' (IBLOCK i (sb s)) = view s (IBLOCK i (sb s))"
proof -
  have di: "data_block s (iind s ip)" using ok(2) ind by (simp add: inode_ok_def fblocks_def)
  note W = data_write [OF ok(1) di v sb la]
  have ind': "iind s' ip = iind s ip" by (simp add: iind_def it)
  have l: "length (view s (iind s ip)) = 1024" using len by (simp add: sized_def BSIZE_def)
  have k: "4 * (j - NDIRECT) + 4 \<le> 1024" if "j < MAXFILE" for j using that by (simp add: MAXFILE_def NINDIRECT_def BSIZE_def NDIRECT_def)
  have fa: "faddr s' ip j = (if j = bn then r else faddr s ip j)" if j: "j < MAXFILE" for j
  proof (cases "j < NDIRECT")
    case True
    then show ?thesis using bn(1) by (simp add: faddr_def it)
  next
    case False
    then have "4 * (j - NDIRECT) + 4 \<le> 4 * (bn - NDIRECT) \<or> 4 * (bn - NDIRECT) + 4 \<le> 4 * (j - NDIRECT)" if "j \<noteq> bn"
      using that bn(1) by linarith
    then show ?thesis using False ind k [OF bn(2)] k [OF j] l by (auto simp: faddr_def ind' v)
  qed
  have I: "inode_ok s' ip" "fblocks s' ip = insert r (fblocks s ip)" "j < MAXFILE \<Longrightarrow> fblk s' ip j = fblk s ip j" for j
    by (rule inode_install [OF ok(2) r bn(2,3) _ _ _ sb ind' _ fa]; use ok(2) it W(2) v in \<open>simp add: inode_ok_def\<close>)+
  then show "inode_ok s' ip" "fblocks s' ip = insert r (fblocks s ip)" "\<forall>j < MAXFILE. fblk s' ip j = fblk s ip j" by simp_all
  show "faddr s' ip bn = r" "j < MAXFILE \<Longrightarrow> j \<noteq> bn \<Longrightarrow> faddr s' ip j = faddr s ip j" using fa bn by simp_all
  show "fs_ok s'" "data_block s' = data_block s" "i < sb_ninodes (sb s) \<Longrightarrow> view s' (IBLOCK i (sb s)) = view s (IBLOCK i (sb s))" using W by simp_all
qed

lemma file_same_install:
  assumes F: "file_same s ip s1" and nu: "\<not> used s r" and st: "mach_same s1 s2" "log_area (klog s2) = log_area (klog s1)"
      "\<forall>j. j \<noteq> ip \<longrightarrow> itable s2 j = itable s1 j" "(itable s2 ip)\<lparr>iaddrs := []\<rparr> = (itable s1 ip)\<lparr>iaddrs := []\<rparr>"
    and ok: "fs_ok s2" "inode_ok s2 ip" and fb: "fblocks s2 ip = insert r (fblocks s1 ip)" and db: "data_block s2 = data_block s1"
    and fk: "\<forall>j < MAXFILE. fblk s2 ip j = fblk s1 ip j" and v: "\<And>b. b \<notin> fblocks s1 ip \<Longrightarrow> data_block s1 b \<Longrightarrow> view s2 b = view s1 b"
    and ib: "\<And>i. i < sb_ninodes (sb s) \<Longrightarrow> view s2 (IBLOCK i (sb s)) = view s1 (IBLOCK i (sb s))"
    and fa: "\<And>j. j < MAXFILE \<Longrightarrow> faddr s1 ip j \<noteq> 0 \<Longrightarrow> faddr s2 ip j = faddr s1 ip j"
  shows "file_same s ip s2"
proof -
  have S: "fs_step s ip s1" and k1: "\<forall>j < MAXFILE. fblk s1 ip j = fblk s ip j" using F by (simp_all add: file_same_def)
  note D = fs_stepD [OF S]
  have "b \<noteq> r" if "data_block s b" for b using that nu by (auto simp: data_block_def)
  moreover have "faddr s2 ip j = faddr s ip j" if "j < MAXFILE" "faddr s ip j \<noteq> 0" for j using that D(11) fa by simp
  ultimately have "fs_step s ip s2"
    using S mach_same_trans [OF D(1) st(1)] st(2-4) D(9) v ib D(8) fb db unfolding fs_step_def by auto
  then show ?thesis using ok fk k1 by (simp add: file_same_def)
qed

lemma bmap_direct:
  assumes D: "virtio_device D" and T: "txn s p Map.empty (Suc (Suc k))" and ok: "fs_ok s" "inode_ok s ip" and bn: "unat bn < NDIRECT"
  shows "\<exists>a s'. bmap D ip bn s = Ok (a, s') \<and> txn s' p Map.empty k \<and> file_same s ip s' \<and> faddr s' ip (unat bn) = a \<and>
    (a = 0 \<longrightarrow> (\<forall>c < sb_size (sb s). used s' c))"
proof -
  have a: "iaddrs (itable s ip) ! unat bn = faddr s ip (unat bn)" using bn by (simp add: faddr_def)
  have dev: "idev (itable s ip) = ROOTDEV" using ok(2) by (simp add: inode_ok_def)
  show ?thesis
  proof (cases "faddr s ip (unat bn) = 0")
    case False
    then have "bmap D ip bn s = Ok (faddr s ip (unat bn), s)" using bn a by (simp add: bmap_def Let_def)
    then show ?thesis using txn_mono [OF T, of k] ok False by (simp add: file_same_def)
  next
    case True
    have off: "off_bitmap s Map.empty" by (simp add: off_bitmap_def)
    have bm: "unat bn < MAXFILE" using bn by (simp add: MAXFILE_def)
    obtain r s1 where S: "balloc D ROOTDEV s = Ok (r, s1)" "txn s1 p Map.empty k" "file_same s ip s1" "itable s1 = itable s"
        "\<forall>j < MAXFILE. faddr s1 ip j = faddr s ip j" "iind s1 ip = iind s ip"
        "if r = 0 then \<forall>c < sb_size (sb s). used s1 c else fresh s1 ip r \<and> \<not> used s r"
      using balloc_fresh [OF D T ok off] by (elim exE conjE) (rule that)
    show ?thesis
    proof (cases "r = 0")
      case r: True
      then have "bmap D ip bn s = Ok (0, s1)" using bn a True S(1) dev by (simp add: bmap_def Let_def)
      then show ?thesis using S r True bm by simp
    next
      case r: False
      define s2 where "s2 = upd_inode ip (\<lambda>i. i\<lparr>iaddrs := (iaddrs i)[unat bn := r]\<rparr>) s1"
      have f: "fresh s1 ip r" "\<not> used s r" "fs_ok s1" "inode_ok s1 ip" "faddr s1 ip (unat bn) = 0"
        using S(3,5,7) r True bm by (auto simp: file_same_def)
      note W = set_direct [OF f(3,4,1) bn f(5), folded s2_def]
      have keep: "faddr s2 ip j = faddr s1 ip j" if "j < MAXFILE" "faddr s1 ip j \<noteq> 0" for j using W(6) [OF that(1)] that(2) f(5) by auto
      have "file_same s ip s2"
        by (rule file_same_install [OF S(3) f(2) _ _ _ _ W(1,2,5,7,3) _ _ keep]) (simp_all add: s2_def)
      moreover have "bmap D ip bn s = Ok (r, s2)" using bn a True S(1) dev r by (simp add: bmap_def Let_def s2_def)
      ultimately show ?thesis using S(2) W(4) r by (intro exI [of _ r] exI [of _ s2]) (simp add: s2_def)
    qed
  qed
qed

text \<open>The indirect block, allocated when the file has none, and an entry of it.\<close>

definition bmap_ind :: "('a fsys_scheme \<Rightarrow> 'a fsys_scheme) \<Rightarrow> nat \<Rightarrow> 'a fsys_scheme \<Rightarrow> (uint32 \<times> 'a fsys_scheme) res" where
  "bmap_ind D ip s = (if iind s ip = 0 then
       rbind (balloc D (idev (itable s ip)) s) (\<lambda>(addr, s).
       if addr = 0 then Ok (0, s)
       else Ok (addr, upd_inode ip (\<lambda>i. i\<lparr>iaddrs := (iaddrs i)[NDIRECT := addr]\<rparr>) s))
     else Ok (iind s ip, s))"

definition bmap_entry :: "('a fsys_scheme \<Rightarrow> 'a fsys_scheme) \<Rightarrow> nat \<Rightarrow> nat \<Rightarrow> nat \<Rightarrow> 'a fsys_scheme \<Rightarrow> (uint32 \<times> 'a fsys_scheme) res" where
  "bmap_entry D ip k bp s = (let addr = get32 (bdata (bufs s bp)) (4 * k) in
     if addr = 0 then
       rbind (balloc D (idev (itable s ip)) s) (\<lambda>(addr, s).
       if addr \<noteq> 0 then
         let s = upd_buf bp (bdata_update (\<lambda>d. put32 d (4 * k) addr)) s
         in rbind (log_write bp s) (\<lambda>s. Ok (addr, s))
       else Ok (addr, s))
     else Ok (addr, s))"

lemma bmap_indirect_eq:
  assumes "NDIRECT \<le> unat bn" and "unat bn < MAXFILE"
  shows "bmap D ip bn s = rbind (bmap_ind D ip s) (\<lambda>(addr, s). if addr = 0 then Ok (0, s) else
    rbind (bread D (idev (itable s ip)) addr s) (\<lambda>(bp, s).
    rbind (bmap_entry D ip (unat bn - NDIRECT) bp s) (\<lambda>(addr, s). rbind (brelse bp s) (\<lambda>s. Ok (addr, s)))))"
proof -
  have "\<not> unat bn < NDIRECT" "unat bn - NDIRECT < NINDIRECT" using assms by (auto simp: MAXFILE_def)
  then show ?thesis by (simp only: bmap_def bmap_ind_def bmap_entry_def iind_def Let_def if_True if_False)
qed

lemma bmap_ind_spec:
  assumes D: "virtio_device D" and T: "txn s p Map.empty (Suc (Suc k))" and ok: "fs_ok s" "inode_ok s ip"
  shows "\<exists>a s'. bmap_ind D ip s = Ok (a, s') \<and> txn s' p Map.empty k \<and> file_same s ip s' \<and> iind s' ip = a \<and>
    (\<forall>j < MAXFILE. faddr s' ip j = faddr s ip j) \<and> (a = 0 \<longrightarrow> (\<forall>c < sb_size (sb s). used s' c))"
proof (cases "iind s ip = 0")
  case False
  then show ?thesis using txn_mono [OF T, of k] ok by (simp add: file_same_def bmap_ind_def)
next
  case True
  have dev: "idev (itable s ip) = ROOTDEV" using ok(2) by (simp add: inode_ok_def)
  have off: "off_bitmap s Map.empty" by (simp add: off_bitmap_def)
  obtain r s1 where S: "balloc D ROOTDEV s = Ok (r, s1)" "txn s1 p Map.empty k" "file_same s ip s1" "itable s1 = itable s"
      "\<forall>j < MAXFILE. faddr s1 ip j = faddr s ip j" "iind s1 ip = iind s ip"
      "if r = 0 then \<forall>c < sb_size (sb s). used s1 c else fresh s1 ip r \<and> \<not> used s r"
    using balloc_fresh [OF D T ok off] by (elim exE conjE) (rule that)
  show ?thesis
  proof (cases "r = 0")
    case r: True
    then have "bmap_ind D ip s = Ok (0, s1)" using True S(1) dev by (simp add: bmap_ind_def)
    then show ?thesis using S r True by simp
  next
    case r: False
    define s2 where "s2 = upd_inode ip (\<lambda>i. i\<lparr>iaddrs := (iaddrs i)[NDIRECT := r]\<rparr>) s1"
    have f: "fresh s1 ip r" "\<not> used s r" "fs_ok s1" "inode_ok s1 ip" "iind s1 ip = 0"
      using S(3,6,7) r True by (auto simp: file_same_def)
    note W = set_indirect [OF f(3,4,1,5), folded s2_def]
    have "file_same s ip s2"
      by (rule file_same_install [OF S(3) f(2) _ _ _ _ W(1,2,5,7,3) _ _ W(6)]) (simp_all add: s2_def)
    moreover have "bmap_ind D ip s = Ok (r, s2)" using True S(1) dev r by (simp add: bmap_ind_def s2_def)
    ultimately show ?thesis using S(2,5) W(4,6) r by (intro exI [of _ r] exI [of _ s2]) (simp add: s2_def)
  qed
qed

lemma bmap_entry_spec:
  assumes D: "virtio_device D" and T: "txn s p [bp \<mapsto> iind s ip] (Suc (Suc (Suc k)))" and ok: "fs_ok s" "inode_ok s ip"
    and bn: "NDIRECT \<le> bn" "bn < MAXFILE" and ind: "iind s ip \<noteq> 0"
  shows "\<exists>a s'. bmap_entry D ip (bn - NDIRECT) bp s = Ok (a, s') \<and> txn s' p [bp \<mapsto> iind s ip] k \<and> file_same s ip s' \<and> iind s' ip = iind s ip \<and>
    faddr s' ip bn = a \<and> (a = 0 \<longrightarrow> (\<forall>c < sb_size (sb s). used s' c))"
proof -
  define H where "H = [bp \<mapsto> iind s ip]"
  have dev: "idev (itable s ip) = ROOTDEV" using ok(2) by (simp add: inode_ok_def)
  have di: "data_block s (iind s ip)" using ok(2) ind by (simp add: inode_ok_def fblocks_def)
  have d: "bdata (bufs s bp) = view s (iind s ip)" by (rule bres_data [OF log_invD(3) [OF txnD(2) [OF T]]]) simp
  have a: "get32 (bdata (bufs s bp)) (4 * (bn - NDIRECT)) = faddr s ip bn" using bn ind by (simp add: faddr_def d)
  show ?thesis
  proof (cases "faddr s ip bn = 0")
    case False
    then have "bmap_entry D ip (bn - NDIRECT) bp s = Ok (faddr s ip bn, s)" using a by (simp add: bmap_entry_def Let_def)
    then show ?thesis using txn_mono [OF T, of k] ok False by (simp add: file_same_def)
  next
    case True
    have off: "off_bitmap s H" using di by (auto simp: off_bitmap_def H_def data_block_def)
    obtain r s1 where S: "balloc D ROOTDEV s = Ok (r, s1)" "txn s1 p H (Suc k)" "file_same s ip s1" "itable s1 = itable s"
        "\<forall>j < MAXFILE. faddr s1 ip j = faddr s ip j" "iind s1 ip = iind s ip"
        "if r = 0 then \<forall>c < sb_size (sb s). used s1 c else fresh s1 ip r \<and> \<not> used s r"
      using balloc_fresh [OF D T [folded H_def] ok off] by (elim exE conjE) (rule that)
    show ?thesis
    proof (cases "r = 0")
      case r: True
      then have "bmap_entry D ip (bn - NDIRECT) bp s = Ok (0, s1)" using True S(1) dev a by (simp add: bmap_entry_def Let_def)
      then show ?thesis using S r True bn txn_mono [OF S(2), of k] by (simp add: H_def)
    next
      case r: False
      define f where "f = (\<lambda>x. put32 x (4 * (bn - NDIRECT)) r)"
      have g: "fresh s1 ip r" "\<not> used s r" "fs_ok s1" "inode_ok s1 ip" "faddr s1 ip bn = 0" "iind s1 ip \<noteq> 0"
        using S(3,5-7) r True bn ind by (auto simp: file_same_def)
      have di1: "data_block s1 (iind s ip)" using g(4,6) S(6) by (simp add: inode_ok_def fblocks_def)
      have len: "length (f (view s1 (iind s ip))) = BSIZE"
        using txnD(7) [OF S(2)] bn by (simp add: f_def sized_def BSIZE_def MAXFILE_def NINDIRECT_def NDIRECT_def)
      obtain s2 where L: "log_write bp (upd_buf bp (bdata_update f) s1) = Ok s2" "lstep s1 s2" "txn s2 p H k"
          "view s2 = (view s1)(iind s ip := f (view s1 (iind s ip)))" "log_area (klog s2) = log_area (klog s1)"
        using txn_log [OF S(2), of bp "iind s ip" f] len di1 by (auto simp: H_def data_block_def)
      note F = lstep_fs [OF L(2)]
      note W = set_entry [OF g(3,4) txnD(7) [OF S(2)] g(1) bn g(5,6) _ F(1) L(5) F(2), unfolded S(6), OF L(4) [unfolded f_def]]
      have sb1: "sb s1 = sb s" using S(3) fs_stepD(2) by (auto simp: file_same_def)
      have "file_same s ip s2"
      proof (rule file_same_install [OF S(3) g(2) lstep_mach [OF L(2)] L(5) _ _ W(1,2,5,7,3)])
        show "faddr s2 ip j = faddr s1 ip j" if "j < MAXFILE" "faddr s1 ip j \<noteq> 0" for j using W(6) [OF that(1)] that(2) g(5) by auto
        show "view s2 b = view s1 b" if "b \<notin> fblocks s1 ip" for b using that g(6) S(6) by (auto simp: L(4) fblocks_def)
      qed (use F W(8) sb1 in auto)
      moreover have "bmap_entry D ip (bn - NDIRECT) bp s = Ok (r, s2)" using True S(1) dev r a L(1) by (simp add: bmap_entry_def Let_def f_def)
      moreover have "iind s2 ip = iind s ip" using F(2) S(4) by (simp add: iind_def)
      ultimately show ?thesis using L(3) W(4) r by (intro exI [of _ r] exI [of _ s2]) (simp add: H_def)
    qed
  qed
qed

lemma bmap_spec:
  assumes D: "virtio_device D" and T: "txn s p Map.empty (k + 6)" and ok: "fs_ok s" "inode_ok s ip" and bn: "unat bn < MAXFILE"
  shows "\<exists>a s'. bmap D ip bn s = Ok (a, s') \<and> txn s' p Map.empty k \<and> file_same s ip s' \<and> faddr s' ip (unat bn) = a \<and>
    (a = 0 \<longrightarrow> (\<forall>c < sb_size (sb s). used s' c))"
proof (cases "unat bn < NDIRECT")
  case True
  show ?thesis using bmap_direct [OF D txn_mono [OF T, of "Suc (Suc k)"] ok True] by simp
next
  case False
  then have nd: "NDIRECT \<le> unat bn" by simp
  have T': "txn s p Map.empty (Suc (Suc (Suc (Suc (Suc (Suc k))))))" using T by (simp add: numeral_eq_Suc)
  obtain a s1 where 1: "bmap_ind D ip s = Ok (a, s1)" "txn s1 p Map.empty (Suc (Suc (Suc (Suc k))))" "file_same s ip s1" "iind s1 ip = a"
      "\<forall>j < MAXFILE. faddr s1 ip j = faddr s ip j" "a = 0 \<longrightarrow> (\<forall>c < sb_size (sb s). used s1 c)"
    using bmap_ind_spec [OF D T' ok] by blast
  have ok1: "fs_ok s1" "inode_ok s1 ip" and sb1: "sb s1 = sb s" using 1(3) fs_stepD(2) by (auto simp: file_same_def)
  have dev: "idev (itable s1 ip) = ROOTDEV" using ok1(2) by (simp add: inode_ok_def)
  note eq = bmap_indirect_eq [OF nd bn, of D ip s, unfolded 1(1)]
  show ?thesis
  proof (cases "a = 0")
    case True
    have "faddr s1 ip (unat bn) = 0" using nd 1(4) True by (simp add: faddr_def)
    then show ?thesis using eq True 1(2,3,6) txn_mono [OF 1(2), of k] by (intro exI [of _ 0] exI [of _ s1]) simp
  next
    case a: False
    have da: "data_block s1 a" using ok1(2) a 1(4) by (auto simp: inode_ok_def fblocks_def)
    obtain b s2 where 2: "bread D ROOTDEV a s1 = Ok (b, s2)" "lstep s1 s2" "txn s2 p [b \<mapsto> a] (Suc (Suc (Suc k)))" "view s2 = view s1" "klog s2 = klog s1"
      using txn_bread [OF D 1(2) _ data_block31 [OF ok1(1) da]] by auto
    note V = file_same_view [OF ok1 2(2,4) disjI1 [OF 2(5)]]
    have ok2: "fs_ok s2" "inode_ok s2 ip" "iind s2 ip = a" using V 1(4) by (auto simp: file_same_def)
    obtain r s3 where 3: "bmap_entry D ip (unat bn - NDIRECT) b s2 = Ok (r, s3)" "txn s3 p [b \<mapsto> a] k" "file_same s2 ip s3" "iind s3 ip = a"
        "faddr s3 ip (unat bn) = r" "r = 0 \<longrightarrow> (\<forall>c < sb_size (sb s2). used s3 c)"
      using bmap_entry_spec [OF D _ ok2(1,2) nd bn, of p b k] 2(3) a unfolding ok2(3) by blast
    have ok3: "fs_ok s3" "inode_ok s3 ip" using 3(3) by (simp_all add: file_same_def)
    obtain s4 where 4: "brelse b s3 = Ok s4" "lstep s3 s4" "txn s4 p Map.empty k" "view s4 = view s3" "klog s4 = klog s3"
      using txn_brelse [OF 3(2), of b a Map.empty] by (auto simp: fun_eq_iff)
    note W = file_same_view [OF ok3 4(2,4) disjI1 [OF 4(5)]]
    have "bmap D ip bn s = Ok (r, s4)" using eq a 2(1) 3(1) 4(1) dev by simp
    moreover have "file_same s ip s4" by (rule file_same_trans [OF file_same_trans [OF 1(3) V(1)] file_same_trans [OF 3(3) W(1)]])
    moreover have "used s4 = used s3" by (rule used_view [OF 4(4) lstep_fs(1) [OF 4(2)]])
    ultimately show ?thesis using 4(3) W(2) 3(5,6) lstep_fs(1) [OF 2(2)] sb1 by (intro exI [of _ r] exI [of _ s4]) simp
  qed
qed

text \<open>A block that is mapped is found without a transaction.\<close>

lemma bmap_mapped:
  assumes D: "virtio_device D" and T: "reading s p Map.empty (Suc k)" and ok: "fs_ok s" "inode_ok s ip" and bn: "unat bn < MAXFILE" "faddr s ip (unat bn) \<noteq> 0"
  shows "\<exists>s'. bmap D ip bn s = Ok (faddr s ip (unat bn), s') \<and> lstep s s' \<and> reading s' p Map.empty (Suc k) \<and> view s' = view s \<and> klog s' = klog s"
proof (cases "unat bn < NDIRECT")
  case True
  then have "bmap D ip bn s = Ok (faddr s ip (unat bn), s)" using bn by (simp add: bmap_def Let_def faddr_def)
  then show ?thesis using T by simp
next
  case False
  then have nd: "NDIRECT \<le> unat bn" by simp
  define a where "a = iind s ip"
  have a: "a \<noteq> 0" using bn(2) False by (auto simp: faddr_def a_def)
  have da: "data_block s a" using ok(2) a by (auto simp: inode_ok_def fblocks_def a_def)
  have dev: "idev (itable s ip) = ROOTDEV" using ok(2) by (simp add: inode_ok_def)
  obtain b s1 s2 where S: "bread D ROOTDEV a s = Ok (b, s1)" "bdata (bufs s1 b) = view s a" "brelse b s1 = Ok s2" "lstep s s1" "lstep s s2"
      "reading s2 p Map.empty (Suc k)" "view s2 = view s" "klog s2 = klog s"
    using reading_block [OF D T _ data_block31 [OF ok(1) da]] by auto
  have g: "get32 (view s a) (4 * (unat bn - NDIRECT)) = faddr s ip (unat bn)" using False a by (simp add: faddr_def a_def)
  have "bmap_ind D ip s = Ok (a, s)" using a by (simp add: bmap_ind_def a_def)
  then have "bmap D ip bn s = Ok (faddr s ip (unat bn), s2)"
    using bmap_indirect_eq [OF nd bn(1), of D ip s] a S(1-3) dev g bn(2) by (simp add: bmap_entry_def Let_def)
  then show ?thesis using S by blast
qed

end
