(* ===== verification/Fs_File.thy ===== *)
theory Fs_File
  imports Fs_Inode Vm_Properties
begin

text \<open>
  Reading and writing files. \<^verbatim>\<open>readi\<close> delivers a slice of the content of the file to its
  destination, across the blocks of the file and the pages of user memory; \<^verbatim>\<open>writei\<close> replaces a
  slice, allocating blocks as needed.
\<close>

section \<open>Buffers of the callers\<close>

fun dst_ok :: "uint64 list \<Rightarrow> nat set \<Rightarrow> nat \<Rightarrow> iobuf \<Rightarrow> nat \<Rightarrow> 'a fsys_scheme \<Rightarrow> bool" where
  "dst_ok fl K p (UserBuf a) n s \<longleftrightarrow> uvm_inv s fl (pagetable (ptable s p)) K \<and>
     readable (mem s) (pagetable (ptable s p)) K (unat a) n \<and> unat a + n \<le> 4096 * NVPAGES"
| "dst_ok fl K p (KernBuf a) n s \<longleftrightarrow> False"
| "dst_ok fl K p (KernVar x) n s \<longleftrightarrow> True"

fun delivered :: "uint64 \<Rightarrow> memory \<Rightarrow> iobuf \<Rightarrow> uchar list \<Rightarrow> memory \<Rightarrow> bool" where
  "delivered r m (UserBuf a) bs m' \<longleftrightarrow> written m r (unat a) bs m'"
| "delivered r m (KernBuf a) bs m' \<longleftrightarrow> False"
| "delivered r m (KernVar x) bs m' \<longleftrightarrow> m' = m"

lemma dst_ok_cong:
  assumes "dst_ok fl K p dst n s" and "mem s' = mem s" and "freelist s' = freelist s" and "kend s' = kend s" and "kmem_lock s' = kmem_lock s"
    and "cpu_ok (mycpu s')" and "ptable s' p = ptable s p"
  shows "dst_ok fl K p dst n s'"
  using assms uvm_inv_cong [OF _ assms(2-6)] by (cases dst) auto

lemma copyout_chunk:
  assumes run: "running s p" and ok: "dst_ok fl K p dst (length xs + n) s" and r: "r = pagetable (ptable s p)"
  shows "\<exists>m. either_copyout dst xs s = Ok (0, s\<lparr>mycpu := crit (mycpu s), mem := m\<rparr>) \<and>
    dst_ok fl K p (buf_plus dst (length xs)) n (s\<lparr>mycpu := crit (mycpu s), mem := m\<rparr>) \<and>
    (\<forall>ys m'. length ys = n \<longrightarrow> delivered r m (buf_plus dst (length xs)) ys m' \<longrightarrow> delivered r (mem s) dst (xs @ ys) m')"
proof -
  have c: "cpu_ok (mycpu s)" "cpu_proc (mycpu s) = Some p" using run by (auto simp: running_def)
  show ?thesis
  proof (cases dst)
    case (UserBuf a)
    define s1 where "s1 = s\<lparr>mycpu := crit (mycpu s)\<rparr>"
    have U: "uvm_inv s fl r K" "readable (mem s) r K (unat a) (length xs + n)" "unat a + (length xs + n) \<le> 4096 * NVPAGES" using ok UserBuf r by auto
    have inv1: "uvm_inv s1 fl r K" using U(1) by (rule uvm_inv_cong) (use c in \<open>simp_all add: s1_def\<close>)
    have rd: "readable (mem s1) r K (unat a) (length xs)" using U(2) by (simp add: readable_def s1_def)
    obtain m where m: "copyout r a xs s1 = Ok (0, s1\<lparr>mem := m\<rparr>)" "written (mem s) r (unat a) xs m" "uvm_inv (s1\<lparr>mem := m\<rparr>) fl r K"
        "\<forall>v. pte_val m r v = pte_val (mem s) r v"
      using copyout_spec [OF inv1 rd] U(3) by (auto simp: s1_def)
    have ua: "unat (a + word_of_nat (length xs)) = unat a + length xs"
      using U(3) by (simp add: unat_word_ariths unat_of_nat NVPAGES_def)
    have same: "upaddr m r b = upaddr (mem s) r b" and te: "upte m r b = upte (mem s) r b" for b
      using m(4) by (simp_all add: upaddr_def upa_def upte_def)
    have inj: "upaddr (mem s) r (unat a + i) \<noteq> upaddr (mem s) r (unat a + length xs + j)" if "i < length xs" "j < n" for i j
    proof
      assume eq: "upaddr (mem s) r (unat a + i) = upaddr (mem s) r (unat a + length xs + j)"
      have K: "(unat a + x) div 4096 \<in> K" if "x < length xs + n" for x using U(2) that by (simp add: readable_def)
      show False using upaddr_inj [OF U(1) _ _ eq] K [of i] K [of "length xs + j"] that by (simp add: add.assoc)
    qed
    have "readable m r K (unat a + length xs) n" using readable_drop [OF U(2), of "length xs"] by (simp add: readable_def te)
    then have "dst_ok fl K p (buf_plus dst (length xs)) n (s1\<lparr>mem := m\<rparr>)" using m(3) U(3) ua UserBuf r by (simp add: s1_def)
    moreover have "delivered r (mem s) dst (xs @ ys) m'" if "length ys = n" "delivered r m (buf_plus dst (length xs)) ys m'" for ys m'
      using that written_append [OF m(2), of ys m'] same inj ua UserBuf by simp
    moreover have "either_copyout dst xs s = Ok (0, s1\<lparr>mem := m\<rparr>)" using c m(1) r UserBuf by (simp add: either_copyout_def myproc_eq s1_def)
    ultimately show ?thesis by (intro exI [of _ m]) (simp add: s1_def)
  next
    case (KernBuf a)
    then show ?thesis using ok by simp
  next
    case (KernVar x)
    then show ?thesis using c by (intro exI [of _ "mem s"]) (simp add: either_copyout_def myproc_eq)
  qed
qed

section \<open>Reading\<close>

definition read_same :: "'a fsys_scheme \<Rightarrow> 'a fsys_scheme \<Rightarrow> bool" where
  "read_same s s' \<longleftrightarrow> woke s s' \<and> sb s' = sb s \<and> itable s' = itable s \<and> itable_lock s' = itable_lock s \<and> klog s' = klog s \<and> view s' = view s \<and>
     kend s' = kend s \<and> kmem_lock s' = kmem_lock s \<and> freelist s' = freelist s"

lemma read_same_trans: "read_same s s' \<Longrightarrow> read_same s' s'' \<Longrightarrow> read_same s s''"
  using woke_trans [of s s' s''] by (simp add: read_same_def)

lemma read_same_refl [simp]: "read_same s s"
  by (simp add: read_same_def)

lemma lstep_read: "lstep s s' \<Longrightarrow> klog s' = klog s \<Longrightarrow> view s' = view s \<Longrightarrow> read_same s s'"
  by (auto simp: lstep_def vst_def read_same_def)

lemma read_same_file:
  assumes "read_same s s'"
  shows "faddr s' ip = faddr s ip" "fbytes s' ip = fbytes s ip" "fdata s' ip = fdata s ip" "fs_ok s' = fs_ok s" "inode_ok s' ip = inode_ok s ip"
proof -
  have E: "view s' = view s" "itable s' = itable s" "sb s' = sb s" "klog s' = klog s" using assms by (simp_all add: read_same_def)
  note C = f_view_cong [OF E(1,2)]
  have u: "used s' = used s" by (rule used_view [OF E(1,3)])
  show "faddr s' ip = faddr s ip" "fbytes s' ip = fbytes s ip" "fdata s' ip = fdata s ip" by (rule C)+
  show "fs_ok s' = fs_ok s" "inode_ok s' ip = inode_ok s ip"
    by (simp_all add: fs_ok_def bitmap_ok_def inode_ok_def data_block_def fblocks_def u E C)
qed

lemma reading_copied:
  assumes "reading s p H k"
  shows "reading (s\<lparr>mycpu := crit (mycpu s), mem := m\<rparr>) p H k" "read_same s (s\<lparr>mycpu := crit (mycpu s), mem := m\<rparr>)"
proof -
  note I = log_invD [OF readingD(1) [OF assms]]
  have "log_inv (s\<lparr>mycpu := crit (mycpu s), mem := m\<rparr>) p H"
    by (rule log_inv_frame [OF readingD(1) [OF assms]]) (use I in \<open>simp_all add: woke_def\<close>)
  then show "reading (s\<lparr>mycpu := crit (mycpu s), mem := m\<rparr>) p H k" using assms by (simp add: reading_def clean_def)
  show "read_same s (s\<lparr>mycpu := crit (mycpu s), mem := m\<rparr>)" by (simp add: read_same_def woke_def)
qed

lemma unat_block:
  fixes off :: uint32
  shows "unat (off div word_of_nat BSIZE) = unat off div BSIZE" "unat (off mod word_of_nat BSIZE) = unat off mod BSIZE"
  by (simp_all add: unat_div unat_mod BSIZE_def)

definition mapped :: "'a fsys_scheme \<Rightarrow> nat \<Rightarrow> nat \<Rightarrow> nat \<Rightarrow> bool" where
  "mapped s ip off n \<longleftrightarrow> off + n \<le> MAXFILE * BSIZE \<and> (\<forall>j. off \<le> j \<and> j < off + n \<longrightarrow> faddr s ip (j div BSIZE) \<noteq> 0)"

lemma mappedD:
  assumes "mapped s ip off n" and "0 < n"
  shows "off div BSIZE < MAXFILE" "faddr s ip (off div BSIZE) \<noteq> 0"
  using assms by (auto simp: mapped_def BSIZE_def)

lemma mapped_drop: "mapped s ip off n \<Longrightarrow> m \<le> n \<Longrightarrow> mapped s ip (off + m) (n - m)"
  by (auto simp: mapped_def)

text \<open>One round of the loop of \<^verbatim>\<open>readi\<close>.\<close>

lemma readi_round:
  fixes off n tot :: uint32
  assumes D: "virtio_device D" and T: "reading s p Map.empty (Suc k)" and ok: "fs_ok s" "inode_ok s ip" and tot: "tot < n"
    and mp: "mapped s ip (unat off) (unat n - unat tot)" and dst: "dst_ok fl K p dst (unat n - unat tot) s" and r: "r = pagetable (ptable s p)"
  defines "m \<equiv> unat (io_chunk n tot off)"
  shows "\<exists>s'. readi_loop D ip dst off n tot out s =
      readi_loop D ip (buf_plus dst m) (off + io_chunk n tot off) n (tot + io_chunk n tot off) (out @ fbytes s ip (unat off) m) s' \<and>
    reading s' p Map.empty (Suc k) \<and> read_same s s' \<and> dst_ok fl K p (buf_plus dst m) (unat n - unat tot - m) s' \<and>
    (\<forall>ys m'. length ys = unat n - unat tot - m \<longrightarrow> delivered r (mem s') (buf_plus dst m) ys m' \<longrightarrow>
       delivered r (mem s) dst (fbytes s ip (unat off) m @ ys) m')"
proof -
  note P = io_chunk_progress [OF tot, of off, folded m_def]
  define bn where "bn = off div word_of_nat BSIZE"
  have ub: "unat bn = unat off div BSIZE" by (simp add: bn_def unat_block)
  have n0: "0 < unat n - unat tot" using tot by (simp add: word_less_nat_alt)
  note M = mappedD [OF mp n0, folded ub]
  define a where "a = faddr s ip (unat bn)"
  have da: "data_block s a" using ok(2) M by (auto simp: inode_ok_def fblocks_def a_def)
  have dev: "idev (itable s ip) = ROOTDEV" using ok(2) by (simp add: inode_ok_def)
  obtain s1 where 1: "bmap D ip bn s = Ok (a, s1)" "lstep s s1" "reading s1 p Map.empty (Suc k)" "view s1 = view s" "klog s1 = klog s"
    using bmap_mapped [OF D T ok M] unfolding a_def by blast
  obtain b s2 where 2: "bread D ROOTDEV a s1 = Ok (b, s2)" "bdata (bufs s2 b) = view s a" "lstep s1 s2" "reading s2 p [b \<mapsto> a] k"
      "view s2 = view s1" "klog s2 = klog s1"
    using reading_bread [OF D 1(3) _ data_block31 [OF ok(1) da]] 1(4) by auto
  have L: "lstep s s2" by (rule lstep_trans [OF 1(2) 2(3)])
  have rs2: "read_same s s2" by (rule lstep_read [OF L]) (use 1 2 in simp_all)
  define bs where "bs = fbytes s ip (unat off) m"
  have f: "fblk s ip (unat off div BSIZE) = view s a" using M(2) by (simp add: fblk_def a_def ub)
  have len: "length (view s a) = BSIZE" using readingD(5) [OF T] by (simp add: sized_def)
  have bs: "get_bytes (view s a) (unat off mod BSIZE) m = bs"
    using fbytes_chunk [of s ip "unat off" m, unfolded f] len P(4) mod_less_divisor [of BSIZE "unat off"] by (simp add: bs_def BSIZE_def)
  have lb: "length bs = m" by (simp add: bs_def)
  have p2: "ptable s2 p = ptable s p" "running s2 p"
    using running_woke [OF readingD(4) [OF T], of s2] rs2 readingD(4) [OF 2(4)] by (simp_all add: read_same_def)
  have "dst_ok fl K p dst (unat n - unat tot) s2"
    by (rule dst_ok_cong [OF dst]) (use rs2 lstep_fs(4) [OF L] p2 in \<open>simp_all add: read_same_def running_def\<close>)
  moreover have "length bs + (unat n - unat tot - m) = unat n - unat tot" using P(3) lb by simp
  ultimately obtain mm where C: "either_copyout dst bs s2 = Ok (0, s2\<lparr>mycpu := crit (mycpu s2), mem := mm\<rparr>)"
      "dst_ok fl K p (buf_plus dst m) (unat n - unat tot - m) (s2\<lparr>mycpu := crit (mycpu s2), mem := mm\<rparr>)"
      "\<forall>ys m'. length ys = unat n - unat tot - m \<longrightarrow> delivered r mm (buf_plus dst m) ys m' \<longrightarrow> delivered r (mem s) dst (bs @ ys) m'"
    using copyout_chunk [OF p2(2), of fl K dst bs "unat n - unat tot - m" r] r p2(1) lstep_fs(4) [OF L] lb by auto
  define s3 where "s3 = s2\<lparr>mycpu := crit (mycpu s2), mem := mm\<rparr>"
  note R3 = reading_copied [OF 2(4), of mm, folded s3_def]
  obtain s4 where 4: "brelse b s3 = Ok s4" "lstep s3 s4" "reading s4 p Map.empty (Suc k)" "view s4 = view s3" "klog s4 = klog s3"
    using reading_brelse [OF R3(1), of b a Map.empty] by (auto simp: fun_eq_iff)
  have rs4: "read_same s3 s4" by (rule lstep_read [OF 4(2,5,4)])
  have "readi_loop D ip dst off n tot out s = readi_loop D ip (buf_plus dst m) (off + io_chunk n tot off) n (tot + io_chunk n tot off) (out @ bs) s4"
    using tot 1(1) 2(1,2) C(1) 4(1) M(2) lstep_fs(2) [OF 1(2)] dev bs
    by (simp add: readi_loop.simps [of D ip dst off n tot out s] Let_def a_def s3_def unat_block flip: bn_def m_def)
  moreover have "dst_ok fl K p (buf_plus dst m) (unat n - unat tot - m) s4"
    by (rule dst_ok_cong [OF C(2) [folded s3_def]])
      (use rs4 lstep_fs(4) [OF 4(2)] running_woke [OF readingD(4) [OF R3(1)], of s4] readingD(4) [OF 4(3)] in \<open>simp_all add: read_same_def running_def\<close>)
  moreover have "mem s4 = mm" using lstep_fs(4) [OF 4(2)] by (simp add: s3_def)
  ultimately show ?thesis using 4(3) read_same_trans [OF rs2 read_same_trans [OF R3(2) rs4]] C(3) unfolding bs_def by (intro exI [of _ s4]) simp
qed

lemma delivered_nil: "dst_ok fl K p dst n s \<Longrightarrow> delivered r (mem s) dst [] (mem s)"
  by (cases dst) (simp_all add: written_def)

lemma readi_loop_spec:
  fixes off n tot :: uint32
  assumes D: "virtio_device D"
  shows "reading s p Map.empty (Suc k) \<Longrightarrow> fs_ok s \<Longrightarrow> inode_ok s ip \<Longrightarrow> tot \<le> n \<Longrightarrow> mapped s ip (unat off) (unat n - unat tot) \<Longrightarrow>
    dst_ok fl K p dst (unat n - unat tot) s \<Longrightarrow> r = pagetable (ptable s p) \<Longrightarrow>
    \<exists>s'. readi_loop D ip dst off n tot out s = Ok (n, out @ fbytes s ip (unat off) (unat n - unat tot), s') \<and>
      reading s' p Map.empty (Suc k) \<and> read_same s s' \<and> delivered r (mem s) dst (fbytes s ip (unat off) (unat n - unat tot)) (mem s')"
proof (induction "unat n - unat tot" arbitrary: dst off tot out s rule: less_induct)
  case less
  note prems = less.prems
  show ?case
  proof (cases "tot < n")
    case False
    then have "tot = n" using prems(4) by simp
    then show ?thesis using prems(1,6) delivered_nil [OF prems(6)]
      by (intro exI [of _ s]) (simp add: readi_loop.simps [of D ip dst off n n out s] fbytes_def)
  next
    case True
    define c where "c = io_chunk n tot off"
    define m where "m = unat c"
    note P = io_chunk_progress [OF True, of off, folded c_def, folded m_def]
    obtain s1 where S: "readi_loop D ip dst off n tot out s = readi_loop D ip (buf_plus dst m) (off + c) n (tot + c) (out @ fbytes s ip (unat off) m) s1"
        "reading s1 p Map.empty (Suc k)" "read_same s s1" "dst_ok fl K p (buf_plus dst m) (unat n - unat tot - m) s1"
        "\<forall>ys m'. length ys = unat n - unat tot - m \<longrightarrow> delivered r (mem s1) (buf_plus dst m) ys m' \<longrightarrow>
           delivered r (mem s) dst (fbytes s ip (unat off) m @ ys) m'"
      using readi_round [OF D prems(1-3) True prems(5-7), of out] unfolding c_def m_def by blast
    note F = read_same_file [OF S(3)]
    have le: "m \<le> unat n - unat tot" using P(3) by simp
    have uo: "unat (off + c) = unat off + m"
      using prems(5) le by (simp add: unat_word_ariths m_def [symmetric] mapped_def MAXFILE_def NINDIRECT_def BSIZE_def NDIRECT_def)
    have rest: "unat n - unat (tot + c) = unat n - unat tot - m" using P(2) by simp
    have mpd: "mapped s1 ip (unat (off + c)) (unat n - unat (tot + c))"
      using mapped_drop [OF prems(5) le] by (simp add: mapped_def F uo rest)
    have tc: "tot + c \<le> n" using P(2,3) by (simp add: word_le_nat_alt)
    have lt: "unat n - unat (tot + c) < unat n - unat tot" using P(1-3) by simp
    have r1: "r = pagetable (ptable s1 p)" using running_woke(2) [OF readingD(4) [OF prems(1)], of s1] S(3) prems(7) by (simp add: read_same_def)
    have ok1: "fs_ok s1" "inode_ok s1 ip" "dst_ok fl K p (buf_plus dst m) (unat n - unat (tot + c)) s1" using F(4,5) prems(2,3) S(4) rest by simp_all
    obtain s' where I: "readi_loop D ip (buf_plus dst m) (off + c) n (tot + c) (out @ fbytes s ip (unat off) m) s1 =
          Ok (n, (out @ fbytes s ip (unat off) m) @ fbytes s1 ip (unat off + m) (unat n - unat tot - m), s')"
        "reading s' p Map.empty (Suc k)" "read_same s1 s'"
        "delivered r (mem s1) (buf_plus dst m) (fbytes s1 ip (unat off + m) (unat n - unat tot - m)) (mem s')"
      using less.hyps [OF lt S(2) ok1(1,2) tc mpd ok1(3) r1, of "out @ fbytes s ip (unat off) m"] unfolding rest uo by blast
    have ap: "fbytes s ip (unat off) m @ fbytes s ip (unat off + m) (unat n - unat tot - m) = fbytes s ip (unat off) (unat n - unat tot)"
      using fbytes_append [of s ip "unat off" m "unat n - unat tot - m"] le_add_diff_inverse [OF le] by (simp only:)
    have "delivered r (mem s) dst (fbytes s ip (unat off) m @ fbytes s ip (unat off + m) (unat n - unat tot - m)) (mem s')"
      using S(5) [THEN spec, THEN spec, THEN mp, THEN mp, OF _ I(4)] by (simp add: F(2))
    then show ?thesis using S(1) I(1,2) ap read_same_trans [OF S(3) I(3)] by (intro exI [of _ s']) (simp add: F(2))
  qed
qed

lemma length_fdata [simp]: "length (fdata s ip) = unat (isize (itable s ip))"
  by (simp add: fdata_def)

lemma readi_spec:
  fixes off n :: uint32
  assumes D: "virtio_device D" and T: "reading s p Map.empty (Suc k)" and ok: "fs_ok s" "inode_ok s ip" and mp: "mapped s ip 0 (unat (isize (itable s ip)))"
    and n: "unat off + unat n < 2 ^ 32" and bs: "bs = take (unat n) (drop (unat off) (fdata s ip))" and dst: "dst_ok fl K p dst (length bs) s"
  shows "\<exists>s'. readi D ip dst off n s = Ok (word_of_nat (length bs), bs, s') \<and> reading s' p Map.empty (Suc k) \<and> read_same s s' \<and>
    delivered (pagetable (ptable s p)) (mem s) dst bs (mem s')"
proof -
  define sz where "sz = isize (itable s ip)"
  have un: "unat (off + n) = unat off + unat n" using n by (simp add: unat_word_ariths)
  then have wrap: "\<not> off + n < off" by (simp add: word_less_nat_alt)
  show ?thesis
  proof (cases "off > sz")
    case True
    then have "bs = []" using bs by (simp add: sz_def word_less_nat_alt)
    then show ?thesis using True T delivered_nil [OF dst] by (intro exI [of _ s]) (simp add: readi_def sz_def)
  next
    case False
    then have le: "unat off \<le> unat sz" by (simp add: word_less_nat_alt)
    define m where "m = (if off + n > sz then sz - off else n)"
    have um: "unat m = length bs" "unat off + unat m \<le> unat sz"
    proof -
      have "unat m = min (unat n) (unat sz - unat off)"
        using le un by (auto simp: m_def word_less_nat_alt unat_sub word_le_nat_alt min_def)
      then show "unat m = length bs" "unat off + unat m \<le> unat sz" using le by (simp_all add: bs sz_def)
    qed
    have sl: "fbytes s ip (unat off) (unat m) = bs"
    proof -
      have "take (unat m) (drop (unat off) (fdata s ip)) = bs" unfolding um(1) using append_take_drop_id [of "unat n" "drop (unat off) (fdata s ip)"] bs
        by (metis append_eq_conv_conj)
      then show ?thesis using fdata_slice [of "unat off" "unat m" s ip] um(2) by (simp add: sz_def)
    qed
    have mp': "mapped s ip (unat off) (unat m - unat (0 :: uint32))" using mp um(2) by (auto simp: mapped_def sz_def)
    obtain s' where S: "readi_loop D ip dst off m 0 [] s = Ok (m, bs, s')" "reading s' p Map.empty (Suc k)" "read_same s s'"
        "delivered (pagetable (ptable s p)) (mem s) dst bs (mem s')"
      using readi_loop_spec [OF D T ok _ mp' _ refl, of fl K dst "[]"] dst um(1) sl by auto
    have "readi D ip dst off n s = Ok (m, bs, s')" using False wrap S(1) by (cases "sz < off + n") (simp_all add: readi_def m_def Let_def flip: sz_def)
    moreover have "m = word_of_nat (length bs)" using um(1) by (simp flip: um(1))
    ultimately show ?thesis using S by blast
  qed
qed

section \<open>Writing\<close>

fun src_ok :: "uint64 list \<Rightarrow> nat set \<Rightarrow> nat \<Rightarrow> iobuf \<Rightarrow> nat \<Rightarrow> 'a fsys_scheme \<Rightarrow> bool" where
  "src_ok fl K p (UserBuf a) n s \<longleftrightarrow> uvm_inv s fl (pagetable (ptable s p)) K \<and>
     readable (mem s) (pagetable (ptable s p)) K (unat a) n \<and> unat a + n \<le> 4096 * NVPAGES"
| "src_ok fl K p (KernBuf a) n s \<longleftrightarrow> True"
| "src_ok fl K p (KernVar x) n s \<longleftrightarrow> n \<le> length x"

fun src_bytes :: "uint64 \<Rightarrow> memory \<Rightarrow> iobuf \<Rightarrow> nat \<Rightarrow> uchar list" where
  "src_bytes r m (UserBuf a) n = ubytes m r (unat a) n"
| "src_bytes r m (KernBuf a) n = load_bytes m a n"
| "src_bytes r m (KernVar x) n = take n x"

lemma src_ok_cong:
  assumes "src_ok fl K p src n s" and "mach_same s s'" and "running s p"
  shows "src_ok fl K p src n s'"
proof -
  have "running s' p" "ptable s' p = ptable s p" using running_woke [OF assms(3), of s'] assms(2) by (simp_all add: mach_same_def)
  note R = this
  show ?thesis
  proof (cases src)
    case (UserBuf a)
    have "uvm_inv s' fl (pagetable (ptable s p)) K"
      by (rule uvm_inv_cong [of s]) (use assms(1,2) R UserBuf in \<open>simp_all add: mach_same_def running_def\<close>)
    then show ?thesis using assms(1,2) R UserBuf by (simp add: mach_same_def)
  qed (use assms(1) in simp_all)
qed

lemma map_upt_split: "map f [0..<m + n] = map f [0..<m] @ map (\<lambda>i. f (m + i)) [0..<n]"
  by (induction n) simp_all

lemma src_chunk:
  assumes run: "running s p" and ok: "src_ok fl K p src (m + n) s" and r: "r = pagetable (ptable s p)"
  shows "either_copyin src m s = Ok ((0, src_bytes r (mem s) src m), s\<lparr>mycpu := crit (mycpu s)\<rparr>)" "src_ok fl K p (buf_plus src m) n s"
    "src_bytes r (mem s) src (m + n) = src_bytes r (mem s) src m @ src_bytes r (mem s) (buf_plus src m) n" "length (src_bytes r (mem s) src m) = m"
proof -
  have c: "cpu_ok (mycpu s)" "cpu_proc (mycpu s) = Some p" using run by (auto simp: running_def)
  have "either_copyin src m s = Ok ((0, src_bytes r (mem s) src m), s\<lparr>mycpu := crit (mycpu s)\<rparr>) \<and> src_ok fl K p (buf_plus src m) n s \<and>
    src_bytes r (mem s) src (m + n) = src_bytes r (mem s) src m @ src_bytes r (mem s) (buf_plus src m) n \<and> length (src_bytes r (mem s) src m) = m"
  proof (cases src)
    case (UserBuf a)
    define s1 where "s1 = s\<lparr>mycpu := crit (mycpu s)\<rparr>"
    have U: "uvm_inv s fl r K" "readable (mem s) r K (unat a) (m + n)" "unat a + (m + n) \<le> 4096 * NVPAGES" using ok UserBuf r by auto
    have inv1: "uvm_inv s1 fl r K" using U(1) by (rule uvm_inv_cong) (use c in \<open>simp_all add: s1_def\<close>)
    have rd: "readable (mem s1) r K (unat a) m" using U(2) by (simp add: readable_def s1_def)
    have ua: "unat (a + word_of_nat m) = unat a + m"
      using U(3) by (simp add: unat_word_ariths unat_of_nat NVPAGES_def)
    have "copyin r a m s1 = Ok (0, ubytes (mem s) r (unat a) m)" using copyin_spec [OF inv1 rd] U(3) by (simp add: s1_def)
    then have "either_copyin src m s = Ok ((0, src_bytes r (mem s) src m), s1)" using c r UserBuf by (simp add: either_copyin_def myproc_eq s1_def)
    moreover have "ubytes (mem s) r (unat a) (m + n) = ubytes (mem s) r (unat a) m @ ubytes (mem s) r (unat a + m) n"
      by (simp add: ubytes_def map_upt_split add.assoc)
    ultimately show ?thesis using readable_drop [OF U(2), of m] U(1,3) ua UserBuf r by (simp add: s1_def) (simp add: ubytes_def)
  next
    case (KernBuf a)
    then show ?thesis using c
      by (simp add: either_copyin_def myproc_eq load_bytes_def map_upt_split add.assoc)
  next
    case (KernVar x)
    then show ?thesis using ok c by (simp add: either_copyin_def myproc_eq take_add)
  qed
  then show "either_copyin src m s = Ok ((0, src_bytes r (mem s) src m), s\<lparr>mycpu := crit (mycpu s)\<rparr>)" "src_ok fl K p (buf_plus src m) n s"
    "src_bytes r (mem s) src (m + n) = src_bytes r (mem s) src m @ src_bytes r (mem s) (buf_plus src m) n" "length (src_bytes r (mem s) src m) = m"
    by simp_all
qed

definition fbyte :: "'a fsys_scheme \<Rightarrow> nat \<Rightarrow> nat \<Rightarrow> uchar" where
  "fbyte s ip j = fblk s ip (j div BSIZE) ! (j mod BSIZE)"

definition patch :: "(nat \<Rightarrow> 'b) \<Rightarrow> nat \<Rightarrow> 'b list \<Rightarrow> nat \<Rightarrow> 'b" where
  "patch f off xs j = (if off \<le> j \<and> j < off + length xs then xs ! (j - off) else f j)"

lemma patch_append: "patch (patch f off xs) (off + length xs) ys = patch f off (xs @ ys)"
  by (rule ext) (auto simp: patch_def nth_append)

lemma patch_nil [simp]: "patch f off [] = f"
  by (rule ext) (auto simp: patch_def)

definition disk_full :: "'a fsys_scheme \<Rightarrow> bool" where
  "disk_full s \<longleftrightarrow> (\<forall>c < sb_size (sb s). used s c)"

lemma file_write:
  assumes ok: "fs_ok s" "inode_ok s ip" and bn: "bn < MAXFILE" "faddr s ip bn \<noteq> 0" and v: "view s' = (view s)(faddr s ip bn := x)"
    and st: "lstep s s'" "log_area (klog s') = log_area (klog s)"
  shows "fs_ok s'" "inode_ok s' ip" "fs_step s ip s'" "j < MAXFILE \<Longrightarrow> fblk s' ip j = (if j = bn then x else fblk s ip j)"
proof -
  note F = lstep_fs [OF st(1)]
  have a: "faddr s ip bn \<in> fblocks s ip" "faddr s ip bn \<noteq> iind s ip" using bn ok(2) by (auto simp: fblocks_def inode_ok_def)
  then have da: "data_block s (faddr s ip bn)" using ok(2) by (simp add: inode_ok_def)
  note W = data_write [OF ok(1) da v F(1) st(2)]
  have ind: "iind s' ip = iind s ip" by (simp add: iind_def F)
  have fa: "faddr s' ip j = faddr s ip j" for j using a(2) by (simp add: faddr_def F ind v)
  have fb: "fblocks s' ip = fblocks s ip" by (simp add: fblocks_def ind fa [abs_def])
  show "fs_ok s'" by (rule W(1))
  show "inode_ok s' ip" using ok(2) by (simp add: inode_ok_def fb fa ind W(2) F)
  show "fs_step s ip s'" unfolding fs_step_def F fb W(2) v fa using lstep_mach [OF st(1)] st(2) W(3) a(1) by (metis fun_upd_other v)
  show "fblk s' ip j = (if j = bn then x else fblk s ip j)" if j: "j < MAXFILE"
  proof (cases "j = bn")
    case True
    then show ?thesis using bn(2) by (simp add: fblk_def fa v)
  next
    case False
    moreover have "\<forall>i < MAXFILE. \<forall>j < MAXFILE. faddr s ip i = faddr s ip j \<longrightarrow> faddr s ip i \<noteq> 0 \<longrightarrow> i = j"
      using ok(2) by (simp add: inode_ok_def)
    ultimately have "faddr s ip j \<noteq> faddr s ip bn" using bn j by metis
    then show ?thesis using False by (simp add: fblk_def fa v)
  qed
qed

lemma put_bytes_patch:
  assumes "length d = BSIZE" and "off mod BSIZE + length bs \<le> BSIZE" and "j div BSIZE = off div BSIZE"
  shows "put_bytes d (off mod BSIZE) bs ! (j mod BSIZE) = patch (\<lambda>j. d ! (j mod BSIZE)) off bs j"
proof -
  have "j = off div BSIZE * BSIZE + j mod BSIZE" "off = off div BSIZE * BSIZE + off mod BSIZE" using assms(3) by (metis div_mult_mod_eq)+
  then have "off \<le> j \<longleftrightarrow> off mod BSIZE \<le> j mod BSIZE" "j < off + length bs \<longleftrightarrow> j mod BSIZE < off mod BSIZE + length bs"
      "j - off = j mod BSIZE - off mod BSIZE" by linarith+
  then show ?thesis
    using assms(1,2) mod_less_divisor [of BSIZE j] mod_less_divisor [of BSIZE off] by (auto simp: put_bytes_def patch_def nth_append)
qed

lemma fbyte_write:
  assumes len: "length (fblk s ip (off div BSIZE)) = BSIZE" and le: "off mod BSIZE + length bs \<le> BSIZE" and j: "j < MAXFILE * BSIZE"
    and w: "\<And>i. i < MAXFILE \<Longrightarrow> fblk s' ip i = (if i = off div BSIZE then put_bytes (fblk s ip (off div BSIZE)) (off mod BSIZE) bs else fblk s ip i)"
  shows "fbyte s' ip j = patch (fbyte s ip) off bs j"
proof -
  have jb: "j div BSIZE < MAXFILE" using j by (simp add: less_mult_imp_div_less)
  show ?thesis
  proof (cases "j div BSIZE = off div BSIZE")
    case True
    then show ?thesis using w [OF jb] put_bytes_patch [OF len le True] by (simp add: fbyte_def patch_def)
  next
    case False
    have "\<not> (off \<le> j \<and> j < off + length bs)"
    proof
      assume "off \<le> j \<and> j < off + length bs"
      then have "off mod BSIZE + (j - off) < BSIZE" "j = off + (j - off)" using le by auto
      then show False using div_mod_within(1) [of off BSIZE "j - off"] False by metis
    qed
    then show ?thesis using w [OF jb] False by (auto simp: fbyte_def patch_def)
  qed
qed

definition rewritten :: "'a fsys_scheme \<Rightarrow> nat \<Rightarrow> nat \<Rightarrow> uchar list \<Rightarrow> 'a fsys_scheme \<Rightarrow> bool" where
  "rewritten s ip off bs s' \<longleftrightarrow> fs_ok s' \<and> inode_ok s' ip \<and> fs_step s ip s' \<and>
     (\<forall>j < MAXFILE * BSIZE. fbyte s' ip j = patch (fbyte s ip) off bs j) \<and>
     (\<forall>j < MAXFILE * BSIZE. off \<le> j \<and> j < off + length bs \<longrightarrow> faddr s' ip (j div BSIZE) \<noteq> 0)"

lemma file_same_rewritten: "file_same s ip s' \<Longrightarrow> rewritten s ip off [] s'"
  by (auto simp: file_same_def rewritten_def fbyte_def less_mult_imp_div_less)

lemma rewritten_nil: "fs_ok s \<Longrightarrow> inode_ok s ip \<Longrightarrow> rewritten s ip off [] s"
  by (rule file_same_rewritten) (simp add: file_same_def)

lemma rewritten_append:
  assumes "rewritten s ip off xs s'" and "rewritten s' ip (off + length xs) ys s''"
  shows "rewritten s ip off (xs @ ys) s''"
proof -
  have "faddr s'' ip (j div BSIZE) \<noteq> 0" if "j < MAXFILE * BSIZE" "off \<le> j" "j < off + length (xs @ ys)" for j
    using assms that fs_stepD(11) [of s' ip s'' "j div BSIZE"] less_mult_imp_div_less [OF that(1)]
    by (cases "j < off + length xs") (simp_all add: rewritten_def)
  then show ?thesis
    using assms fs_step_trans [of s ip s' s''] unfolding rewritten_def by (simp add: patch_append [symmetric]) (simp add: patch_def)
qed

lemma txn_crit: "txn s p H k \<Longrightarrow> txn (s\<lparr>mycpu := crit (mycpu s)\<rparr>) p H k"
  using reading_crit [of s p H k] by (simp add: txn_def)

text \<open>One round of the loop of \<^verbatim>\<open>writei\<close>: it stops on a full disk, or goes on.\<close>

lemma writei_round:
  fixes off n tot :: uint32
  assumes D: "virtio_device D" and T: "txn s p Map.empty (k + 8)" and ok: "fs_ok s" "inode_ok s ip" and tot: "tot < n"
    and le: "unat off + (unat n - unat tot) \<le> MAXFILE * BSIZE" and src: "src_ok fl K p src (unat n - unat tot) s" and r: "r = pagetable (ptable s p)"
  defines "m \<equiv> unat (io_chunk n tot off)"
  shows "\<exists>s'. txn s' p Map.empty k \<and>
    (writei_loop D ip src off n tot s = Ok (tot, off, s') \<and> rewritten s ip (unat off) [] s' \<and> disk_full s' \<or>
     writei_loop D ip src off n tot s = writei_loop D ip (buf_plus src m) (off + io_chunk n tot off) n (tot + io_chunk n tot off) s' \<and>
     rewritten s ip (unat off) (src_bytes r (mem s) src m) s')"
proof -
  note P = io_chunk_progress [OF tot, of off, folded m_def]
  define bn where "bn = off div word_of_nat BSIZE"
  have ub: "unat bn = unat off div BSIZE" by (simp add: bn_def unat_block)
  have "unat off < MAXFILE * BSIZE" using le tot by (simp add: word_less_nat_alt)
  then have bm: "unat bn < MAXFILE" by (simp add: ub less_mult_imp_div_less)
  have T8: "txn s p Map.empty ((k + 2) + 6)" using T by (simp add: add.commute)
  obtain a s1 where 1: "bmap D ip bn s = Ok (a, s1)" "txn s1 p Map.empty (Suc (Suc k))" "file_same s ip s1" "faddr s1 ip (unat bn) = a"
      "a = 0 \<longrightarrow> (\<forall>c < sb_size (sb s). used s1 c)"
    using bmap_spec [OF D T8 ok bm] by auto
  have S1: "fs_ok s1" "inode_ok s1 ip" "mach_same s s1" "sb s1 = sb s" using 1(3) fs_stepD(1,2) by (auto simp: file_same_def)
  show ?thesis
  proof (cases "a = 0")
    case True
    then have "writei_loop D ip src off n tot s = Ok (tot, off, s1)"
      using tot 1(1) by (simp add: writei_loop.simps [of D ip src off n tot s] bn_def)
    moreover have "disk_full s1" using 1(5) True S1(4) by (simp add: disk_full_def)
    ultimately show ?thesis using file_same_rewritten [OF 1(3)] txn_mono [OF 1(2), of k] by (intro exI [of _ s1]) simp
  next
    case a: False
    have da: "data_block s1 a" using S1(2) a bm 1(4) by (auto simp: inode_ok_def fblocks_def)
    have dev: "idev (itable s1 ip) = ROOTDEV" using S1(2) by (simp add: inode_ok_def)
    obtain b s2 where 2: "bread D ROOTDEV a s1 = Ok (b, s2)" "lstep s1 s2" "txn s2 p [b \<mapsto> a] (Suc k)" "view s2 = view s1" "klog s2 = klog s1"
      using txn_bread [OF D 1(2) _ data_block31 [OF S1(1) da]] by auto
    have m2: "mach_same s s2" by (rule mach_same_trans [OF S1(3) lstep_mach [OF 2(2)]])
    have r2: "r = pagetable (ptable s2 p)" "mem s2 = mem s"
      using running_woke(2) [OF txnD(6) [OF T], of s2] m2 r by (simp_all add: mach_same_def)
    have "src_ok fl K p src (m + (unat n - unat tot - m)) s2" using src_ok_cong [OF src m2 txnD(6) [OF T]] P(3) by simp
    note C = src_chunk [OF txnD(6) [OF 2(3)] this r2(1), unfolded r2(2)]
    define bs where "bs = src_bytes r (mem s) src m"
    define s3 where "s3 = s2\<lparr>mycpu := crit (mycpu s2)\<rparr>"
    have T3: "txn s3 p [b \<mapsto> a] (Suc k)" unfolding s3_def by (rule txn_crit [OF 2(3)])
    have v3: "view s3 = view s1" "klog s3 = klog s1" using 2(4,5) by (simp_all add: s3_def)
    define f where "f = (\<lambda>d. put_bytes d (unat off mod BSIZE) bs)"
    have lb: "length bs = m" "unat off mod BSIZE + m \<le> BSIZE" using C(4) P(4) mod_less_divisor [of BSIZE "unat off"] by (simp_all add: bs_def BSIZE_def)
    have lv: "length (view s1 a) = BSIZE" using txnD(7) [OF 1(2)] by (simp add: sized_def)
    obtain s4 where 4: "log_write b (upd_buf b (bdata_update f) s3) = Ok s4" "lstep s3 s4" "txn s4 p [b \<mapsto> a] k"
        "view s4 = (view s3)(a := f (view s3 a))" "log_area (klog s4) = log_area (klog s3)"
      using txn_log [OF T3, of b a f] da lb lv v3 by (auto simp: data_block_def f_def)
    obtain s5 where 5: "brelse b s4 = Ok s5" "lstep s4 s5" "txn s5 p Map.empty k" "view s5 = view s4" "klog s5 = klog s4"
      using txn_brelse [OF 4(3), of b a Map.empty] by (auto simp: fun_eq_iff)
    have L: "lstep s1 s5" using lstep_crit [of s2] by (intro lstep_trans [OF 2(2) lstep_trans [OF _ lstep_trans [OF 4(2) 5(2)]]]) (simp add: s3_def)
    have v5: "view s5 = (view s1)(faddr s1 ip (unat bn) := f (view s1 a))" using 5(4) 4(4) v3 1(4) by simp
    have la: "log_area (klog s5) = log_area (klog s1)" using 5(5) 4(5) v3 by simp
    note W = file_write [OF S1(1,2) bm _ v5 L la, unfolded 1(4), OF a]
    have fb: "fblk s1 ip (unat off div BSIZE) = view s1 a" using a 1(4) by (simp add: fblk_def ub)
    have "fbyte s5 ip j = patch (fbyte s1 ip) (unat off) bs j" if "j < MAXFILE * BSIZE" for j
      by (rule fbyte_write [OF _ _ that]) (use lv lb W(4) in \<open>simp_all add: fb f_def ub\<close>)
    moreover have "faddr s5 ip (j div BSIZE) \<noteq> 0" if "unat off \<le> j" "j < unat off + length bs" for j
    proof -
      have "j div BSIZE = unat bn" using div_mod_within(1) [of "unat off" BSIZE "j - unat off"] that lb by (simp add: ub)
      then show ?thesis using fs_stepD(11) [OF W(3) bm] a 1(4) by simp
    qed
    ultimately have "rewritten s1 ip (unat off) bs s5" using W(1-3) by (simp add: rewritten_def)
    then have "rewritten s ip (unat off) bs s5" using rewritten_append [OF file_same_rewritten [OF 1(3)], of "unat off" bs s5] by simp
    moreover have "writei_loop D ip src off n tot s = writei_loop D ip (buf_plus src m) (off + io_chunk n tot off) n (tot + io_chunk n tot off) s5"
      using tot 1(1) a 2(1) dev C(1) 4(1) 5(1)
      by (simp add: writei_loop.simps [of D ip src off n tot s] Let_def unat_block s3_def f_def bs_def flip: bn_def m_def)
    ultimately show ?thesis using 5(3) unfolding bs_def by (intro exI [of _ s5]) simp
  qed
qed

text \<open>The number of blocks that a range of bytes touches.\<close>

definition blocks :: "nat \<Rightarrow> nat \<Rightarrow> nat" where
  "blocks off n = (if n = 0 then 0 else (off + n - 1) div BSIZE - off div BSIZE + 1)"

lemma blocks_step:
  assumes "0 < n" and m: "m = min n (BSIZE - off mod BSIZE)"
  shows "Suc (blocks (off + m) (n - m)) \<le> blocks off n"
proof (cases "n = m")
  case False
  then have mm: "m = BSIZE - off mod BSIZE" "m < n" using m by auto
  define q x where "q = off div BSIZE" and "x = off mod BSIZE"
  have "off = q * BSIZE + x" "x < BSIZE" by (simp_all add: q_def x_def BSIZE_def)
  then have "off + m = (off div BSIZE + 1) * BSIZE" by (simp add: mm(1) flip: q_def x_def)
  then have d: "(off + m) div BSIZE = off div BSIZE + 1" by (simp add: BSIZE_def)
  have "(off + m) div BSIZE \<le> (off + n - 1) div BSIZE" using mm(2) by (intro div_le_mono) linarith
  then show ?thesis using mm(2) d by (simp add: blocks_def)
qed (use assms in \<open>simp add: blocks_def\<close>)

lemma io_chunk_min:
  fixes n tot off :: uint32
  assumes "tot < n"
  shows "unat (io_chunk n tot off) = min (unat n - unat tot) (BSIZE - unat off mod BSIZE)"
proof -
  have sub: "unat (n - tot) = unat n - unat tot" using assms by (simp add: unat_sub less_imp_le)
  have "off mod word_of_nat BSIZE \<le> word_of_nat BSIZE" unfolding word_le_nat_alt unat_block(2) by (simp add: BSIZE_def)
  then have "unat (word_of_nat BSIZE - off mod word_of_nat BSIZE :: uint32) = BSIZE - unat off mod BSIZE"
    by (simp add: unat_sub unat_mod BSIZE_def)
  then show ?thesis by (simp add: io_chunk_def min_def word_le_nat_alt sub)
qed

lemma writei_loop_spec:
  fixes off n tot :: uint32
  assumes D: "virtio_device D"
  shows "txn s p Map.empty (k + 8 * blocks (unat off) (unat n - unat tot)) \<Longrightarrow> fs_ok s \<Longrightarrow> inode_ok s ip \<Longrightarrow> tot \<le> n \<Longrightarrow>
    unat off + (unat n - unat tot) \<le> MAXFILE * BSIZE \<Longrightarrow> src_ok fl K p src (unat n - unat tot) s \<Longrightarrow> r = pagetable (ptable s p) \<Longrightarrow>
    \<exists>t s'. writei_loop D ip src off n tot s = Ok (tot + word_of_nat t, off + word_of_nat t, s') \<and> t \<le> unat n - unat tot \<and>
      txn s' p Map.empty k \<and> rewritten s ip (unat off) (take t (src_bytes r (mem s) src (unat n - unat tot))) s' \<and>
      (t < unat n - unat tot \<longrightarrow> disk_full s')"
proof (induction "unat n - unat tot" arbitrary: src off tot s rule: less_induct)
  case less
  note prems = less.prems
  show ?case
  proof (cases "tot < n")
    case False
    then have "tot = n" using prems(4) by simp
    then show ?thesis using prems(1-3)
      by (intro exI [of _ 0] exI [of _ s]) (simp add: writei_loop.simps [of D ip src off n n s] blocks_def rewritten_nil)
  next
    case True
    define c where "c = io_chunk n tot off"
    define m where "m = unat c"
    define R where "R = unat n - unat tot"
    note P = io_chunk_progress [OF True, of off, folded c_def, folded m_def]
    have R0: "0 < R" using True by (simp add: R_def word_less_nat_alt)
    have mm: "m = min R (BSIZE - unat off mod BSIZE)" using io_chunk_min [OF True, of off] by (simp add: m_def c_def R_def)
    have le: "m \<le> R" by (simp add: mm)
    have uo: "unat (off + c) = unat off + m"
      using prems(5) le by (simp add: unat_word_ariths m_def [symmetric] R_def [symmetric] MAXFILE_def NINDIRECT_def BSIZE_def NDIRECT_def)
    have rest: "unat n - unat (tot + c) = R - m" using P(2) by (simp add: R_def)
    define k' where "k' = k + 8 * blocks (unat off + m) (R - m)"
    have T: "txn s p Map.empty (k' + 8)"
      using blocks_step [OF R0 mm] by (intro txn_mono [OF prems(1)]) (simp add: k'_def R_def [symmetric])
    obtain s1 where S: "txn s1 p Map.empty k'"
        "writei_loop D ip src off n tot s = Ok (tot, off, s1) \<and> rewritten s ip (unat off) [] s1 \<and> disk_full s1 \<or>
         writei_loop D ip src off n tot s = writei_loop D ip (buf_plus src m) (off + c) n (tot + c) s1 \<and>
         rewritten s ip (unat off) (src_bytes r (mem s) src m) s1"
      using writei_round [OF D T prems(2,3) True prems(5-7)] unfolding c_def m_def by blast
    show ?thesis
      using S(2)
    proof (elim disjE conjE)
      assume "writei_loop D ip src off n tot s = Ok (tot, off, s1)" "rewritten s ip (unat off) [] s1" "disk_full s1"
      then show ?thesis using S(1) R0 txn_mono [OF S(1), of k] by (intro exI [of _ 0] exI [of _ s1]) (simp add: k'_def R_def)
    next
      assume st: "writei_loop D ip src off n tot s = writei_loop D ip (buf_plus src m) (off + c) n (tot + c) s1"
        and rw: "rewritten s ip (unat off) (src_bytes r (mem s) src m) s1"
      have ok1: "fs_ok s1" "inode_ok s1 ip" and m1: "mach_same s s1" using rw fs_stepD(1) by (auto simp: rewritten_def)
      have run: "running s p" by (rule txnD(6) [OF prems(1)])
      have r1: "r = pagetable (ptable s1 p)" and mem1: "mem s1 = mem s"
        using running_woke(2) [OF run, of s1] m1 prems(7) by (simp_all add: mach_same_def)
      have "src_ok fl K p src (m + (R - m)) s" using prems(6) le by (simp flip: R_def)
      note C = src_chunk [OF run this prems(7)]
      have src1: "src_ok fl K p (buf_plus src m) (R - m) s1" by (rule src_ok_cong [OF C(2) m1 run])
      have tc: "tot + c \<le> n" using P(2,3) by (simp add: word_le_nat_alt)
      have lt: "unat n - unat (tot + c) < unat n - unat tot" using P(1-3) by simp
      have le1: "unat (off + c) + (R - m) \<le> MAXFILE * BSIZE" using prems(5) le by (simp add: uo R_def [symmetric])
      obtain t s' where I: "writei_loop D ip (buf_plus src m) (off + c) n (tot + c) s1 = Ok (tot + c + word_of_nat t, off + c + word_of_nat t, s')"
          "t \<le> R - m" "txn s' p Map.empty k" "rewritten s1 ip (unat off + m) (take t (src_bytes r (mem s1) (buf_plus src m) (R - m))) s'"
          "t < R - m \<longrightarrow> disk_full s'"
        using less.hyps [OF lt _ ok1 tc _ _ r1, of "off + c" "buf_plus src m"] S(1) src1 le1 unfolding rest uo k'_def by blast
      have cm: "c = word_of_nat m" by (simp add: m_def)
      have "take (m + t) (src_bytes r (mem s) src R) = src_bytes r (mem s) src m @ take t (src_bytes r (mem s) (buf_plus src m) (R - m))"
        using C(3,4) le by simp
      then have "rewritten s ip (unat off) (take (m + t) (src_bytes r (mem s) src R)) s'"
        using rewritten_append [OF rw, of "take t (src_bytes r (mem s) (buf_plus src m) (R - m))" s'] I(4) C(4) by (simp add: mem1)
      then show ?thesis using st I(1-3,5) le unfolding R_def [symmetric]
        by (intro exI [of _ "m + t"] exI [of _ s']) (simp add: cm add.assoc)
    qed
  qed
qed

section \<open>Inodes on the disk\<close>

definition dinode_of :: "inode \<Rightarrow> dinode" where
  "dinode_of i = \<lparr>di_type = itype i, di_major = imajor i, di_minor = iminor i, di_nlink = inlink i, di_size = isize i, di_addrs = iaddrs i\<rparr>"

definition disk_inode :: "'a fsys_scheme \<Rightarrow> uint32 \<Rightarrow> dinode" where
  "disk_inode s i = dinode_at (view s (IBLOCK i (sb s))) (unat i mod IPB)"

lemma dinode_other:
  assumes "64 * k + 64 \<le> length d" and "length (di_addrs di) = NDIRECT + 1" and "j \<noteq> k"
  shows "dinode_at (put_dinode d k di) j = dinode_at d j"
proof -
  have g: "get_bytes (put_dinode d k di) (64 * j + i) n = get_bytes d (64 * j + i) n" if "i + n \<le> 64" for i n
    using put_dinode_frame(2) [OF assms(1,2), of "64 * j + i" n] assms(3) that by (cases "j < k") auto
  have "map (\<lambda>i. get32 (put_dinode d k di) (64 * j + 12 + 4 * i)) [0..<NDIRECT + 1] = map (\<lambda>i. get32 d (64 * j + 12 + 4 * i)) [0..<NDIRECT + 1]"
    using g by (intro map_cong refl) (auto simp: get32_def NDIRECT_def add.assoc)
  then show ?thesis using g [of 0 2] g [of 2 2] g [of 4 2] g [of 6 2] g [of 8 4] by (simp add: dinode_at_def Let_def get16_def get32_def)
qed

lemma IBLOCK_same_block:
  assumes "IBLOCK i q = IBLOCK j q" and "unat i mod IPB = unat j mod IPB"
  shows "i = j"
proof -
  have "i div word_of_nat IPB = (j div word_of_nat IPB :: uint32)" using assms(1) by (simp add: IBLOCK_def)
  from arg_cong [OF this, of unat] have "unat i div IPB = unat j div IPB" by (simp add: unat_div IPB_def BSIZE_def)
  then show ?thesis using assms(2) by (metis div_mult_mod_eq word_unat_eq_iff)
qed

text \<open>Writing the block of an inode leaves the bitmap, the files and the other inodes.\<close>

lemma inode_write:
  assumes ok: "fs_ok s" and i: "i < sb_ninodes (sb s)" and v: "view s' = (view s)(IBLOCK i (sb s) := x)" and sb: "sb s' = sb s"
    and la: "log_area (klog s') = log_area (klog s)" and it: "itable s' = itable s"
  shows "fs_ok s'" "data_block s' = data_block s" "data_block s b \<Longrightarrow> view s' b = view s b" "c < sb_size (sb s) \<Longrightarrow> used s' c = used s c"
    "inode_ok s ip \<Longrightarrow> inode_ok s' ip \<and> fblocks s' ip = fblocks s ip \<and> (\<forall>j < MAXFILE. fblk s' ip j = fblk s ip j)"
proof -
  have "BBLOCK c (sb s) \<noteq> IBLOCK i (sb s)" if "c < sb_size (sb s)" for c using ok i that unfolding fs_ok_def by metis
  then have u: "used s' c = used s c" if "c < sb_size (sb s)" for c using that by (simp add: used_def v sb)
  then show "c < sb_size (sb s) \<Longrightarrow> used s' c = used s c" .
  show db: "data_block s' = data_block s" using u by (auto simp: data_block_def fun_eq_iff sb la)
  show vb: "data_block s b \<Longrightarrow> view s' b = view s b" for b using i by (auto simp: data_block_def v)
  have "bitmap_ok s'" using ok u by (auto simp: fs_ok_def bitmap_ok_def sb la)
  then show "fs_ok s'" using ok u by (auto simp: fs_ok_def sb la)
  show "inode_ok s ip \<Longrightarrow> inode_ok s' ip \<and> fblocks s' ip = fblocks s ip \<and> (\<forall>j < MAXFILE. fblk s' ip j = fblk s ip j)"
    using inode_keep [OF _ it sb, of ip] db vb by simp
qed

lemma iupdate_spec:
  assumes D: "virtio_device D" and T: "txn s p Map.empty (Suc k)" and ok: "fs_ok s" "inode_ok s ip"
  defines "i \<equiv> inum (itable s ip)"
  shows "\<exists>s'. iupdate D ip s = Ok s' \<and> lstep s s' \<and> txn s' p Map.empty k \<and> fs_ok s' \<and> inode_ok s' ip \<and> log_area (klog s') = log_area (klog s) \<and>
    data_block s' = data_block s \<and> fblocks s' ip = fblocks s ip \<and> (\<forall>j < MAXFILE. fblk s' ip j = fblk s ip j) \<and>
    (\<forall>b. data_block s b \<longrightarrow> view s' b = view s b) \<and> (\<forall>c < sb_size (sb s). used s' c = used s c) \<and>
    disk_inode s' = (disk_inode s)(i := dinode_of (itable s ip))"
proof -
  define n where "n = IBLOCK i (sb s)"
  define f where "f = (\<lambda>d. put_dinode d (unat i mod IPB) (dinode_of (itable s ip)))"
  have I: "idev (itable s ip) = ROOTDEV" "i < sb_ninodes (sb s)" "length (di_addrs (dinode_of (itable s ip))) = NDIRECT + 1"
    using ok(2) by (simp_all add: inode_ok_def i_def dinode_of_def)
  have n: "unat n < 2 ^ 31" "n \<notin> log_area (klog s)" using ok(1) I(2) by (simp_all add: fs_ok_def n_def)
  have k: "64 * (unat i mod IPB) + 64 \<le> length (view s n)"
    using txnD(7) [OF T] mod_less_divisor [of 16 "unat i"] by (simp add: sized_def IPB_def BSIZE_def)
  have len: "length (f (view s n)) = BSIZE" using put_dinode_frame(1) [OF k I(3)] txnD(7) [OF T] by (simp add: f_def sized_def)
  obtain b s1 s2 s3 where S: "bread D ROOTDEV n s = Ok (b, s1)" "log_write b (upd_buf b (bdata_update f) s1) = Ok s2" "brelse b s2 = Ok s3"
      "lstep s s1" "lstep s s3" "txn s3 p Map.empty k" "view s3 = (view s)(n := f (view s n))" "log_area (klog s3) = log_area (klog s)"
    using txn_update [OF D T _ n, of f] len by auto
  note F1 = lstep_fs [OF S(4)] and F3 = lstep_fs [OF S(5)]
  note W = inode_write [OF ok(1) I(2) S(7) [unfolded n_def] F3(1) S(8) F3(2)]
  have "iupdate D ip s = Ok s3"
    using S(1-3) I(1) by (simp add: iupdate_def n_def i_def f_def F1 Let_def dinode_of_def)
  moreover have "disk_inode s3 j = ((disk_inode s)(i := dinode_of (itable s ip))) j" for j
  proof (cases "IBLOCK j (sb s) = n")
    case True
    show ?thesis
    proof (cases "j = i")
      case j: True
      then show ?thesis using dinode_put_get [OF k I(3)] by (simp add: disk_inode_def F3 S(7) f_def n_def)
    next
      case j: False
      then have "unat j mod IPB \<noteq> unat i mod IPB" using IBLOCK_same_block [of j "sb s" i] True by (auto simp: n_def)
      then show ?thesis using dinode_other [OF k I(3)] j True by (simp add: disk_inode_def F3 S(7) f_def)
    qed
  next
    case False
    then show ?thesis by (auto simp: disk_inode_def F3 S(7) n_def)
  qed
  ultimately show ?thesis using S(5,6,8) W(1-4) W(5) [OF ok(2)] by (intro exI [of _ s3]) auto
qed

section \<open>The whole of \<^verbatim>\<open>writei\<close>\<close>

lemma fdata_fbyte: "fdata s ip = map (fbyte s ip) [0..<unat (isize (itable s ip))]"
  by (simp add: fdata_def fbytes_def fbyte_def)

lemma fdata_patch:
  assumes p: "\<And>j. j < MAXFILE * BSIZE \<Longrightarrow> fbyte s' ip j = patch (fbyte s ip) off bs j" and off: "off \<le> unat (isize (itable s ip))"
    and sz: "unat (isize (itable s' ip)) = max (unat (isize (itable s ip))) (off + length bs)" "unat (isize (itable s' ip)) \<le> MAXFILE * BSIZE"
  shows "fdata s' ip = take off (fdata s ip) @ bs @ drop (off + length bs) (fdata s ip)"
proof (rule nth_equalityI)
  show "length (fdata s' ip) = length (take off (fdata s ip) @ bs @ drop (off + length bs) (fdata s ip))" using sz(1) off by simp
  fix j assume "j < length (fdata s' ip)"
  then have j: "j < unat (isize (itable s' ip))" by simp
  then have "fdata s' ip ! j = patch (fbyte s ip) off bs j" using p sz(2) by (simp add: fdata_fbyte)
  then show "fdata s' ip ! j = (take off (fdata s ip) @ bs @ drop (off + length bs) (fdata s ip)) ! j"
    using j off sz(1) by (auto simp: patch_def nth_append fdata_fbyte)
qed

lemma writei_spec:
  fixes off n :: uint32
  assumes D: "virtio_device D" and T: "txn s p Map.empty (Suc k + 8 * blocks (unat off) (unat n))" and ok: "fs_ok s" "inode_ok s ip"
    and off: "off \<le> isize (itable s ip)" and le: "unat off + unat n \<le> MAXFILE * BSIZE" and sz: "unat (isize (itable s ip)) \<le> MAXFILE * BSIZE"
    and src: "src_ok fl K p src (unat n) s"
  defines "bs \<equiv> src_bytes (pagetable (ptable s p)) (mem s) src (unat n)"
  shows "\<exists>t s'. writei D ip src off n s = Ok (word_of_nat t, s') \<and> t \<le> unat n \<and> (t < unat n \<longrightarrow> disk_full s') \<and>
    fdata s' ip = take (unat off) (fdata s ip) @ take t bs @ drop (unat off + t) (fdata s ip) \<and>
    txn s' p Map.empty k \<and> fs_ok s' \<and> inode_ok s' ip \<and> mach_same s s' \<and>
    (\<forall>i < sb_ninodes (sb s). disk_inode s' i = (if i = inum (itable s ip) then dinode_of (itable s' ip) else disk_inode s i)) \<and>
    (\<forall>b. data_block s b \<longrightarrow> b \<notin> fblocks s ip \<longrightarrow> view s' b = view s b) \<and> (\<forall>j. j \<noteq> ip \<longrightarrow> itable s' j = itable s j) \<and>
    (itable s' ip)\<lparr>iaddrs := [], isize := 0\<rparr> = (itable s ip)\<lparr>iaddrs := [], isize := 0\<rparr> \<and>
    (mapped s ip 0 (unat (isize (itable s ip))) \<longrightarrow> mapped s' ip 0 (unat (isize (itable s' ip))))"
proof -
  have max: "unat off + unat n < 2 ^ 32" using le by (simp add: MAXFILE_def NINDIRECT_def BSIZE_def NDIRECT_def)
  have un: "unat (off + n) = unat off + unat n" using max by (simp add: unat_word_ariths)
  have guards: "\<not> isize (itable s ip) < off" "\<not> off + n < off" "\<not> unat (off + n) > MAXFILE * BSIZE"
    using off le un by (simp_all add: word_less_nat_alt word_le_nat_alt)
  obtain t s1 where W: "writei_loop D ip src off n 0 s = Ok (word_of_nat t, off + word_of_nat t, s1)" "t \<le> unat n" "txn s1 p Map.empty (Suc k)"
      "rewritten s ip (unat off) (take t bs) s1" "t < unat n \<longrightarrow> disk_full s1"
    using writei_loop_spec [OF D, of s p "Suc k" off n 0 ip fl K src] T ok le src unfolding bs_def by auto
  have R: "fs_ok s1" "inode_ok s1 ip" "fs_step s ip s1" "\<forall>j < MAXFILE * BSIZE. fbyte s1 ip j = patch (fbyte s ip) (unat off) (take t bs) j"
      "\<forall>j < MAXFILE * BSIZE. unat off \<le> j \<and> j < unat off + length (take t bs) \<longrightarrow> faddr s1 ip (j div BSIZE) \<noteq> 0"
    using W(4) by (simp_all add: rewritten_def)
  note F = fs_stepD [OF R(3)]
  define s2 where "s2 = (if off + word_of_nat t > isize (itable s1 ip) then upd_inode ip (isize_update (\<lambda>_. off + word_of_nat t)) s1 else s1)"
  have ut: "unat (off + word_of_nat t) = unat off + t" using max W(2) by (simp add: unat_word_ariths unat_of_nat)
  have size2: "unat (isize (itable s2 ip)) = max (unat (isize (itable s ip))) (unat off + t)"
    using ut F(7) by (auto simp: s2_def word_less_nat_alt)
  have v2: "view s2 = view s1" "klog s2 = klog s1" "sb s2 = sb s1" "iaddrs (itable s2 ip) = iaddrs (itable s1 ip)" "idev (itable s2 ip) = idev (itable s1 ip)"
      "inum (itable s2 ip) = inum (itable s1 ip)" "mach_same s s2" "\<forall>j. j \<noteq> ip \<longrightarrow> itable s2 j = itable s j" "txn s2 p Map.empty (Suc k)"
    using F(1,4) W(3) by (simp_all add: s2_def)
  have fi: "iind s2 ip = iind s1 ip" "faddr s2 ip = faddr s1 ip" "fblk s2 ip = fblk s1 ip" "fblocks s2 ip = fblocks s1 ip" "used s2 = used s1"
      "data_block s2 = data_block s1"
    using v2 by (simp_all add: iind_def faddr_def fblk_def fblocks_def used_def data_block_def fun_eq_iff)
  have ok2: "fs_ok s2" "inode_ok s2 ip"
    using R(1,2) unfolding fs_ok_def bitmap_ok_def inode_ok_def fi v2 by simp_all
  obtain s3 where U: "iupdate D ip s2 = Ok s3" "lstep s2 s3" "txn s3 p Map.empty k" "fs_ok s3" "inode_ok s3 ip"
      "\<forall>j < MAXFILE. fblk s3 ip j = fblk s2 ip j" "\<forall>b. data_block s2 b \<longrightarrow> view s3 b = view s2 b" "\<forall>c < sb_size (sb s2). used s3 c = used s2 c"
      "disk_inode s3 = (disk_inode s2)(inum (itable s2 ip) := dinode_of (itable s2 ip))"
      "data_block s3 = data_block s2"
    using iupdate_spec [OF D v2(9) ok2] by (elim exE conjE) (rule that)
  note G = lstep_fs [OF U(2)]
  have "disk_inode s2 = disk_inode s1" by (simp add: disk_inode_def fun_eq_iff v2)
  moreover have "disk_inode s1 j = disk_inode s j" if "j < sb_ninodes (sb s)" for j using F(10) [OF that] by (simp add: disk_inode_def F(2))
  ultimately have di: "\<forall>j < sb_ninodes (sb s). disk_inode s3 j = ((disk_inode s)(inum (itable s ip) := dinode_of (itable s3 ip))) j"
    using U(9) v2(6) F(6) by (simp add: G)
  have fb: "fbyte s3 ip j = patch (fbyte s ip) (unat off) (take t bs) j" if "j < MAXFILE * BSIZE" for j
    using R(4) that U(6) fi(3) by (simp add: fbyte_def less_mult_imp_div_less)
  have lt: "length (take t bs) = t" using src_chunk(4) [OF txnD(6) [OF T], of fl K src "unat n" 0] src W(2) by (simp add: bs_def)
  have fd: "fdata s3 ip = take (unat off) (fdata s ip) @ take t bs @ drop (unat off + t) (fdata s ip)"
    using fdata_patch [of s3 ip s "unat off" "take t bs", OF fb] off size2 sz le W(2) lt by (simp add: G word_le_nat_alt)
  note keep = inode_keep(3) [OF ok2(2) G(2,1)]
  have fa: "faddr s3 ip j = faddr s1 ip j" if "j < MAXFILE" for j using keep [OF _ that] U(7,10) fi(2) by simp
  have "mapped s3 ip 0 (unat (isize (itable s3 ip)))" if M: "mapped s ip 0 (unat (isize (itable s ip)))"
    unfolding mapped_def
  proof (intro conjI allI impI)
    show lim: "0 + unat (isize (itable s3 ip)) \<le> MAXFILE * BSIZE" using size2 sz le W(2) by (simp add: G)
    fix j assume "0 \<le> j \<and> j < 0 + unat (isize (itable s3 ip))"
    then have j: "j < max (unat (isize (itable s ip))) (unat off + t)" "j < MAXFILE * BSIZE" using lim unfolding G size2 by linarith+
    note jb = less_mult_imp_div_less [OF j(2)]
    show "faddr s3 ip (j div BSIZE) \<noteq> 0"
    proof (cases "j < unat (isize (itable s ip))")
      case True
      then show ?thesis using M F(11) [OF jb] fa [OF jb] by (simp add: mapped_def)
    next
      case False
      then show ?thesis using R(5) j lt off fa [OF jb] by (simp add: word_le_nat_alt)
    qed
  qed
  note mp' = this
  have "writei D ip src off n s = Ok (word_of_nat t, s3)"
    using guards W(1) U(1) unfolding writei_def s2_def by (simp add: Let_def)
  moreover have "t < unat n \<longrightarrow> disk_full s3" using W(5) U(8) G fi(5) v2(3) by (simp add: disk_full_def)
  moreover have "mach_same s s3" by (rule mach_same_trans [OF v2(7) lstep_mach [OF U(2)]])
  moreover have "\<forall>b. data_block s b \<longrightarrow> b \<notin> fblocks s ip \<longrightarrow> view s3 b = view s b" using F(8,9) U(7) fi(6) v2(1) by simp
  moreover have "\<forall>j. j \<noteq> ip \<longrightarrow> itable s3 j = itable s j" using v2(8) by (simp add: G)
  moreover have "\<forall>i < sb_ninodes (sb s). disk_inode s3 i = (if i = inum (itable s ip) then dinode_of (itable s3 ip) else disk_inode s i)" using di by simp
  moreover have "(itable s3 ip)\<lparr>iaddrs := [], isize := 0\<rparr> = (itable s ip)\<lparr>iaddrs := [], isize := 0\<rparr>"
    using R(3) by (auto simp: G s2_def fs_step_def dest: arg_cong [of _ _ "isize_update (\<lambda>_. 0)"])
  ultimately show ?thesis using W(2) fd U(3-5) mp' by (intro exI [of _ t] exI [of _ s3] conjI) (assumption | blast)+
qed

end
