(* ===== verification/Fs_Dir.thy ===== *)
theory Fs_Dir
  imports Fs_File
begin

text \<open>
  The inode table as a map of reference counts, directories as lists of entries, and paths as
  lists of names.
\<close>

section \<open>The inode table\<close>

definition itab_find :: "uint32 \<Rightarrow> uint32 \<Rightarrow> (nat \<Rightarrow> inode) \<Rightarrow> nat option" where
  "itab_find d n t = find (\<lambda>i. iref (t i) > 0 \<and> idev (t i) = d \<and> inum (t i) = n) [0..<NINODE]"

definition itab_free :: "(nat \<Rightarrow> inode) \<Rightarrow> nat option" where
  "itab_free t = find (\<lambda>i. iref (t i) = 0) [0..<NINODE]"

text \<open>No two entries in use stand for the same inode.\<close>

definition itab_ok :: "(nat \<Rightarrow> inode) \<Rightarrow> bool" where
  "itab_ok t \<longleftrightarrow> (\<forall>i < NINODE. 0 \<le> iref (t i)) \<and>
     (\<forall>i < NINODE. \<forall>j < NINODE. 0 < iref (t i) \<and> 0 < iref (t j) \<and> idev (t i) = idev (t j) \<and> inum (t i) = inum (t j) \<longrightarrow> i = j)"

lemma itab_okD:
  assumes "itab_ok t"
  shows "i < NINODE \<Longrightarrow> 0 \<le> iref (t i)"
    "i < NINODE \<Longrightarrow> j < NINODE \<Longrightarrow> 0 < iref (t i) \<Longrightarrow> 0 < iref (t j) \<Longrightarrow> idev (t i) = idev (t j) \<Longrightarrow> inum (t i) = inum (t j) \<Longrightarrow> i = j"
  using assms by (auto simp: itab_ok_def)

definition irefs :: "(nat \<Rightarrow> inode) \<Rightarrow> uint32 \<times> uint32 \<Rightarrow> int" where
  "irefs t k = (case itab_find (fst k) (snd k) t of Some i \<Rightarrow> iref (t i) | None \<Rightarrow> 0)"

lemma iget_scan_find:
  "fst (iget_scan d n i e t) = find (\<lambda>i. iref (t i) > 0 \<and> idev (t i) = d \<and> inum (t i) = n) [i..<NINODE]"
  "fst (iget_scan d n i e t) = None \<Longrightarrow> snd (iget_scan d n i e t) = (if e = None then find (\<lambda>i. iref (t i) = 0) [i..<NINODE] else e)"
proof (induction d n i e t rule: iget_scan.induct)
  case (1 d n i e t)
  {
    case 1
    show ?case using "1.IH"(1) by (simp add: iget_scan.simps [of d n i e t] upt_rec [of i])
  next
    case 2
    then show ?case using "1.IH"(2) by (auto simp: iget_scan.simps [of d n i e t] upt_rec [of i] split: if_splits)
  }
qed

lemma itab_findD:
  assumes "itab_find d n t = Some i"
  shows "i < NINODE" "0 < iref (t i)" "idev (t i) = d" "inum (t i) = n"
  using assms find_SomeD [of _ "[0..<NINODE]" i] unfolding itab_find_def by fastforce+

lemma itab_find_iff:
  assumes "itab_ok t"
  shows "itab_find d n t = Some i \<longleftrightarrow> i < NINODE \<and> 0 < iref (t i) \<and> idev (t i) = d \<and> inum (t i) = n"
proof
  show "itab_find d n t = Some i \<Longrightarrow> i < NINODE \<and> 0 < iref (t i) \<and> idev (t i) = d \<and> inum (t i) = n" using itab_findD [of d n t i] by blast
  assume i: "i < NINODE \<and> 0 < iref (t i) \<and> idev (t i) = d \<and> inum (t i) = n"
  then have "itab_find d n t \<noteq> None" by (auto simp: itab_find_def find_None_iff)
  then obtain j where j: "itab_find d n t = Some j" by blast
  then have "j = i" using itab_findD [OF j] i assms by (auto simp: itab_ok_def)
  then show "itab_find d n t = Some i" using j by simp
qed

lemma irefs_eq:
  assumes "itab_ok t"
  shows "i < NINODE \<Longrightarrow> 0 < iref (t i) \<Longrightarrow> irefs t (idev (t i), inum (t i)) = iref (t i)"
    "(\<And>i. i < NINODE \<Longrightarrow> 0 < iref (t i) \<Longrightarrow> (idev (t i), inum (t i)) \<noteq> k) \<Longrightarrow> irefs t k = 0"
proof -
  show "i < NINODE \<Longrightarrow> 0 < iref (t i) \<Longrightarrow> irefs t (idev (t i), inum (t i)) = iref (t i)"
    using itab_find_iff [OF assms, of "idev (t i)" "inum (t i)" i] by (simp add: irefs_def)
  show "irefs t k = 0" if "\<And>i. i < NINODE \<Longrightarrow> 0 < iref (t i) \<Longrightarrow> (idev (t i), inum (t i)) \<noteq> k"
    using that itab_findD [of "fst k" "snd k" t] by (force simp: irefs_def split: option.split)
qed

text \<open>Two tables with the same entries in use, except for one.\<close>

lemma irefs_upd:
  assumes ok: "itab_ok t" "itab_ok t'" and i: "i < NINODE" and same: "\<And>j. j \<noteq> i \<Longrightarrow> t' j = t j"
    and k: "0 < iref (t i) \<Longrightarrow> k = (idev (t i), inum (t i))" "0 < iref (t' i) \<Longrightarrow> k = (idev (t' i), inum (t' i))" and none: "iref (t i) = 0 \<Longrightarrow> irefs t k = 0"
  shows "irefs t' = (irefs t)(k := iref (t' i))"
proof
  fix x
  show "irefs t' x = ((irefs t)(k := iref (t' i))) x"
  proof (cases "x = k")
    case True
    show ?thesis
    proof (cases "0 < iref (t' i)")
      case pos: True
      then show ?thesis using irefs_eq(1) [OF ok(2) i pos] k(2) True by simp
    next
      case False
      then have z: "iref (t' i) = 0" using ok(2) i by (force simp: itab_ok_def)
      have "(idev (t' j), inum (t' j)) \<noteq> k" if j: "j < NINODE" "0 < iref (t' j)" for j
      proof
        assume eq: "(idev (t' j), inum (t' j)) = k"
        have ji: "j \<noteq> i" using z j(2) by auto
        then have tj: "0 < iref (t j)" "(idev (t j), inum (t j)) = k" using same [of j] j eq by auto
        show False
        proof (cases "0 < iref (t i)")
          case True
          then show False using ok(1) tj k(1) [OF True] ji i j(1) unfolding itab_ok_def by (metis prod.inject)
        next
          case False
          then have "iref (t i) = 0" using ok(1) i by (force simp: itab_ok_def)
          then show False using none irefs_eq(1) [OF ok(1) j(1) tj(1)] tj by simp
        qed
      qed
      then show ?thesis using irefs_eq(2) [OF ok(2), of k] z True by simp
    qed
  next
    case False
    have "itab_find (fst x) (snd x) t' = itab_find (fst x) (snd x) t"
      unfolding itab_find_def
    proof (rule find_cong)
      fix j assume "j \<in> set [0..<NINODE]"
      show "(0 < iref (t' j) \<and> idev (t' j) = fst x \<and> inum (t' j) = snd x) = (0 < iref (t j) \<and> idev (t j) = fst x \<and> inum (t j) = snd x)"
        using same [of j] k False by (cases "j = i") auto
    qed simp
    moreover have "itab_find (fst x) (snd x) t = Some j \<Longrightarrow> j \<noteq> i" for j using itab_findD [of "fst x" "snd x" t j] k(1) False by auto
    ultimately show ?thesis using False same by (auto simp: irefs_def split: option.split)
  qed
qed

lemma itable_crit:
  assumes "running s p" and "itable_lock s = initlock"
  shows "itable_acquire s = Ok (s\<lparr>itable_lock := held_by (cpu_id (mycpu s)), mycpu := push_off (mycpu s)\<rparr>)"
    "itable_release (s\<lparr>itable_lock := held_by (cpu_id (mycpu s)), mycpu := push_off (mycpu s), itable := t\<rparr>) = Ok (s\<lparr>mycpu := crit (mycpu s), itable := t\<rparr>)"
proof -
  have c: "cpu_ok (mycpu s)" using assms(1) by (simp add: running_def)
  show "itable_acquire s = Ok (s\<lparr>itable_lock := held_by (cpu_id (mycpu s)), mycpu := push_off (mycpu s)\<rparr>)"
    using assms(2) by (simp add: itable_acquire_def acquire_free)
  have "s\<lparr>itable := t, itable_lock := initlock, mycpu := x\<rparr> = s\<lparr>mycpu := x, itable := t\<rparr>" for x
    by (rule fsys.equality) (use assms(2) in simp_all)
  then show "itable_release (s\<lparr>itable_lock := held_by (cpu_id (mycpu s)), mycpu := push_off (mycpu s), itable := t\<rparr>) = Ok (s\<lparr>mycpu := crit (mycpu s), itable := t\<rparr>)"
    using c by (simp add: itable_release_def release_push_off)
qed

text \<open>What \<^verbatim>\<open>iget\<close>, \<^verbatim>\<open>idup\<close> and \<^verbatim>\<open>iput\<close> do to the table.\<close>

definition iget_entry :: "uint32 \<Rightarrow> uint32 \<Rightarrow> (nat \<Rightarrow> inode) \<Rightarrow> (nat \<times> inode) option" where
  "iget_entry d n t = (case itab_find d n t of
       Some i \<Rightarrow> Some (i, (t i)\<lparr>iref := iref (t i) + 1\<rparr>)
     | None \<Rightarrow> map_option (\<lambda>i. (i, (t i)\<lparr>idev := d, inum := n, iref := 1, ivalid := False\<rparr>)) (itab_free t))"

lemma iget_eq:
  assumes "running s p" and "itable_lock s = initlock"
  shows "iget d n s = (case iget_entry d n (itable s) of None \<Rightarrow> Panic ''iget: no inodes''
    | Some (i, e) \<Rightarrow> Ok (i, s\<lparr>mycpu := crit (mycpu s), itable := (itable s)(i := e)\<rparr>))"
proof -
  note C = itable_crit [OF assms]
  have F: "fst (iget_scan d n 0 None (itable s)) = itab_find d n (itable s)"
    "itab_find d n (itable s) = None \<Longrightarrow> snd (iget_scan d n 0 None (itable s)) = itab_free (itable s)"
    using iget_scan_find [of d n 0 None "itable s"] by (simp_all add: itab_find_def itab_free_def)
  show ?thesis
  proof (cases "itab_find d n (itable s)")
    case (Some i)
    then obtain e where "iget_scan d n 0 None (itable s) = (Some i, e)" using F(1) by (cases "iget_scan d n 0 None (itable s)") simp
    then show ?thesis using Some by (simp add: iget_def C iget_entry_def upd_inode_def)
  next
    case None
    then have "iget_scan d n 0 None (itable s) = (None, itab_free (itable s))" using F by (cases "iget_scan d n 0 None (itable s)") simp
    then show ?thesis using None by (cases "itab_free (itable s)") (simp_all add: iget_def C iget_entry_def upd_inode_def)
  qed
qed

lemma iget_entry_ok:
  assumes ok: "itab_ok t" and g: "iget_entry d n t = Some (i, e)"
  shows "itab_ok (t(i := e))" "irefs (t(i := e)) = (irefs t)((d, n) := irefs t (d, n) + 1)" "itab_find d n (t(i := e)) = Some i" "i < NINODE"
    "iref e = irefs t (d, n) + 1" "idev e = d" "inum e = n" "ilk e = ilk (t i)"
proof -
  have "i < NINODE \<and> iref e = irefs t (d, n) + 1 \<and> 0 < iref e \<and> idev e = d \<and> inum e = n \<and> ilk e = ilk (t i) \<and>
      (0 < iref (t i) \<longrightarrow> idev (t i) = d \<and> inum (t i) = n) \<and> (iref (t i) = 0 \<longrightarrow> itab_find d n t = None)"
  proof (cases "itab_find d n t")
    case (Some j)
    then show ?thesis using g itab_findD [OF Some] by (auto simp: iget_entry_def irefs_def)
  next
    case None
    then obtain j where j: "itab_free t = Some j" "i = j" "e = (t j)\<lparr>idev := d, inum := n, iref := 1, ivalid := False\<rparr>"
      using g by (auto simp: iget_entry_def)
    have "j < NINODE" "iref (t j) = 0" using find_SomeD [of _ "[0..<NINODE]" j] j(1) unfolding itab_free_def by fastforce+
    then show ?thesis using None j by (simp add: irefs_def)
  qed
  note E = this
  show "i < NINODE" "iref e = irefs t (d, n) + 1" "idev e = d" "inum e = n" "ilk e = ilk (t i)" using E by blast+
  have only: "j = i" if "j < NINODE" "0 < iref (t j)" "idev (t j) = d" "inum (t j) = n" for j
  proof -
    have "itab_find d n t = Some j" using itab_find_iff [OF ok] that by blast
    then have "iref (t i) \<noteq> 0" using E by auto
    then have "0 < iref (t i)" using itab_okD(1) [OF ok, of i] E by linarith
    then show ?thesis using E that itab_okD(2) [OF ok, of j i] by simp
  qed
  show ok': "itab_ok (t(i := e))"
    unfolding itab_ok_def
  proof (intro conjI allI impI)
    show "0 \<le> iref ((t(i := e)) j)" if "j < NINODE" for j using that E itab_okD(1) [OF ok that] by simp
    fix a b
    assume ab: "a < NINODE" "b < NINODE" and eq: "0 < iref ((t(i := e)) a) \<and> 0 < iref ((t(i := e)) b) \<and>
        idev ((t(i := e)) a) = idev ((t(i := e)) b) \<and> inum ((t(i := e)) a) = inum ((t(i := e)) b)"
    have de: "idev e = d" "inum e = n" using E by blast+
    consider "a = i" "b = i" | "a = i" "b \<noteq> i" | "a \<noteq> i" "b = i" | "a \<noteq> i" "b \<noteq> i" by blast
    then show "a = b"
    proof cases
      case 2
      then show ?thesis using eq de only [OF ab(2)] by simp
    next
      case 3
      then show ?thesis using eq de only [OF ab(1)] by simp
    next
      case 4
      then show ?thesis using eq itab_okD(2) [OF ok ab] by simp
    qed simp
  qed
  show "itab_find d n (t(i := e)) = Some i" using itab_find_iff [OF ok', of d n i] E by simp
  have "irefs (t(i := e)) = (irefs t)((d, n) := iref ((t(i := e)) i))"
  proof (rule irefs_upd [OF ok ok'])
    show "iref (t i) = 0 \<Longrightarrow> irefs t (d, n) = 0" using E by (auto simp: irefs_def)
    show "i < NINODE" using E by blast
    show "0 < iref (t i) \<Longrightarrow> (d, n) = (idev (t i), inum (t i))" using E by simp
  qed (use E in auto)
  then show "irefs (t(i := e)) = (irefs t)((d, n) := irefs t (d, n) + 1)" using E by (metis fun_upd_same)
qed

lemma iget_entry_some:
  assumes "itab_find d n t \<noteq> None \<or> itab_free t \<noteq> None"
  shows "\<exists>i e. iget_entry d n t = Some (i, e) \<and> idev e = d \<and> inum e = n"
proof (cases "itab_find d n t")
  case (Some i)
  then show ?thesis using itab_findD [OF Some] by (auto simp: iget_entry_def)
next
  case None
  then show ?thesis using assms by (auto simp: iget_entry_def)
qed

definition iref_add :: "int \<Rightarrow> nat \<Rightarrow> (nat \<Rightarrow> inode) \<Rightarrow> nat \<Rightarrow> inode" where
  "iref_add x i t = t(i := (t i)\<lparr>iref := iref (t i) + x\<rparr>)"

lemma idup_eq:
  assumes "running s p" and "itable_lock s = initlock"
  shows "idup i s = Ok (i, s\<lparr>mycpu := crit (mycpu s), itable := iref_add 1 i (itable s)\<rparr>)"
  by (simp add: idup_def itable_crit [OF assms] upd_inode_def iref_add_def)

lemma iput_eq:
  assumes "running s p" and "itable_lock s = initlock" and "\<not> (iref (itable s i) = 1 \<and> ivalid (itable s i) \<and> inlink (itable s i) = 0)"
  shows "iput D i s = Ok (s\<lparr>mycpu := crit (mycpu s), itable := iref_add (-1) i (itable s)\<rparr>)"
proof -
  have c: "(iref (itable s i) = 1 \<and> ivalid (itable s i) \<and> inlink (itable s i) = 0) = False" using assms(3) by blast
  show ?thesis by (simp add: iput_def itable_crit [OF assms(1,2)] c upd_inode_def iref_add_def del: rbind_eq_Ok Ok_eq_rbind)
qed

lemma iref_add_ok:
  assumes ok: "itab_ok t" and i: "i < NINODE" "0 < iref (t i)" "0 \<le> iref (t i) + x"
  shows "itab_ok (iref_add x i t)" "irefs (iref_add x i t) = (irefs t)((idev (t i), inum (t i)) := irefs t (idev (t i), inum (t i)) + x)"
proof -
  have pos: "0 < iref (t j)" if "0 < iref (iref_add x i t j)" for j using that i(2) by (cases "j = i") (simp_all add: iref_add_def)
  have same: "idev (iref_add x i t j) = idev (t j)" "inum (iref_add x i t j) = inum (t j)" for j by (simp_all add: iref_add_def)
  have nn: "0 \<le> iref (iref_add x i t j)" if "j < NINODE" for j
    using i(3) itab_okD(1) [OF ok that] by (cases "j = i") (simp_all add: iref_add_def)
  show ok': "itab_ok (iref_add x i t)"
    unfolding itab_ok_def same using nn pos itab_okD(2) [OF ok] by blast
  have "irefs (iref_add x i t) = (irefs t)((idev (t i), inum (t i)) := iref (iref_add x i t i))"
    by (rule irefs_upd [OF ok ok' i(1)]) (use i(2) in \<open>simp_all add: iref_add_def\<close>)
  then show "irefs (iref_add x i t) = (irefs t)((idev (t i), inum (t i)) := irefs t (idev (t i), inum (t i)) + x)"
    using irefs_eq(1) [OF ok i(1,2)] by (simp add: iref_add_def)
qed

section \<open>Directories\<close>

definition dent :: "'a fsys_scheme \<Rightarrow> nat \<Rightarrow> nat \<Rightarrow> dirent" where
  "dent s dp i = dirent_of (fbytes s dp (16 * i) 16)"

definition dent_matches :: "uchar list \<Rightarrow> dirent \<Rightarrow> bool" where
  "dent_matches name de \<longleftrightarrow> de_inum de \<noteq> 0 \<and> cstr (bufptr name) DIRSIZ = cstr (bufptr (de_name de)) DIRSIZ"

text \<open>A directory whose content is a list of entries.\<close>

definition is_dir :: "'a fsys_scheme \<Rightarrow> nat \<Rightarrow> dirent list \<Rightarrow> bool" where
  "is_dir s dp des \<longleftrightarrow> itype (itable s dp) = T_DIR \<and> fdata s dp = concat (map dirent_bytes des) \<and> (\<forall>de \<in> set des. length (de_name de) = DIRSIZ)"

lemma concat_slice:
  "\<forall>x \<in> set xs. length (f x) = n \<Longrightarrow> i < length xs \<Longrightarrow> take n (drop (n * i) (concat (map f xs))) = f (xs ! i)"
  "\<forall>x \<in> set xs. length (f x) = n \<Longrightarrow> length (concat (map f xs)) = n * length xs"
proof (induction xs arbitrary: i)
  case (Cons x xs)
  { case 1 then show ?case using Cons.IH by (cases i) simp_all
  next case 2 then show ?case using Cons.IH by simp }
qed simp_all

lemma is_dirD:
  assumes "is_dir s dp des"
  shows "unat (isize (itable s dp)) = 16 * length des" "i < length des \<Longrightarrow> dent s dp i = des ! i" "itype (itable s dp) = T_DIR"
proof -
  have l: "\<forall>de \<in> set des. length (dirent_bytes de) = 16"
    using assms dirent_roundtrip(2) by (auto simp: is_dir_def DIRENT_size_def DIRSIZ_def)
  have fd: "fdata s dp = concat (map dirent_bytes des)" using assms by (simp add: is_dir_def)
  show sz: "unat (isize (itable s dp)) = 16 * length des" using concat_slice(2) [OF l] fd length_fdata [of s dp] by simp
  show "itype (itable s dp) = T_DIR" using assms by (simp add: is_dir_def)
  show "dent s dp i = des ! i" if i: "i < length des"
  proof -
    have "fbytes s dp (16 * i) 16 = dirent_bytes (des ! i)"
      using fdata_slice [of "16 * i" 16 s dp] concat_slice(1) [OF l i] i by (simp add: sz fd)
    then show ?thesis using assms i dirent_roundtrip(1) by (simp add: dent_def is_dir_def)
  qed
qed

text \<open>Reading one entry.\<close>

lemma read_dent:
  assumes D: "virtio_device D" and T: "reading s p Map.empty (Suc k)" and ok: "fs_ok s" "inode_ok s dp" and mp: "mapped s dp 0 (unat (isize (itable s dp)))"
    and i: "16 * i + 16 \<le> unat (isize (itable s dp))"
  shows "\<exists>s' bs. readi D dp (KernVar []) (word_of_nat (16 * i)) (word_of_nat DIRENT_size) s = Ok (word_of_nat DIRENT_size, bs, s') \<and>
    dirent_of bs = dent s dp i \<and> reading s' p Map.empty (Suc k) \<and> read_same s s' \<and> mem s' = mem s"
proof -
  have lim: "16 * i + 16 < 2 ^ 32" using i mp by (simp add: mapped_def MAXFILE_def NINDIRECT_def BSIZE_def NDIRECT_def)
  have u: "unat (word_of_nat (16 * i) :: uint32) = 16 * i" "unat (word_of_nat DIRENT_size :: uint32) = 16"
    using lim by (simp_all add: unat_of_nat DIRENT_size_def DIRSIZ_def del: of_nat_mult)
  define bs where "bs = fbytes s dp (16 * i) 16"
  have sl: "bs = take 16 (drop (16 * i) (fdata s dp))" using fdata_slice [OF i] by (simp add: bs_def)
  obtain s' where "readi D dp (KernVar []) (word_of_nat (16 * i)) (word_of_nat DIRENT_size) s = Ok (word_of_nat (length bs), bs, s')"
      "reading s' p Map.empty (Suc k)" "read_same s s'" "mem s' = mem s"
    using readi_spec [OF D T ok mp, of "word_of_nat (16 * i)" "word_of_nat DIRENT_size" bs undefined undefined "KernVar []"] lim sl unfolding u by auto
  moreover have "length bs = DIRENT_size" by (simp add: bs_def DIRENT_size_def DIRSIZ_def)
  moreover have "dirent_of bs = dent s dp i" by (simp add: dent_def bs_def)
  ultimately show ?thesis by (intro exI [of _ s'] exI [of _ bs] conjI) simp_all
qed

text \<open>The first entry from \<open>i\<close> on that satisfies \<open>P\<close>, among the first \<open>n\<close>.\<close>

definition first_dent :: "(dirent \<Rightarrow> bool) \<Rightarrow> dirent list \<Rightarrow> nat \<Rightarrow> nat option" where
  "first_dent P des i = find (\<lambda>j. P (des ! j)) [i..<length des]"

lemma first_dent_rec: "first_dent P des i = (if i < length des then if P (des ! i) then Some i else first_dent P des (Suc i) else None)"
  by (simp add: first_dent_def upt_rec [of i])

lemma is_dir_same: "read_same s s' \<Longrightarrow> is_dir s' dp des = is_dir s dp des"
  using read_same_file(3) [of s s' dp] by (simp add: is_dir_def read_same_def)

lemma mapped_same: "read_same s s' \<Longrightarrow> mapped s' ip = mapped s ip"
  using read_same_file(1) [of s s' ip] by (simp add: mapped_def fun_eq_iff)

definition dir_ok :: "'a fsys_scheme \<Rightarrow> nat \<Rightarrow> nat \<Rightarrow> nat \<Rightarrow> dirent list \<Rightarrow> bool" where
  "dir_ok s p k dp des \<longleftrightarrow> reading s p Map.empty (Suc k) \<and> fs_ok s \<and> inode_ok s dp \<and> is_dir s dp des \<and> mapped s dp 0 (16 * length des)"

lemma dir_ok_step:
  assumes "dir_ok s p k dp des" and "reading s' p Map.empty (Suc k)" and "read_same s s'"
  shows "dir_ok s' p k dp des"
  using assms read_same_file(4,5) [OF assms(3)] is_dir_same [OF assms(3)] mapped_same [OF assms(3)] by (simp add: dir_ok_def)

lemma dir_read:
  assumes D: "virtio_device D" and ok: "dir_ok s p k dp des" and i: "i < length des"
  shows "\<exists>s' bs. readi D dp (KernVar []) (word_of_nat (16 * i)) (word_of_nat DIRENT_size) s = Ok (word_of_nat DIRENT_size, bs, s') \<and>
    dirent_of bs = des ! i \<and> dir_ok s' p k dp des \<and> read_same s s' \<and> mem s' = mem s"
proof -
  have O: "reading s p Map.empty (Suc k)" "fs_ok s" "inode_ok s dp" "is_dir s dp des" "mapped s dp 0 (unat (isize (itable s dp)))"
    using ok is_dirD(1) [of s dp des] by (simp_all add: dir_ok_def)
  have "16 * i + 16 \<le> unat (isize (itable s dp))" using is_dirD(1) [OF O(4)] i by simp
  from read_dent [OF D O(1-3,5) this] show ?thesis using is_dirD(2) [OF O(4) i] dir_ok_step [OF ok] by fastforce
qed

lemma namecmp_0: "namecmp name n = 0 \<longleftrightarrow> cstr (bufptr name) DIRSIZ = cstr (bufptr n) DIRSIZ"
  by (simp add: namecmp_def strncmp_eq_0_iff)

lemma dirlookup_loop_spec:
  assumes D: "virtio_device D"
  shows "dir_ok s p k dp des \<Longrightarrow> \<exists>s'. dir_ok s' p k dp des \<and> read_same s s' \<and> mem s' = mem s \<and>
    dirlookup_loop D dp name (16 * i) s = (case first_dent (dent_matches name) des i of None \<Rightarrow> Ok (None, s')
      | Some j \<Rightarrow> rbind (iget ROOTDEV (ucast (de_inum (des ! j))) s') (\<lambda>(ip, s). Ok (Some (ip, word_of_nat (16 * j)), s)))"
proof (induction "length des - i" arbitrary: i s)
  case 0
  then have "16 * i \<ge> unat (isize (itable s dp))" using is_dirD(1) [of s dp des] by (auto simp: dir_ok_def)
  then have "dirlookup_loop D dp name (16 * i) s = Ok (None, s)" by (subst dirlookup_loop.simps) simp
  then show ?case using 0 by (intro exI [of _ s]) (simp add: first_dent_rec [of _ _ i])
next
  case (Suc x)
  then have i: "i < length des" by simp
  have sz: "16 * i < unat (isize (itable s dp))" using is_dirD(1) [of s dp des] Suc.prems i by (auto simp: dir_ok_def)
  obtain s1 bs where S: "readi D dp (KernVar []) (word_of_nat (16 * i)) (word_of_nat DIRENT_size) s = Ok (word_of_nat DIRENT_size, bs, s1)"
      "dirent_of bs = des ! i" "dir_ok s1 p k dp des" "read_same s s1" "mem s1 = mem s"
    using dir_read [OF D Suc.prems i] by blast
  have dev: "idev (itable s1 dp) = ROOTDEV" using S(3) by (simp add: dir_ok_def inode_ok_def)
  have nx: "16 * i + DIRENT_size = 16 * Suc i" by (simp add: DIRENT_size_def DIRSIZ_def)
  note eq = dirlookup_loop.simps [of D dp name "16 * i" s]
  show ?case
  proof (cases "dent_matches name (des ! i)")
    case True
    then have "dirlookup_loop D dp name (16 * i) s = rbind (iget ROOTDEV (ucast (de_inum (des ! i))) s1) (\<lambda>(ip, s). Ok (Some (ip, word_of_nat (16 * i)), s))"
      using eq sz S(1,2) dev by (simp add: dent_matches_def namecmp_0 Let_def)
    then show ?thesis using S(3-5) i True by (intro exI [of _ s1]) (simp add: first_dent_rec [of _ _ i])
  next
    case False
    have x: "x = length des - Suc i" using Suc.hyps(2) by simp
    have st: "dirlookup_loop D dp name (16 * i) s = dirlookup_loop D dp name (16 * Suc i) s1"
      unfolding nx [symmetric] using False eq sz S(1,2) by (auto simp: dent_matches_def namecmp_0 Let_def)
    obtain s' where I: "dir_ok s' p k dp des" "read_same s1 s'" "mem s' = mem s1"
        "dirlookup_loop D dp name (16 * Suc i) s1 = (case first_dent (dent_matches name) des (Suc i) of None \<Rightarrow> Ok (None, s')
          | Some j \<Rightarrow> rbind (iget ROOTDEV (ucast (de_inum (des ! j))) s') (\<lambda>(ip, s). Ok (Some (ip, word_of_nat (16 * j)), s)))"
      using Suc.hyps(1) [OF x S(3)] by blast
    show ?thesis using I st S(5) read_same_trans [OF S(4) I(2)] i False by (intro exI [of _ s']) (simp add: first_dent_rec [of _ _ i])
  qed
qed

text \<open>The scan of \<^verbatim>\<open>dirlink\<close> for a free entry, or the end of the directory.\<close>

definition free_dent :: "dirent list \<Rightarrow> nat" where
  "free_dent des = (case first_dent (\<lambda>de. de_inum de = 0) des 0 of Some j \<Rightarrow> j | None \<Rightarrow> length des)"

lemma dirlink_scan_spec:
  assumes D: "virtio_device D"
  shows "dir_ok s p k dp des \<Longrightarrow> i \<le> length des \<Longrightarrow> \<exists>s'. dir_ok s' p k dp des \<and> read_same s s' \<and> mem s' = mem s \<and>
    dirlink_scan D dp (16 * i) s = Ok (16 * (case first_dent (\<lambda>de. de_inum de = 0) des i of Some j \<Rightarrow> j | None \<Rightarrow> length des), s')"
proof (induction "length des - i" arbitrary: i s)
  case 0
  then have i: "i = length des" by simp
  then have "16 * i \<ge> unat (isize (itable s dp))" using is_dirD(1) [of s dp des] 0 by (auto simp: dir_ok_def)
  then have "dirlink_scan D dp (16 * i) s = Ok (16 * i, s)" by (subst dirlink_scan.simps) simp
  then show ?case using 0 i by (intro exI [of _ s]) (simp add: first_dent_rec [of _ _ "length des"])
next
  case (Suc x)
  then have i: "i < length des" and x: "x = length des - Suc i" by simp_all
  have sz: "16 * i < unat (isize (itable s dp))" using is_dirD(1) [of s dp des] Suc.prems i by (auto simp: dir_ok_def)
  obtain s1 bs where S: "readi D dp (KernVar []) (word_of_nat (16 * i)) (word_of_nat DIRENT_size) s = Ok (word_of_nat DIRENT_size, bs, s1)"
      "dirent_of bs = des ! i" "dir_ok s1 p k dp des" "read_same s s1" "mem s1 = mem s"
    using dir_read [OF D Suc.prems(1) i] by blast
  have nx: "16 * i + DIRENT_size = 16 * Suc i" by (simp add: DIRENT_size_def DIRSIZ_def)
  note eq = dirlink_scan.simps [of D dp "16 * i" s]
  show ?case
  proof (cases "de_inum (des ! i) = 0")
    case True
    then have "dirlink_scan D dp (16 * i) s = Ok (16 * i, s1)" using eq sz S(1,2) by simp
    then show ?thesis using S(3-5) i True by (intro exI [of _ s1]) (simp add: first_dent_rec [of _ _ i])
  next
    case False
    then have st: "dirlink_scan D dp (16 * i) s = dirlink_scan D dp (16 * Suc i) s1"
      unfolding nx [symmetric] using eq sz S(1,2) by simp
    obtain s' where I: "dir_ok s' p k dp des" "read_same s1 s'" "mem s' = mem s1"
        "dirlink_scan D dp (16 * Suc i) s1 = Ok (16 * (case first_dent (\<lambda>de. de_inum de = 0) des (Suc i) of Some j \<Rightarrow> j | None \<Rightarrow> length des), s')"
      using Suc.hyps(1) [OF x S(3)] i by auto
    show ?thesis using I st S(5) read_same_trans [OF S(4) I(2)] i False by (intro exI [of _ s']) (simp add: first_dent_rec [of _ _ i])
  qed
qed

lemma free_dent_le: "free_dent des \<le> length des"
proof (cases "first_dent (\<lambda>de. de_inum de = 0) des 0")
  case (Some j)
  then show ?thesis using find_SomeD [OF Some [unfolded first_dent_def]] by (simp add: free_dent_def)
qed (simp add: free_dent_def)

text \<open>The directory with an entry put into the first free place.\<close>

definition put_dent :: "dirent list \<Rightarrow> dirent \<Rightarrow> dirent list" where
  "put_dent des de = (if free_dent des < length des then des[free_dent des := de] else des @ [de])"

lemma concat_update:
  assumes "\<forall>x \<in> set xs. length (f x) = n" and "i < length xs"
  shows "concat (map f (xs[i := y])) = take (n * i) (concat (map f xs)) @ f y @ drop (n * Suc i) (concat (map f xs))"
proof -
  define as bs where "as = take i xs" and "bs = drop (Suc i) xs"
  have la: "length as = i" using assms(2) by (simp add: as_def)
  have xs: "xs = as @ xs ! i # bs" unfolding as_def bs_def by (rule id_take_nth_drop [OF assms(2)])
  have "\<forall>x \<in> set as. length (f x) = n" using assms(1) by (auto simp: as_def dest: in_set_takeD)
  then have l: "length (concat (map f as)) = n * i" "length (f (xs ! i)) = n" using concat_slice(2) [of as f n] la assms by simp_all
  have "xs[i := y] = as @ y # bs" unfolding as_def bs_def by (rule upd_conv_take_nth_drop [OF assms(2)])
  then have u: "concat (map f (xs[i := y])) = concat (map f as) @ f y @ concat (map f bs)" by simp
  have "concat (map f xs) = concat (map f (as @ xs ! i # bs))" using xs by (rule arg_cong)
  then have c: "concat (map f xs) = concat (map f as) @ f (xs ! i) @ concat (map f bs)" by simp
  show ?thesis unfolding u c using l by simp
qed

lemma put_dent_bytes:
  assumes l: "\<forall>x \<in> set des. length (dirent_bytes x) = 16" and j: "j = free_dent des"
  shows "concat (map dirent_bytes (put_dent des de)) =
    take (16 * j) (concat (map dirent_bytes des)) @ dirent_bytes de @ drop (16 * j + 16) (concat (map dirent_bytes des))"
proof (cases "j < length des")
  case True
  then show ?thesis using concat_update [OF l True] j by (simp add: put_dent_def add.commute)
next
  case False
  then have "j = length des" using free_dent_le [of des] j by simp
  then show ?thesis using concat_slice(2) [OF l] j by (simp add: put_dent_def)
qed

lemma dirlookup_spec:
  assumes D: "virtio_device D" and ok: "dir_ok s p k dp des" and lk: "itable_lock s = initlock"
  shows "\<exists>s1. dir_ok s1 p k dp des \<and> read_same s s1 \<and> mem s1 = mem s \<and>
    dirlookup D dp name s = (case first_dent (dent_matches name) des 0 of None \<Rightarrow> Ok (None, s1) | Some j \<Rightarrow>
      (case iget_entry ROOTDEV (ucast (de_inum (des ! j))) (itable s) of None \<Rightarrow> Panic ''iget: no inodes''
       | Some (ip, e) \<Rightarrow> Ok (Some (ip, word_of_nat (16 * j)), s1\<lparr>mycpu := crit (mycpu s1), itable := (itable s)(ip := e)\<rparr>)))"
proof -
  obtain s1 where S: "dir_ok s1 p k dp des" "read_same s s1" "mem s1 = mem s"
      "dirlookup_loop D dp name (16 * 0) s = (case first_dent (dent_matches name) des 0 of None \<Rightarrow> Ok (None, s1)
        | Some j \<Rightarrow> rbind (iget ROOTDEV (ucast (de_inum (des ! j))) s1) (\<lambda>(ip, s). Ok (Some (ip, word_of_nat (16 * j)), s)))"
    using dirlookup_loop_spec [OF D ok] by blast
  have t: "itype (itable s dp) = T_DIR" using ok by (simp add: dir_ok_def is_dir_def)
  have run: "running s1 p" using S(1) readingD(4) by (auto simp: dir_ok_def)
  have it: "itable s1 = itable s" "itable_lock s1 = initlock" using S(2) lk by (simp_all add: read_same_def)
  have "dirlookup D dp name s = (case first_dent (dent_matches name) des 0 of None \<Rightarrow> Ok (None, s1) | Some j \<Rightarrow>
      (case iget_entry ROOTDEV (ucast (de_inum (des ! j))) (itable s) of None \<Rightarrow> Panic ''iget: no inodes''
       | Some (ip, e) \<Rightarrow> Ok (Some (ip, word_of_nat (16 * j)), s1\<lparr>mycpu := crit (mycpu s1), itable := (itable s)(ip := e)\<rparr>)))"
    using S(4) t iget_eq [OF run it(2)] it(1) by (auto simp: dirlookup_def split: option.split)
  then show ?thesis using S(1-3) by blast
qed

lemma find_append: "find P (xs @ ys) = (case find P xs of None \<Rightarrow> find P ys | Some x \<Rightarrow> Some x)"
  by (induction xs) simp_all

lemma put_dent_first:
  assumes none: "first_dent (dent_matches name) des 0 = None" and m: "dent_matches name de"
  shows "first_dent (dent_matches name) (put_dent des de) 0 = Some (free_dent des)" "put_dent des de ! free_dent des = de"
proof -
  define j where "j = free_dent des"
  have le: "j \<le> length des" by (simp add: j_def free_dent_le)
  have len: "j < length (put_dent des de)" using le by (auto simp: put_dent_def j_def)
  show at: "put_dent des de ! free_dent des = de" using le by (auto simp: put_dent_def j_def nth_append)
  have no: "\<not> dent_matches name (des ! i)" if "i < length des" for i using none that by (auto simp: first_dent_def find_None_iff)
  have low: "\<not> dent_matches name (put_dent des de ! i)" if "i < j" for i
    using no [of i] that le by (auto simp: put_dent_def j_def nth_append)
  have "[0..<length (put_dent des de)] = [0..<j] @ j # [Suc j..<length (put_dent des de)]"
    using len by (metis append_Cons append_Nil less_imp_le_nat upt_add_eq_append upt_conv_Cons add_diff_inverse_nat not_less zero_le le_add_diff_inverse)
  moreover have "find (\<lambda>i. dent_matches name (put_dent des de ! i)) [0..<j] = None" using low by (simp add: find_None_iff)
  ultimately show "first_dent (dent_matches name) (put_dent des de) 0 = Some (free_dent des)"
    using at m by (simp add: first_dent_def find_append j_def)
qed

lemma cstr_cong: "(\<And>i. i < n \<Longrightarrow> p i = q i) \<Longrightarrow> cstr p n = cstr q n"
proof (induction n arbitrary: p q)
  case (Suc n)
  have "cstr (\<lambda>i. p (Suc i)) n = cstr (\<lambda>i. q (Suc i)) n" by (rule Suc.IH) (rule Suc.prems, simp)
  moreover have "p 0 = q 0" by (rule Suc.prems) simp
  ultimately show ?case by (simp only: cstr.simps)
qed simp

definition new_dent :: "uchar list \<Rightarrow> uint32 \<Rightarrow> dirent" where
  "new_dent name n = \<lparr>de_inum = ucast n, de_name = strncpy (bufptr name) DIRSIZ\<rparr>"

lemma new_dent_facts:
  shows "length (de_name (new_dent name n)) = DIRSIZ" "length (dirent_bytes (new_dent name n)) = 16"
    "(ucast n :: ushort) \<noteq> 0 \<Longrightarrow> dent_matches name (new_dent name n)"
proof -
  show l: "length (de_name (new_dent name n)) = DIRSIZ" by (simp add: new_dent_def)
  show "length (dirent_bytes (new_dent name n)) = 16" using dirent_roundtrip(2) [OF l] by (simp add: DIRENT_size_def DIRSIZ_def)
  have "cstr (bufptr (strncpy (bufptr name) DIRSIZ)) DIRSIZ = cstr (bufptr name) DIRSIZ"
    using cstr_strncpy [of "bufptr name" DIRSIZ] cstr_cong [of DIRSIZ "bufptr (strncpy (bufptr name) DIRSIZ)" "\<lambda>i. strncpy (bufptr name) DIRSIZ ! i"]
    by (simp add: bufptr_def)
  then show "(ucast n :: ushort) \<noteq> 0 \<Longrightarrow> dent_matches name (new_dent name n)" by (simp add: dent_matches_def new_dent_def)
qed

lemma blocks_dent: "blocks (16 * j) 16 = 1"
proof -
  have "x div 1024 = x div 16 div 64" for x :: nat using div_mult2_eq [of x 16 64] by simp
  then have "(16 * j + 15) div 1024 = (16 * j) div (1024 :: nat)" by simp
  then show ?thesis by (simp add: blocks_def BSIZE_def)
qed

lemma dirlink_spec:
  fixes n :: uint32
  assumes D: "virtio_device D" and T: "txn s p Map.empty (k + 9)" and ok: "dir_ok s p (k + 8) dp des" and lk: "itable_lock s = initlock"
    and none: "first_dent (dent_matches name) des 0 = None" and sz: "16 * length des + 16 \<le> MAXFILE * BSIZE"
  shows "\<exists>r s'. dirlink D dp name n s = Ok (r, s') \<and> txn s' p Map.empty k \<and> fs_ok s' \<and> inode_ok s' dp \<and> mach_same s s' \<and>
    (\<forall>j. j \<noteq> dp \<longrightarrow> itable s' j = itable s j) \<and> (itable s' dp)\<lparr>iaddrs := [], isize := 0\<rparr> = (itable s dp)\<lparr>iaddrs := [], isize := 0\<rparr> \<and>
    (\<forall>b. data_block s b \<longrightarrow> b \<notin> fblocks s dp \<longrightarrow> view s' b = view s b) \<and>
    (r = 0 \<and> is_dir s' dp (put_dent des (new_dent name n)) \<and> mapped s' dp 0 (16 * length (put_dent des (new_dent name n))) \<or> r = -1 \<and> disk_full s')"
proof -
  obtain s1 where 1: "dir_ok s1 p (k + 8) dp des" "read_same s s1" "mem s1 = mem s" "dirlookup D dp name s = Ok (None, s1)"
    using dirlookup_spec [OF D ok lk, of name] none by auto
  define j where "j = free_dent des"
  have jle: "j \<le> length des" by (simp add: j_def free_dent_le)
  obtain s2 where 2: "dir_ok s2 p (k + 8) dp des" "read_same s1 s2" "mem s2 = mem s1" "dirlink_scan D dp 0 s1 = Ok (16 * j, s2)"
    using dirlink_scan_spec [OF D 1(1), of 0] unfolding j_def free_dent_def by auto
  have rs: "read_same s s2" by (rule read_same_trans [OF 1(2) 2(2)])
  have O: "reading s2 p Map.empty (k + 9)" "fs_ok s2" "inode_ok s2 dp" "is_dir s2 dp des" "mapped s2 dp 0 (16 * length des)" using 2(1) by (simp_all add: dir_ok_def numeral_eq_Suc)
  have nine: "Suc k + 8 * blocks (16 * j) 16 = k + 9" by (simp add: blocks_dent)
  have T2: "txn s2 p Map.empty (Suc k + 8 * blocks (16 * j) 16)"
    unfolding nine by (rule txn_reading [OF T O(1)]) (use rs in \<open>simp add: read_same_def\<close>)
  have lim: "16 * j + 16 \<le> MAXFILE * BSIZE" using sz jle by simp
  then have u: "unat (word_of_nat (16 * j) :: uint32) = 16 * j" "unat (word_of_nat DIRENT_size :: uint32) = 16"
    by (simp_all add: unat_of_nat DIRENT_size_def DIRSIZ_def MAXFILE_def NINDIRECT_def BSIZE_def NDIRECT_def del: of_nat_mult)
  define de where "de = new_dent name n"
  note Z = is_dirD(1) [OF O(4)]
  obtain t s3 where W: "writei D dp (KernVar (dirent_bytes de)) (word_of_nat (16 * j)) (word_of_nat DIRENT_size) s2 = Ok (word_of_nat t, s3)"
      "t \<le> 16" "t < 16 \<longrightarrow> disk_full s3" "fdata s3 dp = take (16 * j) (fdata s2 dp) @ take t (dirent_bytes de) @ drop (16 * j + t) (fdata s2 dp)"
      "txn s3 p Map.empty k" "fs_ok s3" "inode_ok s3 dp" "mach_same s2 s3" "\<forall>b. data_block s2 b \<longrightarrow> b \<notin> fblocks s2 dp \<longrightarrow> view s3 b = view s2 b"
      "\<forall>j. j \<noteq> dp \<longrightarrow> itable s3 j = itable s2 j" "(itable s3 dp)\<lparr>iaddrs := [], isize := 0\<rparr> = (itable s2 dp)\<lparr>iaddrs := [], isize := 0\<rparr>"
      "mapped s2 dp 0 (unat (isize (itable s2 dp))) \<longrightarrow> mapped s3 dp 0 (unat (isize (itable s3 dp)))"
    using writei_spec [OF D _ O(2,3), of p k "word_of_nat (16 * j)" "word_of_nat DIRENT_size" undefined undefined "KernVar (dirent_bytes de)", unfolded u, OF T2]
      u Z jle lim sz new_dent_facts(2) [of name n] by (auto simp: word_le_nat_alt de_def)
  have ut: "unat (word_of_nat t :: uint32) = t" using W(2) by (simp add: unat_of_nat)
  have "DIRENT_size = 16" by (simp add: DIRENT_size_def DIRSIZ_def)
  then have "(word_of_nat t :: uint32) = word_of_nat DIRENT_size \<longleftrightarrow> t = 16" using ut u(2) by metis
  then have dl: "dirlink D dp name n s = Ok (if t = 16 then 0 else -1, s3)"
    using 1(4) 2(4) W(1) by (simp add: dirlink_def Let_def de_def new_dent_def)
  have same: "itable s2 = itable s" "view s2 = view s" "data_block s2 = data_block s" "fblocks s2 dp = fblocks s dp"
    using rs read_same_file(1) [OF rs] used_view [of s2 s] by (simp_all add: read_same_def fblocks_def data_block_def iind_def fun_eq_iff)
  have "mach_same s s3" using rs 1(3) 2(3) by (intro mach_same_trans [OF _ W(8)]) (simp add: mach_same_def read_same_def)
  moreover have dir3: "is_dir s3 dp (put_dent des de)" if "t = 16"
  proof -
    have l: "\<forall>x \<in> set des. length (dirent_bytes x) = 16"
      using O(4) dirent_roundtrip(2) by (auto simp: is_dir_def DIRENT_size_def DIRSIZ_def)
    have "fdata s3 dp = concat (map dirent_bytes (put_dent des de))"
      using W(4) that put_dent_bytes [OF l j_def, of de] O(4) new_dent_facts(2) [of name n] by (simp add: is_dir_def de_def)
    moreover have "itype (itable s3 dp) = T_DIR" using arg_cong [OF W(11), of itype] O(4) by (simp add: is_dir_def)
    moreover have "\<forall>x \<in> set (put_dent des de). length (de_name x) = DIRSIZ"
      using O(4) new_dent_facts(1) [of name n] by (auto simp: is_dir_def put_dent_def de_def dest: set_update_subset_insert [THEN subsetD])
    ultimately show ?thesis by (simp add: is_dir_def)
  qed
  moreover have "mapped s3 dp 0 (16 * length (put_dent des de))" if "t = 16"
    using W(12) O(5) Z is_dirD(1) [OF dir3 [OF that]] by simp
  ultimately show ?thesis
    using dl W(3,5-7,9-11) W(2) unfolding same de_def by (intro exI [of _ "if t = 16 then 0 else -1"] exI [of _ s3]) auto
qed

end
