(* ===== verification/Uart.thy ===== *)
theory Uart
  imports Fs "HOL-Library.While_Combinator"
begin

text \<open>
  \<^verbatim>\<open>kernel/uart.c\<close> and \<^verbatim>\<open>kernel/printf.c\<close>: the serial port and formatted output. The state adds
  the transmit buffer of the driver, the lock of \<^verbatim>\<open>printf\<close>, the input buffer of the console and
  the 16550 chip. The chip is not part of the source: its state has a type parameter \<open>'u\<close>, and
  reading and writing its registers are the operations of the parameter \<open>U\<close>.

  A loop that polls a register may run for ever; it is \<open>while_option\<close>, and \<open>Hang\<close> when it has
  no result. \<^verbatim>\<open>uartputc\<close> waits while the buffer is full: \<open>uartputc_turn\<close> is an iteration of its
  loop, and \<open>uartputc\<close> the call that need not wait.
\<close>

record 'u uart_ops =
  rd :: "nat \<Rightarrow> 'u \<Rightarrow> uchar \<times> 'u"
  wr :: "nat \<Rightarrow> uchar \<Rightarrow> 'u \<Rightarrow> 'u"

record 'u csys = fsys +
  uart :: 'u
  uart_tx_lock :: spinlock
  uart_tx_buf :: "nat \<Rightarrow> uchar"
  uart_tx_w :: uint64
  uart_tx_r :: uint64
  panicked :: bool
  pr_lock :: spinlock
  pr_locking :: bool
  cons_lock :: spinlock
  cons_buf :: "nat \<Rightarrow> uchar"
  cons_r :: uint32
  cons_w :: uint32
  cons_e :: uint32

definition RHR :: nat where [layout_defs]: "RHR = 0"
definition THR :: nat where [layout_defs]: "THR = 0"
definition IER :: nat where [layout_defs]: "IER = 1"
definition IER_RX_ENABLE :: uchar where [layout_defs]: "IER_RX_ENABLE = push_bit 0 1"
definition IER_TX_ENABLE :: uchar where [layout_defs]: "IER_TX_ENABLE = push_bit 1 1"
definition FCR :: nat where [layout_defs]: "FCR = 2"
definition FCR_FIFO_ENABLE :: uchar where [layout_defs]: "FCR_FIFO_ENABLE = push_bit 0 1"
definition FCR_FIFO_CLEAR :: uchar where [layout_defs]: "FCR_FIFO_CLEAR = push_bit 1 3"
definition LCR :: nat where [layout_defs]: "LCR = 3"
definition LCR_EIGHT_BITS :: uchar where [layout_defs]: "LCR_EIGHT_BITS = push_bit 0 3"
definition LCR_BAUD_LATCH :: uchar where [layout_defs]: "LCR_BAUD_LATCH = push_bit 7 1"
definition LSR :: nat where [layout_defs]: "LSR = 5"
definition LSR_TX_IDLE :: uchar where [layout_defs]: "LSR_TX_IDLE = push_bit 5 1"
definition UART_TX_BUF_SIZE :: nat where [layout_defs]: "UART_TX_BUF_SIZE = 32"
definition BACKSPACE :: int where [layout_defs]: "BACKSPACE = 0x100"
definition INPUT_BUF_SIZE :: nat where [layout_defs]: "INPUT_BUF_SIZE = 128"

section \<open>Registers\<close>

definition ReadReg :: "'u uart_ops \<Rightarrow> nat \<Rightarrow> ('u, 'a) csys_scheme \<Rightarrow> uchar \<times> ('u, 'a) csys_scheme" where
  "ReadReg U r s = (let (v, u) = rd U r (uart s) in (v, s\<lparr>uart := u\<rparr>))"

definition WriteReg :: "'u uart_ops \<Rightarrow> nat \<Rightarrow> uchar \<Rightarrow> ('u, 'a) csys_scheme \<Rightarrow> ('u, 'a) csys_scheme" where
  "WriteReg U r v s = s\<lparr>uart := wr U r v (uart s)\<rparr>"

definition uartinit :: "'u uart_ops \<Rightarrow> ('u, 'a) csys_scheme \<Rightarrow> ('u, 'a) csys_scheme" where
  "uartinit U s =
     (let s = WriteReg U IER 0 s;
          s = WriteReg U LCR LCR_BAUD_LATCH s;
          s = WriteReg U 0 3 s;
          s = WriteReg U 1 0 s;
          s = WriteReg U LCR LCR_EIGHT_BITS s;
          s = WriteReg U FCR (FCR_FIFO_ENABLE OR FCR_FIFO_CLEAR) s;
          s = WriteReg U IER (IER_TX_ENABLE OR IER_RX_ENABLE) s
      in s\<lparr>uart_tx_lock := initlock\<rparr>)"

definition uart_acquire :: "('u, 'a) csys_scheme \<Rightarrow> ('u, 'a) csys_scheme res" where
  "uart_acquire s = rbind (acquire (uart_tx_lock s) (mycpu s)) (\<lambda>(lk, c). Ok (s\<lparr>uart_tx_lock := lk, mycpu := c\<rparr>))"

definition uart_release :: "('u, 'a) csys_scheme \<Rightarrow> ('u, 'a) csys_scheme res" where
  "uart_release s = rbind (release (uart_tx_lock s) (mycpu s)) (\<lambda>(lk, c). Ok (s\<lparr>uart_tx_lock := lk, mycpu := c\<rparr>))"

section \<open>Sending and receiving\<close>

definition uart_chan :: chan where
  "uart_chan = Chan ''uart_tx_r'' 0"

text \<open>The loop of \<^verbatim>\<open>uartstart\<close> runs at most once for each buffered character.\<close>

primrec uartstart_loop :: "'u uart_ops \<Rightarrow> nat \<Rightarrow> ('u, 'a) csys_scheme \<Rightarrow> ('u, 'a) csys_scheme res" where
  "uartstart_loop U 0 s = Ok s"
| "uartstart_loop U (Suc n) s =
     (if uart_tx_w s = uart_tx_r s then Ok s else
      let (v, s) = ReadReg U LSR s in
      if v AND LSR_TX_IDLE = 0 then Ok s else
      let c = uart_tx_buf s (unat (uart_tx_r s) mod UART_TX_BUF_SIZE);
          s = s\<lparr>uart_tx_r := uart_tx_r s + 1\<rparr>
      in rbind (wakeup (Some uart_chan) s) (\<lambda>s. uartstart_loop U n (WriteReg U THR c s)))"

definition uartstart :: "'u uart_ops \<Rightarrow> ('u, 'a) csys_scheme \<Rightarrow> ('u, 'a) csys_scheme res" where
  "uartstart U s = uartstart_loop U (unat (uart_tx_w s - uart_tx_r s)) s"

definition uartputc_turn :: "'u uart_ops \<Rightarrow> uchar \<Rightarrow> ('u, 'a) csys_scheme \<Rightarrow> (unit outcome \<times> bool \<times> ('u, 'a) csys_scheme) res" where
  "uartputc_turn U c s =
     (if uart_tx_w s = uart_tx_r s + word_of_nat UART_TX_BUF_SIZE
      then rbind (sleep_enter (Some uart_chan) uart_release s) (\<lambda>(b, s). Ok (Block uart_chan, b, s))
      else
        let s = s\<lparr>uart_tx_buf := (uart_tx_buf s)(unat (uart_tx_w s) mod UART_TX_BUF_SIZE := c)\<rparr>;
            s = s\<lparr>uart_tx_w := uart_tx_w s + 1\<rparr>
        in rbind (uartstart U s) (\<lambda>s. rbind (uart_release s) (\<lambda>s. Ok (Ret (), False, s))))"

definition uartputc_try :: "'u uart_ops \<Rightarrow> uchar \<Rightarrow> ('u, 'a) csys_scheme \<Rightarrow> (unit outcome \<times> bool \<times> ('u, 'a) csys_scheme) res" where
  "uartputc_try U c s = rbind (uart_acquire s) (\<lambda>s. if panicked s then Hang else uartputc_turn U c s)"

definition uartputc_resume :: "'u uart_ops \<Rightarrow> uchar \<Rightarrow> nat \<Rightarrow> bool \<Rightarrow> ('u, 'a) csys_scheme \<Rightarrow> (unit outcome \<times> bool \<times> ('u, 'a) csys_scheme) res" where
  "uartputc_resume U c p b s = rbind (sleep_leave p b uart_acquire s) (uartputc_turn U c)"

definition uartputc :: "'u uart_ops \<Rightarrow> uchar \<Rightarrow> ('u, 'a) csys_scheme \<Rightarrow> ('u, 'a) csys_scheme res" where
  "uartputc U c s = rbind (uartputc_try U c s) (\<lambda>(r, b, s). case r of Ret _ \<Rightarrow> Ok s | Block _ \<Rightarrow> Hang)"

definition uartputc_sync :: "'u uart_ops \<Rightarrow> int \<Rightarrow> ('u, 'a) csys_scheme \<Rightarrow> ('u, 'a) csys_scheme res" where
  "uartputc_sync U c s =
     (let s = s\<lparr>mycpu := push_off (mycpu s)\<rparr> in
      if panicked s then Hang else
      case while_option (\<lambda>(v, s). v AND LSR_TX_IDLE = 0) (\<lambda>(v, s). ReadReg U LSR s) (ReadReg U LSR s) of
        None \<Rightarrow> Hang
      | Some (v, s) \<Rightarrow>
          let s = WriteReg U THR (word_of_int c) s
          in rbind (pop_off (mycpu s)) (\<lambda>c. Ok (s\<lparr>mycpu := c\<rparr>)))"

definition uartgetc :: "'u uart_ops \<Rightarrow> ('u, 'a) csys_scheme \<Rightarrow> int \<times> ('u, 'a) csys_scheme" where
  "uartgetc U s =
     (let (v, s) = ReadReg U LSR s in
      if v AND 1 \<noteq> 0 then let (c, s) = ReadReg U RHR s in (uint c, s) else (-1, s))"

definition consputc :: "'u uart_ops \<Rightarrow> int \<Rightarrow> ('u, 'a) csys_scheme \<Rightarrow> ('u, 'a) csys_scheme res" where
  "consputc U c s =
     (if c = BACKSPACE then
        rbind (uartputc_sync U 8 s) (\<lambda>s. rbind (uartputc_sync U 32 s) (\<lambda>s. uartputc_sync U 8 s))
      else uartputc_sync U c s)"

primrec consputs :: "'u uart_ops \<Rightarrow> uchar list \<Rightarrow> ('u, 'a) csys_scheme \<Rightarrow> ('u, 'a) csys_scheme res" where
  "consputs U [] s = Ok s"
| "consputs U (c # cs) s = rbind (consputc U (uint c) s) (consputs U cs)"

section \<open>printf\<close>

text \<open>
  The arguments of \<^verbatim>\<open>printf\<close> as \<^verbatim>\<open>va_arg\<close> takes them. An argument that is missing or of another type is
  undefined in C: the model stops. A string ends at its first null byte or at the end of the
  list. The format itself is never the null pointer, for which \<^verbatim>\<open>printf\<close> panics: every call of the
  kernel passes a string. In C the negation of the smallest \<^verbatim>\<open>int\<close> in \<^verbatim>\<open>printint\<close> is undefined; the model
  takes the wrapped value.
\<close>

datatype fmtarg = ArgInt uint32 | ArgPtr uint64 | ArgStr "uchar list option"

definition digits :: "nat \<Rightarrow> uchar" where
  "digits n = chars ''0123456789abcdef'' ! n"

text \<open>The digits of \<^verbatim>\<open>printint\<close>, least first, as they are stored in \<^verbatim>\<open>buf\<close>; the base is 10 or 16.\<close>

function printint_digits :: "nat \<Rightarrow> nat \<Rightarrow> uchar list" where
  "printint_digits base x =
     digits (x mod base) # (if 1 < base \<and> x div base \<noteq> 0 then printint_digits base (x div base) else [])"
  by pat_completeness auto
termination
proof (relation "measure snd", goal_cases)
  case (2 base x)
  then show ?case by (cases x) simp_all
qed simp

declare printint_digits.simps [simp del]

definition printint :: "uint32 \<Rightarrow> nat \<Rightarrow> bool \<Rightarrow> uchar list" where
  "printint xx base sign =
     (let neg = (sign \<and> sint xx < 0);
          x = (if neg then - xx else xx);
          buf = printint_digits base (unat x) @ (if neg then [0x2D] else [])
      in rev buf)"

definition printptr :: "uint64 \<Rightarrow> uchar list" where
  "printptr x = chars ''0x'' @ map (\<lambda>i. digits (unat (drop_bit 60 (push_bit (4 * i) x)))) [0..<16]"

fun printf_loop :: "'u uart_ops \<Rightarrow> uchar list \<Rightarrow> fmtarg list \<Rightarrow> ('u, 'a) csys_scheme \<Rightarrow> ('u, 'a) csys_scheme res" where
  "printf_loop U [] ap s = Ok s"
| "printf_loop U [c] ap s = (if c = 0 \<or> c = 0x25 then Ok s else consputc U (uint c) s)"
| "printf_loop U (c # d # fmt) ap s =
     (if c = 0 then Ok s
      else if c \<noteq> 0x25 then rbind (consputc U (uint c) s) (printf_loop U (d # fmt) ap)
      else if d = 0 then Ok s
      else if d = 0x64 then
        (case ap of ArgInt x # ap \<Rightarrow> rbind (consputs U (printint x 10 True) s) (printf_loop U fmt ap) | _ \<Rightarrow> Panic ''undefined: va_arg'')
      else if d = 0x78 then
        (case ap of ArgInt x # ap \<Rightarrow> rbind (consputs U (printint x 16 True) s) (printf_loop U fmt ap) | _ \<Rightarrow> Panic ''undefined: va_arg'')
      else if d = 0x70 then
        (case ap of ArgPtr x # ap \<Rightarrow> rbind (consputs U (printptr x) s) (printf_loop U fmt ap) | _ \<Rightarrow> Panic ''undefined: va_arg'')
      else if d = 0x73 then
        (case ap of ArgStr t # ap \<Rightarrow>
           let t = (case t of None \<Rightarrow> chars ''(null)'' | Some t \<Rightarrow> t)
           in rbind (consputs U (takeWhile (\<lambda>c. c \<noteq> 0) t) s) (printf_loop U fmt ap) | _ \<Rightarrow> Panic ''undefined: va_arg'')
      else if d = 0x25 then rbind (consputc U 0x25 s) (printf_loop U fmt ap)
      else rbind (consputc U 0x25 s) (\<lambda>s. rbind (consputc U (uint d) s) (printf_loop U fmt ap)))"

definition pr_acquire :: "('u, 'a) csys_scheme \<Rightarrow> ('u, 'a) csys_scheme res" where
  "pr_acquire s = rbind (acquire (pr_lock s) (mycpu s)) (\<lambda>(lk, c). Ok (s\<lparr>pr_lock := lk, mycpu := c\<rparr>))"

definition pr_release :: "('u, 'a) csys_scheme \<Rightarrow> ('u, 'a) csys_scheme res" where
  "pr_release s = rbind (release (pr_lock s) (mycpu s)) (\<lambda>(lk, c). Ok (s\<lparr>pr_lock := lk, mycpu := c\<rparr>))"

definition printf :: "'u uart_ops \<Rightarrow> uchar list \<Rightarrow> fmtarg list \<Rightarrow> ('u, 'a) csys_scheme \<Rightarrow> ('u, 'a) csys_scheme res" where
  "printf U fmt args s =
     (let locking = pr_locking s in
      rbind (if locking then pr_acquire s else Ok s) (\<lambda>s.
      rbind (printf_loop U fmt args s) (\<lambda>s.
      if locking then pr_release s else Ok s)))"

text \<open>What \<^verbatim>\<open>panic\<close> does before it stops: its message, and the flag that freezes output.\<close>

definition panic :: "'u uart_ops \<Rightarrow> uchar list \<Rightarrow> ('u, 'a) csys_scheme \<Rightarrow> ('u, 'a) csys_scheme res" where
  "panic U msg s =
     rbind (printf U (chars ''panic: '') [] (s\<lparr>pr_locking := False\<rparr>)) (\<lambda>s.
     rbind (printf U msg [] s) (\<lambda>s.
     rbind (printf U [0x0A] [] s) (\<lambda>s. Ok (s\<lparr>panicked := True\<rparr>))))"

definition printfinit :: "('u, 'a) csys_scheme \<Rightarrow> ('u, 'a) csys_scheme" where
  "printfinit s = s\<lparr>pr_lock := initlock, pr_locking := True\<rparr>"

end
