(* ===== verification/Console.thy ===== *)
theory Console
  imports Uart
begin

text \<open>
  \<^verbatim>\<open>kernel/console.c\<close>, the interrupt handler of \<^verbatim>\<open>uart.c\<close>, and the two routines that print kernel
  tables, \<^verbatim>\<open>procdump\<close> of \<^verbatim>\<open>proc.c\<close> and \<^verbatim>\<open>vmprint\<close> of \<^verbatim>\<open>vm.c\<close>. The input buffer is an array with
  three indices that only grow: characters between \<open>cons_r\<close> and \<open>cons_w\<close> are for readers, those
  between \<open>cons_w\<close> and \<open>cons_e\<close> are the line that is being edited.

  \<open>consoleread_loop\<close> ends with a result or at the \<^verbatim>\<open>sleep\<close> for more input, with the values of
  \<^verbatim>\<open>dst\<close> and \<^verbatim>\<open>n\<close> that \<open>consoleread_resume\<close> goes on with.
\<close>

definition cons_acquire :: "('u, 'a) csys_scheme \<Rightarrow> ('u, 'a) csys_scheme res" where
  "cons_acquire s = rbind (acquire (cons_lock s) (mycpu s)) (\<lambda>(lk, c). Ok (s\<lparr>cons_lock := lk, mycpu := c\<rparr>))"

definition cons_release :: "('u, 'a) csys_scheme \<Rightarrow> ('u, 'a) csys_scheme res" where
  "cons_release s = rbind (release (cons_lock s) (mycpu s)) (\<lambda>(lk, c). Ok (s\<lparr>cons_lock := lk, mycpu := c\<rparr>))"

definition cons_chan :: chan where
  "cons_chan = Chan ''cons.r'' 0"

section \<open>Printing tables\<close>

fun state_name :: "procstate \<Rightarrow> uchar list" where
  "state_name UNUSED = chars ''unused''"
| "state_name USED = chars ''used''"
| "state_name SLEEPING = chars ''sleep ''"
| "state_name RUNNABLE = chars ''runble''"
| "state_name RUNNING = chars ''run   ''"
| "state_name ZOMBIE = chars ''zombie''"

definition name_str :: "uchar list \<Rightarrow> uchar list" where
  "name_str bs = takeWhile (\<lambda>c. c \<noteq> 0) bs"

function procdump_loop :: "'u uart_ops \<Rightarrow> nat \<Rightarrow> ('u, 'a) csys_scheme \<Rightarrow> ('u, 'a) csys_scheme res" where
  "procdump_loop U p s =
     (if p < NPROC then
        if state (ptable s p) = UNUSED then procdump_loop U (Suc p) s
        else
          rbind (printf U (chars ''%d %s %s'') [ArgInt (pid (ptable s p)), ArgStr (Some (state_name (state (ptable s p)))),
              ArgStr (Some (name_str (pname (ptable s p))))] s) (\<lambda>s.
          rbind (printf U [0x0A] [] s) (\<lambda>s. procdump_loop U (Suc p) s))
      else Ok s)"
  by pat_completeness auto
termination
  by (relation "measure (\<lambda>(_, p, _). NPROC - p)") auto

declare procdump_loop.simps [simp del]

definition procdump :: "'u uart_ops \<Rightarrow> ('u, 'a) csys_scheme \<Rightarrow> ('u, 'a) csys_scheme res" where
  "procdump U s = rbind (printf U [0x0A] [] s) (procdump_loop U 0)"

primrec print_dots :: "'u uart_ops \<Rightarrow> nat \<Rightarrow> ('u, 'a) csys_scheme \<Rightarrow> ('u, 'a) csys_scheme res" where
  "print_dots U 0 s = Ok s"
| "print_dots U (Suc n) s = rbind (printf U (chars ''.. '') [] s) (print_dots U n)"

text \<open>
  \<^verbatim>\<open>printwalk\<close> calls itself on the tables an entry without permission bits points to. The first
  argument bounds the depth of the calls; a page table has three levels.
\<close>

function printwalk_loop :: "nat \<Rightarrow> 'u uart_ops \<Rightarrow> uint64 \<Rightarrow> nat \<Rightarrow> nat \<Rightarrow> ('u, 'a) csys_scheme \<Rightarrow> ('u, 'a) csys_scheme res" where
  "printwalk_loop d U pt dep i s =
     (if i < 512 then
        let pte = load64 (mem s) (pt + 8 * word_of_nat i) in
        if pte AND PTE_V \<noteq> 0 then
          rbind (print_dots U (dep - 1) s) (\<lambda>s.
          rbind (printf U (chars ''..%d: pte %p '') [ArgInt (word_of_nat i), ArgPtr pte] s) (\<lambda>s.
          let child = PTE2PA pte in
          rbind (printf U (chars ''pa %p'' @ [0x0A]) [ArgPtr child] s) (\<lambda>s.
          rbind (if pte AND (PTE_R OR PTE_W OR PTE_X) = 0
                 then (case d of 0 \<Rightarrow> Hang | Suc d \<Rightarrow> printwalk_loop d U child (dep + 1) 0 s)
                 else Ok s) (\<lambda>s. printwalk_loop d U pt dep (Suc i) s))))
        else printwalk_loop d U pt dep (Suc i) s
      else Ok s)"
  by pat_completeness auto
termination
  by (relation "measures [\<lambda>(d, _, _, _, i, _). d, \<lambda>(d, _, _, _, i, _). 512 - i]") auto

declare printwalk_loop.simps [simp del]

definition vmprint :: "'u uart_ops \<Rightarrow> uint64 \<Rightarrow> ('u, 'a) csys_scheme \<Rightarrow> ('u, 'a) csys_scheme res" where
  "vmprint U pt s =
     rbind (printf U (chars ''page table %p'' @ [0x0A]) [ArgPtr pt] s) (printwalk_loop 3 U pt 1 0)"

section \<open>The console device\<close>

fun consolewrite_loop :: "'u uart_ops \<Rightarrow> iobuf \<Rightarrow> nat \<Rightarrow> nat \<Rightarrow> ('u, 'a) csys_scheme \<Rightarrow> (nat \<times> ('u, 'a) csys_scheme) res" where
  "consolewrite_loop U src i 0 s = Ok (i, s)"
| "consolewrite_loop U src i (Suc n) s =
     rbind (either_copyin (buf_plus src i) 1 s) (\<lambda>((r, bs), s).
     if r = -1 then Ok (i, s)
     else rbind (uartputc U (hd bs) s) (\<lambda>s. consolewrite_loop U src (Suc i) n s))"

definition consolewrite :: "'u uart_ops \<Rightarrow> iobuf \<Rightarrow> int \<Rightarrow> ('u, 'a) csys_scheme \<Rightarrow> (int \<times> ('u, 'a) csys_scheme) res" where
  "consolewrite U src n s = rbind (consolewrite_loop U src 0 (nat n) s) (\<lambda>(i, s). Ok (int i, s))"

function consoleread_loop :: "iobuf \<Rightarrow> int \<Rightarrow> int \<Rightarrow> ('u, 'a) csys_scheme
    \<Rightarrow> (int outcome \<times> (iobuf \<times> int) \<times> bool \<times> ('u, 'a) csys_scheme) res" where
  "consoleread_loop dst target n s =
     (if n > 0 then
        if cons_r s = cons_w s then
          current s (\<lambda>p s.
          rbind (killed p s) (\<lambda>(k, s).
          if k then rbind (cons_release s) (\<lambda>s. Ok (Ret (-1), (dst, n), False, s))
          else rbind (sleep_enter (Some cons_chan) cons_release s) (\<lambda>(b, s). Ok (Block cons_chan, (dst, n), b, s))))
        else
          let c = cons_buf s (unat (cons_r s) mod INPUT_BUF_SIZE);
              s = s\<lparr>cons_r := cons_r s + 1\<rparr>
          in if c = 4 then
            let s = (if n < target then s\<lparr>cons_r := cons_r s - 1\<rparr> else s)
            in rbind (cons_release s) (\<lambda>s. Ok (Ret (target - n), (dst, n), False, s))
          else
            rbind (either_copyout dst [c] s) (\<lambda>(r, s).
            if r = -1 then rbind (cons_release s) (\<lambda>s. Ok (Ret (target - n), (dst, n), False, s))
            else if c = 0x0A then rbind (cons_release s) (\<lambda>s. Ok (Ret (target - (n - 1)), (dst, n), False, s))
            else consoleread_loop (buf_plus dst 1) target (n - 1) s)
      else rbind (cons_release s) (\<lambda>s. Ok (Ret (target - n), (dst, n), False, s)))"
  by pat_completeness auto
termination
  by (relation "measure (\<lambda>(_, _, n, _). nat n)") auto

declare consoleread_loop.simps [simp del]

definition consoleread_try :: "iobuf \<Rightarrow> int \<Rightarrow> ('u, 'a) csys_scheme
    \<Rightarrow> (int outcome \<times> (iobuf \<times> int) \<times> bool \<times> ('u, 'a) csys_scheme) res" where
  "consoleread_try dst n s = rbind (cons_acquire s) (consoleread_loop dst n n)"

definition consoleread_resume :: "iobuf \<Rightarrow> int \<Rightarrow> int \<Rightarrow> nat \<Rightarrow> bool \<Rightarrow> ('u, 'a) csys_scheme
    \<Rightarrow> (int outcome \<times> (iobuf \<times> int) \<times> bool \<times> ('u, 'a) csys_scheme) res" where
  "consoleread_resume dst target n p b s = rbind (sleep_leave p b cons_acquire s) (consoleread_loop dst target n)"

definition consoleread :: "iobuf \<Rightarrow> int \<Rightarrow> ('u, 'a) csys_scheme \<Rightarrow> (int \<times> ('u, 'a) csys_scheme) res" where
  "consoleread dst n s = rbind (consoleread_try dst n s) (\<lambda>(r, _, _, s). case r of Ret v \<Rightarrow> Ok (v, s) | Block _ \<Rightarrow> Hang)"

section \<open>Interrupts\<close>

text \<open>Control-U erases back to the start of the line: at most the characters after \<open>cons_w\<close>.\<close>

primrec kill_line :: "'u uart_ops \<Rightarrow> nat \<Rightarrow> ('u, 'a) csys_scheme \<Rightarrow> ('u, 'a) csys_scheme res" where
  "kill_line U 0 s = Ok s"
| "kill_line U (Suc n) s =
     (if cons_e s \<noteq> cons_w s \<and> cons_buf s (unat (cons_e s - 1) mod INPUT_BUF_SIZE) \<noteq> 0x0A then
        rbind (consputc U BACKSPACE (s\<lparr>cons_e := cons_e s - 1\<rparr>)) (kill_line U n)
      else Ok s)"

definition consoleintr :: "'u uart_ops \<Rightarrow> int \<Rightarrow> ('u, 'a) csys_scheme \<Rightarrow> ('u, 'a) csys_scheme res" where
  "consoleintr U c s =
     rbind (cons_acquire s) (\<lambda>s.
     rbind (if c = 0x10 then procdump U s
            else if c = 0x15 then kill_line U (unat (cons_e s - cons_w s)) s
            else if c = 8 \<or> c = 0x7F then
              if cons_e s \<noteq> cons_w s then consputc U BACKSPACE (s\<lparr>cons_e := cons_e s - 1\<rparr>) else Ok s
            else if c \<noteq> 0 \<and> unat (cons_e s - cons_r s) < INPUT_BUF_SIZE then
              let c = (if c = 0x0D then 0x0A else c) in
              rbind (consputc U c s) (\<lambda>s.
              let s = s\<lparr>cons_buf := (cons_buf s)(unat (cons_e s) mod INPUT_BUF_SIZE := word_of_int c)\<rparr>;
                  s = s\<lparr>cons_e := cons_e s + 1\<rparr>
              in if c = 0x0A \<or> c = 4 \<or> unat (cons_e s - cons_r s) = INPUT_BUF_SIZE
                 then wakeup (Some cons_chan) (s\<lparr>cons_w := cons_e s\<rparr>) else Ok s)
            else Ok s)
       cons_release)"

partial_function (option) uartintr_loop :: "'u uart_ops \<Rightarrow> ('u, 'a) csys_scheme \<Rightarrow> ('u, 'a) csys_scheme res option" where
  "uartintr_loop U s =
     (case uartgetc U s of (c, s) \<Rightarrow>
      if c = -1 then Some (Ok s)
      else case consoleintr U c s of
        Ok s \<Rightarrow> uartintr_loop U s
      | Panic m \<Rightarrow> Some (Panic m)
      | Hang \<Rightarrow> Some Hang)"

definition uartintr :: "'u uart_ops \<Rightarrow> ('u, 'a) csys_scheme \<Rightarrow> ('u, 'a) csys_scheme res" where
  "uartintr U s =
     (case uartintr_loop U s of
        None \<Rightarrow> Hang
      | Some r \<Rightarrow> rbind r (\<lambda>s. rbind (uart_acquire s) (\<lambda>s. rbind (uartstart U s) uart_release)))"

definition consoleinit :: "'u uart_ops \<Rightarrow> ('u, 'a) csys_scheme \<Rightarrow> ('u, 'a) csys_scheme" where
  "consoleinit U s = uartinit U (s\<lparr>cons_lock := initlock\<rparr>)"

end
