(* ===== verification/File.thy ===== *)
theory File
  imports Console
begin

text \<open>
  \<^verbatim>\<open>kernel/file.c\<close> and \<^verbatim>\<open>kernel/pipe.c\<close>: open files and pipes. The state adds the file table, the
  device switch and the pipes. A \<^verbatim>\<open>struct pipe\<close> lies in a page of its own; \<open>pipes\<close> has the
  structure of the page with the given address. \<^verbatim>\<open>devsw\<close> is set by \<^verbatim>\<open>consoleinit\<close> alone; its
  entries are the names of the functions they point to.

  A pipe operation that must wait ends at its \<^verbatim>\<open>sleep\<close> with the number of bytes moved so far,
  and goes on with the \<open>resume\<close> function when it is woken.
\<close>

definition PIPESIZE :: nat where [layout_defs]: "PIPESIZE = 512"
definition CONSOLE :: nat where [layout_defs]: "CONSOLE = 1"

record pipe =
  pipe_lock :: spinlock
  pdata :: "nat \<Rightarrow> uchar"
  nread :: uint32
  nwrite :: uint32
  readopen :: bool
  writeopen :: bool

datatype fdtype = FD_NONE | FD_PIPE | FD_INODE | FD_DEVICE

record kfile =
  ftype :: fdtype
  fref :: int
  freadable :: bool
  fwritable :: bool
  fpipe :: uint64
  fip :: "nat option"
  foff :: uint32
  fmajor :: ushort

datatype devfun = Consoleread | Consolewrite

record 'u files = "'u csys" +
  ftable_lock :: spinlock
  ftable :: "nat \<Rightarrow> kfile"
  devsw_read :: "nat \<Rightarrow> devfun option"
  devsw_write :: "nat \<Rightarrow> devfun option"
  pipes :: "uint64 \<Rightarrow> pipe"
  tickslock :: spinlock
  ticks :: uint32

definition upd_file :: "nat \<Rightarrow> (kfile \<Rightarrow> kfile) \<Rightarrow> ('u, 'a) files_scheme \<Rightarrow> ('u, 'a) files_scheme" where
  "upd_file f g s = s\<lparr>ftable := (ftable s)(f := g (ftable s f))\<rparr>"

definition upd_pipe :: "uint64 \<Rightarrow> (pipe \<Rightarrow> pipe) \<Rightarrow> ('u, 'a) files_scheme \<Rightarrow> ('u, 'a) files_scheme" where
  "upd_pipe pi g s = s\<lparr>pipes := (pipes s)(pi := g (pipes s pi))\<rparr>"

definition ftable_acquire :: "('u, 'a) files_scheme \<Rightarrow> ('u, 'a) files_scheme res" where
  "ftable_acquire s = rbind (acquire (ftable_lock s) (mycpu s)) (\<lambda>(lk, c). Ok (s\<lparr>ftable_lock := lk, mycpu := c\<rparr>))"

definition ftable_release :: "('u, 'a) files_scheme \<Rightarrow> ('u, 'a) files_scheme res" where
  "ftable_release s = rbind (release (ftable_lock s) (mycpu s)) (\<lambda>(lk, c). Ok (s\<lparr>ftable_lock := lk, mycpu := c\<rparr>))"

definition pipe_acquire :: "uint64 \<Rightarrow> ('u, 'a) files_scheme \<Rightarrow> ('u, 'a) files_scheme res" where
  "pipe_acquire pi s = rbind (acquire (pipe_lock (pipes s pi)) (mycpu s)) (\<lambda>(lk, c).
     Ok ((upd_pipe pi (pipe_lock_update (\<lambda>_. lk)) s)\<lparr>mycpu := c\<rparr>))"

definition pipe_release :: "uint64 \<Rightarrow> ('u, 'a) files_scheme \<Rightarrow> ('u, 'a) files_scheme res" where
  "pipe_release pi s = rbind (release (pipe_lock (pipes s pi)) (mycpu s)) (\<lambda>(lk, c).
     Ok ((upd_pipe pi (pipe_lock_update (\<lambda>_. lk)) s)\<lparr>mycpu := c\<rparr>))"

definition nread_chan :: "uint64 \<Rightarrow> chan" where
  "nread_chan pi = Chan ''pipe.nread'' (unat pi)"

definition nwrite_chan :: "uint64 \<Rightarrow> chan" where
  "nwrite_chan pi = Chan ''pipe.nwrite'' (unat pi)"

section \<open>Initialisation and the file table\<close>

definition fileinit :: "('u, 'a) files_scheme \<Rightarrow> ('u, 'a) files_scheme" where
  "fileinit s = s\<lparr>ftable_lock := initlock\<rparr>"

definition consoleinit_devsw :: "'u uart_ops \<Rightarrow> ('u, 'a) files_scheme \<Rightarrow> ('u, 'a) files_scheme" where
  "consoleinit_devsw U s = (let s = consoleinit U s in
     s\<lparr>devsw_read := (devsw_read s)(CONSOLE := Some Consoleread), devsw_write := (devsw_write s)(CONSOLE := Some Consolewrite)\<rparr>)"

function filealloc_scan :: "nat \<Rightarrow> (nat \<Rightarrow> kfile) \<Rightarrow> nat option" where
  "filealloc_scan f t = (if f < NFILE then if fref (t f) = 0 then Some f else filealloc_scan (Suc f) t else None)"
  by pat_completeness auto
termination
  by (relation "measure (\<lambda>(f, _). NFILE - f)") auto

declare filealloc_scan.simps [simp del]

definition filealloc :: "('u, 'a) files_scheme \<Rightarrow> (nat option \<times> ('u, 'a) files_scheme) res" where
  "filealloc s =
     rbind (ftable_acquire s) (\<lambda>s.
     let r = filealloc_scan 0 (ftable s);
         s = (case r of Some f \<Rightarrow> upd_file f (fref_update (\<lambda>_. 1)) s | None \<Rightarrow> s)
     in rbind (ftable_release s) (\<lambda>s. Ok (r, s)))"

definition filedup :: "nat \<Rightarrow> ('u, 'a) files_scheme \<Rightarrow> (nat \<times> ('u, 'a) files_scheme) res" where
  "filedup f s =
     rbind (ftable_acquire s) (\<lambda>s.
     if fref (ftable s f) < 1 then Panic ''filedup'' else
     rbind (ftable_release (upd_file f (\<lambda>x. x\<lparr>fref := fref x + 1\<rparr>) s)) (\<lambda>s. Ok (f, s)))"

section \<open>Pipes\<close>

definition pipeclose :: "uint64 \<Rightarrow> bool \<Rightarrow> ('u, 'a) files_scheme \<Rightarrow> ('u, 'a) files_scheme res" where
  "pipeclose pi writable s =
     rbind (pipe_acquire pi s) (\<lambda>s.
     rbind (if writable then wakeup (Some (nread_chan pi)) (upd_pipe pi (writeopen_update (\<lambda>_. False)) s)
            else wakeup (Some (nwrite_chan pi)) (upd_pipe pi (readopen_update (\<lambda>_. False)) s)) (\<lambda>s.
     if \<not> readopen (pipes s pi) \<and> \<not> writeopen (pipes s pi) then rbind (pipe_release pi s) (kfree pi)
     else pipe_release pi s))"

text \<open>
  The loop of \<^verbatim>\<open>pipewrite\<close>, from \<open>i\<close> bytes already written. A round stores a byte, so that it ends
  after the remaining \<open>k\<close> bytes, or earlier when the pipe is full.
\<close>

definition pipewrite_end :: "uint64 \<Rightarrow> nat \<Rightarrow> ('u, 'a) files_scheme \<Rightarrow> (int outcome \<times> nat \<times> bool \<times> ('u, 'a) files_scheme) res" where
  "pipewrite_end pi i s =
     rbind (wakeup (Some (nread_chan pi)) s) (\<lambda>s. rbind (pipe_release pi s) (\<lambda>s. Ok (Ret (int i), i, False, s)))"

primrec pipewrite_loop :: "nat \<Rightarrow> nat \<Rightarrow> uint64 \<Rightarrow> uint64 \<Rightarrow> nat \<Rightarrow> ('u, 'a) files_scheme
    \<Rightarrow> (int outcome \<times> nat \<times> bool \<times> ('u, 'a) files_scheme) res" where
  "pipewrite_loop 0 pr pi addr i s = pipewrite_end pi i s"
| "pipewrite_loop (Suc k) pr pi addr i s =
     rbind (if \<not> readopen (pipes s pi) then Ok (True, s) else killed pr s) (\<lambda>(stop, s).
     if stop then rbind (pipe_release pi s) (\<lambda>s. Ok (Ret (-1), i, False, s))
     else if nwrite (pipes s pi) = nread (pipes s pi) + word_of_nat PIPESIZE then
       rbind (wakeup (Some (nread_chan pi)) s) (\<lambda>s.
       rbind (sleep_enter (Some (nwrite_chan pi)) (pipe_release pi) s) (\<lambda>(b, s). Ok (Block (nwrite_chan pi), i, b, s)))
     else
       rbind (copyin (pagetable (ptable s pr)) (addr + word_of_nat i) 1 s) (\<lambda>(r, bs).
       if r = -1 then pipewrite_end pi i s
       else
         let s = upd_pipe pi (\<lambda>q. q\<lparr>pdata := (pdata q)(unat (nwrite q) mod PIPESIZE := hd bs), nwrite := nwrite q + 1\<rparr>) s
         in pipewrite_loop k pr pi addr (Suc i) s))"

definition pipewrite_try :: "uint64 \<Rightarrow> uint64 \<Rightarrow> int \<Rightarrow> ('u, 'a) files_scheme
    \<Rightarrow> (int outcome \<times> nat \<times> bool \<times> ('u, 'a) files_scheme) res" where
  "pipewrite_try pi addr n s =
     current s (\<lambda>pr s. rbind (pipe_acquire pi s) (pipewrite_loop (nat n) pr pi addr 0))"

definition pipewrite_resume :: "uint64 \<Rightarrow> uint64 \<Rightarrow> int \<Rightarrow> nat \<Rightarrow> nat \<Rightarrow> bool \<Rightarrow> ('u, 'a) files_scheme
    \<Rightarrow> (int outcome \<times> nat \<times> bool \<times> ('u, 'a) files_scheme) res" where
  "pipewrite_resume pi addr n i pr b s =
     rbind (sleep_leave pr b (pipe_acquire pi) s) (pipewrite_loop (nat n - i) pr pi addr i)"

definition pipewrite :: "uint64 \<Rightarrow> uint64 \<Rightarrow> int \<Rightarrow> ('u, 'a) files_scheme \<Rightarrow> (int \<times> ('u, 'a) files_scheme) res" where
  "pipewrite pi addr n s = rbind (pipewrite_try pi addr n s) (\<lambda>(r, _, _, s). case r of Ret v \<Rightarrow> Ok (v, s) | Block _ \<Rightarrow> Hang)"

primrec piperead_copy :: "nat \<Rightarrow> nat \<Rightarrow> uint64 \<Rightarrow> uint64 \<Rightarrow> nat \<Rightarrow> ('u, 'a) files_scheme \<Rightarrow> (nat \<times> ('u, 'a) files_scheme) res" where
  "piperead_copy 0 pr pi addr i s = Ok (i, s)"
| "piperead_copy (Suc k) pr pi addr i s =
     (if nread (pipes s pi) = nwrite (pipes s pi) then Ok (i, s) else
      let ch = pdata (pipes s pi) (unat (nread (pipes s pi)) mod PIPESIZE);
          s = upd_pipe pi (\<lambda>q. q\<lparr>nread := nread q + 1\<rparr>) s
      in rbind (copyout (pagetable (ptable s pr)) (addr + word_of_nat i) [ch] s) (\<lambda>(r, s).
         if r = -1 then Ok (i, s) else piperead_copy k pr pi addr (Suc i) s))"

definition piperead_turn :: "nat \<Rightarrow> uint64 \<Rightarrow> uint64 \<Rightarrow> int \<Rightarrow> ('u, 'a) files_scheme
    \<Rightarrow> (int outcome \<times> bool \<times> ('u, 'a) files_scheme) res" where
  "piperead_turn pr pi addr n s =
     (if nread (pipes s pi) = nwrite (pipes s pi) \<and> writeopen (pipes s pi) then
        rbind (killed pr s) (\<lambda>(k, s).
        if k then rbind (pipe_release pi s) (\<lambda>s. Ok (Ret (-1), False, s))
        else rbind (sleep_enter (Some (nread_chan pi)) (pipe_release pi) s) (\<lambda>(b, s). Ok (Block (nread_chan pi), b, s)))
      else
        rbind (piperead_copy (nat n) pr pi addr 0 s) (\<lambda>(i, s).
        rbind (wakeup (Some (nwrite_chan pi)) s) (\<lambda>s.
        rbind (pipe_release pi s) (\<lambda>s. Ok (Ret (int i), False, s)))))"

definition piperead_try :: "uint64 \<Rightarrow> uint64 \<Rightarrow> int \<Rightarrow> ('u, 'a) files_scheme \<Rightarrow> (int outcome \<times> bool \<times> ('u, 'a) files_scheme) res" where
  "piperead_try pi addr n s = current s (\<lambda>pr s. rbind (pipe_acquire pi s) (piperead_turn pr pi addr n))"

definition piperead_resume :: "nat \<Rightarrow> uint64 \<Rightarrow> uint64 \<Rightarrow> int \<Rightarrow> bool \<Rightarrow> ('u, 'a) files_scheme
    \<Rightarrow> (int outcome \<times> bool \<times> ('u, 'a) files_scheme) res" where
  "piperead_resume pr pi addr n b s = rbind (sleep_leave pr b (pipe_acquire pi) s) (piperead_turn pr pi addr n)"

definition piperead :: "uint64 \<Rightarrow> uint64 \<Rightarrow> int \<Rightarrow> ('u, 'a) files_scheme \<Rightarrow> (int \<times> ('u, 'a) files_scheme) res" where
  "piperead pi addr n s = rbind (piperead_try pi addr n s) (\<lambda>(r, _, s). case r of Ret v \<Rightarrow> Ok (v, s) | Block _ \<Rightarrow> Hang)"

section \<open>Files\<close>

definition fileclose :: "(('u, 'a) files_scheme \<Rightarrow> ('u, 'a) files_scheme) \<Rightarrow> nat \<Rightarrow> ('u, 'a) files_scheme \<Rightarrow> ('u, 'a) files_scheme res" where
  "fileclose D f s =
     rbind (ftable_acquire s) (\<lambda>s.
     if fref (ftable s f) < 1 then Panic ''fileclose'' else
     let s = upd_file f (\<lambda>x. x\<lparr>fref := fref x - 1\<rparr>) s in
     if fref (ftable s f) > 0 then ftable_release s else
     let ff = ftable s f;
         s = upd_file f (\<lambda>x. x\<lparr>fref := 0, ftype := FD_NONE\<rparr>) s
     in rbind (ftable_release s) (\<lambda>s.
        case ftype ff of
          FD_PIPE \<Rightarrow> pipeclose (fpipe ff) (fwritable ff) s
        | FD_NONE \<Rightarrow> Ok s
        | _ \<Rightarrow> rbind (begin_op s) (\<lambda>s.
               case fip ff of None \<Rightarrow> Panic ''kerneltrap'' | Some ip \<Rightarrow> rbind (iput D ip s) (end_op D))))"

text \<open>The padding between \<^verbatim>\<open>nlink\<close> and \<^verbatim>\<open>size\<close>, which C leaves undetermined, is written as zeros.\<close>

definition stat_bytes :: "stat \<Rightarrow> uchar list" where
  "stat_bytes st = le_bytes 4 (st_dev st) @ le_bytes 4 (st_ino st) @ le_bytes 2 (st_type st) @ le_bytes 2 (st_nlink st) @
     replicate 4 0 @ le_bytes 8 (st_size st)"

definition filestat :: "(('u, 'a) files_scheme \<Rightarrow> ('u, 'a) files_scheme) \<Rightarrow> nat \<Rightarrow> uint64 \<Rightarrow> ('u, 'a) files_scheme
    \<Rightarrow> (int \<times> ('u, 'a) files_scheme) res" where
  "filestat D f addr s =
     rbind (myproc s) (\<lambda>(p, s).
     if ftype (ftable s f) = FD_INODE \<or> ftype (ftable s f) = FD_DEVICE then
       rbind (ilock D (fip (ftable s f)) s) (\<lambda>s.
       let st = stati (the (fip (ftable s f))) s in
       rbind (iunlock (fip (ftable s f)) s) (\<lambda>s.
       case p of None \<Rightarrow> Panic ''kerneltrap'' | Some p \<Rightarrow>
       rbind (copyout (pagetable (ptable s p)) addr (stat_bytes st) s) (\<lambda>(r, s). if r < 0 then Ok (-1, s) else Ok (0, s))))
     else Ok (-1, s))"

definition fileread :: "(('u, 'a) files_scheme \<Rightarrow> ('u, 'a) files_scheme) \<Rightarrow> nat \<Rightarrow> uint64 \<Rightarrow> int \<Rightarrow> ('u, 'a) files_scheme
    \<Rightarrow> (int \<times> ('u, 'a) files_scheme) res" where
  "fileread D f addr n s =
     (if \<not> freadable (ftable s f) then Ok (-1, s) else
      case ftype (ftable s f) of
        FD_PIPE \<Rightarrow> piperead (fpipe (ftable s f)) addr n s
      | FD_DEVICE \<Rightarrow>
          let m = sint (fmajor (ftable s f)) in
          if m < 0 \<or> m \<ge> NDEV then Ok (-1, s) else
          (case devsw_read s (nat m) of
             Some Consoleread \<Rightarrow> consoleread (UserBuf addr) n s
           | _ \<Rightarrow> Ok (-1, s))
      | FD_INODE \<Rightarrow>
          rbind (ilock D (fip (ftable s f)) s) (\<lambda>s.
          rbind (readi D (the (fip (ftable s f))) (UserBuf addr) (foff (ftable s f)) (word_of_int n) s) (\<lambda>(r, _, s).
          let s = (if sint r > 0 then upd_file f (\<lambda>x. x\<lparr>foff := foff x + r\<rparr>) s else s)
          in rbind (iunlock (fip (ftable s f)) s) (\<lambda>s. Ok (sint r, s))))
      | FD_NONE \<Rightarrow> Panic ''fileread'')"

definition FILEWRITE_max :: int where
  "FILEWRITE_max = int ((MAXOPBLOCKS - 1 - 1 - 2) div 2 * BSIZE)"

text \<open>The loop of \<^verbatim>\<open>filewrite\<close> on an inode; its result is the value of \<^verbatim>\<open>i\<close> at the end.\<close>

function filewrite_loop :: "(('u, 'a) files_scheme \<Rightarrow> ('u, 'a) files_scheme) \<Rightarrow> nat \<Rightarrow> uint64 \<Rightarrow> int \<Rightarrow> int \<Rightarrow> ('u, 'a) files_scheme
    \<Rightarrow> (int \<times> ('u, 'a) files_scheme) res" where
  "filewrite_loop D f addr n i s =
     (if i < n then
        let n1 = (if n - i > FILEWRITE_max then FILEWRITE_max else n - i) in
        rbind (begin_op s) (\<lambda>s.
        rbind (ilock D (fip (ftable s f)) s) (\<lambda>s.
        rbind (writei D (the (fip (ftable s f))) (UserBuf (addr + word_of_int i)) (foff (ftable s f)) (word_of_int n1) s) (\<lambda>(r, s).
        let s = (if sint r > 0 then upd_file f (\<lambda>x. x\<lparr>foff := foff x + r\<rparr>) s else s) in
        rbind (iunlock (fip (ftable s f)) s) (\<lambda>s.
        rbind (end_op D s) (\<lambda>s.
        if sint r \<noteq> n1 then Ok (i, s) else filewrite_loop D f addr n (i + sint r) s)))))
      else Ok (i, s))"
  by pat_completeness auto
termination
  by (relation "measure (\<lambda>(D, f, addr, n, i, s). nat (n - i))") (auto simp: FILEWRITE_max_def layout_defs split: if_splits)

declare filewrite_loop.simps [simp del]

definition filewrite :: "'u uart_ops \<Rightarrow> (('u, 'a) files_scheme \<Rightarrow> ('u, 'a) files_scheme) \<Rightarrow> nat \<Rightarrow> uint64 \<Rightarrow> int \<Rightarrow> ('u, 'a) files_scheme
    \<Rightarrow> (int \<times> ('u, 'a) files_scheme) res" where
  "filewrite U D f addr n s =
     (if \<not> fwritable (ftable s f) then Ok (-1, s) else
      case ftype (ftable s f) of
        FD_PIPE \<Rightarrow> pipewrite (fpipe (ftable s f)) addr n s
      | FD_DEVICE \<Rightarrow>
          let m = sint (fmajor (ftable s f)) in
          if m < 0 \<or> m \<ge> NDEV then Ok (-1, s) else
          (case devsw_write s (nat m) of
             Some Consolewrite \<Rightarrow> consolewrite U (UserBuf addr) n s
           | _ \<Rightarrow> Ok (-1, s))
      | FD_INODE \<Rightarrow>
          rbind (filewrite_loop D f addr n 0 s) (\<lambda>(i, s). Ok (if i = n then n else -1, s))
      | FD_NONE \<Rightarrow> Panic ''filewrite'')"

definition pipealloc_bad :: "(('u, 'a) files_scheme \<Rightarrow> ('u, 'a) files_scheme) \<Rightarrow> nat option \<Rightarrow> nat option \<Rightarrow> ('u, 'a) files_scheme
    \<Rightarrow> ((nat \<times> nat) option \<times> ('u, 'a) files_scheme) res" where
  "pipealloc_bad D f0 f1 s =
     rbind (case f0 of Some f \<Rightarrow> fileclose D f s | None \<Rightarrow> Ok s) (\<lambda>s.
     rbind (case f1 of Some f \<Rightarrow> fileclose D f s | None \<Rightarrow> Ok s) (\<lambda>s. Ok (None, s)))"

definition pipealloc :: "(('u, 'a) files_scheme \<Rightarrow> ('u, 'a) files_scheme) \<Rightarrow> ('u, 'a) files_scheme
    \<Rightarrow> ((nat \<times> nat) option \<times> ('u, 'a) files_scheme) res" where
  "pipealloc D s =
     rbind (filealloc s) (\<lambda>(f0, s).
     case f0 of None \<Rightarrow> pipealloc_bad D None None s | Some rfd \<Rightarrow>
     rbind (filealloc s) (\<lambda>(f1, s).
     case f1 of None \<Rightarrow> pipealloc_bad D f0 None s | Some wfd \<Rightarrow>
     rbind (kalloc s) (\<lambda>(pi, s).
     if pi = 0 then pipealloc_bad D f0 f1 s else
     let s = upd_pipe pi (\<lambda>q. q\<lparr>readopen := True, writeopen := True, nwrite := 0, nread := 0, pipe_lock := initlock\<rparr>) s;
         s = upd_file rfd (\<lambda>x. x\<lparr>ftype := FD_PIPE, freadable := True, fwritable := False, fpipe := pi\<rparr>) s;
         s = upd_file wfd (\<lambda>x. x\<lparr>ftype := FD_PIPE, freadable := False, fwritable := True, fpipe := pi\<rparr>) s
     in Ok (Some (rfd, wfd), s))))"

end
