(* ===== verification/Sample.thy ===== *)
theory Sample
  imports Log_Trans File Vm_Properties
begin

text \<open>
  A machine on which properties of the upper layers are evaluated: the disk and the cache of
  \<open>demo_boot\<close>, an empty inode table, a serial port that keeps the characters it was sent and is always
  ready (or, in \<open>slow_csys\<close>, is not), no open files, and one running process.
\<close>

definition ready_uart :: "uchar list uart_ops" where
  "ready_uart = \<lparr>rd = (\<lambda>r u. (if r = LSR then LSR_TX_IDLE else 0, u)), wr = (\<lambda>r v u. if r = THR then u @ [v] else u)\<rparr>"

definition sample_inode :: inode where
  "sample_inode = \<lparr>idev = 0, inum = 0, iref = 0, ilk = initsleeplock, ivalid = False, itype = 0, imajor = 0, iminor = 0, inlink = 0, isize = 0,
     iaddrs = replicate 13 0\<rparr>"

definition sample_fsys :: fsys where
  "sample_fsys = lsys.extend (demo_boot (vdev demo_bio)) (fsys.fields demo_sb initlock (\<lambda>_. sample_inode))"

definition sample_csys :: "uchar list csys" where
  "sample_csys = fsys.extend sample_fsys (csys.fields [] initlock (\<lambda>_. 0) 0 0 False initlock True initlock (\<lambda>_. 0) 0 0 0)"

text \<open>
  A serial port that is busy for the next three reads of its status after it has taken a character, and
  loses a character written while it is busy.
\<close>

definition slow_uart :: "(uchar list \<times> nat) uart_ops" where
  "slow_uart = \<lparr>rd = (\<lambda>r (sent, busy). (if r = LSR \<and> busy = 0 then LSR_TX_IDLE else 0, (sent, busy - 1))),
     wr = (\<lambda>r v (sent, busy). if r = THR \<and> busy = 0 then (sent @ [v], 3) else (sent, busy))\<rparr>"

definition slow_csys :: "(uchar list \<times> nat) csys" where
  "slow_csys = fsys.extend sample_fsys (csys.fields ([], 3) initlock (\<lambda>_. 0) 0 0 False initlock True initlock (\<lambda>_. 0) 0 0 0)"

definition sample_kfile :: kfile where
  "sample_kfile = \<lparr>ftype = FD_NONE, fref = 0, freadable = False, fwritable = False, fpipe = 0, fip = None, foff = 0, fmajor = 0\<rparr>"

definition sample_pipe :: pipe where
  "sample_pipe = \<lparr>pipe_lock = initlock, pdata = (\<lambda>_. 0), nread = 0, nwrite = 0, readopen = True, writeopen = True\<rparr>"

definition sample_files :: "uchar list files" where
  "sample_files = csys.extend sample_csys (files.fields initlock (\<lambda>_. sample_kfile) (\<lambda>_. None) (\<lambda>_. None) (\<lambda>_. sample_pipe) initlock 0)"

lemmas sample_defs = sample_fsys_def sample_csys_def slow_csys_def sample_files_def sample_inode_def sample_kfile_def sample_pipe_def
  lsys.defs fsys.defs csys.defs files.defs

lemma demo_boot_ptab:
  "mycpu (demo_boot v) = demo_cpu" "ptable (demo_boot v) = ptable demo_ptab" "kmem_lock (demo_boot v) = initlock"
  by (simp_all add: demo_boot_def binit_def Let_def bio.defs ptab.defs demo_bio_def demo_ptab_def)

lemma sample_ptab:
  "mycpu sample_files = demo_cpu" "ptable sample_files = ptable demo_ptab" "mycpu sample_csys = demo_cpu" "ptable sample_csys = ptable demo_ptab"
  "mycpu slow_csys = demo_cpu" "ptable slow_csys = ptable demo_ptab"
  by (simp_all add: sample_defs demo_boot_ptab)

lemma demo_ptab_running: "running (demo_ptab\<lparr>mycpu := demo_cpu\<rparr>) 0"
  by (simp add: running_def demo_ptab_def demo_proc_def demo_cpu_def cpu_ok_def NPROC_def)

lemma sample_running: "running sample_files 0" "running sample_csys 0" "running slow_csys 0"
  using demo_ptab_running by (simp_all add: running_def sample_ptab)

text \<open>The same machine with the memory of \<open>m\<close>, whose page table at \<open>r\<close> is that of the process.\<close>

definition sample_user :: "machine \<Rightarrow> uint64 \<Rightarrow> uchar list files" where
  "sample_user m r = sample_files\<lparr>mem := mem m, kend := kend m, kmem_lock := kmem_lock m, freelist := freelist m,
     ptable := (ptable sample_files)(0 := (ptable sample_files 0)\<lparr>pagetable := r\<rparr>)\<rparr>"

lemma sample_user_running: "running (sample_user m r) 0" "pagetable (ptable (sample_user m r) 0) = r" "mem (sample_user m r) = mem m"
  "\<not> pkilled (ptable (sample_user m r) 0)" "pipes (sample_user m r) = pipes sample_files"
  using demo_ptab_running by (simp_all add: running_def sample_user_def sample_ptab) (simp add: demo_ptab_def demo_proc_def)

lemma sample_user_uvm:
  assumes "uvm_inv m fl r K"
  shows "uvm_inv (sample_user m r) fl r K"
  using assms by (simp add: uvm_inv_def pt_inv_def kmem_inv_def page_ok_def sample_user_def sample_ptab) (simp add: demo_cpu_def cpu_ok_def)

end
