(* ===== verification/Fs_Properties.thy ===== *)
theory Fs_Properties
  imports Fs_Dir Sample
begin

text \<open>
  A small file system in the layout of \<^verbatim>\<open>mkfs\<close> (log in blocks 2 to 31, inodes in 32 to 44, bitmap in
  45): a root directory in block 46 with the entries \<open>.\<close>, \<open>..\<close> and \<open>a\<close>, and the file \<open>a\<close> in
  block 47, both in the inode table. The properties of the file system and their instances on it.
\<close>

section \<open>A file system with one file\<close>

definition name14 :: "uchar list \<Rightarrow> uchar list" where
  "name14 x = x @ replicate (DIRSIZ - length x) 0"

definition root_dents :: "dirent list" where
  "root_dents = [\<lparr>de_inum = 1, de_name = name14 [46]\<rparr>, \<lparr>de_inum = 1, de_name = name14 [46, 46]\<rparr>, \<lparr>de_inum = 2, de_name = name14 [97]\<rparr>]"

definition hello :: "uchar list" where
  "hello = [104, 101, 108, 108, 111]"

definition pad :: "uchar list \<Rightarrow> uchar list" where
  "pad x = x @ replicate (BSIZE - length x) 0"

definition root_inode :: inode where
  "root_inode = sample_inode\<lparr>idev := ROOTDEV, inum := 1, iref := 1, ivalid := True, itype := T_DIR, inlink := 1, isize := 48,
     iaddrs := 46 # replicate 12 0\<rparr>"

definition file_inode :: inode where
  "file_inode = sample_inode\<lparr>idev := ROOTDEV, inum := 2, iref := 1, ivalid := True, itype := T_FILE, inlink := 1, isize := 5,
     iaddrs := 47 # replicate 12 0\<rparr>"

definition fs_disk :: vdev where
  "fs_disk = \<lparr>image = (\<lambda>_. replicate BSIZE 0)(32 := put_dinode (put_dinode (replicate BSIZE 0) 1 (dinode_of root_inode)) 2 (dinode_of file_inode),
     45 := pad (replicate 6 255), 46 := pad (concat (map dirent_bytes root_dents)), 47 := pad hello), writes = []\<rparr>"

definition fs_machine :: fsys where
  "fs_machine = lsys.extend (demo_boot fs_disk) (fsys.fields demo_sb initlock ((\<lambda>_. sample_inode)(0 := root_inode, 2 := file_inode)))"

lemma length_pad [simp]: "length x \<le> BSIZE \<Longrightarrow> length (pad x) = BSIZE"
  by (simp add: pad_def)

lemma root_bytes: "length (concat (map dirent_bytes root_dents)) = 48"
  by (simp add: root_dents_def dirent_bytes_def name14_def DIRSIZ_def)

lemma fs_machine_simps [simp]:
  "sb fs_machine = demo_sb" "itable_lock fs_machine = initlock" "itable fs_machine = (\<lambda>_. sample_inode)(0 := root_inode, 2 := file_inode)"
  "klog fs_machine = demo_log" "view fs_machine n = content fs_disk (ucast n)" "vdev fs_machine = fs_disk"
proof -
  show "sb fs_machine = demo_sb" "itable_lock fs_machine = initlock" "itable fs_machine = (\<lambda>_. sample_inode)(0 := root_inode, 2 := file_inode)"
    by (simp_all add: fs_machine_def lsys.defs fsys.defs)
  show "klog fs_machine = demo_log" "vdev fs_machine = fs_disk" using demo_boot_bres(2,3) by (simp_all add: fs_machine_def lsys.defs fsys.defs)
  have "view fs_machine n = view (demo_boot fs_disk) n" by (simp add: view_def fs_machine_def lsys.defs fsys.defs)
  then show "view fs_machine n = content fs_disk (ucast n)" by (simp add: demo_boot_view)
qed

lemma fs_disk_blocks: "content fs_disk 45 = pad (replicate 6 255)" "content fs_disk 46 = pad (concat (map dirent_bytes root_dents))" "content fs_disk 47 = pad hello"
  "content fs_disk 2 = replicate BSIZE 0" "length (content fs_disk n) = BSIZE"
proof -
  show "content fs_disk 45 = pad (replicate 6 255)" "content fs_disk 46 = pad (concat (map dirent_bytes root_dents))" "content fs_disk 47 = pad hello"
    "content fs_disk 2 = replicate BSIZE 0" by (simp_all add: content_def fs_disk_def)
  have "length (put_dinode (put_dinode (replicate BSIZE 0) 1 (dinode_of root_inode)) 2 (dinode_of file_inode)) = BSIZE"
    using put_dinode_frame(1) [of 1 "replicate BSIZE 0" "dinode_of root_inode"]
      put_dinode_frame(1) [of 2 "put_dinode (replicate BSIZE 0) 1 (dinode_of root_inode)" "dinode_of file_inode"]
    by (simp add: dinode_of_def root_inode_def file_inode_def NDIRECT_def BSIZE_def)
  then show "length (content fs_disk n) = BSIZE" using root_bytes by (simp add: content_def fs_disk_def hello_def BSIZE_def)
qed

lemma fs_used: "c < 1000 \<Longrightarrow> used fs_machine c \<longleftrightarrow> unat c < 48"
proof -
  assume c: "c < 1000"
  have u: "unat c < 1000" using c by (simp add: word_less_nat_alt)
  have "c div 8192 = 0" using u by (simp add: word_eq_iff_unsigned unat_div word_unat_eq_iff)
  then have "BBLOCK c demo_sb = 45" by (simp add: BBLOCK_def demo_sb_def BPB_def BSIZE_def)
  moreover have "bit_at (pad (replicate 6 255)) i \<longleftrightarrow> i < 48" if "i < 1000" for i
  proof (cases "i < 48")
    case True
    then have "pad (replicate 6 255) ! (i div 8) = 255" by (simp add: pad_def nth_append BSIZE_def)
    moreover have "bit (255 :: uchar) (i mod 8)" using mask_eq_exp_minus_1 [of 8, where 'a = uchar] bit_mask_iff [of 8 "i mod 8", where 'a = uchar] by simp
    ultimately show ?thesis using True by (simp add: bit_at_def)
  next
    case False
    then have "pad (replicate 6 255) ! (i div 8) = 0" using that by (simp add: pad_def nth_append BSIZE_def)
    then show ?thesis using False by (simp add: bit_at_def)
  qed
  ultimately show ?thesis using u by (simp add: used_def fs_disk_blocks BPB_def BSIZE_def)
qed

lemma demo_BBLOCK: "c < 1000 \<Longrightarrow> BBLOCK c demo_sb = 45"
proof -
  assume "c < 1000"
  then have "c div 8192 = 0" by (simp add: word_less_nat_alt unat_div word_unat_eq_iff)
  then show ?thesis by (simp add: BBLOCK_def demo_sb_def BPB_def BSIZE_def)
qed

lemma demo_IBLOCK: "i < 200 \<Longrightarrow> 32 \<le> unat (IBLOCK i demo_sb) \<and> unat (IBLOCK i demo_sb) < 45"
proof -
  assume "i < 200"
  then have u: "unat i < 200" by (simp add: word_less_nat_alt)
  then have "unat (i div 16 + 32) = unat i div 16 + 32" by (simp add: unat_word_ariths unat_div)
  then show ?thesis using u by (simp add: IBLOCK_def demo_sb_def IPB_def BSIZE_def)
qed

lemma fs_machine_ok: "fs_ok fs_machine"
proof -
  have sb: "sb_size demo_sb = 1000" "sb_ninodes demo_sb = 200" "sb_bmapstart demo_sb = 45" by (simp_all add: demo_sb_def)
  have log: "b \<notin> log_area demo_log" if "32 \<le> unat b" for b using demo_log_bound [of b] that by auto
  have "bitmap_ok fs_machine"
    unfolding bitmap_ok_def using fs_used demo_log_bound log [of 45] by (auto simp: sb demo_BBLOCK BPB_def BSIZE_def dest: demo_log_bound)
  moreover have "unat (IBLOCK i demo_sb) < 2 ^ 31 \<and> IBLOCK i demo_sb \<notin> log_area demo_log \<and>
      (IBLOCK i demo_sb < 1000 \<longrightarrow> used fs_machine (IBLOCK i demo_sb)) \<and> (\<forall>c < 1000. IBLOCK i demo_sb \<noteq> BBLOCK c demo_sb)" if "i < 200" for i
    using demo_IBLOCK [OF that] log [of "IBLOCK i demo_sb"] fs_used [of "IBLOCK i demo_sb"] by (auto simp: demo_BBLOCK)
  ultimately show ?thesis unfolding fs_ok_def by (simp add: sb)
qed

lemma fs_data_block: "48 \<le> unat c + 2 \<Longrightarrow> unat c < 48 \<Longrightarrow> data_block fs_machine c"
proof -
  assume c: "48 \<le> unat c + 2" "unat c < 48"
  have sb: "sb_size demo_sb = 1000" "sb_ninodes demo_sb = 200" by (simp_all add: demo_sb_def)
  have "c \<notin> log_area demo_log" using demo_log_bound [of c] c by auto
  moreover have "c \<noteq> IBLOCK i demo_sb" if "i < 200" for i using demo_IBLOCK [OF that] c by auto
  moreover have "c < 1000" using c by (simp add: word_less_nat_alt)
  ultimately show ?thesis using fs_used [of c] c by (auto simp: data_block_def sb demo_BBLOCK)
qed

lemma fs_inode_ok:
  assumes "iaddrs (itable fs_machine ip) = a # replicate 12 0" and "48 \<le> unat a + 2" "unat a < 48"
    and "idev (itable fs_machine ip) = ROOTDEV" "inum (itable fs_machine ip) < 200"
  shows "inode_ok fs_machine ip" "faddr fs_machine ip bn = (if bn = 0 then a else 0)"
proof -
  have ind: "iind fs_machine ip = 0" using assms(1) by (simp add: iind_def NDIRECT_def)
  have fa: "faddr fs_machine ip bn = (if bn = 0 then a else 0)" for bn
    using assms(1) ind by (auto simp: faddr_def nth_Cons' NDIRECT_def)
  have "fblocks fs_machine ip \<subseteq> {a}" using fa ind by (auto simp: fblocks_def)
  moreover have "data_block fs_machine a" by (rule fs_data_block [OF assms(2,3)])
  ultimately show "inode_ok fs_machine ip"
    unfolding inode_ok_def using assms(1,4,5) fa ind by (auto simp: demo_sb_def NDIRECT_def)
  show "faddr fs_machine ip bn = (if bn = 0 then a else 0)" by (rule fa)
qed

lemma fs_root: "inode_ok fs_machine 0" "faddr fs_machine 0 bn = (if bn = 0 then 46 else 0)"
  by (rule fs_inode_ok [of 0 46]; simp add: root_inode_def)+

lemma fs_file: "inode_ok fs_machine 2" "faddr fs_machine 2 bn = (if bn = 0 then 47 else 0)"
  by (rule fs_inode_ok [of 2 47]; simp add: file_inode_def)+

lemma fs_machine_frame: "bufs fs_machine = bufs (demo_boot fs_disk)" "bcache_lock fs_machine = bcache_lock (demo_boot fs_disk)"
  "disk fs_machine = disk (demo_boot fs_disk)" "mycpu fs_machine = mycpu (demo_boot fs_disk)" "ptable fs_machine = ptable (demo_boot fs_disk)"
  by (simp_all add: fs_machine_def lsys.defs fsys.defs)

lemma fs_txn: "txn fs_machine 0 Map.empty 29"
proof -
  have "bres fs_machine 0 {} Map.empty"
    using demo_boot_bres(1) [of fs_disk] by (rule bres_frame) (simp_all add: fs_machine_frame demo_boot_bres)
  moreover have "sized fs_machine" by (simp add: sized_def fs_disk_blocks)
  moreover have "log_wf demo_log" "get32 (replicate BSIZE 0) 0 = 0"
    using log_invD(1,5) [OF demo_log_inv] by (simp_all add: demo_boot_bres demo_zero)
  ultimately have "log_inv fs_machine 0 Map.empty"
    by (simp add: log_inv_def) (simp add: demo_log_def fs_disk_blocks logged_def)
  then show ?thesis by (simp add: txn_def reading_def clean_def demo_log_def layout_defs)
qed

lemma fs_file_data: "fdata fs_machine 2 = hello" "mapped fs_machine 2 0 5"
proof -
  have "fblk fs_machine 2 0 = pad hello" by (simp add: fblk_def fs_file(2) fs_disk_blocks)
  moreover have "isize (itable fs_machine 2) = 5" by (simp add: file_inode_def)
  ultimately show "fdata fs_machine 2 = hello"
    by (simp add: fdata_def fbytes_def upt_rec BSIZE_def del: fs_machine_simps) (simp add: pad_def hello_def)
  show "mapped fs_machine 2 0 5" by (auto simp: mapped_def fs_file(2) MAXFILE_def NDIRECT_def NINDIRECT_def BSIZE_def)
qed

lemma fs_root_dir: "is_dir fs_machine 0 root_dents" "mapped fs_machine 0 0 48"
proof -
  have b: "fblk fs_machine 0 0 = pad (concat (map dirent_bytes root_dents))" by (simp add: fblk_def fs_root(2) fs_disk_blocks)
  have z: "isize (itable fs_machine 0) = 48" by (simp add: root_inode_def)
  have "fdata fs_machine 0 = take 48 (pad (concat (map dirent_bytes root_dents)))"
    by (rule nth_equalityI) (use root_bytes in \<open>simp_all add: fdata_def fbytes_def z b BSIZE_def del: fs_machine_simps\<close>)
  then have "fdata fs_machine 0 = concat (map dirent_bytes root_dents)" using root_bytes by (simp add: pad_def)
  then show "is_dir fs_machine 0 root_dents"
    by (simp add: is_dir_def root_inode_def) (simp add: root_dents_def name14_def DIRSIZ_def)
  show "mapped fs_machine 0 0 48" by (auto simp: mapped_def fs_root(2) MAXFILE_def NDIRECT_def NINDIRECT_def BSIZE_def)
qed

section \<open>Free blocks\<close>

text \<open>
  C30: \<^verbatim>\<open>balloc\<close> inside a transaction returns. It takes the lowest-numbered block that the bitmap
  marks free, marks it, leaves the state of every other block as it was, and zeroes it; it gives
  0 and changes nothing exactly when every block of the file system is in use.
\<close>

theorem balloc_takes_first_free:
  assumes "virtio_device D" and "txn s p Map.empty (k + 2)" and "bitmap_ok s"
  shows "\<exists>r s'. balloc D ROOTDEV s = Ok (r, s') \<and> txn s' p Map.empty k \<and> bitmap_ok s' \<and>
    (if \<forall>c < sb_size (sb s). used s c then r = 0 \<and> view s' = view s
     else first_free s r \<and> view s' r = replicate BSIZE 0 \<and> (\<forall>c < sb_size (sb s). used s' c \<longleftrightarrow> used s c \<or> c = r) \<and>
       (\<forall>b. b \<noteq> r \<longrightarrow> b \<noteq> BBLOCK r (sb s) \<longrightarrow> view s' b = view s b))"
proof -
  have off: "off_bitmap s Map.empty" by (simp add: off_bitmap_def)
  have T: "txn s p Map.empty (Suc (Suc k))" using assms(2) by simp
  obtain r s' where S: "balloc_loop D ROOTDEV 0 s = Ok (r, s')" "lstep s s'" "txn s' p Map.empty k" "log_area (klog s') = log_area (klog s)"
      "r = 0 \<and> (\<forall>c < sb_size (sb s). used s c) \<and> view s' = view s \<or> allocated s r s'"
    using balloc_loop_spec [OF assms(1) T assms(3) off, of 0] by auto
  have b: "balloc D ROOTDEV s = Ok (r, s')" using S(1) by (simp add: balloc_def)
  note F = lstep_fs [OF S(2)]
  show ?thesis
  proof (cases "\<forall>c < sb_size (sb s). used s c")
    case True
    then have "r = 0" "view s' = view s" using S(5) by (auto simp: allocated_def first_free_def)
    moreover have "bitmap_ok s'" using assms(3) by (rule bitmap_ok_grow) (simp_all add: F S(4) used_view [OF \<open>view s' = view s\<close> F(1)])
    ultimately show ?thesis using b S(3) True by auto
  next
    case False
    then have al: "allocated s r s'" using S(5) by blast
    note U = allocated_used [OF assms(3) txnD(7) [OF T] al F(1)]
    have "0 < sb_size (sb s)" using assms(3) by (simp add: bitmap_ok_def)
    then have "bitmap_ok s'" by (intro bitmap_ok_grow [OF assms(3) F(1) S(4)]) (use U in auto)
    then show ?thesis unfolding if_not_P [OF False] using b S(3) U al by (intro exI [of _ r] exI [of _ s']) (simp add: allocated_def)
  qed
qed

theorem balloc_takes_first_free_witness:
  "\<exists>s'. balloc ideal_disk ROOTDEV fs_machine = Ok (48, s') \<and> view s' 48 = replicate BSIZE 0 \<and> used s' 48 \<and> \<not> used s' 49"
proof -
  have sb: "sb_size demo_sb = 1000" by (simp add: demo_sb_def)
  have ok: "bitmap_ok fs_machine" using fs_machine_ok by (simp add: fs_ok_def)
  have T: "txn fs_machine 0 Map.empty (27 + 2)" using fs_txn by simp
  have free: "\<not> used fs_machine 48" "\<not> used fs_machine 49" using fs_used [of 48] fs_used [of 49] by simp_all
  have "\<not> (\<forall>c < sb_size (sb fs_machine). used fs_machine c)" using free(1) by (auto simp: sb intro: exI [of _ 48])
  then obtain r s' where S: "balloc ideal_disk ROOTDEV fs_machine = Ok (r, s')" "first_free fs_machine r" "view s' r = replicate BSIZE 0"
      "\<forall>c < sb_size (sb fs_machine). used s' c \<longleftrightarrow> used fs_machine c \<or> c = r"
    using balloc_takes_first_free [OF ideal_disk T ok] by (metis (no_types, lifting))
  have R: "r < 1000" "\<not> used fs_machine r" "\<And>c. c < r \<Longrightarrow> used fs_machine c" using S(2) by (simp_all add: first_free_def sb)
  have "\<not> r < 48" "\<not> 48 < r" using fs_used [OF R(1)] R(2) R(3) [of 48] free(1) by (auto simp: word_less_nat_alt [of r])
  then have "r = 48" by simp
  then show ?thesis using S free by (intro exI [of _ s']) (simp add: sb)
qed

section \<open>Files\<close>

lemma word_add_wraps:
  fixes a b :: uint32
  assumes "\<not> unat a + unat b < 2 ^ 32"
  shows "a + b < a"
proof -
  have "unat (a + b) = (unat a + unat b) mod 2 ^ 32" by (simp add: unat_word_ariths)
  moreover have "(unat a + unat b) mod 2 ^ 32 = unat a + unat b - 2 ^ 32"
    using assms unat_uint32_less [of a] unat_uint32_less [of b] by (simp add: le_mod_geq)
  moreover have "unat a + unat b - 2 ^ 32 < unat a" using assms unat_uint32_less [of b] unat_uint32_less [of a] by simp
  ultimately show ?thesis by (simp add: word_less_nat_alt)
qed

text \<open>
  C29: \<^verbatim>\<open>readi\<close> returns the bytes of the file at the offset, as many as were asked for or as the file
  has, delivers exactly these to the caller's buffer (user memory through the page table, or a
  variable of the kernel) and changes neither the file system nor the cache's contents. An
  offset beyond the end, or one that overflows, gives no bytes.
\<close>

theorem readi_reads_file:
  fixes off n :: uint32
  assumes "virtio_device D" and "reading s p Map.empty (Suc k)" and "fs_ok s" and "inode_ok s ip" and "mapped s ip 0 (unat (isize (itable s ip)))"
    and "bs = (if unat off + unat n < 2 ^ 32 then take (unat n) (drop (unat off) (fdata s ip)) else [])"
    and "dst_ok fl K p dst (length bs) s"
  shows "\<exists>s'. readi D ip dst off n s = Ok (word_of_nat (length bs), bs, s') \<and> reading s' p Map.empty (Suc k) \<and> read_same s s' \<and>
    delivered (pagetable (ptable s p)) (mem s) dst bs (mem s')"
proof (cases "unat off + unat n < 2 ^ 32")
  case True
  then show ?thesis using readi_spec [OF assms(1-5) True refl, of fl K dst] assms(6,7) by simp
next
  case False
  have "off + n < off" by (rule word_add_wraps [OF False])
  then have "readi D ip dst off n s = Ok (0, [], s)" by (simp add: readi_def)
  moreover have "delivered (pagetable (ptable s p)) (mem s) dst [] (mem s)" using delivered_nil assms(6,7) False by simp
  ultimately show ?thesis using False assms(2,6) by (intro exI [of _ s]) simp
qed

theorem readi_reads_file_witness:
  "\<exists>s'. readi ideal_disk 2 (KernVar []) 1 10 fs_machine = Ok (4, [101, 108, 108, 111], s') \<and> view s' = view fs_machine"
proof -
  have "reading fs_machine 0 Map.empty (Suc 28)" using txnD(1) [OF fs_txn] by simp
  moreover have "unat (isize (itable fs_machine 2)) = 5" by (simp add: file_inode_def)
  ultimately show ?thesis
    using readi_reads_file [OF ideal_disk, of fs_machine 0 28 2 "[101, 108, 108, 111]" 1 10 undefined undefined "KernVar []"]
      fs_machine_ok fs_file(1) fs_file_data by (auto simp: hello_def read_same_def)
qed

text \<open>
  C4: \<^verbatim>\<open>writei\<close> inside a transaction with enough space returns. It refuses an offset beyond the end of
  the file and a file that would be too large. Otherwise it writes the first \<open>t\<close> bytes of the
  caller's buffer over the file at the offset, growing it as needed, and returns \<open>t\<close>; \<open>t\<close> is less
  than asked for only when the disk is full. The inode on disk is that in memory, no other inode
  and no block of another file changes, and the file system stays well formed.
\<close>

theorem writei_writes_file:
  fixes off n :: uint32
  assumes "virtio_device D" and "txn s p Map.empty (Suc k + 8 * blocks (unat off) (unat n))" and "fs_ok s" and "inode_ok s ip"
    and "mapped s ip 0 (unat (isize (itable s ip)))" and "src_ok fl K p src (unat n) s"
  shows "if isize (itable s ip) < off \<or> MAXFILE * BSIZE < unat off + unat n then writei D ip src off n s = Ok (-1, s)
    else \<exists>t s'. writei D ip src off n s = Ok (word_of_nat t, s') \<and> t \<le> unat n \<and> (t < unat n \<longrightarrow> disk_full s') \<and>
      fdata s' ip = take (unat off) (fdata s ip) @ take t (src_bytes (pagetable (ptable s p)) (mem s) src (unat n)) @ drop (unat off + t) (fdata s ip) \<and>
      txn s' p Map.empty k \<and> fs_ok s' \<and> inode_ok s' ip \<and> mapped s' ip 0 (unat (isize (itable s' ip))) \<and> mach_same s s' \<and>
      (\<forall>i < sb_ninodes (sb s). disk_inode s' i = (if i = inum (itable s ip) then dinode_of (itable s' ip) else disk_inode s i)) \<and>
      (\<forall>b. data_block s b \<longrightarrow> b \<notin> fblocks s ip \<longrightarrow> view s' b = view s b) \<and> (\<forall>j. j \<noteq> ip \<longrightarrow> itable s' j = itable s j)"
proof (cases "isize (itable s ip) < off \<or> MAXFILE * BSIZE < unat off + unat n")
  case True
  have "writei D ip src off n s = Ok (-1, s)"
  proof (cases "unat off + unat n < 2 ^ 32")
    case small: True
    then have "unat (off + n) = unat off + unat n" by (simp add: unat_word_ariths)
    then show ?thesis using True by (auto simp: writei_def)
  next
    case False
    then show ?thesis using word_add_wraps [OF False] by (simp add: writei_def)
  qed
  then show ?thesis using True by simp
next
  case False
  have sz: "unat (isize (itable s ip)) \<le> MAXFILE * BSIZE" using assms(5) by (simp add: mapped_def)
  have off: "off \<le> isize (itable s ip)" "unat off + unat n \<le> MAXFILE * BSIZE" using False by (simp_all add: not_less)
  obtain t s' where W: "writei D ip src off n s = Ok (word_of_nat t, s')" "t \<le> unat n" "t < unat n \<longrightarrow> disk_full s'"
      "fdata s' ip = take (unat off) (fdata s ip) @ take t (src_bytes (pagetable (ptable s p)) (mem s) src (unat n)) @ drop (unat off + t) (fdata s ip)"
      "txn s' p Map.empty k" "fs_ok s'" "inode_ok s' ip" "mach_same s s'"
      "\<forall>i < sb_ninodes (sb s). disk_inode s' i = (if i = inum (itable s ip) then dinode_of (itable s' ip) else disk_inode s i)"
      "\<forall>b. data_block s b \<longrightarrow> b \<notin> fblocks s ip \<longrightarrow> view s' b = view s b" "\<forall>j. j \<noteq> ip \<longrightarrow> itable s' j = itable s j"
      "mapped s ip 0 (unat (isize (itable s ip))) \<longrightarrow> mapped s' ip 0 (unat (isize (itable s' ip)))"
    using writei_spec [OF assms(1-4) off sz assms(6)] by (elim exE conjE) (rule that)
  then show ?thesis unfolding if_not_P [OF False] using assms(5) by (intro exI [of _ t] exI [of _ s'] conjI) (assumption | blast)+
qed

theorem writei_writes_file_witness:
  "\<exists>t s'. writei ideal_disk 2 (KernVar [120, 121, 122]) 4 3 fs_machine = Ok (word_of_nat t, s') \<and> t \<le> 3 \<and> (t < 3 \<longrightarrow> disk_full s') \<and>
     fdata s' 2 = [104, 101, 108, 108] @ take t [120, 121, 122] @ drop (4 + t) hello"
proof -
  have b: "blocks 4 3 = 1" by (simp add: blocks_def BSIZE_def)
  then have T: "txn fs_machine 0 Map.empty (Suc 20 + 8 * blocks (unat (4 :: uint32)) (unat (3 :: uint32)))" using fs_txn by simp
  have z: "isize (itable fs_machine 2) = 5" by (simp add: file_inode_def)
  have no: "\<not> (isize (itable fs_machine 2) < 4 \<or> MAXFILE * BSIZE < unat (4 :: uint32) + unat (3 :: uint32))"
    by (simp add: z MAXFILE_def NDIRECT_def NINDIRECT_def BSIZE_def del: fs_machine_simps)
  have m: "mapped fs_machine 2 0 (unat (isize (itable fs_machine 2)))" using fs_file_data(2) z by simp
  have src: "src_ok undefined undefined 0 (KernVar [120, 121, 122]) (unat (3 :: uint32)) fs_machine" by simp
  show ?thesis
    using writei_writes_file [OF ideal_disk T fs_machine_ok fs_file(1) m src, unfolded if_not_P [OF no] fs_file_data(1)]
    by (elim exE conjE, intro exI conjI) (assumption | simp add: hello_def)+
qed

section \<open>Directories\<close>

text \<open>
  C28: A name that \<^verbatim>\<open>dirlink\<close> enters into a directory is found by \<^verbatim>\<open>dirlookup\<close>. On a directory without
  the name, \<^verbatim>\<open>dirlink\<close> returns 0 and has put the entry into the first free place, with every
  other entry as it was, or returns -1 because the disk is full. After it returned 0, \<^verbatim>\<open>dirlookup\<close>
  gives an entry of the inode table for the inode that was linked, and the offset of the entry.
\<close>

theorem dirlink_dirlookup:
  fixes n :: uint32
  assumes "virtio_device D" and "txn s p Map.empty (k + 10)" and "fs_ok s" and "inode_ok s dp" and "is_dir s dp des" and "mapped s dp 0 (16 * length des)"
    and "itable_lock s = initlock" and "first_dent (dent_matches name) des 0 = None" and "16 * length des + 16 \<le> MAXFILE * BSIZE"
    and "0 < unat n" and "unat n < 2 ^ 16" and "itab_find ROOTDEV n (itable s) \<noteq> None \<or> itab_free (itable s) \<noteq> None"
  shows "\<exists>r s'. dirlink D dp name n s = Ok (r, s') \<and>
    (if r = 0 then is_dir s' dp (put_dent des (new_dent name n)) \<and>
       (\<exists>ip s''. dirlookup D dp name s' = Ok (Some (ip, word_of_nat (16 * free_dent des)), s'') \<and>
          idev (itable s'' ip) = ROOTDEV \<and> inum (itable s'' ip) = n \<and> view s'' = view s')
     else r = -1 \<and> disk_full s')"
proof -
  have "reading s p Map.empty (Suc (Suc k + 8))" using reading_mono [OF txnD(1) [OF assms(2)], of "Suc (Suc k + 8)"] by simp
  then have ok: "dir_ok s p (Suc k + 8) dp des" using assms(3-6) by (simp add: dir_ok_def)
  have T: "txn s p Map.empty (Suc k + 9)" using assms(2) by (simp add: add.commute)
  obtain r s' where S: "dirlink D dp name n s = Ok (r, s')" "txn s' p Map.empty (Suc k)" "fs_ok s'" "inode_ok s' dp" "mach_same s s'"
      "\<forall>j. j \<noteq> dp \<longrightarrow> itable s' j = itable s j" "(itable s' dp)\<lparr>iaddrs := [], isize := 0\<rparr> = (itable s dp)\<lparr>iaddrs := [], isize := 0\<rparr>"
      "r = 0 \<and> is_dir s' dp (put_dent des (new_dent name n)) \<and> mapped s' dp 0 (16 * length (put_dent des (new_dent name n))) \<or> r = -1 \<and> disk_full s'"
    using dirlink_spec [OF assms(1) T ok assms(7-9), of n] by (elim exE conjE) (rule that)
  have ref: "iref (itable s' j) = iref (itable s j)" "idev (itable s' j) = idev (itable s j)" "inum (itable s' j) = inum (itable s j)" for j
  proof -
    have "(itable s' j)\<lparr>iaddrs := [], isize := 0\<rparr> = (itable s j)\<lparr>iaddrs := [], isize := 0\<rparr>" using S(6,7) by (cases "j = dp") simp_all
    from arg_cong [OF this, of iref] arg_cong [OF this, of idev] arg_cong [OF this, of inum]
    show "iref (itable s' j) = iref (itable s j)" "idev (itable s' j) = idev (itable s j)" "inum (itable s' j) = inum (itable s j)" by simp_all
  qed
  have un: "ucast (ucast n :: ushort) = n" using assms(11) by (simp add: word_unat_eq_iff unsigned_ucast_eq unsigned_take_bit_eq take_bit_nat_eq_self)
  show ?thesis
  proof (cases "r = 0")
    case True
    define es where "es = put_dent des (new_dent name n)"
    have d: "is_dir s' dp es" "mapped s' dp 0 (16 * length es)" using S(8) True by (simp_all add: es_def)
    have ok': "dir_ok s' p k dp es" using txnD(1) [OF S(2)] S(3,4) d by (simp add: dir_ok_def)
    have lk: "itable_lock s' = initlock" using S(5) assms(7) by (simp add: mach_same_def)
    have "(ucast n :: ushort) \<noteq> 0" using un assms(10) by (metis ucast_0 unat_0 less_irrefl)
    note P = put_dent_first [OF assms(8) new_dent_facts(3) [OF this, of name], folded es_def]
    have "itab_find ROOTDEV n (itable s') \<noteq> None \<or> itab_free (itable s') \<noteq> None"
      using assms(12) by (simp add: itab_find_def itab_free_def ref)
    then obtain ip e where e: "iget_entry ROOTDEV n (itable s') = Some (ip, e)" "idev e = ROOTDEV" "inum e = n"
      using iget_entry_some [of ROOTDEV n "itable s'"] by blast
    obtain s1 where 1: "read_same s' s1" "dirlookup D dp name s' = Ok (Some (ip, word_of_nat (16 * free_dent des)), s1\<lparr>mycpu := crit (mycpu s1), itable := (itable s')(ip := e)\<rparr>)"
      using dirlookup_spec [OF assms(1) ok' lk, of name] P un e(1) by (auto simp: new_dent_def)
    then show ?thesis using S(1) True d(1) e(2,3) by (auto simp: es_def read_same_def view_def)
  next
    case False
    then show ?thesis using S(1,8) by auto
  qed
qed

lemma cstr_names: "cstr (bufptr (name14 [x])) DIRSIZ = (if x = 0 then [] else [x])" "cstr (bufptr [x]) DIRSIZ = (if x = 0 then [] else [x])"
  "cstr (bufptr (name14 [x, y])) DIRSIZ = (if x = 0 then [] else if y = 0 then [x] else [x, y])"
  by (simp_all add: bufptr_def name14_def DIRSIZ_def numeral_eq_Suc)

theorem dirlink_dirlookup_witness:
  "\<exists>r s'. dirlink ideal_disk 0 [98] 3 fs_machine = Ok (r, s') \<and>
    (if r = 0 then \<exists>ip s''. dirlookup ideal_disk 0 [98] s' = Ok (Some (ip, 48), s'') \<and> inum (itable s'' ip) = 3 else r = -1 \<and> disk_full s')"
proof -
  have T: "txn fs_machine 0 Map.empty (19 + 10)" using fs_txn by simp
  have len: "length root_dents = 3" by (simp add: root_dents_def)
  have none: "first_dent (dent_matches [98]) root_dents 0 = None"
    by (simp add: first_dent_def upt_rec root_dents_def dent_matches_def cstr_names)
  have fr: "free_dent root_dents = 3" by (simp add: free_dent_def first_dent_def upt_rec root_dents_def)
  have "itab_free (itable fs_machine) \<noteq> None"
    by (auto simp: itab_free_def find_None_iff NINODE_def sample_inode_def intro!: bexI [of _ 1])
  then have "\<exists>r s'. dirlink ideal_disk 0 [98] 3 fs_machine = Ok (r, s') \<and>
    (if r = 0 then is_dir s' 0 (put_dent root_dents (new_dent [98] 3)) \<and>
       (\<exists>ip s''. dirlookup ideal_disk 0 [98] s' = Ok (Some (ip, word_of_nat (16 * free_dent root_dents)), s'') \<and>
          idev (itable s'' ip) = ROOTDEV \<and> inum (itable s'' ip) = 3 \<and> view s'' = view s')
     else r = -1 \<and> disk_full s')"
    by (intro dirlink_dirlookup [OF ideal_disk T fs_machine_ok fs_root(1) fs_root_dir(1)])
      (use fs_root_dir(2) none in \<open>simp_all add: len MAXFILE_def NDIRECT_def NINDIRECT_def BSIZE_def\<close>)
  then obtain r s' where S: "dirlink ideal_disk 0 [98] 3 fs_machine = Ok (r, s')" "if r = 0 then is_dir s' 0 (put_dent root_dents (new_dent [98] 3)) \<and>
       (\<exists>ip s''. dirlookup ideal_disk 0 [98] s' = Ok (Some (ip, word_of_nat (16 * free_dent root_dents)), s'') \<and>
          idev (itable s'' ip) = ROOTDEV \<and> inum (itable s'' ip) = 3 \<and> view s'' = view s')
     else r = -1 \<and> disk_full s'" by blast
  then have "if r = 0 then \<exists>ip s''. dirlookup ideal_disk 0 [98] s' = Ok (Some (ip, 48), s'') \<and> inum (itable s'' ip) = 3 else r = -1 \<and> disk_full s'"
    unfolding fr by (cases "r = 0") (simp_all, blast)
  then show ?thesis using S(1) by blast
qed

end
