(* ===== verification/Fs_Path.thy ===== *)
theory Fs_Path
  imports Fs_Properties
begin

text \<open>
  Path lookup. A path is a list of names (\<open>elems\<close>), and the directories of the file system form a
  partial map from inode numbers to lists of entries; \<open>resolve\<close> walks that map. \<^verbatim>\<open>namex\<close>, with the
  inode table, the inode locks, the cache and the disk below it, computes the same, and hands out
  exactly one reference, to the inode it returns.
\<close>

section \<open>The names of a path\<close>

primrec components :: "uchar list \<Rightarrow> uchar list \<Rightarrow> uchar list list" where
  "components w [] = (if w = [] then [] else [w])"
| "components w (c # cs) = (if c = slash then (if w = [] then components [] cs else w # components [] cs) else components (w @ [c]) cs)"

definition elems :: "uchar list \<Rightarrow> uchar list list" where
  "elems path = components [] path"

lemma components_word: "w \<noteq> [] \<Longrightarrow> components w cs = (w @ takeWhile (\<lambda>c. c \<noteq> slash) cs) # elems (dropWhile (\<lambda>c. c \<noteq> slash) cs)"
  by (induction cs arbitrary: w) (simp_all add: elems_def)

lemma elems_slashes: "elems (dropWhile (\<lambda>c. c = slash) path) = elems path"
  by (induction path) (simp_all add: elems_def)

lemma elems_step:
  assumes "q = dropWhile (\<lambda>c. c = slash) path" and "q \<noteq> []"
  shows "elems path = takeWhile (\<lambda>c. c \<noteq> slash) q # elems (dropWhile (\<lambda>c. c \<noteq> slash) q)"
proof -
  have "hd q \<noteq> slash" using hd_dropWhile [of "\<lambda>c. c = slash" path, folded assms(1)] assms(2) by simp
  then obtain c cs where q: "q = c # cs" "c \<noteq> slash" using assms(2) by (cases q) simp_all
  then have "elems q = components [c] cs" by (simp add: elems_def)
  then have "elems q = (c # takeWhile (\<lambda>c. c \<noteq> slash) cs) # elems (dropWhile (\<lambda>c. c \<noteq> slash) cs)" using components_word [of "[c]" cs] by simp
  then show ?thesis using q elems_slashes [of path] assms(1) by simp
qed

lemma skipelem_elems:
  "skipelem path name = None \<Longrightarrow> elems path = []"
  "skipelem path name = Some (path', name') \<Longrightarrow> \<exists>e. elems path = e # elems path' \<and> (path' = [] \<longleftrightarrow> elems path' = []) \<and>
     name' = (if DIRSIZ \<le> length e then take DIRSIZ e else e @ [0] @ drop (length e + 1) name)"
proof -
  define q where "q = dropWhile (\<lambda>c. c = slash) path"
  show "elems path = []" if "skipelem path name = None"
  proof -
    have "q = []" using that by (simp add: skipelem_def q_def [symmetric] Let_def split: if_splits)
    then show ?thesis using elems_slashes [of path] by (simp add: q_def [symmetric]) (simp add: elems_def)
  qed
  assume "skipelem path name = Some (path', name')"
  then have S: "q \<noteq> []" "path' = dropWhile (\<lambda>c. c = slash) (dropWhile (\<lambda>c. c \<noteq> slash) q)"
      "name' = (if DIRSIZ \<le> length (takeWhile (\<lambda>c. c \<noteq> slash) q) then take DIRSIZ (takeWhile (\<lambda>c. c \<noteq> slash) q)
         else takeWhile (\<lambda>c. c \<noteq> slash) q @ [0] @ drop (length (takeWhile (\<lambda>c. c \<noteq> slash) q) + 1) name)"
    by (simp_all add: skipelem_def q_def [symmetric] Let_def split: if_splits)
  have "elems path = takeWhile (\<lambda>c. c \<noteq> slash) q # elems path'"
    using elems_step [OF q_def S(1)] by (simp add: S(2) elems_slashes)
  moreover have "path' = dropWhile (\<lambda>c. c = slash) path'" unfolding S(2) by (rule dropWhile_idem [symmetric])
  then have "path' \<noteq> [] \<Longrightarrow> elems path' \<noteq> []" using elems_step [of path' path'] by simp
  ultimately show "\<exists>e. elems path = e # elems path' \<and> (path' = [] \<longleftrightarrow> elems path' = []) \<and>
     name' = (if DIRSIZ \<le> length e then take DIRSIZ e else e @ [0] @ drop (length e + 1) name)"
    unfolding S(3) by (intro exI [of _ "takeWhile (\<lambda>c. c \<noteq> slash) q"] conjI refl) (assumption, metis components.simps(1) elems_def)
qed

lemma cstr_stop: "(\<And>i. i < k \<Longrightarrow> p i = q i) \<Longrightarrow> p k = 0 \<Longrightarrow> q k = 0 \<Longrightarrow> k < n \<Longrightarrow> cstr p n = cstr q n"
proof (induction n arbitrary: p q k)
  case (Suc n)
  show ?case
  proof (cases k)
    case 0
    then show ?thesis using Suc.prems by simp
  next
    case k: (Suc j)
    have "cstr (\<lambda>i. p (Suc i)) n = cstr (\<lambda>i. q (Suc i)) n"
      by (rule Suc.IH [of j]) (use Suc.prems(2-4) k in \<open>simp_all add: Suc.prems(1)\<close>)
    moreover have "p 0 = q 0" by (rule Suc.prems(1)) (simp add: k)
    ultimately show ?thesis by simp
  qed
qed simp

lemma skipelem_name:
  assumes "name' = (if DIRSIZ \<le> length e then take DIRSIZ e else e @ [0] @ r)"
  shows "cstr (bufptr name') DIRSIZ = cstr (bufptr e) DIRSIZ" "dent_matches name' = dent_matches e"
proof -
  show *: "cstr (bufptr name') DIRSIZ = cstr (bufptr e) DIRSIZ"
  proof (cases "DIRSIZ \<le> length e")
    case True
    then show ?thesis using assms by (intro cstr_cong) (simp add: bufptr_def)
  next
    case False
    then show ?thesis using assms by (intro cstr_stop [of "length e"]) (simp_all add: bufptr_def nth_append)
  qed
  show "dent_matches name' = dent_matches e" by (simp add: fun_eq_iff dent_matches_def *)
qed

section \<open>Inodes at rest\<close>

text \<open>
  Between operations, an inode in the table that was loaded agrees with the inode on disk. \<open>L\<close> are
  the entries that the process has locked.
\<close>

definition held_by_proc :: "uint32 \<Rightarrow> sleeplock" where
  "held_by_proc i = \<lparr>slocked = True, slk = initlock, spid = i\<rparr>"

definition synced :: "'a fsys_scheme \<Rightarrow> bool" where
  "synced s \<longleftrightarrow> (\<forall>i < NINODE. 0 < iref (itable s i) \<and> ivalid (itable s i) \<longrightarrow> dinode_of (itable s i) = disk_inode s (inum (itable s i)))"

definition fs_rest :: "'a fsys_scheme \<Rightarrow> nat \<Rightarrow> nat \<Rightarrow> nat set \<Rightarrow> bool" where
  "fs_rest s p k L \<longleftrightarrow> reading s p Map.empty (Suc k) \<and> fs_ok s \<and> itable_lock s = initlock \<and> itab_ok (itable s) \<and> synced s \<and>
     (\<forall>i < NINODE. ilk (itable s i) = (if i \<in> L then held_by_proc (pid (ptable s p)) else initsleeplock))"

definition same_disk :: "'a fsys_scheme \<Rightarrow> 'a fsys_scheme \<Rightarrow> bool" where
  "same_disk s s' \<longleftrightarrow> woke s s' \<and> view s' = view s \<and> sb s' = sb s \<and> klog s' = klog s \<and> mem s' = mem s"

lemma same_disk_trans: "same_disk s s' \<Longrightarrow> same_disk s' s'' \<Longrightarrow> same_disk s s''"
  using woke_trans [of s s' s''] by (simp add: same_disk_def)

lemma same_disk_refl [simp]: "same_disk s s"
  by (simp add: same_disk_def)

lemma same_disk_facts:
  assumes "same_disk s s'"
  shows "disk_inode s' = disk_inode s" "fs_ok s' = fs_ok s"
proof -
  have E: "view s' = view s" "sb s' = sb s" "klog s' = klog s" using assms by (simp_all add: same_disk_def)
  show "disk_inode s' = disk_inode s" by (simp add: disk_inode_def fun_eq_iff E)
  show "fs_ok s' = fs_ok s" by (simp add: fs_ok_def bitmap_ok_def used_view [OF E(1,2)] E)
qed

lemma fs_restD:
  assumes "fs_rest s p k L"
  shows "reading s p Map.empty (Suc k)" "fs_ok s" "itable_lock s = initlock" "itab_ok (itable s)" "synced s" "running s p"
    "i < NINODE \<Longrightarrow> ilk (itable s i) = (if i \<in> L then held_by_proc (pid (ptable s p)) else initsleeplock)"
    "i < NINODE \<Longrightarrow> 0 < iref (itable s i) \<Longrightarrow> ivalid (itable s i) \<Longrightarrow> dinode_of (itable s i) = disk_inode s (inum (itable s i))"
  using assms readingD(4) [of s p Map.empty "Suc k"] by (simp_all add: fs_rest_def synced_def)

text \<open>A step that changes the machine around the table and one entry of it.\<close>

lemma fs_rest_step:
  assumes R: "fs_rest s p k L" and rd: "reading s' p Map.empty (Suc k)" and d: "same_disk s s'" and lk: "itable_lock s' = initlock"
    and ok: "itab_ok (itable s')" and same: "\<And>j. j \<noteq> i \<Longrightarrow> itable s' j = itable s j"
    and l: "\<And>j. j \<noteq> i \<Longrightarrow> j \<in> L' \<longleftrightarrow> j \<in> L" "ilk (itable s' i) = (if i \<in> L' then held_by_proc (pid (ptable s p)) else initsleeplock)"
    and v: "0 < iref (itable s' i) \<Longrightarrow> ivalid (itable s' i) \<Longrightarrow> dinode_of (itable s' i) = disk_inode s (inum (itable s' i))"
  shows "fs_rest s' p k L'"
proof -
  note D = fs_restD [OF R] and E = same_disk_facts [OF d]
  have pt: "ptable s' p = ptable s p" by (rule running_woke(2) [OF D(6)]) (use d in \<open>simp add: same_disk_def\<close>)
  have "dinode_of (itable s' j) = disk_inode s (inum (itable s' j))" if "j < NINODE" "0 < iref (itable s' j)" "ivalid (itable s' j)" for j
    using that D(8) [OF that(1)] same v by (cases "j = i") simp_all
  moreover have "ilk (itable s' j) = (if j \<in> L' then held_by_proc (pid (ptable s p)) else initsleeplock)" if "j < NINODE" for j
    using D(7) [OF that] same l by (cases "j = i") simp_all
  ultimately show ?thesis using D(2) rd lk ok by (simp add: fs_rest_def synced_def E pt)
qed

lemma iget_rest:
  assumes R: "fs_rest s p k L" and e: "iget_entry ROOTDEV n (itable s) = Some (i, e)"
    and s': "s' = s\<lparr>mycpu := crit (mycpu s), itable := (itable s)(i := e)\<rparr>"
  shows "fs_rest s' p k L" "same_disk s s'" "irefs (itable s') = (irefs (itable s))((ROOTDEV, n) := irefs (itable s) (ROOTDEV, n) + 1)"
    "i < NINODE" "idev (itable s' i) = ROOTDEV" "inum (itable s' i) = n" "0 < iref (itable s' i)"
proof -
  note D = fs_restD [OF R] and E = iget_entry_ok [OF D(4) e]
  have eq: "s' = (s\<lparr>mycpu := crit (mycpu s)\<rparr>)\<lparr>itable := (itable s)(i := e)\<rparr>" by (simp add: s')
  have rd: "reading s' p Map.empty (Suc k)"
    using reading_crit [OF D(1)] reading_upd_inode [of i "\<lambda>_. e" "s\<lparr>mycpu := crit (mycpu s)\<rparr>" p Map.empty "Suc k"] by (simp add: s' upd_inode_def)
  show sd: "same_disk s s'" by (simp add: same_disk_def s' view_def woke_def)
  have nn: "0 \<le> irefs (itable s) (ROOTDEV, n)"
    using itab_findD(1,2) [of ROOTDEV n "itable s"] itab_okD(1) [OF D(4)] by (auto simp: irefs_def split: option.split)
  show "i < NINODE" "idev (itable s' i) = ROOTDEV" "inum (itable s' i) = n" "0 < iref (itable s' i)"
      "irefs (itable s') = (irefs (itable s))((ROOTDEV, n) := irefs (itable s) (ROOTDEV, n) + 1)"
    using E nn by (simp_all add: s')
  have old: "dinode_of e = disk_inode s (inum e)" if "ivalid e"
  proof (cases "itab_find ROOTDEV n (itable s)")
    case (Some j)
    then have j: "j = i" "e = (itable s i)\<lparr>iref := iref (itable s i) + 1\<rparr>" using e by (auto simp: iget_entry_def)
    show ?thesis using D(8) [of i] itab_findD(1,2) [OF Some] j that by (simp add: dinode_of_def)
  next
    case None
    then show ?thesis using e that by (auto simp: iget_entry_def)
  qed
  show "fs_rest s' p k L"
  proof (rule fs_rest_step [OF R rd sd, of i])
    show "itab_ok (itable s')" using E(1) by (simp add: s')
    show "ilk (itable s' i) = (if i \<in> L then held_by_proc (pid (ptable s p)) else initsleeplock)" using D(7) [OF E(4)] E(8) by (simp add: s')
  qed (use D(3) old in \<open>simp_all add: s'\<close>)
qed

lemma iref_rest:
  assumes R: "fs_rest s p k L" and i: "i < NINODE" "0 < iref (itable s i)" "0 \<le> iref (itable s i) + x"
    and s': "s' = s\<lparr>mycpu := crit (mycpu s), itable := iref_add x i (itable s)\<rparr>"
  shows "fs_rest s' p k L" "same_disk s s'"
    "irefs (itable s') = (irefs (itable s))((idev (itable s i), inum (itable s i)) := irefs (itable s) (idev (itable s i), inum (itable s i)) + x)"
proof -
  note D = fs_restD [OF R] and A = iref_add_ok [OF D(4) i]
  show sd: "same_disk s s'" by (simp add: same_disk_def s' view_def woke_def)
  show "irefs (itable s') = (irefs (itable s))((idev (itable s i), inum (itable s i)) := irefs (itable s) (idev (itable s i), inum (itable s i)) + x)"
    using A(2) by (simp add: s')
  have rd: "reading s' p Map.empty (Suc k)"
    using reading_crit [OF D(1)] reading_upd_inode [of i "\<lambda>e. e\<lparr>iref := iref e + x\<rparr>" "s\<lparr>mycpu := crit (mycpu s)\<rparr>" p Map.empty "Suc k"]
    by (simp add: s' upd_inode_def iref_add_def)
  have v: "dinode_of (iref_add x i (itable s) i) = dinode_of (itable s i)" by (simp add: iref_add_def dinode_of_def)
  show "fs_rest s' p k L"
  proof (rule fs_rest_step [OF R rd sd, of i])
    show "itab_ok (itable s')" using A(1) by (simp add: s')
    show "ilk (itable s' i) = (if i \<in> L then held_by_proc (pid (ptable s p)) else initsleeplock)" using D(7) [OF i(1)] by (simp add: s' iref_add_def)
    show "ivalid (itable s' i) \<Longrightarrow> dinode_of (itable s' i) = disk_inode s (inum (itable s' i))"
      using D(8) [OF i(1,2)] v by (simp add: s') (simp add: iref_add_def)
  qed (use D(3) in \<open>simp_all add: s' iref_add_def\<close>)
qed

definition lock_entry :: "sleeplock \<Rightarrow> nat \<Rightarrow> 'a fsys_scheme \<Rightarrow> 'a fsys_scheme" where
  "lock_entry l i s = upd_inode i (ilk_update (\<lambda>_. l)) s"

lemma itab_ok_cong:
  assumes "itab_ok t" and "\<And>i. iref (t' i) = iref (t i) \<and> idev (t' i) = idev (t i) \<and> inum (t' i) = inum (t i)"
  shows "itab_ok t'" "irefs t' = irefs t"
proof -
  show "itab_ok t'" using assms(1) unfolding itab_ok_def by (simp add: assms(2))
  have "itab_find d n t' = itab_find d n t" for d n by (simp add: itab_find_def assms(2))
  then show "irefs t' = irefs t" by (simp add: irefs_def fun_eq_iff assms(2) split: option.split)
qed

lemma ilock_rest:
  assumes D: "virtio_device D" and R: "fs_rest s p k L" and i: "i < NINODE" "0 < iref (itable s i)" "i \<notin> L" "idev (itable s i) = ROOTDEV"
    and n: "inum (itable s i) < sb_ninodes (sb s)" "di_type (disk_inode s (inum (itable s i))) \<noteq> 0"
  shows "\<exists>s'. ilock D (Some i) s = Ok s' \<and> fs_rest s' p k (insert i L) \<and> same_disk s s' \<and> irefs (itable s') = irefs (itable s) \<and>
    ivalid (itable s' i) \<and> iref (itable s' i) = iref (itable s i) \<and> idev (itable s' i) = ROOTDEV \<and> inum (itable s' i) = inum (itable s i)"
proof -
  note E = fs_restD [OF R]
  have free: "ilk (itable s i) = initsleeplock" using E(7) [OF i(1)] i(3) by simp
  define s1 where "s1 = lock_entry (held_by_proc (pid (ptable s p))) i (s\<lparr>mycpu := crit (mycpu s)\<rparr>)"
  have acq: "acquiresleep (inodelock i) s = Ok s1"
    using inolk.acquiresleep_free [OF E(6), of i] free by (simp add: s1_def lock_entry_def held_by_proc_def)
  have T1: "reading s1 p Map.empty (Suc k)" using reading_crit [OF E(1)] by (simp add: s1_def lock_entry_def)
  have d1: "same_disk s s1" by (simp add: same_disk_def s1_def lock_entry_def woke_def)
  have it1: "itable s1 = (itable s)(i := (itable s i)\<lparr>ilk := held_by_proc (pid (ptable s p))\<rparr>)" "itable_lock s1 = initlock"
    using E(3) by (simp_all add: s1_def lock_entry_def)
  have fin: ?thesis
    if il: "ilock D (Some i) s = Ok s'" and rd: "reading s' p Map.empty (Suc k)" and d: "same_disk s s'" and lk: "itable_lock s' = initlock"
      and it: "itable s' = (itable s)(i := e)" and e: "iref e = iref (itable s i)" "idev e = idev (itable s i)" "inum e = inum (itable s i)"
        "ivalid e" "dinode_of e = disk_inode s (inum e)" "ilk e = held_by_proc (pid (ptable s p))" for s' e
  proof -
    have ent: "iref (itable s' j) = iref (itable s j) \<and> idev (itable s' j) = idev (itable s j) \<and> inum (itable s' j) = inum (itable s j)" for j
      using e by (simp add: it)
    note C = itab_ok_cong [OF E(4) ent]
    have "fs_rest s' p k (insert i L)" by (rule fs_rest_step [OF R rd d lk C(1), of i]) (use e in \<open>simp_all add: it\<close>)
    moreover have "itable s' i = e" by (simp add: it)
    ultimately show ?thesis using il d C(2) e i(4) by (intro exI [of _ s']) simp
  qed
  show ?thesis
  proof (cases "ivalid (itable s i)")
    case True
    then have "ilock D (Some i) s = Ok s1" using i(2) acq it1(1) by (simp add: ilock_def)
    from fin [OF this T1 d1 it1(2,1)] show ?thesis using True E(8) [OF i(1,2)] by (simp add: dinode_of_def)
  next
    case False
    define b where "b = IBLOCK (inum (itable s i)) (sb s)"
    have b: "unat b < 2 ^ 31" using E(2) n(1) by (simp add: fs_ok_def b_def)
    obtain bp s2 where 2: "bread D ROOTDEV b s1 = Ok (bp, s2)" "bdata (bufs s2 bp) = view s1 b" "lstep s1 s2" "reading s2 p [bp \<mapsto> b] k"
        "view s2 = view s1" "klog s2 = klog s1"
      using reading_bread [OF D T1 _ b] by auto
    define di where "di = disk_inode s (inum (itable s i))"
    have di: "dinode_at (view s1 b) (unat (inum (itable s i)) mod IPB) = di"
      using d1 by (simp add: di_def disk_inode_def b_def same_disk_def)
    define f :: "inode \<Rightarrow> inode" where "f = (\<lambda>e. e\<lparr>itype := di_type di, imajor := di_major di, iminor := di_minor di, inlink := di_nlink di, isize := di_size di, iaddrs := di_addrs di\<rparr>)"
    note F2 = lstep_fs [OF 2(3)]
    obtain s3 where 3: "brelse bp (upd_inode i f s2) = Ok s3" "lstep (upd_inode i f s2) s3" "reading s3 p Map.empty (Suc k)" "view s3 = view s2" "klog s3 = klog s2"
      using reading_brelse [of "upd_inode i f s2" p "[bp \<mapsto> b]" k bp b Map.empty] 2(4) by (auto simp: fun_eq_iff)
    note F3 = lstep_fs [OF 3(2)]
    define s4 where "s4 = upd_inode i (ivalid_update (\<lambda>_. True)) s3"
    define e where "e = (f ((itable s i)\<lparr>ilk := held_by_proc (pid (ptable s p))\<rparr>))\<lparr>ivalid := True\<rparr>"
    have it4: "itable s4 = (itable s)(i := e)" "itable_lock s4 = initlock" by (simp_all add: s4_def F3 F2 it1 e_def)
    have "woke s1 s4" using woke_trans [of s1 s2 s3] 2(3) 3(2) by (simp add: s4_def woke_def lstep_def vst_def) 
    then have d4: "same_disk s s4"
      using d1 2(5,6) 3(4,5) woke_trans [of s s1 s4] by (simp add: same_disk_def s4_def F2 F3)
    have sb1: "sb s1 = sb s" using d1 by (simp add: same_disk_def)
    have ty: "itype (f x) = di_type di" "di_type di \<noteq> 0" for x using n(2) by (simp_all add: f_def di_def)
    have "ilock D (Some i) s = Ok s4"
      using False i(2,4) acq 2(1,2) 3(1) ty
      by (simp add: ilock_def it1(1) F2 F3 di sb1 Let_def del: rbind_eq_Ok flip: f_def b_def s4_def)
    moreover have "reading s4 p Map.empty (Suc k)" using 3(3) by (simp add: s4_def)
    ultimately show ?thesis using fin [OF _ _ d4 it4(2,1)] by (simp add: e_def f_def dinode_of_def di_def)
  qed
qed

lemma iunlock_rest:
  assumes R: "fs_rest s p k L" and i: "i < NINODE" "0 < iref (itable s i)" "i \<in> L"
  shows "\<exists>s'. iunlock (Some i) s = Ok s' \<and> fs_rest s' p k (L - {i}) \<and> same_disk s s' \<and> (\<forall>j. (itable s' j)\<lparr>ilk := initsleeplock\<rparr> = (itable s j)\<lparr>ilk := initsleeplock\<rparr>)"
proof -
  note E = fs_restD [OF R]
  have h: "ilk (itable s i) = held_by_proc (pid (ptable s p))" using E(7) [OF i(1)] i(3) by simp
  define s1 where "s1 = s\<lparr>mycpu := crit (mycpu s)\<rparr>"
  have hold: "holdingsleep (inodelock i) s = Ok (True, s1)"
    using inolk.holdingsleep_eq [OF E(6), of i] h by (simp add: s1_def held_by_proc_def)
  have run1: "running s1 p" using running_woke(1) [OF E(6) woke_crit] by (simp add: s1_def)
  define t where "t = wake_from (Some (Chan ''inode.lock'' i)) (Some p) 0 (ptable s)"
  define s2 where "s2 = lock_entry initsleeplock i (s1\<lparr>mycpu := crit (mycpu s1), ptable := t\<rparr>)"
  have rel: "releasesleep (inodelock i) s1 = Ok s2"
    using inolk.releasesleep_held [OF run1, of i] h by (simp add: s1_def s2_def t_def lock_entry_def held_by_proc_def)
  have it: "itable s2 = (itable s)(i := (itable s i)\<lparr>ilk := initsleeplock\<rparr>)" by (simp add: s2_def s1_def lock_entry_def)
  have "\<forall>q. t q = ptable s q \<or> state (ptable s q) = SLEEPING \<and> t q = (ptable s q)\<lparr>state := RUNNABLE\<rparr>" by (simp add: t_def wake_from_def woken_def)
  then have w: "woke s s2" by (simp add: s2_def lock_entry_def woke_def s1_def)
  have d: "same_disk s s2" using w by (simp add: same_disk_def s2_def s1_def lock_entry_def)
  have rd: "reading s2 p Map.empty (Suc k)"
  proof -
    have "log_inv s2 p Map.empty"
      by (rule log_inv_frame [OF readingD(1) [OF E(1)] w]) (use log_invD(1,2) [OF readingD(1) [OF E(1)]] in \<open>simp_all add: s2_def s1_def lock_entry_def, simp_all add: upd_inode_def\<close>)
    then show ?thesis using E(1) by (simp add: reading_def clean_def s2_def s1_def lock_entry_def)
  qed
  have ent: "iref (itable s2 j) = iref (itable s j) \<and> idev (itable s2 j) = idev (itable s j) \<and> inum (itable s2 j) = inum (itable s j)" for j by (simp add: it)
  have "fs_rest s2 p k (L - {i})"
    by (rule fs_rest_step [OF R rd d _ itab_ok_cong(1) [OF E(4) ent], of i])
      (use E(3,8) i in \<open>simp_all add: it dinode_of_def\<close>, simp add: s2_def s1_def lock_entry_def)
  moreover have "iunlock (Some i) s = Ok s2" using hold rel i(2) by (simp add: iunlock_def s1_def)
  ultimately show ?thesis using d by (intro exI [of _ s2]) (simp add: it)
qed

text \<open>A reference that is not the last one to an unlinked inode.\<close>

lemma iput_rest:
  assumes R: "fs_rest s p k L" and i: "i < NINODE" "0 < iref (itable s i)" and n: "di_nlink (disk_inode s (inum (itable s i))) \<noteq> 0"
  shows "\<exists>s'. iput D i s = Ok s' \<and> fs_rest s' p k L \<and> same_disk s s' \<and> itable s' = iref_add (-1) i (itable s) \<and>
    irefs (itable s') = (irefs (itable s))((idev (itable s i), inum (itable s i)) := irefs (itable s) (idev (itable s i), inum (itable s i)) - 1)"
proof -
  note E = fs_restD [OF R]
  have "\<not> (iref (itable s i) = 1 \<and> ivalid (itable s i) \<and> inlink (itable s i) = 0)"
  proof
    assume a: "iref (itable s i) = 1 \<and> ivalid (itable s i) \<and> inlink (itable s i) = 0"
    then have "di_nlink (dinode_of (itable s i)) \<noteq> 0" using n E(8) [OF i] by simp
    then show False using a by (simp add: dinode_of_def)
  qed
  note P = iput_eq [OF E(6,3) this, of D]
  show ?thesis using iref_rest [OF R i, of "-1", OF _ refl] P i(2) by (intro exI conjI) (rule P, simp_all)
qed

text \<open>The table has a free entry as long as fewer inodes are in use than it has entries.\<close>

definition inodes_in_use :: "(uint32 \<times> uint32 \<Rightarrow> int) \<Rightarrow> nat" where
  "inodes_in_use r = card {k. 0 < r k}"

lemma itab_room:
  assumes ok: "itab_ok t"
  shows "finite {k. 0 < irefs t k}" "inodes_in_use (irefs t) < NINODE \<Longrightarrow> itab_free t \<noteq> None"
proof -
  define g where "g = (\<lambda>i. (idev (t i), inum (t i)))"
  have "k \<in> g ` {..<NINODE}" if "0 < irefs t k" for k
    using irefs_eq(2) [OF ok, of k] that by (force simp: g_def)
  then have "{k. 0 < irefs t k} \<subseteq> g ` {..<NINODE}" by blast
  then show fin: "finite {k. 0 < irefs t k}" by (rule finite_subset) simp
  show "itab_free t \<noteq> None" if lt: "inodes_in_use (irefs t) < NINODE"
  proof
    assume "itab_free t = None"
    then have pos: "0 < iref (t i)" if "i < NINODE" for i
      using that itab_okD(1) [OF ok that] by (force simp: itab_free_def find_None_iff)
    then have "inj_on g {..<NINODE}" using itab_okD(2) [OF ok] by (auto simp: inj_on_def g_def)
    moreover have "g ` {..<NINODE} \<subseteq> {k. 0 < irefs t k}" using pos irefs_eq(1) [OF ok] by (auto simp: g_def)
    ultimately have "NINODE \<le> inodes_in_use (irefs t)" unfolding inodes_in_use_def using card_inj_on_le [OF _ _ fin, of g "{..<NINODE}"] by simp
    then show False using lt by simp
  qed
qed

lemma in_use_upd:
  assumes "finite {k. 0 < r k}"
  shows "inodes_in_use (r(k := x)) \<le> inodes_in_use r + 1" "finite {j. 0 < (r(k := x)) j}"
proof -
  have sub: "{j. 0 < (r(k := x)) j} \<subseteq> insert k {j. 0 < r j}" by auto
  then show "finite {j. 0 < (r(k := x)) j}" by (rule finite_subset) (simp add: assms)
  have "card {j. 0 < (r(k := x)) j} \<le> card (insert k {j. 0 < r j})" by (rule card_mono [OF _ sub]) (simp add: assms)
  also have "\<dots> \<le> card {j. 0 < r j} + 1" by (simp add: card_insert_if assms)
  finally show "inodes_in_use (r(k := x)) \<le> inodes_in_use r + 1" unfolding inodes_in_use_def .
qed

section \<open>The tree of directories\<close>

definition inode_of :: "uint32 \<Rightarrow> dinode \<Rightarrow> inode" where
  "inode_of i di = \<lparr>idev = ROOTDEV, inum = i, iref = 1, ilk = initsleeplock, ivalid = True, itype = di_type di, imajor = di_major di,
     iminor = di_minor di, inlink = di_nlink di, isize = di_size di, iaddrs = di_addrs di\<rparr>"

text \<open>The inode on disk is a directory with these entries: it would be one if it were loaded.\<close>

definition dir_at :: "'a fsys_scheme \<Rightarrow> uint32 \<Rightarrow> dirent list \<Rightarrow> bool" where
  "dir_at s i des \<longleftrightarrow> (let s0 = s\<lparr>itable := \<lambda>_. inode_of i (disk_inode s i)\<rparr> in
     inode_ok s0 0 \<and> is_dir s0 0 des \<and> mapped s0 0 0 (16 * length des))"

definition alive :: "'a fsys_scheme \<Rightarrow> uint32 \<Rightarrow> bool" where
  "alive s i \<longleftrightarrow> i < sb_ninodes (sb s) \<and> di_type (disk_inode s i) \<noteq> 0 \<and> di_nlink (disk_inode s i) \<noteq> 0"

definition fs_tree :: "'a fsys_scheme \<Rightarrow> (uint32 \<rightharpoonup> dirent list) \<Rightarrow> bool" where
  "fs_tree s dirs \<longleftrightarrow>
     (\<forall>i des. dirs i = Some des \<longrightarrow> dir_at s i des \<and> (\<forall>de \<in> set des. de_inum de \<noteq> 0 \<longrightarrow> alive s (ucast (de_inum de)))) \<and>
     (\<forall>i. alive s i \<longrightarrow> (di_type (disk_inode s i) = T_DIR \<longleftrightarrow> dirs i \<noteq> None))"

fun resolve :: "bool \<Rightarrow> (uint32 \<rightharpoonup> dirent list) \<Rightarrow> uint32 \<Rightarrow> uchar list list \<Rightarrow> uint32 option" where
  "resolve par dirs i [] = (if par then None else Some i)"
| "resolve par dirs i (e # es) = (case dirs i of None \<Rightarrow> None | Some des \<Rightarrow>
     if par \<and> es = [] then Some i
     else case first_dent (dent_matches e) des 0 of None \<Rightarrow> None | Some j \<Rightarrow> resolve par dirs (ucast (de_inum (des ! j))) es)"

lemma slot_cong:
  assumes v: "view s' = view s" "sb s' = sb s" "klog s' = klog s"
    and e: "idev (itable s' i) = idev (itable s j)" "inum (itable s' i) = inum (itable s j)" "dinode_of (itable s' i) = dinode_of (itable s j)"
  shows "inode_ok s' i = inode_ok s j" "is_dir s' i des = is_dir s j des" "mapped s' i a n = mapped s j a n"
proof -
  have d: "iaddrs (itable s' i) = iaddrs (itable s j)" "itype (itable s' i) = itype (itable s j)" "isize (itable s' i) = isize (itable s j)"
    using e(3) by (simp_all add: dinode_of_def)
  have ind: "iind s' i = iind s j" by (simp add: iind_def d)
  have fa: "faddr s' i = faddr s j" by (simp add: faddr_def fun_eq_iff ind d v)
  have fb: "fblk s' i = fblk s j" by (simp add: fblk_def fun_eq_iff fa v)
  have db: "data_block s' = data_block s" by (simp add: data_block_def fun_eq_iff used_view [OF v(1,2)] v)
  show "inode_ok s' i = inode_ok s j" by (simp add: inode_ok_def fblocks_def fa ind db d e v)
  have "fdata s' i = fdata s j" by (simp add: fdata_def fbytes_def fb d)
  then show "is_dir s' i des = is_dir s j des" by (simp add: is_dir_def d)
  show "mapped s' i a n = mapped s j a n" by (simp add: mapped_def fa)
qed

lemma dir_at_slot:
  assumes "dir_at s n des" and d: "same_disk s s'" and "idev (itable s' i) = ROOTDEV" "inum (itable s' i) = n" "dinode_of (itable s' i) = disk_inode s n"
  shows "inode_ok s' i \<and> is_dir s' i des \<and> mapped s' i 0 (16 * length des)"
proof -
  define s0 where "s0 = s\<lparr>itable := \<lambda>_. inode_of n (disk_inode s n)\<rparr>"
  have "view s' = view s0" "sb s' = sb s0" "klog s' = klog s0" using d by (simp_all add: same_disk_def s0_def view_def)
  note C = slot_cong [OF this, of i 0]
  have e: "idev (itable s' i) = idev (itable s0 0)" "inum (itable s' i) = inum (itable s0 0)" "dinode_of (itable s' i) = dinode_of (itable s0 0)"
    using assms(3-5) by (simp_all add: s0_def inode_of_def dinode_of_def)
  show ?thesis using assms(1) C [OF e] unfolding dir_at_def Let_def s0_def [symmetric] by simp
qed

lemma fs_tree_same: "same_disk s s' \<Longrightarrow> fs_tree s dirs \<Longrightarrow> fs_tree s' dirs"
proof -
  assume d: "same_disk s s'" and t: "fs_tree s dirs"
  have al: "alive s' = alive s" using d same_disk_facts(1) [OF d] by (simp add: alive_def fun_eq_iff same_disk_def)
  have "dir_at s' n des" if "dir_at s n des" for n des
  proof -
    define s0 where "s0 = s'\<lparr>itable := \<lambda>_. inode_of n (disk_inode s' n)\<rparr>"
    have "same_disk s s0" using d by (simp add: same_disk_def s0_def view_def woke_def)
    from dir_at_slot [OF that this, of 0] show ?thesis
      unfolding dir_at_def Let_def s0_def [symmetric] using same_disk_facts(1) [OF d] by (simp add: s0_def inode_of_def dinode_of_def)
  qed
  then show "fs_tree s' dirs" using t by (auto simp: fs_tree_def al same_disk_facts(1) [OF d])
qed

section \<open>Walking\<close>

lemma iunlockput_rest:
  assumes R: "fs_rest s p k L" and i: "i < NINODE" "0 < iref (itable s i)" "i \<in> L" and n: "di_nlink (disk_inode s (inum (itable s i))) \<noteq> 0"
  shows "\<exists>s'. iunlockput D i s = Ok s' \<and> fs_rest s' p k (L - {i}) \<and> same_disk s s' \<and>
    irefs (itable s') = (irefs (itable s))((idev (itable s i), inum (itable s i)) := irefs (itable s) (idev (itable s i), inum (itable s i)) - 1) \<and>
    (\<forall>j. idev (itable s' j) = idev (itable s j) \<and> inum (itable s' j) = inum (itable s j) \<and> iref (itable s' j) = iref (itable s j) - (if j = i then 1 else 0))"
proof -
  obtain s1 where 1: "iunlock (Some i) s = Ok s1" "fs_rest s1 p k (L - {i})" "same_disk s s1" "\<forall>j. (itable s1 j)\<lparr>ilk := initsleeplock\<rparr> = (itable s j)\<lparr>ilk := initsleeplock\<rparr>"
    using iunlock_rest [OF R i] by blast
  have e: "iref (itable s1 j) = iref (itable s j) \<and> idev (itable s1 j) = idev (itable s j) \<and> inum (itable s1 j) = inum (itable s j)" for j
    using arg_cong [OF 1(4) [rule_format, of j], of iref] arg_cong [OF 1(4) [rule_format, of j], of idev] arg_cong [OF 1(4) [rule_format, of j], of inum] by simp
  have i1: "0 < iref (itable s1 i)" "di_nlink (disk_inode s1 (inum (itable s1 i))) \<noteq> 0" using e [of i] i(2) n same_disk_facts(1) [OF 1(3)] by simp_all
  obtain s2 where 2: "iput D i s1 = Ok s2" "fs_rest s2 p k (L - {i})" "same_disk s1 s2" "itable s2 = iref_add (-1) i (itable s1)"
      "irefs (itable s2) = (irefs (itable s1))((idev (itable s1 i), inum (itable s1 i)) := irefs (itable s1) (idev (itable s1 i), inum (itable s1 i)) - 1)"
    using iput_rest [OF 1(2) i(1) i1] by blast
  have "irefs (itable s1) = irefs (itable s)" by (rule itab_ok_cong(2) [OF fs_restD(4) [OF R] e])
  moreover have "iunlockput D i s = Ok s2" using 1(1) 2(1) by (simp add: iunlockput_def)
  moreover have "idev (itable s2 j) = idev (itable s j) \<and> inum (itable s2 j) = inum (itable s j) \<and> iref (itable s2 j) = iref (itable s j) - (if j = i then 1 else 0)" for j
    using e [of j] by (cases "j = i") (simp_all add: 2(4) iref_add_def)
  ultimately show ?thesis using 2(2,5) same_disk_trans [OF 1(3) 2(3)] e [of i] by (intro exI [of _ s2]) simp
qed

lemma fs_rest_read:
  assumes R: "fs_rest s p k L" and "read_same s s'" and "mem s' = mem s" and rd: "reading s' p Map.empty (Suc k)"
  shows "fs_rest s' p k L" "same_disk s s'" "itable s' = itable s"
proof -
  show it: "itable s' = itable s" using assms(2) by (simp add: read_same_def)
  show d: "same_disk s s'" using assms(2,3) by (simp add: read_same_def same_disk_def)
  note E = fs_restD [OF R]
  have "ilk (itable s' i) = (if i \<in> L then held_by_proc (pid (ptable s p)) else initsleeplock)" if "i < NINODE" for i using E(7) [OF that] by (simp add: it)
  then show "fs_rest s' p k L"
    using fs_rest_step [OF R rd d _ _ _ _ _, of 0 L] E(3,4,8) assms(2) by (simp add: it read_same_def NINODE_def)
qed

lemma iget_entry_keep:
  assumes "iget_entry d n t = Some (q, e)" and "0 < iref (t j)"
  shows "idev ((t(q := e)) j) = idev (t j)" "inum ((t(q := e)) j) = inum (t j)" "0 < iref ((t(q := e)) j)" "iref (t j) \<le> iref ((t(q := e)) j)" "q = j \<Longrightarrow> iref e = iref (t j) + 1"
proof -
  have "q = j \<Longrightarrow> e = (t j)\<lparr>iref := iref (t j) + 1\<rparr>"
  proof (cases "itab_find d n t")
    case None
    assume q: "q = j"
    have "iref (t q) = 0" using assms(1) None find_SomeD [of "\<lambda>i. iref (t i) = 0" "[0..<NINODE]" q] by (auto simp: iget_entry_def itab_free_def)
    then show ?thesis using q assms(2) by simp
  next
    case (Some i)
    then show "q = j \<Longrightarrow> ?thesis" using assms(1) by (auto simp: iget_entry_def)
  qed
  then show "idev ((t(q := e)) j) = idev (t j)" "inum ((t(q := e)) j) = inum (t j)" "0 < iref ((t(q := e)) j)" "iref (t j) \<le> iref ((t(q := e)) j)"
      "q = j \<Longrightarrow> iref e = iref (t j) + 1"
    using assms(2) by auto
qed

text \<open>The table when one more reference is out, to inode \<open>n\<close>.\<close>

definition one_more :: "(uint32 \<times> uint32 \<Rightarrow> int) \<Rightarrow> uint32 \<Rightarrow> uint32 \<times> uint32 \<Rightarrow> int" where
  "one_more r n = r((ROOTDEV, n) := r (ROOTDEV, n) + 1)"

definition holds_inode :: "'a fsys_scheme \<Rightarrow> nat \<Rightarrow> uint32 \<Rightarrow> bool" where
  "holds_inode s i n \<longleftrightarrow> i < NINODE \<and> 0 < iref (itable s i) \<and> idev (itable s i) = ROOTDEV \<and> inum (itable s i) = n"

lemma drop_ref:
  assumes D: "virtio_device D" and R: "fs_rest s p k {ip}" and h: "holds_inode s ip n" and n: "di_nlink (disk_inode s n) \<noteq> 0"
    and r: "irefs (itable s) = r((ROOTDEV, n) := x + 1)"
  shows "\<exists>s'. iunlockput D ip s = Ok s' \<and> fs_rest s' p k {} \<and> same_disk s s' \<and> irefs (itable s') = r((ROOTDEV, n) := x) \<and>
    (\<forall>j. idev (itable s' j) = idev (itable s j) \<and> inum (itable s' j) = inum (itable s j) \<and> iref (itable s' j) = iref (itable s j) - (if j = ip then 1 else 0))"
  using iunlockput_rest [OF R, of ip D] h n r by (simp add: holds_inode_def)

text \<open>One step down: the child is found and held, the directory is given back.\<close>

lemma namex_descend:
  assumes D: "virtio_device D" and R: "fs_rest s p k {ip}" and h: "holds_inode s ip n" and nl: "di_nlink (disk_inode s n) \<noteq> 0"
    and d: "dir_ok s p k ip des" and r: "irefs (itable s) = one_more r n" and fin: "finite {k. 0 < r k}" "inodes_in_use r + 2 \<le> NINODE"
  shows "case first_dent (dent_matches name) des 0 of
      None \<Rightarrow> \<exists>s' s''. dirlookup D ip name s = Ok (None, s') \<and> iunlockput D ip s' = Ok s'' \<and> fs_rest s'' p k {} \<and> same_disk s s'' \<and> irefs (itable s'') = r
    | Some j \<Rightarrow> \<exists>q off s' s''. dirlookup D ip name s = Ok (Some (q, off), s') \<and> iunlockput D ip s' = Ok s'' \<and> fs_rest s'' p k {} \<and> same_disk s s'' \<and>
        holds_inode s'' q (ucast (de_inum (des ! j))) \<and> irefs (itable s'') = one_more r (ucast (de_inum (des ! j)))"
proof -
  note E = fs_restD [OF R]
  obtain s1 where 1: "dir_ok s1 p k ip des" "read_same s s1" "mem s1 = mem s"
      "dirlookup D ip name s = (case first_dent (dent_matches name) des 0 of None \<Rightarrow> Ok (None, s1) | Some j \<Rightarrow>
        (case iget_entry ROOTDEV (ucast (de_inum (des ! j))) (itable s) of None \<Rightarrow> Panic ''iget: no inodes''
         | Some (ip, e) \<Rightarrow> Ok (Some (ip, word_of_nat (16 * j)), s1\<lparr>mycpu := crit (mycpu s1), itable := (itable s)(ip := e)\<rparr>)))"
    using dirlookup_spec [OF D d E(3), of name] by blast
  have R1: "fs_rest s1 p k {ip}" "same_disk s s1" "itable s1 = itable s" using fs_rest_read [OF R 1(2,3)] 1(1) by (simp_all add: dir_ok_def)
  show ?thesis
  proof (cases "first_dent (dent_matches name) des 0")
    case None
    have h1: "holds_inode s1 ip n" "di_nlink (disk_inode s1 n) \<noteq> 0" "irefs (itable s1) = r((ROOTDEV, n) := r (ROOTDEV, n) + 1)"
      using h nl r R1(3) same_disk_facts(1) [OF R1(2)] by (simp_all add: holds_inode_def one_more_def)
    obtain s2 where "iunlockput D ip s1 = Ok s2" "fs_rest s2 p k {}" "same_disk s1 s2" "irefs (itable s2) = r((ROOTDEV, n) := r (ROOTDEV, n))"
      using drop_ref [OF D R1(1) h1] by blast
    then show ?thesis using 1(4) None same_disk_trans [OF R1(2)] by auto
  next
    case (Some j)
    define m :: uint32 where "m = ucast (de_inum (des ! j))"
    have "inodes_in_use (irefs (itable s)) < NINODE"
      using in_use_upd(1) [OF fin(1), of "(ROOTDEV, n)" "r (ROOTDEV, n) + 1"] fin(2) unfolding r one_more_def by linarith
    then obtain q e where q: "iget_entry ROOTDEV m (itable s) = Some (q, e)" using itab_room(2) [OF E(4)] iget_entry_some [of ROOTDEV m "itable s"] by blast
    define s2 where "s2 = s1\<lparr>mycpu := crit (mycpu s1), itable := (itable s1)(q := e)\<rparr>"
    note G = iget_rest [OF R1(1) q [folded R1(3)] s2_def]
    have it2: "itable s2 = (itable s)(q := e)" by (simp add: s2_def R1(3))
    have hi: "0 < iref (itable s ip)" using h by (simp add: holds_inode_def)
    note K = iget_entry_keep [OF q hi, folded it2]
    have d2: "same_disk s s2" by (rule same_disk_trans [OF R1(2) G(2)])
    have h2: "holds_inode s2 ip n" "di_nlink (disk_inode s2 n) \<noteq> 0" using h K nl same_disk_facts(1) [OF d2] by (simp_all add: holds_inode_def)
    have r2: "irefs (itable s2) = (one_more r m)((ROOTDEV, n) := one_more r m (ROOTDEV, n) + 1)"
      unfolding G(3) R1(3) r by (auto simp: one_more_def fun_eq_iff)
    obtain s3 where 3: "iunlockput D ip s2 = Ok s3" "fs_rest s3 p k {}" "same_disk s2 s3" "irefs (itable s3) = (one_more r m)((ROOTDEV, n) := one_more r m (ROOTDEV, n))"
        "\<forall>j. idev (itable s3 j) = idev (itable s2 j) \<and> inum (itable s3 j) = inum (itable s2 j) \<and> iref (itable s3 j) = iref (itable s2 j) - (if j = ip then 1 else 0)"
      using drop_ref [OF D G(1) h2 r2] by blast
    have "0 < iref (itable s3 q)" using 3(5) G(7) K(5) hi by (cases "q = ip") (simp_all add: it2)
    then have "holds_inode s3 q m" using 3(5) G(4-6) by (simp add: holds_inode_def)
    moreover have "dirlookup D ip name s = Ok (Some (q, word_of_nat (16 * j)), s2)" using 1(4) Some q by (simp add: m_def s2_def R1(3))
    ultimately show ?thesis using Some 3(1,2,4) same_disk_trans [OF d2 3(3)] by (simp add: m_def [symmetric])
  qed
qed

text \<open>What a walk returns, and with which references.\<close>

fun walked :: "bool \<Rightarrow> uchar list list \<Rightarrow> (uint32 \<times> uint32 \<Rightarrow> int) \<Rightarrow> uint32 option \<Rightarrow> nat option \<Rightarrow> uchar list \<Rightarrow> 'a fsys_scheme \<Rightarrow> bool" where
  "walked par es r None q nm s \<longleftrightarrow> q = None \<and> irefs (itable s) = r"
| "walked par es r (Some n) q nm s \<longleftrightarrow> (\<exists>ip. q = Some ip \<and> holds_inode s ip n \<and> irefs (itable s) = one_more r n \<and>
     (par \<longrightarrow> dent_matches nm = dent_matches (last es)))"

lemma walked_Cons: "es \<noteq> [] \<Longrightarrow> walked par (e # es) r x q nm s = walked par es r x q nm s"
  by (cases x) simp_all

lemma ilock_dir:
  assumes D: "virtio_device D" and R: "fs_rest s p k {}" and t: "fs_tree s dirs" and h: "holds_inode s ip n" and al: "alive s n"
    and r: "irefs (itable s) = one_more r n"
  shows "\<exists>s'. ilock D (Some ip) s = Ok s' \<and> fs_rest s' p k {ip} \<and> same_disk s s' \<and> irefs (itable s') = one_more r n \<and> holds_inode s' ip n \<and>
    (itype (itable s' ip) = T_DIR \<longleftrightarrow> dirs n \<noteq> None) \<and> (\<forall>des. dirs n = Some des \<longrightarrow> dir_ok s' p k ip des)"
proof -
  have H: "ip < NINODE" "0 < iref (itable s ip)" "idev (itable s ip) = ROOTDEV" "inum (itable s ip) = n" using h by (simp_all add: holds_inode_def)
  have n: "inum (itable s ip) < sb_ninodes (sb s)" "di_type (disk_inode s (inum (itable s ip))) \<noteq> 0" using al H(4) by (simp_all add: alive_def)
  obtain s' where S: "ilock D (Some ip) s = Ok s'" "fs_rest s' p k {ip}" "same_disk s s'" "irefs (itable s') = irefs (itable s)" "ivalid (itable s' ip)"
      "iref (itable s' ip) = iref (itable s ip)" "idev (itable s' ip) = ROOTDEV" "inum (itable s' ip) = inum (itable s ip)"
    using ilock_rest [OF D R H(1,2) _ H(3) n] by auto
  have di: "dinode_of (itable s' ip) = disk_inode s n"
    using fs_restD(8) [OF S(2) H(1)] S(5,6,8) H same_disk_facts(1) [OF S(3)] by simp
  have "itype (itable s' ip) = di_type (disk_inode s n)" using di [symmetric] by (simp add: dinode_of_def)
  then have ty: "itype (itable s' ip) = T_DIR \<longleftrightarrow> dirs n \<noteq> None" using t al by (simp add: fs_tree_def)
  have "dir_ok s' p k ip des" if "dirs n = Some des" for des
    using dir_at_slot [OF _ S(3,7), of n des] t that S(8) H(4) di fs_restD(1,2) [OF S(2)] by (simp add: fs_tree_def dir_ok_def)
  moreover have "holds_inode s' ip n" using S(6-8) H by (simp add: holds_inode_def)
  ultimately show ?thesis using S(1-4) r ty by (intro exI [of _ s'] conjI) simp_all
qed

lemma namex_loop_spec:
  assumes D: "virtio_device D" and fin: "finite {k. 0 < r k}" "inodes_in_use r + 2 \<le> NINODE"
  shows "fs_rest s p k {} \<Longrightarrow> fs_tree s dirs \<Longrightarrow> holds_inode s ip n \<Longrightarrow> alive s n \<Longrightarrow> irefs (itable s) = one_more r n \<Longrightarrow>
    \<exists>q nm s'. namex_loop D path par name ip s = Ok (q, nm, s') \<and> fs_rest s' p k {} \<and> same_disk s s' \<and>
      walked par (elems path) r (resolve par dirs n (elems path)) q nm s'"
proof (induction "length path" arbitrary: path name ip n s rule: less_induct)
  case less
  note R = less.prems(1) and t = less.prems(2) and h = less.prems(3) and al = less.prems(4) and r = less.prems(5)
  have nl: "di_nlink (disk_inode s n) \<noteq> 0" using al by (simp add: alive_def)
  show ?case
  proof (cases "skipelem path name")
    case None
    then have es: "elems path = []" by (rule skipelem_elems(1))
    show ?thesis
    proof (cases par)
      case True
      have H: "ip < NINODE" "0 < iref (itable s ip)" "di_nlink (disk_inode s (inum (itable s ip))) \<noteq> 0" using h nl by (simp_all add: holds_inode_def)
      obtain s' where "iput D ip s = Ok s'" "fs_rest s' p k {}" "same_disk s s'" "irefs (itable s') = (one_more r n)((ROOTDEV, n) := one_more r n (ROOTDEV, n) - 1)"
        using iput_rest [OF R H, of D] h r by (auto simp: holds_inode_def)
      then show ?thesis using None True es by (simp add: namex_loop.simps [of D path] one_more_def)
    next
      case False
      then show ?thesis using None es R h r by (simp add: namex_loop.simps [of D path])
    qed
  next
    case (Some pn)
    obtain path' name' where pn: "pn = (path', name')" by (cases pn)
    obtain e where e: "elems path = e # elems path'" "path' = [] \<longleftrightarrow> elems path' = []"
        "name' = (if DIRSIZ \<le> length e then take DIRSIZ e else e @ [0] @ drop (length e + 1) name)"
      using skipelem_elems(2) [of path name path' name'] Some pn by auto
    note m = skipelem_name(2) [OF e(3)]
    obtain s1 where 1: "ilock D (Some ip) s = Ok s1" "fs_rest s1 p k {ip}" "same_disk s s1" "irefs (itable s1) = one_more r n" "holds_inode s1 ip n"
        "itype (itable s1 ip) = T_DIR \<longleftrightarrow> dirs n \<noteq> None" "\<forall>des. dirs n = Some des \<longrightarrow> dir_ok s1 p k ip des"
      using ilock_dir [OF D R t h al r] by blast
    have nl1: "di_nlink (disk_inode s1 n) \<noteq> 0" using nl same_disk_facts(1) [OF 1(3)] by simp
    show ?thesis
    proof (cases "dirs n")
      case no: None
      obtain s2 where 2: "iunlockput D ip s1 = Ok s2" "fs_rest s2 p k {}" "same_disk s1 s2" "irefs (itable s2) = r((ROOTDEV, n) := r (ROOTDEV, n))"
        using drop_ref [OF D 1(2,5) nl1 1(4) [unfolded one_more_def]] by blast
      have "namex_loop D path par name ip s = Ok (None, name', s2)" using Some pn 1(1,6) no 2(1) by (simp add: namex_loop.simps [of D path])
      then show ?thesis using 2 same_disk_trans [OF 1(3) 2(3)] no e(1) by simp
    next
      case (Some des)
      note des = Some
      note dk = 1(7) [rule_format, OF des]
      show ?thesis
      proof (cases "par \<and> elems path' = []")
        case True
        obtain s2 where 2: "iunlock (Some ip) s1 = Ok s2" "fs_rest s2 p k {}" "same_disk s1 s2"
            "\<forall>j. (itable s2 j)\<lparr>ilk := initsleeplock\<rparr> = (itable s1 j)\<lparr>ilk := initsleeplock\<rparr>"
          using iunlock_rest [OF 1(2), of ip] 1(5) by (auto simp: holds_inode_def)
        have en: "iref (itable s2 j) = iref (itable s1 j) \<and> idev (itable s2 j) = idev (itable s1 j) \<and> inum (itable s2 j) = inum (itable s1 j)" for j
          using arg_cong [OF 2(4) [rule_format, of j], of iref] arg_cong [OF 2(4) [rule_format, of j], of idev] arg_cong [OF 2(4) [rule_format, of j], of inum] by simp
        have "holds_inode s2 ip n" using 1(5) en [of ip] by (simp add: holds_inode_def)
        moreover have "irefs (itable s2) = one_more r n" using itab_ok_cong(2) [OF fs_restD(4) [OF 1(2)] en] 1(4) by simp
        moreover have "namex_loop D path par name ip s = Ok (Some ip, name', s2)"
          using \<open>skipelem path name = Some pn\<close> pn 1(1,6) des 2(1) True e(2) by (simp add: namex_loop.simps [of D path])
        ultimately show ?thesis using 2(2) same_disk_trans [OF 1(3) 2(3)] des e(1) True m by (intro exI [of _ "Some ip"] exI [of _ name'] exI [of _ s2]) simp
      next
        case False
        note N = namex_descend [OF D 1(2,5) nl1 dk 1(4) fin, of name', unfolded m]
        have sk: "skipelem path name = Some (path', name')" using \<open>skipelem path name = Some pn\<close> pn by simp
        have np: "(par \<and> path' = []) = False" using False e(2) by simp
        show ?thesis
        proof (cases "first_dent (dent_matches e) des 0")
          case no: None
          obtain s2 s3 where 2: "dirlookup D ip name' s1 = Ok (None, s2)" "iunlockput D ip s2 = Ok s3" "fs_rest s3 p k {}" "same_disk s1 s3" "irefs (itable s3) = r"
            using N by (simp add: no) blast
          have "namex_loop D path par name ip s = Ok (None, name', s3)" using sk 1(1,6) des 2(1,2) by (simp add: namex_loop.simps [of D path] np)
          then show ?thesis using 2(3,5) same_disk_trans [OF 1(3) 2(4)] des no e(1) False by simp
        next
          case (Some j)
          define c :: uint32 where "c = ucast (de_inum (des ! j))"
          obtain q off s2 s3 where 2: "dirlookup D ip name' s1 = Ok (Some (q, off), s2)" "iunlockput D ip s2 = Ok s3" "fs_rest s3 p k {}" "same_disk s1 s3"
              "holds_inode s3 q c" "irefs (itable s3) = one_more r c"
            using N by (simp add: Some c_def [symmetric]) blast
          have d3: "same_disk s s3" by (rule same_disk_trans [OF 1(3) 2(4)])
          have dj: "des ! j \<in> set des" "dent_matches e (des ! j)"
            using Some find_SomeD [of "\<lambda>j. dent_matches e (des ! j)" "[0..<length des]" j] by (auto simp: first_dent_def)
          then have "alive s c" using t des by (auto simp: fs_tree_def c_def dent_matches_def)
          then have al3: "alive s3 c" using d3 same_disk_facts(1) [OF d3] by (simp add: alive_def same_disk_def)
          obtain q' nm s' where I: "namex_loop D path' par name' q s3 = Ok (q', nm, s')" "fs_rest s' p k {}" "same_disk s3 s'"
              "walked par (elems path') r (resolve par dirs c (elems path')) q' nm s'"
            using less.hyps [OF skipelem_shorter [OF sk] 2(3) fs_tree_same [OF d3 t] 2(5) al3 2(6)] by blast
          have "namex_loop D path par name ip s = Ok (q', nm, s')" using sk 1(1,6) des 2(1,2) I(1) by (simp add: namex_loop.simps [of D path] np)
          moreover have "resolve par dirs n (elems path) = resolve par dirs c (elems path')" using e(1) des Some False by (simp add: c_def)
          moreover have "walked par (elems path) r (resolve par dirs c (elems path')) q' nm s'"
          proof (cases "elems path' = []")
            case True
            then show ?thesis using I(4) False by simp
          next
            case ne: False
            then show ?thesis using I(4) by (simp add: e(1) walked_Cons [OF ne])
          qed
          ultimately show ?thesis using I(2) same_disk_trans [OF d3 I(3)] by metis
        qed
      qed
    qed
  qed
qed

text \<open>
  C3: \<^verbatim>\<open>namex\<close> implements path lookup. When the inodes in the table agree with the disk, the directories
  on disk form the map \<open>dirs\<close>, and two entries of the inode table are free, \<^verbatim>\<open>namex\<close> returns. It
  starts at the root for a path that begins with a slash and at the current directory otherwise,
  and walks the names of the path through \<open>dirs\<close>: it returns an entry of the table that holds the
  inode found, with exactly one more reference to that inode than before, or nothing and no
  reference when a name is missing or a file is used as a directory. With \<^verbatim>\<open>nameiparent\<close> it stops
  at the last directory and hands out the last name. No block of the disk changes and every lock
  is free again.
\<close>

theorem namex_resolves_path:
  assumes D: "virtio_device D" and R: "fs_rest s p k {}" and t: "fs_tree s dirs" and room: "inodes_in_use (irefs (itable s)) + 2 \<le> NINODE"
    and start: "if path \<noteq> [] \<and> hd path = slash then n = ROOTINO else \<exists>ip. cwd (ptable s p) = Some ip \<and> holds_inode s ip n" and al: "alive s n"
  shows "\<exists>q nm s'. namex D path par name s = Ok (q, nm, s') \<and> fs_rest s' p k {} \<and> same_disk s s' \<and>
    walked par (elems path) (irefs (itable s)) (resolve par dirs n (elems path)) q nm s'"
proof -
  note E = fs_restD [OF R]
  note fin = itab_room(1) [OF E(4)]
  have loop: ?thesis
    if "namex D path par name s = namex_loop D path par name ip s1" and R1: "fs_rest s1 p k {}" and d: "same_disk s s1" and h: "holds_inode s1 ip n"
      and r: "irefs (itable s1) = one_more (irefs (itable s)) n" for ip s1
  proof -
    have "alive s1 n" using al d same_disk_facts(1) [OF d] by (simp add: alive_def same_disk_def)
    then show ?thesis
      using namex_loop_spec [OF D fin room R1 fs_tree_same [OF d t] h _ r, of path par name] that(1) same_disk_trans [OF d] by metis
  qed
  show ?thesis
  proof (cases "path \<noteq> [] \<and> hd path = slash")
    case True
    then have n: "n = ROOTINO" using start by simp
    have "itab_free (itable s) \<noteq> None" using itab_room(2) [OF E(4)] room by simp
    then obtain i e where e: "iget_entry ROOTDEV n (itable s) = Some (i, e)" using iget_entry_some by blast
    define s1 where "s1 = s\<lparr>mycpu := crit (mycpu s), itable := (itable s)(i := e)\<rparr>"
    note G = iget_rest [OF R e s1_def]
    have "namex D path par name s = namex_loop D path par name i s1" using True iget_eq [OF E(6,3), of ROOTDEV n] e n by (simp add: namex_def s1_def)
    then show ?thesis using G by (intro loop) (simp_all add: holds_inode_def one_more_def)
  next
    case False
    then obtain ip where ip: "cwd (ptable s p) = Some ip" "holds_inode s ip n" using start by (auto split: if_splits)
    define s1 where "s1 = s\<lparr>mycpu := crit (mycpu s)\<rparr>"
    define s2 where "s2 = s1\<lparr>mycpu := crit (mycpu s1), itable := iref_add 1 ip (itable s1)\<rparr>"
    have "read_same s s1" by (simp add: read_same_def s1_def woke_def)
    moreover have "reading s1 p Map.empty (Suc k)" unfolding s1_def by (rule reading_crit [OF E(1)])
    ultimately have R1: "fs_rest s1 p k {}" "same_disk s s1" using fs_rest_read [OF R, of s1] by (simp_all add: s1_def)
    have H: "ip < NINODE" "0 < iref (itable s1 ip)" "0 \<le> iref (itable s1 ip) + 1" "idev (itable s1 ip) = ROOTDEV" "inum (itable s1 ip) = n"
      using ip(2) by (simp_all add: holds_inode_def s1_def)
    note F = iref_rest [OF R1(1) H(1-3) s2_def]
    have "cpu_ok (mycpu s)" "cpu_proc (mycpu s) = Some p" using E(6) by (simp_all add: running_def)
    then have "namex D path par name s = namex_loop D path par name ip s2"
      using False ip(1) idup_eq [OF fs_restD(6,3) [OF R1(1)], of ip] by (auto simp: namex_def current_eq [of _ p] s1_def s2_def)
    then show ?thesis
      by (rule loop [OF _ F(1) same_disk_trans [OF R1(2) F(2)]]) (use H F(3) in \<open>simp_all add: holds_inode_def one_more_def s2_def iref_add_def s1_def\<close>)
  qed
qed

lemma dinode_zeros: "di_type (dinode_at (replicate BSIZE 0) (i mod IPB)) = 0"
proof -
  have "i mod IPB < 16" using mod_less_divisor [of 16 i] by (simp add: IPB_def BSIZE_def)
  then show ?thesis by (simp add: dinode_at_def Let_def get16_def get_bytes_def BSIZE_def of_le_bytes_def numeral_eq_Suc [of "num.Bit0 num.One"])
qed

lemma fs_machine_inodes:
  assumes "i < 200"
  shows "i = 1 \<Longrightarrow> disk_inode fs_machine i = dinode_of root_inode" "i = 2 \<Longrightarrow> disk_inode fs_machine i = dinode_of file_inode"
    "i \<noteq> 1 \<Longrightarrow> i \<noteq> 2 \<Longrightarrow> di_type (disk_inode fs_machine i) = 0"
proof -
  define z d1 d2 where "z = replicate BSIZE (0 :: uchar)" and "d1 = put_dinode z 1 (dinode_of root_inode)" and "d2 = put_dinode d1 2 (dinode_of file_inode)"
  have ad: "length (di_addrs (dinode_of root_inode)) = NDIRECT + 1" "length (di_addrs (dinode_of file_inode)) = NDIRECT + 1"
    by (simp_all add: dinode_of_def root_inode_def file_inode_def NDIRECT_def)
  have l1: "length d1 = BSIZE" unfolding d1_def by (subst put_dinode_frame(1)) (use ad in \<open>simp_all add: z_def BSIZE_def\<close>)
  have v: "view fs_machine (IBLOCK i demo_sb) = (if unat i < 16 then d2 else z)"
  proof -
    have u: "unat i < 200" using assms by (simp add: word_less_nat_alt)
    have "unat (IBLOCK i demo_sb) = unat i div 16 + 32" using u by (simp add: IBLOCK_def demo_sb_def IPB_def BSIZE_def unat_word_ariths unat_div)
    moreover have "take_bit 64 (unat i div 16 + 32) = unat i div 16 + 32" by (rule take_bit_nat_eq_self) (use u in simp)
    ultimately have b: "unat (ucast (IBLOCK i demo_sb) :: uint64) = unat i div 16 + 32" by (simp add: unsigned_ucast_eq unsigned_take_bit_eq)
    then have "(ucast (IBLOCK i demo_sb) :: uint64) = 32 \<longleftrightarrow> unat i < 16" by (auto simp: word_unat_eq_iff)
    moreover have "(ucast (IBLOCK i demo_sb) :: uint64) \<noteq> 45 \<and> (ucast (IBLOCK i demo_sb) :: uint64) \<noteq> 46 \<and> (ucast (IBLOCK i demo_sb) :: uint64) \<noteq> 47"
      using b u by (auto simp: word_unat_eq_iff)
    ultimately show ?thesis by (simp add: content_def fs_disk_def z_def d1_def d2_def)
  qed
  have ipb: "IPB = 16" by (simp add: IPB_def BSIZE_def)
  have D: "disk_inode fs_machine i = (if unat i < 16 then dinode_at d2 (unat i) else dinode_at z (unat i mod IPB))"
    unfolding disk_inode_def fs_machine_simps(1) v ipb by simp
  have d2: "dinode_at d2 2 = dinode_of file_inode" "j \<noteq> 2 \<Longrightarrow> dinode_at d2 j = dinode_at d1 j" for j
    unfolding d2_def by (rule dinode_put_get, use ad l1 in \<open>simp_all add: BSIZE_def\<close>) (rule dinode_other, use ad l1 in \<open>simp_all add: BSIZE_def\<close>)
  have d1: "dinode_at d1 1 = dinode_of root_inode" "j \<noteq> 1 \<Longrightarrow> dinode_at d1 j = dinode_at z j" for j
    unfolding d1_def by (rule dinode_put_get, use ad in \<open>simp_all add: z_def BSIZE_def\<close>) (rule dinode_other, use ad in \<open>simp_all add: z_def BSIZE_def\<close>)
  show "i = 1 \<Longrightarrow> disk_inode fs_machine i = dinode_of root_inode" "i = 2 \<Longrightarrow> disk_inode fs_machine i = dinode_of file_inode"
    using D d1(1) d2 by simp_all
  show "di_type (disk_inode fs_machine i) = 0" if "i \<noteq> 1" "i \<noteq> 2"
  proof -
    have "unat i \<noteq> 1" "unat i \<noteq> 2" using that by (auto simp: word_unat_eq_iff)
    then have "disk_inode fs_machine i = dinode_at z (unat i mod IPB)" using D d1(2) d2(2) by (simp add: ipb)
    then show ?thesis by (simp add: z_def dinode_zeros)
  qed
qed

lemma fs_machine_alive: "alive fs_machine i \<longleftrightarrow> i = 1 \<or> i = 2"
  using fs_machine_inodes(1) [of 1] fs_machine_inodes(2) [of 2] fs_machine_inodes(3) [of i]
  by (auto simp: alive_def demo_sb_def dinode_of_def root_inode_def file_inode_def T_DIR_def T_FILE_def)

lemma fs_machine_tree: "fs_tree fs_machine [1 \<mapsto> root_dents]"
proof -
  have di: "disk_inode fs_machine 1 = dinode_of root_inode" "disk_inode fs_machine 2 = dinode_of file_inode" using fs_machine_inodes(1) [of 1] fs_machine_inodes(2) [of 2] by simp_all
  define s0 where "s0 = fs_machine\<lparr>itable := \<lambda>_. inode_of 1 (disk_inode fs_machine 1)\<rparr>"
  have "view s0 = view fs_machine" "sb s0 = sb fs_machine" "klog s0 = klog fs_machine" by (simp_all add: s0_def view_def del: fs_machine_simps)
  note C = slot_cong [OF this, of 0 0]
  have "inode_ok s0 0 \<and> is_dir s0 0 root_dents \<and> mapped s0 0 0 (16 * length root_dents)"
    using C fs_root(1) fs_root_dir by (simp add: s0_def inode_of_def di) (simp add: root_inode_def dinode_of_def root_dents_def)
  then have "dir_at fs_machine 1 root_dents" by (simp add: dir_at_def Let_def s0_def)
  moreover have "alive fs_machine (ucast (de_inum de))" if "de \<in> set root_dents" for de
    using that by (auto simp: root_dents_def fs_machine_alive)
  moreover have "di_type (disk_inode fs_machine i) = T_DIR \<longleftrightarrow> [1 \<mapsto> root_dents] i \<noteq> None" if "alive fs_machine i" for i
    using that di by (auto simp: fs_machine_alive dinode_of_def root_inode_def file_inode_def T_DIR_def T_FILE_def)
  ultimately show ?thesis by (auto simp: fs_tree_def split: if_splits)
qed

lemma fs_machine_rest: "fs_rest fs_machine 0 28 {}"
proof -
  have r: "reading fs_machine 0 Map.empty (Suc 28)" using txnD(1) [OF fs_txn] by simp
  have it: "iref (itable fs_machine i) = (if i = 0 \<or> i = 2 then 1 else 0)" "ilk (itable fs_machine i) = initsleeplock"
      "inum (itable fs_machine i) = (if i = 0 then 1 else if i = 2 then 2 else 0)" for i
    by (simp_all add: root_inode_def file_inode_def sample_inode_def)
  have "itab_ok (itable fs_machine)" unfolding itab_ok_def it by auto
  moreover have "dinode_of (itable fs_machine i) = disk_inode fs_machine (inum (itable fs_machine i))" if "0 < iref (itable fs_machine i)" for i
    using that fs_machine_inodes(1) [of 1] fs_machine_inodes(2) [of 2] unfolding it by (auto split: if_splits)
  ultimately show ?thesis using r fs_machine_ok it(2) by (simp add: fs_rest_def synced_def)
qed

lemma fs_machine_in_use: "inodes_in_use (irefs (itable fs_machine)) \<le> 2"
proof -
  have "{k. 0 < irefs (itable fs_machine) k} \<subseteq> {(ROOTDEV, 1), (ROOTDEV, 2)}"
  proof
    fix k assume "k \<in> {k. 0 < irefs (itable fs_machine) k}"
    then obtain i where "itab_find (fst k) (snd k) (itable fs_machine) = Some i" by (auto simp: irefs_def simp del: fs_machine_simps split: option.splits)
    from itab_findD(2-4) [OF this] show "k \<in> {(ROOTDEV, 1), (ROOTDEV, 2)}"
      by (cases k) (auto simp: root_inode_def file_inode_def sample_inode_def split: if_splits)
  qed
  from card_mono [OF _ this] show ?thesis by (simp add: inodes_in_use_def card_insert_if split: if_splits)
qed

theorem namex_resolves_path_witness:
  "\<exists>ip nm s'. namex ideal_disk [slash, 97] False [] fs_machine = Ok (Some ip, nm, s') \<and> inum (itable s' ip) = 2 \<and>
     irefs (itable s') = (irefs (itable fs_machine))((ROOTDEV, 2) := irefs (itable fs_machine) (ROOTDEV, 2) + 1)"
proof -
  have el: "elems [slash, 97] = [[97]]" by (simp add: elems_def slash_def)
  have res: "resolve False [1 \<mapsto> root_dents] 1 [[97]] = Some 2"
    by (simp add: first_dent_def upt_rec root_dents_def dent_matches_def cstr_names)
  have room: "inodes_in_use (irefs (itable fs_machine)) + 2 \<le> NINODE" using fs_machine_in_use by (simp add: NINODE_def)
  have al: "alive fs_machine ROOTINO" by (simp add: fs_machine_alive ROOTINO_def)
  have start: "if [slash, 97] \<noteq> [] \<and> hd [slash, 97] = slash then ROOTINO = ROOTINO
      else \<exists>ip. cwd (ptable fs_machine 0) = Some ip \<and> holds_inode fs_machine ip ROOTINO" by simp
  obtain q nm s' where S: "namex ideal_disk [slash, 97] False [] fs_machine = Ok (q, nm, s')"
      "walked False (elems [slash, 97]) (irefs (itable fs_machine)) (resolve False [1 \<mapsto> root_dents] ROOTINO (elems [slash, 97])) q nm s'"
    using namex_resolves_path [OF ideal_disk fs_machine_rest fs_machine_tree room start al, of False "[]"] by blast
  then show ?thesis using res unfolding el by (auto simp: ROOTINO_def holds_inode_def one_more_def)
qed

end
