(* ===== verification/Mkfs_Spec.thy ===== *)
theory Mkfs_Spec
  imports Mkfs Fs_Path
begin

text \<open>
  The image that \<^verbatim>\<open>mkfs\<close> builds is a file system of the kernel: a kernel that finds the image on its
  disk has a well-formed file system (\<open>fs_ok\<close>) whose only directory is the root (\<open>fs_tree\<close>), with an
  entry for every file of the command line, and the files have the contents they have on the host.
\<close>

section \<open>Numbers\<close>

lemma xint_id [simp]: "xint x = x"
proof -
  have "[ucast x, ucast (drop_bit 8 x), ucast (drop_bit 16 x), ucast (drop_bit 24 x)] = le_bytes 4 x"
    by (simp add: le_bytes_def upt_rec)
  then show ?thesis by (simp add: xint_def of_le_bytes_le_bytes)
qed

lemma xshort_id [simp]: "xshort x = x"
proof -
  have "[ucast x, ucast (drop_bit 8 x)] = le_bytes 2 x" by (simp add: le_bytes_def upt_rec)
  then show ?thesis by (simp add: xshort_def of_le_bytes_le_bytes)
qed

lemmas sizes = BSIZE_def NDIRECT_def NINDIRECT_def MAXFILE_def IPB_def BPB_def DIRSIZ_def FSSIZE_def LOGSIZE_def MAXOPBLOCKS_def mkfs_layout

lemma nmeta_val: "nmeta = 46" "nlog = 30" "ninodeblocks = 13" "nbitmap = 1" "nblocks = 1954" "MAXFILE = 268" "IPB = 16" "BPB = 8192"
  by (simp_all add: sizes)

lemma sect_no_id [simp]: "unat sec < FSSIZE \<Longrightarrow> sect_no sec = unat sec"
  by (simp add: sect_no_def unat_word_ariths BSIZE_def FSSIZE_def)

text \<open>The number of blocks that a file of \<open>n\<close> bytes has, and with the indirect block.\<close>

definition nb :: "nat \<Rightarrow> nat" where
  "nb n = (n + BSIZE - 1) div BSIZE"

definition cost :: "nat \<Rightarrow> nat" where
  "cost n = (if NDIRECT < nb n then nb n + 1 else nb n)"

lemma nb_mono: "m \<le> n \<Longrightarrow> nb m \<le> nb n"
  by (simp add: nb_def div_le_mono)

lemma cost_mono: "m \<le> n \<Longrightarrow> cost m \<le> cost n"
  using nb_mono [of m n] by (simp add: cost_def)

lemma nb_limits: "j < n \<Longrightarrow> j div BSIZE < nb n" "bn < nb n \<Longrightarrow> bn * BSIZE < n" "n \<le> MAXFILE * BSIZE \<Longrightarrow> nb n \<le> MAXFILE"
proof -
  show "j < n \<Longrightarrow> j div BSIZE < nb n" by (simp add: nb_def BSIZE_def)
  show "bn < nb n \<Longrightarrow> bn * BSIZE < n" by (simp add: nb_def BSIZE_def less_eq_div_iff_mult_less_eq Suc_le_eq [symmetric])
  show "n \<le> MAXFILE * BSIZE \<Longrightarrow> nb n \<le> MAXFILE" by (simp add: nb_def sizes)
qed

lemma div_eqI: "m = q * B + r \<Longrightarrow> r < B \<Longrightarrow> m div B = (q :: nat)"
  by simp

lemma mod_eqI: "m = q * B + r \<Longrightarrow> r < B \<Longrightarrow> m mod B = (r :: nat)"
  by simp

lemma nb_within: "0 < m \<Longrightarrow> n mod BSIZE + m \<le> BSIZE \<Longrightarrow> nb (n + m) = n div BSIZE + 1"
proof -
  assume a: "0 < m" "n mod BSIZE + m \<le> BSIZE"
  have "n + m + BSIZE - 1 = (n div BSIZE + 1) * BSIZE + (n mod BSIZE + m - 1)" using a(1) div_mult_mod_eq [of n BSIZE] by (simp add: algebra_simps)
  then show ?thesis unfolding nb_def by (rule div_eqI) (use a in simp)
qed

lemma nb_eq: "nb n = (if n mod BSIZE = 0 then n div BSIZE else n div BSIZE + 1)"
proof (cases "n mod BSIZE = 0")
  case True
  then have "n + BSIZE - 1 = n div BSIZE * BSIZE + (BSIZE - 1)" using div_mult_mod_eq [of n BSIZE] by (simp add: BSIZE_def)
  from div_eqI [OF this] show ?thesis using True by (simp add: nb_def BSIZE_def)
next
  case False
  then show ?thesis using nb_within [of 0 n] nb_within [of "n mod BSIZE" "n div BSIZE * BSIZE"] mod_less_divisor [of BSIZE n] by (simp add: BSIZE_def)
qed

section \<open>The blocks of a file in an image\<close>

definition mind :: "dinode \<Rightarrow> uint32" where
  "mind di = di_addrs di ! NDIRECT"

definition maddr :: "(nat \<Rightarrow> uchar list) \<Rightarrow> dinode \<Rightarrow> nat \<Rightarrow> uint32" where
  "maddr v di bn = (if bn < NDIRECT then di_addrs di ! bn else if mind di = 0 then 0 else get32 (v (unat (mind di))) (4 * (bn - NDIRECT)))"

definition mbyte :: "(nat \<Rightarrow> uchar list) \<Rightarrow> dinode \<Rightarrow> nat \<Rightarrow> uchar" where
  "mbyte v di j = v (unat (maddr v di (j div BSIZE))) ! (j mod BSIZE)"

definition mset :: "(nat \<Rightarrow> uchar list) \<Rightarrow> dinode \<Rightarrow> nat set" where
  "mset v di = unat ` (insert (mind di) (maddr v di ` {..<MAXFILE}) - {0})"

text \<open>A file of \<open>n\<close> bytes whose blocks are below \<open>F\<close>: exactly the blocks it needs are allocated, each once.\<close>

definition file_at :: "(nat \<Rightarrow> uchar list) \<Rightarrow> nat \<Rightarrow> dinode \<Rightarrow> nat \<Rightarrow> bool" where
  "file_at v F di n \<longleftrightarrow> length (di_addrs di) = NDIRECT + 1 \<and> n \<le> MAXFILE * BSIZE \<and>
     (\<forall>bn < MAXFILE. maddr v di bn = 0 \<longleftrightarrow> nb n \<le> bn) \<and> (mind di = 0 \<longleftrightarrow> nb n \<le> NDIRECT) \<and>
     (\<forall>b \<in> mset v di. nmeta \<le> b \<and> b < F) \<and>
     (\<forall>i < nb n. \<forall>j < nb n. maddr v di i = maddr v di j \<longrightarrow> i = j) \<and> (\<forall>i < nb n. maddr v di i \<noteq> mind di)"

lemma file_atD:
  assumes "file_at v F di n"
  shows "length (di_addrs di) = NDIRECT + 1" "n \<le> MAXFILE * BSIZE" "bn < MAXFILE \<Longrightarrow> maddr v di bn = 0 \<longleftrightarrow> nb n \<le> bn" "mind di = 0 \<longleftrightarrow> nb n \<le> NDIRECT"
    "b \<in> mset v di \<Longrightarrow> nmeta \<le> b \<and> b < F" "i < nb n \<Longrightarrow> j < nb n \<Longrightarrow> maddr v di i = maddr v di j \<Longrightarrow> i = j" "i < nb n \<Longrightarrow> maddr v di i \<noteq> mind di"
  using assms unfolding file_at_def by metis+

lemma mset_in: "bn < MAXFILE \<Longrightarrow> maddr v di bn \<noteq> 0 \<Longrightarrow> unat (maddr v di bn) \<in> mset v di" "mind di \<noteq> 0 \<Longrightarrow> unat (mind di) \<in> mset v di"
  by (auto simp: mset_def)

lemma file_at_block:
  assumes "file_at v F di n" and "bn < nb n"
  shows "bn < MAXFILE" "maddr v di bn \<noteq> 0" "unat (maddr v di bn) \<in> mset v di" "nmeta \<le> unat (maddr v di bn)" "unat (maddr v di bn) < F"
proof -
  show m: "bn < MAXFILE" using assms(2) nb_limits(3) [OF file_atD(2) [OF assms(1)]] by simp
  show z: "maddr v di bn \<noteq> 0" using file_atD(3) [OF assms(1) m] assms(2) by simp
  show i: "unat (maddr v di bn) \<in> mset v di" by (rule mset_in(1) [OF m z])
  show "nmeta \<le> unat (maddr v di bn)" "unat (maddr v di bn) < F" using file_atD(5) [OF assms(1) i] by simp_all
qed

lemma file_same:
  assumes "file_at v F di n" and "nb m = nb n" and "m \<le> MAXFILE * BSIZE"
  shows "file_at v F di m"
  using assms by (simp add: file_at_def)

text \<open>One more block, and perhaps the indirect block.\<close>

lemma file_grow:
  assumes f: "file_at v F di n" and k: "nb n = k" "k < MAXFILE" "nb m = k + 1" "m \<le> MAXFILE * BSIZE" and F: "nmeta \<le> F"
    and a: "length (di_addrs di') = NDIRECT + 1" "\<And>bn. bn < MAXFILE \<Longrightarrow> maddr v' di' bn = (if bn = k then x else maddr v di bn)"
    and x: "x \<noteq> 0" "F \<le> unat x" "unat x < F'"
    and i: "mind di' = 0 \<longleftrightarrow> k < NDIRECT" "mind di' = mind di \<or> F \<le> unat (mind di') \<and> unat (mind di') < F' \<and> mind di' \<noteq> x"
  shows "file_at v' F' di' m" "mset v' di' \<subseteq> mset v di \<union> {F..<F'}"
proof -
  have lt: "unat (mind di) < F" if "mind di \<noteq> 0" using file_atD(5) [OF f mset_in(2) [OF that]] by simp
  have "unat b \<in> mset v di \<union> {F..<F'}" if H: "b = mind di' \<or> b \<in> maddr v' di' ` {..<MAXFILE}" "b \<noteq> 0" for b
  proof (cases "b = mind di'")
    case True
    then show ?thesis using i(2) H(2) mset_in(2) [of di v] by auto
  next
    case False
    then obtain bn where bn: "bn < MAXFILE" "b = maddr v' di' bn" using H(1) by auto
    then show ?thesis using a(2) [OF bn(1)] x mset_in(1) [OF bn(1), of v di] H(2) by (cases "bn = k") auto
  qed
  then show sub: "mset v' di' \<subseteq> mset v di \<union> {F..<F'}" unfolding mset_def [of v'] by blast
  have old: "maddr v di j \<noteq> 0 \<and> unat (maddr v di j) < F" if "j < k" for j using file_at_block(2,5) [OF f, of j] that k(1) by simp
  have e: "maddr v' di' j = (if j = k then x else maddr v di j)" if "j < k + 1" for j using a(2) [of j] that k(2) by simp
  have inj: "p = q" if "p < k + 1" "q < k + 1" "maddr v' di' p = maddr v' di' q" for p q
    using that e [OF that(1)] e [OF that(2)] old [of p] old [of q] x(2) file_atD(6) [OF f, of p q] k(1) by (cases "p = k"; cases "q = k") auto
  have ni: "maddr v' di' p \<noteq> mind di'" if "p < k + 1" for p
  proof (cases "mind di' = mind di")
    case True
    then show ?thesis using e [OF that] that file_atD(7) [OF f, of p] k(1) x lt by (cases "p = k"; cases "mind di = 0") auto
  next
    case False
    then show ?thesis using i(2) e [OF that] that old [of p] by (cases "p = k") auto
  qed
  have z: "maddr v' di' bn = 0 \<longleftrightarrow> k + 1 \<le> bn" if "bn < MAXFILE" for bn
    using a(2) [OF that] file_atD(3) [OF f that] k(1) x(1) by (cases "bn = k") auto
  have rng: "nmeta \<le> b \<and> b < F'" if "b \<in> mset v' di'" for b
  proof (cases "b \<in> mset v di")
    case True
    then show ?thesis using file_atD(5) [OF f True] x by simp
  next
    case False
    then have "b \<in> {F..<F'}" using sub that by blast
    then show ?thesis using F by simp
  qed
  show "file_at v' F' di' m"
    unfolding file_at_def k(3) using a(1) k(4) z i(1) rng inj ni by (simp add: Suc_le_eq)
qed

section \<open>The image under construction\<close>

definition mk_ok :: "mkfs \<Rightarrow> bool" where
  "mk_ok s \<longleftrightarrow> nsects s = FSSIZE \<and> msb s = mkfs_sb \<and> (\<forall>i. length (sects s i) = BSIZE) \<and> nmeta \<le> unat (freeblock s) \<and> unat (freeblock s) \<le> FSSIZE \<and>
     (\<forall>i. unat (freeblock s) \<le> i \<longrightarrow> sects s i = replicate BSIZE 0)"

lemma mk_okD:
  assumes "mk_ok s"
  shows "nsects s = FSSIZE" "msb s = mkfs_sb" "length (sects s i) = BSIZE" "nmeta \<le> unat (freeblock s)" "unat (freeblock s) \<le> FSSIZE"
    "unat (freeblock s) \<le> i \<Longrightarrow> sects s i = replicate BSIZE 0"
  using assms by (simp_all add: mk_ok_def)

lemma rsect_ok: "mk_ok s \<Longrightarrow> unat sec < FSSIZE \<Longrightarrow> rsect sec s = Ok (sects s (unat sec))"
  by (simp add: rsect_def mk_ok_def)

lemma sects_wsect: "unat sec < FSSIZE \<Longrightarrow> sects (wsect sec buf s) = (sects s)(unat sec := buf)"
  "freeblock (wsect sec buf s) = freeblock s" "freeinode (wsect sec buf s) = freeinode s" "msb (wsect sec buf s) = msb s"
  by (simp_all add: wsect_def)

lemma wsect_ok: "mk_ok s \<Longrightarrow> unat sec < unat (freeblock s) \<Longrightarrow> length buf = BSIZE \<Longrightarrow> mk_ok (wsect sec buf s)"
  by (auto simp: mk_ok_def wsect_def)

lemma grow_ok: "mk_ok s \<Longrightarrow> unat (freeblock s) < FSSIZE \<Longrightarrow> mk_ok (s\<lparr>freeblock := freeblock s + 1\<rparr>) \<and> unat (freeblock s + 1) = unat (freeblock s) + 1"
proof -
  assume a: "mk_ok s" "unat (freeblock s) < FSSIZE"
  then have "unat (freeblock s + 1) = unat (freeblock s) + 1" by (simp add: unat_word_ariths FSSIZE_def)
  then show ?thesis using a by (simp add: mk_ok_def)
qed

lemma maddr_wsect: "b \<noteq> unat (mind di) \<or> mind di = 0 \<Longrightarrow> maddr (v(b := x)) di = maddr v di"
  by (auto simp: maddr_def fun_eq_iff)

lemma mset_wsect: "b \<noteq> unat (mind di) \<or> mind di = 0 \<Longrightarrow> mset (v(b := x)) di = mset v di"
  by (simp add: mset_def maddr_wsect)

text \<open>
  What finding or allocating the block of a file does. \<open>grown s di n s' di' m\<close>: the file that \<open>di\<close>
  describes has been prepared for \<open>m\<close> instead of \<open>n\<close> bytes; it keeps its blocks and their contents, and all
  others are untouched.
\<close>

definition grown :: "mkfs \<Rightarrow> dinode \<Rightarrow> nat \<Rightarrow> mkfs \<Rightarrow> dinode \<Rightarrow> nat \<Rightarrow> bool" where
  "grown s di n s' di' m \<longleftrightarrow> mk_ok s' \<and> unat (freeblock s') + cost n = unat (freeblock s) + cost m \<and> freeinode s' = freeinode s \<and>
     file_at (sects s') (unat (freeblock s')) di' m \<and> di'\<lparr>di_addrs := []\<rparr> = di\<lparr>di_addrs := []\<rparr> \<and>
     mset (sects s') di' \<subseteq> mset (sects s) di \<union> {unat (freeblock s)..<unat (freeblock s')} \<and>
     (\<forall>bn < nb n. maddr (sects s') di' bn = maddr (sects s) di bn) \<and> (\<forall>j < n. mbyte (sects s') di' j = mbyte (sects s) di j) \<and>
     (\<forall>i. i \<notin> mset (sects s) di \<union> {unat (freeblock s)..<unat (freeblock s')} \<longrightarrow> sects s' i = sects s i)"

lemma grownD:
  assumes "grown s di n s' di' m"
  shows "mk_ok s'" "unat (freeblock s') + cost n = unat (freeblock s) + cost m" "freeinode s' = freeinode s"
    "file_at (sects s') (unat (freeblock s')) di' m" "di'\<lparr>di_addrs := []\<rparr> = di\<lparr>di_addrs := []\<rparr>"
    "mset (sects s') di' \<subseteq> mset (sects s) di \<union> {unat (freeblock s)..<unat (freeblock s')}"
    "bn < nb n \<Longrightarrow> maddr (sects s') di' bn = maddr (sects s) di bn"
    "i \<notin> mset (sects s) di \<union> {unat (freeblock s)..<unat (freeblock s')} \<Longrightarrow> sects s' i = sects s i"
    "j < n \<Longrightarrow> mbyte (sects s') di' j = mbyte (sects s) di j"
  using assms unfolding grown_def by metis+

lemma mbyte_keep:
  assumes "\<And>bn. bn < nb n \<Longrightarrow> maddr v' di' bn = maddr v di bn" and "\<And>bn. bn < nb n \<Longrightarrow> v' (unat (maddr v di bn)) = v (unat (maddr v di bn))" and "j < n"
  shows "mbyte v' di' j = mbyte v di j"
  using assms nb_limits(1) [OF assms(3)] by (simp add: mbyte_def)

text \<open>The block is there.\<close>

lemma block_present:
  assumes mk: "mk_ok s" and f: "file_at (sects s) (unat (freeblock s)) di n" and n: "n < MAXFILE * BSIZE" and m: "n mod BSIZE \<noteq> 0"
  shows "iappend_block (n div BSIZE) di s = Ok (maddr (sects s) di (n div BSIZE), di, s)" "grown s di n s di (n + 1)"
proof -
  have nbn: "nb n = n div BSIZE + 1" "nb (n + 1) = nb n" using m nb_eq [of n] nb_within [of 1 n] mod_less_divisor [of BSIZE n] by (simp_all add: BSIZE_def)
  then have k: "n div BSIZE < nb n" by simp
  note B = file_at_block [OF f k]
  show "iappend_block (n div BSIZE) di s = Ok (maddr (sects s) di (n div BSIZE), di, s)"
  proof (cases "n div BSIZE < NDIRECT")
    case True
    then show ?thesis using B(2) by (simp add: iappend_block_def maddr_def)
  next
    case False
    then have i: "mind di \<noteq> 0" using file_atD(4) [OF f] nbn(1) by simp
    then have "unat (mind di) < FSSIZE" using file_atD(5) [OF f mset_in(2) [OF i]] mk_okD(5) [OF mk] by simp
    then show ?thesis using B(2) False i rsect_ok [OF mk] by (simp add: iappend_block_def maddr_def mind_def)
  qed
  show "grown s di n s di (n + 1)" using mk file_same [OF f nbn(2)] n nbn(2) by (auto simp: grown_def cost_def)
qed

text \<open>The block is new, among the direct ones.\<close>

lemma new_block:
  assumes n: "n < MAXFILE * BSIZE" and m: "n mod BSIZE = 0"
  shows "nb n = n div BSIZE" "nb (n + 1) = n div BSIZE + 1" "n div BSIZE < MAXFILE"
    "cost (n + 1) = cost n + (if n div BSIZE = NDIRECT then 2 else 1)"
proof -
  show 1: "nb n = n div BSIZE" "nb (n + 1) = n div BSIZE + 1" using m nb_eq [of n] nb_within [of 1 n] by (simp_all add: BSIZE_def)
  show "n div BSIZE < MAXFILE" using n by (simp add: less_mult_imp_div_less)
  show "cost (n + 1) = cost n + (if n div BSIZE = NDIRECT then 2 else 1)" using 1 by (auto simp: cost_def)
qed

lemma block_direct:
  assumes mk: "mk_ok s" and f: "file_at (sects s) (unat (freeblock s)) di n" and n: "n < MAXFILE * BSIZE" and m: "n mod BSIZE = 0"
    and k: "n div BSIZE < NDIRECT" and room: "unat (freeblock s) + cost (n + 1) \<le> FSSIZE + cost n"
  shows "\<exists>di' s'. iappend_block (n div BSIZE) di s = Ok (maddr (sects s') di' (n div BSIZE), di', s') \<and> grown s di n s' di' (n + 1) \<and>
    sects s' (unat (maddr (sects s') di' (n div BSIZE))) = replicate BSIZE 0"
proof -
  note N = new_block [OF n m]
  let ?k = "n div BSIZE" and ?x = "freeblock s"
  define di' where "di' = di\<lparr>di_addrs := (di_addrs di)[?k := ?x]\<rparr>"
  define s' where "s' = s\<lparr>freeblock := freeblock s + 1\<rparr>"
  have F: "unat ?x < FSSIZE" using room N(4) k by simp
  have s': "mk_ok s'" "unat (freeblock s') = unat ?x + 1" "sects s' = sects s" using grow_ok [OF mk F] by (simp_all add: s'_def)
  have len: "length (di_addrs di) = NDIRECT + 1" by (rule file_atD(1) [OF f])
  have md: "mind di = 0" "mind di' = 0" using file_atD(4) [OF f] N(1) k len by (simp_all add: mind_def di'_def)
  have x0: "?x \<noteq> 0" using mk_okD(4) [OF mk] by (auto simp: nmeta_val)
  have a: "maddr (sects s') di' bn = (if bn = ?k then ?x else maddr (sects s) di bn)" for bn
    using md k len by (auto simp: maddr_def di'_def s'(3) nth_list_update)
  have "di_addrs di ! ?k = 0" using file_atD(3) [OF f N(3)] N(1) k by (simp add: maddr_def)
  then have e: "iappend_block ?k di s = Ok (maddr (sects s') di' ?k, di', s')" using a [of ?k] k len by (simp add: iappend_block_def di'_def s'_def)
  have l': "length (di_addrs di') = NDIRECT + 1" using len by (simp add: di'_def)
  have M: "n + 1 \<le> MAXFILE * BSIZE" using n by simp
  have i1: "mind di' = 0 \<longleftrightarrow> ?k < NDIRECT" using md k by simp
  have i2: "mind di' = mind di \<or> unat ?x \<le> unat (mind di') \<and> unat (mind di') < unat (freeblock s') \<and> mind di' \<noteq> ?x" using md by simp
  note G = file_grow [OF f N(1,3,2) M mk_okD(4) [OF mk] l' a x0 order_refl _ i1 i2]
  have g: "file_at (sects s') (unat (freeblock s')) di' (n + 1)" "mset (sects s') di' \<subseteq> mset (sects s) di \<union> {unat ?x..<unat (freeblock s')}"
    using G s'(2) by simp_all
  have "grown s di n s' di' (n + 1)"
    unfolding grown_def using s' g a N(1,4) k mbyte_keep [of n "sects s'" di' "sects s" di] by (simp add: di'_def s'_def)
  moreover have "sects s' (unat (maddr (sects s') di' ?k)) = replicate BSIZE 0" using a [of ?k] mk_okD(6) [OF mk order_refl] s'(3) by simp
  ultimately show ?thesis using e by blast
qed

text \<open>The block is new, in the indirect block: \<open>r\<close> is the indirect block and \<open>s1\<close> the state in which it exists.\<close>

lemma entry_new:
  assumes "4 * i + 4 \<le> length d" and "4 * j + 4 \<le> length d"
  shows "get32 (put32 d (4 * i) x) (4 * j) = (if j = i then x else get32 d (4 * j))"
proof (cases "j = i")
  case False
  then have "4 * j + 4 \<le> 4 * i \<or> 4 * i + 4 \<le> 4 * j" by auto
  then show ?thesis using get_frame(4) [OF assms(1)] False by simp
qed (use assms in simp)

lemma block_indirect:
  assumes mk: "mk_ok s" and f: "file_at (sects s) (unat (freeblock s)) di n" and n: "n < MAXFILE * BSIZE" and m: "n mod BSIZE = 0"
    and k: "NDIRECT < n div BSIZE" and room: "unat (freeblock s) + cost (n + 1) \<le> FSSIZE + cost n"
  shows "\<exists>di' s'. iappend_block (n div BSIZE) di s = Ok (maddr (sects s') di' (n div BSIZE), di', s') \<and> grown s di n s' di' (n + 1) \<and>
    sects s' (unat (maddr (sects s') di' (n div BSIZE))) = replicate BSIZE 0"
proof -
  note N = new_block [OF n m]
  let ?k = "n div BSIZE" and ?x = "freeblock s" and ?r = "unat (mind di)"
  have md: "mind di \<noteq> 0" using file_atD(4) [OF f] N(1) k by simp
  note R = file_atD(5) [OF f mset_in(2) [OF md]]
  have F: "unat ?x < FSSIZE" using room N(4) k by simp
  define ib where "ib = put32 (sects s ?r) (4 * (?k - NDIRECT)) ?x"
  define s1 where "s1 = s\<lparr>freeblock := freeblock s + 1\<rparr>"
  define s' where "s' = wsect (mind di) ib s1"
  have s1: "mk_ok s1" "unat (freeblock s1) = unat ?x + 1" "sects s1 = sects s" using grow_ok [OF mk F] by (simp_all add: s1_def)
  have rF: "?r < FSSIZE" using R F by simp
  have kB: "4 * (?k - NDIRECT) + 4 \<le> BSIZE" using N(3) by (simp add: MAXFILE_def NINDIRECT_def BSIZE_def)
  have lib: "length ib = BSIZE" using kB mk_okD(3) [OF mk] by (simp add: ib_def)
  have s': "mk_ok s'" "sects s' = (sects s)(?r := ib)" "unat (freeblock s') = unat ?x + 1" "freeinode s' = freeinode s"
    using wsect_ok [OF s1(1), of "mind di" ib] R s1(2,3) lib rF by (simp_all add: s'_def sects_wsect) (simp add: s1_def)
  have x0: "?x \<noteq> 0" using mk_okD(4) [OF mk] by (auto simp: nmeta_val)
  have a: "maddr (sects s') di bn = (if bn = ?k then ?x else maddr (sects s) di bn)" if "bn < MAXFILE" for bn
  proof (cases "bn < NDIRECT")
    case True
    then show ?thesis using k by (simp add: maddr_def)
  next
    case False
    have "4 * (bn - NDIRECT) + 4 \<le> BSIZE" using that by (simp add: MAXFILE_def NINDIRECT_def BSIZE_def)
    then have "get32 ib (4 * (bn - NDIRECT)) = (if bn - NDIRECT = ?k - NDIRECT then ?x else get32 (sects s ?r) (4 * (bn - NDIRECT)))"
      unfolding ib_def using kB mk_okD(3) [OF mk] by (intro entry_new) simp_all
    moreover have "bn - NDIRECT = ?k - NDIRECT \<longleftrightarrow> bn = ?k" using False k by auto
    ultimately show ?thesis using False md by (simp add: maddr_def s'(2))
  qed
  have "get32 (sects s ?r) (4 * (?k - NDIRECT)) = 0" using file_atD(3) [OF f N(3)] N(1) k md by (simp add: maddr_def)
  then have e: "iappend_block ?k di s = Ok (maddr (sects s') di ?k, di, s')"
    using a [OF N(3)] k md rsect_ok [OF mk rF] kB mk_okD(3) [OF mk]
    by (simp add: iappend_block_def mind_def [symmetric] ib_def [symmetric] s1_def [symmetric] s'_def [symmetric]) (simp add: ib_def)
  have M: "n + 1 \<le> MAXFILE * BSIZE" using n by simp
  have i1: "mind di = 0 \<longleftrightarrow> ?k < NDIRECT" using md k by simp
  have lt: "unat ?x < unat (freeblock s')" using s'(3) by simp
  note G = file_grow [where k = ?k and x = ?x, OF f N(1,3,2) M mk_okD(4) [OF mk] file_atD(1) [OF f]]
  have g1: "file_at (sects s') (unat (freeblock s')) di (n + 1)" by (rule G(1)) (rule a x0 order_refl lt i1 disjI1 [OF refl] | assumption)+
  have g2: "mset (sects s') di \<subseteq> mset (sects s) di \<union> {unat ?x..<unat (freeblock s')}" by (rule G(2)) (rule a x0 order_refl lt i1 disjI1 [OF refl] | assumption)+
  have old: "maddr (sects s') di bn = maddr (sects s) di bn" if "bn < nb n" for bn using a [of bn] that N(1,3) by simp
  have "?r \<in> mset (sects s) di" by (rule mset_in(2) [OF md])
  then have fr: "sects s' i = sects s i" if "i \<notin> mset (sects s) di \<union> {unat ?x..<unat (freeblock s')}" for i using that s'(2) by auto
  have keep: "mbyte (sects s') di j = mbyte (sects s) di j" if "j < n" for j
  proof (rule mbyte_keep [OF old _ that])
    fix bn assume "bn < nb n"
    then show "sects s' (unat (maddr (sects s) di bn)) = sects s (unat (maddr (sects s) di bn))" using file_atD(7) [OF f, of bn] s'(2) by (simp add: word_unat_eq_iff)
  qed
  have "grown s di n s' di (n + 1)"
    unfolding grown_def using s'(1,3,4) g1 g2 old fr keep N(4) k by (simp del: Un_iff)
  moreover have "sects s' (unat (maddr (sects s') di ?k)) = replicate BSIZE 0" using a [OF N(3)] mk_okD(6) [OF mk order_refl] s'(2) R by simp
  ultimately show ?thesis using e by blast
qed

lemma block_first_indirect:
  assumes mk: "mk_ok s" and f: "file_at (sects s) (unat (freeblock s)) di n" and n: "n < MAXFILE * BSIZE" and m: "n mod BSIZE = 0"
    and k: "n div BSIZE = NDIRECT" and room: "unat (freeblock s) + cost (n + 1) \<le> FSSIZE + cost n"
  shows "\<exists>di' s'. iappend_block (n div BSIZE) di s = Ok (maddr (sects s') di' (n div BSIZE), di', s') \<and> grown s di n s' di' (n + 1) \<and>
    sects s' (unat (maddr (sects s') di' (n div BSIZE))) = replicate BSIZE 0"
proof -
  note N = new_block [OF n m]
  let ?F = "freeblock s"
  have F: "unat ?F < FSSIZE" "unat ?F + 1 < FSSIZE" using room N(4) k by simp_all
  define s1 where "s1 = s\<lparr>freeblock := freeblock s + 1\<rparr>"
  define s2 where "s2 = s1\<lparr>freeblock := freeblock s1 + 1\<rparr>"
  have s1: "mk_ok s1" "unat (freeblock s1) = unat ?F + 1" "sects s1 = sects s" using grow_ok [OF mk F(1)] by (simp_all add: s1_def)
  have s2: "mk_ok s2" "unat (freeblock s2) = unat ?F + 2" "sects s2 = sects s" using grow_ok [OF s1(1)] s1 F(2) by (simp_all add: s2_def)
  define x where "x = freeblock s1"
  have ux: "unat x = unat ?F + 1" using s1(2) by (simp add: x_def)
  define di' where "di' = di\<lparr>di_addrs := (di_addrs di)[NDIRECT := ?F]\<rparr>"
  define ib where "ib = put32 (replicate BSIZE 0) 0 x"
  define s' where "s' = wsect ?F ib s2"
  have lib: "length ib = BSIZE" by (simp add: ib_def BSIZE_def)
  have s': "mk_ok s'" "sects s' = (sects s)(unat ?F := ib)" "unat (freeblock s') = unat ?F + 2" "freeinode s' = freeinode s"
    using wsect_ok [OF s2(1), of ?F ib] s2(2,3) lib F(1) by (simp_all add: s'_def sects_wsect) (simp add: s2_def s1_def)
  have len: "length (di_addrs di) = NDIRECT + 1" by (rule file_atD(1) [OF f])
  have f0: "?F \<noteq> 0" using mk_okD(4) [OF mk] by (auto simp: nmeta_val)
  have md: "mind di = 0" "mind di' = ?F" using file_atD(4) [OF f] N(1) k len by (simp_all add: mind_def di'_def)
  have x0: "x \<noteq> 0" using ux by auto
  have a: "maddr (sects s') di' bn = (if bn = n div BSIZE then x else maddr (sects s) di bn)" if "bn < MAXFILE" for bn
  proof (cases "bn < NDIRECT")
    case True
    then show ?thesis using k len by (simp add: maddr_def di'_def)
  next
    case False
    have "4 * (bn - NDIRECT) + 4 \<le> BSIZE" using that by (simp add: MAXFILE_def NINDIRECT_def BSIZE_def)
    then have "get32 ib (4 * (bn - NDIRECT)) = (if bn = NDIRECT then x else 0)"
      using entry_new [of 0 "replicate BSIZE 0" "bn - NDIRECT" x] get32_zeros [of "4 * (bn - NDIRECT)" BSIZE] False by (auto simp: ib_def)
    then show ?thesis using False md f0 s'(2) k by (simp add: maddr_def)
  qed
  have z: "sects s (unat ?F) = replicate BSIZE 0" by (rule mk_okD(6) [OF mk order_refl])
  have "4 * 0 + 4 \<le> BSIZE" by (simp add: BSIZE_def)
  have e: "iappend_block (n div BSIZE) di s = Ok (maddr (sects s') di' (n div BSIZE), di', s')"
    using a [OF N(3)] md f0 k len rsect_ok [OF s1(1), of ?F] F(1) s1(3) z get32_zeros [of 0 BSIZE]
    by (simp add: iappend_block_def mind_def Let_def di'_def [symmetric] s1_def [symmetric])
      (simp add: di'_def s'_def s2_def x_def ib_def BSIZE_def)
  have M: "n + 1 \<le> MAXFILE * BSIZE" using n by simp
  have l': "length (di_addrs di') = NDIRECT + 1" using len by (simp add: di'_def)
  have i1: "mind di' = 0 \<longleftrightarrow> n div BSIZE < NDIRECT" using md f0 k by simp
  have i2: "mind di' = mind di \<or> unat ?F \<le> unat (mind di') \<and> unat (mind di') < unat (freeblock s') \<and> mind di' \<noteq> x" using md ux s'(3) by auto
  have lt: "unat ?F \<le> unat x" "unat x < unat (freeblock s')" using s'(3) ux by simp_all
  note G = file_grow [where x = x, OF f N(1,3,2) M mk_okD(4) [OF mk] l']
  have g1: "file_at (sects s') (unat (freeblock s')) di' (n + 1)" by (rule G(1)) (rule a x0 lt i1 i2 | assumption)+
  have g2: "mset (sects s') di' \<subseteq> mset (sects s) di \<union> {unat ?F..<unat (freeblock s')}" by (rule G(2)) (rule a x0 lt i1 i2 | assumption)+
  have old: "maddr (sects s') di' bn = maddr (sects s) di bn" if "bn < nb n" for bn using a [of bn] that N(1,3) by simp
  have "unat ?F \<in> {unat ?F..<unat (freeblock s')}" using s'(3) by simp
  then have fr: "sects s' i = sects s i" if "i \<notin> mset (sects s) di \<union> {unat ?F..<unat (freeblock s')}" for i using that s'(2) by auto
  have keep: "mbyte (sects s') di' j = mbyte (sects s) di j" if "j < n" for j
  proof (rule mbyte_keep [OF old _ that])
    fix bn assume "bn < nb n"
    then show "sects s' (unat (maddr (sects s) di bn)) = sects s (unat (maddr (sects s) di bn))" using file_at_block(5) [OF f, of bn] s'(2) by simp
  qed
  have "grown s di n s' di' (n + 1)"
    unfolding grown_def using s'(1,3,4) g1 g2 old fr keep N(4) k by (simp add: di'_def del: Un_iff)
  moreover have "sects s' (unat (maddr (sects s') di' (n div BSIZE))) = replicate BSIZE 0" using a [OF N(3)] mk_okD(6) [OF mk, of "unat x"] s'(2) ux by simp
  ultimately show ?thesis using e by blast
qed

text \<open>In the last block of a file only zeros follow the content.\<close>

definition tail0 :: "(nat \<Rightarrow> uchar list) \<Rightarrow> dinode \<Rightarrow> nat \<Rightarrow> bool" where
  "tail0 v di n \<longleftrightarrow> (\<forall>j. n \<le> j \<and> j < nb n * BSIZE \<longrightarrow> mbyte v di j = 0)"

lemma iappend_block_spec:
  assumes "mk_ok s" and "file_at (sects s) (unat (freeblock s)) di n" and "n < MAXFILE * BSIZE" and "unat (freeblock s) + cost (n + 1) \<le> FSSIZE + cost n"
    and t: "tail0 (sects s) di n"
  shows "\<exists>di' s'. iappend_block (n div BSIZE) di s = Ok (maddr (sects s') di' (n div BSIZE), di', s') \<and> grown s di n s' di' (n + 1) \<and>
    (\<forall>j. n \<le> j \<and> j div BSIZE = n div BSIZE \<longrightarrow> mbyte (sects s') di' j = 0)"
proof (cases "n mod BSIZE = 0")
  case True
  consider "n div BSIZE < NDIRECT" | "n div BSIZE = NDIRECT" | "NDIRECT < n div BSIZE" by linarith
  then obtain di' s' where e: "iappend_block (n div BSIZE) di s = Ok (maddr (sects s') di' (n div BSIZE), di', s')" "grown s di n s' di' (n + 1)"
    and z: "sects s' (unat (maddr (sects s') di' (n div BSIZE))) = replicate BSIZE 0"
    using block_direct [OF assms(1-3) True _ assms(4)] block_first_indirect [OF assms(1-3) True _ assms(4)] block_indirect [OF assms(1-3) True _ assms(4)] by cases auto
  have "mbyte (sects s') di' j = 0" if "j div BSIZE = n div BSIZE" for j
    unfolding mbyte_def that z by (simp add: BSIZE_def)
  then show ?thesis using e by blast
next
  case False
  have "mbyte (sects s) di j = 0" if "n \<le> j" "j div BSIZE = n div BSIZE" for j
  proof -
    have "j < nb n * BSIZE" using that(2) False nb_eq [of n] dividend_less_div_times [of BSIZE j] by (simp add: BSIZE_def)
    then show ?thesis using t that(1) by (simp add: tail0_def)
  qed
  then show ?thesis using block_present [OF assms(1-3) False] by blast
qed

section \<open>Appending\<close>

lemma put_bytes_nth:
  assumes "i + length bs \<le> length d" and "j < length d"
  shows "put_bytes d i bs ! j = (if i \<le> j \<and> j < i + length bs then bs ! (j - i) else d ! j)"
  using assms by (auto simp: put_bytes_def nth_append)

lemma add_div_mod: "n mod B + k < (B :: nat) \<Longrightarrow> (n + k) div B = n div B \<and> (n + k) mod B = n mod B + k"
proof -
  assume a: "n mod B + k < B"
  have "n + k = n div B * B + (n mod B + k)" using div_mult_mod_eq [of n B] by linarith
  then show ?thesis using div_eqI mod_eqI a by blast
qed

lemma write_chunk:
  assumes g: "grown s di n s1 di1 (n + 1)" and f: "file_at (sects s) (unat (freeblock s)) di n" and c: "c \<noteq> []" "n mod BSIZE + length c \<le> BSIZE"
    and x: "x = maddr (sects s1) di1 (n div BSIZE)"
  defines "s2 \<equiv> wsect x (put_bytes (sects s1 (unat x)) (n mod BSIZE) c) s1"
  shows "rsect x s1 = Ok (sects s1 (unat x))" "grown s di n s2 di1 (n + length c)"
    "k < length c \<Longrightarrow> mbyte (sects s2) di1 (n + k) = c ! k"
    "(\<forall>j. n \<le> j \<and> j div BSIZE = n div BSIZE \<longrightarrow> mbyte (sects s1) di1 j = 0) \<Longrightarrow> tail0 (sects s2) di1 (n + length c)"
proof -
  note G = grownD [OF g]
  have nbm: "nb (n + length c) = n div BSIZE + 1" using nb_within [of "length c" n] c by simp
  have nb1: "nb (n + 1) = n div BSIZE + 1" using nb_within [of 1 n] mod_less_divisor [of BSIZE n] by (simp add: BSIZE_def Suc_le_eq)
  have k: "n div BSIZE < nb (n + 1)" using nb1 by simp
  note B = file_at_block [OF G(4) k, folded x]
  have xF: "unat x < FSSIZE" using B(5) mk_okD(5) [OF G(1)] by simp
  show "rsect x s1 = Ok (sects s1 (unat x))" by (rule rsect_ok [OF G(1) xF])
  define d where "d = put_bytes (sects s1 (unat x)) (n mod BSIZE) c"
  have ld: "length (sects s1 (unat x)) = BSIZE" by (rule mk_okD(3) [OF G(1)])
  have s2: "mk_ok s2" "sects s2 = (sects s1)(unat x := d)" "freeblock s2 = freeblock s1" "freeinode s2 = freeinode s1"
    using wsect_ok [OF G(1) B(5), of d] ld c(2) xF by (simp_all add: s2_def d_def [symmetric] sects_wsect) (simp add: d_def)
  have ni: "unat x \<noteq> unat (mind di1) \<or> mind di1 = 0" using file_atD(7) [OF G(4) k] x by (auto simp: word_unat_eq_iff)
  have a2: "maddr (sects s2) di1 = maddr (sects s1) di1" "mset (sects s2) di1 = mset (sects s1) di1"
    unfolding s2(2) using ni by (simp_all add: maddr_wsect mset_wsect)
  have lim: "n + length c \<le> MAXFILE * BSIZE"
  proof -
    have "n + length c = n div BSIZE * BSIZE + (n mod BSIZE + length c)" using div_mult_mod_eq [of n BSIZE] by linarith
    also have "\<dots> \<le> (n div BSIZE + 1) * BSIZE" unfolding add_mult_distrib mult_1 using c(2) by (rule add_left_mono)
    also have "\<dots> \<le> MAXFILE * BSIZE" using B(1) by (intro mult_le_mono1) simp
    finally show ?thesis .
  qed
  have f2: "file_at (sects s2) (unat (freeblock s2)) di1 (n + length c)"
    using file_same [OF G(4), of "n + length c"] nbm nb1 lim a2 s2(3) unfolding file_at_def by simp
  have cost: "cost (n + length c) = cost (n + 1)" using nbm nb1 by (simp add: cost_def)
  have m2: "mbyte (sects s2) di1 j = (if j div BSIZE = n div BSIZE then d ! (j mod BSIZE) else mbyte (sects s1) di1 j)" if "j div BSIZE < nb (n + 1)" for j
  proof -
    have "unat (maddr (sects s1) di1 (j div BSIZE)) = unat x \<longleftrightarrow> j div BSIZE = n div BSIZE" using file_atD(6) [OF G(4) that k] x by (auto simp: word_unat_eq_iff)
    then show ?thesis unfolding mbyte_def a2 unfolding s2(2) by simp
  qed
  have keep: "mbyte (sects s2) di1 j = mbyte (sects s) di j" if "j < n" for j
  proof (cases "j div BSIZE = n div BSIZE")
    case True
    then have "j mod BSIZE < n mod BSIZE" using that div_mult_mod_eq [of n BSIZE] div_mult_mod_eq [of j BSIZE, unfolded True] by linarith
    then have "d ! (j mod BSIZE) = sects s1 (unat x) ! (j mod BSIZE)" using put_bytes_nth [of "n mod BSIZE" c "sects s1 (unat x)" "j mod BSIZE"] ld c(2) by (simp add: d_def)
    also have "\<dots> = mbyte (sects s1) di1 j" using True x by (simp add: mbyte_def)
    finally show ?thesis using m2 [of j] True k G(9) [OF that] by simp
  next
    case False
    have "j div BSIZE < nb (n + 1)" using nb1 div_le_mono [of j n BSIZE] that by simp
    then show ?thesis using m2 [of j] False G(9) [OF that] by simp
  qed
  have xm: "unat x \<in> mset (sects s) di \<union> {unat (freeblock s)..<unat (freeblock s1)}" by (rule subsetD [OF G(6) B(3)])
  have fr: "sects s2 i = sects s i" if "i \<notin> mset (sects s) di \<union> {unat (freeblock s)..<unat (freeblock s2)}" for i
  proof -
    have i: "i \<notin> mset (sects s) di \<union> {unat (freeblock s)..<unat (freeblock s1)}" using that unfolding s2(3) .
    then have "i \<noteq> unat x" using xm by metis
    then show ?thesis using G(8) [OF i] s2(2) by simp
  qed
  show "grown s di n s2 di1 (n + length c)"
    unfolding grown_def using s2(1,3,4) G(2,3,5,6,7) f2 a2 cost keep fr by (simp del: Un_iff)
  show "mbyte (sects s2) di1 (n + k) = c ! k" if "k < length c" for k
  proof -
    have "(n + k) div BSIZE = n div BSIZE" "(n + k) mod BSIZE = n mod BSIZE + k" using add_div_mod [of n BSIZE k] that c(2) by simp_all
    moreover have "d ! (n mod BSIZE + k) = c ! k" using put_bytes_nth [of "n mod BSIZE" c "sects s1 (unat x)" "n mod BSIZE + k"] ld c(2) that by (simp add: d_def)
    ultimately show ?thesis using m2 [of "n + k"] \<open>n div BSIZE < nb (n + 1)\<close> by simp
  qed
  assume z: "\<forall>j. n \<le> j \<and> j div BSIZE = n div BSIZE \<longrightarrow> mbyte (sects s1) di1 j = 0"
  have "mbyte (sects s2) di1 j = 0" if "n + length c \<le> j" "j < (n div BSIZE + 1) * BSIZE" for j
  proof -
    have q: "j div BSIZE = n div BSIZE" using that(2) div_le_mono [of n j BSIZE] that(1) less_mult_imp_div_less [of j "n div BSIZE + 1" BSIZE] by linarith
    then have "n mod BSIZE + length c \<le> j mod BSIZE" using that(1) div_mult_mod_eq [of n BSIZE] div_mult_mod_eq [of j BSIZE, unfolded q] by linarith
    then have "d ! (j mod BSIZE) = sects s1 (unat x) ! (j mod BSIZE)" using put_bytes_nth [of "n mod BSIZE" c "sects s1 (unat x)" "j mod BSIZE"] ld c(2) by (simp add: d_def BSIZE_def)
    also have "\<dots> = mbyte (sects s1) di1 j" using q x by (simp add: mbyte_def)
    also have "\<dots> = 0" using z q that(1) by simp
    finally show ?thesis using m2 [of j] q k by simp
  qed
  then show "tail0 (sects s2) di1 (n + length c)" using nbm by (simp add: tail0_def)
qed

lemma grown_trans:
  assumes g1: "grown s di n s1 di1 m" and g2: "grown s1 di1 m s2 di2 l" and le: "n \<le> m" "m \<le> l"
  shows "grown s di n s2 di2 l"
proof -
  note A = grownD [OF g1] and B = grownD [OF g2]
  have F: "unat (freeblock s) \<le> unat (freeblock s1)" "unat (freeblock s1) \<le> unat (freeblock s2)"
    using A(2) B(2) cost_mono [OF le(1)] cost_mono [OF le(2)] by simp_all
  have R: "{unat (freeblock s)..<unat (freeblock s1)} \<subseteq> {unat (freeblock s)..<unat (freeblock s2)}"
    "{unat (freeblock s1)..<unat (freeblock s2)} \<subseteq> {unat (freeblock s)..<unat (freeblock s2)}" using F by auto
  have sub: "mset (sects s2) di2 \<subseteq> mset (sects s) di \<union> {unat (freeblock s)..<unat (freeblock s2)}"
    using order_trans [OF B(6) Un_mono [OF A(6) order_refl]] R by blast
  have old: "maddr (sects s2) di2 bn = maddr (sects s) di bn" if "bn < nb n" for bn
    using A(7) [OF that] B(7) [of bn] that nb_mono [OF le(1)] by simp
  have keep: "mbyte (sects s2) di2 j = mbyte (sects s) di j" if "j < n" for j
    using A(9) [OF that] B(9) [of j] that le(1) by simp
  have fr: "sects s2 i = sects s i" if "i \<notin> mset (sects s) di \<union> {unat (freeblock s)..<unat (freeblock s2)}" for i
  proof -
    have 1: "i \<notin> mset (sects s) di \<union> {unat (freeblock s)..<unat (freeblock s1)}" using that R(1) by blast
    then have "i \<notin> mset (sects s1) di1 \<union> {unat (freeblock s1)..<unat (freeblock s2)}" using that R(2) A(6) by blast
    then show ?thesis using A(8) [OF 1] B(8) by simp
  qed
  show ?thesis
    unfolding grown_def using A(2,3,5) B(1-5) sub old keep fr by (simp del: Un_iff)
qed

lemma iappend_loop_spec:
  assumes "mk_ok s" and "file_at (sects s) (unat (freeblock s)) di (unat off)" and "unat off + length p \<le> MAXFILE * BSIZE"
    and "unat (freeblock s) + cost (unat off + length p) \<le> FSSIZE + cost (unat off)" and "tail0 (sects s) di (unat off)"
  shows "\<exists>di' s'. iappend_loop di off p s = Ok (di', off + word_of_nat (length p), s') \<and> grown s di (unat off) s' di' (unat off + length p) \<and>
    (\<forall>k < length p. mbyte (sects s') di' (unat off + k) = p ! k) \<and> tail0 (sects s') di' (unat off + length p)"
  using assms
proof (induction "length p" arbitrary: p off di s rule: less_induct)
  case less
  show ?case
  proof (cases "p = []")
    case True
    have "grown s di (unat off) s di (unat off)" using less.prems(1,2) by (simp add: grown_def)
    then show ?thesis using True less.prems(5) by (simp add: iappend_loop.simps [of di off])
  next
    case False
    let ?n = "unat off"
    define n1 where "n1 = min (length p) ((?n div BSIZE + 1) * BSIZE - ?n)"
    have B: "?n div BSIZE * BSIZE + ?n mod BSIZE = ?n" "?n mod BSIZE < BSIZE" by (simp_all add: BSIZE_def)
    have r: "(?n div BSIZE + 1) * BSIZE - ?n = BSIZE - ?n mod BSIZE" using B(1) unfolding add_mult_distrib mult_1 by linarith
    have n1: "0 < n1" "n1 \<le> length p" "?n mod BSIZE + n1 \<le> BSIZE" unfolding n1_def r using B(2) False by simp_all
    define c where "c = take n1 p"
    have c: "c \<noteq> []" "length c = n1" using n1 False by (auto simp: c_def)
    have n: "?n < MAXFILE * BSIZE" using less.prems(3) False by (cases p) simp_all
    then have fb: "?n div BSIZE < MAXFILE" by (simp add: less_mult_imp_div_less)
    have room: "unat (freeblock s) + cost (?n + 1) \<le> FSSIZE + cost ?n"
      using less.prems(4) cost_mono [of "?n + 1" "?n + length p"] n1(1,2) by simp
    obtain di1 s1 where b: "iappend_block (?n div BSIZE) di s = Ok (maddr (sects s1) di1 (?n div BSIZE), di1, s1)" "grown s di ?n s1 di1 (?n + 1)"
      and z: "\<forall>j. ?n \<le> j \<and> j div BSIZE = ?n div BSIZE \<longrightarrow> mbyte (sects s1) di1 j = 0"
      using iappend_block_spec [OF less.prems(1,2) n room less.prems(5)] by blast
    define x where "x = maddr (sects s1) di1 (?n div BSIZE)"
    define s2 where "s2 = wsect x (put_bytes (sects s1 (unat x)) (?n mod BSIZE) c) s1"
    note W = write_chunk [OF b(2) less.prems(2) c(1) _ x_def, folded s2_def, unfolded c(2), OF n1(3)]
    have lim: "?n + n1 < 2 ^ 32" using less.prems(3) n1(2) by (simp add: sizes)
    have off: "unat (off + word_of_nat n1) = ?n + n1" using lim by (simp add: unat_word_ariths unat_of_nat)
    have e: "iappend_loop di off p s = iappend_loop di1 (off + word_of_nat n1) (drop n1 p) s2"
      using b(1) fb False W(1) B(1)
      by (subst iappend_loop.simps) (simp add: Let_def x_def [symmetric] n1_def c_def s2_def minus_div_mult_eq_mod)
    note G = grownD [OF W(2)]
    have l: "length (drop n1 p) < length p" using n1(1,2) by simp
    have cs: "unat (freeblock s2) + cost (unat (off + word_of_nat n1) + length (drop n1 p)) \<le> FSSIZE + cost (unat (off + word_of_nat n1))"
      using less.prems(4) G(2) n1(2) off by simp
    have f2: "file_at (sects s2) (unat (freeblock s2)) di1 (unat (off + word_of_nat n1))" unfolding off by (rule G(4))
    have l2: "unat (off + word_of_nat n1) + length (drop n1 p) \<le> MAXFILE * BSIZE" using less.prems(3) n1(2) off by simp
    have t2: "tail0 (sects s2) di1 (unat (off + word_of_nat n1))" unfolding off by (rule W(4) [OF z])
    obtain di' s' where i: "iappend_loop di1 (off + word_of_nat n1) (drop n1 p) s2 = Ok (di', off + word_of_nat n1 + word_of_nat (length (drop n1 p)), s')"
      "grown s2 di1 (?n + n1) s' di' (?n + length p)" "\<And>k. k < length p - n1 \<Longrightarrow> mbyte (sects s') di' (?n + n1 + k) = drop n1 p ! k"
      "tail0 (sects s') di' (?n + length p)"
      using less.hyps [OF l G(1) f2 l2 cs t2] off n1(2) by auto
    have "off + word_of_nat n1 + word_of_nat (length (drop n1 p)) = off + (word_of_nat (length p) :: uint32)"
      using n1(2) by (simp add: of_nat_diff)
    moreover have "grown s di ?n s' di' (?n + length p)" by (rule grown_trans [OF W(2) i(2)]) (use n1(2) in simp_all)
    moreover have "mbyte (sects s') di' (?n + k) = p ! k" if "k < length p" for k
    proof (cases "k < n1")
      case True
      then have "mbyte (sects s') di' (?n + k) = mbyte (sects s2) di1 (?n + k)" using grownD(9) [OF i(2), of "?n + k"] by simp
      then show ?thesis using W(3) [OF True] True by (simp add: c_def)
    next
      case False
      then show ?thesis using i(3) [of "k - n1"] that n1(2) by simp
    qed
    ultimately show ?thesis using e i(1,4) by auto
  qed
qed

section \<open>The inodes of the image\<close>

definition iblk :: "nat \<Rightarrow> nat" where
  "iblk i = 2 + nlog + i div IPB"

definition dino :: "mkfs \<Rightarrow> nat \<Rightarrow> dinode" where
  "dino s i = dinode_at (sects s (iblk i)) (i mod IPB)"

lemma iblk_limits: "i < NINODES \<Longrightarrow> 2 + nlog \<le> iblk i \<and> iblk i < 2 + nlog + ninodeblocks \<and> iblk i < nmeta \<and> iblk i < FSSIZE"
  using div_le_mono [of i 199 16] by (simp add: iblk_def sizes)

lemma IBLOCK_image: "i < NINODES \<Longrightarrow> unat (IBLOCK (word_of_nat i) mkfs_sb) = iblk i" "i < NINODES \<Longrightarrow> unat (word_of_nat i :: uint32) = i"
  by (simp_all add: IBLOCK_def mkfs_sb_def iblk_def sizes unat_word_ariths unat_div unat_of_nat)

lemma rinode_ok: "mk_ok s \<Longrightarrow> i < NINODES \<Longrightarrow> rinode (word_of_nat i) s = Ok (dino s i)"
  using iblk_limits [of i] by (simp add: rinode_def mk_okD(2) rsect_ok IBLOCK_image dino_def)

lemma winode_ok:
  assumes mk: "mk_ok s" and i: "i < NINODES" and di: "length (di_addrs di) = NDIRECT + 1"
  shows "\<exists>s'. winode (word_of_nat i) di s = Ok s' \<and> mk_ok s' \<and> freeblock s' = freeblock s \<and> freeinode s' = freeinode s \<and>
    (\<forall>j < NINODES. dino s' j = (if j = i then di else dino s j)) \<and> (\<forall>b. b < 2 + nlog \<or> nmeta \<le> b \<longrightarrow> sects s' b = sects s b)"
proof -
  define d where "d = put_dinode (sects s (iblk i)) (i mod IPB) di"
  define s' where "s' = wsect (IBLOCK (word_of_nat i) mkfs_sb) d s"
  note L = iblk_limits [OF i]
  have room: "64 * (i mod IPB) + 64 \<le> length (sects s (iblk i))" using mk_okD(3) [OF mk] by (simp add: IPB_def BSIZE_def)
  have e: "winode (word_of_nat i) di s = Ok s'"
    using L by (simp add: winode_def mk_okD(2) [OF mk] rsect_ok [OF mk] IBLOCK_image [OF i] s'_def d_def)
  have ld: "length d = BSIZE" using put_dinode_frame(1) [OF room di] mk_okD(3) [OF mk] by (simp add: d_def)
  have "unat (IBLOCK (word_of_nat i) mkfs_sb) < unat (freeblock s)" using L mk_okD(4) [OF mk] IBLOCK_image(1) [OF i] by simp
  then have mk': "mk_ok s'" unfolding s'_def by (rule wsect_ok [OF mk _ ld])
  have s': "sects s' = (sects s)(iblk i := d)" "freeblock s' = freeblock s" "freeinode s' = freeinode s"
    using L by (simp_all add: s'_def sects_wsect IBLOCK_image [OF i])
  have ino: "dino s' j = (if j = i then di else dino s j)" for j
  proof (cases "iblk j = iblk i")
    case True
    then have "j div IPB = i div IPB" by (simp add: iblk_def)
    then have "j mod IPB = i mod IPB \<longleftrightarrow> j = i" using div_mult_mod_eq [of j IPB] div_mult_mod_eq [of i IPB] by metis
    then show ?thesis using True dinode_put_get [OF room di] dinode_other [OF room di, of "j mod IPB"] by (auto simp: dino_def s'(1) d_def)
  next
    case False
    then show ?thesis by (auto simp: dino_def s'(1))
  qed
  show ?thesis using e mk' s' ino L by auto
qed

section \<open>The files of the image\<close>

text \<open>File \<open>k\<close> has the inode \<open>k + 1\<close>: its type and its content.\<close>

definition mk_file :: "mkfs \<Rightarrow> nat \<Rightarrow> ushort \<Rightarrow> uchar list \<Rightarrow> bool" where
  "mk_file s k t c \<longleftrightarrow> (let di = dino s (Suc k) in
     di_type di = t \<and> di_major di = 0 \<and> di_minor di = 0 \<and> di_nlink di = 1 \<and> di_size di = word_of_nat (length c) \<and>
     file_at (sects s) (unat (freeblock s)) di (length c) \<and> (\<forall>j < length c. mbyte (sects s) di j = c ! j) \<and> tail0 (sects s) di (length c))"

definition mk_inv :: "mkfs \<Rightarrow> (ushort \<times> uchar list) list \<Rightarrow> bool" where
  "mk_inv s fs \<longleftrightarrow> mk_ok s \<and> freeinode s = word_of_nat (length fs + 1) \<and> length fs < NINODES \<and>
     (\<forall>k < length fs. mk_file s k (fst (fs ! k)) (snd (fs ! k))) \<and>
     (\<forall>k < length fs. \<forall>l < length fs. k \<noteq> l \<longrightarrow> mset (sects s) (dino s (Suc k)) \<inter> mset (sects s) (dino s (Suc l)) = {}) \<and>
     (\<forall>i < NINODES. i = 0 \<or> length fs < i \<longrightarrow> dino s i = zero_dinode) \<and>
     unat (freeblock s) = nmeta + sum_list (map (\<lambda>f. cost (length (snd f))) fs) \<and>
     (\<forall>b < 2 + nlog. sects s b = (if b = 1 then put_bytes (replicate BSIZE 0) 0 (superblock_bytes mkfs_sb) else replicate BSIZE 0))"

lemma mk_invD:
  assumes "mk_inv s fs"
  shows "mk_ok s" "freeinode s = word_of_nat (length fs + 1)" "length fs < NINODES" "k < length fs \<Longrightarrow> mk_file s k (fst (fs ! k)) (snd (fs ! k))"
    "k < length fs \<Longrightarrow> l < length fs \<Longrightarrow> k \<noteq> l \<Longrightarrow> mset (sects s) (dino s (Suc k)) \<inter> mset (sects s) (dino s (Suc l)) = {}"
    "i < NINODES \<Longrightarrow> i = 0 \<or> length fs < i \<Longrightarrow> dino s i = zero_dinode"
    "unat (freeblock s) = nmeta + sum_list (map (\<lambda>f. cost (length (snd f))) fs)"
    "b < 2 + nlog \<Longrightarrow> sects s b = (if b = 1 then put_bytes (replicate BSIZE 0) 0 (superblock_bytes mkfs_sb) else replicate BSIZE 0)"
  using assms unfolding mk_inv_def by metis+

lemma mk_fileD:
  assumes "mk_file s k t c"
  shows "file_at (sects s) (unat (freeblock s)) (dino s (Suc k)) (length c)" "j < length c \<Longrightarrow> mbyte (sects s) (dino s (Suc k)) j = c ! j"
    "tail0 (sects s) (dino s (Suc k)) (length c)" "di_type (dino s (Suc k)) = t" "di_major (dino s (Suc k)) = 0" "di_minor (dino s (Suc k)) = 0"
    "di_nlink (dino s (Suc k)) = 1" "di_size (dino s (Suc k)) = word_of_nat (length c)"
  using assms unfolding mk_file_def Let_def by simp_all

text \<open>A file keeps its content when its inode and its blocks stay.\<close>

lemma maddr_cong: "mind di = 0 \<or> v' (unat (mind di)) = v (unat (mind di)) \<Longrightarrow> maddr v' di = maddr v di"
  by (auto simp: maddr_def fun_eq_iff)

lemma inode_file_cong:
  assumes f: "file_at v F di n" and F: "F \<le> F'" and v: "\<And>b. b \<in> mset v di \<Longrightarrow> v' b = v b"
  shows "file_at v' F' di n" "mset v' di = mset v di" "j div BSIZE < nb n \<Longrightarrow> mbyte v' di j = mbyte v di j" "tail0 v di n \<Longrightarrow> tail0 v' di n"
proof -
  have a: "maddr v' di = maddr v di" using v [OF mset_in(2) [of di v]] by (intro maddr_cong) auto
  then show m: "mset v' di = mset v di" by (simp add: mset_def)
  show b: "mbyte v' di j = mbyte v di j" if "j div BSIZE < nb n" for j
    unfolding mbyte_def a v [OF file_at_block(3) [OF f that]] ..
  show "tail0 v' di n" if "tail0 v di n"
    unfolding tail0_def
  proof (intro allI impI)
    fix j assume "n \<le> j \<and> j < nb n * BSIZE"
    then show "mbyte v' di j = 0" using b [OF less_mult_imp_div_less, of j] that unfolding tail0_def by metis
  qed
  have r: "\<forall>b \<in> mset v di. nmeta \<le> b \<and> b < F'" using file_atD(5) [OF f] F by (meson less_le_trans)
  show "file_at v' F' di n"
    using f unfolding file_at_def a m by (elim conjE) (intro conjI r; assumption)
qed

lemma mk_file_cong:
  assumes f: "mk_file s k t c" and d: "dino s' (Suc k) = dino s (Suc k)" and F: "unat (freeblock s) \<le> unat (freeblock s')"
    and v: "\<And>b. b \<in> mset (sects s) (dino s (Suc k)) \<Longrightarrow> sects s' b = sects s b"
  shows "mk_file s' k t c" "mset (sects s') (dino s' (Suc k)) = mset (sects s) (dino s (Suc k))"
proof -
  note D = mk_fileD [OF f]
  have C: "file_at (sects s') (unat (freeblock s')) (dino s (Suc k)) (length c)" "mset (sects s') (dino s (Suc k)) = mset (sects s) (dino s (Suc k))"
    "\<And>j. j div BSIZE < nb (length c) \<Longrightarrow> mbyte (sects s') (dino s (Suc k)) j = mbyte (sects s) (dino s (Suc k)) j" "tail0 (sects s') (dino s (Suc k)) (length c)"
    by (rule inode_file_cong [OF D(1) F] v D(3) | assumption)+
  show "mset (sects s') (dino s' (Suc k)) = mset (sects s) (dino s (Suc k))" unfolding d by (rule C(2))
  show "mk_file s' k t c"
    using f C(1,4) C(3) [OF nb_limits(1)] unfolding mk_file_def d Let_def by metis
qed

lemma size_irrelevant [simp]:
  "maddr v (di\<lparr>di_size := x\<rparr>) = maddr v di" "mind (di\<lparr>di_size := x\<rparr>) = mind di" "mset v (di\<lparr>di_size := x\<rparr>) = mset v di"
  "mbyte v (di\<lparr>di_size := x\<rparr>) = mbyte v di" "file_at v F (di\<lparr>di_size := x\<rparr>) n = file_at v F di n" "tail0 v (di\<lparr>di_size := x\<rparr>) n = tail0 v di n"
proof -
  show 1: "mind (di\<lparr>di_size := x\<rparr>) = mind di" by (simp add: mind_def)
  show 2: "maddr v (di\<lparr>di_size := x\<rparr>) = maddr v di" by (simp add: maddr_def 1 fun_eq_iff)
  show 3: "mset v (di\<lparr>di_size := x\<rparr>) = mset v di" by (simp add: mset_def 1 2)
  show 4: "mbyte v (di\<lparr>di_size := x\<rparr>) = mbyte v di" by (simp add: mbyte_def 2 fun_eq_iff)
  show "file_at v F (di\<lparr>di_size := x\<rparr>) n = file_at v F di n" by (simp add: file_at_def 1 2 3)
  show "tail0 v (di\<lparr>di_size := x\<rparr>) n = tail0 v di n" by (simp add: tail0_def 4)
qed

lemma mset_range:
  assumes "mk_inv s fs" and "k < length fs" and "b \<in> mset (sects s) (dino s (Suc k))"
  shows "nmeta \<le> b" "b < unat (freeblock s)"
  using file_atD(5) [OF mk_fileD(1) [OF mk_invD(4) [OF assms(1,2)]] assms(3)] by simp_all

lemma dinode_fields:
  "(di' :: dinode)\<lparr>di_addrs := []\<rparr> = di\<lparr>di_addrs := []\<rparr> \<Longrightarrow> di_type di' = di_type di \<and> di_major di' = di_major di \<and> di_minor di' = di_minor di \<and> di_nlink di' = di_nlink di"
  by (cases di; cases di') simp

text \<open>
  One file has changed: its inode, its blocks and newly allocated ones.
\<close>

lemma mk_inv_replace:
  assumes I: "mk_inv s fs" and k: "k < length fs" and mk: "mk_ok s'" and fi: "freeinode s' = freeinode s"
    and F: "unat (freeblock s') + cost (length (snd (fs ! k))) = unat (freeblock s) + cost (length c)" "unat (freeblock s) \<le> unat (freeblock s')"
    and new: "mk_file s' k t c" "mset (sects s') (dino s' (Suc k)) \<subseteq> mset (sects s) (dino s (Suc k)) \<union> {unat (freeblock s)..<unat (freeblock s')}"
    and ino: "\<And>i. i < NINODES \<Longrightarrow> i \<noteq> Suc k \<Longrightarrow> dino s' i = dino s i"
    and fr: "\<And>b. b < 2 + nlog \<or> nmeta \<le> b \<Longrightarrow> b \<notin> mset (sects s) (dino s (Suc k)) \<union> {unat (freeblock s)..<unat (freeblock s')} \<Longrightarrow> sects s' b = sects s b"
  shows "mk_inv s' (fs[k := (t, c)])"
proof -
  note D = mk_invD [OF I]
  have oth: "mk_file s' l (fst (fs ! l)) (snd (fs ! l))" "mset (sects s') (dino s' (Suc l)) = mset (sects s) (dino s (Suc l))" if l: "l < length fs" "l \<noteq> k" for l
  proof -
    have d: "dino s' (Suc l) = dino s (Suc l)" using ino [of "Suc l"] l D(3) by simp
    have v: "sects s' b = sects s b" if b: "b \<in> mset (sects s) (dino s (Suc l))" for b
    proof (rule fr)
      show "b < 2 + nlog \<or> nmeta \<le> b" using mset_range [OF I l(1) b] by simp
      show "b \<notin> mset (sects s) (dino s (Suc k)) \<union> {unat (freeblock s)..<unat (freeblock s')}"
        using mset_range [OF I l(1) b] D(5) [OF l(1) k l(2)] b by auto
    qed
    show "mk_file s' l (fst (fs ! l)) (snd (fs ! l))" "mset (sects s') (dino s' (Suc l)) = mset (sects s) (dino s (Suc l))"
      by (rule mk_file_cong [OF D(4) [OF l(1)] d F(2) v], assumption)+
  qed
  have dis: "mset (sects s') (dino s' (Suc k)) \<inter> mset (sects s') (dino s' (Suc l)) = {}" if l: "l < length fs" "l \<noteq> k" for l
    using new(2) D(5) [OF k l(1)] l(2) mset_range(2) [OF I l(1)] unfolding oth(2) [OF l] by fastforce
  have "sum_list (map (\<lambda>f. cost (length (snd f))) (fs[k := (t, c)])) = sum_list (map (\<lambda>f. cost (length (snd f))) fs) + cost (length c) - cost (length (snd (fs ! k)))"
    using k by (simp add: map_update sum_list_update)
  then have Fs: "unat (freeblock s') = nmeta + sum_list (map (\<lambda>f. cost (length (snd f))) (fs[k := (t, c)]))"
    using F(1) D(7) member_le_sum_list [of "cost (length (snd (fs ! k)))" "map (\<lambda>f. cost (length (snd f))) fs"] k by simp
  have files: "mk_file s' l (fst (fs[k := (t, c)] ! l)) (snd (fs[k := (t, c)] ! l))" if "l < length fs" for l
    using new(1) oth(1) [OF that] k that by (cases "l = k") simp_all
  have disj: "mset (sects s') (dino s' (Suc i)) \<inter> mset (sects s') (dino s' (Suc j)) = {}" if H: "i < length fs" "j < length fs" "i \<noteq> j" for i j
  proof (cases "i = k \<or> j = k")
    case True
    then show ?thesis using dis [OF H(1)] dis [OF H(2)] H(3) by (auto simp: Int_commute)
  next
    case False
    then show ?thesis using oth(2) [OF H(1)] oth(2) [OF H(2)] D(5) [OF H] by simp
  qed
  have low: "sects s' b = sects s b" if "b < 2 + nlog" for b
    by (rule fr) (use that mset_range(1) [OF I k, of b] D(7) in \<open>auto simp: nmeta_val\<close>)
  have zero: "dino s' i = zero_dinode" if "i < NINODES" "i = 0 \<or> length fs < i" for i
    using ino [OF that(1)] D(6) [OF that] that(2) k by auto
  show ?thesis
    unfolding mk_inv_def length_list_update using mk fi D(2,3) files disj zero Fs low D(8) by simp
qed

lemma iappend_ok:
  assumes I: "mk_inv s fs" and k: "k < length fs" "fs ! k = (t, c)" and n: "length c + length p \<le> MAXFILE * BSIZE"
    and room: "unat (freeblock s) + cost (length c + length p) \<le> FSSIZE + cost (length c)"
  shows "\<exists>s'. iappend (word_of_nat (Suc k)) p s = Ok s' \<and> mk_inv s' (fs[k := (t, c @ p)])"
proof -
  note D = mk_invD [OF I]
  let ?di = "dino s (Suc k)"
  have f: "mk_file s k t c" using D(4) [OF k(1)] k(2) by simp
  note M = mk_fileD [OF f]
  have i: "Suc k < NINODES" using k(1) D(3) by simp
  have sz: "unat (word_of_nat (length c) :: uint32) = length c" using n by (simp add: unat_of_nat sizes)
  note L = iappend_loop_spec [of s ?di "word_of_nat (length c)" p, unfolded sz]
  obtain di1 s1 where e: "iappend_loop ?di (word_of_nat (length c)) p s = Ok (di1, word_of_nat (length c) + word_of_nat (length p), s1)"
    and g: "grown s ?di (length c) s1 di1 (length c + length p)" and c1: "\<And>j. j < length p \<Longrightarrow> mbyte (sects s1) di1 (length c + j) = p ! j"
    and t1: "tail0 (sects s1) di1 (length c + length p)"
    using L [OF D(1) M(1) n room M(3)] by auto
  note G = grownD [OF g]
  define di2 where "di2 = di1\<lparr>di_size := word_of_nat (length c) + word_of_nat (length p)\<rparr>"
  have l2: "length (di_addrs di2) = NDIRECT + 1" using file_atD(1) [OF G(4)] by (simp add: di2_def)
  obtain s2 where w: "winode (word_of_nat (Suc k)) di2 s1 = Ok s2" "mk_ok s2" "freeblock s2 = freeblock s1" "freeinode s2 = freeinode s1"
    and wi: "\<And>j. j < NINODES \<Longrightarrow> dino s2 j = (if j = Suc k then di2 else dino s1 j)" and wb: "\<And>b. b < 2 + nlog \<or> nmeta \<le> b \<Longrightarrow> sects s2 b = sects s1 b"
    using winode_ok [OF G(1) i l2] by blast
  have e2: "iappend (word_of_nat (Suc k)) p s = Ok s2"
    using rinode_ok [OF D(1) i] M(8) e w(1) by (simp add: iappend_def di2_def)
  have d2: "dino s2 (Suc k) = di2" using wi [OF i] by simp
  have F: "unat (freeblock s) \<le> unat (freeblock s2)" using G(2) w(3) cost_mono [of "length c" "length c + length p"] by simp
  have f1: "file_at (sects s1) (unat (freeblock s1)) di2 (length (c @ p))" using G(4) by (simp add: di2_def)
  have v: "sects s2 b = sects s1 b" if "b \<in> mset (sects s1) di2" for b using file_atD(5) [OF f1 that] by (intro wb) simp
  have F1: "unat (freeblock s1) \<le> unat (freeblock s2)" using w(3) by simp
  have C: "file_at (sects s2) (unat (freeblock s2)) di2 (length (c @ p))" "mset (sects s2) di2 = mset (sects s1) di2"
    "\<And>j. j div BSIZE < nb (length (c @ p)) \<Longrightarrow> mbyte (sects s2) di2 j = mbyte (sects s1) di2 j" "tail0 (sects s1) di2 (length (c @ p)) \<Longrightarrow> tail0 (sects s2) di2 (length (c @ p))"
    by (assumption | rule inode_file_cong [OF f1 F1] v)+
  have t2: "tail0 (sects s2) di2 (length (c @ p))" by (rule C(4)) (use t1 in \<open>simp add: di2_def\<close>)
  have cont: "mbyte (sects s2) di2 j = (c @ p) ! j" if "j < length (c @ p)" for j
  proof -
    have "mbyte (sects s2) di2 j = mbyte (sects s1) di1 j" using C(3) [OF nb_limits(1) [OF that]] by (simp add: di2_def)
    then show ?thesis using c1 [of "j - length c"] G(9) [of j] M(2) [of j] that by (cases "j < length c") (simp_all add: nth_append)
  qed
  have new: "mk_file s2 k t (c @ p)"
    using C(1) t2 cont dinode_fields [OF G(5)] M(4-7) unfolding mk_file_def d2 Let_def by (simp add: di2_def)
  have "mk_inv s2 (fs[k := (t, c @ p)])"
  proof (rule mk_inv_replace [OF I k(1) w(2) _ _ F new])
    show "freeinode s2 = freeinode s" using w(4) G(3) by simp
    show "unat (freeblock s2) + cost (length (snd (fs ! k))) = unat (freeblock s) + cost (length (c @ p))" using w(3) G(2) k(2) by simp
    show "mset (sects s2) (dino s2 (Suc k)) \<subseteq> mset (sects s) ?di \<union> {unat (freeblock s)..<unat (freeblock s2)}" unfolding d2 C(2) using G(6) w(3) by (simp add: di2_def)
    fix b assume b: "b < 2 + nlog \<or> nmeta \<le> b" "b \<notin> mset (sects s) ?di \<union> {unat (freeblock s)..<unat (freeblock s2)}"
    show "sects s2 b = sects s b" using wb [OF b(1)] G(8) [of b] b(2) w(3) by simp
  next
    fix i assume i: "i < NINODES" "i \<noteq> Suc k"
    have "iblk i \<notin> mset (sects s) ?di \<union> {unat (freeblock s)..<unat (freeblock s1)}"
      using iblk_limits [OF i(1)] mset_range(1) [OF I k(1), of "iblk i"] mk_okD(4) [OF D(1)] by auto
    then show "dino s2 i = dino s i" using wi [OF i(1)] i(2) G(8) [of "iblk i"] by (simp add: dino_def)
  qed
  then show ?thesis using e2 by blast
qed

text \<open>A new inode.\<close>

lemma ialloc_ok:
  assumes I: "mk_inv s fs" and n: "Suc (length fs) < NINODES"
  shows "\<exists>s'. mkfs_ialloc t s = Ok (word_of_nat (Suc (length fs)), s') \<and> mk_inv s' (fs @ [(t, [])])"
proof -
  note D = mk_invD [OF I]
  let ?i = "Suc (length fs)"
  define di where "di = zero_dinode\<lparr>di_type := t, di_nlink := 1, di_size := 0\<rparr>"
  define s1 where "s1 = s\<lparr>freeinode := freeinode s + 1\<rparr>"
  have mk1: "mk_ok s1" using D(1) by (simp add: mk_ok_def s1_def)
  have ldi: "length (di_addrs di) = NDIRECT + 1" by (simp add: di_def zero_dinode_def)
  obtain s2 where w: "winode (word_of_nat ?i) di s1 = Ok s2" "mk_ok s2" "freeblock s2 = freeblock s1" "freeinode s2 = freeinode s1"
    and wi: "\<And>j. j < NINODES \<Longrightarrow> dino s2 j = (if j = ?i then di else dino s1 j)" and wb: "\<And>b. b < 2 + nlog \<or> nmeta \<le> b \<Longrightarrow> sects s2 b = sects s1 b"
    using winode_ok [OF mk1 n ldi] by blast
  have s1: "sects s1 = sects s" "freeblock s1 = freeblock s" "dino s1 = dino s" by (simp_all add: s1_def dino_def fun_eq_iff)
  have e: "mkfs_ialloc t s = Ok (word_of_nat ?i, s2)" using D(2) w(1) by (simp add: mkfs_ialloc_def s1_def di_def)
  have d2: "dino s2 ?i = di" using wi [OF n] by simp
  have ad: "di_addrs di = replicate (NDIRECT + 1) 0" by (simp add: di_def zero_dinode_def)
  have z: "maddr v di bn = 0" "mind di = 0" for v bn unfolding maddr_def mind_def ad by (simp_all add: nth_replicate del: replicate_Suc)
  then have m0: "mset v di = {}" for v by (auto simp: mset_def)
  have nb0: "nb 0 = 0" by (simp add: nb_def BSIZE_def)
  have new: "mk_file s2 (length fs) t []"
    using ldi z m0 nb0 unfolding mk_file_def d2 Let_def by (simp add: file_at_def tail0_def) (simp add: di_def zero_dinode_def)
  have oth: "mk_file s2 l (fst (fs ! l)) (snd (fs ! l))" "mset (sects s2) (dino s2 (Suc l)) = mset (sects s) (dino s (Suc l))" if l: "l < length fs" for l
  proof -
    have d: "dino s2 (Suc l) = dino s (Suc l)" using wi [of "Suc l"] l n s1(3) by simp
    have F: "unat (freeblock s) \<le> unat (freeblock s2)" using w(3) s1(2) by simp
    have v: "sects s2 b = sects s b" if b: "b \<in> mset (sects s) (dino s (Suc l))" for b using wb [of b] mset_range(1) [OF I l b] s1(1) by simp
    show "mk_file s2 l (fst (fs ! l)) (snd (fs ! l))" "mset (sects s2) (dino s2 (Suc l)) = mset (sects s) (dino s (Suc l))"
      by (rule mk_file_cong [OF D(4) [OF l] d F v], assumption)+
  qed
  have files: "mk_file s2 l (fst ((fs @ [(t, [])]) ! l)) (snd ((fs @ [(t, [])]) ! l))" if "l < length (fs @ [(t, [])])" for l
    using oth(1) [of l] new that by (cases "l < length fs") (auto simp: nth_append less_Suc_eq)
  have disj: "mset (sects s2) (dino s2 (Suc i)) \<inter> mset (sects s2) (dino s2 (Suc j)) = {}" if H: "i < length (fs @ [(t, [])])" "j < length (fs @ [(t, [])])" "i \<noteq> j" for i j
    using H D(5) [of i j] oth(2) [of i] oth(2) [of j] d2 m0 by (cases "i < length fs"; cases "j < length fs") (auto simp: less_Suc_eq)
  have zero: "dino s2 i = zero_dinode" if "i < NINODES" "i = 0 \<or> length (fs @ [(t, [])]) < i" for i
    using wi [OF that(1)] D(6) [OF that(1)] that(2) s1(3) by auto
  have "mk_inv s2 (fs @ [(t, [])])"
    unfolding mk_inv_def using w(2,3,4) s1 files disj zero n D(2,7,8) wb nb0 by (simp add: s1_def cost_def)
  then show ?thesis using e by blast
qed

section \<open>The files of the command line\<close>

lemma mk_inv_next:
  assumes "mk_inv s fs" and "k < length fs" and "fs ! k = (t, c)" and "mk_inv s' (fs[k := (t', c')])"
  shows "unat (freeblock s') + cost (length c) = unat (freeblock s) + cost (length c')"
proof -
  let ?cs = "map (\<lambda>f. cost (length (snd f))) fs"
  have "unat (freeblock s') = nmeta + sum_list (?cs[k := cost (length c')])" using mk_invD(7) [OF assms(4)] by (simp add: map_update)
  also have "\<dots> = nmeta + (sum_list ?cs + cost (length c') - ?cs ! k)" using assms(2) by (simp add: sum_list_update)
  finally show ?thesis using mk_invD(7) [OF assms(1)] elem_le_sum_list [of k ?cs] assms(2,3) by simp
qed

lemma copy_ok:
  assumes "mk_inv s fs" and "k < length fs" and "fs ! k = (t, c)" and "length c + length (concat ps) \<le> MAXFILE * BSIZE"
    and "unat (freeblock s) + cost (length c + length (concat ps)) \<le> FSSIZE + cost (length c)"
  shows "\<exists>s'. mkfs_copy (word_of_nat (Suc k)) ps s = Ok s' \<and> mk_inv s' (fs[k := (t, c @ concat ps)])"
  using assms
proof (induction ps arbitrary: s fs c)
  case Nil
  then show ?case using list_update_id [of fs k] by simp
next
  case (Cons p ps)
  have n: "length c + length p \<le> MAXFILE * BSIZE" using Cons.prems(4) by simp
  have room: "unat (freeblock s) + cost (length c + length p) \<le> FSSIZE + cost (length c)"
    using Cons.prems(5) cost_mono [of "length c + length p" "length c + length (concat (p # ps))"] by simp
  obtain s1 where s1: "iappend (word_of_nat (Suc k)) p s = Ok s1" "mk_inv s1 (fs[k := (t, c @ p)])"
    using iappend_ok [OF Cons.prems(1-3) n room] by blast
  note F = mk_inv_next [OF Cons.prems(1-3) s1(2)]
  show ?case using Cons.IH [OF s1(2), of "c @ p"] Cons.prems(2,4,5) s1(1) F by (simp add: add.assoc)
qed

definition host_data :: "host \<Rightarrow> uchar list \<Rightarrow> uchar list" where
  "host_data H arg = concat (the (h_open H arg))"

definition dir_entry :: "nat \<Rightarrow> uchar list \<Rightarrow> dirent" where
  "dir_entry i name = \<lparr>de_inum = word_of_nat i, de_name = mkfs_name name\<rparr>"

definition dir_data :: "dirent list \<Rightarrow> uchar list" where
  "dir_data des = concat (map dirent_bytes des)"

definition arg_name :: "uchar list \<Rightarrow> uchar list" where
  "arg_name arg = skip_underscore (shortname arg)"

primrec arg_entries :: "nat \<Rightarrow> uchar list list \<Rightarrow> dirent list" where
  "arg_entries i [] = []"
| "arg_entries i (arg # args) = dir_entry i (arg_name arg) # arg_entries (Suc i) args"

definition names16 :: "dirent list \<Rightarrow> bool" where
  "names16 des \<longleftrightarrow> (\<forall>de \<in> set des. length (de_name de) = DIRSIZ)"

lemma length_dir_data: "names16 des \<Longrightarrow> length (dir_data des) = 16 * length des"
  by (induction des) (simp_all add: dir_data_def dirent_bytes_def DIRSIZ_def names16_def)

lemma length_mkfs_name [simp]: "length (mkfs_name name) = DIRSIZ"
  by (simp add: mkfs_name_def)

lemma names16_simps [simp]: "names16 (des @ des') \<longleftrightarrow> names16 des \<and> names16 des'" "names16 [dir_entry i name]" "names16 []" "names16 (arg_entries i args)"
proof -
  show "names16 (arg_entries i args)" by (induction args arbitrary: i) (auto simp: names16_def dir_entry_def)
qed (auto simp: names16_def dir_entry_def)

lemma link_ok:
  assumes I: "mk_inv s ((t, dir_data des) # fs)" and des: "names16 des" and n: "16 * length des + 16 \<le> MAXFILE * BSIZE" and i: "i < NINODES"
    and room: "nmeta + cost (16 * length des + 16) + sum_list (map (\<lambda>f. cost (length (snd f))) fs) \<le> FSSIZE"
  shows "\<exists>s'. mkfs_link ROOTINO (word_of_nat i) name s = Ok s' \<and> mk_inv s' ((t, dir_data (des @ [dir_entry i name])) # fs)"
proof -
  have r: "ROOTINO = word_of_nat (Suc 0)" by (simp add: ROOTINO_def)
  have u: "ucast (word_of_nat i :: uint32) = (word_of_nat i :: ushort)" using i by (simp add: word_unat_eq_iff unsigned_ucast_eq unat_of_nat take_bit_eq_mod NINODES_def)
  have l: "length (dirent_bytes (dir_entry i name)) = 16" by (simp add: dirent_bytes_def dir_entry_def DIRSIZ_def)
  have d: "dir_data (des @ [dir_entry i name]) = dir_data des @ dirent_bytes (dir_entry i name)" by (simp add: dir_data_def)
  have e: "mkfs_link ROOTINO (word_of_nat i) name s = iappend (word_of_nat (Suc 0)) (dirent_bytes (dir_entry i name)) s"
    by (simp add: mkfs_link_def dir_entry_def r u)
  have "unat (freeblock s) = nmeta + (cost (16 * length des) + sum_list (map (\<lambda>f. cost (length (snd f))) fs))"
    using mk_invD(7) [OF I] length_dir_data [OF des] by simp
  then show ?thesis
    using iappend_ok [OF I, of 0 t "dir_data des" "dirent_bytes (dir_entry i name)"] n room unfolding e d l length_dir_data [OF des] by simp
qed

definition arg_ok :: "host \<Rightarrow> uchar list \<Rightarrow> bool" where
  "arg_ok H arg \<longleftrightarrow> 0x2F \<notin> set (shortname arg) \<and> h_open H arg \<noteq> None \<and> length (host_data H arg) \<le> MAXFILE * BSIZE"

abbreviation arg_file :: "host \<Rightarrow> uchar list \<Rightarrow> ushort \<times> uchar list" where
  "arg_file H arg \<equiv> (T_FILE, host_data H arg)"

abbreviation costs :: "(ushort \<times> uchar list) list \<Rightarrow> nat" where
  "costs fs \<equiv> sum_list (map (\<lambda>f. cost (length (snd f))) fs)"

lemma file_ok:
  assumes I: "mk_inv s ((t, dir_data des) # fs)" and des: "names16 des" and a: "arg_ok H arg" and n: "length fs + 2 < NINODES" "16 * length des + 16 \<le> MAXFILE * BSIZE"
    and room: "nmeta + cost (16 * length des + 16) + costs fs + cost (length (host_data H arg)) \<le> FSSIZE"
  shows "\<exists>s'. mkfs_files H ROOTINO (arg # args) s = mkfs_files H ROOTINO args s' \<and>
    mk_inv s' ((t, dir_data (des @ [dir_entry (length fs + 2) (arg_name arg)])) # fs @ [arg_file H arg])"
proof -
  obtain ps where ps: "h_open H arg = Some ps" "host_data H arg = concat ps" using a by (auto simp: arg_ok_def host_data_def)
  have i: "Suc (length ((t, dir_data des) # fs)) = length fs + 2" by simp
  obtain s1 where s1: "mkfs_ialloc T_FILE s = Ok (word_of_nat (length fs + 2), s1)" "mk_inv s1 ((t, dir_data des) # fs @ [(T_FILE, [])])"
    using ialloc_ok [OF I, of T_FILE] n(1) unfolding i by auto
  have c0: "cost 0 = 0" by (simp add: cost_def nb_def BSIZE_def)
  obtain s2 where s2: "mkfs_link ROOTINO (word_of_nat (length fs + 2)) (arg_name arg) s1 = Ok s2"
    "mk_inv s2 ((t, dir_data (des @ [dir_entry (length fs + 2) (arg_name arg)])) # fs @ [(T_FILE, [])])"
    using link_ok [OF s1(2) des n(2,1), of "arg_name arg"] room c0 by auto
  let ?l = "(t, dir_data (des @ [dir_entry (length fs + 2) (arg_name arg)])) # fs @ [(T_FILE, [])]" and ?k = "Suc (length fs)"
  have k: "?k < length ?l" "?l ! ?k = (T_FILE, [])" by simp_all
  have ld: "length (dir_data (des @ [dir_entry (length fs + 2) (arg_name arg)])) = 16 * length des + 16" using length_dir_data des by simp
  have F: "unat (freeblock s2) = nmeta + (cost (16 * length des + 16) + costs fs)" using mk_invD(7) [OF s2(2)] c0 unfolding ld [symmetric] by simp
  obtain s3 where s3: "mkfs_copy (word_of_nat (Suc ?k)) ps s2 = Ok s3" "mk_inv s3 (?l[?k := (T_FILE, [] @ concat ps)])"
    using copy_ok [OF s2(2) k, of ps] a room F c0 ps(2) by (auto simp: arg_ok_def)
  have u: "?l[?k := (T_FILE, [] @ concat ps)] = (t, dir_data (des @ [dir_entry (length fs + 2) (arg_name arg)])) # fs @ [arg_file H arg]"
    using ps(2) by (simp add: list_update_append)
  have "mkfs_files H ROOTINO (arg # args) s = mkfs_files H ROOTINO args s3"
    using a ps(1) s1(1) s2(1) s3(1) by (simp add: arg_ok_def arg_name_def)
  then show ?thesis using s3(2) unfolding u by blast
qed

lemma files_ok:
  assumes "mk_inv s ((t, dir_data des) # fs)" and "names16 des" and "\<forall>arg \<in> set args. arg_ok H arg" and "length fs + 1 + length args < NINODES"
    and "16 * (length des + length args) \<le> MAXFILE * BSIZE" and "nmeta + cost (16 * (length des + length args)) + costs fs + costs (map (arg_file H) args) \<le> FSSIZE"
  shows "\<exists>s'. mkfs_files H ROOTINO args s = Ok s' \<and> mk_inv s' ((t, dir_data (des @ arg_entries (length fs + 2) args)) # fs @ map (arg_file H) args)"
  using assms
proof (induction args arbitrary: s des fs)
  case (Cons arg args)
  let ?de = "dir_entry (length fs + 2) (arg_name arg)"
  have a: "arg_ok H arg" "\<forall>arg \<in> set args. arg_ok H arg" using Cons.prems(3) by simp_all
  have n: "length fs + 2 < NINODES" "16 * length des + 16 \<le> MAXFILE * BSIZE" using Cons.prems(4,5) by simp_all
  have "cost (16 * length des + 16) \<le> cost (16 * (length des + length (arg # args)))" by (rule cost_mono) simp
  then have room: "nmeta + cost (16 * length des + 16) + costs fs + cost (length (host_data H arg)) \<le> FSSIZE" using Cons.prems(6) by simp
  obtain s1 where s1: "mkfs_files H ROOTINO (arg # args) s = mkfs_files H ROOTINO args s1" "mk_inv s1 ((t, dir_data (des @ [?de])) # fs @ [arg_file H arg])"
    using file_ok [OF Cons.prems(1,2) a(1) n room] by blast
  have 1: "names16 (des @ [?de])" using Cons.prems(2) by simp
  have 2: "length (fs @ [arg_file H arg]) + 1 + length args < NINODES" using Cons.prems(4) by simp
  have 3: "16 * (length (des @ [?de]) + length args) \<le> MAXFILE * BSIZE" using Cons.prems(5) by simp
  have 4: "nmeta + cost (16 * (length (des @ [?de]) + length args)) + costs (fs @ [arg_file H arg]) + costs (map (arg_file H) args) \<le> FSSIZE"
    using Cons.prems(6) by simp
  show ?case using Cons.IH [OF s1(2) 1 a(2) 2 3 4] unfolding s1(1) by simp
qed simp

section \<open>The whole image\<close>

lemma wsect_zeros:
  assumes "\<And>i. sects s i = replicate BSIZE 0" and "n \<le> FSSIZE"
  shows "fold (\<lambda>i. wsect (word_of_nat i) (replicate BSIZE 0)) [0..<n] s = s\<lparr>nsects := max (nsects s) n\<rparr>"
  using assms(2)
proof (induction n)
  case (Suc n)
  have u: "unat (word_of_nat n :: uint32) = n" using Suc.prems by (simp add: unat_of_nat FSSIZE_def)
  have z: "(sects s)(n := replicate BSIZE 0) = sects s" using assms(1) by (simp add: fun_eq_iff)
  show ?case using Suc u z by (simp add: wsect_def)
qed simp

lemma dino_zeros: "dinode_at (replicate BSIZE 0) (i mod IPB) = zero_dinode"
proof -
  have k: "i mod IPB < 16" by (simp add: IPB_def BSIZE_def)
  have g: "get_bytes (replicate BSIZE (0 :: uchar)) j n = replicate n 0" if "j + n \<le> BSIZE" for j n
    using that by (simp add: get_bytes_def)
  have z: "of_le_bytes (replicate n (0 :: uchar)) = (0 :: 'a :: len word)" for n
    by (induction n) (simp_all add: of_le_bytes_def)
  have 2: "get16 (replicate BSIZE 0) (64 * (i mod IPB) + j) = 0" if "j \<le> 62" for j using g [of "64 * (i mod IPB) + j" 2] k that z by (simp add: get16_def BSIZE_def)
  have 4: "get32 (replicate BSIZE 0) (64 * (i mod IPB) + j) = 0" if "j \<le> 60" for j using g [of "64 * (i mod IPB) + j" 4] k that z by (simp add: get32_def BSIZE_def)
  have a: "map (\<lambda>j. get32 (replicate BSIZE 0) (64 * (i mod IPB) + 12 + 4 * j)) [0..<NDIRECT + 1] = replicate (NDIRECT + 1) 0"
    using 4 by (intro nth_equalityI) (simp_all add: NDIRECT_def add.assoc del: upt_Suc)
  show ?thesis
    using 2 [of 0] 2 [of 2] 2 [of 4] 2 [of 6] 4 [of 8] a by (simp add: dinode_at_def zero_dinode_def Let_def del: upt_Suc)
qed

lemma empty_ok: "mk_inv mkfs_empty []"
proof -
  let ?z = "replicate BSIZE (0 :: uchar)"
  have e: "mkfs_empty = \<lparr>sects = (\<lambda>_. ?z)(1 := put_bytes ?z 0 (superblock_bytes mkfs_sb)), nsects = FSSIZE, msb = mkfs_sb, freeinode = 1, freeblock = word_of_nat nmeta\<rparr>"
    using wsect_zeros [of "\<lparr>sects = \<lambda>_. ?z, nsects = 0, msb = mkfs_sb, freeinode = 1, freeblock = word_of_nat nmeta\<rparr>" FSSIZE]
    by (simp add: mkfs_empty_def Let_def) (simp add: wsect_def FSSIZE_def)
  have l: "length (superblock_bytes mkfs_sb) = 32" by (simp add: superblock_bytes_def)
  have F: "unat (word_of_nat nmeta :: uint32) = nmeta" by (simp add: nmeta_val)
  have ok: "mk_ok mkfs_empty" unfolding mk_ok_def e using l by (simp add: F) (simp add: nmeta_val BSIZE_def FSSIZE_def)
  have "dino mkfs_empty i = zero_dinode" for i
    using dino_zeros by (simp add: dino_def e iblk_def nmeta_val)
  then show ?thesis using ok F unfolding mk_inv_def by (simp add: e NINODES_def)
qed

definition no_entry :: dirent where
  "no_entry = \<lparr>de_inum = 0, de_name = replicate DIRSIZ 0\<rparr>"

definition fill :: "dirent list \<Rightarrow> dirent list" where
  "fill des = des @ replicate (64 - length des mod 64) no_entry"

lemma fill_data:
  assumes "names16 des" and "length des mod 64 \<noteq> 0"
  shows "names16 (fill des)" "dir_data (fill des) = dir_data des @ replicate (16 * (64 - length des mod 64)) 0"
    "length (dir_data (fill des)) = nb (length (dir_data des)) * BSIZE" "length (dir_data (fill des)) = (length (dir_data des) div BSIZE + 1) * BSIZE"
proof -
  have z: "dirent_bytes no_entry = replicate 16 0"
    using replicate_add [of 2 14 "0 :: uchar"] by (simp add: dirent_bytes_def no_entry_def le_bytes_def DIRSIZ_def map_replicate_const)
  show n: "names16 (fill des)" using assms(1) by (auto simp: names16_def fill_def no_entry_def)
  have "concat (replicate n (replicate 16 (0 :: uchar))) = replicate (16 * n) 0" for n by (induction n) (simp_all add: replicate_add [symmetric])
  then show d: "dir_data (fill des) = dir_data des @ replicate (16 * (64 - length des mod 64)) 0" by (simp add: dir_data_def fill_def z)
  have l: "length (dir_data des) = 16 * length des" by (rule length_dir_data [OF assms(1)])
  have dm: "16 * length des div 1024 = length des div 64" "16 * length des mod 1024 = 16 * (length des mod 64)"
    using div_mult_mult1 [of 16 "length des" 64] mod_mult_mult1 [of 16 "length des" 64] by simp_all
  have "16 * length des + 16 * (64 - length des mod 64) = (length des div 64 + 1) * 1024"
  proof -
    have "length des = length des div 64 * 64 + length des mod 64" "length des mod 64 < 64" by simp_all
    then show ?thesis by (simp only: add_mult_distrib)
  qed
  then have "16 * length des + 16 * (64 - length des mod 64) = (16 * length des div 1024 + 1) * 1024" unfolding dm(1) .
  then show 1: "length (dir_data (fill des)) = (length (dir_data des) div BSIZE + 1) * BSIZE" using l d by (simp add: BSIZE_def)
  have "16 * length des mod 1024 \<noteq> 0" using assms(2) dm(2) by simp
  then show "length (dir_data (fill des)) = nb (length (dir_data des)) * BSIZE" using 1 l nb_eq [of "length (dir_data des)"] by (simp add: BSIZE_def)
qed

lemma root_size_ok:
  assumes I: "mk_inv s ((t, dir_data des) # fs)" and des: "names16 des" "length des mod 64 \<noteq> 0"
  shows "\<exists>s'. mkfs_root_size ROOTINO s = Ok s' \<and> mk_inv s' ((t, dir_data (fill des)) # fs)"
proof -
  let ?c = "dir_data des" and ?c' = "dir_data (fill des)" and ?fs = "(t, dir_data des) # fs" and ?di = "dino s (Suc 0)"
  note D = mk_invD [OF I] and L = fill_data [OF des]
  have f: "mk_file s 0 t ?c" using D(4) [of 0] by simp
  note M = mk_fileD [OF f]
  have nb: "nb (length ?c') = nb (length ?c)" using L(3) by (simp add: nb_def BSIZE_def)
  have lim: "length ?c' \<le> MAXFILE * BSIZE" using nb_limits(3) [OF file_atD(2) [OF M(1)]] unfolding L(3) by (rule mult_le_mono1)
  define di2 where "di2 = ?di\<lparr>di_size := word_of_nat (length ?c')\<rparr>"
  have l2: "length (di_addrs di2) = NDIRECT + 1" using file_atD(1) [OF M(1)] by (simp add: di2_def)
  have i: "Suc 0 < NINODES" by (simp add: NINODES_def)
  obtain s2 where w: "winode (word_of_nat (Suc 0)) di2 s = Ok s2" "mk_ok s2" "freeblock s2 = freeblock s" "freeinode s2 = freeinode s"
    and wi: "\<And>j. j < NINODES \<Longrightarrow> dino s2 j = (if j = Suc 0 then di2 else dino s j)" and wb: "\<And>b. b < 2 + nlog \<or> nmeta \<le> b \<Longrightarrow> sects s2 b = sects s b"
    using winode_ok [OF D(1) i l2] by blast
  have "(word_of_nat (length ?c) div word_of_nat BSIZE + 1) * word_of_nat BSIZE = (word_of_nat (length ?c') :: uint32)"
    using lim file_atD(2) [OF M(1)] unfolding L(4)
    by (simp add: word_unat_eq_iff unat_div unat_word_ariths unat_of_nat sizes)
  then have e: "mkfs_root_size ROOTINO s = Ok s2"
    using rinode_ok [OF D(1) i] M(8) w(1) by (simp add: mkfs_root_size_def ROOTINO_def di2_def)
  have d2: "dino s2 (Suc 0) = di2" using wi [OF i] by simp
  have f1: "file_at (sects s) (unat (freeblock s)) di2 (length ?c')" using file_same [OF M(1) nb lim] by (simp add: di2_def)
  have v: "sects s2 b = sects s b" if "b \<in> mset (sects s) di2" for b using file_atD(5) [OF f1 that] by (intro wb) simp
  have F: "unat (freeblock s) \<le> unat (freeblock s2)" using w(3) by simp
  have C: "file_at (sects s2) (unat (freeblock s2)) di2 (length ?c')" "mset (sects s2) di2 = mset (sects s) di2"
    "\<And>j. j div BSIZE < nb (length ?c') \<Longrightarrow> mbyte (sects s2) di2 j = mbyte (sects s) di2 j"
    by (assumption | rule inode_file_cong [OF f1 F] v)+
  have cont: "mbyte (sects s2) di2 j = ?c' ! j" if "j < length ?c'" for j
  proof -
    have "mbyte (sects s2) di2 j = mbyte (sects s) ?di j" using C(3) [OF nb_limits(1) [OF that]] by (simp add: di2_def)
    moreover have "mbyte (sects s) ?di j = 0" if "\<not> j < length ?c" using M(3) that \<open>j < length ?c'\<close> L(3) by (simp add: tail0_def)
    ultimately show ?thesis using M(2) [of j] that L(2) by (cases "j < length ?c") (simp_all add: nth_append)
  qed
  have t2: "tail0 (sects s2) di2 (length ?c')" using L(3) nb by (auto simp: tail0_def)
  have new: "mk_file s2 0 t ?c'"
    using C(1) t2 cont M(4-7) unfolding mk_file_def d2 Let_def by (simp add: di2_def)
  have "mk_inv s2 (?fs[0 := (t, ?c')])"
  proof (rule mk_inv_replace [OF I _ w(2,4) _ F new])
    show "unat (freeblock s2) + cost (length (snd (?fs ! 0))) = unat (freeblock s) + cost (length ?c')" using w(3) nb by (simp add: cost_def)
    show "mset (sects s2) (dino s2 (Suc 0)) \<subseteq> mset (sects s) ?di \<union> {unat (freeblock s)..<unat (freeblock s2)}" unfolding d2 C(2) by (simp add: di2_def)
    show "sects s2 b = sects s b" if "b < 2 + nlog \<or> nmeta \<le> b" for b by (rule wb [OF that])
    show "dino s2 i = dino s i" if "i < NINODES" "i \<noteq> Suc 0" for i using wi [OF that(1)] that(2) by simp
  qed simp
  then show ?thesis using e by simp
qed

lemma balloc_buf:
  "m \<le> 8 * length d \<Longrightarrow> length (fold (\<lambda>i buf. buf[i div 8 := buf ! (i div 8) OR bit_mask i]) [0..<m] d) = length d \<and>
   (bit_at (fold (\<lambda>i buf. buf[i div 8 := buf ! (i div 8) OR bit_mask i]) [0..<m] d) j \<longleftrightarrow> bit_at d j \<or> j < m)"
proof (induction m)
  case (Suc m)
  let ?b = "fold (\<lambda>i buf. buf[i div 8 := buf ! (i div 8) OR bit_mask i]) [0..<m] d"
  have "m div 8 < length ?b" using Suc by (simp add: less_mult_imp_div_less)
  then show ?case using Suc bit_at_update(1) [of m ?b j] by auto
qed simp

text \<open>The image: the files, and the bitmap in its block.\<close>

definition mk_image :: "mkfs \<Rightarrow> mkfs \<Rightarrow> bool" where
  "mk_image m s \<longleftrightarrow> (\<forall>b. b \<noteq> 2 + nlog + ninodeblocks \<longrightarrow> sects m b = sects s b) \<and> length (sects m (2 + nlog + ninodeblocks)) = BSIZE \<and>
     (\<forall>j < FSSIZE. bit_at (sects m (2 + nlog + ninodeblocks)) j \<longleftrightarrow> j < unat (freeblock s))"

lemma balloc_ok:
  assumes "mk_ok s"
  shows "\<exists>m. mkfs_balloc (sint (freeblock s)) s = Ok m \<and> mk_image m s"
proof -
  obtain f where f: "freeblock s = word_of_nat f" "unat (freeblock s) = f" "f \<le> FSSIZE" using mk_okD(5) [OF assms] that [of "unat (freeblock s)"] by simp
  have sint: "sint (freeblock s) = int f" unfolding f(1) by (rule sint_of_nat_small) (use f(3) in \<open>simp add: FSSIZE_def\<close>)
  let ?buf = "fold (\<lambda>i buf. buf[i div 8 := buf ! (i div 8) OR bit_mask i]) [0..<f] (replicate BSIZE 0)"
  have u: "unat (sb_bmapstart mkfs_sb) = 2 + nlog + ninodeblocks" by (simp add: mkfs_sb_def nmeta_val)
  have e: "mkfs_balloc (sint (freeblock s)) s = Ok (wsect (sb_bmapstart mkfs_sb) ?buf s)"
    unfolding sint using f(3) mk_okD(2) [OF assms] by (simp add: mkfs_balloc_def FSSIZE_def BSIZE_def)
  have z: "\<not> bit_at (replicate BSIZE 0) j" if "j < FSSIZE" for j
    using that by (simp add: bit_at_def FSSIZE_def BSIZE_def)
  have "f \<le> 8 * length (replicate BSIZE (0 :: uchar))" using f(3) by (simp add: FSSIZE_def BSIZE_def)
  note B = balloc_buf [OF this]
  have S: "sects (wsect (sb_bmapstart mkfs_sb) ?buf s) = (sects s)(2 + nlog + ninodeblocks := ?buf)"
    unfolding u [symmetric] by (rule sects_wsect) (simp add: u nmeta_val FSSIZE_def)
  have "mk_image (wsect (sb_bmapstart mkfs_sb) ?buf s) s"
    unfolding mk_image_def S f(2) using B z by simp
  then show ?thesis using e by blast
qed

text \<open>The entries of the root directory.\<close>

definition root_entries :: "uchar list list \<Rightarrow> dirent list" where
  "root_entries argv = dir_entry 1 (chars ''.'') # dir_entry 1 (chars ''..'') # arg_entries 2 (drop 2 argv)"

lemma length_arg_entries [simp]: "length (arg_entries i args) = length args"
  by (induction args arbitrary: i) simp_all

lemma root_entries_facts: "names16 (root_entries argv)" "2 \<le> length argv \<Longrightarrow> length (root_entries argv) = length argv"
  using names16_simps(2) [of 1] names16_simps(4) [of 2 "drop 2 argv"] by (simp_all add: root_entries_def names16_def)

lemma main_ok:
  assumes argv: "2 \<le> length argv" "h_create H (argv ! 1)" and args: "\<forall>arg \<in> set (drop 2 argv). arg_ok H arg"
    and n: "length argv \<le> NINODES" "length argv mod 64 \<noteq> 0"
    and room: "nmeta + cost (16 * length argv) + costs (map (arg_file H) (drop 2 argv)) \<le> FSSIZE"
  shows "\<exists>m s. mkfs_main H argv = Ok m \<and> mk_image m s \<and> mk_inv s ((T_DIR, dir_data (fill (root_entries argv))) # map (arg_file H) (drop 2 argv))"
proof -
  let ?args = "drop 2 argv"
  let ?dot = "dir_entry 1 (chars ''.'')" and ?dd = "dir_entry 1 (chars ''..'')"
  have r: "ROOTINO = word_of_nat (Suc 0)" by (simp add: ROOTINO_def)
  obtain s1 where s1: "mkfs_ialloc T_DIR mkfs_empty = Ok (ROOTINO, s1)" "mk_inv s1 [(T_DIR, dir_data [])]"
    using ialloc_ok [OF empty_ok, of T_DIR] by (auto simp: r NINODES_def dir_data_def)
  have c: "cost 16 \<le> cost (16 * length argv)" "cost 32 \<le> cost (16 * length argv)" using argv(1) by (intro cost_mono; simp)+
  have lim: "(32 :: nat) \<le> MAXFILE * BSIZE" by (simp add: sizes)
  obtain s2 where s2: "mkfs_link ROOTINO ROOTINO (chars ''.'') s1 = Ok s2" "mk_inv s2 [(T_DIR, dir_data [?dot])]"
    using link_ok [OF s1(2), of 1 "chars ''.''"] lim room c(1) by (auto simp: NINODES_def ROOTINO_def)
  obtain s3 where s3: "mkfs_link ROOTINO ROOTINO (chars ''..'') s2 = Ok s3" "mk_inv s3 [(T_DIR, dir_data [?dot, ?dd])]"
    using link_ok [OF s2(2), of 1 "chars ''..''"] lim room c(2) by (auto simp: NINODES_def ROOTINO_def)
  have nm: "names16 [?dot, ?dd]" using names16_simps(2) by (simp add: names16_def)
  have l: "length [?dot, ?dd] + length ?args = length argv" using argv(1) by simp
  have l2: "16 * (length [?dot, ?dd] + length ?args) \<le> MAXFILE * BSIZE" unfolding l using n(1) by (simp add: sizes)
  have nn: "length ([] :: (ushort \<times> uchar list) list) + 1 + length ?args < NINODES" using n(1) argv(1) by simp
  obtain s4 where s4: "mkfs_files H ROOTINO ?args s3 = Ok s4" "mk_inv s4 ((T_DIR, dir_data (root_entries argv)) # map (arg_file H) ?args)"
    using files_ok [OF s3(2) nm args nn l2, unfolded l] room by (auto simp: root_entries_def numeral_2_eq_2)
  have nr: "length (root_entries argv) mod 64 \<noteq> 0" using root_entries_facts(2) [OF argv(1)] n(2) by simp
  obtain s5 where s5: "mkfs_root_size ROOTINO s4 = Ok s5" "mk_inv s5 ((T_DIR, dir_data (fill (root_entries argv))) # map (arg_file H) ?args)"
    using root_size_ok [OF s4(2) root_entries_facts(1) nr] by blast
  obtain m where m: "mkfs_balloc (sint (freeblock s5)) s5 = Ok m" "mk_image m s5" using balloc_ok [OF mk_invD(1) [OF s5(2)]] by blast
  have "mkfs_main H argv = Ok m" using argv s1(1) s2(1) s3(1) s4(1) s5(1) m(1) by (simp add: mkfs_main_def)
  then show ?thesis using m(2) s5(2) by blast
qed

end
