(* ===== verification/Mkfs_Mount.thy ===== *)
theory Mkfs_Mount
  imports Mkfs_Spec
begin

text \<open>
  The kernel's view of an image that \<^verbatim>\<open>mkfs\<close> built: \<^verbatim>\<open>fsinit\<close> on a machine with such a disk returns
  in a state with a well-formed file system.
\<close>

section \<open>Starting with an empty log\<close>

lemma superblock_read: "superblock_of (put_bytes (replicate BSIZE 0) 0 (superblock_bytes x)) = x"
proof -
  have g: "get_bytes (put_bytes (replicate BSIZE 0) 0 bs) i 4 = take 4 (drop i bs)" if "i + 4 \<le> length bs" for bs :: "uchar list" and i
    using that by (simp add: get_bytes_def put_bytes_def take_drop)
  have l: "length (superblock_bytes x) = 32" by (simp add: superblock_bytes_def)
  have G: "get32 (put_bytes (replicate BSIZE 0) 0 (superblock_bytes x)) i = of_le_bytes (take 4 (drop i (superblock_bytes x)))" if "i \<le> 28" for i
    using g [of i "superblock_bytes x"] l that by (simp add: get32_def)
  show ?thesis
    by (simp add: superblock_of_def G) (simp add: superblock_bytes_def of_le_bytes_le_bytes)
qed

lemma readsb_ok:
  assumes D: "virtio_device D" and r: "booted r q"
  shows "\<exists>r'. readsb D ROOTDEV r = Ok (superblock_of (content (vdev r) 1), r') \<and> bstep r r' \<and> booted r' q \<and> vdev r' = vdev r"
proof -
  have R: "bres r q {} Map.empty" "sized r" using r by (simp_all add: booted_def)
  obtain b r1 where 1: "bread D ROOTDEV 1 r = Ok (b, r1)" "bstep r r1" "bres r1 q {} [b \<mapsto> 1]" "view r1 = view r" "vdev r1 = vdev r"
    using bres_bread [OF D R(1), of 1] by (auto simp: layout_defs)
  have v: "view r 1 = content (vdev r) 1" using bres_clean [OF R(1), of 1] by simp
  have d: "bdata (bufs r1 b) = content (vdev r) 1" using bres_data [OF 1(3), of b] 1(4) v by simp
  obtain r2 where 2: "brelse b r1 = Ok r2" "bstep r1 r2" "bres r2 q {} Map.empty" "view r2 = view r1" "vdev r2 = vdev r1"
    using bres_brelse [OF 1(3), of b 1] 1(4,5) v by auto
  have "readsb D ROOTDEV r = Ok (superblock_of (content (vdev r) 1), r2)" using 1(1) 2(1) d by (simp add: readsb_def)
  moreover have "booted r2 q" using 2(3) R(2) 2(4) 1(4) by (simp add: booted_def sized_def)
  ultimately show ?thesis using bstep_trans [OF 1(2) 2(2)] 1(5) 2(5) by auto
qed

lemma recover_empty_frame:
  assumes D: "virtio_device D" and r: "booted r q" and l: "log_dev (klog r) = ROOTDEV" "unat (log_start (klog r)) + LOGSIZE + 1 < 2 ^ 31"
    and h: "get32 (content (vdev r) (ucast (log_start (klog r)))) 0 = 0" and e: "recover_from_log D r = Ok r'"
  shows "lstep r r'"
proof -
  have R: "bres r q {} Map.empty" "sized r" using r by (simp_all add: booted_def)
  let ?n = "log_start (klog r)"
  have v: "view r ?n = content (vdev r) (ucast ?n)" using bres_clean [OF R(1)] by simp
  obtain b r1 where 1: "bread D ROOTDEV ?n r = Ok (b, r1)" "bstep r r1" "bres r1 q {} [b \<mapsto> ?n]" "view r1 = view r" "vdev r1 = vdev r"
    using bres_bread [OF D R(1), of ?n] l(2) by (auto simp: layout_defs)
  have d: "bdata (bufs r1 b) = content (vdev r) (ucast ?n)" using bres_data [OF 1(3), of b] 1(4) v by simp
  define l where "l = disk_log (klog r) (content (vdev r) (ucast ?n))"
  define r2 where "r2 = upd_log (\<lambda>_. l) r1"
  have k1: "klog r1 = klog r" by (rule bstep_klog [OF 1(2)])
  have s0: "sint (0 :: uint32) = 0" by simp
  have lw: "log_wf l" "lh_n l = 0" "log_start l = ?n"
    using assms(3,4) h by (simp_all add: l_def log_wf_def logged_def) (simp add: disk_log_def Let_def)
  have vv: "view r2 = view r1" "vdev r2 = vdev r1" "bres r2 q {} [b \<mapsto> ?n]" using 1(3) by (simp_all add: r2_def)
  obtain r3 where 3: "brelse b r2 = Ok r3" "bstep r2 r3" "bres r3 q {} Map.empty" "view r3 = view r2"
    using bres_brelse [OF vv(3), of b ?n] vv(1,2) 1(4,5) v by auto
  have rh: "read_head D r = Ok r3"
    using 1(1) d 3(1) k1 h assms(3) by (simp add: read_head_def Let_def r2_def l_def disk_log_def upd_log_def cong: if_cong)
  have k3: "klog r3 = l" using bstep_klog [OF 3(2)] by (simp add: r2_def upd_log_def)
  have it: "install_trans D True r3 = Ok r3" using k3 lw(2) by (simp add: install_trans_def install_loop.simps)
  define r4 where "r4 = upd_log (lh_n_update (\<lambda>_. 0)) r3"
  have k4: "klog r4 = l\<lparr>lh_n := 0\<rparr>" using k3 by (simp add: r4_def)
  have z: "sized r4" "bres r4 q {} Map.empty" using R(2) 3(3,4) vv(1) 1(4) by (simp_all add: r4_def sized_def)
  obtain r5 where "write_head D r4 = Ok r5" "bstep r4 r5"
    using write_head_spec [OF D log_wf_clear [OF lw(1)] k4 z(2) _ _ z(1)] by (auto simp: layout_defs)
  then have b: "bstep r4 r'" using e rh it by (simp add: recover_from_log_def r4_def)
  have "lstep r r3" using lstep_trans [OF lstep_upd_log [OF bstep_lstep [OF 1(2)]] bstep_lstep [OF 3(2) [unfolded r2_def]]] .
  then show ?thesis unfolding r4_def using lstep_trans [OF lstep_upd_log bstep_lstep [OF b [unfolded r4_def]]] by blast
qed

lemma fsinit_clean:
  fixes r :: "'a fsys_scheme"
  assumes D: "virtio_device D" and r: "booted r q" and x: "superblock_of (content (vdev r) 1) = x" "sb_magic x = FSMAGIC" "unat (sb_logstart x) + LOGSIZE + 1 < 2 ^ 31"
    and h: "get32 (content (vdev r) (ucast (sb_logstart x))) 0 = 0"
  shows "\<exists>r'. fsinit D ROOTDEV r = Ok r' \<and> log_inv r' q Map.empty \<and> sb r' = x \<and> log_start (klog r') = sb_logstart x \<and> log_size (klog r') = sb_nlog x \<and>
    (\<forall>b. b \<notin> log_area (klog r') \<longrightarrow> view r' b = content (vdev r) (ucast b))"
proof -
  obtain r1 where 1: "readsb D ROOTDEV r = Ok (x, r1)" "booted r1 q" "vdev r1 = vdev r" using readsb_ok [OF D r] x(1) by auto
  define r2 where "r2 = r1\<lparr>sb := x\<rparr>"
  have b2: "booted r2 q" "vdev r2 = vdev r"
    using 1(2,3) bres_frame [of r1 q "{}" Map.empty r2] by (simp_all add: r2_def booted_def sized_def view_def)
  let ?l = "(klog r2)\<lparr>log_lock := initlock, log_start := sb_logstart x, log_size := sb_nlog x, log_dev := ROOTDEV\<rparr>"
  define r3 where "r3 = upd_log (\<lambda>l. l\<lparr>log_lock := initlock, log_start := sb_logstart x, log_size := sb_nlog x, log_dev := ROOTDEV\<rparr>) r2"
  have wf: "log_wf (disk_log ?l (content (vdev r2) (ucast (sb_logstart x))))"
    using x(3) h b2(2) by (simp add: log_wf_def logged_def) (simp add: disk_log_def Let_def)
  obtain r' where I: "initlog D ROOTDEV x r2 = Ok r'" "log_inv r' q Map.empty" "lh_n (klog r') = 0" "log_start (klog r') = sb_logstart x" "log_size (klog r') = sb_nlog x"
    "\<forall>b. b \<notin> log_area (klog r') \<longrightarrow> content (vdev r') (ucast b) = replay (sb_logstart x) (content (vdev r2)) (ucast b)"
    using initlog_recovers [OF D b2(1) refl refl wf] h b2(2) by (auto simp: layout_defs)
  have rec: "recover_from_log D r3 = Ok r'" using I(1) by (simp add: initlog_def r3_def layout_defs split: if_splits)
  have b3: "booted r3 q" using b2 by (simp add: r3_def booted_def sized_def)
  have k3: "log_dev (klog r3) = ROOTDEV" "log_start (klog r3) = sb_logstart x" "vdev r3 = vdev r" using b2(2) by (simp_all add: r3_def)
  have "lstep r3 r'" by (rule recover_empty_frame [OF D b3 k3(1) _ _ rec]) (use x(3) h in \<open>simp_all add: k3\<close>)
  then have sb: "sb r' = x" using lstep_fs(1) [of r3 r'] by (simp add: r3_def r2_def upd_log_def)
  have "view r' b = content (vdev r) (ucast b)" if "b \<notin> log_area (klog r')" for b
    using I(6) that bres_clean [OF log_invD(3) [OF I(2)], of b] I(3) h b2(2) by (simp add: logged_def replay_def)
  then show ?thesis
    using 1(1) x(2) I(1,2,4,5) sb by (auto simp: fsinit_def r2_def)
qed

section \<open>The file system of the image\<close>

text \<open>A kernel state \<open>s\<close> that has the image \<open>m\<close> on its disk, built from the state \<open>g\<close> of \<^verbatim>\<open>mkfs\<close>.\<close>

definition mounted :: "mkfs \<Rightarrow> mkfs \<Rightarrow> 'a fsys_scheme \<Rightarrow> bool" where
  "mounted m g s \<longleftrightarrow> mk_image m g \<and> sb s = mkfs_sb \<and> log_start (klog s) = 2 \<and> log_size (klog s) = word_of_nat nlog \<and>
     (\<forall>b. 2 + nlog \<le> unat b \<and> unat b < FSSIZE \<longrightarrow> view s b = sects m (unat b))"

lemma mkfs_sb_simps [simp]: "sb_size mkfs_sb = 2000" "sb_ninodes mkfs_sb = 200" "sb_inodestart mkfs_sb = 32" "sb_bmapstart mkfs_sb = 45" "sb_logstart mkfs_sb = 2"
  "sb_nlog mkfs_sb = 30" "sb_magic mkfs_sb = FSMAGIC"
  by (simp_all add: mkfs_sb_def nmeta_val FSSIZE_def NINODES_def)

lemma mkfs_log_area:
  assumes "log_start l = 2" and "log_size l = word_of_nat nlog" and "b \<in> log_area l"
  shows "2 \<le> unat b" "unat b < 32"
proof -
  have c: "log_cap l \<le> 29" using assms(2) by (simp add: log_cap_def nmeta_val)
  obtain t where t: "b = 2 \<or> b = 2 + word_of_nat t + 1 \<and> t < 29" using assms(1,3) c unfolding log_area_def lblk_def by fastforce
  have "unat (2 + word_of_nat t + 1 :: uint32) = t + 3" if "t < 29" using that by (simp add: unat_word_ariths unat_of_nat)
  then show "2 \<le> unat b" "unat b < 32" using t by auto
qed

lemma mkfs_blocks:
  shows "unat (i :: uint32) < 200 \<Longrightarrow> unat (IBLOCK i mkfs_sb) = iblk (unat i)" "unat (c :: uint32) < 2000 \<Longrightarrow> BBLOCK c mkfs_sb = 45"
proof -
  show "unat i < 200 \<Longrightarrow> unat (IBLOCK i mkfs_sb) = iblk (unat i)" using IBLOCK_image(1) [of "unat i"] by (simp add: NINODES_def)
  have "unat c < 2000 \<Longrightarrow> unat (BBLOCK c mkfs_sb) = 45" by (simp add: BBLOCK_def BPB_def BSIZE_def unat_word_ariths unat_div)
  then show "unat c < 2000 \<Longrightarrow> BBLOCK c mkfs_sb = 45" by (simp add: word_unat_eq_iff)
qed

lemma mountedD:
  assumes M: "mounted m g s" and I: "mk_inv g fs"
  shows "sb s = mkfs_sb" "b \<in> log_area (klog s) \<Longrightarrow> 2 \<le> unat b \<and> unat b < 32" "unat b < 2000 \<Longrightarrow> used s b \<longleftrightarrow> unat b < unat (freeblock g)"
    "nmeta \<le> unat b \<Longrightarrow> unat b < FSSIZE \<Longrightarrow> view s b = sects g (unat b)" "i < NINODES \<Longrightarrow> disk_inode s (word_of_nat i) = dino g i"
    "unat (freeblock g) \<le> FSSIZE" "nmeta \<le> unat (freeblock g)"
proof -
  note D = mk_invD [OF I]
  show sb: "sb s = mkfs_sb" using M by (simp add: mounted_def)
  show "b \<in> log_area (klog s) \<Longrightarrow> 2 \<le> unat b \<and> unat b < 32" using M mkfs_log_area unfolding mounted_def by blast
  have v: "view s b = sects m (unat b)" if "32 \<le> unat b" "unat b < 2000" for b using M that by (simp add: mounted_def nmeta_val FSSIZE_def)
  have im: "mk_image m g" using M by (simp add: mounted_def)
  have vg: "view s b = sects g (unat b)" if "32 \<le> unat b" "unat b < 2000" "unat b \<noteq> 45" for b using v [of b] im that by (simp add: mk_image_def nmeta_val)
  show "nmeta \<le> unat b \<Longrightarrow> unat b < FSSIZE \<Longrightarrow> view s b = sects g (unat b)" by (rule vg) (simp_all add: nmeta_val FSSIZE_def)
  show "used s b \<longleftrightarrow> unat b < unat (freeblock g)" if "unat b < 2000"
    using im that v [of 45] by (simp add: used_def sb mkfs_blocks(2) mk_image_def nmeta_val FSSIZE_def BPB_def BSIZE_def)
  show "disk_inode s (word_of_nat i) = dino g i" if i: "i < NINODES"
  proof -
    have "32 \<le> iblk i \<and> iblk i < 45" using iblk_limits [OF i] by (simp add: nmeta_val)
    then have "view s (IBLOCK (word_of_nat i) mkfs_sb) = sects g (iblk i)" using vg [of "IBLOCK (word_of_nat i) mkfs_sb"] IBLOCK_image(1) [OF i] by simp
    then show ?thesis using IBLOCK_image(2) [OF i] by (simp add: disk_inode_def dino_def sb)
  qed
  show "unat (freeblock g) \<le> FSSIZE" "nmeta \<le> unat (freeblock g)" using mk_okD(4,5) [OF D(1)] by simp_all
qed

lemma mounted_fs_ok:
  assumes M: "mounted m g s" and I: "mk_inv g fs"
  shows "fs_ok s" "nmeta \<le> unat b \<Longrightarrow> unat b < unat (freeblock g) \<Longrightarrow> data_block s b"
proof -
  note D = mountedD [OF M I]
  have F: "46 \<le> unat (freeblock g)" "unat (freeblock g) \<le> 2000" using D(6,7) by (simp_all add: nmeta_val FSSIZE_def)
  have lt: "c < 2000 \<longleftrightarrow> unat c < 2000" "c < 200 \<longleftrightarrow> unat c < 200" for c :: uint32 by (simp_all add: word_less_nat_alt)
  have ib: "32 \<le> unat (IBLOCK i mkfs_sb) \<and> unat (IBLOCK i mkfs_sb) < 45" if "unat i < 200" for i
    using iblk_limits [of "unat i"] mkfs_blocks(1) [OF that] that by (simp add: NINODES_def nmeta_val)
  have u: "used s b" if "unat b < 46" for b using D(3) [of b] that F by simp
  have la: "45 \<notin> log_area (klog s)" "c \<in> log_area (klog s) \<Longrightarrow> used s c" for c using D(2) [of 45] D(2) [of c] u [of c] by auto
  have bm: "bitmap_ok s"
    unfolding bitmap_ok_def D(1) using u [of 0] u [of 45] la by (simp add: lt mkfs_blocks(2) BPB_def BSIZE_def)
  have ibk: "IBLOCK i mkfs_sb \<notin> log_area (klog s)" "used s (IBLOCK i mkfs_sb)" "IBLOCK i mkfs_sb \<noteq> 45" "unat (IBLOCK i mkfs_sb) < 2 ^ 31" if "unat i < 200" for i
    using ib [OF that] D(2) [of "IBLOCK i mkfs_sb"] u [of "IBLOCK i mkfs_sb"] by auto
  show "fs_ok s"
    unfolding fs_ok_def D(1) using bm ibk by (simp add: lt mkfs_blocks(2))
  show "data_block s b" if "nmeta \<le> unat b" "unat b < unat (freeblock g)"
  proof -
    have b: "46 \<le> unat b" "unat b < 2000" using that F by (simp_all add: nmeta_val)
    have "b \<noteq> 0" "b \<noteq> 45" "b \<notin> log_area (klog s)" "used s b" using b D(2) [of b] D(3) [of b] that(2) by auto
    moreover have "b \<noteq> IBLOCK i mkfs_sb" if "unat i < 200" for i using ib [OF that] b by auto
    ultimately show ?thesis unfolding data_block_def D(1) using b(2) by (simp add: lt mkfs_blocks(2))
  qed
qed

text \<open>The state in which inode \<open>i\<close> is loaded.\<close>

definition loaded :: "'a fsys_scheme \<Rightarrow> uint32 \<Rightarrow> 'a fsys_scheme" where
  "loaded s i = s\<lparr>itable := \<lambda>_. inode_of i (disk_inode s i)\<rparr>"

lemma mounted_file:
  assumes M: "mounted m g s" and I: "mk_inv g fs" and k: "k < length fs" "fs ! k = (t, c)" and i: "i = word_of_nat (Suc k)"
  shows "inode_ok (loaded s i) 0" "fdata (loaded s i) 0 = c" "mapped (loaded s i) 0 0 (length c)"
    "di_type (disk_inode s i) = t" "di_nlink (disk_inode s i) = 1" "di_size (disk_inode s i) = word_of_nat (length c)"
proof -
  note D = mountedD [OF M I] and E = mk_invD [OF I]
  let ?di = "dino g (Suc k)" 
  let ?s = "loaded s i"
  have n: "Suc k < NINODES" using k(1) E(3) by simp
  have f: "mk_file g k t c" using E(4) [OF k(1)] k(2) by simp
  note F = mk_fileD [OF f] and A = file_atD [OF mk_fileD(1) [OF f]]
  have di: "disk_inode s i = ?di" unfolding i by (rule D(5) [OF n])
  show "di_type (disk_inode s i) = t" "di_nlink (disk_inode s i) = 1" "di_size (disk_inode s i) = word_of_nat (length c)" using F(4,7,8) di by simp_all
  have ld: "itable ?s ip = inode_of i ?di" "view ?s = view s" "sb ?s = sb s" "klog ?s = klog s" for ip
    by (simp_all add: loaded_def di view_def)
  have mi: "iind ?s 0 = mind ?di" by (simp add: iind_def mind_def ld inode_of_def)
  have vg: "view s b = sects g (unat b)" if "unat b \<in> mset (sects g) ?di" for b
    using A(5) [OF that] D(4) [of b] D(6) by simp
  have fa: "faddr ?s 0 bn = maddr (sects g) ?di bn" for bn
    using vg [OF mset_in(2)] by (auto simp: faddr_def maddr_def mi ld) (simp_all add: inode_of_def)
  have db: "data_block ?s b" if "unat b \<in> mset (sects g) ?di" for b
    using mounted_fs_ok(2) [OF M I, of b] A(5) [OF that] by (simp add: data_block_def used_def ld)
  have blk: "data_block ?s b" if "b \<in> fblocks ?s 0" for b
    by (rule db) (use that in \<open>auto simp: fblocks_def fa mi mset_def\<close>)
  have lt: "p < nb (length c)" if "p < MAXFILE" "maddr (sects g) ?di p \<noteq> 0" for p using A(3) [OF that(1)] that(2) by simp
  have inj: "p = q" if "p < MAXFILE" "q < MAXFILE" "faddr ?s 0 p = faddr ?s 0 q" "faddr ?s 0 p \<noteq> 0" for p q
    using A(6) [OF lt lt, of p q] that by (simp add: fa)
  have ind: "iind ?s 0 = 0" if "p < MAXFILE" "faddr ?s 0 p = iind ?s 0" for p
    using A(7) [OF lt, of p] that by (cases "maddr (sects g) ?di p = 0") (simp_all add: fa mi)
  have nu: "i < 200" unfolding i word_less_nat_alt IBLOCK_image(2) [OF n] using n by (simp add: NINODES_def)
  show "inode_ok ?s 0"
    unfolding inode_ok_def using blk inj ind nu A(1) D(1) by (simp add: ld inode_of_def)
  have n: "nb (length c) \<le> MAXFILE" by (rule nb_limits(3) [OF A(2)])
  show "mapped ?s 0 0 (length c)"
    using A(2) file_at_block(2) [OF F(1) nb_limits(1)] by (simp add: mapped_def fa)
  have byte: "fblk ?s 0 (j div BSIZE) ! (j mod BSIZE) = c ! j" if "j < length c" for j
  proof -
    note B = file_at_block [OF F(1) nb_limits(1) [OF that]]
    show ?thesis using B(2) vg [OF B(3)] F(2) [OF that] by (simp add: fblk_def fa ld mbyte_def)
  qed
  have sz: "unat (isize (itable ?s 0)) = length c" using F(8) A(2) by (simp add: ld inode_of_def unat_of_nat sizes)
  show "fdata ?s 0 = c"
    unfolding fdata_def fbytes_def sz using byte by (intro nth_equalityI) simp_all
qed

lemma arg_entry_inums: "de \<in> set (arg_entries i args) \<Longrightarrow> \<exists>j. i \<le> j \<and> j < i + length args \<and> de_inum de = word_of_nat j"
proof (induction args arbitrary: i)
  case (Cons a args)
  then show ?case
  proof (cases "de = dir_entry i (arg_name a)")
    case False
    then have "de \<in> set (arg_entries (Suc i) args)" using Cons.prems by simp
    from Cons.IH [OF this] obtain j where "Suc i \<le> j" "j < Suc i + length args" "de_inum de = word_of_nat j" by blast
    then show ?thesis by (intro exI [of _ j]) simp
  qed (auto simp: dir_entry_def)
qed simp

lemma mounted_tree:
  assumes M: "mounted m g s" and I: "mk_inv g ((T_DIR, dir_data des) # fs)" and fs: "\<forall>f \<in> set fs. fst f = T_FILE" and des: "names16 des"
    and e: "\<And>de. de \<in> set des \<Longrightarrow> de_inum de = 0 \<or> (\<exists>j. 1 \<le> j \<and> j \<le> Suc (length fs) \<and> de_inum de = word_of_nat j)"
  shows "fs_tree s [ROOTINO \<mapsto> des]"
proof -
  let ?fs = "(T_DIR, dir_data des) # fs"
  note D = mountedD [OF M I] and E = mk_invD [OF I]
  have F: "di_type (disk_inode s i) = fst (?fs ! k)" "di_nlink (disk_inode s i) = 1" if "k < length ?fs" "i = word_of_nat (Suc k)" for k i
    by (rule mounted_file(4,5) [OF M I that(1) prod.collapse [symmetric] that(2)])+
  have ty: "fst (?fs ! k) = (if k = 0 then T_DIR else T_FILE)" if "k < length ?fs" for k
    using fs that nth_mem [of "k - 1" fs] by (cases k) simp_all
  have al: "alive s i \<longleftrightarrow> (\<exists>k < length ?fs. i = word_of_nat (Suc k))" for i
  proof
    assume a: "alive s i"
    then have u: "unat i < NINODES" using D(1) by (simp add: alive_def word_less_nat_alt NINODES_def)
    have "dino g (unat i) \<noteq> zero_dinode" using a D(5) [OF u] by (auto simp: alive_def zero_dinode_def)
    then have "\<not> (unat i = 0 \<or> length ?fs < unat i)" using E(6) [OF u] by blast
    then show "\<exists>k < length ?fs. i = word_of_nat (Suc k)" by (intro exI [of _ "unat i - 1"]) auto
  next
    assume "\<exists>k < length ?fs. i = word_of_nat (Suc k)"
    then obtain k where k: "k < length ?fs" "i = word_of_nat (Suc k)" by blast
    have "Suc k < NINODES" using k(1) E(3) by simp
    then have "i < 200" using IBLOCK_image(2) [of "Suc k"] k(2) by (simp add: word_less_nat_alt NINODES_def)
    then show "alive s i" using F [OF k] ty [OF k(1)] D(1) by (auto simp: alive_def T_DIR_def T_FILE_def)
  qed
  have r1: "ROOTINO = word_of_nat (Suc 0)" by (simp add: ROOTINO_def)
  note R = mounted_file [OF M I _ _ r1, of T_DIR "dir_data des", simplified]
  have root: "dir_at s ROOTINO des"
    using R des length_dir_data [OF des]
    by (simp add: dir_at_def is_dir_def loaded_def [symmetric] Let_def names16_def dir_data_def) (simp add: loaded_def inode_of_def)
  have ent: "alive s (ucast (de_inum de))" if H: "de \<in> set des" "de_inum de \<noteq> 0" for de
  proof -
    obtain j where j: "1 \<le> j" "j \<le> Suc (length fs)" "de_inum de = word_of_nat j" using e [OF H(1)] H(2) by (elim disjE exE conjE) simp_all
    have "ucast (word_of_nat j :: ushort) = (word_of_nat j :: uint32)"
      using j(2) E(3) by (simp add: word_unat_eq_iff unsigned_ucast_eq unat_of_nat take_bit_eq_mod NINODES_def)
    then show ?thesis unfolding al j(3) using j(1,2) by (intro exI [of _ "j - 1"]) simp
  qed
  have dirs: "di_type (disk_inode s i) = T_DIR \<longleftrightarrow> i = ROOTINO" if a: "alive s i" for i
  proof -
    obtain k where k: "k < length ?fs" "i = word_of_nat (Suc k)" using a al by blast
    have "unat i = Suc k" unfolding k(2) by (rule IBLOCK_image(2)) (use k(1) E(3) in simp)
    then have "i = ROOTINO \<longleftrightarrow> k = 0" by (simp add: word_unat_eq_iff ROOTINO_def)
    then show ?thesis using F(1) [OF k] ty [OF k(1)] by (simp add: T_DIR_def T_FILE_def)
  qed
  show ?thesis
    unfolding fs_tree_def using root ent dirs by (simp split: if_splits)
qed

section \<open>The property\<close>

definition on_disk :: "mkfs \<Rightarrow> vdev \<Rightarrow> bool" where
  "on_disk m v \<longleftrightarrow> (\<forall>b < FSSIZE. content v (word_of_nat b) = sects m b)"

lemma fsinit_mounts:
  fixes r :: "'a fsys_scheme"
  assumes m: "mk_image m g" and I: "mk_inv g fs" and D: "virtio_device D" and r: "booted r q" and d: "on_disk m (vdev r)"
  shows "\<exists>s. fsinit D ROOTDEV r = Ok s \<and> log_inv s q Map.empty \<and> mounted m g s"
proof -
  have low: "content (vdev r) (word_of_nat b) = sects g b" if "b < 32" for b
    using d m that by (simp add: on_disk_def mk_image_def nmeta_val FSSIZE_def)
  have c1: "content (vdev r) 1 = put_bytes (replicate BSIZE 0) 0 (superblock_bytes mkfs_sb)" "content (vdev r) 2 = replicate BSIZE 0"
    using low [of 1] low [of 2] mk_invD(8) [OF I, of 1] mk_invD(8) [OF I, of 2] by (simp_all add: nmeta_val)
  obtain s where S: "fsinit D ROOTDEV r = Ok s" "log_inv s q Map.empty" "sb s = mkfs_sb" "log_start (klog s) = 2" "log_size (klog s) = 30"
      "\<forall>b. b \<notin> log_area (klog s) \<longrightarrow> view s b = content (vdev r) (ucast b)"
    using fsinit_clean [OF D r, of mkfs_sb] c1 superblock_read [of mkfs_sb] get32_zeros [of 0 BSIZE] by (auto simp: layout_defs)
  have "view s b = sects m (unat b)" if b: "2 + nlog \<le> unat b" "unat b < FSSIZE" for b
  proof -
    have "b \<notin> log_area (klog s)" using mkfs_log_area(2) [of "klog s" b] S(4,5) b(1) by (auto simp: nmeta_val)
    then have "view s b = content (vdev r) (ucast b)" using S(6) by blast
    also have "\<dots> = content (vdev r) (word_of_nat (unat b))" by (simp add: of_nat_unat)
    also have "\<dots> = sects m (unat b)" using d b(2) unfolding on_disk_def by blast
    finally show ?thesis .
  qed
  then have "mounted m g s" using m S(3-5) by (simp add: mounted_def nmeta_val)
  then show ?thesis using S(1,2) by blast
qed

lemma root_inums:
  assumes "2 \<le> length argv" and "de \<in> set (fill (root_entries argv))"
  shows "de_inum de = 0 \<or> (\<exists>j. 1 \<le> j \<and> j \<le> Suc (length (map (arg_file H) (drop 2 argv))) \<and> de_inum de = word_of_nat j)"
proof -
  consider "de = no_entry" | "de_inum de = word_of_nat 1" | "de \<in> set (arg_entries 2 (drop 2 argv))"
    using assms(2) by (auto simp: fill_def root_entries_def dir_entry_def)
  then show ?thesis
  proof cases
    case 3
    then obtain j where "2 \<le> j" "j < 2 + length (drop 2 argv)" "de_inum de = word_of_nat j" using arg_entry_inums by blast
    then show ?thesis by (intro disjI2 exI [of _ j]) simp
  qed (auto simp: no_entry_def intro!: exI [of _ 1])
qed

text \<open>
  The root directory that the image should have, from the arguments alone: the name of a file is
  what follows the last slash of its argument, without a leading underscore.
\<close>

definition image_name :: "uchar list \<Rightarrow> uchar list" where
  "image_name arg = (let base = rev (takeWhile (\<lambda>c. c \<noteq> 0x2F) (rev arg)) in if take 1 base = chars ''_'' then drop 1 base else base)"

definition image_entry :: "nat \<Rightarrow> uchar list \<Rightarrow> dirent" where
  "image_entry i name = \<lparr>de_inum = word_of_nat i, de_name = take DIRSIZ (name @ replicate DIRSIZ 0)\<rparr>"

definition image_root :: "uchar list list \<Rightarrow> dirent list" where
  "image_root argv = [image_entry 1 (chars ''.''), image_entry 1 (chars ''..'')] @ map (\<lambda>k. image_entry k (image_name (argv ! k))) [2..<length argv]"

lemma dir_entry_image: "dir_entry i name = image_entry i name"
  by (simp add: dir_entry_def image_entry_def mkfs_name_def take_replicate min_absorb1)

lemma arg_name_image:
  assumes "0x2F \<notin> set (shortname arg)"
  shows "arg_name arg = image_name arg"
proof -
  have all: "takeWhile (\<lambda>c. c \<noteq> 0x2F) (rev xs) = rev xs" if "0x2F \<notin> set xs" for xs :: "uchar list"
    unfolding takeWhile_eq_all_conv using that by auto
  have tw: "takeWhile (\<lambda>c. c \<noteq> 0x2F) (rev (p @ 0x2F # xs)) = rev xs" if "0x2F \<notin> set xs" for p xs :: "uchar list"
    using all [OF that] that by (simp add: takeWhile_append)
  have "rev (takeWhile (\<lambda>c. c \<noteq> 0x2F) (rev arg)) = shortname arg"
  proof (cases "take 5 arg = chars ''user/''")
    case True
    then have "arg = chars ''user'' @ 0x2F # shortname arg" using append_take_drop_id [of 5 arg] by (simp add: shortname_def chars_def)
    from arg_cong [OF this, of "\<lambda>xs. takeWhile (\<lambda>c. c \<noteq> 0x2F) (rev xs)"] show ?thesis using tw [OF assms, of "chars ''user''"] by simp
  next
    case False
    then have "shortname arg = arg" by (simp add: shortname_def)
    then show ?thesis using arg_cong [OF all [OF assms], of rev] by simp
  qed
  moreover have "skip_underscore xs = (if take 1 xs = chars ''_'' then drop 1 xs else xs)" for xs
    by (cases xs) (simp_all add: skip_underscore_def chars_def)
  ultimately show ?thesis by (simp add: arg_name_def image_name_def Let_def)
qed

lemma root_entries_image:
  assumes "2 \<le> length argv" and "\<forall>arg \<in> set (drop 2 argv). 0x2F \<notin> set (shortname arg)"
  shows "root_entries argv = image_root argv"
proof -
  have e: "arg_entries i args = map (\<lambda>k. image_entry (i + k) (arg_name (args ! k))) [0..<length args]" for i args
  proof (induction args arbitrary: i)
    case (Cons a args)
    show ?case by (simp add: Cons.IH dir_entry_image upt_conv_Cons map_Suc_upt [symmetric] comp_def del: upt_Suc)
  qed simp
  have "arg_entries 2 (drop 2 argv) = map (\<lambda>k. image_entry k (image_name (argv ! k))) [2..<length argv]"
    by (rule nth_equalityI) (use assms in \<open>auto simp: e arg_name_image nth_drop set_conv_nth\<close>)
  then show ?thesis by (simp add: root_entries_def image_root_def dir_entry_image)
qed

text \<open>
  C27: The image that \<^verbatim>\<open>mkfs\<close> builds is a file system of the kernel. Let the image file be creatable,
  the named files be readable, none longer than the largest file, at most 198 of them, with the
  blocks they need available, and the number of directory entries no multiple of 64. Then \<^verbatim>\<open>mkfs\<close>
  ends without an error. A kernel that has just started, with the image on its disk, returns from
  \<^verbatim>\<open>fsinit\<close>; its log is empty, its file system is well formed, the root is the only directory, its
  entries are \<^verbatim>\<open>.\<close>, \<^verbatim>\<open>..\<close> and one for each file with its name, in the order of the command line
  (\<open>image_root\<close>; \<open>fill\<close> adds free entries up to the end of the block), and the inode of each file has the content that the file
  has on the host.
\<close>

theorem mkfs_image_boots:
  fixes H :: host and argv :: "uchar list list"
  assumes "2 \<le> length argv" and "h_create H (argv ! 1)" and "\<forall>arg \<in> set (drop 2 argv). arg_ok H arg"
    and "length argv \<le> NINODES" and "length argv mod 64 \<noteq> 0"
    and "nmeta + cost (16 * length argv) + (\<Sum>arg \<leftarrow> drop 2 argv. cost (length (host_data H arg))) \<le> FSSIZE"
  shows "\<exists>m. mkfs_main H argv = Ok m \<and> (\<forall>b. length (sects m b) = BSIZE) \<and>
    (\<forall>D (r :: 'a fsys_scheme) q. virtio_device D \<and> booted r q \<and> on_disk m (vdev r) \<longrightarrow>
      (\<exists>s. fsinit D ROOTDEV r = Ok s \<and> log_inv s q Map.empty \<and> fs_ok s \<and> fs_tree s [ROOTINO \<mapsto> fill (image_root argv)] \<and>
        (\<forall>k. 2 \<le> k \<and> k < length argv \<longrightarrow> di_type (disk_inode s (word_of_nat k)) = T_FILE \<and> inode_ok (loaded s (word_of_nat k)) 0 \<and>
          fdata (loaded s (word_of_nat k)) 0 = host_data H (argv ! k))))"
proof -
  let ?fs = "(T_DIR, dir_data (fill (root_entries argv))) # map (arg_file H) (drop 2 argv)"
  have "costs (map (arg_file H) (drop 2 argv)) = (\<Sum>arg \<leftarrow> drop 2 argv. cost (length (host_data H arg)))" by (simp add: comp_def)
  then obtain m g where M: "mkfs_main H argv = Ok m" "mk_image m g" "mk_inv g ?fs" using main_ok [OF assms(1-5)] assms(6) by auto
  have len: "length (sects m b) = BSIZE" for b
    using M(2) mk_okD(3) [OF mk_invD(1) [OF M(3)], of b] by (cases "b = 2 + nlog + ninodeblocks") (simp_all add: mk_image_def)
  have names: "names16 (fill (root_entries argv))"
    using fill_data(1) [OF root_entries_facts(1)] root_entries_facts(2) [OF assms(1)] assms(5) by simp
  have "\<exists>s. fsinit D ROOTDEV r = Ok s \<and> log_inv s q Map.empty \<and> fs_ok s \<and> fs_tree s [ROOTINO \<mapsto> fill (root_entries argv)] \<and>
      (\<forall>k. 2 \<le> k \<and> k < length argv \<longrightarrow> di_type (disk_inode s (word_of_nat k)) = T_FILE \<and> inode_ok (loaded s (word_of_nat k)) 0 \<and>
        fdata (loaded s (word_of_nat k)) 0 = host_data H (argv ! k))"
    if d: "virtio_device D" "booted r q" "on_disk m (vdev r)" for D q and r :: "'a fsys_scheme"
  proof -
    obtain s where s: "fsinit D ROOTDEV r = Ok s" "log_inv s q Map.empty" "mounted m g s" using fsinit_mounts [OF M(2,3) d] by blast
    have tree: "fs_tree s [ROOTINO \<mapsto> fill (root_entries argv)]"
      by (rule mounted_tree [OF s(3) M(3) _ names]) (use root_inums [OF assms(1)] in auto)
    have fl: "di_type (disk_inode s (word_of_nat k)) = T_FILE \<and> inode_ok (loaded s (word_of_nat k)) 0 \<and> fdata (loaded s (word_of_nat k)) 0 = host_data H (argv ! k)"
      if k: "2 \<le> k" "k < length argv" for k
    proof -
      obtain j where j: "k = Suc (Suc j)" using k(1) by (cases k; cases "k - 1") auto
      then have n: "Suc j < length ?fs" "?fs ! Suc j = arg_file H (argv ! k)" using k(2) nth_drop [of 2 argv j] by simp_all
      have w: "word_of_nat k = (word_of_nat (Suc (Suc j)) :: uint32)" by (simp only: j)
      show ?thesis using mounted_file(1,2,4) [OF s(3) M(3) n w] by blast
    qed
    show ?thesis using s(1,2) mounted_fs_ok(1) [OF s(3) M(3)] tree fl by blast
  qed
  moreover have "root_entries argv = image_root argv" using assms(3) by (intro root_entries_image assms(1)) (simp add: arg_ok_def)
  ultimately show ?thesis using M(1) len by simp
qed

text \<open>One file in two pieces, on the sample machine.\<close>

definition demo_host :: host where
  "demo_host = \<lparr>h_create = (\<lambda>_. True), h_open = (\<lambda>arg. if arg = chars ''user/_cat'' then Some [chars ''he'', chars ''llo''] else None)\<rparr>"

definition demo_argv :: "uchar list list" where
  "demo_argv = [chars ''mkfs'', chars ''fs.img'', chars ''user/_cat'']"

definition image_machine :: "mkfs \<Rightarrow> fsys" where
  "image_machine m = lsys.extend (demo_boot \<lparr>image = \<lambda>n. sects m (unat n), writes = []\<rparr>) (fsys.fields demo_sb initlock (\<lambda>_. sample_inode))"

lemma image_machine_booted:
  assumes "\<And>b. length (sects m b) = BSIZE"
  shows "booted (image_machine m) 0" "on_disk m (vdev (image_machine m))"
proof -
  let ?v = "\<lparr>image = \<lambda>n. sects m (unat n), writes = []\<rparr>"
  have f: "bufs (image_machine m) = bufs (demo_boot ?v)" "bcache_lock (image_machine m) = bcache_lock (demo_boot ?v)" "disk (image_machine m) = disk (demo_boot ?v)"
    "mycpu (image_machine m) = mycpu (demo_boot ?v)" "ptable (image_machine m) = ptable (demo_boot ?v)" "vdev (image_machine m) = vdev (demo_boot ?v)"
    by (simp_all add: image_machine_def lsys.defs fsys.defs)
  have "bres (image_machine m) 0 {} Map.empty" using demo_boot_bres(1) [of ?v] by (rule bres_frame) (simp_all add: f)
  moreover have "view (image_machine m) n = sects m (unat (ucast n :: uint64))" for n
    using demo_boot_view [of ?v n] by (simp add: view_def f content_def)
  ultimately show "booted (image_machine m) 0" using assms by (simp add: booted_def sized_def)
  show "on_disk m (vdev (image_machine m))"
    by (simp add: on_disk_def f demo_boot_bres content_def FSSIZE_def unat_of_nat)
qed

theorem mkfs_image_boots_witness:
  "\<exists>m s. mkfs_main demo_host demo_argv = Ok m \<and> fsinit ideal_disk ROOTDEV (image_machine m) = Ok s \<and> fs_ok s \<and>
    fs_tree s [ROOTINO \<mapsto> fill (image_root demo_argv)] \<and> fdata (loaded s 2) 0 = chars ''hello''"
proof -
  have args: "\<forall>arg \<in> set (drop 2 demo_argv). arg_ok demo_host arg"
    by (simp add: demo_argv_def arg_ok_def demo_host_def host_data_def shortname_def chars_def sizes)
  have room: "nmeta + cost (16 * length demo_argv) + (\<Sum>arg \<leftarrow> drop 2 demo_argv. cost (length (host_data demo_host arg))) \<le> FSSIZE"
    by (simp add: demo_argv_def demo_host_def host_data_def cost_def nb_def sizes chars_def)
  have n: "2 \<le> length demo_argv" "h_create demo_host (demo_argv ! 1)" "length demo_argv \<le> NINODES" "length demo_argv mod 64 \<noteq> 0"
    by (simp_all add: demo_argv_def demo_host_def NINODES_def)
  obtain m where m: "mkfs_main demo_host demo_argv = Ok m" "\<And>b. length (sects m b) = BSIZE"
    and boot: "\<And>D (r :: fsys) q. virtio_device D \<and> booted r q \<and> on_disk m (vdev r) \<Longrightarrow>
      \<exists>s. fsinit D ROOTDEV r = Ok s \<and> log_inv s q Map.empty \<and> fs_ok s \<and> fs_tree s [ROOTINO \<mapsto> fill (image_root demo_argv)] \<and>
        (\<forall>k. 2 \<le> k \<and> k < length demo_argv \<longrightarrow> di_type (disk_inode s (word_of_nat k)) = T_FILE \<and> inode_ok (loaded s (word_of_nat k)) 0 \<and>
          fdata (loaded s (word_of_nat k)) 0 = host_data demo_host (demo_argv ! k))"
    using mkfs_image_boots [OF n(1,2) args n(3,4) room, where 'a = unit] by blast
  obtain s where s: "fsinit ideal_disk ROOTDEV (image_machine m) = Ok s" "fs_ok s" "fs_tree s [ROOTINO \<mapsto> fill (image_root demo_argv)]"
      "\<forall>k. 2 \<le> k \<and> k < length demo_argv \<longrightarrow> fdata (loaded s (word_of_nat k)) 0 = host_data demo_host (demo_argv ! k)"
    using boot [of ideal_disk "image_machine m" 0] ideal_disk image_machine_booted [OF m(2)] by blast
  have "fdata (loaded s 2) 0 = chars ''hello''"
    using s(4) [rule_format, of 2] by (simp add: demo_argv_def demo_host_def host_data_def) (simp add: chars_def)
  then show ?thesis using m(1) s(1-3) by blast
qed

end
