(* ===== verification/Sched.thy ===== *)
theory Sched
  imports Proc_Sync
begin

text \<open>
  The loop of \<^verbatim>\<open>scheduler\<close> (\<^verbatim>\<open>kernel/proc.c\<close>) on one hart. What runs between the switch to a
  process and the switch back is the code of that process: it is the parameter \<open>run\<close>, a function
  of the process and the state. The loop over the process table returns, besides the state, the
  processes it switched to. The outer loop never ends; it is modelled by the number of its
  iterations.
\<close>

section \<open>scheduler\<close>

type_synonym 'a turn = "nat \<Rightarrow> 'a ptab_scheme \<Rightarrow> 'a ptab_scheme res"

function scheduler_scan :: "'a turn \<Rightarrow> nat \<Rightarrow> 'a ptab_scheme \<Rightarrow> (nat list \<times> 'a ptab_scheme) res" where
  "scheduler_scan run p s =
     (if p < NPROC then
        rbind (scheduler_pick p s) (\<lambda>(chosen, s).
        rbind (if chosen then rbind (run p s) (scheduler_back p) else Ok s) (\<lambda>s.
        rbind (scheduler_scan run (Suc p) s) (\<lambda>(ps, s).
        Ok (if chosen then p # ps else ps, s))))
      else Ok ([], s))"
  by pat_completeness auto
termination
  by (relation "measure (\<lambda>(run, p, s). NPROC - p)") auto

declare scheduler_scan.simps [simp del]

definition scheduler_round :: "'a turn \<Rightarrow> 'a ptab_scheme \<Rightarrow> (nat list \<times> 'a ptab_scheme) res" where
  "scheduler_round run s = scheduler_scan run 0 (s\<lparr>mycpu := intr_on (mycpu s)\<rparr>)"

primrec scheduler_rounds :: "'a turn \<Rightarrow> nat \<Rightarrow> 'a ptab_scheme \<Rightarrow> (nat list list \<times> 'a ptab_scheme) res" where
  "scheduler_rounds run 0 s = Ok ([], s)"
| "scheduler_rounds run (Suc n) s =
     rbind (scheduler_rounds run n s) (\<lambda>(tr, s).
     rbind (scheduler_round run s) (\<lambda>(ps, s). Ok (tr @ [ps], s)))"

definition scheduler :: "'a turn \<Rightarrow> nat \<Rightarrow> 'a ptab_scheme \<Rightarrow> (nat list list \<times> 'a ptab_scheme) res" where
  "scheduler run n s = scheduler_rounds run n (s\<lparr>mycpu := (mycpu s)\<lparr>cpu_proc := None\<rparr>\<rparr>)"

section \<open>What a process owes the scheduler\<close>

definition locks_but :: "nat set \<Rightarrow> 'a ptab_scheme \<Rightarrow> bool" where
  "locks_but A s \<longleftrightarrow> (\<forall>q < NPROC. plock (ptable s q) = (if q \<in> A then held_by (cpu_id (mycpu s)) else initlock))"

definition at_scheduler :: "'a ptab_scheme \<Rightarrow> bool" where
  "at_scheduler s \<longleftrightarrow> noff (mycpu s) = 0 \<and> cpu_proc (mycpu s) = None \<and> locks_but {} s"

definition switched_to :: "nat \<Rightarrow> 'a ptab_scheme \<Rightarrow> bool" where
  "switched_to p s \<longleftrightarrow> noff (mycpu s) = 1 \<and> \<not> intr_get (mycpu s) \<and> cpu_proc (mycpu s) = Some p \<and> state (ptable s p) = RUNNING \<and> locks_but {p} s"

text \<open>
  A process that got the hart comes back through \<^verbatim>\<open>sched\<close>: with its own lock held and no other,
  interrupts off, and no longer \<^verbatim>\<open>RUNNING\<close> (\<open>gives_back\<close>). Only a scheduler takes another process
  out of \<^verbatim>\<open>RUNNABLE\<close>, so on a machine of one hart the others that were runnable still are when the
  process comes back (\<open>keeps_runnable\<close>).
\<close>

definition gives_back :: "'a turn \<Rightarrow> bool" where
  "gives_back run \<longleftrightarrow> (\<forall>p s. p < NPROC \<and> switched_to p s \<longrightarrow> (\<exists>s'. run p s = Ok s' \<and>
     noff (mycpu s') = 1 \<and> \<not> intr_get (mycpu s') \<and> cpu_id (mycpu s') = cpu_id (mycpu s) \<and> locks_but {p} s' \<and> state (ptable s' p) \<noteq> RUNNING))"

definition keeps_runnable :: "'a turn \<Rightarrow> bool" where
  "keeps_runnable run \<longleftrightarrow> (\<forall>p s s'. p < NPROC \<and> switched_to p s \<and> run p s = Ok s' \<longrightarrow>
     (\<forall>q < NPROC. q \<noteq> p \<and> state (ptable s q) = RUNNABLE \<longrightarrow> state (ptable s' q) = RUNNABLE))"

text \<open>
  What the scheduler does when its pass over the table comes to slot \<open>q\<close> in the state \<open>s\<close>: if the
  process there is runnable then, it is \<^verbatim>\<open>RUNNING\<close> when it gets the hart, and the process states are
  the ones it leaves; otherwise nothing changes them.
\<close>

definition states :: "'a ptab_scheme \<Rightarrow> nat \<Rightarrow> procstate" where
  "states s q = state (ptable s q)"

definition pass_step :: "'a turn \<Rightarrow> nat \<Rightarrow> bool \<Rightarrow> 'a ptab_scheme \<Rightarrow> 'a ptab_scheme \<Rightarrow> bool" where
  "pass_step run q chosen s s' \<longleftrightarrow> at_scheduler s' \<and> (chosen \<longleftrightarrow> state (ptable s q) = RUNNABLE) \<and>
     (if chosen then \<exists>u u'. switched_to q u \<and> states u = (states s)(q := RUNNING) \<and> run q u = Ok u' \<and> states s' = states u'
      else states s' = states s)"

lemma pass_step_runnable:
  assumes "keeps_runnable run" and "pass_step run p chosen s s'" and "p < NPROC" and "q < NPROC" "q \<noteq> p" "state (ptable s q) = RUNNABLE"
  shows "state (ptable s' q) = RUNNABLE"
proof (cases chosen)
  case True
  then obtain u u' where u: "switched_to p u" "states u = (states s)(p := RUNNING)" "run p u = Ok u'" "states s' = states u'"
    using assms(2) by (auto simp: pass_step_def)
  have "state (ptable u q) = RUNNABLE" using fun_cong [OF u(2), of q] assms(5,6) by (simp add: states_def)
  then have "state (ptable u' q) = RUNNABLE" using assms(1,3,4,5) u(1,3) unfolding keeps_runnable_def by blast
  then show ?thesis using fun_cong [OF u(4), of q] by (simp add: states_def)
next
  case False
  then have "states s' = states s" using assms(2) by (simp add: pass_step_def)
  from fun_cong [OF this, of q] show ?thesis using assms(6) by (simp add: states_def)
qed

lemma release_depth1:
  assumes "noff c = 1" and "\<not> intr_get c"
  shows "\<exists>c'. release (held_by (cpu_id c)) c = Ok (initlock, c') \<and> noff c' = 0 \<and> cpu_id c' = cpu_id c \<and> cpu_proc c' = cpu_proc c"
  using assms by (simp add: release_held pop_off_def Let_def intr_on_def)

lemma plock_release_depth1:
  assumes "noff (mycpu s) = 1" and "\<not> intr_get (mycpu s)" and "plock (ptable s p) = held_by (cpu_id (mycpu s))"
  shows "\<exists>c'. plock_release p s = Ok (s\<lparr>mycpu := c', ptable := (ptable s)(p := (ptable s p)\<lparr>plock := initlock\<rparr>)\<rparr>) \<and>
    noff c' = 0 \<and> cpu_id c' = cpu_id (mycpu s) \<and> cpu_proc c' = cpu_proc (mycpu s)"
proof -
  obtain c' where "release (held_by (cpu_id (mycpu s))) (mycpu s) = Ok (initlock, c')" "noff c' = 0" "cpu_id c' = cpu_id (mycpu s)" "cpu_proc c' = cpu_proc (mycpu s)"
    using release_depth1 [OF assms(1,2)] by blast
  then show ?thesis using assms(3) by (intro exI [of _ c']) (simp add: plock_release_def upd_proc_def)
qed

section \<open>One turn\<close>

lemma scheduler_turn:
  assumes g: "gives_back run" and s: "at_scheduler s" and p: "p < NPROC"
  shows "\<exists>chosen s'. rbind (scheduler_pick p s) (\<lambda>(chosen, s). rbind (if chosen then rbind (run p s) (scheduler_back p) else Ok s) (\<lambda>s. Ok (chosen, s))) = Ok (chosen, s') \<and>
    pass_step run p chosen s s'"
proof -
  define s1 where "s1 = s\<lparr>mycpu := push_off (mycpu s), ptable := (ptable s)(p := (ptable s p)\<lparr>plock := held_by (cpu_id (mycpu s))\<rparr>)\<rparr>"
  have a: "plock_acquire p s = Ok s1" using s p by (simp add: s1_def at_scheduler_def locks_but_def plock_acquire_free)
  show ?thesis
  proof (cases "state (ptable s p) = RUNNABLE")
    case True
    define s2 where "s2 = (upd_proc p (state_update (\<lambda>_. RUNNING)) s1)\<lparr>mycpu := (mycpu s1)\<lparr>cpu_proc := Some p\<rparr>\<rparr>"
    have pk: "scheduler_pick p s = Ok (True, s2)" using a True by (simp add: scheduler_pick_def s2_def Let_def s1_def)
    have sw: "switched_to p s2" using s p by (auto simp: switched_to_def s2_def s1_def at_scheduler_def locks_but_def)
    obtain s3 where r: "run p s2 = Ok s3" "noff (mycpu s3) = 1" "\<not> intr_get (mycpu s3)" "locks_but {p} s3"
      using g [unfolded gives_back_def, rule_format, OF conjI, OF p sw] by (elim exE conjE) (rule that)
    define s4 where "s4 = s3\<lparr>mycpu := (mycpu s3)\<lparr>cpu_proc := None\<rparr>\<rparr>"
    obtain c where b: "plock_release p s4 = Ok (s4\<lparr>mycpu := c, ptable := (ptable s4)(p := (ptable s4 p)\<lparr>plock := initlock\<rparr>)\<rparr>)"
        "noff c = 0" "cpu_id c = cpu_id (mycpu s4)" "cpu_proc c = cpu_proc (mycpu s4)"
      using plock_release_depth1 [of s4 p] r(2-4) p by (auto simp: s4_def locks_but_def)
    define s5 where "s5 = s4\<lparr>mycpu := c, ptable := (ptable s4)(p := (ptable s4 p)\<lparr>plock := initlock\<rparr>)\<rparr>"
    have "scheduler_back p s3 = Ok s5" using b(1) by (simp add: scheduler_back_def s5_def flip: s4_def)
    moreover have "at_scheduler s5" using b r(4) by (auto simp: at_scheduler_def s5_def s4_def locks_but_def)
    moreover have "states s2 = (states s)(p := RUNNING)" "states s5 = states s3"
      by (auto simp: states_def s5_def s4_def s2_def s1_def)
    ultimately show ?thesis using pk sw r(1) True by (intro exI [of _ True] exI [of _ s5]) (auto simp: pass_step_def)
  next
    case False
    obtain c where b: "plock_release p s1 = Ok (s1\<lparr>mycpu := c, ptable := (ptable s1)(p := (ptable s1 p)\<lparr>plock := initlock\<rparr>)\<rparr>)"
        "noff c = 0" "cpu_id c = cpu_id (mycpu s1)" "cpu_proc c = cpu_proc (mycpu s1)"
      using plock_release_depth1 [of s1 p] s by (auto simp: s1_def at_scheduler_def)
    define s5 where "s5 = s1\<lparr>mycpu := c, ptable := (ptable s1)(p := (ptable s1 p)\<lparr>plock := initlock\<rparr>)\<rparr>"
    have "scheduler_pick p s = Ok (False, s5)" using a b(1) False by (simp add: scheduler_pick_def s5_def s1_def)
    moreover have "at_scheduler s5" using b s by (simp add: at_scheduler_def s5_def s1_def locks_but_def)
    moreover have "states s5 = states s" by (auto simp: states_def s5_def s1_def)
    ultimately show ?thesis using False by (intro exI [of _ False] exI [of _ s5]) (simp add: pass_step_def)
  qed
qed

section \<open>One pass\<close>

lemma scheduler_scan_spec:
  assumes "gives_back run" and "at_scheduler s" and "p \<le> NPROC"
  shows "\<exists>ps t. scheduler_scan run p s = Ok (ps, t NPROC) \<and> t p = s \<and> at_scheduler (t NPROC) \<and> sorted_wrt (<) ps \<and> set ps \<subseteq> {p..<NPROC} \<and>
    (\<forall>q. p \<le> q \<and> q < NPROC \<longrightarrow> pass_step run q (q \<in> set ps) (t q) (t (Suc q)))"
  using assms
proof (induction "NPROC - p" arbitrary: p s)
  case 0
  then show ?case by (intro exI [of _ "[]"] exI [of _ "\<lambda>_. s"]) (auto simp: scheduler_scan.simps [of run])
next
  case (Suc n)
  have p: "p < NPROC" "n = NPROC - Suc p" "Suc p \<le> NPROC" using Suc.hyps(2) by simp_all
  obtain chosen s1 where h: "rbind (scheduler_pick p s) (\<lambda>(chosen, s). rbind (if chosen then rbind (run p s) (scheduler_back p) else Ok s) (\<lambda>s. Ok (chosen, s))) = Ok (chosen, s1)"
      "pass_step run p chosen s s1"
    using scheduler_turn [OF Suc.prems(1,2) p(1)] by blast
  have "at_scheduler s1" using h(2) by (simp add: pass_step_def)
  from Suc.hyps(1) [OF p(2) Suc.prems(1) this p(3)]
  obtain ps t where r: "scheduler_scan run (Suc p) s1 = Ok (ps, t NPROC)" "t (Suc p) = s1" "at_scheduler (t NPROC)" "sorted_wrt (<) ps"
      "set ps \<subseteq> {Suc p..<NPROC}" "\<forall>q. Suc p \<le> q \<and> q < NPROC \<longrightarrow> pass_step run q (q \<in> set ps) (t q) (t (Suc q))"
    by (elim exE conjE) (rule that)
  define ps' where "ps' = (if chosen then p # ps else ps)"
  have e: "scheduler_scan run p s = rbind (rbind (scheduler_pick p s) (\<lambda>(chosen, s). rbind (if chosen then rbind (run p s) (scheduler_back p) else Ok s) (\<lambda>s. Ok (chosen, s))))
      (\<lambda>(chosen, s). rbind (scheduler_scan run (Suc p) s) (\<lambda>(ps, s). Ok (if chosen then p # ps else ps, s)))"
    using p(1) by (subst scheduler_scan.simps) (simp add: rbind_assoc case_prod_beta' cong: rbind_cong)
  have sc: "scheduler_scan run p s = Ok (ps', (t(p := s)) NPROC)" unfolding e h(1) using p(1) by (simp add: r(1) ps'_def)
  have mem: "p \<in> set ps' \<longleftrightarrow> chosen" "q \<noteq> p \<Longrightarrow> q \<in> set ps' \<longleftrightarrow> q \<in> set ps" for q using r(5) by (auto simp: ps'_def)
  have st: "pass_step run q (q \<in> set ps') ((t(p := s)) q) ((t(p := s)) (Suc q))" if "p \<le> q" "q < NPROC" for q
    using that h(2) r(2,6) mem by (cases "q = p") auto
  have "sorted_wrt (<) ps'" "set ps' \<subseteq> {p..<NPROC}" using r(4,5) p(1) by (auto simp: ps'_def)
  with sc st r(3) p(1) show ?case by (intro exI [of _ ps'] exI [of _ "t(p := s)"]) simp
qed

lemma pass_runs_runnable:
  assumes "keeps_runnable run" and "\<forall>q < NPROC. pass_step run q (q \<in> set ps) (t q) (t (Suc q))"
    and "q < NPROC" and "state (ptable (t 0) q) = RUNNABLE"
  shows "q \<in> set ps"
proof -
  have "state (ptable (t j) q) = RUNNABLE" if "j \<le> q" for j
    using that
  proof (induction j)
    case (Suc j)
    then have j: "j < NPROC" "q \<noteq> j" "state (ptable (t j) q) = RUNNABLE" using assms(3) by simp_all
    show ?case by (rule pass_step_runnable [OF assms(1) assms(2) [rule_format, OF j(1)] j(1) assms(3) j(2,3)])
  qed (use assms(4) in simp)
  then show ?thesis using assms(2,3) by (simp add: pass_step_def)
qed

lemma scheduler_round_spec:
  assumes "gives_back run" and "at_scheduler s"
  shows "\<exists>ps t. scheduler_round run s = Ok (ps, t NPROC) \<and> t 0 = s\<lparr>mycpu := intr_on (mycpu s)\<rparr> \<and> at_scheduler (t NPROC) \<and>
    sorted_wrt (<) ps \<and> set ps \<subseteq> {..<NPROC} \<and> (\<forall>q < NPROC. pass_step run q (q \<in> set ps) (t q) (t (Suc q)))"
proof -
  have "at_scheduler (s\<lparr>mycpu := intr_on (mycpu s)\<rparr>)" using assms(2) by (simp add: at_scheduler_def locks_but_def intr_on_def)
  from scheduler_scan_spec [OF assms(1) this, of 0] show ?thesis by (simp add: scheduler_round_def atLeast0LessThan)
qed

lemma scheduler_rounds_spec:
  assumes "gives_back run" and "at_scheduler s"
  shows "\<exists>tr s'. scheduler_rounds run n s = Ok (tr, s') \<and> at_scheduler s'"
proof (induction n)
  case (Suc n)
  then obtain tr s1 where "scheduler_rounds run n s = Ok (tr, s1)" "at_scheduler s1" by blast
  moreover from scheduler_round_spec [OF assms(1) this(2)] obtain ps s2 where "scheduler_round run s1 = Ok (ps, s2)" "at_scheduler s2" by blast
  ultimately show ?case by simp
qed (use assms(2) in simp)

text \<open>
  C9: The scheduler of a hart never panics or hangs as long as every process that gets the hart
  gives it back in the way \<^verbatim>\<open>sched\<close> does (the hypothesis \<open>gives_back\<close> on the code of the processes,
  in whatever state they get the hart). Each pass over the table, here the one after \<open>n\<close> passes,
  goes through states \<open>t 0\<close>, ..., \<open>t NPROC\<close>, the state \<open>t q\<close> being the one in which it comes to
  slot \<open>q\<close>: the process of the slot is switched to, as \<^verbatim>\<open>RUNNING\<close>, exactly when it is runnable in
  that state, whatever the processes before it did, and otherwise no process changes state
  (\<open>pass_step\<close>). The pass visits the slots in their order, each at most once. If no process takes another out of
  \<^verbatim>\<open>RUNNABLE\<close> (\<open>keeps_runnable\<close>), every process runnable when the pass begins is switched to in it,
  so a runnable process waits for at most \<^verbatim>\<open>NPROC\<close> - 1 turns of others.
\<close>

theorem scheduler_runs_every_runnable:
  assumes "gives_back run" and "noff (mycpu s) = 0" and "locks_but {} s"
  shows "\<exists>tr s1 ps t. scheduler run n s = Ok (tr, s1) \<and> scheduler run (Suc n) s = Ok (tr @ [ps], t NPROC) \<and>
    t 0 = s1\<lparr>mycpu := intr_on (mycpu s1)\<rparr> \<and> (\<forall>q < NPROC. pass_step run q (q \<in> set ps) (t q) (t (Suc q))) \<and>
    sorted_wrt (<) ps \<and> set ps \<subseteq> {..<NPROC} \<and> length ps \<le> NPROC \<and>
    (keeps_runnable run \<longrightarrow> (\<forall>q < NPROC. state (ptable s1 q) = RUNNABLE \<longrightarrow> q \<in> set ps))"
proof -
  have "at_scheduler (s\<lparr>mycpu := (mycpu s)\<lparr>cpu_proc := None\<rparr>\<rparr>)" using assms(2,3) by (simp add: at_scheduler_def locks_but_def)
  from scheduler_rounds_spec [OF assms(1) this, of n]
  obtain tr s1 where t: "scheduler run n s = Ok (tr, s1)" "at_scheduler s1" by (auto simp: scheduler_def)
  obtain ps t where r: "scheduler_round run s1 = Ok (ps, t NPROC)" "t 0 = s1\<lparr>mycpu := intr_on (mycpu s1)\<rparr>" "sorted_wrt (<) ps"
      "set ps \<subseteq> {..<NPROC}" "\<forall>q < NPROC. pass_step run q (q \<in> set ps) (t q) (t (Suc q))"
    using scheduler_round_spec [OF assms(1) t(2)] by blast
  have d: "distinct ps" using r(3) strict_sorted_iff by blast
  have "length ps \<le> NPROC" using card_mono [OF _ r(4)] distinct_card [OF d] by simp
  moreover have "scheduler run (Suc n) s = Ok (tr @ [ps], t NPROC)" using t(1) r(1) by (simp add: scheduler_def)
  moreover have "q \<in> set ps" if "keeps_runnable run" "q < NPROC" "state (ptable s1 q) = RUNNABLE" for q
    using pass_runs_runnable [OF that(1) r(5) that(2)] that(3) r(2) by simp
  ultimately show ?thesis using t(1) r(2-5) by blast
qed

text \<open>
  A process that does nothing but give up the hart: it resumes in \<^verbatim>\<open>yield\<close>, and yields again.
\<close>

definition yielder :: "'a turn" where
  "yielder p s = rbind (yield_leave p True s) (\<lambda>s. rbind (yield_enter s) (\<lambda>(b, s). Ok s))"

lemma yielder_turn:
  assumes "p < NPROC" and "switched_to p s"
  shows "\<exists>s'. yielder p s = Ok s' \<and> noff (mycpu s') = 1 \<and> \<not> intr_get (mycpu s') \<and> cpu_id (mycpu s') = cpu_id (mycpu s) \<and> locks_but {p} s' \<and>
    state (ptable s' p) \<noteq> RUNNING \<and> (\<forall>q. q \<noteq> p \<longrightarrow> state (ptable s' q) = state (ptable s q))"
proof -
  from assms have s: "p < NPROC" "noff (mycpu s) = 1" "\<not> intr_get (mycpu s)" "cpu_proc (mycpu s) = Some p" "locks_but {p} s"
    by (simp_all add: switched_to_def)
  define c where "c = (mycpu s)\<lparr>intena := True\<rparr>"
  define s1 where "s1 = s\<lparr>mycpu := c\<rparr>"
  obtain c' where l: "plock_release p s1 = Ok (s1\<lparr>mycpu := c', ptable := (ptable s1)(p := (ptable s1 p)\<lparr>plock := initlock\<rparr>)\<rparr>)"
      "noff c' = 0" "cpu_id c' = cpu_id c" "cpu_proc c' = Some p"
    using plock_release_depth1 [of s1 p] s by (auto simp: s1_def c_def locks_but_def)
  define s2 where "s2 = s1\<lparr>mycpu := c', ptable := (ptable s1)(p := (ptable s1 p)\<lparr>plock := initlock\<rparr>)\<rparr>"
  have l1: "yield_leave p True s = Ok s2" using l(1) by (simp add: yield_leave_def sched_leave_def s2_def s1_def c_def)
  have ok: "cpu_ok c'" using l(2) by (simp add: cpu_ok_def)
  define s3 where "s3 = s2\<lparr>mycpu := push_off (crit c'), ptable := (ptable s2)(p := (ptable s2 p)\<lparr>plock := held_by (cpu_id c'), state := RUNNABLE\<rparr>)\<rparr>"
  have "yield_enter s2 = sched s3"
    using ok l(4) by (simp add: yield_enter_def current_eq [of _ p] s2_def plock_acquire_free s3_def upd_proc_def)
  moreover have "sched s3 = Ok (intena (push_off (crit c')), s3\<lparr>mycpu := crit (push_off (crit c'))\<rparr>)"
    using ok l(2,4) by (simp add: sched_def current_eq [of _ p] s3_def sched_enter_def holding_def held_by_def cpu_ok_push_off crit_push_off)
  ultimately have r: "yielder p s = Ok (s3\<lparr>mycpu := crit (push_off (crit c'))\<rparr>)" using l1 by (simp add: yielder_def)
  show ?thesis
    using r l s by (intro exI [of _ "s3\<lparr>mycpu := crit (push_off (crit c'))\<rparr>"]) (auto simp: s3_def s2_def s1_def c_def locks_but_def)
qed

lemma yielder_ok: "gives_back yielder" "keeps_runnable yielder"
proof -
  show "gives_back yielder" unfolding gives_back_def using yielder_turn by blast
  show "keeps_runnable yielder" unfolding keeps_runnable_def
  proof (intro allI impI, elim conjE)
    fix p s s' q
    assume h: "p < NPROC" "switched_to p s" "yielder p s = Ok s'" "q \<noteq> p" "state (ptable s q) = RUNNABLE"
    from yielder_turn [OF h(1,2)] h(3-5) show "state (ptable s' q) = RUNNABLE" by auto
  qed
qed

definition sched_ptab :: ptab where
  "sched_ptab = demo_ptab\<lparr>ptable := (\<lambda>_. demo_proc)(0 := demo_proc\<lparr>state := RUNNABLE, pid := 1\<rparr>, 2 := demo_proc\<lparr>state := RUNNABLE, pid := 2\<rparr>)\<rparr>"

theorem scheduler_runs_every_runnable_witness:
  "\<exists>ps s2. scheduler yielder 1 sched_ptab = Ok ([ps], s2) \<and> 0 \<in> set ps \<and> 2 \<in> set ps \<and> sorted_wrt (<) ps"
proof -
  have "noff (mycpu sched_ptab) = 0" "locks_but {} sched_ptab" by (simp_all add: sched_ptab_def demo_ptab_def demo_cpu_def demo_proc_def locks_but_def)
  note L = scheduler_runs_every_runnable [OF yielder_ok(1) this, of 0]
  obtain ps s2 where p: "scheduler yielder 1 sched_ptab = Ok ([ps], s2)" "sorted_wrt (<) ps"
      "\<forall>q < NPROC. state (ptable (sched_ptab\<lparr>mycpu := (mycpu sched_ptab)\<lparr>cpu_proc := None\<rparr>\<rparr>) q) = RUNNABLE \<longrightarrow> q \<in> set ps"
    using L yielder_ok(2) by (auto simp: scheduler_def)
  have "state (ptable sched_ptab 0) = RUNNABLE" "state (ptable sched_ptab 2) = RUNNABLE" by (simp_all add: sched_ptab_def)
  then show ?thesis using p by (intro exI [of _ ps] exI [of _ s2]) (simp add: NPROC_def)
qed

end
