(* ===== verification/Ringbuf.thy ===== *)
theory Ringbuf
  imports Xv6_Prelude
begin

text \<open>
  Ring buffers. Pipes, the console and the serial port keep characters in an array of \<open>N\<close> cells
  with two counters that only grow and wrap around at the width of their type; a counter names
  the cell with its value modulo \<open>N\<close>. Because \<open>N\<close> divides the number of values of the counters, the
  cells between the counters form a queue. \<open>ring_size\<close> is what \<open>N\<close> must satisfy; each buffer of
  the kernel interprets it.
\<close>

definition ring_list :: "nat \<Rightarrow> (nat \<Rightarrow> 'c) \<Rightarrow> 'w::len word \<Rightarrow> 'w word \<Rightarrow> 'c list" where
  "ring_list N a r w = map (\<lambda>k. a (unat (r + word_of_nat k) mod N)) [0..<unat (w - r)]"

lemma length_ring_list [simp]: "length (ring_list N a r w) = unat (w - r)"
  by (simp add: ring_list_def)

lemma ring_list_empty [simp]: "ring_list N a r r = []"
  by (simp add: ring_list_def)

lemma unat_diff_Suc:
  fixes w r :: "'w::len word"
  assumes "unat (w - r) < 2 ^ LENGTH('w) - 1"
  shows "unat (w + 1 - r) = Suc (unat (w - r))"
proof -
  have "w + 1 - r = (w - r) + 1" by simp
  moreover have "unat ((w - r) + 1) = unat (w - r) + 1"
    by (subst unat_add_small) (use assms in simp_all)
  ultimately show ?thesis by (simp only: Suc_eq_plus1)
qed

lemma unat_diff_pred:
  fixes w r :: "'w::len word"
  assumes "w \<noteq> r"
  shows "unat (w - 1 - r) = unat (w - r) - 1" "unat (w - (r + 1)) = unat (w - r) - 1" "0 < unat (w - r)"
proof -
  have ne: "w - r \<noteq> 0" using assms by simp
  then show "0 < unat (w - r)" by (simp add: unat_gt_0)
  have "w - 1 - r = (w - r) - 1" "w - (r + 1) = (w - r) - 1" by simp_all
  then show "unat (w - 1 - r) = unat (w - r) - 1" "unat (w - (r + 1)) = unat (w - r) - 1"
    using unat_minus_one [OF ne] by (simp_all only:)
qed

locale ring_size =
  fixes N :: nat and width :: "'w::len itself"
  assumes pos: "0 < N" and dvd: "N dvd 2 ^ LENGTH('w)" and less: "N < 2 ^ LENGTH('w)"
begin

lemma index_add: "unat ((r :: 'w word) + word_of_nat k) mod N = (unat r + k) mod N"
proof -
  have "unat (r + word_of_nat k) = (unat r + k) mod 2 ^ LENGTH('w)"
    by (simp add: unat_word_ariths unat_of_nat take_bit_eq_mod mod_simps)
  then show ?thesis using dvd by (simp add: mod_mod_cancel)
qed

lemma ring_list_eq: "ring_list N a (r :: 'w word) w = map (\<lambda>k. a ((unat r + k) mod N)) [0..<unat (w - r)]"
  by (simp add: ring_list_def index_add)

lemma index_inj:
  assumes "j < N" and "k < N" and "(i + j) mod N = (i + k) mod N"
  shows "j = k"
proof -
  have "j mod N = k mod N"
    using assms(3) by (simp add: nat_mod_eq_iff add.assoc)
  then show ?thesis using assms(1,2) by simp
qed


lemma push:
  assumes "unat ((w :: 'w word) - r) < N"
  shows "ring_list N (a(unat w mod N := x)) r (w + 1) = ring_list N a r w @ [x]"
proof -
  define n where "n = unat (w - r)"
  have Suc: "unat (w + 1 - r) = Suc n" unfolding n_def by (rule unat_diff_Suc) (use assms less in simp)
  have "w = r + word_of_nat n" by (simp add: n_def)
  then have w: "unat w mod N = (unat r + n) mod N" using index_add by metis
  have ne: "(unat r + k) mod N \<noteq> unat w mod N" if "k < n" for k
    using index_inj [of k n "unat r"] that assms w by (auto simp: n_def)
  have "map (\<lambda>k. (a(unat w mod N := x)) ((unat r + k) mod N)) [0..<n] = map (\<lambda>k. a ((unat r + k) mod N)) [0..<n]"
    using ne by simp
  then show ?thesis by (simp add: ring_list_eq Suc w n_def)
qed

lemma pop:
  assumes "(w :: 'w word) \<noteq> r"
  shows "ring_list N a r w = a (unat r mod N) # ring_list N a (r + 1) w"
proof -
  obtain n where n: "unat (w - r) = Suc n" using unat_diff_pred(3) [OF assms] by (cases "unat (w - r)") auto
  have "r + 1 + word_of_nat k = r + word_of_nat (Suc k)" for k by simp
  then have "unat (r + 1 + word_of_nat k) mod N = (unat r + Suc k) mod N" for k using index_add by metis
  then have "ring_list N a (r + 1) w = map (\<lambda>k. a ((unat r + Suc k) mod N)) [0..<n]"
    using unat_diff_pred(2) [OF assms] n by (simp add: ring_list_def)
  then show ?thesis by (simp add: ring_list_eq [of a r] n map_upt_Suc del: upt_Suc)
qed

lemma unpush:
  assumes "(w :: 'w word) \<noteq> r"
  shows "ring_list N a r w = ring_list N a r (w - 1) @ [a (unat (w - 1) mod N)]"
proof -
  obtain n where n: "unat (w - r) = Suc n" using unat_diff_pred(3) [OF assms] by (cases "unat (w - r)") auto
  have "word_of_nat (unat (w - 1 - r)) = w - 1 - r" by simp
  then have "w - 1 - r = word_of_nat n" using unat_diff_pred(1) [OF assms] n by simp
  then have "w - 1 = r + word_of_nat n" by (simp add: algebra_simps)
  then have "unat (w - 1) mod N = (unat r + n) mod N" using index_add by metis
  then show ?thesis using unat_diff_pred(1) [OF assms] n by (simp add: ring_list_eq)
qed

lemma split:
  assumes "unat ((w :: 'w word) - r) + unat (e - w) < 2 ^ LENGTH('w)"
  shows "ring_list N a r e = ring_list N a r w @ ring_list N a w e"
proof -
  define m n where "m = unat (w - r)" and "n = unat (e - w)"
  have "e - r = (w - r) + (e - w)" by simp
  then have len: "unat (e - r) = m + n" using unat_add_small [OF assms] by (simp only: m_def n_def)
  have "w = r + word_of_nat m" by (simp add: m_def)
  then have "w + word_of_nat k = r + word_of_nat (m + k)" for k by simp
  then have "unat (w + word_of_nat k) mod N = (unat r + (m + k)) mod N" for k using index_add by metis
  then have "ring_list N a w e = map (\<lambda>k. a ((unat r + (m + k)) mod N)) [0..<n]" by (simp add: ring_list_def n_def)
  also have "\<dots> = map (\<lambda>k. a ((unat r + k) mod N)) [m..<m + n]" by (rule nth_equalityI) simp_all
  finally show ?thesis by (simp add: ring_list_eq len m_def [symmetric] upt_add_eq_append [of 0 m n])
qed

lemma full_iff: "(w :: 'w word) = r + word_of_nat N \<longleftrightarrow> unat (w - r) = N"
  using eq_add_of_nat_iff [OF less, of w r] by simp

end

end
