(* ===== verification/Pipe_Spec.thy ===== *)
theory Pipe_Spec
  imports Sample Ringbuf Sleep_Spec
begin

text \<open>
  A pipe is a queue of bytes: \<^verbatim>\<open>pipewrite\<close> appends bytes of the writer's memory, \<^verbatim>\<open>piperead\<close>
  removes bytes from the front and stores them in the reader's memory. \<open>pipe_queue\<close> is the
  abstraction of the ring buffer to the queue.
\<close>

interpretation pring: ring_size PIPESIZE "TYPE(32)"
  by unfold_locales (simp_all add: PIPESIZE_def)

definition pipe_queue :: "pipe \<Rightarrow> uchar list" where
  "pipe_queue q = ring_list PIPESIZE (pdata q) (nread q) (nwrite q)"

definition pipe_ok :: "pipe \<Rightarrow> bool" where
  "pipe_ok q \<longleftrightarrow> length (pipe_queue q) \<le> PIPESIZE"

text \<open>Storing bytes, as the loop of \<^verbatim>\<open>pipewrite\<close> does.\<close>

fun pipe_put :: "uchar list \<Rightarrow> pipe \<Rightarrow> pipe" where
  "pipe_put [] q = q"
| "pipe_put (b # bs) q = pipe_put bs (q\<lparr>pdata := (pdata q)(unat (nwrite q) mod PIPESIZE := b), nwrite := nwrite q + 1\<rparr>)"

lemma pipe_put_fields [simp]:
  "pipe_lock (pipe_put bs q) = pipe_lock q" "readopen (pipe_put bs q) = readopen q" "writeopen (pipe_put bs q) = writeopen q"
  "nread (pipe_put bs q) = nread q"
  by (induction bs q rule: pipe_put.induct) simp_all

lemma pipe_put_queue:
  "length (pipe_queue q) + length bs \<le> PIPESIZE \<Longrightarrow> pipe_queue (pipe_put bs q) = pipe_queue q @ bs"
proof (induction bs q rule: pipe_put.induct)
  case (2 b bs q)
  then have "unat (nwrite q - nread q) < PIPESIZE" by (simp add: pipe_queue_def)
  note P = pring.push [OF this, of "pdata q" b]
  then have "length (ring_list PIPESIZE ((pdata q)(unat (nwrite q) mod PIPESIZE := b)) (nread q) (nwrite q + 1)) = Suc (length (pipe_queue q))"
    by (simp only: P) (simp add: pipe_queue_def)
  then show ?case using 2 P by (simp add: pipe_queue_def)
qed simp

lemma pipe_full: "nwrite q = nread q + word_of_nat PIPESIZE \<longleftrightarrow> length (pipe_queue q) = PIPESIZE"
  using pring.full_iff by (simp add: pipe_queue_def)

lemma pipe_empty: "nread q = nwrite q \<longleftrightarrow> pipe_queue q = []"
proof -
  have "pipe_queue q = [] \<longleftrightarrow> length (pipe_queue q) = 0" by simp
  also have "\<dots> \<longleftrightarrow> nread q = nwrite q" by (auto simp: pipe_queue_def unat_eq_0)
  finally show ?thesis by blast
qed

lemma pipe_pop:
  assumes "pipe_queue q \<noteq> []"
  shows "pipe_queue q = pdata q (unat (nread q) mod PIPESIZE) # pipe_queue (q\<lparr>nread := nread q + 1\<rparr>)"
  using pring.pop [of "nwrite q" "nread q" "pdata q"] pipe_empty [of q] assms by (simp add: pipe_queue_def)

section \<open>User memory under other changes of the state\<close>

lemma byte_of_user:
  assumes "uvm_inv s fl r K" and "readable (mem s) r K (unat addr + i) (Suc k)" and "unat addr + i + Suc k \<le> 4096 * NVPAGES"
  shows "copyin r (addr + word_of_nat i) 1 s = Ok (0, [mem s (upaddr (mem s) r (unat addr + i))])"
    "unat (addr + word_of_nat i) = unat addr + i"
proof -
  have "unat addr + i < 2 ^ 64" using assms(3) by (simp add: NVPAGES_def)
  then show a: "unat (addr + word_of_nat i) = unat addr + i" by (simp add: unat_word_ariths unat_of_nat)
  show "copyin r (addr + word_of_nat i) 1 s = Ok (0, [mem s (upaddr (mem s) r (unat addr + i))])"
    using copyin_spec [OF assms(1), of "addr + word_of_nat i" 1] readable_0 [OF assms(2)] assms(3) by (simp add: a readable_def ubytes_def)
qed

section \<open>Writing\<close>

definition pipe_room :: "pipe \<Rightarrow> nat" where
  "pipe_room q = PIPESIZE - length (pipe_queue q)"

definition pipewrite_wait :: "uint64 \<Rightarrow> nat \<Rightarrow> ('u, 'a) files_scheme \<Rightarrow> (int outcome \<times> nat \<times> bool \<times> ('u, 'a) files_scheme) res" where
  "pipewrite_wait pi i s =
     rbind (wakeup (Some (nread_chan pi)) s) (\<lambda>s.
     rbind (sleep_enter (Some (nwrite_chan pi)) (pipe_release pi) s) (\<lambda>(b, s). Ok (Block (nwrite_chan pi), i, b, s)))"

lemma upd_pipe_simps [simp]:
  "pipes (upd_pipe pi f s) pi = f (pipes s pi)" "mycpu (upd_pipe pi f s) = mycpu s" "ptable (upd_pipe pi f s) = ptable s" "mem (upd_pipe pi f s) = mem s"
  "freelist (upd_pipe pi f s) = freelist s" "kend (upd_pipe pi f s) = kend s" "kmem_lock (upd_pipe pi f s) = kmem_lock s"
  "upd_pipe pi f (upd_pipe pi g s) = upd_pipe pi (\<lambda>q. f (g q)) s"
  by (simp_all add: upd_pipe_def)

lemma ubytes_Cons: "ubytes m r a (Suc n) = m (upaddr m r a) # ubytes m r (Suc a) n"
  by (simp add: ubytes_def map_upt_Suc del: upt_Suc)

lemma pipewrite_loop_spec:
  assumes c: "cpu_ok c" and lk: "plock (ptable s pr) = initlock" and nk: "\<not> pkilled (ptable s pr)" and r: "r = pagetable (ptable s pr)"
  shows "mycpu s = push_off c \<Longrightarrow> readopen (pipes s pi) \<Longrightarrow> uvm_inv s fl r K \<Longrightarrow> readable (mem s) r K (unat addr + i) k \<Longrightarrow>
    unat addr + i + k \<le> 4096 * NVPAGES \<Longrightarrow> pipe_ok (pipes s pi) \<Longrightarrow>
    pipewrite_loop k pr pi addr i s =
      (let m = min k (pipe_room (pipes s pi)); s' = upd_pipe pi (pipe_put (ubytes (mem s) r (unat addr + i) m)) s
       in if m = k then pipewrite_end pi (i + m) s' else pipewrite_wait pi (i + m) s')"
  using lk nk r
proof (induction k arbitrary: i s)
  case 0
  then show ?case by (simp add: Let_def ubytes_def upd_pipe_def)
next
  case (Suc k)
  note prems = Suc.prems
  have cp: "crit (push_off c) = push_off c" "cpu_ok (push_off c)" using c by (auto simp: crit_push_off cpu_ok_push_off cpu_ok_def)
  have kl: "killed pr s = Ok (False, s)" using killed_eq [of s pr] prems(1,7,8) cp by simp
  have full: "nwrite (pipes s pi) = nread (pipes s pi) + word_of_nat PIPESIZE \<longleftrightarrow> pipe_room (pipes s pi) = 0"
    using pipe_full [of "pipes s pi"] prems(6) by (auto simp: pipe_ok_def pipe_room_def)
  show ?case
  proof (cases "pipe_room (pipes s pi) = 0")
    case True
    then show ?thesis using full kl prems(2) by (simp add: Let_def ubytes_def upd_pipe_def pipewrite_wait_def)
  next
    case False
    define b where "b = mem s (upaddr (mem s) r (unat addr + i))"
    define f :: "pipe \<Rightarrow> pipe" where "f = (\<lambda>q. q\<lparr>pdata := (pdata q)(unat (nwrite q) mod PIPESIZE := b), nwrite := nwrite q + 1\<rparr>)"
    define s1 where "s1 = upd_pipe pi f s"
    have q1: "pipe_queue (f (pipes s pi)) = pipe_queue (pipes s pi) @ [b]"
      using pipe_put_queue [of "pipes s pi" "[b]"] False by (simp add: f_def pipe_room_def)
    have room1: "pipe_room (pipes s1 pi) = pipe_room (pipes s pi) - 1" "pipe_ok (pipes s1 pi)"
      using q1 False prems(6) by (simp_all add: s1_def pipe_room_def pipe_ok_def)
    have rd: "readable (mem s1) r K (unat addr + Suc i) k" using readable_drop [OF prems(4), of 1] by (simp add: s1_def)
    have step: "pipewrite_loop (Suc k) pr pi addr i s = pipewrite_loop k pr pi addr (Suc i) s1"
      using kl prems(2) full False byte_of_user(1) [OF prems(3,4,5)] prems(9)
      by (simp add: s1_def f_def b_def Let_def)
    have IH: "pipewrite_loop k pr pi addr (Suc i) s1 =
      (let m = min k (pipe_room (pipes s1 pi)); s' = upd_pipe pi (pipe_put (ubytes (mem s1) r (unat addr + Suc i) m)) s1
       in if m = k then pipewrite_end pi (Suc i + m) s' else pipewrite_wait pi (Suc i + m) s')"
      by (rule Suc.IH) (use prems rd room1(2) uvm_inv_cong [OF prems(3), of s1] cp in \<open>simp_all add: s1_def f_def\<close>)
    have m: "min (Suc k) (pipe_room (pipes s pi)) = Suc (min k (pipe_room (pipes s1 pi)))" using False room1(1) by simp
    have put: "upd_pipe pi (pipe_put bs) s1 = upd_pipe pi (pipe_put (b # bs)) s" for bs by (simp add: s1_def upd_pipe_def f_def)
    have mem1: "mem s1 = mem s" by (simp add: s1_def)
    show ?thesis
      unfolding step IH m Let_def ubytes_Cons b_def [symmetric] put mem1 by simp
  qed
qed

section \<open>Reading\<close>

definition pipe_drop :: "nat \<Rightarrow> pipe \<Rightarrow> pipe" where
  "pipe_drop n q = q\<lparr>nread := nread q + word_of_nat n\<rparr>"

lemma pipe_drop_simps [simp]: "pipe_drop 0 q = q" "pipe_drop m (pipe_drop n q) = pipe_drop (n + m) q"
  "pipe_lock (pipe_drop n q) = pipe_lock q" "readopen (pipe_drop n q) = readopen q" "writeopen (pipe_drop n q) = writeopen q"
  "nwrite (pipe_drop n q) = nwrite q"
  by (simp_all add: pipe_drop_def add.assoc)

lemma pipe_drop_queue: "n \<le> length (pipe_queue q) \<Longrightarrow> pipe_queue (pipe_drop n q) = drop n (pipe_queue q)"
proof (induction n)
  case (Suc n)
  then have IH: "pipe_queue (pipe_drop n q) = drop n (pipe_queue q)" by simp
  then have ne: "pipe_queue (pipe_drop n q) \<noteq> []" using Suc.prems by simp
  have "(pipe_drop n q)\<lparr>nread := nread (pipe_drop n q) + 1\<rparr> = pipe_drop (Suc n) q" by (simp add: pipe_drop_def add.assoc)
  then have "pipe_queue (pipe_drop (Suc n) q) = tl (pipe_queue (pipe_drop n q))" using pipe_pop [OF ne] by (metis list.sel(3))
  then show ?case by (simp add: IH drop_Suc tl_drop)
qed simp

lemma written_same: "\<forall>v. pte_val m' r v = pte_val m r v \<Longrightarrow> upaddr m' r a = upaddr m r a"
  by (simp add: upaddr_def upa_def upte_def)

lemma piperead_copy_spec:
  fixes pi :: uint64
  assumes inv: "uvm_inv s fl r K" and rd: "readable (mem s) r K (unat addr + i) k" and le: "unat addr + i + k \<le> 4096 * NVPAGES"
    and r: "r = pagetable (ptable s pr)"
  defines "n \<equiv> min k (length (pipe_queue (pipes s pi)))"
  shows "\<exists>m'. piperead_copy k pr pi addr i s = Ok (i + n, (upd_pipe pi (pipe_drop n) s)\<lparr>mem := m'\<rparr>) \<and>
    written (mem s) r (unat addr + i) (take n (pipe_queue (pipes s pi))) m' \<and> uvm_inv (s\<lparr>mem := m'\<rparr>) fl r K \<and>
    (\<forall>v. pte_val m' r v = pte_val (mem s) r v)"
  unfolding n_def using assms(1-4)
proof (induction k arbitrary: i s)
  case 0
  then show ?case by (intro exI [of _ "mem s"]) (simp add: written_def upd_pipe_def)
next
  case (Suc k)
  note prems = Suc.prems
  define q where "q = pipe_queue (pipes s pi)"
  show ?case
  proof (cases "q = []")
    case True
    then show ?thesis
      using pipe_empty [of "pipes s pi"] prems(1) by (intro exI [of _ "mem s"]) (simp add: q_def written_def upd_pipe_def)
  next
    case False
    define ch where "ch = pdata (pipes s pi) (unat (nread (pipes s pi)) mod PIPESIZE)"
    define s1 where "s1 = upd_pipe pi (pipe_drop 1) s"
    have q1: "q = ch # pipe_queue (pipes s1 pi)" using pipe_pop [of "pipes s pi"] False by (simp add: q_def ch_def s1_def pipe_drop_def)
    note B = byte_of_user(2) [OF prems(1-3)]
    have inv1: "uvm_inv s1 fl r K" by (rule uvm_inv_cong [OF prems(1)]) (use prems(1) in \<open>simp_all add: s1_def uvm_inv_def pt_inv_def kmem_inv_def\<close>)
    obtain m1 where m1: "copyout r (addr + word_of_nat i) [ch] s1 = Ok (0, s1\<lparr>mem := m1\<rparr>)" "written (mem s1) r (unat addr + i) [ch] m1"
        "uvm_inv (s1\<lparr>mem := m1\<rparr>) fl r K" "\<forall>v. pte_val m1 r v = pte_val (mem s1) r v"
      using copyout_spec [OF inv1, of "addr + word_of_nat i" "[ch]"] prems(2,3) readable_0 [OF prems(2)]
      by (auto simp: B readable_def s1_def)
    define s2 where "s2 = s1\<lparr>mem := m1\<rparr>"
    have rd2: "readable (mem s2) r K (unat addr + Suc i) k"
      using readable_drop [OF prems(2), of 1] m1(4) by (simp add: s2_def s1_def readable_def upte_def)
    have p2: "pipes s2 = pipes s1" by (simp add: s2_def)
    obtain m' where IH: "piperead_copy k pr pi addr (Suc i) s2 =
          Ok (Suc i + min k (length (pipe_queue (pipes s1 pi))), (upd_pipe pi (pipe_drop (min k (length (pipe_queue (pipes s1 pi))))) s2)\<lparr>mem := m'\<rparr>)"
        "written m1 r (unat addr + Suc i) (take (min k (length (pipe_queue (pipes s1 pi)))) (pipe_queue (pipes s1 pi))) m'"
        "uvm_inv (s2\<lparr>mem := m'\<rparr>) fl r K" "\<forall>v. pte_val m' r v = pte_val m1 r v"
      using Suc.IH [OF _ rd2] m1(3) prems(3,4) by (auto simp: s2_def s1_def)
    have step: "piperead_copy (Suc k) pr pi addr i s = piperead_copy k pr pi addr (Suc i) s2"
      using False pipe_empty [of "pipes s pi"] m1(1) prems(4)
      by (simp add: q_def Let_def s2_def s1_def pipe_drop_def ch_def upd_pipe_def)
    have N: "min (Suc k) (length q) = Suc (min k (length (pipe_queue (pipes s1 pi))))" by (simp add: q1)
    define N where "N = min k (length (pipe_queue (pipes s1 pi)))"
    have "(upd_pipe pi (pipe_drop N) s2)\<lparr>mem := m'\<rparr> = (upd_pipe pi (pipe_drop (Suc N)) s)\<lparr>mem := m'\<rparr>"
      by (simp add: s2_def s1_def upd_pipe_def)
    moreover have "written (mem s) r (unat addr + i) ([ch] @ take N (pipe_queue (pipes s1 pi))) m'"
    proof (rule written_append)
      show "written (mem s) r (unat addr + i) [ch] m1" using m1(2) by (simp add: s1_def)
      show "written m1 r (unat addr + i + length [ch]) (take N (pipe_queue (pipes s1 pi))) m'" using IH(2) by (simp add: N_def)
      show "upaddr m1 r b = upaddr (mem s) r b" for b using m1(4) by (intro written_same) (simp add: s1_def)
      show "upaddr (mem s) r (unat addr + i + x) \<noteq> upaddr (mem s) r (unat addr + i + length [ch] + y)"
        if "x < length [ch]" "y < length (take N (pipe_queue (pipes s1 pi)))" for x y
      proof
        assume "upaddr (mem s) r (unat addr + i + x) = upaddr (mem s) r (unat addr + i + length [ch] + y)"
        then have "unat addr + i + x = unat addr + i + length [ch] + y"
          by (rule upaddr_inj [OF prems(1), rotated 2]) (use prems(2) that in \<open>auto simp: readable_def N_def\<close>)
        then show False using that by simp
      qed
    qed
    moreover have "uvm_inv (s\<lparr>mem := m'\<rparr>) fl r K"
      by (rule uvm_inv_cong [OF IH(3)]) (use IH(3) in \<open>simp_all add: s2_def s1_def uvm_inv_def pt_inv_def kmem_inv_def\<close>)
    ultimately show ?thesis
      using IH(1,4) m1(4) unfolding step N q_def [symmetric] N_def [symmetric]
      by (intro exI [of _ m']) (simp add: q1 s1_def)
  qed
qed

section \<open>The system calls\<close>

lemma pipe_acquire_free:
  "pipe_lock (pipes s pi) = initlock \<Longrightarrow>
   pipe_acquire pi s = Ok ((upd_pipe pi (pipe_lock_update (\<lambda>_. held_by (cpu_id (mycpu s)))) s)\<lparr>mycpu := push_off (mycpu s)\<rparr>)"
  by (simp add: pipe_acquire_def acquire_free)

lemma pipe_release_held:
  "pipe_lock (pipes s pi) = held_by (cpu_id c) \<Longrightarrow> mycpu s = push_off c \<Longrightarrow> cpu_ok c \<Longrightarrow>
   pipe_release pi s = Ok ((upd_pipe pi (pipe_lock_update (\<lambda>_. initlock)) s)\<lparr>mycpu := crit c\<rparr>)"
  by (simp add: pipe_release_def release_push_off)

lemma pipe_sleep:
  assumes "cpu_ok c" and "noff c = 0" and "cpu_proc c = Some p" and "mycpu s = push_off c" and "plock (ptable s p) = initlock"
    and "pipe_lock (pipes s pi) = held_by (cpu_id c)"
  shows "sleep_enter ch (pipe_release pi) s = Ok (intr_get c, (upd_pipe pi (pipe_lock_update (\<lambda>_. initlock)) s)\<lparr>
    ptable := (ptable s)(p := (ptable s p)\<lparr>plock := held_by (cpu_id c), chan := ch, state := SLEEPING\<rparr>)\<rparr>)"
proof -
  have "pipe_release pi (s\<lparr>mycpu := push_off (push_off c), ptable := (ptable s)(p := (ptable s p)\<lparr>plock := held_by (cpu_id c)\<rparr>)\<rparr>) =
      Ok ((upd_pipe pi (pipe_lock_update (\<lambda>_. initlock)) s)\<lparr>ptable := (ptable s)(p := (ptable s p)\<lparr>plock := held_by (cpu_id c)\<rparr>)\<rparr>)"
    using push_off_facts [OF assms(1)] assms(4,6) by (simp add: pipe_release_held [where c = "push_off c"] upd_pipe_def)
  from sleep_enter_eq [where release_lk = "pipe_release pi", OF assms(1-5) this] show ?thesis using assms(4) by simp
qed

text \<open>The state inside the critical section of a pipe operation.\<close>

definition pipe_locked :: "nat \<Rightarrow> uint64 \<Rightarrow> ('u, 'a) files_scheme \<Rightarrow> ('u, 'a) files_scheme" where
  "pipe_locked p pi s = (upd_pipe pi (pipe_lock_update (\<lambda>_. held_by (cpu_id (mycpu s)))) s)\<lparr>mycpu := push_off (mycpu s)\<rparr>"

lemma pipe_locked_simps [simp]:
  "pipes (pipe_locked p pi s) pi = (pipes s pi)\<lparr>pipe_lock := held_by (cpu_id (mycpu s))\<rparr>" "mycpu (pipe_locked p pi s) = push_off (mycpu s)"
  "ptable (pipe_locked p pi s) = ptable s" "mem (pipe_locked p pi s) = mem s"
  "x \<noteq> pi \<Longrightarrow> pipes (pipe_locked p pi s) x = pipes s x"
  by (simp_all add: pipe_locked_def) (simp add: upd_pipe_def)

lemma pipe_queue_lock [simp]: "pipe_queue (q\<lparr>pipe_lock := l\<rparr>) = pipe_queue q" "pipe_room (q\<lparr>pipe_lock := l\<rparr>) = pipe_room q"
  "pipe_ok (q\<lparr>pipe_lock := l\<rparr>) = pipe_ok q"
  by (simp_all add: pipe_queue_def pipe_room_def pipe_ok_def)

lemma pipe_locked_uvm:
  assumes "running s p" and "uvm_inv s fl r K"
  shows "uvm_inv (pipe_locked p pi s) fl r K"
  by (rule uvm_inv_cong [OF assms(2)]) (use assms(1) in \<open>auto simp: pipe_locked_def running_def cpu_ok_push_off cpu_ok_def\<close>)

definition woken_all :: "chan \<Rightarrow> nat \<Rightarrow> (nat \<Rightarrow> proc) \<Rightarrow> nat \<Rightarrow> proc" where
  "woken_all ch p t q = (if q < NPROC \<and> q \<noteq> p \<and> state (t q) = SLEEPING \<and> chan (t q) = Some ch then (t q)\<lparr>state := RUNNABLE\<rparr> else t q)"

lemma pipe_wakeup:
  assumes run: "running s p" and cs: "mycpu s' = push_off (mycpu s)" "ptable s' = ptable s"
  shows "wakeup (Some ch) s' = Ok (s'\<lparr>ptable := woken_all ch p (ptable s)\<rparr>)"
proof -
  have R: "cpu_ok (mycpu s)" "noff (mycpu s) = 0" "cpu_proc (mycpu s) = Some p" "\<forall>q < NPROC. plock (ptable s q) = initlock"
    using run by (auto simp: running_def)
  have c: "crit (push_off (mycpu s)) = push_off (mycpu s)" "cpu_ok (push_off (mycpu s))"
    using R(1) by (auto intro!: crit_push_off cpu_ok_push_off simp: cpu_ok_def)
  have "wake_from (Some ch) (Some p) 0 (ptable s) = woken_all ch p (ptable s)"
    by (auto simp: wake_from_def woken_def woken_all_def)
  then show ?thesis using wakeup_eq [of s' "Some ch"] R(3,4) c cs by simp
qed

lemma pipe_enter:
  assumes "running s p" and "pipe_lock (pipes s pi) = initlock"
  shows "current s (\<lambda>pr s. rbind (pipe_acquire pi s) (f pr)) = f p (pipe_locked p pi s)"
proof -
  have "current s (\<lambda>pr s. rbind (pipe_acquire pi s) (f pr)) = rbind (pipe_acquire pi (s\<lparr>mycpu := crit (mycpu s)\<rparr>)) (f p)"
    by (rule current_eq) (use assms(1) in \<open>simp_all add: running_def\<close>)
  then show ?thesis using assms(2) by (simp add: pipe_acquire_free pipe_locked_def upd_pipe_def)
qed

lemma pipe_leave:
  assumes "running s p" and "pipe_lock (pipes s' pi) = held_by (cpu_id (mycpu s))" and "mycpu s' = push_off (mycpu s)"
  shows "pipe_release pi s' = Ok ((upd_pipe pi (pipe_lock_update (\<lambda>_. initlock)) s')\<lparr>mycpu := crit (mycpu s)\<rparr>)"
  by (rule pipe_release_held) (use assms in \<open>simp_all add: running_def\<close>)

text \<open>
  C34: \<^verbatim>\<open>pipewrite\<close> appends to the pipe's queue. While the read end is open and the caller is not
  killed, as many of the \<open>n\<close> bytes at the user address as there is room for are appended in
  order. If all fit, the call returns \<open>n\<close> with the sleeping readers made runnable; otherwise the
  queue is full and the caller sleeps on \<^verbatim>\<open>nwrite\<close>, with the count of bytes moved to go on from.
  Nothing else of memory or of other pipes changes.
\<close>

theorem pipewrite_appends:
  assumes run: "running s p" and lk: "pipe_lock (pipes s pi) = initlock" and ro: "readopen (pipes s pi)" and nk: "\<not> pkilled (ptable s p)"
    and ok: "pipe_ok (pipes s pi)" and r: "r = pagetable (ptable s p)" and inv: "uvm_inv s fl r K"
    and rd: "readable (mem s) r K (unat addr) (nat n)" and le: "unat addr + nat n \<le> 4096 * NVPAGES" and n: "0 \<le> n"
  defines "k \<equiv> min (nat n) (PIPESIZE - length (pipe_queue (pipes s pi)))"
  shows "\<exists>s' b. pipewrite_try pi addr n s = Ok (if k = nat n then Ret n else Block (nwrite_chan pi), k, b, s') \<and>
    pipe_queue (pipes s' pi) = pipe_queue (pipes s pi) @ ubytes (mem s) r (unat addr) k \<and> pipe_ok (pipes s' pi) \<and>
    pipe_lock (pipes s' pi) = initlock \<and> (\<forall>x. x \<noteq> pi \<longrightarrow> pipes s' x = pipes s x) \<and> mem s' = mem s \<and>
    (\<forall>q < NPROC. q \<noteq> p \<longrightarrow> ptable s' q = woken_all (nread_chan pi) p (ptable s) q) \<and>
    (if k = nat n then ptable s' p = ptable s p
     else state (ptable s' p) = SLEEPING \<and> chan (ptable s' p) = Some (nwrite_chan pi) \<and> length (pipe_queue (pipes s' pi)) = PIPESIZE)"
proof -
  define c where "c = mycpu s"
  have R: "cpu_ok c" "noff c = 0" "cpu_proc c = Some p" "p < NPROC" "plock (ptable s p) = initlock" using run by (auto simp: running_def c_def)
  define bs where "bs = ubytes (mem s) r (unat addr) k"
  define s1 where "s1 = pipe_locked p pi s"
  define s2 where "s2 = upd_pipe pi (pipe_put bs) s1"
  have k: "min (nat n) (pipe_room (pipes s1 pi)) = k" by (simp add: s1_def k_def pipe_room_def)
  have tr: "pipewrite_try pi addr n s = (if k = nat n then pipewrite_end pi k s2 else pipewrite_wait pi k s2)"
    unfolding pipewrite_try_def pipe_enter [OF run lk]
    using pipewrite_loop_spec [OF R(1), of "pipe_locked p pi s" p r pi fl K addr 0 "nat n"] R(5) nk r ro pipe_locked_uvm [OF run inv] rd le ok
    by (simp add: s2_def s1_def k_def bs_def Let_def pipe_room_def c_def)
  have len: "length bs = k" by (simp add: bs_def ubytes_def)
  have q2: "pipe_queue (pipes s2 pi) = pipe_queue (pipes s pi) @ bs"
    using pipe_put_queue [of "pipes s1 pi" bs] ok len by (simp add: s2_def s1_def pipe_ok_def k_def)
  have c2: "mycpu s2 = push_off (mycpu s)" "ptable s2 = ptable s" by (simp_all add: s2_def s1_def)
  define s3 where "s3 = s2\<lparr>ptable := woken_all (nread_chan pi) p (ptable s)\<rparr>"
  have wk: "wakeup (Some (nread_chan pi)) s2 = Ok s3" unfolding s3_def by (rule pipe_wakeup [OF run c2])
  have wp: "woken_all (nread_chan pi) p (ptable s) p = ptable s p" by (simp add: woken_all_def)
  have l3: "pipe_lock (pipes s3 pi) = held_by (cpu_id c)" "mycpu s3 = push_off c" by (simp_all add: s3_def s2_def s1_def c_def)
  have other: "pipes s2 x = pipes s x" if "x \<noteq> pi" for x using that by (simp add: s2_def s1_def upd_pipe_def [of _ "pipe_put bs"])
  have mem: "mem s2 = mem s" by (simp add: s2_def s1_def)
  show ?thesis
  proof (cases "k = nat n")
    case True
    define s4 where "s4 = (upd_pipe pi (pipe_lock_update (\<lambda>_. initlock)) s3)\<lparr>mycpu := crit c\<rparr>"
    have "pipewrite_try pi addr n s = Ok (Ret (int k), k, False, s4)"
      using tr True wk pipe_leave [OF run, of s3 pi] l3 by (simp add: pipewrite_end_def s4_def c_def)
    moreover have "pipe_queue (pipes s4 pi) = pipe_queue (pipes s pi) @ bs" "pipe_lock (pipes s4 pi) = initlock" "mem s4 = mem s"
        "\<forall>x. x \<noteq> pi \<longrightarrow> pipes s4 x = pipes s x" "ptable s4 = woken_all (nread_chan pi) p (ptable s)"
      using q2 other mem by (simp_all add: s4_def s3_def) (simp add: upd_pipe_def)
    ultimately show ?thesis using True n len ok wp
      by (intro exI [of _ s4] exI [of _ False]) (simp add: bs_def pipe_ok_def k_def)
  next
    case False
    then have full: "k = PIPESIZE - length (pipe_queue (pipes s pi))" by (simp add: k_def)
    define s4 where "s4 = (upd_pipe pi (pipe_lock_update (\<lambda>_. initlock)) s3)\<lparr>ptable := (ptable s3)(p := (ptable s3 p)\<lparr>plock := held_by (cpu_id c),
      chan := Some (nwrite_chan pi), state := SLEEPING\<rparr>)\<rparr>"
    have p3: "plock (ptable s3 p) = initlock" using R(5) wp by (simp add: s3_def)
    have "pipewrite_try pi addr n s = Ok (Block (nwrite_chan pi), k, intr_get c, s4)"
      using tr False wk pipe_sleep [OF R(1-3) l3(2) p3 l3(1), of "Some (nwrite_chan pi)"] by (simp add: pipewrite_wait_def s4_def)
    moreover have "pipe_queue (pipes s4 pi) = pipe_queue (pipes s pi) @ bs" "pipe_lock (pipes s4 pi) = initlock" "mem s4 = mem s"
        "\<forall>x. x \<noteq> pi \<longrightarrow> pipes s4 x = pipes s x"
      using q2 other mem by (simp_all add: s4_def s3_def) (simp add: upd_pipe_def)
    moreover have "\<forall>q < NPROC. q \<noteq> p \<longrightarrow> ptable s4 q = woken_all (nread_chan pi) p (ptable s) q" "state (ptable s4 p) = SLEEPING"
        "chan (ptable s4 p) = Some (nwrite_chan pi)"
      by (simp_all add: s4_def s3_def)
    ultimately show ?thesis using False len full ok
      by (intro exI [of _ s4] exI [of _ "intr_get c"]) (simp add: bs_def pipe_ok_def)
  qed
qed

theorem pipewrite_appends_witness:
  "\<exists>m fl s' b. uvm_inv m fl 0x87ff7000 {0} \<and> pipewrite_try 0x80100000 0x10 3 (sample_user m 0x87ff7000) = Ok (Ret 3, 3, b, s') \<and>
     pipe_queue (pipes s' 0x80100000) = ubytes (mem m) 0x87ff7000 0x10 3"
proof -
  obtain m :: machine and fl where m: "uvm_inv m fl 0x87ff7000 {0}" "upte (mem m) 0x87ff7000 0 AND PTE_U \<noteq> 0"
    using one_user_page by blast
  define s where "s = sample_user m 0x87ff7000"
  have q: "pipe_queue (pipes s 0x80100000) = []" "pipe_lock (pipes s 0x80100000) = initlock" "readopen (pipes s 0x80100000)"
    by (simp_all add: s_def sample_user_running pipe_queue_def sample_defs)
  have rd: "readable (mem s) 0x87ff7000 {0} (unat (0x10 :: uint64)) (nat 3)" using m(2) by (simp add: readable_def s_def sample_user_running)
  have run: "running s 0" "\<not> pkilled (ptable s 0)" "0x87ff7000 = pagetable (ptable s 0)" "mem s = mem m" by (simp_all add: s_def sample_user_running)
  have le: "unat (0x10 :: uint64) + nat 3 \<le> 4096 * NVPAGES" "pipe_ok (pipes s 0x80100000)" "(0 :: int) \<le> 3"
    by (simp_all add: NVPAGES_def pipe_ok_def q)
  have k: "min (nat 3) (PIPESIZE - length ([] :: uchar list)) = 3" by (simp add: PIPESIZE_def)
  have "\<exists>s' b. pipewrite_try 0x80100000 0x10 3 s = Ok (Ret 3, 3, b, s') \<and> pipe_queue (pipes s' 0x80100000) = ubytes (mem m) 0x87ff7000 0x10 3"
    using pipewrite_appends [OF run(1) q(2,3) run(2) le(2) run(3) sample_user_uvm [OF m(1), folded s_def] rd le(1,3)]
    unfolding q(1) k run(4) by auto
  then show ?thesis using m(1) by (auto simp: s_def)
qed

text \<open>
  C35: \<^verbatim>\<open>piperead\<close> takes from the front of the pipe's queue. When the queue is not empty or no writer
  is left, the call returns the number of bytes it moved, the smaller of \<open>n\<close> and the length of the
  queue (so 0 at end of file); these bytes are stored in order at the user address and are
  gone from the queue, sleeping writers become runnable, and nothing else of memory changes.
  When the queue is empty and a writer is left, a caller that is not killed sleeps on
  \<^verbatim>\<open>nread\<close> and the pipe is unchanged.
\<close>

theorem piperead_takes:
  assumes run: "running s p" and lk: "pipe_lock (pipes s pi) = initlock" and nk: "\<not> pkilled (ptable s p)"
    and r: "r = pagetable (ptable s p)" and inv: "uvm_inv s fl r K"
    and rd: "readable (mem s) r K (unat addr) (nat n)" and le: "unat addr + nat n \<le> 4096 * NVPAGES"
  defines "q \<equiv> pipe_queue (pipes s pi)" and "k \<equiv> min (nat n) (length (pipe_queue (pipes s pi)))"
  shows "if q \<noteq> [] \<or> \<not> writeopen (pipes s pi)
    then \<exists>s'. piperead pi addr n s = Ok (int k, s') \<and> pipe_queue (pipes s' pi) = drop k q \<and> pipe_lock (pipes s' pi) = initlock \<and>
      (\<forall>x. x \<noteq> pi \<longrightarrow> pipes s' x = pipes s x) \<and> written (mem s) r (unat addr) (take k q) (mem s') \<and> uvm_inv s' fl r K \<and>
      ptable s' = woken_all (nwrite_chan pi) p (ptable s)
    else \<exists>s' b. piperead_try pi addr n s = Ok (Block (nread_chan pi), b, s') \<and> pipes s' = pipes s \<and> mem s' = mem s \<and>
      state (ptable s' p) = SLEEPING \<and> chan (ptable s' p) = Some (nread_chan pi)"
proof -
  define c where "c = mycpu s"
  have R: "cpu_ok c" "noff c = 0" "cpu_proc c = Some p" "p < NPROC" "plock (ptable s p) = initlock" using run by (auto simp: running_def c_def)
  have cp: "crit (push_off c) = push_off c" "cpu_ok (push_off c)" using R(1) by (auto simp: crit_push_off cpu_ok_push_off cpu_ok_def)
  define s1 where "s1 = pipe_locked p pi s"
  have tr: "piperead_try pi addr n s = piperead_turn p pi addr n s1"
    unfolding piperead_try_def by (simp add: pipe_enter [OF run lk] s1_def)
  have l1: "pipe_lock (pipes s1 pi) = held_by (cpu_id c)" "mycpu s1 = push_off c" "ptable s1 = ptable s" "pipe_queue (pipes s1 pi) = q"
      "writeopen (pipes s1 pi) = writeopen (pipes s pi)"
    by (simp_all add: s1_def c_def q_def)
  have emp: "nread (pipes s1 pi) = nwrite (pipes s1 pi) \<longleftrightarrow> q = []" using pipe_empty [of "pipes s1 pi"] l1(4) by simp
  show ?thesis
  proof (cases "q \<noteq> [] \<or> \<not> writeopen (pipes s pi)")
    case True
    obtain m' where m': "piperead_copy (nat n) p pi addr 0 s1 = Ok (k, (upd_pipe pi (pipe_drop k) s1)\<lparr>mem := m'\<rparr>)"
        "written (mem s) r (unat addr) (take k q) m'" "uvm_inv (s1\<lparr>mem := m'\<rparr>) fl r K"
      using piperead_copy_spec [where i = 0 and k = "nat n" and addr = addr and pr = p and pi = pi, OF pipe_locked_uvm [where pi = pi, OF run inv]] rd le r l1(4)
      by (auto simp: s1_def k_def q_def)
    define s2 where "s2 = (upd_pipe pi (pipe_drop k) s1)\<lparr>mem := m'\<rparr>"
    have c2: "mycpu s2 = push_off (mycpu s)" "ptable s2 = ptable s" using l1(2,3) by (simp_all add: s2_def c_def)
    define s3 where "s3 = s2\<lparr>ptable := woken_all (nwrite_chan pi) p (ptable s)\<rparr>"
    have wk: "wakeup (Some (nwrite_chan pi)) s2 = Ok s3" unfolding s3_def by (rule pipe_wakeup [OF run c2])
    define s4 where "s4 = (upd_pipe pi (pipe_lock_update (\<lambda>_. initlock)) s3)\<lparr>mycpu := crit c\<rparr>"
    have l3: "pipe_lock (pipes s3 pi) = held_by (cpu_id c)" "mycpu s3 = push_off c" using l1(1) c2 by (simp_all add: s3_def s2_def c_def)
    have "piperead pi addr n s = Ok (int k, s4)"
      using tr True emp l1(5) m'(1) wk pipe_leave [OF run, of s3 pi] l3
      by (auto simp: piperead_def piperead_turn_def s2_def [symmetric] s4_def c_def)
    moreover have "pipe_queue (pipes s4 pi) = drop k q"
      using pipe_drop_queue [of k "pipes s1 pi"] l1(4) by (simp add: s4_def s3_def s2_def k_def q_def)
    moreover have "\<forall>x. x \<noteq> pi \<longrightarrow> pipes s4 x = pipes s x" by (simp add: s4_def s3_def s2_def s1_def upd_pipe_def)
    moreover have "pipe_lock (pipes s4 pi) = initlock" "mem s4 = m'" "ptable s4 = woken_all (nwrite_chan pi) p (ptable s)"
      by (simp_all add: s4_def s3_def s2_def)
    moreover have "uvm_inv s4 fl r K"
      by (rule uvm_inv_cong [OF m'(3)]) (use R(1) in \<open>simp_all add: s4_def s3_def s2_def\<close>)
    ultimately show ?thesis using True m'(2) by auto
  next
    case False
    have kl: "killed p s1 = Ok (False, s1)" using killed_eq [of s1 p] l1(2,3) R(5) nk cp by simp
    have p1: "plock (ptable s1 p) = initlock" using R(5) l1(3) by simp
    define s2 where "s2 = (upd_pipe pi (pipe_lock_update (\<lambda>_. initlock)) s1)\<lparr>ptable := (ptable s1)(p := (ptable s1 p)\<lparr>plock := held_by (cpu_id c),
      chan := Some (nread_chan pi), state := SLEEPING\<rparr>)\<rparr>"
    have "piperead_try pi addr n s = Ok (Block (nread_chan pi), intr_get c, s2)"
      using tr False emp l1(5) kl pipe_sleep [OF R(1-3) l1(2) p1 l1(1), of "Some (nread_chan pi)"]
      by (simp add: piperead_turn_def s2_def)
    moreover have "pipes s2 = pipes s" using lk by (auto simp: s2_def s1_def pipe_locked_def upd_pipe_def fun_eq_iff)
    moreover have "mem s2 = mem s" "state (ptable s2 p) = SLEEPING" "chan (ptable s2 p) = Some (nread_chan pi)" by (simp_all add: s2_def s1_def)
    ultimately show ?thesis using False by auto
  qed
qed

theorem piperead_takes_witness:
  "\<exists>m fl s'. uvm_inv m fl 0x87ff7000 {0} \<and>
     piperead 0x80100000 0x10 3 ((sample_user m 0x87ff7000)\<lparr>pipes := \<lambda>_. pipe_put [1, 2] sample_pipe\<rparr>) = Ok (2, s') \<and>
     written (mem m) 0x87ff7000 0x10 [1, 2] (mem s')"
proof -
  obtain m :: machine and fl where m: "uvm_inv m fl 0x87ff7000 {0}" "upte (mem m) 0x87ff7000 0 AND PTE_U \<noteq> 0"
    using one_user_page by blast
  define s where "s = (sample_user m 0x87ff7000)\<lparr>pipes := \<lambda>_. pipe_put [1, 2] sample_pipe\<rparr>"
  have "pipe_queue sample_pipe = []" by (simp add: pipe_queue_def sample_pipe_def)
  then have q: "pipe_queue (pipes s 0x80100000) = [1, 2]" "pipe_lock (pipes s 0x80100000) = initlock"
    using pipe_put_queue [of sample_pipe "[1, 2]"] by (simp_all add: s_def sample_user_running PIPESIZE_def sample_pipe_def)
  have run: "running s 0" "\<not> pkilled (ptable s 0)" "pagetable (ptable s 0) = 0x87ff7000" "mem s = mem m"
    using sample_user_running [of m "0x87ff7000"] by (simp_all add: s_def running_def)
  have inv: "uvm_inv s fl 0x87ff7000 {0}"
    by (rule uvm_inv_cong [OF sample_user_uvm [OF m(1)]]) (use run(1) in \<open>simp_all add: s_def running_def\<close>)
  have rd: "readable (mem s) 0x87ff7000 {0} (unat (0x10 :: uint64)) (nat 3)" using m(2) by (simp add: readable_def run)
  have "\<exists>s'. piperead 0x80100000 0x10 3 s = Ok (2, s') \<and> written (mem m) 0x87ff7000 0x10 [1, 2] (mem s')"
    using piperead_takes [OF run(1) q(2) run(2) run(3) [symmetric] inv rd] unfolding q(1) run(4) by (simp add: NVPAGES_def) blast
  then show ?thesis using m(1) by (auto simp: s_def)
qed

end
