(* ===== verification/Uart_Spec.thy ===== *)
theory Uart_Spec
  imports Sample Ringbuf Sleep_Spec
begin

text \<open>
  The serial port. \<open>uart_chip U out\<close> is what the documentation of the 16550 says of the registers
  that the driver uses to transmit: the transmitter becomes idle, reading the line status sends
  nothing, and a byte written to the holding register right after the status said that the
  register is empty is the next one sent. What happens to a byte written at another time is
  left open: it may be lost. \<open>out\<close> gives the bytes sent so far. The polling functions then return
  and send exactly their characters, and the transmit buffer is a queue in front of the wire.
\<close>

definition uart_poll :: "'u uart_ops \<Rightarrow> 'u \<Rightarrow> (uchar \<times> 'u) option" where
  "uart_poll U u = while_option (\<lambda>(v, u). v AND LSR_TX_IDLE = 0) (\<lambda>(v, u). rd U LSR u) (rd U LSR u)"

definition uart_chip :: "'u uart_ops \<Rightarrow> ('u \<Rightarrow> uchar list) \<Rightarrow> bool" where
  "uart_chip U out \<longleftrightarrow> (\<forall>u. uart_poll U u \<noteq> None) \<and>
     (\<forall>u v u'. rd U LSR u = (v, u') \<longrightarrow> out u' = out u \<and> (v AND LSR_TX_IDLE \<noteq> 0 \<longrightarrow> (\<forall>c. out (wr U THR c u') = out u @ [c])))"

lemma uart_chipD:
  assumes "uart_chip U out" and "rd U LSR u = (v, u')"
  shows "out u' = out u" "v AND LSR_TX_IDLE \<noteq> 0 \<Longrightarrow> out (wr U THR c u') = out u @ [c]"
  using assms unfolding uart_chip_def by blast+

lemma uart_poll_sends:
  assumes chip: "uart_chip U out"
  shows "\<exists>v u'. uart_poll U u = Some (v, u') \<and> (\<forall>c. out (wr U THR c u') = out u @ [c])"
proof -
  obtain v u' where x: "uart_poll U u = Some (v, u')" using assms unfolding uart_chip_def by (metis option.exhaust surj_pair)
  have "\<exists>u0. rd U LSR u0 = (v, u') \<and> out u0 = out u"
    by (rule while_option_rule [OF _ x [unfolded uart_poll_def], where P = "\<lambda>x. \<exists>u0. rd U LSR u0 = x \<and> out u0 = out u"])
      (use uart_chipD(1) [OF chip] in \<open>auto split: prod.splits\<close>)
  moreover have "v AND LSR_TX_IDLE \<noteq> 0" using while_option_stop [OF x [unfolded uart_poll_def]] by simp
  ultimately show ?thesis using x uart_chipD(2) [OF chip] by metis
qed

lemma poll_state:
  "while_option (\<lambda>(v, s). v AND LSR_TX_IDLE = 0) (\<lambda>(v, s). ReadReg U LSR s) (ReadReg U LSR s) =
   map_option (\<lambda>(v, u). (v, s\<lparr>uart := u\<rparr>)) (uart_poll U (uart s))"
proof -
  have "map_option (\<lambda>(v, u). (v, s\<lparr>uart := u\<rparr>)) (uart_poll U (uart s)) =
    while_option (\<lambda>(v, s). v AND LSR_TX_IDLE = 0) (\<lambda>(v, s). ReadReg U LSR s) ((\<lambda>(v, u). (v, s\<lparr>uart := u\<rparr>)) (rd U LSR (uart s)))"
    unfolding uart_poll_def by (rule while_option_commute) (auto simp: ReadReg_def split: prod.splits)
  then show ?thesis by (simp add: ReadReg_def Let_def split: prod.splits)
qed

text \<open>A hart inside a critical section, where nested sections leave no trace.\<close>

definition in_crit :: "('u, 'a) csys_scheme \<Rightarrow> bool" where
  "in_crit s \<longleftrightarrow> cpu_ok (mycpu s) \<and> crit (mycpu s) = mycpu s \<and> \<not> panicked s"

lemma in_crit_upd [simp]: "in_crit (s\<lparr>uart := u\<rparr>) = in_crit s" "in_crit (s\<lparr>ptable := t\<rparr>) = in_crit s"
  by (simp_all add: in_crit_def)

lemma uartputc_sync_sends:
  assumes chip: "uart_chip U out" and s: "in_crit s"
  shows "\<exists>u. uartputc_sync U c s = Ok (s\<lparr>uart := u\<rparr>) \<and> out u = out (uart s) @ [word_of_int c]"
proof -
  obtain v u where u: "uart_poll U (uart s) = Some (v, u)" "\<forall>c. out (wr U THR c u) = out (uart s) @ [c]" using uart_poll_sends [OF chip] by blast
  have pop: "pop_off (push_off (mycpu s)) = Ok (mycpu s)" using pop_push s by (auto simp: in_crit_def)
  have "uartputc_sync U c s = Ok (s\<lparr>uart := wr U THR (word_of_int c) u\<rparr>)"
    using s u(1) pop by (simp add: uartputc_sync_def poll_state in_crit_def WriteReg_def Let_def)
  then show ?thesis using u(2) by blast
qed

lemma consputc_sends:
  assumes chip: "uart_chip U out" and s: "in_crit s"
  shows "\<exists>u. consputc U c s = Ok (s\<lparr>uart := u\<rparr>) \<and> out u = out (uart s) @ (if c = BACKSPACE then [8, 32, 8] else [word_of_int c])"
proof (cases "c = BACKSPACE")
  case True
  obtain u1 where 1: "uartputc_sync U 8 s = Ok (s\<lparr>uart := u1\<rparr>)" "out u1 = out (uart s) @ [8]"
    using uartputc_sync_sends [OF chip s, of 8] by auto
  obtain u2 where 2: "uartputc_sync U 32 (s\<lparr>uart := u1\<rparr>) = Ok (s\<lparr>uart := u2\<rparr>)" "out u2 = out u1 @ [32]"
    using uartputc_sync_sends [OF chip, of "s\<lparr>uart := u1\<rparr>" 32] s by auto
  obtain u3 where 3: "uartputc_sync U 8 (s\<lparr>uart := u2\<rparr>) = Ok (s\<lparr>uart := u3\<rparr>)" "out u3 = out u2 @ [8]"
    using uartputc_sync_sends [OF chip, of "s\<lparr>uart := u2\<rparr>" 8] s by auto
  show ?thesis using True 1 2 3 by (intro exI [of _ u3]) (simp add: consputc_def)
next
  case False
  then show ?thesis using uartputc_sync_sends [OF chip s, of c] by (simp add: consputc_def)
qed

lemma consputs_sends:
  assumes chip: "uart_chip U out"
  shows "in_crit s \<Longrightarrow> \<exists>u. consputs U cs s = Ok (s\<lparr>uart := u\<rparr>) \<and> out u = out (uart s) @ cs"
proof (induction cs arbitrary: s)
  case Nil
  then show ?case by (intro exI [of _ "uart s"]) simp
next
  case (Cons c cs)
  have "uint c < 256" using uint_lt2p [of c] by simp
  then have c: "uint c \<noteq> BACKSPACE" by (simp add: BACKSPACE_def)
  obtain u1 where 1: "consputc U (uint c) s = Ok (s\<lparr>uart := u1\<rparr>)" "out u1 = out (uart s) @ [c]"
    using consputc_sends [OF chip Cons.prems, of "uint c"] c by auto
  obtain u2 where 2: "consputs U cs (s\<lparr>uart := u1\<rparr>) = Ok (s\<lparr>uart := u2\<rparr>)" "out u2 = out u1 @ cs"
    using Cons.IH [of "s\<lparr>uart := u1\<rparr>"] Cons.prems by auto
  show ?case using 1 2 by (intro exI [of _ u2]) simp
qed

text \<open>Two chips: one that is always ready, and one that is slow and loses what it gets while busy.\<close>

lemma ready_uart_chip: "uart_chip ready_uart (\<lambda>u. u)"
proof -
  have "uart_poll ready_uart u = Some (LSR_TX_IDLE, u)" for u
    unfolding uart_poll_def by (subst while_option_unfold) (simp add: ready_uart_def LSR_TX_IDLE_def)
  then show ?thesis by (simp add: uart_chip_def) (simp add: ready_uart_def)
qed

lemma slow_uart_chip: "uart_chip slow_uart fst"
proof -
  have "while_option (\<lambda>(v, u). v AND LSR_TX_IDLE = 0) (\<lambda>(v, u). rd slow_uart LSR u) (rd slow_uart LSR (sent, n)) \<noteq> None" for sent n
  proof (induction n)
    case 0
    show ?case by (subst while_option_unfold) (simp add: slow_uart_def LSR_TX_IDLE_def)
  next
    case (Suc n)
    then show ?case by (subst while_option_unfold) (simp add: slow_uart_def)
  qed
  then have "uart_poll slow_uart u \<noteq> None" for u by (cases u) (simp add: uart_poll_def)
  then show ?thesis by (auto simp: uart_chip_def) (auto simp: slow_uart_def split: if_splits)
qed

section \<open>The transmit buffer\<close>

interpretation tring: ring_size UART_TX_BUF_SIZE "TYPE(64)"
  by unfold_locales (simp_all add: UART_TX_BUF_SIZE_def)

definition tx_queue :: "('u, 'a) csys_scheme \<Rightarrow> uchar list" where
  "tx_queue s = ring_list UART_TX_BUF_SIZE (uart_tx_buf s) (uart_tx_r s) (uart_tx_w s)"

definition plocks_unheld :: "'a ptab_scheme \<Rightarrow> bool" where
  "plocks_unheld s \<longleftrightarrow> (\<forall>q < NPROC. cpu_proc (mycpu s) \<noteq> Some q \<longrightarrow> plock (ptable s q) = initlock)"

definition tx_step :: "('u, 'a) csys_scheme \<Rightarrow> ('u, 'a) csys_scheme \<Rightarrow> bool" where
  "tx_step s s' \<longleftrightarrow> (\<exists>t r u. s' = s\<lparr>ptable := t, uart_tx_r := r, uart := u\<rparr> \<and> woke s s')"

text \<open>No process but the one on the hart sleeps on the channel of the transmit buffer.\<close>

definition no_writers :: "'a ptab_scheme \<Rightarrow> bool" where
  "no_writers s \<longleftrightarrow> (\<forall>q < NPROC. cpu_proc (mycpu s) \<noteq> Some q \<longrightarrow> \<not> (state (ptable s q) = SLEEPING \<and> chan (ptable s q) = Some uart_chan))"

text \<open>The status register says that the transmitter is busy, and this was read last.\<close>

definition uart_busy :: "'u uart_ops \<Rightarrow> 'u \<Rightarrow> bool" where
  "uart_busy U u \<longleftrightarrow> (\<exists>v u0. rd U LSR u0 = (v, u) \<and> v AND LSR_TX_IDLE = 0)"

text \<open>
  The loop of \<^verbatim>\<open>uartstart\<close> moves characters from the front of the buffer to the wire until the
  buffer is empty or the chip is busy, and wakes those that wait for room when it has made some.
\<close>

definition tx_post :: "'u uart_ops \<Rightarrow> ('u \<Rightarrow> uchar list) \<Rightarrow> ('u, 'a) csys_scheme \<Rightarrow> ('u, 'a) csys_scheme \<Rightarrow> bool" where
  "tx_post U out s s' \<longleftrightarrow> tx_step s s' \<and> out (uart s') @ tx_queue s' = out (uart s) @ tx_queue s \<and> length (tx_queue s') \<le> length (tx_queue s) \<and>
     (tx_queue s' = [] \<or> uart_busy U (uart s')) \<and> (tx_queue s' = tx_queue s \<and> ptable s' = ptable s \<or> no_writers s')"

lemma uartstart_loop_fifo:
  assumes chip: "uart_chip U out"
  shows "in_crit s \<Longrightarrow> plocks_unheld s \<Longrightarrow> n = length (tx_queue s) \<Longrightarrow> \<exists>s'. uartstart_loop U n s = Ok s' \<and> tx_post U out s s'"
proof (induction n arbitrary: s)
  case 0
  have "tx_step s s" unfolding tx_step_def by (intro exI [of _ "ptable s"] exI [of _ "uart_tx_r s"] exI [of _ "uart s"]) simp
  then show ?case using 0 by (simp add: tx_post_def)
next
  case (Suc n)
  have refl: "tx_step s (s\<lparr>uart := u\<rparr>)" for u
    unfolding tx_step_def by (intro exI [of _ "ptable s"] exI [of _ "uart_tx_r s"] exI [of _ u]) (simp add: woke_def)
  obtain v u1 where rd: "rd U LSR (uart s) = (v, u1)" by fastforce
  note C = uart_chipD [OF chip rd]
  have ne: "uart_tx_w s \<noteq> uart_tx_r s" using Suc.prems(3) by (auto simp: tx_queue_def)
  show ?case
  proof (cases "v AND LSR_TX_IDLE = 0")
    case True
    then have "uart_busy U u1" using rd by (auto simp: uart_busy_def)
    then show ?thesis using True ne rd C(1) refl [of u1] by (simp add: ReadReg_def tx_queue_def tx_post_def)
  next
    case False
    define ch where "ch = uart_tx_buf s (unat (uart_tx_r s) mod UART_TX_BUF_SIZE)"
    define t where "t = wake_from (Some uart_chan) (cpu_proc (mycpu s)) 0 (ptable s)"
    define s1 where "s1 = s\<lparr>ptable := t, uart_tx_r := uart_tx_r s + 1, uart := wr U THR ch u1\<rparr>"
    have q: "tx_queue s = ch # tx_queue s1"
      using tring.pop [OF ne, of "uart_tx_buf s"] by (simp add: tx_queue_def s1_def ch_def)
    have wk: "wakeup (Some uart_chan) (s\<lparr>uart := u1, uart_tx_r := uart_tx_r s + 1\<rparr>) = Ok (s\<lparr>ptable := t, uart_tx_r := uart_tx_r s + 1, uart := u1\<rparr>)"
      using wakeup_eq [of "s\<lparr>uart := u1, uart_tx_r := uart_tx_r s + 1\<rparr>" "Some uart_chan"] Suc.prems by (simp add: t_def in_crit_def plocks_unheld_def)
    have step: "uartstart_loop U (Suc n) s = uartstart_loop U n s1"
      using False ne rd wk by (simp add: ReadReg_def WriteReg_def Let_def s1_def ch_def)
    have "in_crit s1" using Suc.prems(1) by (simp add: s1_def in_crit_def)
    moreover have "plocks_unheld s1" using Suc.prems(2) by (simp add: plocks_unheld_def s1_def t_def wake_from_def)
    ultimately obtain s' where S: "uartstart_loop U n s1 = Ok s'" "tx_post U out s1 s'" using Suc.IH [of s1] Suc.prems(3) q by auto
    have w1: "woke s s1" using Suc.prems(1) by (intro woke_wake_from [of s1 "Some uart_chan" "cpu_proc (mycpu s)" 0]) (simp_all add: s1_def t_def in_crit_def)
    obtain t' r' u' where s': "s' = s1\<lparr>ptable := t', uart_tx_r := r', uart := u'\<rparr>" "woke s1 s'" using S(2) by (auto simp: tx_post_def tx_step_def)
    have "tx_step s s'" unfolding tx_step_def using woke_trans [OF w1 s'(2)] by (intro exI [of _ t'] exI [of _ r'] exI [of _ u']) (simp add: s'(1) s1_def)
    moreover have "no_writers s1" by (auto simp: no_writers_def s1_def t_def wake_from_def woken_def)
    then have "no_writers s'" using S(2) s'(1) by (auto simp: tx_post_def no_writers_def)
    moreover have "out (uart s1) = out (uart s) @ [ch]" using C(2) [OF False] by (simp add: s1_def)
    ultimately have "tx_post U out s s'" using S(2) q by (simp add: tx_post_def)
    then show ?thesis using step S(1) by auto
  qed
qed

lemma uart_sleep:
  assumes "cpu_ok c" and "noff c = 0" and "cpu_proc c = Some p" and "mycpu s = push_off c" and "plock (ptable s p) = initlock"
    and "uart_tx_lock s = held_by (cpu_id c)"
  shows "sleep_enter ch uart_release s = Ok (intr_get c, s\<lparr>uart_tx_lock := initlock,
    ptable := (ptable s)(p := (ptable s p)\<lparr>plock := held_by (cpu_id c), chan := ch, state := SLEEPING\<rparr>)\<rparr>)"
proof -
  have rel: "release (held_by (cpu_id c)) (push_off (push_off c)) = Ok (initlock, push_off c)"
    using release_push_off [of "push_off c"] push_off_facts [OF assms(1)] by simp
  have "uart_release (s\<lparr>mycpu := push_off (push_off c), ptable := (ptable s)(p := (ptable s p)\<lparr>plock := held_by (cpu_id c)\<rparr>)\<rparr>) =
      Ok (s\<lparr>uart_tx_lock := initlock, ptable := (ptable s)(p := (ptable s p)\<lparr>plock := held_by (cpu_id c)\<rparr>)\<rparr>)"
    using assms(4,6) rel by (simp add: uart_release_def)
  from sleep_enter_eq [where release_lk = uart_release, OF assms(1-5) this] show ?thesis using assms(4) by simp
qed

text \<open>
  C37: The transmit buffer is a queue in front of the wire. When it is not full, \<^verbatim>\<open>uartputc\<close>
  returns, and the characters sent followed by those still buffered are the previous ones with
  the new character at the end: nothing is lost, repeated or reordered, although the chip may
  lose a byte that it gets while it is busy. Whatever could be sent has been: the buffer is empty, or
  the last thing the chip said was that it is busy. If something was sent, no other process is
  left asleep waiting for room. When the buffer is full, the caller ends up asleep on the
  channel of the buffer, and nothing is sent or changed in it.
\<close>

theorem uartputc_fifo:
  assumes chip: "uart_chip U out" and run: "running s p" and lk: "uart_tx_lock s = initlock" and np: "\<not> panicked s"
    and ok: "length (tx_queue s) \<le> UART_TX_BUF_SIZE"
  shows "if length (tx_queue s) < UART_TX_BUF_SIZE
    then \<exists>s'. uartputc U c s = Ok s' \<and> out (uart s') @ tx_queue s' = out (uart s) @ tx_queue s @ [c] \<and>
      length (tx_queue s') \<le> UART_TX_BUF_SIZE \<and> uart_tx_lock s' = initlock \<and> running s' p \<and>
      (tx_queue s' = [] \<or> uart_busy U (uart s')) \<and> (out (uart s') = out (uart s) \<or> no_writers s')
    else \<exists>s' b. uartputc_try U c s = Ok (Block uart_chan, b, s') \<and> tx_queue s' = tx_queue s \<and> uart s' = uart s \<and>
      state (ptable s' p) = SLEEPING \<and> chan (ptable s' p) = Some uart_chan"
proof -
  define cc where "cc = mycpu s"
  have R: "cpu_ok cc" "noff cc = 0" "cpu_proc cc = Some p" "p < NPROC" "\<forall>q < NPROC. plock (ptable s q) = initlock"
    using run by (auto simp: running_def cc_def)
  have cp: "crit (push_off cc) = push_off cc" "cpu_ok (push_off cc)" using R(1) by (auto simp: crit_push_off cpu_ok_push_off cpu_ok_def)
  define s1 where "s1 = s\<lparr>uart_tx_lock := held_by (cpu_id cc), mycpu := push_off cc\<rparr>"
  have acq: "uart_acquire s = Ok s1" using lk by (simp add: uart_acquire_def acquire_free s1_def cc_def)
  have full: "uart_tx_w s1 = uart_tx_r s1 + word_of_nat UART_TX_BUF_SIZE \<longleftrightarrow> length (tx_queue s) = UART_TX_BUF_SIZE"
    using tring.full_iff by (simp add: s1_def tx_queue_def)
  have np1: "\<not> panicked s1" using np by (simp add: s1_def)
  show ?thesis
  proof (cases "length (tx_queue s) < UART_TX_BUF_SIZE")
    case True
    define s2 where "s2 = s1\<lparr>uart_tx_buf := (uart_tx_buf s1)(unat (uart_tx_w s1) mod UART_TX_BUF_SIZE := c), uart_tx_w := uart_tx_w s1 + 1\<rparr>"
    have q2: "tx_queue s2 = tx_queue s @ [c]"
      using tring.push [of "uart_tx_w s" "uart_tx_r s" "uart_tx_buf s" c] True by (simp add: tx_queue_def s2_def s1_def)
    have "in_crit s2" "plocks_unheld s2" using cp np R(5) by (simp_all add: in_crit_def s2_def s1_def plocks_unheld_def)
    then obtain s3 where S: "uartstart U s2 = Ok s3" "tx_post U out s2 s3"
      unfolding uartstart_def using uartstart_loop_fifo [OF chip, of s2 "unat (uart_tx_w s2 - uart_tx_r s2)"] by (auto simp: tx_queue_def)
    obtain t r u where s3: "s3 = s2\<lparr>ptable := t, uart_tx_r := r, uart := u\<rparr>" "woke s2 s3" using S(2) by (auto simp: tx_post_def tx_step_def)
    define s4 where "s4 = s3\<lparr>uart_tx_lock := initlock, mycpu := crit cc\<rparr>"
    have rel: "uart_release s3 = Ok s4" using R(1) by (simp add: uart_release_def release_push_off s4_def s3(1) s2_def s1_def)
    have "uartputc U c s = Ok s4"
      using acq np1 full True S(1) rel by (simp add: uartputc_def uartputc_try_def uartputc_turn_def Let_def s2_def)
    moreover have "tx_queue s4 = tx_queue s3" "uart s4 = uart s3" by (simp_all add: tx_queue_def s4_def)
    moreover have "uart s2 = uart s" by (simp add: s2_def s1_def)
    moreover have "no_writers s4 = no_writers s3" by (simp add: no_writers_def s4_def s3(1) s2_def s1_def cc_def)
    moreover have "running s4 p"
      by (rule running_woke(1) [OF run]) (use s3(2) in \<open>simp add: woke_def s4_def s3(1) s2_def s1_def cc_def\<close>)
    moreover have "uart_tx_lock s4 = initlock" by (simp add: s4_def)
    ultimately show ?thesis using True S(2) q2 by (intro if_P [THEN iffD2] exI [of _ s4]) (auto simp: tx_post_def)
  next
    case False
    then have f: "length (tx_queue s) = UART_TX_BUF_SIZE" using ok by simp
    define s2 where "s2 = s1\<lparr>uart_tx_lock := initlock, ptable := (ptable s)(p := (ptable s p)\<lparr>plock := held_by (cpu_id cc),
      chan := Some uart_chan, state := SLEEPING\<rparr>)\<rparr>"
    have "sleep_enter (Some uart_chan) uart_release s1 = Ok (intr_get cc, s2)"
      using uart_sleep [OF R(1-3), of s1 "Some uart_chan"] R(4,5) by (simp add: s1_def s2_def)
    then have "uartputc_try U c s = Ok (Block uart_chan, intr_get cc, s2)"
      using acq np1 full f by (simp add: uartputc_try_def uartputc_turn_def)
    moreover have "tx_queue s2 = tx_queue s" "uart s2 = uart s" "state (ptable s2 p) = SLEEPING" "chan (ptable s2 p) = Some uart_chan"
      by (simp_all add: s2_def s1_def tx_queue_def)
    ultimately show ?thesis using f by auto
  qed
qed

theorem uartputc_fifo_witness:
  "\<exists>s'. uartputc slow_uart 65 slow_csys = Ok s' \<and> fst (uart s') @ tx_queue s' = [65] \<and> (tx_queue s' = [] \<or> uart_busy slow_uart (uart s'))"
proof -
  have "tx_queue slow_csys = []" "uart_tx_lock slow_csys = initlock" "\<not> panicked slow_csys" "fst (uart slow_csys) = []"
    by (simp_all add: tx_queue_def sample_defs)
  then show ?thesis using uartputc_fifo [OF slow_uart_chip sample_running(3), of 65] by (auto simp: UART_TX_BUF_SIZE_def)
qed

end
