(* ===== verification/Printf_Spec.thy ===== *)
theory Printf_Spec
  imports Uart_Spec
begin

text \<open>
  The kernel's \<^verbatim>\<open>printf\<close>. Numbers read back as the value that was passed, and fit into the buffer
  of \<^verbatim>\<open>printint\<close>. A format is a list of pieces, literal characters and conversions, each with its
  argument; \<open>piece_out\<close> says what a piece has to print without reference to the code, and \<^verbatim>\<open>printf\<close>
  sends what its pieces have to print, in order.
\<close>

section \<open>Numbers\<close>

definition digit_val :: "uchar \<Rightarrow> nat" where
  "digit_val c = (if 0x30 \<le> c \<and> c \<le> 0x39 then unat c - 0x30 else unat c - 0x57)"

text \<open>The number that a string of digits denotes, most significant first.\<close>

definition digits_val :: "nat \<Rightarrow> uchar list \<Rightarrow> nat" where
  "digits_val base cs = foldl (\<lambda>n c. base * n + digit_val c) 0 cs"

lemma digit_val_digits: "d < 16 \<Longrightarrow> digit_val (digits d) = d"
proof -
  assume "d < 16"
  then have "d \<in> set [0..<16]" by simp
  moreover have "\<forall>d \<in> set [0..<16]. digit_val (digits d) = d" by (simp add: upt_rec digits_def chars_def digit_val_def)
  ultimately show ?thesis by blast
qed

lemma mod16: "1 < base \<Longrightarrow> base \<le> 16 \<Longrightarrow> x mod base < (16 :: nat)"
  by (rule less_le_trans [OF mod_less_divisor]) simp_all

lemma digits_val_snoc: "digits_val base (cs @ [c]) = base * digits_val base cs + digit_val c"
  by (simp add: digits_val_def)

lemma printint_digits_val:
  "1 < base \<Longrightarrow> base \<le> 16 \<Longrightarrow> digits_val base (rev (printint_digits base x)) = x"
proof (induction base x rule: printint_digits.induct)
  case (1 base x)
  have d: "digit_val (digits (x mod base)) = x mod base" by (rule digit_val_digits [OF mod16 [OF 1(2,3)]])
  have "digits_val base (rev (if 1 < base \<and> x div base \<noteq> 0 then printint_digits base (x div base) else [])) = x div base"
    using 1 by (auto simp: digits_val_def)
  then show ?case using d by (simp add: printint_digits.simps [of base x] digits_val_snoc)
qed

lemma printint_digits_length: "1 < base \<Longrightarrow> x < base ^ Suc n \<Longrightarrow> length (printint_digits base x) \<le> Suc n"
proof (induction n arbitrary: x)
  case 0
  then show ?case by (simp add: printint_digits.simps [of base x])
next
  case (Suc n)
  have "x div base < base ^ Suc n" using Suc.prems by (simp add: div_less_iff_less_mult mult.commute)
  then show ?case using Suc by (simp add: printint_digits.simps [of base x])
qed

lemma printint_digits_not_minus: "1 < base \<Longrightarrow> base \<le> 16 \<Longrightarrow> 0x2D \<notin> set (printint_digits base x)"
proof (induction base x rule: printint_digits.induct)
  case (1 base x)
  have "\<forall>d \<in> set [0..<16]. digits d \<noteq> 0x2D" by (simp add: upt_rec digits_def chars_def)
  moreover have "x mod base \<in> set [0..<16]" using mod16 [OF 1(2,3)] by simp
  ultimately have "digits (x mod base) \<noteq> 0x2D" by blast
  then show ?case using 1 by (auto simp: printint_digits.simps [of base x])
qed

text \<open>The number that a printed string denotes, with an optional sign.\<close>

definition print_val :: "nat \<Rightarrow> uchar list \<Rightarrow> int" where
  "print_val base cs = (case cs of c # ds \<Rightarrow> if c = 0x2D then - int (digits_val base ds) else int (digits_val base cs) | [] \<Rightarrow> 0)"

lemma neg_unat:
  fixes x :: uint32
  assumes "sint x < 0"
  shows "int (unat (- x)) = - sint x"
proof -
  have r: "- (2 ^ 31) \<le> sint x" using sint_ge [of x] by simp
  have "- x = word_of_int (- sint x)" by simp
  then have "uint (- x) = (- sint x) mod 2 ^ 32" by (simp only: uint_word_of_int) simp
  also have "\<dots> = - sint x" by (rule mod_pos_pos_trivial) (use assms r in simp_all)
  finally show ?thesis by (simp only: uint_nat)
qed

lemma pos_sint:
  fixes x :: uint32
  assumes "0 \<le> sint x"
  shows "uint x = sint x"
proof -
  have "uint (word_of_int (sint x) :: uint32) = sint x mod 2 ^ 32" by (simp only: uint_word_of_int) simp
  also have "\<dots> = sint x" by (rule mod_pos_pos_trivial) (use assms sint_lt [of x] in simp_all)
  finally show ?thesis by simp
qed

text \<open>
  C39: \<^verbatim>\<open>printint\<close> prints the value it is given. In base 10 or 16 the characters, read with their
  sign, denote the signed value of the argument, the most negative number included; without
  the sign flag they denote its unsigned value. At most 11 characters are stored, so the
  buffer of 16 does not overflow.
\<close>

theorem printint_value:
  assumes "base = 10 \<or> base = 16"
  shows "print_val base (printint xx base sign) = (if sign then sint xx else uint xx) \<and> length (printint xx base sign) \<le> 11"
proof -
  have b: "1 < base" "base \<le> 16" using assms by auto
  define neg where "neg \<longleftrightarrow> sign \<and> sint xx < 0"
  define x where "x = (if neg then - xx else xx)"
  have p: "printint xx base sign = (if neg then [0x2D] else []) @ rev (printint_digits base (unat x))"
    by (simp add: printint_def neg_def x_def Let_def)
  obtain c cs where c: "rev (printint_digits base (unat x)) = c # cs" by (cases "rev (printint_digits base (unat x))") (auto simp: printint_digits.simps [of base "unat x"])
  have nm: "c \<noteq> 0x2D" using printint_digits_not_minus [OF b, of "unat x"] c by (metis list.set_intros(1) set_rev)
  have v: "print_val base (printint xx base sign) = (if neg then - int (unat x) else int (unat x))"
    using printint_digits_val [OF b, of "unat x"] nm by (simp add: p c print_val_def)
  have "(if neg then - int (unat x) else int (unat x)) = (if sign then sint xx else uint xx)"
  proof (cases neg)
    case True
    then have "int (unat x) = - sint xx" "sign" using neg_unat [of xx] by (simp_all only: neg_def x_def) simp
    then show ?thesis using True by simp
  next
    case False
    moreover have "sint xx = uint xx" if "\<not> sint xx < 0" using pos_sint [of xx] that by simp
    ultimately show ?thesis by (auto simp: neg_def x_def)
  qed
  moreover have "unat x < base ^ Suc 9"
    using assms unsigned_less [of x] by (auto simp: power_numeral intro: less_le_trans)
  then have "length (printint_digits base (unat x)) \<le> Suc 9" by (rule printint_digits_length [OF b(1)])
  ultimately show ?thesis using v by (simp add: p)
qed

theorem printint_value_witness: "print_val 10 (printint (- 2147483648) 10 True) = -2147483648"
  using printint_value [of 10 "- 2147483648" True] by simp

section \<open>Formats\<close>

datatype piece = Lit uchar | Dec uint32 | Hex uint32 | Ptr uint64 | Str "uchar list option" | Percent | Other uchar

text \<open>A piece as it stands in the format, and the argument that goes with it.\<close>

primrec piece_fmt :: "piece \<Rightarrow> uchar list" where
  "piece_fmt (Lit c) = [c]"
| "piece_fmt (Dec x) = chars ''%d''"
| "piece_fmt (Hex x) = chars ''%x''"
| "piece_fmt (Ptr x) = chars ''%p''"
| "piece_fmt (Str t) = chars ''%s''"
| "piece_fmt Percent = chars ''%%''"
| "piece_fmt (Other c) = chars ''%'' @ [c]"

primrec piece_args :: "piece \<Rightarrow> fmtarg list" where
  "piece_args (Lit c) = []"
| "piece_args (Dec x) = [ArgInt x]"
| "piece_args (Hex x) = [ArgInt x]"
| "piece_args (Ptr x) = [ArgPtr x]"
| "piece_args (Str t) = [ArgStr t]"
| "piece_args Percent = []"
| "piece_args (Other c) = []"

primrec piece_wf :: "piece \<Rightarrow> bool" where
  "piece_wf (Lit c) \<longleftrightarrow> c \<notin> set (0 # chars ''%'')"
| "piece_wf (Dec x) \<longleftrightarrow> True"
| "piece_wf (Hex x) \<longleftrightarrow> True"
| "piece_wf (Ptr x) \<longleftrightarrow> True"
| "piece_wf (Str t) \<longleftrightarrow> True"
| "piece_wf Percent \<longleftrightarrow> True"
| "piece_wf (Other c) \<longleftrightarrow> c \<notin> set (0 # chars ''dxps%'')"

text \<open>
  The numeral of an integer: its digits without leading zeros, after a minus sign if it is
  negative. A pointer is written with all of its 16 hexadecimal digits.
\<close>

definition digit_of :: "nat \<Rightarrow> uchar \<Rightarrow> bool" where
  "digit_of base c \<longleftrightarrow> (0x30 \<le> c \<and> c \<le> 0x39 \<or> 0x61 \<le> c \<and> c \<le> 0x66) \<and> digit_val c < base"

definition numeral_of :: "nat \<Rightarrow> int \<Rightarrow> uchar list \<Rightarrow> bool" where
  "numeral_of base n cs \<longleftrightarrow> (\<exists>ds. cs = (if n < 0 then chars ''-'' else []) @ ds \<and> ds \<noteq> [] \<and> (\<forall>c \<in> set ds. digit_of base c) \<and>
     int (digits_val base ds) = \<bar>n\<bar> \<and> (digit_val (hd ds) = 0 \<longrightarrow> length ds = 1))"

primrec piece_out :: "piece \<Rightarrow> uchar list \<Rightarrow> bool" where
  "piece_out (Lit c) cs \<longleftrightarrow> cs = [c]"
| "piece_out (Dec x) cs \<longleftrightarrow> numeral_of 10 (sint x) cs"
| "piece_out (Hex x) cs \<longleftrightarrow> numeral_of 16 (sint x) cs"
| "piece_out (Ptr x) cs \<longleftrightarrow> (\<exists>ds. cs = chars ''0x'' @ ds \<and> length ds = 16 \<and> (\<forall>c \<in> set ds. digit_of 16 c) \<and> digits_val 16 ds = unat x)"
| "piece_out (Str t) cs \<longleftrightarrow> cs = (case t of None \<Rightarrow> chars ''(null)'' | Some t \<Rightarrow> takeWhile (\<lambda>c. c \<noteq> 0) t)"
| "piece_out Percent cs \<longleftrightarrow> cs = chars ''%''"
| "piece_out (Other c) cs \<longleftrightarrow> cs = chars ''%'' @ [c]"

section \<open>The pieces as the code prints them\<close>

primrec piece_chars :: "piece \<Rightarrow> uchar list" where
  "piece_chars (Lit c) = [c]"
| "piece_chars (Dec x) = printint x 10 True"
| "piece_chars (Hex x) = printint x 16 True"
| "piece_chars (Ptr x) = printptr x"
| "piece_chars (Str t) = takeWhile (\<lambda>c. c \<noteq> 0) (case t of None \<Rightarrow> chars ''(null)'' | Some t \<Rightarrow> t)"
| "piece_chars Percent = [0x25]"
| "piece_chars (Other c) = [0x25, c]"

lemma printf_loop_lit:
  "c \<noteq> 0 \<Longrightarrow> c \<noteq> 0x25 \<Longrightarrow> printf_loop U (c # fmt) ap s = rbind (consputc U (uint c) s) (printf_loop U fmt ap)"
  by (cases fmt) (simp_all cong: rbind_cong)

lemma printf_loop_piece:
  assumes "piece_wf p"
  shows "printf_loop U (piece_fmt p @ fmt) (piece_args p @ ap) s = rbind (consputs U (piece_chars p) s) (printf_loop U fmt ap)"
  using assms by (cases p) (simp_all add: chars_def printf_loop_lit rbind_assoc Let_def)

lemma printf_loop_pieces:
  assumes "\<forall>p \<in> set ps. piece_wf p"
  shows "printf_loop U (concat (map piece_fmt ps) @ fmt) (concat (map piece_args ps) @ ap) s =
    rbind (consputs U (concat (map piece_chars ps)) s) (printf_loop U fmt ap)"
  using assms
proof (induction ps arbitrary: s)
  case (Cons p ps)
  have app: "consputs U (xs @ ys) s = rbind (consputs U xs s) (consputs U ys)" for xs ys s
    by (induction xs arbitrary: s) (simp_all add: rbind_assoc cong: rbind_cong)
  show ?case using Cons by (simp add: printf_loop_piece app rbind_assoc cong: rbind_cong)
qed simp

lemma printf_pieces_in:
  fixes s :: "('u, 'a) csys_scheme"
  assumes chip: "uart_chip U out" and c: "cpu_ok (mycpu s)" "pr_locking s \<or> crit (mycpu s) = mycpu s" and np: "\<not> panicked s" and lk: "pr_lock s = initlock"
    and ps: "\<forall>p \<in> set ps. piece_wf p" and fmt: "fmt = concat (map piece_fmt ps) @ (if b then [0x25] else [])" and args: "args = concat (map piece_args ps) @ ap"
  shows "\<exists>u. printf U fmt args s = Ok (s\<lparr>uart := u, mycpu := crit (mycpu s)\<rparr>) \<and> out u = out (uart s) @ concat (map piece_chars ps)"
proof -
  define cs where "cs = concat (map piece_chars ps)"
  have loop: "printf_loop U fmt args t = consputs U cs t" for t :: "('u, 'a) csys_scheme"
    unfolding fmt args printf_loop_pieces [OF ps] cs_def by (cases "consputs U (concat (map piece_chars ps)) t") simp_all
  show ?thesis unfolding cs_def [symmetric]
  proof (cases "pr_locking s")
    case True
    define s1 where "s1 = s\<lparr>pr_lock := held_by (cpu_id (mycpu s)), mycpu := push_off (mycpu s)\<rparr>"
    have acq: "pr_acquire s = Ok s1" using lk by (simp add: pr_acquire_def acquire_free s1_def)
    have "in_crit s1" using c np by (auto simp: in_crit_def s1_def cpu_ok_push_off crit_push_off cpu_ok_def)
    then obtain u where u: "consputs U cs s1 = Ok (s1\<lparr>uart := u\<rparr>)" "out u = out (uart s) @ cs"
      using consputs_sends [OF chip, of s1 cs] by (auto simp: s1_def)
    have "pr_release (s1\<lparr>uart := u\<rparr>) = Ok (s\<lparr>uart := u, mycpu := crit (mycpu s)\<rparr>)"
      using c(1) lk by (cases s) (simp add: pr_release_def release_push_off s1_def)
    then show "\<exists>u. printf U fmt args s = Ok (s\<lparr>uart := u, mycpu := crit (mycpu s)\<rparr>) \<and> out u = out (uart s) @ cs"
      using True acq u loop by (intro exI [of _ u]) (simp add: printf_def)
  next
    case False
    then have "in_crit s" using c np by (simp add: in_crit_def)
    then obtain u where u: "consputs U cs s = Ok (s\<lparr>uart := u\<rparr>)" "out u = out (uart s) @ cs" using consputs_sends [OF chip] by blast
    moreover have "s\<lparr>uart := u, mycpu := crit (mycpu s)\<rparr> = s\<lparr>uart := u\<rparr>" using False c by simp
    ultimately show "\<exists>u. printf U fmt args s = Ok (s\<lparr>uart := u, mycpu := crit (mycpu s)\<rparr>) \<and> out u = out (uart s) @ cs"
      using False loop by (intro exI [of _ u]) (simp add: printf_def)
  qed
qed

section \<open>The pieces print what they have to\<close>

lemma digit_of_digits: "d < base \<Longrightarrow> base \<le> 16 \<Longrightarrow> digit_of base (digits d)"
proof -
  assume a: "d < base" "base \<le> 16"
  then have "d \<in> set [0..<16]" by simp
  moreover have "\<forall>d \<in> set [0..<16]. 0x30 \<le> digits d \<and> digits d \<le> 0x39 \<or> 0x61 \<le> digits d \<and> digits d \<le> 0x66"
    by (simp add: upt_rec digits_def chars_def)
  ultimately show ?thesis using a digit_val_digits [of d] by (simp add: digit_of_def)
qed

lemma printint_digits_numeral:
  "1 < base \<Longrightarrow> base \<le> 16 \<Longrightarrow> (\<forall>c \<in> set (printint_digits base x). digit_of base c) \<and> printint_digits base x \<noteq> [] \<and>
    (digit_val (last (printint_digits base x)) = 0 \<longrightarrow> length (printint_digits base x) = 1)"
proof (induction base x rule: printint_digits.induct)
  case (1 base x)
  have d: "digit_of base (digits (x mod base))" "digit_val (digits (x mod base)) = x mod base"
    using 1(2,3) digit_of_digits [of "x mod base" base] digit_val_digits [OF mod16 [OF 1(2,3)]] by simp_all
  show ?case
  proof (cases "x div base = 0")
    case True
    then show ?thesis using d by (simp add: printint_digits.simps [of base x])
  next
    case False
    let ?ds = "printint_digits base (x div base)"
    have IH: "(\<forall>c \<in> set ?ds. digit_of base c) \<and> ?ds \<noteq> [] \<and> (digit_val (last ?ds) = 0 \<longrightarrow> length ?ds = 1)" using 1 False by simp
    have "digit_val (last ?ds) \<noteq> 0"
    proof
      assume z: "digit_val (last ?ds) = 0"
      then obtain c where c: "?ds = [c]" using IH by (auto simp: length_Suc_conv)
      then have "digits_val base (rev ?ds) = 0" using z by (simp add: digits_val_def)
      then show False using printint_digits_val [OF 1(2,3), of "x div base"] False by simp
    qed
    then show ?thesis using d IH 1(2) False by (simp add: printint_digits.simps [of base x])
  qed
qed

lemma printint_numeral:
  assumes "1 < base" "base \<le> 16"
  shows "numeral_of base (sint x) (printint x base True)"
proof -
  define n where "n = (if sint x < 0 then - x else x)"
  define ds where "ds = rev (printint_digits base (unat n))"
  have D: "\<forall>c \<in> set ds. digit_of base c" "ds \<noteq> []" "digit_val (hd ds) = 0 \<longrightarrow> length ds = 1"
    using printint_digits_numeral [OF assms, of "unat n"] by (simp_all add: ds_def hd_rev)
  have "int (unat n) = \<bar>sint x\<bar>"
  proof (cases "sint x < 0")
    case True
    then show ?thesis using neg_unat [OF True] by (simp only: n_def) simp
  next
    case False
    then show ?thesis using pos_sint [of x] by (simp add: n_def)
  qed
  then have v: "int (digits_val base ds) = \<bar>sint x\<bar>" using printint_digits_val [OF assms, of "unat n"] by (simp only: ds_def)
  have "printint x base True = (if sint x < 0 then chars ''-'' else []) @ ds"
    by (simp add: printint_def n_def ds_def Let_def chars_def)
  then show ?thesis unfolding numeral_of_def using D v by (intro exI [of _ ds] conjI) simp_all
qed

lemma nibble:
  fixes x :: uint64
  assumes "i < 16"
  shows "unat (drop_bit 60 (push_bit (4 * i) x)) = unat x div 16 ^ (15 - i) mod 16"
proof -
  have e: "60 + n - 4 * i = 4 * (15 - i) + n" for n using assms by simp
  have "drop_bit 60 (push_bit (4 * i) x) = take_bit 4 (drop_bit (4 * (15 - i)) x)"
    using assms by (intro bit_eqI) (auto simp: bit_simps e)
  moreover have "unat (take_bit 4 (drop_bit (4 * (15 - i)) x)) = take_bit 4 (drop_bit (4 * (15 - i)) (unat x))"
    by (simp add: unsigned_take_bit_eq unat_drop_bit_eq)
  moreover have "take_bit 4 (drop_bit (4 * (15 - i)) (unat x)) = unat x div 16 ^ (15 - i) mod 16"
    by (simp add: take_bit_eq_mod drop_bit_eq_div power_mult)
  ultimately show ?thesis by (simp only:)
qed

lemma printptr_prefix:
  fixes x :: uint64
  shows "n \<le> 16 \<Longrightarrow> digits_val 16 (map (\<lambda>i. digits (unat (drop_bit 60 (push_bit (4 * i) x)))) [0..<n]) = unat x div 16 ^ (16 - n)"
proof (induction n)
  case 0
  have "unat x < 2 ^ 64" using unsigned_less [where 'a = nat and 'b = 64, of x] by simp
  then show ?case by (simp add: digits_val_def)
next
  case (Suc n)
  define y where "y = unat x div 16 ^ (15 - n)"
  have e: "16 - n = Suc (15 - n)" "16 - Suc n = 15 - n" using Suc.prems by simp_all
  have "unat x div 16 ^ (16 - n) = y div 16" unfolding e(1) y_def power_Suc2 by (rule div_mult2_eq)
  moreover have "digit_val (digits (unat (drop_bit 60 (push_bit (4 * n) x)))) = y mod 16"
    using Suc.prems nibble [of n x] digit_val_digits [of "y mod 16"] by (simp add: y_def)
  ultimately show ?case using Suc by (simp add: digits_val_snoc e(2) flip: y_def)
qed

lemma printptr_val:
  "\<exists>ds. printptr x = chars ''0x'' @ ds \<and> length ds = 16 \<and> (\<forall>c \<in> set ds. digit_of 16 c) \<and> digits_val 16 ds = unat x"
proof -
  define ds where "ds = map (\<lambda>i. digits (unat (drop_bit 60 (push_bit (4 * i) x)))) [0..<16]"
  have "\<forall>c \<in> set ds. digit_of 16 c"
  proof
    fix c assume "c \<in> set ds"
    then obtain i where i: "i < 16" "c = digits (unat (drop_bit 60 (push_bit (4 * i) x)))" unfolding ds_def by auto
    then show "digit_of 16 c" unfolding i(2) nibble [OF i(1)] by (intro digit_of_digits) simp_all
  qed
  moreover have "digits_val 16 ds = unat x" using printptr_prefix [of 16 x] by (simp only: ds_def) simp
  moreover have "printptr x = chars ''0x'' @ ds" "length ds = 16" by (simp_all add: printptr_def ds_def)
  ultimately show ?thesis by blast
qed

lemma piece_out_chars:
  assumes "piece_wf p"
  shows "piece_out p (piece_chars p)"
  using assms by (cases p) (simp_all add: printint_numeral printptr_val, simp_all add: chars_def split: option.splits)

text \<open>
  C38: \<^verbatim>\<open>printf\<close> prints what its format says. For a format made of any literal characters and
  conversions with their arguments, it returns and sends, one after the other and nothing else,
  the literal characters; for \<^verbatim>\<open>%d\<close> and \<^verbatim>\<open>%x\<close> the decimal and the hexadecimal numeral of the signed
  argument, for \<^verbatim>\<open>%p\<close> all 16 hexadecimal digits of the pointer after \<^verbatim>\<open>0x\<close>, for \<^verbatim>\<open>%s\<close> the string up to its
  null byte, or \<^verbatim>\<open>(null)\<close> for the null pointer, and \<^verbatim>\<open>%%\<close> and unknown conversions as themselves (a
  percent sign once, an unknown conversion with it); a percent sign at the very end prints
  nothing. The lock of \<^verbatim>\<open>pr\<close> is free again afterwards and the interrupt state of the hart is as
  before. The numbers exclude the smallest \<^verbatim>\<open>int\<close>, whose negation C does not define.
\<close>

theorem printf_sends:
  assumes "uart_chip U out" and "cpu_ok (mycpu s)" and "pr_locking s" and "\<not> panicked s" and "pr_lock s = initlock"
    and "\<forall>p \<in> set ps. piece_wf p \<and> p \<notin> {Dec 0x80000000, Hex 0x80000000}"
  shows "\<exists>u outs. printf U (concat (map piece_fmt ps) @ (if b then chars ''%'' else [])) (concat (map piece_args ps)) s =
      Ok (s\<lparr>uart := u, mycpu := crit (mycpu s)\<rparr>) \<and> out u = out (uart s) @ concat outs \<and> list_all2 piece_out ps outs"
proof -
  have wf: "\<forall>p \<in> set ps. piece_wf p" using assms(6) by blast
  have p: "chars ''%'' = [0x25]" by (simp add: chars_def)
  obtain u where "printf U (concat (map piece_fmt ps) @ (if b then chars ''%'' else [])) (concat (map piece_args ps)) s =
      Ok (s\<lparr>uart := u, mycpu := crit (mycpu s)\<rparr>) \<and> out u = out (uart s) @ concat (map piece_chars ps)"
    using printf_pieces_in [OF assms(1,2) disjI1 [OF assms(3)] assms(4,5) wf refl, of "concat (map piece_args ps)" "[]" b] unfolding p by auto
  moreover have "list_all2 piece_out ps (map piece_chars ps)" using wf piece_out_chars by (simp add: list_all2_conv_all_nth)
  ultimately show ?thesis by blast
qed

theorem printf_sends_witness:
  "\<exists>s c. printf slow_uart (chars ''%x%s'') [ArgInt (- 11), ArgStr (Some (chars ''sh''))] slow_csys = Ok s \<and>
     fst (uart s) = c @ chars ''sh'' \<and> numeral_of 16 (- 11) c"
proof -
  have "cpu_ok (mycpu slow_csys)" "pr_locking slow_csys" "\<not> panicked slow_csys" "pr_lock slow_csys = initlock"
    using sample_running(3) by (simp_all add: running_def) (simp_all add: sample_defs)
  note L = printf_sends [OF slow_uart_chip this, of "[Hex (- 11), Str (Some (chars ''sh''))]" False]
  have u: "fst (uart slow_csys) = []" by (simp add: sample_defs)
  have "sint (- 11 :: uint32) = - 11" by simp
  then show ?thesis using L u by (auto simp: chars_def list_all2_Cons1)
qed

end
