(* ===== verification/Console_Spec.thy ===== *)
theory Console_Spec
  imports Printf_Spec
begin

text \<open>
  The console as a line discipline: complete lines that wait for readers, and the line that is
  being edited. \<open>line_step\<close> says what a typed character does to the two; \<^verbatim>\<open>consoleintr\<close> implements
  it on the ring buffer.
\<close>

interpretation cring: ring_size INPUT_BUF_SIZE "TYPE(32)"
  by unfold_locales (simp_all add: INPUT_BUF_SIZE_def)

definition cons_ready :: "('u, 'a) csys_scheme \<Rightarrow> uchar list" where
  "cons_ready s = ring_list INPUT_BUF_SIZE (cons_buf s) (cons_r s) (cons_w s)"

definition cons_line :: "('u, 'a) csys_scheme \<Rightarrow> uchar list" where
  "cons_line s = ring_list INPUT_BUF_SIZE (cons_buf s) (cons_w s) (cons_e s)"

definition cons_ok :: "('u, 'a) csys_scheme \<Rightarrow> bool" where
  "cons_ok s \<longleftrightarrow> length (cons_ready s) + length (cons_line s) \<le> INPUT_BUF_SIZE \<and> 0x0A \<notin> set (cons_line s)"

definition line_step :: "int \<Rightarrow> uchar list \<times> uchar list \<Rightarrow> uchar list \<times> uchar list" where
  "line_step c = (\<lambda>(ready, line).
     if c = 0x10 then (ready, line)
     else if c = 0x15 then (ready, [])
     else if c = 8 \<or> c = 0x7F then (ready, butlast line)
     else if c \<noteq> 0 \<and> length ready + length line < INPUT_BUF_SIZE then
       let ch = (if c = 0x0D then 0x0A else word_of_int c) in
       if ch = 0x0A \<or> ch = 4 \<or> length ready + length line + 1 = INPUT_BUF_SIZE then (ready @ line @ [ch], []) else (ready, line @ [ch])
     else (ready, line))"

lemma cons_lens: "length (cons_ready s) = unat (cons_w s - cons_r s)" "length (cons_line s) = unat (cons_e s - cons_w s)"
  by (simp_all add: cons_ready_def cons_line_def)

lemma cons_total:
  assumes "cons_ok s"
  shows "unat (cons_e s - cons_r s) = length (cons_ready s) + length (cons_line s)"
    "ring_list INPUT_BUF_SIZE (cons_buf s) (cons_r s) (cons_e s) = cons_ready s @ cons_line s"
proof -
  have "unat (cons_w s - cons_r s) + unat (cons_e s - cons_w s) < 2 ^ LENGTH(32)"
    using assms cring.less by (simp add: cons_ok_def cons_lens)
  then show R: "ring_list INPUT_BUF_SIZE (cons_buf s) (cons_r s) (cons_e s) = cons_ready s @ cons_line s"
    using cring.split [of "cons_w s" "cons_r s" "cons_e s" "cons_buf s"] by (simp add: cons_ready_def cons_line_def)
  have "length (ring_list INPUT_BUF_SIZE (cons_buf s) (cons_r s) (cons_e s)) = length (cons_ready s @ cons_line s)" by (simp only: R)
  then show "unat (cons_e s - cons_r s) = length (cons_ready s) + length (cons_line s)" by simp
qed

section \<open>Printing the process list\<close>

lemma printf_in_crit:
  assumes "uart_chip U out" and "in_crit s" and "pr_lock s = initlock" and "\<forall>p \<in> set ps. piece_wf p"
    and "fmt = concat (map piece_fmt ps)" and "args = concat (map piece_args ps)"
  shows "\<exists>u. printf U fmt args s = Ok (s\<lparr>uart := u\<rparr>)"
proof -
  obtain u where "printf U fmt args s = Ok (s\<lparr>uart := u, mycpu := crit (mycpu s)\<rparr>)"
    using printf_pieces_in [OF assms(1) _ _ _ assms(3,4), of fmt False args "[]"] assms(2,5,6) by (auto simp: in_crit_def)
  moreover have "s\<lparr>uart := u, mycpu := crit (mycpu s)\<rparr> = s\<lparr>uart := u\<rparr>" using assms(2) by (simp add: in_crit_def)
  ultimately show ?thesis by auto
qed

lemma procdump_loop_returns:
  assumes chip: "uart_chip U out"
  shows "in_crit s \<Longrightarrow> pr_lock s = initlock \<Longrightarrow> \<exists>u. procdump_loop U p s = Ok (s\<lparr>uart := u\<rparr>)"
proof (induction "NPROC - p" arbitrary: p s)
  case 0
  then show ?case by (intro exI [of _ "uart s"]) (simp add: procdump_loop.simps)
next
  case (Suc n)
  then have p: "p < NPROC" "n = NPROC - Suc p" by simp_all
  show ?case
  proof (cases "state (ptable s p) = UNUSED")
    case True
    then show ?thesis using Suc.hyps(1) [OF p(2) Suc.prems] p(1) by (simp add: procdump_loop.simps [of U p])
  next
    case False
    obtain u1 where 1: "printf U (chars ''%d %s %s'') [ArgInt (pid (ptable s p)), ArgStr (Some (state_name (state (ptable s p)))),
        ArgStr (Some (name_str (pname (ptable s p))))] s = Ok (s\<lparr>uart := u1\<rparr>)"
      using printf_in_crit [OF chip Suc.prems, of "[Dec (pid (ptable s p)), Lit 0x20, Str (Some (state_name (state (ptable s p)))), Lit 0x20, Str (Some (name_str (pname (ptable s p))))]"]
      by (auto simp: chars_def)
    obtain u2 where 2: "printf U [0x0A] [] (s\<lparr>uart := u1\<rparr>) = Ok (s\<lparr>uart := u2\<rparr>)"
      using printf_in_crit [OF chip, of "s\<lparr>uart := u1\<rparr>" "[Lit 0x0A]"] Suc.prems by (auto simp: chars_def)
    obtain u3 where 3: "procdump_loop U (Suc p) (s\<lparr>uart := u2\<rparr>) = Ok (s\<lparr>uart := u3\<rparr>)"
      using Suc.hyps(1) [OF p(2), of "s\<lparr>uart := u2\<rparr>"] Suc.prems by auto
    show ?thesis using False p(1) 1 2 3 by (intro exI [of _ u3]) (simp add: procdump_loop.simps [of U p])
  qed
qed

lemma procdump_returns:
  assumes chip: "uart_chip U out" and "in_crit s" and "pr_lock s = initlock"
  shows "\<exists>u. procdump U s = Ok (s\<lparr>uart := u\<rparr>)"
proof -
  obtain u1 where 1: "printf U [0x0A] [] s = Ok (s\<lparr>uart := u1\<rparr>)" using printf_in_crit [OF assms, of "[Lit 0x0A]"] by (auto simp: chars_def)
  obtain u2 where 2: "procdump_loop U 0 (s\<lparr>uart := u1\<rparr>) = Ok (s\<lparr>uart := u2\<rparr>)"
    using procdump_loop_returns [OF chip, of "s\<lparr>uart := u1\<rparr>" 0] assms(2,3) by auto
  show ?thesis using 1 2 by (intro exI [of _ u2]) (simp add: procdump_def)
qed

section \<open>Editing\<close>

lemma kill_line_clears:
  assumes chip: "uart_chip U out"
  shows "in_crit s \<Longrightarrow> n = length (cons_line s) \<Longrightarrow> 0x0A \<notin> set (cons_line s) \<Longrightarrow>
    \<exists>u. kill_line U n s = Ok (s\<lparr>uart := u, cons_e := cons_w s\<rparr>)"
proof (induction n arbitrary: s)
  case 0
  then have "unat (cons_e s - cons_w s) = 0" by (simp add: cons_lens)
  then have e: "cons_e s = cons_w s" by (simp add: unat_eq_0)
  have "s = s\<lparr>uart := uart s, cons_e := cons_w s\<rparr>" by (simp add: e [symmetric])
  then show ?case by (intro exI [of _ "uart s"]) simp
next
  case (Suc n)
  have ne: "cons_e s \<noteq> cons_w s" using Suc.prems(2) by (auto simp: cons_line_def)
  define s1 where "s1 = s\<lparr>cons_e := cons_e s - 1\<rparr>"
  have l: "cons_line s = cons_line s1 @ [cons_buf s (unat (cons_e s - 1) mod INPUT_BUF_SIZE)]"
    using cring.unpush [OF ne, of "cons_buf s"] by (simp add: cons_line_def s1_def)
  have c: "cons_buf s (unat (cons_e s - 1) mod INPUT_BUF_SIZE) \<noteq> 0x0A" using Suc.prems(3) l by (metis in_set_conv_decomp)
  have "in_crit s1" using Suc.prems(1) by (simp add: s1_def in_crit_def)
  then obtain u1 where 1: "consputc U BACKSPACE s1 = Ok (s1\<lparr>uart := u1\<rparr>)" using consputc_sends [OF chip] by blast
  have "cons_line (s1\<lparr>uart := u1\<rparr>) = cons_line s1" by (simp add: cons_line_def)
  then have "n = length (cons_line (s1\<lparr>uart := u1\<rparr>))" "0x0A \<notin> set (cons_line (s1\<lparr>uart := u1\<rparr>))" "in_crit (s1\<lparr>uart := u1\<rparr>)"
    using Suc.prems l \<open>in_crit s1\<close> by auto
  then obtain u2 where 2: "kill_line U n (s1\<lparr>uart := u1\<rparr>) = Ok (s1\<lparr>uart := u2, cons_e := cons_w s\<rparr>)"
    using Suc.IH [of "s1\<lparr>uart := u1\<rparr>"] by (auto simp: s1_def)
  show ?case using ne c 1 2 by (intro exI [of _ u2]) (simp add: s1_def)
qed

text \<open>The body of \<^verbatim>\<open>consoleintr\<close> between the acquisition and the release of the lock.\<close>

definition cons_edit :: "'u uart_ops \<Rightarrow> int \<Rightarrow> ('u, 'a) csys_scheme \<Rightarrow> ('u, 'a) csys_scheme res" where
  "cons_edit U c s =
     (if c = 0x10 then procdump U s
      else if c = 0x15 then kill_line U (unat (cons_e s - cons_w s)) s
      else if c = 8 \<or> c = 0x7F then
        if cons_e s \<noteq> cons_w s then consputc U BACKSPACE (s\<lparr>cons_e := cons_e s - 1\<rparr>) else Ok s
      else if c \<noteq> 0 \<and> unat (cons_e s - cons_r s) < INPUT_BUF_SIZE then
        let c = (if c = 0x0D then 0x0A else c) in
        rbind (consputc U c s) (\<lambda>s.
        let s = s\<lparr>cons_buf := (cons_buf s)(unat (cons_e s) mod INPUT_BUF_SIZE := word_of_int c)\<rparr>;
            s = s\<lparr>cons_e := cons_e s + 1\<rparr>
        in if c = 0x0A \<or> c = 4 \<or> unat (cons_e s - cons_r s) = INPUT_BUF_SIZE
           then wakeup (Some cons_chan) (s\<lparr>cons_w := cons_e s\<rparr>) else Ok s)
      else Ok s)"

lemma consoleintr_edit: "consoleintr U c s = rbind (cons_acquire s) (\<lambda>s. rbind (cons_edit U c s) cons_release)"
  by (simp add: consoleintr_def cons_edit_def)

definition cons_post :: "int \<Rightarrow> ('u, 'a) csys_scheme \<Rightarrow> ('u, 'a) csys_scheme \<Rightarrow> bool" where
  "cons_post c s s' \<longleftrightarrow> (cons_ready s', cons_line s') = line_step c (cons_ready s, cons_line s) \<and> cons_ok s' \<and> mycpu s' = mycpu s \<and>
     cons_lock s' = cons_lock s \<and>
     ptable s' = (if cons_ready s' = cons_ready s then ptable s else wake_from (Some cons_chan) (cpu_proc (mycpu s)) 0 (ptable s))"

lemma cons_upd [simp]:
  "cons_ready (s\<lparr>uart := u\<rparr>) = cons_ready s" "cons_line (s\<lparr>uart := u\<rparr>) = cons_line s" "cons_ok (s\<lparr>uart := u\<rparr>) = cons_ok s"
  by (simp_all add: cons_ready_def cons_line_def cons_ok_def)

lemma cons_push:
  fixes ch :: uchar
  assumes ok: "cons_ok s" and len: "length (cons_ready s) + length (cons_line s) < INPUT_BUF_SIZE"
  defines "s1 \<equiv> s\<lparr>cons_buf := (cons_buf s)(unat (cons_e s) mod INPUT_BUF_SIZE := ch), cons_e := cons_e s + 1\<rparr>"
  shows "cons_ready s1 = cons_ready s" "cons_line s1 = cons_line s @ [ch]" "unat (cons_e s1 - cons_r s1) = length (cons_ready s) + length (cons_line s) + 1"
    "cons_ready (s1\<lparr>cons_w := cons_e s1\<rparr>) = cons_ready s @ cons_line s @ [ch]" "cons_line (s1\<lparr>cons_w := cons_e s1\<rparr>) = []"
proof -
  have T: "unat (cons_e s - cons_r s) < INPUT_BUF_SIZE" using cons_total(1) [OF ok] len by simp
  have all: "ring_list INPUT_BUF_SIZE (cons_buf s1) (cons_r s) (cons_e s + 1) = cons_ready s @ cons_line s @ [ch]"
    using cring.push [OF T, of "cons_buf s" ch] cons_total(2) [OF ok] by (simp add: s1_def)
  show line: "cons_line s1 = cons_line s @ [ch]"
    using cring.push [of "cons_e s" "cons_w s" "cons_buf s" ch] len by (simp add: cons_line_def s1_def)
  have "length (ring_list INPUT_BUF_SIZE (cons_buf s1) (cons_r s) (cons_e s + 1)) = length (cons_ready s @ cons_line s @ [ch])" by (simp only: all)
  then show e: "unat (cons_e s1 - cons_r s1) = length (cons_ready s) + length (cons_line s) + 1" by (simp add: s1_def)
  have l1: "unat (cons_w s - cons_r s) = length (cons_ready s)" "unat (cons_e s + 1 - cons_w s) = length (cons_line s) + 1"
    using line cons_lens(2) [of s1] by (simp_all add: cons_ready_def s1_def)
  have "unat (cons_w s - cons_r s) + unat (cons_e s + 1 - cons_w s) < 2 ^ LENGTH(32)" unfolding l1 using len cring.less by simp
  then have "cons_ready s1 @ cons_line s1 = cons_ready s @ cons_line s @ [ch]"
    using cring.split [of "cons_w s" "cons_r s" "cons_e s + 1" "cons_buf s1"] all by (simp add: cons_ready_def cons_line_def s1_def)
  then show "cons_ready s1 = cons_ready s" unfolding line by simp
  show "cons_ready (s1\<lparr>cons_w := cons_e s1\<rparr>) = cons_ready s @ cons_line s @ [ch]" "cons_line (s1\<lparr>cons_w := cons_e s1\<rparr>) = []"
    using all by (simp_all add: cons_ready_def cons_line_def s1_def)
qed

lemma cons_edit_char:
  assumes chip: "uart_chip U out" and s: "in_crit s" "plocks_unheld s" and ok: "cons_ok s" and c: "0 < c" "c < 256"
    and len: "length (cons_ready s) + length (cons_line s) < INPUT_BUF_SIZE" and ne: "c \<notin> {0x10, 0x15, 8, 0x7F}"
  shows "\<exists>s'. cons_edit U c s = Ok s' \<and> cons_post c s s'"
proof -
  define ci where "ci = (if c = 0x0D then 0x0A else c)"
  define ch :: uchar where "ch = word_of_int ci"
  have uc: "uint ch = ci" unfolding ch_def using c by (simp only: uint_word_of_int) (simp add: ci_def)
  have chc: "ch = (if c = 0x0D then 0x0A else word_of_int c)" by (simp add: ch_def ci_def)
  have eqs: "ci = 0x0A \<longleftrightarrow> ch = 0x0A" "ci = 4 \<longleftrightarrow> ch = 4" unfolding uc [symmetric] by (simp_all add: word_uint_eq_iff)
  obtain u where u: "consputc U ci s = Ok (s\<lparr>uart := u\<rparr>)" using consputc_sends [OF chip s(1)] by blast
  define s1 where "s1 = s\<lparr>uart := u, cons_buf := (cons_buf s)(unat (cons_e s) mod INPUT_BUF_SIZE := ch), cons_e := cons_e s + 1\<rparr>"
  note P = cons_push [of "s\<lparr>uart := u\<rparr>" ch, simplified, OF ok len, folded s1_def]
  define t where "t = wake_from (Some cons_chan) (cpu_proc (mycpu s)) 0 (ptable s)"
  define full where "full \<longleftrightarrow> ci = 0x0A \<or> ci = 4 \<or> length (cons_ready s) + length (cons_line s) + 1 = INPUT_BUF_SIZE"
  have tot: "unat (cons_e s - cons_r s) < INPUT_BUF_SIZE" using cons_total(1) [OF ok] len by simp
  have wk: "wakeup (Some cons_chan) (s1\<lparr>cons_w := cons_e s1\<rparr>) = Ok (s1\<lparr>cons_w := cons_e s1, ptable := t\<rparr>)"
    using wakeup_eq [of "s1\<lparr>cons_w := cons_e s1\<rparr>" "Some cons_chan"] s by (simp add: in_crit_def plocks_unheld_def s1_def t_def)
  have edit: "cons_edit U c s = (if full then Ok (s1\<lparr>cons_w := cons_e s1, ptable := t\<rparr>) else Ok s1)"
    using ne c(1) tot u wk P(3) unfolding cons_edit_def full_def by (simp add: ci_def [symmetric] Let_def s1_def ch_def)
  have step: "line_step c (cons_ready s, cons_line s) = (if full then (cons_ready s @ cons_line s @ [ch], []) else (cons_ready s, cons_line s @ [ch]))"
    using ne c(1) len eqs unfolding line_step_def full_def by (simp add: chc [symmetric] Let_def)
  show ?thesis
  proof (cases full)
    case True
    define s2 where "s2 = s1\<lparr>cons_w := cons_e s1, ptable := t\<rparr>"
    have R: "cons_ready s2 = cons_ready s @ cons_line s @ [ch]" "cons_line s2 = []"
      using P(4,5) by (simp_all add: s2_def cons_ready_def cons_line_def) (simp_all add: s1_def)
    have "cons_post c s s2"
      using True step R len by (simp add: cons_post_def cons_ok_def) (simp add: s2_def s1_def t_def)
    then show ?thesis using edit True by (simp add: s2_def)
  next
    case False
    have "0x0A \<notin> set (cons_line s)" using ok by (simp add: cons_ok_def)
    then have "cons_ok s1" using P(1,2) len False eqs by (auto simp: cons_ok_def full_def)
    then have "cons_post c s s1" using False step P(1,2) by (simp add: cons_post_def) (simp add: s1_def)
    then show ?thesis using edit False by simp
  qed
qed

lemma cons_edit_spec:
  assumes chip: "uart_chip U out" and s: "in_crit s" "plocks_unheld s" "pr_lock s = initlock" and ok: "cons_ok s" and c: "0 \<le> c" "c < 256"
  shows "\<exists>s'. cons_edit U c s = Ok s' \<and> cons_post c s s'"
proof -
  have same: "cons_post c s (s\<lparr>uart := u\<rparr>)" if "line_step c (cons_ready s, cons_line s) = (cons_ready s, cons_line s)" for u
    using that ok by (simp add: cons_post_def)
  consider (dump) "c = 0x10" | (kill) "c = 0x15" | (erase) "c = 8 \<or> c = 0x7F" | (none) "c \<notin> {0x10, 0x15, 8, 0x7F}" "c = 0 \<or> \<not> length (cons_ready s) + length (cons_line s) < INPUT_BUF_SIZE"
    | (char) "c \<notin> {0x10, 0x15, 8, 0x7F}" "c \<noteq> 0" "length (cons_ready s) + length (cons_line s) < INPUT_BUF_SIZE" by blast
  then show ?thesis
  proof cases
    case dump
    then obtain u where "cons_edit U c s = Ok (s\<lparr>uart := u\<rparr>)" using procdump_returns [OF chip s(1,3)] by (auto simp: cons_edit_def)
    then show ?thesis using same dump by (auto simp: line_step_def)
  next
    case kill
    obtain u where "kill_line U (length (cons_line s)) s = Ok (s\<lparr>uart := u, cons_e := cons_w s\<rparr>)"
      using kill_line_clears [OF chip s(1) refl] ok by (auto simp: cons_ok_def)
    then have "cons_edit U c s = Ok (s\<lparr>uart := u, cons_e := cons_w s\<rparr>)" using kill by (simp add: cons_edit_def cons_lens)
    moreover have "cons_post c s (s\<lparr>uart := u, cons_e := cons_w s\<rparr>)"
      using kill ok by (simp add: cons_post_def line_step_def cons_ok_def) (simp add: cons_ready_def cons_line_def)
    ultimately show ?thesis by blast
  next
    case erase
    show ?thesis
    proof (cases "cons_e s = cons_w s")
      case True
      then have "cons_line s = []" by (simp add: cons_line_def)
      then show ?thesis using erase True same [of "uart s"] by (auto simp: cons_edit_def line_step_def)
    next
      case False
      define s1 where "s1 = s\<lparr>cons_e := cons_e s - 1\<rparr>"
      have l: "cons_line s = cons_line s1 @ [cons_buf s (unat (cons_e s - 1) mod INPUT_BUF_SIZE)]"
        using cring.unpush [OF False, of "cons_buf s"] by (simp add: cons_line_def s1_def)
      have "in_crit s1" using s(1) by (simp add: s1_def in_crit_def)
      then obtain u where u: "consputc U BACKSPACE s1 = Ok (s1\<lparr>uart := u\<rparr>)" using consputc_sends [OF chip] by blast
      have r: "cons_ready s1 = cons_ready s" by (simp add: cons_ready_def s1_def)
      have "cons_post c s (s1\<lparr>uart := u\<rparr>)"
        using erase l r ok by (auto simp: cons_post_def line_step_def cons_ok_def) (simp_all add: s1_def)
      then show ?thesis using erase False u by (auto simp: cons_edit_def s1_def)
    qed
  next
    case none
    then have "cons_edit U c s = Ok (s\<lparr>uart := uart s\<rparr>)" using cons_total(1) [OF ok] by (auto simp: cons_edit_def)
    then show ?thesis using same [of "uart s"] none by (auto simp: line_step_def)
  next
    case char
    then show ?thesis using cons_edit_char [OF chip s(1,2) ok _ c(2) char(3,1)] c(1) by simp
  qed
qed

text \<open>
  C36: The console implements its line discipline. For every character from the serial port,
  \<^verbatim>\<open>consoleintr\<close> returns, and the lines that wait for readers and the line being edited change as
  \<open>line_step\<close> prescribes: control-U empties the edited line, backspace removes its last character,
  a newline, an end of file or the last free cell hands it to the readers, control-P and input
  without space change nothing. Whenever readers get something, those that sleep are woken.
  The buffer never overflows.
\<close>

theorem consoleintr_line_discipline:
  assumes chip: "uart_chip U out" and cpu: "cpu_ok (mycpu s)" "plocks_unheld s" and lk: "cons_lock s = initlock" "pr_lock s = initlock"
    and np: "\<not> panicked s" and ok: "cons_ok s" and c: "0 \<le> c" "c < 256"
  shows "\<exists>s'. consoleintr U c s = Ok s' \<and> (cons_ready s', cons_line s') = line_step c (cons_ready s, cons_line s) \<and> cons_ok s' \<and>
    cons_lock s' = initlock \<and> mycpu s' = crit (mycpu s) \<and>
    ptable s' = (if cons_ready s' = cons_ready s then ptable s else wake_from (Some cons_chan) (cpu_proc (mycpu s)) 0 (ptable s))"
proof -
  define s1 where "s1 = s\<lparr>cons_lock := held_by (cpu_id (mycpu s)), mycpu := push_off (mycpu s)\<rparr>"
  have acq: "cons_acquire s = Ok s1" using lk by (simp add: cons_acquire_def acquire_free s1_def)
  have c1: "cons_ready s1 = cons_ready s" "cons_line s1 = cons_line s" "cons_ok s1 = cons_ok s"
    by (simp_all add: s1_def cons_ready_def cons_line_def cons_ok_def)
  have "in_crit s1" "plocks_unheld s1" "pr_lock s1 = initlock"
    using cpu lk np push_off_facts [OF cpu(1)] by (simp_all add: s1_def in_crit_def plocks_unheld_def)
  then obtain s2 where s2: "cons_edit U c s1 = Ok s2" "cons_post c s1 s2" using cons_edit_spec [OF chip _ _ _ _ c] ok c1 by blast
  define s3 where "s3 = s2\<lparr>cons_lock := initlock, mycpu := crit (mycpu s)\<rparr>"
  have rel: "cons_release s2 = Ok s3"
    using s2(2) cpu(1) by (simp add: cons_release_def cons_post_def s1_def release_push_off s3_def)
  have "consoleintr U c s = Ok s3" using acq s2(1) rel by (simp add: consoleintr_edit)
  moreover have "cons_ready s3 = cons_ready s2" "cons_line s3 = cons_line s2" "cons_ok s3 = cons_ok s2" "ptable s3 = ptable s2"
    by (simp_all add: s3_def cons_ready_def cons_line_def cons_ok_def)
  moreover have "ptable s1 = ptable s" "cpu_proc (mycpu s1) = cpu_proc (mycpu s)" by (simp_all add: s1_def)
  ultimately show ?thesis using s2(2) c1 by (intro exI [of _ s3]) (simp add: cons_post_def s3_def)
qed

theorem consoleintr_line_discipline_witness:
  "\<exists>s1. consoleintr ready_uart 97 sample_csys = Ok s1 \<and> (cons_ready s1, cons_line s1) = ([], [97])"
proof -
  have "cons_ok sample_csys" "cons_ready sample_csys = []" "cons_line sample_csys = []" "cons_lock sample_csys = initlock" "pr_lock sample_csys = initlock" "\<not> panicked sample_csys"
    by (simp_all add: cons_ok_def cons_ready_def cons_line_def sample_defs)
  moreover have "cpu_ok (mycpu sample_csys)" "plocks_unheld sample_csys" using sample_running(2) by (simp_all add: running_def plocks_unheld_def)
  ultimately show ?thesis using consoleintr_line_discipline [OF ready_uart_chip, of sample_csys 97] by (auto simp: line_step_def INPUT_BUF_SIZE_def)
qed

end
