(* ===== verification/Sysfile.thy ===== *)
theory Sysfile
  imports File
begin

text \<open>
  The argument routines of \<^verbatim>\<open>kernel/syscall.c\<close> and \<^verbatim>\<open>kernel/sysfile.c\<close>. A system call reads its
  arguments from the trap frame of the current process and returns the 64-bit value for its
  register \<^verbatim>\<open>a0\<close>. A string argument is the list of its characters, without the final NUL; a
  failing \<^verbatim>\<open>copyinstr\<close> leaves no string.
\<close>

definition MAXPATH :: nat where [layout_defs]: "MAXPATH = 128"
definition MAXARG :: nat where [layout_defs]: "MAXARG = 32"
definition O_RDONLY :: uint32 where [layout_defs]: "O_RDONLY = 0"
definition O_WRONLY :: uint32 where [layout_defs]: "O_WRONLY = 1"
definition O_RDWR :: uint32 where [layout_defs]: "O_RDWR = 2"
definition O_CREATE :: uint32 where [layout_defs]: "O_CREATE = 0x200"
definition O_TRUNC :: uint32 where [layout_defs]: "O_TRUNC = 0x400"

section \<open>Arguments\<close>

definition fetchaddr :: "uint64 \<Rightarrow> 'a ptab_scheme \<Rightarrow> ((int \<times> uint64) \<times> 'a ptab_scheme) res" where
  "fetchaddr addr s =
     current s (\<lambda>p s.
     if addr \<ge> psz (ptable s p) \<or> addr + 8 > psz (ptable s p) then Ok ((-1, 0), s) else
     rbind (copyin (pagetable (ptable s p)) addr 8 s) (\<lambda>(r, bs).
     if r \<noteq> 0 then Ok ((-1, of_le_bytes bs), s) else Ok ((0, of_le_bytes bs), s)))"

definition fetchstr :: "uint64 \<Rightarrow> nat \<Rightarrow> 'a ptab_scheme \<Rightarrow> ((int \<times> uchar list) \<times> 'a ptab_scheme) res" where
  "fetchstr addr mx s =
     current s (\<lambda>p s.
     rbind (copyinstr (pagetable (ptable s p)) addr mx s) (\<lambda>(r, bs).
     if r < 0 then Ok ((-1, bs), s)
     else let t = takeWhile (\<lambda>c. c \<noteq> 0) bs in Ok ((int (length t), t), s)))"

definition argraw :: "nat \<Rightarrow> 'a ptab_scheme \<Rightarrow> (uint64 \<times> 'a ptab_scheme) res" where
  "argraw n s =
     rbind (myproc s) (\<lambda>(p, s).
     if n \<le> 5 then
       (case p of None \<Rightarrow> Panic ''kerneltrap''
        | Some p \<Rightarrow> Ok (load64 (mem s) (trapframe (ptable s p) + TF_a0 + 8 * word_of_nat n), s))
     else Panic ''argraw'')"

definition argint :: "nat \<Rightarrow> 'a ptab_scheme \<Rightarrow> (uint32 \<times> 'a ptab_scheme) res" where
  "argint n s = rbind (argraw n s) (\<lambda>(v, s). Ok (ucast v, s))"

definition argaddr :: "nat \<Rightarrow> 'a ptab_scheme \<Rightarrow> (uint64 \<times> 'a ptab_scheme) res" where
  "argaddr n s = argraw n s"

definition argstr :: "nat \<Rightarrow> nat \<Rightarrow> 'a ptab_scheme \<Rightarrow> ((int \<times> uchar list) \<times> 'a ptab_scheme) res" where
  "argstr n mx s = rbind (argaddr n s) (\<lambda>(addr, s). fetchstr addr mx s)"

definition argfd :: "nat \<Rightarrow> 'a ptab_scheme \<Rightarrow> ((nat \<times> nat) option \<times> 'a ptab_scheme) res" where
  "argfd n s =
     rbind (argint n s) (\<lambda>(fd, s).
     if sint fd < 0 \<or> sint fd \<ge> int NOFILE then Ok (None, s) else
     current s (\<lambda>p s.
     case ofile (ptable s p) (nat (sint fd)) of
       None \<Rightarrow> Ok (None, s)
     | Some f \<Rightarrow> Ok (Some (nat (sint fd), f), s)))"

function fdalloc_scan :: "nat \<Rightarrow> (nat \<Rightarrow> nat option) \<Rightarrow> nat option" where
  "fdalloc_scan fd o_file = (if fd < NOFILE then if o_file fd = None then Some fd else fdalloc_scan (Suc fd) o_file else None)"
  by pat_completeness auto
termination
  by (relation "measure (\<lambda>(fd, _). NOFILE - fd)") auto

declare fdalloc_scan.simps [simp del]

definition set_ofile :: "nat \<Rightarrow> nat \<Rightarrow> nat option \<Rightarrow> 'a ptab_scheme \<Rightarrow> 'a ptab_scheme" where
  "set_ofile p fd f s = upd_proc p (\<lambda>q. q\<lparr>ofile := (ofile q)(fd := f)\<rparr>) s"

definition fdalloc :: "nat \<Rightarrow> 'a ptab_scheme \<Rightarrow> (nat option \<times> 'a ptab_scheme) res" where
  "fdalloc f s =
     current s (\<lambda>p s.
     case fdalloc_scan 0 (ofile (ptable s p)) of
       None \<Rightarrow> Ok (None, s)
     | Some fd \<Rightarrow> Ok (Some fd, set_ofile p fd (Some f) s))"

section \<open>Calls on descriptors\<close>

type_synonym ('u, 'a) dev = "('u, 'a) files_scheme \<Rightarrow> ('u, 'a) files_scheme"

type_synonym ('u, 'a) sysfun = "('u, 'a) files_scheme \<Rightarrow> (uint64 \<times> ('u, 'a) files_scheme) res"

definition sys_dup :: "('u, 'a) sysfun" where
  "sys_dup s =
     rbind (argfd 0 s) (\<lambda>(r, s).
     case r of None \<Rightarrow> Ok (-1, s) | Some (_, f) \<Rightarrow>
     rbind (fdalloc f s) (\<lambda>(fd, s).
     case fd of None \<Rightarrow> Ok (-1, s) | Some fd \<Rightarrow>
     rbind (filedup f s) (\<lambda>(_, s). Ok (word_of_nat fd, s))))"

definition sys_read :: "('u, 'a) dev \<Rightarrow> ('u, 'a) sysfun" where
  "sys_read D s =
     rbind (argaddr 1 s) (\<lambda>(p, s).
     rbind (argint 2 s) (\<lambda>(n, s).
     rbind (argfd 0 s) (\<lambda>(r, s).
     case r of None \<Rightarrow> Ok (-1, s) | Some (_, f) \<Rightarrow>
     rbind (fileread D f p (sint n) s) (\<lambda>(r, s). Ok (word_of_int r, s)))))"

definition sys_write :: "'u uart_ops \<Rightarrow> ('u, 'a) dev \<Rightarrow> ('u, 'a) sysfun" where
  "sys_write U D s =
     rbind (argaddr 1 s) (\<lambda>(p, s).
     rbind (argint 2 s) (\<lambda>(n, s).
     rbind (argfd 0 s) (\<lambda>(r, s).
     case r of None \<Rightarrow> Ok (-1, s) | Some (_, f) \<Rightarrow>
     rbind (filewrite U D f p (sint n) s) (\<lambda>(r, s). Ok (word_of_int r, s)))))"

definition sys_close :: "('u, 'a) dev \<Rightarrow> ('u, 'a) sysfun" where
  "sys_close D s =
     rbind (argfd 0 s) (\<lambda>(r, s).
     case r of None \<Rightarrow> Ok (-1, s) | Some (fd, f) \<Rightarrow>
     current s (\<lambda>p s.
     let s = set_ofile p fd None s in
     rbind (fileclose D f s) (\<lambda>s. Ok (0, s))))"

definition sys_fstat :: "('u, 'a) dev \<Rightarrow> ('u, 'a) sysfun" where
  "sys_fstat D s =
     rbind (argaddr 1 s) (\<lambda>(st, s).
     rbind (argfd 0 s) (\<lambda>(r, s).
     case r of None \<Rightarrow> Ok (-1, s) | Some (_, f) \<Rightarrow>
     rbind (filestat D f st s) (\<lambda>(r, s). Ok (word_of_int r, s))))"

section \<open>Calls on names\<close>

definition fail_op :: "('u, 'a) dev \<Rightarrow> ('u, 'a) sysfun" where
  "fail_op D s = rbind (end_op D s) (\<lambda>s. Ok (-1, s))"

definition sys_link_bad :: "('u, 'a) dev \<Rightarrow> nat \<Rightarrow> ('u, 'a) sysfun" where
  "sys_link_bad D ip s =
     rbind (ilock D (Some ip) s) (\<lambda>s.
     let s = upd_inode ip (\<lambda>i. i\<lparr>inlink := inlink i - 1\<rparr>) s in
     rbind (iupdate D ip s) (\<lambda>s.
     rbind (iunlockput D ip s) (fail_op D)))"

definition sys_link :: "('u, 'a) dev \<Rightarrow> ('u, 'a) sysfun" where
  "sys_link D s =
     rbind (argstr 0 MAXPATH s) (\<lambda>((r, old), s).
     if r < 0 then Ok (-1, s) else
     rbind (argstr 1 MAXPATH s) (\<lambda>((r, new), s).
     if r < 0 then Ok (-1, s) else
     rbind (begin_op s) (\<lambda>s.
     rbind (namei D old s) (\<lambda>(ip, s).
     case ip of None \<Rightarrow> fail_op D s | Some ip \<Rightarrow>
     rbind (ilock D (Some ip) s) (\<lambda>s.
     if itype (itable s ip) = T_DIR then rbind (iunlockput D ip s) (fail_op D) else
     let s = upd_inode ip (\<lambda>i. i\<lparr>inlink := inlink i + 1\<rparr>) s in
     rbind (iupdate D ip s) (\<lambda>s.
     rbind (iunlock (Some ip) s) (\<lambda>s.
     rbind (nameiparent D new (replicate DIRSIZ 0) s) (\<lambda>(dp, name, s).
     case dp of None \<Rightarrow> sys_link_bad D ip s | Some dp \<Rightarrow>
     rbind (ilock D (Some dp) s) (\<lambda>s.
     rbind (if idev (itable s dp) \<noteq> idev (itable s ip) then Ok (-1, s)
            else dirlink D dp name (inum (itable s ip)) s) (\<lambda>(r, s).
     if r < 0 then rbind (iunlockput D dp s) (sys_link_bad D ip) else
     rbind (iunlockput D dp s) (\<lambda>s.
     rbind (iput D ip s) (\<lambda>s.
     rbind (end_op D s) (\<lambda>s. Ok (0, s))))))))))))))"

function isdirempty_loop :: "('u, 'a) dev \<Rightarrow> nat \<Rightarrow> nat \<Rightarrow> ('u, 'a) files_scheme \<Rightarrow> (bool \<times> ('u, 'a) files_scheme) res" where
  "isdirempty_loop D dp off s =
     (if off < unat (isize (itable s dp)) then
        rbind (readi D dp (KernVar []) (word_of_nat off) (word_of_nat DIRENT_size) s) (\<lambda>(r, bs, s).
        if r \<noteq> word_of_nat DIRENT_size then Panic ''isdirempty: readi''
        else if de_inum (dirent_of bs) \<noteq> 0 then Ok (False, s)
        else isdirempty_loop D dp (off + DIRENT_size) s)
      else Ok (True, s))"
  by pat_completeness auto
termination
proof (relation "measure (\<lambda>(_, _, off, _). 2 ^ 32 - off)", goal_cases)
  case (2 D dp off s)
  then show ?case using unat_uint32_less [of "isize (itable s dp)"] by (simp add: DIRENT_size_def DIRSIZ_def)
qed simp

declare isdirempty_loop.simps [simp del]

definition isdirempty :: "('u, 'a) dev \<Rightarrow> nat \<Rightarrow> ('u, 'a) files_scheme \<Rightarrow> (bool \<times> ('u, 'a) files_scheme) res" where
  "isdirempty D dp s = isdirempty_loop D dp (2 * DIRENT_size) s"

definition sys_unlink_bad :: "('u, 'a) dev \<Rightarrow> nat \<Rightarrow> ('u, 'a) sysfun" where
  "sys_unlink_bad D dp s = rbind (iunlockput D dp s) (fail_op D)"

definition sys_unlink :: "('u, 'a) dev \<Rightarrow> ('u, 'a) sysfun" where
  "sys_unlink D s =
     rbind (argstr 0 MAXPATH s) (\<lambda>((r, path), s).
     if r < 0 then Ok (-1, s) else
     rbind (begin_op s) (\<lambda>s.
     rbind (nameiparent D path (replicate DIRSIZ 0) s) (\<lambda>(dp, name, s).
     case dp of None \<Rightarrow> fail_op D s | Some dp \<Rightarrow>
     rbind (ilock D (Some dp) s) (\<lambda>s.
     if namecmp name (chars ''.'') = 0 \<or> namecmp name (chars ''..'') = 0 then sys_unlink_bad D dp s else
     rbind (dirlookup D dp name s) (\<lambda>(r, s).
     case r of None \<Rightarrow> sys_unlink_bad D dp s | Some (ip, off) \<Rightarrow>
     rbind (ilock D (Some ip) s) (\<lambda>s.
     if sint (inlink (itable s ip)) < 1 then Panic ''unlink: nlink < 1'' else
     rbind (if itype (itable s ip) = T_DIR then isdirempty D ip s else Ok (True, s)) (\<lambda>(e, s).
     if \<not> e then rbind (iunlockput D ip s) (sys_unlink_bad D dp) else
     rbind (writei D dp (KernVar (replicate DIRENT_size 0)) off (word_of_nat DIRENT_size) s) (\<lambda>(r, s).
     if r \<noteq> word_of_nat DIRENT_size then Panic ''unlink: writei'' else
     rbind (if itype (itable s ip) = T_DIR then iupdate D dp (upd_inode dp (\<lambda>i. i\<lparr>inlink := inlink i - 1\<rparr>) s) else Ok s) (\<lambda>s.
     rbind (iunlockput D dp s) (\<lambda>s.
     let s = upd_inode ip (\<lambda>i. i\<lparr>inlink := inlink i - 1\<rparr>) s in
     rbind (iupdate D ip s) (\<lambda>s.
     rbind (iunlockput D ip s) (\<lambda>s.
     rbind (end_op D s) (\<lambda>s. Ok (0, s))))))))))))))"

definition create_fail :: "('u, 'a) dev \<Rightarrow> nat \<Rightarrow> nat \<Rightarrow> ('u, 'a) files_scheme \<Rightarrow> (nat option \<times> ('u, 'a) files_scheme) res" where
  "create_fail D ip dp s =
     rbind (iupdate D ip (upd_inode ip (inlink_update (\<lambda>_. 0)) s)) (\<lambda>s.
     rbind (iunlockput D ip s) (\<lambda>s.
     rbind (iunlockput D dp s) (\<lambda>s. Ok (None, s))))"

definition create :: "('u, 'a) dev \<Rightarrow> uchar list \<Rightarrow> ushort \<Rightarrow> ushort \<Rightarrow> ushort
    \<Rightarrow> ('u, 'a) files_scheme \<Rightarrow> (nat option \<times> ('u, 'a) files_scheme) res" where
  "create D path type major minor s =
     rbind (nameiparent D path (replicate DIRSIZ 0) s) (\<lambda>(dp, name, s).
     case dp of None \<Rightarrow> Ok (None, s) | Some dp \<Rightarrow>
     rbind (ilock D (Some dp) s) (\<lambda>s.
     rbind (dirlookup D dp name s) (\<lambda>(r, s).
     case r of
       Some (ip, _) \<Rightarrow>
         rbind (iunlockput D dp s) (\<lambda>s.
         rbind (ilock D (Some ip) s) (\<lambda>s.
         if type = T_FILE \<and> (itype (itable s ip) = T_FILE \<or> itype (itable s ip) = T_DEVICE) then Ok (Some ip, s)
         else rbind (iunlockput D ip s) (\<lambda>s. Ok (None, s))))
     | None \<Rightarrow>
         rbind (ialloc D (idev (itable s dp)) type s) (\<lambda>(ip, s).
         case ip of None \<Rightarrow> rbind (iunlockput D dp s) (\<lambda>s. Ok (None, s)) | Some ip \<Rightarrow>
         rbind (ilock D (Some ip) s) (\<lambda>s.
         let s = upd_inode ip (\<lambda>i. i\<lparr>imajor := major, iminor := minor, inlink := 1\<rparr>) s in
         rbind (iupdate D ip s) (\<lambda>s.
         rbind (if type = T_DIR then
                  rbind (dirlink D ip (chars ''.'') (inum (itable s ip)) s) (\<lambda>(r, s).
                  if r < 0 then Ok (r, s) else dirlink D ip (chars ''..'') (inum (itable s dp)) s)
                else Ok (0, s)) (\<lambda>(r, s).
         if r < 0 then create_fail D ip dp s else
         rbind (dirlink D dp name (inum (itable s ip)) s) (\<lambda>(r, s).
         if r < 0 then create_fail D ip dp s else
         rbind (if type = T_DIR then iupdate D dp (upd_inode dp (\<lambda>i. i\<lparr>inlink := inlink i + 1\<rparr>) s) else Ok s) (\<lambda>s.
         rbind (iunlockput D dp s) (\<lambda>s. Ok (Some ip, s)))))))))))"

text \<open>\<^verbatim>\<open>sys_open\<close> from the point where the inode is locked.\<close>

definition open_inode :: "('u, 'a) dev \<Rightarrow> uint32 \<Rightarrow> nat \<Rightarrow> ('u, 'a) sysfun" where
  "open_inode D omode ip s =
     (if itype (itable s ip) = T_DEVICE \<and> (sint (imajor (itable s ip)) < 0 \<or> sint (imajor (itable s ip)) \<ge> NDEV)
      then rbind (iunlockput D ip s) (fail_op D) else
      rbind (filealloc s) (\<lambda>(f, s).
      case f of None \<Rightarrow> rbind (iunlockput D ip s) (fail_op D) | Some f \<Rightarrow>
      rbind (fdalloc f s) (\<lambda>(fd, s).
      case fd of None \<Rightarrow> rbind (fileclose D f s) (\<lambda>s. rbind (iunlockput D ip s) (fail_op D)) | Some fd \<Rightarrow>
      let s = (if itype (itable s ip) = T_DEVICE then upd_file f (\<lambda>x. x\<lparr>ftype := FD_DEVICE, fmajor := imajor (itable s ip)\<rparr>) s
               else upd_file f (\<lambda>x. x\<lparr>ftype := FD_INODE, foff := 0\<rparr>) s);
          s = upd_file f (\<lambda>x. x\<lparr>fip := Some ip, freadable := (omode AND O_WRONLY = 0),
                fwritable := (omode AND O_WRONLY \<noteq> 0 \<or> omode AND O_RDWR \<noteq> 0)\<rparr>) s
      in rbind (if omode AND O_TRUNC \<noteq> 0 \<and> itype (itable s ip) = T_FILE then itrunc D ip s else Ok s) (\<lambda>s.
         rbind (iunlock (Some ip) s) (\<lambda>s.
         rbind (end_op D s) (\<lambda>s. Ok (word_of_nat fd, s)))))))"

definition sys_open :: "('u, 'a) dev \<Rightarrow> ('u, 'a) sysfun" where
  "sys_open D s =
     rbind (argint 1 s) (\<lambda>(omode, s).
     rbind (argstr 0 MAXPATH s) (\<lambda>((n, path), s).
     if n < 0 then Ok (-1, s) else
     rbind (begin_op s) (\<lambda>s.
     if omode AND O_CREATE \<noteq> 0 then
       rbind (create D path T_FILE 0 0 s) (\<lambda>(ip, s).
       case ip of None \<Rightarrow> fail_op D s | Some ip \<Rightarrow> open_inode D omode ip s)
     else
       rbind (namei D path s) (\<lambda>(ip, s).
       case ip of None \<Rightarrow> fail_op D s | Some ip \<Rightarrow>
       rbind (ilock D (Some ip) s) (\<lambda>s.
       if itype (itable s ip) = T_DIR \<and> omode \<noteq> O_RDONLY then rbind (iunlockput D ip s) (fail_op D)
       else open_inode D omode ip s)))))"

definition sys_mkdir :: "('u, 'a) dev \<Rightarrow> ('u, 'a) sysfun" where
  "sys_mkdir D s =
     rbind (begin_op s) (\<lambda>s.
     rbind (argstr 0 MAXPATH s) (\<lambda>((r, path), s).
     if r < 0 then fail_op D s else
     rbind (create D path T_DIR 0 0 s) (\<lambda>(ip, s).
     case ip of None \<Rightarrow> fail_op D s | Some ip \<Rightarrow>
     rbind (iunlockput D ip s) (\<lambda>s.
     rbind (end_op D s) (\<lambda>s. Ok (0, s))))))"

definition sys_mknod :: "('u, 'a) dev \<Rightarrow> ('u, 'a) sysfun" where
  "sys_mknod D s =
     rbind (begin_op s) (\<lambda>s.
     rbind (argint 1 s) (\<lambda>(major, s).
     rbind (argint 2 s) (\<lambda>(minor, s).
     rbind (argstr 0 MAXPATH s) (\<lambda>((r, path), s).
     if r < 0 then fail_op D s else
     rbind (create D path T_DEVICE (ucast major) (ucast minor) s) (\<lambda>(ip, s).
     case ip of None \<Rightarrow> fail_op D s | Some ip \<Rightarrow>
     rbind (iunlockput D ip s) (\<lambda>s.
     rbind (end_op D s) (\<lambda>s. Ok (0, s))))))))"

definition sys_chdir :: "('u, 'a) dev \<Rightarrow> ('u, 'a) sysfun" where
  "sys_chdir D s =
     current s (\<lambda>p s.
     rbind (begin_op s) (\<lambda>s.
     rbind (argstr 0 MAXPATH s) (\<lambda>((r, path), s).
     if r < 0 then fail_op D s else
     rbind (namei D path s) (\<lambda>(ip, s).
     case ip of None \<Rightarrow> fail_op D s | Some ip \<Rightarrow>
     rbind (ilock D (Some ip) s) (\<lambda>s.
     if itype (itable s ip) \<noteq> T_DIR then rbind (iunlockput D ip s) (fail_op D) else
     rbind (iunlock (Some ip) s) (\<lambda>s.
     case cwd (ptable s p) of None \<Rightarrow> Panic ''kerneltrap'' | Some wd \<Rightarrow>
     rbind (iput D wd s) (\<lambda>s.
     rbind (end_op D s) (\<lambda>s.
     Ok (0, upd_proc p (cwd_update (\<lambda>_. Some ip)) s)))))))))"

definition sys_pipe :: "('u, 'a) dev \<Rightarrow> ('u, 'a) sysfun" where
  "sys_pipe D s =
     current s (\<lambda>p s.
     rbind (argaddr 0 s) (\<lambda>(fdarray, s).
     rbind (pipealloc D s) (\<lambda>(r, s).
     case r of None \<Rightarrow> Ok (-1, s) | Some (rfd, wfd) \<Rightarrow>
     let close_both = (\<lambda>s. rbind (fileclose D rfd s) (\<lambda>s. rbind (fileclose D wfd s) (\<lambda>s. Ok (-1, s)))) in
     rbind (fdalloc rfd s) (\<lambda>(fd0, s).
     case fd0 of None \<Rightarrow> close_both s | Some fd0 \<Rightarrow>
     rbind (fdalloc wfd s) (\<lambda>(fd1, s).
     case fd1 of None \<Rightarrow> close_both (set_ofile p fd0 None s) | Some fd1 \<Rightarrow>
     rbind (copyout (pagetable (ptable s p)) fdarray (le_bytes 4 (word_of_nat fd0 :: uint32)) s) (\<lambda>(r, s).
     rbind (if r < 0 then Ok (r, s)
            else copyout (pagetable (ptable s p)) (fdarray + 4) (le_bytes 4 (word_of_nat fd1 :: uint32)) s) (\<lambda>(r, s).
     if r < 0 then close_both (set_ofile p fd1 None (set_ofile p fd0 None s))
     else Ok (0, s))))))))"

end
