(* ===== verification/Exec.thy ===== *)
theory Exec
  imports Sysfile
begin

text \<open>
  \<^verbatim>\<open>kernel/exec.c\<close> with the headers of \<^verbatim>\<open>elf.h\<close>, and \<^verbatim>\<open>sys_exec\<close> of \<^verbatim>\<open>sysfile.c\<close>. The argument
  strings are in pages of kernel memory; \<^verbatim>\<open>argv\<close> is the list of their addresses, ended by 0. The
  loop variables that go on after a failure (\<^verbatim>\<open>sz\<close>) are part of the results, since the code at
  \<^verbatim>\<open>bad:\<close> uses them.
\<close>

definition ELF_MAGIC :: uint32 where [layout_defs]: "ELF_MAGIC = 0x464C457F"
definition ELF_PROG_LOAD :: uint32 where [layout_defs]: "ELF_PROG_LOAD = 1"

definition get64 :: "uchar list \<Rightarrow> nat \<Rightarrow> uint64" where
  "get64 d i = of_le_bytes (get_bytes d i 8)"

record elfhdr =
  elf_magic :: uint32
  elf_entry :: uint64
  elf_phoff :: uint64
  elf_phnum :: ushort

definition elfhdr_size :: nat where [layout_defs]: "elfhdr_size = 64"

definition elfhdr_of :: "uchar list \<Rightarrow> elfhdr" where
  "elfhdr_of d = \<lparr>elf_magic = get32 d 0, elf_entry = get64 d 24, elf_phoff = get64 d 32, elf_phnum = get16 d 56\<rparr>"

record proghdr =
  ph_type :: uint32
  ph_flags :: uint32
  ph_off :: uint64
  ph_vaddr :: uint64
  ph_filesz :: uint64
  ph_memsz :: uint64

definition proghdr_size :: nat where [layout_defs]: "proghdr_size = 56"

definition proghdr_of :: "uchar list \<Rightarrow> proghdr" where
  "proghdr_of d = \<lparr>ph_type = get32 d 0, ph_flags = get32 d 4, ph_off = get64 d 8, ph_vaddr = get64 d 16,
     ph_filesz = get64 d 32, ph_memsz = get64 d 40\<rparr>"

definition flags2perm :: "uint32 \<Rightarrow> uint64" where
  "flags2perm flags =
     (let perm = (if flags AND 1 \<noteq> 0 then PTE_X else 0)
      in if flags AND 2 \<noteq> 0 then perm OR PTE_W else perm)"

text \<open>The \<^verbatim>\<open>uint\<close> index of \<^verbatim>\<open>loadseg\<close> would wrap around on a segment within a page of \<open>2 ^ 32\<close> bytes.\<close>

function loadseg_loop :: "('u, 'a) dev \<Rightarrow> uint64 \<Rightarrow> uint64 \<Rightarrow> nat \<Rightarrow> uint32 \<Rightarrow> uint32 \<Rightarrow> nat
    \<Rightarrow> ('u, 'a) files_scheme \<Rightarrow> (int \<times> ('u, 'a) files_scheme) res" where
  "loadseg_loop D pt va ip offset sz i s =
     (if i < unat sz then
        rbind (walkaddr pt (va + word_of_nat i) s) (\<lambda>pa.
        if pa = 0 then Panic ''loadseg: address should exist'' else
        let n = (if sz - word_of_nat i < ucast PGSIZE then sz - word_of_nat i else ucast PGSIZE) in
        rbind (readi D ip (KernBuf pa) (offset + word_of_nat i) n s) (\<lambda>(r, _, s).
        if r \<noteq> n then Ok (-1, s)
        else if i + 4096 < 2 ^ 32 then loadseg_loop D pt va ip offset sz (i + 4096) s else Hang))
      else Ok (0, s))"
  by pat_completeness auto
termination
  by (relation "measure (\<lambda>(_, _, _, _, _, _, i, _). 2 ^ 32 - i)") auto

declare loadseg_loop.simps [simp del]

definition loadseg :: "('u, 'a) dev \<Rightarrow> uint64 \<Rightarrow> uint64 \<Rightarrow> nat \<Rightarrow> uint32 \<Rightarrow> uint32
    \<Rightarrow> ('u, 'a) files_scheme \<Rightarrow> (int \<times> ('u, 'a) files_scheme) res" where
  "loadseg D pt va ip offset sz s = loadseg_loop D pt va ip offset sz 0 s"

text \<open>The loop over the program headers: whether it reached its end, and \<^verbatim>\<open>sz\<close>.\<close>

primrec load_program :: "nat \<Rightarrow> ('u, 'a) dev \<Rightarrow> uint64 \<Rightarrow> nat \<Rightarrow> uint32 \<Rightarrow> uint64
    \<Rightarrow> ('u, 'a) files_scheme \<Rightarrow> (bool \<times> uint64 \<times> ('u, 'a) files_scheme) res" where
  "load_program 0 D pt ip off sz s = Ok (True, sz, s)"
| "load_program (Suc k) D pt ip off sz s =
     rbind (readi D ip (KernVar []) off (word_of_nat proghdr_size) s) (\<lambda>(r, bs, s).
     if r \<noteq> word_of_nat proghdr_size then Ok (False, sz, s) else
     let ph = proghdr_of bs in
     if ph_type ph \<noteq> ELF_PROG_LOAD then load_program k D pt ip (off + word_of_nat proghdr_size) sz s
     else if ph_memsz ph < ph_filesz ph then Ok (False, sz, s)
     else if ph_vaddr ph + ph_memsz ph < ph_vaddr ph then Ok (False, sz, s)
     else if ph_vaddr ph mod PGSIZE \<noteq> 0 then Ok (False, sz, s)
     else
       rbind (uvmalloc pt sz (ph_vaddr ph + ph_memsz ph) (flags2perm (ph_flags ph)) s) (\<lambda>(sz1, s).
       if sz1 = 0 then Ok (False, sz, s) else
       rbind (loadseg D pt (ph_vaddr ph) ip (ucast (ph_off ph)) (ucast (ph_filesz ph)) s) (\<lambda>(r, s).
       if r < 0 then Ok (False, sz1, s)
       else load_program k D pt ip (off + word_of_nat proghdr_size) sz1 s)))"

text \<open>Pushing the argument strings: the stack pointer and the addresses for \<^verbatim>\<open>ustack\<close>.\<close>

fun push_args :: "uint64 \<Rightarrow> uint64 \<Rightarrow> uint64 list \<Rightarrow> nat \<Rightarrow> uint64 \<Rightarrow> uint64 list
    \<Rightarrow> ('u, 'a) files_scheme \<Rightarrow> ((uint64 \<times> uint64 list) option \<times> ('u, 'a) files_scheme) res" where
  "push_args pt stackbase [] argc sp ustack s = out_of_bounds"
| "push_args pt stackbase (a # argv) argc sp ustack s =
     (if a = 0 then Ok (Some (sp, ustack), s)
      else if argc \<ge> MAXARG then Ok (None, s)
      else case strlen (\<lambda>i. mem s (a + word_of_nat i)) of None \<Rightarrow> Hang | Some len \<Rightarrow>
        let sp = sp - (word_of_nat len + 1);
            sp = sp - sp mod 16
        in if sp < stackbase then Ok (None, s) else
        rbind (copyout pt sp (load_bytes (mem s) a (len + 1)) s) (\<lambda>(r, s).
        if r < 0 then Ok (None, s)
        else push_args pt stackbase argv (Suc argc) sp (ustack @ [sp]) s))"

definition last_elem :: "uchar list \<Rightarrow> uchar list" where
  "last_elem path = rev (takeWhile (\<lambda>c. c \<noteq> slash) (rev path))"

definition exec_bad :: "uint64 \<Rightarrow> uint64 \<Rightarrow> ('u, 'a) files_scheme \<Rightarrow> (int \<times> ('u, 'a) files_scheme) res" where
  "exec_bad pt sz s =
     rbind (if pt \<noteq> 0 then proc_freepagetable pt sz s else Ok s) (\<lambda>s. Ok (-1, s))"

definition exec_bad_ip :: "('u, 'a) dev \<Rightarrow> nat \<Rightarrow> uint64 \<Rightarrow> uint64 \<Rightarrow> ('u, 'a) files_scheme \<Rightarrow> (int \<times> ('u, 'a) files_scheme) res" where
  "exec_bad_ip D ip pt sz s =
     rbind (if pt \<noteq> 0 then proc_freepagetable pt sz s else Ok s) (\<lambda>s.
     rbind (iunlockput D ip s) (\<lambda>s.
     rbind (end_op D s) (\<lambda>s. Ok (-1, s))))"

text \<open>The part after the program has been loaded.\<close>

definition exec_commit :: "'u uart_ops \<Rightarrow> uchar list \<Rightarrow> uint64 list \<Rightarrow> uint64 \<Rightarrow> uint64 \<Rightarrow> uint64
    \<Rightarrow> ('u, 'a) files_scheme \<Rightarrow> (int \<times> ('u, 'a) files_scheme) res" where
  "exec_commit U path argv entry pt sz s =
     current s (\<lambda>p s.
     let oldsz = psz (ptable s p);
         sz = PGROUNDUP sz
     in rbind (uvmalloc pt sz (sz + 2 * PGSIZE) PTE_W s) (\<lambda>(sz1, s).
     if sz1 = 0 then exec_bad pt sz s else
     let sz = sz1 in
     rbind (uvmclear pt (sz - 2 * PGSIZE) s) (\<lambda>s.
     let stackbase = sz - PGSIZE in
     rbind (push_args pt stackbase argv 0 sz [] s) (\<lambda>(r, s).
     case r of None \<Rightarrow> exec_bad pt sz s | Some (sp, ustack) \<Rightarrow>
     let argc = length ustack;
         sp = sp - (word_of_nat argc + 1) * 8;
         sp = sp - sp mod 16
     in if sp < stackbase then exec_bad pt sz s else
     rbind (copyout pt sp (concat (map (le_bytes 8) (ustack @ [0]))) s) (\<lambda>(r, s).
     if r < 0 then exec_bad pt sz s else
     let s = s\<lparr>mem := store64 (mem s) (trapframe (ptable s p) + TF_a1) sp\<rparr>;
         s = upd_proc p (\<lambda>q. q\<lparr>pname := overwrite (safestrcpy (bufptr (last_elem path)) 16) (pname q)\<rparr>) s;
         oldpagetable = pagetable (ptable s p);
         s = upd_proc p (\<lambda>q. q\<lparr>pagetable := pt, psz := sz\<rparr>) s;
         s = s\<lparr>mem := store64 (mem s) (trapframe (ptable s p) + TF_epc) entry\<rparr>;
         s = s\<lparr>mem := store64 (mem s) (trapframe (ptable s p) + TF_sp) sp\<rparr>
     in rbind (proc_freepagetable oldpagetable oldsz s) (\<lambda>s.
        rbind (if pid (ptable s p) = 1 then vmprint U (pagetable (ptable s p)) s else Ok s) (\<lambda>s.
        Ok (int argc, s))))))))"

definition exec :: "ksyms \<Rightarrow> 'u uart_ops \<Rightarrow> ('u, 'a) dev \<Rightarrow> uchar list \<Rightarrow> uint64 list
    \<Rightarrow> ('u, 'a) files_scheme \<Rightarrow> (int \<times> ('u, 'a) files_scheme) res" where
  "exec K U D path argv s =
     current s (\<lambda>p s.
     rbind (begin_op s) (\<lambda>s.
     rbind (namei D path s) (\<lambda>(ip, s).
     case ip of None \<Rightarrow> rbind (end_op D s) (\<lambda>s. Ok (-1, s)) | Some ip \<Rightarrow>
     rbind (ilock D (Some ip) s) (\<lambda>s.
     rbind (readi D ip (KernVar []) 0 (word_of_nat elfhdr_size) s) (\<lambda>(r, bs, s).
     let elf = elfhdr_of bs in
     if r \<noteq> word_of_nat elfhdr_size \<or> elf_magic elf \<noteq> ELF_MAGIC then exec_bad_ip D ip 0 0 s else
     rbind (proc_pagetable K (ptable s p) s) (\<lambda>(pt, s).
     if pt = 0 then exec_bad_ip D ip 0 0 s else
     rbind (load_program (unat (elf_phnum elf)) D pt ip (ucast (elf_phoff elf)) 0 s) (\<lambda>(ok, sz, s).
     if \<not> ok then exec_bad_ip D ip pt sz s else
     rbind (iunlockput D ip s) (\<lambda>s.
     rbind (end_op D s) (exec_commit U path argv (elf_entry elf) pt sz)))))))))"

section \<open>The system call\<close>

text \<open>Fetching the argument strings: whether the end of the array was found, and the pages used.\<close>

primrec fetch_args :: "nat \<Rightarrow> uint64 \<Rightarrow> uint64 list \<Rightarrow> ('u, 'a) files_scheme \<Rightarrow> (bool \<times> uint64 list \<times> ('u, 'a) files_scheme) res" where
  "fetch_args 0 uargv argv s = Ok (False, argv, s)"
| "fetch_args (Suc k) uargv argv s =
     rbind (fetchaddr (uargv + 8 * word_of_nat (length argv)) s) (\<lambda>((r, uarg), s).
     if r < 0 then Ok (False, argv, s)
     else if uarg = 0 then Ok (True, argv, s)
     else
       rbind (kalloc s) (\<lambda>(pa, s).
       if pa = 0 then Ok (False, argv, s) else
       rbind (fetchstr uarg 4096 s) (\<lambda>((r, bs), s).
       let s = s\<lparr>mem := store_bytes (mem s) pa (if r < 0 then bs else bs @ [0])\<rparr> in
       if r < 0 then Ok (False, argv @ [pa], s)
       else fetch_args k uargv (argv @ [pa]) s)))"

primrec free_args :: "uint64 list \<Rightarrow> 'a machine_scheme \<Rightarrow> 'a machine_scheme res" where
  "free_args [] s = Ok s"
| "free_args (a # argv) s = rbind (kfree a s) (free_args argv)"

definition sys_exec :: "ksyms \<Rightarrow> 'u uart_ops \<Rightarrow> ('u, 'a) dev \<Rightarrow> ('u, 'a) sysfun" where
  "sys_exec K U D s =
     rbind (argaddr 1 s) (\<lambda>(uargv, s).
     rbind (argstr 0 MAXPATH s) (\<lambda>((r, path), s).
     if r < 0 then Ok (-1, s) else
     rbind (fetch_args MAXARG uargv [] s) (\<lambda>(ok, argv, s).
     if ok then
       rbind (exec K U D path (argv @ [0]) s) (\<lambda>(r, s).
       rbind (free_args argv s) (\<lambda>s. Ok (word_of_int r, s)))
     else rbind (free_args argv s) (\<lambda>s. Ok (-1, s)))))"

end
