(* ===== verification/Trap.thy ===== *)
theory Trap
  imports Exec
begin

text \<open>
  \<^verbatim>\<open>kernel/sysproc.c\<close>, the dispatch of \<^verbatim>\<open>syscall.c\<close>, \<^verbatim>\<open>trap.c\<close> and \<^verbatim>\<open>plic.c\<close>. A system call ends with
  a value, or at a switch to the scheduler: the process sleeps, or has exited. The control
  registers of the hart that traps use are fields of the state. The interrupt controller is not
  part of the source: reading and writing its registers are the parameter \<open>P\<close>.

  A trap handler ends with the switch to user mode (with the value for \<^verbatim>\<open>satp\<close>), with the return
  to the interrupted kernel code, or at a switch to the scheduler.
\<close>

record 'u kernel = "'u files" +
  stvec :: uint64
  sepc :: uint64
  scause :: uint64
  stval :: uint64
  satp :: uint64
  sip :: uint64

type_synonym ('u, 'a) kdev = "('u, 'a) kernel_scheme \<Rightarrow> ('u, 'a) kernel_scheme"

section \<open>System calls on processes\<close>

datatype sysret = SysRet uint64 | SysBlock chan | SysExit

definition ticks_acquire :: "('u, 'a) files_scheme \<Rightarrow> ('u, 'a) files_scheme res" where
  "ticks_acquire s = rbind (acquire (tickslock s) (mycpu s)) (\<lambda>(lk, c). Ok (s\<lparr>tickslock := lk, mycpu := c\<rparr>))"

definition ticks_release :: "('u, 'a) files_scheme \<Rightarrow> ('u, 'a) files_scheme res" where
  "ticks_release s = rbind (release (tickslock s) (mycpu s)) (\<lambda>(lk, c). Ok (s\<lparr>tickslock := lk, mycpu := c\<rparr>))"

definition ticks_chan :: chan where
  "ticks_chan = Chan ''ticks'' 0"

definition exit_call :: "('u, 'a) dev \<Rightarrow> uint32 \<Rightarrow> ('u, 'a) files_scheme \<Rightarrow> (bool \<times> ('u, 'a) files_scheme) res" where
  "exit_call D n s = exit (fileclose D) begin_op
     (\<lambda>ip s. case ip of None \<Rightarrow> Panic ''kerneltrap'' | Some ip \<Rightarrow> iput D ip s) (end_op D) n s"

definition fork_call :: "ksyms \<Rightarrow> ('u, 'a) files_scheme \<Rightarrow> (uint32 \<times> ('u, 'a) files_scheme) res" where
  "fork_call K s = fork K filedup
     (\<lambda>ip s. case ip of None \<Rightarrow> Panic ''kerneltrap'' | Some ip \<Rightarrow> rbind (idup ip s) (\<lambda>(ip, s). Ok (Some ip, s))) s"

definition sys_exit :: "('u, 'a) dev \<Rightarrow> ('u, 'a) files_scheme \<Rightarrow> (sysret \<times> bool \<times> ('u, 'a) files_scheme) res" where
  "sys_exit D s =
     rbind (argint 0 s) (\<lambda>(n, s).
     rbind (exit_call D n s) (\<lambda>(b, s). Ok (SysExit, b, s)))"

definition sys_getpid :: "('u, 'a) sysfun" where
  "sys_getpid s = current s (\<lambda>p s. Ok (scast (pid (ptable s p)), s))"

definition sys_fork :: "ksyms \<Rightarrow> ('u, 'a) sysfun" where
  "sys_fork K s = rbind (fork_call K s) (\<lambda>(n, s). Ok (scast n, s))"

definition sys_wait :: "('u, 'a) files_scheme \<Rightarrow> (sysret \<times> bool \<times> ('u, 'a) files_scheme) res" where
  "sys_wait s =
     rbind (argaddr 0 s) (\<lambda>(p, s).
     rbind (wait p s) (\<lambda>(r, b, s). Ok (case r of Ret n \<Rightarrow> SysRet (scast n) | Block ch \<Rightarrow> SysBlock ch, b, s)))"

definition sys_sbrk :: "('u, 'a) sysfun" where
  "sys_sbrk s =
     rbind (argint 0 s) (\<lambda>(n, s).
     current s (\<lambda>p s.
     let addr = psz (ptable s p) in
     rbind (growproc n s) (\<lambda>(r, s). if r < 0 then Ok (-1, s) else Ok (addr, s))))"

text \<open>\<^verbatim>\<open>ticks - ticks0 < n\<close> compares as \<^verbatim>\<open>uint\<close>.\<close>

definition sys_sleep_turn :: "uint32 \<Rightarrow> uint32 \<Rightarrow> ('u, 'a) files_scheme \<Rightarrow> (sysret \<times> bool \<times> ('u, 'a) files_scheme) res" where
  "sys_sleep_turn n ticks0 s =
     (if ticks s - ticks0 < n then
        current s (\<lambda>p s.
        rbind (killed p s) (\<lambda>(k, s).
        if k then rbind (ticks_release s) (\<lambda>s. Ok (SysRet (-1), False, s))
        else rbind (sleep_enter (Some ticks_chan) ticks_release s) (\<lambda>(b, s). Ok (SysBlock ticks_chan, b, s))))
      else rbind (ticks_release s) (\<lambda>s. Ok (SysRet 0, False, s)))"

definition sys_sleep :: "('u, 'a) files_scheme \<Rightarrow> (sysret \<times> bool \<times> ('u, 'a) files_scheme) res" where
  "sys_sleep s =
     rbind (argint 0 s) (\<lambda>(n, s).
     rbind (ticks_acquire s) (\<lambda>s. sys_sleep_turn n (ticks s) s))"

definition sys_sleep_resume :: "uint32 \<Rightarrow> uint32 \<Rightarrow> nat \<Rightarrow> bool \<Rightarrow> ('u, 'a) files_scheme \<Rightarrow> (sysret \<times> bool \<times> ('u, 'a) files_scheme) res" where
  "sys_sleep_resume n ticks0 p b s = rbind (sleep_leave p b ticks_acquire s) (sys_sleep_turn n ticks0)"

definition sys_pgaccess :: "('u, 'a) sysfun" where
  "sys_pgaccess s =
     rbind (argaddr 0 s) (\<lambda>(va, s).
     rbind (argint 1 s) (\<lambda>(n, s).
     rbind (argaddr 2 s) (\<lambda>(access_abits, s).
     if sint n \<le> 0 \<or> sint n > 512 then Ok (-1, s)
     else rbind (pgaccess va (sint n) access_abits s) (\<lambda>(r, s). Ok (word_of_int r, s)))))"

definition sys_kill :: "('u, 'a) sysfun" where
  "sys_kill s =
     rbind (argint 0 s) (\<lambda>(n, s).
     rbind (kill n s) (\<lambda>(r, s). Ok (word_of_int r, s)))"

definition sys_uptime :: "('u, 'a) sysfun" where
  "sys_uptime s =
     rbind (ticks_acquire s) (\<lambda>s.
     let xticks = ticks s in
     rbind (ticks_release s) (\<lambda>s. Ok (ucast xticks, s)))"

section \<open>Dispatch\<close>

definition ret :: "('u, 'a) sysfun \<Rightarrow> ('u, 'a) files_scheme \<Rightarrow> (sysret \<times> bool \<times> ('u, 'a) files_scheme) res" where
  "ret f s = rbind (f s) (\<lambda>(r, s). Ok (SysRet r, False, s))"

definition syscalls :: "ksyms \<Rightarrow> 'u uart_ops \<Rightarrow> ('u, 'a) dev \<Rightarrow> int
    \<Rightarrow> (('u, 'a) files_scheme \<Rightarrow> (sysret \<times> bool \<times> ('u, 'a) files_scheme) res) option" where
  "syscalls K U D num =
     (if num = 1 then Some (ret (sys_fork K))
      else if num = 2 then Some (sys_exit D)
      else if num = 3 then Some sys_wait
      else if num = 4 then Some (ret (sys_pipe D))
      else if num = 5 then Some (ret (sys_read D))
      else if num = 6 then Some (ret sys_kill)
      else if num = 7 then Some (ret (sys_exec K U D))
      else if num = 8 then Some (ret (sys_fstat D))
      else if num = 9 then Some (ret (sys_chdir D))
      else if num = 10 then Some (ret sys_dup)
      else if num = 11 then Some (ret sys_getpid)
      else if num = 12 then Some (ret sys_sbrk)
      else if num = 13 then Some sys_sleep
      else if num = 14 then Some (ret sys_uptime)
      else if num = 15 then Some (ret (sys_open D))
      else if num = 16 then Some (ret (sys_write U D))
      else if num = 17 then Some (ret (sys_mknod D))
      else if num = 18 then Some (ret (sys_unlink D))
      else if num = 19 then Some (ret (sys_link D))
      else if num = 20 then Some (ret (sys_mkdir D))
      else if num = 21 then Some (ret (sys_close D))
      else if num = 30 then Some (ret sys_pgaccess)
      else None)"

definition set_a0 :: "nat \<Rightarrow> uint64 \<Rightarrow> 'a ptab_scheme \<Rightarrow> 'a ptab_scheme" where
  "set_a0 p v s = s\<lparr>mem := store64 (mem s) (trapframe (ptable s p) + TF_a0) v\<rparr>"

definition syscall :: "ksyms \<Rightarrow> 'u uart_ops \<Rightarrow> ('u, 'a) dev \<Rightarrow> ('u, 'a) files_scheme
    \<Rightarrow> (sysret \<times> bool \<times> ('u, 'a) files_scheme) res" where
  "syscall K U D s =
     current s (\<lambda>p s.
     let num = sint (ucast (load64 (mem s) (trapframe (ptable s p) + TF_a7)) :: uint32) in
     case syscalls K U D num of
       Some f \<Rightarrow>
         rbind (f s) (\<lambda>(r, b, s).
         case r of SysRet v \<Rightarrow> Ok (r, b, set_a0 p v s) | _ \<Rightarrow> Ok (r, b, s))
     | None \<Rightarrow>
         rbind (printf U (chars ''%d %s: unknown sys call %d'' @ [0x0A])
             [ArgInt (pid (ptable s p)), ArgStr (Some (name_str (pname (ptable s p)))), ArgInt (word_of_int num)] s) (\<lambda>s.
         Ok (SysRet (-1), False, set_a0 p (-1) s)))"

section \<open>The interrupt controller\<close>

definition UART0_IRQ :: uint32 where [layout_defs]: "UART0_IRQ = 10"
definition VIRTIO0_IRQ :: uint32 where [layout_defs]: "VIRTIO0_IRQ = 1"
definition PLIC_SENABLE :: "nat \<Rightarrow> uint64" where "PLIC_SENABLE hart = PLIC + 0x2080 + word_of_nat hart * 0x100"
definition PLIC_SPRIORITY :: "nat \<Rightarrow> uint64" where "PLIC_SPRIORITY hart = PLIC + 0x201000 + word_of_nat hart * 0x2000"
definition PLIC_SCLAIM :: "nat \<Rightarrow> uint64" where "PLIC_SCLAIM hart = PLIC + 0x201004 + word_of_nat hart * 0x2000"

record 's plic_ops =
  plic_rd :: "uint64 \<Rightarrow> 's \<Rightarrow> uint32 \<times> 's"
  plic_wr :: "uint64 \<Rightarrow> uint32 \<Rightarrow> 's \<Rightarrow> 's"

definition plicinit :: "'s plic_ops \<Rightarrow> 's \<Rightarrow> 's" where
  "plicinit P s =
     (let s = plic_wr P (PLIC + ucast (UART0_IRQ * 4)) 1 s
      in plic_wr P (PLIC + ucast (VIRTIO0_IRQ * 4)) 1 s)"

definition plicinithart :: "('a machine_scheme) plic_ops \<Rightarrow> 'a machine_scheme \<Rightarrow> 'a machine_scheme" where
  "plicinithart P s =
     (let hart = cpuid s;
          s = plic_wr P (PLIC_SENABLE hart) (push_bit (unat UART0_IRQ) 1 OR push_bit (unat VIRTIO0_IRQ) 1) s
      in plic_wr P (PLIC_SPRIORITY hart) 0 s)"

definition plic_claim :: "('a machine_scheme) plic_ops \<Rightarrow> 'a machine_scheme \<Rightarrow> uint32 \<times> 'a machine_scheme" where
  "plic_claim P s = plic_rd P (PLIC_SCLAIM (cpuid s)) s"

definition plic_complete :: "('a machine_scheme) plic_ops \<Rightarrow> uint32 \<Rightarrow> 'a machine_scheme \<Rightarrow> 'a machine_scheme" where
  "plic_complete P irq s = plic_wr P (PLIC_SCLAIM (cpuid s)) irq s"

section \<open>Traps\<close>

text \<open>Addresses of the trap code: symbols of the linker.\<close>

record tsyms =
  sym_kernelvec :: uint64
  sym_uservec :: uint64
  sym_userret :: uint64
  sym_usertrap :: uint64

definition trapinit :: "('u, 'a) files_scheme \<Rightarrow> ('u, 'a) files_scheme" where
  "trapinit s = s\<lparr>tickslock := initlock\<rparr>"

definition trapinithart :: "tsyms \<Rightarrow> ('u, 'a) kdev" where
  "trapinithart T s = s\<lparr>stvec := sym_kernelvec T\<rparr>"

definition clockintr :: "('u, 'a) files_scheme \<Rightarrow> ('u, 'a) files_scheme res" where
  "clockintr s =
     rbind (ticks_acquire s) (\<lambda>s.
     rbind (wakeup (Some ticks_chan) (s\<lparr>ticks := ticks s + 1\<rparr>)) ticks_release)"

definition devintr :: "'u uart_ops \<Rightarrow> ('u, 'a) kernel_scheme plic_ops \<Rightarrow> ('u, 'a) kernel_scheme \<Rightarrow> (int \<times> ('u, 'a) kernel_scheme) res" where
  "devintr U P s =
     (if scause s AND 0x8000000000000000 \<noteq> 0 \<and> scause s AND 0xff = 9 then
        let (irq, s) = plic_claim P s in
        rbind (if irq = UART0_IRQ then uartintr U s
               else if irq = VIRTIO0_IRQ then virtio_disk_intr s
               else if irq \<noteq> 0 then printf U (chars ''unexpected interrupt irq=%d'' @ [0x0A]) [ArgInt irq] s
               else Ok s) (\<lambda>s.
        Ok (1, if irq \<noteq> 0 then plic_complete P irq s else s))
      else if scause s = 0x8000000000000001 then
        rbind (if cpuid s = 0 then clockintr s else Ok s) (\<lambda>s.
        Ok (2, s\<lparr>sip := sip s AND NOT 2\<rparr>))
      else Ok (0, s))"

datatype trapret = ToUser uint64 | ToKernel | Switched

definition TF_set :: "nat \<Rightarrow> uint64 \<Rightarrow> uint64 \<Rightarrow> 'a ptab_scheme \<Rightarrow> 'a ptab_scheme" where
  "TF_set p off v s = s\<lparr>mem := store64 (mem s) (trapframe (ptable s p) + off) v\<rparr>"

definition usertrapret :: "ksyms \<Rightarrow> tsyms \<Rightarrow> ('u, 'a) kernel_scheme \<Rightarrow> (trapret \<times> ('u, 'a) kernel_scheme) res" where
  "usertrapret K T s =
     current s (\<lambda>p s.
     let s = s\<lparr>mycpu := intr_off (mycpu s)\<rparr>;
         s = s\<lparr>stvec := TRAMPOLINE + (sym_uservec T - sym_trampoline K)\<rparr>;
         s = TF_set p 0 (satp s) s;
         s = TF_set p 8 (kstack (ptable s p) + PGSIZE) s;
         s = TF_set p 16 (sym_usertrap T) s;
         s = TF_set p 32 (word_of_nat (cpu_id (mycpu s))) s;
         x = sstatus (mycpu s);
         x = x AND NOT SSTATUS_SPP;
         x = x OR SSTATUS_SPIE;
         s = s\<lparr>mycpu := (mycpu s)\<lparr>sstatus := x\<rparr>\<rparr>;
         s = s\<lparr>sepc := load64 (mem s) (trapframe (ptable s p) + TF_epc)\<rparr>
     in Ok (ToUser (MAKE_SATP (pagetable (ptable s p))), s))"

definition usertrap_end :: "ksyms \<Rightarrow> tsyms \<Rightarrow> ('u, 'a) kdev \<Rightarrow> nat \<Rightarrow> int
    \<Rightarrow> ('u, 'a) kernel_scheme \<Rightarrow> (trapret \<times> bool \<times> ('u, 'a) kernel_scheme) res" where
  "usertrap_end K T D p which_dev s =
     rbind (killed p s) (\<lambda>(k, s).
     if k then rbind (exit_call D (-1) s) (\<lambda>(b, s). Ok (Switched, b, s))
     else if which_dev = 2 then rbind (yield_enter s) (\<lambda>(b, s). Ok (Switched, b, s))
     else rbind (usertrapret K T s) (\<lambda>(r, s). Ok (r, False, s)))"

definition usertrap :: "ksyms \<Rightarrow> tsyms \<Rightarrow> 'u uart_ops \<Rightarrow> ('u, 'a) kernel_scheme plic_ops \<Rightarrow> ('u, 'a) kdev
    \<Rightarrow> ('u, 'a) kernel_scheme \<Rightarrow> (trapret \<times> bool \<times> ('u, 'a) kernel_scheme) res" where
  "usertrap K T U P D s =
     (if sstatus (mycpu s) AND SSTATUS_SPP \<noteq> 0 then Panic ''usertrap: not from user mode'' else
      let s = s\<lparr>stvec := sym_kernelvec T\<rparr> in
      current s (\<lambda>p s.
      let s = TF_set p TF_epc (sepc s) s in
      if scause s = 8 then
        rbind (killed p s) (\<lambda>(k, s).
        if k then rbind (exit_call D (-1) s) (\<lambda>(b, s). Ok (Switched, b, s)) else
        let s = TF_set p TF_epc (load64 (mem s) (trapframe (ptable s p) + TF_epc) + 4) s;
            s = s\<lparr>mycpu := intr_on (mycpu s)\<rparr>
        in rbind (syscall K U D s) (\<lambda>(r, b, s).
           case r of SysRet _ \<Rightarrow> usertrap_end K T D p 0 s | _ \<Rightarrow> Ok (Switched, b, s)))
      else
        rbind (devintr U P s) (\<lambda>(which_dev, s).
        rbind (if which_dev \<noteq> 0 then Ok s else
               rbind (printf U (chars ''usertrap(): unexpected scause %p pid=%d'' @ [0x0A]) [ArgPtr (scause s), ArgInt (pid (ptable s p))] s) (\<lambda>s.
               rbind (printf U (chars ''            sepc=%p stval=%p'' @ [0x0A]) [ArgPtr (sepc s), ArgPtr (stval s)] s) (\<lambda>s.
               setkilled p s)))
          (usertrap_end K T D p which_dev))))"

text \<open>\<^verbatim>\<open>usertrap\<close> after the process has been chosen again.\<close>

definition usertrap_resume :: "ksyms \<Rightarrow> tsyms \<Rightarrow> nat \<Rightarrow> bool \<Rightarrow> ('u, 'a) kernel_scheme \<Rightarrow> (trapret \<times> ('u, 'a) kernel_scheme) res" where
  "usertrap_resume K T p b s = rbind (yield_leave p b s) (usertrapret K T)"

definition kerneltrap_end :: "uint64 \<Rightarrow> uint64 \<Rightarrow> ('u, 'a) kdev" where
  "kerneltrap_end epc status s = s\<lparr>sepc := epc, mycpu := (mycpu s)\<lparr>sstatus := status\<rparr>\<rparr>"

definition kerneltrap :: "'u uart_ops \<Rightarrow> ('u, 'a) kernel_scheme plic_ops \<Rightarrow> ('u, 'a) kernel_scheme
    \<Rightarrow> (trapret \<times> bool \<times> ('u, 'a) kernel_scheme) res" where
  "kerneltrap U P s =
     (let epc = sepc s; status = sstatus (mycpu s); cause = scause s in
      if status AND SSTATUS_SPP = 0 then Panic ''kerneltrap: not from supervisor mode''
      else if intr_get (mycpu s) then Panic ''kerneltrap: interrupts enabled''
      else
        rbind (devintr U P s) (\<lambda>(which_dev, s).
        if which_dev = 0 then
          rbind (printf U (chars ''scause %p'' @ [0x0A]) [ArgPtr cause] s) (\<lambda>s.
          rbind (printf U (chars ''sepc=%p stval=%p'' @ [0x0A]) [ArgPtr (sepc s), ArgPtr (stval s)] s) (\<lambda>s.
          Panic ''kerneltrap''))
        else
          rbind (if which_dev = 2 then
                   rbind (myproc s) (\<lambda>(p, s).
                   if p \<noteq> None then current s (\<lambda>p s. Ok (state (ptable s p) = RUNNING, s)) else Ok (False, s))
                 else Ok (False, s)) (\<lambda>(y, s).
          if y then rbind (yield_enter s) (\<lambda>(b, s). Ok (Switched, b, s))
          else Ok (ToKernel, False, kerneltrap_end epc status s))))"

definition kerneltrap_resume :: "uint64 \<Rightarrow> uint64 \<Rightarrow> nat \<Rightarrow> bool \<Rightarrow> ('u, 'a) kernel_scheme \<Rightarrow> ('u, 'a) kernel_scheme res" where
  "kerneltrap_resume epc status p b s = rbind (yield_leave p b s) (\<lambda>s. Ok (kerneltrap_end epc status s))"

end
