(* ===== verification/Boot.thy ===== *)
theory Boot
  imports Trap Sched
begin

unbundle bit_operations_syntax

text \<open>
  Starting the machine: the machine-mode code of \<^verbatim>\<open>kernel/start.c\<close>, \<^verbatim>\<open>virtio_disk_init\<close> of
  \<^verbatim>\<open>kernel/virtio_disk.c\<close>, \<^verbatim>\<open>kvminit\<close> and \<^verbatim>\<open>kvminithart\<close> of \<^verbatim>\<open>kernel/vm.c\<close>, and \<^verbatim>\<open>kernel/main.c\<close> up to its
  call of \<^verbatim>\<open>scheduler\<close>. The control registers of a hart are fields of a record, so are the registers
  of the timer. The memory-mapped registers of the disk are not part of the source: reading and
  writing them is the parameter \<open>V\<close>.
\<close>

section \<open>start.c\<close>

definition MSTATUS_MPP_MASK :: uint64 where "MSTATUS_MPP_MASK = push_bit 11 3"
definition MSTATUS_MPP_S :: uint64 where "MSTATUS_MPP_S = push_bit 11 1"
definition MSTATUS_MIE :: uint64 where "MSTATUS_MIE = push_bit 3 1"
definition SIE_SEIE :: uint64 where "SIE_SEIE = push_bit 9 1"
definition SIE_STIE :: uint64 where "SIE_STIE = push_bit 5 1"
definition SIE_SSIE :: uint64 where "SIE_SSIE = push_bit 1 1"
definition MIE_MTIE :: uint64 where "MIE_MTIE = push_bit 7 1"
definition CLINT :: uint64 where "CLINT = 0x2000000"
definition CLINT_MTIMECMP :: "nat \<Rightarrow> uint64" where "CLINT_MTIMECMP hartid = CLINT + 0x4000 + 8 * word_of_nat hartid"
definition CLINT_MTIME :: uint64 where "CLINT_MTIME = CLINT + 0xBFF8"

record mhart =
  mhartid :: nat
  mstatus :: uint64
  mepc :: uint64
  m_satp :: uint64
  medeleg :: uint64
  mideleg :: uint64
  sie :: uint64
  pmpaddr0 :: uint64
  pmpcfg0 :: uint64
  tp :: nat
  mscratch :: uint64
  mtvec :: uint64
  mie :: uint64
  clint :: "uint64 \<Rightarrow> uint64"
  timer_scratch :: "nat \<Rightarrow> nat \<Rightarrow> uint64"

text \<open>The addresses of \<^verbatim>\<open>main\<close>, \<^verbatim>\<open>timervec\<close> and \<^verbatim>\<open>timer_scratch\<close>.\<close>

record msyms =
  sym_main :: uint64
  sym_timervec :: uint64
  sym_timer_scratch :: uint64

definition timerinit :: "msyms \<Rightarrow> mhart \<Rightarrow> mhart" where
  "timerinit M h =
     (let i = mhartid h;
          interval = 1000000;
          h = h\<lparr>clint := (clint h)(CLINT_MTIMECMP i := clint h CLINT_MTIME + interval)\<rparr>;
          scratch = sym_timer_scratch M + 40 * word_of_nat i;
          h = h\<lparr>timer_scratch := (timer_scratch h)(i := (timer_scratch h i)(3 := CLINT_MTIMECMP i))\<rparr>;
          h = h\<lparr>timer_scratch := (timer_scratch h)(i := (timer_scratch h i)(4 := interval))\<rparr>;
          h = h\<lparr>mscratch := scratch\<rparr>;
          h = h\<lparr>mtvec := sym_timervec M\<rparr>;
          h = h\<lparr>mstatus := mstatus h OR MSTATUS_MIE\<rparr>
      in h\<lparr>mie := mie h OR MIE_MTIE\<rparr>)"

text \<open>Up to the \<^verbatim>\<open>mret\<close>, which goes to \<^verbatim>\<open>mepc\<close> in the mode of \<^verbatim>\<open>mstatus\<close>'s MPP field.\<close>

definition start :: "msyms \<Rightarrow> mhart \<Rightarrow> mhart" where
  "start M h =
     (let x = mstatus h;
          x = x AND NOT MSTATUS_MPP_MASK;
          x = x OR MSTATUS_MPP_S;
          h = h\<lparr>mstatus := x\<rparr>;
          h = h\<lparr>mepc := sym_main M\<rparr>;
          h = h\<lparr>m_satp := 0\<rparr>;
          h = h\<lparr>medeleg := 0xffff\<rparr>;
          h = h\<lparr>mideleg := 0xffff\<rparr>;
          h = h\<lparr>sie := sie h OR SIE_SEIE OR SIE_STIE OR SIE_SSIE\<rparr>;
          h = h\<lparr>pmpaddr0 := 0x3fffffffffffff\<rparr>;
          h = h\<lparr>pmpcfg0 := 0xf\<rparr>;
          h = timerinit M h
      in h\<lparr>tp := mhartid h\<rparr>)"

section \<open>The disk\<close>

datatype virtio_mmio =
    VIRTIO_MMIO_MAGIC_VALUE | VIRTIO_MMIO_VERSION | VIRTIO_MMIO_DEVICE_ID
  | VIRTIO_MMIO_VENDOR_ID | VIRTIO_MMIO_DEVICE_FEATURES | VIRTIO_MMIO_DRIVER_FEATURES
  | VIRTIO_MMIO_QUEUE_SEL | VIRTIO_MMIO_QUEUE_NUM_MAX | VIRTIO_MMIO_QUEUE_NUM
  | VIRTIO_MMIO_QUEUE_READY | VIRTIO_MMIO_QUEUE_NOTIFY | VIRTIO_MMIO_INTERRUPT_STATUS
  | VIRTIO_MMIO_INTERRUPT_ACK | VIRTIO_MMIO_STATUS | VIRTIO_MMIO_QUEUE_DESC_LOW
  | VIRTIO_MMIO_QUEUE_DESC_HIGH | VIRTIO_MMIO_DRIVER_DESC_LOW | VIRTIO_MMIO_DRIVER_DESC_HIGH
  | VIRTIO_MMIO_DEVICE_DESC_LOW | VIRTIO_MMIO_DEVICE_DESC_HIGH

fun virtio_mmio_offset :: "virtio_mmio \<Rightarrow> uint64" where
  "virtio_mmio_offset VIRTIO_MMIO_MAGIC_VALUE = 0x000"
| "virtio_mmio_offset VIRTIO_MMIO_VERSION = 0x004"
| "virtio_mmio_offset VIRTIO_MMIO_DEVICE_ID = 0x008"
| "virtio_mmio_offset VIRTIO_MMIO_VENDOR_ID = 0x00c"
| "virtio_mmio_offset VIRTIO_MMIO_DEVICE_FEATURES = 0x010"
| "virtio_mmio_offset VIRTIO_MMIO_DRIVER_FEATURES = 0x020"
| "virtio_mmio_offset VIRTIO_MMIO_QUEUE_SEL = 0x030"
| "virtio_mmio_offset VIRTIO_MMIO_QUEUE_NUM_MAX = 0x034"
| "virtio_mmio_offset VIRTIO_MMIO_QUEUE_NUM = 0x038"
| "virtio_mmio_offset VIRTIO_MMIO_QUEUE_READY = 0x044"
| "virtio_mmio_offset VIRTIO_MMIO_QUEUE_NOTIFY = 0x050"
| "virtio_mmio_offset VIRTIO_MMIO_INTERRUPT_STATUS = 0x060"
| "virtio_mmio_offset VIRTIO_MMIO_INTERRUPT_ACK = 0x064"
| "virtio_mmio_offset VIRTIO_MMIO_STATUS = 0x070"
| "virtio_mmio_offset VIRTIO_MMIO_QUEUE_DESC_LOW = 0x080"
| "virtio_mmio_offset VIRTIO_MMIO_QUEUE_DESC_HIGH = 0x084"
| "virtio_mmio_offset VIRTIO_MMIO_DRIVER_DESC_LOW = 0x090"
| "virtio_mmio_offset VIRTIO_MMIO_DRIVER_DESC_HIGH = 0x094"
| "virtio_mmio_offset VIRTIO_MMIO_DEVICE_DESC_LOW = 0x0a0"
| "virtio_mmio_offset VIRTIO_MMIO_DEVICE_DESC_HIGH = 0x0a4"

definition VIRTIO_CONFIG_S_ACKNOWLEDGE :: uint32 where "VIRTIO_CONFIG_S_ACKNOWLEDGE = 1"
definition VIRTIO_CONFIG_S_DRIVER :: uint32 where "VIRTIO_CONFIG_S_DRIVER = 2"
definition VIRTIO_CONFIG_S_DRIVER_OK :: uint32 where "VIRTIO_CONFIG_S_DRIVER_OK = 4"
definition VIRTIO_CONFIG_S_FEATURES_OK :: uint32 where "VIRTIO_CONFIG_S_FEATURES_OK = 8"

datatype virtio_feature =
    VIRTIO_BLK_F_RO | VIRTIO_BLK_F_SCSI | VIRTIO_BLK_F_CONFIG_WCE | VIRTIO_BLK_F_MQ
  | VIRTIO_F_ANY_LAYOUT | VIRTIO_RING_F_INDIRECT_DESC | VIRTIO_RING_F_EVENT_IDX

fun feature_bit :: "virtio_feature \<Rightarrow> nat" where
  "feature_bit VIRTIO_BLK_F_RO = 5"
| "feature_bit VIRTIO_BLK_F_SCSI = 7"
| "feature_bit VIRTIO_BLK_F_CONFIG_WCE = 11"
| "feature_bit VIRTIO_BLK_F_MQ = 12"
| "feature_bit VIRTIO_F_ANY_LAYOUT = 27"
| "feature_bit VIRTIO_RING_F_INDIRECT_DESC = 28"
| "feature_bit VIRTIO_RING_F_EVENT_IDX = 29"

record 'v vreg_ops =
  vreg_rd :: "uint64 \<Rightarrow> 'v \<Rightarrow> uint32"
  vreg_wr :: "uint64 \<Rightarrow> uint32 \<Rightarrow> 'v \<Rightarrow> 'v"

record ('u, 'v) boot = "'u kernel" +
  kernel_pagetable :: uint64
  started :: bool
  vregs :: 'v

definition R_reg :: "virtio_mmio \<Rightarrow> uint64" where
  "R_reg r = VIRTIO0 + virtio_mmio_offset r"

definition rd_R :: "'v vreg_ops \<Rightarrow> virtio_mmio \<Rightarrow> ('u, 'v, 'a) boot_scheme \<Rightarrow> uint32" where
  "rd_R V r s = vreg_rd V (R_reg r) (vregs s)"

definition wr_R :: "'v vreg_ops \<Rightarrow> virtio_mmio \<Rightarrow> uint32 \<Rightarrow> ('u, 'v, 'a) boot_scheme \<Rightarrow> ('u, 'v, 'a) boot_scheme" where
  "wr_R V r v s = s\<lparr>vregs := vreg_wr V (R_reg r) v (vregs s)\<rparr>"

definition virtio_features :: "uint64 \<Rightarrow> uint64" where
  "virtio_features f =
     (let f = f AND NOT (push_bit (feature_bit VIRTIO_BLK_F_RO) 1);
          f = f AND NOT (push_bit (feature_bit VIRTIO_BLK_F_SCSI) 1);
          f = f AND NOT (push_bit (feature_bit VIRTIO_BLK_F_CONFIG_WCE) 1);
          f = f AND NOT (push_bit (feature_bit VIRTIO_BLK_F_MQ) 1);
          f = f AND NOT (push_bit (feature_bit VIRTIO_F_ANY_LAYOUT) 1);
          f = f AND NOT (push_bit (feature_bit VIRTIO_RING_F_EVENT_IDX) 1)
      in f AND NOT (push_bit (feature_bit VIRTIO_RING_F_INDIRECT_DESC) 1))"

text \<open>The queue memory: three pages, zeroed, in the machine's memory and as the driver's structures.\<close>

definition virtio_queue_init :: "'v vreg_ops \<Rightarrow> ('u, 'v, 'a) boot_scheme \<Rightarrow> ('u, 'v, 'a) boot_scheme res" where
  "virtio_queue_init V s =
     rbind (kalloc s) (\<lambda>(d, s).
     rbind (kalloc s) (\<lambda>(a, s).
     rbind (kalloc s) (\<lambda>(u, s).
     if d = 0 \<or> a = 0 \<or> u = 0 then Panic ''virtio disk kalloc'' else
     let s = s\<lparr>mem := memset (mem s) d 0 (ucast PGSIZE)\<rparr>;
         s = s\<lparr>mem := memset (mem s) a 0 (ucast PGSIZE)\<rparr>;
         s = s\<lparr>mem := memset (mem s) u 0 (ucast PGSIZE)\<rparr>;
         s = s\<lparr>disk := (disk s)\<lparr>desc := (\<lambda>_. \<lparr>d_addr = NoAddr, d_len = 0, d_flags = 0, d_next = 0\<rparr>),
               avail_idx := 0, avail_ring := (\<lambda>_. 0), used_idx_dev := 0, used_ring := (\<lambda>_. 0)\<rparr>\<rparr>;
         s = wr_R V VIRTIO_MMIO_QUEUE_NUM (word_of_nat NUM) s;
         s = wr_R V VIRTIO_MMIO_QUEUE_DESC_LOW (ucast d) s;
         s = wr_R V VIRTIO_MMIO_QUEUE_DESC_HIGH (ucast (drop_bit 32 d)) s;
         s = wr_R V VIRTIO_MMIO_DRIVER_DESC_LOW (ucast a) s;
         s = wr_R V VIRTIO_MMIO_DRIVER_DESC_HIGH (ucast (drop_bit 32 a)) s;
         s = wr_R V VIRTIO_MMIO_DEVICE_DESC_LOW (ucast u) s
     in Ok (wr_R V VIRTIO_MMIO_DEVICE_DESC_HIGH (ucast (drop_bit 32 u)) s))))"

definition virtio_disk_init :: "'v vreg_ops \<Rightarrow> ('u, 'v, 'a) boot_scheme \<Rightarrow> ('u, 'v, 'a) boot_scheme res" where
  "virtio_disk_init V s =
     (let status = 0;
          s = s\<lparr>disk := (disk s)\<lparr>vdisk_lock := initlock\<rparr>\<rparr> in
      if rd_R V VIRTIO_MMIO_MAGIC_VALUE s \<noteq> 0x74726976 \<or>
         rd_R V VIRTIO_MMIO_VERSION s \<noteq> 2 \<or>
         rd_R V VIRTIO_MMIO_DEVICE_ID s \<noteq> 2 \<or>
         rd_R V VIRTIO_MMIO_VENDOR_ID s \<noteq> 0x554d4551
      then Panic ''could not find virtio disk'' else
      let s = wr_R V VIRTIO_MMIO_STATUS status s;
          status = status OR VIRTIO_CONFIG_S_ACKNOWLEDGE;
          s = wr_R V VIRTIO_MMIO_STATUS status s;
          status = status OR VIRTIO_CONFIG_S_DRIVER;
          s = wr_R V VIRTIO_MMIO_STATUS status s;
          features = ucast (rd_R V VIRTIO_MMIO_DEVICE_FEATURES s);
          s = wr_R V VIRTIO_MMIO_DRIVER_FEATURES (ucast (virtio_features features)) s;
          status = status OR VIRTIO_CONFIG_S_FEATURES_OK;
          s = wr_R V VIRTIO_MMIO_STATUS status s;
          status = rd_R V VIRTIO_MMIO_STATUS s in
      if status AND VIRTIO_CONFIG_S_FEATURES_OK = 0 then Panic ''virtio disk FEATURES_OK unset'' else
      let s = wr_R V VIRTIO_MMIO_QUEUE_SEL 0 s in
      if rd_R V VIRTIO_MMIO_QUEUE_READY s \<noteq> 0 then Panic ''virtio disk should not be ready'' else
      let max = rd_R V VIRTIO_MMIO_QUEUE_NUM_MAX s in
      if max = 0 then Panic ''virtio disk has no queue 0''
      else if max < word_of_nat NUM then Panic ''virtio disk max queue too short'' else
      rbind (virtio_queue_init V s) (\<lambda>s.
      let s = wr_R V VIRTIO_MMIO_QUEUE_READY 1 s;
          s = s\<lparr>disk := (disk s)\<lparr>dfree := (\<lambda>i. if i < NUM then True else dfree (disk s) i)\<rparr>\<rparr>;
          status = status OR VIRTIO_CONFIG_S_DRIVER_OK
      in Ok (wr_R V VIRTIO_MMIO_STATUS status s)))"

section \<open>main.c\<close>

definition kvminit :: "uint64 \<Rightarrow> ksyms \<Rightarrow> ('u, 'v, 'a) boot_scheme \<Rightarrow> ('u, 'v, 'a) boot_scheme res" where
  "kvminit etext K s = rbind (kvmmake etext (sym_trampoline K) s) (\<lambda>(pt, s). Ok (s\<lparr>kernel_pagetable := pt\<rparr>))"

definition kvminithart :: "('u, 'v, 'a) boot_scheme \<Rightarrow> ('u, 'v, 'a) boot_scheme" where
  "kvminithart s = s\<lparr>satp := MAKE_SATP (kernel_pagetable s)\<rparr>"

text \<open>
  \<^verbatim>\<open>main\<close> up to the call of \<^verbatim>\<open>scheduler\<close>. Hart 0 does everything; the others wait in a loop for
  \<^verbatim>\<open>started\<close>, which ends only if hart 0 sets it.
\<close>

definition main_hart0 :: "'u uart_ops \<Rightarrow> ('u, 'v, 'a) boot_scheme plic_ops \<Rightarrow> 'v vreg_ops \<Rightarrow> (('u, 'v, 'a) boot_scheme \<Rightarrow> ('u, 'v, 'a) boot_scheme)
    \<Rightarrow> uint64 \<Rightarrow> ksyms \<Rightarrow> tsyms \<Rightarrow> ('u, 'v, 'a) boot_scheme \<Rightarrow> ('u, 'v, 'a) boot_scheme res" where
  "main_hart0 U P V D etext K T s =
     (let s = consoleinit_devsw U s;
          s = printfinit s in
      rbind (printf U [0x0A] [] s) (\<lambda>s.
      rbind (printf U (chars ''xv6 kernel is booting'' @ [0x0A]) [] s) (\<lambda>s.
      rbind (printf U [0x0A] [] s) (\<lambda>s.
      rbind (kinit s) (\<lambda>s.
      rbind (kvminit etext K s) (\<lambda>s.
      let s = kvminithart s;
          s = procinit s;
          s = trapinit s;
          s = trapinithart T s;
          s = plicinit P s;
          s = plicinithart P s;
          s = binit s;
          s = iinit s;
          s = fileinit s in
      rbind (virtio_disk_init V s) (\<lambda>s.
      rbind (userinit K (\<lambda>path. namei D (chars path)) s) (\<lambda>s.
      Ok (s\<lparr>started := True\<rparr>)))))))))"

definition main :: "'u uart_ops \<Rightarrow> ('u, 'v, 'a) boot_scheme plic_ops \<Rightarrow> 'v vreg_ops \<Rightarrow> (('u, 'v, 'a) boot_scheme \<Rightarrow> ('u, 'v, 'a) boot_scheme)
    \<Rightarrow> uint64 \<Rightarrow> ksyms \<Rightarrow> tsyms \<Rightarrow> ('u, 'v, 'a) boot_scheme \<Rightarrow> ('u, 'v, 'a) boot_scheme res" where
  "main U P V D etext K T s =
     (if cpuid s = 0 then main_hart0 U P V D etext K T s
      else if \<not> started s then Hang
      else rbind (printf U (chars ''hart %d starting'' @ [0x0A]) [ArgInt (word_of_nat (cpuid s))] s) (\<lambda>s.
           Ok (plicinithart P (trapinithart T (kvminithart s)))))"

end
