(* ===== verification/Umalloc.thy ===== *)
theory Umalloc
  imports Riscv
begin

text \<open>
  The user-level memory allocator (\<^verbatim>\<open>user/umalloc.c\<close>). A header is a pointer to the next free block
  and a size in units of headers; the memory of the process is represented by the headers at its
  addresses. \<^verbatim>\<open>sbrk\<close> is a parameter: it takes the number of bytes and the state of the world, and
  returns the address of the new memory, or -1. \<^verbatim>\<open>base\<close> is the address of the static header.
  The loops follow pointers in memory and may not end; the result is then \<open>None\<close>.
\<close>

record header =
  hptr :: uint64
  hsize :: uint32

record 'w ualloc =
  heap :: "uint64 \<Rightarrow> header"
  freep :: uint64
  env :: 'w

type_synonym 'w sbrk_fun = "int \<Rightarrow> 'w \<Rightarrow> uint64 \<times> 'w"

definition HEADER_size :: uint64 where
  "HEADER_size = 16"

definition hplus :: "uint64 \<Rightarrow> uint32 \<Rightarrow> uint64" where
  "hplus p n = p + HEADER_size * ucast n"

partial_function (option) free_find :: "(uint64 \<Rightarrow> header) \<Rightarrow> uint64 \<Rightarrow> uint64 \<Rightarrow> uint64 option" where
  "free_find h bp p =
     (if bp > p \<and> bp < hptr (h p) then Some p
      else if p \<ge> hptr (h p) \<and> (bp > p \<or> bp < hptr (h p)) then Some p
      else free_find h bp (hptr (h p)))"

definition free_link :: "uint64 \<Rightarrow> uint64 \<Rightarrow> (uint64 \<Rightarrow> header) \<Rightarrow> uint64 \<Rightarrow> header" where
  "free_link bp p h =
     (let q = hptr (h p);
          h = (if hplus bp (hsize (h bp)) = q
               then h(bp := (h bp)\<lparr>hsize := hsize (h bp) + hsize (h q), hptr := hptr (h q)\<rparr>)
               else h(bp := (h bp)\<lparr>hptr := q\<rparr>))
      in if hplus p (hsize (h p)) = bp
         then h(p := (h p)\<lparr>hsize := hsize (h p) + hsize (h bp), hptr := hptr (h bp)\<rparr>)
         else h(p := (h p)\<lparr>hptr := bp\<rparr>))"

definition free :: "uint64 \<Rightarrow> 'w ualloc \<Rightarrow> 'w ualloc option" where
  "free ap u =
     (let bp = ap - HEADER_size in
      Option.bind (free_find (heap u) bp (freep u)) (\<lambda>p.
      Some (u\<lparr>heap := free_link bp p (heap u), freep := p\<rparr>)))"

definition morecore :: "'w sbrk_fun \<Rightarrow> uint32 \<Rightarrow> 'w ualloc \<Rightarrow> (uint64 \<times> 'w ualloc) option" where
  "morecore sbrk nu u =
     (let nu = (if nu < 4096 then 4096 else nu);
          (p, w) = sbrk (sint (ucast (ucast nu * HEADER_size :: uint64) :: uint32)) (env u);
          u = u\<lparr>env := w\<rparr>
      in if p = -1 then Some (0, u)
         else
           let hp = p;
               u = u\<lparr>heap := (heap u)(hp := (heap u hp)\<lparr>hsize := nu\<rparr>)\<rparr>
           in Option.bind (free (hp + HEADER_size) u) (\<lambda>u. Some (freep u, u)))"

definition malloc_take :: "uint32 \<Rightarrow> uint64 \<Rightarrow> uint64 \<Rightarrow> 'w ualloc \<Rightarrow> uint64 \<times> 'w ualloc" where
  "malloc_take nunits prevp p u =
     (let h = heap u in
      if hsize (h p) = nunits
      then (p + HEADER_size, u\<lparr>heap := h(prevp := (h prevp)\<lparr>hptr := hptr (h p)\<rparr>), freep := prevp\<rparr>)
      else
        let h = h(p := (h p)\<lparr>hsize := hsize (h p) - nunits\<rparr>);
            p = hplus p (hsize (h p));
            h = h(p := (h p)\<lparr>hsize := nunits\<rparr>)
        in (p + HEADER_size, u\<lparr>heap := h, freep := prevp\<rparr>))"

partial_function (option) malloc_loop :: "'w sbrk_fun \<Rightarrow> uint32 \<Rightarrow> uint64 \<Rightarrow> uint64 \<Rightarrow> 'w ualloc \<Rightarrow> (uint64 \<times> 'w ualloc) option" where
  "malloc_loop sbrk nunits prevp p u =
     (if hsize (heap u p) \<ge> nunits then Some (malloc_take nunits prevp p u)
      else if p = freep u then
        Option.bind (morecore sbrk nunits u) (\<lambda>(p, u).
        if p = 0 then Some (0, u) else malloc_loop sbrk nunits p (hptr (heap u p)) u)
      else malloc_loop sbrk nunits p (hptr (heap u p)) u)"

definition malloc_units :: "uint32 \<Rightarrow> uint32" where
  "malloc_units nbytes = ucast ((ucast nbytes + HEADER_size - 1) div HEADER_size + 1)"

definition malloc :: "uint64 \<Rightarrow> 'w sbrk_fun \<Rightarrow> uint32 \<Rightarrow> 'w ualloc \<Rightarrow> (uint64 \<times> 'w ualloc) option" where
  "malloc base sbrk nbytes u =
     (let u = (if freep u = 0 then u\<lparr>heap := (heap u)(base := \<lparr>hptr = base, hsize = 0\<rparr>), freep := base\<rparr> else u)
      in malloc_loop sbrk (malloc_units nbytes) (freep u) (hptr (heap u (freep u))) u)"

declare free_find.simps [code] and malloc_loop.simps [code]

end
