(* ===== verification/Umalloc_Spec.thy ===== *)
theory Umalloc_Spec
  imports Umalloc
begin

text \<open>
  The free list of the allocator is a circular list of blocks in the order of their addresses,
  starting from the static header, and no two of them touch. \<^verbatim>\<open>free\<close> and \<^verbatim>\<open>malloc\<close> keep it, return,
  and move exactly the bytes of one block into and out of the free memory.
\<close>

section \<open>The list in memory\<close>

type_synonym block = "uint64 \<times> uint32"

text \<open>The blocks that follow \<open>p\<close> in the list, back to \<open>b\<close>.\<close>

fun chain :: "(uint64 \<Rightarrow> header) \<Rightarrow> uint64 \<Rightarrow> uint64 \<Rightarrow> block list \<Rightarrow> bool" where
  "chain h b p [] \<longleftrightarrow> hptr (h p) = b"
| "chain h b p ((a, n) # bs) \<longleftrightarrow> hptr (h p) = a \<and> hsize (h a) = n \<and> chain h b a bs"

text \<open>They are apart, in order, and below \<open>hi\<close>.\<close>

fun apart :: "nat \<Rightarrow> block list \<Rightarrow> nat \<Rightarrow> bool" where
  "apart lo [] hi \<longleftrightarrow> lo \<le> hi"
| "apart lo ((a, n) # bs) hi \<longleftrightarrow> lo < unat a \<and> 0 < unat n \<and> apart (unat a + 16 * unat n) bs hi"

definition span :: "uint64 \<Rightarrow> uint32 \<Rightarrow> nat set" where
  "span a n = {unat a..<unat a + 16 * unat n}"

definition bytes :: "block list \<Rightarrow> nat set" where
  "bytes bs = (\<Union>(a, n) \<in> set bs. span a n)"

definition fits :: "uint32 \<Rightarrow> block list \<Rightarrow> bool" where
  "fits n bs \<longleftrightarrow> (\<exists>(a, m) \<in> set bs. n \<le> m)"

definition node :: "uint64 \<Rightarrow> block list \<Rightarrow> uint64" where
  "node b xs = (if xs = [] then b else fst (last xs))"

lemma node_simps [simp]: "node b [] = b" "node b (xs @ [(a, n)]) = a"
  by (simp_all add: node_def)

lemma node_cases: "node b xs = b \<or> (\<exists>n. (node b xs, n) \<in> set xs)"
  by (cases xs rule: rev_cases) (auto simp: node_def)

lemma bytes_simps [simp]: "bytes [] = {}" "bytes ((a, n) # bs) = span a n \<union> bytes bs" "bytes (xs @ ys) = bytes xs \<union> bytes ys"
  by (auto simp: bytes_def)

lemma chain_append: "chain h b p (xs @ ys) \<longleftrightarrow> (\<exists>q. chain h q p xs \<and> chain h b (node p xs) ys \<and> hptr (h (node p xs)) = q)"
proof (induction xs arbitrary: p)
  case Nil
  then show ?case by (cases ys) auto
next
  case (Cons x xs)
  obtain a n where x: "x = (a, n)" by (cases x)
  have "node p (x # xs) = node a xs" by (auto simp: node_def x)
  then show ?case using Cons.IH [of a] by (auto simp: x)
qed

lemma apart_mono: "apart lo bs hi \<Longrightarrow> lo' \<le> lo \<Longrightarrow> apart lo' bs hi"
  by (cases bs) auto

lemma apart_hi: "apart lo bs hi \<Longrightarrow> hi \<le> hi' \<Longrightarrow> apart lo bs hi'"
  by (induction bs arbitrary: lo) auto

lemma apart_le: "apart lo bs hi \<Longrightarrow> lo \<le> hi"
  by (induction lo bs hi rule: apart.induct) auto

lemma apart_append: "apart lo (xs @ ys) hi \<longleftrightarrow> (\<exists>m. apart lo xs m \<and> apart m ys hi \<and> m = (if xs = [] then lo else unat (fst (last xs)) + 16 * unat (snd (last xs))))"
proof (induction xs arbitrary: lo)
  case (Cons x xs)
  obtain a n where x: "x = (a, n)" by (cases x)
  show ?case using Cons.IH [of "unat a + 16 * unat n"] by (auto simp: x)
qed simp

lemma apart_bytes: "apart lo bs hi \<Longrightarrow> x \<in> bytes bs \<Longrightarrow> lo < x \<and> x < hi"
proof (induction lo bs hi rule: apart.induct)
  case (2 lo a n bs hi)
  then show ?case using apart_le [of "unat a + 16 * unat n" bs hi] by (auto simp: span_def)
qed simp

lemma apart_node: "apart lo bs hi \<Longrightarrow> (a, n) \<in> set bs \<Longrightarrow> lo < unat a \<and> unat a \<in> bytes bs \<and> unat a + 16 * unat n \<le> hi \<and> 0 < unat n"
proof (induction lo bs hi rule: apart.induct)
  case (2 lo a' n' bs hi)
  then show ?case using apart_le [of "unat a' + 16 * unat n'" bs hi] by (auto simp: span_def)
qed simp

lemma apart_fst: "apart lo bs hi \<Longrightarrow> a \<in> fst ` set bs \<Longrightarrow> lo < unat a \<and> unat a < hi \<and> unat a \<in> bytes bs"
  using apart_node [of lo bs hi] apart_bytes [of lo bs hi] by force

lemma apart_distinct: "apart lo bs hi \<Longrightarrow> distinct (map fst bs)"
proof (induction lo bs hi rule: apart.induct)
  case (2 lo a n bs hi)
  have "a \<notin> fst ` set bs" using apart_node [of "unat a + 16 * unat n" bs hi] 2(2) by force
  then show ?case using 2 by simp
qed simp

text \<open>What is not on the list does not matter.\<close>

lemma chain_cong:
  "(\<And>a. a = p \<or> a \<in> fst ` set bs \<Longrightarrow> h' a = h a) \<Longrightarrow> chain h' b p bs = chain h b p bs"
  by (induction bs arbitrary: p) auto

lemma chain_split:
  assumes "chain h b p (xs @ (a, n) # ys)"
  shows "hptr (h (node p xs)) = a" "hsize (h a) = n" "hptr (h a) = fst (hd (ys @ [(b, 0)]))"
  using assms by (auto simp: chain_append split: list.split) (cases ys; auto)+

text \<open>
  The free list: a ring of headers from the static header at \<open>b\<close> (of size 0) through the blocks, which lie in
  the order of their addresses above \<open>b\<close> and do not touch. The static header is a variable of the
  program, which the linker puts below the heap, so that the memory of a block never overlaps its 16
  bytes; the model keeps headers by address and does not say more of it than that it comes first.
\<close>

definition free_list :: "uint64 \<Rightarrow> nat \<Rightarrow> block list \<Rightarrow> 'w ualloc \<Rightarrow> bool" where
  "free_list b hi bs u \<longleftrightarrow> chain (heap u) b b bs \<and> hsize (heap u b) = 0 \<and> apart (unat b) bs hi \<and> freep u \<in> insert b (fst ` set bs) \<and>
     b \<noteq> 0 \<and> hi \<le> 2 ^ 36"

section \<open>Finding the place of a block\<close>

lemma apart_order:
  assumes "apart (unat b) (xs @ (a, n) # ys) hi"
  shows "node b xs < a" "b \<le> node b xs"
proof -
  have "apart (unat b) xs (unat a)" using assms apart_hi by (fastforce simp: apart_append)
  moreover have "unat (node b xs) < unat a" using assms by (auto simp: apart_append node_def split: if_splits)
  ultimately show "node b xs < a" by (simp add: word_less_nat_alt)
  have "unat b \<le> unat (node b xs)"
  proof (cases xs rule: rev_cases)
    case (snoc zs x)
    then have "apart (unat b) (zs @ [(fst x, snd x)]) (unat a)" using \<open>apart (unat b) xs (unat a)\<close> by simp
    then have "unat b < unat (fst x)" using apart_node [of "unat b" "zs @ [(fst x, snd x)]" "unat a" "fst x" "snd x"] by auto
    then show ?thesis by (simp add: snoc node_def)
  qed simp
  then show "b \<le> node b xs" by (simp add: word_le_nat_alt)
qed

lemma base_le_node: "apart (unat b) xs hi \<Longrightarrow> b \<le> node b xs"
proof (cases xs rule: rev_cases)
  case (snoc zs x)
  assume "apart (unat b) xs hi"
  then have "unat b < unat (fst x)" using apart_node [of "unat b" xs hi "fst x" "snd x"] snoc by auto
  then show ?thesis by (simp add: snoc node_def word_le_nat_alt)
qed simp

lemma free_find_forward:
  assumes "chain h b b (xs1 @ xs2 @ ys)" and "apart (unat b) (xs1 @ xs2 @ ys) hi" and "b < bp"
    and "\<forall>x \<in> set (xs1 @ xs2). fst x < bp" and "\<forall>y \<in> set ys. bp < fst y"
  shows "free_find h bp (node b xs1) = Some (node b (xs1 @ xs2))"
  using assms
proof (induction xs2 arbitrary: xs1)
  case Nil
  have lt: "node b xs1 < bp" using Nil.prems(3,4) by (auto simp: node_def)
  show ?case
  proof (cases ys)
    case Nil: Nil
    have "hptr (h (node b xs1)) = b" using chain_append [of h b b xs1 "[]"] Nil.prems(1) Nil by simp
    moreover have "b \<le> node b xs1" using base_le_node [of b xs1 hi] Nil.prems(2) Nil by simp
    ultimately show ?thesis using lt by (subst free_find.simps) simp
  next
    case (Cons y r)
    then have "hptr (h (node b xs1)) = fst y" using chain_split(1) [of h b b xs1 "fst y" "snd y" r] Nil.prems(1) by simp
    then show ?thesis using lt Nil.prems(5) Cons by (subst free_find.simps) simp
  qed
next
  case (Cons x r)
  obtain a n where x: "x = (a, n)" by (cases x)
  have nx: "hptr (h (node b xs1)) = a" using chain_split(1) [of h b b xs1 a n "r @ ys"] Cons.prems(1) by (simp add: x)
  have o: "node b xs1 < a" using apart_order(1) [of b xs1 a n "r @ ys" hi] Cons.prems(2) by (simp add: x)
  have "a < bp" using Cons.prems(4) by (simp add: x)
  then have "free_find h bp (node b xs1) = free_find h bp a" using nx o by (subst free_find.simps) auto
  moreover have "free_find h bp (node b (xs1 @ [x])) = Some (node b ((xs1 @ [x]) @ r))" by (rule Cons.IH) (use Cons.prems in simp_all)
  ultimately show ?case by (simp add: x)
qed

lemma free_find_wrap:
  assumes "chain h b b (xs @ ys1 @ (a, n) # ys2)" and "apart (unat b) (xs @ ys1 @ (a, n) # ys2) hi" and "b < bp"
    and "\<forall>x \<in> set xs. fst x < bp" and "\<forall>y \<in> set (ys1 @ (a, n) # ys2). bp < fst y"
  shows "free_find h bp a = Some (node b xs)"
  using assms
proof (induction ys2 arbitrary: ys1 a n)
  case Nil
  have "hptr (h a) = b" using chain_split(3) [of h b b "xs @ ys1" a n "[]"] Nil.prems(1) by simp
  moreover have "bp < a" using Nil.prems(5) by simp
  ultimately have "free_find h bp a = free_find h bp b" using Nil.prems(3) by (subst free_find.simps) auto
  moreover have "free_find h bp (node b []) = Some (node b ([] @ xs))"
    by (rule free_find_forward [of h b "[]" xs "ys1 @ [(a, n)]" hi]) (use Nil.prems in simp_all)
  ultimately show ?case by simp
next
  case (Cons y r)
  obtain c m where y: "y = (c, m)" by (cases y)
  have nx: "hptr (h a) = c" using chain_split(3) [of h b b "xs @ ys1" a n "(c, m) # r"] Cons.prems(1) by (simp add: y)
  have "node b (xs @ ys1 @ [(a, n)]) < c" using apart_order(1) [of b "xs @ ys1 @ [(a, n)]" c m r hi] Cons.prems(2) by (simp add: y)
  then have "a < c" by (simp add: node_def)
  then have "free_find h bp a = free_find h bp c" using nx Cons.prems(5) by (subst free_find.simps) auto
  moreover have "free_find h bp c = Some (node b xs)" by (rule Cons.IH [of "ys1 @ [(a, n)]" c m]) (use Cons.prems in \<open>simp_all add: y\<close>)
  ultimately show ?case by simp
qed

lemma free_find_returns:
  assumes "chain h b b (xs @ ys)" and "apart (unat b) (xs @ ys) hi" and "b < bp" and "\<forall>x \<in> set xs. fst x < bp" and "\<forall>y \<in> set ys. bp < fst y"
    and p: "p \<in> insert b (fst ` set (xs @ ys))"
  shows "free_find h bp p = Some (node b xs)"
proof -
  consider "p = b" | n where "(p, n) \<in> set xs" | n where "(p, n) \<in> set ys" using p by auto
  then show ?thesis
  proof cases
    case 1
    then show ?thesis using free_find_forward [of h b "[]" xs ys hi bp] assms by simp
  next
    case 2
    then obtain x1 x2 where "xs = x1 @ (p, n) # x2" by (meson split_list)
    then show ?thesis using free_find_forward [of h b "x1 @ [(p, n)]" x2 ys hi bp] assms by simp
  next
    case 3
    then obtain y1 y2 where "ys = y1 @ (p, n) # y2" by (meson split_list)
    then show ?thesis using free_find_wrap [of h b xs y1 p n y2 hi bp] assms by simp
  qed
qed

section \<open>Linking a block in\<close>

fun join_next :: "uint64 \<Rightarrow> uint32 \<Rightarrow> block list \<Rightarrow> block list" where
  "join_next bp n [] = [(bp, n)]"
| "join_next bp n ((a, m) # r) = (if hplus bp n = a then (bp, n + m) # r else (bp, n) # (a, m) # r)"

definition join_prev :: "block list \<Rightarrow> uint64 \<Rightarrow> uint32 \<Rightarrow> block list \<Rightarrow> block list" where
  "join_prev xs bp n r = (if xs \<noteq> [] \<and> hplus (fst (last xs)) (snd (last xs)) = bp
     then butlast xs @ (fst (last xs), snd (last xs) + n) # r else xs @ (bp, n) # r)"

definition put_block :: "uint64 \<Rightarrow> uint32 \<Rightarrow> block list \<Rightarrow> block list \<Rightarrow> block list" where
  "put_block bp n xs ys = (case join_next bp n ys of (c, k) # r \<Rightarrow> join_prev xs c k r)"

lemma unat_hplus: "unat p + 16 * unat n < 2 ^ 64 \<Longrightarrow> unat (hplus p n) = unat p + 16 * unat n"
proof -
  assume lt: "unat p + 16 * unat n < 2 ^ 64"
  have "unat n < 2 ^ 32" using unsigned_less [of n, where 'a = nat] by simp
  then have u: "unat (ucast n :: uint64) = unat n" by (simp add: unsigned_ucast_eq unsigned_take_bit_eq take_bit_nat_eq_self)
  have "unat (HEADER_size * ucast n) = 16 * unat n" using lt by (simp add: HEADER_size_def unat_word_ariths u)
  then show ?thesis using lt by (simp add: hplus_def unat_word_ariths)
qed

lemma chain_redirect:
  assumes "chain h q s xs" and "distinct (s # map fst xs)"
  shows "chain (h(node s xs := (h (node s xs))\<lparr>hptr := q'\<rparr>)) q' s xs"
  using assms
proof (induction xs arbitrary: s)
  case (Cons x xs)
  obtain a n where x: "x = (a, n)" by (cases x)
  have nd: "node s (x # xs) = node a xs" by (auto simp: node_def x)
  have "node a xs \<noteq> s" using Cons.prems(2) by (auto simp: node_def x)
  then show ?case using Cons.IH [of a] Cons.prems unfolding nd by (auto simp: x)
qed simp

lemma chain_tail: "chain h b p bs \<Longrightarrow> hptr (h' p') = hptr (h p) \<Longrightarrow> (\<And>a. a \<in> fst ` set bs \<Longrightarrow> h' a = h a) \<Longrightarrow> chain h' b p' bs"
proof (cases bs)
  case (Cons x t)
  assume "chain h b p bs" "hptr (h' p') = hptr (h p)" "\<And>a. a \<in> fst ` set bs \<Longrightarrow> h' a = h a"
  then show ?thesis using chain_cong [of "fst x" t h' h b] by (cases x) (simp add: Cons)
qed simp

lemma free_link_next:
  assumes c: "chain h b b (xs @ ys)" and n: "hsize (h bp) = n" and bp: "bp \<notin> insert b (fst ` set (xs @ ys))" and nb: "hplus bp n \<noteq> b"
    and p: "p = node b xs" and j: "join_next bp n ys = (bp, k) # r"
  defines "h1 \<equiv> (if hplus bp (hsize (h bp)) = hptr (h p) then h(bp := (h bp)\<lparr>hsize := hsize (h bp) + hsize (h (hptr (h p))), hptr := hptr (h (hptr (h p)))\<rparr>)
               else h(bp := (h bp)\<lparr>hptr := hptr (h p)\<rparr>))"
  shows "chain h1 (hptr (h p)) b xs" "hsize (h1 bp) = k" "chain h1 b bp r" "\<And>a. a \<noteq> bp \<Longrightarrow> h1 a = h a"
proof -
  show other: "\<And>a. a \<noteq> bp \<Longrightarrow> h1 a = h a" by (simp add: h1_def)
  have cx: "chain h (hptr (h p)) b xs" and cy: "chain h b p ys" using c p by (auto simp: chain_append)
  have "h1 a = h a" if "a = b \<or> a \<in> fst ` set xs" for a using that bp by (intro other) auto
  then show "chain h1 (hptr (h p)) b xs" using cx chain_cong [of b xs h1 h "hptr (h p)"] by blast
  have "hsize (h1 bp) = k \<and> chain h1 b bp r"
  proof (cases ys)
    case Nil
    then have "hptr (h p) = b" using cy by simp
    then show ?thesis using Nil j n nb by (auto simp: h1_def)
  next
    case (Cons y t)
    obtain a m where y: "y = (a, m)" by (cases y)
    have a: "hptr (h p) = a" "hsize (h a) = m" "chain h b a t" using cy by (auto simp: Cons y)
    have kt: "h1 c = h c" if "c \<in> fst ` set ys" for c using that bp by (intro other) auto
    show ?thesis
    proof (cases "hplus bp n = a")
      case True
      then have kr: "k = n + m" "r = t" using j by (auto simp: Cons y)
      have h1: "h1 bp = (h bp)\<lparr>hsize := n + m, hptr := hptr (h a)\<rparr>" using True a n by (simp add: h1_def)
      have "chain h1 b bp t" by (rule chain_tail [OF a(3)]) (simp add: h1, rule kt, simp add: Cons)
      then show ?thesis by (simp add: h1 kr)
    next
      case False
      then have kr: "k = n" "r = ys" using j by (auto simp: Cons y)
      have h1: "h1 bp = (h bp)\<lparr>hptr := a\<rparr>" using False a n by (simp add: h1_def)
      have "chain h1 b bp ys" by (rule chain_tail [OF cy]) (simp add: h1 a(1), rule kt)
      then show ?thesis by (simp add: h1 kr n)
    qed
  qed
  then show "hsize (h1 bp) = k" "chain h1 b bp r" by auto
qed

lemma free_link_prev:
  assumes c: "chain h q b xs" and k: "hsize (h bp) = k" and r: "chain h b bp r" and z: "hsize (h b) = 0" and p: "p = node b xs"
    and bp: "bp \<notin> insert b (fst ` set (xs @ r))" and d: "distinct (b # map fst (xs @ r))"
  defines "h2 \<equiv> (if hplus p (hsize (h p)) = bp then h(p := (h p)\<lparr>hsize := hsize (h p) + hsize (h bp), hptr := hptr (h bp)\<rparr>)
               else h(p := (h p)\<lparr>hptr := bp\<rparr>))"
  shows "chain h2 b b (join_prev xs bp k r)" "hsize (h2 b) = 0" "\<And>a. a \<noteq> p \<Longrightarrow> h2 a = h a"
proof -
  show other: "\<And>a. a \<noteq> p \<Longrightarrow> h2 a = h a" by (simp add: h2_def)
  have pr: "p \<in> insert b (fst ` set xs)" using p by (auto simp: node_def)
  have kr: "h2 c = h c" if "c = bp \<or> c \<in> fst ` set r" for c using that bp d pr by (intro other) auto
  have "chain h2 b b (join_prev xs bp k r) \<and> hsize (h2 b) = 0"
  proof (cases "xs \<noteq> [] \<and> hplus p (hsize (h p)) = bp")
    case True
    obtain zs m where xs: "xs = zs @ [(p, m)]" using True p by (cases xs rule: rev_cases) (auto simp: node_def)
    have cz: "chain h p b zs" "hptr (h (node b zs)) = p" "hsize (h p) = m" using c by (auto simp: xs chain_append)
    have h2: "h2 = h(p := (h p)\<lparr>hsize := m + k, hptr := hptr (h bp)\<rparr>)" using True cz(3) k by (simp add: h2_def)
    have nz: "p \<notin> insert b (fst ` set zs)" using d by (auto simp: xs)
    have kz: "h2 c = h c" if "c = b \<or> c \<in> fst ` set zs" for c using that nz by (intro other) auto
    have "chain h2 p b zs" using cz(1) chain_cong [of b zs h2 h p] kz by blast
    moreover have "hptr (h2 (node b zs)) = p" using cz(2) kz [of "node b zs"] by (auto simp: node_def split: if_splits)
    moreover have "chain h2 b p r" by (rule chain_tail [OF r]) (simp add: h2, rule kr, simp)
    moreover have "hsize (h2 p) = m + k" by (simp add: h2)
    moreover have "join_prev xs bp k r = zs @ (p, m + k) # r" using True cz(3) by (simp add: join_prev_def xs)
    ultimately show ?thesis using kz [of b] z by (auto simp: chain_append)
  next
    case False
    have np: "hplus p (hsize (h p)) \<noteq> bp" using False p z bp by (cases "xs = []") (auto simp: hplus_def)
    then have h2: "h2 = h(p := (h p)\<lparr>hptr := bp\<rparr>)" by (simp add: h2_def)
    have "chain h2 bp b xs" unfolding h2 p by (rule chain_redirect [OF c]) (use d in auto)
    moreover have "hptr (h2 p) = bp" by (simp add: h2)
    moreover have "chain h2 b bp r" by (rule chain_tail [OF r]) (use kr in auto)
    moreover have "hsize (h2 bp) = k" using kr k by simp
    moreover have "join_prev xs bp k r = xs @ (bp, k) # r"
    proof (cases xs rule: rev_cases)
      case (snoc zs x)
      then have "hsize (h p) = snd x" "p = fst x" using c p by (cases x; auto simp: chain_append node_def)+
      then show ?thesis using np by (simp add: join_prev_def snoc)
    qed (simp add: join_prev_def)
    ultimately show ?thesis using z p by (auto simp: chain_append h2)
  qed
  then show "chain h2 b b (join_prev xs bp k r)" "hsize (h2 b) = 0" by auto
qed

lemma unat_plus_units: "16 * (unat a + unat b) < 2 ^ 36 \<Longrightarrow> unat (a + b :: uint32) = unat a + unat b"
  by (simp add: unat_word_ariths)

lemma join_next_ok:
  assumes n: "0 < unat n" and e: "unat bp + 16 * unat n \<le> (case ys of [] \<Rightarrow> hi | y # _ \<Rightarrow> unat (fst y))" and a: "apart (unat bp) ys hi"
    and hi: "hi \<le> 2 ^ 36" and b: "0 < unat bp"
  shows "\<exists>k r. join_next bp n ys = (bp, k) # r \<and> 0 < unat k \<and> apart (unat bp + 16 * unat k) r hi \<and>
    span bp k \<union> bytes r = span bp n \<union> bytes ys \<and> fst ` set r \<subseteq> fst ` set ys \<and> distinct (map fst r) \<and> unat n \<le> unat k"
proof (cases ys)
  case Nil
  then show ?thesis using n e by simp
next
  case (Cons y t)
  obtain c m where y: "y = (c, m)" by (cases y)
  have c: "unat bp < unat c" "0 < unat m" "apart (unat c + 16 * unat m) t hi" "unat bp + 16 * unat n \<le> unat c" using a e by (auto simp: Cons y)
  have le: "unat c + 16 * unat m \<le> hi" by (rule apart_le [OF c(3)])
  have dist: "distinct (map fst ys)" by (rule apart_distinct [OF a])
  have u: "unat (hplus bp n) = unat bp + 16 * unat n" by (rule unat_hplus) (use le c hi in simp)
  show ?thesis
  proof (cases "hplus bp n = c")
    case True
    then have adj: "unat c = unat bp + 16 * unat n" using u by simp
    have k: "unat (n + m) = unat n + unat m" by (rule unat_plus_units) (use le adj b hi in simp)
    have "span bp (n + m) = span bp n \<union> span c m" using adj by (auto simp: span_def k)
    moreover have "apart (unat bp + 16 * unat (n + m)) t hi" using c(3) adj by (simp add: k add_mult_distrib2 add.assoc)
    ultimately show ?thesis using True n k dist by (auto simp: Cons y)
  next
    case False
    then have "unat bp + 16 * unat n < unat c" using u c(4) by (metis le_neq_implies_less word_unat_eq_iff)
    then show ?thesis using False n c dist by (simp add: Cons y)
  qed
qed

lemma join_prev_ok:
  assumes n: "0 < unat k" and a: "apart (unat b) xs (unat bp)" and lt: "unat b < unat bp" and r: "apart (unat bp + 16 * unat k) r hi" and hi: "hi \<le> 2 ^ 36"
  shows "apart (unat b) (join_prev xs bp k r) hi" "bytes (join_prev xs bp k r) = bytes xs \<union> span bp k \<union> bytes r"
    "node b xs \<in> insert b (fst ` set (join_prev xs bp k r))" "\<exists>a m. (a, m) \<in> set (join_prev xs bp k r) \<and> unat k \<le> unat m"
proof -
  have le: "unat bp + 16 * unat k \<le> hi" by (rule apart_le [OF r])
  have "apart (unat b) (join_prev xs bp k r) hi \<and> bytes (join_prev xs bp k r) = bytes xs \<union> span bp k \<union> bytes r \<and>
      node b xs \<in> insert b (fst ` set (join_prev xs bp k r)) \<and> (\<exists>a m. (a, m) \<in> set (join_prev xs bp k r) \<and> unat k \<le> unat m)"
  proof (cases xs rule: rev_cases)
    case Nil
    then show ?thesis using lt n r by (auto simp: join_prev_def)
  next
    case (snoc zs x)
    obtain c m where x: "x = (c, m)" by (cases x)
    obtain M where z: "apart (unat b) zs M" "M < unat c" "0 < unat m" "unat c + 16 * unat m \<le> unat bp"
        "M = (if zs = [] then unat b else unat (fst (last zs)) + 16 * unat (snd (last zs)))"
      using a by (auto simp: snoc x apart_append)
    have u: "unat (hplus c m) = unat c + 16 * unat m" by (rule unat_hplus) (use z(4) le hi in simp)
    show ?thesis
    proof (cases "hplus c m = bp")
      case True
      then have adj: "unat bp = unat c + 16 * unat m" using u by simp
      have mk: "unat (m + k) = unat m + unat k" by (rule unat_plus_units) (use le adj z(2) hi in simp)
      have "span c (m + k) = span c m \<union> span bp k" using adj by (auto simp: span_def mk)
      moreover have "apart (unat c + 16 * unat (m + k)) r hi" using r adj by (simp add: mk add_mult_distrib2 add.assoc)
      moreover have "join_prev xs bp k r = zs @ (c, m + k) # r" using True by (simp add: join_prev_def snoc x)
      moreover have "apart (unat b) (zs @ (c, m + k) # r) hi" using z calculation(2) mk by (simp add: apart_append [of "unat b" zs])
      moreover have "unat k \<le> unat (m + k)" by (simp add: mk)
      ultimately show ?thesis by (auto simp: snoc x)
    next
      case False
      then have "unat c + 16 * unat m < unat bp" using u z(4) by (metis le_neq_implies_less word_unat_eq_iff)
      moreover have "join_prev xs bp k r = xs @ (bp, k) # r" using False by (simp add: join_prev_def snoc x)
      moreover have "apart (unat b) xs (unat c + 16 * unat m)" using z by (simp add: snoc x apart_append)
      then have "apart (unat b) (xs @ (bp, k) # r) hi" using calculation(1) n r by (simp add: apart_append [of "unat b" xs]) (simp add: snoc x)
      ultimately show ?thesis by (auto simp: snoc x)
    qed
  qed
  then show "apart (unat b) (join_prev xs bp k r) hi" "bytes (join_prev xs bp k r) = bytes xs \<union> span bp k \<union> bytes r"
    "node b xs \<in> insert b (fst ` set (join_prev xs bp k r))" "\<exists>a m. (a, m) \<in> set (join_prev xs bp k r) \<and> unat k \<le> unat m" by blast+
qed

lemma apart_split:
  assumes "apart lo bs hi" and "bp \<notin> fst ` set bs"
  shows "\<exists>xs ys. bs = xs @ ys \<and> (\<forall>x \<in> set xs. fst x < bp) \<and> (\<forall>y \<in> set ys. bp < fst y)"
  using assms
proof (induction bs arbitrary: lo)
  case (Cons x bs)
  obtain a n where x: "x = (a, n)" by (cases x)
  have t: "apart (unat a + 16 * unat n) bs hi" using Cons.prems(1) by (simp add: x)
  show ?case
  proof (cases "a < bp")
    case True
    obtain xs ys where "bs = xs @ ys" "\<forall>x \<in> set xs. fst x < bp" "\<forall>y \<in> set ys. bp < fst y" using Cons.IH [OF t] Cons.prems(2) by auto
    then show ?thesis using True by (intro exI [of _ "x # xs"] exI [of _ ys]) (simp add: x)
  next
    case False
    then have "bp < a" using Cons.prems(2) by (auto simp: x)
    moreover have "a < fst y" if "y \<in> set bs" for y using apart_node [OF t, of "fst y" "snd y"] that by (auto simp: word_less_nat_alt)
    ultimately have "\<forall>y \<in> set (x # bs). bp < fst y" by (auto simp: x dest: less_trans)
    then show ?thesis by (intro exI [of _ "[]"] exI [of _ "x # bs"]) simp
  qed
qed simp

lemma free_spec:
  assumes F: "free_list b hi bs u" and n: "hsize (heap u bp) = n" "0 < unat n" and lo: "unat b < unat bp" and up: "unat bp + 16 * unat n \<le> hi"
    and dis: "span bp n \<inter> bytes bs = {}"
  shows "\<exists>u' bs'. free (bp + HEADER_size) u = Some u' \<and> free_list b hi bs' u' \<and> bytes bs' = bytes bs \<union> span bp n \<and> env u' = env u \<and>
    fits n bs' \<and> (\<forall>a. a \<noteq> b \<and> a \<noteq> bp \<and> unat a \<notin> bytes bs \<longrightarrow> heap u' a = heap u a)"
proof -
  have I: "chain (heap u) b b bs" "hsize (heap u b) = 0" "apart (unat b) bs hi" "freep u \<in> insert b (fst ` set bs)" "b \<noteq> 0" "hi \<le> 2 ^ 36"
    using F by (simp_all add: free_list_def)
  have self: "unat bp \<in> span bp n" using n(2) by (simp add: span_def)
  have bp: "bp \<notin> fst ` set bs" using apart_node [OF I(3)] self dis by force
  obtain xs ys where bs: "bs = xs @ ys" "\<forall>x \<in> set xs. fst x < bp" "\<forall>y \<in> set ys. bp < fst y" using apart_split [OF I(3) bp] by blast
  obtain M where M: "apart (unat b) xs M" "apart M ys hi" "M = (if xs = [] then unat b else unat (fst (last xs)) + 16 * unat (snd (last xs)))"
    using I(3) by (auto simp: bs(1) apart_append)
  have Mbp: "M \<le> unat bp"
  proof (cases "xs = []")
    case False
    then have "(fst (last xs), snd (last xs)) \<in> set xs" by simp
    then have l: "span (fst (last xs)) (snd (last xs)) \<subseteq> bytes bs" "unat (fst (last xs)) < unat bp"
      using bs(2) by (force simp: bytes_def bs(1), simp add: word_less_nat_alt)
    then have "unat bp \<notin> span (fst (last xs)) (snd (last xs))" using self dis by blast
    then show ?thesis using False l(2) M(3) by (auto simp: span_def)
  qed (use lo M(3) in simp)
  have ye: "unat bp + 16 * unat n \<le> (case ys of [] \<Rightarrow> hi | y # _ \<Rightarrow> unat (fst y))" and ya: "apart (unat bp) ys hi"
  proof -
    have "unat bp + 16 * unat n \<le> unat (fst y) \<and> apart (unat bp) ys hi" if "ys = y # t" for y t
    proof -
      have g: "unat bp < unat (fst y)" using bs(3) that by (simp add: word_less_nat_alt)
      have "unat (fst y) \<in> bytes bs" using apart_node [OF I(3), of "fst y" "snd y"] that bs(1) by simp
      then have "unat (fst y) \<notin> span bp n" using dis by blast
      then show ?thesis using g M(2) that by (cases y) (auto simp: span_def)
    qed
    then show "unat bp + 16 * unat n \<le> (case ys of [] \<Rightarrow> hi | y # _ \<Rightarrow> unat (fst y))" "apart (unat bp) ys hi"
      using up by (cases ys; auto)+
  qed
  obtain k r where J: "join_next bp n ys = (bp, k) # r" "0 < unat k" "apart (unat bp + 16 * unat k) r hi" "span bp k \<union> bytes r = span bp n \<union> bytes ys"
      "fst ` set r \<subseteq> fst ` set ys" "distinct (map fst r)" "unat n \<le> unat k"
    using join_next_ok [OF n(2) ye ya I(6)] lo by auto
  define bs' where "bs' = join_prev xs bp k r"
  note P = join_prev_ok [OF J(2) apart_hi [OF M(1) Mbp] lo J(3) I(6), folded bs'_def]
  have nb: "hplus bp n \<noteq> b" using unat_hplus [of bp n] up lo I(6) by auto
  have bpn: "bp \<notin> insert b (fst ` set (xs @ ys))" using bp lo by (auto simp: bs(1))
  define p where "p = node b xs"
  define h1 where "h1 = (let h = heap u; q = hptr (h p) in if hplus bp (hsize (h bp)) = q then h(bp := (h bp)\<lparr>hsize := hsize (h bp) + hsize (h q), hptr := hptr (h q)\<rparr>)
               else h(bp := (h bp)\<lparr>hptr := q\<rparr>))"
  note L = free_link_next [OF I(1) [unfolded bs(1)] n(1) bpn nb p_def J(1), folded h1_def [unfolded Let_def]]
  have z1: "hsize (h1 b) = 0" using L(4) [of b] I(2) lo by (cases "b = bp") simp_all
  have d: "distinct (b # map fst (xs @ r))"
  proof -
    have "distinct (map fst (xs @ ys))" using apart_distinct [OF I(3)] by (simp add: bs(1))
    moreover have "b \<notin> fst ` set (xs @ ys)" using apart_node [OF I(3)] by (force simp: bs(1))
    ultimately show ?thesis using J(5,6) by auto
  qed
  have bp': "bp \<notin> insert b (fst ` set (xs @ r))" using bpn J(5) by auto
  define h2 where "h2 = free_link bp p (heap u)"
  have h2: "h2 = (if hplus p (hsize (h1 p)) = bp then h1(p := (h1 p)\<lparr>hsize := hsize (h1 p) + hsize (h1 bp), hptr := hptr (h1 bp)\<rparr>) else h1(p := (h1 p)\<lparr>hptr := bp\<rparr>))"
    by (simp add: h2_def free_link_def h1_def Let_def)
  note K = free_link_prev [OF L(1,2,3) z1 p_def bp' d, folded h2 bs'_def]
  have "free_find (heap u) bp (freep u) = Some p"
    unfolding p_def by (rule free_find_returns [OF I(1,3) [unfolded bs(1)] _ bs(2,3)]) (use I(4) lo in \<open>auto simp: bs(1) word_less_nat_alt\<close>)
  then have fr: "free (bp + HEADER_size) u = Some (u\<lparr>heap := h2, freep := p\<rparr>)" by (simp add: free_def h2_def)
  have by': "bytes bs' = bytes bs \<union> span bp n" using P(2) J(4) by (auto simp: bs(1))
  have big: "fits n bs'" using P(4) J(7) by (auto simp: fits_def word_le_nat_alt intro: order_trans)
  have "heap (u\<lparr>heap := h2, freep := p\<rparr>) a = heap u a" if "a \<noteq> b \<and> a \<noteq> bp \<and> unat a \<notin> bytes bs" for a
  proof -
    have "unat p \<in> bytes bs \<or> p = b" using node_cases [of b xs] apart_node [OF I(3)] by (auto simp: p_def bs(1))
    then have "a \<noteq> p" using that by auto
    then show ?thesis using that K(3) L(4) by simp
  qed
  then show ?thesis
    using fr K(1,2) P(1,3) I(5,6) by' big by (intro exI [of _ "u\<lparr>heap := h2, freep := p\<rparr>"] exI [of _ bs']) (simp add: free_list_def p_def)
qed

section \<open>Taking a block out\<close>

lemma node_mem: "p \<in> insert b (fst ` set bs) \<Longrightarrow> \<exists>pre suf. bs = pre @ suf \<and> p = node b pre"
proof -
  assume p: "p \<in> insert b (fst ` set bs)"
  show ?thesis
  proof (cases "p = b")
    case False
    then obtain n where "(p, n) \<in> set bs" using p by auto
    then obtain xs ys where "bs = (xs @ [(p, n)]) @ ys" using split_list by fastforce
    moreover have "p = node b (xs @ [(p, n)])" by simp
    ultimately show ?thesis by blast
  next
    case True
    then show ?thesis by (intro exI [of _ "[]"] exI [of _ bs]) simp
  qed
qed

lemma free_listD:
  assumes "free_list b hi bs u"
  shows "chain (heap u) b b bs" "hsize (heap u b) = 0" "apart (unat b) bs hi" "freep u \<in> insert b (fst ` set bs)" "b \<noteq> 0" "hi \<le> 2 ^ 36"
    "b \<notin> fst ` set bs" "distinct (map fst bs)" "freep u \<noteq> 0"
proof -
  show I: "chain (heap u) b b bs" "hsize (heap u b) = 0" "apart (unat b) bs hi" "freep u \<in> insert b (fst ` set bs)" "b \<noteq> 0" "hi \<le> 2 ^ 36"
    using assms by (simp_all add: free_list_def)
  show "distinct (map fst bs)" by (rule apart_distinct [OF I(3)])
  show "b \<notin> fst ` set bs" using apart_node [OF I(3)] by force
  show "freep u \<noteq> 0" using apart_node [OF I(3)] I(4,5) by force
qed

lemma take_whole:
  assumes F: "free_list b hi (xs @ (p, n) # ys) u"
  defines "h \<equiv> heap u"
  defines "u' \<equiv> u\<lparr>heap := h(node b xs := (h (node b xs))\<lparr>hptr := hptr (h p)\<rparr>), freep := node b xs\<rparr>"
  shows "free_list b hi (xs @ ys) u'" "hsize (heap u' p) = n"
proof -
  note I = free_listD [OF F, folded h_def]
  have c: "chain h p b xs" "hptr (h (node b xs)) = p" "hsize (h p) = n" "chain h b p ys" using I(1) by (auto simp: chain_append)
  have q: "node b xs \<in> insert b (fst ` set xs)" by (auto simp: node_def)
  have dj: "fst ` set xs \<inter> fst ` set ys = {}" "b \<notin> fst ` set ys" "b \<noteq> p" "p \<notin> fst ` set xs" using I(7,8) by (simp_all add: image_Un)
  have ny: "node b xs \<notin> fst ` set ys" using q dj(1,2) by (metis disjoint_iff insertE)
  have np: "p \<noteq> node b xs" using q dj(3,4) by (metis insertE)
  have "distinct (b # map fst xs)" using I(7,8) by (simp add: image_Un)
  then have "chain (heap u') (hptr (h p)) b xs" using chain_redirect [OF c(1), of "hptr (h p)"] by (simp add: u'_def)
  moreover have "heap u' c = h c" if "c \<in> fst ` set ys" for c
  proof -
    have "c \<noteq> node b xs" using that ny by metis
    then show ?thesis by (simp add: u'_def)
  qed
  then have "chain (heap u') b (node b xs) ys" by (intro chain_tail [OF c(4)]) (simp add: u'_def)
  moreover have "hptr (heap u' (node b xs)) = hptr (h p)" by (simp add: u'_def)
  ultimately have "chain (heap u') b b (xs @ ys)" by (auto simp: chain_append)
  moreover have "apart (unat b) (xs @ ys) hi" using I(3) by (fastforce simp: apart_append intro: apart_mono)
  moreover have "hsize (heap u' b) = 0" "freep u' = node b xs" using I(2) by (simp_all add: u'_def)
  ultimately show "free_list b hi (xs @ ys) u'" using I(5,6) q by (auto simp: free_list_def)
  show "hsize (heap u' p) = n" using c(3) np by (simp add: u'_def)
qed

lemma take_tail:
  assumes F: "free_list b hi (xs @ (p, m) # ys) u" and n: "unat n < unat m" "0 < unat n"
  defines "h \<equiv> heap u"
  defines "t \<equiv> hplus p (m - n)"
  defines "u' \<equiv> u\<lparr>heap := (h(p := (h p)\<lparr>hsize := m - n\<rparr>))(t := (h t)\<lparr>hsize := n\<rparr>), freep := node b xs\<rparr>"
  shows "free_list b hi (xs @ (p, m - n) # ys) u'" "hsize (heap u' t) = n" "unat t = unat p + 16 * (unat m - unat n)" "unat (m - n) = unat m - unat n"
proof -
  note I = free_listD [OF F, folded h_def]
  show mn: "unat (m - n) = unat m - unat n" using n by (simp add: unat_sub word_le_nat_alt)
  obtain M where A: "apart (unat b) xs M" "M < unat p" "0 < unat m" "apart (unat p + 16 * unat m) ys hi" "M = (if xs = [] then unat b else unat (fst (last xs)) + 16 * unat (snd (last xs)))"
    using I(3) by (auto simp: apart_append)
  have le: "unat p + 16 * unat m \<le> hi" by (rule apart_le [OF A(4)])
  have "unat p + 16 * unat (m - n) < 2 ^ 64" using le I(6) mn by simp
  then show t: "unat t = unat p + 16 * (unat m - unat n)" by (simp add: t_def unat_hplus mn)
  have tp: "unat p < unat t" "unat t < unat p + 16 * unat m" using t n by auto
  have bt: "unat b < unat t" using tp A(2) apart_le [OF A(1)] by simp
  have "t \<notin> fst ` set xs" using apart_fst [OF A(1), of t] tp A(2) by linarith
  moreover have "t \<notin> fst ` set ys" using apart_fst [OF A(4), of t] tp by linarith
  moreover have "t \<noteq> b" "t \<noteq> p" using bt tp by auto
  ultimately have out: "t \<notin> fst ` set xs \<union> fst ` set ys" "t \<noteq> b" "t \<noteq> p" by simp_all
  have pp: "p \<notin> insert b (fst ` set xs \<union> fst ` set ys)" using I(7,8) by (simp add: image_Un) metis
  have c: "chain h p b xs" "hptr (h (node b xs)) = p" "chain h b p ys" using I(1) by (auto simp: chain_append)
  have kb: "heap u' a = h a" if "a \<in> insert b (fst ` set xs \<union> fst ` set ys)" for a using that out pp by (auto simp: u'_def)
  have p': "heap u' p = (h p)\<lparr>hsize := m - n\<rparr>" using out by (simp add: u'_def)
  have "chain (heap u') p b xs" using c(1) chain_cong [of b xs "heap u'" h p] kb by blast
  moreover have "hptr (heap u' (node b xs)) = p" using kb [of "node b xs"] c(2) by (auto simp: node_def split: if_splits)
  moreover have "chain (heap u') b p ys" by (rule chain_tail [OF c(3)]) (simp add: p', rule kb, simp)
  ultimately have "chain (heap u') b b (xs @ (p, m - n) # ys)" using p' by (auto simp: chain_append)
  moreover have "apart (unat b) (xs @ (p, m - n) # ys) hi" using A n mn apart_mono [OF A(4), of "unat p + 16 * (unat m - unat n)"] by (simp add: apart_append [of "unat b" xs])
  moreover have "hsize (heap u' b) = 0" using kb I(2) by simp
  moreover have "freep u' \<in> insert b (fst ` set (xs @ (p, m - n) # ys))" by (auto simp: u'_def node_def)
  ultimately show "free_list b hi (xs @ (p, m - n) # ys) u'" using I(5,6) by (simp add: free_list_def)
  show "hsize (heap u' t) = n" by (simp add: u'_def)
qed

lemma malloc_take_spec:
  assumes F: "free_list b hi bs u" and bs: "bs = xs @ (p, m) # ys" and n: "unat n \<le> unat m" "0 < unat n"
  shows "\<exists>bp u' bs'. malloc_take n (node b xs) p u = (bp + HEADER_size, u') \<and> free_list b hi bs' u' \<and> env u' = env u \<and> hsize (heap u' bp) = n \<and>
    span bp n \<subseteq> bytes bs \<and> bytes bs' = bytes bs - span bp n \<and> (\<forall>a. a \<noteq> b \<and> unat a \<notin> bytes bs \<longrightarrow> heap u' a = heap u a)"
proof -
  note I = free_listD [OF F]
  have c: "hsize (heap u p) = m" using I(1) bs by (auto simp: chain_append)
  have pb: "unat p \<in> bytes bs" using apart_node [OF I(3), of p m] bs by simp
  have nb: "node b xs = b \<or> unat (node b xs) \<in> bytes bs" using node_cases [of b xs] apart_node [OF I(3)] bs by auto
  obtain M where A: "apart (unat b) xs M" "M < unat p" "apart (unat p + 16 * unat m) ys hi" using I(3) by (auto simp: bs apart_append)
  have dis: "span p m \<inter> bytes (xs @ ys) = {}" using apart_bytes [OF A(1)] apart_bytes [OF A(3)] A(2) by (force simp: span_def)
  show ?thesis
  proof (cases "m = n")
    case True
    define u' where "u' = u\<lparr>heap := (heap u)(node b xs := (heap u (node b xs))\<lparr>hptr := hptr (heap u p)\<rparr>), freep := node b xs\<rparr>"
    note W = take_whole [OF F [unfolded bs], folded u'_def]
    have "malloc_take n (node b xs) p u = (p + HEADER_size, u')" using c True by (simp add: malloc_take_def Let_def u'_def)
    moreover have "heap u' a = heap u a" if "a \<noteq> b \<and> unat a \<notin> bytes bs" for a
    proof -
      have "a \<noteq> node b xs" using that nb by metis
      then show ?thesis by (simp add: u'_def)
    qed
    moreover have "env u' = env u" by (simp add: u'_def)
    moreover have "bytes (xs @ ys) = bytes bs - span p n" "span p n \<subseteq> bytes bs" using dis by (auto simp: bs True)
    ultimately show ?thesis using W True by (intro exI [of _ p] exI [of _ u'] exI [of _ "xs @ ys"] conjI) simp_all
  next
    case False
    then have lt: "unat n < unat m" using n by (metis le_neq_implies_less word_unat_eq_iff)
    define t where "t = hplus p (m - n)"
    define u' where "u' = u\<lparr>heap := ((heap u)(p := (heap u p)\<lparr>hsize := m - n\<rparr>))(t := (heap u t)\<lparr>hsize := n\<rparr>), freep := node b xs\<rparr>"
    note W = take_tail [OF F [unfolded bs] lt n(2), folded t_def, folded u'_def]
    have sp: "span t n \<subseteq> span p m" "span p (m - n) = span p m - span t n" using W(3,4) lt by (auto simp: span_def)
    have tp: "t \<noteq> p" using W(3) lt by auto
    have tb: "unat t \<in> bytes bs" using sp(1) n(2) by (auto simp: bs span_def)
    have "malloc_take n (node b xs) p u = (t + HEADER_size, u')" using c False tp by (simp add: malloc_take_def Let_def u'_def t_def)
    moreover have "heap u' a = heap u a" if "a \<noteq> b \<and> unat a \<notin> bytes bs" for a
    proof -
      have "a \<noteq> t" "a \<noteq> p" using that tb pb by metis+
      then show ?thesis by (simp add: u'_def)
    qed
    moreover have "env u' = env u" by (simp add: u'_def)
    moreover have "bytes (xs @ (p, m - n) # ys) = bytes bs - span t n" "span t n \<subseteq> bytes bs" using dis sp by (auto simp: bs)
    ultimately show ?thesis using W(1,2) by (intro exI [of _ t] exI [of _ u'] exI [of _ "xs @ (p, m - n) # ys"] conjI) simp_all
  qed
qed

section \<open>The search for a block\<close>

lemma malloc_loop_forward:
  assumes "chain (heap u) b b (xs @ ys @ zs)" and "\<forall>(a, m) \<in> set ys. m < n \<and> a \<noteq> freep u"
  shows "malloc_loop sbrk n (node b xs) (hptr (heap u (node b xs))) u = malloc_loop sbrk n (node b (xs @ ys)) (hptr (heap u (node b (xs @ ys)))) u"
  using assms
proof (induction ys arbitrary: xs)
  case (Cons y ys)
  obtain a m where y: "y = (a, m)" by (cases y)
  have c: "hptr (heap u (node b xs)) = a" "hsize (heap u a) = m" using chain_split(1,2) [of "heap u" b b xs a m "ys @ zs"] Cons.prems(1) by (simp_all add: y)
  have "malloc_loop sbrk n (node b xs) a u = malloc_loop sbrk n a (hptr (heap u a)) u"
    using Cons.prems(2) c(2) by (subst malloc_loop.simps) (simp add: y flip: not_le)
  moreover have "malloc_loop sbrk n (node b (xs @ [y])) (hptr (heap u (node b (xs @ [y])))) u =
      malloc_loop sbrk n (node b ((xs @ [y]) @ ys)) (hptr (heap u (node b ((xs @ [y]) @ ys)))) u"
    by (rule Cons.IH) (use Cons.prems in simp_all)
  ultimately show ?case by (simp add: y c(1))
qed simp

lemma malloc_loop_take:
  assumes "chain (heap u) b b (xs @ ys @ (p, m) # zs)" and "\<forall>(a, m) \<in> set ys. m < n \<and> a \<noteq> freep u" and "n \<le> m"
  shows "malloc_loop sbrk n (node b xs) (hptr (heap u (node b xs))) u = Some (malloc_take n (node b (xs @ ys)) p u)"
proof -
  have c: "hptr (heap u (node b (xs @ ys))) = p" "hsize (heap u p) = m" using chain_split(1,2) [of "heap u" b b "xs @ ys" p m zs] assms(1) by simp_all
  then show ?thesis using malloc_loop_forward [OF assms(1,2)] assms(3) by (simp add: malloc_loop.simps [of _ _ _ p])
qed

lemma malloc_loop_wrap:
  assumes "chain (heap u) b b bs" and "hsize (heap u b) = 0" and "0 < n" and "freep u \<noteq> b"
  shows "malloc_loop sbrk n (node b bs) (hptr (heap u (node b bs))) u = malloc_loop sbrk n b (hptr (heap u b)) u"
proof -
  have "hptr (heap u (node b bs)) = b" using chain_append [of "heap u" b b bs "[]"] assms(1) by simp
  moreover have "\<not> n \<le> 0" using assms(3) by simp
  ultimately show ?thesis using assms(2-4) by (simp add: malloc_loop.simps [of _ _ _ b])
qed

lemma first_fit:
  assumes "\<exists>(a, m) \<in> set bs. n \<le> m"
  shows "\<exists>xs p m ys. bs = xs @ (p, m) # ys \<and> n \<le> m \<and> (\<forall>(a, m) \<in> set xs. m < (n :: uint32))"
  using assms
proof (induction bs)
  case (Cons x bs)
  obtain a m where x: "x = (a, m)" by (cases x)
  show ?case
  proof (cases "n \<le> m")
    case True
    then show ?thesis by (intro exI [of _ "[]"]) (simp add: x)
  next
    case False
    then obtain xs p k ys where "bs = xs @ (p, k) # ys" "n \<le> k" "\<forall>(a, m) \<in> set xs. m < n" using Cons by (auto simp: x)
    then show ?thesis using False by (intro exI [of _ "x # xs"] exI [of _ p] exI [of _ k] exI [of _ ys]) (simp add: x not_le)
  qed
qed simp

lemma small_blocks: "\<not> fits n bs \<Longrightarrow> (\<And>a m. (a, m) \<in> set bs \<Longrightarrow> a \<noteq> f) \<Longrightarrow> \<forall>(a, m) \<in> set bs. m < n \<and> a \<noteq> f"
  by (fastforce simp: fits_def not_le)

text \<open>The part of the circle from the static header to the block where the search began.\<close>

lemma malloc_loop_from_base:
  assumes F: "free_list b hi (pre @ suf) u" and n: "0 < n" and f: "freep u = node b pre" "pre \<noteq> []"
  shows "if fits n pre
    then \<exists>xs p m ys. pre = xs @ (p, m) # ys \<and> n \<le> m \<and> malloc_loop sbrk n b (hptr (heap u b)) u = Some (malloc_take n (node b xs) p u)
    else malloc_loop sbrk n b (hptr (heap u b)) u =
      Option.bind (morecore sbrk n u) (\<lambda>(p, u). if p = 0 then Some (0, u) else malloc_loop sbrk n p (hptr (heap u p)) u)"
proof -
  note I = free_listD [OF F]
  obtain zs a m where pre: "pre = zs @ [(a, m)]" using f(2) by (metis rev_exhaust surj_pair)
  have fp: "freep u = a" by (simp add: f pre)
  have "a \<notin> fst ` set zs" using I(8) by (simp add: pre)
  then have nz: "c \<noteq> freep u" if "(c, k) \<in> set zs" for c k using that fp by force
  show ?thesis
  proof (cases "fits n pre")
    case True
    obtain y1 p k y2 where y: "pre = y1 @ (p, k) # y2" "n \<le> k" "\<forall>(a, m) \<in> set y1. m < n" using first_fit True unfolding fits_def by blast
    have "set y1 \<subseteq> set zs" using y(1) pre by (cases y2 rule: rev_cases) auto
    then have sm: "\<forall>(a, m) \<in> set y1. m < n \<and> a \<noteq> freep u" using nz y(3) by blast
    have "chain (heap u) b b ([] @ y1 @ (p, k) # y2 @ suf)" using I(1) by (simp add: y(1))
    then have "malloc_loop sbrk n (node b []) (hptr (heap u (node b []))) u = Some (malloc_take n (node b ([] @ y1)) p u)"
      by (rule malloc_loop_take [OF _ sm y(2)])
    then show ?thesis using True y(1,2)
      by (simp only: if_True simp_thms) (intro exI [of _ y1] exI [of _ p] exI [of _ k] exI [of _ y2], simp)
  next
    case False
    then have "\<not> fits n zs" "\<not> n \<le> m" by (auto simp: fits_def pre)
    note sm = small_blocks [OF this(1) nz]
    have "malloc_loop sbrk n (node b []) (hptr (heap u (node b []))) u = malloc_loop sbrk n (node b ([] @ zs)) (hptr (heap u (node b ([] @ zs)))) u"
      by (rule malloc_loop_forward [OF _ sm, where zs = "(a, m) # suf"]) (use I(1) in \<open>simp add: pre\<close>)
    moreover have "hptr (heap u (node b zs)) = a" "hsize (heap u a) = m" using chain_split(1,2) [of "heap u" b b zs a m suf] I(1) by (simp_all add: pre)
    ultimately show ?thesis using False fp \<open>\<not> n \<le> m\<close> by (simp add: malloc_loop.simps [of _ _ _ a])
  qed
qed

lemma malloc_loop_round:
  assumes F: "free_list b hi bs u" and n: "0 < n"
  shows "if fits n bs
    then \<exists>xs p m ys. bs = xs @ (p, m) # ys \<and> n \<le> m \<and> malloc_loop sbrk n (freep u) (hptr (heap u (freep u))) u = Some (malloc_take n (node b xs) p u)
    else malloc_loop sbrk n (freep u) (hptr (heap u (freep u))) u =
      Option.bind (morecore sbrk n u) (\<lambda>(p, u). if p = 0 then Some (0, u) else malloc_loop sbrk n p (hptr (heap u p)) u)"
proof -
  note I = free_listD [OF F]
  obtain pre suf where bs: "bs = pre @ suf" "freep u = node b pre" using node_mem [OF I(4)] by blast
  have dj: "fst ` set pre \<inter> fst ` set suf = {}" "b \<notin> fst ` set pre" "b \<notin> fst ` set suf" using I(7,8) by (simp_all add: bs image_Un)
  have q: "node b pre \<in> insert b (fst ` set pre)" by (auto simp: node_def)
  have "freep u \<notin> fst ` set suf" using q dj(1,3) unfolding bs(2) by (metis disjoint_iff insertE)
  then have nf: "a \<noteq> freep u" if "(a, m) \<in> set suf" for a m using that by force
  have fits: "fits n bs \<longleftrightarrow> fits n pre \<or> fits n suf" by (auto simp: fits_def bs)
  show ?thesis
  proof (cases "fits n suf")
    case True
    obtain ys p m zs where f: "suf = ys @ (p, m) # zs" "n \<le> m" "\<forall>(a, m) \<in> set ys. m < n" using first_fit True unfolding fits_def by blast
    have sm: "\<forall>(a, m) \<in> set ys. m < n \<and> a \<noteq> freep u" using f(1,3) nf by auto
    have "chain (heap u) b b (pre @ ys @ (p, m) # zs)" using I(1) by (simp add: bs(1) f(1))
    then have "malloc_loop sbrk n (node b pre) (hptr (heap u (node b pre))) u = Some (malloc_take n (node b (pre @ ys)) p u)"
      by (rule malloc_loop_take [OF _ sm f(2)])
    moreover have "bs = (pre @ ys) @ (p, m) # zs" by (simp add: bs(1) f(1))
    ultimately show ?thesis using True fits f(2) bs(2)
      by (simp only: if_True simp_thms) (intro exI [of _ "pre @ ys"] exI [of _ p] exI [of _ m] exI [of _ zs], simp)
  next
    case False
    have fw: "malloc_loop sbrk n (freep u) (hptr (heap u (freep u))) u = malloc_loop sbrk n (node b bs) (hptr (heap u (node b bs))) u"
      using malloc_loop_forward [OF _ small_blocks [OF False nf], where xs = pre and zs = "[]" and sbrk = sbrk and b = b] I(1) by (simp add: bs)
    show ?thesis
    proof (cases "pre = []")
      case True
      have "hptr (heap u (node b bs)) = b" using chain_append [of "heap u" b b bs "[]"] I(1) by simp
      moreover have "\<not> fits n bs" using False True fits by (simp add: fits_def)
      moreover have "\<not> n \<le> 0" "freep u = b" using n bs(2) True by simp_all
      ultimately show ?thesis using fw I(2) by (simp add: malloc_loop.simps [of _ _ _ b])
    next
      case ne: False
      then have "freep u \<noteq> b" using dj(2) q unfolding bs(2) by (auto simp: node_def)
      note wr = malloc_loop_wrap [OF I(1,2) n this, of sbrk]
      note R = malloc_loop_from_base [OF F [unfolded bs(1)] n bs(2) ne, of sbrk]
      show ?thesis
      proof (cases "fits n pre")
        case True
        then obtain xs p m ys where "pre = xs @ (p, m) # ys" "n \<le> m" "malloc_loop sbrk n b (hptr (heap u b)) u = Some (malloc_take n (node b xs) p u)"
          using R by auto
        moreover from this(1) have "bs = xs @ (p, m) # ys @ suf" by (simp add: bs(1))
        ultimately show ?thesis using True fits fw wr
          by (simp only: if_True simp_thms) (intro exI [of _ xs] exI [of _ p] exI [of _ m] exI [of _ "ys @ suf"], simp)
      qed (use R fits False fw wr in simp)
    qed
  qed
qed

section \<open>More memory\<close>

text \<open>\<^verbatim>\<open>sbrk\<close> either returns -1 and does nothing, or moves the break up by what it was asked for and
  returns the old one. The break stays within \<open>2 ^ 36\<close> bytes, what a 32-bit count of header units
  can measure; it is below \<^verbatim>\<open>MAXVA\<close> (\<open>2 ^ 38\<close>) and far above the 128 megabytes of memory that the machine has.\<close>

definition sbrk_ok :: "('w \<Rightarrow> nat) \<Rightarrow> 'w sbrk_fun \<Rightarrow> bool" where
  "sbrk_ok brk sbrk \<longleftrightarrow> (\<forall>n w. 0 \<le> n \<longrightarrow> (case sbrk n w of (p, w') \<Rightarrow>
     p = -1 \<and> brk w' = brk w \<or> p = of_nat (brk w) \<and> brk w' = brk w + nat n \<and> brk w' \<le> 2 ^ 36))"

lemma sbrk_arg:
  assumes "unat nu < 2 ^ 27"
  shows "sint (ucast (ucast nu * HEADER_size :: uint64) :: uint32) = 16 * uint (nu :: uint32)"
proof -
  have u: "unat (ucast nu :: uint64) = unat nu" using assms by (simp add: unsigned_ucast_eq unsigned_take_bit_eq take_bit_nat_eq_self)
  have m: "unat (ucast nu * HEADER_size :: uint64) = 16 * unat nu" using assms by (simp add: HEADER_size_def unat_word_ariths u)
  have "unat (ucast (ucast nu * HEADER_size :: uint64) :: uint32) = 16 * unat nu"
    using assms m by (simp add: unsigned_ucast_eq unsigned_take_bit_eq take_bit_nat_eq_self)
  from arg_cong [OF this, of int] have e: "uint (ucast (ucast nu * HEADER_size :: uint64) :: uint32) = 16 * uint nu" by simp
  have "int (unat nu) < int (2 ^ 27)" using assms by (simp only: of_nat_less_iff)
  then have "uint nu < 2 ^ 27" by simp
  then show ?thesis unfolding e [symmetric] by (intro sint_uint_small) (simp add: e)
qed

lemma morecore_spec:
  assumes F: "free_list b (brk (env u)) bs u" and b: "unat b < brk (env u)" and n: "0 < unat n" "unat n < 2 ^ 27" and S: "sbrk_ok brk sbrk"
  shows "\<exists>p u'. morecore sbrk n u = Some (p, u') \<and>
    (p = 0 \<and> heap u' = heap u \<and> freep u' = freep u \<and> brk (env u') = brk (env u) \<and> fst (sbrk (16 * max 4096 (uint n)) (env u)) = -1 \<or>
     p = freep u' \<and> (\<exists>bs'. free_list b (brk (env u')) bs' u' \<and> brk (env u) \<le> brk (env u') \<and> fits n bs' \<and>
       bytes bs' = bytes bs \<union> {brk (env u)..<brk (env u')} \<and>
       (\<forall>a. a \<noteq> b \<and> unat a \<notin> bytes bs' \<longrightarrow> heap u' a = heap u a)))"
proof -
  note I = free_listD [OF F]
  define nu :: uint32 where "nu = (if n < 4096 then 4096 else n)"
  have nu: "unat nu = max 4096 (unat n)" by (auto simp: nu_def word_less_nat_alt)
  have lt: "unat nu < 2 ^ 27" using n nu by simp
  obtain p w where pw: "sbrk (16 * uint nu) (env u) = (p, w)" by (cases "sbrk (16 * uint nu) (env u)")
  have m: "morecore sbrk n u = (if p = -1 then Some (0, u\<lparr>env := w\<rparr>)
      else Option.bind (free (p + HEADER_size) (u\<lparr>env := w, heap := (heap u)(p := (heap u p)\<lparr>hsize := nu\<rparr>)\<rparr>)) (\<lambda>u. Some (freep u, u)))"
    by (simp add: morecore_def sbrk_arg [OF lt] pw flip: nu_def)
  have s: "p = -1 \<and> brk w = brk (env u) \<or> p = of_nat (brk (env u)) \<and> brk w = brk (env u) + 16 * unat nu \<and> brk w \<le> 2 ^ 36"
    using S [unfolded sbrk_ok_def, rule_format, of "16 * uint nu" "env u"] pw by (simp add: nat_mult_distrib)
  have mx: "16 * max 4096 (uint n) = 16 * uint nu" using arg_cong [OF nu, of int] by (simp add: of_nat_max)
  show ?thesis
  proof (cases "p = -1")
    case True
    have "unat (of_nat (brk (env u)) :: uint64) = brk (env u)" using I(6) by (simp add: unat_of_nat)
    moreover have "unat (-1 :: uint64) \<noteq> brk (env u)" using I(6) by (simp add: unat_minus_1)
    ultimately have "p \<noteq> of_nat (brk (env u))" unfolding True by metis
    then have "brk w = brk (env u)" using s by blast
    then show ?thesis using True m pw unfolding mx by simp
  next
    case False
    then have g: "p = of_nat (brk (env u))" "brk w = brk (env u) + 16 * unat nu" "brk w \<le> 2 ^ 36" using s by auto
    have up: "unat p = brk (env u)" using g by (simp add: unat_of_nat)
    define u1 where "u1 = u\<lparr>env := w, heap := (heap u)(p := (heap u p)\<lparr>hsize := nu\<rparr>)\<rparr>"
    have pn: "p \<noteq> b" "p \<notin> fst ` set bs" using up b apart_fst [OF I(3), of p] by auto
    have "heap u1 a = heap u a" if "a = b \<or> a \<in> fst ` set bs" for a
    proof -
      have "a \<noteq> p" using that pn by metis
      then show ?thesis by (simp add: u1_def)
    qed
    then have c1: "chain (heap u1) b b bs" using chain_cong [of b bs "heap u1" "heap u" b] I(1) by blast
    have F1: "free_list b (brk w) bs u1"
      using c1 I pn g apart_hi [OF I(3), of "brk w"] by (simp add: free_list_def u1_def)
    have dis: "span p nu \<inter> bytes bs = {}" using apart_bytes [OF I(3)] up by (fastforce simp: span_def)
    have F2: "hsize (heap u1 p) = nu" "0 < unat nu" "unat b < unat p" "unat p + 16 * unat nu \<le> brk w" using up b g nu n by (simp_all add: u1_def)
    obtain u' bs' where r: "free (p + HEADER_size) u1 = Some u'" "free_list b (brk w) bs' u'" "bytes bs' = bytes bs \<union> span p nu" "env u' = env u1"
        "fits nu bs'" "\<forall>a. a \<noteq> b \<and> a \<noteq> p \<and> unat a \<notin> bytes bs \<longrightarrow> heap u' a = heap u1 a"
      using free_spec [OF F1 F2 dis] by (elim exE conjE) (rule that)
    have e: "env u' = w" using r(4) by (simp add: u1_def)
    have "fits n bs'" using r(5) nu by (fastforce simp: fits_def word_le_nat_alt)
    moreover have "bytes bs' = bytes bs \<union> {brk (env u)..<brk w}" using r(3) up g(2) by (simp add: span_def)
    moreover have "heap u' a = heap u a" if "a \<noteq> b \<and> unat a \<notin> bytes bs'" for a
    proof -
      have "unat p \<in> span p nu" using F2(2) by (simp add: span_def)
      then have "a \<noteq> p" "unat a \<notin> bytes bs" using that r(3) by auto
      then show ?thesis using that r(6) by (simp add: u1_def)
    qed
    moreover have "morecore sbrk n u = Some (freep u', u')" using m False r(1) by (simp flip: u1_def)
    ultimately show ?thesis using r(2) e g(2) by (intro exI [of _ "freep u'"] exI [of _ u'] conjI disjI2 exI [of _ bs']) simp_all
  qed
qed

section \<open>Allocation\<close>

definition heap_ok :: "uint64 \<Rightarrow> ('w \<Rightarrow> nat) \<Rightarrow> block list \<Rightarrow> 'w ualloc \<Rightarrow> bool" where
  "heap_ok b brk bs u \<longleftrightarrow> b \<noteq> 0 \<and> unat b < brk (env u) \<and> brk (env u) \<le> 2 ^ 36 \<and>
     (if freep u = 0 then bs = [] else free_list b (brk (env u)) bs u)"

definition new_memory :: "('w \<Rightarrow> nat) \<Rightarrow> 'w ualloc \<Rightarrow> 'w ualloc \<Rightarrow> nat set" where
  "new_memory brk u u' = {brk (env u)..<brk (env u')}"

definition got_block :: "uint32 \<Rightarrow> nat set \<Rightarrow> block list \<Rightarrow> uint64 \<Rightarrow> 'w ualloc \<Rightarrow> bool" where
  "got_block n M bs' r u' \<longleftrightarrow> (\<exists>bp. r = bp + HEADER_size \<and> hsize (heap u' bp) = n \<and> span bp n \<subseteq> M \<and> bytes bs' = M - span bp n)"

lemma malloc_loop_fits:
  assumes F: "free_list b hi bs u" and n: "0 < unat n" and f: "fits n bs"
  shows "\<exists>r u' bs'. malloc_loop sbrk n (freep u) (hptr (heap u (freep u))) u = Some (r, u') \<and> free_list b hi bs' u' \<and> env u' = env u \<and>
    got_block n (bytes bs) bs' r u' \<and> (\<forall>a. a \<noteq> b \<and> unat a \<notin> bytes bs \<longrightarrow> heap u' a = heap u a)"
proof -
  have n0: "0 < n" using n by (simp add: word_less_nat_alt)
  obtain xs p m ys where bs: "bs = xs @ (p, m) # ys" "n \<le> m"
    and e: "malloc_loop sbrk n (freep u) (hptr (heap u (freep u))) u = Some (malloc_take n (node b xs) p u)"
    using malloc_loop_round [OF F n0, of sbrk] f by auto
  have "unat n \<le> unat m" using bs(2) by (simp add: word_le_nat_alt)
  from malloc_take_spec [OF F bs(1) this n] e show ?thesis unfolding got_block_def by (elim exE conjE) (intro exI conjI, simp_all)
qed

lemma malloc_loop_spec:
  assumes F: "free_list b (brk (env u)) bs u" and b: "unat b < brk (env u)" and n: "0 < unat n" "unat n < 2 ^ 27" and S: "sbrk_ok brk sbrk"
  shows "\<exists>r u' bs'. malloc_loop sbrk n (freep u) (hptr (heap u (freep u))) u = Some (r, u') \<and> free_list b (brk (env u')) bs' u' \<and> brk (env u) \<le> brk (env u') \<and>
    (r = 0 \<and> \<not> fits n bs \<and> fst (sbrk (16 * max 4096 (uint n)) (env u)) = -1 \<and> bs' = bs \<and> heap u' = heap u \<and> brk (env u') = brk (env u) \<or>
     got_block n (bytes bs \<union> new_memory brk u u') bs' r u') \<and>
    (\<forall>a. a \<noteq> b \<and> unat a \<notin> bytes bs \<union> new_memory brk u u' \<longrightarrow> heap u' a = heap u a)"
proof (cases "fits n bs")
  case True
  obtain r u' bs' where l: "malloc_loop sbrk n (freep u) (hptr (heap u (freep u))) u = Some (r, u')" "free_list b (brk (env u)) bs' u'" "env u' = env u"
      "got_block n (bytes bs) bs' r u'" "\<forall>a. a \<noteq> b \<and> unat a \<notin> bytes bs \<longrightarrow> heap u' a = heap u a"
    using malloc_loop_fits [OF F n(1) True, of sbrk] by (elim exE conjE) (rule that)
  then show ?thesis by (intro exI [of _ r] exI [of _ u'] exI [of _ bs']) (simp add: new_memory_def)
next
  case False
  have n0: "0 < n" using n by (simp add: word_less_nat_alt)
  note e = malloc_loop_round [OF F n0, of sbrk, unfolded if_not_P [OF False]]
  note free_listD [OF F]
  obtain p u1 where m: "morecore sbrk n u = Some (p, u1)" and
    c: "p = 0 \<and> heap u1 = heap u \<and> freep u1 = freep u \<and> brk (env u1) = brk (env u) \<and> fst (sbrk (16 * max 4096 (uint n)) (env u)) = -1 \<or>
     p = freep u1 \<and> (\<exists>bs'. free_list b (brk (env u1)) bs' u1 \<and> brk (env u) \<le> brk (env u1) \<and> fits n bs' \<and>
       bytes bs' = bytes bs \<union> {brk (env u)..<brk (env u1)} \<and>
       (\<forall>a. a \<noteq> b \<and> unat a \<notin> bytes bs' \<longrightarrow> heap u1 a = heap u a))"
    using morecore_spec [OF F b n S] by (elim exE conjE) (rule that)
  from c show ?thesis
  proof (elim disjE conjE exE)
    assume "p = 0" "heap u1 = heap u" "freep u1 = freep u" "brk (env u1) = brk (env u)" "fst (sbrk (16 * max 4096 (uint n)) (env u)) = -1"
    then show ?thesis using F m e False by (intro exI [of _ 0] exI [of _ u1] exI [of _ bs]) (simp add: free_list_def)
  next
    fix bs1 assume p: "p = freep u1" and F1: "free_list b (brk (env u1)) bs1 u1" and le: "brk (env u) \<le> brk (env u1)" and f: "fits n bs1"
      and by1: "bytes bs1 = bytes bs \<union> {brk (env u)..<brk (env u1)}" and fr: "\<forall>a. a \<noteq> b \<and> unat a \<notin> bytes bs1 \<longrightarrow> heap u1 a = heap u a"
    obtain r u' bs' where l: "malloc_loop sbrk n (freep u1) (hptr (heap u1 (freep u1))) u1 = Some (r, u')" "free_list b (brk (env u1)) bs' u'" "env u' = env u1"
        "got_block n (bytes bs1) bs' r u'" "\<forall>a. a \<noteq> b \<and> unat a \<notin> bytes bs1 \<longrightarrow> heap u' a = heap u1 a"
      using malloc_loop_fits [OF F1 n(1) f, of sbrk] by (elim exE conjE) (rule that)
    have "malloc_loop sbrk n (freep u) (hptr (heap u (freep u))) u = Some (r, u')" using e m l(1) free_listD(9) [OF F1] p by simp
    moreover have "bytes bs1 = bytes bs \<union> new_memory brk u u'" by (simp add: by1 new_memory_def l(3))
    ultimately show ?thesis using l le fr by (intro exI [of _ r] exI [of _ u'] exI [of _ bs']) simp
  qed
qed

lemma unat_malloc_units:
  assumes "unat nbytes \<le> 2 ^ 31 - 32"
  shows "unat (malloc_units nbytes) = (unat nbytes + 15) div 16 + 1"
proof -
  have u: "unat (ucast nbytes :: uint64) = unat nbytes" using assms by (simp add: unsigned_ucast_eq unsigned_take_bit_eq take_bit_nat_eq_self)
  have "unat (ucast nbytes + HEADER_size - 1 :: uint64) = unat nbytes + 15" using assms by (simp add: HEADER_size_def unat_word_ariths u)
  then have "unat ((ucast nbytes + HEADER_size - 1) div HEADER_size + 1 :: uint64) = (unat nbytes + 15) div 16 + 1"
    using assms by (simp add: unat_word_ariths HEADER_size_def)
  then show ?thesis using assms by (simp add: malloc_units_def unsigned_ucast_eq unsigned_take_bit_eq take_bit_nat_eq_self)
qed

text \<open>The first call makes the list of the static header alone.\<close>

definition malloc_start :: "uint64 \<Rightarrow> 'w ualloc \<Rightarrow> 'w ualloc" where
  "malloc_start b u = (if freep u = 0 then u\<lparr>heap := (heap u)(b := \<lparr>hptr = b, hsize = 0\<rparr>), freep := b\<rparr> else u)"

lemma malloc_start_ok:
  assumes "heap_ok b brk bs u"
  shows "free_list b (brk (env (malloc_start b u))) bs (malloc_start b u)" "env (malloc_start b u) = env u"
    "\<And>a. a \<noteq> b \<Longrightarrow> heap (malloc_start b u) a = heap u a"
  using assms by (auto simp: heap_ok_def malloc_start_def free_list_def)

text \<open>
  C7: \<^verbatim>\<open>malloc\<close> of up to \<open>2 ^ 31 - 32\<close> bytes returns, whatever the shape of the free list. It
  returns 0 only when no free block is large enough and \<^verbatim>\<open>sbrk\<close> refuses to give more memory, and then
  the free memory is as before. Otherwise it returns the address after a header that records a block
  which holds the bytes asked for, the block was free memory or memory just obtained from \<^verbatim>\<open>sbrk\<close>, and
  the free memory is now all of that memory but the block. Headers outside that memory, those of the
  blocks in use, are not changed, and the list is again in order.
\<close>
theorem malloc_allocates:
  assumes "heap_ok b brk bs u" and "sbrk_ok brk sbrk" and "unat nbytes \<le> 2 ^ 31 - 32"
  shows "\<exists>r u' bs'. malloc b sbrk nbytes u = Some (r, u') \<and> heap_ok b brk bs' u' \<and> brk (env u) \<le> brk (env u') \<and>
    (r = 0 \<and> \<not> fits (malloc_units nbytes) bs \<and> fst (sbrk (16 * max 4096 (uint (malloc_units nbytes))) (env u)) = -1 \<and>
       bytes bs' = bytes bs \<and> brk (env u') = brk (env u) \<or>
     unat nbytes + 16 \<le> 16 * unat (malloc_units nbytes) \<and>
       got_block (malloc_units nbytes) (bytes bs \<union> new_memory brk u u') bs' r u') \<and>
    (\<forall>a. a \<noteq> b \<and> unat a \<notin> bytes bs \<union> new_memory brk u u' \<longrightarrow> heap u' a = heap u a)"
proof -
  note S = malloc_start_ok [OF assms(1)]
  define n where "n = malloc_units nbytes"
  have n: "0 < unat n" "unat n < 2 ^ 27" "unat nbytes + 16 \<le> 16 * unat n" using unat_malloc_units [OF assms(3)] assms(3) by (simp_all add: n_def)
  have b: "unat b < brk (env (malloc_start b u))" "b \<noteq> 0" using assms(1) S(2) by (simp_all add: heap_ok_def)
  have m: "malloc b sbrk nbytes u = malloc_loop sbrk n (freep (malloc_start b u)) (hptr (heap (malloc_start b u) (freep (malloc_start b u)))) (malloc_start b u)"
    by (simp add: malloc_def n_def malloc_start_def)
  have nm: "new_memory brk (malloc_start b u) = new_memory brk u" by (simp add: fun_eq_iff new_memory_def S(2))
  obtain r u' bs' where l: "malloc b sbrk nbytes u = Some (r, u')" "free_list b (brk (env u')) bs' u'" "brk (env u) \<le> brk (env u')"
    "(r = 0 \<and> \<not> fits n bs \<and> fst (sbrk (16 * max 4096 (uint n)) (env u)) = -1 \<and> bs' = bs \<and> heap u' = heap (malloc_start b u) \<and> brk (env u') = brk (env u) \<or>
     got_block n (bytes bs \<union> new_memory brk u u') bs' r u')"
    "\<forall>a. a \<noteq> b \<and> unat a \<notin> bytes bs \<union> new_memory brk u u' \<longrightarrow> heap u' a = heap (malloc_start b u) a"
    using malloc_loop_spec [OF S(1) b(1) n(1,2) assms(2), unfolded S(2) nm, folded m] by (elim exE conjE) (rule that)
  have "heap_ok b brk bs' u'" using l(2,3) b free_listD(6,9) [OF l(2)] S(2) by (simp add: heap_ok_def)
  moreover have "\<forall>a. a \<noteq> b \<and> unat a \<notin> bytes bs \<union> new_memory brk u u' \<longrightarrow> heap u' a = heap u a" using l(5) S(3) by simp
  moreover have "r = 0 \<and> \<not> fits n bs \<and> fst (sbrk (16 * max 4096 (uint n)) (env u)) = -1 \<and> bytes bs' = bytes bs \<and> brk (env u') = brk (env u) \<or>
     unat nbytes + 16 \<le> 16 * unat n \<and> got_block n (bytes bs \<union> new_memory brk u u') bs' r u'" using l(4) n(3) by auto
  ultimately show ?thesis using l(1,3) unfolding n_def by (intro exI [of _ r] exI [of _ u'] exI [of _ bs'] conjI)
qed

definition demo_sbrk :: "nat sbrk_fun" where
  "demo_sbrk n w = (if w + nat n \<le> 2 ^ 20 then (of_nat w, w + nat n) else (-1, w))"

definition demo_ualloc :: "nat ualloc" where
  "demo_ualloc = \<lparr>heap = (\<lambda>_. \<lparr>hptr = 0, hsize = 0\<rparr>), freep = 0, env = 8192\<rparr>"

lemma demo_sbrk_ok: "sbrk_ok id demo_sbrk"
  by (auto simp: sbrk_ok_def demo_sbrk_def)

text \<open>A first \<^verbatim>\<open>malloc(100)\<close> grows the heap by 64 KiB and returns the end of it.\<close>

theorem malloc_allocates_witness:
  "heap_ok 4096 id [] demo_ualloc \<and> (\<exists>u' bs'. malloc 4096 demo_sbrk 100 demo_ualloc = Some (73616, u') \<and> heap_ok 4096 id bs' u')"
proof -
  have h: "heap_ok 4096 id [] demo_ualloc" by (simp add: heap_ok_def demo_ualloc_def)
  obtain r u' bs' where r: "malloc 4096 demo_sbrk 100 demo_ualloc = Some (r, u')" "heap_ok 4096 id bs' u'"
    using malloc_allocates [OF h demo_sbrk_ok, of 100, simplified] by (elim exE conjE) (rule that)
  have "map_option fst (malloc 4096 demo_sbrk 100 demo_ualloc) = Some 73616"
    by (simp add: malloc_def demo_ualloc_def malloc_units_def HEADER_size_def malloc_loop.simps morecore_def demo_sbrk_def free_def
        free_find.simps free_link_def hplus_def malloc_take_def)
  then show ?thesis using h r by auto
qed

text \<open>
  C10: \<^verbatim>\<open>free\<close> of a block that lies above the static header and within the heap and overlaps no free
  block returns: its walk round the list ends wherever it begins. The list is in order afterwards, the
  free memory is what it was together with the block, and only headers of the block and of free memory
  were written.
\<close>
theorem free_returns_block:
  assumes "heap_ok b brk bs u" and "freep u \<noteq> 0" and "0 < hsize (heap u bp)" and "b < bp" and "unat bp + 16 * unat (hsize (heap u bp)) \<le> brk (env u)"
    and "span bp (hsize (heap u bp)) \<inter> bytes bs = {}"
  shows "\<exists>u' bs'. free (bp + HEADER_size) u = Some u' \<and> heap_ok b brk bs' u' \<and> bytes bs' = bytes bs \<union> span bp (hsize (heap u bp)) \<and>
    (\<forall>a. a \<noteq> b \<and> a \<noteq> bp \<and> unat a \<notin> bytes bs \<longrightarrow> heap u' a = heap u a)"
proof -
  have F: "free_list b (brk (env u)) bs u" using assms(1,2) by (simp add: heap_ok_def)
  obtain u' bs' where r: "free (bp + HEADER_size) u = Some u'" "free_list b (brk (env u)) bs' u'" "bytes bs' = bytes bs \<union> span bp (hsize (heap u bp))"
      "env u' = env u" "\<forall>a. a \<noteq> b \<and> a \<noteq> bp \<and> unat a \<notin> bytes bs \<longrightarrow> heap u' a = heap u a"
    using free_spec [OF F refl, of bp, OF assms(3,4) [unfolded word_less_nat_alt unat_0] assms(5,6)] by (elim exE conjE) (rule that)
  have "heap_ok b brk bs' u'" using assms(1) r(2,4) free_listD(9) [OF r(2)] by (simp add: heap_ok_def)
  then show ?thesis using r(1,3,5) by blast
qed

definition demo_ualloc2 :: "nat ualloc" where
  "demo_ualloc2 = \<lparr>heap = (\<lambda>_. \<lparr>hptr = 0, hsize = 0\<rparr>)(4096 := \<lparr>hptr = 8192, hsize = 0\<rparr>, 8192 := \<lparr>hptr = 8256, hsize = 2\<rparr>,
     8224 := \<lparr>hptr = 0, hsize = 2\<rparr>, 8256 := \<lparr>hptr = 4096, hsize = 3\<rparr>), freep = 8256, env = 12288\<rparr>"

text \<open>The block between two free blocks: all three become one.\<close>

theorem free_returns_block_witness:
  "heap_ok 4096 id [(8192, 2), (8256, 3)] demo_ualloc2 \<and>
   (\<exists>u' bs'. free (8224 + HEADER_size) demo_ualloc2 = Some u' \<and> heap_ok 4096 id bs' u' \<and> hsize (heap u' 8192) = 7)"
proof -
  have h: "heap_ok 4096 id [(8192, 2), (8256, 3)] demo_ualloc2" by (simp add: heap_ok_def demo_ualloc2_def free_list_def)
  have s: "freep demo_ualloc2 \<noteq> 0" "0 < hsize (heap demo_ualloc2 8224)" "4096 < (8224 :: uint64)"
      "unat (8224 :: uint64) + 16 * unat (hsize (heap demo_ualloc2 8224)) \<le> id (env demo_ualloc2)"
    by (simp_all add: demo_ualloc2_def)
  have d: "span 8224 (hsize (heap demo_ualloc2 8224)) \<inter> bytes [(8192, 2), (8256, 3)] = {}"
    by (simp add: demo_ualloc2_def span_def) (simp add: disjoint_iff)
  obtain u' bs' where r: "free (8224 + HEADER_size) demo_ualloc2 = Some u'" "heap_ok 4096 id bs' u'"
    using free_returns_block [OF h s(1-4) d] by (elim exE conjE) (rule that)
  have "map_option (\<lambda>u. hsize (heap u 8192)) (free (8224 + HEADER_size) demo_ualloc2) = Some 7"
    by (simp add: demo_ualloc2_def free_def HEADER_size_def free_find.simps free_link_def hplus_def)
  then show ?thesis using h r by auto
qed

end
