(* ===== verification/Ulib.thy ===== *)
theory Ulib
  imports Kstring
begin

text \<open>
  The C library of user programs (\<^verbatim>\<open>user/ulib.c\<close>), over the memory of a process. Loops that run to a
  terminating zero byte may not end; the result is then \<open>None\<close>. The system calls that \<^verbatim>\<open>gets\<close> and
  \<^verbatim>\<open>stat\<close> make are stubs that the build generates: they are fields of the parameter \<open>S\<close>, functions of
  a state of the world \<open>'w\<close>.
\<close>

section \<open>System calls\<close>

record ustat =
  ust_dev :: uint32
  ust_ino :: uint32
  ust_type :: ushort
  ust_nlink :: ushort
  ust_size :: uint64

text \<open>
  \<open>sc_read\<close> gives the bytes it stores in the caller's buffer besides its result, \<open>sc_fstat\<close> the
  fields it fills in, and \<open>sc_pipe\<close> the two descriptors. \<open>sc_exec\<close> gives a result only when it returns
  to the caller.
\<close>

record 'w syscalls =
  sc_read :: "int \<Rightarrow> nat \<Rightarrow> 'w \<Rightarrow> int \<times> uchar list \<times> 'w"
  sc_write :: "int \<Rightarrow> uchar list \<Rightarrow> 'w \<Rightarrow> int \<times> 'w"
  sc_open :: "uchar list \<Rightarrow> uint32 \<Rightarrow> 'w \<Rightarrow> int \<times> 'w"
  sc_close :: "int \<Rightarrow> 'w \<Rightarrow> int \<times> 'w"
  sc_fstat :: "int \<Rightarrow> 'w \<Rightarrow> int \<times> ustat \<times> 'w"
  sc_dup :: "int \<Rightarrow> 'w \<Rightarrow> int \<times> 'w"
  sc_pipe :: "'w \<Rightarrow> int \<times> int \<times> int \<times> 'w"
  sc_fork :: "'w \<Rightarrow> int \<times> 'w"
  sc_wait :: "'w \<Rightarrow> int \<times> 'w"
  sc_exec :: "uchar list \<Rightarrow> uchar list list \<Rightarrow> 'w \<Rightarrow> int option \<times> 'w"
  sc_chdir :: "uchar list \<Rightarrow> 'w \<Rightarrow> int \<times> 'w"
  sc_link :: "uchar list \<Rightarrow> uchar list \<Rightarrow> 'w \<Rightarrow> int \<times> 'w"
  sc_unlink :: "uchar list \<Rightarrow> 'w \<Rightarrow> int \<times> 'w"
  sc_mkdir :: "uchar list \<Rightarrow> 'w \<Rightarrow> int \<times> 'w"
  sc_mknod :: "uchar list \<Rightarrow> ushort \<Rightarrow> ushort \<Rightarrow> 'w \<Rightarrow> int \<times> 'w"
  sc_kill :: "int \<Rightarrow> 'w \<Rightarrow> int \<times> 'w"
  sc_sleep :: "int \<Rightarrow> 'w \<Rightarrow> int \<times> 'w"

section \<open>Strings\<close>

partial_function (option) strcpy_loop :: "memory \<Rightarrow> uint64 \<Rightarrow> uint64 \<Rightarrow> memory option" where
  "strcpy_loop m s t =
     (let c = m t; m = m(s := c) in if c \<noteq> 0 then strcpy_loop m (s + 1) (t + 1) else Some m)"

definition strcpy :: "memory \<Rightarrow> uint64 \<Rightarrow> uint64 \<Rightarrow> (uint64 \<times> memory) option" where
  "strcpy m s t = map_option (\<lambda>m. (s, m)) (strcpy_loop m s t)"

partial_function (option) strcmp :: "memory \<Rightarrow> uint64 \<Rightarrow> uint64 \<Rightarrow> int option" where
  "strcmp m p q = (if m p \<noteq> 0 \<and> m p = m q then strcmp m (p + 1) (q + 1) else Some (uint (m p) - uint (m q)))"

partial_function (option) ustrlen_loop :: "memory \<Rightarrow> uint64 \<Rightarrow> uint32 \<Rightarrow> uint32 option" where
  "ustrlen_loop m s n = (if m (s + scast n) \<noteq> 0 then ustrlen_loop m s (n + 1) else Some n)"

definition ustrlen :: "memory \<Rightarrow> uint64 \<Rightarrow> uint32 option" where
  "ustrlen m s = ustrlen_loop m s 0"

partial_function (option) strchr :: "memory \<Rightarrow> uint64 \<Rightarrow> uchar \<Rightarrow> uint64 option" where
  "strchr m s c = (if m s = 0 then Some 0 else if m s = c then Some s else strchr m (s + 1) c)"

partial_function (option) atoi_loop :: "memory \<Rightarrow> uint64 \<Rightarrow> uint32 \<Rightarrow> uint32 option" where
  "atoi_loop m s n =
     (if 0x30 \<le> m s \<and> m s \<le> 0x39 then atoi_loop m (s + 1) (n * 10 + ucast (m s) - 0x30) else Some n)"

definition atoi :: "memory \<Rightarrow> uint64 \<Rightarrow> uint32 option" where
  "atoi m s = atoi_loop m s 0"

section \<open>Blocks of memory\<close>

definition umemset :: "memory \<Rightarrow> uint64 \<Rightarrow> uint32 \<Rightarrow> uint32 \<Rightarrow> memory" where
  "umemset m dst c n = memset_loop m dst (ucast c) 0 (unat n)"

definition umemmove :: "memory \<Rightarrow> uint64 \<Rightarrow> uint64 \<Rightarrow> uint32 \<Rightarrow> memory" where
  "umemmove m vdst vsrc n =
     (if vsrc > vdst then memmove_up m vdst vsrc (nat (sint n))
      else memmove_down m (vdst + scast n) (vsrc + scast n) (nat (sint n)))"

primrec umemcmp_loop :: "memory \<Rightarrow> uint64 \<Rightarrow> uint64 \<Rightarrow> nat \<Rightarrow> int" where
  "umemcmp_loop m p1 p2 0 = 0"
| "umemcmp_loop m p1 p2 (Suc n) = (if m p1 \<noteq> m p2 then uint (m p1) - uint (m p2) else umemcmp_loop m (p1 + 1) (p2 + 1) n)"

definition umemcmp :: "memory \<Rightarrow> uint64 \<Rightarrow> uint64 \<Rightarrow> uint32 \<Rightarrow> int" where
  "umemcmp m s1 s2 n = umemcmp_loop m s1 s2 (unat n)"

definition umemcpy :: "memory \<Rightarrow> uint64 \<Rightarrow> uint64 \<Rightarrow> uint32 \<Rightarrow> memory" where
  "umemcpy m dst src n = umemmove m dst src n"

text \<open>The process number in the page that the kernel shares with every process.\<close>

definition ugetpid :: "memory \<Rightarrow> uint32" where
  "ugetpid m = load32 m USYSCALL"

section \<open>Reading a line, and stat\<close>

function gets_loop :: "'w syscalls \<Rightarrow> memory \<Rightarrow> uint64 \<Rightarrow> int \<Rightarrow> int \<Rightarrow> 'w \<Rightarrow> int \<times> memory \<times> 'w" where
  "gets_loop S m buf i mx w =
     (if i + 1 < mx then
        let (cc, cs, w) = sc_read S 0 1 w in
        if cc < 1 then (i, m, w)
        else
          let c = hd cs;
              m = m(buf + word_of_int i := c) in
          if c = 0x0A \<or> c = 0x0D then (i + 1, m, w) else gets_loop S m buf (i + 1) mx w
      else (i, m, w))"
  by pat_completeness auto
termination
  by (relation "measure (\<lambda>(S, m, buf, i, mx, w). nat (mx - i))") auto

declare gets_loop.simps [simp del]

definition gets :: "'w syscalls \<Rightarrow> memory \<Rightarrow> uint64 \<Rightarrow> int \<Rightarrow> 'w \<Rightarrow> memory \<times> 'w" where
  "gets S m buf mx w = (let (i, m, w) = gets_loop S m buf 0 mx w in (m(buf + word_of_int i := 0), w))"

definition ustat_call :: "'w syscalls \<Rightarrow> uchar list \<Rightarrow> 'w \<Rightarrow> int \<times> ustat \<times> 'w" where
  "ustat_call S n w =
     (let (fd, w) = sc_open S n 0 w in
      if fd < 0 then (-1, \<lparr>ust_dev = 0, ust_ino = 0, ust_type = 0, ust_nlink = 0, ust_size = 0\<rparr>, w)
      else
        let (r, st, w) = sc_fstat S fd w;
            (_, w) = sc_close S fd w
        in (r, st, w))"

section \<open>What they compute on strings\<close>

text \<open>The bytes before the terminating zero at an address.\<close>

fun cstring :: "memory \<Rightarrow> uint64 \<Rightarrow> uchar list \<Rightarrow> bool" where
  "cstring m a [] \<longleftrightarrow> m a = 0"
| "cstring m a (c # cs) \<longleftrightarrow> m a = c \<and> c \<noteq> 0 \<and> cstring m (a + 1) cs"

lemma cstring_unique: "cstring m a cs \<Longrightarrow> cstring m a ds \<Longrightarrow> cs = ds"
proof (induction cs arbitrary: a ds)
  case Nil
  then show ?case by (cases ds) auto
next
  case (Cons c cs)
  then show ?case by (cases ds) auto
qed

lemma cstring_at: "cstring m a (bs @ cs) \<Longrightarrow> cstring m (a + word_of_nat (length bs)) cs"
proof (induction bs arbitrary: a)
  case (Cons b bs)
  then show ?case using Cons.IH [of "a + 1"] by (simp add: add.assoc)
qed simp

lemma cstring_cong: "cstring m a cs \<Longrightarrow> (\<And>i. i \<le> length cs \<Longrightarrow> m' (a + word_of_nat i) = m (a + word_of_nat i)) \<Longrightarrow> cstring m' a cs"
proof (induction cs arbitrary: a)
  case Nil
  then show ?case using Nil.prems(2) [of 0] by simp
next
  case (Cons c cs)
  have "cstring m' (a + 1) cs"
  proof (rule Cons.IH)
    show "cstring m (a + 1) cs" using Cons.prems(1) by simp
    fix i assume "i \<le> length cs"
    then show "m' (a + 1 + word_of_nat i) = m (a + 1 + word_of_nat i)" using Cons.prems(2) [of "Suc i"] by (simp add: add.assoc)
  qed
  then show ?case using Cons.prems(1) Cons.prems(2) [of 0] by simp
qed

lemma ustrlen_loop_eq:
  "cstring m s (bs @ cs) \<Longrightarrow> length (bs @ cs) < 2 ^ 31 \<Longrightarrow> ustrlen_loop m s (word_of_nat (length bs)) = Some (word_of_nat (length (bs @ cs)))"
proof (induction cs arbitrary: bs)
  case Nil
  have "scast (word_of_nat (length bs) :: uint32) = (word_of_nat (length bs) :: uint64)"
    using Nil.prems(2) by (simp add: scast_of_nat_small)
  then show ?case using cstring_at [OF Nil.prems(1)] by (subst ustrlen_loop.simps) simp
next
  case (Cons c cs)
  have e: "scast (word_of_nat (length bs) :: uint32) = (word_of_nat (length bs) :: uint64)"
    using Cons.prems(2) by (simp add: scast_of_nat_small)
  have "m (s + word_of_nat (length bs)) = c" "c \<noteq> 0" using cstring_at [OF Cons.prems(1)] by simp_all
  then have "ustrlen_loop m s (word_of_nat (length bs)) = ustrlen_loop m s (word_of_nat (length (bs @ [c])))"
    by (subst ustrlen_loop.simps) (simp add: e add.commute)
  also have "\<dots> = Some (word_of_nat (length ((bs @ [c]) @ cs)))" by (rule Cons.IH) (use Cons.prems in simp_all)
  finally show ?case by simp
qed

lemma uint_uchar_eq: "uint (x :: uchar) = uint y \<longleftrightarrow> x = y" "uint (x :: uchar) = 0 \<longleftrightarrow> x = 0"
  by (simp_all add: word_uint_eq_iff)

lemma strcmp_eq: "cstring m p cs \<Longrightarrow> cstring m q ds \<Longrightarrow> \<exists>r. strcmp m p q = Some r \<and> (r = 0 \<longleftrightarrow> cs = ds)"
proof (induction cs arbitrary: p q ds)
  case Nil
  then show ?case by (cases ds) (auto simp: strcmp.simps [of m p] uint_uchar_eq)
next
  case (Cons c cs)
  show ?case
  proof (cases ds)
    case Nil
    then show ?thesis using Cons.prems by (auto simp: strcmp.simps [of m p] uint_uchar_eq)
  next
    case ds: (Cons d ds')
    show ?thesis
    proof (cases "c = d")
      case True
      then show ?thesis using Cons.IH [of "p + 1" "q + 1" ds'] Cons.prems ds by (auto simp: strcmp.simps [of m p] uint_uchar_eq)
    next
      case False
      then show ?thesis using Cons.prems ds by (auto simp: strcmp.simps [of m p] uint_uchar_eq)
    qed
  qed
qed

lemma strchr_eq: "cstring m s cs \<Longrightarrow> \<exists>r. strchr m s c = Some r \<and> (c \<notin> set cs \<longrightarrow> r = 0) \<and>
   (\<forall>bs ds. cs = bs @ c # ds \<and> c \<notin> set bs \<longrightarrow> r = s + word_of_nat (length bs))"
proof (induction cs arbitrary: s)
  case Nil
  then show ?case by (auto simp: strchr.simps [of m s])
next
  case (Cons d cs)
  show ?case
  proof (cases "d = c")
    case True
    then show ?thesis using Cons.prems by (auto simp: strchr.simps [of m s] Cons_eq_append_conv)
  next
    case False
    obtain r where r: "strchr m (s + 1) c = Some r" "c \<notin> set cs \<longrightarrow> r = 0"
        "\<forall>bs ds. cs = bs @ c # ds \<and> c \<notin> set bs \<longrightarrow> r = s + 1 + word_of_nat (length bs)"
      using Cons.IH [of "s + 1"] Cons.prems by auto
    then show ?thesis using False Cons.prems by (auto simp: strchr.simps [of m s] Cons_eq_append_conv add.assoc)
  qed
qed

lemma ustrlen_eq: "cstring m s cs \<Longrightarrow> length cs < 2 ^ 31 \<Longrightarrow> ustrlen m s = Some (word_of_nat (length cs))"
  using ustrlen_loop_eq [of m s "[]" cs] by (simp add: ustrlen_def)

text \<open>The number that the digits at the beginning of a string denote, as a C \<^verbatim>\<open>int\<close>.\<close>

fun atoi_chars :: "uint32 \<Rightarrow> uchar list \<Rightarrow> uint32" where
  "atoi_chars n [] = n"
| "atoi_chars n (c # cs) = (if 0x30 \<le> c \<and> c \<le> 0x39 then atoi_chars (n * 10 + ucast c - 0x30) cs else n)"

lemma atoi_loop_eq: "cstring m s cs \<Longrightarrow> atoi_loop m s n = Some (atoi_chars n cs)"
proof (induction cs arbitrary: s n)
  case Nil
  then show ?case by (simp add: atoi_loop.simps [of m s])
next
  case (Cons c cs)
  then show ?case by (auto simp: atoi_loop.simps [of m s])
qed

lemma atoi_eq: "cstring m s cs \<Longrightarrow> atoi m s = Some (atoi_chars 0 cs)"
  by (simp add: atoi_def atoi_loop_eq)

text \<open>The \<^verbatim>\<open>memmove\<close> of user programs chooses its direction by another test than the kernel's, with the same result.\<close>

lemma umemmove_eq:
  assumes n: "unat n < 2 ^ 31" and s: "unat src + unat n < 2 ^ 64" and d: "unat dst + unat n < 2 ^ 64"
  shows "umemmove m dst src n = store_bytes m dst (load_bytes m src (unat n))"
proof -
  have u: "n = word_of_nat (unat n)" by simp
  have sn: "sint n = int (unat n)" by (subst u, rule sint_of_nat_small) (rule n)
  have wn: "(scast n :: uint64) = word_of_nat (unat n)" by (subst u, rule scast_of_nat_small) (rule n)
  define k where "k = unat n"
  have k: "k < 2 ^ 31" "unat src + k < 2 ^ 64" "unat dst + k < 2 ^ 64" using n s d by (simp_all add: k_def)
  show ?thesis
  proof (cases "src > dst")
    case True
    then have "k \<le> unat (dst - src)" using k unsigned_less [of src, where 'a = nat] by (simp add: unat_sub_if' word_less_nat_alt)
    then have "memmove_up m dst src k = store_bytes m dst (load_bytes m src k)" using k by (intro memmove_up_eq) simp_all
    then show ?thesis using True by (simp add: umemmove_def sn k_def)
  next
    case False
    have "k \<le> unat ((src + word_of_nat k) - (dst + word_of_nat k))" if "dst \<noteq> src"
    proof -
      have "src < dst" using False that by simp
      then show ?thesis using k by (simp add: unat_sub_if' word_less_nat_alt)
    qed
    then have "memmove_down m (dst + word_of_nat k) (src + word_of_nat k) k = store_bytes m dst (load_bytes m src k)"
      using k by (subst memmove_down_eq) auto
    then show ?thesis using False by (simp add: umemmove_def sn wn k_def)
  qed
qed

lemma strcpy_loop_eq:
  assumes "cstring m t cs" and "length cs < 2 ^ 64 - 1" and "\<And>i j. i \<le> length cs \<Longrightarrow> j \<le> length cs \<Longrightarrow> s + word_of_nat i \<noteq> t + word_of_nat j"
  shows "strcpy_loop m s t = Some (store_bytes m s (cs @ [0]))"
  using assms
proof (induction cs arbitrary: m s t)
  case Nil
  then show ?case by (simp add: strcpy_loop.simps [of m s] store_bytes_Cons fun_upd_def)
next
  case (Cons c cs)
  have t: "m t = c" "c \<noteq> 0" "cstring m (t + 1) cs" using Cons.prems(1) by simp_all
  have k: "cstring (m(s := c)) (t + 1) cs"
  proof (rule cstring_cong [OF t(3)])
    fix i assume "i \<le> length cs"
    then have "s \<noteq> t + word_of_nat (Suc i)" using Cons.prems(3) [of 0 "Suc i"] by simp
    then show "(m(s := c)) (t + 1 + word_of_nat i) = m (t + 1 + word_of_nat i)" by (simp add: add.assoc)
  qed
  have a: "s + 1 + word_of_nat i \<noteq> t + 1 + word_of_nat j" if "i \<le> length cs" "j \<le> length cs" for i j
    using Cons.prems(3) [of "Suc i" "Suc j"] that by (simp add: add.assoc)
  have "strcpy_loop (m(s := c)) (s + 1) (t + 1) = Some (store_bytes (m(s := c)) (s + 1) (cs @ [0]))"
    by (rule Cons.IH [OF k _ a]) (use Cons.prems(2) in simp_all)
  then show ?case using t(1,2) Cons.prems(2) by (simp only: strcpy_loop.simps [of m s t] Let_def) (simp add: store_bytes_Cons)
qed

end
