(* ===== verification/Uprog.thy ===== *)
theory Uprog
  imports Ulib
begin

text \<open>
  The formatted output of user programs (\<^verbatim>\<open>user/printf.c\<close>) and the small programs of \<^verbatim>\<open>user/\<close>. A
  program is the code of one process: a function of the world that the system calls change. It
  ends by \<^verbatim>\<open>exit\<close>, or by an \<^verbatim>\<open>exec\<close> that replaces it; \<open>None\<close> is a run that does not end. A C string is
  the list of its bytes before the zero; \<^verbatim>\<open>strlen\<close>, \<^verbatim>\<open>strchr\<close> and \<^verbatim>\<open>atoi\<close> on it are the list operations
  that they compute (\<^verbatim>\<open>ustrlen_eq\<close>, \<^verbatim>\<open>strchr_eq\<close>, \<^verbatim>\<open>atoi_eq\<close>). The block that \<^verbatim>\<open>read\<close> fills and \<^verbatim>\<open>write\<close>
  sends is the list of its bytes.
\<close>

section \<open>Runs of a process\<close>

datatype 'a uout = Val 'a | Exited int | Execd

type_synonym ('a, 'w) urun = "('a uout \<times> 'w) option"

definition ubind :: "('a, 'w) urun \<Rightarrow> ('a \<Rightarrow> 'w \<Rightarrow> ('b, 'w) urun) \<Rightarrow> ('b, 'w) urun" where
  "ubind r f = Option.bind r (\<lambda>(v, w). case v of Val x \<Rightarrow> f x w | Exited n \<Rightarrow> Some (Exited n, w) | Execd \<Rightarrow> Some (Execd, w))"

definition uret :: "'a \<Rightarrow> 'w \<Rightarrow> ('a, 'w) urun" where
  "uret x w = Some (Val x, w)"

definition uexit :: "int \<Rightarrow> 'w \<Rightarrow> ('a, 'w) urun" where
  "uexit n w = Some (Exited n, w)"

lemma ubind_simps [simp]:
  "ubind (uret x w) f = f x w" "ubind (uexit n w) f = uexit n w" "ubind None f = None" "ubind (Some (Val x, w)) f = f x w"
  "ubind (Some (Exited n, w)) f = Some (Exited n, w)" "ubind (Some (Execd, w)) f = Some (Execd, w)"
  by (simp_all add: ubind_def uret_def uexit_def)

lemma ubind_mono [partial_function_mono]:
  assumes "mono_option B" and "\<And>x w. mono_option (\<lambda>f. C x w f)"
  shows "mono_option (\<lambda>f. ubind (B f) (\<lambda>x w. C x w f))"
  unfolding ubind_def
proof (rule bind_mono [OF assms(1)])
  fix y
  show "mono_option (\<lambda>f. (case y of (v, w) \<Rightarrow> (case v of Val x \<Rightarrow> C x w f | Exited n \<Rightarrow> Some (Exited n, w) | Execd \<Rightarrow> Some (Execd, w))))"
    by (cases y; cases "fst y") (simp_all add: assms(2) option.const_mono)
qed

section \<open>printf.c\<close>

datatype uarg = UInt uint32 | ULong uint64 | UStr "uchar list option"

definition putc :: "'w syscalls \<Rightarrow> int \<Rightarrow> uchar \<Rightarrow> 'w \<Rightarrow> 'w" where
  "putc S fd c w = snd (sc_write S fd [c] w)"

definition udigits :: "nat \<Rightarrow> uchar" where
  "udigits n = chars ''0123456789ABCDEF'' ! n"

function uprintint_digits :: "nat \<Rightarrow> nat \<Rightarrow> uchar list" where
  "uprintint_digits base x =
     udigits (x mod base) # (if 1 < base \<and> x div base \<noteq> 0 then uprintint_digits base (x div base) else [])"
  by pat_completeness auto
termination
proof (relation "measure snd", goal_cases)
  case (2 base x)
  then show ?case by (cases x) simp_all
qed simp

declare uprintint_digits.simps [simp del]

definition uprintint :: "uint32 \<Rightarrow> nat \<Rightarrow> bool \<Rightarrow> uchar list" where
  "uprintint xx base sg =
     (let neg = (sg \<and> sint xx < 0);
          x = (if neg then - xx else xx);
          buf = uprintint_digits base (unat x) @ (if neg then [0x2D] else [])
      in rev buf)"

definition uprintptr :: "uint64 \<Rightarrow> uchar list" where
  "uprintptr x = chars ''0x'' @ map (\<lambda>i. udigits (unat (drop_bit 60 (push_bit (4 * i) x)))) [0..<16]"

text \<open>
  The characters that \<^verbatim>\<open>vprintf\<close> writes, one \<^verbatim>\<open>write\<close> each. An argument that is missing or of another
  type is undefined in C: then there is no result.
\<close>

fun vprintf_chars :: "uchar list \<Rightarrow> uarg list \<Rightarrow> uchar list option" where
  "vprintf_chars [] ap = Some []"
| "vprintf_chars [c] ap = (if c \<noteq> 0x25 then Some [c] else Some [])"
| "vprintf_chars (c # d # fmt) ap =
     (if c \<noteq> 0x25 then map_option ((#) c) (vprintf_chars (d # fmt) ap)
      else if d = 0x64 then
        (case ap of UInt x # ap \<Rightarrow> map_option ((@) (uprintint x 10 True)) (vprintf_chars fmt ap) | _ \<Rightarrow> None)
      else if d = 0x6C then
        (case ap of ULong x # ap \<Rightarrow> map_option ((@) (uprintint (ucast x) 10 False)) (vprintf_chars fmt ap) | _ \<Rightarrow> None)
      else if d = 0x78 then
        (case ap of UInt x # ap \<Rightarrow> map_option ((@) (uprintint x 16 False)) (vprintf_chars fmt ap) | _ \<Rightarrow> None)
      else if d = 0x70 then
        (case ap of ULong x # ap \<Rightarrow> map_option ((@) (uprintptr x)) (vprintf_chars fmt ap) | _ \<Rightarrow> None)
      else if d = 0x73 then
        (case ap of UStr s # ap \<Rightarrow>
           map_option ((@) (case s of None \<Rightarrow> chars ''(null)'' | Some t \<Rightarrow> t)) (vprintf_chars fmt ap) | _ \<Rightarrow> None)
      else if d = 0x63 then
        (case ap of UInt x # ap \<Rightarrow> map_option ((#) (ucast x)) (vprintf_chars fmt ap) | _ \<Rightarrow> None)
      else if d = 0x25 then map_option ((#) 0x25) (vprintf_chars fmt ap)
      else map_option ((@) [0x25, d]) (vprintf_chars fmt ap))"

definition fprintf :: "'w syscalls \<Rightarrow> int \<Rightarrow> uchar list \<Rightarrow> uarg list \<Rightarrow> 'w \<Rightarrow> (unit, 'w) urun" where
  "fprintf S fd fmt ap w = Option.bind (vprintf_chars fmt ap) (\<lambda>cs. uret () (fold (putc S fd) cs w))"

definition uprintf :: "'w syscalls \<Rightarrow> uchar list \<Rightarrow> uarg list \<Rightarrow> 'w \<Rightarrow> (unit, 'w) urun" where
  "uprintf S fmt ap w = fprintf S 1 fmt ap w"

section \<open>cat, echo and wc\<close>

definition cat_loop_end :: "'w syscalls \<Rightarrow> int \<Rightarrow> 'w \<Rightarrow> (unit, 'w) urun" where
  "cat_loop_end S n w =
     (if n < 0 then ubind (fprintf S 2 (chars ''cat: read error'' @ [0x0A]) [] w) (\<lambda>_. uexit 1) else uret () w)"

partial_function (option) cat :: "'w syscalls \<Rightarrow> int \<Rightarrow> 'w \<Rightarrow> (unit, 'w) urun" where
  "cat S fd w =
     (let (n, buf, w) = sc_read S fd 512 w in
      if n > 0 then
        let (k, w) = sc_write S 1 buf w in
        if k \<noteq> n then ubind (fprintf S 2 (chars ''cat: write error'' @ [0x0A]) [] w) (\<lambda>_. uexit 1)
        else cat S fd w
      else cat_loop_end S n w)"

primrec cat_files :: "'w syscalls \<Rightarrow> uchar list list \<Rightarrow> 'w \<Rightarrow> (unit, 'w) urun" where
  "cat_files S [] w = uret () w"
| "cat_files S (a # as) w =
     (let (fd, w) = sc_open S a 0 w in
      if fd < 0 then ubind (fprintf S 2 (chars ''cat: cannot open %s'' @ [0x0A]) [UStr (Some a)] w) (\<lambda>_. uexit 1)
      else ubind (cat S fd w) (\<lambda>_ w. cat_files S as (snd (sc_close S fd w))))"

definition cat_main :: "'w syscalls \<Rightarrow> uchar list list \<Rightarrow> 'w \<Rightarrow> (unit, 'w) urun" where
  "cat_main S argv w =
     (if length argv \<le> 1 then ubind (cat S 0 w) (\<lambda>_. uexit 0)
      else ubind (cat_files S (tl argv) w) (\<lambda>_. uexit 0))"

fun echo_args :: "'w syscalls \<Rightarrow> uchar list list \<Rightarrow> 'w \<Rightarrow> 'w" where
  "echo_args S [] w = w"
| "echo_args S (a # as) w =
     (let w = snd (sc_write S 1 a w)
      in echo_args S as (snd (sc_write S 1 (if as \<noteq> [] then [0x20] else [0x0A]) w)))"

definition echo_main :: "'w syscalls \<Rightarrow> uchar list list \<Rightarrow> 'w \<Rightarrow> (unit, 'w) urun" where
  "echo_main S argv w = uexit 0 (echo_args S (tl argv) w)"

record wcount =
  wc_l :: uint32
  wc_w :: uint32
  wc_c :: uint32
  wc_inword :: bool

definition wc_char :: "uchar \<Rightarrow> wcount \<Rightarrow> wcount" where
  "wc_char b k =
     (let k = k\<lparr>wc_c := wc_c k + 1\<rparr>;
          k = (if b = 0x0A then k\<lparr>wc_l := wc_l k + 1\<rparr> else k)
      in if b \<in> set [0x20, 0x0D, 0x09, 0x0A, 0x0B] then k\<lparr>wc_inword := False\<rparr>
         else if \<not> wc_inword k then k\<lparr>wc_w := wc_w k + 1, wc_inword := True\<rparr>
         else k)"

definition wc_end :: "'w syscalls \<Rightarrow> uchar list \<Rightarrow> int \<Rightarrow> wcount \<Rightarrow> 'w \<Rightarrow> (unit, 'w) urun" where
  "wc_end S nm n k w =
     (if n < 0 then ubind (uprintf S (chars ''wc: read error'' @ [0x0A]) [] w) (\<lambda>_. uexit 1)
      else uprintf S (chars ''%d %d %d %s'' @ [0x0A]) [UInt (wc_l k), UInt (wc_w k), UInt (wc_c k), UStr (Some nm)] w)"

partial_function (option) wc_loop :: "'w syscalls \<Rightarrow> int \<Rightarrow> uchar list \<Rightarrow> wcount \<Rightarrow> 'w \<Rightarrow> (unit, 'w) urun" where
  "wc_loop S fd nm k w =
     (let (n, buf, w) = sc_read S fd 512 w in
      if n > 0 then wc_loop S fd nm (fold wc_char buf k) w else wc_end S nm n k w)"

definition wc :: "'w syscalls \<Rightarrow> int \<Rightarrow> uchar list \<Rightarrow> 'w \<Rightarrow> (unit, 'w) urun" where
  "wc S fd nm w = wc_loop S fd nm \<lparr>wc_l = 0, wc_w = 0, wc_c = 0, wc_inword = False\<rparr> w"

primrec wc_files :: "'w syscalls \<Rightarrow> uchar list list \<Rightarrow> 'w \<Rightarrow> (unit, 'w) urun" where
  "wc_files S [] w = uret () w"
| "wc_files S (a # as) w =
     (let (fd, w) = sc_open S a 0 w in
      if fd < 0 then ubind (uprintf S (chars ''wc: cannot open %s'' @ [0x0A]) [UStr (Some a)] w) (\<lambda>_. uexit 1)
      else ubind (wc S fd a w) (\<lambda>_ w. wc_files S as (snd (sc_close S fd w))))"

definition wc_main :: "'w syscalls \<Rightarrow> uchar list list \<Rightarrow> 'w \<Rightarrow> (unit, 'w) urun" where
  "wc_main S argv w =
     (if length argv \<le> 1 then ubind (wc S 0 [] w) (\<lambda>_. uexit 0)
      else ubind (wc_files S (tl argv) w) (\<lambda>_. uexit 0))"

section \<open>ls\<close>

text \<open>The index that the loop of \<^verbatim>\<open>fmtname\<close> leaves in \<^verbatim>\<open>p\<close>, after the increment.\<close>

primrec fmtname_scan :: "uchar list \<Rightarrow> nat \<Rightarrow> nat" where
  "fmtname_scan path 0 = (if path \<noteq> [] \<and> path ! 0 = 0x2F then 1 else 0)"
| "fmtname_scan path (Suc i) = (if Suc i < length path \<and> path ! Suc i = 0x2F then Suc (Suc i) else fmtname_scan path i)"

definition fmtname :: "uchar list \<Rightarrow> uchar list" where
  "fmtname path =
     (let p = drop (fmtname_scan path (length path)) path
      in if length p \<ge> 14 then p else p @ replicate (14 - length p) 0x20)"

definition ls_entry :: "'w syscalls \<Rightarrow> uchar list \<Rightarrow> uchar list \<Rightarrow> 'w \<Rightarrow> (unit, 'w) urun" where
  "ls_entry S path de w =
     (if of_le_bytes (take 2 de) = (0 :: ushort) then uret () w
      else
        let buf = path @ [0x2F] @ takeWhile (\<lambda>c. c \<noteq> 0) (take 14 (drop 2 de));
            (r, st, w) = ustat_call S buf w in
        if r < 0 then uprintf S (chars ''ls: cannot stat %s'' @ [0x0A]) [UStr (Some buf)] w
        else uprintf S (chars ''%s %d %d %d'' @ [0x0A])
               [UStr (Some (fmtname buf)), UInt (ucast (ust_type st)), UInt (ust_ino st), UInt (ucast (ust_size st))] w)"

partial_function (option) ls_dir :: "'w syscalls \<Rightarrow> int \<Rightarrow> uchar list \<Rightarrow> 'w \<Rightarrow> (unit, 'w) urun" where
  "ls_dir S fd path w =
     (let (n, de, w) = sc_read S fd 16 w in
      if n = 16 then ubind (ls_entry S path de w) (\<lambda>_ w. ls_dir S fd path w) else uret () w)"

definition ls :: "'w syscalls \<Rightarrow> uchar list \<Rightarrow> 'w \<Rightarrow> (unit, 'w) urun" where
  "ls S path w =
     (let (fd, w) = sc_open S path 0 w in
      if fd < 0 then fprintf S 2 (chars ''ls: cannot open %s'' @ [0x0A]) [UStr (Some path)] w
      else
        let (r, st, w) = sc_fstat S fd w in
        if r < 0 then
          ubind (fprintf S 2 (chars ''ls: cannot stat %s'' @ [0x0A]) [UStr (Some path)] w) (\<lambda>_ w. uret () (snd (sc_close S fd w)))
        else
          ubind (if ust_type st = 3 \<or> ust_type st = 2 then
                   uprintf S (chars ''%s %d %d %l'' @ [0x0A])
                     [UStr (Some (fmtname path)), UInt (ucast (ust_type st)), UInt (ust_ino st), ULong (ust_size st)] w
                 else if ust_type st = 1 then
                   if length path + 1 + 14 + 1 > 512 then uprintf S (chars ''ls: path too long'' @ [0x0A]) [] w
                   else ls_dir S fd path w
                 else uret () w) (\<lambda>_ w. uret () (snd (sc_close S fd w))))"

primrec ls_args :: "'w syscalls \<Rightarrow> uchar list list \<Rightarrow> 'w \<Rightarrow> (unit, 'w) urun" where
  "ls_args S [] w = uret () w"
| "ls_args S (a # as) w = ubind (ls S a w) (\<lambda>_. ls_args S as)"

definition ls_main :: "'w syscalls \<Rightarrow> uchar list list \<Rightarrow> 'w \<Rightarrow> (unit, 'w) urun" where
  "ls_main S argv w =
     (if length argv < 2 then ubind (ls S (chars ''.'') w) (\<lambda>_. uexit 0)
      else ubind (ls_args S (tl argv) w) (\<lambda>_. uexit 0))"

section \<open>ln, rm, mkdir, kill, zombie and init\<close>

definition ln_main :: "'w syscalls \<Rightarrow> uchar list list \<Rightarrow> 'w \<Rightarrow> (unit, 'w) urun" where
  "ln_main S argv w =
     (if length argv \<noteq> 3 then ubind (fprintf S 2 (chars ''Usage: ln old new'' @ [0x0A]) [] w) (\<lambda>_. uexit 1)
      else
        let (r, w) = sc_link S (argv ! 1) (argv ! 2) w in
        ubind (if r < 0 then fprintf S 2 (chars ''link %s %s: failed'' @ [0x0A]) [UStr (Some (argv ! 1)), UStr (Some (argv ! 2))] w
               else uret () w) (\<lambda>_. uexit 0))"

primrec rm_args :: "'w syscalls \<Rightarrow> uchar list list \<Rightarrow> 'w \<Rightarrow> (unit, 'w) urun" where
  "rm_args S [] w = uret () w"
| "rm_args S (a # as) w =
     (let (r, w) = sc_unlink S a w in
      if r < 0 then fprintf S 2 (chars ''rm: %s failed to delete'' @ [0x0A]) [UStr (Some a)] w else rm_args S as w)"

definition rm_main :: "'w syscalls \<Rightarrow> uchar list list \<Rightarrow> 'w \<Rightarrow> (unit, 'w) urun" where
  "rm_main S argv w =
     (if length argv < 2 then ubind (fprintf S 2 (chars ''Usage: rm files...'' @ [0x0A]) [] w) (\<lambda>_. uexit 1)
      else ubind (rm_args S (tl argv) w) (\<lambda>_. uexit 0))"

primrec mkdir_args :: "'w syscalls \<Rightarrow> uchar list list \<Rightarrow> 'w \<Rightarrow> (unit, 'w) urun" where
  "mkdir_args S [] w = uret () w"
| "mkdir_args S (a # as) w =
     (let (r, w) = sc_mkdir S a w in
      if r < 0 then fprintf S 2 (chars ''mkdir: %s failed to create'' @ [0x0A]) [UStr (Some a)] w else mkdir_args S as w)"

definition mkdir_main :: "'w syscalls \<Rightarrow> uchar list list \<Rightarrow> 'w \<Rightarrow> (unit, 'w) urun" where
  "mkdir_main S argv w =
     (if length argv < 2 then ubind (fprintf S 2 (chars ''Usage: mkdir files...'' @ [0x0A]) [] w) (\<lambda>_. uexit 1)
      else ubind (mkdir_args S (tl argv) w) (\<lambda>_. uexit 0))"

definition kill_main :: "'w syscalls \<Rightarrow> uchar list list \<Rightarrow> 'w \<Rightarrow> (unit, 'w) urun" where
  "kill_main S argv w =
     (if length argv < 2 then ubind (fprintf S 2 (chars ''usage: kill pid...'' @ [0x0A]) [] w) (\<lambda>_. uexit 1)
      else uexit 0 (fold (\<lambda>a w. snd (sc_kill S (sint (atoi_chars 0 a)) w)) (tl argv) w))"

definition zombie_main :: "'w syscalls \<Rightarrow> 'w \<Rightarrow> (unit, 'w) urun" where
  "zombie_main S w =
     (let (pid, w) = sc_fork S w in uexit 0 (if pid > 0 then snd (sc_sleep S 5 w) else w))"

partial_function (option) init_wait :: "'w syscalls \<Rightarrow> int \<Rightarrow> 'w \<Rightarrow> (unit, 'w) urun" where
  "init_wait S pid w =
     (let (wpid, w) = sc_wait S w in
      if wpid = pid then uret () w
      else if wpid < 0 then ubind (uprintf S (chars ''init: wait returned an error'' @ [0x0A]) [] w) (\<lambda>_. uexit 1)
      else init_wait S pid w)"

partial_function (option) init_loop :: "'w syscalls \<Rightarrow> 'w \<Rightarrow> (unit, 'w) urun" where
  "init_loop S w =
     ubind (uprintf S (chars ''init: starting sh'' @ [0x0A]) [] w) (\<lambda>_ w.
     let (pid, w) = sc_fork S w in
     if pid < 0 then ubind (uprintf S (chars ''init: fork failed'' @ [0x0A]) [] w) (\<lambda>_. uexit 1)
     else if pid = 0 then
       case sc_exec S (chars ''sh'') [chars ''sh''] w of
         (None, w) \<Rightarrow> Some (Execd, w)
       | (Some r, w) \<Rightarrow> ubind (uprintf S (chars ''init: exec sh failed'' @ [0x0A]) [] w) (\<lambda>_. uexit 1)
     else ubind (init_wait S pid w) (\<lambda>_ w. init_loop S w))"

definition init_main :: "'w syscalls \<Rightarrow> 'w \<Rightarrow> (unit, 'w) urun" where
  "init_main S w =
     (let (fd, w) = sc_open S (chars ''console'') 2 w;
          w = (if fd < 0 then
                 let w = snd (sc_mknod S (chars ''console'') 1 0 w) in snd (sc_open S (chars ''console'') 2 w)
               else w);
          w = snd (sc_dup S 0 w);
          w = snd (sc_dup S 0 w)
      in init_loop S w)"

end
