(* ===== verification/Sh.thy ===== *)
theory Sh
  imports Uprog Sysfile
begin

text \<open>
  The shell (\<^verbatim>\<open>user/sh.c\<close>). The input buffer is the list of its bytes, and a pointer into it is an
  offset. The parser's functions are mutually recursive; their first argument bounds the depth of
  the recursion, and the result is \<open>None\<close> when the bound is too small (\<^verbatim>\<open>parsecmd\<close> takes one that is
  always enough). \<open>Inl msg\<close> stands for a call of \<^verbatim>\<open>panic\<close>, which prints the message and ends the
  process. Commands are values of a datatype: the memory that \<^verbatim>\<open>malloc\<close> returns to the constructors is
  not represented. The children of the shell and the shell itself are runs over the system calls of
  \<open>S\<close>, where \<^verbatim>\<open>fork\<close> decides in which of the two processes the run continues.
\<close>

section \<open>Commands\<close>

definition MAXARGS :: nat where "MAXARGS = 10"

text \<open>
  \<^verbatim>\<open>argv\<close> and \<^verbatim>\<open>eargv\<close> of \<^verbatim>\<open>struct execcmd\<close> are the list of the pairs in front of the null entry.
\<close>

datatype cmd =
    Null
  | EXEC "(nat \<times> nat) list"
  | REDIR cmd nat nat uint32 int
  | PIPE cmd cmd
  | LIST cmd cmd
  | BACK cmd

section \<open>Tokens\<close>

definition whitespace :: "uchar list" where
  "whitespace = [0x20, 0x09, 0x0D, 0x0A, 0x0B]"

definition symbols :: "uchar list" where
  "symbols = [0x3C, 0x7C, 0x3E, 0x26, 0x3B, 0x28, 0x29]"

definition in_str :: "uchar list \<Rightarrow> uchar \<Rightarrow> bool" where
  "in_str cs c \<longleftrightarrow> c \<noteq> 0 \<and> c \<in> set cs"

function skip_while :: "(uchar \<Rightarrow> bool) \<Rightarrow> uchar list \<Rightarrow> nat \<Rightarrow> nat \<Rightarrow> nat" where
  "skip_while f b es s = (if s < es \<and> f (b ! s) then skip_while f b es (s + 1) else s)"
  by pat_completeness auto
termination
  by (relation "measure (\<lambda>(f, b, es, s). es - s)") auto

declare skip_while.simps [simp del]

text \<open>The kind of the token, its beginning and end, and the position after it and the blanks that follow.\<close>

definition gettoken :: "uchar list \<Rightarrow> nat \<Rightarrow> nat \<Rightarrow> uchar \<times> nat \<times> nat \<times> nat" where
  "gettoken b es s =
     (let s = skip_while (in_str whitespace) b es s;
          q = s;
          c = b ! s;
          (ret, s) =
            (if c = 0 then (c, s)
             else if c \<in> {0x7C, 0x28, 0x29, 0x3B, 0x26, 0x3C} then (c, s + 1)
             else if c = 0x3E then
               let s = s + 1 in if b ! s = 0x3E then (0x2B, s + 1) else (c, s)
             else (0x61, skip_while (\<lambda>c. \<not> in_str whitespace c \<and> \<not> in_str symbols c) b es s));
          eq = s
      in (ret, q, eq, skip_while (in_str whitespace) b es s))"

definition peek :: "uchar list \<Rightarrow> nat \<Rightarrow> nat \<Rightarrow> uchar list \<Rightarrow> bool \<times> nat" where
  "peek b es s toks =
     (let s = skip_while (in_str whitespace) b es s in (b ! s \<noteq> 0 \<and> in_str toks (b ! s), s))"

section \<open>Constructors\<close>

definition execcmd :: cmd where
  "execcmd = EXEC []"

definition redircmd :: "cmd \<Rightarrow> nat \<Rightarrow> nat \<Rightarrow> uint32 \<Rightarrow> int \<Rightarrow> cmd" where
  "redircmd subcmd f ef mode fd = REDIR subcmd f ef mode fd"

definition pipecmd :: "cmd \<Rightarrow> cmd \<Rightarrow> cmd" where
  "pipecmd left right = PIPE left right"

definition listcmd :: "cmd \<Rightarrow> cmd \<Rightarrow> cmd" where
  "listcmd left right = LIST left right"

definition backcmd :: "cmd \<Rightarrow> cmd" where
  "backcmd subcmd = BACK subcmd"

lemmas cmd_constructors = execcmd_def redircmd_def pipecmd_def listcmd_def backcmd_def

section \<open>The parser\<close>

type_synonym ('a, 's) parse = "(string + 'a \<times> 's) option"

definition pbind :: "('a, 's) parse \<Rightarrow> ('a \<Rightarrow> 's \<Rightarrow> ('b, 't) parse) \<Rightarrow> ('b, 't) parse" where
  "pbind r f = (case r of None \<Rightarrow> None | Some (Inl msg) \<Rightarrow> Some (Inl msg) | Some (Inr (x, s)) \<Rightarrow> f x s)"

definition pret :: "'a \<Rightarrow> 's \<Rightarrow> ('a, 's) parse" where
  "pret x s = Some (Inr (x, s))"

definition ppanic :: "string \<Rightarrow> ('a, 's) parse" where
  "ppanic msg = Some (Inl msg)"

lemma pbind_simps [simp]:
  "pbind (pret x s) f = f x s" "pbind (ppanic msg) f = ppanic msg" "pbind None f = None"
  by (simp_all add: pbind_def pret_def ppanic_def)

lemma parse_cases [case_names none panic ret]:
  obtains "r = None" | msg where "r = ppanic msg" | x s where "r = pret x s"
  by (cases r; cases "the r") (auto simp: pret_def ppanic_def)

lemma parse_distinct [simp]:
  "pret x s \<noteq> None" "ppanic msg \<noteq> None" "None \<noteq> pret x s" "None \<noteq> ppanic msg" "pret x s \<noteq> ppanic msg" "ppanic msg \<noteq> pret x s"
  "pret x s = pret y t \<longleftrightarrow> x = y \<and> s = t" "ppanic msg = ppanic msg' \<longleftrightarrow> msg = msg'"
  by (auto simp: pret_def ppanic_def)

fun parseredirs :: "nat \<Rightarrow> uchar list \<Rightarrow> nat \<Rightarrow> cmd \<Rightarrow> nat \<Rightarrow> (cmd, nat) parse" where
  "parseredirs 0 b es cmd s = None"
| "parseredirs (Suc n) b es cmd s =
     (let (p, s) = peek b es s (chars ''<>'') in
      if p then
        let (tok, _, _, s) = gettoken b es s;
            (a, q, eq, s) = gettoken b es s in
        if a \<noteq> 0x61 then ppanic ''missing file for redirection''
        else
          let cmd = (if tok = 0x3C then redircmd cmd q eq O_RDONLY 0
                     else if tok = 0x3E then redircmd cmd q eq (O_WRONLY OR O_CREATE OR O_TRUNC) 1
                     else if tok = 0x2B then redircmd cmd q eq (O_WRONLY OR O_CREATE) 1
                     else cmd)
          in parseredirs n b es cmd s
      else pret cmd s)"

text \<open>
  \<^verbatim>\<open>parseexec\<close> keeps a pointer to the \<^verbatim>\<open>execcmd\<close> below the redirections that \<^verbatim>\<open>parseredirs\<close> wraps around
  it, and stores the arguments there.
\<close>

fun exec_arg :: "nat \<times> nat \<Rightarrow> cmd \<Rightarrow> cmd" where
  "exec_arg a (EXEC as) = EXEC (as @ [a])"
| "exec_arg a (REDIR c f ef mode fd) = REDIR (exec_arg a c) f ef mode fd"
| "exec_arg a c = c"

fun parseargs :: "nat \<Rightarrow> uchar list \<Rightarrow> nat \<Rightarrow> nat \<Rightarrow> cmd \<Rightarrow> nat \<Rightarrow> (cmd, nat) parse" where
  "parseargs 0 b es argc ret s = None"
| "parseargs (Suc n) b es argc ret s =
     (let (p, s) = peek b es s (chars ''|)&;'') in
      if p then pret ret s
      else
        let (tok, q, eq, s) = gettoken b es s in
        if tok = 0 then pret ret s
        else if tok \<noteq> 0x61 then ppanic ''syntax''
        else
          let ret = exec_arg (q, eq) ret;
              argc = argc + 1 in
          if argc \<ge> MAXARGS then ppanic ''too many args''
          else pbind (parseredirs n b es ret s) (\<lambda>ret s. parseargs n b es argc ret s))"

fun parse_back :: "nat \<Rightarrow> uchar list \<Rightarrow> nat \<Rightarrow> cmd \<Rightarrow> nat \<Rightarrow> (cmd, nat) parse" where
  "parse_back 0 b es cmd s = None"
| "parse_back (Suc n) b es cmd s =
     (let (p, s) = peek b es s (chars ''&'') in
      if p then
        let (_, _, _, s) = gettoken b es s in parse_back n b es (backcmd cmd) s
      else pret cmd s)"

function parseline :: "nat \<Rightarrow> uchar list \<Rightarrow> nat \<Rightarrow> nat \<Rightarrow> (cmd, nat) parse"
  and parsepipe :: "nat \<Rightarrow> uchar list \<Rightarrow> nat \<Rightarrow> nat \<Rightarrow> (cmd, nat) parse"
  and parseexec :: "nat \<Rightarrow> uchar list \<Rightarrow> nat \<Rightarrow> nat \<Rightarrow> (cmd, nat) parse"
  and parseblock :: "nat \<Rightarrow> uchar list \<Rightarrow> nat \<Rightarrow> nat \<Rightarrow> (cmd, nat) parse" where
  "parseline 0 b es s = None"
| "parseline (Suc n) b es s =
     pbind (parsepipe n b es s) (\<lambda>cmd s.
     pbind (parse_back n b es cmd s) (\<lambda>cmd s.
     let (p, s) = peek b es s (chars '';'') in
     if p then
       let (_, _, _, s) = gettoken b es s
       in pbind (parseline n b es s) (\<lambda>right s. pret (listcmd cmd right) s)
     else pret cmd s))"
| "parsepipe 0 b es s = None"
| "parsepipe (Suc n) b es s =
     pbind (parseexec n b es s) (\<lambda>cmd s.
     let (p, s) = peek b es s (chars ''|'') in
     if p then
       let (_, _, _, s) = gettoken b es s
       in pbind (parsepipe n b es s) (\<lambda>right s. pret (pipecmd cmd right) s)
     else pret cmd s)"
| "parseexec 0 b es s = None"
| "parseexec (Suc n) b es s =
     (let (p, s) = peek b es s (chars ''('') in
      if p then parseblock n b es s
      else pbind (parseredirs n b es execcmd s) (\<lambda>ret s. parseargs n b es 0 ret s))"
| "parseblock 0 b es s = None"
| "parseblock (Suc n) b es s =
     (let (p, s) = peek b es s (chars ''('') in
      if \<not> p then ppanic ''parseblock''
      else
        let (_, _, _, s) = gettoken b es s in
        pbind (parseline n b es s) (\<lambda>cmd s.
        let (p, s) = peek b es s (chars '')'') in
        if \<not> p then ppanic ''syntax - missing )''
        else
          let (_, _, _, s) = gettoken b es s
          in parseredirs n b es cmd s))"
  by pat_completeness auto
termination
  by (relation "measure (case_sum (case_sum fst fst) (case_sum fst fst))") auto

fun nulterminate :: "cmd \<Rightarrow> uchar list \<Rightarrow> uchar list" where
  "nulterminate Null b = b"
| "nulterminate (EXEC as) b = fold (\<lambda>(q, eq) b. b[eq := 0]) as b"
| "nulterminate (REDIR c f ef mode fd) b = (nulterminate c b)[ef := 0]"
| "nulterminate (PIPE l r) b = nulterminate r (nulterminate l b)"
| "nulterminate (LIST l r) b = nulterminate r (nulterminate l b)"
| "nulterminate (BACK c) b = nulterminate c b"

text \<open>The string at a position of the buffer, and \<^verbatim>\<open>strlen\<close> of the buffer.\<close>

definition str_at :: "uchar list \<Rightarrow> nat \<Rightarrow> uchar list" where
  "str_at b s = takeWhile (\<lambda>c. c \<noteq> 0) (drop s b)"

section \<open>The interpreter\<close>

definition sh_panic :: "'w syscalls \<Rightarrow> string \<Rightarrow> 'w \<Rightarrow> ('a, 'w) urun" where
  "sh_panic S msg w = ubind (fprintf S 2 (chars ''%s'' @ [0x0A]) [UStr (Some (chars msg))] w) (\<lambda>_. uexit 1)"

definition fork1 :: "'w syscalls \<Rightarrow> 'w \<Rightarrow> (int, 'w) urun" where
  "fork1 S w = (let (pid, w) = sc_fork S w in if pid = -1 then sh_panic S ''fork'' w else uret pid w)"

text \<open>The command and the buffer after \<^verbatim>\<open>nulterminate\<close>.\<close>

definition parsecmd :: "'w syscalls \<Rightarrow> uchar list \<Rightarrow> 'w \<Rightarrow> (cmd \<times> uchar list, 'w) urun" where
  "parsecmd S b w =
     (let es = length (str_at b 0) in
      case parseline (8 * es + 8) b es 0 of
        None \<Rightarrow> None
      | Some (Inl msg) \<Rightarrow> sh_panic S msg w
      | Some (Inr (cmd, s)) \<Rightarrow>
          let (_, s) = peek b es s [] in
          if s \<noteq> es then
            ubind (fprintf S 2 (chars ''leftovers: %s'' @ [0x0A]) [UStr (Some (str_at b s))] w) (\<lambda>_. sh_panic S ''syntax'')
          else uret (cmd, nulterminate cmd b) w)"

fun runcmd :: "'w syscalls \<Rightarrow> uchar list \<Rightarrow> cmd \<Rightarrow> 'w \<Rightarrow> (unit, 'w) urun" where
  "runcmd S b Null w = uexit 1 w"
| "runcmd S b (EXEC as) w =
     (if as = [] then uexit 1 w
      else
        let argv = map (\<lambda>(q, eq). str_at b q) as in
        case sc_exec S (hd argv) argv w of
          (None, w) \<Rightarrow> Some (Execd, w)
        | (Some r, w) \<Rightarrow> ubind (fprintf S 2 (chars ''exec %s failed'' @ [0x0A]) [UStr (Some (hd argv))] w) (\<lambda>_. uexit 0))"
| "runcmd S b (REDIR c f ef mode fd) w =
     (let w = snd (sc_close S fd w);
          (r, w) = sc_open S (str_at b f) mode w in
      if r < 0 then ubind (fprintf S 2 (chars ''open %s failed'' @ [0x0A]) [UStr (Some (str_at b f))] w) (\<lambda>_. uexit 1)
      else runcmd S b c w)"
| "runcmd S b (LIST l r) w =
     ubind (fork1 S w) (\<lambda>pid w.
     if pid = 0 then runcmd S b l w
     else runcmd S b r (snd (sc_wait S w)))"
| "runcmd S b (PIPE l r) w =
     (let (e, p0, p1, w) = sc_pipe S w in
      if e < 0 then sh_panic S ''pipe'' w
      else
        ubind (fork1 S w) (\<lambda>pid w.
        if pid = 0 then
          let w = snd (sc_close S 1 w);
              w = snd (sc_dup S p1 w);
              w = snd (sc_close S p0 w);
              w = snd (sc_close S p1 w)
          in runcmd S b l w
        else
          ubind (fork1 S w) (\<lambda>pid w.
          if pid = 0 then
            let w = snd (sc_close S 0 w);
                w = snd (sc_dup S p0 w);
                w = snd (sc_close S p0 w);
                w = snd (sc_close S p1 w)
            in runcmd S b r w
          else
            let w = snd (sc_close S p0 w);
                w = snd (sc_close S p1 w);
                w = snd (sc_wait S w);
                w = snd (sc_wait S w)
            in uexit 0 w)))"
| "runcmd S b (BACK c) w = ubind (fork1 S w) (\<lambda>pid w. if pid = 0 then runcmd S b c w else uexit 0 w)"

section \<open>Reading commands\<close>

text \<open>\<open>A\<close> is the address of the buffer of \<^verbatim>\<open>main\<close>, in the memory \<open>m\<close> of the shell.\<close>

definition getcmd :: "'w syscalls \<Rightarrow> memory \<Rightarrow> uint64 \<Rightarrow> uint32 \<Rightarrow> 'w \<Rightarrow> int \<times> memory \<times> 'w" where
  "getcmd S m A nbuf w =
     (let w = snd (sc_write S 2 (chars ''$ '') w);
          m = umemset m A 0 nbuf;
          (m, w) = gets S m A (sint nbuf) w
      in (if m A = 0 then -1 else 0, m, w))"

partial_function (option) sh_console :: "'w syscalls \<Rightarrow> 'w \<Rightarrow> (unit, 'w) urun" where
  "sh_console S w =
     (let (fd, w) = sc_open S (chars ''console'') O_RDWR w in
      if fd \<ge> 0 then
        if fd \<ge> 3 then uret () (snd (sc_close S fd w)) else sh_console S w
      else uret () w)"

partial_function (option) sh_loop :: "'w syscalls \<Rightarrow> uint64 \<Rightarrow> memory \<Rightarrow> 'w \<Rightarrow> (unit, 'w) urun" where
  "sh_loop S A m w =
     (let (r, m, w) = getcmd S m A 100 w in
      if r \<ge> 0 then
        let b = load_bytes m A 100 in
        if b ! 0 = 0x63 \<and> b ! 1 = 0x64 \<and> b ! 2 = 0x20 then
          let i = length (str_at b 0) - 1;
              m = m(A + word_of_nat i := 0);
              b = b[i := 0];
              (e, w) = sc_chdir S (str_at b 3) w in
          if e < 0 then
            ubind (fprintf S 2 (chars ''cannot cd %s'' @ [0x0A]) [UStr (Some (str_at b 3))] w) (\<lambda>_ w. sh_loop S A m w)
          else sh_loop S A m w
        else
          ubind (fork1 S w) (\<lambda>pid w.
          if pid = 0 then ubind (parsecmd S b w) (\<lambda>(cmd, b) w. runcmd S b cmd w)
          else sh_loop S A m (snd (sc_wait S w)))
      else uexit 0 w)"

definition sh_main :: "'w syscalls \<Rightarrow> uint64 \<Rightarrow> memory \<Rightarrow> 'w \<Rightarrow> (unit, 'w) urun" where
  "sh_main S A m w = ubind (sh_console S w) (\<lambda>_ w. sh_loop S A m w)"

end
