(* ===== verification/Grep.thy ===== *)
theory Grep
  imports Uprog
begin

text \<open>
  \<^verbatim>\<open>user/grep.c\<close>. The pattern and the text of the matcher are C strings, as lists; the end of the
  list is the zero byte. The buffer of \<^verbatim>\<open>grep\<close> is the list of the bytes it holds. The matcher is
  proved against the language of the pattern, and \<^verbatim>\<open>grep\<close> against the matching lines of its input,
  for any sizes of the pieces in which \<^verbatim>\<open>read\<close> delivers it.
\<close>

section \<open>The matcher\<close>

function matchhere :: "uchar list \<Rightarrow> uchar list \<Rightarrow> bool"
  and matchstar :: "uchar \<Rightarrow> uchar list \<Rightarrow> uchar list \<Rightarrow> bool" where
  "matchhere re tx =
     (if re = [] then True
      else if tl re \<noteq> [] \<and> hd (tl re) = 0x2A then matchstar (hd re) (tl (tl re)) tx
      else if hd re = 0x24 \<and> tl re = [] then tx = []
      else if tx \<noteq> [] \<and> (hd re = 0x2E \<or> hd re = hd tx) then matchhere (tl re) (tl tx)
      else False)"
| "matchstar c re tx =
     (if matchhere re tx then True
      else if tx \<noteq> [] \<and> (hd tx = c \<or> c = 0x2E) then matchstar c re (tl tx)
      else False)"
  by pat_completeness auto
termination
  by (relation "measures [case_sum (\<lambda>(re, tx). 2 * length re) (\<lambda>(c, re, tx). Suc (2 * length re)),
        case_sum (\<lambda>(re, tx). length tx) (\<lambda>(c, re, tx). length tx)]") (auto simp: neq_Nil_conv)

declare matchhere.simps [simp del] matchstar.simps [simp del]

fun match_any :: "uchar list \<Rightarrow> uchar list \<Rightarrow> bool" where
  "match_any re tx = (if matchhere re tx then True else case tx of [] \<Rightarrow> False | _ # tx \<Rightarrow> match_any re tx)"

declare match_any.simps [simp del]

definition match :: "uchar list \<Rightarrow> uchar list \<Rightarrow> bool" where
  "match re tx = (if re \<noteq> [] \<and> hd re = 0x5E then matchhere (tl re) tx else match_any re tx)"

section \<open>The language of a pattern\<close>

datatype ritem = One uchar | Star uchar

text \<open>The items of a pattern without \<^verbatim>\<open>^\<close>, and whether it ends with \<^verbatim>\<open>$\<close>.\<close>

fun items :: "uchar list \<Rightarrow> ritem list \<times> bool" where
  "items [] = ([], False)"
| "items [c] = (if c = 0x24 then ([], True) else ([One c], False))"
| "items (c # d # re) = (if d = 0x2A then apfst ((#) (Star c)) (items re) else apfst ((#) (One c)) (items (d # re)))"

definition stands_for :: "uchar \<Rightarrow> uchar \<Rightarrow> bool" where
  "stands_for c x \<longleftrightarrow> c = 0x2E \<or> x = c"

fun item_lang :: "ritem \<Rightarrow> uchar list set" where
  "item_lang (One c) = {[x] | x. stands_for c x}"
| "item_lang (Star c) = {xs. \<forall>x \<in> set xs. stands_for c x}"

fun lang :: "ritem list \<Rightarrow> uchar list set" where
  "lang [] = {[]}"
| "lang (i # rs) = {xs @ ys | xs ys. xs \<in> item_lang i \<and> ys \<in> lang rs}"

definition begins :: "ritem list \<times> bool \<Rightarrow> uchar list \<Rightarrow> bool" where
  "begins r tx \<longleftrightarrow> (\<exists>mid suf. tx = mid @ suf \<and> mid \<in> lang (fst r) \<and> (snd r \<longrightarrow> suf = []))"

lemma begins_Cons: "begins (i # rs, e) tx \<longleftrightarrow> (\<exists>xs t. tx = xs @ t \<and> xs \<in> item_lang i \<and> begins (rs, e) t)"
proof
  assume "begins (i # rs, e) tx"
  then obtain mid suf where m: "tx = mid @ suf" "mid \<in> lang (i # rs)" "e \<longrightarrow> suf = []" unfolding begins_def by force
  then obtain xs ys where "mid = xs @ ys" "xs \<in> item_lang i" "ys \<in> lang rs" by auto
  moreover from this m have "begins (rs, e) (ys @ suf)" unfolding begins_def fst_conv snd_conv by blast
  ultimately show "\<exists>xs t. tx = xs @ t \<and> xs \<in> item_lang i \<and> begins (rs, e) t" using m(1) by (intro exI [of _ xs] exI [of _ "ys @ suf"]) simp
next
  assume "\<exists>xs t. tx = xs @ t \<and> xs \<in> item_lang i \<and> begins (rs, e) t"
  then obtain xs t where a: "tx = xs @ t" "xs \<in> item_lang i" "begins (rs, e) t" by blast
  then obtain ys suf where "t = ys @ suf" "ys \<in> lang rs" "e \<longrightarrow> suf = []" unfolding begins_def by force
  moreover from this a have "xs @ ys \<in> lang (i # rs)" by auto
  ultimately show "begins (i # rs, e) tx" using a(1) unfolding begins_def by (intro exI [of _ "xs @ ys"] exI [of _ suf]) simp
qed

lemma begins_simps:
  "begins ([], e) tx \<longleftrightarrow> e \<longrightarrow> tx = []"
  "begins (One c # rs, e) tx \<longleftrightarrow> tx \<noteq> [] \<and> stands_for c (hd tx) \<and> begins (rs, e) (tl tx)"
  "begins (Star c # rs, e) tx \<longleftrightarrow> (\<exists>xs t. tx = xs @ t \<and> (\<forall>x \<in> set xs. stands_for c x) \<and> begins (rs, e) t)"
proof -
  show "begins ([], e) tx \<longleftrightarrow> e \<longrightarrow> tx = []" by (simp add: begins_def)
  show "begins (One c # rs, e) tx \<longleftrightarrow> tx \<noteq> [] \<and> stands_for c (hd tx) \<and> begins (rs, e) (tl tx)"
  proof (cases tx)
    case (Cons x t)
    have "(\<exists>xs t'. x # t = xs @ t' \<and> xs \<in> item_lang (One c) \<and> begins (rs, e) t') \<longleftrightarrow> stands_for c x \<and> begins (rs, e) t"
      by (rule iffI, clarsimp, intro exI [of _ "[x]"] exI [of _ t], simp)
    then show ?thesis by (simp add: begins_Cons Cons)
  qed (simp add: begins_Cons)
qed (simp add: begins_Cons)

lemma stars_step:
  "(\<exists>xs t. tx = xs @ t \<and> (\<forall>x \<in> set xs. stands_for c x) \<and> P t) \<longleftrightarrow>
   P tx \<or> tx \<noteq> [] \<and> stands_for c (hd tx) \<and> (\<exists>xs t. tl tx = xs @ t \<and> (\<forall>x \<in> set xs. stands_for c x) \<and> P t)" (is "?L \<longleftrightarrow> ?R")
proof
  assume ?L
  then obtain xs t where a: "tx = xs @ t" "\<forall>x \<in> set xs. stands_for c x" "P t" by blast
  show ?R
  proof (cases xs)
    case Nil
    then show ?thesis using a by simp
  next
    case (Cons y ys)
    then show ?thesis using a by auto
  qed
next
  assume ?R
  then show ?L
  proof
    assume "P tx"
    then show ?L by (intro exI [of _ "[]"] exI [of _ tx]) simp
  next
    assume "tx \<noteq> [] \<and> stands_for c (hd tx) \<and> (\<exists>xs t. tl tx = xs @ t \<and> (\<forall>x \<in> set xs. stands_for c x) \<and> P t)"
    then obtain xs t where "tx = (hd tx # xs) @ t" "\<forall>x \<in> set (hd tx # xs). stands_for c x" "P t" by (cases tx) auto
    then show ?L by blast
  qed
qed

lemma matchhere_cases:
  "matchhere [] tx"
  "matchhere [c] tx \<longleftrightarrow> (if c = 0x24 then tx = [] else tx \<noteq> [] \<and> stands_for c (hd tx) \<and> matchhere [] (tl tx))"
  "matchhere (c # d # r) tx \<longleftrightarrow> (if d = 0x2A then matchstar c r tx else tx \<noteq> [] \<and> stands_for c (hd tx) \<and> matchhere (d # r) (tl tx))"
  by (auto simp: matchhere.simps [of "[]"] matchhere.simps [of "[c]"] matchhere.simps [of "c # d # r"] stands_for_def)

lemma matchhere_iff:
  "matchhere re tx \<longleftrightarrow> begins (items re) tx"
  "matchstar c re tx \<longleftrightarrow> (\<exists>xs t. tx = xs @ t \<and> (\<forall>x \<in> set xs. stands_for c x) \<and> begins (items re) t)"
proof (induction re tx and c re tx rule: matchhere_matchstar.induct)
  case (1 re tx)
  consider "re = []" | c where "re = [c]" | c d r where "re = c # d # r" by (metis neq_Nil_conv)
  then show ?case
  proof cases
    case 1
    then show ?thesis by (simp add: matchhere_cases begins_simps)
  next
    case 2
    then show ?thesis by (simp add: matchhere_cases begins_simps)
  next
    case 3
    show ?thesis
    proof (cases "d = 0x2A")
      case True
      then show ?thesis using "1.IH"(1) 3 by (cases "items r") (simp add: matchhere_cases begins_simps)
    next
      case False
      then have "matchhere (d # r) (tl tx) \<longleftrightarrow> begins (items (d # r)) (tl tx)" if "tx \<noteq> []" "stands_for c (hd tx)"
        using "1.IH"(2) 3 that by (auto simp: stands_for_def)
      then show ?thesis using 3 False by (cases "items (d # r)") (auto simp: matchhere_cases begins_simps)
    qed
  qed
next
  case (2 c re tx)
  have "matchstar c re tx \<longleftrightarrow> begins (items re) tx \<or> tx \<noteq> [] \<and> stands_for c (hd tx) \<and> matchstar c re (tl tx)"
    using "2.IH"(1) by (auto simp: matchstar.simps [of c re tx] stands_for_def)
  also have "\<dots> \<longleftrightarrow> begins (items re) tx \<or> tx \<noteq> [] \<and> stands_for c (hd tx) \<and>
      (\<exists>xs t. tl tx = xs @ t \<and> (\<forall>x \<in> set xs. stands_for c x) \<and> begins (items re) t)"
    using "2.IH" by (auto simp: stands_for_def)
  finally show ?case using stars_step [of tx c "begins (items re)"] by simp
qed

lemma match_any_iff: "match_any re tx \<longleftrightarrow> (\<exists>pre t. tx = pre @ t \<and> matchhere re t)"
proof (induction tx)
  case Nil
  then show ?case by (simp add: match_any.simps [of re "[]"])
next
  case (Cons x tx)
  then show ?case by (auto simp: match_any.simps [of re "x # tx"] Cons_eq_append_conv)
qed

text \<open>
  C11: The matcher of \<^verbatim>\<open>grep\<close> ends for every pattern and text, and decides whether some part of the
  text belongs to the language of the pattern: \<^verbatim>\<open>.\<close> stands for any character, an item followed by
  \<^verbatim>\<open>*\<close> for any number of repetitions, a leading \<^verbatim>\<open>^\<close> for the beginning of the text and a final \<^verbatim>\<open>$\<close>
  for its end; every other character stands for itself.
\<close>

theorem match_decides_language:
  "match re tx \<longleftrightarrow>
    (let anchored = (re \<noteq> [] \<and> hd re = 0x5E); (its, at_end) = items (if anchored then tl re else re)
     in \<exists>pre mid suf. tx = pre @ mid @ suf \<and> mid \<in> lang its \<and> (anchored \<longrightarrow> pre = []) \<and> (at_end \<longrightarrow> suf = []))"
proof (cases "re \<noteq> [] \<and> hd re = 0x5E")
  case True
  then show ?thesis by (cases "items (tl re)") (simp add: match_def matchhere_iff begins_def)
next
  case False
  then show ?thesis by (cases "items re") (auto simp: match_def match_any_iff matchhere_iff begins_def)
qed

theorem match_decides_language_witness:
  "match (chars ''b*c$'') (chars ''abbc'') \<and> [0x62, 0x62, 0x63] \<in> lang [Star 0x62, One 0x63]"
proof -
  have "chars ''abbc'' = [0x61] @ [0x62, 0x62, 0x63] @ []" "items (chars ''b*c$'') = ([Star 0x62, One 0x63], True)" "hd (chars ''b*c$'') = 0x62"
    by (simp_all add: chars_def of_char_def)
  moreover have "[0x62, 0x62] @ [0x63] \<in> lang [Star 0x62, One 0x63]" by (auto simp: stands_for_def)
  moreover from calculation have "\<exists>pre mid post'. chars ''abbc'' = pre @ mid @ post' \<and> mid \<in> lang [Star 0x62, One 0x63] \<and> post' = []"
    by (intro exI [of _ "[0x61]"] exI [of _ "[0x62, 0x62, 0x63]"] exI [of _ "[]"]) simp
  ultimately show ?thesis using match_decides_language [of "chars ''b*c$''" "chars ''abbc''"] by (simp del: lang.simps)
qed

section \<open>grep\<close>

text \<open>The lines of the buffer; \<^verbatim>\<open>strchr\<close> does not look beyond a zero byte.\<close>

function grep_scan :: "'w syscalls \<Rightarrow> uchar list \<Rightarrow> uchar list \<Rightarrow> 'w \<Rightarrow> uchar list \<times> 'w" where
  "grep_scan S pattern p w =
     (if 0x0A \<in> set (takeWhile (\<lambda>c. c \<noteq> 0) p) then
        let l = takeWhile (\<lambda>c. c \<noteq> 0x0A) p;
            w = (if match pattern l then snd (sc_write S 1 (l @ [0x0A]) w) else w)
        in grep_scan S pattern (drop (length l + 1) p) w
      else (p, w))"
  by pat_completeness auto
termination
proof (relation "measure (\<lambda>(S, pattern, p, w). length p)", goal_cases)
  case (2 S pattern p w x xa)
  then have "p \<noteq> []" by auto
  then show ?case by simp
qed simp

declare grep_scan.simps [simp del]

partial_function (option) grep :: "'w syscalls \<Rightarrow> uchar list \<Rightarrow> int \<Rightarrow> uchar list \<Rightarrow> 'w \<Rightarrow> (unit, 'w) urun" where
  "grep S pattern fd buf w =
     (let (n, bs, w) = sc_read S fd (1024 - length buf - 1) w in
      if n > 0 then
        let (buf, w) = grep_scan S pattern (buf @ bs) w in grep S pattern fd buf w
      else uret () w)"

primrec grep_files :: "'w syscalls \<Rightarrow> uchar list \<Rightarrow> uchar list list \<Rightarrow> 'w \<Rightarrow> (unit, 'w) urun" where
  "grep_files S pattern [] w = uret () w"
| "grep_files S pattern (a # as) w =
     (let (fd, w) = sc_open S a 0 w in
      if fd < 0 then ubind (uprintf S (chars ''grep: cannot open %s'' @ [0x0A]) [UStr (Some a)] w) (\<lambda>_. uexit 1)
      else ubind (grep S pattern fd [] w) (\<lambda>_ w. grep_files S pattern as (snd (sc_close S fd w))))"

definition grep_main :: "'w syscalls \<Rightarrow> uchar list list \<Rightarrow> 'w \<Rightarrow> (unit, 'w) urun" where
  "grep_main S argv w =
     (if length argv \<le> 1 then ubind (fprintf S 2 (chars ''usage: grep pattern [file ...]'' @ [0x0A]) [] w) (\<lambda>_. uexit 1)
      else if length argv \<le> 2 then ubind (grep S (argv ! 1) 0 [] w) (\<lambda>_. uexit 0)
      else ubind (grep_files S (argv ! 1) (drop 2 argv) w) (\<lambda>_. uexit 0))"

section \<open>What grep prints\<close>

text \<open>
  A world in which descriptor \<open>fd\<close> has the bytes \<open>rest w\<close> left to read and \<open>out w\<close> has been written to
  descriptor 1. \<^verbatim>\<open>read\<close> delivers some bytes from the front, at least one unless it was asked for none
  or nothing is left.
\<close>

definition stream_ok :: "'w syscalls \<Rightarrow> int \<Rightarrow> ('w \<Rightarrow> uchar list) \<Rightarrow> ('w \<Rightarrow> uchar list) \<Rightarrow> bool" where
  "stream_ok S fd rest out \<longleftrightarrow>
     (\<forall>n w. case sc_read S fd n w of (k, bs, w') \<Rightarrow>
        k = int (length bs) \<and> length bs \<le> n \<and> rest w = bs @ rest w' \<and> out w' = out w \<and> (bs = [] \<longrightarrow> n = 0 \<or> rest w = [])) \<and>
     (\<forall>bs w. case sc_write S 1 bs w of (k, w') \<Rightarrow> rest w' = rest w \<and> out w' = out w @ bs)"

lemma stream_read:
  assumes "stream_ok S fd rest out" and "sc_read S fd n w = (k, bs, w')"
  shows "k = int (length bs)" and "length bs \<le> n" and "rest w = bs @ rest w'" and "out w' = out w" and "bs = [] \<Longrightarrow> n = 0 \<or> rest w = []"
  using assms spec [OF spec [OF conjunct1 [OF assms(1) [unfolded stream_ok_def]], of n], of w] by auto

lemma stream_write:
  assumes "stream_ok S fd rest out"
  shows "rest (snd (sc_write S 1 bs w)) = rest w" and "out (snd (sc_write S 1 bs w)) = out w @ bs"
  using assms by (auto simp: stream_ok_def case_prod_beta)

text \<open>The terminated lines of a file, and what follows the last of them.\<close>

fun file_lines :: "uchar list \<Rightarrow> uchar list list \<times> uchar list" where
  "file_lines [] = ([], [])"
| "file_lines (c # cs) =
     (let (ls, r) = file_lines cs in
      if c = 0x0A then ([] # ls, r) else case ls of [] \<Rightarrow> ([], c # r) | l # ls \<Rightarrow> ((c # l) # ls, r))"

lemma file_lines_line: "0x0A \<notin> set l \<Longrightarrow> file_lines (l @ 0x0A # cs) = (l # fst (file_lines cs), snd (file_lines cs))"
  by (induction l) (auto simp: case_prod_beta)

lemma file_lines_tail: "0x0A \<notin> set l \<Longrightarrow> file_lines l = ([], l)"
  by (induction l) auto

definition matching :: "uchar list \<Rightarrow> uchar list \<Rightarrow> uchar list" where
  "matching pattern cs = concat (map (\<lambda>l. l @ [0x0A]) (filter (match pattern) (fst (file_lines cs))))"

definition short_lines :: "uchar list \<Rightarrow> bool" where
  "short_lines cs \<longleftrightarrow> (\<forall>l \<in> insert (snd (file_lines cs)) (set (fst (file_lines cs))). length l < 1023)"

lemma line_split: "0x0A \<in> set p \<Longrightarrow> \<exists>l r. p = l @ 0x0A # r \<and> (0x0A :: uchar) \<notin> set l \<and> takeWhile (\<lambda>c. c \<noteq> 0x0A) p = l \<and> drop (length l + 1) p = r"
proof -
  assume "0x0A \<in> set p"
  then obtain l r where "p = l @ 0x0A # r" "0x0A \<notin> set l" by (meson split_list_first)
  moreover from this have "takeWhile (\<lambda>c. c \<noteq> 0x0A) p = l"
    by (simp, subst takeWhile_append2) auto
  ultimately show ?thesis by auto
qed

lemma grep_scan_spec:
  assumes "stream_ok S fd rest out" and "0 \<notin> set p"
  shows "\<exists>r w'. grep_scan S pattern p w = (r, w') \<and> 0x0A \<notin> set r \<and> 0 \<notin> set r \<and> rest w' = rest w \<and>
    (\<forall>q. out w' @ matching pattern (r @ q) = out w @ matching pattern (p @ q)) \<and>
    (\<forall>q. short_lines (p @ q) \<longrightarrow> short_lines (r @ q))"
  using assms(2)
proof (induction "length p" arbitrary: p w rule: less_induct)
  case less
  have t: "takeWhile (\<lambda>c. c \<noteq> 0) p = p" using less.prems by (auto simp: takeWhile_eq_all_conv)
  show ?case
  proof (cases "0x0A \<in> set p")
    case True
    obtain l r where l: "p = l @ 0x0A # r" "0x0A \<notin> set l" "takeWhile (\<lambda>c. c \<noteq> 0x0A) p = l" "drop (length l + 1) p = r" using line_split [OF True] by blast
    define w1 where "w1 = (if match pattern l then snd (sc_write S 1 (l @ [0x0A]) w) else w)"
    have w1: "rest w1 = rest w" "out w1 = out w @ (if match pattern l then l @ [0x0A] else [])"
      using stream_write [OF assms(1)] by (simp_all add: w1_def)
    have e: "grep_scan S pattern p w = grep_scan S pattern r w1"
      using True l(3,4) by (subst grep_scan.simps) (simp add: t w1_def)
    obtain r' w' where r: "grep_scan S pattern r w1 = (r', w')" "0x0A \<notin> set r'" "0 \<notin> set r'" "rest w' = rest w1"
        "\<forall>q. out w' @ matching pattern (r' @ q) = out w1 @ matching pattern (r @ q)" "\<forall>q. short_lines (r @ q) \<longrightarrow> short_lines (r' @ q)"
      using less.hyps [of r w1] less.prems l(1) by auto
    have m: "matching pattern (p @ q) = (if match pattern l then l @ [0x0A] else []) @ matching pattern (r @ q)" for q
      using file_lines_line [OF l(2), of "r @ q"] by (simp add: matching_def l(1))
    have "short_lines (r @ q)" if "short_lines (p @ q)" for q
      using that file_lines_line [OF l(2), of "r @ q"] by (simp add: short_lines_def l(1))
    then show ?thesis using e r m w1 by (intro exI [of _ r'] exI [of _ w']) simp
  next
    case False
    then show ?thesis using less.prems by (subst grep_scan.simps) (simp add: t)
  qed
qed

lemma grep_from_buffer:
  assumes "stream_ok S fd rest out" and "0 \<notin> set (buf @ rest w)" and "short_lines (buf @ rest w)" and "0x0A \<notin> set buf"
  shows "\<exists>w'. grep S pattern fd buf w = uret () w' \<and> rest w' = [] \<and> out w' = out w @ matching pattern (buf @ rest w)"
  using assms(2-)
proof (induction "length (rest w)" arbitrary: buf w rule: less_induct)
  case less
  have "length buf < 1023"
  proof (cases "0x0A \<in> set (rest w)")
    case True
    then obtain l r where "rest w = l @ 0x0A # r" "0x0A \<notin> set l" by (meson split_list_first)
    then show ?thesis using less.prems(2,3) file_lines_line [of "buf @ l" r] by (auto simp: short_lines_def)
  next
    case False
    then show ?thesis using less.prems(2,3) file_lines_tail [of "buf @ rest w"] by (auto simp: short_lines_def)
  qed
  then have pos: "1024 - length buf - 1 \<noteq> 0" by simp
  obtain k bs w1 where rd: "sc_read S fd (1024 - length buf - 1) w = (k, bs, w1)" by (cases "sc_read S fd (1024 - length buf - 1) w")
  have r: "k = int (length bs)" "rest w = bs @ rest w1" "out w1 = out w" "bs = [] \<longrightarrow> rest w = []"
    using stream_read [OF assms(1) rd] pos by auto
  show ?case
  proof (cases "bs = []")
    case True
    then have "grep S pattern fd buf w = uret () w1" using rd r(1) by (subst grep.simps) simp
    then show ?thesis using True r less.prems(3) file_lines_tail [of buf] by (auto simp: matching_def)
  next
    case False
    obtain b w2 where g: "grep_scan S pattern (buf @ bs) w1 = (b, w2)" "0x0A \<notin> set b" "0 \<notin> set b" "rest w2 = rest w1"
        "\<forall>q. out w2 @ matching pattern (b @ q) = out w1 @ matching pattern ((buf @ bs) @ q)" "\<forall>q. short_lines ((buf @ bs) @ q) \<longrightarrow> short_lines (b @ q)"
      using grep_scan_spec [OF assms(1), of "buf @ bs" pattern w1] less.prems(1) r(2) by auto
    have e: "grep S pattern fd buf w = grep S pattern fd b w2" using rd r(1) False g(1) by (subst grep.simps) simp
    have "\<exists>w'. grep S pattern fd b w2 = uret () w' \<and> rest w' = [] \<and> out w' = out w2 @ matching pattern (b @ rest w2)"
      by (rule less.hyps) (use False r(2) g less.prems(1,2) in auto)
    then show ?thesis using e g(4,5) r(2,3) by auto
  qed
qed

text \<open>
  C40: \<^verbatim>\<open>grep\<close> on a file of text with lines of at most 1022 characters returns when it has read the whole
  file, and has written exactly the terminated lines that match the pattern, in order, however
  \<^verbatim>\<open>read\<close> cuts the file into pieces. A last line without a newline is not looked at.
\<close>

theorem grep_prints_matching_lines:
  assumes "stream_ok S fd rest out" and "0 \<notin> set (rest w)" and "short_lines (rest w)"
  shows "\<exists>w'. grep S pattern fd [] w = uret () w' \<and> rest w' = [] \<and> out w' = out w @ matching pattern (rest w)"
  using grep_from_buffer [OF assms(1), of "[]" w pattern] assms(2,3) by simp

text \<open>A world of two lists: what is left to read, delivered five bytes at a time, and what was written.\<close>

definition pipe_calls :: "(uchar list \<times> uchar list) syscalls" where
  "pipe_calls = \<lparr>sc_read = (\<lambda>fd n (r, u). let k = min n 5 in (int (length (take k r)), take k r, (drop k r, u))),
     sc_write = (\<lambda>fd bs (r, u). (int (length bs), (r, u @ bs))),
     sc_open = (\<lambda>p m w. (-1, w)), sc_close = (\<lambda>fd w. (0, w)), sc_fstat = (\<lambda>fd w. (-1, \<lparr>ust_dev = 0, ust_ino = 0, ust_type = 0, ust_nlink = 0, ust_size = 0\<rparr>, w)),
     sc_dup = (\<lambda>fd w. (-1, w)), sc_pipe = (\<lambda>w. (-1, 0, 0, w)), sc_fork = (\<lambda>w. (-1, w)), sc_wait = (\<lambda>w. (-1, w)),
     sc_exec = (\<lambda>p a w. (Some (-1), w)), sc_chdir = (\<lambda>p w. (-1, w)), sc_link = (\<lambda>p q w. (-1, w)), sc_unlink = (\<lambda>p w. (-1, w)),
     sc_mkdir = (\<lambda>p w. (-1, w)), sc_mknod = (\<lambda>p a b w. (-1, w)), sc_kill = (\<lambda>p w. (-1, w)), sc_sleep = (\<lambda>n w. (0, w))\<rparr>"

lemma pipe_stream: "stream_ok pipe_calls fd fst snd"
  by (auto simp: stream_ok_def pipe_calls_def Let_def split: prod.splits)

theorem grep_prints_matching_lines_witness:
  "\<exists>w'. grep pipe_calls (chars ''b'') 0 [] (chars ''abc'' @ [0x0A] @ chars ''xyzxyz'' @ [0x0A] @ chars ''bb'' @ [0x0A] @ chars ''b'', []) = uret () w' \<and>
    snd w' = chars ''abc'' @ [0x0A] @ chars ''bb'' @ [0x0A]"
proof -
  let ?f = "chars ''abc'' @ [0x0A] @ chars ''xyzxyz'' @ [0x0A] @ chars ''bb'' @ [0x0A] @ chars ''b''"
  have f: "?f = [0x61, 0x62, 0x63, 0x0A, 0x78, 0x79, 0x7A, 0x78, 0x79, 0x7A, 0x0A, 0x62, 0x62, 0x0A, 0x62]" by (simp add: chars_def of_char_def)
  have b: "chars ''b'' = [0x62]" "chars ''abc'' = [0x61, 0x62, 0x63]" "chars ''bb'' = [0x62, 0x62]" by (simp_all add: chars_def of_char_def)
  have "matching [0x62] ?f = chars ''abc'' @ [0x0A] @ chars ''bb'' @ [0x0A]"
    unfolding f by (simp add: matching_def b match_def match_any.simps matchhere_cases stands_for_def)
  moreover have "0 \<notin> set ?f" "short_lines ?f" unfolding f by (simp_all add: short_lines_def)
  ultimately show ?thesis using grep_prints_matching_lines [OF pipe_stream, of "(?f, [])" "[0x62]" 0] unfolding b(1) by auto
qed

text \<open>A buffer full of a line that does not end: \<^verbatim>\<open>grep\<close> asks for no bytes and stops, whatever is left.\<close>

lemma grep_gives_up:
  assumes "stream_ok S fd rest out" and "1023 \<le> length buf"
  shows "\<exists>w'. grep S pattern fd buf w = uret () w' \<and> rest w' = rest w \<and> out w' = out w"
proof -
  obtain k bs w1 where rd: "sc_read S fd (1024 - length buf - 1) w = (k, bs, w1)" by (cases "sc_read S fd (1024 - length buf - 1) w")
  then have "bs = []" "k = 0" "rest w1 = rest w" "out w1 = out w"
    using stream_read [OF assms(1) rd] assms(2) by auto
  then show ?thesis using rd by (intro exI [of _ w1], subst grep.simps) simp
qed

end
