(* ===== verification/Sh_Spec.thy ===== *)
theory Sh_Spec
  imports Sh Grep
begin

text \<open>
  The language of the shell: the tokens of a line, a grammar for the commands, and the proof that
  \<^verbatim>\<open>parsecmd\<close> accepts exactly the lines of the grammar and builds the command they denote. The proof
  goes through a parser of token lists, which the parser of the shell simulates.
\<close>

section \<open>Positions\<close>

lemma skip_while_mono: "s \<le> skip_while f b es s"
  by (induction f b es s rule: skip_while.induct) (subst skip_while.simps, auto)

lemma skip_while_bound: "s \<le> es \<Longrightarrow> skip_while f b es s \<le> es"
  by (induction f b es s rule: skip_while.induct) (subst skip_while.simps, auto)
definition wordchar :: "uchar \<Rightarrow> bool" where
  "wordchar c \<longleftrightarrow> \<not> in_str whitespace c \<and> \<not> in_str symbols c"

definition buf_ok :: "uchar list \<Rightarrow> nat \<Rightarrow> bool" where
  "buf_ok b es \<longleftrightarrow> es < length b \<and> b ! es = 0 \<and> (\<forall>i < es. b ! i \<noteq> 0)"

definition text_from :: "uchar list \<Rightarrow> nat \<Rightarrow> nat \<Rightarrow> uchar list" where
  "text_from b es s = drop s (take es b)"

lemma text_from_Cons: "buf_ok b es \<Longrightarrow> s < es \<Longrightarrow> text_from b es s = b ! s # text_from b es (s + 1)"
  by (simp add: text_from_def buf_ok_def Cons_nth_drop_Suc [symmetric])

lemma text_from_end: "text_from b es s = [] \<longleftrightarrow> es \<le> s \<or> length b \<le> s"
  by (auto simp: text_from_def)

lemma text_from_es [simp]: "text_from b es es = []"
  by (simp add: text_from_end)

lemma skip_while_more: "s < es \<Longrightarrow> f (b ! s) \<Longrightarrow> skip_while f b es s = skip_while f b es (Suc s)"
  by (simp add: skip_while.simps)

lemma skip_while_halt: "\<not> (s < es \<and> f (b ! s)) \<Longrightarrow> skip_while f b es s = s"
  by (subst skip_while.simps) (rule if_not_P)

lemma skip_while_text: "buf_ok b es \<Longrightarrow> s \<le> es \<Longrightarrow> text_from b es (skip_while f b es s) = dropWhile f (text_from b es s)"
proof (induction f b es s rule: skip_while.induct)
  case (1 f b es s)
  then show ?case by (cases "s < es") (subst skip_while.simps, simp add: text_from_Cons, simp add: skip_while.simps)
qed

lemma skip_while_all: "s \<le> i \<Longrightarrow> i < skip_while f b es s \<Longrightarrow> f (b ! i)"
proof (induction f b es s rule: skip_while.induct)
  case (1 f b es s)
  show ?case
  proof (cases "s < es \<and> f (b ! s)")
    case True
    then have "skip_while f b es s = skip_while f b es (s + 1)" by (simp add: skip_while_more)
    then show ?thesis using 1 True by (cases "i = s") auto
  next
    case False
    then have "skip_while f b es s = s" by (rule skip_while_halt)
    then show ?thesis using 1 by simp
  qed
qed

lemma skip_while_stops: "skip_while f b es s < es \<Longrightarrow> \<not> f (b ! skip_while f b es s)"
proof (induction f b es s rule: skip_while.induct)
  case (1 f b es s)
  show ?case
  proof (cases "s < es \<and> f (b ! s)")
    case True
    then have "skip_while f b es s = skip_while f b es (s + 1)" by (simp add: skip_while_more)
    then show ?thesis using 1 True by simp
  next
    case False
    then have "skip_while f b es s = s" by (rule skip_while_halt)
    then show ?thesis using 1(2) False by simp
  qed
qed

section \<open>Tokens\<close>

datatype tok = Word "uchar list" | Lt | Gt | GtGt | Bar | LPar | RPar | Semi | Amp

function lexer :: "uchar list \<Rightarrow> tok list" where
  "lexer [] = []"
| "lexer (c # cs) =
     (if in_str whitespace c then lexer cs
      else if c = 0x3E then (case cs of d # ds \<Rightarrow> if d = 0x3E then GtGt # lexer ds else Gt # lexer cs | [] \<Rightarrow> [Gt])
      else if c = 0x3C then Lt # lexer cs
      else if c = 0x7C then Bar # lexer cs
      else if c = 0x28 then LPar # lexer cs
      else if c = 0x29 then RPar # lexer cs
      else if c = 0x3B then Semi # lexer cs
      else if c = 0x26 then Amp # lexer cs
      else Word (c # takeWhile wordchar cs) # lexer (dropWhile wordchar cs))"
  by pat_completeness auto
termination
  by (relation "measure length") (auto simp: le_imp_less_Suc length_dropWhile_le)

declare lexer.simps(2) [simp del]

lemma lexer_length: "length (lexer cs) \<le> length cs"
proof (induction "length cs" arbitrary: cs rule: less_induct)
  case less
  show ?case
  proof (cases cs)
    case (Cons c ds)
    have d: "length (lexer ds) \<le> length ds" using less Cons by simp
    have e: "length (lexer es) < length ds" if "ds = e # es" for e es using less [of es] Cons that by simp
    have "length (lexer (dropWhile wordchar ds)) \<le> length (dropWhile wordchar ds)"
      using length_dropWhile_le [of wordchar ds] by (intro less) (simp add: Cons)
    then have w: "length (lexer (dropWhile wordchar ds)) \<le> length ds" using length_dropWhile_le [of wordchar ds] by linarith
    show ?thesis
    proof (cases "c = 0x3E")
      case True
      then show ?thesis using d e unfolding Cons by (cases ds) (auto simp: lexer.simps(2) in_str_def whitespace_def)
    next
      case False
      then show ?thesis unfolding Cons lexer.simps(2) using d w by simp
    qed
  qed simp
qed

lemma lexer_blanks: "lexer (dropWhile (in_str whitespace) cs) = lexer cs"
  by (induction cs) (auto simp: lexer.simps(2))

definition toks :: "uchar list \<Rightarrow> nat \<Rightarrow> nat \<Rightarrow> tok list" where
  "toks b es s = lexer (text_from b es s)"

lemma toks_skip: "buf_ok b es \<Longrightarrow> s \<le> es \<Longrightarrow> toks b es (skip_while (in_str whitespace) b es s) = toks b es s"
  by (simp add: toks_def skip_while_text lexer_blanks)

fun kind :: "tok \<Rightarrow> uchar" where
  "kind (Word x) = 0x61"
| "kind Lt = 0x3C"
| "kind Gt = 0x3E"
| "kind GtGt = 0x2B"
| "kind Bar = 0x7C"
| "kind LPar = 0x28"
| "kind RPar = 0x29"
| "kind Semi = 0x3B"
| "kind Amp = 0x26"

text \<open>A word of the buffer: from its first character up to the one that ends it.\<close>

definition word_at :: "uchar list \<Rightarrow> nat \<Rightarrow> nat \<times> nat \<Rightarrow> bool" where
  "word_at b es a \<longleftrightarrow> fst a < snd a \<and> snd a \<le> es \<and> (\<forall>i. fst a \<le> i \<and> i < snd a \<longrightarrow> wordchar (b ! i)) \<and> \<not> (wordchar (b ! snd a) \<and> b ! snd a \<noteq> 0)"

definition word_of :: "uchar list \<Rightarrow> nat \<times> nat \<Rightarrow> uchar list" where
  "word_of b a = text_from b (snd a) (fst a)"

lemma text_from_split:
  assumes "buf_ok b es" and "s \<le> k" and "k \<le> es"
  shows "text_from b es s = text_from b k s @ text_from b es k"
proof -
  have "take es b = take k b @ drop k (take es b)" using append_take_drop_id [of k "take es b"] assms(3) by (simp add: min_absorb1)
  then have "drop s (take es b) = drop s (take k b @ drop k (take es b))" by simp
  then show ?thesis using assms by (simp add: text_from_def buf_ok_def)
qed

lemma skip_while_taken:
  assumes "buf_ok b es" and "s \<le> es"
  shows "text_from b (skip_while f b es s) s = takeWhile f (text_from b es s)"
proof -
  let ?k = "skip_while f b es s"
  have k: "s \<le> ?k" "?k \<le> es" using skip_while_mono skip_while_bound [OF assms(2)] by auto
  have "text_from b es s = text_from b ?k s @ text_from b es ?k"
    by (rule text_from_split [OF assms(1) k])
  moreover have "\<forall>x \<in> set (text_from b ?k s). f x"
    using skip_while_all [of s _ f b es] assms(1) k by (auto simp: text_from_def in_set_conv_nth buf_ok_def)
  moreover have "text_from b es ?k = [] \<or> \<not> f (hd (text_from b es ?k))"
    using skip_while_stops [of f b es s] text_from_Cons [OF assms(1), of ?k] k by (cases "?k < es") (auto simp: text_from_end)
  moreover from this have "takeWhile f (text_from b es ?k) = []" by (cases "text_from b es ?k") auto
  ultimately show ?thesis using takeWhile_append2 [of "text_from b ?k s" f "text_from b es ?k"] by simp
qed

lemma gettoken_none:
  assumes "buf_ok b es" and "s \<le> es" and "toks b es s = []"
  shows "gettoken b es s = (0, es, es, es)"
proof -
  let ?p = "skip_while (in_str whitespace) b es s"
  have "?p \<le> es" by (rule skip_while_bound [OF assms(2)])
  moreover have "text_from b es ?p = []"
  proof (cases "text_from b es ?p")
    case (Cons c cs)
    then have "?p < es" using text_from_end [of b es ?p] by simp
    moreover have "lexer (c # cs) = []" using assms toks_skip [OF assms(1,2)] Cons by (simp add: toks_def)
    ultimately show ?thesis
      using skip_while_stops [of "in_str whitespace" b es s] text_from_Cons [OF assms(1), of ?p] Cons by (auto simp: lexer.simps(2) split: if_splits list.splits)
  qed simp
  ultimately have "?p = es" using assms(1) by (auto simp: text_from_end buf_ok_def)
  then show ?thesis using assms(1) by (simp add: gettoken_def buf_ok_def skip_while_halt)
qed

lemma gettoken_next:
  assumes "buf_ok b es" and "s \<le> es" and "toks b es s = t # ts"
  obtains q eq s' where "gettoken b es s = (kind t, q, eq, s')" and "s' \<le> es" and "toks b es s' = ts"
    and "\<And>x. t = Word x \<Longrightarrow> word_at b es (q, eq) \<and> word_of b (q, eq) = x"
proof -
  let ?ws = "in_str whitespace"
  let ?p = "skip_while ?ws b es s"
  have p: "?p \<le> es" by (rule skip_while_bound [OF assms(2)])
  have l: "lexer (text_from b es ?p) = t # ts" using assms toks_skip [OF assms(1,2)] by (simp add: toks_def)
  then have "text_from b es ?p \<noteq> []" by auto
  then have pe: "?p < es" by (simp add: text_from_end)
  define c where "c = b ! ?p"
  define v where "v = text_from b es (?p + 1)"
  have u: "text_from b es ?p = c # v" using text_from_Cons [OF assms(1) pe] by (simp add: c_def v_def)
  have c0: "c \<noteq> 0" "\<not> ?ws c" using assms(1) pe skip_while_stops [OF pe] by (auto simp: buf_ok_def c_def)
  have done1: "toks b es (skip_while ?ws b es k) = lexer (text_from b es k)" "skip_while ?ws b es k \<le> es" if "k \<le> es" for k
    using toks_skip [OF assms(1) that] skip_while_bound [OF that] by (simp_all add: toks_def)
  consider (sym) "c \<in> {0x7C, 0x28, 0x29, 0x3B, 0x26, 0x3C}" | (gt) "c = 0x3E" | (word) "c \<notin> {0x7C, 0x28, 0x29, 0x3B, 0x26, 0x3C, 0x3E}" by auto
  then show ?thesis
  proof cases
    case sym
    then have g: "gettoken b es s = (c, ?p, ?p + 1, skip_while ?ws b es (?p + 1))" using c0 by (simp add: gettoken_def Let_def c_def)
    have "kind t = c \<and> ts = lexer v \<and> (\<forall>x. t \<noteq> Word x)" using l sym c0 unfolding u lexer.simps(2) by auto
    then show ?thesis using done1 [of "?p + 1"] pe g by (intro that) (auto simp: v_def)
  next
    case gt
    show ?thesis
    proof (cases "b ! (?p + 1) = 0x3E")
      case True
      then have "?p + 1 < es" using assms(1) pe by (cases "?p + 1 = es") (auto simp: buf_ok_def)
      then have "v = 0x3E # text_from b es (?p + 2)" using text_from_Cons [OF assms(1), of "?p + 1"] True by (simp add: v_def)
      then have "t = GtGt" "ts = lexer (text_from b es (?p + 2))" using l gt c0 unfolding u lexer.simps(2) by auto
      moreover have "gettoken b es s = (0x2B, ?p, ?p + 2, skip_while ?ws b es (?p + 2))"
        using True gt by (simp add: gettoken_def Let_def c_def)
      ultimately show ?thesis using done1 [of "?p + 2"] \<open>?p + 1 < es\<close> by (auto intro: that)
    next
      case False
      have "t = Gt \<and> ts = lexer v"
      proof (cases "?p + 1 < es")
        case True
        then show ?thesis using l gt c0 False text_from_Cons [OF assms(1) True] unfolding u lexer.simps(2) v_def by auto
      next
        case f: False
        then have "v = []" using pe by (simp add: v_def text_from_end)
        then show ?thesis using l gt c0 unfolding u lexer.simps(2) by auto
      qed
      moreover have "gettoken b es s = (0x3E, ?p, ?p + 1, skip_while ?ws b es (?p + 1))"
        using False gt by (simp add: gettoken_def Let_def c_def)
      ultimately show ?thesis using done1 [of "?p + 1"] pe by (auto simp: v_def intro: that)
    qed
  next
    case word
    let ?e = "skip_while wordchar b es ?p"
    have wc: "wordchar c" using word c0 by (auto simp: wordchar_def in_str_def symbols_def)
    have g: "gettoken b es s = (0x61, ?p, ?e, skip_while ?ws b es ?e)"
      using word c0 by (simp add: gettoken_def Let_def c_def wordchar_def [abs_def])
    have "?e = skip_while wordchar b es (Suc ?p)" using skip_while_more [OF pe, of wordchar b] wc by (simp add: c_def)
    then have e: "?p < ?e" "?e \<le> es" using skip_while_mono [of "Suc ?p" wordchar b es] skip_while_bound [OF p, of wordchar b] by linarith+
    have t: "t = Word (takeWhile wordchar (c # v))" "ts = lexer (dropWhile wordchar (c # v))" using l word c0 wc unfolding u lexer.simps(2) by auto
    have "word_at b es (?p, ?e)"
      using e skip_while_all [of ?p _ wordchar b es] skip_while_stops [of wordchar b es ?p] assms(1) by (cases "?e = es") (auto simp: word_at_def buf_ok_def)
    moreover have "word_of b (?p, ?e) = takeWhile wordchar (c # v)" using skip_while_taken [OF assms(1) p, of wordchar] u by (simp add: word_of_def)
    moreover have "toks b es (skip_while ?ws b es ?e) = ts" using done1 [OF e(2)] skip_while_text [OF assms(1) p, of wordchar] t(2) u by simp
    ultimately show ?thesis using g t(1) done1 [OF e(2)] by (auto intro: that)
  qed
qed

fun lead :: "tok \<Rightarrow> uchar" where
  "lead (Word x) = 0"
| "lead GtGt = 0x3E"
| "lead t = kind t"

definition starts :: "uchar list \<Rightarrow> tok list \<Rightarrow> bool" where
  "starts cs ts \<longleftrightarrow> (case ts of [] \<Rightarrow> False | t # _ \<Rightarrow> in_str cs (lead t))"

lemma lexer_lead: "lexer (c # cs) = t # ts \<Longrightarrow> \<not> in_str whitespace c \<Longrightarrow> lead t = (if in_str symbols c then c else 0)"
  unfolding lexer.simps(2) by (auto simp: in_str_def symbols_def split: if_splits list.splits)

lemma peek_toks:
  assumes "buf_ok b es" and "s \<le> es" and "set cs \<subseteq> set symbols"
  obtains s' where "peek b es s cs = (starts cs (toks b es s), s')" and "s' \<le> es" and "toks b es s' = toks b es s"
proof -
  let ?p = "skip_while (in_str whitespace) b es s"
  have p: "?p \<le> es" "toks b es ?p = toks b es s" using skip_while_bound [OF assms(2)] toks_skip [OF assms(1,2)] by auto
  have "(b ! ?p \<noteq> 0 \<and> in_str cs (b ! ?p)) = starts cs (toks b es s)"
  proof (cases "toks b es s")
    case Nil
    then show ?thesis using gettoken_none [OF assms(1,2)] assms(1) by (auto simp: gettoken_def Let_def starts_def split: if_splits)
  next
    case (Cons t ts)
    then have l: "lexer (text_from b es ?p) = t # ts" using p(2) by (simp add: toks_def)
    then have "text_from b es ?p \<noteq> []" by auto
    then have pe: "?p < es" by (simp add: text_from_end)
    have "lexer (b ! ?p # text_from b es (?p + 1)) = t # ts" using l text_from_Cons [OF assms(1) pe] by simp
    from lexer_lead [OF this skip_while_stops [OF pe]] show ?thesis using assms(3) Cons by (auto simp: starts_def in_str_def)
  qed
  then show ?thesis using that [OF _ p] by (simp add: peek_def)
qed

section \<open>Commands as the shell runs them\<close>

datatype scmd = SNull | SExec "uchar list list" | SRedir scmd "uchar list" uint32 int | SPipe scmd scmd | SList scmd scmd | SBack scmd

fun den :: "(nat \<times> nat \<Rightarrow> uchar list) \<Rightarrow> cmd \<Rightarrow> scmd" where
  "den f Null = SNull"
| "den f (EXEC as) = SExec (map f as)"
| "den f (REDIR c q e mode fd) = SRedir (den f c) (f (q, e)) mode fd"
| "den f (PIPE l r) = SPipe (den f l) (den f r)"
| "den f (LIST l r) = SList (den f l) (den f r)"
| "den f (BACK c) = SBack (den f c)"

text \<open>Every argument and file name of the command is a word of the buffer.\<close>

fun placed :: "uchar list \<Rightarrow> nat \<Rightarrow> cmd \<Rightarrow> bool" where
  "placed b es Null \<longleftrightarrow> False"
| "placed b es (EXEC as) \<longleftrightarrow> (\<forall>a \<in> set as. word_at b es a)"
| "placed b es (REDIR c q e mode fd) \<longleftrightarrow> placed b es c \<and> word_at b es (q, e)"
| "placed b es (PIPE l r) \<longleftrightarrow> placed b es l \<and> placed b es r"
| "placed b es (LIST l r) \<longleftrightarrow> placed b es l \<and> placed b es r"
| "placed b es (BACK c) \<longleftrightarrow> placed b es c"

fun sarg :: "uchar list \<Rightarrow> scmd \<Rightarrow> scmd" where
  "sarg x (SExec xs) = SExec (xs @ [x])"
| "sarg x (SRedir c f mode fd) = SRedir (sarg x c) f mode fd"
| "sarg x c = c"

lemma den_exec_arg: "den f (exec_arg a c) = sarg (f a) (den f c)"
  by (induction a c rule: exec_arg.induct) auto

lemma placed_exec_arg: "word_at b es a \<Longrightarrow> placed b es c \<Longrightarrow> placed b es (exec_arg a c)"
  by (induction a c rule: exec_arg.induct) auto

section \<open>A parser of token lists\<close>

definition is_redir :: "tok \<Rightarrow> bool" where
  "is_redir t \<longleftrightarrow> t \<in> {Lt, Gt, GtGt}"

definition wrap :: "tok \<times> uchar list \<Rightarrow> scmd \<Rightarrow> scmd" where
  "wrap r c =
     (if fst r = Lt then SRedir c (snd r) O_RDONLY 0
      else if fst r = Gt then SRedir c (snd r) (O_WRONLY OR O_CREATE OR O_TRUNC) 1
      else SRedir c (snd r) (O_WRONLY OR O_CREATE) 1)"

fun tredirs :: "scmd \<Rightarrow> tok list \<Rightarrow> (scmd, tok list) parse" where
  "tredirs c [] = pret c []"
| "tredirs c (t # ts) =
     (if is_redir t then case ts of Word x # us \<Rightarrow> tredirs (wrap (t, x) c) us | _ \<Rightarrow> ppanic ''missing file for redirection''
      else pret c (t # ts))"

lemma tredirs_length: "tredirs c ts = pret c' ts' \<Longrightarrow> length ts' \<le> length ts"
  by (induction c ts arbitrary: c' rule: tredirs.induct) (auto split: if_splits list.splits tok.splits simp: le_SucI)

lemma pbind_cong [fundef_cong]: "r = r' \<Longrightarrow> (\<And>x s. r' = pret x s \<Longrightarrow> f x s = g x s) \<Longrightarrow> pbind r f = pbind r' g"
  by (cases r' rule: parse_cases) auto

function targs :: "nat \<Rightarrow> scmd \<Rightarrow> tok list \<Rightarrow> (scmd, tok list) parse" where
  "targs argc c [] = pret c []"
| "targs argc c (t # ts) =
     (if t \<in> {Bar, RPar, Amp, Semi} then pret c (t # ts)
      else case t of
        Word x \<Rightarrow>
          if argc + 1 \<ge> MAXARGS then ppanic ''too many args''
          else pbind (tredirs (sarg x c) ts) (\<lambda>c ts. targs (argc + 1) c ts)
      | _ \<Rightarrow> ppanic ''syntax'')"
  by pat_completeness auto
termination
  by (relation "measure (\<lambda>(argc, c, ts). length ts)") (auto dest: tredirs_length)

fun tback :: "scmd \<Rightarrow> tok list \<Rightarrow> scmd \<times> tok list" where
  "tback c (Amp # ts) = tback (SBack c) ts"
| "tback c ts = (c, ts)"

definition after :: "tok \<Rightarrow> tok list \<Rightarrow> tok list option" where
  "after t ts = (if ts \<noteq> [] \<and> hd ts = t then Some (tl ts) else None)"

lemma after_Some: "after t ts = Some us \<longleftrightarrow> ts = t # us"
  by (cases ts) (auto simp: after_def)

lemma after_same [simp]: "after t (t # us) = Some us"
  by (simp add: after_Some)

lemma after_None: "after t ts = None \<longleftrightarrow> (\<forall>us. ts \<noteq> t # us)"
  by (cases ts) (auto simp: after_def)

datatype phrase = Line | Pipe | Exec

primrec tparse :: "nat \<Rightarrow> phrase \<Rightarrow> tok list \<Rightarrow> (scmd, tok list) parse" where
  "tparse 0 k ts = None"
| "tparse (Suc n) k ts =
     (case k of
        Line \<Rightarrow>
          pbind (tparse n Pipe ts) (\<lambda>c ts.
          let (c, ts) = tback c ts in
          case after Semi ts of
            Some ts \<Rightarrow> pbind (tparse n Line ts) (\<lambda>d ts. pret (SList c d) ts)
          | None \<Rightarrow> pret c ts)
      | Pipe \<Rightarrow>
          pbind (tparse n Exec ts) (\<lambda>c ts.
          case after Bar ts of
            Some ts \<Rightarrow> pbind (tparse n Pipe ts) (\<lambda>d ts. pret (SPipe c d) ts)
          | None \<Rightarrow> pret c ts)
      | Exec \<Rightarrow>
          (case after LPar ts of
             Some ts \<Rightarrow>
               pbind (tparse n Line ts) (\<lambda>c ts. case after RPar ts of Some ts \<Rightarrow> tredirs c ts | None \<Rightarrow> ppanic ''syntax - missing )'')
           | None \<Rightarrow> pbind (tredirs (SExec []) ts) (\<lambda>c ts. targs 0 c ts)))"

section \<open>The parser of the shell follows the parser of token lists\<close>

definition sim :: "uchar list \<Rightarrow> nat \<Rightarrow> (scmd, tok list) parse \<Rightarrow> (cmd, nat) parse \<Rightarrow> bool" where
  "sim b es r p \<longleftrightarrow> (\<forall>msg. r = ppanic msg \<longrightarrow> p = ppanic msg) \<and>
     (\<forall>c ts. r = pret c ts \<longrightarrow> (\<exists>cmd s. p = pret cmd s \<and> s \<le> es \<and> toks b es s = ts \<and> den (word_of b) cmd = c \<and> placed b es cmd))"

lemma sim_simps [simp]:
  "sim b es None p"
  "sim b es (ppanic msg) p \<longleftrightarrow> p = ppanic msg"
  "sim b es (pret c ts) (pret cmd s) \<longleftrightarrow> s \<le> es \<and> toks b es s = ts \<and> den (word_of b) cmd = c \<and> placed b es cmd"
  unfolding sim_def by (auto simp: eq_commute [of None])

lemma sim_bind:
  assumes "sim b es r p"
    and "\<And>cmd s. r = pret (den (word_of b) cmd) (toks b es s) \<Longrightarrow> s \<le> es \<Longrightarrow> placed b es cmd \<Longrightarrow> sim b es (f (den (word_of b) cmd) (toks b es s)) (g cmd s)"
  shows "sim b es (pbind r f) (pbind p g)"
proof (cases r rule: parse_cases)
  case (ret c ts)
  then obtain cmd s where "p = pret cmd s" "s \<le> es" "toks b es s = ts" "den (word_of b) cmd = c" "placed b es cmd"
    using assms(1) by (auto simp: sim_def)
  then show ?thesis using assms(2) [of cmd s] ret by simp
qed (use assms(1) in auto)

lemma chars_syms [simp]:
  "chars ''<>'' = [0x3C, 0x3E]" "chars ''|)&;'' = [0x7C, 0x29, 0x26, 0x3B]" "chars ''&'' = [0x26]" "chars '';'' = [0x3B]"
  "chars ''|'' = [0x7C]" "chars ''('' = [0x28]" "chars '')'' = [0x29]"
  by (simp_all add: chars_def of_char_def)

lemma kind_word: "kind t = 0x61 \<longleftrightarrow> (\<exists>x. t = Word x)"
  by (cases t) auto

lemma kind_nonzero: "kind t \<noteq> 0"
  by (cases t) auto

lemma starts_simps [simp]:
  "starts cs [] \<longleftrightarrow> False"
  "starts [0x3C, 0x3E] (t # ts) \<longleftrightarrow> is_redir t"
  "starts [0x7C, 0x29, 0x26, 0x3B] (t # ts) \<longleftrightarrow> t \<in> {Bar, RPar, Amp, Semi}"
  "starts [0x26] (t # ts) \<longleftrightarrow> t = Amp"
  "starts [0x3B] (t # ts) \<longleftrightarrow> t = Semi"
  "starts [0x7C] (t # ts) \<longleftrightarrow> t = Bar"
  "starts [0x28] (t # ts) \<longleftrightarrow> t = LPar"
  "starts [0x29] (t # ts) \<longleftrightarrow> t = RPar"
  by (cases t; simp add: starts_def in_str_def is_redir_def)+

lemma peek_sym:
  assumes "buf_ok b es" and "s \<le> es" and "cs \<in> {[0x3C, 0x3E], [0x7C, 0x29, 0x26, 0x3B], [0x26], [0x3B], [0x7C], [0x28], [0x29]}"
  obtains s' where "peek b es s cs = (starts cs (toks b es s), s')" and "s' \<le> es" and "toks b es s' = toks b es s"
proof -
  have "set cs \<subseteq> set symbols" using assms(3) by (auto simp: symbols_def)
  then show ?thesis by (rule peek_toks [OF assms(1,2)]) (rule that)
qed

lemma wrap_redircmd:
  assumes "is_redir t"
  shows "den f (if kind t = 0x3C then redircmd cmd q e O_RDONLY 0
      else if kind t = 0x3E then redircmd cmd q e (O_WRONLY OR O_CREATE OR O_TRUNC) 1
      else if kind t = 0x2B then redircmd cmd q e (O_WRONLY OR O_CREATE) 1 else cmd) = wrap (t, f (q, e)) (den f cmd)"
  using assms by (auto simp: is_redir_def wrap_def redircmd_def)

lemma parseredirs_sim:
  assumes "buf_ok b es"
  shows "s \<le> es \<Longrightarrow> placed b es cmd \<Longrightarrow> length (toks b es s) < n \<Longrightarrow> sim b es (tredirs (den (word_of b) cmd) (toks b es s)) (parseredirs n b es cmd s)"
proof (induction n arbitrary: s cmd)
  case (Suc n)
  obtain s1 where k: "peek b es s [0x3C, 0x3E] = (starts [0x3C, 0x3E] (toks b es s), s1)" "s1 \<le> es" "toks b es s1 = toks b es s"
    by (rule peek_sym [OF assms Suc.prems(1), of "[0x3C, 0x3E]"]) auto
  show ?case
  proof (cases "toks b es s")
    case Nil
    then show ?thesis using k Suc.prems by simp
  next
    case (Cons t ts)
    show ?thesis
    proof (cases "is_redir t")
      case False
      then show ?thesis using k Suc.prems Cons by simp
    next
      case True
      obtain q e s2 where g: "gettoken b es s1 = (kind t, q, e, s2)" "s2 \<le> es" "toks b es s2 = ts"
        using gettoken_next [OF assms k(2) k(3) [unfolded Cons]] by metis
      show ?thesis
      proof (cases ts)
        case Nil
        then show ?thesis using gettoken_none [OF assms g(2)] g k True Cons by simp
      next
        case t2: (Cons t2 us)
        obtain q2 e2 s3 where g2: "gettoken b es s2 = (kind t2, q2, e2, s3)" "s3 \<le> es" "toks b es s3 = us"
            "\<And>x. t2 = Word x \<Longrightarrow> word_at b es (q2, e2) \<and> word_of b (q2, e2) = x"
          using gettoken_next [OF assms g(2) g(3) [unfolded t2]] by metis
        show ?thesis
        proof (cases "\<exists>x. t2 = Word x")
          case False
          then show ?thesis using g g2 k True Cons t2 kind_word [of t2] by (auto split: tok.splits)
        next
          case w: True
          then obtain x where x: "t2 = Word x" by blast
          let ?c = "if kind t = 0x3C then redircmd cmd q2 e2 O_RDONLY 0
            else if kind t = 0x3E then redircmd cmd q2 e2 (O_WRONLY OR O_CREATE OR O_TRUNC) 1
            else if kind t = 0x2B then redircmd cmd q2 e2 (O_WRONLY OR O_CREATE) 1 else cmd"
          have "placed b es ?c" using Suc.prems(2) g2(4) x by (simp add: redircmd_def)
          then have "sim b es (tredirs (den (word_of b) ?c) (toks b es s3)) (parseredirs n b es ?c s3)"
            using Suc.IH [OF g2(2)] Suc.prems(3) Cons t2 g2(3) by simp
          then show ?thesis using g g2 k True Cons t2 x wrap_redircmd [OF True, of "word_of b" cmd q2 e2] by simp
        qed
      qed
    qed
  qed
qed simp

lemma peek_then_get:
  assumes "buf_ok b es" and "s \<le> es" and "cs \<in> {[0x3C, 0x3E], [0x7C, 0x29, 0x26, 0x3B], [0x26], [0x3B], [0x7C], [0x28], [0x29]}"
    and "toks b es s = t # ts" and "starts cs (t # ts)"
  obtains s1 q e s2 where "peek b es s cs = (True, s1)" and "gettoken b es s1 = (kind t, q, e, s2)" and "s1 \<le> es" and "toks b es s1 = t # ts"
    and "s2 \<le> es" and "toks b es s2 = ts"
proof -
  obtain s1 where k: "peek b es s cs = (starts cs (toks b es s), s1)" "s1 \<le> es" "toks b es s1 = toks b es s"
    by (rule peek_sym [OF assms(1,2,3)])
  obtain q e s2 where "gettoken b es s1 = (kind t, q, e, s2)" "s2 \<le> es" "toks b es s2 = ts"
    using gettoken_next [OF assms(1) k(2) k(3) [unfolded assms(4)]] by metis
  then show ?thesis using that k assms(4,5) by simp
qed

lemma parseargs_sim:
  assumes "buf_ok b es"
  shows "s \<le> es \<Longrightarrow> placed b es cmd \<Longrightarrow> length (toks b es s) < n \<Longrightarrow>
    sim b es (targs argc (den (word_of b) cmd) (toks b es s)) (parseargs n b es argc cmd s)"
proof (induction n arbitrary: s cmd argc)
  case (Suc n)
  obtain s1 where k: "peek b es s [0x7C, 0x29, 0x26, 0x3B] = (starts [0x7C, 0x29, 0x26, 0x3B] (toks b es s), s1)" "s1 \<le> es" "toks b es s1 = toks b es s"
    by (rule peek_sym [OF assms Suc.prems(1), of "[0x7C, 0x29, 0x26, 0x3B]"]) auto
  show ?case
  proof (cases "toks b es s")
    case Nil
    then show ?thesis using k Suc.prems gettoken_none [OF assms k(2)] by (simp add: toks_def)
  next
    case (Cons t ts)
    show ?thesis
    proof (cases "t \<in> {Bar, RPar, Amp, Semi}")
      case True
      then show ?thesis using k Suc.prems Cons by simp
    next
      case False
      obtain q e s2 where g: "gettoken b es s1 = (kind t, q, e, s2)" "s2 \<le> es" "toks b es s2 = ts"
          "\<And>x. t = Word x \<Longrightarrow> word_at b es (q, e) \<and> word_of b (q, e) = x"
        using gettoken_next [OF assms k(2) k(3) [unfolded Cons]] by metis
      show ?thesis
      proof (cases "\<exists>x. t = Word x")
        case nw: False
        then show ?thesis using g k False Cons kind_word [of t] kind_nonzero [of t] by (auto split: tok.splits)
      next
        case w: True
        then obtain x where x: "t = Word x" by blast
        have a: "placed b es (exec_arg (q, e) cmd)" "den (word_of b) (exec_arg (q, e) cmd) = sarg x (den (word_of b) cmd)"
          using g(4) [OF x] Suc.prems(2) by (simp_all add: placed_exec_arg den_exec_arg)
        have r: "sim b es (tredirs (sarg x (den (word_of b) cmd)) ts) (parseredirs n b es (exec_arg (q, e) cmd) s2)"
          using parseredirs_sim [OF assms g(2) a(1), of n] Suc.prems(3) Cons a(2) g(3) by simp
        have "sim b es (pbind (tredirs (sarg x (den (word_of b) cmd)) ts) (\<lambda>c ts. targs (argc + 1) c ts))
          (pbind (parseredirs n b es (exec_arg (q, e) cmd) s2) (\<lambda>ret s. parseargs n b es (argc + 1) ret s))"
        proof (rule sim_bind [OF r])
          fix cmd' s'
          assume "tredirs (sarg x (den (word_of b) cmd)) ts = pret (den (word_of b) cmd') (toks b es s')" "s' \<le> es" "placed b es cmd'"
          then show "sim b es (targs (argc + 1) (den (word_of b) cmd') (toks b es s')) (parseargs n b es (argc + 1) cmd' s')"
            using Suc.IH Suc.prems(3) Cons tredirs_length [of "sarg x (den (word_of b) cmd)" ts] by fastforce
        qed
        then show ?thesis using g k Cons x by simp
      qed
    qed
  qed
qed simp

lemma parse_back_sim:
  assumes "buf_ok b es"
  shows "s \<le> es \<Longrightarrow> placed b es cmd \<Longrightarrow> length (toks b es s) < n \<Longrightarrow>
    \<exists>cmd' s'. parse_back n b es cmd s = pret cmd' s' \<and> s' \<le> es \<and> tback (den (word_of b) cmd) (toks b es s) = (den (word_of b) cmd', toks b es s') \<and> placed b es cmd'"
proof (induction n arbitrary: s cmd)
  case (Suc n)
  show ?case
  proof (cases "\<exists>ts. toks b es s = Amp # ts")
    case True
    then obtain ts where ts: "toks b es s = Amp # ts" by blast
    obtain s1 q e s2 where g: "peek b es s [0x26] = (True, s1)" "gettoken b es s1 = (kind Amp, q, e, s2)" "s2 \<le> es" "toks b es s2 = ts"
      by (rule peek_then_get [OF assms Suc.prems(1), of "[0x26]", OF _ ts]) auto
    show ?thesis using Suc.IH [OF g(3), of "backcmd cmd"] Suc.prems(2,3) ts g by (simp add: backcmd_def)
  next
    case False
    obtain s1 where "peek b es s [0x26] = (starts [0x26] (toks b es s), s1)" "s1 \<le> es" "toks b es s1 = toks b es s"
      by (rule peek_sym [OF assms Suc.prems(1), of "[0x26]"]) auto
    moreover have "tback c (toks b es s) = (c, toks b es s)" for c using False by (cases "(c, toks b es s)" rule: tback.cases) auto
    moreover have "\<not> starts [0x26] (toks b es s)" using False by (cases "toks b es s") auto
    ultimately show ?thesis using Suc.prems by simp
  qed
qed simp

lemma targs_length: "targs argc c ts = pret c' ts' \<Longrightarrow> length ts' \<le> length ts"
proof (induction argc c ts rule: targs.induct)
  case (2 argc c t ts)
  show ?case
  proof (cases "tredirs (sarg (case t of Word x \<Rightarrow> x) c) ts" rule: parse_cases)
    case (ret d us)
    then show ?thesis using 2 tredirs_length [OF ret] by (cases t) (fastforce split: if_splits)+
  qed (use 2 in \<open>auto split: if_splits tok.splits\<close>)
qed simp

lemma tback_length: "tback c ts = (c', ts') \<Longrightarrow> length ts' \<le> length ts"
  by (induction c ts rule: tback.induct) auto

lemma pbind_eq_pret: "pbind r f = pret y t \<longleftrightarrow> (\<exists>x s. r = pret x s \<and> f x s = pret y t)"
  by (cases r rule: parse_cases) auto

lemma tparse_length: "tparse n k ts = pret c ts' \<Longrightarrow> length ts' \<le> length ts"
proof (induction n arbitrary: k ts c ts')
  case (Suc n)
  show ?case
  proof (cases k)
    case Line
    obtain c1 t1 where 1: "tparse n Pipe ts = pret c1 t1" using Suc.prems Line by (auto simp: pbind_eq_pret)
    obtain c2 t2 where 2: "tback c1 t1 = (c2, t2)" by fastforce
    have l: "length t2 \<le> length ts" using Suc.IH [OF 1] tback_length [OF 2] by simp
    show ?thesis
    proof (cases "after Semi t2")
      case None
      then show ?thesis using Suc.prems Line 1 2 l by simp
    next
      case (Some us)
      then obtain d where "tparse n Line us = pret d ts'" using Suc.prems Line 1 2 by (auto simp: pbind_eq_pret)
      then show ?thesis using Suc.IH [of Line us d ts'] Some l by (simp add: after_Some)
    qed
  next
    case Pipe
    obtain c1 t1 where 1: "tparse n Exec ts = pret c1 t1" using Suc.prems Pipe by (auto simp: pbind_eq_pret)
    show ?thesis
    proof (cases "after Bar t1")
      case None
      then show ?thesis using Suc.prems Pipe 1 Suc.IH [OF 1] by simp
    next
      case (Some us)
      then obtain d where "tparse n Pipe us = pret d ts'" using Suc.prems Pipe 1 by (auto simp: pbind_eq_pret)
      then show ?thesis using Suc.IH [of Pipe us d ts'] Some Suc.IH [OF 1] by (simp add: after_Some)
    qed
  next
    case Exec
    show ?thesis
    proof (cases "after LPar ts")
      case None
      then obtain d us where "tredirs (SExec []) ts = pret d us" "targs 0 d us = pret c ts'" using Suc.prems Exec by (auto simp: pbind_eq_pret)
      then show ?thesis using tredirs_length targs_length le_trans by blast
    next
      case (Some us)
      obtain c1 t1 where 1: "tparse n Line us = pret c1 t1" using Suc.prems Exec Some by (auto simp: pbind_eq_pret)
      then obtain vs where "t1 = RPar # vs" "tredirs c1 vs = pret c ts'" using Suc.prems Exec Some by (auto simp: after_Some split: option.splits)
      then show ?thesis using Suc.IH [OF 1] tredirs_length [of c1 vs c ts'] Some by (simp add: after_Some)
    qed
  qed
qed simp

lemma peek_none:
  assumes "buf_ok b es" and "s \<le> es" and "after t (toks b es s) = None" and "t \<in> {Amp, Semi, Bar, LPar, RPar}"
  obtains s1 where "peek b es s [kind t] = (False, s1)" and "s1 \<le> es" and "toks b es s1 = toks b es s"
proof -
  obtain s1 where k: "peek b es s [kind t] = (starts [kind t] (toks b es s), s1)" "s1 \<le> es" "toks b es s1 = toks b es s"
    by (rule peek_sym [OF assms(1,2), of "[kind t]"]) (use assms(4) in auto)
  have "\<not> starts [kind t] (toks b es s)" using assms(3,4) by (cases "toks b es s") (auto simp: after_def)
  then show ?thesis using that k by simp
qed

lemma peek_some:
  assumes "buf_ok b es" and "s \<le> es" and "after t (toks b es s) = Some us" and "t \<in> {Amp, Semi, Bar, LPar, RPar}"
  obtains s1 q e s2 where "peek b es s [kind t] = (True, s1)" and "gettoken b es s1 = (kind t, q, e, s2)" and "s1 \<le> es" and "toks b es s1 = t # us"
    and "s2 \<le> es" and "toks b es s2 = us"
  by (rule peek_then_get [OF assms(1,2), of "[kind t]" t us]) (use assms(3,4) that in \<open>auto simp: after_Some\<close>)

lemma parseline_sim:
  assumes "buf_ok b es" and "length (toks b es s) < j" and "sim b es (tparse n Pipe (toks b es s)) (parsepipe j b es s)"
    and "\<And>s'. s' \<le> es \<Longrightarrow> length (toks b es s') \<le> length (toks b es s) \<Longrightarrow> sim b es (tparse n Line (toks b es s')) (parseline j b es s')"
  shows "sim b es (tparse (Suc n) Line (toks b es s)) (parseline (Suc j) b es s)"
  unfolding parseline.simps tparse.simps phrase.case
proof (rule sim_bind [OF assms(3)])
  fix cmd s1
  assume r: "tparse n Pipe (toks b es s) = pret (den (word_of b) cmd) (toks b es s1)" "s1 \<le> es" "placed b es cmd"
  have l1: "length (toks b es s1) \<le> length (toks b es s)" by (rule tparse_length [OF r(1)])
  obtain cmd2 s2 where t: "parse_back j b es cmd s1 = pret cmd2 s2" "s2 \<le> es"
      "tback (den (word_of b) cmd) (toks b es s1) = (den (word_of b) cmd2, toks b es s2)" "placed b es cmd2"
    using parse_back_sim [OF assms(1) r(2,3), of j] l1 assms(2) by auto
  have l2: "length (toks b es s2) \<le> length (toks b es s1)" by (rule tback_length [OF t(3)])
  show "sim b es (let (c, ts) = tback (den (word_of b) cmd) (toks b es s1) in
      case after Semi ts of None \<Rightarrow> pret c ts | Some ts \<Rightarrow> pbind (tparse n Line ts) (\<lambda>d ts. pret (SList c d) ts))
    (pbind (parse_back j b es cmd s1) (\<lambda>cmd s. let (p, s) = peek b es s (chars '';'') in
       if p then let (_, _, _, s) = gettoken b es s in pbind (parseline j b es s) (\<lambda>right s. pret (listcmd cmd right) s) else pret cmd s))"
  proof (cases "after Semi (toks b es s2)")
    case None
    obtain s3 where "peek b es s2 [kind Semi] = (False, s3)" "s3 \<le> es" "toks b es s3 = toks b es s2"
      by (rule peek_none [OF assms(1) t(2) None]) auto
    then show ?thesis using t None by simp
  next
    case (Some us)
    obtain s3 q e s4 where g: "peek b es s2 [kind Semi] = (True, s3)" "gettoken b es s3 = (kind Semi, q, e, s4)" "s4 \<le> es" "toks b es s4 = us"
      by (rule peek_some [OF assms(1) t(2) Some]) auto
    have "sim b es (tparse n Line us) (parseline j b es s4)" using assms(4) [OF g(3)] l1 l2 Some g(4) by (simp add: after_Some)
    then have "sim b es (pbind (tparse n Line us) (\<lambda>d ts. pret (SList (den (word_of b) cmd2) d) ts)) (pbind (parseline j b es s4) (\<lambda>right s. pret (listcmd cmd2 right) s))"
      by (rule sim_bind) (simp add: listcmd_def t(4))
    then show ?thesis using t Some g by simp
  qed
qed

lemma parsepipe_sim:
  assumes "buf_ok b es" and "sim b es (tparse n Exec (toks b es s)) (parseexec j b es s)"
    and "\<And>s'. s' \<le> es \<Longrightarrow> length (toks b es s') \<le> length (toks b es s) \<Longrightarrow> sim b es (tparse n Pipe (toks b es s')) (parsepipe j b es s')"
  shows "sim b es (tparse (Suc n) Pipe (toks b es s)) (parsepipe (Suc j) b es s)"
  unfolding parsepipe.simps tparse.simps phrase.case
proof (rule sim_bind [OF assms(2)])
  fix cmd s1
  assume r: "tparse n Exec (toks b es s) = pret (den (word_of b) cmd) (toks b es s1)" "s1 \<le> es" "placed b es cmd"
  have l1: "length (toks b es s1) \<le> length (toks b es s)" by (rule tparse_length [OF r(1)])
  show "sim b es (case after Bar (toks b es s1) of None \<Rightarrow> pret (den (word_of b) cmd) (toks b es s1)
      | Some ts \<Rightarrow> pbind (tparse n Pipe ts) (\<lambda>d ts. pret (SPipe (den (word_of b) cmd) d) ts))
    (let (p, s) = peek b es s1 (chars ''|'') in
       if p then let (_, _, _, s) = gettoken b es s in pbind (parsepipe j b es s) (\<lambda>right s. pret (pipecmd cmd right) s) else pret cmd s)"
  proof (cases "after Bar (toks b es s1)")
    case None
    obtain s3 where "peek b es s1 [kind Bar] = (False, s3)" "s3 \<le> es" "toks b es s3 = toks b es s1"
      by (rule peek_none [OF assms(1) r(2) None]) auto
    then show ?thesis using r None by simp
  next
    case (Some us)
    obtain s3 q e s4 where g: "peek b es s1 [kind Bar] = (True, s3)" "gettoken b es s3 = (kind Bar, q, e, s4)" "s4 \<le> es" "toks b es s4 = us"
      by (rule peek_some [OF assms(1) r(2) Some]) auto
    have "sim b es (tparse n Pipe us) (parsepipe j b es s4)" using assms(3) [OF g(3)] l1 Some g(4) by (simp add: after_Some)
    then have "sim b es (pbind (tparse n Pipe us) (\<lambda>d ts. pret (SPipe (den (word_of b) cmd) d) ts)) (pbind (parsepipe j b es s4) (\<lambda>right s. pret (pipecmd cmd right) s))"
      by (rule sim_bind) (simp add: pipecmd_def r(3))
    then show ?thesis using Some g by simp
  qed
qed

lemma parseblock_sim:
  assumes "buf_ok b es" and "s \<le> es" and "toks b es s = LPar # us" and "length us < j"
    and "\<And>s'. s' \<le> es \<Longrightarrow> toks b es s' = us \<Longrightarrow> sim b es (tparse n Line us) (parseline j b es s')"
  shows "sim b es (pbind (tparse n Line us) (\<lambda>c ts. case after RPar ts of None \<Rightarrow> ppanic ''syntax - missing )'' | Some ts \<Rightarrow> tredirs c ts)) (parseblock (Suc j) b es s)"
proof -
  have "after LPar (toks b es s) = Some us" using assms(3) by (simp add: after_Some)
  then obtain s2 q e s3 where h: "peek b es s [kind LPar] = (True, s2)" "gettoken b es s2 = (kind LPar, q, e, s3)" "s3 \<le> es" "toks b es s3 = us"
    by (rule peek_some [OF assms(1,2)]) auto
  have "sim b es (pbind (tparse n Line us) (\<lambda>c ts. case after RPar ts of None \<Rightarrow> ppanic ''syntax - missing )'' | Some ts \<Rightarrow> tredirs c ts))
    (pbind (parseline j b es s3) (\<lambda>cmd s. let (p, s) = peek b es s (chars '')'') in
      if \<not> p then ppanic ''syntax - missing )'' else let (_, _, _, s) = gettoken b es s in parseredirs j b es cmd s))"
  proof (rule sim_bind [OF assms(5) [OF h(3,4)]])
    fix cmd s4
    assume r: "tparse n Line us = pret (den (word_of b) cmd) (toks b es s4)" "s4 \<le> es" "placed b es cmd"
    show "sim b es (case after RPar (toks b es s4) of None \<Rightarrow> ppanic ''syntax - missing )'' | Some ts \<Rightarrow> tredirs (den (word_of b) cmd) ts)
      (let (p, s) = peek b es s4 (chars '')'') in
        if \<not> p then ppanic ''syntax - missing )'' else let (_, _, _, s) = gettoken b es s in parseredirs j b es cmd s)"
    proof (cases "after RPar (toks b es s4)")
      case None
      obtain s5 where "peek b es s4 [kind RPar] = (False, s5)" by (rule peek_none [OF assms(1) r(2) None]) auto
      then show ?thesis using None by simp
    next
      case (Some vs)
      obtain s5 q e s6 where p: "peek b es s4 [kind RPar] = (True, s5)" "gettoken b es s5 = (kind RPar, q, e, s6)" "s6 \<le> es" "toks b es s6 = vs"
        by (rule peek_some [OF assms(1) r(2) Some]) auto
      have "length vs < j" using tparse_length [OF r(1)] Some assms(4) by (simp add: after_Some)
      then show ?thesis using Some p parseredirs_sim [OF assms(1) p(3) r(3), of j] by simp
    qed
  qed
  then show ?thesis using h by simp
qed

lemma parseexec_sim:
  assumes "buf_ok b es" and "s \<le> es" and "length (toks b es s) < j"
    and "\<And>s'. s' \<le> es \<Longrightarrow> length (toks b es s') < length (toks b es s) \<Longrightarrow> sim b es (tparse n Line (toks b es s')) (parseline j b es s')"
  shows "sim b es (tparse (Suc n) Exec (toks b es s)) (parseexec (Suc (Suc j)) b es s)"
proof (cases "after LPar (toks b es s)")
  case None
  obtain s1 where k: "peek b es s [kind LPar] = (False, s1)" "s1 \<le> es" "toks b es s1 = toks b es s"
    by (rule peek_none [OF assms(1,2) None]) auto
  have "sim b es (tredirs (SExec []) (toks b es s1)) (parseredirs (Suc j) b es execcmd s1)"
    using parseredirs_sim [OF assms(1) k(2), of execcmd "Suc j"] k(3) assms(3) by (simp add: execcmd_def)
  then have "sim b es (pbind (tredirs (SExec []) (toks b es s1)) (\<lambda>c ts. targs 0 c ts)) (pbind (parseredirs (Suc j) b es execcmd s1) (\<lambda>ret s. parseargs (Suc j) b es 0 ret s))"
  proof (rule sim_bind)
    fix cmd s2
    assume r: "tredirs (SExec []) (toks b es s1) = pret (den (word_of b) cmd) (toks b es s2)" "s2 \<le> es" "placed b es cmd"
    have "length (toks b es s2) < Suc j" using tredirs_length [OF r(1)] k(3) assms(3) by simp
    then show "sim b es (targs 0 (den (word_of b) cmd) (toks b es s2)) (parseargs (Suc j) b es 0 cmd s2)"
      by (rule parseargs_sim [OF assms(1) r(2,3)])
  qed
  then show ?thesis using None k by (simp del: parseredirs.simps parseargs.simps)
next
  case (Some us)
  obtain s1 where g: "peek b es s [kind LPar] = (True, s1)" "s1 \<le> es" "toks b es s1 = LPar # us"
    by (rule peek_some [OF assms(1,2) Some]) auto
  have l: "length us < j" "length us < length (toks b es s)" using assms(3) Some by (simp_all add: after_Some)
  have "sim b es (tparse n Line us) (parseline j b es s')" if "s' \<le> es" "toks b es s' = us" for s'
    using assms(4) [OF that(1)] that(2) l(2) by simp
  from parseblock_sim [OF assms(1) g(2,3) l(1) this] show ?thesis using Some g(1) by (simp del: parseblock.simps)
qed

lemma parse_sim:
  assumes "buf_ok b es"
  shows "s \<le> es \<Longrightarrow> 2 * n + length (toks b es s) + 2 \<le> m \<Longrightarrow>
    sim b es (tparse n k (toks b es s)) (case k of Line \<Rightarrow> parseline m b es s | Pipe \<Rightarrow> parsepipe m b es s | Exec \<Rightarrow> parseexec m b es s)"
proof (induction n arbitrary: k s m)
  case (Suc n)
  then obtain i where m: "m = Suc (Suc i)" "2 * n + length (toks b es s) + 2 \<le> i" by (cases m; cases "m - 1") auto
  have IH: "sim b es (tparse n k (toks b es s')) (case k of Line \<Rightarrow> parseline j b es s' | Pipe \<Rightarrow> parsepipe j b es s' | Exec \<Rightarrow> parseexec j b es s')"
    if "s' \<le> es" "length (toks b es s') \<le> length (toks b es s)" "i \<le> j" for s' k j
    using Suc.IH [OF that(1), of j k] that(2,3) m(2) by simp
  show ?case
  proof (cases k)
    case Line
    then show ?thesis using parseline_sim [OF assms, of s "Suc i" n] IH [of s "Suc i" Pipe] IH [of _ "Suc i" Line] Suc.prems(1) m by (simp del: tparse.simps parseline.simps)
  next
    case Pipe
    then show ?thesis using parsepipe_sim [OF assms, of n s "Suc i"] IH [of s "Suc i" Exec] IH [of _ "Suc i" Pipe] Suc.prems(1) m by (simp del: tparse.simps parsepipe.simps)
  next
    case Exec
    then show ?thesis using parseexec_sim [OF assms Suc.prems(1), of i n] IH [of _ i Line] m by (simp del: tparse.simps parseexec.simps)
  qed
qed simp

section \<open>The grammar\<close>

datatype item = Arg "uchar list" | Redir tok "uchar list"

fun item_toks :: "item \<Rightarrow> tok list" where
  "item_toks (Arg x) = [Word x]"
| "item_toks (Redir t x) = [t, Word x]"

fun item_ok :: "item \<Rightarrow> bool" where
  "item_ok (Arg x) \<longleftrightarrow> True"
| "item_ok (Redir t x) \<longleftrightarrow> is_redir t"

fun item_args :: "item list \<Rightarrow> uchar list list" where
  "item_args [] = []"
| "item_args (Arg x # its) = x # item_args its"
| "item_args (Redir t x # its) = item_args its"

fun item_redirs :: "item list \<Rightarrow> (tok \<times> uchar list) list" where
  "item_redirs [] = []"
| "item_redirs (Arg x # its) = item_redirs its"
| "item_redirs (Redir t x # its) = (t, x) # item_redirs its"

text \<open>
  A command is a sequence of arguments and redirections with fewer than \<^verbatim>\<open>MAXARGS\<close> arguments, or a line
  in parentheses with redirections; the last redirection is the outermost. Commands are joined by
  \<^verbatim>\<open>|\<close> to pipelines, a pipeline is followed by any number of \<^verbatim>\<open>&\<close>, and pipelines are joined by \<^verbatim>\<open>;\<close> to lines.
\<close>

inductive derives :: "phrase \<Rightarrow> tok list \<Rightarrow> scmd \<Rightarrow> bool" where
  simple: "list_all item_ok its \<Longrightarrow> length (item_args its) < MAXARGS \<Longrightarrow>
    derives Exec (concat (map item_toks its)) (fold wrap (item_redirs its) (SExec (item_args its)))"
| block: "derives Line ts c \<Longrightarrow> list_all (\<lambda>(t, x). is_redir t) rs \<Longrightarrow>
    derives Exec (LPar # ts @ RPar # concat (map (\<lambda>(t, x). [t, Word x]) rs)) (fold wrap rs c)"
| pipe1: "derives Exec ts c \<Longrightarrow> derives Pipe ts c"
| pipe2: "derives Exec ts c \<Longrightarrow> derives Pipe us d \<Longrightarrow> derives Pipe (ts @ Bar # us) (SPipe c d)"
| line1: "derives Pipe ts c \<Longrightarrow> derives Line (ts @ replicate k Amp) ((SBack ^^ k) c)"
| line2: "derives Pipe ts c \<Longrightarrow> derives Line us d \<Longrightarrow> derives Line (ts @ replicate k Amp @ Semi # us) (SList ((SBack ^^ k) c) d)"

lemma sarg_wrap: "sarg x (wrap r c) = wrap r (sarg x c)"
  by (simp add: wrap_def)

lemma sarg_fold: "sarg x (fold wrap rs (SExec xs)) = fold wrap rs (SExec (xs @ [x]))"
  by (induction rs arbitrary: xs rule: rev_induct) (simp_all add: sarg_wrap)

text \<open>The arguments and redirections of a command are added one by one.\<close>

fun add_item :: "item \<Rightarrow> scmd \<Rightarrow> scmd" where
  "add_item (Arg x) c = sarg x c"
| "add_item (Redir t x) c = wrap (t, x) c"

lemma fold_add_item: "fold add_item its (fold wrap rs (SExec xs)) = fold wrap (rs @ item_redirs its) (SExec (xs @ item_args its))"
proof (induction its arbitrary: rs xs)
  case (Cons i its)
  show ?case
  proof (cases i)
    case (Arg x)
    then show ?thesis using Cons.IH [of rs "xs @ [x]"] by (simp add: sarg_fold)
  next
    case (Redir t x)
    then show ?thesis using Cons.IH [of "rs @ [(t, x)]" xs] by simp
  qed
qed simp

lemma item_args_append: "item_args (its @ its') = item_args its @ item_args its'"
  by (induction its rule: item_args.induct) auto

lemma item_args_redirs: "item_args (map (\<lambda>(t, x). Redir t x) rs) = []"
  by (induction rs) auto

section \<open>What the parser accepts is in the grammar\<close>

lemma tredirs_sound:
  "tredirs c ts = pret c' r \<Longrightarrow>
    \<exists>rs. ts = concat (map (\<lambda>(t, x). [t, Word x]) rs) @ r \<and> list_all (\<lambda>(t, x). is_redir t) rs \<and> c' = fold wrap rs c \<and> (r = [] \<or> \<not> is_redir (hd r))"
proof (induction c ts rule: tredirs.induct)
  case (1 c)
  then show ?case by (intro exI [of _ "[]"]) simp
next
  case (2 c t ts)
  show ?case
  proof (cases "is_redir t")
    case False
    then show ?thesis using 2 by (intro exI [of _ "[]"]) auto
  next
    case True
    then obtain x us where us: "ts = Word x # us" "tredirs (wrap (t, x) c) us = pret c' r" using 2(2) by (auto split: list.splits tok.splits)
    obtain rs where rs: "us = concat (map (\<lambda>(t, x). [t, Word x]) rs) @ r" "list_all (\<lambda>(t, x). is_redir t) rs" "c' = fold wrap rs (wrap (t, x) c)"
        "r = [] \<or> \<not> is_redir (hd r)"
      using 2(1) [OF True us(1) refl us(2)] by blast
    then show ?thesis using True us(1) by (intro exI [of _ "(t, x) # rs"]) simp
  qed
qed

lemma redirs_as_items:
  "concat (map (\<lambda>(t, x). [t, Word x]) rs) = concat (map item_toks (map (\<lambda>(t, x). Redir t x) rs))"
  "fold wrap rs c = fold add_item (map (\<lambda>(t, x). Redir t x) rs) c"
  "list_all (\<lambda>(t, x). is_redir t) rs \<Longrightarrow> list_all item_ok (map (\<lambda>(t, x). Redir t x) rs)"
  by (induction rs arbitrary: c) auto

lemma targs_sound:
  "targs argc c ts = pret c' r \<Longrightarrow> argc < MAXARGS \<Longrightarrow>
    \<exists>its. ts = concat (map item_toks its) @ r \<and> list_all item_ok its \<and> c' = fold add_item its c \<and> argc + length (item_args its) < MAXARGS"
proof (induction argc c ts rule: targs.induct)
  case (1 argc c)
  then show ?case by (intro exI [of _ "[]"]) simp
next
  case (2 argc c t ts)
  show ?case
  proof (cases "t \<in> {Bar, RPar, Amp, Semi}")
    case True
    then show ?thesis using 2 by (intro exI [of _ "[]"]) auto
  next
    case False
    then obtain x where x: "t = Word x" using 2(2) by (cases t) auto
    then have m: "\<not> MAXARGS \<le> argc + 1" using 2(2) by auto
    obtain d us where d: "tredirs (sarg x c) ts = pret d us" "targs (argc + 1) d us = pret c' r"
      using 2(2) x m by (auto simp: pbind_eq_pret)
    obtain rs where rs: "ts = concat (map (\<lambda>(t, x). [t, Word x]) rs) @ us" "list_all (\<lambda>(t, x). is_redir t) rs" "d = fold wrap rs (sarg x c)"
      using tredirs_sound [OF d(1)] by blast
    obtain its where its: "us = concat (map item_toks its) @ r" "list_all item_ok its" "c' = fold add_item its d" "argc + 1 + length (item_args its) < MAXARGS"
      using 2(1) [OF False x m d(1) d(2)] m by auto
    let ?its = "Arg x # map (\<lambda>(t, x). Redir t x) rs @ its"
    have "list_all item_ok ?its" using redirs_as_items(3) [OF rs(2)] its(2) by simp
    moreover have "c' = fold add_item ?its c" using its(3) rs(3) redirs_as_items(2) by simp
    moreover have "t # ts = concat (map item_toks ?its) @ r" using x rs(1) its(1) redirs_as_items(1) by simp
    moreover have "argc + length (item_args ?its) < MAXARGS" using its(4) by (simp add: item_args_append item_args_redirs)
    ultimately show ?thesis by blast
  qed
qed

lemma tback_sound: "\<exists>k r. ts = replicate k Amp @ r \<and> tback c ts = ((SBack ^^ k) c, r) \<and> after Amp r = None"
proof (induction c ts rule: tback.induct)
  case (1 c ts)
  then obtain k r where "ts = replicate k Amp @ r" "tback (SBack c) ts = ((SBack ^^ k) (SBack c), r)" "after Amp r = None" by blast
  then show ?case by (intro exI [of _ "Suc k"] exI [of _ r]) (simp add: funpow_swap1)
qed (simp_all add: after_def)

lemma tparse_sound: "tparse n k ts = pret c r \<Longrightarrow> \<exists>us. ts = us @ r \<and> derives k us c"
proof (induction n arbitrary: k ts c r)
  case (Suc n)
  show ?case
  proof (cases k)
    case Line
    obtain c1 t1 where 1: "tparse n Pipe ts = pret c1 t1" using Suc.prems Line by (auto simp: pbind_eq_pret)
    obtain j t2 where t2: "t1 = replicate j Amp @ t2" "tback c1 t1 = ((SBack ^^ j) c1, t2)" using tback_sound by blast
    obtain us where us: "ts = us @ t1" "derives Pipe us c1" using Suc.IH [OF 1] by blast
    show ?thesis
    proof (cases "after Semi t2")
      case None
      then have "c = (SBack ^^ j) c1" "r = t2" using Suc.prems Line 1 t2(2) by simp_all
      then show ?thesis using line1 [OF us(2), of j] us(1) t2(1) Line by simp
    next
      case (Some vs)
      then obtain d where d: "tparse n Line vs = pret d r" "c = SList ((SBack ^^ j) c1) d" using Suc.prems Line 1 t2(2) by (auto simp: pbind_eq_pret)
      obtain ws where "vs = ws @ r" "derives Line ws d" using Suc.IH [OF d(1)] by blast
      then show ?thesis using line2 [OF us(2), of ws d j] us(1) t2(1) Line Some d(2) by (simp add: after_Some)
    qed
  next
    case Pipe
    obtain c1 t1 where 1: "tparse n Exec ts = pret c1 t1" using Suc.prems Pipe by (auto simp: pbind_eq_pret)
    obtain us where us: "ts = us @ t1" "derives Exec us c1" using Suc.IH [OF 1] by blast
    show ?thesis
    proof (cases "after Bar t1")
      case None
      then show ?thesis using pipe1 [OF us(2)] us(1) Suc.prems Pipe 1 by simp
    next
      case (Some vs)
      then obtain d where d: "tparse n Pipe vs = pret d r" "c = SPipe c1 d" using Suc.prems Pipe 1 by (auto simp: pbind_eq_pret)
      obtain ws where "vs = ws @ r" "derives Pipe ws d" using Suc.IH [OF d(1)] by blast
      then show ?thesis using pipe2 [OF us(2), of ws d] us(1) Pipe Some d(2) by (simp add: after_Some)
    qed
  next
    case Exec
    show ?thesis
    proof (cases "after LPar ts")
      case None
      then obtain d us where d: "tredirs (SExec []) ts = pret d us" "targs 0 d us = pret c r" using Suc.prems Exec by (auto simp: pbind_eq_pret)
      obtain rs where rs: "ts = concat (map (\<lambda>(t, x). [t, Word x]) rs) @ us" "list_all (\<lambda>(t, x). is_redir t) rs" "d = fold wrap rs (SExec [])"
        using tredirs_sound [OF d(1)] by blast
      obtain its where its: "us = concat (map item_toks its) @ r" "list_all item_ok its" "c = fold add_item its d" "length (item_args its) < MAXARGS"
        using targs_sound [OF d(2)] by (auto simp: MAXARGS_def)
      let ?its = "map (\<lambda>(t, x). Redir t x) rs @ its"
      have "c = fold add_item ?its (SExec [])" using its(3) rs(3) redirs_as_items(2) by simp
      then have "c = fold wrap (item_redirs ?its) (SExec (item_args ?its))" using fold_add_item [of ?its "[]" "[]"] by simp
      then show ?thesis using simple [of ?its] its rs redirs_as_items Exec by (simp add: item_args_append item_args_redirs)
    next
      case (Some us)
      obtain c1 t1 where 1: "tparse n Line us = pret c1 t1" using Suc.prems Exec Some by (auto simp: pbind_eq_pret)
      then obtain vs where vs: "t1 = RPar # vs" "tredirs c1 vs = pret c r" using Suc.prems Exec Some by (auto simp: after_Some split: option.splits)
      obtain ws where ws: "us = ws @ t1" "derives Line ws c1" using Suc.IH [OF 1] by blast
      obtain rs where rs: "vs = concat (map (\<lambda>(t, x). [t, Word x]) rs) @ r" "list_all (\<lambda>(t, x). is_redir t) rs" "c = fold wrap rs c1"
        using tredirs_sound [OF vs(2)] by blast
      then show ?thesis using block [OF ws(2) rs(2)] ws(1) vs(1) Some Exec by (simp add: after_Some)
    qed
  qed
qed simp

section \<open>What is in the grammar is accepted\<close>

fun follow :: "phrase \<Rightarrow> tok set" where
  "follow Line = {RPar}"
| "follow Pipe = {RPar, Amp, Semi}"
| "follow Exec = {RPar, Amp, Semi, Bar}"

definition ends_in :: "phrase \<Rightarrow> tok list \<Rightarrow> bool" where
  "ends_in k r \<longleftrightarrow> r = [] \<or> hd r \<in> follow k"

fun level :: "phrase \<Rightarrow> nat" where
  "level Line = 3"
| "level Pipe = 2"
| "level Exec = 1"

lemma ends_in_mono: "ends_in Line r \<Longrightarrow> ends_in Pipe r" "ends_in Pipe r \<Longrightarrow> ends_in Exec r"
  by (auto simp: ends_in_def)

lemma ends_in_Exec: "ends_in Exec r \<Longrightarrow> tredirs c r = pret c r \<and> targs argc c r = pret c r \<and> after LPar r = None"
  by (cases r) (auto simp: ends_in_def is_redir_def after_def)

lemma tredirs_complete:
  "list_all (\<lambda>(t, x). is_redir t) rs \<Longrightarrow> ends_in Exec r \<Longrightarrow> tredirs c (concat (map (\<lambda>(t, x). [t, Word x]) rs) @ r) = pret (fold wrap rs c) r"
  by (induction rs arbitrary: c) (auto simp: ends_in_Exec)

lemma items_complete:
  "list_all item_ok its \<Longrightarrow> ends_in Exec r \<Longrightarrow> argc + length (item_args its) < MAXARGS \<Longrightarrow>
    pbind (tredirs c (concat (map item_toks its) @ r)) (\<lambda>c ts. targs argc c ts) = pret (fold add_item its c) r"
proof (induction its arbitrary: c argc)
  case (Cons i its)
  show ?case
  proof (cases i)
    case (Arg x)
    then show ?thesis using Cons.IH [of "argc + 1" "sarg x c"] Cons.prems by (simp add: is_redir_def)
  next
    case (Redir t x)
    then show ?thesis using Cons by simp
  qed
qed (simp add: ends_in_Exec)

lemma items_no_paren: "list_all item_ok its \<Longrightarrow> ends_in Exec r \<Longrightarrow> after LPar (concat (map item_toks its) @ r) = None"
proof (induction its)
  case (Cons i its)
  then show ?case by (cases i) (auto simp: after_def is_redir_def)
qed (simp add: ends_in_Exec)

lemma tback_complete: "after Amp r = None \<Longrightarrow> tback c (replicate k Amp @ r) = ((SBack ^^ k) c, r)"
proof (induction k arbitrary: c)
  case 0
  then show ?case by (cases "(c, r)" rule: tback.cases) (auto simp: after_def)
qed (simp add: funpow_swap1)

lemma tparse_complete:
  "derives k us c \<Longrightarrow> ends_in k r \<Longrightarrow> 3 * length (us @ r) + level k \<le> n \<Longrightarrow> tparse n k (us @ r) = pret c r"
proof (induction arbitrary: r n rule: derives.induct)
  case (simple its)
  then obtain m where "n = Suc m" by (cases n) auto
  then show ?case
    using simple items_no_paren [of its r] items_complete [of its r 0 "SExec []"] fold_add_item [of its "[]" "[]"] by simp
next
  case (block ts c rs)
  then obtain m where m: "n = Suc m" by (cases n) auto
  have e: "ends_in Line (RPar # concat (map (\<lambda>(t, x). [t, Word x]) rs) @ r)" by (simp add: ends_in_def)
  have "tparse m Line (ts @ RPar # concat (map (\<lambda>(t, x). [t, Word x]) rs) @ r) = pret c (RPar # concat (map (\<lambda>(t, x). [t, Word x]) rs) @ r)"
    using block.IH [OF e] block.prems(2) m by simp
  then show ?case using m tredirs_complete [OF block.hyps(2) block.prems(1)] by (simp add: after_def)
next
  case (pipe1 ts c)
  then obtain m where m: "n = Suc m" by (cases n) auto
  have "after Bar r = None" using pipe1.prems(1) by (auto simp: ends_in_def after_def)
  then show ?case using pipe1.IH [OF ends_in_mono(2) [OF pipe1.prems(1)], of m] pipe1.prems(2) m by simp
next
  case (pipe2 ts c us d)
  then obtain m where m: "n = Suc m" by (cases n) auto
  have "ends_in Exec (Bar # us @ r)" by (simp add: ends_in_def)
  then have "tparse m Exec (ts @ Bar # us @ r) = pret c (Bar # us @ r)" using pipe2.IH(1) pipe2.prems(2) m by simp
  moreover have "tparse m Pipe (us @ r) = pret d r" using pipe2.IH(2) [OF pipe2.prems(1), of m] pipe2.prems(2) m by simp
  ultimately show ?case using m by (simp add: after_def)
next
  case (line1 ts c k)
  then obtain m where m: "n = Suc m" by (cases n) auto
  have "ends_in Pipe (replicate k Amp @ r)" using ends_in_mono(1) [OF line1.prems(1)] by (cases k) (auto simp: ends_in_def)
  then have "tparse m Pipe (ts @ replicate k Amp @ r) = pret c (replicate k Amp @ r)" using line1.IH line1.prems(2) m by simp
  moreover have "after Amp r = None" "after Semi r = None" using line1.prems(1) by (auto simp: ends_in_def after_def)
  ultimately show ?case using m tback_complete [of r] by simp
next
  case (line2 ts c us d k)
  then obtain m where m: "n = Suc m" by (cases n) auto
  have "ends_in Pipe (replicate k Amp @ Semi # us @ r)" by (cases k) (auto simp: ends_in_def)
  then have "tparse m Pipe (ts @ replicate k Amp @ Semi # us @ r) = pret c (replicate k Amp @ Semi # us @ r)" using line2.IH(1) line2.prems(2) m by simp
  moreover have "tparse m Line (us @ r) = pret d r" using line2.IH(2) [OF line2.prems(1), of m] line2.prems(2) m by simp
  ultimately show ?case using m tback_complete [of "Semi # us @ r"] by (simp add: after_def)
qed

lemma tredirs_total: "tredirs c ts \<noteq> None"
  by (induction c ts rule: tredirs.induct) (auto simp del: not_None_eq split: list.splits tok.splits)

lemma targs_total: "targs argc c ts \<noteq> None"
proof (induction argc c ts rule: targs.induct)
  case (2 argc c t ts)
  show ?case
  proof (cases t)
    case (Word x)
    then show ?thesis using 2 tredirs_total [of "sarg x c" ts] by (cases "tredirs (sarg x c) ts" rule: parse_cases) (auto simp del: not_None_eq)
  qed (auto simp del: not_None_eq)
qed (simp del: not_None_eq)

lemma pbind_total: "r \<noteq> None \<Longrightarrow> (\<And>x s. r = pret x s \<Longrightarrow> f x s \<noteq> None) \<Longrightarrow> pbind r f \<noteq> None"
  by (cases r rule: parse_cases) auto

lemma tparse_total: "3 * length ts + level k \<le> n \<Longrightarrow> tparse n k ts \<noteq> None"
proof (induction n arbitrary: k ts)
  case 0
  then show ?case by (cases k) auto
next
  case (Suc n)
  show ?case
  proof (cases k)
    case Line
    show ?thesis unfolding Line tparse.simps phrase.case
    proof (rule pbind_total)
      show "tparse n Pipe ts \<noteq> None" using Suc Line by simp
      fix c t1 assume 1: "tparse n Pipe ts = pret c t1"
      obtain d t2 where t: "tback c t1 = (d, t2)" by fastforce
      have "tparse n Line us \<noteq> None" if "t2 = Semi # us" for us
        using Suc.IH [of us Line] Suc.prems Line tparse_length [OF 1] tback_length [OF t] that by simp
      then show "(let (c, ts) = tback c t1 in case after Semi ts of None \<Rightarrow> pret c ts | Some ts \<Rightarrow> pbind (tparse n Line ts) (\<lambda>d ts. pret (SList c d) ts)) \<noteq> None"
        using t by (cases "after Semi t2") (simp_all add: after_Some pbind_total del: not_None_eq)
    qed
  next
    case Pipe
    show ?thesis unfolding Pipe tparse.simps phrase.case
    proof (rule pbind_total)
      show "tparse n Exec ts \<noteq> None" using Suc Pipe by simp
      fix c t1 assume 1: "tparse n Exec ts = pret c t1"
      have "tparse n Pipe us \<noteq> None" if "t1 = Bar # us" for us
        using Suc.IH [of us Pipe] Suc.prems Pipe tparse_length [OF 1] that by simp
      then show "(case after Bar t1 of None \<Rightarrow> pret c t1 | Some ts \<Rightarrow> pbind (tparse n Pipe ts) (\<lambda>d ts. pret (SPipe c d) ts)) \<noteq> None"
        by (cases "after Bar t1") (simp_all add: after_Some pbind_total del: not_None_eq)
    qed
  next
    case Exec
    have "tparse n Line us \<noteq> None" if "ts = LPar # us" for us using Suc.IH [of us Line] Suc.prems Exec that by simp
    then show ?thesis unfolding Exec tparse.simps phrase.case
      by (cases "after LPar ts") (simp_all add: after_Some tredirs_total targs_total pbind_total split: option.split del: not_None_eq)
  qed
qed

section \<open>The strings of a parsed command\<close>

fun ends :: "cmd \<Rightarrow> nat set" where
  "ends Null = {}"
| "ends (EXEC as) = snd ` set as"
| "ends (REDIR c f ef mode fd) = insert ef (ends c)"
| "ends (PIPE l r) = ends l \<union> ends r"
| "ends (LIST l r) = ends l \<union> ends r"
| "ends (BACK c) = ends c"

lemma zero_nth: "i < length b \<Longrightarrow> b[e := 0] ! i = (if i = e then 0 else b ! i)"
  by (cases "i = e") auto

lemma zero_ends: "length (fold (\<lambda>(q, eq) b. b[eq := 0]) as b) = length b"
  "i < length b \<Longrightarrow> fold (\<lambda>(q, eq) b. b[eq := 0]) as b ! i = (if i \<in> snd ` set as then 0 else b ! i)"
  by (induction as arbitrary: b) (simp_all add: zero_nth case_prod_beta)

lemma nulterminate_nth:
  "length (nulterminate c b) = length b" "i < length b \<Longrightarrow> nulterminate c b ! i = (if i \<in> ends c then 0 else b ! i)"
  by (induction c arbitrary: b) (simp_all add: zero_ends zero_nth)

lemma placed_ends: "placed b es c \<Longrightarrow> e \<in> ends c \<Longrightarrow> e \<le> es \<and> \<not> (wordchar (b ! e) \<and> b ! e \<noteq> 0)"
  by (induction c) (auto simp: word_at_def)

lemma str_at_word:
  assumes "buf_ok b es" and "placed b es c" and "word_at b es (q, e)" and "e \<in> ends c"
  shows "str_at (nulterminate c b) q = word_of b (q, e)"
proof -
  let ?b = "nulterminate c b"
  have r: "q < e" "e \<le> es" "e < length b" using assms(1,3) by (auto simp: word_at_def buf_ok_def)
  have n: "?b ! i = b ! i \<and> b ! i \<noteq> 0" if "q \<le> i" "i < e" for i
    using that assms r nulterminate_nth(2) [of i b c] placed_ends [OF assms(2), of i] by (auto simp: word_at_def buf_ok_def)
  have z: "?b ! e = 0" using nulterminate_nth(2) [OF r(3), of c] assms(4) by simp
  have "drop q ?b = map (\<lambda>i. b ! i) [q..<e] @ 0 # drop (Suc e) ?b"
  proof -
    have "drop q ?b = drop q (take e ?b @ drop e ?b)" by simp
    also have "\<dots> = drop q (take e ?b) @ drop e ?b" using r by (subst drop_append) (simp add: nulterminate_nth(1))
    also have "drop e ?b = 0 # drop (Suc e) ?b" using r z Cons_nth_drop_Suc [of e ?b] by (simp add: nulterminate_nth(1))
    also have "drop q (take e ?b) = map (\<lambda>i. b ! i) [q..<e]" using r n by (intro nth_equalityI) (auto simp: nulterminate_nth(1))
    finally show ?thesis .
  qed
  moreover have "map (\<lambda>i. b ! i) [q..<e] = word_of b (q, e)"
    using r by (intro nth_equalityI) (auto simp: word_of_def text_from_def)
  moreover have "\<forall>x \<in> set (map (\<lambda>i. b ! i) [q..<e]). x \<noteq> 0" using n by auto
  ultimately show ?thesis by (simp add: str_at_def takeWhile_append2)
qed

text \<open>The command with the strings that \<^verbatim>\<open>runcmd\<close> reads from a buffer.\<close>

definition command_of :: "uchar list \<Rightarrow> cmd \<Rightarrow> scmd" where
  "command_of b = den (\<lambda>(q, e). str_at b q)"

lemma den_cong: "(\<And>a. snd a \<in> ends c \<Longrightarrow> word_at b es a \<Longrightarrow> f a = g a) \<Longrightarrow> placed b es c \<Longrightarrow> den f c = den g c"
  by (induction c) (auto simp: image_iff)

lemma command_of_nulterminate:
  assumes "buf_ok b es" and "placed b es c"
  shows "command_of (nulterminate c b) c = den (word_of b) c"
  unfolding command_of_def using str_at_word [OF assms] by (intro den_cong [OF _ assms(2)]) (auto simp: case_prod_beta)

lemma buf_ok_str:
  assumes "0 \<in> set b"
  shows "buf_ok b (length (str_at b 0))" and "str_at b 0 = text_from b (length (str_at b 0)) 0"
proof -
  obtain u v where b: "b = u @ 0 # v" "0 \<notin> set u" using split_list_first [OF assms] by blast
  have "takeWhile (\<lambda>c. c \<noteq> 0) (u @ 0 # v) = u" using b(2) by (subst takeWhile_append2) auto
  then have s: "str_at b 0 = u" by (simp add: str_at_def b(1))
  have "b ! i \<noteq> 0" if "i < length u" for i using that b by (auto simp: nth_append in_set_conv_nth)
  then show "buf_ok b (length (str_at b 0))" unfolding s by (simp add: buf_ok_def b(1))
  show "str_at b 0 = text_from b (length (str_at b 0)) 0" unfolding s by (simp add: text_from_def b(1))
qed

lemma peek_end: "buf_ok b es \<Longrightarrow> s \<le> es \<Longrightarrow> (snd (peek b es s []) = es) = (toks b es s = [])"
proof -
  assume a: "buf_ok b es" "s \<le> es"
  let ?p = "skip_while (in_str whitespace) b es s"
  have "toks b es ?p = toks b es s" by (rule toks_skip [OF a])
  moreover have "?p = es" if "toks b es s = []" using gettoken_none [OF a that] by (auto simp: gettoken_def Let_def split: if_splits)
  moreover have "toks b es es = []" by (simp add: toks_def)
  ultimately show ?thesis by (auto simp: peek_def Let_def)
qed

text \<open>The parse of the whole line, and the number of steps that is always enough.\<close>

lemma parseline_result:
  assumes "0 \<in> set b"
  defines "es \<equiv> length (str_at b 0)"
  shows "\<exists>r. r \<noteq> None \<and> sim b es r (parseline (8 * es + 8) b es 0) \<and> r = tparse (3 * length (lexer (str_at b 0)) + 3) Line (lexer (str_at b 0)) \<and> toks b es 0 = lexer (str_at b 0)"
proof -
  have b: "buf_ok b es" "str_at b 0 = text_from b es 0" using buf_ok_str [OF assms(1)] by (simp_all add: es_def)
  have t: "toks b es 0 = lexer (str_at b 0)" using b(2) by (simp add: toks_def)
  have l: "length (lexer (str_at b 0)) \<le> es" using lexer_length [of "str_at b 0"] by (simp add: es_def)
  have "sim b es (tparse (3 * length (toks b es 0) + 3) Line (toks b es 0)) (parseline (8 * es + 8) b es 0)"
    using parse_sim [OF b(1), of 0 "3 * length (toks b es 0) + 3" "8 * es + 8" Line] t l by simp
  then show ?thesis using tparse_total [of "lexer (str_at b 0)" Line] t by (intro exI [of _ "tparse (3 * length (lexer (str_at b 0)) + 3) Line (lexer (str_at b 0))"]) simp
qed

lemma fprintf_s: "\<exists>w'. fprintf S fd (chars ''%s'' @ [0x0A]) [UStr (Some x)] w = uret () w'"
  by (simp add: fprintf_def chars_def of_char_def uret_def)

lemma sh_panic_exits: "\<exists>w'. sh_panic S msg w = Some (Exited 1, w')"
  using fprintf_s [of S 2 "chars msg" w] by (auto simp: sh_panic_def uexit_def)

lemma leftovers_exits: "\<exists>w'. ubind (fprintf S 2 (chars ''leftovers: %s'' @ [0x0A]) [UStr (Some x)] w) (\<lambda>_. sh_panic S msg) = Some (Exited 1, w')"
proof -
  obtain w1 where "fprintf S 2 (chars ''leftovers: %s'' @ [0x0A]) [UStr (Some x)] w = uret () w1"
    by (simp add: fprintf_def chars_def of_char_def)
  then show ?thesis using sh_panic_exits by simp
qed

text \<open>\<^verbatim>\<open>parsecmd\<close> in terms of the grammar.\<close>

lemma parsecmd_cases:
  assumes "0 \<in> set b"
  obtains (accepted) cmd where "parsecmd S b w = uret (cmd, nulterminate cmd b) w" and "placed b (length (str_at b 0)) cmd"
      and "derives Line (lexer (str_at b 0)) (command_of (nulterminate cmd b) cmd)"
    | (rejected) w' where "parsecmd S b w = Some (Exited 1, w')" and "\<And>c. \<not> derives Line (lexer (str_at b 0)) c"
proof -
  let ?ts = "lexer (str_at b 0)"
  define es where "es = length (str_at b 0)"
  define r where "r = tparse (3 * length ?ts + 3) Line ?ts"
  have b: "buf_ok b es" using buf_ok_str [OF assms] by (simp add: es_def)
  have r0: "r \<noteq> None" "sim b es r (parseline (8 * es + 8) b es 0)" using parseline_result [OF assms] by (auto simp: es_def r_def)
  have c: "r = pret c []" if "derives Line ?ts c" for c using tparse_complete [OF that, of "[]"] by (simp add: r_def ends_in_def)
  show ?thesis
  proof (cases r rule: parse_cases)
    case (panic msg)
    then have "parseline (8 * es + 8) b es 0 = ppanic msg" using r0(2) by simp
    then have "parsecmd S b w = sh_panic S msg w" by (simp add: parsecmd_def Let_def es_def [symmetric] ppanic_def)
    then show ?thesis using rejected sh_panic_exits [of S msg w] panic c by fastforce
  next
    case (ret d ts)
    then obtain cmd s where p: "parseline (8 * es + 8) b es 0 = pret cmd s" "s \<le> es" "toks b es s = ts" "den (word_of b) cmd = d" "placed b es cmd"
      using r0(2) by (auto simp: sim_def)
    obtain us where us: "?ts = us @ ts" "derives Line us d" using tparse_sound [of _ Line ?ts d ts] ret by (auto simp: r_def)
    show ?thesis
    proof (cases "ts = []")
      case True
      then have "parsecmd S b w = uret (cmd, nulterminate cmd b) w"
        using p(1,3) peek_end [OF b p(2)] by (simp add: parsecmd_def Let_def es_def [symmetric] pret_def case_prod_beta)
      then show ?thesis using accepted p(4,5) us True command_of_nulterminate [OF b p(5)] by (simp add: es_def)
    next
      case False
      then have "\<exists>w'. parsecmd S b w = Some (Exited 1, w')"
        using p(1,3) peek_end [OF b p(2)] leftovers_exits by (simp add: parsecmd_def Let_def es_def [symmetric] pret_def case_prod_beta)
      then show ?thesis using rejected c ret False by fastforce
    qed
  qed (use r0 in simp)
qed

fun few_args :: "scmd \<Rightarrow> bool" where
  "few_args SNull \<longleftrightarrow> False"
| "few_args (SExec xs) \<longleftrightarrow> length xs < MAXARGS"
| "few_args (SRedir c f mode fd) \<longleftrightarrow> few_args c \<and> (mode, fd) \<in> {(O_RDONLY, 0), (O_WRONLY OR O_CREATE OR O_TRUNC, 1), (O_WRONLY OR O_CREATE, 1)}"
| "few_args (SPipe c d) \<longleftrightarrow> few_args c \<and> few_args d"
| "few_args (SList c d) \<longleftrightarrow> few_args c \<and> few_args d"
| "few_args (SBack c) \<longleftrightarrow> few_args c"

lemma few_args_wrap: "few_args (fold wrap rs c) \<longleftrightarrow> few_args c"
  by (induction rs arbitrary: c) (auto simp: wrap_def)

lemma few_args_back: "few_args ((SBack ^^ k) c) \<longleftrightarrow> few_args c"
  by (induction k) auto

lemma derives_few_args: "derives k ts c \<Longrightarrow> few_args c"
  by (induction rule: derives.induct) (auto simp: few_args_wrap few_args_back)

text \<open>
  C12: \<^verbatim>\<open>parsecmd\<close> ends on every input buffer that holds a string. It ends the process with status 1,
  or returns a well-typed command: every argument and file name is a nonempty range of the string
  that consists of characters of words only, an \<^verbatim>\<open>exec\<close> has fewer than \<^verbatim>\<open>MAXARGS\<close> arguments, so that its
  terminating null pointer fits, and a redirection opens descriptor 0 or 1 in one of the three modes.
\<close>

theorem parsecmd_well_typed:
  assumes "0 \<in> set b"
  shows "(\<exists>cmd. parsecmd S b w = uret (cmd, nulterminate cmd b) w \<and> placed b (length (str_at b 0)) cmd \<and> few_args (command_of (nulterminate cmd b) cmd)) \<or>
    (\<exists>w'. parsecmd S b w = Some (Exited 1, w'))"
  using assms by (rule parsecmd_cases [where S = S and w = w]) (auto dest: derives_few_args)

theorem parsecmd_well_typed_witness:
  "\<exists>cmd. parsecmd pipe_calls [0x61, 0x7C, 0x62, 0] ([], []) = uret (cmd, nulterminate cmd [0x61, 0x7C, 0x62, 0]) ([], []) \<and> placed [0x61, 0x7C, 0x62, 0] 3 cmd \<and>
    few_args (command_of (nulterminate cmd [0x61, 0x7C, 0x62, 0]) cmd)"
proof -
  let ?b = "[0x61, 0x7C, 0x62, 0] :: uchar list"
  have "parsecmd pipe_calls ?b ([], []) = Some (Val (PIPE (EXEC [(0, 1)]) (EXEC [(2, 3)]), [0x61, 0, 0x62, 0]), ([], []))"
    by code_simp
  moreover have "0 \<in> set ?b" "length (str_at ?b 0) = 3" by (simp_all add: str_at_def)
  ultimately show ?thesis using parsecmd_well_typed [of ?b pipe_calls "([], [])"] by auto
qed

text \<open>
  C6: \<^verbatim>\<open>parsecmd\<close> decides the grammar of the shell and builds the command that the line denotes: the
  strings that \<^verbatim>\<open>runcmd\<close> finds in the buffer, after \<^verbatim>\<open>nulterminate\<close> has overwritten the characters that
  follow the words, make up the command \<open>c\<close> exactly if the tokens of the line derive \<open>c\<close>.
\<close>

theorem parsecmd_decides_grammar:
  assumes "0 \<in> set b"
  shows "(\<exists>cmd b'. parsecmd S b w = uret (cmd, b') w \<and> command_of b' cmd = c) \<longleftrightarrow> derives Line (lexer (str_at b 0)) c"
  using assms
proof (rule parsecmd_cases [where S = S and w = w])
  fix cmd
  assume a: "parsecmd S b w = uret (cmd, nulterminate cmd b) w" "derives Line (lexer (str_at b 0)) (command_of (nulterminate cmd b) cmd)"
  have "c = d" if "derives Line ts c" "derives Line ts d" for ts c d
    using tparse_complete [OF that(1), of "[]" "3 * length ts + 3"] tparse_complete [OF that(2), of "[]" "3 * length ts + 3"] by (simp add: ends_in_def)
  then show ?thesis using a by (auto simp: uret_def)
next
  fix w'
  assume "parsecmd S b w = Some (Exited 1, w')" "\<And>c. \<not> derives Line (lexer (str_at b 0)) c"
  then show ?thesis by (simp add: uret_def)
qed

theorem parsecmd_decides_grammar_witness:
  "\<exists>cmd b'. parsecmd pipe_calls (chars ''ls >f'' @ [0x0A, 0]) ([], []) = uret (cmd, b') ([], []) \<and>
    command_of b' cmd = SRedir (SExec [chars ''ls'']) (chars ''f'') (O_WRONLY OR O_CREATE OR O_TRUNC) 1"
proof -
  let ?b = "chars ''ls >f'' @ [0x0A, 0]"
  have "lexer (str_at ?b 0) = concat (map item_toks [Arg (chars ''ls''), Redir Gt (chars ''f'')])"
    by (simp add: chars_def of_char_def str_at_def lexer.simps(2) in_str_def whitespace_def wordchar_def symbols_def)
  then have "derives Exec (lexer (str_at ?b 0)) (SRedir (SExec [chars ''ls'']) (chars ''f'') (O_WRONLY OR O_CREATE OR O_TRUNC) 1)"
    using simple [of "[Arg (chars ''ls''), Redir Gt (chars ''f'')]"] by (simp add: is_redir_def MAXARGS_def wrap_def)
  from line1 [OF pipe1 [OF this], of 0]
  have "derives Line (lexer (str_at ?b 0)) (SRedir (SExec [chars ''ls'']) (chars ''f'') (O_WRONLY OR O_CREATE OR O_TRUNC) 1)" by simp
  moreover have "0 \<in> set ?b" by simp
  ultimately show ?thesis by (simp add: parsecmd_decides_grammar)
qed
end
