(* ===== verification/Spec2Isabelle.thy ===== *)
theory Spec2Isabelle
  imports Vm_Properties Log_Space Mkfs_Mount Sched Pipe_Spec Console_Spec Printf_Spec Fs_Path Boot Umalloc_Spec Sh_Spec
begin

text \<open>
  \<^bold>\<open>xv6 for RISC-V: a verification library\<close>

  The program is the teaching operating system xv6 with the extensions of its page-table exercise: a
  kernel (\<^verbatim>\<open>src/kernel\<close>) with processes, virtual memory, a file system with a redo log and drivers for
  the disk, the serial port and the interrupt controller, and user programs over its system calls
  (\<^verbatim>\<open>src/user\<close>); \<^verbatim>\<open>src/mkfs\<close> builds the image of the file system that the kernel mounts. The library models the code function by function, with the names of the source, and
  proves what the parts promise each other and their users.

  \<^bold>\<open>Conventions.\<close> Integers are words of the width that C gives them (\<open>uint64\<close>, \<open>uint32\<close>, \<open>ushort\<close>,
  \<open>uchar\<close>), so that arithmetic wraps as in the source; \<open>int\<close> values are read with \<open>sint\<close>. Counters that C keeps in
  an \<^verbatim>\<open>int\<close> and that go up and down by one (\<^verbatim>\<open>noff\<close>, the reference counts of inodes and open files, \<^verbatim>\<open>outstanding\<close>)
  are integers without a bound: the model agrees with the code as long as they stay below 2^31. A kernel
  routine returns \<open>Ok\<close> with its result and the new state, \<open>Panic\<close> with the message of \<^verbatim>\<open>panic\<close>, or
  \<open>Hang\<close> where it spins on a lock that only another hart can free. The state is a record that grows
  along the layers of the kernel (\<open>machine\<close>, \<open>ptab\<close>, \<open>bio\<close>, \<open>lsys\<close>, \<open>fsys\<close>, \<open>csys\<close>, \<open>files\<close>, \<open>kernel\<close>,
  \<open>boot\<close>), and an operation of a layer works on every extension of its record. A function that calls
  \<^verbatim>\<open>swtch\<close>, as every \<^verbatim>\<open>sleep\<close> does, is split there: one definition for the code up to the switch, one
  for the code after it. Loops are recursive functions with termination proofs; a loop that may run
  for ever is a partial function with the result \<open>None\<close>, and where the library claims that it returns
  that is part of the theorem. Hardware and what the build generates are parameters: the disk device
  \<open>D\<close> (\<open>virtio_device\<close> states what the virtio specification says of it), the serial chip \<open>U\<close>
  (\<open>uart_chip\<close>), the interrupt controller \<open>P\<close>, the registers of the disk \<open>V\<close>, addresses that the linker
  assigns, and for user programs the system calls \<open>S\<close> and \<^verbatim>\<open>sbrk\<close>.

  \<^bold>\<open>The theories.\<close>

  \<^item> \<open>Xv6_Prelude\<close>: result type, named collections of rules, facts on words, and the locale
    \<open>step_invariant\<close> of invariants of step relations. \<open>Riscv\<close>: \<^verbatim>\<open>param.h\<close>, \<^verbatim>\<open>memlayout.h\<close>, \<^verbatim>\<open>riscv.h\<close>.
    \<open>Kstring\<close>: byte memory and \<^verbatim>\<open>string.c\<close>; \<^verbatim>\<open>memmove\<close> copies as if at once, \<^verbatim>\<open>strncmp\<close> after \<^verbatim>\<open>strncpy\<close>
    decides equality of names.
  \<^item> \<open>Spinlock\<close>: \<^verbatim>\<open>spinlock.c\<close> as one hart runs it, and the step relation of many harts that interleave
    at their writes to the lock, in which at most one hart is inside and none panics.
  \<^item> \<open>Kalloc\<close>: \<^verbatim>\<open>kalloc.c\<close>. The locale \<open>page_allocator\<close> is what virtual memory relies on; it is
    interpreted on \<^verbatim>\<open>kalloc\<close> and \<^verbatim>\<open>kfree\<close>, whose free list runs through the free pages themselves.
  \<^item> \<open>Vm\<close>, \<open>Pagetable\<close>, \<open>Vm_Frame\<close>, \<open>Uvm\<close>, \<open>Uvmfree\<close>, \<open>Vm_Properties\<close>: \<^verbatim>\<open>vm.c\<close> on page tables in memory.
    \<open>pt_inv\<close> and \<open>uvm_inv\<close> are the invariants of a table and of an address space; mapping, growing,
    copying, shrinking and freeing an address space change exactly the entries they should; when memory
    runs out, no user page and no entry is left behind, only page-table pages stay in the table; what \<^verbatim>\<open>copyout\<close> stored \<^verbatim>\<open>copyin\<close> reads.
  \<^item> \<open>Proc\<close>, \<open>Proc_Sync\<close>, \<open>Sched\<close>, \<open>Sleeplock\<close>, \<open>Sleep_Spec\<close>: \<^verbatim>\<open>proc.c\<close> and \<^verbatim>\<open>sleeplock.c\<close>. \<^verbatim>\<open>wakeup\<close> and
    \<^verbatim>\<open>kill\<close> reach exactly the processes they name. The loop of \<^verbatim>\<open>scheduler\<close> has the code of the processes
    as a parameter; as long as every process gives the hart back, each pass of the loop runs exactly the
    processes that are runnable when it reaches them. The locale \<open>sleeplock_ref\<close> is interpreted on the locks
    of buffers and of inodes.
  \<^item> \<open>Virtio\<close>, \<open>Virtio_Spec\<close>, \<open>Bio\<close>, \<open>Bio_List\<close>, \<open>Bio_Spec\<close>, \<open>Bio_Res\<close>, \<open>Bio_Boot\<close>: \<^verbatim>\<open>virtio_disk.c\<close> and \<^verbatim>\<open>bio.c\<close>. A
    transfer moves one block; the linked list of buffers refines a list; the cache shows the layers
    above one content for every block (\<open>view\<close>) and counts their references.
  \<^item> \<open>Log\<close>, \<open>Log_Spec\<close>, \<open>Log_Crash\<close>, \<open>Log_Trans\<close>, \<open>Log_Space\<close>: \<^verbatim>\<open>log.c\<close>. A crash after any prefix of the writes of a
    commit, followed by the recovery of the next boot, leaves all blocks of the transaction old or all
    new; recovery may itself be interrupted. The step relation \<open>op_step\<close> of operations that begin, log
    blocks and end in any order keeps the logged and the reserved blocks within \<^verbatim>\<open>LOGSIZE\<close>.
  \<^item> \<open>Diskfmt\<close>, \<open>Fs\<close>, \<open>Fs_Block\<close>, \<open>Fs_Inode\<close>, \<open>Fs_File\<close>, \<open>Fs_Dir\<close>, \<open>Fs_Properties\<close>, \<open>Fs_Path\<close>: \<^verbatim>\<open>fs.h\<close> and
    \<^verbatim>\<open>fs.c\<close>. The layers refine each other: a bitmap, files as byte sequences over direct and indirect
    blocks, directories as lists of entries, paths as lists of names. The properties say what
    \<^verbatim>\<open>balloc\<close>, \<^verbatim>\<open>readi\<close>, \<^verbatim>\<open>writei\<close>, \<^verbatim>\<open>dirlookup\<close>, \<^verbatim>\<open>dirlink\<close> and \<^verbatim>\<open>namex\<close> do to the whole file system, with
    the inode table, the locks, the cache, the log and the disk below them.
  \<^item> \<open>Mkfs\<close>, \<open>Mkfs_Spec\<close>, \<open>Mkfs_Mount\<close>: \<^verbatim>\<open>mkfs/mkfs.c\<close>. The host's files are a parameter; the image that the program
    builds is one that \<^verbatim>\<open>fsinit\<close> mounts, with the root directory and the contents of the files.
  \<^item> \<open>Ringbuf\<close>, \<open>Uart\<close>, \<open>Uart_Spec\<close>, \<open>Console\<close>, \<open>Console_Spec\<close>, \<open>Printf_Spec\<close>, \<open>File\<close>, \<open>Pipe_Spec\<close>: \<^verbatim>\<open>uart.c\<close>,
    \<^verbatim>\<open>console.c\<close>, \<^verbatim>\<open>printf.c\<close>, \<^verbatim>\<open>file.c\<close> and \<^verbatim>\<open>pipe.c\<close>. The ring buffers of the three components are
    interpretations of the locale \<open>ring_size\<close>; pipes and the serial port are queues, the console is a
    line discipline, and \<^verbatim>\<open>printf\<close> sends what the pieces of its format prescribe (\<open>piece_out\<close>). The hypothesis
    \<open>uart_chip\<close> promises that a byte is sent only if it is written when the chip has just said that it is idle.
  \<^item> \<open>Sysfile\<close>, \<open>Exec\<close>, \<open>Trap\<close>, \<open>Boot\<close>: \<^verbatim>\<open>syscall.c\<close>, \<^verbatim>\<open>sysfile.c\<close>, \<^verbatim>\<open>exec.c\<close>, \<^verbatim>\<open>sysproc.c\<close>, \<^verbatim>\<open>trap.c\<close>, \<^verbatim>\<open>plic.c\<close>,
    \<^verbatim>\<open>start.c\<close>, \<^verbatim>\<open>main.c\<close> and the initialisation of the disk: every system call, both trap handlers and
    the start of the harts, as executable definitions over the components above.
    \<open>Sample\<close> is a machine to evaluate them on.
  \<^item> \<open>Umalloc\<close>, \<open>Umalloc_Spec\<close>: \<^verbatim>\<open>user/umalloc.c\<close>. The circular free list; \<^verbatim>\<open>malloc\<close> and \<^verbatim>\<open>free\<close> return, hand
    out disjoint blocks and coalesce.
  \<^item> \<open>Ulib\<close>, \<open>Uprog\<close>, \<open>Grep\<close>: \<^verbatim>\<open>user/ulib.c\<close>, \<^verbatim>\<open>user/printf.c\<close>, the small utilities, and \<^verbatim>\<open>grep\<close>, whose
    matcher decides the language of its pattern and which prints the matching lines of a file.
  \<^item> \<open>Sh\<close>, \<open>Sh_Spec\<close>: \<^verbatim>\<open>user/sh.c\<close>. The parser decides the grammar \<open>derives\<close> over the tokens of the line,
    and the strings that the interpreter reads from the buffer are the words of the line.

  \<^bold>\<open>Bounds.\<close> The recursion of the shell's parser is bounded by its first argument; \<^verbatim>\<open>parsecmd\<close> passes
  \<open>8 * n + 8\<close> for a line of \<open>n\<close> characters, and \<open>parseline_result\<close> shows that this never runs out. The
  endless loop of \<^verbatim>\<open>scheduler\<close> is modelled by the number of its passes, which is arbitrary. The
  invariant of reachable states of the spinlocks holds for any number of steps and harts. The
  transaction properties speak of a number of blocks that the transaction may still use, which stands
  for the reservation that \<^verbatim>\<open>begin_op\<close> makes; the one of \<^verbatim>\<open>writei\<close> counts eight for each block of the range, so
  that it covers calls of up to three blocks with the log of this kernel.

  \<^bold>\<open>Not modelled.\<close> The assembly of \<^verbatim>\<open>entry.S\<close>, \<^verbatim>\<open>swtch.S\<close>, \<^verbatim>\<open>trampoline.S\<close> and \<^verbatim>\<open>kernelvec.S\<close>, which saves and
  restores registers; the C code on both sides of it is. Interleavings of harts are modelled for
  spinlocks only: the other routines are the runs of one hart, from one switch to the next, with the
  locks they take. The RAM disk (\<^verbatim>\<open>ramdisk.c\<close>) is not part of the build. The test programs
  (\<^verbatim>\<open>usertests.c\<close>, \<^verbatim>\<open>grind.c\<close>, \<^verbatim>\<open>forktest.c\<close>, \<^verbatim>\<open>stressfs.c\<close>, \<^verbatim>\<open>pgtbltest.c\<close>) are lists of calls with expected
  results and have no state of their own. The messages that \<^verbatim>\<open>fs.c\<close> prints before it fails and those of
  \<^verbatim>\<open>mkfs.c\<close> are left out, as are the failure of \<^verbatim>\<open>malloc\<close> in the shell, the panic of \<^verbatim>\<open>printf\<close> on a null format,
  and in \<^verbatim>\<open>virtio_disk_intr\<close> the write that acknowledges the interrupt to the device.
\<close>

end
